(* ===== verification/Prelude.thy ===== *)
theory Prelude
  imports Main "HOL-Library.Multiset"
begin

text \<open>
  Vocabulary shared by every component: literals and variables as the code numbers them
  (a positive integer for a variable, its negation for the negated literal), truth of a
  literal under a total assignment, weighted sums over the monomials of a constraint, and
  the list facts the component theories use.
\<close>

named_theorems msum_simps \<open>equations for weighted sums over monomials\<close>
named_theorems getter_simps \<open>accessor equations of the records of the model\<close>

type_synonym lit = int
type_synonym var = int
type_synonym monomial = "int \<times> lit"
type_synonym assignment = "var \<Rightarrow> bool"

abbreviation INT_MAX :: int where "INT_MAX \<equiv> 2147483647"
abbreviation INT_MIN :: int where "INT_MIN \<equiv> - 2147483648"

text \<open>The value a signed integer of \<open>b\<close> bits has after a computation or a conversion.\<close>

definition wrap :: "nat \<Rightarrow> int \<Rightarrow> int" where
  "wrap b x = (x + 2 ^ (b - 1)) mod 2 ^ b - 2 ^ (b - 1)"

lemma wrap_id: "0 < b \<Longrightarrow> - (2 ^ (b - 1)) \<le> x \<Longrightarrow> x < 2 ^ (b - 1) \<Longrightarrow> wrap b x = x"
proof -
  assume "0 < b" and x: "- (2 ^ (b - 1)) \<le> x" "x < 2 ^ (b - 1)"
  then have "(2::int) ^ b = 2 * 2 ^ (b - 1)" by (cases b) auto
  with x show ?thesis by (simp add: wrap_def)
qed

section \<open>Literals under a total assignment\<close>

definition lit_true :: "assignment \<Rightarrow> lit \<Rightarrow> bool" where
  "lit_true \<sigma> l = (if 0 < l then \<sigma> l else \<not> \<sigma> (- l))"

lemma lit_true_neg: "l \<noteq> 0 \<Longrightarrow> lit_true \<sigma> (- l) \<longleftrightarrow> \<not> lit_true \<sigma> l"
  by (auto simp: lit_true_def)

lemma lit_true_pos [simp]: "0 < v \<Longrightarrow> lit_true \<sigma> v = \<sigma> v"
  by (simp add: lit_true_def)

lemma lit_true_of_neg [simp]: "0 < v \<Longrightarrow> lit_true \<sigma> (- v) = (\<not> \<sigma> v)"
  by (simp add: lit_true_def)

lemma lit_true_negative [simp]: "l < 0 \<Longrightarrow> lit_true \<sigma> l = (\<not> \<sigma> (- l))"
  by (simp add: lit_true_def)

lemma abs_lit_cases: "\<bar>l\<bar> = (v::int) \<Longrightarrow> l = v \<or> l = - v"
  by arith

section \<open>Weighted sums\<close>

text \<open>
  \<open>msum P ps\<close> adds the coefficients of the monomials whose literal satisfies \<open>P\<close>. With
  truth under an assignment it is the value of a left-hand side; with ``not falsified by
  the model'' it is the maximal reachable value, from which every slack of the solver is
  computed.
\<close>

primrec msum :: "(lit \<Rightarrow> bool) \<Rightarrow> monomial list \<Rightarrow> int" where
  "msum P [] = 0"
| "msum P (m # ms) = (if P (snd m) then fst m else 0) + msum P ms"

abbreviation lhs_value :: "assignment \<Rightarrow> monomial list \<Rightarrow> int" where
  "lhs_value \<sigma> \<equiv> msum (lit_true \<sigma>)"

definition pos_coeffs :: "monomial list \<Rightarrow> bool" where
  "pos_coeffs ps = (\<forall>m \<in> set ps. 0 < fst m)"

definition nonzero_lits :: "monomial list \<Rightarrow> bool" where
  "nonzero_lits ps = (\<forall>m \<in> set ps. snd m \<noteq> 0)"

lemma pos_coeffs_simps [simp]:
  "pos_coeffs []"
  "pos_coeffs (m # ms) \<longleftrightarrow> 0 < fst m \<and> pos_coeffs ms"
  "pos_coeffs (ms @ ns) \<longleftrightarrow> pos_coeffs ms \<and> pos_coeffs ns"
  by (auto simp: pos_coeffs_def)

lemma nonzero_lits_simps [simp]:
  "nonzero_lits []"
  "nonzero_lits (m # ms) \<longleftrightarrow> snd m \<noteq> 0 \<and> nonzero_lits ms"
  "nonzero_lits (ms @ ns) \<longleftrightarrow> nonzero_lits ms \<and> nonzero_lits ns"
  by (auto simp: nonzero_lits_def)

lemma msum_append [msum_simps, simp]: "msum P (ms @ ns) = msum P ms + msum P ns"
  by (induction ms) auto

lemma msum_sum_list: "msum P ms = (\<Sum>m \<leftarrow> ms. if P (snd m) then fst m else 0)"
  by (induction ms) auto

lemma msum_mset: "mset ms = mset ns \<Longrightarrow> msum P ms = msum P ns"
  by (simp add: msum_sum_list flip: sum_mset_sum_list)

lemma msum_cong: "(\<And>m. m \<in> set ms \<Longrightarrow> P (snd m) = Q (snd m)) \<Longrightarrow> msum P ms = msum Q ms"
  by (induction ms) auto

lemma msum_nonneg: "pos_coeffs ms \<Longrightarrow> 0 \<le> msum P ms"
  by (induction ms) auto

lemma msum_mono:
  "pos_coeffs ms \<Longrightarrow> (\<And>m. m \<in> set ms \<Longrightarrow> P (snd m) \<Longrightarrow> Q (snd m)) \<Longrightarrow> msum P ms \<le> msum Q ms"
proof (induction ms)
  case (Cons m ms)
  then have "msum P ms \<le> msum Q ms" by auto
  with Cons.prems show ?case by fastforce
qed simp

lemma msum_split: "msum P ms = msum (\<lambda>l. P l \<and> Q l) ms + msum (\<lambda>l. P l \<and> \<not> Q l) ms"
  by (induction ms) auto

lemma msum_compl: "msum P ms + msum (\<lambda>l. \<not> P l) ms = msum (\<lambda>_. True) ms"
  by (induction ms) auto

lemma msum_le_total: "pos_coeffs ms \<Longrightarrow> msum P ms \<le> msum (\<lambda>_. True) ms"
  by (rule msum_mono) auto

lemma msum_ge_member:
  "pos_coeffs ms \<Longrightarrow> m \<in> set ms \<Longrightarrow> P (snd m) \<Longrightarrow> fst m \<le> msum P ms"
proof (induction ms)
  case (Cons n ms)
  then have "0 \<le> msum P ms" by (simp add: msum_nonneg)
  with Cons show ?case by fastforce
qed simp

lemma msum_pos_iff:
  "pos_coeffs ms \<Longrightarrow> 0 < msum P ms \<longleftrightarrow> (\<exists>m \<in> set ms. P (snd m))"
proof (induction ms)
  case (Cons m ms)
  then show ?case using msum_nonneg [of ms P] by auto
qed simp

lemma msum_mult: "msum P (map (\<lambda>m. (k * fst m, snd m)) ms) = k * msum P ms"
  by (induction ms) (auto simp: algebra_simps)

lemma pos_coeffs_mset: "mset ms = mset ns \<Longrightarrow> pos_coeffs ms = pos_coeffs ns"
  by (metis pos_coeffs_def set_mset_mset)

lemma nonzero_lits_mset: "mset ms = mset ns \<Longrightarrow> nonzero_lits ms = nonzero_lits ns"
  by (metis nonzero_lits_def set_mset_mset)

section \<open>Variables of a monomial list\<close>

definition mvars :: "monomial list \<Rightarrow> var list" where
  "mvars ms = map (\<lambda>m. \<bar>snd m\<bar>) ms"

lemma mvars_simps [simp]:
  "mvars [] = []" "mvars (m # ms) = \<bar>snd m\<bar> # mvars ms" "mvars (ms @ ns) = mvars ms @ mvars ns"
  by (simp_all add: mvars_def)

lemma set_mvars: "set (mvars ms) = (\<lambda>m. \<bar>snd m\<bar>) ` set ms"
  by (simp add: mvars_def)

lemma msum_absent: "(\<And>m. m \<in> set ms \<Longrightarrow> \<not> P (snd m)) \<Longrightarrow> msum P ms = 0"
  by (induction ms) auto

lemma msum_single_var:
  assumes "distinct (mvars ms)" "m \<in> set ms"
  shows "msum (\<lambda>l. l = snd m) ms = fst m"
  using assms
proof (induction ms)
  case (Cons n ms)
  show ?case
  proof (cases "n = m")
    case True
    with Cons.prems(1) have "\<bar>snd k\<bar> \<noteq> \<bar>snd m\<bar>" if "k \<in> set ms" for k
      using that unfolding set_mvars by (metis distinct.simps(2) image_eqI mvars_simps(2) set_mvars)
    then have "msum (\<lambda>l. l = snd m) ms = 0"
      by (intro msum_absent) (metis (no_types))
    with True show ?thesis by simp
  next
    case False
    with Cons.prems have "m \<in> set ms" and "\<bar>snd n\<bar> \<noteq> \<bar>snd m\<bar>"
      by (auto simp: set_mvars)
    with Cons show ?thesis by auto
  qed
qed simp

section \<open>Lists\<close>

lemma sorted_wrt_map_lt_distinct: "sorted_wrt (<) (xs :: int list) \<Longrightarrow> distinct xs"
  by (induction xs) auto

lemma take_Suc_last: "n < length xs \<Longrightarrow> take (Suc n) xs = take n xs @ [xs ! n]"
  by (simp add: take_Suc_conv_app_nth)

lemma butlast_take_length: "butlast xs = take (length xs - 1) xs"
  by (simp add: butlast_conv_take)

end
