(* ===== verification/WConstraint.thy ===== *)
theory WConstraint
  imports Prelude "HOL-Library.Signed_Division"
begin

text \<open>
  The working constraint of the solver (\<open>src/src/WConstraint.h\<close>, \<open>Constraint.h\<close>,
  \<open>Functions.h\<close>): a list of monomials with a right-hand side, read as
  ``sum of coefficient times literal is at least rhs''. The theory models its accessors, its
  sorting, duplicate removal, binary searches and the generic \<open>simplify\<close>, and proves
  that the normalising operations keep the set of satisfying assignments.
\<close>

section \<open>Arithmetic helpers (Functions.h)\<close>

text \<open>The asserts are compiled out (\<open>-DNDEBUG\<close>); a zero divisor traps, which is \<open>None\<close>.\<close>

definition GCD_T :: "int \<Rightarrow> int \<Rightarrow> int" where
  "GCD_T a b = gcd a b"

definition divisionRoundedUp :: "int \<Rightarrow> int \<Rightarrow> int option" where
  "divisionRoundedUp n c =
     (if c = 0 then None
      else let d = n sdiv c in Some (if d * c \<noteq> n then d + 1 else d))"

fun isOrderedByIncreasingVariable :: "monomial list \<Rightarrow> bool" where
  "isOrderedByIncreasingVariable (m # n # ms) =
     (if \<bar>snd m\<bar> \<ge> \<bar>snd n\<bar> then False else isOrderedByIncreasingVariable (n # ms))"
| "isOrderedByIncreasingVariable _ = True"

fun isOrderedByDecreasingCoefficient :: "monomial list \<Rightarrow> bool" where
  "isOrderedByDecreasingCoefficient (m # n # ms) =
     (if fst m < fst n then False else isOrderedByDecreasingCoefficient (n # ms))"
| "isOrderedByDecreasingCoefficient _ = True"

fun isOrdered :: "int list \<Rightarrow> bool" where
  "isOrdered (a # b # xs) = (if \<bar>a\<bar> \<ge> \<bar>b\<bar> then False else isOrdered (b # xs))"
| "isOrdered _ = True"

text \<open>Round-up division by a positive divisor, as a total function for the proofs.\<close>

definition cdiv :: "int \<Rightarrow> int \<Rightarrow> int" where
  "cdiv n c = (n + c - 1) div c"

lemma cdiv_bounds: "0 < c \<Longrightarrow> n \<le> cdiv n c * c \<and> (cdiv n c - 1) * c < n"
proof -
  assume c: "0 < c"
  have "(n + c - 1) = cdiv n c * c + (n + c - 1) mod c"
    by (simp add: cdiv_def)
  moreover have "0 \<le> (n + c - 1) mod c" "(n + c - 1) mod c < c"
    using c by auto
  ultimately show ?thesis by (simp add: algebra_simps)
qed

lemma cdiv_le_iff: "0 < c \<Longrightarrow> cdiv n c \<le> x \<longleftrightarrow> n \<le> x * c"
  using cdiv_bounds [of c n]
  by (smt (verit) mult_right_mono mult_less_cancel_right)

lemma cdiv_dvd: "0 < c \<Longrightarrow> c dvd n \<Longrightarrow> cdiv n c * c = n"
proof -
  assume c: "0 < c" and "c dvd n"
  then obtain k where n: "n = k * c" by (metis dvd_def mult.commute)
  have "k \<le> cdiv n c" "cdiv n c - 1 < k"
    using cdiv_bounds [OF c, of n] c unfolding n by simp_all
  then show ?thesis by (simp add: n)
qed

lemma cdiv_pos: "0 < c \<Longrightarrow> 0 < n \<Longrightarrow> 0 < cdiv n c"
  using cdiv_bounds [of c n] by (smt (verit) mult_nonneg_nonpos mult_nonpos_nonneg)

lemma cdiv_mono: "0 < c \<Longrightarrow> a \<le> b \<Longrightarrow> cdiv a c \<le> cdiv b c"
  by (simp add: cdiv_def zdiv_mono1)

lemma cdiv_self: "0 < c \<Longrightarrow> cdiv c c = 1"
  using cdiv_dvd [of c c] by simp

lemma divisionRoundedUp_cdiv:
  "0 < c \<Longrightarrow> 0 \<le> n \<Longrightarrow> divisionRoundedUp n c = Some (cdiv n c)"
proof -
  assume c: "0 < c" and n: "0 \<le> n"
  have d: "n sdiv c = n div c"
    using c n by (simp add: signed_divide_int_def sgn_if)
  have "cdiv n c = (if n div c * c \<noteq> n then n div c + 1 else n div c)"
  proof (cases "c dvd n")
    case True
    then show ?thesis using c cdiv_dvd [OF c True] by auto
  next
    case False
    have "n div c * c \<le> n" "n < (n div c + 1) * c"
      using div_mult_mod_eq [of n c] pos_mod_bound [OF c, of n] pos_mod_sign [OF c, of n]
      unfolding distrib_right mult_1 by linarith+
    moreover have "n div c * c \<noteq> n" using False by (metis dvd_triv_right)
    ultimately have "cdiv n c = n div c + 1"
      using cdiv_le_iff [OF c, of n "n div c + 1"] cdiv_le_iff [OF c, of n "n div c"] by linarith
    with \<open>n div c * c \<noteq> n\<close> show ?thesis by simp
  qed
  with c d show ?thesis by (simp add: divisionRoundedUp_def Let_def)
qed


section \<open>The constraint and its accessors\<close>

record wconstraint =
  lhs :: "monomial list"
  rhs :: int

definition sat :: "assignment \<Rightarrow> wconstraint \<Rightarrow> bool" where
  "sat \<sigma> c \<longleftrightarrow> rhs c \<le> lhs_value \<sigma> (lhs c)"

definition WConstraint_vec :: "int list \<Rightarrow> lit list \<Rightarrow> int \<Rightarrow> wconstraint" where
  "WConstraint_vec posCoeffs lits r = \<lparr>lhs = zip posCoeffs lits, rhs = r\<rparr>"

definition WConstraint_bool :: "bool \<Rightarrow> wconstraint" where
  "WConstraint_bool b = \<lparr>lhs = [], rhs = (if b then 0 else 1)\<rparr>"

definition getSize :: "wconstraint \<Rightarrow> int" where
  "getSize c = int (length (lhs c))"

definition getNumInts :: "wconstraint \<Rightarrow> int" where
  "getNumInts c = 5 + 2 * getSize c"

definition reset :: "wconstraint \<Rightarrow> wconstraint" where
  "reset c = c\<lparr>lhs := [], rhs := 0\<rparr>"

definition setConstant :: "int \<Rightarrow> wconstraint \<Rightarrow> wconstraint" where
  "setConstant k c = c\<lparr>rhs := k\<rparr>"

definition clearLHS :: "wconstraint \<Rightarrow> wconstraint" where
  "clearLHS c = c\<lparr>lhs := []\<rparr>"

definition setLHS :: "monomial list \<Rightarrow> wconstraint \<Rightarrow> wconstraint" where
  "setLHS l c = c\<lparr>lhs := l\<rparr>"

definition addMonomial :: "int \<Rightarrow> lit \<Rightarrow> wconstraint \<Rightarrow> wconstraint" where
  "addMonomial coeff l c = c\<lparr>lhs := lhs c @ [(coeff, l)]\<rparr>"

definition getIthLiteral :: "wconstraint \<Rightarrow> nat \<Rightarrow> lit" where
  "getIthLiteral c i = snd (lhs c ! i)"

definition getIthCoefficient :: "wconstraint \<Rightarrow> nat \<Rightarrow> int" where
  "getIthCoefficient c i = fst (lhs c ! i)"

definition setIthLiteral :: "nat \<Rightarrow> lit \<Rightarrow> wconstraint \<Rightarrow> wconstraint" where
  "setIthLiteral i l c = c\<lparr>lhs := (lhs c)[i := (fst (lhs c ! i), l)]\<rparr>"

definition setIthCoefficient :: "nat \<Rightarrow> int \<Rightarrow> wconstraint \<Rightarrow> wconstraint" where
  "setIthCoefficient i a c = c\<lparr>lhs := (lhs c)[i := (a, snd (lhs c ! i))]\<rparr>"

definition isInconsistent :: "wconstraint \<Rightarrow> bool" where
  "isInconsistent c \<longleftrightarrow> rhs c > 0 \<and> length (lhs c) = 0"

fun all_ones :: "monomial list \<Rightarrow> bool" where
  "all_ones [] = True"
| "all_ones (m # ms) = (if fst m \<noteq> 1 then False else all_ones ms)"

definition isClause :: "wconstraint \<Rightarrow> bool" where
  "isClause c = (if rhs c \<noteq> 1 then False else all_ones (lhs c))"

fun coeffsStrictlyPositive :: "monomial list \<Rightarrow> bool" where
  "coeffsStrictlyPositive [] = True"
| "coeffsStrictlyPositive (m # ms) = (if fst m \<le> 0 then False else coeffsStrictlyPositive ms)"

fun maxCoef_loop :: "int \<Rightarrow> monomial list \<Rightarrow> int" where
  "maxCoef_loop mx [] = mx"
| "maxCoef_loop mx (m # ms) = maxCoef_loop (if mx < fst m then fst m else mx) ms"

definition maxCoefOfConstraint :: "wconstraint \<Rightarrow> int" where
  "maxCoefOfConstraint c = maxCoef_loop 0 (lhs c)"

fun find_var :: "var \<Rightarrow> monomial list \<Rightarrow> monomial" where
  "find_var v [] = (0, 0)"
| "find_var v (m # ms) = (if \<bar>snd m\<bar> = v then m else find_var v ms)"

definition getCoefficientLiteral :: "wconstraint \<Rightarrow> var \<Rightarrow> monomial" where
  "getCoefficientLiteral c v = find_var v (lhs c)"

definition getCoefficient :: "wconstraint \<Rightarrow> var \<Rightarrow> int" where
  "getCoefficient c v = fst (getCoefficientLiteral c v)"

definition getLiteral :: "wconstraint \<Rightarrow> var \<Rightarrow> lit" where
  "getLiteral c v = snd (getCoefficientLiteral c v)"

lemmas wc_defs = WConstraint_vec_def WConstraint_bool_def getSize_def reset_def setConstant_def
  clearLHS_def setLHS_def addMonomial_def getIthLiteral_def getIthCoefficient_def
  getCoefficientLiteral_def getCoefficient_def getLiteral_def isInconsistent_def

lemma coeffsStrictlyPositive_iff: "coeffsStrictlyPositive ms = pos_coeffs ms"
  by (induction ms) auto

lemma maxCoef_loop_fold: "maxCoef_loop mx ms = fold max (map fst ms) mx"
  by (induction ms arbitrary: mx) (simp_all add: max_def not_less less_le_not_le)

lemma maxCoef_loop_max: "maxCoef_loop mx ms = Max (insert mx (fst ` set ms))"
  using Max.set_eq_fold [of mx "map fst ms"] by (simp add: maxCoef_loop_fold)

lemma sat_isInconsistent: "isInconsistent c \<Longrightarrow> \<not> sat \<sigma> c"
  by (auto simp: isInconsistent_def sat_def)

lemma all_ones_iff: "all_ones ms \<longleftrightarrow> (\<forall>m \<in> set ms. fst m = 1)"
  by (induction ms) auto

lemma all_ones_pos: "all_ones ms \<Longrightarrow> pos_coeffs ms"
  by (auto simp: all_ones_iff pos_coeffs_def)

text \<open>A clause in the sense of \<open>isClause\<close> is satisfied exactly when one of its literals is.\<close>

lemma sat_isClause:
  "isClause c \<Longrightarrow> sat \<sigma> c \<longleftrightarrow> (\<exists>m \<in> set (lhs c). lit_true \<sigma> (snd m))"
  using msum_pos_iff [of "lhs c" "lit_true \<sigma>"]
  by (auto simp: isClause_def sat_def all_ones_pos split: if_splits)

section \<open>Sorting\<close>

text \<open>
  \<open>std::sort\<close> promises a permutation ordered by the comparator and nothing on the order
  of equal elements. The model sorts stably, which is one of the allowed results; the
  lemmas below use the permutation and the order only, through the contract
  \<open>comparator_sort\<close>.
\<close>

locale comparator_sort =
  fixes srt :: "monomial list \<Rightarrow> monomial list"
    and key :: "monomial \<Rightarrow> int"
  assumes permutes: "mset (srt ms) = mset ms"
    and ordered: "sorted (map key (srt ms))"
begin

lemma set_srt: "set (srt ms) = set ms"
  by (metis permutes set_mset_mset)

lemma msum_srt: "msum P (srt ms) = msum P ms"
  by (rule msum_mset) (rule permutes)

lemma pos_coeffs_srt: "pos_coeffs (srt ms) = pos_coeffs ms"
  by (rule pos_coeffs_mset) (rule permutes)

lemma nonzero_lits_srt: "nonzero_lits (srt ms) = nonzero_lits ms"
  by (rule nonzero_lits_mset) (rule permutes)

lemma mvars_srt: "distinct (mvars (srt ms)) = distinct (mvars ms)"
proof -
  have "mset (mvars (srt ms)) = mset (mvars ms)"
    by (simp add: mvars_def permutes)
  then show ?thesis by (metis mset_eq_imp_distinct_iff)
qed

lemma ordered_nth: "i < j \<Longrightarrow> j < length ms \<Longrightarrow> key (srt ms ! i) \<le> key (srt ms ! j)"
  using sorted_nth_mono [OF ordered [of ms], of i j] mset_eq_length [OF permutes [of ms]]
  by simp

end

definition sortByIncreasingCoefficient :: "wconstraint \<Rightarrow> wconstraint" where
  "sortByIncreasingCoefficient c = c\<lparr>lhs := sort_key (\<lambda>m. \<bar>fst m\<bar>) (lhs c)\<rparr>"

definition sortByDecreasingCoefficient :: "wconstraint \<Rightarrow> wconstraint" where
  "sortByDecreasingCoefficient c = c\<lparr>lhs := sort_key (\<lambda>m. - fst m) (lhs c)\<rparr>"

definition sortByIncreasingVariable :: "wconstraint \<Rightarrow> wconstraint" where
  "sortByIncreasingVariable c = c\<lparr>lhs := sort_key (\<lambda>m. \<bar>snd m\<bar>) (lhs c)\<rparr>"

interpretation inc_coef: comparator_sort "sort_key (\<lambda>m. \<bar>fst m\<bar>)" "\<lambda>m. \<bar>fst m\<bar>"
  by unfold_locales (simp_all add: sorted_sort_key)

interpretation dec_coef: comparator_sort "sort_key (\<lambda>m. - fst m)" "\<lambda>m. - fst m"
  by unfold_locales (simp_all add: sorted_sort_key)

interpretation inc_var: comparator_sort "sort_key (\<lambda>m. \<bar>snd m\<bar>)" "\<lambda>m. \<bar>snd m\<bar>"
  by unfold_locales (simp_all add: sorted_sort_key)

lemma sort_sat [simp]:
  "sat \<sigma> (sortByIncreasingCoefficient c) = sat \<sigma> c"
  "sat \<sigma> (sortByDecreasingCoefficient c) = sat \<sigma> c"
  "sat \<sigma> (sortByIncreasingVariable c) = sat \<sigma> c"
  by (simp_all add: sat_def sortByIncreasingCoefficient_def sortByDecreasingCoefficient_def
      sortByIncreasingVariable_def inc_coef.msum_srt dec_coef.msum_srt inc_var.msum_srt)

lemma isOrderedByIncreasingVariable_iff:
  "isOrderedByIncreasingVariable ms \<longleftrightarrow> sorted_wrt (<) (mvars ms)"
  by (induction ms rule: isOrderedByIncreasingVariable.induct) (auto simp: mvars_def)

lemma isOrderedByDecreasingCoefficient_iff:
  "isOrderedByDecreasingCoefficient ms \<longleftrightarrow> sorted_wrt (\<ge>) (map fst ms)"
  by (induction ms rule: isOrderedByDecreasingCoefficient.induct) auto

lemma sortByDecreasingCoefficient_ordered:
  "isOrderedByDecreasingCoefficient (lhs (sortByDecreasingCoefficient c))"
proof -
  have "sorted (map (\<lambda>m. - fst m) (sort_key (\<lambda>m. - fst m) (lhs c)))"
    by (rule dec_coef.ordered)
  then show ?thesis
    by (simp add: isOrderedByDecreasingCoefficient_iff sortByDecreasingCoefficient_def
        sorted_map sorted_wrt_map)
qed

end
