(* ===== verification/BinarySearch.thy ===== *)
theory BinarySearch
  imports WConstraint
begin

text \<open>
  The two binary searches of \<open>src/src/WConstraint.h\<close>: by variable on a constraint ordered
  by increasing variable, and by coefficient and variable on one ordered by decreasing
  coefficient. Both are shown to agree with the linear scan under their precondition.
\<close>

section \<open>Search by variable\<close>

function bsearch_loop :: "monomial list \<Rightarrow> var \<Rightarrow> int \<Rightarrow> int \<Rightarrow> monomial" where
  "bsearch_loop ms var l r =
     (if l \<le> r
      then let m = (l + r) div 2; a = \<bar>snd (ms ! nat m)\<bar>
           in if a < var then bsearch_loop ms var (m + 1) r
              else if var < a then bsearch_loop ms var l (m - 1)
              else ms ! nat m
      else (0, 0))"
  by pat_completeness auto
termination
  by (relation "measure (\<lambda>(ms, v, l, r). nat (r - l + 1))") auto

declare bsearch_loop.simps [simp del]

definition getCoefficientLiteralBinarySearch :: "wconstraint \<Rightarrow> var \<Rightarrow> monomial" where
  "getCoefficientLiteralBinarySearch c var = bsearch_loop (lhs c) var 0 (getSize c - 1)"

definition getCoefficientBinarySearch :: "wconstraint \<Rightarrow> var \<Rightarrow> int" where
  "getCoefficientBinarySearch c var = fst (getCoefficientLiteralBinarySearch c var)"

definition getLiteralBinarySearch :: "wconstraint \<Rightarrow> var \<Rightarrow> lit" where
  "getLiteralBinarySearch c var = snd (getCoefficientLiteralBinarySearch c var)"

lemma find_var_absent: "v \<notin> set (mvars ms) \<Longrightarrow> find_var v ms = (0, 0)"
  by (induction ms) auto

lemma find_var_nth:
  "distinct (mvars ms) \<Longrightarrow> i < length ms \<Longrightarrow> find_var \<bar>snd (ms ! i)\<bar> ms = ms ! i"
proof (induction ms arbitrary: i)
  case (Cons m ms)
  show ?case
  proof (cases i)
    case (Suc j)
    with Cons.prems have "\<bar>snd m\<bar> \<noteq> \<bar>snd (ms ! j)\<bar>"
      by (auto simp: set_mvars)
    with Cons Suc show ?thesis by simp
  qed simp
qed simp

lemma find_var_member:
  "distinct (mvars ms) \<Longrightarrow> m \<in> set ms \<Longrightarrow> find_var \<bar>snd m\<bar> ms = m"
  by (metis find_var_nth in_set_conv_nth)

text \<open>
  Loop invariant: whatever the scan would find lies between the two bounds, both of which stay
  inside the vector.
\<close>

lemma mvars_nth: "i < length ms \<Longrightarrow> mvars ms ! i = \<bar>snd (ms ! i)\<bar>"
  by (simp add: mvars_def)

lemma length_mvars [simp]: "length (mvars ms) = length ms"
  by (simp add: mvars_def)

lemma strict_var_order:
  assumes "sorted_wrt (<) (mvars ms)" "i < length ms" "j < length ms"
  shows "\<bar>snd (ms ! i)\<bar> < \<bar>snd (ms ! j)\<bar> \<longleftrightarrow> i < j"
  using sorted_wrt_nth_less [OF assms(1), of i j] sorted_wrt_nth_less [OF assms(1), of j i] assms(2,3)
  by (cases i j rule: linorder_cases) (auto simp: mvars_nth)

lemma bsearch_loop_correct:
  assumes "sorted_wrt (<) (mvars ms)" "0 \<le> l" "r < int (length ms)"
    and "\<And>i. i < length ms \<Longrightarrow> \<bar>snd (ms ! i)\<bar> = var \<Longrightarrow> l \<le> int i \<and> int i \<le> r"
  shows "bsearch_loop ms var l r = find_var var ms"
  using assms
proof (induction ms var l r rule: bsearch_loop.induct)
  case (1 ms var l r)
  note srt = "1.prems"(1)
  show ?case
  proof (cases "l \<le> r")
    case False
    with "1.prems"(4) have "var \<notin> set (mvars ms)"
      by (fastforce simp: set_mvars in_set_conv_nth)
    with False show ?thesis by (simp add: bsearch_loop.simps [of ms var l r] find_var_absent)
  next
    case True
    define m where "m = (l + r) div 2"
    define a where "a = \<bar>snd (ms ! nat m)\<bar>"
    have m: "l \<le> m" "m \<le> r" using True by (auto simp: m_def)
    with "1.prems"(2,3) have mlen: "nat m < length ms" and m0: "0 \<le> m" by auto
    have le: "int i \<le> m" if "i < length ms" "\<bar>snd (ms ! i)\<bar> \<le> a" for i
      using strict_var_order [OF srt mlen that(1)] that m0 unfolding a_def by force
    have ge: "m \<le> int i" if "i < length ms" "a \<le> \<bar>snd (ms ! i)\<bar>" for i
      using strict_var_order [OF srt that(1) mlen] that m0 unfolding a_def by force
    have unf: "bsearch_loop ms var l r =
        (if a < var then bsearch_loop ms var (m + 1) r
         else if var < a then bsearch_loop ms var l (m - 1) else ms ! nat m)"
      using True by (simp add: bsearch_loop.simps [of ms var l r] m_def a_def)
    consider "a < var" | "var < a" | "a = var" by linarith
    then show ?thesis
    proof cases
      case 1
      have "m + 1 \<le> int i \<and> int i \<le> r" if i: "i < length ms" "\<bar>snd (ms ! i)\<bar> = var" for i
        using ge [OF i(1)] "1.prems"(4) [OF i] i 1 by (auto simp: a_def order.order_iff_strict)
      with "1.IH"(1) [OF True m_def a_def 1 srt] "1.prems"(2,3) m0 1 unf show ?thesis by auto
    next
      case 2
      have "l \<le> int i \<and> int i \<le> m - 1" if i: "i < length ms" "\<bar>snd (ms ! i)\<bar> = var" for i
        using le [OF i(1)] "1.prems"(4) [OF i] i 2 by (auto simp: a_def order.order_iff_strict)
      with "1.IH"(2) [OF True m_def a_def _ 2 srt] "1.prems"(2,3) m 2 unf show ?thesis by auto
    next
      case 3
      have "distinct (mvars ms)" using srt by (rule sorted_wrt_map_lt_distinct)
      from find_var_nth [OF this mlen] 3 unf show ?thesis by (simp add: a_def)
    qed
  qed
qed

text \<open>
  On a constraint ordered by increasing variable, the binary search by variable returns
  what the linear scan \<open>getCoefficientLiteral\<close> returns, whether or not the variable occurs.
\<close>

theorem binary_search_is_scan:
  assumes "isOrderedByIncreasingVariable (lhs c)"
  shows "getCoefficientLiteralBinarySearch c v = getCoefficientLiteral c v"
  using bsearch_loop_correct [of "lhs c" 0 "int (length (lhs c)) - 1" v] assms
  by (auto simp: getCoefficientLiteralBinarySearch_def getCoefficientLiteral_def getSize_def
      isOrderedByIncreasingVariable_iff)

theorem binary_search_is_scan_witness:
  "getCoefficientLiteralBinarySearch \<lparr>lhs = [(2, 1), (5, -3), (1, 7)], rhs = 3\<rparr> 3 = (5, -3)"
  using binary_search_is_scan [of "\<lparr>lhs = [(2, 1), (5, -3), (1, 7)], rhs = 3\<rparr>" 3]
  by (simp add: getCoefficientLiteral_def)

section \<open>Search by coefficient and variable\<close>

function scan_down :: "monomial list \<Rightarrow> var \<Rightarrow> int \<Rightarrow> int \<Rightarrow> monomial option" where
  "scan_down ms var l i =
     (if l \<le> i then (if \<bar>snd (ms ! nat i)\<bar> = var then Some (ms ! nat i)
                      else scan_down ms var l (i - 1))
      else None)"
  by pat_completeness auto
termination
  by (relation "measure (\<lambda>(ms, v, l, i). nat (i - l + 1))") auto

function scan_up :: "monomial list \<Rightarrow> var \<Rightarrow> int \<Rightarrow> int \<Rightarrow> monomial option" where
  "scan_up ms var i r =
     (if i \<le> r then (if \<bar>snd (ms ! nat i)\<bar> = var then Some (ms ! nat i)
                      else scan_up ms var (i + 1) r)
      else None)"
  by pat_completeness auto
termination
  by (relation "measure (\<lambda>(ms, v, i, r). nat (r - i + 1))") auto

function csearch_loop :: "monomial list \<Rightarrow> var \<Rightarrow> int \<Rightarrow> int \<Rightarrow> int \<Rightarrow> monomial" where
  "csearch_loop ms var coef l r =
     (if l \<le> r
      then let m = (l + r) div 2; c = fst (ms ! nat m)
           in if c < coef then csearch_loop ms var coef l (m - 1)
              else if coef < c then csearch_loop ms var coef (m + 1) r
              else (case scan_down ms var l m of
                      Some x \<Rightarrow> x
                    | None \<Rightarrow> (case scan_up ms var (m + 1) r of Some x \<Rightarrow> x | None \<Rightarrow> (0, 0)))
      else (0, 0))"
  by pat_completeness auto
termination
  by (relation "measure (\<lambda>(ms, v, c, l, r). nat (r - l + 1))") auto

declare scan_down.simps [simp del] scan_up.simps [simp del] csearch_loop.simps [simp del]

definition getCoefficientLiteralBinarySearch2 :: "wconstraint \<Rightarrow> var \<Rightarrow> int \<Rightarrow> monomial" where
  "getCoefficientLiteralBinarySearch2 c var coef = csearch_loop (lhs c) var coef 0 (getSize c - 1)"

lemma scan_down_Some:
  "distinct (mvars ms) \<Longrightarrow> 0 \<le> l \<Longrightarrow> i < int (length ms) \<Longrightarrow> j < length ms \<Longrightarrow> l \<le> int j \<Longrightarrow>
     int j \<le> i \<Longrightarrow> scan_down ms \<bar>snd (ms ! j)\<bar> l i = Some (ms ! j)"
proof (induction ms "\<bar>snd (ms ! j)\<bar>" l i rule: scan_down.induct)
  case (1 ms l i)
  show ?case
  proof (cases "nat i = j")
    case True
    with "1.prems" show ?thesis by (simp add: scan_down.simps [of ms _ l i])
  next
    case False
    with "1.prems" have "\<bar>snd (ms ! nat i)\<bar> \<noteq> \<bar>snd (ms ! j)\<bar>"
      by (metis find_var_nth less_imp_of_nat_less mvars_nth nat_less_iff
          nth_eq_iff_index_eq length_mvars dual_order.trans)
    with 1 False show ?thesis by (simp add: scan_down.simps [of ms _ l i])
  qed
qed


lemma scan_down_None:
  "0 \<le> l \<Longrightarrow> i < int j \<Longrightarrow> distinct (mvars ms) \<Longrightarrow> j < length ms \<Longrightarrow>
     scan_down ms \<bar>snd (ms ! j)\<bar> l i = None"
proof (induction ms "\<bar>snd (ms ! j)\<bar>" l i rule: scan_down.induct)
  case (1 ms l i)
  show ?case
  proof (cases "l \<le> i")
    case True
    with "1.prems" have "nat i < j" by linarith
    with "1.prems" have "\<bar>snd (ms ! nat i)\<bar> \<noteq> \<bar>snd (ms ! j)\<bar>"
      using nth_eq_iff_index_eq [of "mvars ms" "nat i" j] by (simp add: mvars_nth)
    with 1 True show ?thesis by (simp add: scan_down.simps [of ms _ l i])
  qed (simp add: scan_down.simps [of ms _ l i])
qed

lemma scan_up_Some:
  "distinct (mvars ms) \<Longrightarrow> 0 \<le> i \<Longrightarrow> r < int (length ms) \<Longrightarrow> j < length ms \<Longrightarrow> i \<le> int j \<Longrightarrow>
     int j \<le> r \<Longrightarrow> scan_up ms \<bar>snd (ms ! j)\<bar> i r = Some (ms ! j)"
proof (induction ms "\<bar>snd (ms ! j)\<bar>" i r rule: scan_up.induct)
  case (1 ms i r)
  show ?case
  proof (cases "nat i = j")
    case True
    with "1.prems" show ?thesis by (simp add: scan_up.simps [of ms _ i r])
  next
    case False
    moreover have "nat i < length ms" using "1.prems" by linarith
    ultimately have "\<bar>snd (ms ! nat i)\<bar> \<noteq> \<bar>snd (ms ! j)\<bar>"
      using nth_eq_iff_index_eq [of "mvars ms" "nat i" j] "1.prems" by (simp add: mvars_nth)
    with 1 False show ?thesis by (simp add: scan_up.simps [of ms _ i r])
  qed
qed

lemma dec_coef_nth:
  "sorted_wrt (\<ge>) (map fst ms) \<Longrightarrow> i \<le> j \<Longrightarrow> j < length ms \<Longrightarrow> fst (ms ! j) \<le> (fst (ms ! i) :: int)"
  using sorted_wrt_nth_less [of "(\<ge>)" "map fst ms" i j] by (cases "i = j") auto

lemma csearch_loop_correct:
  assumes "sorted_wrt (\<ge>) (map fst ms)" "distinct (mvars ms)" "0 \<le> l" "r < int (length ms)"
    "j < length ms" "l \<le> int j" "int j \<le> r"
  shows "csearch_loop ms \<bar>snd (ms ! j)\<bar> (fst (ms ! j)) l r = ms ! j"
  using assms
proof (induction ms "\<bar>snd (ms ! j)\<bar>" "fst (ms ! j)" l r rule: csearch_loop.induct)
  case (1 ms l r)
  have lr: "l \<le> r" using "1.prems" by linarith
  define m where "m = (l + r) div 2"
  define c where "c = fst (ms ! nat m)"
  have m: "l \<le> m" "m \<le> r" using lr by (auto simp: m_def)
  with "1.prems"(3,4) have mlen: "nat m < length ms" and m0: "0 \<le> m" by auto
  note unf = csearch_loop.simps [of ms "\<bar>snd (ms ! j)\<bar>" "fst (ms ! j)" l r, unfolded Let_def,
      folded m_def, folded c_def]
  consider "c < fst (ms ! j)" | "fst (ms ! j) < c" | "c = fst (ms ! j)" by linarith
  then show ?case
  proof cases
    case 1
    have "\<not> nat m \<le> j" using dec_coef_nth [OF "1.prems"(1), of "nat m" j] "1.prems"(5) 1 c_def by auto
    with "1.hyps"(1) [OF lr m_def c_def 1 "1.prems"(1,2)] "1.prems" 1 unf lr m m0
    show ?thesis by auto
  next
    case 2
    have "\<not> j \<le> nat m" using dec_coef_nth [OF "1.prems"(1), of j "nat m"] mlen 2 c_def by auto
    with "1.hyps"(2) [OF lr m_def c_def _ 2 "1.prems"(1,2)] "1.prems" 2 unf lr m m0
    show ?thesis by auto
  next
    case 3
    show ?thesis
    proof (cases "int j \<le> m")
      case True
      with scan_down_Some [OF "1.prems"(2,3), of m j] 3 unf lr m "1.prems" show ?thesis by auto
    next
      case False
      with scan_down_None [OF "1.prems"(3), of m j ms] scan_up_Some [OF "1.prems"(2), of "m + 1" r j]
        3 unf lr m0 "1.prems" show ?thesis by auto
    qed
  qed
qed

text \<open>
  On a constraint ordered by decreasing coefficient with distinct variables, the search
  by coefficient and variable finds every monomial of the constraint.
\<close>

theorem coefficient_search_finds:
  assumes "isOrderedByDecreasingCoefficient (lhs c)" "distinct (mvars (lhs c))" "(a, l) \<in> set (lhs c)"
  shows "getCoefficientLiteralBinarySearch2 c \<bar>l\<bar> a = (a, l)"
proof -
  from assms(3) obtain j where j: "j < length (lhs c)" "lhs c ! j = (a, l)"
    by (metis in_set_conv_nth)
  with csearch_loop_correct [of "lhs c" 0 "int (length (lhs c)) - 1" j] assms(1,2)
  show ?thesis
    by (simp add: getCoefficientLiteralBinarySearch2_def getSize_def isOrderedByDecreasingCoefficient_iff)
qed

theorem coefficient_search_finds_witness:
  "getCoefficientLiteralBinarySearch2 \<lparr>lhs = [(5, -3), (2, 9), (2, 1), (2, 4)], rhs = 3\<rparr> 4 2 = (2, 4)"
  using coefficient_search_finds [of "\<lparr>lhs = [(5, -3), (2, 9), (2, 1), (2, 4)], rhs = 3\<rparr>" 2 4] by simp

end
