(* ===== verification/Schedule.thy ===== *)
theory Schedule
  imports Prelude
begin

text \<open>
  The two schedules of the search: the Luby sequence that scales the conflict limit of a restart
  (\<open>Solver::luby\<close>, \<open>src/src/Solver.cpp\<close>) and the time limit a worker gives a cube before it splits
  it (\<open>compute_split_time_limit\<close>, \<open>src/src/cubePB.cpp\<close>).
\<close>

section \<open>Luby restarts\<close>

text \<open>First loop: the smallest complete subsequence of size \<open>2^k - 1\<close> that contains the index.\<close>

function luby_size :: "int \<Rightarrow> int \<Rightarrow> nat \<Rightarrow> int \<times> nat" where
  "luby_size idx sz seq =
     (if 0 < sz \<and> sz < idx + 1 then luby_size idx (2 * sz + 1) (seq + 1) else (sz, seq))"
  by pat_completeness auto
termination by (relation "measure (\<lambda>(idx, sz, seq). nat (idx + 1 - sz))") auto

text \<open>Second loop: descend into the copy of the half-size sequence that holds the index.\<close>

function luby_descend :: "int \<Rightarrow> int \<Rightarrow> nat \<Rightarrow> nat" where
  "luby_descend idx sz seq =
     (if sz \<noteq> idx + 1 \<and> 1 < sz
      then let sz' = (sz - 1) div 2 in luby_descend (idx mod sz') sz' (seq - 1)
      else seq)"
  by pat_completeness auto
termination by (relation "measure (\<lambda>(idx, sz, seq). nat sz)") auto

declare luby_size.simps [simp del] luby_descend.simps [simp del]

definition luby :: "int \<Rightarrow> int \<Rightarrow> int" where
  "luby y idx = (let (sz, seq) = luby_size idx 1 0 in y ^ luby_descend idx sz seq)"

text \<open>The sequence as its definition gives it: block \<open>k + 1\<close> is block \<open>k\<close> twice, then \<open>y^k\<close>.\<close>

fun luby_block :: "int \<Rightarrow> nat \<Rightarrow> int list" where
  "luby_block y 0 = [1]"
| "luby_block y (Suc k) = luby_block y k @ luby_block y k @ [y ^ Suc k]"

lemma length_luby_block: "int (length (luby_block y k)) = 2 ^ Suc k - 1"
  by (induction k) auto

lemma luby_block_last: "luby_block y k ! (length (luby_block y k) - 1) = y ^ k"
  by (cases k) (simp_all add: nth_append)

lemma luby_block_nonempty: "0 < length (luby_block y k)"
  by (cases k) auto

lemma luby_descend_block:
  assumes "0 \<le> idx" "idx < 2 ^ Suc k - 1"
  shows "y ^ luby_descend idx (2 ^ Suc k - 1) k = luby_block y k ! nat idx"
  using assms
proof (induction k arbitrary: idx)
  case 0
  then show ?case by (simp add: luby_descend.simps)
next
  case (Suc k)
  define n where "n = 2 ^ Suc k - (1::int)"
  let ?b = "luby_block y k"
  have len: "int (length ?b) = n" unfolding n_def by (rule length_luby_block)
  have n: "0 < n" using len luby_block_nonempty [of y k] by linarith
  have sz: "2 ^ Suc (Suc k) - 1 = 2 * n + 1" by (simp add: n_def)
  have IH: "y ^ luby_descend i n k = ?b ! nat i" if "0 \<le> i" "i < n" for i
    using Suc.IH [of i] that unfolding n_def by simp
  show ?case
  proof (cases "idx = 2 * n")
    case True
    then have "luby_descend idx (2 * n + 1) (Suc k) = Suc k"
      by (simp add: luby_descend.simps)
    moreover have "nat idx = length (luby_block y (Suc k)) - 1"
      using True len by simp
    ultimately show ?thesis unfolding sz by (simp only: luby_block_last)
  next
    case False
    then have i: "0 \<le> idx" "idx < 2 * n" using Suc.prems unfolding sz by auto
    have "luby_descend idx (2 * n + 1) (Suc k) = luby_descend (idx mod n) n k"
      using False n by (subst luby_descend.simps) (simp add: Let_def)
    moreover have "y ^ luby_descend (idx mod n) n k = ?b ! nat (idx mod n)"
      using n by (intro IH) simp_all
    moreover have "?b ! nat (idx mod n) = luby_block y (Suc k) ! nat idx"
    proof (cases "idx < n")
      case True
      then have "nat idx < length ?b" using i len by linarith
      with True i show ?thesis by (simp add: nth_append)
    next
      case ge: False
      have "idx mod n = (idx - n) mod n" by simp
      also have "\<dots> = idx - n" using i ge by (intro mod_pos_pos_trivial) auto
      finally have "idx mod n = idx - n" .
      moreover have "nat (idx - n) = nat idx - length ?b" "\<not> nat idx < length ?b" "nat idx - length ?b < length ?b"
        using i ge len by linarith+
      ultimately show ?thesis by (simp add: nth_append)
    qed
    ultimately show ?thesis unfolding sz by simp
  qed
qed

lemma luby_size_correct:
  assumes "luby_size idx (2 ^ Suc j - 1) j = (sz, seq)" "0 \<le> idx" "j = 0 \<or> 2 ^ j - 1 \<le> idx"
  shows "sz = 2 ^ Suc seq - 1 \<and> idx < sz \<and> (seq = 0 \<or> 2 ^ seq - 1 \<le> idx)"
  using assms
proof (induction "nat (idx + 1 - (2 ^ Suc j - 1))" arbitrary: j rule: less_induct)
  case less
  have p: "0 < 2 ^ Suc j - (1::int)" by (simp add: less_le_trans [of 1 "2::int"])
  have d: "2 * (2 ^ Suc j - 1) + 1 = 2 ^ Suc (Suc j) - (1::int)" by simp
  show ?case
  proof (cases "2 ^ Suc j - 1 < idx + 1")
    case True
    then have e: "luby_size idx (2 ^ Suc (Suc j) - 1) (Suc j) = (sz, seq)"
      using less.prems(1) p d by (subst (asm) luby_size.simps) simp
    have "nat (idx + 1 - (2 ^ Suc (Suc j) - 1)) < nat (idx + 1 - (2 ^ Suc j - 1))"
      using True p by simp
    from less.hyps [OF this e] less.prems(2) True show ?thesis by simp
  next
    case False
    then show ?thesis using less.prems by (auto simp: luby_size.simps)
  qed
qed

lemma luby_block_mono: "k \<le> j \<Longrightarrow> i < length (luby_block y k) \<Longrightarrow> luby_block y j ! i = luby_block y k ! i"
proof (induction j)
  case (Suc j)
  show ?case
  proof (cases "k = Suc j")
    case False
    then have "k \<le> j" using Suc.prems by simp
    then have "length (luby_block y k) \<le> length (luby_block y j)"
    proof -
      have "(2::int) ^ Suc k \<le> 2 ^ Suc j" using \<open>k \<le> j\<close> by (intro power_increasing) auto
      then show ?thesis using length_luby_block [of y k] length_luby_block [of y j] by linarith
    qed
    with Suc \<open>k \<le> j\<close> show ?thesis by (simp add: nth_append)
  qed simp
qed simp

lemma luby_is_block:
  assumes "0 \<le> idx" "nat idx < length (luby_block y k)"
  shows "luby y idx = luby_block y k ! nat idx"
proof -
  obtain sz seq where l: "luby_size idx 1 0 = (sz, seq)" by fastforce
  then have c: "sz = 2 ^ Suc seq - 1" "idx < sz" "seq = 0 \<or> 2 ^ seq - 1 \<le> idx"
    using luby_size_correct [of idx 0 sz seq] assms by simp_all
  have v: "luby y idx = luby_block y seq ! nat idx"
    using luby_descend_block [of idx seq y] c assms by (simp add: luby_def l)
  have in_seq: "nat idx < length (luby_block y seq)"
    using c(1,2) assms(1) length_luby_block [of y seq] by simp
  have "luby_block y seq ! nat idx = luby_block y k ! nat idx"
    using luby_block_mono [of seq k "nat idx" y] luby_block_mono [of k seq "nat idx" y] in_seq assms(2)
    by (cases "seq \<le> k") auto
  with v show ?thesis by simp
qed

text \<open>
  C33: The two loops of \<open>luby\<close> compute the Luby sequence: the value at index \<open>i\<close> is the \<open>i\<close>-th
  element of every block long enough to contain it, where block \<open>k + 1\<close> is two copies of block
  \<open>k\<close> followed by \<open>y^(k+1)\<close>.
\<close>
theorem luby_is_luby_sequence:
  assumes "i < length (luby_block y k)"
  shows "luby y (int i) = luby_block y k ! i"
  using luby_is_block [of "int i" y k] assms by simp

lemma luby_is_luby_sequence_witness: "map (\<lambda>i. luby 2 (int i)) [0, 1, 2, 3, 4, 5, 6] = [1, 1, 2, 1, 1, 2, 4]"
proof -
  have b: "luby_block 2 2 = [1, 1, 2, 1, 1, 2, 4]" by (simp add: numeral_2_eq_2)
  have "luby 2 (int i) = [1, 1, 2, 1, 1, 2, 4] ! i" if "i < 7" for i
    using luby_is_luby_sequence [of i 2 2] that unfolding b by simp
  from this [of 0] this [of 1] this [of 2] this [of 3] this [of 4] this [of 5] this [of 6]
  show ?thesis by simp
qed

section \<open>Split time limit\<close>

fun split_limit_loop :: "int \<Rightarrow> nat \<Rightarrow> int" where
  "split_limit_loop limit 0 = limit"
| "split_limit_loop limit (Suc n) =
     (if limit > INT_MAX div 2 then INT_MAX else split_limit_loop (limit * 2) n)"

definition compute_split_time_limit :: "int \<Rightarrow> int \<Rightarrow> int" where
  "compute_split_time_limit base_split_time_limit split_depth =
     split_limit_loop base_split_time_limit (nat split_depth)"

lemma split_limit_loop_eq:
  "0 < limit \<Longrightarrow> limit \<le> INT_MAX \<Longrightarrow> split_limit_loop limit n = min (limit * 2 ^ n) INT_MAX"
proof (induction n arbitrary: limit)
  case (Suc n)
  show ?case
  proof (cases "limit > INT_MAX div 2")
    case True
    have "2 * 2 ^ n \<ge> (2::int)" by simp
    with Suc.prems have "limit * 2 \<le> limit * (2 * 2 ^ n)" by (intro mult_left_mono) auto
    moreover have "INT_MAX \<le> limit * 2" using True by simp
    ultimately have "INT_MAX \<le> limit * 2 ^ Suc n" unfolding power_Suc by linarith
    then have "min (limit * 2 ^ Suc n) INT_MAX = INT_MAX" by (rule min_absorb2)
    with True show ?thesis by simp
  next
    case False
    with Suc show ?thesis by (simp add: mult.assoc)
  qed
qed simp

text \<open>
  C34: The doubling loop never leaves the range of an \<open>int\<close>: the split time limit at depth \<open>d\<close> is the
  base limit times \<open>2^d\<close>, capped at \<open>INT_MAX\<close>.
\<close>
theorem split_time_limit_doubles:
  assumes "0 < base" "base \<le> INT_MAX" "0 \<le> d"
  shows "compute_split_time_limit base d = min (base * 2 ^ nat d) INT_MAX"
  unfolding compute_split_time_limit_def by (rule split_limit_loop_eq [OF assms(1,2)])

lemma split_time_limit_doubles_witness:
  "compute_split_time_limit 10 3 = 80 \<and> compute_split_time_limit 10 40 = INT_MAX"
  using split_time_limit_doubles [of 10 3] split_time_limit_doubles [of 10 40] by simp

end
