(* ===== verification/PBConstraint.thy ===== *)
theory PBConstraint
  imports WConstraint
begin

text \<open>
  The two compact constraint objects of the database, \<open>src/src/PBConstraint.h\<close> and
  \<open>src/src/Clause.h\<close>. Each is one block of \<open>int\<close>s: a header in front of the address the object
  keeps, then the literals. The block is a list of integers and the address a fixed offset into it
  (7 for a pseudo-Boolean constraint, 5 for a clause), so index \<open>i\<close> of the code is list index
  \<open>offset + i\<close>. The records \<open>pbconstraint\<close> and \<open>clause\<close> are the abstract view the solver theories
  use; the theorems show that constructors, accessors and updates of the block implement it.
\<close>

section \<open>Abstract objects\<close>

record pbconstraint =
  pb_lhs :: "monomial list"
  pb_rhs :: int
  pb_maxWIdx :: int
  pb_numBackjump :: int
  pb_activity :: int
  pb_isInit :: bool
  pb_LBD :: int

record clause =
  cl_lits :: "lit list"
  cl_watchIdx :: int
  cl_activity :: int
  cl_isInit :: bool
  cl_LBD :: int

section \<open>Memory of a pseudo-Boolean constraint\<close>

definition INTS_MEM :: nat where "INTS_MEM = 7"

text \<open>\<open>mem[i]\<close> of the code, for \<open>i\<close> from -7 up.\<close>

definition mem_get :: "nat \<Rightarrow> int list \<Rightarrow> int \<Rightarrow> int" where
  "mem_get off mem i = mem ! nat (int off + i)"

definition mem_set :: "nat \<Rightarrow> int list \<Rightarrow> int \<Rightarrow> int \<Rightarrow> int list" where
  "mem_set off mem i x = mem[nat (int off + i) := x]"

definition b2i :: "bool \<Rightarrow> int" where "b2i b = (if b then 1 else 0)"

definition PB_setSize :: "int \<Rightarrow> int list \<Rightarrow> int list" where "PB_setSize s mem = mem_set INTS_MEM mem (-1) s"
definition PB_setConstant :: "int \<Rightarrow> int list \<Rightarrow> int list" where "PB_setConstant co mem = mem_set INTS_MEM mem (-2) co"
definition PB_setMaxWIdx :: "int \<Rightarrow> int list \<Rightarrow> int list" where "PB_setMaxWIdx i mem = mem_set INTS_MEM mem (-3) i"
definition PB_setNumBackjump :: "int \<Rightarrow> int list \<Rightarrow> int list" where "PB_setNumBackjump n mem = mem_set INTS_MEM mem (-4) n"
definition PB_setActivity :: "int \<Rightarrow> int list \<Rightarrow> int list" where "PB_setActivity a mem = mem_set INTS_MEM mem (-5) a"
definition PB_setInitial :: "bool \<Rightarrow> int list \<Rightarrow> int list" where "PB_setInitial b mem = mem_set INTS_MEM mem (-6) (b2i b)"
definition PB_setLBD :: "int \<Rightarrow> int list \<Rightarrow> int list" where "PB_setLBD l mem = mem_set INTS_MEM mem (-7) l"
definition PB_setIthCoefficient :: "int \<Rightarrow> int \<Rightarrow> int list \<Rightarrow> int list" where
  "PB_setIthCoefficient i v mem = mem_set INTS_MEM mem (2 * i) v"

definition PB_getSize :: "int list \<Rightarrow> int" where "PB_getSize mem = mem_get INTS_MEM mem (-1)"
definition PB_getConstant :: "int list \<Rightarrow> int" where "PB_getConstant mem = mem_get INTS_MEM mem (-2)"
definition PB_getMaxWIdx :: "int list \<Rightarrow> int" where "PB_getMaxWIdx mem = mem_get INTS_MEM mem (-3)"
definition PB_getNumBackjump :: "int list \<Rightarrow> int" where "PB_getNumBackjump mem = mem_get INTS_MEM mem (-4)"
definition PB_getActivity :: "int list \<Rightarrow> int" where "PB_getActivity mem = mem_get INTS_MEM mem (-5)"
definition PB_isInitial :: "int list \<Rightarrow> bool" where "PB_isInitial mem \<longleftrightarrow> mem_get INTS_MEM mem (-6) \<noteq> 0"
definition PB_getLBD :: "int list \<Rightarrow> int" where "PB_getLBD mem = mem_get INTS_MEM mem (-7)"
definition PB_getNumInts :: "int list \<Rightarrow> int" where "PB_getNumInts mem = int INTS_MEM + 2 * PB_getSize mem"
definition PB_getIthLiteral :: "int list \<Rightarrow> int \<Rightarrow> lit" where
  "PB_getIthLiteral mem i = mem_get INTS_MEM mem (2 * i + 1)"
definition PB_getIthCoefficient :: "int list \<Rightarrow> int \<Rightarrow> int" where
  "PB_getIthCoefficient mem i = mem_get INTS_MEM mem (2 * i)"
definition PB_increaseActivity :: "int \<Rightarrow> int list \<Rightarrow> int list" where
  "PB_increaseActivity a mem = PB_setActivity (PB_getActivity mem + a) mem"

text \<open>Writing the monomials, pair by pair, from index \<open>i\<close> on.\<close>

fun PB_write :: "int \<Rightarrow> monomial list \<Rightarrow> int list \<Rightarrow> int list" where
  "PB_write i [] mem = mem"
| "PB_write i ((c, l) # ms) mem =
     PB_write (i + 1) ms (mem_set INTS_MEM (mem_set INTS_MEM mem (2 * i) c) (2 * i + 1) l)"

text \<open>\<open>garbage\<close> is the content of the block before the constructor writes it.\<close>

definition PBConstraint_new :: "int list \<Rightarrow> wconstraint \<Rightarrow> bool \<Rightarrow> int \<Rightarrow> int \<Rightarrow> int list" where
  "PBConstraint_new garbage wc isInit activity lbd =
     PB_write 0 (lhs wc)
       (PB_setLBD lbd (PB_setInitial isInit (PB_setActivity activity (PB_setNumBackjump 0 (PB_setMaxWIdx 0
         (PB_setConstant (rhs wc) (PB_setSize (int (length (lhs wc))) garbage)))))))"

fun PB_find :: "int list \<Rightarrow> var \<Rightarrow> nat \<Rightarrow> int \<Rightarrow> (int \<times> lit) option" where
  "PB_find mem v 0 i = None"
| "PB_find mem v (Suc n) i =
     (if \<bar>mem_get INTS_MEM mem i\<bar> = v then Some (mem_get INTS_MEM mem (i - 1), mem_get INTS_MEM mem i)
      else PB_find mem v n (i + 2))"

definition PB_getCoefficient :: "int list \<Rightarrow> var \<Rightarrow> int" where
  "PB_getCoefficient mem v = (case PB_find mem v (nat (PB_getSize mem)) 1 of Some (c, _) \<Rightarrow> c | None \<Rightarrow> 0)"
definition PB_getLiteral :: "int list \<Rightarrow> var \<Rightarrow> lit" where
  "PB_getLiteral mem v = (case PB_find mem v (nat (PB_getSize mem)) 1 of Some (_, l) \<Rightarrow> l | None \<Rightarrow> 0)"

definition PB_isIthLitWatched :: "int list \<Rightarrow> int \<Rightarrow> bool" where
  "PB_isIthLitWatched mem i \<longleftrightarrow> mem_get INTS_MEM mem (2 * i) < 0"
definition PB_setIthLitWatched :: "int \<Rightarrow> bool \<Rightarrow> int list \<Rightarrow> int list" where
  "PB_setIthLitWatched i w mem = mem_set INTS_MEM mem (2 * i) (- mem_get INTS_MEM mem (2 * i))"

text \<open>The constraint a block stands for.\<close>

definition pb_abs :: "int list \<Rightarrow> pbconstraint" where
  "pb_abs mem = \<lparr>pb_lhs = map (\<lambda>i. (PB_getIthCoefficient mem (int i), PB_getIthLiteral mem (int i))) [0..<nat (PB_getSize mem)],
     pb_rhs = PB_getConstant mem, pb_maxWIdx = PB_getMaxWIdx mem, pb_numBackjump = PB_getNumBackjump mem,
     pb_activity = PB_getActivity mem, pb_isInit = PB_isInitial mem, pb_LBD = PB_getLBD mem\<rparr>"

definition pb_block :: "int list \<Rightarrow> bool" where
  "pb_block mem \<longleftrightarrow> 7 \<le> length mem \<and> 0 \<le> PB_getSize mem \<and> int (length mem) = PB_getNumInts mem"

definition pb_of_wconstraint :: "wconstraint \<Rightarrow> bool \<Rightarrow> int \<Rightarrow> int \<Rightarrow> pbconstraint" where
  "pb_of_wconstraint wc isInit activity lbd =
     \<lparr>pb_lhs = lhs wc, pb_rhs = rhs wc, pb_maxWIdx = 0, pb_numBackjump = 0, pb_activity = activity,
      pb_isInit = isInit, pb_LBD = lbd\<rparr>"

section \<open>Memory of a clause\<close>

definition CL_setSize :: "int \<Rightarrow> int list \<Rightarrow> int list" where "CL_setSize s mem = mem_set 5 mem (-1) s"
definition CL_setWatchIdx :: "int \<Rightarrow> int list \<Rightarrow> int list" where "CL_setWatchIdx i mem = mem_set 5 mem (-2) i"
definition CL_setActivity :: "int \<Rightarrow> int list \<Rightarrow> int list" where "CL_setActivity a mem = mem_set 5 mem (-3) a"
definition CL_setInitial :: "bool \<Rightarrow> int list \<Rightarrow> int list" where "CL_setInitial b mem = mem_set 5 mem (-4) (b2i b)"
definition CL_setLBD :: "int \<Rightarrow> int list \<Rightarrow> int list" where "CL_setLBD l mem = mem_set 5 mem (-5) l"
definition CL_setIthLiteral :: "int \<Rightarrow> lit \<Rightarrow> int list \<Rightarrow> int list" where "CL_setIthLiteral i l mem = mem_set 5 mem i l"

definition CL_getSize :: "int list \<Rightarrow> int" where "CL_getSize mem = mem_get 5 mem (-1)"
definition CL_getWatchIdx :: "int list \<Rightarrow> int" where "CL_getWatchIdx mem = mem_get 5 mem (-2)"
definition CL_getActivity :: "int list \<Rightarrow> int" where "CL_getActivity mem = mem_get 5 mem (-3)"
definition CL_isInitial :: "int list \<Rightarrow> bool" where "CL_isInitial mem \<longleftrightarrow> mem_get 5 mem (-4) \<noteq> 0"
definition CL_getLBD :: "int list \<Rightarrow> int" where "CL_getLBD mem = mem_get 5 mem (-5)"
definition CL_getIthLiteral :: "int list \<Rightarrow> int \<Rightarrow> lit" where "CL_getIthLiteral mem i = mem_get 5 mem i"
definition CL_getNumInts :: "int list \<Rightarrow> int" where "CL_getNumInts mem = CL_getSize mem + 5"

fun CL_write :: "int \<Rightarrow> lit list \<Rightarrow> int list \<Rightarrow> int list" where
  "CL_write i [] mem = mem"
| "CL_write i (l # ls) mem = CL_write (i + 1) ls (mem_set 5 mem i l)"

definition Clause_new :: "int list \<Rightarrow> lit list \<Rightarrow> bool \<Rightarrow> int \<Rightarrow> int \<Rightarrow> int list" where
  "Clause_new garbage lits isInit activity lbd =
     CL_write 0 lits (CL_setLBD lbd (CL_setInitial isInit (CL_setActivity activity (CL_setWatchIdx 2
       (CL_setSize (int (length lits)) garbage)))))"

definition Clause_of_wconstraint :: "int list \<Rightarrow> wconstraint \<Rightarrow> bool \<Rightarrow> int \<Rightarrow> int \<Rightarrow> int list" where
  "Clause_of_wconstraint garbage wc = Clause_new garbage (map snd (lhs wc))"

definition cl_abs :: "int list \<Rightarrow> clause" where
  "cl_abs mem = \<lparr>cl_lits = map (\<lambda>i. CL_getIthLiteral mem (int i)) [0..<nat (CL_getSize mem)],
     cl_watchIdx = CL_getWatchIdx mem, cl_activity = CL_getActivity mem, cl_isInit = CL_isInitial mem,
     cl_LBD = CL_getLBD mem\<rparr>"

definition cl_of_lits :: "lit list \<Rightarrow> bool \<Rightarrow> int \<Rightarrow> int \<Rightarrow> clause" where
  "cl_of_lits lits isInit activity lbd =
     \<lparr>cl_lits = lits, cl_watchIdx = 2, cl_activity = activity, cl_isInit = isInit, cl_LBD = lbd\<rparr>"

definition cl_block :: "int list \<Rightarrow> bool" where
  "cl_block mem \<longleftrightarrow> 5 \<le> length mem \<and> 0 \<le> CL_getSize mem \<and> int (length mem) = CL_getNumInts mem"

section \<open>Blocks as lists\<close>

lemma length_mem_set [simp]: "length (mem_set off mem i x) = length mem"
  by (simp add: mem_set_def)

lemma mem_get_set:
  assumes "- int off \<le> i" "- int off \<le> j" "i < int (length mem) - int off"
  shows "mem_get off (mem_set off mem i x) j = (if i = j then x else mem_get off mem j)"
proof -
  have "nat (int off + i) = nat (int off + j) \<longleftrightarrow> i = j" using assms(1,2) by auto
  moreover have "nat (int off + i) < length mem" using assms by auto
  ultimately show ?thesis by (simp add: mem_get_def mem_set_def nth_list_update)
qed

lemma list_update2:
  "Suc k < length xs \<Longrightarrow> xs[k := a, Suc k := b] = take k xs @ a # b # drop (Suc (Suc k)) xs"
proof (induction xs arbitrary: k)
  case (Cons x xs)
  then show ?case by (cases k; cases xs) auto
qed simp

lemma list_update1: "k < length xs \<Longrightarrow> xs[k := a] = take k xs @ a # drop (Suc k) xs"
  by (simp add: upd_conv_take_nth_drop)

lemma PB_write_eq:
  "7 + 2 * nat i + 2 * length ms \<le> length mem \<Longrightarrow> 0 \<le> i \<Longrightarrow>
   PB_write i ms mem = take (7 + 2 * nat i) mem @ concat (map (\<lambda>(c, l). [c, l]) ms)
     @ drop (7 + 2 * nat i + 2 * length ms) mem"
proof (induction i ms mem rule: PB_write.induct)
  case (2 i c l ms mem)
  let ?k = "7 + 2 * nat i"
  have n: "nat (int INTS_MEM + 2 * i) = ?k" "nat (int INTS_MEM + (2 * i + 1)) = Suc ?k" "nat (i + 1) = Suc (nat i)"
    using 2 by (auto simp: INTS_MEM_def)
  have k: "Suc (Suc ?k) \<le> length mem" using "2.prems"(1) by simp
  have m: "mem_set INTS_MEM (mem_set INTS_MEM mem (2 * i) c) (2 * i + 1) l
      = take ?k mem @ [c, l] @ drop (Suc (Suc ?k)) mem"
    unfolding mem_set_def n append_Cons append_Nil using k by (intro list_update2) simp
  have len: "length (take ?k mem) = ?k" using k by simp
  have "PB_write (i + 1) ms (take ?k mem @ [c, l] @ drop (Suc (Suc ?k)) mem)
    = take (7 + 2 * nat (i + 1)) (take ?k mem @ [c, l] @ drop (Suc (Suc ?k)) mem)
      @ concat (map (\<lambda>(c, l). [c, l]) ms)
      @ drop (7 + 2 * nat (i + 1) + 2 * length ms) (take ?k mem @ [c, l] @ drop (Suc (Suc ?k)) mem)"
    using "2.IH" "2.prems" k unfolding m n by simp
  then show ?case unfolding PB_write.simps m n using len by (simp add: add.commute add.left_commute)
qed simp

lemma CL_write_eq:
  "5 + nat i + length ls \<le> length mem \<Longrightarrow> 0 \<le> i \<Longrightarrow>
   CL_write i ls mem = take (5 + nat i) mem @ ls @ drop (5 + nat i + length ls) mem"
proof (induction i ls mem rule: CL_write.induct)
  case (2 i l ls mem)
  let ?k = "5 + nat i"
  have n: "nat (int 5 + i) = ?k" "nat (i + 1) = Suc (nat i)" using 2 by auto
  have k: "Suc ?k \<le> length mem" using "2.prems"(1) by simp
  have m: "mem_set 5 mem i l = take ?k mem @ l # drop (Suc ?k) mem"
    unfolding mem_set_def n using k by (simp add: list_update1)
  show ?case unfolding CL_write.simps using "2.IH" "2.prems" k unfolding m n
    by (simp add: add.commute add.left_commute)
qed simp

definition pb_header :: "wconstraint \<Rightarrow> bool \<Rightarrow> int \<Rightarrow> int \<Rightarrow> int list" where
  "pb_header wc isInit activity lbd =
     [lbd, b2i isInit, activity, 0, 0, rhs wc, int (length (lhs wc))]"

lemma seven: "7 \<le> length xs \<Longrightarrow> \<exists>a b c d e f g ys. xs = a # b # c # d # e # f # g # ys"
  by (auto simp: numeral_eq_Suc Suc_le_length_iff)

lemma five: "5 \<le> length xs \<Longrightarrow> \<exists>a b c d e ys. xs = a # b # c # d # e # ys"
  by (auto simp: numeral_eq_Suc Suc_le_length_iff)

lemma PBConstraint_new_eq:
  assumes "length garbage = 7 + 2 * length (lhs wc)"
  shows "PBConstraint_new garbage wc isInit activity lbd =
    pb_header wc isInit activity lbd @ concat (map (\<lambda>(c, l). [c, l]) (lhs wc))"
proof -
  obtain a b c d e f g ys where gb: "garbage = a # b # c # d # e # f # g # ys"
    using seven [of garbage] assms by auto
  show ?thesis
    using assms unfolding PBConstraint_new_def gb
    by (simp add: PB_setSize_def PB_setConstant_def PB_setMaxWIdx_def PB_setNumBackjump_def PB_setActivity_def
        PB_setInitial_def PB_setLBD_def mem_set_def INTS_MEM_def PB_write_eq pb_header_def)
qed

lemma Clause_new_eq:
  assumes "length garbage = 5 + length lits"
  shows "Clause_new garbage lits isInit activity lbd =
    [lbd, b2i isInit, activity, 2, int (length lits)] @ lits"
proof -
  obtain a b c d e ys where gb: "garbage = a # b # c # d # e # ys"
    using five [of garbage] assms by auto
  show ?thesis
    using assms unfolding Clause_new_def gb
    by (simp add: CL_setSize_def CL_setWatchIdx_def CL_setActivity_def CL_setInitial_def CL_setLBD_def
        mem_set_def CL_write_eq)
qed

lemma concat_pairs_nth:
  "i < length ms \<Longrightarrow> concat (map (\<lambda>(c, l). [c, l]) ms) ! (2 * i) = fst (ms ! i)
     \<and> concat (map (\<lambda>(c, l). [c, l]) ms) ! Suc (2 * i) = snd (ms ! i)"
proof (induction ms arbitrary: i)
  case (Cons m ms)
  then show ?case by (cases i) (auto split: prod.splits)
qed simp

lemma length_concat_pairs: "length (concat (map (\<lambda>(c, l). [c, l]) ms)) = 2 * length (ms :: (int \<times> int) list)"
  by (induction ms) auto

lemmas PB_getters = PB_getSize_def PB_getConstant_def PB_getMaxWIdx_def PB_getNumBackjump_def
  PB_getActivity_def PB_isInitial_def PB_getLBD_def PB_getNumInts_def
lemmas PB_setters = PB_setSize_def PB_setConstant_def PB_setMaxWIdx_def PB_setNumBackjump_def
  PB_setActivity_def PB_setInitial_def PB_setLBD_def PB_increaseActivity_def
lemmas CL_getters = CL_getSize_def CL_getWatchIdx_def CL_getActivity_def CL_isInitial_def CL_getLBD_def
  CL_getIthLiteral_def CL_getNumInts_def
lemmas CL_setters = CL_setSize_def CL_setWatchIdx_def CL_setActivity_def CL_setInitial_def CL_setLBD_def
  CL_setIthLiteral_def

lemma pb_abs_block:
  assumes "mem = pb_header wc isInit activity lbd @ concat (map (\<lambda>(c, l). [c, l]) (lhs wc))"
  shows "pb_block mem" "pb_abs mem = pb_of_wconstraint wc isInit activity lbd"
proof -
  have hd: "PB_getSize mem = int (length (lhs wc))" "PB_getConstant mem = rhs wc" "PB_getMaxWIdx mem = 0"
    "PB_getNumBackjump mem = 0" "PB_getActivity mem = activity" "PB_isInitial mem = isInit" "PB_getLBD mem = lbd"
    unfolding assms by (simp_all add: PB_getters mem_get_def INTS_MEM_def pb_header_def b2i_def)
  show "pb_block mem"
    using hd unfolding pb_block_def PB_getNumInts_def
    by (simp add: assms pb_header_def length_concat_pairs INTS_MEM_def)
  have "PB_getIthCoefficient mem (int i) = fst (lhs wc ! i) \<and> PB_getIthLiteral mem (int i) = snd (lhs wc ! i)"
    if "i < length (lhs wc)" for i
  proof -
    have "nat (int 7 + 2 * int i) = 7 + 2 * i" "nat (int 7 + (2 * int i + 1)) = 7 + Suc (2 * i)" by auto
    then show ?thesis
      using concat_pairs_nth [OF that]
      by (simp add: assms PB_getIthCoefficient_def PB_getIthLiteral_def mem_get_def INTS_MEM_def pb_header_def
          nth_append)
  qed
  then have "map (\<lambda>i. (PB_getIthCoefficient mem (int i), PB_getIthLiteral mem (int i))) [0..<length (lhs wc)] = lhs wc"
    by (intro nth_equalityI) auto
  then show "pb_abs mem = pb_of_wconstraint wc isInit activity lbd"
    by (simp add: pb_abs_def pb_of_wconstraint_def hd)
qed

lemma PB_find_correct:
  assumes "PB_getSize mem = int (k + n)"
  shows "PB_find mem v n (2 * int k + 1) =
    find (\<lambda>m. \<bar>snd m\<bar> = v) (drop k (pb_lhs (pb_abs mem)))"
  using assms
proof (induction n arbitrary: k)
  case (Suc n)
  have "k < length (pb_lhs (pb_abs mem))" using Suc.prems by (simp add: pb_abs_def)
  then have d: "drop k (pb_lhs (pb_abs mem)) = pb_lhs (pb_abs mem) ! k # drop (Suc k) (pb_lhs (pb_abs mem))"
    by (simp add: Cons_nth_drop_Suc)
  have "[0..<nat (PB_getSize mem)] ! k = k" "k < nat (PB_getSize mem)" using Suc.prems by simp_all
  then have h: "pb_lhs (pb_abs mem) ! k = (mem_get INTS_MEM mem (2 * int k), mem_get INTS_MEM mem (2 * int k + 1))"
    by (simp add: pb_abs_def PB_getIthCoefficient_def PB_getIthLiteral_def)
  show ?case
    unfolding d h using Suc.IH [of "Suc k"] Suc.prems by (simp add: add.commute add.left_commute)
qed (simp add: pb_abs_def)

text \<open>
  The constructor of \<open>PBConstraint\<close> fills its block (whatever it held before) so that reading it
  back gives exactly the constraint, both watch counters 0 and the given activity, initial flag and
  LBD; the block has \<open>getNumInts\<close> integers; and on it \<open>getCoefficient\<close> and \<open>getLiteral\<close> return the
  first monomial of the variable, or 0.
\<close>
theorem PBConstraint_constructor_roundtrip:
  assumes "length garbage = 7 + 2 * length (lhs wc)"
    and mem: "mem = PBConstraint_new garbage wc isInit activity lbd"
  shows "pb_abs mem = pb_of_wconstraint wc isInit activity lbd \<and> int (length mem) = PB_getNumInts mem
    \<and> PB_getCoefficient mem v = (case find (\<lambda>m. \<bar>snd m\<bar> = v) (lhs wc) of Some m \<Rightarrow> fst m | None \<Rightarrow> 0)
    \<and> PB_getLiteral mem v = (case find (\<lambda>m. \<bar>snd m\<bar> = v) (lhs wc) of Some m \<Rightarrow> snd m | None \<Rightarrow> 0)"
proof -
  note b = pb_abs_block [OF mem [unfolded PBConstraint_new_eq [OF assms(1)]]]
  have sz: "PB_getSize mem = int (length (lhs wc))"
    using arg_cong [OF b(2), of "\<lambda>r. length (pb_lhs r)"] b(1)
    by (auto simp: pb_abs_def pb_of_wconstraint_def pb_block_def)
  have "PB_find mem v (nat (PB_getSize mem)) 1 = find (\<lambda>m. \<bar>snd m\<bar> = v) (lhs wc)"
    using PB_find_correct [of mem 0 "length (lhs wc)" v] sz b(2) by (simp add: pb_of_wconstraint_def)
  with b show ?thesis
    by (auto simp: PB_getCoefficient_def PB_getLiteral_def pb_block_def split: option.splits)
qed

lemma PBConstraint_constructor_roundtrip_witness:
  "let mem = PBConstraint_new (replicate 11 77) \<lparr>lhs = [(3, 1), (2, -4)], rhs = 4\<rparr> True 0 5
   in pb_lhs (pb_abs mem) = [(3, 1), (2, -4)] \<and> PB_getNumInts mem = 11 \<and> PB_getLiteral mem 4 = -4"
proof -
  let ?wc = "\<lparr>lhs = [(3, 1), (2, -4)], rhs = 4\<rparr> :: wconstraint"
  have g: "length (replicate 11 (77::int)) = 7 + 2 * length (lhs ?wc)" by simp
  note p = PBConstraint_constructor_roundtrip [OF g refl, of True 0 5]
  have "int (length (PBConstraint_new (replicate 11 77) ?wc True 0 5)) = 11"
    unfolding PBConstraint_new_eq [OF g] by (simp add: pb_header_def)
  with p [of 4] show ?thesis by (auto simp: Let_def pb_of_wconstraint_def)
qed

section \<open>Updates\<close>

lemma mem_get_set_other:
  "mem_get off (mem_set off mem i x) j = mem_get off mem j" if "nat (int off + i) \<noteq> nat (int off + j)"
  using that by (simp add: mem_get_def mem_set_def)

lemma mem_get_set_same:
  "nat (int off + i) < length mem \<Longrightarrow> mem_get off (mem_set off mem i x) i = x"
  by (simp add: mem_get_def mem_set_def)

lemma b2i_nonzero [simp]: "b2i b \<noteq> 0 \<longleftrightarrow> b" by (simp add: b2i_def)

text \<open>
  On a block of a pseudo-Boolean constraint every setter changes its own field of the abstract
  constraint and nothing else.
\<close>
theorem PBConstraint_setters_refine:
  assumes "pb_block mem"
  shows "pb_abs (PB_setConstant x mem) = (pb_abs mem)\<lparr>pb_rhs := x\<rparr>
    \<and> pb_abs (PB_setMaxWIdx x mem) = (pb_abs mem)\<lparr>pb_maxWIdx := x\<rparr>
    \<and> pb_abs (PB_setNumBackjump x mem) = (pb_abs mem)\<lparr>pb_numBackjump := x\<rparr>
    \<and> pb_abs (PB_setActivity x mem) = (pb_abs mem)\<lparr>pb_activity := x\<rparr>
    \<and> pb_abs (PB_increaseActivity x mem) = (pb_abs mem)\<lparr>pb_activity := pb_activity (pb_abs mem) + x\<rparr>
    \<and> pb_abs (PB_setInitial b mem) = (pb_abs mem)\<lparr>pb_isInit := b\<rparr>
    \<and> pb_abs (PB_setLBD x mem) = (pb_abs mem)\<lparr>pb_LBD := x\<rparr>"
proof -
  have "7 \<le> length mem" using assms by (simp add: pb_block_def)
  then have "0 < length mem" "1 < length mem" "2 < length mem" "3 < length mem" "4 < length mem"
    "5 < length mem" "6 < length mem" by auto
  then show ?thesis
    by (intro conjI)
      (simp_all add: pb_abs_def PB_setters PB_getters PB_getIthCoefficient_def PB_getIthLiteral_def INTS_MEM_def
        mem_get_set_other mem_get_set_same nat_add_distrib)
qed

lemma PBConstraint_setters_refine_witness:
  "let mem = PBConstraint_new (replicate 9 0) \<lparr>lhs = [(3, 1)], rhs = 3\<rparr> True 0 0
   in pb_rhs (pb_abs (PB_setConstant 2 mem)) = 2 \<and> pb_lhs (pb_abs (PB_setConstant 2 mem)) = [(3, 1)]"
proof -
  let ?wc = "\<lparr>lhs = [(3, 1)], rhs = 3\<rparr> :: wconstraint"
  have g: "length (replicate 9 (0::int)) = 7 + 2 * length (lhs ?wc)" by simp
  note b = pb_abs_block [OF PBConstraint_new_eq [OF g, of True 0 0]]
  from PBConstraint_setters_refine [OF b(1), of 2] b(2)
  show ?thesis by (auto simp: Let_def pb_of_wconstraint_def)
qed

lemma cl_abs_block:
  assumes "mem = [lbd, b2i isInit, activity, 2, int (length lits)] @ lits"
  shows "cl_block mem" "cl_abs mem = cl_of_lits lits isInit activity lbd"
proof -
  have hd: "CL_getSize mem = int (length lits)" "CL_getWatchIdx mem = 2" "CL_getActivity mem = activity"
    "CL_isInitial mem = isInit" "CL_getLBD mem = lbd"
    unfolding assms by (simp_all add: CL_getters mem_get_def b2i_def)
  show "cl_block mem"
    using hd by (simp add: cl_block_def CL_getNumInts_def) (simp add: assms)
  have "CL_getIthLiteral mem (int i) = lits ! i" for i
    by (simp add: assms CL_getIthLiteral_def mem_get_def nat_add_distrib)
  then have "map (\<lambda>i. CL_getIthLiteral mem (int i)) [0..<length lits] = lits"
    by (intro nth_equalityI) auto
  then show "cl_abs mem = cl_of_lits lits isInit activity lbd"
    by (simp add: cl_abs_def cl_of_lits_def hd)
qed

text \<open>
  The clause constructor stores the literals in order with watch index 2, and on a clause block
  \<open>setIthLiteral\<close> and \<open>setWatchIdx\<close>, the two writes of the clause propagation, update exactly that
  literal and that index of the abstract clause.
\<close>
theorem Clause_block_refines:
  assumes "length garbage = 5 + length lits" "cl_block mem" "i < length (cl_lits (cl_abs mem))"
  shows "cl_abs (Clause_new garbage lits isInit activity lbd) = cl_of_lits lits isInit activity lbd
    \<and> cl_abs (CL_setIthLiteral (int i) l mem) = (cl_abs mem)\<lparr>cl_lits := (cl_lits (cl_abs mem))[i := l]\<rparr>
    \<and> cl_abs (CL_setWatchIdx k mem) = (cl_abs mem)\<lparr>cl_watchIdx := k\<rparr>"
proof -
  have len: "5 \<le> length mem" and sz: "0 \<le> CL_getSize mem" and i: "i < nat (CL_getSize mem)"
    and l: "int (length mem) = CL_getSize mem + 5"
    using assms(2,3) by (auto simp: cl_block_def cl_abs_def CL_getNumInts_def)
  have ip: "nat (int 5 + int i) < length mem" using i l by linarith
  have g: "CL_getSize (CL_setIthLiteral (int i) l mem) = CL_getSize mem"
    by (simp add: CL_getters CL_setters mem_get_set_other)
  have "map (\<lambda>j. CL_getIthLiteral (CL_setIthLiteral (int i) l mem) (int j)) [0..<nat (CL_getSize mem)]
      = (map (\<lambda>j. CL_getIthLiteral mem (int j)) [0..<nat (CL_getSize mem)])[i := l]"
  proof (intro nth_equalityI)
    fix j assume "j < length (map (\<lambda>j. CL_getIthLiteral (CL_setIthLiteral (int i) l mem) (int j)) [0..<nat (CL_getSize mem)])"
    then have j: "j < nat (CL_getSize mem)" by simp
    have "CL_getIthLiteral (CL_setIthLiteral (int i) l mem) (int j) = (if i = j then l else CL_getIthLiteral mem (int j))"
      unfolding CL_getIthLiteral_def CL_setIthLiteral_def
      using ip by (auto simp: mem_get_set_same mem_get_set_other)
    with j i show "map (\<lambda>j. CL_getIthLiteral (CL_setIthLiteral (int i) l mem) (int j)) [0..<nat (CL_getSize mem)] ! j
        = (map (\<lambda>j. CL_getIthLiteral mem (int j)) [0..<nat (CL_getSize mem)])[i := l] ! j"
      by (simp add: nth_list_update)
  qed simp
  moreover have "CL_getWatchIdx (CL_setIthLiteral (int i) l mem) = CL_getWatchIdx mem"
    "CL_getActivity (CL_setIthLiteral (int i) l mem) = CL_getActivity mem"
    "CL_isInitial (CL_setIthLiteral (int i) l mem) = CL_isInitial mem"
    "CL_getLBD (CL_setIthLiteral (int i) l mem) = CL_getLBD mem"
    by (simp_all add: CL_getters CL_setters mem_get_set_other)
  ultimately have "cl_abs (CL_setIthLiteral (int i) l mem) = (cl_abs mem)\<lparr>cl_lits := (cl_lits (cl_abs mem))[i := l]\<rparr>"
    by (simp add: cl_abs_def g)
  moreover have "cl_abs (CL_setWatchIdx k mem) = (cl_abs mem)\<lparr>cl_watchIdx := k\<rparr>"
    using len by (simp add: cl_abs_def CL_getters CL_setters mem_get_set_other mem_get_set_same nat_add_distrib)
  ultimately show ?thesis
    using cl_abs_block(2) [OF Clause_new_eq [OF assms(1)]] by blast
qed

lemma Clause_block_refines_witness:
  "let mem = Clause_new (replicate 8 9) [1, -2, 3] True 0 0
   in cl_lits (cl_abs mem) = [1, -2, 3] \<and> cl_lits (cl_abs (CL_setIthLiteral 1 3 mem)) = [1, 3, 3]"
proof -
  have g: "length (replicate 8 (9::int)) = 5 + length [1, -2, 3::int]" by simp
  note b = cl_abs_block [OF Clause_new_eq [OF g, of True 0 0]]
  have "1 < length (cl_lits (cl_abs (Clause_new (replicate 8 9) [1, -2, 3] True 0 0)))"
    unfolding b(2) by (simp add: cl_of_lits_def)
  from Clause_block_refines [OF g b(1) this, of True 0 0 3 2] b(2)
  show ?thesis by (simp add: Let_def cl_of_lits_def)
qed

end
