(* ===== verification/Simplify.thy ===== *)
theory Simplify
  imports WConstraint
begin

text \<open>
  The two normalising operations every constraint goes through before it enters the solver:
  \<open>simplify\<close> of \<open>Constraint.h\<close> (saturation of the coefficients and division by
  the gcd of the small ones) and \<open>removeDuplicates\<close> of \<open>WConstraint.h\<close>
  (merging of repeated and opposite literals). Both keep the satisfying assignments, the
  first one only for a positive right-hand side: for the right-hand sides that the second one
  can leave it traps or returns a different constraint.
\<close>

section \<open>simplify\<close>

text \<open>
  First loop: the gcd of the coefficients below the constant, with the coefficients above it
  lowered to it.
\<close>

fun simplify_scan :: "int \<Rightarrow> int \<Rightarrow> monomial list \<Rightarrow> int \<times> monomial list" where
  "simplify_scan c g [] = (g, [])"
| "simplify_scan c g ((a, l) # ms) =
     (if a < c then let (g', ms') = simplify_scan c (GCD_T g a) ms in (g', (a, l) # ms')
      else if c < a then let (g', ms') = simplify_scan c g ms in (g', (c, l) # ms')
      else let (g', ms') = simplify_scan c g ms in (g', (a, l) # ms'))"

text \<open>Second loop: every coefficient divided, rounding up; \<open>None\<close> when the division traps.\<close>

fun divide_coeffs :: "int \<Rightarrow> monomial list \<Rightarrow> monomial list option" where
  "divide_coeffs g [] = Some []"
| "divide_coeffs g ((a, l) # ms) =
     (case divisionRoundedUp a g of
        None \<Rightarrow> None
      | Some a' \<Rightarrow> (case divide_coeffs g ms of None \<Rightarrow> None | Some ms' \<Rightarrow> Some ((a', l) # ms')))"

definition simplify :: "wconstraint \<Rightarrow> wconstraint option" where
  "simplify w =
     (let c = rhs w;
          (g, ms) = simplify_scan c 0 (lhs w);
          gcdV = (if g = 0 then c else g)
      in case divisionRoundedUp c gcdV of
           None \<Rightarrow> None
         | Some c' \<Rightarrow>
             (case divide_coeffs gcdV ms of
                None \<Rightarrow> None
              | Some ms' \<Rightarrow> Some (w\<lparr>lhs := ms', rhs := c'\<rparr>)))"

subsection \<open>What the two loops compute\<close>

lemma simplify_scan_lits:
  "simplify_scan c g ms = (g', ms') \<Longrightarrow> ms' = map (\<lambda>m. (min (fst m) c, snd m)) ms"
  by (induction c g ms arbitrary: g' ms' rule: simplify_scan.induct)
    (auto split: if_splits prod.splits simp: min_def)

lemma simplify_scan_gcd:
  "simplify_scan c g ms = (g', ms') \<Longrightarrow>
     g' dvd g \<and> (\<forall>m \<in> set ms. fst m < c \<longrightarrow> g' dvd fst m) \<and> (0 \<le> g \<longrightarrow> 0 \<le> g')
     \<and> (g' = 0 \<longrightarrow> (\<forall>m \<in> set ms. fst m < c \<longrightarrow> fst m = 0))"
proof (induction c g ms arbitrary: g' ms' rule: simplify_scan.induct)
  case (2 c g a l ms)
  show ?case
  proof (cases "a < c")
    case True
    with "2.prems" obtain ms'' where scan: "simplify_scan c (GCD_T g a) ms = (g', ms'')"
      by (auto split: prod.splits)
    from "2.IH"(1) [OF True scan] True show ?thesis
      by (auto simp: GCD_T_def)
  next
    case False
    then show ?thesis using "2.IH"(2,3) "2.prems"
      by (cases "c < a") (auto split: prod.splits)
  qed
qed simp

lemma divide_coeffs_cdiv:
  "0 < g \<Longrightarrow> pos_coeffs ms \<Longrightarrow> divide_coeffs g ms = Some (map (\<lambda>m. (cdiv (fst m) g, snd m)) ms)"
  by (induction g ms rule: divide_coeffs.induct) (auto simp: divisionRoundedUp_cdiv)

subsection \<open>Saturation and division keep the satisfying assignments\<close>

lemma msum_saturate:
  assumes "pos_coeffs ms" "0 < c"
  shows "c \<le> msum P (map (\<lambda>m. (min (fst m) c, snd m)) ms) \<longleftrightarrow> c \<le> msum P ms"
proof (cases "\<exists>m \<in> set ms. P (snd m) \<and> c \<le> fst m")
  case True
  then obtain m where m: "m \<in> set ms" "P (snd m)" "c \<le> fst m" by blast
  have "pos_coeffs (map (\<lambda>m. (min (fst m) c, snd m)) ms)"
    using assms by (auto simp: pos_coeffs_def)
  from msum_ge_member [OF this, of "(min (fst m) c, snd m)" P] m
  have "c \<le> msum P (map (\<lambda>m. (min (fst m) c, snd m)) ms)" by force
  moreover have "c \<le> msum P ms"
    using msum_ge_member [OF assms(1) m(1), of P] m by linarith
  ultimately show ?thesis by blast
next
  case False
  then have "msum P (map (\<lambda>m. (min (fst m) c, snd m)) ms) = msum P ms"
    by (induction ms) (auto simp: min_def)
  then show ?thesis by simp
qed

lemma msum_divide:
  assumes g: "0 < g" and "\<forall>m \<in> set ms. P (snd m) \<longrightarrow> g dvd fst m"
  shows "msum P (map (\<lambda>m. (cdiv (fst m) g, snd m)) ms) * g = msum P ms"
  using assms(2) by (induction ms) (auto simp: distrib_right cdiv_dvd [OF g])

lemma msum_divide_iff:
  assumes pos: "pos_coeffs ms" and g: "0 < g" and c: "0 < c"
    and div: "\<forall>m \<in> set ms. fst m < c \<longrightarrow> g dvd fst m"
  shows "cdiv c g \<le> msum P (map (\<lambda>m. (cdiv (fst m) g, snd m)) ms) \<longleftrightarrow> c \<le> msum P ms"
proof (cases "\<exists>m \<in> set ms. P (snd m) \<and> c \<le> fst m")
  case True
  then obtain m where m: "m \<in> set ms" "P (snd m)" "c \<le> fst m" by blast
  have "pos_coeffs (map (\<lambda>m. (cdiv (fst m) g, snd m)) ms)"
    using pos g by (auto simp: pos_coeffs_def cdiv_pos)
  from msum_ge_member [OF this, of "(cdiv (fst m) g, snd m)" P] m
  have "cdiv (fst m) g \<le> msum P (map (\<lambda>m. (cdiv (fst m) g, snd m)) ms)" by force
  moreover have "cdiv c g \<le> cdiv (fst m) g" using cdiv_mono [OF g m(3)] .
  moreover have "c \<le> msum P ms" using msum_ge_member [OF pos m(1), of P] m by linarith
  ultimately show ?thesis by linarith
next
  case False
  with div have "\<forall>m \<in> set ms. P (snd m) \<longrightarrow> g dvd fst m" by force
  from msum_divide [OF g this] show ?thesis by (simp add: cdiv_le_iff [OF g])
qed

text \<open>The divisor that \<open>simplify\<close> uses is positive and divides every coefficient below the constant.\<close>

lemma simplify_divisor:
  assumes "simplify_scan c 0 ms = (g, ms')" "0 < c" "pos_coeffs ms"
  shows "0 < (if g = 0 then c else g)"
    and "\<forall>m \<in> set ms'. fst m < c \<longrightarrow> (if g = 0 then c else g) dvd fst m"
    and "pos_coeffs ms'"
proof -
  note sc = simplify_scan_gcd [OF assms(1)] and lits = simplify_scan_lits [OF assms(1)]
  show "0 < (if g = 0 then c else g)" using sc assms(2) by auto
  show "pos_coeffs ms'" using assms(2,3) by (auto simp: lits pos_coeffs_def)
  show "\<forall>m \<in> set ms'. fst m < c \<longrightarrow> (if g = 0 then c else g) dvd fst m"
    using sc assms(3) by (auto simp: lits pos_coeffs_def min_def split: if_splits)
qed

lemma simplify_eq:
  assumes "0 < rhs w" "pos_coeffs (lhs w)"
  obtains g where "0 < g" "\<forall>m \<in> set (lhs w). fst m < rhs w \<longrightarrow> g dvd fst m"
    "simplify w = Some (w\<lparr>lhs := map (\<lambda>m. (cdiv (min (fst m) (rhs w)) g, snd m)) (lhs w),
                         rhs := cdiv (rhs w) g\<rparr>)"
proof -
  obtain g ms' where scan: "simplify_scan (rhs w) 0 (lhs w) = (g, ms')"
    by (cases "simplify_scan (rhs w) 0 (lhs w)")
  let ?g = "if g = 0 then rhs w else g"
  note d = simplify_divisor [OF scan assms] and lits = simplify_scan_lits [OF scan]
  have "simplify w = Some (w\<lparr>lhs := map (\<lambda>m. (cdiv (fst m) ?g, snd m)) ms', rhs := cdiv (rhs w) ?g\<rparr>)"
    unfolding simplify_def scan Let_def prod.case
    using divisionRoundedUp_cdiv [OF d(1), of "rhs w"] divide_coeffs_cdiv [OF d(1) d(3)] assms(1)
    by simp
  moreover have "\<forall>m \<in> set (lhs w). fst m < rhs w \<longrightarrow> ?g dvd fst m"
    using d(2) by (auto simp: lits min_def split: if_splits)
  ultimately show thesis using that [of ?g] d(1) by (simp add: lits comp_def)
qed

lemma simplify_correct:
  assumes "0 < rhs w" "pos_coeffs (lhs w)"
  obtains w' where "simplify w = Some w'" "\<And>\<sigma>. sat \<sigma> w' = sat \<sigma> w" "0 < rhs w'"
    "map snd (lhs w') = map snd (lhs w)" "\<forall>m \<in> set (lhs w'). 0 < fst m \<and> fst m \<le> rhs w'"
    "isOrderedByDecreasingCoefficient (lhs w) \<Longrightarrow> isOrderedByDecreasingCoefficient (lhs w')"
proof -
  from assms obtain g where g: "0 < g" "\<forall>m \<in> set (lhs w). fst m < rhs w \<longrightarrow> g dvd fst m"
    and eq: "simplify w = Some (w\<lparr>lhs := map (\<lambda>m. (cdiv (min (fst m) (rhs w)) g, snd m)) (lhs w),
                         rhs := cdiv (rhs w) g\<rparr>)" (is "_ = Some ?w'")
    by (rule simplify_eq)
  let ?ms = "map (\<lambda>m. (min (fst m) (rhs w), snd m)) (lhs w)"
  have pos: "pos_coeffs ?ms" using assms by (auto simp: pos_coeffs_def)
  have dvd: "\<forall>m \<in> set ?ms. fst m < rhs w \<longrightarrow> g dvd fst m" using g(2) by (auto simp: min_def)
  have iff: "cdiv (rhs w) g \<le> msum P (map (\<lambda>m. (cdiv (min (fst m) (rhs w)) g, snd m)) (lhs w))
      \<longleftrightarrow> rhs w \<le> msum P (lhs w)" for P
    using msum_divide_iff [OF pos g(1) assms(1) dvd, of P]
      msum_saturate [OF assms(2,1), of P] by (simp add: comp_def)
  have ord: "isOrderedByDecreasingCoefficient (lhs ?w')" if "isOrderedByDecreasingCoefficient (lhs w)"
  proof -
    have "sorted_wrt (\<lambda>x y. fst y \<le> fst x) (lhs w)"
      using that by (simp add: isOrderedByDecreasingCoefficient_iff sorted_wrt_map)
    then have "sorted_wrt (\<lambda>x y. cdiv (min (fst y) (rhs w)) g \<le> cdiv (min (fst x) (rhs w)) g) (lhs w)"
      by (rule sorted_wrt_mono_rel [rotated]) (intro cdiv_mono [OF g(1)], simp)
    then show ?thesis
      by (simp add: isOrderedByDecreasingCoefficient_iff sorted_wrt_map)
  qed
  show thesis
  proof (rule that [OF eq])
    show "sat \<sigma> ?w' = sat \<sigma> w" for \<sigma> by (simp add: sat_def iff)
    show "0 < rhs ?w'" using assms(1) g(1) by (simp add: cdiv_pos)
    show "map snd (lhs ?w') = map snd (lhs w)" by simp
    show "\<forall>m \<in> set (lhs ?w'). 0 < fst m \<and> fst m \<le> rhs ?w'"
      using assms g(1) by (auto simp: cdiv_pos cdiv_mono pos_coeffs_def)
  qed (rule ord)
qed

text \<open>
  For a constraint with positive coefficients and a positive constant, \<open>simplify\<close>
  returns a constraint with the same satisfying assignments, over the same literals in the
  same order, whose constant is positive and whose coefficients are positive and saturated.
\<close>

theorem simplify_equivalent:
  assumes "0 < rhs w" "pos_coeffs (lhs w)"
  shows "\<exists>w'. simplify w = Some w' \<and> (\<forall>\<sigma>. sat \<sigma> w' = sat \<sigma> w) \<and> 0 < rhs w'
    \<and> map snd (lhs w') = map snd (lhs w)
    \<and> (\<forall>m \<in> set (lhs w'). 0 < fst m \<and> fst m \<le> rhs w')"
  using simplify_correct [OF assms] by metis

theorem simplify_equivalent_witness:
  "\<exists>w'. simplify \<lparr>lhs = [(3, 1), (3, -2), (2, 3)], rhs = 3\<rparr> = Some w'
    \<and> (\<forall>\<sigma>. sat \<sigma> w' = sat \<sigma> \<lparr>lhs = [(3, 1), (3, -2), (2, 3)], rhs = 3\<rparr>)"
  using simplify_equivalent [of "\<lparr>lhs = [(3, 1), (3, -2), (2, 3)], rhs = 3\<rparr>"] by auto


section \<open>removeDuplicates\<close>

text \<open>Inner loop: the block of monomials on variable \<open>v\<close>, with the two coefficient sums.\<close>

fun dup_block :: "var \<Rightarrow> int \<Rightarrow> int \<Rightarrow> monomial list \<Rightarrow> int \<times> int \<times> monomial list" where
  "dup_block v posCoeffs negCoeffs [] = (posCoeffs, negCoeffs, [])"
| "dup_block v posCoeffs negCoeffs ((a, l) # ms) =
     (if \<bar>l\<bar> = v
      then (if 0 < l then dup_block v (posCoeffs + a) negCoeffs ms
            else dup_block v posCoeffs (negCoeffs + a) ms)
      else (posCoeffs, negCoeffs, (a, l) # ms))"

lemma dup_block_length: "dup_block v p n ms = (p', n', rest) \<Longrightarrow> length rest \<le> length ms"
  by (induction v p n ms rule: dup_block.induct) (auto split: if_splits)

function dup_loop :: "monomial list \<Rightarrow> monomial list \<Rightarrow> int \<Rightarrow> monomial list \<times> int" where
  "dup_loop [] newLhs newRhs = (newLhs, newRhs)"
| "dup_loop ((a, l) # ms) newLhs newRhs =
     (let v = \<bar>l\<bar>;
          (p, n, rest) = dup_block v 0 0 ((a, l) # ms)
      in if n < p then dup_loop rest (newLhs @ [(p - n, v)]) (newRhs - n)
         else if p < n then dup_loop rest (newLhs @ [(n - p, - v)]) (newRhs - p)
         else dup_loop rest newLhs (newRhs - p))"
  by pat_completeness auto
termination
  by (relation "measure (\<lambda>(ms, L, r). length ms)")
    (auto split: if_splits dest!: dup_block_length [OF sym])

definition removeDuplicates :: "wconstraint \<Rightarrow> wconstraint" where
  "removeDuplicates w =
     (let (newLhs, newRhs) = dup_loop (lhs w) [] (rhs w) in w\<lparr>lhs := newLhs, rhs := newRhs\<rparr>)"

lemma dup_block_split:
  "dup_block v p n ms = (p', n', rest) \<Longrightarrow>
     \<exists>blk. ms = blk @ rest \<and> (\<forall>m \<in> set blk. \<bar>snd m\<bar> = v) \<and> (rest \<noteq> [] \<longrightarrow> \<bar>snd (hd rest)\<bar> \<noteq> v)"
proof (induction v p n ms rule: dup_block.induct)
  case (2 v p n a l ms)
  show ?case
  proof (cases "\<bar>l\<bar> = v")
    case True
    with 2 obtain blk where "ms = blk @ rest" "\<forall>m \<in> set blk. \<bar>snd m\<bar> = v"
      "rest \<noteq> [] \<longrightarrow> \<bar>snd (hd rest)\<bar> \<noteq> v"
      by (cases "0 < l") auto
    with True show ?thesis by (intro exI [of _ "(a, l) # blk"]) auto
  next
    case False
    with 2 show ?thesis by auto
  qed
qed simp

text \<open>The value of the block under an assignment is one of its two sums.\<close>

lemma dup_block_value:
  "dup_block v p n ms = (p', n', rest) \<Longrightarrow> 0 < v \<Longrightarrow>
     lhs_value \<sigma> ms + (if \<sigma> v then p else n) = lhs_value \<sigma> rest + (if \<sigma> v then p' else n')"
proof (induction v p n ms rule: dup_block.induct)
  case (2 v p n a l ms)
  then show ?case
  proof (cases "\<bar>l\<bar> = v")
    case True
    with "2.prems"(2) have "l = v \<or> l = - v" by linarith
    with 2 True show ?thesis by (auto split: if_splits)
  qed auto
qed simp

lemma dup_block_nonneg:
  "dup_block v p n ms = (p', n', rest) \<Longrightarrow> pos_coeffs ms \<Longrightarrow> 0 \<le> p \<Longrightarrow> 0 \<le> n \<Longrightarrow>
     0 \<le> p' \<and> 0 \<le> n'"
  by (induction v p n ms rule: dup_block.induct) (auto split: if_splits)

lemma dup_loop_value:
  "dup_loop ms L r = (L', r') \<Longrightarrow> nonzero_lits ms \<Longrightarrow>
     lhs_value \<sigma> L' - r' = lhs_value \<sigma> L + lhs_value \<sigma> ms - r"
proof (induction ms L r arbitrary: L' r' rule: dup_loop.induct)
  case (2 a l ms L r)
  obtain p n rest where blk: "dup_block \<bar>l\<bar> 0 0 ((a, l) # ms) = (p, n, rest)"
    by (metis prod_cases3)
  have v: "0 < \<bar>l\<bar>" using "2.prems"(2) by simp
  from dup_block_split [OF blk] "2.prems"(2) have nz: "nonzero_lits rest"
    by (metis nonzero_lits_simps(3))
  note val = dup_block_value [OF blk v, of \<sigma>]
  consider "n < p" | "\<not> n < p" "p < n" | "\<not> n < p" "\<not> p < n" by blast
  then show ?case
  proof cases
    case 1
    with "2.IH"(1) [OF refl blk [symmetric] refl refl 1 _ nz] "2.prems"(1) blk val v
    show ?thesis by (auto split: if_splits)
  next
    case 2
    with "2.IH"(2) [OF refl blk [symmetric] refl refl 2 _ nz] "2.prems"(1) blk val v
    show ?thesis by (auto split: if_splits)
  next
    case 3
    with "2.IH"(3) [OF refl blk [symmetric] refl refl 3 _ nz] "2.prems"(1) blk val v
    show ?thesis by (auto split: if_splits)
  qed
qed simp


lemma dup_loop_ordered:
  "dup_loop ms L r = (L', r') \<Longrightarrow> sorted (mvars ms) \<Longrightarrow> nonzero_lits ms \<Longrightarrow> pos_coeffs ms \<Longrightarrow>
     sorted_wrt (<) (mvars L) \<Longrightarrow> (\<forall>x \<in> set (mvars L). \<forall>y \<in> set (mvars ms). x < y) \<Longrightarrow>
     pos_coeffs L \<Longrightarrow> nonzero_lits L \<Longrightarrow>
     sorted_wrt (<) (mvars L') \<and> pos_coeffs L' \<and> nonzero_lits L' \<and>
     set (mvars L') \<subseteq> set (mvars L) \<union> set (mvars ms)"
proof (induction ms L r arbitrary: L' r' rule: dup_loop.induct)
  case (2 a l ms L r)
  obtain p n rest where blk: "dup_block \<bar>l\<bar> 0 0 ((a, l) # ms) = (p, n, rest)"
    by (metis prod_cases3)
  from dup_block_split [OF blk] obtain b where b: "(a, l) # ms = b @ rest"
    "\<forall>m \<in> set b. \<bar>snd m\<bar> = \<bar>l\<bar>" "rest \<noteq> [] \<longrightarrow> \<bar>snd (hd rest)\<bar> \<noteq> \<bar>l\<bar>" by blast
  have b_ne: "b \<noteq> []" using b(1,3) by (cases b) auto
  have srt: "sorted (mvars b @ mvars rest)" using "2.prems"(2) b(1) by (metis mvars_simps(3))
  have hdb: "\<bar>l\<bar> \<in> set (mvars b)" using b_ne b(1) by (cases b) auto
  have gt: "\<bar>l\<bar> < y" if y: "y \<in> set (mvars rest)" for y
  proof (cases rest)
    case (Cons k rest')
    have "\<bar>l\<bar> \<le> \<bar>snd k\<bar>" using srt hdb Cons by (auto simp: sorted_append)
    moreover have "\<bar>snd k\<bar> \<le> y" using srt y Cons by (auto simp: sorted_append)
    ultimately show ?thesis using b(3) Cons by auto
  qed (use y in simp)
  have v: "l \<noteq> 0" using "2.prems"(3) by simp
  have rest: "sorted (mvars rest)" "nonzero_lits rest" "pos_coeffs rest"
    using srt "2.prems"(3,4) unfolding b(1) by (auto simp: sorted_append)
  have Lv: "\<forall>x \<in> set (mvars L). x < \<bar>l\<bar>" using "2.prems"(6) by simp
  have sub: "set (mvars rest) \<subseteq> set (mvars ((a, l) # ms))" unfolding b(1) by simp
  have ext: "sorted_wrt (<) (mvars (L @ [(c, k)])) \<and>
      (\<forall>x \<in> set (mvars (L @ [(c, k)])). \<forall>y \<in> set (mvars rest). x < y) \<and>
      pos_coeffs (L @ [(c, k)]) \<and> nonzero_lits (L @ [(c, k)])"
    if "\<bar>k\<bar> = \<bar>l\<bar>" "0 < c" for c k
    using that v Lv gt "2.prems"(5,7,8) by (fastforce simp: sorted_wrt_append)
  have same: "\<forall>x \<in> set (mvars L). \<forall>y \<in> set (mvars rest). x < y"
    using Lv gt by fastforce
  have unf: "dup_loop ((a, l) # ms) L r =
      (if n < p then dup_loop rest (L @ [(p - n, \<bar>l\<bar>)]) (r - n)
       else if p < n then dup_loop rest (L @ [(n - p, - \<bar>l\<bar>)]) (r - p)
       else dup_loop rest L (r - p))"
    by (simp add: blk del: dup_block.simps)
  consider "n < p" | "\<not> n < p" "p < n" | "\<not> n < p" "\<not> p < n" by blast
  then show ?case
  proof cases
    case 1
    then have rec: "dup_loop rest (L @ [(p - n, \<bar>l\<bar>)]) (r - n) = (L', r')"
      using "2.prems"(1) unf by simp
    have e: "sorted_wrt (<) (mvars (L @ [(p - n, \<bar>l\<bar>)]))"
      "\<forall>x \<in> set (mvars (L @ [(p - n, \<bar>l\<bar>)])). \<forall>y \<in> set (mvars rest). x < y"
      "pos_coeffs (L @ [(p - n, \<bar>l\<bar>)])" "nonzero_lits (L @ [(p - n, \<bar>l\<bar>)])"
      using ext [of "\<bar>l\<bar>" "p - n"] 1 by auto
    from "2.IH"(1) [OF refl blk [symmetric] refl refl 1 rec rest e] sub
    show ?thesis by auto
  next
    case 2
    then have rec: "dup_loop rest (L @ [(n - p, - \<bar>l\<bar>)]) (r - p) = (L', r')"
      using "2.prems"(1) unf by simp
    have e: "sorted_wrt (<) (mvars (L @ [(n - p, - \<bar>l\<bar>)]))"
      "\<forall>x \<in> set (mvars (L @ [(n - p, - \<bar>l\<bar>)])). \<forall>y \<in> set (mvars rest). x < y"
      "pos_coeffs (L @ [(n - p, - \<bar>l\<bar>)])" "nonzero_lits (L @ [(n - p, - \<bar>l\<bar>)])"
      using ext [of "- \<bar>l\<bar>" "n - p"] 2 by auto
    from "2.IH"(2) [OF refl blk [symmetric] refl refl 2 rec rest e] sub
    show ?thesis by auto
  next
    case 3
    then have rec: "dup_loop rest L (r - p) = (L', r')"
      using "2.prems"(1) unf by simp
    from "2.IH"(3) [OF refl blk [symmetric] refl refl 3 rec rest "2.prems"(5) same "2.prems"(7,8)] sub
    show ?thesis by auto
  qed
qed simp

text \<open>The pipeline the front ends apply to every constraint before it is handed to a solver.\<close>

definition normalize :: "wconstraint \<Rightarrow> wconstraint" where
  "normalize c =
     sortByDecreasingCoefficient (removeDuplicates (sortByIncreasingVariable c))"

lemma removeDuplicates_value:
  "nonzero_lits (lhs c) \<Longrightarrow>
     lhs_value \<sigma> (lhs (removeDuplicates c)) - rhs (removeDuplicates c) = lhs_value \<sigma> (lhs c) - rhs c"
  using dup_loop_value [of "lhs c" "[]" "rhs c" _ _ \<sigma>]
  by (auto simp: removeDuplicates_def split: prod.splits)

lemma removeDuplicates_ordered:
  assumes "sorted (mvars (lhs c))" "nonzero_lits (lhs c)" "pos_coeffs (lhs c)"
  shows "isOrderedByIncreasingVariable (lhs (removeDuplicates c))"
    "pos_coeffs (lhs (removeDuplicates c))" "nonzero_lits (lhs (removeDuplicates c))"
    "set (mvars (lhs (removeDuplicates c))) \<subseteq> set (mvars (lhs c))"
  using dup_loop_ordered [of "lhs c" "[]" "rhs c"] assms
  by (auto simp: removeDuplicates_def isOrderedByIncreasingVariable_iff split: prod.splits)

lemma normalize_facts:
  assumes "pos_coeffs (lhs c)" "nonzero_lits (lhs c)"
  shows normalize_sat: "sat \<sigma> (normalize c) = sat \<sigma> c"
    and normalize_distinct: "distinct (mvars (lhs (normalize c)))"
    and normalize_vars: "set (mvars (lhs (normalize c))) \<subseteq> set (mvars (lhs c))"
    and normalize_pos: "pos_coeffs (lhs (normalize c))"
    and normalize_nonzero: "nonzero_lits (lhs (normalize c))"
    and normalize_ordered: "isOrderedByDecreasingCoefficient (lhs (normalize c))"
proof -
  let ?s = "sortByIncreasingVariable c"
  have s: "sorted (mvars (lhs ?s))" "nonzero_lits (lhs ?s)" "pos_coeffs (lhs ?s)"
    using inc_var.ordered [of "lhs c"] assms
    by (simp_all add: sortByIncreasingVariable_def mvars_def inc_var.pos_coeffs_srt
        inc_var.nonzero_lits_srt)
  note r = removeDuplicates_ordered [OF s]
  have "sat \<sigma> (removeDuplicates ?s) = sat \<sigma> c"
    using removeDuplicates_value [OF s(2), of \<sigma>] sort_sat(3) [of \<sigma> c]
    unfolding sat_def by linarith
  then show "sat \<sigma> (normalize c) = sat \<sigma> c" by (simp add: normalize_def)
  have "distinct (mvars (lhs (removeDuplicates ?s)))"
    using r(1) by (simp add: isOrderedByIncreasingVariable_iff sorted_wrt_map_lt_distinct)
  then show "distinct (mvars (lhs (normalize c)))"
    by (simp add: normalize_def sortByDecreasingCoefficient_def dec_coef.mvars_srt)
  have "set (mvars (lhs ?s)) = set (mvars (lhs c))"
    by (simp add: sortByIncreasingVariable_def set_mvars inc_var.set_srt)
  moreover have "set (mvars (lhs (normalize c))) = set (mvars (lhs (removeDuplicates ?s)))"
    by (simp add: normalize_def sortByDecreasingCoefficient_def set_mvars dec_coef.set_srt)
  ultimately show "set (mvars (lhs (normalize c))) \<subseteq> set (mvars (lhs c))" using r(4) by simp
  show "pos_coeffs (lhs (normalize c))" "nonzero_lits (lhs (normalize c))"
    using r(2,3) by (simp_all add: normalize_def sortByDecreasingCoefficient_def
        dec_coef.pos_coeffs_srt dec_coef.nonzero_lits_srt)
  show "isOrderedByDecreasingCoefficient (lhs (normalize c))"
    unfolding normalize_def by (rule sortByDecreasingCoefficient_ordered)
qed

text \<open>
  C27: Sorting by variable, merging repeated and opposite literals and sorting by
  coefficient keeps the satisfying assignments of a constraint with positive coefficients;
  the result mentions every variable at most once, only variables of the input, and has
  positive, decreasing coefficients.
\<close>

theorem normalize_equivalent:
  assumes "pos_coeffs (lhs c)" "nonzero_lits (lhs c)"
  shows "(\<forall>\<sigma>. sat \<sigma> (normalize c) = sat \<sigma> c) \<and> distinct (mvars (lhs (normalize c)))
    \<and> set (mvars (lhs (normalize c))) \<subseteq> set (mvars (lhs c))
    \<and> pos_coeffs (lhs (normalize c)) \<and> nonzero_lits (lhs (normalize c))
    \<and> isOrderedByDecreasingCoefficient (lhs (normalize c))"
  using normalize_facts [OF assms] by blast

theorem normalize_equivalent_witness:
  "distinct (mvars (lhs (normalize \<lparr>lhs = [(2, 3), (1, -1), (4, -3)], rhs = 3\<rparr>)))"
  using normalize_equivalent [of "\<lparr>lhs = [(2, 3), (1, -1), (4, -3)], rhs = 3\<rparr>"] by simp


section \<open>Constants that removeDuplicates may leave\<close>

text \<open>
  Cancelling opposite literals lowers the constant, so a tautology reaches \<open>simplify\<close>
  with a constant that is zero or negative. Its loops then work outside their intended range.
\<close>

lemma simplify_scan_nonpos:
  "c \<le> 0 \<Longrightarrow> pos_coeffs ms \<Longrightarrow> simplify_scan c g ms = (g, map (\<lambda>m. (c, snd m)) ms)"
  by (induction c g ms rule: simplify_scan.induct) auto

lemma divide_coeffs_negative:
  "c < 0 \<Longrightarrow> divide_coeffs c (map (\<lambda>m. (c, snd m)) ms) = Some (map (\<lambda>m. (1, snd m)) ms)"
  by (induction ms) (auto simp: divisionRoundedUp_def signed_divide_int_def)

text \<open>
  With constant zero \<open>simplify\<close> divides by zero; with a negative constant it turns
  the tautology into the clause of its literals, which is no longer a tautology.
\<close>

theorem simplify_nonpositive_constant:
  assumes "pos_coeffs (lhs w)"
  shows "(rhs w = 0 \<longrightarrow> simplify w = None)
    \<and> (rhs w < 0 \<longrightarrow>
      simplify w = Some (w\<lparr>lhs := map (\<lambda>m. (1, snd m)) (lhs w), rhs := 1\<rparr>))"
  using assms simplify_scan_nonpos [of "rhs w" "lhs w" 0]
    divide_coeffs_negative [of "rhs w" "lhs w"]
  by (auto simp: simplify_def divisionRoundedUp_def signed_divide_int_def)

theorem simplify_nonpositive_constant_witness:
  "simplify \<lparr>lhs = [(1, 2)], rhs = 0\<rparr> = None
   \<and> simplify \<lparr>lhs = [(1, 2)], rhs = -1\<rparr> = Some \<lparr>lhs = [(1, 2)], rhs = 1\<rparr>"
  using simplify_nonpositive_constant [of "\<lparr>lhs = [(1, 2)], rhs = 0\<rparr>"]
    simplify_nonpositive_constant [of "\<lparr>lhs = [(1, 2)], rhs = -1\<rparr>"] by simp

text \<open>An assignment that makes all literals of distinct variables false.\<close>

lemma falsifying_assignment:
  assumes "distinct (mvars ms)" "nonzero_lits ms"
  shows "\<exists>\<sigma>. \<forall>p \<in> set ms. \<not> lit_true \<sigma> (snd p)"
proof (intro exI ballI)
  let ?\<sigma> = "\<lambda>v. - v \<in> snd ` set ms"
  fix p assume p: "p \<in> set ms"
  have inj: "inj_on (\<lambda>p. \<bar>snd p\<bar>) (set ms)" using assms(1) by (simp add: mvars_def distinct_map)
  have nz: "snd p \<noteq> 0" using assms(2) p by (auto simp: nonzero_lits_def)
  have "q = p" if "q \<in> set ms" "snd q = - snd p" for q using inj_onD [OF inj _ that(1) p] that(2) by simp
  then have "- snd p \<notin> snd ` set ms" using nz by (metis imageE neg_equal_zero)
  then show "\<not> lit_true ?\<sigma> (snd p)" using nz p by (auto simp: lit_true_def)
qed

text \<open>
  C30: The pipeline of every input constraint, \<open>normalize\<close> and then \<open>simplify\<close>, keeps the meaning of a
  constraint exactly when the constant that \<open>normalize\<close> leaves is positive. Otherwise the constraint is a
  tautology, and it traps on a division by zero (constant zero) or becomes the clause of the literals
  that are left, which excludes assignments (negative constant).
\<close>

theorem input_pipeline_exact:
  assumes "pos_coeffs (lhs c)" "nonzero_lits (lhs c)"
  defines "n \<equiv> normalize c"
  shows "((\<exists>w. simplify n = Some w \<and> (\<forall>\<sigma>. sat \<sigma> w = sat \<sigma> c)) \<longleftrightarrow> 0 < rhs n)
    \<and> (rhs n \<le> 0 \<longrightarrow> (\<forall>\<sigma>. sat \<sigma> c))
    \<and> (rhs n = 0 \<longleftrightarrow> simplify n = None)
    \<and> (rhs n < 0 \<longrightarrow> (\<exists>w. simplify n = Some w \<and> (\<forall>\<sigma>. sat \<sigma> w \<longleftrightarrow> (\<exists>p \<in> set (lhs n). lit_true \<sigma> (snd p)))))"
proof -
  note N = normalize_facts [OF assms(1,2), folded n_def]
  have pos: "\<exists>w. simplify n = Some w \<and> (\<forall>\<sigma>. sat \<sigma> w = sat \<sigma> c)" if "0 < rhs n"
    using simplify_correct [OF that N(4)] N(1) by metis
  have taut: "sat \<sigma> c" if "rhs n \<le> 0" for \<sigma>
    using that msum_nonneg [OF N(4), of "lit_true \<sigma>"] N(1) [of \<sigma>] by (simp add: sat_def)
  have nonpos: "simplify n = (if rhs n = 0 then None else Some (n\<lparr>lhs := map (\<lambda>m. (1, snd m)) (lhs n), rhs := 1\<rparr>))" if "rhs n \<le> 0"
    using simplify_nonpositive_constant [OF N(4)] that by auto
  have cl: "sat \<sigma> (n\<lparr>lhs := map (\<lambda>m. (1, snd m)) (lhs n), rhs := 1\<rparr>) \<longleftrightarrow> (\<exists>p \<in> set (lhs n). lit_true \<sigma> (snd p))" for \<sigma>
    using msum_pos_iff [of "map (\<lambda>m. (1, snd m)) (lhs n)" "lit_true \<sigma>"] by (auto simp: sat_def pos_coeffs_def)
  have "\<not> (\<exists>w. simplify n = Some w \<and> (\<forall>\<sigma>. sat \<sigma> w = sat \<sigma> c))" if "\<not> 0 < rhs n"
    using nonpos taut that cl falsifying_assignment [OF N(2,5)] by (auto split: if_splits)
  then show ?thesis using pos taut nonpos cl by (cases "rhs n" "0 :: int" rule: linorder_cases) auto
qed

theorem input_pipeline_exact_witness:
  "(\<forall>\<sigma>. sat \<sigma> \<lparr>lhs = [(2, 1), (2, -1), (1, 2)], rhs = 1\<rparr>)
     \<and> \<not> (\<exists>w. simplify (normalize \<lparr>lhs = [(2, 1), (2, -1), (1, 2)], rhs = 1\<rparr>) = Some w \<and> (\<forall>\<sigma>. sat \<sigma> w))
     \<and> simplify (normalize \<lparr>lhs = [(1, 1), (1, -1), (1, 2)], rhs = 1\<rparr>) = None"
proof -
  have r: "rhs (normalize \<lparr>lhs = [(2, 1), (2, -1), (1, 2)], rhs = 1\<rparr>) = -1" "rhs (normalize \<lparr>lhs = [(1, 1), (1, -1), (1, 2)], rhs = 1\<rparr>) = 0"
    by code_simp+
  have 1: "pos_coeffs [(2, 1), (2, -1), (1, 2)]" "nonzero_lits [(2, 1), (2, -1), (1, 2)]"
    "pos_coeffs [(1, 1), (1, -1), (1, 2)]" "nonzero_lits [(1, 1), (1, -1), (1, 2)]" by (auto simp: pos_coeffs_def nonzero_lits_def)
  note A = input_pipeline_exact [of "\<lparr>lhs = [(2, 1), (2, -1), (1, 2)], rhs = 1\<rparr>", unfolded wconstraint.simps r, OF 1(1,2)]
  note B = input_pipeline_exact [of "\<lparr>lhs = [(1, 1), (1, -1), (1, 2)], rhs = 1\<rparr>", unfolded wconstraint.simps r, OF 1(3,4)]
  have "\<forall>\<sigma>. sat \<sigma> \<lparr>lhs = [(2, 1), (2, -1), (1, 2)], rhs = 1\<rparr>" using A by simp
  then show ?thesis using A B by auto
qed

end
