(* ===== verification/Reason.thy ===== *)
theory Reason
  imports Prelude "HOL-Library.Word"
begin

text \<open>
  The packed reason of \<open>src/src/Reason.h\<close>: a 64-bit word whose last three bits are the
  kind and whose upper bits are a constraint number, a clause number or a literal. The
  constructor computes the word in 32-bit \<open>int\<close> arithmetic (wrapping here) and widens it
  with its sign. The solver theories use the unpacked \<open>reason\<close>; the round trip shows for
  which indices the packing loses nothing.
\<close>

datatype ReasonType = NO_REASON | PB_CONSTRAINT | CLAUSE | BIN_CLAUSE | CARDINALITY

type_synonym int32 = "32 word"
type_synonym uint64 = "64 word"

fun Reason_of :: "int32 \<Rightarrow> ReasonType \<Rightarrow> uint64" where
  "Reason_of r NO_REASON = 0"
| "Reason_of r PB_CONSTRAINT = scast (8 * r + 1)"
| "Reason_of r CLAUSE = scast (8 * r + 2)"
| "Reason_of r BIN_CLAUSE =
     scast (8 * (2 * (if sint r < 0 then - r else r) + (if 0 < sint r then 0 else 1)) + 3)"
| "Reason_of r CARDINALITY = scast (8 * r + 4)"

definition isUnitOrDecision :: "uint64 \<Rightarrow> bool" where "isUnitOrDecision w \<longleftrightarrow> w = 0"
definition isConstraint :: "uint64 \<Rightarrow> bool" where "isConstraint w \<longleftrightarrow> w mod 8 = 1"
definition isClauseReason :: "uint64 \<Rightarrow> bool" where "isClauseReason w \<longleftrightarrow> w mod 8 = 2"
definition isBinClause :: "uint64 \<Rightarrow> bool" where "isBinClause w \<longleftrightarrow> w mod 8 = 3"
definition isCardinality :: "uint64 \<Rightarrow> bool" where "isCardinality w \<longleftrightarrow> w mod 8 = 4"

definition getCtrId :: "uint64 \<Rightarrow> int32" where "getCtrId w = ucast (drop_bit 3 w)"
definition getClauseNum :: "uint64 \<Rightarrow> int32" where "getClauseNum w = ucast (drop_bit 3 w)"
definition getCardinalityNum :: "uint64 \<Rightarrow> int32" where "getCardinalityNum w = ucast (drop_bit 3 w)"

definition getOtherBinLit :: "uint64 \<Rightarrow> int32" where
  "getOtherBinLit w =
     (if drop_bit 3 w mod 2 = 0 then ucast (drop_bit 4 w) else ucast (- drop_bit 4 w))"

text \<open>The reason as the solver reads it.\<close>

datatype reason = NoReason | PBReason nat | ClauseReason nat | BinReason lit

definition encode_reason :: "reason \<Rightarrow> uint64" where
  "encode_reason r = (case r of
      NoReason \<Rightarrow> Reason_of 0 NO_REASON
    | PBReason n \<Rightarrow> Reason_of (of_nat n) PB_CONSTRAINT
    | ClauseReason n \<Rightarrow> Reason_of (of_nat n) CLAUSE
    | BinReason l \<Rightarrow> Reason_of (word_of_int l) BIN_CLAUSE)"

definition decode_reason :: "uint64 \<Rightarrow> reason option" where
  "decode_reason w =
     (if isUnitOrDecision w then Some NoReason
      else if isConstraint w then Some (PBReason (unat (getCtrId w)))
      else if isClauseReason w then Some (ClauseReason (unat (getClauseNum w)))
      else if isBinClause w then Some (BinReason (sint (getOtherBinLit w)))
      else None)"

fun reason_in_range :: "reason \<Rightarrow> bool" where
  "reason_in_range NoReason = True"
| "reason_in_range (PBReason n) = (n < 2 ^ 28)"
| "reason_in_range (ClauseReason n) = (n < 2 ^ 28)"
| "reason_in_range (BinReason l) = (l \<noteq> 0 \<and> \<bar>l\<bar> < 2 ^ 27)"

section \<open>Words that stand for small numbers\<close>

lemma scast_of_nat: "n < 2 ^ 31 \<Longrightarrow> scast (of_nat n :: int32) = (of_nat n :: uint64)"
proof -
  assume n: "n < 2 ^ 31"
  then have "sint (of_nat n :: int32) = int n"
    by (simp add: sint_uint uint_nat unat_of_nat signed_take_bit_eq_if_positive
        take_bit_nat_eq_self bit_iff_odd take_bit_int_eq_self)
  then show ?thesis by (simp add: scast_eq)
qed

lemma drop_bit_of_nat: "n < 2 ^ 64 \<Longrightarrow> drop_bit k (of_nat n :: uint64) = of_nat (n div 2 ^ k)"
proof (rule word_unat_eq_iff [THEN iffD2])
  assume n: "n < 2 ^ 64"
  then have "n div 2 ^ k < 2 ^ 64" by (rule order_le_less_trans [OF div_le_dividend])
  moreover have "unat (drop_bit k (of_nat n :: uint64)) = drop_bit k (unat (of_nat n :: uint64))"
    by (rule unat_drop_bit_eq)
  ultimately show "unat (drop_bit k (of_nat n :: uint64)) = unat (of_nat (n div 2 ^ k) :: uint64)"
    using n by (simp add: unat_of_nat drop_bit_eq_div)
qed

lemma ucast_of_nat: "ucast (of_nat n :: uint64) = (of_nat n :: int32)"
  by transfer (simp add: take_bit_take_bit)

lemma mod_of_nat: "n < 2 ^ 64 \<Longrightarrow> 0 < m \<Longrightarrow> m < 2 ^ 64 \<Longrightarrow>
    (of_nat n :: uint64) mod of_nat m = of_nat (n mod m)"
  by (rule word_unat_eq_iff [THEN iffD2])
    (simp add: unat_mod unat_of_nat order.strict_trans1 [OF mod_le_divisor])


text \<open>A word built from a small number \<open>8 * k + t\<close> has kind \<open>t\<close> and contents \<open>k\<close>.\<close>

lemma packed_word:
  assumes "8 * k + t < 2 ^ 31" "t < 8"
  defines "w \<equiv> scast (of_nat (8 * k + t) :: int32)"
  shows "w = (of_nat (8 * k + t) :: uint64)" "w mod 8 = of_nat t" "drop_bit 3 w = of_nat k"
    "drop_bit 4 w = of_nat (k div 2)" "ucast (drop_bit 3 w) = (of_nat k :: int32)"
    "drop_bit 3 w mod 2 = of_nat (k mod 2)"
proof -
  show w: "w = of_nat (8 * k + t)" unfolding w_def by (rule scast_of_nat [OF assms(1)])
  have le: "8 * k + t < 2 ^ 64" using assms(1) by simp
  show "w mod 8 = of_nat t"
    using mod_of_nat [OF le, of 8] assms(2) by (simp add: w)
  show d3: "drop_bit 3 w = of_nat k"
    using drop_bit_of_nat [OF le, of 3] assms(2) by (simp add: w)
  show "ucast (drop_bit 3 w) = (of_nat k :: int32)"
    unfolding d3 by (rule ucast_of_nat)
  have k: "k < 2 ^ 64" using le by simp
  show "drop_bit 3 w mod 2 = of_nat (k mod 2)"
    using mod_of_nat [OF k, of 2] by (simp add: d3)
  have "drop_bit 4 w = drop_bit 1 (drop_bit 3 w)" by simp
  then show "drop_bit 4 w = of_nat (k div 2)"
    using drop_bit_of_nat [OF k, of 1] unfolding d3 by (simp only: power_one_right)
qed

lemma of_nat_small_inj: "a < 2 ^ 64 \<Longrightarrow> b < 2 ^ 64 \<Longrightarrow> (of_nat a :: uint64) = of_nat b \<longleftrightarrow> a = b"
  by (simp add: word_of_nat_eq_iff take_bit_nat_eq_self)

lemma ucast_of_int: "ucast (word_of_int z :: uint64) = (word_of_int z :: int32)"
  by transfer (simp add: take_bit_take_bit)

lemma sint_of_int32: "- (2 ^ 31) \<le> z \<Longrightarrow> z < 2 ^ 31 \<Longrightarrow> sint (word_of_int z :: int32) = z"
  by (simp add: sint_sbintrunc' signed_take_bit_int_eq_self)

lemma unat_of_nat32: "n < 2 ^ 32 \<Longrightarrow> unat (of_nat n :: int32) = n"
  by (simp add: unat_of_nat)

section \<open>Round trip\<close>

text \<open>Kinds of a packed word.\<close>

lemma kind_packed:
  assumes "8 * k + t < 2 ^ 31" "t < 8" "0 < t"
  defines "w \<equiv> scast (of_nat (8 * k + t) :: int32)"
  shows "isUnitOrDecision w = False" "isConstraint w = (t = 1)" "isClauseReason w = (t = 2)"
    "isBinClause w = (t = 3)" "isCardinality w = (t = 4)"
proof -
  note P = packed_word [OF assms(1,2), folded w_def]
  have small: "8 * k + t < 2 ^ 64" using assms(1) by simp
  show "isUnitOrDecision w = False"
    using of_nat_small_inj [OF small, of 0] assms(3) by (simp add: isUnitOrDecision_def P(1))
  have eq: "(of_nat t :: uint64) = of_nat u \<longleftrightarrow> t = u" if "u < 8" for u
    using that assms(2) by (intro of_nat_small_inj) simp_all
  show "isConstraint w = (t = 1)" "isClauseReason w = (t = 2)"
    "isBinClause w = (t = 3)" "isCardinality w = (t = 4)"
    using eq [of 1] eq [of 2] eq [of 3] eq [of 4]
    by (simp_all add: isConstraint_def isClauseReason_def isBinClause_def isCardinality_def P(2))
qed

lemma bin_packed:
  assumes "l \<noteq> 0" "\<bar>l\<bar> < 2 ^ 27"
  shows "Reason_of (word_of_int l) BIN_CLAUSE =
    scast (of_nat (8 * (2 * nat \<bar>l\<bar> + (if 0 < l then 0 else 1)) + 3) :: int32)"
proof -
  have s: "sint (word_of_int l :: int32) = l" using assms(2) by (intro sint_of_int32) auto
  have "(if l < 0 then - word_of_int l else word_of_int l :: int32) = of_nat (nat \<bar>l\<bar>)"
    by (auto simp flip: word_of_int_minus)
  then show ?thesis by (simp add: s)
qed

text \<open>
  C31: Packing a reason and unpacking it gives the reason back for constraint and clause
  numbers below 2^28 and for literals of absolute value below 2^27, and the kinds are
  disjoint; constraint number 2^28 is the first one that the 32-bit product loses.
\<close>

theorem reason_roundtrip:
  "(reason_in_range r \<longrightarrow> decode_reason (encode_reason r) = Some r)
    \<and> decode_reason (encode_reason (PBReason (2 ^ 28))) \<noteq> Some (PBReason (2 ^ 28))"
proof (rule conjI)
  show "reason_in_range r \<longrightarrow> decode_reason (encode_reason r) = Some r"
  proof
    assume range: "reason_in_range r"
    show "decode_reason (encode_reason r) = Some r"
    proof (cases r)
    case NoReason
    then show ?thesis by (simp add: encode_reason_def decode_reason_def isUnitOrDecision_def)
  next
    case (PBReason n)
    with range have b: "8 * n + 1 < 2 ^ 31" "n < 2 ^ 32" by simp_all
    show ?thesis
      using packed_word(5) [OF b(1)] kind_packed [OF b(1)] unat_of_nat32 [OF b(2)] PBReason
      by (simp add: encode_reason_def decode_reason_def getCtrId_def ac_simps)
  next
    case (ClauseReason n)
    with range have b: "8 * n + 2 < 2 ^ 31" "n < 2 ^ 32" by simp_all
    show ?thesis
      using packed_word(5) [OF b(1)] kind_packed [OF b(1)] unat_of_nat32 [OF b(2)] ClauseReason
      by (simp add: encode_reason_def decode_reason_def getClauseNum_def ac_simps)
  next
    case (BinReason l)
    with range have l: "l \<noteq> 0" "\<bar>l\<bar> < 2 ^ 27" by simp_all
    define k where "k = 2 * nat \<bar>l\<bar> + (if 0 < l then 0 else 1)"
    have n: "nat \<bar>l\<bar> < 134217728" using l(2) by (simp add: nat_less_iff)
    have "k \<le> 2 * nat \<bar>l\<bar> + 1" by (simp add: k_def)
    with n have "8 * k + 3 < 2147483648" by linarith
    then have b: "8 * k + 3 < 2 ^ 31" by simp
    define w where "w = (scast (of_nat (8 * k + 3) :: int32) :: uint64)"
    have enc: "encode_reason r = w"
      using bin_packed [OF l] BinReason by (simp add: encode_reason_def w_def k_def)
    have "drop_bit 3 w mod 2 = 0 \<longleftrightarrow> 0 < l"
      using packed_word(6) [OF b, folded w_def] by (simp add: k_def)
    moreover have "drop_bit 4 w = word_of_int \<bar>l\<bar>"
      using packed_word(4) [OF b, folded w_def] by (simp add: k_def)
    ultimately have "getOtherBinLit w = word_of_int l"
      using l(1) ucast_of_int [of "\<bar>l\<bar>"] ucast_of_int [of "- \<bar>l\<bar>"]
      by (auto simp: getOtherBinLit_def simp flip: word_of_int_minus)
    moreover have "sint (word_of_int l :: int32) = l" using l(2) by (intro sint_of_int32) auto
    ultimately show ?thesis
      using kind_packed [OF b, folded w_def] BinReason enc by (simp add: decode_reason_def)
    qed
  qed
  show "decode_reason (encode_reason (PBReason (2 ^ 28))) \<noteq> Some (PBReason (2 ^ 28))"
    by (simp add: encode_reason_def decode_reason_def isUnitOrDecision_def isConstraint_def
        getCtrId_def isClauseReason_def isBinClause_def getClauseNum_def getOtherBinLit_def)
qed

theorem reason_roundtrip_witness:
  "decode_reason (encode_reason (BinReason (-7))) = Some (BinReason (-7))"
  using reason_roundtrip [of "BinReason (-7)"] by simp

end
