(* ===== verification/Model.thy ===== *)
theory Model
  imports Reason
begin

text \<open>
  The partial assignment of \<open>src/src/Model.h\<close> and \<open>Model.cpp\<close>: a stack of assigned literals
  with decision level and reason, the truth value, last phase and stack height of every
  variable, and the index of the last propagated literal. The theory models every accessor and
  update, states the invariant \<open>wf_model\<close> that ties the arrays to the stack, and proves that
  every update keeps it. Vectors indexed by a variable are functions on variable numbers.
\<close>

record stack_element =
  se_lit :: lit
  se_dl :: int
  se_reason :: reason

record model =
  modelStack :: "stack_element list"
  truthValueOfVar :: "var \<Rightarrow> int"
  lastPhaseOfVar :: "var \<Rightarrow> int"
  stackHeightOfVar :: "var \<Rightarrow> int"
  lastPropagated :: int
  decisionLevel :: int

section \<open>Accessors\<close>

definition trailSize :: "model \<Rightarrow> int" where "trailSize m = int (length (modelStack m))"

definition isTrueVar :: "model \<Rightarrow> var \<Rightarrow> bool" where "isTrueVar m v \<longleftrightarrow> truthValueOfVar m v = 1"
definition isFalseVar :: "model \<Rightarrow> var \<Rightarrow> bool" where "isFalseVar m v \<longleftrightarrow> truthValueOfVar m v = -1"
definition isUndefVar :: "model \<Rightarrow> var \<Rightarrow> bool" where "isUndefVar m v \<longleftrightarrow> truthValueOfVar m v = 0"

definition isTrueLit :: "model \<Rightarrow> lit \<Rightarrow> bool" where
  "isTrueLit m l \<longleftrightarrow> l * truthValueOfVar m \<bar>l\<bar> > 0"
definition isFalseLit :: "model \<Rightarrow> lit \<Rightarrow> bool" where
  "isFalseLit m l \<longleftrightarrow> l * truthValueOfVar m \<bar>l\<bar> < 0"
definition isUndefLit :: "model \<Rightarrow> lit \<Rightarrow> bool" where
  "isUndefLit m l \<longleftrightarrow> truthValueOfVar m \<bar>l\<bar> = 0"

definition getValue :: "model \<Rightarrow> var \<Rightarrow> int" where
  "getValue m v = (if isTrueVar m v then 1 else 0)"
definition getValueLit :: "model \<Rightarrow> lit \<Rightarrow> int" where
  "getValueLit m l = (if isTrueLit m l then 1 else 0)"
definition intValLit :: "model \<Rightarrow> lit \<Rightarrow> int" where
  "intValLit m l = (if isTrueLit m l then 1 else if isFalseLit m l then -1 else 0)"
definition strValLit :: "model \<Rightarrow> lit \<Rightarrow> string" where
  "strValLit m l = (if isTrueLit m l then ''T'' else if isFalseLit m l then ''F'' else ''U'')"

definition getLastPhase :: "model \<Rightarrow> var \<Rightarrow> int" where "getLastPhase m v = lastPhaseOfVar m v"

definition currentDecisionLevel :: "model \<Rightarrow> int" where
  "currentDecisionLevel m = (if modelStack m = [] then 0 else se_dl (last (modelStack m)))"

definition heightOfTopElement :: "model \<Rightarrow> int" where "heightOfTopElement m = trailSize m - 1"
definition getLitAtTop :: "model \<Rightarrow> lit" where "getLitAtTop m = se_lit (last (modelStack m))"
definition getVarAtTop :: "model \<Rightarrow> var" where "getVarAtTop m = \<bar>se_lit (last (modelStack m))\<bar>"
definition getHeightOfVar :: "model \<Rightarrow> var \<Rightarrow> int" where "getHeightOfVar m v = stackHeightOfVar m v"
definition getVarAtHeight :: "model \<Rightarrow> int \<Rightarrow> var" where
  "getVarAtHeight m h = \<bar>se_lit (modelStack m ! nat h)\<bar>"
definition getDLAtHeight :: "model \<Rightarrow> int \<Rightarrow> int" where
  "getDLAtHeight m h = se_dl (modelStack m ! nat h)"
definition getDLOfLit :: "model \<Rightarrow> lit \<Rightarrow> int" where
  "getDLOfLit m l = se_dl (modelStack m ! nat (getHeightOfVar m \<bar>l\<bar>))"
definition getLitAtHeight :: "model \<Rightarrow> int \<Rightarrow> lit" where
  "getLitAtHeight m h = se_lit (modelStack m ! nat h)"
definition getReasonAtHeight :: "model \<Rightarrow> int \<Rightarrow> reason" where
  "getReasonAtHeight m h = se_reason (modelStack m ! nat h)"
definition getReasonAtTop :: "model \<Rightarrow> reason" where
  "getReasonAtTop m = se_reason (modelStack m ! (length (modelStack m) - 1))"
definition getReasonOfLit :: "model \<Rightarrow> lit \<Rightarrow> reason" where
  "getReasonOfLit m l = se_reason (modelStack m ! nat (getHeightOfVar m \<bar>l\<bar>))"

definition isUnit :: "model \<Rightarrow> lit \<Rightarrow> bool" where
  "isUnit m l \<longleftrightarrow> truthValueOfVar m \<bar>l\<bar> \<noteq> 0 \<and> getDLOfLit m l = 0"
definition isTrueUnit :: "model \<Rightarrow> lit \<Rightarrow> bool" where
  "isTrueUnit m l \<longleftrightarrow> isTrueLit m l \<and> getDLOfLit m l = 0"
definition isFalseUnit :: "model \<Rightarrow> lit \<Rightarrow> bool" where
  "isFalseUnit m l \<longleftrightarrow> isFalseLit m l \<and> getDLOfLit m l = 0"
definition varIsOfCurrentDL :: "model \<Rightarrow> var \<Rightarrow> bool" where
  "varIsOfCurrentDL m v \<longleftrightarrow> getDLAtHeight m (getHeightOfVar m v) = currentDecisionLevel m"

definition areAllLitsPropagated :: "model \<Rightarrow> bool" where
  "areAllLitsPropagated m \<longleftrightarrow> lastPropagated m = trailSize m - 1"
definition isLitPropagated :: "model \<Rightarrow> lit \<Rightarrow> bool" where
  "isLitPropagated m l \<longleftrightarrow> lastPropagated m \<ge> getHeightOfVar m \<bar>l\<bar>"

section \<open>Updates\<close>

definition new_model :: model where
  "new_model = \<lparr>modelStack = [], truthValueOfVar = (\<lambda>_. 0), lastPhaseOfVar = (\<lambda>_. -1),
     stackHeightOfVar = (\<lambda>_. -1), lastPropagated = -1, decisionLevel = 0\<rparr>"

definition flushLastPhase :: "model \<Rightarrow> model" where
  "flushLastPhase m = m\<lparr>lastPhaseOfVar := (\<lambda>_. -1)\<rparr>"

text \<open>Returns 0 when every literal of the stack has been propagated.\<close>

definition getNextLitToPropagatePB :: "model \<Rightarrow> lit \<times> model" where
  "getNextLitToPropagatePB m =
     (if lastPropagated m = trailSize m - 1 then (0, m)
      else let h = lastPropagated m + 1
           in (se_lit (modelStack m ! nat h), m\<lparr>lastPropagated := h\<rparr>))"

definition push_lit :: "lit \<Rightarrow> int \<Rightarrow> reason \<Rightarrow> model \<Rightarrow> model" where
  "push_lit l d r m =
     m\<lparr>modelStack := modelStack m @ [\<lparr>se_lit = l, se_dl = d, se_reason = r\<rparr>],
       truthValueOfVar := (truthValueOfVar m)(\<bar>l\<bar> := if 0 < l then 1 else -1),
       stackHeightOfVar := (stackHeightOfVar m)(\<bar>l\<bar> := int (length (modelStack m)))\<rparr>"

definition Model_setTrueDueToDecision :: "lit \<Rightarrow> model \<Rightarrow> model" where
  "Model_setTrueDueToDecision l m =
     push_lit l (decisionLevel m + 1) NoReason (m\<lparr>decisionLevel := decisionLevel m + 1\<rparr>)"

definition Model_setTrueDueToReason :: "lit \<Rightarrow> reason \<Rightarrow> model \<Rightarrow> model" where
  "Model_setTrueDueToReason l r m = push_lit l (decisionLevel m) r m"

definition Model_popAndUnassign :: "model \<Rightarrow> lit \<times> model" where
  "Model_popAndUnassign m =
     (let l = se_lit (last (modelStack m));
          v = \<bar>l\<bar>;
          st = butlast (modelStack m);
          maxIdx = int (length st) - 1
      in (l, m\<lparr>modelStack := st,
               lastPhaseOfVar := (lastPhaseOfVar m)(v := if isTrueVar m v then 1 else 0),
               truthValueOfVar := (truthValueOfVar m)(v := 0),
               stackHeightOfVar := (stackHeightOfVar m)(v := -1),
               decisionLevel := (if st = [] then 0 else se_dl (last st)),
               lastPropagated := (if lastPropagated m > maxIdx then maxIdx else lastPropagated m)\<rparr>))"

section \<open>Invariant\<close>

definition tlits :: "model \<Rightarrow> lit list" where "tlits m = map se_lit (modelStack m)"

text \<open>
  Decision levels start at most at one, never go down, and go up by one exactly at a decision,
  which has no reason.
\<close>

fun dl_chain :: "int \<Rightarrow> stack_element list \<Rightarrow> bool" where
  "dl_chain d [] = True"
| "dl_chain d (e # es) =
     (d \<le> se_dl e \<and> se_dl e \<le> d + 1 \<and> (se_dl e = d + 1 \<longrightarrow> se_reason e = NoReason) \<and> dl_chain (se_dl e) es)"

definition end_dl :: "int \<Rightarrow> stack_element list \<Rightarrow> int" where
  "end_dl d es = (if es = [] then d else se_dl (last es))"

text \<open>The decision literals of a stack, oldest first.\<close>

fun dec_lits :: "int \<Rightarrow> stack_element list \<Rightarrow> lit list" where
  "dec_lits d [] = []"
| "dec_lits d (e # es) = (if d < se_dl e then se_lit e # dec_lits (se_dl e) es else dec_lits d es)"

definition decisions :: "model \<Rightarrow> lit list" where "decisions m = dec_lits 0 (modelStack m)"

definition wf_stack :: "lit list \<Rightarrow> bool" where
  "wf_stack ls \<longleftrightarrow> distinct (map abs ls) \<and> 0 \<notin> set ls"

definition wf_model :: "model \<Rightarrow> bool" where
  "wf_model m \<longleftrightarrow>
     wf_stack (tlits m)
   \<and> (\<forall>v. truthValueOfVar m v =
        (if 0 < v \<and> v \<in> set (tlits m) then 1 else if 0 < v \<and> - v \<in> set (tlits m) then -1 else 0))
   \<and> (\<forall>i < length (modelStack m). stackHeightOfVar m \<bar>tlits m ! i\<bar> = int i)
   \<and> (\<forall>v. v \<notin> abs ` set (tlits m) \<longrightarrow> stackHeightOfVar m v = -1)
   \<and> decisionLevel m = end_dl 0 (modelStack m)
   \<and> dl_chain 0 (modelStack m)
   \<and> -1 \<le> lastPropagated m \<and> lastPropagated m < int (length (modelStack m))"

text \<open>The literals whose consequences have been visited.\<close>

definition plits :: "model \<Rightarrow> lit list" where
  "plits m = take (nat (lastPropagated m + 1)) (tlits m)"

lemma length_tlits [simp]: "length (tlits m) = length (modelStack m)"
  by (simp add: tlits_def)

lemma tlits_update [simp]:
  "tlits (m\<lparr>decisionLevel := d\<rparr>) = tlits m" "tlits (m\<lparr>lastPropagated := h\<rparr>) = tlits m"
  "tlits (m\<lparr>lastPhaseOfVar := ph\<rparr>) = tlits m"
  by (simp_all add: tlits_def)

lemma end_dl_append [simp]:
  "end_dl d (xs @ ys) = end_dl (end_dl d xs) ys" "end_dl d [] = d" "end_dl d [e] = se_dl e"
  by (auto simp: end_dl_def)

lemma end_dl_Cons: "end_dl d (e # es) = end_dl (se_dl e) es"
  by (simp add: end_dl_def)

lemma dl_chain_append [simp]: "dl_chain d (xs @ ys) \<longleftrightarrow> dl_chain d xs \<and> dl_chain (end_dl d xs) ys"
  by (induction xs arbitrary: d) (auto simp: end_dl_Cons)

lemma dec_lits_append:
  "dl_chain d xs \<Longrightarrow> dec_lits d (xs @ ys) = dec_lits d xs @ dec_lits (end_dl d xs) ys"
  by (induction xs arbitrary: d) (auto simp: end_dl_Cons)

lemma dl_chain_le_end: "dl_chain d es \<Longrightarrow> d \<le> end_dl d es"
  by (induction es arbitrary: d) (force simp: end_dl_Cons)+

lemma dl_chain_member: "dl_chain d es \<Longrightarrow> e \<in> set es \<Longrightarrow> d \<le> se_dl e \<and> se_dl e \<le> end_dl d es"
proof (induction es arbitrary: d)
  case (Cons x es)
  then show ?case
    using dl_chain_le_end [of "se_dl x" es] by (fastforce simp: end_dl_Cons)
qed simp

lemma length_dec_lits: "dl_chain d es \<Longrightarrow> int (length (dec_lits d es)) = end_dl d es - d"
  by (induction es arbitrary: d) (auto simp: end_dl_Cons)

lemma dec_lits_subset: "set (dec_lits d es) \<subseteq> se_lit ` set es"
  by (induction es arbitrary: d) auto


section \<open>Reading the assignment through the trail\<close>

lemma wf_model_zero: "wf_model m \<Longrightarrow> 0 \<notin> set (tlits m)"
  by (simp add: wf_model_def wf_stack_def)

lemma wf_stack_consistent: "wf_stack ls \<Longrightarrow> l \<in> set ls \<Longrightarrow> - l \<notin> set ls"
proof
  assume w: "wf_stack ls" and l: "l \<in> set ls" "- l \<in> set ls"
  then have inj: "inj_on abs (set ls)" and "l \<noteq> 0" by (auto simp: wf_stack_def distinct_map)
  have "l = - l" by (rule inj_onD [OF inj _ l]) simp
  with \<open>l \<noteq> 0\<close> show False by simp
qed

lemma wf_model_consistent: "wf_model m \<Longrightarrow> l \<in> set (tlits m) \<Longrightarrow> - l \<notin> set (tlits m)"
  using wf_stack_consistent by (auto simp: wf_model_def)

lemma wf_model_value:
  assumes "wf_model m"
  shows "truthValueOfVar m \<bar>l\<bar> =
    (if l \<in> set (tlits m) then sgn l else if - l \<in> set (tlits m) then - sgn l else 0)"
proof -
  have 1: "truthValueOfVar m v =
        (if 0 < v \<and> v \<in> set (tlits m) then 1 else if 0 < v \<and> - v \<in> set (tlits m) then -1 else 0)" for v
    using assms by (simp add: wf_model_def)
  show ?thesis
    using wf_model_zero [OF assms] wf_model_consistent [OF assms, of l] unfolding 1 [of "\<bar>l\<bar>"]
    by (cases "0::int" l rule: linorder_cases) auto
qed

lemma wf_true: "wf_model m \<Longrightarrow> isTrueLit m l \<longleftrightarrow> l \<in> set (tlits m)"
  using wf_model_zero [of m] wf_model_consistent [of m l]
  by (auto simp: isTrueLit_def wf_model_value sgn_if split: if_splits)

lemma wf_false: "wf_model m \<Longrightarrow> isFalseLit m l \<longleftrightarrow> - l \<in> set (tlits m)"
  using wf_model_zero [of m] wf_model_consistent [of m l]
  by (auto simp: isFalseLit_def wf_model_value sgn_if split: if_splits)

lemma wf_undef: "wf_model m \<Longrightarrow> isUndefLit m l \<longleftrightarrow> l \<notin> set (tlits m) \<and> - l \<notin> set (tlits m)"
  using wf_model_zero [of m] wf_model_consistent [of m l]
  by (auto simp: isUndefLit_def wf_model_value sgn_if split: if_splits)

lemmas wf_lits = wf_true wf_false wf_undef

lemma wf_undef_abs:
  assumes "wf_model m" "isUndefLit m l" shows "\<bar>l\<bar> \<notin> abs ` set (tlits m)"
proof
  assume "\<bar>l\<bar> \<in> abs ` set (tlits m)"
  then obtain x where "x \<in> set (tlits m)" "\<bar>l\<bar> = \<bar>x\<bar>" by auto
  then show False using assms by (auto simp: wf_undef abs_eq_iff)
qed

lemma wf_model_height:
  "wf_model m \<Longrightarrow> i < length (modelStack m) \<Longrightarrow> stackHeightOfVar m \<bar>se_lit (modelStack m ! i)\<bar> = int i"
  by (simp add: wf_model_def tlits_def)

lemma wf_getReasonOfLit:
  "wf_model m \<Longrightarrow> i < length (modelStack m) \<Longrightarrow>
     getReasonOfLit m (se_lit (modelStack m ! i)) = se_reason (modelStack m ! i)"
  by (simp add: getReasonOfLit_def getHeightOfVar_def wf_model_height)

lemma wf_getDLOfLit:
  "wf_model m \<Longrightarrow> i < length (modelStack m) \<Longrightarrow>
     getDLOfLit m (se_lit (modelStack m ! i)) = se_dl (modelStack m ! i)"
  by (simp add: getDLOfLit_def getHeightOfVar_def wf_model_height)

lemma wf_currentDecisionLevel: "wf_model m \<Longrightarrow> currentDecisionLevel m = decisionLevel m"
  by (simp add: wf_model_def currentDecisionLevel_def end_dl_def)

lemma wf_decisionLevel_nonneg: "wf_model m \<Longrightarrow> 0 \<le> decisionLevel m"
  using dl_chain_le_end by (auto simp: wf_model_def)

lemma length_decisions: "wf_model m \<Longrightarrow> int (length (decisions m)) = decisionLevel m"
  by (simp add: wf_model_def decisions_def length_dec_lits)

section \<open>Updates keep the invariant\<close>

lemma wf_new_model: "wf_model new_model"
  by (simp add: wf_model_def wf_stack_def new_model_def tlits_def)

lemma tlits_new_model [simp]: "tlits new_model = []"
  by (simp add: tlits_def new_model_def)

lemma tlits_push [simp]: "tlits (push_lit l d r m) = tlits m @ [l]"
  by (simp add: tlits_def push_lit_def)

lemma wf_push_lit:
  assumes m: "wf_model m" and l: "l \<noteq> 0" "isUndefLit m l"
    and d: "decisionLevel m \<le> d" "d \<le> decisionLevel m + 1" "d = decisionLevel m + 1 \<longrightarrow> r = NoReason"
  shows "wf_model (push_lit l d r (m\<lparr>decisionLevel := d\<rparr>))"
proof -
  let ?m = "push_lit l d r (m\<lparr>decisionLevel := d\<rparr>)"
  have fresh: "\<bar>l\<bar> \<notin> abs ` set (tlits m)" by (rule wf_undef_abs [OF m l(2)])
  have t: "tlits ?m = tlits m @ [l]" by (simp add: tlits_def push_lit_def)
  have "wf_stack (tlits ?m)"
    using m l fresh by (auto simp: wf_model_def wf_stack_def t)
  moreover have "truthValueOfVar ?m v =
        (if 0 < v \<and> v \<in> set (tlits ?m) then 1 else if 0 < v \<and> - v \<in> set (tlits ?m) then -1 else 0)" for v
  proof (cases "v = \<bar>l\<bar>")
    case True
    with fresh have "v \<notin> set (tlits m)" "- v \<notin> set (tlits m)" by (metis abs_abs abs_minus image_eqI)+
    moreover have "truthValueOfVar ?m \<bar>l\<bar> = (if 0 < l then 1 else -1)" by (simp add: push_lit_def)
    ultimately show ?thesis using True l unfolding t by (cases "0 < l") auto
  next
    case False
    then have "v \<in> set (tlits ?m) \<longleftrightarrow> v \<in> set (tlits m)" "- v \<in> set (tlits ?m) \<longleftrightarrow> - v \<in> set (tlits m)" if "0 < v"
      using that unfolding t by auto
    moreover have "truthValueOfVar ?m v = truthValueOfVar m v" using False by (simp add: push_lit_def)
    ultimately show ?thesis using m by (auto simp: wf_model_def)
  qed
  moreover have "stackHeightOfVar ?m \<bar>tlits ?m ! i\<bar> = int i" if i: "i < length (modelStack ?m)" for i
  proof -
    have h: "stackHeightOfVar ?m = (stackHeightOfVar m)(\<bar>l\<bar> := int (length (modelStack m)))"
      and i': "i < Suc (length (modelStack m))" using i by (simp_all add: push_lit_def)
    show ?thesis
    proof (cases "i < length (modelStack m)")
      case True
      then have "tlits m ! i \<in> set (tlits m)" by simp
      with fresh have "\<bar>tlits m ! i\<bar> \<noteq> \<bar>l\<bar>" by (metis image_eqI)
      with True m show ?thesis unfolding t h by (simp add: wf_model_def nth_append)
    next
      case False
      with i' show ?thesis unfolding t h by (simp add: nth_append less_Suc_eq)
    qed
  qed
  moreover have "stackHeightOfVar ?m v = -1" if "v \<notin> abs ` set (tlits ?m)" for v
  proof -
    have "v \<noteq> \<bar>l\<bar>" "v \<notin> abs ` set (tlits m)" using that unfolding t by auto
    with m show ?thesis by (simp add: wf_model_def push_lit_def)
  qed
  moreover have "decisionLevel ?m = end_dl 0 (modelStack ?m)" by (simp add: push_lit_def)
  moreover have "dl_chain 0 (modelStack ?m)" using m d by (auto simp: push_lit_def wf_model_def)
  moreover have "-1 \<le> lastPropagated ?m \<and> lastPropagated ?m < int (length (modelStack ?m))"
    using m by (auto simp: push_lit_def wf_model_def)
  ultimately show ?thesis unfolding wf_model_def by blast
qed

lemma wf_setTrueDueToReason:
  assumes "wf_model m" "l \<noteq> 0" "isUndefLit m l"
  shows "wf_model (Model_setTrueDueToReason l r m)"
  using wf_push_lit [OF assms, of "decisionLevel m" r]
  by (simp add: Model_setTrueDueToReason_def)

lemma wf_setTrueDueToDecision:
  assumes "wf_model m" "l \<noteq> 0" "isUndefLit m l"
  shows "wf_model (Model_setTrueDueToDecision l m)"
  using wf_push_lit [OF assms, of "decisionLevel m + 1" NoReason]
  by (simp add: Model_setTrueDueToDecision_def push_lit_def)

lemma tlits_setTrue [simp]:
  "tlits (Model_setTrueDueToReason l r m) = tlits m @ [l]"
  "tlits (Model_setTrueDueToDecision l m) = tlits m @ [l]"
  by (simp_all add: Model_setTrueDueToReason_def Model_setTrueDueToDecision_def push_lit_def tlits_def)

lemma plits_setTrue:
  assumes "wf_model m"
  shows "plits (Model_setTrueDueToReason l r m) = plits m"
    and "plits (Model_setTrueDueToDecision l m) = plits m"
proof -
  have "nat (lastPropagated m + 1) \<le> length (tlits m)" using assms by (auto simp: wf_model_def)
  then show "plits (Model_setTrueDueToReason l r m) = plits m"
    and "plits (Model_setTrueDueToDecision l m) = plits m"
    unfolding plits_def tlits_setTrue
    by (simp_all add: Model_setTrueDueToReason_def Model_setTrueDueToDecision_def push_lit_def)
qed

lemma decisions_setTrue:
  assumes "wf_model m"
  shows "decisions (Model_setTrueDueToReason l r m) = decisions m"
    and "decisions (Model_setTrueDueToDecision l m) = decisions m @ [l]"
  using assms by (auto simp: decisions_def Model_setTrueDueToReason_def push_lit_def dec_lits_append
      Model_setTrueDueToDecision_def wf_model_def)

lemma wf_stack_snoc: "wf_stack (ls @ [l]) \<longleftrightarrow> wf_stack ls \<and> l \<noteq> 0 \<and> \<bar>l\<bar> \<notin> abs ` set ls"
  by (auto simp: wf_stack_def)

lemma Model_popAndUnassign_snoc:
  assumes m: "wf_model m" and st: "modelStack m = st @ [e]"
  defines "m' \<equiv> snd (Model_popAndUnassign m)"
  shows "fst (Model_popAndUnassign m) = se_lit e" "modelStack m' = st" "wf_model m'"
proof -
  show "fst (Model_popAndUnassign m) = se_lit e" and st': "modelStack m' = st"
    by (simp_all add: m'_def Model_popAndUnassign_def Let_def st)
  have t: "tlits m = tlits m' @ [se_lit e]" by (simp add: tlits_def st st')
  have w: "wf_stack (tlits m' @ [se_lit e])" using m by (simp add: wf_model_def t)
  then have fresh: "\<bar>se_lit e\<bar> \<notin> abs ` set (tlits m')" "wf_stack (tlits m')" by (auto simp: wf_stack_snoc)
  have f: "truthValueOfVar m' = (truthValueOfVar m)(\<bar>se_lit e\<bar> := 0)"
    "stackHeightOfVar m' = (stackHeightOfVar m)(\<bar>se_lit e\<bar> := -1)"
    "decisionLevel m' = end_dl 0 st"
    "lastPropagated m' = (if lastPropagated m > int (length st) - 1 then int (length st) - 1 else lastPropagated m)"
    by (simp_all add: m'_def Model_popAndUnassign_def Let_def st end_dl_def)
  have old: "truthValueOfVar m v = (if 0 < v \<and> v \<in> set (tlits m) then 1 else if 0 < v \<and> - v \<in> set (tlits m) then -1 else 0)"
    "v \<notin> abs ` set (tlits m) \<Longrightarrow> stackHeightOfVar m v = -1" for v
    using m by (auto simp: wf_model_def)
  have "truthValueOfVar m' v =
        (if 0 < v \<and> v \<in> set (tlits m') then 1 else if 0 < v \<and> - v \<in> set (tlits m') then -1 else 0)" for v
  proof (cases "v = \<bar>se_lit e\<bar>")
    case True
    with fresh have "v \<notin> set (tlits m')" "- v \<notin> set (tlits m')" by (metis abs_abs abs_minus image_eqI)+
    with True show ?thesis by (simp add: f)
  next
    case False
    then have "v \<in> set (tlits m) \<longleftrightarrow> v \<in> set (tlits m')" "- v \<in> set (tlits m) \<longleftrightarrow> - v \<in> set (tlits m')" if "0 < v"
      using that unfolding t by auto
    with False show ?thesis by (auto simp: f old)
  qed
  moreover have "stackHeightOfVar m' \<bar>tlits m' ! i\<bar> = int i" if i: "i < length (modelStack m')" for i
  proof -
    from i have "tlits m' ! i \<in> set (tlits m')" by simp
    with fresh have "\<bar>tlits m' ! i\<bar> \<noteq> \<bar>se_lit e\<bar>" by (metis image_eqI)
    then have "stackHeightOfVar m' \<bar>tlits m' ! i\<bar> = stackHeightOfVar m \<bar>tlits m' ! i\<bar>" by (simp add: f)
    moreover have "tlits m ! i = tlits m' ! i" using i by (simp add: t nth_append)
    moreover have "stackHeightOfVar m \<bar>tlits m ! i\<bar> = int i"
      using m i st st' unfolding wf_model_def by (metis length_append_singleton less_SucI)
    ultimately show ?thesis by simp
  qed
  moreover have "stackHeightOfVar m' v = -1" if "v \<notin> abs ` set (tlits m')" for v
    using that old(2) [of v] by (auto simp: t f)
  moreover have "decisionLevel m' = end_dl 0 (modelStack m')" by (simp add: f st')
  moreover have "dl_chain 0 (modelStack m')" using m by (auto simp: wf_model_def st st')
  moreover have "-1 \<le> lastPropagated m' \<and> lastPropagated m' < int (length (modelStack m'))"
    using m by (auto simp: f st' wf_model_def)
  ultimately show "wf_model m'" using fresh unfolding wf_model_def by blast
qed

lemma Model_popAndUnassign_facts:
  assumes "wf_model m" "modelStack m \<noteq> []"
  shows "wf_model (snd (Model_popAndUnassign m))"
    and "tlits (snd (Model_popAndUnassign m)) = butlast (tlits m)"
    and "fst (Model_popAndUnassign m) = last (tlits m)"
    and "modelStack (snd (Model_popAndUnassign m)) = butlast (modelStack m)"
proof -
  from assms(2) obtain st e where "modelStack m = st @ [e]" by (meson rev_exhaust)
  from Model_popAndUnassign_snoc [OF assms(1) this] this
  show "wf_model (snd (Model_popAndUnassign m))"
    and "tlits (snd (Model_popAndUnassign m)) = butlast (tlits m)"
    and "fst (Model_popAndUnassign m) = last (tlits m)"
    and "modelStack (snd (Model_popAndUnassign m)) = butlast (modelStack m)"
    by (simp_all add: tlits_def)
qed

lemma plits_pop:
  assumes "wf_model m" "modelStack m \<noteq> []"
  shows "plits (snd (Model_popAndUnassign m)) =
    (if lastPropagated m = int (length (modelStack m)) - 1 then butlast (plits m) else plits m)"
proof -
  from assms(2) obtain st e where st: "modelStack m = st @ [e]" by (meson rev_exhaust)
  have b: "-1 \<le> lastPropagated m" "lastPropagated m < int (length (modelStack m))"
    using assms by (auto simp: wf_model_def)
  have t: "tlits m = map se_lit st @ [se_lit e]" by (simp add: tlits_def st)
  have lp: "lastPropagated (snd (Model_popAndUnassign m)) =
      (if lastPropagated m > int (length st) - 1 then int (length st) - 1 else lastPropagated m)"
    by (simp add: Model_popAndUnassign_def Let_def st)
  show ?thesis
    unfolding plits_def Model_popAndUnassign_facts(2) [OF assms] lp t
    using b st by (auto simp: butlast_append nat_add_distrib)
qed

lemma getNextLit_facts:
  assumes m: "wf_model m" and n: "getNextLitToPropagatePB m = (l, m')"
  shows "wf_model m'" "tlits m' = tlits m" "modelStack m' = modelStack m"
    "l = 0 \<longleftrightarrow> areAllLitsPropagated m"
    "l = 0 \<Longrightarrow> m' = m \<and> plits m = tlits m"
    "l \<noteq> 0 \<Longrightarrow> plits m' = plits m @ [l] \<and> lastPropagated m' = lastPropagated m + 1"
proof -
  have b: "-1 \<le> lastPropagated m" "lastPropagated m < int (length (modelStack m))"
    using m by (auto simp: wf_model_def)
  have z: "se_lit (modelStack m ! i) \<noteq> 0" if "i < length (modelStack m)" for i
  proof
    assume "se_lit (modelStack m ! i) = 0"
    with that have "tlits m ! i = 0" by (simp add: tlits_def)
    with that have "0 \<in> set (tlits m)" by (metis length_tlits nth_mem)
    with wf_model_zero [OF m] show False by simp
  qed
  show t: "tlits m' = tlits m" and st: "modelStack m' = modelStack m"
    using n by (auto simp: getNextLitToPropagatePB_def tlits_def Let_def split: if_splits)
  show z': "l = 0 \<longleftrightarrow> areAllLitsPropagated m"
    using n z [of "nat (lastPropagated m + 1)"] b
    by (auto simp: getNextLitToPropagatePB_def trailSize_def Let_def areAllLitsPropagated_def split: if_splits)
  show "l = 0 \<Longrightarrow> m' = m \<and> plits m = tlits m"
    using n z' by (auto simp: getNextLitToPropagatePB_def areAllLitsPropagated_def trailSize_def
        plits_def)
  show "wf_model m'"
    using n m b by (auto simp: getNextLitToPropagatePB_def trailSize_def Let_def wf_model_def
        split: if_splits)
  show "l \<noteq> 0 \<Longrightarrow> plits m' = plits m @ [l] \<and> lastPropagated m' = lastPropagated m + 1"
  proof -
    assume "l \<noteq> 0"
    with z' have ne: "lastPropagated m \<noteq> trailSize m - 1" by (simp add: areAllLitsPropagated_def)
    define k where "k = nat (lastPropagated m + 1)"
    have k: "k < length (tlits m)" "nat (lastPropagated m + 1 + 1) = Suc k"
      using b ne by (auto simp: k_def trailSize_def)
    have l: "l = tlits m ! k" "lastPropagated m' = lastPropagated m + 1"
      using n ne k by (auto simp: getNextLitToPropagatePB_def Let_def k_def tlits_def)
    show ?thesis
      using k l by (simp add: plits_def t take_Suc_last flip: k_def)
  qed
qed

lemma Model_pop_push:
  assumes p: "m' = push_lit l d r (m\<lparr>decisionLevel := d\<rparr>)"
    and dl: "decisionLevel m = (if modelStack m = [] then 0 else se_dl (last (modelStack m)))"
    and lp: "lastPropagated m < int (length (modelStack m))"
    and z: "truthValueOfVar m \<bar>l\<bar> = 0" "stackHeightOfVar m \<bar>l\<bar> = -1"
  shows "snd (Model_popAndUnassign m') =
        m\<lparr>lastPhaseOfVar := (lastPhaseOfVar m)(\<bar>l\<bar> := if 0 < l then 1 else 0)\<rparr>"
proof (rule model.equality)
  have "(truthValueOfVar m)(\<bar>l\<bar> := 0) = truthValueOfVar m" "(stackHeightOfVar m)(\<bar>l\<bar> := -1) = stackHeightOfVar m"
    using z by (simp_all add: fun_upd_idem)
  then show "truthValueOfVar (snd (Model_popAndUnassign m')) =
      truthValueOfVar (m\<lparr>lastPhaseOfVar := (lastPhaseOfVar m)(\<bar>l\<bar> := if 0 < l then 1 else 0)\<rparr>)"
    and "stackHeightOfVar (snd (Model_popAndUnassign m')) =
      stackHeightOfVar (m\<lparr>lastPhaseOfVar := (lastPhaseOfVar m)(\<bar>l\<bar> := if 0 < l then 1 else 0)\<rparr>)"
    by (simp_all add: p Model_popAndUnassign_def push_lit_def Let_def)
qed (use dl lp in \<open>simp_all add: p Model_popAndUnassign_def push_lit_def Let_def isTrueVar_def\<close>)

text \<open>
  After \<open>setTrueDueToDecision\<close> or \<open>setTrueDueToReason\<close> on an undefined literal the model
  invariant still holds, exactly the new literal has become true and its negation false, the decision
  list grows by the literal in the first case only, and \<open>popAndUnassign\<close> returns the literal and
  restores the stack, the truth values, the heights, the decision level and the propagation mark.
\<close>
theorem Model_push_pop:
  assumes "wf_model m" "l \<noteq> 0" "isUndefLit m l"
    and m': "m' = Model_setTrueDueToReason l r m \<or> m' = Model_setTrueDueToDecision l m"
  shows "wf_model m'
    \<and> (\<forall>x. isTrueLit m' x = (isTrueLit m x \<or> x = l)) \<and> (\<forall>x. isFalseLit m' x = (isFalseLit m x \<or> x = - l))
    \<and> decisions m' = decisions m @ (if m' = Model_setTrueDueToReason l r m then [] else [l])
    \<and> fst (Model_popAndUnassign m') = l
    \<and> snd (Model_popAndUnassign m') =
        m\<lparr>lastPhaseOfVar := (lastPhaseOfVar m)(\<bar>l\<bar> := if 0 < l then 1 else 0)\<rparr>"
proof -
  have w: "wf_model m'" using m' assms(1-3) by (auto simp: wf_setTrueDueToReason wf_setTrueDueToDecision)
  have t: "tlits m' = tlits m @ [l]" using m' by auto
  have dl: "decisionLevel m = (if modelStack m = [] then 0 else se_dl (last (modelStack m)))"
    and lp: "lastPropagated m < int (length (modelStack m))"
    using assms(1) by (auto simp: wf_model_def end_dl_def)
  have z: "truthValueOfVar m \<bar>l\<bar> = 0" "stackHeightOfVar m \<bar>l\<bar> = -1"
    using assms(1-3) wf_undef_abs [OF assms(1,3)] by (auto simp: isUndefLit_def wf_model_def)
  have "decisionLevel (Model_setTrueDueToReason l r m) \<noteq> decisionLevel (Model_setTrueDueToDecision l m)"
    by (simp add: Model_setTrueDueToReason_def Model_setTrueDueToDecision_def push_lit_def)
  then have ne: "Model_setTrueDueToReason l r m \<noteq> Model_setTrueDueToDecision l m" by metis
  obtain d q where p: "m' = push_lit l d q (m\<lparr>decisionLevel := d\<rparr>)"
  proof (cases "m' = Model_setTrueDueToReason l r m")
    case True
    then have "m' = push_lit l (decisionLevel m) r (m\<lparr>decisionLevel := decisionLevel m\<rparr>)"
      by (simp add: Model_setTrueDueToReason_def)
    then show ?thesis by (rule that)
  next
    case False
    with m' have "m' = push_lit l (decisionLevel m + 1) NoReason (m\<lparr>decisionLevel := decisionLevel m + 1\<rparr>)"
      by (simp add: Model_setTrueDueToDecision_def push_lit_def)
    then show ?thesis by (rule that)
  qed
  have "snd (Model_popAndUnassign m') =
        m\<lparr>lastPhaseOfVar := (lastPhaseOfVar m)(\<bar>l\<bar> := if 0 < l then 1 else 0)\<rparr>"
    by (rule Model_pop_push [OF p dl lp z])
  moreover have "fst (Model_popAndUnassign m') = l"
    using m' by (auto simp: Model_popAndUnassign_def Model_setTrueDueToReason_def
        Model_setTrueDueToDecision_def push_lit_def Let_def)
  moreover have "decisions m' = decisions m @ (if m' = Model_setTrueDueToReason l r m then [] else [l])"
    using m' ne assms(1) by (elim disjE) (simp_all add: decisions_setTrue)
  moreover have "(\<forall>x. isTrueLit m' x = (isTrueLit m x \<or> x = l)) \<and> (\<forall>x. isFalseLit m' x = (isFalseLit m x \<or> x = - l))"
    unfolding wf_lits [OF w] wf_lits [OF assms(1)] t by auto
  ultimately show ?thesis using w by blast
qed

lemma Model_push_pop_witness:
  "let m = Model_setTrueDueToDecision 2 new_model;
       m' = Model_setTrueDueToReason (-3) (BinReason (-2)) m
   in wf_model m' \<and> isTrueLit m' (-3) \<and> decisions m' = [2] \<and> fst (Model_popAndUnassign m') = -3"
proof -
  let ?m = "Model_setTrueDueToDecision 2 new_model"
  have "isUndefLit new_model 2" by (simp add: isUndefLit_def new_model_def)
  then have "wf_model ?m"
    by (intro wf_setTrueDueToDecision) (simp_all add: wf_new_model)
  moreover have "isUndefLit ?m (-3)" "decisions ?m = [2]"
    by (simp_all add: isUndefLit_def new_model_def Model_setTrueDueToDecision_def push_lit_def decisions_def)
  moreover have "-3 \<noteq> (0::int)" by simp
  ultimately show ?thesis
    using Model_push_pop [of ?m "-3" "Model_setTrueDueToReason (-3) (BinReason (-2)) ?m" "BinReason (-2)"]
    unfolding Let_def by simp
qed

end
