(* ===== verification/MaxHeap.thy ===== *)
theory MaxHeap
  imports Prelude
begin

text \<open>
  The priority queue of the branching heuristic, \<open>src/src/MaxHeap.h\<close> and \<open>MaxHeap.cpp\<close>: a binary
  heap of variables ordered by a score, with the position of every variable. The two arrays and
  the scores are functions. A score is of any linearly ordered type; floating-point addition, the
  comparison with \<open>DBL_MAX\<close> and the multiplication by 0.9 are arguments of the operations that
  use them.

  The invariant is the order the heap really keeps: a parent's score is at least its child's. The
  tie-break of \<open>nodeIsGreater\<close> on equal scores does not hold after the constructor or after
  \<open>reset\<close>, which store the variables in increasing order with one common score, so
  \<open>consultMax\<close> promises a variable of maximal score and no more.
\<close>

record 'a heap =
  maxHeap :: "nat \<Rightarrow> var"
  score :: "var \<Rightarrow> 'a"
  heapPositions :: "var \<Rightarrow> nat"
  maxHeapLast :: nat
  numElems :: int

section \<open>Operations\<close>

definition nodeIsGreater :: "('a::linorder) heap \<Rightarrow> var \<Rightarrow> var \<Rightarrow> bool" where
  "nodeIsGreater h n1 n2 \<longleftrightarrow> score h n1 > score h n2 \<or> (score h n1 = score h n2 \<and> n1 > n2)"

definition placeNode :: "var \<Rightarrow> nat \<Rightarrow> 'a heap \<Rightarrow> 'a heap" where
  "placeNode n pos h = h\<lparr>maxHeap := (maxHeap h)(pos := n), heapPositions := (heapPositions h)(n := pos)\<rparr>"

definition new_heap :: "'a \<Rightarrow> int \<Rightarrow> ('a::linorder) heap" where
  "new_heap one nElems = \<lparr>maxHeap = (\<lambda>i. if 1 \<le> i \<and> int i \<le> nElems then int i else 0),
     score = (\<lambda>_. one), heapPositions = (\<lambda>v. if 1 \<le> v \<and> v \<le> nElems then nat v else 0),
     maxHeapLast = nat nElems, numElems = nElems\<rparr>"

definition reset :: "'a \<Rightarrow> ('a::linorder) heap \<Rightarrow> 'a heap" where
  "reset zero h = h\<lparr>score := (\<lambda>v. if 1 \<le> v \<and> v \<le> numElems h then zero else score h v)\<rparr>"

definition consultMax :: "('a::linorder) heap \<Rightarrow> var" where
  "consultMax h = (if maxHeapLast h = 0 then 0 else maxHeap h 1)"

text \<open>The loop of \<open>percolateUp\<close> moves parents down and returns the hole it leaves.\<close>

fun percolate_loop :: "var \<Rightarrow> nat \<Rightarrow> ('a::linorder) heap \<Rightarrow> nat \<times> 'a heap" where
  "percolate_loop node pos h =
     (if pos > 1
      then let parentNode = maxHeap h (pos div 2)
           in if nodeIsGreater h parentNode node then (pos, h)
              else percolate_loop node (pos div 2) (placeNode parentNode pos h)
      else (pos, h))"

declare percolate_loop.simps [simp del]

definition percolateUp :: "nat \<Rightarrow> ('a::linorder) heap \<Rightarrow> 'a heap" where
  "percolateUp pos h =
     (let node = maxHeap h pos; (pos', h') = percolate_loop node pos h in placeNode node pos' h')"

definition insertElement :: "var \<Rightarrow> ('a::linorder) heap \<Rightarrow> 'a heap" where
  "insertElement elem h =
     (if heapPositions h elem \<noteq> 0 then h
      else let pos = maxHeapLast h + 1
           in percolateUp pos (h\<lparr>maxHeapLast := pos, maxHeap := (maxHeap h)(pos := elem)\<rparr>))"

definition increaseValueBy ::
  "('a \<Rightarrow> 'b \<Rightarrow> 'a) \<Rightarrow> ('a \<Rightarrow> bool) \<Rightarrow> var \<Rightarrow> 'b \<Rightarrow> ('a::linorder) heap \<Rightarrow> bool \<times> 'a heap" where
  "increaseValueBy add over elem increment h =
     (let newVal = add (score h elem) increment
      in if over newVal then (True, h)
         else let h1 = h\<lparr>score := (score h)(elem := newVal)\<rparr>; pos = heapPositions h1 elem
              in (False, if pos \<noteq> 0 then percolateUp pos h1 else h1))"

text \<open>The loop of \<open>removeMax\<close>: \<open>node\<close> sinks from \<open>pos\<close>, whose left child is at \<open>childPos\<close>.\<close>

function sink_loop :: "var \<Rightarrow> nat \<Rightarrow> nat \<Rightarrow> ('a::linorder) heap \<Rightarrow> nat \<times> 'a heap" where
  "sink_loop node pos childPos h =
     (if childPos \<le> maxHeapLast h \<and> 0 < childPos
      then let c = (if childPos < maxHeapLast h \<and>
                       nodeIsGreater h (maxHeap h (childPos + 1)) (maxHeap h childPos)
                    then childPos + 1 else childPos);
               childNode = maxHeap h c
           in if nodeIsGreater h node childNode then (pos, h)
              else sink_loop node c (c * 2) (placeNode childNode pos h)
      else (pos, h))"
  by pat_completeness auto
termination
  by (relation "measure (\<lambda>(n, p, c, h). Suc (maxHeapLast h) - c)") (auto simp: placeNode_def Let_def)

declare sink_loop.simps [simp del]

definition removeMax :: "('a::linorder) heap \<Rightarrow> 'a heap" where
  "removeMax h =
     (let h1 = h\<lparr>heapPositions := (heapPositions h)(maxHeap h 1 := 0)\<rparr>;
          node = maxHeap h1 (maxHeapLast h1);
          h2 = h1\<lparr>maxHeapLast := maxHeapLast h1 - 1\<rparr>;
          (pos, h3) = sink_loop node 1 2 h2
      in if maxHeapLast h3 \<noteq> 0 then placeNode node pos h3 else h3)"

definition reduceScore :: "('a \<Rightarrow> 'a) \<Rightarrow> var \<Rightarrow> ('a::linorder) heap \<Rightarrow> 'a heap" where
  "reduceScore decay v h =
     (if heapPositions h v = 0 then h\<lparr>score := (score h)(v := decay (score h v))\<rparr>
      else let h1 = removeMax h
           in insertElement v (h1\<lparr>score := (score h1)(v := decay (score h1 v))\<rparr>))"

section \<open>Invariant\<close>

definition heap_struct :: "'a heap \<Rightarrow> bool" where
  "heap_struct h \<longleftrightarrow>
     (\<forall>i. 1 \<le> i \<and> i \<le> maxHeapLast h \<longrightarrow> heapPositions h (maxHeap h i) = i)
   \<and> (\<forall>v. heapPositions h v \<noteq> 0 \<longrightarrow>
        0 < v \<and> heapPositions h v \<le> maxHeapLast h \<and> maxHeap h (heapPositions h v) = v)"

definition heap_order :: "nat \<Rightarrow> ('a::linorder) heap \<Rightarrow> bool" where
  "heap_order k h \<longleftrightarrow> (\<forall>i. 2 \<le> i \<and> i \<le> maxHeapLast h \<and> i \<noteq> k \<longrightarrow>
     score h (maxHeap h i) \<le> score h (maxHeap h (i div 2)))"

text \<open>The children of node \<open>k\<close> are below the parent of \<open>k\<close>.\<close>

definition grand_order :: "nat \<Rightarrow> ('a::linorder) heap \<Rightarrow> bool" where
  "grand_order k h \<longleftrightarrow> (\<forall>i. 2 \<le> k \<and> i \<le> maxHeapLast h \<and> i div 2 = k \<longrightarrow>
     score h (maxHeap h i) \<le> score h (maxHeap h (k div 2)))"

definition heap_ok :: "('a::linorder) heap \<Rightarrow> bool" where
  "heap_ok h \<longleftrightarrow> heap_struct h \<and> heap_order 0 h"

definition elements :: "'a heap \<Rightarrow> var set" where
  "elements h = {v. heapPositions h v \<noteq> 0}"

lemma heap_struct_pos: "heap_struct h \<Longrightarrow> 1 \<le> i \<Longrightarrow> i \<le> maxHeapLast h \<Longrightarrow> heapPositions h (maxHeap h i) = i"
  by (simp add: heap_struct_def)

lemma heap_struct_inj:
  "heap_struct h \<Longrightarrow> 1 \<le> i \<Longrightarrow> i \<le> maxHeapLast h \<Longrightarrow> 1 \<le> j \<Longrightarrow> j \<le> maxHeapLast h \<Longrightarrow>
    maxHeap h i = maxHeap h j \<longleftrightarrow> i = j"
  by (metis heap_struct_pos)

text \<open>Moving the content of position \<open>j\<close> to the hole \<open>i\<close> and the node to \<open>j\<close> is a swap.\<close>

definition swap_nodes :: "nat \<Rightarrow> nat \<Rightarrow> 'a heap \<Rightarrow> 'a heap" where
  "swap_nodes i j h = placeNode (maxHeap h i) j (placeNode (maxHeap h j) i h)"

lemma place_place_swap:
  assumes "i \<noteq> j"
  shows "placeNode n j (placeNode (maxHeap h j) i h) = swap_nodes i j (placeNode n i h)"
  using assms unfolding swap_nodes_def placeNode_def
  by (auto simp: fun_upd_twist fun_eq_iff)

lemma swap_struct:
  assumes h: "heap_struct h" and i: "1 \<le> i" "i \<le> maxHeapLast h" and j: "1 \<le> j" "j \<le> maxHeapLast h" "i \<noteq> j"
  shows "heap_struct (swap_nodes i j h)" "elements (swap_nodes i j h) = elements h"
proof -
  have p: "heapPositions h (maxHeap h k) = k" if "1 \<le> k" "k \<le> maxHeapLast h" for k
    using h that by (rule heap_struct_pos)
  have ne: "maxHeap h i \<noteq> maxHeap h j" using heap_struct_inj [OF h i j(1,2)] j by simp
  show "elements (swap_nodes i j h) = elements h"
    using p [OF i] p [OF j(1,2)] i j ne
    by (auto simp: elements_def swap_nodes_def placeNode_def)
  show "heap_struct (swap_nodes i j h)"
    unfolding heap_struct_def
  proof (intro conjI allI impI; (elim conjE)?)
    fix k assume k: "1 \<le> k" "k \<le> maxHeapLast (swap_nodes i j h)"
    then have k': "k \<le> maxHeapLast h" by (simp add: swap_nodes_def placeNode_def)
    show "heapPositions (swap_nodes i j h) (maxHeap (swap_nodes i j h) k) = k"
      using ne j heap_struct_inj [OF h k(1) k' i] heap_struct_inj [OF h k(1) k' j(1,2)] p [OF k(1) k']
      by (auto simp: swap_nodes_def placeNode_def)
  next
    fix v assume v: "heapPositions (swap_nodes i j h) v \<noteq> 0"
    then have e: "heapPositions h v \<noteq> 0"
      using \<open>elements (swap_nodes i j h) = elements h\<close> by (auto simp: elements_def)
    then have f: "0 < v" "heapPositions h v \<le> maxHeapLast h" "maxHeap h (heapPositions h v) = v"
      using h by (auto simp: heap_struct_def)
    show "0 < v" by (rule f)
    show "heapPositions (swap_nodes i j h) v \<le> maxHeapLast (swap_nodes i j h)"
      using f i j by (auto simp: swap_nodes_def placeNode_def)
    show "maxHeap (swap_nodes i j h) (heapPositions (swap_nodes i j h) v) = v"
      using f ne i j by (auto simp: swap_nodes_def placeNode_def)
  qed
qed

lemma swap_simps [simp]:
  "score (swap_nodes i j h) = score h" "maxHeapLast (swap_nodes i j h) = maxHeapLast h"
  "numElems (swap_nodes i j h) = numElems h"
  "score (placeNode n p h) = score h" "maxHeapLast (placeNode n p h) = maxHeapLast h"
  "numElems (placeNode n p h) = numElems h"
  by (simp_all add: swap_nodes_def placeNode_def)

lemma maxHeap_swap:
  "maxHeap (swap_nodes i j h) k = (if k = j then maxHeap h i else if k = i then maxHeap h j else maxHeap h k)"
  by (simp add: swap_nodes_def placeNode_def)

section \<open>Percolating up\<close>

lemma heap_orderD: "heap_order k h \<Longrightarrow> 2 \<le> i \<Longrightarrow> i \<le> maxHeapLast h \<Longrightarrow> i \<noteq> k \<Longrightarrow>
    score h (maxHeap h i) \<le> score h (maxHeap h (i div 2))"
  by (simp add: heap_order_def)

lemma swap_up_order:
  assumes o: "heap_order pos H" "grand_order pos H" and pos: "1 < pos" "pos \<le> maxHeapLast H"
    and le: "score H (maxHeap H (pos div 2)) \<le> score H (maxHeap H pos)"
  shows "heap_order (pos div 2) (swap_nodes pos (pos div 2) H)"
    and "grand_order (pos div 2) (swap_nodes pos (pos div 2) H)"
proof -
  define k where "k = pos div 2"
  have k: "k < pos" "1 \<le> k" using pos by (auto simp: k_def)
  note o1 = heap_orderD [OF o(1)]
  have sib: "score H (maxHeap H i) \<le> score H (maxHeap H k)"
    if "i div 2 = k" "i \<le> maxHeapLast H" "i \<noteq> pos" "2 \<le> i" for i
    using o1 [OF that(4,2,3)] that(1) by simp
  have nephew: "score H (maxHeap H i) \<le> score H (maxHeap H k)" if "i div 2 = pos" "i \<le> maxHeapLast H" for i
    using o(2) that pos by (simp add: grand_order_def k_def)
  show "heap_order (pos div 2) (swap_nodes pos (pos div 2) H)"
    unfolding heap_order_def swap_simps k_def [symmetric]
  proof (intro allI impI, elim conjE)
    fix i assume i: "2 \<le> i" "i \<le> maxHeapLast H" "i \<noteq> k"
    consider "i = pos" | "i \<noteq> pos" "i div 2 = pos" | "i \<noteq> pos" "i div 2 = k" | "i \<noteq> pos" "i div 2 \<noteq> pos" "i div 2 \<noteq> k"
      by blast
    then show "score H (maxHeap (swap_nodes pos k H) i) \<le> score H (maxHeap (swap_nodes pos k H) (i div 2))"
    proof cases
      case 1 then show ?thesis using k le by (simp add: maxHeap_swap flip: k_def)
    next
      case 2 then show ?thesis using k i nephew by (simp add: maxHeap_swap)
    next
      case 3 then show ?thesis using k i sib [of i] le by (simp add: maxHeap_swap flip: k_def)
    next
      case 4 then show ?thesis using i o1 [of i] by (simp add: maxHeap_swap)
    qed
  qed
  show "grand_order (pos div 2) (swap_nodes pos (pos div 2) H)"
    unfolding grand_order_def swap_simps k_def [symmetric]
  proof (intro allI impI, elim conjE)
    fix i assume i: "2 \<le> k" "i \<le> maxHeapLast H" "i div 2 = k"
    have up: "score H (maxHeap H k) \<le> score H (maxHeap H (k div 2))"
      using o1 [of k] i k pos by simp
    have "i \<noteq> k" "2 \<le> i" "k div 2 \<noteq> k" "k div 2 \<noteq> pos" using i k by auto
    have "score H (maxHeap (swap_nodes pos k H) i) \<le> score H (maxHeap H k)"
      using \<open>i \<noteq> k\<close> \<open>2 \<le> i\<close> i sib [of i] by (cases "i = pos") (simp_all add: maxHeap_swap)
    also note up
    also have "maxHeap H (k div 2) = maxHeap (swap_nodes pos k H) (k div 2)"
      using \<open>k div 2 \<noteq> k\<close> \<open>k div 2 \<noteq> pos\<close> by (simp add: maxHeap_swap)
    finally show "score H (maxHeap (swap_nodes pos k H) i) \<le> score H (maxHeap (swap_nodes pos k H) (k div 2))" .
  qed
qed

lemma percolate_loop_correct:
  assumes "percolate_loop node pos h = (pos', h')" "1 \<le> pos" "pos \<le> maxHeapLast h"
    and "heap_struct (placeNode node pos h)" "heap_order pos (placeNode node pos h)"
      "grand_order pos (placeNode node pos h)"
  shows "heap_ok (placeNode node pos' h') \<and> elements (placeNode node pos' h') = elements (placeNode node pos h)
    \<and> score h' = score h \<and> maxHeapLast h' = maxHeapLast h \<and> numElems h' = numElems h"
  using assms
proof (induction node pos h rule: percolate_loop.induct)
  case (1 node pos h)
  let ?H = "placeNode node pos h" and ?k = "pos div 2"
  have kp: "?k \<noteq> pos" if "1 < pos" using that by linarith
  then have par: "maxHeap ?H ?k = maxHeap h ?k" if "1 < pos" using that by (simp add: placeNode_def)
  have here: "maxHeap ?H pos = node" by (simp add: placeNode_def)
  consider "\<not> 1 < pos" | "1 < pos" "nodeIsGreater h (maxHeap h ?k) node"
    | "1 < pos" "\<not> nodeIsGreater h (maxHeap h ?k) node" by blast
  then show ?case
  proof cases
    case 1
    then have e: "pos' = pos" "h' = h" "pos = 1"
      using "1.prems"(1,2) by (auto simp: percolate_loop.simps)
    then have "heap_order 0 ?H" using "1.prems"(5) by (auto simp: heap_order_def)
    with e "1.prems"(4) show ?thesis by (simp add: heap_ok_def)
  next
    case 2
    then have e: "pos' = pos" "h' = h"
      using "1.prems"(1) by (auto simp: percolate_loop.simps)
    have "score h node \<le> score h (maxHeap h ?k)" using 2 by (auto simp: nodeIsGreater_def)
    then have "heap_order 0 ?H" using "1.prems"(5) here par [OF 2(1)] by (auto simp: heap_order_def)
    with e "1.prems"(4) show ?thesis by (simp add: heap_ok_def)
  next
    case 3
    let ?h1 = "placeNode (maxHeap h ?k) pos h"
    have le: "score h (maxHeap h ?k) \<le> score h node" using 3 by (auto simp: nodeIsGreater_def)
    have sw: "placeNode node ?k ?h1 = swap_nodes pos ?k ?H"
    proof -
      show ?thesis using kp [OF 3(1)] unfolding swap_nodes_def here par [OF 3(1)]
        by (simp add: placeNode_def fun_eq_iff)
    qed
    have "heap_struct (swap_nodes pos ?k ?H)" and el: "elements (swap_nodes pos ?k ?H) = elements ?H"
      using swap_struct [OF "1.prems"(4), of pos ?k] 3 "1.prems"(2,3) by auto
    moreover have "heap_order ?k (swap_nodes pos ?k ?H)" "grand_order ?k (swap_nodes pos ?k ?H)"
      using swap_up_order [OF "1.prems"(5,6)] 3 "1.prems"(3) le here par by auto
    ultimately show ?thesis
      using "1.IH" [OF 3(1) refl 3(2)] "1.prems" 3 unfolding sw
      by (simp add: percolate_loop.simps [of node pos h] Let_def)
  qed
qed

lemma placeNode_same: "heap_struct h \<Longrightarrow> 1 \<le> pos \<Longrightarrow> pos \<le> maxHeapLast h \<Longrightarrow> placeNode (maxHeap h pos) pos h = h"
  by (simp add: placeNode_def heap_struct_def fun_upd_idem)

lemma percolateUp_correct:
  assumes "1 \<le> pos" "pos \<le> maxHeapLast h" and H: "H = placeNode (maxHeap h pos) pos h"
    and "heap_struct H" "heap_order pos H" "grand_order pos H"
  shows "heap_ok (percolateUp pos h)" "elements (percolateUp pos h) = elements H"
    "score (percolateUp pos h) = score h" "maxHeapLast (percolateUp pos h) = maxHeapLast h"
    "numElems (percolateUp pos h) = numElems h"
proof -
  obtain pos' h' where l: "percolate_loop (maxHeap h pos) pos h = (pos', h')" by fastforce
  from percolate_loop_correct [OF l assms(1,2) assms(4-6)[unfolded H]] H
  show "heap_ok (percolateUp pos h)" "elements (percolateUp pos h) = elements H"
    "score (percolateUp pos h) = score h" "maxHeapLast (percolateUp pos h) = maxHeapLast h"
    "numElems (percolateUp pos h) = numElems h"
    by (simp_all add: percolateUp_def l)
qed

section \<open>Operations keep the invariant\<close>

lemma new_heap_ok: "heap_ok (new_heap one n)" "elements (new_heap one n) = {1..n}"
  by (auto simp: heap_ok_def heap_struct_def heap_order_def new_heap_def elements_def)

lemma reset_ok:
  assumes "heap_ok h" "elements h \<subseteq> {1..numElems h}"
  shows "heap_ok (reset zero h)" "elements (reset zero h) = elements h"
proof -
  have m: "1 \<le> maxHeap h i \<and> maxHeap h i \<le> numElems h" if "1 \<le> i" "i \<le> maxHeapLast h" for i
  proof -
    have "heapPositions h (maxHeap h i) = i" using assms(1) that by (simp add: heap_ok_def heap_struct_pos)
    then have "maxHeap h i \<in> elements h" using that by (simp add: elements_def)
    with assms(2) show ?thesis by auto
  qed
  have "heap_order 0 (reset zero h)"
    unfolding heap_order_def
  proof (intro allI impI, elim conjE)
    fix i assume i: "2 \<le> i" "i \<le> maxHeapLast (reset zero h)" "i \<noteq> 0"
    then have "i \<le> maxHeapLast h" by (simp add: reset_def)
    with i m [of i] m [of "i div 2"]
    show "score (reset zero h) (maxHeap (reset zero h) i) \<le> score (reset zero h) (maxHeap (reset zero h) (i div 2))"
      by (simp add: reset_def)
  qed
  then show "heap_ok (reset zero h)" using assms(1) by (simp add: heap_ok_def heap_struct_def reset_def)
  show "elements (reset zero h) = elements h" by (simp add: elements_def reset_def)
qed

lemma insertElement_ok:
  assumes h: "heap_ok h" and e: "0 < elem"
  shows "heap_ok (insertElement elem h)" "elements (insertElement elem h) = insert elem (elements h)"
    "score (insertElement elem h) = score h" "numElems (insertElement elem h) = numElems h"
proof -
  let ?p = "maxHeapLast h + 1"
  let ?h = "h\<lparr>maxHeapLast := ?p, maxHeap := (maxHeap h)(?p := elem)\<rparr>"
  let ?H = "placeNode elem ?p ?h"
  have s: "heap_struct h" and o: "heap_order 0 h" using h by (auto simp: heap_ok_def)
  have new: "maxHeap h i \<noteq> elem" if "heapPositions h elem = 0" "1 \<le> i" "i \<le> maxHeapLast h" for i
    using heap_struct_pos [OF s, of i] that by auto
  have "heap_struct ?H" if "heapPositions h elem = 0"
  proof -
    have up: "heapPositions h v \<noteq> Suc (maxHeapLast h)" for v
      using s unfolding heap_struct_def by (metis Suc_n_not_le_n nat.distinct(1))
    show ?thesis
      using s e new [OF that] up unfolding heap_struct_def by (auto simp: placeNode_def le_Suc_eq)
  qed
  moreover have "heap_order ?p ?H" using o by (auto simp: heap_order_def placeNode_def)
  moreover have "grand_order ?p ?H" by (auto simp: grand_order_def placeNode_def)
  ultimately have "heap_ok (percolateUp ?p ?h)" "elements (percolateUp ?p ?h) = elements ?H"
    "score (percolateUp ?p ?h) = score h" "numElems (percolateUp ?p ?h) = numElems h"
    if "heapPositions h elem = 0"
    using percolateUp_correct [of ?p ?h ?H] that by simp_all
  moreover have "elements ?H = insert elem (elements h)" by (auto simp: elements_def placeNode_def)
  ultimately show "heap_ok (insertElement elem h)" "elements (insertElement elem h) = insert elem (elements h)"
    "score (insertElement elem h) = score h" "numElems (insertElement elem h) = numElems h"
    using h by (auto simp: insertElement_def Let_def elements_def)
qed

lemma increaseValueBy_ok:
  assumes h: "heap_ok h" and up: "score h elem \<le> add (score h elem) inc"
    and r: "increaseValueBy add over elem inc h = (ovf, h')"
  shows "heap_ok h'" "elements h' = elements h" "ovf \<longleftrightarrow> over (add (score h elem) inc)"
    "score h' = (if ovf then score h else (score h)(elem := add (score h elem) inc))"
proof -
  let ?new = "add (score h elem) inc"
  let ?h = "h\<lparr>score := (score h)(elem := ?new)\<rparr>"
  let ?p = "heapPositions h elem"
  have s: "heap_struct h" and o: "heap_order 0 h" using h by (auto simp: heap_ok_def)
  have s': "heap_struct ?h" using s by (simp add: heap_struct_def)
  have e: "elements ?h = elements h" by (simp add: elements_def)
  have *: "heap_ok (percolateUp ?p ?h) \<and> elements (percolateUp ?p ?h) = elements h
      \<and> score (percolateUp ?p ?h) = score ?h" if p: "?p \<noteq> 0"
  proof -
    have pos: "1 \<le> ?p" "?p \<le> maxHeapLast ?h" "maxHeap h ?p = elem"
      using s p by (auto simp: heap_struct_def)
    have only: "maxHeap h i = elem \<longleftrightarrow> i = ?p" if "1 \<le> i" "i \<le> maxHeapLast h" for i
      using heap_struct_inj [OF s that, of ?p] pos by auto
    have lift: "score h (maxHeap h i) \<le> score ?h (maxHeap h i)" for i using up by simp
    have "heap_order ?p ?h"
      unfolding heap_order_def
    proof (intro allI impI, elim conjE)
      fix i assume i: "2 \<le> i" "i \<le> maxHeapLast ?h" "i \<noteq> ?p"
      then have "maxHeap h i \<noteq> elem" using only [of i] by auto
      then have "score ?h (maxHeap ?h i) = score h (maxHeap h i)" by simp
      also have "\<dots> \<le> score h (maxHeap h (i div 2))" using o i by (simp add: heap_order_def)
      also have "\<dots> \<le> score ?h (maxHeap ?h (i div 2))" using lift by simp
      finally show "score ?h (maxHeap ?h i) \<le> score ?h (maxHeap ?h (i div 2))" .
    qed
    moreover have "grand_order ?p ?h"
      unfolding grand_order_def
    proof (intro allI impI, elim conjE)
      fix i assume i: "2 \<le> ?p" "i \<le> maxHeapLast ?h" "i div 2 = ?p"
      then have "i \<noteq> ?p" "2 \<le> i" by auto
      then have "score ?h (maxHeap ?h i) = score h (maxHeap h i)" using only [of i] i by auto
      also have "\<dots> \<le> score h (maxHeap h ?p)" using o i \<open>2 \<le> i\<close> by (auto simp: heap_order_def)
      also have "\<dots> \<le> score h (maxHeap h (?p div 2))" using o i pos by (auto simp: heap_order_def)
      also have "\<dots> \<le> score ?h (maxHeap ?h (?p div 2))" using lift by simp
      finally show "score ?h (maxHeap ?h i) \<le> score ?h (maxHeap ?h (?p div 2))" .
    qed
    ultimately show ?thesis
      using percolateUp_correct [of ?p ?h ?h] pos placeNode_same [OF s', of ?p] s' e by simp
  qed
  have "heap_ok ?h" if "?p = 0"
  proof -
    have no: "maxHeap h i \<noteq> elem" if "1 \<le> i" "i \<le> maxHeapLast h" for i
      using heap_struct_pos [OF s that] \<open>?p = 0\<close> that by auto
    have "heap_order 0 ?h"
      unfolding heap_order_def
    proof (intro allI impI, elim conjE)
      fix i assume i: "2 \<le> i" "i \<le> maxHeapLast ?h" "i \<noteq> 0"
      then have "maxHeap h i \<noteq> elem" "maxHeap h (i div 2) \<noteq> elem" using no [of i] no [of "i div 2"] by auto
      with i heap_orderD [OF o, of i]
      show "score ?h (maxHeap ?h i) \<le> score ?h (maxHeap ?h (i div 2))" by simp
    qed
    with s' show ?thesis by (simp add: heap_ok_def)
  qed
  with * r h e show "heap_ok h'" "elements h' = elements h" "ovf \<longleftrightarrow> over ?new"
    "score h' = (if ovf then score h else (score h)(elem := ?new))"
    by (auto simp: increaseValueBy_def Let_def split: if_splits)
qed

section \<open>Sinking\<close>

definition down_order :: "nat \<Rightarrow> ('a::linorder) heap \<Rightarrow> bool" where
  "down_order k h \<longleftrightarrow> (\<forall>i. 2 \<le> i \<and> i \<le> maxHeapLast h \<and> i div 2 \<noteq> k \<longrightarrow>
     score h (maxHeap h i) \<le> score h (maxHeap h (i div 2)))"

lemma down_orderD: "down_order k h \<Longrightarrow> 2 \<le> i \<Longrightarrow> i \<le> maxHeapLast h \<Longrightarrow> i div 2 \<noteq> k \<Longrightarrow>
    score h (maxHeap h i) \<le> score h (maxHeap h (i div 2))"
  by (simp add: down_order_def)

lemma swap_down_order:
  assumes o: "down_order k H" "grand_order k H" and k: "1 \<le> k" and c: "c div 2 = k" "2 \<le> c" "c \<le> maxHeapLast H"
    and le: "score H (maxHeap H k) \<le> score H (maxHeap H c)"
    and sib: "\<And>i. i div 2 = k \<Longrightarrow> i \<le> maxHeapLast H \<Longrightarrow> score H (maxHeap H i) \<le> score H (maxHeap H c)"
  shows "down_order c (swap_nodes k c H)" and "grand_order c (swap_nodes k c H)"
proof -
  have kc: "k < c" using c by auto
  note o1 = down_orderD [OF o(1)]
  show "down_order c (swap_nodes k c H)"
    unfolding down_order_def swap_simps
  proof (intro allI impI, elim conjE)
    fix i assume i: "2 \<le> i" "i \<le> maxHeapLast H" "i div 2 \<noteq> c"
    have ik: "i \<noteq> k" if "i div 2 = k" using that i(1) by auto
    consider "i = k" | "i \<noteq> k" "i = c" | "i \<noteq> k" "i \<noteq> c" "i div 2 = k" | "i \<noteq> k" "i \<noteq> c" "i div 2 \<noteq> k" by blast
    then show "score H (maxHeap (swap_nodes k c H) i) \<le> score H (maxHeap (swap_nodes k c H) (i div 2))"
    proof cases
      case 1
      have "k div 2 \<noteq> k" "k div 2 \<noteq> c" using k kc by auto
      moreover have "score H (maxHeap H c) \<le> score H (maxHeap H (k div 2))"
        using o(2) c i 1 by (simp add: grand_order_def)
      ultimately show ?thesis using kc 1 by (simp add: maxHeap_swap)
    next
      case 2 then show ?thesis using kc le c by (simp add: maxHeap_swap)
    next
      case 3 then show ?thesis using kc i sib [of i] by (simp add: maxHeap_swap)
    next
      case 4 then show ?thesis using kc i o1 [of i] by (simp add: maxHeap_swap)
    qed
  qed
  show "grand_order c (swap_nodes k c H)"
    unfolding grand_order_def swap_simps
  proof (intro allI impI, elim conjE)
    fix i assume i: "2 \<le> c" "i \<le> maxHeapLast H" "i div 2 = c"
    have "i \<noteq> k" "i \<noteq> c" "2 \<le> i" "i div 2 \<noteq> k" using i kc by auto
    then show "score H (maxHeap (swap_nodes k c H) i) \<le> score H (maxHeap (swap_nodes k c H) (c div 2))"
      using o1 [of i] i c(1) kc by (simp add: maxHeap_swap)
  qed
qed

lemma sink_loop_correct:
  assumes "sink_loop node pos ch h = (pos', h')" "ch = 2 * pos" "1 \<le> pos" "pos \<le> maxHeapLast h"
    and "heap_struct (placeNode node pos h)" "down_order pos (placeNode node pos h)"
      "grand_order pos (placeNode node pos h)"
  shows "heap_ok (placeNode node pos' h') \<and> elements (placeNode node pos' h') = elements (placeNode node pos h)
    \<and> score h' = score h \<and> maxHeapLast h' = maxHeapLast h \<and> numElems h' = numElems h"
  using assms
proof (induction node pos ch h rule: sink_loop.induct)
  case (1 node pos ch h)
  let ?H = "placeNode node pos h"
  define c where "c = (if ch < maxHeapLast h \<and> nodeIsGreater h (maxHeap h (ch + 1)) (maxHeap h ch)
                       then ch + 1 else ch)"
  have here: "maxHeap ?H pos = node" and other: "i \<noteq> pos \<Longrightarrow> maxHeap ?H i = maxHeap h i" for i
    by (simp_all add: placeNode_def)
  have ch: "ch = 2 * pos" "1 \<le> pos" "pos \<le> maxHeapLast h" by fact+
  have step: "sink_loop node pos ch h =
     (if ch \<le> maxHeapLast h then if nodeIsGreater h node (maxHeap h c) then (pos, h)
              else sink_loop node c (c * 2) (placeNode (maxHeap h c) pos h) else (pos, h))"
    using ch by (subst sink_loop.simps) (auto simp: c_def Let_def)
  have full: "heap_order 0 ?H"
    if "\<And>i. i div 2 = pos \<Longrightarrow> i \<le> maxHeapLast h \<Longrightarrow> score h (maxHeap h i) \<le> score h node"
    unfolding heap_order_def
  proof (intro allI impI, elim conjE)
    fix i assume i: "2 \<le> i" "i \<le> maxHeapLast ?H"
    show "score ?H (maxHeap ?H i) \<le> score ?H (maxHeap ?H (i div 2))"
    proof (cases "i div 2 = pos")
      case True
      with i have "i \<noteq> pos" by auto
      with True i that [of i] show ?thesis by (simp add: other here)
    next
      case False
      with i "1.prems"(6) show ?thesis by (auto simp: down_order_def)
    qed
  qed
  consider "maxHeapLast h < ch" | "ch \<le> maxHeapLast h" "nodeIsGreater h node (maxHeap h c)"
    | "ch \<le> maxHeapLast h" "\<not> nodeIsGreater h node (maxHeap h c)" by linarith
  then show ?case
  proof cases
    case 1
    have "heap_order 0 ?H" by (rule full) (use 1 ch in auto)
    with 1 "1.prems"(1,5) show ?thesis unfolding step by (auto simp: heap_ok_def)
  next
    case 2
    have c: "c div 2 = pos" "c \<le> maxHeapLast h" using 2 ch by (auto simp: c_def)
    have sib: "score h (maxHeap h i) \<le> score h (maxHeap h c)" if "i div 2 = pos" "i \<le> maxHeapLast h" for i
    proof -
      have "i = ch \<or> i = ch + 1" using that ch by auto
      with that show ?thesis by (auto simp: c_def nodeIsGreater_def)
    qed
    have "score h (maxHeap h c) \<le> score h node" using 2 by (auto simp: nodeIsGreater_def)
    then have "heap_order 0 ?H" using full sib by (meson order_trans)
    with 2 "1.prems"(1,5) show ?thesis unfolding step by (auto simp: heap_ok_def)
  next
    case 3
    let ?h1 = "placeNode (maxHeap h c) pos h"
    have c: "c div 2 = pos" "c \<le> maxHeapLast h" "2 \<le> c" "c \<noteq> pos" using 3 ch by (auto simp: c_def)
    have sib: "score h (maxHeap h i) \<le> score h (maxHeap h c)" if "i div 2 = pos" "i \<le> maxHeapLast h" for i
    proof -
      have "i = ch \<or> i = ch + 1" using that ch by auto
      with that show ?thesis by (auto simp: c_def nodeIsGreater_def)
    qed
    have ne: "i \<noteq> pos" if "i div 2 = pos" for i using that ch by auto
    have le: "score h node \<le> score h (maxHeap h c)" using 3 by (auto simp: nodeIsGreater_def)
    have sw: "placeNode node c ?h1 = swap_nodes pos c ?H"
      using c unfolding swap_nodes_def here other [OF c(4)]
      by (simp add: placeNode_def fun_eq_iff)
    have "heap_struct (swap_nodes pos c ?H)" and el: "elements (swap_nodes pos c ?H) = elements ?H"
      using swap_struct [OF "1.prems"(5), of pos c] c ch by auto
    moreover have "down_order c (swap_nodes pos c ?H)" "grand_order c (swap_nodes pos c ?H)"
    proof -
      have 1: "score ?H (maxHeap ?H pos) \<le> score ?H (maxHeap ?H c)"
        using le c(4) by (simp add: here other)
      have 2: "score ?H (maxHeap ?H i) \<le> score ?H (maxHeap ?H c)" if "i div 2 = pos" "i \<le> maxHeapLast ?H" for i
        using that sib [of i] c(4) ne [OF that(1)] by (simp add: other)
      have 3: "c \<le> maxHeapLast ?H" using c by simp
      show "down_order c (swap_nodes pos c ?H)" "grand_order c (swap_nodes pos c ?H)"
        using swap_down_order [OF "1.prems"(6,7) ch(2) c(1,3) 3 1 2] by blast+
    qed
    moreover have "sink_loop node c (c * 2) ?h1 = (pos', h')" using "1.prems"(1) 3 unfolding step by simp
    moreover have "ch \<le> maxHeapLast h \<and> 0 < ch" using 3 ch by simp
    ultimately have "heap_ok (placeNode node pos' h') \<and> elements (placeNode node pos' h') = elements (placeNode node c ?h1)
        \<and> score h' = score ?h1 \<and> maxHeapLast h' = maxHeapLast ?h1 \<and> numElems h' = numElems ?h1"
      using c by (intro "1.IH" [OF _ c_def refl 3(2)]) (simp_all add: sw)
    then show ?thesis unfolding sw el by simp
  qed
qed

lemma removeMax_ok:
  assumes h: "heap_ok h" and ne: "maxHeapLast h \<noteq> 0"
  shows "heap_ok (removeMax h)" "elements (removeMax h) = elements h - {maxHeap h 1}"
    "score (removeMax h) = score h" "numElems (removeMax h) = numElems h"
proof -
  let ?m = "maxHeap h 1" and ?n = "maxHeapLast h"
  let ?h2 = "h\<lparr>heapPositions := (heapPositions h)(?m := 0), maxHeapLast := ?n - 1\<rparr>"
  let ?node = "maxHeap h ?n"
  have s: "heap_struct h" and o: "heap_order 0 h" using h by (auto simp: heap_ok_def)
  have rm: "removeMax h = (let (pos, h3) = sink_loop ?node 1 2 ?h2
      in if maxHeapLast h3 \<noteq> 0 then placeNode ?node pos h3 else h3)"
    by (simp add: removeMax_def Let_def split_beta)
  have p: "heapPositions h (maxHeap h i) = i" if "1 \<le> i" "i \<le> ?n" for i
    using heap_struct_pos [OF s that] .
  have q: "0 < v \<and> heapPositions h v \<le> ?n \<and> maxHeap h (heapPositions h v) = v" if "heapPositions h v \<noteq> 0" for v
    using s that by (simp add: heap_struct_def)
  have "heap_ok (removeMax h) \<and> elements (removeMax h) = elements h - {?m} \<and> score (removeMax h) = score h
      \<and> numElems (removeMax h) = numElems h"
  proof (cases "?n = 1")
    case True
    then have r: "removeMax h = ?h2" unfolding rm by (simp add: sink_loop.simps)
    have "heapPositions h v = 0" if "v \<noteq> ?m" for v
    proof (rule ccontr)
      assume nz: "heapPositions h v \<noteq> 0"
      with q [OF nz] True have "heapPositions h v = 1" by simp
      with q [OF nz] that show False by simp
    qed
    moreover have "heapPositions h ?m = 1" using p [of 1] True by simp
    ultimately have only: "heapPositions h v \<noteq> 0 \<longleftrightarrow> v = ?m" for v by (metis zero_neq_one)
    then show ?thesis unfolding r using True
      by (auto simp: heap_ok_def heap_struct_def heap_order_def elements_def)
  next
    case False
    let ?H = "placeNode ?node 1 ?h2"
    have n2: "2 \<le> ?n" using ne False by simp
    have nm: "?node \<noteq> ?m" using heap_struct_inj [OF s, of ?n 1] n2 by auto
    have mi: "maxHeap h i = ?m \<longleftrightarrow> i = 1" "maxHeap h i = ?node \<longleftrightarrow> i = ?n" if "1 \<le> i" "i \<le> ?n" for i
      using heap_struct_inj [OF s that, of 1] heap_struct_inj [OF s that, of ?n] n2 by auto
    have el: "elements ?H = elements h - {?m}"
      using nm p [of ?n] n2 by (auto simp: elements_def placeNode_def)
    have "heap_struct ?H"
      unfolding heap_struct_def
    proof (intro conjI allI impI; (elim conjE)?)
      fix i assume "1 \<le> i" "i \<le> maxHeapLast ?H"
      then have i: "1 \<le> i" "i \<le> ?n" "i \<noteq> ?n" using n2 by (auto simp: placeNode_def)
      then show "heapPositions ?H (maxHeap ?H i) = i"
        using mi [OF i(1,2)] p [OF i(1,2)] by (auto simp: placeNode_def)
    next
      fix v assume v: "heapPositions ?H v \<noteq> 0"
      then have "v \<in> elements ?H" by (simp add: elements_def)
      then have v': "heapPositions h v \<noteq> 0" "v \<noteq> ?m" unfolding el by (auto simp: elements_def)
      note qv = q [OF v'(1)]
      have "heapPositions h v \<noteq> 1" using qv v' by auto
      moreover have "heapPositions h v \<noteq> ?n" if "v \<noteq> ?node" using qv that by auto
      ultimately show "0 < v" "heapPositions ?H v \<le> maxHeapLast ?H" "maxHeap ?H (heapPositions ?H v) = v"
        using qv v' n2 by (auto simp: placeNode_def)
    qed
    moreover have "down_order 1 ?H"
      unfolding down_order_def
    proof (intro allI impI, elim conjE)
      fix i assume i: "2 \<le> i" "i \<le> maxHeapLast ?H" "i div 2 \<noteq> 1"
      then have "i \<le> ?n" by (simp add: placeNode_def)
      with i heap_orderD [OF o, of i] show "score ?H (maxHeap ?H i) \<le> score ?H (maxHeap ?H (i div 2))"
        by (simp add: placeNode_def)
    qed
    moreover have "grand_order 1 ?H" by (simp add: grand_order_def)
    moreover obtain pos h3 where l: "sink_loop ?node 1 2 ?h2 = (pos, h3)" by fastforce
    ultimately show ?thesis
      using sink_loop_correct [OF l] n2 el unfolding rm l by simp
  qed
  then show "heap_ok (removeMax h)" "elements (removeMax h) = elements h - {maxHeap h 1}"
    "score (removeMax h) = score h" "numElems (removeMax h) = numElems h" by auto
qed

lemma heap_top:
  assumes h: "heap_ok h" and i: "1 \<le> i" "i \<le> maxHeapLast h"
  shows "score h (maxHeap h i) \<le> score h (maxHeap h 1)"
  using i
proof (induction i rule: less_induct)
  case (less i)
  show ?case
  proof (cases "i = 1")
    case False
    with less.prems have "score h (maxHeap h i) \<le> score h (maxHeap h (i div 2))"
      using h heap_orderD [of 0 h i] by (auto simp: heap_ok_def)
    also have "\<dots> \<le> score h (maxHeap h 1)" using less False by simp
    finally show ?thesis .
  qed simp
qed

lemma consultMax_correct:
  assumes h: "heap_ok h"
  shows "consultMax h = 0 \<longleftrightarrow> elements h = {}"
    and "elements h \<noteq> {} \<Longrightarrow> consultMax h \<in> elements h"
    and "v \<in> elements h \<Longrightarrow> score h v \<le> score h (consultMax h)"
proof -
  have s: "heap_struct h" using h by (simp add: heap_ok_def)
  have e: "maxHeapLast h = 0 \<longleftrightarrow> elements h = {}"
    using s heap_struct_pos [OF s, of 1] by (fastforce simp: elements_def heap_struct_def)
  have t: "0 < maxHeap h 1" "maxHeap h 1 \<in> elements h" if "maxHeapLast h \<noteq> 0"
  proof -
    have "heapPositions h (maxHeap h 1) = 1" using heap_struct_pos [OF s, of 1] that by simp
    with s show "0 < maxHeap h 1" "maxHeap h 1 \<in> elements h"
      by (auto simp: elements_def heap_struct_def)
  qed
  show "consultMax h = 0 \<longleftrightarrow> elements h = {}" "elements h \<noteq> {} \<Longrightarrow> consultMax h \<in> elements h"
    unfolding consultMax_def using e t by (cases "maxHeapLast h = 0"; force)+
  show "v \<in> elements h \<Longrightarrow> score h v \<le> score h (consultMax h)"
  proof -
    assume v: "v \<in> elements h"
    with e have "maxHeapLast h \<noteq> 0" by auto
    moreover have "maxHeap h (heapPositions h v) = v" "1 \<le> heapPositions h v" "heapPositions h v \<le> maxHeapLast h"
      using v s by (auto simp: elements_def heap_struct_def)
    ultimately show ?thesis using heap_top [OF h, of "heapPositions h v"] by (simp add: consultMax_def)
  qed
qed

lemma reduceScore_ok:
  assumes h: "heap_ok h" and v: "v = consultMax h" "v \<in> elements h"
  shows "heap_ok (reduceScore decay v h)" "elements (reduceScore decay v h) = elements h"
    "score (reduceScore decay v h) = (score h)(v := decay (score h v))"
proof -
  let ?h1 = "removeMax h"
  let ?h2 = "?h1\<lparr>score := (score ?h1)(v := decay (score ?h1 v))\<rparr>"
  have s: "heap_struct h" using h by (simp add: heap_ok_def)
  have v0: "0 < v" "heapPositions h v \<noteq> 0" using v(2) s by (auto simp: elements_def heap_struct_def)
  then have l: "maxHeapLast h \<noteq> 0" "maxHeap h 1 = v"
    using v(1) by (auto simp: consultMax_def split: if_splits)
  note r = removeMax_ok [OF h l(1), unfolded l(2)]
  have "v \<notin> elements ?h1" using r(2) by simp
  then have out: "heapPositions ?h1 v = 0" by (simp add: elements_def)
  have s1: "heap_struct ?h1" and o1: "heap_order 0 ?h1" using r(1) by (auto simp: heap_ok_def)
  have no: "maxHeap ?h1 i \<noteq> v" if "1 \<le> i" "i \<le> maxHeapLast ?h1" for i
    using heap_struct_pos [OF s1 that] out that by auto
  have "heap_order 0 ?h2"
    unfolding heap_order_def
  proof (intro allI impI, elim conjE)
    fix i assume i: "2 \<le> i" "i \<le> maxHeapLast ?h2" "i \<noteq> 0"
    then have "maxHeap ?h1 i \<noteq> v" "maxHeap ?h1 (i div 2) \<noteq> v" using no [of i] no [of "i div 2"] by auto
    with i heap_orderD [OF o1, of i]
    show "score ?h2 (maxHeap ?h2 i) \<le> score ?h2 (maxHeap ?h2 (i div 2))" by simp
  qed
  then have "heap_ok ?h2" using s1 by (simp add: heap_ok_def heap_struct_def)
  note ins = insertElement_ok [OF this v0(1)]
  have "elements ?h2 = elements ?h1" by (simp add: elements_def)
  with r(2) have e2: "elements ?h2 = elements h - {v}" by simp
  have rs: "reduceScore decay v h = insertElement v ?h2" using v0 by (simp add: reduceScore_def Let_def)
  show "heap_ok (reduceScore decay v h)" unfolding rs by (rule ins)
  show "elements (reduceScore decay v h) = elements h" unfolding rs ins e2 using v(2) by blast
  show "score (reduceScore decay v h) = (score h)(v := decay (score h v))" unfolding rs ins(3) by (simp add: r(3))
qed

section \<open>Properties\<close>

text \<open>
  C32: On a heap in order, \<open>consultMax\<close> is 0 exactly when the heap is empty and otherwise an element
  of maximal score; \<open>removeMax\<close> takes exactly that element away, \<open>insertElement\<close> adds exactly its
  argument, neither changes a score, and both leave a heap in order.
\<close>
theorem heap_selects_maximum:
  assumes "heap_ok h" "0 < e"
  shows "(consultMax h = 0 \<longleftrightarrow> elements h = {})
    \<and> (elements h \<noteq> {} \<longrightarrow> consultMax h \<in> elements h \<and> (\<forall>v \<in> elements h. score h v \<le> score h (consultMax h))
         \<and> heap_ok (removeMax h) \<and> elements (removeMax h) = elements h - {consultMax h}
         \<and> score (removeMax h) = score h)
    \<and> heap_ok (insertElement e h) \<and> elements (insertElement e h) = insert e (elements h)
    \<and> score (insertElement e h) = score h"
proof -
  have "consultMax h = maxHeap h 1 \<and> maxHeapLast h \<noteq> 0" if "elements h \<noteq> {}"
    using that consultMax_correct(1) [OF assms(1)] by (auto simp: consultMax_def split: if_splits)
  then show ?thesis
    using consultMax_correct [OF assms(1)] removeMax_ok [OF assms(1)] insertElement_ok [OF assms] by metis
qed

lemma heap_selects_maximum_witness:
  "let h = snd (increaseValueBy (+) (\<lambda>x. x > 100) 2 (5::int) (new_heap 1 3))
   in consultMax h = 2 \<and> heap_ok (removeMax h) \<and> elements (removeMax h) = {1, 3}
      \<and> elements (insertElement 2 (removeMax h)) = {1, 2, 3}"
proof -
  define h where "h = snd (increaseValueBy (+) (\<lambda>x. x > 100) 2 (5::int) (new_heap (1::int) 3))"
  have "increaseValueBy (+) (\<lambda>x. x > 100) 2 (5::int) (new_heap (1::int) 3) = (False, h)"
    by (simp add: h_def increaseValueBy_def Let_def new_heap_def)
  then have h: "heap_ok h" "elements h = {1..3}" "score h = (\<lambda>_. 1)(2 := 6)"
    using increaseValueBy_ok [of "new_heap (1::int) 3" 2 "(+)" 5 "\<lambda>x. x > 100" False h] new_heap_ok [of "1::int" 3]
    by (auto simp: new_heap_def)
  have ne: "elements h \<noteq> {}" using h(2) by simp
  note p = heap_selects_maximum [OF h(1), of 2, simplified]
  have m: "consultMax h \<in> {1..3}" "\<forall>v \<in> elements h. score h v \<le> score h (consultMax h)"
    using p ne h(2) by auto
  then have "score h 2 \<le> score h (consultMax h)" unfolding h(2) by simp
  with m(1) have c: "consultMax h = 2" by (simp add: h(3) split: if_splits)
  have r: "heap_ok (removeMax h)" "elements (removeMax h) = {1, 3}"
    using p ne c h(2) by auto
  have "elements (insertElement 2 (removeMax h)) = insert 2 {1, 3}"
    using heap_selects_maximum [OF r(1), of 2] r(2) by simp
  with c r show ?thesis unfolding h_def [symmetric] Let_def by auto
qed

text \<open>
  Bumping the score of a variable by an amount that does not lower it keeps the heap in order
  and its elements, changes that score alone, and reports overflow, changing nothing, exactly when
  the new score exceeds the bound.
\<close>
theorem increaseValueBy_keeps_order:
  assumes "heap_ok h" "score h v \<le> add (score h v) inc" "increaseValueBy add over v inc h = (ovf, h')"
  shows "heap_ok h' \<and> elements h' = elements h \<and> ovf = over (add (score h v) inc)
    \<and> score h' = (if ovf then score h else (score h)(v := add (score h v) inc))"
  using increaseValueBy_ok [OF assms] by auto

lemma increaseValueBy_keeps_order_witness:
  "let (ovf, h') = increaseValueBy (+) (\<lambda>x. x > 100) 3 (7::int) (new_heap (1::int) 4)
   in heap_ok h' \<and> elements h' = {1..4} \<and> \<not> ovf \<and> score h' = (\<lambda>_. 1)(3 := 8)"
proof -
  obtain o1 h1 where r: "increaseValueBy (+) (\<lambda>x. x > 100) 3 (7::int) (new_heap (1::int) 4) = (o1, h1)" by fastforce
  have "score (new_heap (1::int) 4) 3 \<le> score (new_heap (1::int) 4) 3 + 7" by simp
  from increaseValueBy_keeps_order [OF new_heap_ok(1) this r] new_heap_ok(2) [of "1::int" 4]
  show ?thesis unfolding r by (auto simp: new_heap_def)
qed

end
