(* ===== verification/Solver.thy ===== *)
theory Solver
  imports PBConstraint Simplify Model MaxHeap
begin

text \<open>
  The solver object of \<open>src/src/Solver.h\<close>: constraint database, watch and occurrence lists, slack
  counters, trail and branching heap, with the operations that build the database
  (\<open>DBAddition.cpp\<close>), undo the trail (\<open>Solver.cpp\<close>) and evaluate constraints
  (\<open>ConstraintValue.cpp\<close>). Each pair of a \<open>positive\<close> and a \<open>negative\<close> vector of lists is one
  function on literals. The theory ends with the invariant of the counters and of the trail.
\<close>

section \<open>State\<close>

text \<open>
  \<open>GeneralWatchListElem\<close>: the type field selects which of the integer fields are meaningful, so
  it is a datatype with one constructor per type.
\<close>

datatype gwl_elem =
    BINCLAUSE (otherLit: lit)
  | CLAUSE (cachedLit: lit) (clauseId: nat)
  | CARD int nat
  | COUNTERPB (coef: int) (constraintId: nat)
  | WATCHEDPB int nat int

definition isBinClauseElem :: "gwl_elem \<Rightarrow> bool" where "isBinClauseElem e = (case e of BINCLAUSE _ \<Rightarrow> True | _ \<Rightarrow> False)"
definition isCounterPB :: "gwl_elem \<Rightarrow> bool" where "isCounterPB e = (case e of COUNTERPB _ _ \<Rightarrow> True | _ \<Rightarrow> False)"

record stats =
  numOfBackjump :: int
  numOfIntsInPbsAndClauses :: int
  numOfCounterCtr :: int
  numOfPropagationsPBCounter :: int
  numOfPropagationsClauses :: int
  numOfPropagationsBinClauses :: int

datatype conflict_type = NoConflictYet | CONFLICT_CLAUSE | CONFLICT_PB | CONFLICT_BIN_CLAUSE

record 'a solver =
  numVars :: int
  conflict :: bool
  typeConflict :: conflict_type
  constraintConflictNum :: nat
  clauseConflictNum :: nat
  binClauseConflict :: "lit \<times> lit"
  genWatchList :: "lit \<Rightarrow> gwl_elem list"
  watchLists :: "lit \<Rightarrow> (nat \<times> lit) list"
  binClauses :: "lit \<Rightarrow> lit list"
  occurLists :: "lit \<Rightarrow> (nat \<times> int) list"
  constraintsPB :: "pbconstraint list"
  clauses :: "clause list"
  useCounter :: "bool list"
  sumOfWatches :: "int list"
  solver_stats :: stats
  solver_model :: model
  solver_heap :: "'a heap"

definition new_solver :: "'a \<Rightarrow> int \<Rightarrow> ('a::linorder) solver" where
  "new_solver one nVars =
     \<lparr>numVars = nVars, conflict = False, typeConflict = NoConflictYet, constraintConflictNum = 0, clauseConflictNum = 0,
      binClauseConflict = (0, 0), genWatchList = (\<lambda>_. []), watchLists = (\<lambda>_. []), binClauses = (\<lambda>_. []),
      occurLists = (\<lambda>_. []), constraintsPB = [], clauses = [], useCounter = [], sumOfWatches = [],
      solver_stats = \<lparr>numOfBackjump = 0, numOfIntsInPbsAndClauses = 0, numOfCounterCtr = 0, numOfPropagationsPBCounter = 0,
        numOfPropagationsClauses = 0, numOfPropagationsBinClauses = 0\<rparr>,
      solver_model = new_model, solver_heap = new_heap one nVars\<rparr>"

section \<open>Literal numbers\<close>

definition lit2id :: "lit \<Rightarrow> int" where "lit2id l = (if l > 0 then 2 * l - 1 else 2 * (- l))"
definition id2lit :: "int \<Rightarrow> lit" where
  "id2lit i = (if i smod 2 \<noteq> 0 then i sdiv 2 + 1 else (- i) sdiv 2)"

section \<open>Trail operations\<close>

definition setTrueDueToDecision :: "lit \<Rightarrow> ('a::linorder) solver \<Rightarrow> 'a solver" where
  "setTrueDueToDecision l s = s\<lparr>solver_model := Model_setTrueDueToDecision l (solver_model s)\<rparr>"

definition setTrueDueToReason :: "lit \<Rightarrow> reason \<Rightarrow> ('a::linorder) solver \<Rightarrow> 'a solver" where
  "setTrueDueToReason l r s = s\<lparr>solver_model := Model_setTrueDueToReason l r (solver_model s)\<rparr>"

text \<open>The loop over an occurrence list adds each coefficient back to its constraint's counter.\<close>

fun add_occurrences :: "(nat \<times> int) list \<Rightarrow> int list \<Rightarrow> int list" where
  "add_occurrences [] sums = sums"
| "add_occurrences ((c, k) # es) sums = add_occurrences es (sums[c := sums ! c + k])"

definition popAndUnassign :: "('a::linorder) solver \<Rightarrow> lit \<times> 'a solver" where
  "popAndUnassign s =
     (let m = solver_model s; l = getLitAtTop m; v = \<bar>l\<bar>;
          s1 = (if isLitPropagated m l
                then s\<lparr>sumOfWatches := add_occurrences (occurLists s (- l)) (sumOfWatches s)\<rparr> else s)
      in (l, s1\<lparr>solver_model := snd (Model_popAndUnassign m), solver_heap := insertElement v (solver_heap s1)\<rparr>))"

function pop_to_dl :: "int \<Rightarrow> ('a::linorder) solver \<Rightarrow> 'a solver" where
  "pop_to_dl dl s =
     (if currentDecisionLevel (solver_model s) > dl \<and> modelStack (solver_model s) \<noteq> []
      then pop_to_dl dl (snd (popAndUnassign s)) else s)"
  by pat_completeness auto
termination
  by (relation "measure (\<lambda>(dl, s). length (modelStack (solver_model s)))")
     (auto simp: popAndUnassign_def Let_def Model_popAndUnassign_def)

declare pop_to_dl.simps [simp del]

definition backjumpToDL :: "int \<Rightarrow> ('a::linorder) solver \<Rightarrow> 'a solver" where
  "backjumpToDL dl s =
     pop_to_dl dl (s\<lparr>solver_stats := (solver_stats s)\<lparr>numOfBackjump := numOfBackjump (solver_stats s) + 1\<rparr>\<rparr>)"

section \<open>Adding to the database\<close>

definition push_gen :: "lit \<Rightarrow> gwl_elem \<Rightarrow> ('a::linorder) solver \<Rightarrow> 'a solver" where
  "push_gen l e s = s\<lparr>genWatchList := (genWatchList s)(l := genWatchList s l @ [e])\<rparr>"

definition push_watch :: "lit \<Rightarrow> nat \<times> lit \<Rightarrow> ('a::linorder) solver \<Rightarrow> 'a solver" where
  "push_watch l e s = s\<lparr>watchLists := (watchLists s)(l := watchLists s l @ [e])\<rparr>"

definition push_bin :: "lit \<Rightarrow> lit \<Rightarrow> ('a::linorder) solver \<Rightarrow> 'a solver" where
  "push_bin l l' s = s\<lparr>binClauses := (binClauses s)(l := binClauses s l @ [l'])\<rparr>"

definition push_occ :: "lit \<Rightarrow> nat \<times> int \<Rightarrow> ('a::linorder) solver \<Rightarrow> 'a solver" where
  "push_occ l e s = s\<lparr>occurLists := (occurLists s)(l := occurLists s l @ [e])\<rparr>"

definition addBinaryClause :: "lit \<Rightarrow> lit \<Rightarrow> ('a::linorder) solver \<Rightarrow> 'a solver" where
  "addBinaryClause lit1 lit2 s =
     push_gen lit2 (BINCLAUSE lit1) (push_gen lit1 (BINCLAUSE lit2) (push_bin lit2 lit1 (push_bin lit1 lit2 s)))"

definition addClause :: "clause \<Rightarrow> ('a::linorder) solver \<Rightarrow> 'a solver" where
  "addClause c s =
     (let s1 = s\<lparr>clauses := clauses s @ [c]\<rparr>;
          firstWatched = cl_lits c ! 0; secondWatched = cl_lits c ! 1;
          cached = cl_lits c ! (length (cl_lits c) - 1);
          cid = length (clauses s1) - 1;
          s2 = push_watch secondWatched (cid, cached) (push_watch firstWatched (cid, cached) s1);
          s3 = push_gen secondWatched (CLAUSE cached cid) (push_gen firstWatched (CLAUSE cached cid) s2)
      in s3\<lparr>solver_stats := (solver_stats s3)\<lparr>numOfIntsInPbsAndClauses :=
             numOfIntsInPbsAndClauses (solver_stats s3) + int (length (cl_lits c))\<rparr>\<rparr>)"

text \<open>The loop over the monomials of a new constraint, with the slack as accumulator.\<close>

fun add_counter_loop :: "nat \<Rightarrow> monomial list \<Rightarrow> int \<Rightarrow> ('a::linorder) solver \<Rightarrow> int \<times> 'a solver" where
  "add_counter_loop cid [] slk s = (slk, s)"
| "add_counter_loop cid ((k, l) # ms) slk s =
     (let slk' = (if \<not> isFalseLit (solver_model s) l \<or> \<not> isLitPropagated (solver_model s) l then slk + k else slk)
      in add_counter_loop cid ms slk' (push_gen l (COUNTERPB k cid) (push_occ l (cid, k) s)))"

definition addPBConstraintCounter :: "pbconstraint \<Rightarrow> ('a::linorder) solver \<Rightarrow> 'a solver" where
  "addPBConstraintCounter c s =
     (let s0 = s\<lparr>solver_stats := (solver_stats s)\<lparr>numOfCounterCtr := numOfCounterCtr (solver_stats s) + 1\<rparr>\<rparr>;
          cid = length (constraintsPB s0);
          (slk, s1) = add_counter_loop cid (pb_lhs c) (- pb_rhs c - fst (pb_lhs c ! 0)) s0
      in s1\<lparr>useCounter := useCounter s1 @ [True], sumOfWatches := sumOfWatches s1 @ [slk],
            constraintsPB := constraintsPB s1 @ [c]\<rparr>)"

section \<open>Value of a constraint\<close>

definition slack :: "model \<Rightarrow> wconstraint \<Rightarrow> int" where
  "slack m c = msum (\<lambda>l. \<not> isFalseLit m l) (lhs c) - rhs c"

definition constraintIsFalse :: "model \<Rightarrow> wconstraint \<Rightarrow> bool" where
  "constraintIsFalse m c \<longleftrightarrow> slack m c < 0"

definition constraintIsContradiction :: "model \<Rightarrow> wconstraint \<Rightarrow> bool" where
  "constraintIsContradiction m c \<longleftrightarrow>
     msum (\<lambda>l. \<not> isFalseLit m l \<or> getDLOfLit m l > 0) (lhs c) < rhs c"

text \<open>The loop of \<open>constraintIsTrue\<close> stops as soon as the right-hand side is reached.\<close>

fun min_sum_loop :: "model \<Rightarrow> monomial list \<Rightarrow> int \<Rightarrow> int" where
  "min_sum_loop m [] acc = acc"
| "min_sum_loop m ((k, l) # ms) acc =
     (if acc < 0 then min_sum_loop m ms (if isTrueLit m l then acc + \<bar>k\<bar> else acc) else acc)"

definition constraintIsTrue :: "model \<Rightarrow> wconstraint \<Rightarrow> bool" where
  "constraintIsTrue m c \<longleftrightarrow> min_sum_loop m (lhs c) (- rhs c) \<ge> 0"

definition maxSumOfConstraintMinusRhsPropagated :: "model \<Rightarrow> wconstraint \<Rightarrow> int" where
  "maxSumOfConstraintMinusRhsPropagated m c =
     - rhs c + msum (\<lambda>l. \<not> isFalseLit m l \<or> \<not> isLitPropagated m l) (map (\<lambda>(k, l). (\<bar>k\<bar>, l)) (lhs c))"

definition clauseIsFalse :: "model \<Rightarrow> clause \<Rightarrow> bool" where
  "clauseIsFalse m cl \<longleftrightarrow> (\<forall>l \<in> set (cl_lits cl). isFalseLit m l)"

definition clauseIsTrue :: "model \<Rightarrow> clause \<Rightarrow> bool" where
  "clauseIsTrue m cl \<longleftrightarrow> (\<exists>l \<in> set (cl_lits cl). isTrueLit m l)"

definition clauseHasTwoUnassignedWatches :: "model \<Rightarrow> clause \<Rightarrow> bool" where
  "clauseHasTwoUnassignedWatches m cl \<longleftrightarrow> isUndefLit m (cl_lits cl ! 0) \<and> isUndefLit m (cl_lits cl ! 1)"

fun clause_unassigned :: "model \<Rightarrow> lit list \<Rightarrow> nat \<Rightarrow> nat option" where
  "clause_unassigned m [] n = Some n"
| "clause_unassigned m (l # ls) n =
     (if isTrueLit m l then None else clause_unassigned m ls (if isUndefLit m l then n + 1 else n))"

definition clausePropagates :: "model \<Rightarrow> clause \<Rightarrow> bool" where
  "clausePropagates m cl \<longleftrightarrow> clause_unassigned m (cl_lits cl) 0 = Some 1"

fun max_undef :: "model \<Rightarrow> monomial list \<Rightarrow> int \<Rightarrow> int" where
  "max_undef m [] acc = acc"
| "max_undef m ((k, l) # ms) acc = max_undef m ms (if isUndefLit m l \<and> acc < k then k else acc)"

definition constraintIsConflictingOrPropagating :: "model \<Rightarrow> wconstraint \<Rightarrow> bool" where
  "constraintIsConflictingOrPropagating m c \<longleftrightarrow> slack m c - max_undef m (lhs c) 0 < 0"

section \<open>Meaning of the database\<close>

definition pb_sat :: "assignment \<Rightarrow> pbconstraint \<Rightarrow> bool" where
  "pb_sat \<sigma> c \<longleftrightarrow> pb_rhs c \<le> lhs_value \<sigma> (pb_lhs c)"

definition clause_sat :: "assignment \<Rightarrow> lit list \<Rightarrow> bool" where
  "clause_sat \<sigma> ls \<longleftrightarrow> (\<exists>l \<in> set ls. lit_true \<sigma> l)"

definition db_sat :: "assignment \<Rightarrow> ('a::linorder) solver \<Rightarrow> bool" where
  "db_sat \<sigma> s \<longleftrightarrow> (\<forall>c \<in> set (constraintsPB s). pb_sat \<sigma> c) \<and> (\<forall>c \<in> set (clauses s). clause_sat \<sigma> (cl_lits c))
     \<and> (\<forall>l. \<forall>l' \<in> set (binClauses s l). lit_true \<sigma> l \<or> lit_true \<sigma> l')"

text \<open>The database and a list of decisions force a literal.\<close>

definition entails :: "('a::linorder) solver \<Rightarrow> lit list \<Rightarrow> lit \<Rightarrow> bool" where
  "entails s ds l \<longleftrightarrow> (\<forall>\<sigma>. db_sat \<sigma> s \<and> (\<forall>d \<in> set ds. lit_true \<sigma> d) \<longrightarrow> lit_true \<sigma> l)"

text \<open>
  A trail element is justified by its reason and the literals below it: the reason is a constraint
  of the database that contains the literal and is propagating it. An element with no reason is a
  decision or a consequence of the database.
\<close>

definition elem_ok :: "('a::linorder) solver \<Rightarrow> stack_element list \<Rightarrow> stack_element \<Rightarrow> bool" where
  "elem_ok s st e = (case se_reason e of
       NoReason \<Rightarrow> entails s (dec_lits 0 (st @ [e])) (se_lit e)
     | PBReason n \<Rightarrow> n < length (constraintsPB s) \<and> (let c = constraintsPB s ! n in
           \<exists>k. (k, se_lit e) \<in> set (pb_lhs c) \<and> msum (\<lambda>l. - l \<notin> set (map se_lit st)) (pb_lhs c) - pb_rhs c < k)
     | ClauseReason n \<Rightarrow> n < length (clauses s) \<and> se_lit e \<in> set (cl_lits (clauses s ! n))
           \<and> (\<forall>l \<in> set (cl_lits (clauses s ! n)). l \<noteq> se_lit e \<longrightarrow> - l \<in> set (map se_lit st))
     | BinReason l \<Rightarrow> se_lit e \<in> set (binClauses s l) \<and> - l \<in> set (map se_lit st))"

definition trail_ok :: "('a::linorder) solver \<Rightarrow> bool" where
  "trail_ok s \<longleftrightarrow> (let st = modelStack (solver_model s) in
     \<forall>i < length st. elem_ok s (take i st) (st ! i))"

section \<open>Well-formed database\<close>

text \<open>Coefficients of one constraint in a list of the propagation data structures.\<close>

fun gen_sum :: "nat \<Rightarrow> gwl_elem list \<Rightarrow> int" where
  "gen_sum c [] = 0"
| "gen_sum c (COUNTERPB k d # es) = (if d = c then k else 0) + gen_sum c es"
| "gen_sum c (_ # es) = gen_sum c es"

fun occ_sum :: "nat \<Rightarrow> (nat \<times> int) list \<Rightarrow> int" where
  "occ_sum c [] = 0"
| "occ_sum c ((d, k) # es) = (if d = c then k else 0) + occ_sum c es"

definition pb_ok :: "int \<Rightarrow> pbconstraint \<Rightarrow> bool" where
  "pb_ok n c \<longleftrightarrow> pb_lhs c \<noteq> [] \<and> pos_coeffs (pb_lhs c) \<and> nonzero_lits (pb_lhs c)
     \<and> (\<forall>m \<in> set (pb_lhs c). fst m \<le> fst (pb_lhs c ! 0) \<and> \<bar>snd m\<bar> \<le> n)"

definition cl_ok :: "int \<Rightarrow> clause \<Rightarrow> bool" where
  "cl_ok n c \<longleftrightarrow> 2 \<le> length (cl_lits c) \<and> distinct (cl_lits c) \<and> 0 \<notin> set (cl_lits c)
     \<and> (\<forall>l \<in> set (cl_lits c). \<bar>l\<bar> \<le> n) \<and> 2 \<le> cl_watchIdx c \<and> cl_watchIdx c \<le> int (length (cl_lits c))"

definition db_ok :: "('a::linorder) solver \<Rightarrow> bool" where
  "db_ok s \<longleftrightarrow> (\<forall>c \<in> set (constraintsPB s). pb_ok (numVars s) c) \<and> (\<forall>c \<in> set (clauses s). cl_ok (numVars s) c)
     \<and> (\<forall>l. \<forall>l' \<in> set (binClauses s l). l \<noteq> 0 \<and> l' \<noteq> 0 \<and> \<bar>l'\<bar> \<le> numVars s)
     \<and> length (sumOfWatches s) = length (constraintsPB s) \<and> length (useCounter s) = length (constraintsPB s)"

text \<open>
  The general watch lists hold every monomial of every counter constraint once under its literal,
  the occurrence lists the same, and the binary entries come from binary clauses.
\<close>

definition lists_ok :: "('a::linorder) solver \<Rightarrow> bool" where
  "lists_ok s \<longleftrightarrow>
     (\<forall>l c. c < length (constraintsPB s) \<longrightarrow>
        gen_sum c (genWatchList s l) = msum (\<lambda>x. x = l) (pb_lhs (constraintsPB s ! c))
      \<and> occ_sum c (occurLists s l) = msum (\<lambda>x. x = l) (pb_lhs (constraintsPB s ! c)))
   \<and> (\<forall>l. \<forall>e \<in> set (genWatchList s l). case e of
        BINCLAUSE l' \<Rightarrow> l' \<in> set (binClauses s l)
      | COUNTERPB k c \<Rightarrow> c < length (constraintsPB s) \<and> 0 < k
      | _ \<Rightarrow> True)
   \<and> (\<forall>l. \<forall>e \<in> set (occurLists s l). fst e < length (constraintsPB s))
   \<and> (\<forall>l. \<forall>l' \<in> set (binClauses s l). BINCLAUSE l' \<in> set (genWatchList s l))"

text \<open>Every watch-list entry of a literal names a clause whose first or second literal it is.\<close>

definition watches_ok :: "('a::linorder) solver \<Rightarrow> bool" where
  "watches_ok s \<longleftrightarrow>
     (\<forall>l. distinct (map fst (watchLists s l)))
   \<and> (\<forall>l n x. (n, x) \<in> set (watchLists s l) \<longrightarrow>
        n < length (clauses s) \<and> (cl_lits (clauses s ! n) ! 0 = l \<or> cl_lits (clauses s ! n) ! 1 = l))"

text \<open>
  The counter of a constraint: the coefficients of the literals not falsified by a propagated
  literal, minus the right-hand side, minus the largest coefficient.
\<close>

definition counter_value :: "lit list \<Rightarrow> pbconstraint \<Rightarrow> int" where
  "counter_value ps c = msum (\<lambda>l. - l \<notin> set ps) (pb_lhs c) - pb_rhs c - fst (pb_lhs c ! 0)"

definition counters_ok :: "('a::linorder) solver \<Rightarrow> bool" where
  "counters_ok s \<longleftrightarrow> (\<forall>c < length (constraintsPB s).
     sumOfWatches s ! c = counter_value (plits (solver_model s)) (constraintsPB s ! c))"

text \<open>No constraint is falsified by the propagated literals.\<close>

definition slacks_nonneg :: "('a::linorder) solver \<Rightarrow> bool" where
  "slacks_nonneg s \<longleftrightarrow> (\<forall>c < length (constraintsPB s).
     0 \<le> sumOfWatches s ! c + fst (pb_lhs (constraintsPB s ! c) ! 0))"

definition trail_range :: "('a::linorder) solver \<Rightarrow> bool" where
  "trail_range s \<longleftrightarrow> (\<forall>l \<in> set (tlits (solver_model s)). \<bar>l\<bar> \<le> numVars s)"

text \<open>Everything but the counters, which lag behind while a literal is being propagated.\<close>

definition core_inv :: "('a::linorder) solver \<Rightarrow> bool" where
  "core_inv s \<longleftrightarrow> wf_model (solver_model s) \<and> db_ok s \<and> lists_ok s \<and> watches_ok s \<and> trail_ok s \<and> trail_range s"

definition solver_inv :: "('a::linorder) solver \<Rightarrow> bool" where
  "solver_inv s \<longleftrightarrow> core_inv s \<and> counters_ok s"

text \<open>A raised conflict names a constraint of the database that the trail falsifies.\<close>

definition conflict_ok :: "('a::linorder) solver \<Rightarrow> bool" where
  "conflict_ok s \<longleftrightarrow> (conflict s \<longrightarrow> (let ts = set (tlits (solver_model s)) in case typeConflict s of
       CONFLICT_PB \<Rightarrow> constraintConflictNum s < length (constraintsPB s) \<and>
         (let c = constraintsPB s ! constraintConflictNum s in msum (\<lambda>l. - l \<notin> ts) (pb_lhs c) < pb_rhs c)
     | CONFLICT_CLAUSE \<Rightarrow> clauseConflictNum s < length (clauses s) \<and>
         (\<forall>l \<in> set (cl_lits (clauses s ! clauseConflictNum s)). - l \<in> ts)
     | CONFLICT_BIN_CLAUSE \<Rightarrow> (let (l, l') = binClauseConflict s in l' \<in> set (binClauses s l) \<and> - l \<in> ts \<and> - l' \<in> ts)
     | NoConflictYet \<Rightarrow> False))"

end
