(* ===== verification/SolverInv.thy ===== *)
theory SolverInv
  imports Solver
begin

text \<open>
  The invariant of the solver object under the trail operations and the additions to the database:
  assigning, undoing one literal, backjumping, adding a binary clause, a clause or a counter
  constraint. A literal on the trail follows from the database and the decisions, and a raised
  conflict refutes the decisions.
\<close>

section \<open>Same database\<close>

text \<open>Two states whose constraints have the same meaning, whatever the order of watched literals.\<close>

definition same_db :: "('a::linorder) solver \<Rightarrow> 'a solver \<Rightarrow> bool" where
  "same_db s s' \<longleftrightarrow> numVars s' = numVars s
     \<and> map (\<lambda>c. (pb_lhs c, pb_rhs c)) (constraintsPB s') = map (\<lambda>c. (pb_lhs c, pb_rhs c)) (constraintsPB s)
     \<and> map (\<lambda>c. set (cl_lits c)) (clauses s') = map (\<lambda>c. set (cl_lits c)) (clauses s)
     \<and> binClauses s' = binClauses s"

lemma same_db_refl [simp]: "same_db s s" by (simp add: same_db_def)

lemma same_db_trans [trans]: "same_db s t \<Longrightarrow> same_db t u \<Longrightarrow> same_db s u"
  by (auto simp: same_db_def)

lemma same_db_length:
  "same_db s s' \<Longrightarrow> length (constraintsPB s') = length (constraintsPB s) \<and> length (clauses s') = length (clauses s)"
  unfolding same_db_def by (metis length_map)

lemma same_db_pb:
  "same_db s s' \<Longrightarrow> n < length (constraintsPB s) \<Longrightarrow>
    pb_lhs (constraintsPB s' ! n) = pb_lhs (constraintsPB s ! n) \<and> pb_rhs (constraintsPB s' ! n) = pb_rhs (constraintsPB s ! n)"
  using same_db_length [of s s'] unfolding same_db_def by (metis (no_types, lifting) nth_map prod.inject)

lemma same_db_cl:
  "same_db s s' \<Longrightarrow> n < length (clauses s) \<Longrightarrow> set (cl_lits (clauses s' ! n)) = set (cl_lits (clauses s ! n))"
  using same_db_length [of s s'] unfolding same_db_def by (metis (no_types, lifting) nth_map)

lemma same_db_sat: "same_db s s' \<Longrightarrow> db_sat \<sigma> s' = db_sat \<sigma> s"
proof -
  assume d: "same_db s s'"
  have "(\<forall>c \<in> set (constraintsPB s'). pb_sat \<sigma> c) = (\<forall>c \<in> set (constraintsPB s). pb_sat \<sigma> c)"
    unfolding all_set_conv_all_nth pb_sat_def using same_db_length [OF d] same_db_pb [OF d] by auto
  moreover have "(\<forall>c \<in> set (clauses s'). clause_sat \<sigma> (cl_lits c)) = (\<forall>c \<in> set (clauses s). clause_sat \<sigma> (cl_lits c))"
    unfolding all_set_conv_all_nth clause_sat_def using same_db_length [OF d] same_db_cl [OF d] by auto
  ultimately show ?thesis using d by (simp add: db_sat_def same_db_def)
qed

lemma same_db_entails: "same_db s s' \<Longrightarrow> entails s' ds l = entails s ds l"
  by (simp add: entails_def same_db_sat)

lemma same_db_elem_ok:
  assumes d: "same_db s s'" shows "elem_ok s' st e = elem_ok s st e"
proof (cases "se_reason e")
  case NoReason
  then show ?thesis by (simp add: elem_ok_def same_db_entails [OF d])
next
  case (PBReason n)
  then show ?thesis
    using same_db_length [OF d] same_db_pb [OF d] by (auto simp: elem_ok_def Let_def)
next
  case (ClauseReason n)
  then show ?thesis
    using same_db_length [OF d] same_db_cl [OF d] by (auto simp: elem_ok_def)
next
  case (BinReason l)
  then show ?thesis using d by (simp add: elem_ok_def same_db_def)
qed

text \<open>A database that contains another and keeps the numbers of its constraints.\<close>

definition db_grows :: "('a::linorder) solver \<Rightarrow> 'a solver \<Rightarrow> bool" where
  "db_grows s s' \<longleftrightarrow> (\<exists>cs. constraintsPB s' = constraintsPB s @ cs) \<and> (\<exists>cs. clauses s' = clauses s @ cs)
     \<and> (\<forall>l. set (binClauses s l) \<subseteq> set (binClauses s' l))"

lemma db_grows_sat: "db_grows s s' \<Longrightarrow> db_sat \<sigma> s' \<Longrightarrow> db_sat \<sigma> s"
  unfolding db_grows_def db_sat_def by (elim conjE exE, intro conjI ballI allI) (simp, simp, blast)

lemma db_grows_elem_ok: "db_grows s s' \<Longrightarrow> elem_ok s st e \<Longrightarrow> elem_ok s' st e"
  using db_grows_sat [of s s'] unfolding elem_ok_def entails_def db_grows_def
  by (auto simp: nth_append split: reason.splits)

section \<open>Trails\<close>

definition stack_ok :: "('a::linorder) solver \<Rightarrow> stack_element list \<Rightarrow> bool" where
  "stack_ok s st \<longleftrightarrow> (\<forall>i < length st. elem_ok s (take i st) (st ! i))"

lemma trail_ok_stack: "trail_ok s \<longleftrightarrow> stack_ok s (modelStack (solver_model s))"
  by (simp add: trail_ok_def stack_ok_def Let_def)

lemma stack_ok_Nil [simp]: "stack_ok s []" by (simp add: stack_ok_def)

lemma stack_ok_snoc [simp]: "stack_ok s (st @ [e]) \<longleftrightarrow> stack_ok s st \<and> elem_ok s st e"
  by (auto simp: stack_ok_def nth_append less_Suc_eq)

lemma stack_ok_prefix: "stack_ok s (st @ st') \<Longrightarrow> stack_ok s st"
proof (induction st' rule: rev_induct)
  case (snoc e st')
  then show ?case by (simp flip: append_assoc)
qed simp

lemma same_db_stack_ok: "same_db s s' \<Longrightarrow> stack_ok s' st = stack_ok s st"
  by (simp add: stack_ok_def same_db_elem_ok)

lemma db_grows_stack_ok: "db_grows s s' \<Longrightarrow> stack_ok s st \<Longrightarrow> stack_ok s' st"
  by (auto simp: stack_ok_def db_grows_elem_ok)

lemma lits_of_true_trail:
  assumes "\<forall>l \<in> set ls. lit_true \<sigma> l" "0 \<notin> set ls" "lit_true \<sigma> x" "x \<noteq> 0"
  shows "- x \<notin> set ls"
  using assms lit_true_neg by blast

text \<open>What a propagating reason forces.\<close>

lemma pb_reason_forces:
  assumes "pb_sat \<sigma> c" "pos_coeffs (pb_lhs c)" "nonzero_lits (pb_lhs c)"
    and ls: "\<forall>l \<in> set ls. lit_true \<sigma> l" "0 \<notin> set ls"
    and e: "(k, x) \<in> set (pb_lhs c)" "- x \<notin> set ls" "msum (\<lambda>l. - l \<notin> set ls) (pb_lhs c) - pb_rhs c < k"
  shows "lit_true \<sigma> x"
proof (rule ccontr)
  assume f: "\<not> lit_true \<sigma> x"
  have "lhs_value \<sigma> (pb_lhs c) \<le> msum (\<lambda>l. - l \<notin> set ls \<and> l \<noteq> x) (pb_lhs c)"
  proof (rule msum_mono [OF assms(2)])
    fix m assume "m \<in> set (pb_lhs c)" "lit_true \<sigma> (snd m)"
    with f ls assms(3) show "- snd m \<notin> set ls \<and> snd m \<noteq> x"
      using lits_of_true_trail [of ls \<sigma> "snd m"] by (auto simp: nonzero_lits_def)
  qed
  also have "\<dots> = msum (\<lambda>l. - l \<notin> set ls) (pb_lhs c) - msum (\<lambda>l. - l \<notin> set ls \<and> \<not> l \<noteq> x) (pb_lhs c)"
    using msum_split [of "\<lambda>l. - l \<notin> set ls" "pb_lhs c" "\<lambda>l. l \<noteq> x"] by simp
  finally have "lhs_value \<sigma> (pb_lhs c) \<le> msum (\<lambda>l. - l \<notin> set ls) (pb_lhs c)
      - msum (\<lambda>l. - l \<notin> set ls \<and> \<not> l \<noteq> x) (pb_lhs c)" .
  moreover have "k \<le> msum (\<lambda>l. - l \<notin> set ls \<and> \<not> l \<noteq> x) (pb_lhs c)"
    using msum_ge_member [OF assms(2) e(1), of "\<lambda>l. - l \<notin> set ls \<and> \<not> l \<noteq> x"] e(2) by simp
  ultimately have "lhs_value \<sigma> (pb_lhs c) < pb_rhs c" using e(3) by linarith
  with assms(1) show False by (simp add: pb_sat_def)
qed

lemma stack_sound:
  assumes "stack_ok s st" "wf_stack (map se_lit st)" "dl_chain 0 st" "db_ok s"
    and "db_sat \<sigma> s" "\<forall>d \<in> set (dec_lits 0 st). lit_true \<sigma> d"
  shows "\<forall>l \<in> set (map se_lit st). lit_true \<sigma> l"
  using assms(1-3,6)
proof (induction st rule: rev_induct)
  case (snoc e st)
  then have ls: "\<forall>l \<in> set (map se_lit st). lit_true \<sigma> l" by (auto simp: wf_stack_def dec_lits_append)
  have w: "0 \<notin> set (map se_lit st)" "se_lit e \<noteq> 0" "\<bar>se_lit e\<bar> \<notin> abs ` set (map se_lit st)"
    using snoc.prems(2) by (auto simp: wf_stack_def image_comp)
  then have fresh: "- se_lit e \<notin> set (map se_lit st)" by (metis abs_minus_cancel image_eqI)
  have e: "elem_ok s st e" using snoc.prems by simp
  have "lit_true \<sigma> (se_lit e)"
  proof (cases "se_reason e")
    case NoReason
    then show ?thesis using e snoc.prems(4) assms(5) by (auto simp: elem_ok_def entails_def)
  next
    case (PBReason n)
    then have n: "n < length (constraintsPB s)" using e by (simp add: elem_ok_def)
    then have "constraintsPB s ! n \<in> set (constraintsPB s)" by simp
    then have "pb_ok (numVars s) (constraintsPB s ! n)" "pb_sat \<sigma> (constraintsPB s ! n)"
      using assms(4,5) by (auto simp: db_ok_def db_sat_def)
    then show ?thesis
      using e PBReason pb_reason_forces [OF _ _ _ ls w(1) _ fresh]
      by (auto simp: elem_ok_def Let_def pb_ok_def)
  next
    case (ClauseReason n)
    then have n: "n < length (clauses s)" using e by (simp add: elem_ok_def)
    then have "clauses s ! n \<in> set (clauses s)" by simp
    then have c: "cl_ok (numVars s) (clauses s ! n)" "clause_sat \<sigma> (cl_lits (clauses s ! n))"
      using assms(4,5) by (auto simp: db_ok_def db_sat_def)
    then obtain x where x: "x \<in> set (cl_lits (clauses s ! n))" "lit_true \<sigma> x" by (auto simp: clause_sat_def)
    then have "x \<noteq> 0" using c by (auto simp: cl_ok_def)
    then have "- x \<notin> set (map se_lit st)" using lits_of_true_trail [OF ls w(1)] x by blast
    then have "x = se_lit e" using e ClauseReason x by (auto simp: elem_ok_def)
    with x show ?thesis by simp
  next
    case (BinReason l)
    then have b: "se_lit e \<in> set (binClauses s l)" "- l \<in> set (map se_lit st)"
      using e by (auto simp: elem_ok_def)
    then have "lit_true \<sigma> (- l)" "l \<noteq> 0" using ls assms(4) by (auto simp: db_ok_def)
    with b(1) assms(5) show ?thesis using lit_true_neg [of l \<sigma>] by (auto simp: db_sat_def)
  qed
  with ls show ?case by simp
qed simp

lemma trail_sound:
  assumes "core_inv s" "db_sat \<sigma> s" "\<forall>d \<in> set (decisions (solver_model s)). lit_true \<sigma> d"
    and "l \<in> set (tlits (solver_model s))"
  shows "lit_true \<sigma> l"
  using stack_sound [of s "modelStack (solver_model s)" \<sigma>] assms
  by (auto simp: solver_inv_def core_inv_def trail_ok_stack wf_model_def tlits_def decisions_def)

lemma false_lits_sum:
  assumes "\<forall>l \<in> ts. lit_true \<sigma> l" "0 \<notin> ts" "pos_coeffs ms" "nonzero_lits ms"
  shows "lhs_value \<sigma> ms \<le> msum (\<lambda>l. - l \<notin> ts) ms"
proof (rule msum_mono [OF assms(3)])
  fix m assume m: "m \<in> set ms" "lit_true \<sigma> (snd m)"
  show "- snd m \<notin> ts"
  proof
    assume "- snd m \<in> ts"
    with assms(1) have "lit_true \<sigma> (- snd m)" by blast
    with m assms(4) show False using lit_true_neg [of "snd m" \<sigma>] by (auto simp: nonzero_lits_def)
  qed
qed

lemma conflict_refutes:
  assumes inv: "core_inv s" and c: "conflict_ok s" "conflict s"
    and \<sigma>: "db_sat \<sigma> s" "\<forall>d \<in> set (decisions (solver_model s)). lit_true \<sigma> d"
  shows False
proof -
  let ?ts = "set (tlits (solver_model s))"
  have ts: "\<forall>l \<in> ?ts. lit_true \<sigma> l" using trail_sound [OF inv \<sigma>] by blast
  have db: "db_ok s" and z: "0 \<notin> ?ts" using inv by (auto simp: solver_inv_def core_inv_def wf_model_zero)
  have neg: "\<not> lit_true \<sigma> l" if "- l \<in> ?ts" for l
  proof -
    have "l \<noteq> 0" using that z by auto
    with that ts show ?thesis using lit_true_neg by blast
  qed
  show False
  proof (cases "typeConflict s")
    case NoConflictYet
    with c show False by (simp add: conflict_ok_def)
  next
    case CONFLICT_CLAUSE
    let ?c = "clauses s ! clauseConflictNum s"
    have "?c \<in> set (clauses s)" "\<forall>l \<in> set (cl_lits ?c). - l \<in> ?ts"
      using c CONFLICT_CLAUSE by (auto simp: conflict_ok_def Let_def)
    with \<sigma>(1) neg show False by (auto simp: db_sat_def clause_sat_def)
  next
    case CONFLICT_PB
    let ?c = "constraintsPB s ! constraintConflictNum s"
    have f: "?c \<in> set (constraintsPB s)" "msum (\<lambda>l. - l \<notin> ?ts) (pb_lhs ?c) < pb_rhs ?c"
      using c CONFLICT_PB by (auto simp: conflict_ok_def Let_def)
    then have "pb_ok (numVars s) ?c" "pb_sat \<sigma> ?c" using \<sigma>(1) db by (auto simp: db_sat_def db_ok_def)
    then show False using false_lits_sum [OF ts z, of "pb_lhs ?c"] f(2)
      by (simp add: pb_sat_def pb_ok_def)
  next
    case CONFLICT_BIN_CLAUSE
    obtain l l' where "binClauseConflict s = (l, l')" by fastforce
    then have b: "l' \<in> set (binClauses s l)" "- l \<in> ?ts" "- l' \<in> ?ts"
      using c CONFLICT_BIN_CLAUSE by (auto simp: conflict_ok_def Let_def)
    then have "\<not> lit_true \<sigma> l" "\<not> lit_true \<sigma> l'" using neg by blast+
    with \<sigma>(1) b(1) show False unfolding db_sat_def by blast
  qed
qed

section \<open>Assigning a literal\<close>

lemma setTrueDueToReason_simps [simp]:
  "numVars (setTrueDueToReason l r s) = numVars s" "conflict (setTrueDueToReason l r s) = conflict s"
  "genWatchList (setTrueDueToReason l r s) = genWatchList s" "watchLists (setTrueDueToReason l r s) = watchLists s"
  "binClauses (setTrueDueToReason l r s) = binClauses s" "occurLists (setTrueDueToReason l r s) = occurLists s"
  "constraintsPB (setTrueDueToReason l r s) = constraintsPB s" "clauses (setTrueDueToReason l r s) = clauses s"
  "sumOfWatches (setTrueDueToReason l r s) = sumOfWatches s" "useCounter (setTrueDueToReason l r s) = useCounter s"
  "solver_model (setTrueDueToReason l r s) = Model_setTrueDueToReason l r (solver_model s)"
  "typeConflict (setTrueDueToReason l r s) = typeConflict s" "solver_stats (setTrueDueToReason l r s) = solver_stats s"
  "constraintConflictNum (setTrueDueToReason l r s) = constraintConflictNum s"
  "clauseConflictNum (setTrueDueToReason l r s) = clauseConflictNum s"
  "binClauseConflict (setTrueDueToReason l r s) = binClauseConflict s"
  by (simp_all add: setTrueDueToReason_def)

lemma setTrueDueToDecision_simps [simp]:
  "numVars (setTrueDueToDecision l s) = numVars s" "conflict (setTrueDueToDecision l s) = conflict s"
  "genWatchList (setTrueDueToDecision l s) = genWatchList s" "watchLists (setTrueDueToDecision l s) = watchLists s"
  "binClauses (setTrueDueToDecision l s) = binClauses s" "occurLists (setTrueDueToDecision l s) = occurLists s"
  "constraintsPB (setTrueDueToDecision l s) = constraintsPB s" "clauses (setTrueDueToDecision l s) = clauses s"
  "sumOfWatches (setTrueDueToDecision l s) = sumOfWatches s" "useCounter (setTrueDueToDecision l s) = useCounter s"
  "solver_model (setTrueDueToDecision l s) = Model_setTrueDueToDecision l (solver_model s)"
  by (simp_all add: setTrueDueToDecision_def)

lemma modelStack_setTrue [simp]:
  "modelStack (Model_setTrueDueToReason l r m) = modelStack m @ [\<lparr>se_lit = l, se_dl = decisionLevel m, se_reason = r\<rparr>]"
  "modelStack (Model_setTrueDueToDecision l m) = modelStack m @ [\<lparr>se_lit = l, se_dl = decisionLevel m + 1, se_reason = NoReason\<rparr>]"
  "lastPropagated (Model_setTrueDueToReason l r m) = lastPropagated m"
  "lastPropagated (Model_setTrueDueToDecision l m) = lastPropagated m"
  by (simp_all add: Model_setTrueDueToReason_def Model_setTrueDueToDecision_def push_lit_def)

text \<open>The parts of the invariant that only look at the database are the same for equal databases.\<close>

lemma same_fields_db_ok:
  "numVars s' = numVars s \<Longrightarrow> constraintsPB s' = constraintsPB s \<Longrightarrow> clauses s' = clauses s \<Longrightarrow>
   binClauses s' = binClauses s \<Longrightarrow> sumOfWatches s' = sumOfWatches s \<Longrightarrow> useCounter s' = useCounter s \<Longrightarrow>
   db_ok s' = db_ok s"
  by (simp add: db_ok_def)

lemma same_fields_lists_ok:
  "constraintsPB s' = constraintsPB s \<Longrightarrow> genWatchList s' = genWatchList s \<Longrightarrow> occurLists s' = occurLists s \<Longrightarrow>
   binClauses s' = binClauses s \<Longrightarrow> lists_ok s' = lists_ok s"
  by (simp add: lists_ok_def cong: gwl_elem.case_cong)

lemma same_fields_watches_ok:
  "watchLists s' = watchLists s \<Longrightarrow> clauses s' = clauses s \<Longrightarrow> watches_ok s' = watches_ok s"
  by (simp add: watches_ok_def)

lemma same_fields_same_db:
  "numVars s' = numVars s \<Longrightarrow> constraintsPB s' = constraintsPB s \<Longrightarrow> clauses s' = clauses s \<Longrightarrow>
   binClauses s' = binClauses s \<Longrightarrow> same_db s s'"
  by (simp add: same_db_def)

lemma push_reason_core:
  assumes inv: "core_inv s" and l: "l \<noteq> 0" "\<bar>l\<bar> \<le> numVars s" "isUndefLit (solver_model s) l"
    and e: "elem_ok s (modelStack (solver_model s)) \<lparr>se_lit = l, se_dl = decisionLevel (solver_model s), se_reason = r\<rparr>"
  shows "core_inv (setTrueDueToReason l r s)"
proof -
  let ?s = "setTrueDueToReason l r s"
  have d: "same_db s ?s" by (rule same_fields_same_db) simp_all
  have w: "wf_model (solver_model s)" using inv by (simp add: core_inv_def)
  have "wf_model (solver_model ?s)" using wf_setTrueDueToReason [OF w l(1,3)] by simp
  moreover have "db_ok ?s" "lists_ok ?s" "watches_ok ?s"
    using inv same_fields_db_ok [of ?s s] same_fields_lists_ok [of ?s s] same_fields_watches_ok [of ?s s]
    by (simp_all add: core_inv_def)
  moreover have "trail_ok ?s"
    using inv e same_db_stack_ok [OF d] same_db_elem_ok [OF d]
    by (simp add: core_inv_def trail_ok_stack)
  moreover have "trail_range ?s" using inv l(2) by (auto simp: core_inv_def trail_range_def)
  ultimately show ?thesis by (simp add: core_inv_def)
qed

lemma push_reason_inv:
  assumes inv: "solver_inv s" and l: "l \<noteq> 0" "\<bar>l\<bar> \<le> numVars s" "isUndefLit (solver_model s) l"
    and e: "elem_ok s (modelStack (solver_model s)) \<lparr>se_lit = l, se_dl = decisionLevel (solver_model s), se_reason = r\<rparr>"
  shows "solver_inv (setTrueDueToReason l r s)"
  using push_reason_core [of s, OF _ l e] inv
  by (simp add: solver_inv_def core_inv_def counters_ok_def plits_setTrue)

lemma push_decision_inv:
  assumes inv: "solver_inv s" and l: "l \<noteq> 0" "\<bar>l\<bar> \<le> numVars s" "isUndefLit (solver_model s) l"
  shows "solver_inv (setTrueDueToDecision l s)"
proof -
  let ?s = "setTrueDueToDecision l s"
  let ?m = "solver_model s"
  let ?e = "\<lparr>se_lit = l, se_dl = decisionLevel ?m + 1, se_reason = NoReason\<rparr>"
  have d: "same_db s ?s" by (rule same_fields_same_db) simp_all
  have w: "wf_model ?m" using inv by (simp add: solver_inv_def core_inv_def)
  have "dl_chain 0 (modelStack ?m)" "end_dl 0 (modelStack ?m) = decisionLevel ?m"
    using w by (auto simp: wf_model_def)
  then have "l \<in> set (dec_lits 0 (modelStack ?m @ [?e]))" by (simp add: dec_lits_append)
  then have "elem_ok s (modelStack ?m) ?e" by (auto simp: elem_ok_def entails_def)
  then have "trail_ok ?s"
    using inv same_db_stack_ok [OF d] same_db_elem_ok [OF d] by (simp add: solver_inv_def core_inv_def trail_ok_stack)
  moreover have "wf_model (solver_model ?s)" using wf_setTrueDueToDecision [OF w l(1,3)] by simp
  moreover have "db_ok ?s" "lists_ok ?s" "watches_ok ?s"
    using inv same_fields_db_ok [of ?s s] same_fields_lists_ok [of ?s s] same_fields_watches_ok [of ?s s]
    by (simp_all add: solver_inv_def core_inv_def)
  moreover have "counters_ok ?s" using inv by (simp add: solver_inv_def core_inv_def counters_ok_def plits_setTrue [OF w])
  moreover have "trail_range ?s" using inv l(2) by (auto simp: solver_inv_def core_inv_def trail_range_def)
  ultimately show ?thesis by (simp add: solver_inv_def core_inv_def)
qed

section \<open>Undoing the trail\<close>

lemma length_add_occurrences [simp]: "length (add_occurrences es sums) = length sums"
  by (induction es sums rule: add_occurrences.induct) auto

lemma add_occurrences_nth:
  "\<forall>e \<in> set es. fst e < length sums \<Longrightarrow> c < length sums \<Longrightarrow>
   add_occurrences es sums ! c = sums ! c + occ_sum c es"
  by (induction es sums rule: add_occurrences.induct) (auto simp: nth_list_update)

lemma counter_value_snoc:
  assumes "\<bar>l\<bar> \<notin> abs ` set ps" "l \<noteq> 0"
  shows "counter_value ps c = counter_value (ps @ [l]) c + msum (\<lambda>x. x = - l) (pb_lhs c)"
proof -
  have "msum (\<lambda>x. - x \<notin> set ps) ms =
      msum (\<lambda>x. - x \<notin> set (ps @ [l])) ms + msum (\<lambda>x. x = - l) ms" for ms
  proof -
    have 1: "- x \<notin> set (ps @ [l]) \<longleftrightarrow> - x \<notin> set ps \<and> x \<noteq> - l" for x
      by auto
    have 2: "x = - l \<longleftrightarrow> - x \<notin> set ps \<and> \<not> x \<noteq> - l" for x
    proof -
      have "- (- l) \<notin> set ps" using assms(1) by force
      then show ?thesis by auto
    qed
    show ?thesis
      unfolding 1 by (subst (2) 2) (rule msum_split)
  qed
  then show ?thesis by (simp add: counter_value_def)
qed

lemma popAndUnassign_simps [simp]:
  "numVars (snd (popAndUnassign s)) = numVars s" "conflict (snd (popAndUnassign s)) = conflict s"
  "genWatchList (snd (popAndUnassign s)) = genWatchList s" "watchLists (snd (popAndUnassign s)) = watchLists s"
  "binClauses (snd (popAndUnassign s)) = binClauses s" "occurLists (snd (popAndUnassign s)) = occurLists s"
  "constraintsPB (snd (popAndUnassign s)) = constraintsPB s" "clauses (snd (popAndUnassign s)) = clauses s"
  "useCounter (snd (popAndUnassign s)) = useCounter s" "solver_stats (snd (popAndUnassign s)) = solver_stats s"
  "solver_model (snd (popAndUnassign s)) = snd (Model_popAndUnassign (solver_model s))"
  "length (sumOfWatches (snd (popAndUnassign s))) = length (sumOfWatches s)"
  by (simp_all add: popAndUnassign_def Let_def)

lemma popAndUnassign_sums:
  "sumOfWatches (snd (popAndUnassign s)) =
     (if isLitPropagated (solver_model s) (getLitAtTop (solver_model s))
      then add_occurrences (occurLists s (- getLitAtTop (solver_model s))) (sumOfWatches s) else sumOfWatches s)"
  by (simp add: popAndUnassign_def Let_def)

lemma isLitPropagated_top:
  assumes "wf_model m" "modelStack m \<noteq> []"
  shows "isLitPropagated m (getLitAtTop m) \<longleftrightarrow> lastPropagated m = int (length (modelStack m)) - 1"
proof -
  have i: "length (modelStack m) - 1 < length (modelStack m)" using assms(2) by simp
  have "getLitAtTop m = se_lit (modelStack m ! (length (modelStack m) - 1))"
    using assms(2) by (simp add: getLitAtTop_def last_conv_nth)
  then have "getHeightOfVar m \<bar>getLitAtTop m\<bar> = int (length (modelStack m) - 1)"
    using wf_model_height [OF assms(1) i] by (simp add: getHeightOfVar_def)
  moreover have "lastPropagated m < int (length (modelStack m))" using assms(1) by (simp add: wf_model_def)
  moreover have "int (length (modelStack m) - 1) = int (length (modelStack m)) - 1"
    using i by simp
  ultimately show ?thesis by (auto simp: isLitPropagated_def)
qed

lemma popAndUnassign_inv:
  assumes inv: "solver_inv s" and ne: "modelStack (solver_model s) \<noteq> []"
  defines "s' \<equiv> snd (popAndUnassign s)"
  shows "solver_inv s'" "modelStack (solver_model s') = butlast (modelStack (solver_model s))"
    "slacks_nonneg s \<Longrightarrow> slacks_nonneg s'" "same_db s s'"
proof -
  let ?m = "solver_model s" and ?l = "getLitAtTop (solver_model s)"
  have w: "wf_model ?m" and db: "db_ok s" and li: "lists_ok s" and co: "counters_ok s"
    using inv by (auto simp: solver_inv_def core_inv_def)
  note p = Model_popAndUnassign_facts [OF w ne]
  show st: "modelStack (solver_model s') = butlast (modelStack ?m)" by (simp add: s'_def p)
  show d: "same_db s s'" unfolding s'_def by (rule same_fields_same_db) simp_all
  have "db_ok s'" using db by (simp add: db_ok_def s'_def)
  moreover have "lists_ok s'" using li same_fields_lists_ok [of s' s] by (simp add: s'_def)
  moreover have "watches_ok s'" using inv same_fields_watches_ok [of s' s] by (simp add: s'_def solver_inv_def core_inv_def)
  moreover have sums: "sumOfWatches s' ! c = counter_value (plits (solver_model s')) (constraintsPB s' ! c)"
      "sumOfWatches s ! c \<le> sumOfWatches s' ! c"
    if c: "c < length (constraintsPB s)" for c
  proof -
    have cs: "sumOfWatches s ! c = counter_value (plits ?m) (constraintsPB s ! c)"
      using co c by (simp add: counters_ok_def)
    have "constraintsPB s ! c \<in> set (constraintsPB s)" using c by simp
    then have pos: "pos_coeffs (pb_lhs (constraintsPB s ! c))" using db by (auto simp: db_ok_def pb_ok_def)
    show "sumOfWatches s' ! c = counter_value (plits (solver_model s')) (constraintsPB s' ! c)"
      "sumOfWatches s ! c \<le> sumOfWatches s' ! c"
    proof (atomize (full), cases "lastPropagated ?m = int (length (modelStack ?m)) - 1")
      case True
      then have all: "plits ?m = tlits ?m" by (simp add: plits_def)
      have tne: "tlits ?m \<noteq> []" using ne by (simp add: tlits_def)
      have tl: "?l = last (tlits ?m)" using ne by (simp add: getLitAtTop_def tlits_def last_map)
      let ?ps = "butlast (tlits ?m)"
      have snoc: "tlits ?m = ?ps @ [?l]" using tne tl by simp
      have "wf_stack (?ps @ [?l])" using w by (simp add: wf_model_def flip: snoc)
      then have fresh: "\<bar>?l\<bar> \<notin> abs ` set ?ps" "?l \<noteq> 0" by (auto simp: wf_stack_snoc)
      have "sumOfWatches s' ! c = sumOfWatches s ! c + occ_sum c (occurLists s (- ?l))"
        using True isLitPropagated_top [OF w ne] li c db
        by (simp add: s'_def popAndUnassign_sums add_occurrences_nth lists_ok_def db_ok_def)
      also have "occ_sum c (occurLists s (- ?l)) = msum (\<lambda>x. x = - ?l) (pb_lhs (constraintsPB s ! c))"
        using li c by (simp add: lists_ok_def)
      finally have v: "sumOfWatches s' ! c = sumOfWatches s ! c + msum (\<lambda>x. x = - ?l) (pb_lhs (constraintsPB s ! c))" .
      moreover have "plits (solver_model s') = ?ps"
        using plits_pop [OF w ne] True all by (simp add: s'_def)
      moreover have "counter_value ?ps (constraintsPB s ! c) = counter_value (tlits ?m) (constraintsPB s ! c)
          + msum (\<lambda>x. x = - ?l) (pb_lhs (constraintsPB s ! c))"
        using counter_value_snoc [OF fresh] snoc by simp
      moreover have "0 \<le> msum (\<lambda>x. x = - ?l) (pb_lhs (constraintsPB s ! c))"
        by (rule msum_nonneg [OF pos])
      ultimately show "sumOfWatches s' ! c = counter_value (plits (solver_model s')) (constraintsPB s' ! c)
          \<and> sumOfWatches s ! c \<le> sumOfWatches s' ! c"
        using cs all by (simp add: s'_def)
    next
      case False
      then have "sumOfWatches s' = sumOfWatches s"
        using isLitPropagated_top [OF w ne] by (simp add: s'_def popAndUnassign_sums)
      moreover have "plits (solver_model s') = plits ?m" using plits_pop [OF w ne] False by (simp add: s'_def)
      ultimately show "sumOfWatches s' ! c = counter_value (plits (solver_model s')) (constraintsPB s' ! c)
          \<and> sumOfWatches s ! c \<le> sumOfWatches s' ! c"
        using cs by (simp add: s'_def)
    qed
  qed
  moreover have "counters_ok s'" using sums(1) by (simp add: counters_ok_def s'_def)
  moreover have "trail_ok s'"
  proof -
    have "modelStack ?m = butlast (modelStack ?m) @ [last (modelStack ?m)]" using ne by simp
    moreover have "stack_ok s (modelStack ?m)" using inv by (simp add: solver_inv_def core_inv_def trail_ok_stack)
    ultimately have "stack_ok s (butlast (modelStack ?m))" by (metis stack_ok_prefix)
    then show ?thesis using same_db_stack_ok [OF d] st by (simp add: trail_ok_stack)
  qed
  moreover have "trail_range s'"
    using inv p(2) by (auto simp: trail_range_def solver_inv_def core_inv_def s'_def dest: in_set_butlastD)
  moreover have "wf_model (solver_model s')" using p(1) by (simp add: s'_def)
  ultimately show "solver_inv s'" by (simp add: solver_inv_def core_inv_def)
  show "slacks_nonneg s'" if "slacks_nonneg s"
    using that sums(2) by (force simp: slacks_nonneg_def s'_def)
qed

text \<open>Backjumping keeps the part of the trail up to the level, and the invariant.\<close>

definition stack_upto :: "int \<Rightarrow> stack_element list \<Rightarrow> stack_element list" where
  "stack_upto dl st = takeWhile (\<lambda>e. se_dl e \<le> dl) st"

lemma stack_upto_low: "dl_chain d st \<Longrightarrow> end_dl d st \<le> dl \<Longrightarrow> stack_upto dl st = st"
  unfolding stack_upto_def takeWhile_eq_all_conv using dl_chain_member by force

lemma stack_upto_snoc: "dl < se_dl e \<Longrightarrow> stack_upto dl (st @ [e]) = stack_upto dl st"
  by (induction st) (auto simp: stack_upto_def)

lemma pop_to_dl_facts:
  assumes "solver_inv s" "0 \<le> dl"
  shows "solver_inv (pop_to_dl dl s) \<and> same_db s (pop_to_dl dl s)
    \<and> (slacks_nonneg s \<longrightarrow> slacks_nonneg (pop_to_dl dl s))
    \<and> modelStack (solver_model (pop_to_dl dl s)) = stack_upto dl (modelStack (solver_model s))
    \<and> conflict (pop_to_dl dl s) = conflict s"
  using assms
proof (induction dl s rule: pop_to_dl.induct)
  case (1 dl s)
  let ?m = "solver_model s" and ?s = "snd (popAndUnassign s)"
  have w: "wf_model ?m" using "1.prems" by (auto simp: solver_inv_def core_inv_def)
  show ?case
  proof (cases "currentDecisionLevel ?m > dl \<and> modelStack ?m \<noteq> []")
    case True
    then have ne: "modelStack ?m \<noteq> []" by simp
    note p = popAndUnassign_inv [OF "1.prems"(1) ne]
    have "dl < se_dl (last (modelStack ?m))" using True by (auto simp: currentDecisionLevel_def)
    then have "stack_upto dl (modelStack ?m) = stack_upto dl (butlast (modelStack ?m))"
      using ne stack_upto_snoc by (metis append_butlast_last_id)
    note up = this
    have eq: "pop_to_dl dl s = pop_to_dl dl ?s" using True by (subst pop_to_dl.simps) simp
    note IH = "1.IH" [OF True p(1) "1.prems"(2)]
    have "same_db s (pop_to_dl dl ?s)" by (rule same_db_trans [OF p(4) IH [THEN conjunct2, THEN conjunct1]])
    moreover have "modelStack (solver_model (pop_to_dl dl ?s)) = stack_upto dl (modelStack ?m)"
      using IH p(2) up by simp
    moreover have "conflict (pop_to_dl dl ?s) = conflict s" using IH by simp
    ultimately show ?thesis unfolding eq using IH p(3) by (intro conjI impI) (simp_all only: simp_thms)
  next
    case False
    have "currentDecisionLevel ?m = end_dl 0 (modelStack ?m)"
      by (simp add: currentDecisionLevel_def end_dl_def)
    moreover have "end_dl 0 (modelStack ?m) = 0" if "modelStack ?m = []" using that by simp
    ultimately have "end_dl 0 (modelStack ?m) \<le> dl" using False "1.prems"(2) by linarith
    then have "stack_upto dl (modelStack ?m) = modelStack ?m"
      using w stack_upto_low [of 0 "modelStack ?m" dl] by (simp add: wf_model_def)
    moreover have "pop_to_dl dl s = s" using False by (subst pop_to_dl.simps) auto
    ultimately show ?thesis using "1.prems" by simp
  qed
qed

lemmas pop_to_dl_inv = pop_to_dl_facts [THEN conjunct1] pop_to_dl_facts [THEN conjunct2, THEN conjunct1]
  pop_to_dl_facts [THEN conjunct2, THEN conjunct2, THEN conjunct1, rule_format]
  pop_to_dl_facts [THEN conjunct2, THEN conjunct2, THEN conjunct2, THEN conjunct1]
  pop_to_dl_facts [THEN conjunct2, THEN conjunct2, THEN conjunct2, THEN conjunct2]

lemma stats_update_inv [simp]:
  "solver_inv (s\<lparr>solver_stats := x\<rparr>) = solver_inv s" "slacks_nonneg (s\<lparr>solver_stats := x\<rparr>) = slacks_nonneg s"
  "same_db s' (s\<lparr>solver_stats := x\<rparr>) = same_db s' s" "same_db (s\<lparr>solver_stats := x\<rparr>) s' = same_db s s'"
  "conflict_ok (s\<lparr>solver_stats := x\<rparr>) = conflict_ok s"
proof -
  have 1: "same_db s (s\<lparr>solver_stats := x\<rparr>)" by (simp add: same_db_def)
  have "lists_ok (s\<lparr>solver_stats := x\<rparr>) = lists_ok s" by (rule same_fields_lists_ok) simp_all
  then show "solver_inv (s\<lparr>solver_stats := x\<rparr>) = solver_inv s"
    using same_db_stack_ok [OF 1]
    by (simp add: solver_inv_def core_inv_def db_ok_def watches_ok_def counters_ok_def trail_range_def trail_ok_stack)
  show "slacks_nonneg (s\<lparr>solver_stats := x\<rparr>) = slacks_nonneg s" by (simp add: slacks_nonneg_def)
  show "same_db s' (s\<lparr>solver_stats := x\<rparr>) = same_db s' s" "same_db (s\<lparr>solver_stats := x\<rparr>) s' = same_db s s'"
    by (simp_all add: same_db_def)
  show "conflict_ok (s\<lparr>solver_stats := x\<rparr>) = conflict_ok s"
    by (simp add: conflict_ok_def cong: conflict_type.case_cong)
qed

lemma backjumpToDL_inv:
  assumes "solver_inv s" "0 \<le> dl"
  shows "solver_inv (backjumpToDL dl s)" "same_db s (backjumpToDL dl s)"
    "slacks_nonneg s \<Longrightarrow> slacks_nonneg (backjumpToDL dl s)"
    "modelStack (solver_model (backjumpToDL dl s)) = stack_upto dl (modelStack (solver_model s))"
    "conflict (backjumpToDL dl s) = conflict s"
  unfolding backjumpToDL_def
  using pop_to_dl_inv [of "s\<lparr>solver_stats := (solver_stats s)\<lparr>numOfBackjump := numOfBackjump (solver_stats s) + 1\<rparr>\<rparr>" dl] assms
  by simp_all

section \<open>Growing the database\<close>

lemma push_simps [simp]:
  "numVars (push_gen l e s) = numVars s" "conflict (push_gen l e s) = conflict s"
  "genWatchList (push_gen l e s) = (genWatchList s)(l := genWatchList s l @ [e])"
  "watchLists (push_gen l e s) = watchLists s" "binClauses (push_gen l e s) = binClauses s"
  "occurLists (push_gen l e s) = occurLists s" "constraintsPB (push_gen l e s) = constraintsPB s"
  "clauses (push_gen l e s) = clauses s" "useCounter (push_gen l e s) = useCounter s"
  "sumOfWatches (push_gen l e s) = sumOfWatches s" "solver_stats (push_gen l e s) = solver_stats s"
  "solver_model (push_gen l e s) = solver_model s"
  "numVars (push_watch l w s) = numVars s" "conflict (push_watch l w s) = conflict s"
  "genWatchList (push_watch l w s) = genWatchList s"
  "watchLists (push_watch l w s) = (watchLists s)(l := watchLists s l @ [w])" "binClauses (push_watch l w s) = binClauses s"
  "occurLists (push_watch l w s) = occurLists s" "constraintsPB (push_watch l w s) = constraintsPB s"
  "clauses (push_watch l w s) = clauses s" "useCounter (push_watch l w s) = useCounter s"
  "sumOfWatches (push_watch l w s) = sumOfWatches s" "solver_stats (push_watch l w s) = solver_stats s"
  "solver_model (push_watch l w s) = solver_model s"
  "numVars (push_bin l x s) = numVars s" "conflict (push_bin l x s) = conflict s"
  "genWatchList (push_bin l x s) = genWatchList s" "watchLists (push_bin l x s) = watchLists s"
  "binClauses (push_bin l x s) = (binClauses s)(l := binClauses s l @ [x])"
  "occurLists (push_bin l x s) = occurLists s" "constraintsPB (push_bin l x s) = constraintsPB s"
  "clauses (push_bin l x s) = clauses s" "useCounter (push_bin l x s) = useCounter s"
  "sumOfWatches (push_bin l x s) = sumOfWatches s" "solver_stats (push_bin l x s) = solver_stats s"
  "solver_model (push_bin l x s) = solver_model s"
  "numVars (push_occ l y s) = numVars s" "conflict (push_occ l y s) = conflict s"
  "genWatchList (push_occ l y s) = genWatchList s" "watchLists (push_occ l y s) = watchLists s"
  "occurLists (push_occ l y s) = (occurLists s)(l := occurLists s l @ [y])"
  "binClauses (push_occ l y s) = binClauses s" "constraintsPB (push_occ l y s) = constraintsPB s"
  "clauses (push_occ l y s) = clauses s" "useCounter (push_occ l y s) = useCounter s"
  "sumOfWatches (push_occ l y s) = sumOfWatches s" "solver_stats (push_occ l y s) = solver_stats s"
  "solver_model (push_occ l y s) = solver_model s"
  by (simp_all add: push_gen_def push_watch_def push_bin_def push_occ_def)

lemma gen_sum_append [simp]: "gen_sum c (xs @ ys) = gen_sum c xs + gen_sum c ys"
proof (induction xs)
  case (Cons x xs) then show ?case by (cases x) auto
qed simp

lemma occ_sum_append [simp]: "occ_sum c (xs @ ys) = occ_sum c xs + occ_sum c ys"
  by (induction xs rule: occ_sum.induct) auto

lemma addBinaryClause_simps [simp]:
  "numVars (addBinaryClause a b s) = numVars s" "conflict (addBinaryClause a b s) = conflict s"
  "constraintsPB (addBinaryClause a b s) = constraintsPB s" "clauses (addBinaryClause a b s) = clauses s"
  "solver_model (addBinaryClause a b s) = solver_model s" "sumOfWatches (addBinaryClause a b s) = sumOfWatches s"
  "watchLists (addBinaryClause a b s) = watchLists s" "occurLists (addBinaryClause a b s) = occurLists s"
  "useCounter (addBinaryClause a b s) = useCounter s"
  by (simp_all add: addBinaryClause_def)

lemma addBinaryClause_lists:
  "set (binClauses (addBinaryClause a b s) l) =
     set (binClauses s l) \<union> (if l = a then {b} else {}) \<union> (if l = b then {a} else {})"
  "set (genWatchList (addBinaryClause a b s) l) =
     set (genWatchList s l) \<union> (if l = a then {BINCLAUSE b} else {}) \<union> (if l = b then {BINCLAUSE a} else {})"
  "gen_sum c (genWatchList (addBinaryClause a b s) l) = gen_sum c (genWatchList s l)"
  by (auto simp: addBinaryClause_def)

lemma db_grows_inv:
  assumes "db_grows s s'" "solver_inv s" "solver_model s' = solver_model s" "numVars s' = numVars s"
    and "db_ok s'" "lists_ok s'" "watches_ok s'" "counters_ok s'"
  shows "solver_inv s'"
  using assms db_grows_stack_ok [OF assms(1)]
  by (simp add: solver_inv_def core_inv_def trail_ok_stack trail_range_def)

lemma addBinaryClause_inv:
  assumes inv: "solver_inv s" and a: "a \<noteq> 0" "\<bar>a\<bar> \<le> numVars s" and b: "b \<noteq> 0" "\<bar>b\<bar> \<le> numVars s"
  shows "solver_inv (addBinaryClause a b s)"
    and "db_sat \<sigma> (addBinaryClause a b s) \<longleftrightarrow> db_sat \<sigma> s \<and> (lit_true \<sigma> a \<or> lit_true \<sigma> b)"
    and "slacks_nonneg (addBinaryClause a b s) = slacks_nonneg s"
proof -
  let ?s = "addBinaryClause a b s"
  have "db_grows s ?s" by (auto simp: db_grows_def addBinaryClause_lists)
  moreover have "db_ok ?s" using inv a b by (auto simp: db_ok_def solver_inv_def core_inv_def addBinaryClause_lists)
  moreover have "lists_ok ?s"
  proof -
    have li: "lists_ok s" using inv by (simp add: solver_inv_def core_inv_def)
    have 1: "case e of BINCLAUSE l' \<Rightarrow> l' \<in> set (binClauses ?s l) | COUNTERPB k c \<Rightarrow> c < length (constraintsPB ?s) \<and> 0 < k | _ \<Rightarrow> True"
      if "e \<in> set (genWatchList ?s l)" for e l
      using that li unfolding lists_ok_def
      by (fastforce simp: addBinaryClause_lists split: gwl_elem.splits if_splits)
    have 2: "BINCLAUSE l' \<in> set (genWatchList ?s l)" if "l' \<in> set (binClauses ?s l)" for l l'
      using that li unfolding lists_ok_def by (auto simp: addBinaryClause_lists split: if_splits)
    show ?thesis using li 1 2 unfolding lists_ok_def
      by (simp add: addBinaryClause_lists(3))
  qed
  moreover have "watches_ok ?s" "counters_ok ?s"
    using inv by (auto simp: solver_inv_def core_inv_def watches_ok_def counters_ok_def)
  ultimately show "solver_inv ?s" by (intro db_grows_inv [OF _ inv]) simp_all
  show "db_sat \<sigma> ?s \<longleftrightarrow> db_sat \<sigma> s \<and> (lit_true \<sigma> a \<or> lit_true \<sigma> b)"
    by (auto simp: db_sat_def addBinaryClause_lists)
  show "slacks_nonneg ?s = slacks_nonneg s" by (simp add: slacks_nonneg_def)
qed

lemma addClause_simps:
  "numVars (addClause c s) = numVars s" "conflict (addClause c s) = conflict s"
  "constraintsPB (addClause c s) = constraintsPB s" "clauses (addClause c s) = clauses s @ [c]"
  "solver_model (addClause c s) = solver_model s" "sumOfWatches (addClause c s) = sumOfWatches s"
  "occurLists (addClause c s) = occurLists s" "useCounter (addClause c s) = useCounter s"
  "binClauses (addClause c s) = binClauses s"
  "watchLists (addClause c s) l = watchLists s l
     @ (if l = cl_lits c ! 0 then [(length (clauses s), cl_lits c ! (length (cl_lits c) - 1))] else [])
     @ (if l = cl_lits c ! 1 then [(length (clauses s), cl_lits c ! (length (cl_lits c) - 1))] else [])"
  "genWatchList (addClause c s) l = genWatchList s l
     @ (if l = cl_lits c ! 0 then [CLAUSE (cl_lits c ! (length (cl_lits c) - 1)) (length (clauses s))] else [])
     @ (if l = cl_lits c ! 1 then [CLAUSE (cl_lits c ! (length (cl_lits c) - 1)) (length (clauses s))] else [])"
  by (simp_all add: addClause_def Let_def)

lemma addClause_inv:
  assumes inv: "solver_inv s" and c: "cl_ok (numVars s) c"
  shows "solver_inv (addClause c s)"
    and "db_sat \<sigma> (addClause c s) \<longleftrightarrow> db_sat \<sigma> s \<and> clause_sat \<sigma> (cl_lits c)"
    and "slacks_nonneg (addClause c s) = slacks_nonneg s"
proof -
  let ?s = "addClause c s"
  have "db_grows s ?s" by (auto simp: db_grows_def addClause_simps)
  moreover have "db_ok ?s" using inv c by (auto simp: db_ok_def solver_inv_def core_inv_def addClause_simps)
  moreover have "lists_ok ?s"
    using inv unfolding solver_inv_def core_inv_def lists_ok_def by (auto simp: addClause_simps split: gwl_elem.splits)
  moreover have "watches_ok ?s"
  proof -
    have w: "watches_ok s" using inv by (simp add: solver_inv_def core_inv_def)
    have "distinct (cl_lits c)" "0 < length (cl_lits c)" "1 < length (cl_lits c)"
      using c by (auto simp: cl_ok_def)
    then have "cl_lits c ! 0 \<noteq> cl_lits c ! 1" using nth_eq_iff_index_eq by fastforce
    moreover have "length (clauses s) \<notin> fst ` set (watchLists s l)" for l
      using w unfolding watches_ok_def by force
    ultimately have "distinct (map fst (watchLists ?s l))" for l
      using w by (auto simp: watches_ok_def addClause_simps)
    moreover have "n < length (clauses ?s) \<and> (cl_lits (clauses ?s ! n) ! 0 = l \<or> cl_lits (clauses ?s ! n) ! 1 = l)"
      if "(n, x) \<in> set (watchLists ?s l)" for l n x
    proof (cases "(n, x) \<in> set (watchLists s l)")
      case True
      then have "n < length (clauses s)" "cl_lits (clauses s ! n) ! 0 = l \<or> cl_lits (clauses s ! n) ! 1 = l"
        using w unfolding watches_ok_def by blast+
      then show ?thesis by (simp add: addClause_simps nth_append)
    next
      case False
      then show ?thesis using that by (auto simp: addClause_simps split: if_splits)
    qed
    ultimately show ?thesis unfolding watches_ok_def by blast
  qed
  moreover have "counters_ok ?s" using inv by (simp add: solver_inv_def core_inv_def counters_ok_def addClause_simps)
  ultimately show "solver_inv ?s" by (intro db_grows_inv [OF _ inv]) (simp_all add: addClause_simps)
  show "db_sat \<sigma> ?s \<longleftrightarrow> db_sat \<sigma> s \<and> clause_sat \<sigma> (cl_lits c)"
    by (auto simp: db_sat_def addClause_simps)
  show "slacks_nonneg ?s = slacks_nonneg s" by (simp add: slacks_nonneg_def addClause_simps)
qed

text \<open>What the loop of \<open>addPBConstraintCounter\<close> appends to each list.\<close>

lemma add_counter_loop_simps:
  assumes "add_counter_loop cid ms slk s = (slk', s')"
  shows "numVars s' = numVars s" "conflict s' = conflict s" "constraintsPB s' = constraintsPB s"
    "clauses s' = clauses s" "solver_model s' = solver_model s" "sumOfWatches s' = sumOfWatches s"
    "useCounter s' = useCounter s" "binClauses s' = binClauses s" "watchLists s' = watchLists s"
    "solver_stats s' = solver_stats s"
    "slk' = slk + msum (\<lambda>l. \<not> isFalseLit (solver_model s) l \<or> \<not> isLitPropagated (solver_model s) l) ms"
    "genWatchList s' l = genWatchList s l @ map (\<lambda>m. COUNTERPB (fst m) cid) (filter (\<lambda>m. snd m = l) ms)"
    "occurLists s' l = occurLists s l @ map (\<lambda>m. (cid, fst m)) (filter (\<lambda>m. snd m = l) ms)"
  using assms by (induction cid ms slk s rule: add_counter_loop.induct) (auto simp: Let_def)

lemma gen_sum_new: "gen_sum c (map (\<lambda>m. COUNTERPB (fst m) d) (filter (\<lambda>m. snd m = l) ms)) =
    (if c = d then msum (\<lambda>x. x = l) ms else 0)"
  by (induction ms) auto

lemma occ_sum_new: "occ_sum c (map (\<lambda>m. (d, fst m)) (filter (\<lambda>m. snd m = l) ms)) =
    (if c = d then msum (\<lambda>x. x = l) ms else 0)"
  by (induction ms) auto

lemma gen_sum_absent: "(\<And>k. COUNTERPB k c \<notin> set es) \<Longrightarrow> gen_sum c es = 0"
proof (induction es)
  case (Cons e es)
  then have "gen_sum c es = 0" by (meson list.set_intros(2))
  moreover have "\<And>k. e \<noteq> COUNTERPB k c" using Cons.prems by force
  ultimately show ?case by (cases e) auto
qed simp

lemma occ_sum_absent: "(\<And>k. (c, k) \<notin> set es) \<Longrightarrow> occ_sum c es = 0"
  by (induction c es rule: occ_sum.induct) auto

lemma false_propagated:
  assumes "wf_model m"
  shows "isFalseLit m l \<and> isLitPropagated m l \<longleftrightarrow> - l \<in> set (plits m)"
proof
  assume a: "isFalseLit m l \<and> isLitPropagated m l"
  then have "- l \<in> set (tlits m)" using wf_false [OF assms] by simp
  then obtain i where i: "i < length (tlits m)" "tlits m ! i = - l" by (meson in_set_conv_nth)
  then have "stackHeightOfVar m \<bar>l\<bar> = int i"
    using wf_model_height [OF assms, of i] by (simp add: tlits_def)
  then have "int i \<le> lastPropagated m" using a by (simp add: isLitPropagated_def getHeightOfVar_def)
  then have "i < nat (lastPropagated m + 1)" by linarith
  with i show "- l \<in> set (plits m)" unfolding plits_def by (metis in_set_conv_nth length_take min_less_iff_conj nth_take)
next
  assume "- l \<in> set (plits m)"
  then obtain i where i: "i < length (tlits m)" "i < nat (lastPropagated m + 1)" "tlits m ! i = - l"
    unfolding plits_def by (metis in_set_conv_nth length_take min_less_iff_conj nth_take)
  then have "stackHeightOfVar m \<bar>l\<bar> = int i"
    using wf_model_height [OF assms, of i] by (simp add: tlits_def)
  moreover have "- l \<in> set (tlits m)" using i by (metis nth_mem)
  ultimately show "isFalseLit m l \<and> isLitPropagated m l"
    using wf_false [OF assms] i(2) by (simp add: isLitPropagated_def getHeightOfVar_def)
qed

lemma addPBConstraintCounter_simps:
  fixes s :: "('a::linorder) solver"
  defines "s' \<equiv> \<lambda>c. addPBConstraintCounter c s"
  shows "numVars (s' c) = numVars s" "conflict (s' c) = conflict s" "constraintsPB (s' c) = constraintsPB s @ [c]"
    "clauses (s' c) = clauses s" "solver_model (s' c) = solver_model s"
    "sumOfWatches (s' c) = sumOfWatches s @ [- pb_rhs c - fst (pb_lhs c ! 0)
       + msum (\<lambda>l. \<not> isFalseLit (solver_model s) l \<or> \<not> isLitPropagated (solver_model s) l) (pb_lhs c)]"
    "useCounter (s' c) = useCounter s @ [True]" "binClauses (s' c) = binClauses s" "watchLists (s' c) = watchLists s"
    "genWatchList (s' c) l = genWatchList s l @ map (\<lambda>m. COUNTERPB (fst m) (length (constraintsPB s))) (filter (\<lambda>m. snd m = l) (pb_lhs c))"
    "occurLists (s' c) l = occurLists s l @ map (\<lambda>m. (length (constraintsPB s), fst m)) (filter (\<lambda>m. snd m = l) (pb_lhs c))"
proof -
  let ?s0 = "s\<lparr>solver_stats := (solver_stats s)\<lparr>numOfCounterCtr := numOfCounterCtr (solver_stats s) + 1\<rparr>\<rparr>"
  obtain slk s1 where l: "add_counter_loop (length (constraintsPB s)) (pb_lhs c) (- pb_rhs c - fst (pb_lhs c ! 0)) ?s0 = (slk, s1)"
    by fastforce
  note f = add_counter_loop_simps [OF l]
  have d: "s' c = s1\<lparr>useCounter := useCounter s1 @ [True], sumOfWatches := sumOfWatches s1 @ [slk],
            constraintsPB := constraintsPB s1 @ [c]\<rparr>"
    by (simp add: s'_def addPBConstraintCounter_def Let_def l)
  show "numVars (s' c) = numVars s" "conflict (s' c) = conflict s" "constraintsPB (s' c) = constraintsPB s @ [c]"
    "clauses (s' c) = clauses s" "solver_model (s' c) = solver_model s"
    "sumOfWatches (s' c) = sumOfWatches s @ [- pb_rhs c - fst (pb_lhs c ! 0)
       + msum (\<lambda>l. \<not> isFalseLit (solver_model s) l \<or> \<not> isLitPropagated (solver_model s) l) (pb_lhs c)]"
    "useCounter (s' c) = useCounter s @ [True]" "binClauses (s' c) = binClauses s" "watchLists (s' c) = watchLists s"
    "genWatchList (s' c) l = genWatchList s l @ map (\<lambda>m. COUNTERPB (fst m) (length (constraintsPB s))) (filter (\<lambda>m. snd m = l) (pb_lhs c))"
    "occurLists (s' c) l = occurLists s l @ map (\<lambda>m. (length (constraintsPB s), fst m)) (filter (\<lambda>m. snd m = l) (pb_lhs c))"
    unfolding d using f by simp_all
qed

lemma addPBConstraintCounter_inv:
  assumes inv: "solver_inv s" and c: "pb_ok (numVars s) c"
  shows "solver_inv (addPBConstraintCounter c s)"
    and "db_sat \<sigma> (addPBConstraintCounter c s) \<longleftrightarrow> db_sat \<sigma> s \<and> pb_sat \<sigma> c"
proof -
  let ?s = "addPBConstraintCounter c s" and ?n = "length (constraintsPB s)"
  note f = addPBConstraintCounter_simps [of c s]
  have w: "wf_model (solver_model s)" and li: "lists_ok s" and db: "db_ok s" and co: "counters_ok s"
    using inv by (auto simp: solver_inv_def core_inv_def)
  have "db_grows s ?s" by (auto simp: db_grows_def f)
  moreover have "db_ok ?s" using db c by (auto simp: db_ok_def f)
  moreover have "lists_ok ?s"
  proof -
    have g0: "gen_sum ?n (genWatchList s l) = 0" for l
      using li unfolding lists_ok_def by (intro gen_sum_absent) fastforce
    have o0: "occ_sum ?n (occurLists s l) = 0" for l
      using li unfolding lists_ok_def by (intro occ_sum_absent) fastforce
    have "gen_sum d (genWatchList ?s l) = msum (\<lambda>x. x = l) (pb_lhs (constraintsPB ?s ! d))
      \<and> occ_sum d (occurLists ?s l) = msum (\<lambda>x. x = l) (pb_lhs (constraintsPB ?s ! d))"
      if "d < length (constraintsPB ?s)" for l d
    proof (cases "d = ?n")
      case True
      then show ?thesis by (simp add: f gen_sum_new occ_sum_new g0 o0)
    next
      case False
      then have "d < ?n" using that by (simp add: f)
      then show ?thesis using False li by (simp add: f gen_sum_new occ_sum_new nth_append lists_ok_def)
    qed
    moreover have "case e of BINCLAUSE l' \<Rightarrow> l' \<in> set (binClauses ?s l) | COUNTERPB k c \<Rightarrow> c < length (constraintsPB ?s) \<and> 0 < k | _ \<Rightarrow> True"
      if "e \<in> set (genWatchList ?s l)" for e l
      using that li c unfolding lists_ok_def pb_ok_def pos_coeffs_def by (fastforce simp: f split: gwl_elem.splits)
    moreover have "fst e < length (constraintsPB ?s)" if "e \<in> set (occurLists ?s l)" for e l
      using that li unfolding lists_ok_def by (fastforce simp: f)
    moreover have "BINCLAUSE l' \<in> set (genWatchList ?s l)" if "l' \<in> set (binClauses ?s l)" for l l'
      using that li unfolding lists_ok_def by (auto simp: f)
    ultimately show ?thesis unfolding lists_ok_def by blast
  qed
  moreover have "watches_ok ?s" using inv by (simp add: solver_inv_def core_inv_def watches_ok_def f)
  moreover have "counters_ok ?s"
  proof -
    have "\<not> isFalseLit (solver_model s) l \<or> \<not> isLitPropagated (solver_model s) l \<longleftrightarrow> - l \<notin> set (plits (solver_model s))" for l
      using false_propagated [OF w] by blast
    then show ?thesis using co db unfolding counters_ok_def
      by (auto simp: f nth_append counter_value_def db_ok_def less_Suc_eq)
  qed
  ultimately show "solver_inv ?s" by (intro db_grows_inv [OF _ inv]) (simp_all add: f)
  show "db_sat \<sigma> ?s \<longleftrightarrow> db_sat \<sigma> s \<and> pb_sat \<sigma> c" by (auto simp: db_sat_def f)
qed

lemma new_solver_inv: "solver_inv (new_solver one n)" "slacks_nonneg (new_solver one n)"
  using wf_new_model by (auto simp: solver_inv_def core_inv_def new_solver_def wf_new_model db_ok_def lists_ok_def watches_ok_def counters_ok_def
      trail_ok_def trail_range_def slacks_nonneg_def new_model_def tlits_def)

lemma new_solver_sat [simp]: "db_sat \<sigma> (new_solver one n)"
  by (simp add: db_sat_def new_solver_def)

end
