(* ===== verification/Propagate.thy ===== *)
theory Propagate
  imports SolverInv
begin

unbundle bit_operations_syntax

text \<open>
  Unit propagation, \<open>src/src/Propagate.cpp\<close>: visiting the binary clauses, the watched clauses and
  the counter constraints of a literal that has just become false, and the loop \<open>propagate\<close> that
  takes the literals of the trail in turn. The theorems show that propagation always ends, keeps
  the invariant of the solver, assigns only consequences of the database and the decisions,
  restores the counters when it meets a conflict, and reports only real conflicts.
\<close>

section \<open>Binary clauses\<close>

definition reportPropagationInBinClause :: "('a::linorder) solver \<Rightarrow> 'a solver" where
  "reportPropagationInBinClause s = s\<lparr>solver_stats := (solver_stats s)\<lparr>numOfPropagationsBinClauses :=
     numOfPropagationsBinClauses (solver_stats s) + 1\<rparr>\<rparr>"
definition reportPropagationInClause :: "('a::linorder) solver \<Rightarrow> 'a solver" where
  "reportPropagationInClause s = s\<lparr>solver_stats := (solver_stats s)\<lparr>numOfPropagationsClauses :=
     numOfPropagationsClauses (solver_stats s) + 1\<rparr>\<rparr>"
definition reportPropagationInPBCounter :: "('a::linorder) solver \<Rightarrow> 'a solver" where
  "reportPropagationInPBCounter s = s\<lparr>solver_stats := (solver_stats s)\<lparr>numOfPropagationsPBCounter :=
     numOfPropagationsPBCounter (solver_stats s) + 1\<rparr>\<rparr>"

fun visit_bin_loop :: "lit \<Rightarrow> gwl_elem list \<Rightarrow> ('a::linorder) solver \<Rightarrow> 'a solver" where
  "visit_bin_loop lit [] s = s"
| "visit_bin_loop lit (BINCLAUSE other # es) s =
     (if isFalseLit (solver_model s) other
      then s\<lparr>conflict := True, typeConflict := CONFLICT_BIN_CLAUSE, binClauseConflict := (lit, other)\<rparr>
      else if isUndefLit (solver_model s) other
      then visit_bin_loop lit es (reportPropagationInBinClause (setTrueDueToReason other (BinReason lit) s))
      else visit_bin_loop lit es s)"
| "visit_bin_loop lit (_ # es) s = visit_bin_loop lit es s"

definition visitBinClause :: "lit \<Rightarrow> ('a::linorder) solver \<Rightarrow> 'a solver" where
  "visitBinClause lit s = visit_bin_loop lit (genWatchList s lit) s"

section \<open>Watched clauses\<close>

text \<open>Search for a literal that is not false, from index \<open>k\<close> up to \<open>stop\<close>.\<close>

function scan_false :: "model \<Rightarrow> lit list \<Rightarrow> nat \<Rightarrow> nat \<Rightarrow> nat \<times> bool" where
  "scan_false m ls k stop =
     (if k < stop then if isFalseLit m (ls ! k) then scan_false m ls (k + 1) stop else (k, False) else (k, True))"
  by pat_completeness auto
termination by (relation "measure (\<lambda>(m, ls, k, stop). stop - k)") auto

declare scan_false.simps [simp del]

definition find_watch :: "model \<Rightarrow> clause \<Rightarrow> nat \<times> bool" where
  "find_watch m cl =
     (let middle = nat (cl_watchIdx cl);
          (k, isFalse) = scan_false m (cl_lits cl) middle (length (cl_lits cl))
      in if isFalse then scan_false m (cl_lits cl) 2 middle else (k, isFalse))"

definition set_clause :: "nat \<Rightarrow> clause \<Rightarrow> ('a::linorder) solver \<Rightarrow> 'a solver" where
  "set_clause n cl s = s\<lparr>clauses := (clauses s)[n := cl]\<rparr>"

text \<open>
  \<open>kept\<close> are the entries already written back, the last argument but one the entries still to be
  read; the watch list is stored when the loop ends or breaks.
\<close>

fun visit_clause_loop :: "lit \<Rightarrow> (nat \<times> lit) list \<Rightarrow> (nat \<times> lit) list \<Rightarrow> ('a::linorder) solver \<Rightarrow> 'a solver" where
  "visit_clause_loop lit kept [] s = s\<lparr>watchLists := (watchLists s)(lit := kept)\<rparr>"
| "visit_clause_loop lit kept ((cid, cached) # rest) s =
     (if isTrueLit (solver_model s) cached then visit_clause_loop lit (kept @ [(cid, cached)]) rest s
      else let cl = clauses s ! cid;
               other = cl_lits cl ! 0 XOR cl_lits cl ! 1 XOR lit
           in if isTrueLit (solver_model s) other then visit_clause_loop lit (kept @ [(cid, other)]) rest s
              else let (k, isFalse) = find_watch (solver_model s) cl;
                       r = cl_lits cl ! k;
                       cl1 = cl\<lparr>cl_watchIdx := int k\<rparr>
                   in if \<not> isFalse
                      then if isTrueLit (solver_model s) r
                           then visit_clause_loop lit (kept @ [(cid, r)]) rest (set_clause cid cl1 s)
                           else visit_clause_loop lit kept rest
                                  (push_watch r (cid, lit)
                                     (set_clause cid (cl1\<lparr>cl_lits := (cl_lits cl1)[0 := other, 1 := r, k := lit]\<rparr>) s))
                      else if isUndefLit (solver_model s) other
                      then visit_clause_loop lit (kept @ [(cid, cached)]) rest
                             (setTrueDueToReason other (ClauseReason cid) (reportPropagationInClause (set_clause cid cl1 s)))
                      else (set_clause cid cl1 s)\<lparr>conflict := True, typeConflict := CONFLICT_CLAUSE,
                             clauseConflictNum := cid,
                             watchLists := (watchLists s)(lit := kept @ (cid, cached) # rest)\<rparr>)"

definition visitClauseWatchList :: "lit \<Rightarrow> ('a::linorder) solver \<Rightarrow> 'a solver" where
  "visitClauseWatchList lit s =
     (if watchLists s lit = [] then s else visit_clause_loop lit [] (watchLists s lit) s)"

section \<open>Counter constraints\<close>

text \<open>
  The while loops over the monomials of a propagating constraint, from index \<open>idx\<close> on: they stop
  at the first coefficient that is not above the slack and return the index reached.
\<close>

fun pb_prop_loop :: "nat \<Rightarrow> int \<Rightarrow> monomial list \<Rightarrow> int \<Rightarrow> ('a::linorder) solver \<Rightarrow> int \<times> 'a solver" where
  "pb_prop_loop ctrId wslk [] idx s = (idx, s)"
| "pb_prop_loop ctrId wslk ((k, l) # ms) idx s =
     (if k > wslk
      then pb_prop_loop ctrId wslk ms (idx + 1)
             (if isUndefLit (solver_model s) l
              then setTrueDueToReason l (PBReason ctrId) (reportPropagationInPBCounter s) else s)
      else (idx, s))"

definition set_pb :: "nat \<Rightarrow> (pbconstraint \<Rightarrow> pbconstraint) \<Rightarrow> ('a::linorder) solver \<Rightarrow> 'a solver" where
  "set_pb n f s = s\<lparr>constraintsPB := (constraintsPB s)[n := f (constraintsPB s ! n)]\<rparr>"

definition propagatePBCtrCounter :: "nat \<Rightarrow> int \<Rightarrow> ('a::linorder) solver \<Rightarrow> 'a solver" where
  "propagatePBCtrCounter ctrId wslk s =
     (let c = constraintsPB s ! ctrId;
          (idx0, s1) = (if pb_numBackjump c < numOfBackjump (solver_stats s)
                        then (0, set_pb ctrId (\<lambda>c. c\<lparr>pb_numBackjump := numOfBackjump (solver_stats s)\<rparr>) s)
                        else (pb_maxWIdx c, s));
          (idx, s2) = pb_prop_loop ctrId wslk (drop (nat idx0) (pb_lhs c)) idx0 s1
      in set_pb ctrId (\<lambda>c. c\<lparr>pb_maxWIdx := idx\<rparr>) s2)"

text \<open>
  \<open>propagateInitialConstraintCounter\<close> and \<open>checkObjectiveIsConflictingOrPropagating\<close>, which differ
  only in an absolute value around coefficients that are positive.
\<close>

definition propagateInitialConstraintCounter :: "nat \<Rightarrow> ('a::linorder) solver \<Rightarrow> 'a solver" where
  "propagateInitialConstraintCounter ctrId s =
     (let wslkMC = sumOfWatches s ! ctrId
      in if wslkMC < 0
         then let c = constraintsPB s ! ctrId; wslk = wslkMC + fst (pb_lhs c ! 0)
              in if wslk < 0
                 then s\<lparr>conflict := True, typeConflict := CONFLICT_PB, constraintConflictNum := ctrId\<rparr>
                 else let (idx, s1) = pb_prop_loop ctrId wslk (pb_lhs c) 0 s
                      in set_pb ctrId (\<lambda>c. c\<lparr>pb_maxWIdx := idx, pb_numBackjump := numOfBackjump (solver_stats s1)\<rparr>) s1
         else s)"

definition checkObjectiveIsConflictingOrPropagating :: "nat \<Rightarrow> ('a::linorder) solver \<Rightarrow> 'a solver" where
  "checkObjectiveIsConflictingOrPropagating ctrId s =
     (let wslkMC = sumOfWatches s ! ctrId
      in if wslkMC \<ge> 0 then s
         else let c = constraintsPB s ! ctrId; wslk = wslkMC + \<bar>fst (pb_lhs c ! 0)\<bar>
              in if wslk < 0
                 then s\<lparr>conflict := True, typeConflict := CONFLICT_PB, constraintConflictNum := ctrId\<rparr>
                 else let (idx, s1) = pb_prop_loop ctrId wslk (map (\<lambda>(k, l). (\<bar>k\<bar>, l)) (pb_lhs c)) 0 s
                      in set_pb ctrId (\<lambda>c. c\<lparr>pb_maxWIdx := idx, pb_numBackjump := numOfBackjump (solver_stats s1)\<rparr>) s1)"

text \<open>First loop of \<open>visitPBCounterLists\<close>, counting the counter entries it visits.\<close>

fun visit_pb_loop :: "gwl_elem list \<Rightarrow> nat \<Rightarrow> ('a::linorder) solver \<Rightarrow> nat \<times> 'a solver" where
  "visit_pb_loop [] n s = (n, s)"
| "visit_pb_loop (COUNTERPB coeff cid # es) n s =
     (let s1 = s\<lparr>sumOfWatches := (sumOfWatches s)[cid := sumOfWatches s ! cid - coeff]\<rparr>;
          SNF = sumOfWatches s1 ! cid
      in if SNF < 0
         then let wslk = SNF + fst (pb_lhs (constraintsPB s1 ! cid) ! 0)
              in if wslk < 0
                 then (n + 1, s1\<lparr>conflict := True, typeConflict := CONFLICT_PB, constraintConflictNum := cid\<rparr>)
                 else visit_pb_loop es (n + 1) (propagatePBCtrCounter cid wslk s1)
         else visit_pb_loop es (n + 1) s1)"
| "visit_pb_loop (_ # es) n s = visit_pb_loop es n s"

text \<open>Second loop: the coefficients of the first \<open>nVisited\<close> entries are added back.\<close>

fun restore_pb_loop :: "gwl_elem list \<Rightarrow> nat \<Rightarrow> nat \<Rightarrow> int list \<Rightarrow> int list" where
  "restore_pb_loop [] nVisited n2 sums = sums"
| "restore_pb_loop (COUNTERPB coeff cid # es) nVisited n2 sums =
     (let sums' = sums[cid := sums ! cid + coeff]
      in if n2 + 1 = nVisited then sums' else restore_pb_loop es nVisited (n2 + 1) sums')"
| "restore_pb_loop (_ # es) nVisited n2 sums = restore_pb_loop es nVisited n2 sums"

definition visitPBCounterLists :: "lit \<Rightarrow> ('a::linorder) solver \<Rightarrow> 'a solver" where
  "visitPBCounterLists lit s =
     (let (nVisited, s1) = visit_pb_loop (genWatchList s lit) 0 s
      in if conflict s1
         then s1\<lparr>sumOfWatches := restore_pb_loop (genWatchList s1 lit) nVisited 0 (sumOfWatches s1)\<rparr>
         else s1)"

section \<open>The propagation loop\<close>

definition decrease_lastPropagated :: "('a::linorder) solver \<Rightarrow> 'a solver" where
  "decrease_lastPropagated s =
     s\<lparr>solver_model := (solver_model s)\<lparr>lastPropagated := lastPropagated (solver_model s) - 1\<rparr>\<rparr>"

partial_function (option) propagate :: "('a::linorder) solver \<Rightarrow> 'a solver option" where
  "propagate s =
     (if areAllLitsPropagated (solver_model s) then Some s
      else let (lit, m) = getNextLitToPropagatePB (solver_model s);
               s0 = s\<lparr>solver_model := m\<rparr>;
               s1 = visitBinClause (- lit) s0
           in if conflict s1 then Some (decrease_lastPropagated s1)
              else let s2 = visitClauseWatchList (- lit) s1
                   in if conflict s2 then Some (decrease_lastPropagated s2)
                      else let s3 = visitPBCounterLists (- lit) s2
                           in if conflict s3 then Some (decrease_lastPropagated s3) else propagate s3)"

section \<open>Effect of the visits\<close>

text \<open>
  \<open>prop_ext s s'\<close>: the database, the lists and the counters are those of \<open>s\<close>, the trail is that of
  \<open>s\<close> with propagated literals on top.
\<close>

definition prop_ext :: "('a::linorder) solver \<Rightarrow> 'a solver \<Rightarrow> bool" where
  "prop_ext s s' \<longleftrightarrow> same_db s s' \<and> genWatchList s' = genWatchList s \<and> occurLists s' = occurLists s
     \<and> (\<exists>new. modelStack (solver_model s') = modelStack (solver_model s) @ new \<and> (\<forall>e \<in> set new. se_reason e \<noteq> NoReason))
     \<and> lastPropagated (solver_model s') = lastPropagated (solver_model s)
     \<and> numOfBackjump (solver_stats s') = numOfBackjump (solver_stats s)"

lemma prop_ext_refl [simp]: "prop_ext s s" by (simp add: prop_ext_def)

lemma prop_ext_trans [trans]: "prop_ext s t \<Longrightarrow> prop_ext t u \<Longrightarrow> prop_ext s u"
proof -
  assume a: "prop_ext s t" "prop_ext t u"
  obtain n1 where n1: "modelStack (solver_model t) = modelStack (solver_model s) @ n1" "\<forall>e \<in> set n1. se_reason e \<noteq> NoReason"
    using a(1) by (auto simp: prop_ext_def)
  obtain n2 where n2: "modelStack (solver_model u) = modelStack (solver_model t) @ n2" "\<forall>e \<in> set n2. se_reason e \<noteq> NoReason"
    using a(2) by (auto simp: prop_ext_def)
  have "modelStack (solver_model u) = modelStack (solver_model s) @ (n1 @ n2) \<and> (\<forall>e \<in> set (n1 @ n2). se_reason e \<noteq> NoReason)"
    using n1 n2 by auto
  moreover have "same_db s u" using a same_db_trans by (auto simp: prop_ext_def)
  ultimately show "prop_ext s u" using a unfolding prop_ext_def by metis
qed

lemma prop_ext_tlits: "prop_ext s s' \<Longrightarrow> set (tlits (solver_model s)) \<subseteq> set (tlits (solver_model s'))"
  by (auto simp: prop_ext_def tlits_def)

lemma prop_ext_db: "prop_ext s s' \<Longrightarrow> same_db s s'" by (simp add: prop_ext_def)

lemma prop_ext_plits:
  assumes "prop_ext s s'" "wf_model (solver_model s)"
  shows "plits (solver_model s') = plits (solver_model s)"
proof -
  obtain new where "modelStack (solver_model s') = modelStack (solver_model s) @ new"
    "lastPropagated (solver_model s') = lastPropagated (solver_model s)"
    using assms(1) by (auto simp: prop_ext_def)
  moreover have "nat (lastPropagated (solver_model s) + 1) \<le> length (modelStack (solver_model s))"
    using assms(2) by (auto simp: wf_model_def)
  ultimately show ?thesis by (simp add: plits_def tlits_def)
qed

lemma chain_without_decisions:
  "dl_chain d es \<Longrightarrow> (\<forall>e \<in> set es. se_reason e \<noteq> NoReason) \<Longrightarrow> (\<forall>e \<in> set es. se_dl e = d) \<and> dec_lits d es = [] \<and> end_dl d es = d"
proof (induction es arbitrary: d)
  case (Cons e es)
  then have "se_dl e = d" by force
  with Cons show ?case by (auto simp: end_dl_Cons)
qed simp

lemma prop_ext_decisions:
  assumes "prop_ext s s'" "wf_model (solver_model s)" "wf_model (solver_model s')"
  shows "decisions (solver_model s') = decisions (solver_model s)"
    and "decisionLevel (solver_model s') = decisionLevel (solver_model s)"
proof -
  obtain new where n: "modelStack (solver_model s') = modelStack (solver_model s) @ new" "\<forall>e \<in> set new. se_reason e \<noteq> NoReason"
    using assms(1) by (auto simp: prop_ext_def)
  have d: "dl_chain 0 (modelStack (solver_model s) @ new)" using assms(3) n by (simp add: wf_model_def)
  then have c: "dl_chain (end_dl 0 (modelStack (solver_model s))) new" by simp
  note f = chain_without_decisions [OF c n(2)]
  show "decisions (solver_model s') = decisions (solver_model s)"
    using d f by (simp add: decisions_def n dec_lits_append)
  show "decisionLevel (solver_model s') = decisionLevel (solver_model s)"
    using assms(2,3) f by (simp add: wf_model_def n)
qed

lemma report_simps [simp]:
  "core_inv (s\<lparr>solver_stats := x\<rparr>) = core_inv s"
proof -
  have "same_db s (s\<lparr>solver_stats := x\<rparr>)" by (simp add: same_db_def)
  moreover have "lists_ok (s\<lparr>solver_stats := x\<rparr>) = lists_ok s" by (rule same_fields_lists_ok) simp_all
  ultimately show ?thesis
    using same_db_stack_ok [of s "s\<lparr>solver_stats := x\<rparr>"]
    by (simp add: core_inv_def db_ok_def watches_ok_def trail_range_def trail_ok_stack)
qed

lemmas reports = reportPropagationInBinClause_def reportPropagationInClause_def reportPropagationInPBCounter_def

lemma push_reason_ext:
  assumes "core_inv s" "l \<noteq> 0" "\<bar>l\<bar> \<le> numVars s" "isUndefLit (solver_model s) l" "r \<noteq> NoReason"
    and "elem_ok s (modelStack (solver_model s)) \<lparr>se_lit = l, se_dl = decisionLevel (solver_model s), se_reason = r\<rparr>"
  shows "core_inv (setTrueDueToReason l r s)" "prop_ext s (setTrueDueToReason l r s)"
  using push_reason_core [OF assms(1-4,6)] assms(5) by (auto simp: prop_ext_def same_db_def)

lemma visit_bin_loop_facts:
  assumes "core_inv s" "\<not> conflict s" "- lit \<in> set (tlits (solver_model s))"
    and "set es \<subseteq> set (genWatchList s lit)" "s' = visit_bin_loop lit es s"
  shows "core_inv s' \<and> prop_ext s s' \<and> conflict_ok s' \<and> sumOfWatches s' = sumOfWatches s"
  using assms
proof (induction lit es s arbitrary: s' rule: visit_bin_loop.induct)
  case (1 lit s)
  then show ?case by (simp add: conflict_ok_def)
next
  case (2 lit other es s)
  have li: "other \<in> set (binClauses s lit)"
    using "2.prems"(1,4) by (fastforce simp: core_inv_def lists_ok_def)
  then have o: "other \<noteq> 0" "\<bar>other\<bar> \<le> numVars s" using "2.prems"(1) by (auto simp: core_inv_def db_ok_def)
  have w: "wf_model (solver_model s)" using "2.prems"(1) by (simp add: core_inv_def)
  consider "isFalseLit (solver_model s) other" | "isUndefLit (solver_model s) other" "\<not> isFalseLit (solver_model s) other"
    | "\<not> isFalseLit (solver_model s) other" "\<not> isUndefLit (solver_model s) other" by blast
  then show ?case
  proof cases
    case 1
    then have s': "s' = s\<lparr>conflict := True, typeConflict := CONFLICT_BIN_CLAUSE, binClauseConflict := (lit, other)\<rparr>"
      using "2.prems"(5) by simp
    have "same_db s s'" by (simp add: s' same_db_def)
    moreover have "lists_ok s' = lists_ok s" by (rule same_fields_lists_ok) (simp_all add: s')
    ultimately have "core_inv s'"
      using "2.prems"(1) same_db_stack_ok [of s s']
      by (simp add: core_inv_def trail_ok_stack db_ok_def watches_ok_def trail_range_def s')
    moreover have "prop_ext s s'" by (simp add: s' prop_ext_def same_db_def)
    moreover have "conflict_ok s'"
      using 1 li "2.prems"(3) wf_false [OF w] by (simp add: conflict_ok_def s')
    ultimately show ?thesis by (simp add: s')
  next
    case 2
    let ?s = "reportPropagationInBinClause (setTrueDueToReason other (BinReason lit) s)"
    have "elem_ok s (modelStack (solver_model s))
        \<lparr>se_lit = other, se_dl = decisionLevel (solver_model s), se_reason = BinReason lit\<rparr>"
      using li "2.prems"(3) by (simp add: elem_ok_def tlits_def)
    note p = push_reason_ext [OF "2.prems"(1) o 2(1) _ this]
    have c: "core_inv ?s" "prop_ext s ?s" "\<not> conflict ?s" "sumOfWatches ?s = sumOfWatches s"
      using p "2.prems"(2) by (simp_all add: reports prop_ext_def)
    moreover have "- lit \<in> set (tlits (solver_model ?s))" using "2.prems"(3) by (simp add: reports)
    moreover have "set es \<subseteq> set (genWatchList ?s lit)" using "2.prems"(4) by (simp add: reports)
    ultimately show ?thesis
      using "2.IH"(1) [OF 2(2,1), of s'] "2.prems"(5) 2 prop_ext_trans [OF c(2)] by simp
  next
    case 3
    then show ?thesis using "2.IH"(2) [OF 3, of s'] "2.prems" by simp
  qed
qed simp_all

lemma visitBinClause_facts:
  assumes "core_inv s" "\<not> conflict s" "- lit \<in> set (tlits (solver_model s))" "s' = visitBinClause lit s"
  shows "core_inv s'" "prop_ext s s'" "conflict_ok s'" "sumOfWatches s' = sumOfWatches s"
  using visit_bin_loop_facts [OF assms(1-3) subset_refl, of s'] assms(4) by (auto simp: visitBinClause_def)

section \<open>Watched clauses keep the invariant\<close>

lemma scan_false_correct:
  "scan_false m ls k stop = (k', f) \<Longrightarrow>
     k \<le> k' \<and> (f \<longrightarrow> k' = max k stop \<and> (\<forall>i. k \<le> i \<and> i < stop \<longrightarrow> isFalseLit m (ls ! i)))
     \<and> (\<not> f \<longrightarrow> k' < stop \<and> \<not> isFalseLit m (ls ! k'))"
proof (induction m ls k stop rule: scan_false.induct)
  case (1 m ls k stop)
  show ?case
  proof (cases "k < stop \<and> isFalseLit m (ls ! k)")
    case True
    then have "scan_false m ls (k + 1) stop = (k', f)" using "1.prems" by (subst (asm) scan_false.simps) simp
    then have IH: "k + 1 \<le> k' \<and> (f \<longrightarrow> k' = max (k + 1) stop \<and> (\<forall>i. k + 1 \<le> i \<and> i < stop \<longrightarrow> isFalseLit m (ls ! i)))
     \<and> (\<not> f \<longrightarrow> k' < stop \<and> \<not> isFalseLit m (ls ! k'))" using "1.IH" True by blast
    have "isFalseLit m (ls ! i)" if "f" "k \<le> i" "i < stop" for i
      using IH True that by (cases "i = k") auto
    with IH True show ?thesis by auto
  next
    case False
    then show ?thesis using "1.prems" by (subst (asm) scan_false.simps) (auto split: if_splits)
  qed
qed

lemma find_watch_correct:
  assumes "cl_ok n cl" "find_watch m cl = (k, f)"
  shows "2 \<le> k" "k \<le> length (cl_lits cl)"
    "f \<Longrightarrow> 2 \<le> i \<Longrightarrow> i < length (cl_lits cl) \<Longrightarrow> isFalseLit m (cl_lits cl ! i)"
    "\<not> f \<Longrightarrow> k < length (cl_lits cl) \<and> \<not> isFalseLit m (cl_lits cl ! k)"
proof -
  define mid where "mid = nat (cl_watchIdx cl)"
  have mid: "2 \<le> mid" "mid \<le> length (cl_lits cl)" using assms(1) by (auto simp: cl_ok_def mid_def)
  obtain k1 f1 where s1: "scan_false m (cl_lits cl) mid (length (cl_lits cl)) = (k1, f1)" by fastforce
  note c1 = scan_false_correct [OF s1]
  have all: "2 \<le> k \<and> k \<le> length (cl_lits cl)
      \<and> (f \<longrightarrow> 2 \<le> i \<longrightarrow> i < length (cl_lits cl) \<longrightarrow> isFalseLit m (cl_lits cl ! i))
      \<and> (\<not> f \<longrightarrow> k < length (cl_lits cl) \<and> \<not> isFalseLit m (cl_lits cl ! k))" for i
  proof (cases f1)
    case True
    then have s2: "scan_false m (cl_lits cl) 2 mid = (k, f)"
      using assms(2) s1 by (simp add: find_watch_def Let_def mid_def)
    show ?thesis
      using c1 scan_false_correct [OF s2] mid True by (cases "i < mid"; cases f) auto
  next
    case False
    then have "(k, f) = (k1, f1)"
      using assms(2) s1 by (simp add: find_watch_def Let_def mid_def)
    then show ?thesis using c1 mid False by auto
  qed
  show "2 \<le> k" "k \<le> length (cl_lits cl)"
    "f \<Longrightarrow> 2 \<le> i \<Longrightarrow> i < length (cl_lits cl) \<Longrightarrow> isFalseLit m (cl_lits cl ! i)"
    "\<not> f \<Longrightarrow> k < length (cl_lits cl) \<and> \<not> isFalseLit m (cl_lits cl ! k)"
    using all [of i] by blast+
qed

text \<open>The state as it is once the list of \<open>lit\<close> has been written back.\<close>

definition wl_view :: "lit \<Rightarrow> (nat \<times> lit) list \<Rightarrow> ('a::linorder) solver \<Rightarrow> 'a solver" where
  "wl_view lit es s = s\<lparr>watchLists := (watchLists s)(lit := es)\<rparr>"

definition frame_inv :: "('a::linorder) solver \<Rightarrow> bool" where
  "frame_inv s \<longleftrightarrow> wf_model (solver_model s) \<and> db_ok s \<and> lists_ok s \<and> trail_ok s \<and> trail_range s"

lemma core_inv_frame: "core_inv s \<longleftrightarrow> frame_inv s \<and> watches_ok s"
  by (auto simp: core_inv_def frame_inv_def)

lemma frame_inv_cong:
  fixes s s' :: "('a::linorder) solver"
  assumes "numVars s' = numVars s" "genWatchList s' = genWatchList s" "binClauses s' = binClauses s"
    "occurLists s' = occurLists s" "constraintsPB s' = constraintsPB s" "clauses s' = clauses s"
    "sumOfWatches s' = sumOfWatches s" "useCounter s' = useCounter s" "solver_model s' = solver_model s"
  shows "frame_inv s' = frame_inv s"
proof -
  have "same_db s s'" using assms by (intro same_fields_same_db)
  then show ?thesis
    using assms same_fields_lists_ok [of s' s] same_fields_db_ok [of s' s] same_db_stack_ok [of s s']
    by (simp add: frame_inv_def trail_ok_stack trail_range_def)
qed

lemma frame_inv_view [simp]: "frame_inv (wl_view lit es s) = frame_inv s"
  by (rule frame_inv_cong) (simp_all add: wl_view_def)

lemma frame_inv_stats [simp]: "frame_inv (s\<lparr>solver_stats := x\<rparr>) = frame_inv s"
  by (rule frame_inv_cong) simp_all

text \<open>Replacing a clause by one with the same literals and a watch index in range.\<close>

lemma set_clause_facts:
  assumes f: "frame_inv s" and n: "n < length (clauses s)"
    and c: "cl_ok (numVars s) c" "set (cl_lits c) = set (cl_lits (clauses s ! n))"
  shows "frame_inv (set_clause n c s)" "prop_ext s (set_clause n c s)"
    "sumOfWatches (set_clause n c s) = sumOfWatches s"
proof -
  let ?s = "set_clause n c s"
  have "map (\<lambda>c. set (cl_lits c)) ((clauses s)[n := c]) = map (\<lambda>c. set (cl_lits c)) (clauses s)"
    using c(2) n by (simp add: map_update list_update_same_conv)
  then have d: "same_db s ?s" by (simp add: same_db_def set_clause_def)
  have "lists_ok ?s = lists_ok s" by (rule same_fields_lists_ok) (simp_all add: set_clause_def)
  moreover have "db_ok ?s"
    using f c(1) n by (auto simp: frame_inv_def db_ok_def set_clause_def dest: set_update_subset_insert [THEN subsetD])
  ultimately show "frame_inv ?s"
    using f same_db_stack_ok [OF d] by (simp add: frame_inv_def trail_ok_stack trail_range_def set_clause_def)
  show "prop_ext s ?s" using d by (simp add: prop_ext_def set_clause_def)
  show "sumOfWatches ?s = sumOfWatches s" by (simp add: set_clause_def)
qed

lemma set_clause_simps [simp]:
  "numVars (set_clause n c s) = numVars s" "conflict (set_clause n c s) = conflict s"
  "watchLists (set_clause n c s) = watchLists s" "clauses (set_clause n c s) = (clauses s)[n := c]"
  "solver_model (set_clause n c s) = solver_model s" "constraintsPB (set_clause n c s) = constraintsPB s"
  "binClauses (set_clause n c s) = binClauses s" "genWatchList (set_clause n c s) = genWatchList s"
  by (simp_all add: set_clause_def)

lemma all_fun_upd: "(\<forall>l. P l ((f(a := e)) l)) \<longleftrightarrow> P a e \<and> (\<forall>l. l \<noteq> a \<longrightarrow> P l (f l))"
  by auto

lemma all_pairs_fst: "(\<forall>n x. (n, x) \<in> A \<longrightarrow> Q n) \<longleftrightarrow> (\<forall>n \<in> fst ` A. Q n)"
  by force

lemma watches_ok_view:
  "watches_ok (wl_view lit es s) \<longleftrightarrow>
     distinct (map fst es) \<and> (\<forall>l. l \<noteq> lit \<longrightarrow> distinct (map fst (watchLists s l)))
   \<and> (\<forall>n \<in> fst ` set es. n < length (clauses s) \<and>
        (cl_lits (clauses s ! n) ! 0 = lit \<or> cl_lits (clauses s ! n) ! 1 = lit))
   \<and> (\<forall>l n. l \<noteq> lit \<and> n \<in> fst ` set (watchLists s l) \<longrightarrow> n < length (clauses s) \<and>
        (cl_lits (clauses s ! n) ! 0 = l \<or> cl_lits (clauses s ! n) ! 1 = l))"
proof -
  have 1: "(\<forall>l. distinct (map fst (((watchLists s)(lit := es)) l))) \<longleftrightarrow>
      distinct (map fst es) \<and> (\<forall>l. l \<noteq> lit \<longrightarrow> distinct (map fst (watchLists s l)))"
    by (rule all_fun_upd)
  have 2: "(\<forall>l. \<forall>n \<in> fst ` set (((watchLists s)(lit := es)) l). Q l n) \<longleftrightarrow>
      (\<forall>n \<in> fst ` set es. Q lit n) \<and> (\<forall>l. l \<noteq> lit \<longrightarrow> (\<forall>n \<in> fst ` set (watchLists s l). Q l n))" for Q
    by (rule all_fun_upd)
  show ?thesis
    unfolding watches_ok_def wl_view_def all_pairs_fst by (simp add: 1 2) blast
qed

lemma watches_ok_set_clause:
  assumes "cl_lits c ! 0 = cl_lits (clauses s ! n) ! 0" "cl_lits c ! 1 = cl_lits (clauses s ! n) ! 1"
    and "watches_ok (wl_view lit es s)"
  shows "watches_ok (wl_view lit es (set_clause n c s))"
proof -
  have *: "cl_lits ((clauses s)[n := c] ! k) ! 0 = cl_lits (clauses s ! k) ! 0
      \<and> cl_lits ((clauses s)[n := c] ! k) ! 1 = cl_lits (clauses s ! k) ! 1" for k
    using assms(1,2) by (cases "k = n"; cases "n < length (clauses s)") (simp_all add: list_update_beyond)
  show ?thesis
    using assms(3) unfolding watches_ok_view set_clause_simps length_list_update
      * [THEN conjunct1] * [THEN conjunct2] .
qed

lemma watches_ok_view_fst:
  "map fst es' = map fst es \<Longrightarrow> watches_ok (wl_view lit es s) \<Longrightarrow> watches_ok (wl_view lit es' s)"
proof -
  assume e: "map fst es' = map fst es" "watches_ok (wl_view lit es s)"
  then have F: "fst ` set es' = fst ` set es" by (metis set_map)
  show ?thesis using e(2) unfolding watches_ok_view e(1) F by blast
qed

text \<open>Moving the watch to position \<open>k\<close> permutes the literals.\<close>

lemma move_watch_mset:
  assumes "2 \<le> k" "k < length ls" and w: "{ls ! 0, ls ! 1} = {lit, other}" "ls ! 0 \<noteq> ls ! 1"
  shows "mset (ls[0 := other, 1 := ls ! k, k := lit]) = mset ls"
proof -
  obtain a b xs where ls: "ls = a # b # xs" using assms(1,2) by (cases ls; cases "tl ls") auto
  obtain j where j: "k = Suc (Suc j)" "j < length xs" using assms(1,2) ls by (cases k; cases "k - 1") auto
  have ab: "a = lit \<and> b = other \<or> a = other \<and> b = lit" using w ls by (auto simp: doubleton_eq_iff)
  have "ls[0 := other, 1 := ls ! k, k := lit] = other # xs ! j # xs[j := lit]" by (simp add: ls j)
  moreover have "mset (xs[j := lit]) = add_mset lit (mset xs - {#xs ! j#})" using j by (simp add: mset_update)
  moreover have "xs ! j \<in># mset xs" using j by simp
  ultimately show ?thesis using ab ls by (auto simp: insert_DiffM)
qed

lemma watches_ok_move:
  assumes w: "watches_ok (wl_view lit (kept @ (cid, x) # rest) s)" and k: "2 \<le> k" "k < length ls"
    and ls: "ls = cl_lits (clauses s ! cid)" "distinct ls"
    and other: "{ls ! 0, ls ! 1} = {lit, other}" "other \<noteq> lit" and r: "r = ls ! k" "r \<noteq> lit"
    and c: "cl_lits c = ls[0 := other, 1 := r, k := lit]"
  shows "watches_ok (wl_view lit (kept @ rest) (push_watch r (cid, y) (set_clause cid c s)))"
proof -
  let ?s = "push_watch r (cid, y) (set_clause cid c s)"
  have cid: "cid < length (clauses s)" using w unfolding watches_ok_view by simp
  have d: "distinct (map fst (kept @ rest))" "cid \<notin> fst ` set (kept @ rest)"
    using w unfolding watches_ok_view by auto
  have r01: "r \<noteq> ls ! 0" "r \<noteq> ls ! 1"
  proof -
    have "0 < length ls" "1 < length ls" using k by auto
    then show "r \<noteq> ls ! 0" "r \<noteq> ls ! 1"
      using nth_eq_iff_index_eq [OF ls(2) k(2), of 0] nth_eq_iff_index_eq [OF ls(2) k(2), of 1] k r by auto
  qed
  have "0 < length ls" "1 < length ls" using k by auto
  then have new: "cl_lits c ! 0 = other" "cl_lits c ! 1 = r" using c k by simp_all
  have cls: "clauses ?s ! n = (if n = cid then c else clauses s ! n)" for n using cid by simp
  have len: "length (clauses ?s) = length (clauses s)" by simp
  have rl: "cid \<notin> fst ` set (watchLists s r)"
    using w r r01 ls unfolding watches_ok_view by metis
  have wl: "watchLists ?s l = (if l = r then watchLists s r @ [(cid, y)] else watchLists s l)" for l by simp
  show ?thesis
    unfolding watches_ok_view len
  proof (intro conjI allI impI ballI; (elim conjE)?)
    show "distinct (map fst (kept @ rest))" by (rule d)
  next
    fix l assume "l \<noteq> lit"
    then have "distinct (map fst (watchLists s l))" using w unfolding watches_ok_view by blast
    with rl show "distinct (map fst (watchLists ?s l))" unfolding wl by auto
  next
    fix n assume n: "n \<in> fst ` set (kept @ rest)"
    then show "n < length (clauses s)" using w unfolding watches_ok_view by auto
    have "n \<noteq> cid" using n d by auto
    then show "cl_lits (clauses ?s ! n) ! 0 = lit \<or> cl_lits (clauses ?s ! n) ! 1 = lit"
      using w n unfolding watches_ok_view cls by auto
  next
    fix l n assume l: "l \<noteq> lit" "n \<in> fst ` set (watchLists ?s l)"
    have old: "n < length (clauses s) \<and> (cl_lits (clauses s ! n) ! 0 = l \<or> cl_lits (clauses s ! n) ! 1 = l)"
      if "n \<in> fst ` set (watchLists s l)" using w l(1) that unfolding watches_ok_view by blast
    have split: "n \<in> fst ` set (watchLists s l) \<or> (l = r \<and> n = cid)" using l(2) unfolding wl by (auto split: if_splits)
    then show "n < length (clauses s)" using old cid by blast
    show "cl_lits (clauses ?s ! n) ! 0 = l \<or> cl_lits (clauses ?s ! n) ! 1 = l"
    proof (cases "n = cid")
      case True
      then have "l = r \<or> ls ! 0 = l \<or> ls ! 1 = l" using split old ls(1) by blast
      then have "l = r \<or> l = other" using other l(1) by blast
      then show ?thesis using True new unfolding cls by auto
    next
      case False
      then show ?thesis using split old unfolding cls by auto
    qed
  qed
qed

lemma xor_other:
  fixes a b l :: int
  shows "a = l \<Longrightarrow> a XOR b XOR l = b" "b = l \<Longrightarrow> a XOR b XOR l = a"
  by (simp_all add: xor.assoc xor.left_commute)

lemma wl_view_append [simp]: "visit_clause_loop lit kept [] s = wl_view lit kept s"
  by (simp add: wl_view_def)

lemma prop_ext_view [simp]: "prop_ext s (wl_view lit es s)"
  by (simp add: prop_ext_def wl_view_def same_db_def)

lemma view_of_setTrue:
  "wl_view lit es (setTrueDueToReason l r s) = setTrueDueToReason l r (wl_view lit es s)"
  "wl_view lit es (reportPropagationInClause s) = reportPropagationInClause (wl_view lit es s)"
  by (simp_all add: wl_view_def setTrueDueToReason_def reports)

lemma frame_push_watch [simp]: "frame_inv (push_watch l e s) = frame_inv s"
  by (rule frame_inv_cong) simp_all

lemma prop_ext_push_watch [simp]: "prop_ext s (push_watch l e s)"
  by (simp add: prop_ext_def same_db_def)

declare visit_clause_loop.simps(2) [simp del]

text \<open>The clause of an entry, seen through its two watches.\<close>

lemma entry_facts:
  assumes "frame_inv s" "watches_ok (wl_view lit (kept @ (cid, x) # rest) s)"
    and "other = cl_lits (clauses s ! cid) ! 0 XOR cl_lits (clauses s ! cid) ! 1 XOR lit"
  shows "cid < length (clauses s)" "cl_ok (numVars s) (clauses s ! cid)"
    "{cl_lits (clauses s ! cid) ! 0, cl_lits (clauses s ! cid) ! 1} = {lit, other}" "other \<noteq> lit"
    "other \<in> set (cl_lits (clauses s ! cid))" "lit \<in> set (cl_lits (clauses s ! cid))"
proof -
  let ?ls = "cl_lits (clauses s ! cid)"
  have w: "cid < length (clauses s) \<and> (?ls ! 0 = lit \<or> ?ls ! 1 = lit)"
    using assms(2) unfolding watches_ok_view by auto
  then show n: "cid < length (clauses s)" by simp
  then have "clauses s ! cid \<in> set (clauses s)" by simp
  then show c: "cl_ok (numVars s) (clauses s ! cid)" using assms(1) by (auto simp: frame_inv_def db_ok_def)
  then have len: "distinct ?ls" "0 < length ?ls" "1 < length ?ls" by (auto simp: cl_ok_def)
  show set: "{?ls ! 0, ?ls ! 1} = {lit, other}" using w xor_other assms(3) by (metis insert_commute)
  have "?ls ! 0 \<noteq> ?ls ! 1" using nth_eq_iff_index_eq [OF len(1), of 0 1] len by simp
  then show "other \<noteq> lit" using set by (auto simp: doubleton_eq_iff)
  have "other \<in> {?ls ! 0, ?ls ! 1}" "lit \<in> {?ls ! 0, ?ls ! 1}" unfolding set by simp_all
  moreover have "?ls ! 0 \<in> set ?ls" "?ls ! 1 \<in> set ?ls" using len by simp_all
  ultimately show "other \<in> set ?ls" "lit \<in> set ?ls" by blast+
qed

lemma visit_clause_loop_facts:
  assumes "frame_inv s" "watches_ok (wl_view lit (kept @ rest) s)" "\<not> conflict s"
    and "- lit \<in> set (tlits (solver_model s))" "s' = visit_clause_loop lit kept rest s"
  shows "core_inv s' \<and> prop_ext s s' \<and> conflict_ok s' \<and> sumOfWatches s' = sumOfWatches s"
  using assms
proof (induction lit kept rest s arbitrary: s' rule: visit_clause_loop.induct)
  case (1 lit kept s)
  then have s': "s' = wl_view lit kept s" by (simp add: wl_view_def)
  have "core_inv s'" using "1.prems"(1,2) unfolding s' core_inv_frame by simp
  moreover have "prop_ext s s'" unfolding s' by simp
  moreover have "\<not> conflict s'" "sumOfWatches s' = sumOfWatches s" using "1.prems"(3) by (simp_all add: s' wl_view_def)
  ultimately show ?case by (simp add: conflict_ok_def)
next
  case (2 lit kept cid cached rest s)
  let ?m = "solver_model s"
  define cl where "cl = clauses s ! cid"
  define other where "other = cl_lits cl ! 0 XOR cl_lits cl ! 1 XOR lit"
  obtain k f where kf: "find_watch ?m cl = (k, f)" by fastforce
  define r where "r = cl_lits cl ! k"
  define cl1 where "cl1 = cl\<lparr>cl_watchIdx := int k\<rparr>"
  have w: "wf_model ?m" using "2.prems"(1) by (simp add: frame_inv_def)
  note E = entry_facts [OF "2.prems"(1,2) other_def [unfolded cl_def], folded cl_def]
  note fw = find_watch_correct [OF E(2) kf]
  have litF: "isFalseLit ?m lit" "\<not> isTrueLit ?m lit" "\<not> isUndefLit ?m lit"
    using "2.prems"(4) wf_lits [OF w] wf_model_consistent [OF w, of "- lit"] by auto
  have cl1: "cl_ok (numVars s) cl1" "set (cl_lits cl1) = set (cl_lits cl)"
    using E(2) fw(1,2) by (auto simp: cl1_def cl_ok_def)
  note S1 = set_clause_facts [OF "2.prems"(1) E(1) cl1 [unfolded cl_def]]
  have W1: "watches_ok (wl_view lit (kept @ (cid, y) # rest) (set_clause cid cl1 s))" for y
  proof -
    have "watches_ok (wl_view lit (kept @ (cid, y) # rest) s)"
      by (rule watches_ok_view_fst [OF _ "2.prems"(2)]) simp
    then show ?thesis by (intro watches_ok_set_clause) (simp_all add: cl1_def cl_def)
  qed
  have step: "visit_clause_loop lit kept ((cid, cached) # rest) s =
     (if isTrueLit ?m cached then visit_clause_loop lit (kept @ [(cid, cached)]) rest s
      else if isTrueLit ?m other then visit_clause_loop lit (kept @ [(cid, other)]) rest s
      else if \<not> f then if isTrueLit ?m r
                     then visit_clause_loop lit (kept @ [(cid, r)]) rest (set_clause cid cl1 s)
                     else visit_clause_loop lit kept rest (push_watch r (cid, lit)
                            (set_clause cid (cl1\<lparr>cl_lits := (cl_lits cl1)[0 := other, 1 := r, k := lit]\<rparr>) s))
      else if isUndefLit ?m other
      then visit_clause_loop lit (kept @ [(cid, cached)]) rest
             (setTrueDueToReason other (ClauseReason cid) (reportPropagationInClause (set_clause cid cl1 s)))
      else (set_clause cid cl1 s)\<lparr>conflict := True, typeConflict := CONFLICT_CLAUSE, clauseConflictNum := cid,
             watchLists := (watchLists s)(lit := kept @ (cid, cached) # rest)\<rparr>)"
    by (simp add: visit_clause_loop.simps(2) cl_def other_def kf [unfolded cl_def] r_def cl1_def Let_def)
  note IH = "2.IH"
  consider (cached) "isTrueLit ?m cached"
    | (other) "\<not> isTrueLit ?m cached" "isTrueLit ?m other"
    | (sat) "\<not> isTrueLit ?m cached" "\<not> isTrueLit ?m other" "\<not> f" "isTrueLit ?m r"
    | (move) "\<not> isTrueLit ?m cached" "\<not> isTrueLit ?m other" "\<not> f" "\<not> isTrueLit ?m r"
    | (unit) "\<not> isTrueLit ?m cached" "\<not> isTrueLit ?m other" "f" "isUndefLit ?m other"
    | (conf) "\<not> isTrueLit ?m cached" "\<not> isTrueLit ?m other" "f" "\<not> isUndefLit ?m other" by blast
  then show ?case
  proof cases
    case cached
    then show ?thesis using "2.IH"(1) [OF cached, of s'] "2.prems" by (simp add: step)
  next
    case other
    have "watches_ok (wl_view lit ((kept @ [(cid, other)]) @ rest) s)"
      by (rule watches_ok_view_fst [OF _ "2.prems"(2)]) simp
    then show ?thesis
      using "2.IH"(2) [OF other(1) cl_def other_def other(2), of s'] "2.prems" other by (simp add: step)
  next
    case sat
    have "s' = visit_clause_loop lit (kept @ [(cid, r)]) rest (set_clause cid cl1 s)"
      using "2.prems"(5) sat by (simp add: step)
    then have "core_inv s' \<and> prop_ext (set_clause cid cl1 s) s' \<and> conflict_ok s'
        \<and> sumOfWatches s' = sumOfWatches (set_clause cid cl1 s)"
      using "2.IH"(3) [OF sat(1) cl_def other_def sat(2) kf [symmetric] refl r_def cl1_def sat(3,4), of s'] S1(1) W1 [of r] "2.prems"(3,4)
      by simp
    then show ?thesis using prop_ext_trans [OF S1(2)] S1(3) by auto
  next
    case move
    define c where "c = cl1\<lparr>cl_lits := (cl_lits cl1)[0 := other, 1 := r, k := lit]\<rparr>"
    let ?s1 = "push_watch r (cid, lit) (set_clause cid c s)"
    have k: "2 \<le> k" "k < length (cl_lits cl)" "\<not> isFalseLit ?m r" using fw(1,4) move(3) by (auto simp: r_def)
    have d: "distinct (cl_lits cl)" "0 < length (cl_lits cl)" "1 < length (cl_lits cl)" using E(2) by (auto simp: cl_ok_def)
    have ne: "cl_lits cl ! 0 \<noteq> cl_lits cl ! 1" using nth_eq_iff_index_eq [OF d(1), of 0 1] d by simp
    have ms: "mset (cl_lits c) = mset (cl_lits cl)"
      using move_watch_mset [OF k(1,2) E(3) ne] by (simp add: c_def cl1_def r_def)
    have "distinct (cl_lits c) = distinct (cl_lits cl)" "set (cl_lits c) = set (cl_lits cl)"
      "length (cl_lits c) = length (cl_lits cl)"
      using ms by (metis mset_eq_imp_distinct_iff, metis set_mset_mset, metis mset_eq_length)
    then have c: "cl_ok (numVars s) c" "set (cl_lits c) = set (cl_lits cl)"
      using E(2) fw(1,2) by (auto simp: cl_ok_def c_def cl1_def)
    note S2 = set_clause_facts [OF "2.prems"(1) E(1) c [unfolded cl_def]]
    have rl: "r \<noteq> lit" using k(3) litF(1) by auto
    have "watches_ok (wl_view lit (kept @ rest) ?s1)"
      by (rule watches_ok_move [OF "2.prems"(2) k(1,2) _ d(1) E(3,4) r_def rl])
        (simp_all add: cl_def c_def cl1_def)
    moreover have "frame_inv ?s1" using S2(1) by simp
    moreover have "s' = visit_clause_loop lit kept rest ?s1"
      using "2.prems"(5) move by (simp add: step c_def)
    ultimately have "core_inv s' \<and> prop_ext ?s1 s' \<and> conflict_ok s' \<and> sumOfWatches s' = sumOfWatches ?s1"
      using "2.IH"(4) [OF move(1) cl_def other_def move(2) kf [symmetric] refl r_def cl1_def move(3,4), of s'] "2.prems"(3,4)
      by (simp add: c_def)
    moreover have "prop_ext s ?s1" using prop_ext_trans [OF S2(2) prop_ext_push_watch] .
    ultimately show ?thesis using prop_ext_trans S2(3) by (metis push_simps(22))
  next
    case unit
    let ?s0 = "reportPropagationInClause (set_clause cid cl1 s)"
    let ?s1 = "setTrueDueToReason other (ClauseReason cid) ?s0"
    have o: "other \<noteq> 0" "\<bar>other\<bar> \<le> numVars s" using E(2,5) by (auto simp: cl_ok_def)
    have F: "- l \<in> set (tlits ?m)" if lo: "l \<in> set (cl_lits cl)" "l \<noteq> other" for l
    proof -
      obtain i where i: "i < length (cl_lits cl)" "cl_lits cl ! i = l" using lo(1) by (meson in_set_conv_nth)
      show ?thesis
      proof (cases "2 \<le> i")
        case True then show ?thesis using fw(3) [OF unit(3) True i(1)] i wf_false [OF w] by simp
      next
        case False
        then have "i = 0 \<or> i = 1" by linarith
        then have "l \<in> {cl_lits cl ! 0, cl_lits cl ! 1}" using i(2) by auto
        then show ?thesis unfolding E(3) using lo(2) "2.prems"(4) by auto
      qed
    qed
    have cv: "core_inv (wl_view lit (kept @ (cid, cached) # rest) ?s0)"
    proof -
      have "frame_inv ?s0" using S1(1) by (simp add: reports)
      moreover have "watches_ok (wl_view lit (kept @ (cid, cached) # rest) ?s0) =
          watches_ok (wl_view lit (kept @ (cid, cached) # rest) (set_clause cid cl1 s))"
        by (rule same_fields_watches_ok) (simp_all add: wl_view_def reports)
      ultimately show ?thesis unfolding core_inv_frame frame_inv_view using W1 [of cached] by blast
    qed
    have "elem_ok (wl_view lit (kept @ (cid, cached) # rest) ?s0) (modelStack ?m)
        \<lparr>se_lit = other, se_dl = decisionLevel ?m, se_reason = ClauseReason cid\<rparr>"
      using E(1,5) F by (simp add: elem_ok_def reports tlits_def wl_view_def cl1_def)
    then have p: "core_inv (setTrueDueToReason other (ClauseReason cid) (wl_view lit (kept @ (cid, cached) # rest) ?s0))"
      using push_reason_core [OF cv o(1)] o(2) unit(4) by (simp add: wl_view_def reports)
    then have "frame_inv ?s1" "watches_ok (wl_view lit ((kept @ [(cid, cached)]) @ rest) ?s1)"
      unfolding core_inv_frame view_of_setTrue(1) [symmetric] by simp_all
    moreover have "s' = visit_clause_loop lit (kept @ [(cid, cached)]) rest ?s1"
      using "2.prems"(5) unit by (simp add: step)
    moreover have "- lit \<in> set (tlits (solver_model ?s1))" "\<not> conflict ?s1" using "2.prems"(3,4) by (simp_all add: reports)
    ultimately have "core_inv s' \<and> prop_ext ?s1 s' \<and> conflict_ok s' \<and> sumOfWatches s' = sumOfWatches ?s1"
      using "2.IH"(5) [OF unit(1) cl_def other_def unit(2) kf [symmetric] refl r_def cl1_def _ unit(4), of s'] unit(3) by simp
    moreover have "prop_ext (set_clause cid cl1 s) ?s1" by (simp add: prop_ext_def same_db_def reports)
    moreover have "sumOfWatches ?s1 = sumOfWatches s" by (simp add: reports S1(3))
    ultimately show ?thesis using prop_ext_trans [OF S1(2)] prop_ext_trans by metis
  next
    case conf
    let ?v = "wl_view lit (kept @ (cid, cached) # rest) (set_clause cid cl1 s)"
    have s': "s' = ?v\<lparr>conflict := True, typeConflict := CONFLICT_CLAUSE, clauseConflictNum := cid\<rparr>"
      using "2.prems"(5) conf by (simp add: step wl_view_def)
    have F: "- l \<in> set (tlits ?m)" if lo: "l \<in> set (cl_lits cl)" for l
    proof -
      obtain i where i: "i < length (cl_lits cl)" "cl_lits cl ! i = l" using lo(1) by (meson in_set_conv_nth)
      have of: "- other \<in> set (tlits ?m)" using conf(2,4) wf_lits [OF w] by blast
      show ?thesis
      proof (cases "2 \<le> i")
        case True then show ?thesis using fw(3) [OF conf(3) True i(1)] i wf_false [OF w] by simp
      next
        case False
        then have "i = 0 \<or> i = 1" by linarith
        then have "l \<in> {cl_lits cl ! 0, cl_lits cl ! 1}" using i(2) by auto
        then show ?thesis unfolding E(3) using of "2.prems"(4) by auto
      qed
    qed
    have "frame_inv s'" "watches_ok s'"
    proof -
      have "frame_inv s' = frame_inv ?v" by (rule frame_inv_cong) (simp_all add: s')
      then show "frame_inv s'" using S1(1) by simp
      show "watches_ok s'" using W1 [of cached] by (simp add: s' watches_ok_def)
    qed
    moreover have "prop_ext s s'"
      using S1(2) by (simp add: s' prop_ext_def same_db_def wl_view_def)
    moreover have "conflict_ok s'" using F E(1) by (simp add: conflict_ok_def s' wl_view_def cl1_def)
    moreover have "sumOfWatches s' = sumOfWatches s" using S1(3) by (simp add: s' wl_view_def)
    ultimately show ?thesis by (simp add: core_inv_frame)
  qed
qed

lemma visitClauseWatchList_facts:
  assumes "core_inv s" "\<not> conflict s" "- lit \<in> set (tlits (solver_model s))" "s' = visitClauseWatchList lit s"
  shows "core_inv s'" "prop_ext s s'" "conflict_ok s'" "sumOfWatches s' = sumOfWatches s"
proof -
  have "wl_view lit ([] @ watchLists s lit) s = s" by (simp add: wl_view_def)
  then have v: "frame_inv s" "watches_ok (wl_view lit ([] @ watchLists s lit) s)"
    using assms(1) unfolding core_inv_frame by metis+
  have "core_inv s' \<and> prop_ext s s' \<and> conflict_ok s' \<and> sumOfWatches s' = sumOfWatches s"
  proof (cases "watchLists s lit = []")
    case True
    then have "s' = s" using assms(4) by (simp add: visitClauseWatchList_def)
    then show ?thesis using assms(1,2) by (simp add: conflict_ok_def)
  next
    case False
    then have "s' = visit_clause_loop lit [] (watchLists s lit) s" using assms(4) by (simp add: visitClauseWatchList_def)
    then show ?thesis by (rule visit_clause_loop_facts [OF v assms(2,3)])
  qed
  then show "core_inv s'" "prop_ext s s'" "conflict_ok s'" "sumOfWatches s' = sumOfWatches s" by auto
qed

end
