(* ===== verification/PropagateInv.thy ===== *)
theory PropagateInv
  imports Propagate
begin

text \<open>
  Correctness of counter propagation and of the propagation loop of \<open>Propagate.thy\<close>.
\<close>

section \<open>Propagating one counter constraint\<close>

lemma pb_prop_loop_facts:
  assumes "core_inv s" "n < length (constraintsPB s)" "set ms \<subseteq> set (pb_lhs (constraintsPB s ! n))"
    and "msum (\<lambda>l. - l \<notin> set (tlits (solver_model s))) (pb_lhs (constraintsPB s ! n)) - pb_rhs (constraintsPB s ! n) \<le> wslk"
    and "pb_prop_loop n wslk ms i s = (i', s')"
  shows "core_inv s' \<and> prop_ext s s' \<and> sumOfWatches s' = sumOfWatches s \<and> conflict s' = conflict s
    \<and> constraintsPB s' = constraintsPB s"
  using assms
proof (induction n wslk ms i s arbitrary: i' s' rule: pb_prop_loop.induct)
  case (1 n wslk i s)
  then show ?case by simp
next
  case (2 n wslk k l ms i s)
  let ?c = "constraintsPB s ! n"
  show ?case
  proof (cases "k > wslk \<and> isUndefLit (solver_model s) l")
    case False
    then show ?thesis using "2.IH" "2.prems" by (auto split: if_splits)
  next
    case True
    let ?s0 = "reportPropagationInPBCounter s"
    let ?s1 = "setTrueDueToReason l (PBReason n) ?s0"
    have "?c \<in> set (constraintsPB s)" using "2.prems"(2) by simp
    then have ok: "pb_ok (numVars s) ?c" using "2.prems"(1) by (auto simp: core_inv_def db_ok_def)
    have kl: "(k, l) \<in> set (pb_lhs ?c)" using "2.prems"(3) by simp
    with ok have l: "l \<noteq> 0" "\<bar>l\<bar> \<le> numVars s" by (auto simp: pb_ok_def nonzero_lits_def)
    have c0: "core_inv ?s0" using "2.prems"(1) by (simp add: reports)
    have "msum (\<lambda>l. - l \<notin> set (tlits (solver_model s))) (pb_lhs ?c) - pb_rhs ?c < k" using "2.prems"(4) True by linarith
    then have "elem_ok ?s0 (modelStack (solver_model ?s0))
        \<lparr>se_lit = l, se_dl = decisionLevel (solver_model ?s0), se_reason = PBReason n\<rparr>"
      using kl "2.prems"(2) by (auto simp: elem_ok_def Let_def reports tlits_def)
    then have p: "core_inv ?s1" "prop_ext ?s0 ?s1"
      using push_reason_ext [OF c0 l(1) _ _ _ , of "PBReason n"] l(2) True by (simp_all add: reports)
    then have e: "prop_ext s ?s1" by (simp add: prop_ext_def reports same_db_def)
    have "msum (\<lambda>x. - x \<notin> set (tlits (solver_model ?s1))) (pb_lhs ?c) \<le> msum (\<lambda>x. - x \<notin> set (tlits (solver_model s))) (pb_lhs ?c)"
      using ok by (intro msum_mono) (auto simp: pb_ok_def reports)
    then have "core_inv s' \<and> prop_ext ?s1 s' \<and> sumOfWatches s' = sumOfWatches ?s1 \<and> conflict s' = conflict ?s1
        \<and> constraintsPB s' = constraintsPB ?s1"
      using "2.IH" [of i' s'] True "2.prems" p(1) by (simp add: reports)
    then show ?thesis using prop_ext_trans [OF e] by (simp add: reports)
  qed
qed

lemma set_pb_facts:
  assumes "core_inv s" and f: "pb_lhs (f (constraintsPB s ! n)) = pb_lhs (constraintsPB s ! n)"
      "pb_rhs (f (constraintsPB s ! n)) = pb_rhs (constraintsPB s ! n)"
    and n: "n < length (constraintsPB s)"
  shows "core_inv (set_pb n f s)" "prop_ext s (set_pb n f s)" "sumOfWatches (set_pb n f s) = sumOfWatches s"
    "conflict (set_pb n f s) = conflict s" "solver_model (set_pb n f s) = solver_model s"
    "length (constraintsPB (set_pb n f s)) = length (constraintsPB s)"
    "pb_lhs (constraintsPB (set_pb n f s) ! k) = pb_lhs (constraintsPB s ! k)"
    "pb_rhs (constraintsPB (set_pb n f s) ! k) = pb_rhs (constraintsPB s ! k)"
proof -
  let ?s = "set_pb n f s"
  have e: "pb_lhs (constraintsPB ?s ! k) = pb_lhs (constraintsPB s ! k) \<and> pb_rhs (constraintsPB ?s ! k) = pb_rhs (constraintsPB s ! k)" for k
    using f n by (cases "k = n") (simp_all add: set_pb_def)
  then show "pb_lhs (constraintsPB ?s ! k) = pb_lhs (constraintsPB s ! k)"
    "pb_rhs (constraintsPB ?s ! k) = pb_rhs (constraintsPB s ! k)" by auto
  show len: "length (constraintsPB ?s) = length (constraintsPB s)" by (simp add: set_pb_def)
  show "sumOfWatches ?s = sumOfWatches s" "conflict ?s = conflict s" "solver_model ?s = solver_model s"
    by (simp_all add: set_pb_def)
  have "map (\<lambda>c. (pb_lhs c, pb_rhs c)) (constraintsPB ?s) = map (\<lambda>c. (pb_lhs c, pb_rhs c)) (constraintsPB s)"
    using len e by (intro nth_equalityI) simp_all
  then have d: "same_db s ?s" by (simp add: same_db_def set_pb_def)
  then show "prop_ext s ?s" by (simp add: prop_ext_def set_pb_def)
  have "pb_ok (numVars s) (constraintsPB ?s ! k)" if "k < length (constraintsPB s)" for k
  proof -
    have "constraintsPB s ! k \<in> set (constraintsPB s)" using that by simp
    then have "pb_ok (numVars s) (constraintsPB s ! k)" using assms(1) by (auto simp: core_inv_def db_ok_def)
    with e [of k] show ?thesis by (simp add: pb_ok_def)
  qed
  then have "\<forall>c \<in> set (constraintsPB ?s). pb_ok (numVars ?s) c"
    using len unfolding all_set_conv_all_nth by (simp add: set_pb_def)
  moreover have "\<forall>c \<in> set (clauses ?s). cl_ok (numVars ?s) c" "\<forall>l. \<forall>l' \<in> set (binClauses ?s l). l \<noteq> 0 \<and> l' \<noteq> 0 \<and> \<bar>l'\<bar> \<le> numVars ?s"
    "length (sumOfWatches ?s) = length (constraintsPB ?s)" "length (useCounter ?s) = length (constraintsPB ?s)"
    using assms(1) by (simp_all add: core_inv_def db_ok_def set_pb_def)
  ultimately have "db_ok ?s" unfolding db_ok_def by blast
  moreover have "lists_ok ?s = lists_ok s"
    unfolding lists_ok_def len using e by (simp add: set_pb_def cong: gwl_elem.case_cong)
  moreover have "watches_ok ?s = watches_ok s" by (rule same_fields_watches_ok) (simp_all add: set_pb_def)
  ultimately show "core_inv ?s"
    using assms(1) same_db_stack_ok [OF d] by (simp add: core_inv_def trail_ok_stack trail_range_def set_pb_def)
qed

lemma drop_subset_lhs: "set (drop i ms) \<subseteq> set ms"
  by (rule set_drop_subset)

lemma propagatePBCtrCounter_facts:
  assumes inv: "core_inv s" and n: "n < length (constraintsPB s)"
    and slk: "msum (\<lambda>l. - l \<notin> set (tlits (solver_model s))) (pb_lhs (constraintsPB s ! n)) - pb_rhs (constraintsPB s ! n) \<le> wslk"
  shows "core_inv (propagatePBCtrCounter n wslk s)" "prop_ext s (propagatePBCtrCounter n wslk s)"
    "sumOfWatches (propagatePBCtrCounter n wslk s) = sumOfWatches s"
    "conflict (propagatePBCtrCounter n wslk s) = conflict s"
proof -
  let ?c = "constraintsPB s ! n"
  define s1 where "s1 = (if pb_numBackjump ?c < numOfBackjump (solver_stats s)
     then set_pb n (\<lambda>c. c\<lparr>pb_numBackjump := numOfBackjump (solver_stats s)\<rparr>) s else s)"
  define i0 where "i0 = (if pb_numBackjump ?c < numOfBackjump (solver_stats s) then 0 else pb_maxWIdx ?c)"
  obtain i s2 where l: "pb_prop_loop n wslk (drop (nat i0) (pb_lhs ?c)) i0 s1 = (i, s2)" by fastforce
  have p: "propagatePBCtrCounter n wslk s = set_pb n (\<lambda>c. c\<lparr>pb_maxWIdx := i\<rparr>) s2"
    using l by (simp add: propagatePBCtrCounter_def Let_def s1_def i0_def split: if_splits)
  have 1: "core_inv s1" "prop_ext s s1" "sumOfWatches s1 = sumOfWatches s" "conflict s1 = conflict s"
    "solver_model s1 = solver_model s" "length (constraintsPB s1) = length (constraintsPB s)"
    "pb_lhs (constraintsPB s1 ! n) = pb_lhs ?c" "pb_rhs (constraintsPB s1 ! n) = pb_rhs ?c"
    using set_pb_facts [OF inv _ _ n, of "\<lambda>c. c\<lparr>pb_numBackjump := numOfBackjump (solver_stats s)\<rparr>"] inv
    by (simp_all add: s1_def)
  have 2: "core_inv s2 \<and> prop_ext s1 s2 \<and> sumOfWatches s2 = sumOfWatches s1 \<and> conflict s2 = conflict s1
    \<and> constraintsPB s2 = constraintsPB s1"
    using n slk by (intro pb_prop_loop_facts [OF 1(1) _ _ _ l]) (simp_all add: 1 set_drop_subset)
  note 3 = set_pb_facts [of s2 "\<lambda>c. c\<lparr>pb_maxWIdx := i\<rparr>" n]
  have 4: "core_inv s2" "n < length (constraintsPB s2)" using 2 n 1(6) by simp_all
  show "core_inv (propagatePBCtrCounter n wslk s)" "sumOfWatches (propagatePBCtrCounter n wslk s) = sumOfWatches s"
    "conflict (propagatePBCtrCounter n wslk s) = conflict s"
    using 3(1,3,4) [OF 4(1) _ _ 4(2)] 2 1(3,4) unfolding p by simp_all
  have "prop_ext s2 (propagatePBCtrCounter n wslk s)" using 3(2) [OF 4(1) _ _ 4(2)] unfolding p by simp
  then show "prop_ext s (propagatePBCtrCounter n wslk s)"
    using prop_ext_trans [OF 1(2)] prop_ext_trans 2 by blast
qed

section \<open>Visiting the counter constraints of a literal\<close>

text \<open>
  What the counters may be while the rest \<open>es\<close> of the list is still to be visited: never below
  the slack with respect to the whole trail once \<open>es\<close> has been taken off.
\<close>

definition counters_above :: "('a::linorder) solver \<Rightarrow> gwl_elem list \<Rightarrow> bool" where
  "counters_above s es \<longleftrightarrow> (\<forall>c < length (constraintsPB s).
     counter_value (tlits (solver_model s)) (constraintsPB s ! c) \<le> sumOfWatches s ! c - gen_sum c es)"

definition entries_ok :: "('a::linorder) solver \<Rightarrow> gwl_elem list \<Rightarrow> bool" where
  "entries_ok s es \<longleftrightarrow> (\<forall>k c. COUNTERPB k c \<in> set es \<longrightarrow> c < length (constraintsPB s) \<and> 0 < k)"

lemma gen_sum_nonneg: "(\<And>k. COUNTERPB k c \<in> set es \<Longrightarrow> 0 < k) \<Longrightarrow> 0 \<le> gen_sum c es"
proof (induction es)
  case (Cons e es)
  then have "0 \<le> gen_sum c es" by simp
  with Cons.prems show ?case by (cases e) (auto simp: less_imp_le add_nonneg_nonneg)
qed simp

lemma counter_value_mono:
  assumes "pos_coeffs (pb_lhs c)" "set ps \<subseteq> set qs" shows "counter_value qs c \<le> counter_value ps c"
proof -
  have "msum (\<lambda>l. - l \<notin> set qs) (pb_lhs c) \<le> msum (\<lambda>l. - l \<notin> set ps) (pb_lhs c)"
    using assms by (intro msum_mono) auto
  then show ?thesis by (simp add: counter_value_def)
qed

lemma counters_above_ext:
  assumes "counters_above s es" "prop_ext s t" "sumOfWatches t = sumOfWatches s" "core_inv s"
  shows "counters_above t es"
proof -
  have d: "same_db s t" using assms(2) by (rule prop_ext_db)
  have "counter_value (tlits (solver_model t)) (constraintsPB t ! c) \<le> counter_value (tlits (solver_model s)) (constraintsPB s ! c)"
    if c: "c < length (constraintsPB s)" for c
  proof -
    have "constraintsPB s ! c \<in> set (constraintsPB s)" using c by simp
    then have "pos_coeffs (pb_lhs (constraintsPB s ! c))"
      using assms(4) by (auto simp: core_inv_def db_ok_def pb_ok_def)
    then have "counter_value (tlits (solver_model t)) (constraintsPB s ! c) \<le> counter_value (tlits (solver_model s)) (constraintsPB s ! c)"
      using prop_ext_tlits [OF assms(2)] by (rule counter_value_mono)
    then show ?thesis using same_db_pb [OF d c] by (simp add: counter_value_def)
  qed
  then show ?thesis using assms(1,3) same_db_length [OF d] unfolding counters_above_def by fastforce
qed

definition sums_update :: "nat \<Rightarrow> int \<Rightarrow> ('a::linorder) solver \<Rightarrow> 'a solver" where
  "sums_update c x s = s\<lparr>sumOfWatches := (sumOfWatches s)[c := x]\<rparr>"

lemma core_inv_sums [simp]:
  "length x = length (sumOfWatches s) \<Longrightarrow> core_inv (s\<lparr>sumOfWatches := x\<rparr>) = core_inv s"
proof -
  assume len: "length x = length (sumOfWatches s)"
  let ?s = "s\<lparr>sumOfWatches := x\<rparr>"
  have d: "same_db s ?s" by (simp add: same_db_def)
  have "lists_ok ?s = lists_ok s" "watches_ok ?s = watches_ok s"
    by (rule same_fields_lists_ok; simp) (rule same_fields_watches_ok; simp)
  then show ?thesis
    using len same_db_stack_ok [OF d] by (simp add: core_inv_def db_ok_def trail_ok_stack trail_range_def)
qed

lemma core_inv_conflict [simp]:
  "core_inv (s\<lparr>conflict := x, typeConflict := y, constraintConflictNum := z\<rparr>) = core_inv s"
proof -
  let ?s = "s\<lparr>conflict := x, typeConflict := y, constraintConflictNum := z\<rparr>"
  have d: "same_db s ?s" by (simp add: same_db_def)
  have "lists_ok ?s = lists_ok s" "watches_ok ?s = watches_ok s"
    by (rule same_fields_lists_ok; simp) (rule same_fields_watches_ok; simp)
  then show ?thesis
    using same_db_stack_ok [OF d] by (simp add: core_inv_def db_ok_def trail_ok_stack trail_range_def)
qed

lemma visit_pb_loop_facts:
  assumes "core_inv s" "\<not> conflict s" "entries_ok s es" "counters_above s es"
    and "visit_pb_loop es n s = (n', s')"
  shows "core_inv s' \<and> prop_ext s s' \<and> conflict_ok s' \<and> length (sumOfWatches s') = length (sumOfWatches s)
    \<and> (\<not> conflict s' \<longrightarrow> (\<forall>c < length (constraintsPB s). sumOfWatches s' ! c = sumOfWatches s ! c - gen_sum c es))
    \<and> (\<not> conflict s' \<longrightarrow> slacks_nonneg s \<longrightarrow> slacks_nonneg s')
    \<and> (conflict s' \<longrightarrow> n < n' \<and> (\<forall>sums. length sums = length (sumOfWatches s) \<longrightarrow>
         (\<forall>c < length (constraintsPB s). restore_pb_loop es n' n sums ! c = sums ! c + (sumOfWatches s ! c - sumOfWatches s' ! c))))"
  using assms
proof (induction es n s arbitrary: n' s' rule: visit_pb_loop.induct)
  case (1 n s)
  then show ?case by (simp add: conflict_ok_def)
next
  case (2 k c es n s)
  define s1 where "s1 = s\<lparr>sumOfWatches := (sumOfWatches s)[c := sumOfWatches s ! c - k]\<rparr>"
  have ec: "c < length (constraintsPB s)" "0 < k" using "2.prems"(3) by (auto simp: entries_ok_def)
  have slen: "length (sumOfWatches s) = length (constraintsPB s)" using "2.prems"(1) by (simp add: core_inv_def db_ok_def)
  have "constraintsPB s ! c \<in> set (constraintsPB s)" using ec by simp
  then have ok: "pb_ok (numVars s) (constraintsPB s ! c)" using "2.prems"(1) by (auto simp: core_inv_def db_ok_def)
  have s1: "core_inv s1" "prop_ext s s1" "\<not> conflict s1" "entries_ok s1 es" "solver_model s1 = solver_model s"
    "constraintsPB s1 = constraintsPB s"
    using "2.prems"(1-3) by (simp_all add: s1_def prop_ext_def same_db_def entries_ok_def)
  have sums1: "sumOfWatches s1 ! d = sumOfWatches s ! d - (if d = c then k else 0)" if "d < length (constraintsPB s)" for d
    using that slen by (simp add: s1_def nth_list_update)
  have above1: "counters_above s1 es"
    using "2.prems"(4) sums1 unfolding counters_above_def s1(5,6) by fastforce
  have g: "0 \<le> gen_sum c es" using s1(4) by (intro gen_sum_nonneg) (auto simp: entries_ok_def)
  define SNF where "SNF = sumOfWatches s1 ! c"
  define mx where "mx = fst (pb_lhs (constraintsPB s ! c) ! 0)"
  have slk: "msum (\<lambda>l. - l \<notin> set (tlits (solver_model s))) (pb_lhs (constraintsPB s ! c)) - pb_rhs (constraintsPB s ! c) \<le> SNF + mx"
    using above1 ec(1) g unfolding counters_above_def s1(5,6) SNF_def mx_def counter_value_def by fastforce
  have mx: "0 < mx" using ok unfolding mx_def pb_ok_def by (cases "pb_lhs (constraintsPB s ! c)") auto
  have step: "visit_pb_loop (COUNTERPB k c # es) n s =
      (if SNF < 0 then if SNF + mx < 0
           then (n + 1, s1\<lparr>conflict := True, typeConflict := CONFLICT_PB, constraintConflictNum := c\<rparr>)
           else visit_pb_loop es (n + 1) (propagatePBCtrCounter c (SNF + mx) s1)
       else visit_pb_loop es (n + 1) s1)"
    by (simp add: s1_def [symmetric] SNF_def mx_def s1(6) Let_def)
  have rest: "restore_pb_loop (COUNTERPB k c # es) n' n sums =
      (if n + 1 = n' then sums[c := sums ! c + k] else restore_pb_loop es n' (n + 1) (sums[c := sums ! c + k]))" for n' sums
    by (simp add: Let_def)
  have nonneg1: "slacks_nonneg s1" if "slacks_nonneg s" "0 \<le> SNF + mx"
    unfolding slacks_nonneg_def
  proof (intro allI impI)
    fix d assume "d < length (constraintsPB s1)"
    with that sums1 [of d] show "0 \<le> sumOfWatches s1 ! d + fst (pb_lhs (constraintsPB s1 ! d) ! 0)"
      by (cases "d = c") (simp_all add: slacks_nonneg_def s1(6) SNF_def mx_def)
  qed
  have goon: ?case
    if t: "core_inv t" "prop_ext s1 t" "\<not> conflict t" "sumOfWatches t = sumOfWatches s1"
      and r: "visit_pb_loop es (n + 1) t = (n', s')"
      and IH: "core_inv t \<Longrightarrow> \<not> conflict t \<Longrightarrow> entries_ok t es \<Longrightarrow> counters_above t es \<Longrightarrow> visit_pb_loop es (n + 1) t = (n', s') \<Longrightarrow>
        core_inv s' \<and> prop_ext t s' \<and> conflict_ok s' \<and> length (sumOfWatches s') = length (sumOfWatches t)
    \<and> (\<not> conflict s' \<longrightarrow> (\<forall>c < length (constraintsPB t). sumOfWatches s' ! c = sumOfWatches t ! c - gen_sum c es))
    \<and> (\<not> conflict s' \<longrightarrow> slacks_nonneg t \<longrightarrow> slacks_nonneg s')
    \<and> (conflict s' \<longrightarrow> n + 1 < n' \<and> (\<forall>sums. length sums = length (sumOfWatches t) \<longrightarrow>
         (\<forall>c < length (constraintsPB t). restore_pb_loop es n' (n + 1) sums ! c = sums ! c + (sumOfWatches t ! c - sumOfWatches s' ! c))))"
      and nn: "0 \<le> SNF + mx" for t
  proof -
    have len: "length (constraintsPB t) = length (constraintsPB s)"
      using same_db_length [OF prop_ext_db [OF t(2)]] s1(6) by simp
    have "entries_ok t es" using s1(4) len by (simp add: entries_ok_def s1(6))
    moreover have "counters_above t es" by (rule counters_above_ext [OF above1 t(2,4) s1(1)])
    ultimately have I: "core_inv s'" "prop_ext t s'" "conflict_ok s'" "length (sumOfWatches s') = length (sumOfWatches t)"
      "\<not> conflict s' \<Longrightarrow> d < length (constraintsPB s) \<Longrightarrow> sumOfWatches s' ! d = sumOfWatches s1 ! d - gen_sum d es"
      "\<not> conflict s' \<Longrightarrow> slacks_nonneg t \<Longrightarrow> slacks_nonneg s'"
      "conflict s' \<Longrightarrow> n + 1 < n'"
      "conflict s' \<Longrightarrow> length sums = length (sumOfWatches t) \<Longrightarrow> d < length (constraintsPB s) \<Longrightarrow>
         restore_pb_loop es n' (n + 1) sums ! d = sums ! d + (sumOfWatches s1 ! d - sumOfWatches s' ! d)" for d sums
      using IH [OF t(1,3) _ _ r] len t(4) by auto
    have "slacks_nonneg t" if "slacks_nonneg s"
      using nonneg1 [OF that nn] len t(4) same_db_pb [OF prop_ext_db [OF t(2)]] s1(6)
      by (simp add: slacks_nonneg_def)
    moreover have "prop_ext s s'" using prop_ext_trans [OF s1(2)] prop_ext_trans [OF t(2) I(2)] by blast
    moreover have "length (sumOfWatches t) = length (sumOfWatches s)" by (simp add: t(4) s1_def)
    moreover have "restore_pb_loop (COUNTERPB k c # es) n' n sums ! d = sums ! d + (sumOfWatches s ! d - sumOfWatches s' ! d)"
      if "conflict s'" "length sums = length (sumOfWatches s)" "d < length (constraintsPB s)" for sums d
    proof -
      have "restore_pb_loop es n' (n + 1) (sums[c := sums ! c + k]) ! d
          = sums[c := sums ! c + k] ! d + (sumOfWatches s1 ! d - sumOfWatches s' ! d)"
        using I(8) [OF that(1) _ that(3)] that(2) \<open>length (sumOfWatches t) = length (sumOfWatches s)\<close> by simp
      then show ?thesis
        using I(7) [OF that(1)] sums1 [OF that(3)] that(2,3) slen ec(1) unfolding rest by (simp add: nth_list_update)
    qed
    moreover have "sumOfWatches s' ! d = sumOfWatches s ! d - gen_sum d (COUNTERPB k c # es)"
      if "\<not> conflict s'" "d < length (constraintsPB s)" for d
      using I(5) [OF that] sums1 [OF that(2)] by simp
    ultimately show ?thesis using I(1,3,4,6) I(7) by force
  qed
  show ?case
  proof (cases "SNF < 0 \<and> SNF + mx < 0")
    case True
    then have s': "s' = s1\<lparr>conflict := True, typeConflict := CONFLICT_PB, constraintConflictNum := c\<rparr>" "n' = n + 1"
      using "2.prems"(5) unfolding step by auto
    have "core_inv s'" using s1(1) unfolding s' by simp
    moreover have "prop_ext s s'" using s1(2) by (simp add: s' prop_ext_def same_db_def)
    moreover have "conflict_ok s'"
      using True slk ec(1) by (simp add: conflict_ok_def s' Let_def s1(5,6))
    moreover have "length (sumOfWatches s') = length (sumOfWatches s)" by (simp add: s' s1_def)
    moreover have "restore_pb_loop (COUNTERPB k c # es) n' n sums ! d = sums ! d + (sumOfWatches s ! d - sumOfWatches s' ! d)"
      if "length sums = length (sumOfWatches s)" "d < length (constraintsPB s)" for sums d
      using that sums1 [OF that(2)] slen unfolding rest by (simp add: s' nth_list_update)
    ultimately show ?thesis by (simp add: s')
  next
    case False
    show ?thesis
    proof (cases "SNF < 0")
      case neg: True
      with False have nn: "0 \<le> SNF + mx" by simp
      have ec1: "c < length (constraintsPB s1)" using ec(1) s1(6) by simp
      note P = propagatePBCtrCounter_facts [OF s1(1) ec1 slk [folded s1(5,6)]]
      have nc: "\<not> conflict (propagatePBCtrCounter c (SNF + mx) s1)" using P(4) s1(3) by simp
      have "visit_pb_loop es (n + 1) (propagatePBCtrCounter c (SNF + mx) s1) = (n', s')"
        using "2.prems"(5) neg nn unfolding step by simp
      moreover have "SNF + mx = SNF + fst (pb_lhs (constraintsPB s1 ! c) ! 0)" by (simp add: mx_def s1(6))
      ultimately show ?thesis
        using nn by (intro goon [OF P(1,2) nc P(3) _ "2.IH"(1) [OF s1_def SNF_def neg _ _] nn]) simp_all
    next
      case pos: False
      then have r: "visit_pb_loop es (n + 1) s1 = (n', s')" using "2.prems"(5) unfolding step by simp
      have nn: "0 \<le> SNF + mx" using pos mx by simp
      note IH = "2.IH"(2) [OF s1_def SNF_def pos, of n' s']
      show ?thesis by (rule goon [OF s1(1) prop_ext_refl s1(3) refl r _ nn]) (rule IH)
    qed
  qed
qed (simp_all add: entries_ok_def counters_above_def)

text \<open>The whole visit: counters taken down without a conflict, left as they were with one.\<close>

lemma visit_entries:
  assumes inv: "core_inv s"
    and co: "\<And>c. c < length (constraintsPB s) \<Longrightarrow> sumOfWatches s ! c = counter_value ps (constraintsPB s ! c)"
    and ps: "set (ps @ [l]) \<subseteq> set (tlits (solver_model s))" "\<bar>l\<bar> \<notin> abs ` set ps" "l \<noteq> 0"
  shows "entries_ok s (genWatchList s (- l))" "counters_above s (genWatchList s (- l))"
    "c < length (constraintsPB s) \<Longrightarrow>
       counter_value (ps @ [l]) (constraintsPB s ! c) = sumOfWatches s ! c - gen_sum c (genWatchList s (- l))"
proof -
  let ?es = "genWatchList s (- l)"
  have li: "lists_ok s" using inv by (simp add: core_inv_def)
  have gs: "gen_sum c ?es = msum (\<lambda>x. x = - l) (pb_lhs (constraintsPB s ! c))" if "c < length (constraintsPB s)" for c
    using li that by (simp add: lists_ok_def)
  have snoc: "counter_value (ps @ [l]) (constraintsPB s ! c) = sumOfWatches s ! c - gen_sum c ?es"
    if "c < length (constraintsPB s)" for c
    using counter_value_snoc [OF ps(2,3), of "constraintsPB s ! c"] co [OF that] gs [OF that] by simp
  then show "c < length (constraintsPB s) \<Longrightarrow>
       counter_value (ps @ [l]) (constraintsPB s ! c) = sumOfWatches s ! c - gen_sum c ?es" .
  show "entries_ok s ?es" using li unfolding entries_ok_def lists_ok_def by fastforce
  show "counters_above s ?es"
    unfolding counters_above_def
  proof (intro allI impI)
    fix c assume c: "c < length (constraintsPB s)"
    then have "constraintsPB s ! c \<in> set (constraintsPB s)" by simp
    then have "pos_coeffs (pb_lhs (constraintsPB s ! c))" using inv by (auto simp: core_inv_def db_ok_def pb_ok_def)
    from counter_value_mono [OF this ps(1)] snoc [OF c]
    show "counter_value (tlits (solver_model s)) (constraintsPB s ! c) \<le> sumOfWatches s ! c - gen_sum c ?es" by simp
  qed
qed

lemma visitPBCounterLists_facts:
  assumes inv: "core_inv s" "\<not> conflict s"
    and co: "\<And>c. c < length (constraintsPB s) \<Longrightarrow> sumOfWatches s ! c = counter_value ps (constraintsPB s ! c)"
    and ps: "set (ps @ [l]) \<subseteq> set (tlits (solver_model s))" "\<bar>l\<bar> \<notin> abs ` set ps" "l \<noteq> 0"
    and s': "s' = visitPBCounterLists (- l) s"
  shows "core_inv s'" "prop_ext s s'" "conflict_ok s'" "slacks_nonneg s \<Longrightarrow> slacks_nonneg s'"
    "c < length (constraintsPB s) \<Longrightarrow>
       sumOfWatches s' ! c = counter_value (if conflict s' then ps else ps @ [l]) (constraintsPB s ! c)"
proof -
  let ?es = "genWatchList s (- l)"
  note snoc = visit_entries(3) [OF inv(1) co ps]
  note visit_entries(1,2) [OF inv(1) co ps]
  moreover obtain n s1 where v: "visit_pb_loop ?es 0 s = (n, s1)" by fastforce
  ultimately have F: "core_inv s1" "prop_ext s s1" "conflict_ok s1" "length (sumOfWatches s1) = length (sumOfWatches s)"
    "\<not> conflict s1 \<Longrightarrow> c < length (constraintsPB s) \<Longrightarrow> sumOfWatches s1 ! c = sumOfWatches s ! c - gen_sum c ?es"
    "\<not> conflict s1 \<Longrightarrow> slacks_nonneg s \<Longrightarrow> slacks_nonneg s1"
    "conflict s1 \<Longrightarrow> length sums = length (sumOfWatches s) \<Longrightarrow> c < length (constraintsPB s) \<Longrightarrow>
         restore_pb_loop ?es n 0 sums ! c = sums ! c + (sumOfWatches s ! c - sumOfWatches s1 ! c)" for c sums
    using visit_pb_loop_facts [OF inv, of ?es 0 n s1] by auto
  have d: "same_db s s1" by (rule prop_ext_db [OF F(2)])
  have gl: "genWatchList s1 = genWatchList s" using F(2) by (simp add: prop_ext_def)
  have rl: "length (restore_pb_loop es a b sums) = length sums" for es a b sums
    by (induction es a b sums rule: restore_pb_loop.induct) (auto simp: Let_def)
  have "core_inv s' \<and> prop_ext s s' \<and> conflict_ok s' \<and> (slacks_nonneg s \<longrightarrow> slacks_nonneg s') \<and>
      (\<forall>c < length (constraintsPB s).
       sumOfWatches s' ! c = counter_value (if conflict s' then ps else ps @ [l]) (constraintsPB s ! c))"
  proof (cases "conflict s1")
    case False
    then have "s' = s1" using s' v by (simp add: visitPBCounterLists_def)
    with F False snoc show ?thesis by simp
  next
    case True
    let ?sums = "restore_pb_loop ?es n 0 (sumOfWatches s1)"
    have e: "s' = s1\<lparr>sumOfWatches := ?sums\<rparr>" using s' v True gl by (simp add: visitPBCounterLists_def)
    have sm: "?sums ! c = sumOfWatches s ! c" if "c < length (constraintsPB s)" for c
      using F(7) [OF True F(4) that] by simp
    have 1: "core_inv s'" using F(1) rl unfolding e by simp
    have 2: "prop_ext s s'" using F(2) by (simp add: e prop_ext_def same_db_def)
    have 3: "conflict_ok s'" using F(3) by (simp add: e conflict_ok_def cong: conflict_type.case_cong)
    have 4: "slacks_nonneg s'" if "slacks_nonneg s"
      unfolding slacks_nonneg_def
    proof (intro allI impI)
      fix c assume "c < length (constraintsPB s')"
      then have c: "c < length (constraintsPB s)" using same_db_length [OF d] by (simp add: e)
      then show "0 \<le> sumOfWatches s' ! c + fst (pb_lhs (constraintsPB s' ! c) ! 0)"
        using that sm [OF c] same_db_pb [OF d c] by (simp add: e slacks_nonneg_def)
    qed
    have 5: "sumOfWatches s' ! c = counter_value (if conflict s' then ps else ps @ [l]) (constraintsPB s ! c)"
      if "c < length (constraintsPB s)" for c
      using sm [OF that] co [OF that] True by (simp add: e)
    from 1 2 3 4 5 show ?thesis by blast
  qed
  then show "core_inv s'" "prop_ext s s'" "conflict_ok s'" "slacks_nonneg s \<Longrightarrow> slacks_nonneg s'"
    "c < length (constraintsPB s) \<Longrightarrow>
       sumOfWatches s' ! c = counter_value (if conflict s' then ps else ps @ [l]) (constraintsPB s ! c)"
    by blast+
qed

section \<open>The propagation loop\<close>

text \<open>One round: the literal taken from the trail is visited by the three visits in turn.\<close>

definition visit_literal :: "lit \<Rightarrow> ('a::linorder) solver \<Rightarrow> 'a solver" where
  "visit_literal l s =
     (let s1 = visitBinClause (- l) s
      in if conflict s1 then s1
         else let s2 = visitClauseWatchList (- l) s1
              in if conflict s2 then s2 else visitPBCounterLists (- l) s2)"

lemma propagate_round:
  "propagate s =
     (if areAllLitsPropagated (solver_model s) then Some s
      else let (l, m) = getNextLitToPropagatePB (solver_model s); s3 = visit_literal l (s\<lparr>solver_model := m\<rparr>)
           in if conflict s3 then Some (decrease_lastPropagated s3) else propagate s3)"
  by (subst propagate.simps) (auto simp: visit_literal_def Let_def split: prod.splits)

lemma visit_literal_facts:
  assumes inv: "core_inv s" "\<not> conflict s"
    and co: "\<And>c. c < length (constraintsPB s) \<Longrightarrow> sumOfWatches s ! c = counter_value ps (constraintsPB s ! c)"
    and ps: "set (ps @ [l]) \<subseteq> set (tlits (solver_model s))" "\<bar>l\<bar> \<notin> abs ` set ps" "l \<noteq> 0"
    and s': "s' = visit_literal l s"
  shows "core_inv s' \<and> prop_ext s s' \<and> conflict_ok s' \<and> (slacks_nonneg s \<longrightarrow> slacks_nonneg s') \<and>
    (\<forall>c < length (constraintsPB s).
       sumOfWatches s' ! c = counter_value (if conflict s' then ps else ps @ [l]) (constraintsPB s ! c))"
proof -
  have l: "- (- l) \<in> set (tlits (solver_model s))" using ps(1) by simp
  have keep: "slacks_nonneg s \<Longrightarrow> slacks_nonneg t" if "prop_ext s t" "sumOfWatches t = sumOfWatches s" for t
    using that same_db_length [OF prop_ext_db [OF that(1)]] same_db_pb [OF prop_ext_db [OF that(1)]]
    by (simp add: slacks_nonneg_def)
  define s1 where "s1 = visitBinClause (- l) s"
  note F1 = visitBinClause_facts [OF inv l s1_def]
  show ?thesis
  proof (cases "conflict s1")
    case True
    then have "s' = s1" by (simp add: s' visit_literal_def s1_def Let_def)
    then show ?thesis using F1 keep [OF F1(2,4)] True co by simp
  next
    case False
    define s2 where "s2 = visitClauseWatchList (- l) s1"
    have l1: "- (- l) \<in> set (tlits (solver_model s1))" using prop_ext_tlits [OF F1(2)] l by blast
    note F2 = visitClauseWatchList_facts [OF F1(1) False l1 s2_def]
    have e2: "prop_ext s s2" and sums2: "sumOfWatches s2 = sumOfWatches s"
      using prop_ext_trans [OF F1(2) F2(2)] F1(4) F2(4) by auto
    show ?thesis
    proof (cases "conflict s2")
      case True
      then have "s' = s2" using False by (simp add: s' visit_literal_def s1_def s2_def Let_def)
      then show ?thesis using F2 e2 keep [OF e2 sums2] sums2 True co by simp
    next
      case nc: False
      then have s3: "s' = visitPBCounterLists (- l) s2"
        using False by (simp add: s' visit_literal_def s1_def s2_def Let_def)
      have d: "same_db s s2" by (rule prop_ext_db [OF e2])
      have co2: "sumOfWatches s2 ! c = counter_value ps (constraintsPB s2 ! c)" if "c < length (constraintsPB s2)" for c
        using co [of c] that same_db_length [OF d] same_db_pb [OF d, of c] sums2 by (simp add: counter_value_def)
      have ps2: "set (ps @ [l]) \<subseteq> set (tlits (solver_model s2))" using ps(1) prop_ext_tlits [OF e2] by blast
      note F3 = visitPBCounterLists_facts [OF F2(1) nc co2 ps2 ps(2,3) s3]
      have "sumOfWatches s' ! c = counter_value (if conflict s' then ps else ps @ [l]) (constraintsPB s ! c)"
        if "c < length (constraintsPB s)" for c
        using F3(5) [of c] that same_db_length [OF d] same_db_pb [OF d that] by (simp add: counter_value_def)
      then show ?thesis
        using F3(1-4) prop_ext_trans [OF e2 F3(2)] keep [OF e2 sums2] by blast
    qed
  qed
qed

text \<open>The result of propagation: the trail extended, the database the same.\<close>

definition prop_result :: "('a::linorder) solver \<Rightarrow> 'a solver \<Rightarrow> bool" where
  "prop_result s s' \<longleftrightarrow> solver_inv s' \<and> same_db s s' \<and> genWatchList s' = genWatchList s \<and> occurLists s' = occurLists s
     \<and> (\<exists>new. modelStack (solver_model s') = modelStack (solver_model s) @ new \<and> (\<forall>e \<in> set new. se_reason e \<noteq> NoReason))
     \<and> decisions (solver_model s') = decisions (solver_model s)
     \<and> conflict_ok s' \<and> (slacks_nonneg s \<longrightarrow> slacks_nonneg s')
     \<and> (\<not> conflict s' \<longrightarrow> areAllLitsPropagated (solver_model s'))
     \<and> lastPropagated (solver_model s) \<le> lastPropagated (solver_model s')"

lemma trail_length:
  assumes "core_inv s" shows "int (length (modelStack (solver_model s))) \<le> max 0 (numVars s)"
proof -
  let ?t = "tlits (solver_model s)"
  have d: "distinct (map abs ?t)" "0 \<notin> set ?t" using assms by (auto simp: core_inv_def wf_model_def wf_stack_def)
  have "abs ` set ?t \<subseteq> {1..numVars s}"
  proof
    fix v assume "v \<in> abs ` set ?t"
    then obtain x where x: "x \<in> set ?t" "v = \<bar>x\<bar>" by blast
    then have "x \<noteq> 0" "\<bar>x\<bar> \<le> numVars s" using d(2) assms by (auto simp: core_inv_def trail_range_def)
    then show "v \<in> {1..numVars s}" using x(2) by auto
  qed
  then have "card (set (map abs ?t)) \<le> card {1..numVars s}" by (intro card_mono) auto
  then show ?thesis using distinct_card [OF d(1)] by simp
qed

lemma core_inv_model_update:
  assumes "core_inv s" "wf_model m" "modelStack m = modelStack (solver_model s)"
  shows "core_inv (s\<lparr>solver_model := m\<rparr>)"
proof -
  let ?s = "s\<lparr>solver_model := m\<rparr>"
  have d: "same_db s ?s" by (simp add: same_db_def)
  have "lists_ok ?s = lists_ok s" "watches_ok ?s = watches_ok s" "db_ok ?s = db_ok s"
    by (rule same_fields_lists_ok; simp) (rule same_fields_watches_ok same_fields_db_ok; simp)+
  then show ?thesis
    using assms same_db_stack_ok [OF d] by (simp add: core_inv_def trail_ok_stack trail_range_def tlits_def)
qed

lemma wf_model_lastPropagated:
  "wf_model m \<Longrightarrow> -1 \<le> i \<Longrightarrow> i < int (length (modelStack m)) \<Longrightarrow> wf_model (m\<lparr>lastPropagated := i\<rparr>)"
  by (simp add: wf_model_def)

text \<open>One round of the loop from a state with something to propagate.\<close>

lemma propagate_step:
  assumes si: "solver_inv s" and nc: "\<not> conflict s" and todo: "\<not> areAllLitsPropagated (solver_model s)"
  obtains l m s3 where "getNextLitToPropagatePB (solver_model s) = (l, m)" "s3 = visit_literal l (s\<lparr>solver_model := m\<rparr>)"
    "core_inv (s\<lparr>solver_model := m\<rparr>)" "prop_ext (s\<lparr>solver_model := m\<rparr>) s3" "core_inv s3" "conflict_ok s3"
    "modelStack m = modelStack (solver_model s)" "lastPropagated m = lastPropagated (solver_model s) + 1"
    "l \<in> set (tlits (solver_model s))"
    "\<And>c. c < length (constraintsPB s) \<Longrightarrow> sumOfWatches s3 ! c =
       counter_value (if conflict s3 then plits (solver_model s) else plits (solver_model s) @ [l]) (constraintsPB s ! c)"
    "\<not> conflict s3 \<Longrightarrow> solver_inv s3" "slacks_nonneg s \<longrightarrow> slacks_nonneg s3"
    "propagate s = (if conflict s3 then Some (decrease_lastPropagated s3) else propagate s3)"
proof -
  let ?m = "solver_model s"
  have inv: "core_inv s" and co: "counters_ok s" and w: "wf_model ?m"
    using si by (auto simp: solver_inv_def core_inv_def)
  obtain l m where n: "getNextLitToPropagatePB ?m = (l, m)" by fastforce
  note N = getNextLit_facts [OF w n]
  have l0: "l \<noteq> 0" using N(4) todo by simp
  have pm: "plits m = plits ?m @ [l]" and lpm: "lastPropagated m = lastPropagated ?m + 1" using N(6) [OF l0] by auto
  define s0 where "s0 = s\<lparr>solver_model := m\<rparr>"
  have c0: "core_inv s0" unfolding s0_def by (rule core_inv_model_update [OF inv N(1,3)])
  have co0: "sumOfWatches s0 ! c = counter_value (plits ?m) (constraintsPB s0 ! c)" if "c < length (constraintsPB s0)" for c
    using co that by (simp add: counters_ok_def s0_def)
  have sub: "set (plits ?m @ [l]) \<subseteq> set (tlits (solver_model s0))"
    unfolding pm [symmetric] by (auto simp: s0_def plits_def dest: in_set_takeD)
  have "wf_stack (tlits m)" using N(1) by (simp add: wf_model_def)
  moreover have "tlits m = plits m @ drop (nat (lastPropagated m + 1)) (tlits m)" by (simp add: plits_def)
  ultimately have "wf_stack (plits ?m @ [l])" unfolding pm by (metis distinct_append map_append wf_stack_def Un_iff set_append)
  then have fresh: "\<bar>l\<bar> \<notin> abs ` set (plits ?m)" by (simp add: wf_stack_snoc)
  define s3 where "s3 = visit_literal l s0"
  have nc0: "\<not> conflict s0" using nc by (simp add: s0_def)
  note V = visit_literal_facts [OF c0 nc0 co0 sub fresh l0 s3_def]
  have e3: "prop_ext s0 s3" and c3: "core_inv s3" using V by auto
  have st: "tlits m = tlits ?m" using N(3) by (simp add: tlits_def)
  have sums: "sumOfWatches s3 ! c = counter_value (if conflict s3 then plits ?m else plits ?m @ [l]) (constraintsPB s ! c)"
    if "c < length (constraintsPB s)" for c using V that by (simp add: s0_def)
  have d: "same_db s s3" using e3 by (simp add: prop_ext_def s0_def same_db_def)
  have pl3: "plits (solver_model s3) = plits ?m @ [l]" using prop_ext_plits [OF e3] c0 pm by (simp add: core_inv_def s0_def)
  have si3: "solver_inv s3" if "\<not> conflict s3"
    using that sums pl3 c3 same_db_length [OF d] same_db_pb [OF d] by (simp add: solver_inv_def counters_ok_def counter_value_def)
  show thesis
  proof
    show "getNextLitToPropagatePB ?m = (l, m)" by (rule n)
    show "s3 = visit_literal l (s\<lparr>solver_model := m\<rparr>)" by (simp add: s3_def s0_def)
    show "propagate s = (if conflict s3 then Some (decrease_lastPropagated s3) else propagate s3)"
      by (subst propagate_round) (simp add: todo n s3_def s0_def Let_def)
    show "slacks_nonneg s \<longrightarrow> slacks_nonneg s3" using V by (simp add: s0_def slacks_nonneg_def)
    show "l \<in> set (tlits ?m)" using sub st by (auto simp: s0_def)
  qed (use V c0 N(3) lpm sums si3 in \<open>simp_all add: s0_def\<close>)
qed

theorem propagate_total:
  assumes "solver_inv s" "\<not> conflict s"
  shows "\<exists>s'. propagate s = Some s' \<and> prop_result s s'"
  using assms
proof (induction "nat (numVars s - lastPropagated (solver_model s))" arbitrary: s rule: less_induct)
  case (less s)
  let ?m = "solver_model s"
  have w: "wf_model ?m" using less.prems by (auto simp: solver_inv_def core_inv_def)
  show ?case
  proof (cases "areAllLitsPropagated ?m")
    case True
    then have "propagate s = Some s" by (subst propagate.simps) simp
    moreover have "prop_result s s" using less.prems True by (simp add: prop_result_def conflict_ok_def)
    ultimately show ?thesis by blast
  next
    case False
    show ?thesis
    proof (rule propagate_step [OF less.prems False])
      fix l m s3
      let ?s0 = "s\<lparr>solver_model := m\<rparr>"
      assume s3: "core_inv ?s0" "prop_ext ?s0 s3" "core_inv s3" "conflict_ok s3"
        and m: "modelStack m = modelStack ?m" "lastPropagated m = lastPropagated ?m + 1"
        and sums: "\<And>c. c < length (constraintsPB s) \<Longrightarrow> sumOfWatches s3 ! c =
           counter_value (if conflict s3 then plits ?m else plits ?m @ [l]) (constraintsPB s ! c)"
        and si3: "\<not> conflict s3 \<Longrightarrow> solver_inv s3" and sl3: "slacks_nonneg s \<longrightarrow> slacks_nonneg s3"
        and step: "propagate s = (if conflict s3 then Some (decrease_lastPropagated s3) else propagate s3)"
      have w3: "wf_model (solver_model s3)" using s3(3) by (simp add: core_inv_def)
      obtain new where new: "modelStack (solver_model s3) = modelStack ?m @ new" "\<forall>e \<in> set new. se_reason e \<noteq> NoReason"
        using s3(2) m(1) by (auto simp: prop_ext_def)
      have lp3: "lastPropagated (solver_model s3) = lastPropagated ?m + 1" using s3(2) m(2) by (simp add: prop_ext_def)
      have d3: "same_db s s3" "genWatchList s3 = genWatchList s" "occurLists s3 = occurLists s"
        using s3(2) by (auto simp: prop_ext_def same_db_def)
      have dec3: "decisions (solver_model s3) = decisions ?m"
        using prop_ext_decisions(1) [OF s3(2)] s3(1,3) m(1) by (simp add: core_inv_def decisions_def)
      show ?thesis
      proof (cases "conflict s3")
        case True
        let ?r = "decrease_lastPropagated s3"
        have lb: "-1 \<le> lastPropagated ?m" "lastPropagated ?m < int (length (modelStack ?m))" using w by (auto simp: wf_model_def)
        have "core_inv ?r"
          unfolding decrease_lastPropagated_def
          by (rule core_inv_model_update [OF s3(3) wf_model_lastPropagated [OF w3]]) (use lp3 lb new in auto)
        moreover have "counters_ok ?r"
        proof -
          have "nat (lastPropagated ?m + 1) \<le> length (tlits ?m)" using lb by simp
          then have "plits (solver_model ?r) = plits ?m" by (simp add: plits_def decrease_lastPropagated_def lp3 tlits_def new)
          then show ?thesis
            using sums True same_db_length [OF d3(1)] same_db_pb [OF d3(1)]
            by (simp add: counters_ok_def decrease_lastPropagated_def counter_value_def)
        qed
        moreover have "conflict_ok ?r"
          using s3(4) by (simp add: conflict_ok_def decrease_lastPropagated_def cong: conflict_type.case_cong)
        moreover have "slacks_nonneg s \<longrightarrow> slacks_nonneg ?r" using sl3 by (simp add: slacks_nonneg_def decrease_lastPropagated_def)
        moreover have "same_db s ?r" "genWatchList ?r = genWatchList s" "occurLists ?r = occurLists s"
          "decisions (solver_model ?r) = decisions ?m" "modelStack (solver_model ?r) = modelStack ?m @ new" "conflict ?r"
          "lastPropagated ?m \<le> lastPropagated (solver_model ?r)"
          using d3 dec3 new True lp3 by (simp_all add: decrease_lastPropagated_def same_db_def decisions_def)
        ultimately have "prop_result s ?r" using new(2) unfolding prop_result_def solver_inv_def by blast
        then show ?thesis using step True by auto
      next
        case nc: False
        have "lastPropagated ?m < numVars s3"
        proof -
          have "lastPropagated (solver_model s3) < int (length (modelStack (solver_model s3)))" using w3 by (simp add: wf_model_def)
          moreover have "-1 \<le> lastPropagated ?m" using w by (simp add: wf_model_def)
          ultimately show ?thesis using trail_length [OF s3(3)] lp3 by linarith
        qed
        then have "nat (numVars s3 - lastPropagated (solver_model s3)) < nat (numVars s - lastPropagated ?m)"
          using d3(1) lp3 by (simp add: same_db_def)
        from less.hyps [OF this si3 [OF nc] nc] obtain s' where r: "propagate s3 = Some s'" "prop_result s3 s'" by blast
        obtain new' where new': "modelStack (solver_model s') = modelStack (solver_model s3) @ new'" "\<forall>e \<in> set new'. se_reason e \<noteq> NoReason"
          using r(2) by (auto simp: prop_result_def)
        have "modelStack (solver_model s') = modelStack ?m @ (new @ new') \<and> (\<forall>e \<in> set (new @ new'). se_reason e \<noteq> NoReason)"
          using new new' by auto
        moreover have "lastPropagated ?m \<le> lastPropagated (solver_model s')"
          using r(2) lp3 by (simp add: prop_result_def)
        ultimately have "prop_result s s'"
          using r(2) d3 dec3 sl3 same_db_trans [OF d3(1)] unfolding prop_result_def by metis
        then show ?thesis using step nc r(1) by auto
      qed
    qed
  qed
qed

declare propagate.simps [code]

section \<open>Properties of propagation\<close>

lemma propagate_result: "solver_inv s \<Longrightarrow> \<not> conflict s \<Longrightarrow> propagate s = Some s' \<Longrightarrow> prop_result s s'"
  using propagate_total [of s] by auto

lemma prop_result_entails:
  assumes "prop_result s s'" "l \<in> set (tlits (solver_model s'))"
  shows "entails s (decisions (solver_model s)) l"
proof -
  have "core_inv s'" "decisions (solver_model s') = decisions (solver_model s)" "same_db s s'"
    using assms(1) by (auto simp: prop_result_def solver_inv_def)
  then show ?thesis
    using trail_sound [of s' _ l] assms(2) same_db_sat [of s s'] by (metis entails_def)
qed

lemma prop_result_conflict:
  assumes "prop_result s s'" "conflict s'" "db_sat \<sigma> s"
  shows "\<exists>d \<in> set (decisions (solver_model s)). \<not> lit_true \<sigma> d"
proof -
  have c: "core_inv s'" "conflict_ok s'" "decisions (solver_model s') = decisions (solver_model s)" "same_db s s'"
    using assms(1) by (auto simp: prop_result_def solver_inv_def)
  then show ?thesis
    using conflict_refutes [OF c(1,2) assms(2), of \<sigma>] same_db_sat [OF c(4), of \<sigma>] assms(3) by auto
qed

text \<open>The solver on \<open>2 x1 + x2 >= 2\<close> with \<open>x1\<close> decided false, used to instantiate the properties.\<close>

definition sample_constraint :: pbconstraint where
  "sample_constraint = pb_of_wconstraint \<lparr>lhs = [(2, 1), (1, 2)], rhs = 2\<rparr> True 0 0"

definition sample_solver :: "nat solver" where
  "sample_solver = setTrueDueToDecision (-1) (addPBConstraintCounter sample_constraint (new_solver 1 2))"

lemma sample_base_inv: "solver_inv (addPBConstraintCounter sample_constraint (new_solver (1::nat) 2))"
  by (rule addPBConstraintCounter_inv(1))
     (simp_all add: new_solver_inv del: One_nat_def, simp add: sample_constraint_def pb_of_wconstraint_def pb_ok_def new_solver_def)

lemma sample_base_slack: "slacks_nonneg (addPBConstraintCounter sample_constraint (new_solver (1::nat) 2))"
  by (simp add: slacks_nonneg_def addPBConstraintCounter_simps sample_constraint_def pb_of_wconstraint_def
      new_solver_def isFalseLit_def new_model_def)

lemma sample_solver_inv: "solver_inv sample_solver" "\<not> conflict sample_solver" "slacks_nonneg sample_solver"
proof -
  show "solver_inv sample_solver"
    unfolding sample_solver_def
    by (rule push_decision_inv [OF sample_base_inv])
       (simp_all add: addPBConstraintCounter_simps new_solver_def isUndefLit_def new_model_def isUndefVar_def)
  show "\<not> conflict sample_solver"
    by (simp add: sample_solver_def addPBConstraintCounter_simps new_solver_def)
  show "slacks_nonneg sample_solver"
    using sample_base_slack by (simp add: sample_solver_def slacks_nonneg_def)
qed

text \<open>
  C10: Unit propagation terminates. From a solver state that satisfies the invariant and has no
  conflict, the loop of \<open>propagate\<close> returns a state that satisfies the invariant, has the same
  database and decisions, and either reports a genuine conflict or has visited every literal of
  the trail.
\<close>

theorem propagate_terminates:
  assumes "solver_inv s" "\<not> conflict s"
  shows "\<exists>s'. propagate s = Some s' \<and> solver_inv s' \<and> same_db s s'
    \<and> decisions (solver_model s') = decisions (solver_model s)
    \<and> conflict_ok s' \<and> (conflict s' \<or> areAllLitsPropagated (solver_model s'))"
  using propagate_total [OF assms] by (auto simp: prop_result_def)

theorem propagate_terminates_witness:
  "\<exists>s'. propagate sample_solver = Some s' \<and> solver_inv s' \<and> conflict_ok s'"
  using propagate_terminates [OF sample_solver_inv(1,2)] by blast

text \<open>
  C11: Unit propagation is sound. Every literal on the trail after \<open>propagate\<close> is true in every
  solution of the constraint database in which the current decisions hold.
\<close>

theorem propagate_sound:
  assumes "solver_inv s" "\<not> conflict s" "propagate s = Some s'" "l \<in> set (tlits (solver_model s'))"
  shows "entails s (decisions (solver_model s)) l"
  using prop_result_entails [OF propagate_result [OF assms(1-3)] assms(4)] .

lemma sample_trail: "- 1 \<in> set (tlits (solver_model sample_solver))"
  by (simp add: sample_solver_def tlits_def)

theorem propagate_sound_witness:
  "\<exists>s'. propagate sample_solver = Some s' \<and> entails sample_solver (decisions (solver_model sample_solver)) (- 1)"
proof -
  obtain s' where s': "propagate sample_solver = Some s'" "prop_result sample_solver s'"
    using propagate_total [OF sample_solver_inv(1,2)] by blast
  then have "- 1 \<in> set (tlits (solver_model s'))"
    using sample_trail by (auto simp: prop_result_def tlits_def)
  from propagate_sound [OF sample_solver_inv(1,2) s'(1) this] s'(1) show ?thesis by blast
qed

text \<open>
  C23: A conflict found by propagation is real. When \<open>propagate\<close> stops with a conflict, no solution
  of the constraint database satisfies all the current decisions.
\<close>

theorem propagate_conflict_sound:
  assumes "solver_inv s" "\<not> conflict s" "propagate s = Some s'" "conflict s'" "db_sat \<sigma> s"
  shows "\<exists>d \<in> set (decisions (solver_model s)). \<not> lit_true \<sigma> d"
  using prop_result_conflict [OF propagate_result [OF assms(1-3)] assms(4,5)] .


theorem propagate_conflict_sound_witness:
  "\<exists>s'. propagate sample_solver = Some s' \<and> conflict s' \<and>
     (\<exists>d \<in> set (decisions (solver_model sample_solver)). \<not> lit_true (\<lambda>_. True) d)"
proof -
  have c: "case propagate sample_solver of None \<Rightarrow> False | Some s' \<Rightarrow> conflict s'" by code_simp
  then obtain s' where s': "propagate sample_solver = Some s'" "conflict s'" by (cases "propagate sample_solver") auto
  have "db_sat (\<lambda>_. True) (addPBConstraintCounter sample_constraint (new_solver (1::nat) 2))"
    by (subst addPBConstraintCounter_inv(2))
       (simp_all add: new_solver_inv del: One_nat_def, simp_all add: sample_constraint_def pb_of_wconstraint_def pb_ok_def
         new_solver_def db_sat_def pb_sat_def)
  then have "db_sat (\<lambda>_. True) sample_solver" by (simp add: sample_solver_def db_sat_def)
  with propagate_conflict_sound [OF sample_solver_inv(1,2) s'] s' show ?thesis by blast
qed

lemma full_trail_satisfies:
  assumes inv: "solver_inv s" "slacks_nonneg s" "areAllLitsPropagated (solver_model s)"
    and full: "\<forall>v. 0 < v \<and> v \<le> numVars s \<longrightarrow> \<not> isUndefVar (solver_model s) v"
    and c: "c \<in> set (constraintsPB s)"
  shows "pb_sat (\<lambda>v. isTrueVar (solver_model s) v) c"
proof -
  let ?m = "solver_model s" and ?a = "\<lambda>v. isTrueVar (solver_model s) v"
  have w: "wf_model ?m" and ok: "pb_ok (numVars s) c"
    using inv(1) c by (auto simp: solver_inv_def core_inv_def db_ok_def)
  have all: "plits ?m = tlits ?m"
    using inv(3) by (simp add: areAllLitsPropagated_def plits_def trailSize_def)
  obtain n where n: "n < length (constraintsPB s)" "constraintsPB s ! n = c" using c by (metis in_set_conv_nth)
  then have "0 \<le> msum (\<lambda>l. - l \<notin> set (tlits ?m)) (pb_lhs c) - pb_rhs c"
    using inv all by (force simp: solver_inv_def counters_ok_def slacks_nonneg_def counter_value_def)
  moreover have "msum (\<lambda>l. - l \<notin> set (tlits ?m)) (pb_lhs c) = lhs_value ?a (pb_lhs c)"
  proof (rule msum_cong)
    fix m assume m: "m \<in> set (pb_lhs c)"
    let ?l = "snd m"
    have l: "?l \<noteq> 0" "\<bar>?l\<bar> \<le> numVars s" using m ok by (auto simp: pb_ok_def nonzero_lits_def)
    then have "truthValueOfVar ?m \<bar>?l\<bar> \<noteq> 0" using full by (simp add: isUndefVar_def)
    then show "(- ?l \<notin> set (tlits ?m)) = lit_true ?a ?l"
      using wf_model_value [OF w, of ?l] wf_model_consistent [OF w, of ?l] l(1)
      by (auto simp: lit_true_def isTrueVar_def split: if_splits)
  qed
  ultimately show ?thesis by (simp add: pb_sat_def)
qed

text \<open>
  C24: A complete trail is a solution. When every variable is assigned, every literal of the trail
  has been visited and no counter has gone below its constraint's bound, the assignment read off
  the model satisfies every pseudo-Boolean constraint of the database.
\<close>

theorem full_trail_is_solution:
  assumes "solver_inv s" "slacks_nonneg s" "\<not> conflict s" "propagate s = Some s'" "\<not> conflict s'"
    and "\<forall>v. 0 < v \<and> v \<le> numVars s' \<longrightarrow> \<not> isUndefVar (solver_model s') v"
  shows "\<forall>c \<in> set (constraintsPB s'). pb_sat (\<lambda>v. isTrueVar (solver_model s') v) c"
  using full_trail_satisfies [of s'] propagate_result [OF assms(1,3,4)] assms(2,5,6)
  by (auto simp: prop_result_def)

definition sample_full :: "nat solver" where
  "sample_full = setTrueDueToDecision 2 (setTrueDueToDecision 1 (addPBConstraintCounter sample_constraint (new_solver 1 2)))"

lemma sample_full_inv: "solver_inv sample_full"
proof -
  have 1: "solver_inv (setTrueDueToDecision 1 (addPBConstraintCounter sample_constraint (new_solver (1::nat) 2)))"
    by (rule push_decision_inv [OF sample_base_inv])
       (simp_all add: addPBConstraintCounter_simps new_solver_def isUndefLit_def new_model_def isUndefVar_def)
  show ?thesis
    unfolding sample_full_def
    by (rule push_decision_inv [OF 1])
       (simp_all add: addPBConstraintCounter_simps new_solver_def isUndefLit_def new_model_def isUndefVar_def
          Model_setTrueDueToDecision_def push_lit_def)
qed

theorem full_trail_is_solution_witness:
  "\<exists>s'. propagate sample_full = Some s' \<and> (\<forall>c \<in> set (constraintsPB s'). pb_sat (\<lambda>v. isTrueVar (solver_model s') v) c)"
proof -
  note i = sample_full_inv
  have s: "slacks_nonneg sample_full" using sample_base_slack by (simp add: sample_full_def slacks_nonneg_def)
  have n: "\<not> conflict sample_full" by (simp add: sample_full_def addPBConstraintCounter_simps new_solver_def)
  have c: "case propagate sample_full of None \<Rightarrow> False | Some s' \<Rightarrow> \<not> conflict s' \<and> numVars s' = 2 \<and>
      \<not> isUndefVar (solver_model s') 1 \<and> \<not> isUndefVar (solver_model s') 2" by code_simp
  then obtain s' where s': "propagate sample_full = Some s'" "\<not> conflict s'" "numVars s' = 2"
    "\<not> isUndefVar (solver_model s') 1" "\<not> isUndefVar (solver_model s') 2"
    by (cases "propagate sample_full") auto
  have "\<forall>v. 0 < v \<and> v \<le> numVars s' \<longrightarrow> \<not> isUndefVar (solver_model s') v"
  proof (intro allI impI)
    fix v :: int assume "0 < v \<and> v \<le> numVars s'"
    then have "v = 1 \<or> v = 2" using s'(3) by auto
    then show "\<not> isUndefVar (solver_model s') v" using s'(4,5) by auto
  qed
  from full_trail_is_solution [OF i s n s'(1,2) this] s'(1) show ?thesis by blast
qed

end
