(* ===== verification/Problem.thy ===== *)
theory Problem
  imports Simplify
begin

text \<open>
  The input problem (\<open>PBProblem\<close> of \<open>Parser.h\<close>) and the functions that turn linear
  inequalities over variables into normalised constraints over literals:
  \<open>PBProblem::addConstraint\<close> (Parser.cpp), \<open>build_linear_geq_parts\<close>,
  \<open>add_objective_bound_constraint\<close> and \<open>cnf_to_pb_problem\<close> (cubePB.cpp). Linear terms
  are lists of (coefficient, variable) pairs: the code keeps the two vectors in lockstep.
\<close>

record pbproblem =
  constraints :: "wconstraint list"
  minimizing :: bool
  objCoeffs :: "int list"
  objVars :: "var list"

definition linear_value :: "assignment \<Rightarrow> int list \<Rightarrow> var list \<Rightarrow> int" where
  "linear_value \<sigma> coeffs vars = (\<Sum>(a, v) \<leftarrow> zip coeffs vars. if \<sigma> v then a else 0)"

definition linear_holds :: "assignment \<Rightarrow> int list \<Rightarrow> var list \<Rightarrow> int \<Rightarrow> bool \<Rightarrow> bool" where
  "linear_holds \<sigma> coeffs vars r isGeq \<longleftrightarrow>
     (if isGeq then r \<le> linear_value \<sigma> coeffs vars else linear_value \<sigma> coeffs vars \<le> r)"

definition sat_problem :: "assignment \<Rightarrow> pbproblem \<Rightarrow> bool" where
  "sat_problem \<sigma> p \<longleftrightarrow> (\<forall>c \<in> set (constraints p). sat \<sigma> c)"

section \<open>Linear inequalities to literals\<close>

text \<open>
  The loop of \<open>addConstraint\<close> and of \<open>build_linear_geq_parts\<close>; they are the same code. Every number in
  it is an \<open>int\<close>: negation, \<open>abs\<close> and the growing right-hand side wrap around at 32 bits.
\<close>

fun geq_loop :: "bool \<Rightarrow> (int \<times> var) list \<Rightarrow> int list \<Rightarrow> lit list \<Rightarrow> int \<Rightarrow> int list \<times> lit list \<times> int" where
  "geq_loop isGeq [] coefficients literals r = (coefficients, literals, r)"
| "geq_loop isGeq ((a, v) # ts) coefficients literals r =
     (let coef = (if \<not> isGeq then wrap 32 (- a) else a);
          finalCoef = wrap 32 \<bar>coef\<bar>;
          r' = (if coef < 0 then wrap 32 (r + finalCoef) else r);
          l = (if coef < 0 then - v else v)
      in if coef \<noteq> 0
         then geq_loop isGeq ts (coefficients @ [finalCoef]) (literals @ [l]) r'
         else geq_loop isGeq ts coefficients literals r')"

definition addConstraint :: "int list \<Rightarrow> var list \<Rightarrow> int \<Rightarrow> bool \<Rightarrow> pbproblem \<Rightarrow> pbproblem" where
  "addConstraint coeffs varNums r isGeq p =
     (let r0 = (if \<not> isGeq then wrap 32 (- r) else r);
          (coefficients, literals, r') = geq_loop isGeq (zip coeffs varNums) [] [] r0
      in if 1 \<le> r'
         then p\<lparr>constraints := constraints p @ [WConstraint_vec coefficients literals r']\<rparr>
         else p)"

text \<open>\<open>None\<close> is the result \<open>false\<close>: nothing to add.\<close>

definition build_linear_geq_parts ::
  "int list \<Rightarrow> var list \<Rightarrow> int \<Rightarrow> bool \<Rightarrow> (int list \<times> lit list \<times> int) option" where
  "build_linear_geq_parts coeffs varNums r isGeq =
     (let r0 = (if \<not> isGeq then wrap 32 (- r) else r);
          (coefficients, literals, r') = geq_loop isGeq (zip coeffs varNums) [] [] r0
      in if r' < 1 then None else Some (coefficients, literals, r'))"

text \<open>
  The same loop over the integers. With coefficients in range the 32-bit loop computes the same
  coefficients and literals, and its right-hand side modulo \<open>2^32\<close>.
\<close>

fun geq_exact :: "bool \<Rightarrow> (int \<times> var) list \<Rightarrow> int list \<Rightarrow> lit list \<Rightarrow> int \<Rightarrow> int list \<times> lit list \<times> int" where
  "geq_exact isGeq [] coefficients literals r = (coefficients, literals, r)"
| "geq_exact isGeq ((a, v) # ts) coefficients literals r =
     (let coef = (if \<not> isGeq then - a else a);
          r' = (if coef < 0 then r + \<bar>coef\<bar> else r);
          l = (if coef < 0 then - v else v)
      in if coef \<noteq> 0
         then geq_exact isGeq ts (coefficients @ [\<bar>coef\<bar>]) (literals @ [l]) r'
         else geq_exact isGeq ts coefficients literals r')"

definition in_int :: "int \<Rightarrow> bool" where
  "in_int x \<longleftrightarrow> INT_MIN \<le> x \<and> x \<le> INT_MAX"

definition coeffs_ok :: "int list \<Rightarrow> bool" where
  "coeffs_ok coeffs \<longleftrightarrow> (\<forall>a \<in> set coeffs. \<bar>a\<bar> \<le> INT_MAX)"

definition flipped_sum :: "bool \<Rightarrow> int list \<Rightarrow> int" where
  "flipped_sum isGeq coeffs = sum_list (map (\<lambda>a. max 0 (if isGeq then - a else a)) coeffs)"

text \<open>The inequalities that can be written as one over literals without leaving \<open>int\<close>.\<close>

definition geq_fits :: "int list \<Rightarrow> int \<Rightarrow> bool \<Rightarrow> bool" where
  "geq_fits coeffs r isGeq \<longleftrightarrow>
     coeffs_ok coeffs \<and> in_int r \<and> (if isGeq then r else - r) + flipped_sum isGeq coeffs \<le> INT_MAX"

lemma wrap_int: "in_int x \<Longrightarrow> wrap 32 x = x"
  using wrap_id [of 32 x] by (simp add: in_int_def)

lemma wrap_over: "INT_MAX < x \<Longrightarrow> x \<le> INT_MAX + 2 ^ 31 \<Longrightarrow> wrap 32 x < 0"
proof -
  assume x: "INT_MAX < x" "x \<le> INT_MAX + 2 ^ 31"
  have "(x + 2 ^ 31) mod 2 ^ 32 = (x + 2 ^ 31 - 2 ^ 32) mod 2 ^ 32" by (rule minus_mod_self2 [symmetric])
  also have "\<dots> = x + 2 ^ 31 - 2 ^ 32" using x by (intro mod_pos_pos_trivial) simp_all
  finally have "wrap 32 x = x - 2 ^ 32" by (simp add: wrap_def)
  with x show ?thesis by simp
qed

lemma flipped_sum_nonneg: "0 \<le> flipped_sum g cs"
  unfolding flipped_sum_def by (rule sum_list_nonneg) auto

lemma flipped_sum_simps [simp]:
  "flipped_sum g [] = 0" "flipped_sum g (a # cs) = max 0 (if g then - a else a) + flipped_sum g cs"
  by (simp_all add: flipped_sum_def)

lemma flipped_sum_zip: "flipped_sum g (map fst (zip cs vs)) \<le> flipped_sum g cs"
proof (induction cs arbitrary: vs)
  case (Cons a cs)
  then show ?case using flipped_sum_nonneg [of g "a # cs"] by (cases vs) simp_all
qed simp

lemma geq_exact_rhs: "snd (snd (geq_exact g ts cs ls r)) = r + flipped_sum g (map fst ts)"
  by (induction g ts cs ls r rule: geq_exact.induct) (auto simp: Let_def)

lemma geq_loop_exact:
  "\<forall>(a, v) \<in> set ts. \<bar>a\<bar> \<le> INT_MAX \<Longrightarrow>
   geq_loop g ts cs ls (wrap 32 x) = (case geq_exact g ts cs ls x of (cs', ls', y) \<Rightarrow> (cs', ls', wrap 32 y))"
proof (induction g ts cs ls x rule: geq_exact.induct)
  case (2 g a v ts cs ls x)
  have a: "wrap 32 (- a) = - a" "wrap 32 a = a" "wrap 32 \<bar>a\<bar> = \<bar>a\<bar>"
    using "2.prems" by (simp_all add: wrap_int in_int_def abs_le_iff)
  have w: "wrap 32 (wrap 32 x + k) = wrap 32 (x + k)" "wrap 32 (wrap 32 x - k) = wrap 32 (x - k)" for k
    by (simp_all add: wrap_def algebra_simps mod_simps)
  show ?case using 2 by (auto simp: a w Let_def)
qed simp

lemma geq_exact_value:
  assumes "geq_exact g ts cs ls r = (cs', ls', r')" "length cs = length ls"
    "\<forall>(a, v) \<in> set ts. 0 < v"
  shows "lhs_value \<sigma> (zip cs' ls') - r' =
      lhs_value \<sigma> (zip cs ls) - r
      + (if g then 1 else -1) * (\<Sum>(a, v) \<leftarrow> ts. if \<sigma> v then a else 0)
    \<and> length cs' = length ls'"
  using assms
proof (induction g ts cs ls r rule: geq_exact.induct)
  case (2 g a v ts cs ls r)
  let ?coef = "if \<not> g then - a else a"
  show ?case
  proof (cases "?coef = 0")
    case True
    with 2 show ?thesis by (cases g) (auto simp: Let_def)
  next
    case False
    with 2 show ?thesis
      by (cases g; cases "?coef < 0") (auto simp: Let_def split: if_splits)
  qed
qed auto

lemma geq_exact_wf:
  assumes "geq_exact g ts cs ls r = (cs', ls', r')" "length cs = length ls"
    "\<forall>(a, v) \<in> set ts. 0 < v" "pos_coeffs (zip cs ls)" "nonzero_lits (zip cs ls)"
  shows "pos_coeffs (zip cs' ls') \<and> nonzero_lits (zip cs' ls')"
  using assms
  by (induction g ts cs ls r rule: geq_exact.induct) (auto simp: Let_def split: if_splits)

text \<open>
  What the code gets from an inequality: the terms of the exact inequality over literals, and its
  right-hand side \<open>y\<close> wrapped; when \<open>y\<close> has left \<open>int\<close> the inequality is dropped.
\<close>

lemma geq_loop_zip:
  assumes "coeffs_ok coeffs" "in_int r" "\<forall>v \<in> set vars. 0 < v"
  obtains cs ls y where
    "geq_loop isGeq (zip coeffs vars) [] [] (if \<not> isGeq then wrap 32 (- r) else r) = (cs, ls, wrap 32 y)"
    "\<And>\<sigma>. y \<le> lhs_value \<sigma> (zip cs ls) \<longleftrightarrow> linear_holds \<sigma> coeffs vars r isGeq"
    "pos_coeffs (zip cs ls)" "nonzero_lits (zip cs ls)"
    "y = (if isGeq then r else - r) + flipped_sum isGeq (map fst (zip coeffs vars))"
proof -
  let ?r = "if isGeq then r else - r"
  obtain cs ls y where e: "geq_exact isGeq (zip coeffs vars) [] [] ?r = (cs, ls, y)" by (metis prod_cases3)
  have pos: "\<forall>(a, v) \<in> set (zip coeffs vars). 0 < v"
    using assms(3) by (auto dest: set_zip_rightD)
  show thesis
  proof (rule that)
    have "(if \<not> isGeq then wrap 32 (- r) else r) = wrap 32 ?r" using assms(2) by (simp add: wrap_int)
    moreover have "\<forall>(a, v) \<in> set (zip coeffs vars). \<bar>a\<bar> \<le> INT_MAX"
      using assms(1) by (auto simp: coeffs_ok_def dest: set_zip_leftD)
    ultimately show "geq_loop isGeq (zip coeffs vars) [] [] (if \<not> isGeq then wrap 32 (- r) else r) = (cs, ls, wrap 32 y)"
      using geq_loop_exact [of "zip coeffs vars" isGeq "[]" "[]" ?r] by (simp add: e)
    show "y \<le> lhs_value \<sigma> (zip cs ls) \<longleftrightarrow> linear_holds \<sigma> coeffs vars r isGeq" for \<sigma>
      using geq_exact_value [OF e refl pos, of \<sigma>]
      by (cases isGeq) (auto simp: linear_holds_def linear_value_def)
    show "pos_coeffs (zip cs ls)" "nonzero_lits (zip cs ls)" using geq_exact_wf [OF e refl pos] by simp_all
    show "y = ?r + flipped_sum isGeq (map fst (zip coeffs vars))"
      using geq_exact_rhs [of isGeq "zip coeffs vars" "[]" "[]" ?r] by (simp add: e)
  qed
qed

lemma geq_loop_fits:
  assumes "geq_fits coeffs r isGeq" "\<forall>v \<in> set vars. 0 < v"
  obtains cs ls y where
    "geq_loop isGeq (zip coeffs vars) [] [] (if \<not> isGeq then wrap 32 (- r) else r) = (cs, ls, y)"
    "\<And>\<sigma>. y \<le> lhs_value \<sigma> (zip cs ls) \<longleftrightarrow> linear_holds \<sigma> coeffs vars r isGeq"
    "pos_coeffs (zip cs ls)" "nonzero_lits (zip cs ls)"
proof -
  have c: "coeffs_ok coeffs" "in_int r" using assms(1) by (simp_all add: geq_fits_def)
  obtain cs ls y where l:
    "geq_loop isGeq (zip coeffs vars) [] [] (if \<not> isGeq then wrap 32 (- r) else r) = (cs, ls, wrap 32 y)"
    "\<And>\<sigma>. y \<le> lhs_value \<sigma> (zip cs ls) \<longleftrightarrow> linear_holds \<sigma> coeffs vars r isGeq"
    "pos_coeffs (zip cs ls)" "nonzero_lits (zip cs ls)"
    "y = (if isGeq then r else - r) + flipped_sum isGeq (map fst (zip coeffs vars))"
    by (rule geq_loop_zip [OF c assms(2), of isGeq]) blast
  have "in_int y"
    using assms(1) l(5) flipped_sum_zip [of isGeq coeffs vars] flipped_sum_nonneg [of isGeq "map fst (zip coeffs vars)"]
    by (auto simp: geq_fits_def in_int_def split: if_splits)
  then show thesis using that [of cs ls y] l by (simp add: wrap_int)
qed

definition wf_problem :: "pbproblem \<Rightarrow> bool" where
  "wf_problem p \<longleftrightarrow>
     (\<forall>c \<in> set (constraints p). pos_coeffs (lhs c) \<and> nonzero_lits (lhs c) \<and> 1 \<le> rhs c)"

text \<open>
  Adding a linear inequality over variables (either direction) restricts the problem to
  exactly the assignments that satisfy the inequality, and keeps every stored constraint in
  normalised form. When the code adds nothing, the inequality holds everywhere.
\<close>

theorem addConstraint_correct:
  assumes "\<forall>v \<in> set varNums. 0 < v" "wf_problem p" "geq_fits coeffs r isGeq"
  shows "(\<forall>\<sigma>. sat_problem \<sigma> (addConstraint coeffs varNums r isGeq p) \<longleftrightarrow>
        sat_problem \<sigma> p \<and> linear_holds \<sigma> coeffs varNums r isGeq)
    \<and> wf_problem (addConstraint coeffs varNums r isGeq p)"
proof -
  obtain cs ls y where L: "geq_loop isGeq (zip coeffs varNums) [] [] (if \<not> isGeq then wrap 32 (- r) else r) = (cs, ls, y)"
    "\<And>\<sigma>. y \<le> lhs_value \<sigma> (zip cs ls) \<longleftrightarrow> linear_holds \<sigma> coeffs varNums r isGeq"
    "pos_coeffs (zip cs ls)" "nonzero_lits (zip cs ls)"
    by (rule geq_loop_fits [OF assms(3,1)]) blast
  have triv: "linear_holds \<sigma> coeffs varNums r isGeq" if "\<not> 1 \<le> y" for \<sigma>
    using L(2) [of \<sigma>] msum_nonneg [OF L(3), of "lit_true \<sigma>"] that by linarith
  show ?thesis
    unfolding addConstraint_def Let_def L(1) using L(2-4) assms(2) triv
    by (auto simp: sat_problem_def wf_problem_def sat_def WConstraint_vec_def)
qed

theorem addConstraint_correct_witness:
  "\<forall>\<sigma>. sat_problem \<sigma> (addConstraint [3, -2, 0] [1, 2, 3] 1 False
          \<lparr>constraints = [], minimizing = True, objCoeffs = [], objVars = []\<rparr>) \<longleftrightarrow>
        linear_holds \<sigma> [3, -2, 0] [1, 2, 3] 1 False"
  using addConstraint_correct [of "[1, 2, 3]"
      "\<lparr>constraints = [], minimizing = True, objCoeffs = [], objVars = []\<rparr>" "[3, -2, 0]" 1 False]
  by (simp add: wf_problem_def sat_problem_def geq_fits_def coeffs_ok_def in_int_def)

text \<open>
  Where the arithmetic of the reader goes wrong. An inequality whose right-hand side over literals exceeds
  \<open>INT_MAX\<close> (by at most \<open>2^31\<close>) is dropped: the problem stays as it was, whatever the inequality says.
\<close>

theorem overflowing_inequality_dropped:
  assumes "coeffs_ok coeffs" "in_int r" "length coeffs = length varNums" "\<forall>v \<in> set varNums. 0 < v"
    "INT_MAX < (if isGeq then r else - r) + flipped_sum isGeq coeffs"
    "(if isGeq then r else - r) + flipped_sum isGeq coeffs \<le> INT_MAX + 2 ^ 31"
  shows "addConstraint coeffs varNums r isGeq p = p \<and> build_linear_geq_parts coeffs varNums r isGeq = None"
proof -
  obtain cs ls y where L: "geq_loop isGeq (zip coeffs varNums) [] [] (if \<not> isGeq then wrap 32 (- r) else r) = (cs, ls, wrap 32 y)"
    "y = (if isGeq then r else - r) + flipped_sum isGeq (map fst (zip coeffs varNums))"
    by (rule geq_loop_zip [OF assms(1,2,4), of isGeq]) blast
  have "wrap 32 y < 0" by (rule wrap_over) (use assms(3,5,6) L(2) in simp_all)
  then show ?thesis by (simp add: addConstraint_def build_linear_geq_parts_def L(1))
qed

text \<open>The line \<open>+2000000000 x1 +2000000000 x2 <= 5 ;\<close>.\<close>

theorem overflowing_inequality_dropped_witness:
  "addConstraint [2000000000, 2000000000] [1, 2] 5 False p = p \<and> \<not> linear_holds (\<lambda>_. True) [2000000000, 2000000000] [1, 2] 5 False"
  using overflowing_inequality_dropped [of "[2000000000, 2000000000]" 5 "[1, 2]" False p]
  by (simp add: coeffs_ok_def in_int_def linear_holds_def linear_value_def)

section \<open>Bounds on the objective\<close>

text \<open>
  \<open>add_linear_constraint_to_solver\<close> builds the constraint it hands to the solver;
  \<open>add_objective_bound_constraint\<close> asks for a strictly better cost. The model returns the
  constraint (\<open>None\<close> when nothing is added).
\<close>

definition linear_constraint :: "int list \<Rightarrow> var list \<Rightarrow> int \<Rightarrow> bool \<Rightarrow> wconstraint option" where
  "linear_constraint coeffs varNums r isGeq =
     (case build_linear_geq_parts coeffs varNums r isGeq of
        None \<Rightarrow> None
      | Some (coefficients, literals, outRhs) \<Rightarrow>
          Some (normalize (WConstraint_vec coefficients literals outRhs)))"

definition objective_bound_constraint :: "pbproblem \<Rightarrow> int \<Rightarrow> wconstraint option" where
  "objective_bound_constraint p bestCost =
     (if objCoeffs p = [] then None
      else if minimizing p then linear_constraint (objCoeffs p) (objVars p) (wrap 32 (bestCost - 1)) False
      else linear_constraint (objCoeffs p) (objVars p) (wrap 32 (bestCost + 1)) True)"

definition objective_lower_bound_constraint :: "pbproblem \<Rightarrow> int \<Rightarrow> wconstraint option" where
  "objective_lower_bound_constraint p lb =
     (if objCoeffs p = [] \<or> \<not> minimizing p then None
      else linear_constraint (objCoeffs p) (objVars p) lb True)"

definition sat_opt :: "assignment \<Rightarrow> wconstraint option \<Rightarrow> bool" where
  "sat_opt \<sigma> c \<longleftrightarrow> (case c of None \<Rightarrow> True | Some w \<Rightarrow> sat \<sigma> w)"

definition objective_value :: "assignment \<Rightarrow> pbproblem \<Rightarrow> int" where
  "objective_value \<sigma> p = linear_value \<sigma> (objCoeffs p) (objVars p)"

lemma linear_constraint_sat:
  assumes "\<forall>v \<in> set varNums. 0 < v" "geq_fits coeffs r isGeq"
  shows "sat_opt \<sigma> (linear_constraint coeffs varNums r isGeq) \<longleftrightarrow>
    linear_holds \<sigma> coeffs varNums r isGeq"
proof -
  obtain cs ls y where L: "geq_loop isGeq (zip coeffs varNums) [] [] (if \<not> isGeq then wrap 32 (- r) else r) = (cs, ls, y)"
    "\<And>\<sigma>. y \<le> lhs_value \<sigma> (zip cs ls) \<longleftrightarrow> linear_holds \<sigma> coeffs varNums r isGeq"
    "pos_coeffs (zip cs ls)" "nonzero_lits (zip cs ls)"
    by (rule geq_loop_fits [OF assms(2,1)]) blast
  have "sat \<sigma> (normalize (WConstraint_vec cs ls y)) = sat \<sigma> (WConstraint_vec cs ls y)"
    using L(3,4) by (intro normalize_sat) (simp_all add: WConstraint_vec_def)
  then show ?thesis
    using L(2) [of \<sigma>] msum_nonneg [OF L(3), of "lit_true \<sigma>"]
    unfolding linear_constraint_def build_linear_geq_parts_def Let_def L(1)
    by (auto simp: sat_opt_def sat_def WConstraint_vec_def)
qed


text \<open>
  The bound added for an incumbent of cost \<open>bestCost\<close> admits exactly the assignments
  whose objective is strictly better in the direction of the optimisation, and the lower-bound
  constraint exactly those whose objective is at least the bound.
\<close>

theorem objective_bounds_correct:
  assumes "\<forall>v \<in> set (objVars p). 0 < v" "objCoeffs p \<noteq> []" "in_int (bestCost - 1)" "in_int (bestCost + 1)"
    "if minimizing p then geq_fits (objCoeffs p) (bestCost - 1) False else geq_fits (objCoeffs p) (bestCost + 1) True"
    "geq_fits (objCoeffs p) lb True"
  shows "(sat_opt \<sigma> (objective_bound_constraint p bestCost) \<longleftrightarrow>
      (if minimizing p then objective_value \<sigma> p < bestCost else bestCost < objective_value \<sigma> p))
    \<and> (minimizing p \<longrightarrow>
      (sat_opt \<sigma> (objective_lower_bound_constraint p lb) \<longleftrightarrow> lb \<le> objective_value \<sigma> p))"
  using linear_constraint_sat [OF assms(1), of _ _ _ \<sigma>] assms(2-6)
  by (auto simp: objective_bound_constraint_def objective_lower_bound_constraint_def
      objective_value_def linear_holds_def wrap_int split: if_splits)

theorem objective_bounds_correct_witness:
  "sat_opt (\<lambda>v. v = 2) (objective_bound_constraint
      \<lparr>constraints = [], minimizing = True, objCoeffs = [3, 4], objVars = [1, 2]\<rparr> 5)"
  using objective_bounds_correct [of
      "\<lparr>constraints = [], minimizing = True, objCoeffs = [3, 4], objVars = [1, 2]\<rparr>" 5 0 "\<lambda>v. v = 2"]
  by (simp add: objective_value_def linear_value_def geq_fits_def coeffs_ok_def in_int_def)

section \<open>CNF input\<close>

definition cnf_clause_constraint :: "lit list \<Rightarrow> wconstraint" where
  "cnf_clause_constraint clause =
     normalize (WConstraint_vec (map (\<lambda>_. 1) clause) clause 1)"

fun cnf_loop :: "lit list list \<Rightarrow> pbproblem \<Rightarrow> pbproblem" where
  "cnf_loop [] p = p"
| "cnf_loop (clause # cls) p =
     cnf_loop cls (p\<lparr>constraints := constraints p @ [cnf_clause_constraint clause]\<rparr>)"

definition cnf_to_pb_problem :: "lit list list \<Rightarrow> pbproblem" where
  "cnf_to_pb_problem clauses =
     cnf_loop clauses \<lparr>constraints = [], minimizing = True, objCoeffs = [], objVars = []\<rparr>"

definition sat_cnf :: "assignment \<Rightarrow> lit list list \<Rightarrow> bool" where
  "sat_cnf \<sigma> clauses \<longleftrightarrow> (\<forall>cl \<in> set clauses. \<exists>l \<in> set cl. lit_true \<sigma> l)"

lemma unit_coeffs:
  "lhs (WConstraint_vec (map (\<lambda>_. 1) cl) cl r) = map (Pair 1) cl"
  "rhs (WConstraint_vec (map (\<lambda>_. 1) cl) cl r) = r"
  by (simp_all add: WConstraint_vec_def zip_map1 zip_same_conv_map)

lemma sat_unit_coeffs: "1 \<le> msum P (map (Pair 1) cl) \<longleftrightarrow> (\<exists>l \<in> set cl. P l)"
  using msum_pos_iff [of "map (Pair 1) cl" P] by (auto simp: pos_coeffs_def)

lemma cnf_clause_constraint_sat:
  "0 \<notin> set cl \<Longrightarrow> sat \<sigma> (cnf_clause_constraint cl) \<longleftrightarrow> (\<exists>l \<in> set cl. lit_true \<sigma> l)"
  unfolding cnf_clause_constraint_def
  by (subst normalize_sat)
    (auto simp: unit_coeffs sat_def sat_unit_coeffs pos_coeffs_def nonzero_lits_def)

lemma cnf_loop_constraints:
  "constraints (cnf_loop cls p) = constraints p @ map cnf_clause_constraint cls"
  by (induction cls p rule: cnf_loop.induct) auto

text \<open>
  The pseudo-Boolean problem built from a CNF has exactly the satisfying assignments of
  the CNF.
\<close>

theorem cnf_to_pb_equivalent:
  assumes "\<forall>cl \<in> set clauses. 0 \<notin> set cl"
  shows "sat_problem \<sigma> (cnf_to_pb_problem clauses) \<longleftrightarrow> sat_cnf \<sigma> clauses"
  using assms cnf_clause_constraint_sat
  by (auto simp: sat_problem_def cnf_to_pb_problem_def cnf_loop_constraints sat_cnf_def)

theorem cnf_to_pb_equivalent_witness:
  "sat_problem (\<lambda>v. v = 1) (cnf_to_pb_problem [[1, -2], [-2, 3, 2]])"
  using cnf_to_pb_equivalent [of "[[1, -2], [-2, 3, 2]]" "\<lambda>v. v = 1"] by (simp add: sat_cnf_def)

end
