(* ===== verification/CubeAPI.thy ===== *)
theory CubeAPI
  imports PropagateInv Problem
begin

text \<open>
  What the cube generator and the native backend ask of the solver
  (\<open>src/src/CubeConquerAPI.cpp\<close>, \<open>NativeBackend.cpp\<close> and \<open>addAndPropagatePBConstraint\<close> of
  \<open>Solver.cpp\<close>): assuming a literal and propagating it, taking decision levels back, measuring
  the reduced formula, and loading constraints. The main results are that taking back an assumption
  restores the solver, that a refused assumption contradicts the database, and that loading a
  constraint restricts the solutions by exactly that constraint.
\<close>

section \<open>Queries\<close>

text \<open>
  The two loops over a binary-clause list: a clause is counted from its smaller variable, unless
  the other literal is true.
\<close>

fun count_bin :: "model \<Rightarrow> var \<Rightarrow> lit list \<Rightarrow> int \<Rightarrow> int" where
  "count_bin m v [] tot = tot"
| "count_bin m v (l # ls) tot =
     (if isTrueLit m l \<or> \<bar>l\<bar> < v then count_bin m v ls tot else count_bin m v ls (tot + 1))"

fun count_bins :: "('a::linorder) solver \<Rightarrow> var list \<Rightarrow> int \<Rightarrow> int" where
  "count_bins s [] tot = tot"
| "count_bins s (v # vs) tot =
     (let m = solver_model s;
          t1 = (if \<not> isTrueVar m v then count_bin m v (binClauses s v) tot else tot);
          t2 = (if \<not> isFalseVar m v then count_bin m v (binClauses s (- v)) t1 else t1)
      in count_bins s vs t2)"

fun count_clauses :: "model \<Rightarrow> clause list \<Rightarrow> int \<Rightarrow> int" where
  "count_clauses m [] tot = tot"
| "count_clauses m (c # cs) tot = count_clauses m cs (if \<not> clauseIsTrue m c then tot + 1 else tot)"

fun count_pbs :: "model \<Rightarrow> pbconstraint list \<Rightarrow> int \<Rightarrow> int" where
  "count_pbs m [] tot = tot"
| "count_pbs m (c # cs) tot =
     count_pbs m cs (if \<not> constraintIsTrue m \<lparr>lhs = pb_lhs c, rhs = pb_rhs c\<rparr> then tot + 1 else tot)"

definition reducedFormulaSize :: "('a::linorder) solver \<Rightarrow> int" where
  "reducedFormulaSize s =
     (let m = solver_model s;
          t1 = count_bins s [1..numVars s] 0;
          t2 = count_clauses m (clauses s) t1
      in count_pbs m (constraintsPB s) t2)"

definition assignedVars :: "('a::linorder) solver \<Rightarrow> int" where
  "assignedVars s = trailSize (solver_model s)"

definition Solver_isTrueLit :: "lit \<Rightarrow> ('a::linorder) solver \<Rightarrow> bool" where
  "Solver_isTrueLit l s \<longleftrightarrow> isTrueLit (solver_model s) l"
definition Solver_isFalseLit :: "lit \<Rightarrow> ('a::linorder) solver \<Rightarrow> bool" where
  "Solver_isFalseLit l s \<longleftrightarrow> isFalseLit (solver_model s) l"
definition Solver_isUndefLit :: "lit \<Rightarrow> ('a::linorder) solver \<Rightarrow> bool" where
  "Solver_isUndefLit l s \<longleftrightarrow> isUndefLit (solver_model s) l"

section \<open>Assuming and taking back\<close>

text \<open>\<open>None\<close> is a call that does not return.\<close>

definition assumeAndPropagate :: "lit \<Rightarrow> ('a::linorder) solver \<Rightarrow> (bool \<times> 'a solver) option" where
  "assumeAndPropagate l s =
     (case propagate (setTrueDueToDecision l s) of
        None \<Rightarrow> None
      | Some s' \<Rightarrow> Some (\<not> conflict s', s'))"

definition backtrack :: "int \<Rightarrow> ('a::linorder) solver \<Rightarrow> 'a solver" where
  "backtrack nLevels s =
     (if nLevels = 0 then s
      else let currentLevel = currentDecisionLevel (solver_model s);
               goal = currentLevel - nLevels
           in (backjumpToDL goal s)\<lparr>conflict := False\<rparr>)"

section \<open>Loading constraints\<close>

text \<open>\<open>None\<close> is the division trap of \<open>simplify\<close>.\<close>

definition addAndPropagatePBConstraint ::
    "wconstraint \<Rightarrow> bool \<Rightarrow> int \<Rightarrow> int \<Rightarrow> bool \<Rightarrow> ('a::linorder) solver \<Rightarrow> 'a solver option" where
  "addAndPropagatePBConstraint c isInitial activity LBD isObj s =
     (case (if \<not> isObj then simplify c else Some c) of
        None \<Rightarrow> None
      | Some c' \<Rightarrow>
          let pc = pb_of_wconstraint c' isInitial activity LBD;
              s1 = addPBConstraintCounter pc s;
              s2 = propagateInitialConstraintCounter (length (constraintsPB s1) - 1) s1
          in Some (s2\<lparr>solver_stats := (solver_stats s2)\<lparr>numOfIntsInPbsAndClauses :=
                 numOfIntsInPbsAndClauses (solver_stats s2) + (7 + 2 * int (length (lhs c')))\<rparr>\<rparr>))"

definition Native_addConstraint :: "wconstraint \<Rightarrow> bool \<Rightarrow> ('a::linorder) solver \<Rightarrow> 'a solver option" where
  "Native_addConstraint c isInitial s =
     addAndPropagatePBConstraint
       (sortByDecreasingCoefficient (removeDuplicates (sortByIncreasingVariable c))) isInitial 0 0 False s"

fun Native_addLearnedConstraints :: "wconstraint list \<Rightarrow> ('a::linorder) solver \<Rightarrow> 'a solver option" where
  "Native_addLearnedConstraints [] s = Some s"
| "Native_addLearnedConstraints (c # cs) s =
     (case Native_addConstraint c True s of None \<Rightarrow> None | Some s' \<Rightarrow> Native_addLearnedConstraints cs s')"

fun Native_addCube :: "lit list \<Rightarrow> ('a::linorder) solver \<Rightarrow> 'a solver option" where
  "Native_addCube [] s = Some s"
| "Native_addCube (l # ls) s =
     (case Native_addConstraint (WConstraint_vec [1] [l] 1) True s of
        None \<Rightarrow> None | Some s' \<Rightarrow> Native_addCube ls s')"

definition add_linear_constraint_to_solver ::
    "int list \<Rightarrow> var list \<Rightarrow> int \<Rightarrow> bool \<Rightarrow> ('a::linorder) solver \<Rightarrow> 'a solver option" where
  "add_linear_constraint_to_solver coeffs varNums r isGeq s =
     (case linear_constraint coeffs varNums r isGeq of
        None \<Rightarrow> Some s
      | Some c \<Rightarrow> addAndPropagatePBConstraint c True 0 0 False s)"

definition add_objective_bound_constraint ::
    "pbproblem \<Rightarrow> int \<Rightarrow> ('a::linorder) solver \<Rightarrow> 'a solver option" where
  "add_objective_bound_constraint problem bestCost s =
     (if objCoeffs problem = [] then Some s
      else if minimizing problem
      then add_linear_constraint_to_solver (objCoeffs problem) (objVars problem) (bestCost - 1) False s
      else add_linear_constraint_to_solver (objCoeffs problem) (objVars problem) (bestCost + 1) True s)"

section \<open>Propagating a constraint when it is added\<close>

lemma stats_core_inv [simp]: "core_inv (s\<lparr>solver_stats := x\<rparr>) = core_inv s"
proof -
  let ?s = "s\<lparr>solver_stats := x\<rparr>"
  have d: "same_db s ?s" by (simp add: same_db_def)
  have "lists_ok ?s = lists_ok s" "watches_ok ?s = watches_ok s"
    by (rule same_fields_lists_ok; simp) (rule same_fields_watches_ok; simp)
  then show ?thesis
    using same_db_stack_ok [OF d] by (simp add: core_inv_def db_ok_def trail_ok_stack trail_range_def)
qed

lemma counters_ok_ext:
  assumes "prop_ext s t" "sumOfWatches t = sumOfWatches s" "wf_model (solver_model s)" "counters_ok s"
  shows "counters_ok t"
  using assms prop_ext_plits [OF assms(1,3)] same_db_length [OF prop_ext_db [OF assms(1)]]
    same_db_pb [OF prop_ext_db [OF assms(1)]]
  by (simp add: counters_ok_def counter_value_def)

lemma conflict_ok_ext:
  assumes "conflict_ok s" "prop_ext s t" "conflict t = conflict s" "typeConflict t = typeConflict s"
    "constraintConflictNum t = constraintConflictNum s" "clauseConflictNum t = clauseConflictNum s"
    "binClauseConflict t = binClauseConflict s" "core_inv s"
  shows "conflict_ok t"
proof -
  have d: "same_db s t" and sub: "set (tlits (solver_model s)) \<subseteq> set (tlits (solver_model t))"
    using prop_ext_db prop_ext_tlits assms(2) by blast+
  have pos: "pos_coeffs (pb_lhs (constraintsPB s ! n))" if "n < length (constraintsPB s)" for n
    using assms(8) that by (auto simp: core_inv_def db_ok_def pb_ok_def)
  have mono: "msum (\<lambda>l. - l \<notin> set (tlits (solver_model t))) ms \<le> msum (\<lambda>l. - l \<notin> set (tlits (solver_model s))) ms"
    if "pos_coeffs ms" for ms using that sub by (intro msum_mono) auto
  have b: "binClauses t = binClauses s" using d by (simp add: same_db_def)
  show ?thesis
  proof (cases "conflict s")
    case True
    show ?thesis
    proof (cases "typeConflict s")
      case CONFLICT_PB
      then show ?thesis
        using assms(1,3-5) True same_db_pb [OF d] same_db_length [OF d] mono [OF pos]
        by (fastforce simp: conflict_ok_def Let_def)
    next
      case CONFLICT_CLAUSE
      then show ?thesis
        using assms(1,3-6) True same_db_cl [OF d] same_db_length [OF d] sub
        by (fastforce simp: conflict_ok_def Let_def)
    next
      case CONFLICT_BIN_CLAUSE
      then show ?thesis
        using assms(1,3-7) True b sub by (auto simp: conflict_ok_def Let_def)
    next
      case NoConflictYet
      then show ?thesis using assms(1) True by (simp add: conflict_ok_def)
    qed
  qed (simp add: conflict_ok_def assms(3))
qed

lemma pb_prop_loop_conflict_fields:
  "pb_prop_loop n w ms i s = (i', s') \<Longrightarrow> conflict s' = conflict s \<and> typeConflict s' = typeConflict s
     \<and> constraintConflictNum s' = constraintConflictNum s \<and> clauseConflictNum s' = clauseConflictNum s
     \<and> binClauseConflict s' = binClauseConflict s"
  by (induction n w ms i s arbitrary: i' s' rule: pb_prop_loop.induct)
     (auto simp: setTrueDueToReason_def reportPropagationInPBCounter_def split: if_splits)

lemma propagateInitial_facts:
  assumes inv: "solver_inv s" "conflict_ok s" and n: "n < length (constraintsPB s)"
    and s': "s' = propagateInitialConstraintCounter n s"
  shows "solver_inv s' \<and> prop_ext s s' \<and> conflict_ok s'
    \<and> ((\<forall>c. \<not> conflict s \<longrightarrow> c < length (constraintsPB s) \<longrightarrow> c \<noteq> n \<longrightarrow> 0 \<le> sumOfWatches s ! c + fst (pb_lhs (constraintsPB s ! c) ! 0))
         \<longrightarrow> conflict s' \<or> \<not> conflict s \<and> slacks_nonneg s')"
    (is "_ \<and> _ \<and> _ \<and> (?others \<longrightarrow> _)")
proof -
  let ?c = "constraintsPB s ! n" and ?m = "solver_model s"
  define w where "w = sumOfWatches s ! n + fst (pb_lhs ?c ! 0)"
  have core: "core_inv s" and co: "counters_ok s" and wf: "wf_model ?m" using inv by (auto simp: solver_inv_def core_inv_def)
  have ok: "pb_ok (numVars s) ?c" using core n by (auto simp: core_inv_def db_ok_def)
  then have max: "0 < fst (pb_lhs ?c ! 0)" by (cases "pb_lhs ?c") (auto simp: pb_ok_def)
  have weq: "w = msum (\<lambda>l. - l \<notin> set (plits ?m)) (pb_lhs ?c) - pb_rhs ?c"
    using co n by (simp add: w_def counters_ok_def counter_value_def)
  have "set (plits ?m) \<subseteq> set (tlits ?m)" by (auto simp: plits_def dest: in_set_takeD)
  then have below: "msum (\<lambda>l. - l \<notin> set (tlits ?m)) (pb_lhs ?c) - pb_rhs ?c \<le> w"
    unfolding weq using ok by (auto simp: pb_ok_def intro!: msum_mono)
  have all: "slacks_nonneg s" if "?others" "0 \<le> w" "\<not> conflict s"
    unfolding slacks_nonneg_def using that by (metis w_def)
  show ?thesis
  proof (cases "sumOfWatches s ! n < 0")
    case False
    then have "s' = s" by (simp add: s' propagateInitialConstraintCounter_def)
    moreover have "0 \<le> w" using False max by (simp add: w_def)
    ultimately show ?thesis using inv all by auto
  next
    case neg: True
    show ?thesis
    proof (cases "w < 0")
      case True
      then have e: "s' = s\<lparr>conflict := True, typeConflict := CONFLICT_PB, constraintConflictNum := n\<rparr>"
        using neg by (simp add: s' propagateInitialConstraintCounter_def w_def Let_def)
      have "counters_ok s'" using co by (simp add: e counters_ok_def)
      moreover have "conflict_ok s'" using n below True by (simp add: e conflict_ok_def)
      moreover have "prop_ext s s'" by (simp add: e prop_ext_def same_db_def)
      ultimately show ?thesis using core by (simp add: e solver_inv_def)
    next
      case False
      obtain i s1 where loop: "pb_prop_loop n w (pb_lhs ?c) 0 s = (i, s1)" by fastforce
      note L = pb_prop_loop_facts [OF core n order.refl below loop]
      note K = pb_prop_loop_conflict_fields [OF loop]
      define f :: "pbconstraint \<Rightarrow> pbconstraint" where "f = (\<lambda>c. c\<lparr>pb_maxWIdx := i, pb_numBackjump := numOfBackjump (solver_stats s1)\<rparr>)"
      have e: "s' = set_pb n f s1"
        using neg False loop by (simp add: s' propagateInitialConstraintCounter_def w_def Let_def f_def)
      have n1: "n < length (constraintsPB s1)" using L n by simp
      have F: "core_inv s'" "prop_ext s1 s'" "sumOfWatches s' = sumOfWatches s1" "conflict s' = conflict s1"
        unfolding e using L n1 by (simp_all add: set_pb_facts f_def)
      have x: "prop_ext s s'" using L F(2) prop_ext_trans by blast
      have sums: "sumOfWatches s' = sumOfWatches s" using L F(3) by simp
      have "counters_ok s'" by (rule counters_ok_ext [OF x sums wf co])
      moreover have "conflict_ok s'"
        by (rule conflict_ok_ext [OF inv(2) x]) (use K F(4) core in \<open>simp_all add: e set_pb_def\<close>)
      moreover have "slacks_nonneg s'" if "?others" "\<not> conflict s"
        using all [OF that(1) _ that(2)] False same_db_length [OF prop_ext_db [OF x]] same_db_pb [OF prop_ext_db [OF x]]
        by (simp add: slacks_nonneg_def sums)
      ultimately show ?thesis using F K x by (auto simp: solver_inv_def)
    qed
  qed
qed


section \<open>Loading a constraint\<close>

text \<open>
  A constraint the solver can load: positive decreasing coefficients, literals over the solver's
  variables, at least one monomial and a positive constant.
\<close>

definition loadable :: "int \<Rightarrow> wconstraint \<Rightarrow> bool" where
  "loadable n c \<longleftrightarrow> 0 < rhs c \<and> lhs c \<noteq> [] \<and> pos_coeffs (lhs c) \<and> nonzero_lits (lhs c)
     \<and> isOrderedByDecreasingCoefficient (lhs c) \<and> (\<forall>m \<in> set (lhs c). \<bar>snd m\<bar> \<le> n)"

text \<open>States between two loads: the invariant, real conflicts, and no violated counter.\<close>

definition load_inv :: "('a::linorder) solver \<Rightarrow> bool" where
  "load_inv s \<longleftrightarrow> solver_inv s \<and> conflict_ok s \<and> (conflict s \<or> slacks_nonneg s)"

lemma decreasing_first:
  "isOrderedByDecreasingCoefficient ms \<Longrightarrow> m \<in> set ms \<Longrightarrow> fst m \<le> fst (ms ! 0)"
proof (induction ms rule: isOrderedByDecreasingCoefficient.induct)
  case (1 x y ms)
  then show ?case by (auto split: if_splits)
qed auto

lemma conflict_ok_add:
  assumes "conflict_ok s" shows "conflict_ok (addPBConstraintCounter c s)"
proof -
  let ?s = "addPBConstraintCounter c s"
  obtain slk s1 where l: "add_counter_loop (length (constraintsPB s)) (pb_lhs c) (- pb_rhs c - fst (pb_lhs c ! 0))
      (s\<lparr>solver_stats := (solver_stats s)\<lparr>numOfCounterCtr := numOfCounterCtr (solver_stats s) + 1\<rparr>\<rparr>) = (slk, s1)"
    by fastforce
  have k: "typeConflict t' = typeConflict t \<and> constraintConflictNum t' = constraintConflictNum t
      \<and> clauseConflictNum t' = clauseConflictNum t \<and> binClauseConflict t' = binClauseConflict t"
    if "add_counter_loop cid ms x t = (x', t')" for cid ms x and t :: "'a solver" and x' t'
    using that
    by (induction cid ms x t arbitrary: x' t' rule: add_counter_loop.induct) (auto simp: Let_def push_gen_def push_occ_def)
  have "typeConflict ?s = typeConflict s" "constraintConflictNum ?s = constraintConflictNum s"
    "clauseConflictNum ?s = clauseConflictNum s" "binClauseConflict ?s = binClauseConflict s"
    using k [OF l] l by (simp_all add: addPBConstraintCounter_def)
  then show ?thesis
    using assms by (cases "typeConflict s") (auto simp: conflict_ok_def addPBConstraintCounter_simps nth_append Let_def)
qed

lemma addAndPropagate_facts:
  assumes i: "solver_inv s" "conflict_ok s" and c: "loadable (numVars s) c"
  obtains s' where "addAndPropagatePBConstraint c init act lbd False s = Some s'" "solver_inv s'" "conflict_ok s'"
    "load_inv s \<Longrightarrow> load_inv s'" "same_db (addPBConstraintCounter (pb_of_wconstraint (the (simplify c)) init act lbd) s) s'"
    "\<And>\<sigma>. db_sat \<sigma> s' \<longleftrightarrow> db_sat \<sigma> s \<and> sat \<sigma> c" "numVars s' = numVars s"
    "length (clauses s') = length (clauses s)" "binClauses s' = binClauses s"
    "\<And>e. e \<in> set (modelStack (solver_model s)) \<Longrightarrow> e \<in> set (modelStack (solver_model s'))"
    "decisions (solver_model s') = decisions (solver_model s)"
proof -
  obtain c' where c': "simplify c = Some c'" "\<And>\<sigma>. sat \<sigma> c' = sat \<sigma> c" "0 < rhs c'"
    "map snd (lhs c') = map snd (lhs c)" "\<forall>m \<in> set (lhs c'). 0 < fst m \<and> fst m \<le> rhs c'"
    "isOrderedByDecreasingCoefficient (lhs c')"
    using simplify_correct [of c] c unfolding loadable_def by metis
  let ?pc = "pb_of_wconstraint c' init act lbd"
  have "snd ` set (lhs c') = snd ` set (lhs c)" using c'(4) by (metis set_map)
  then have lits: "\<And>m. m \<in> set (lhs c') \<Longrightarrow> snd m \<noteq> 0 \<and> \<bar>snd m\<bar> \<le> numVars s"
    using c unfolding loadable_def nonzero_lits_def by (metis (no_types, lifting) image_iff)
  have ok: "pb_ok (numVars s) ?pc"
    using c'(4,5,6) lits c decreasing_first [OF c'(6)]
    by (auto simp: pb_ok_def pb_of_wconstraint_def pos_coeffs_def nonzero_lits_def loadable_def)
  define s1 where "s1 = addPBConstraintCounter ?pc s"
  note A = addPBConstraintCounter_inv [OF i(1) ok, folded s1_def]
  note S = addPBConstraintCounter_simps [of ?pc s, folded s1_def]
  define n where "n = length (constraintsPB s1) - 1"
  have n: "n < length (constraintsPB s1)" by (simp add: n_def S)
  define s2 where "s2 = propagateInitialConstraintCounter n s1"
  have co1: "conflict_ok s1" unfolding s1_def by (rule conflict_ok_add [OF i(2)])
  have len: "length (sumOfWatches s) = length (constraintsPB s)"
    using i(1) by (auto simp: solver_inv_def core_inv_def db_ok_def)
  have others: "0 \<le> sumOfWatches s1 ! d + fst (pb_lhs (constraintsPB s1 ! d) ! 0)"
    if "load_inv s" "\<not> conflict s1" "d < length (constraintsPB s1)" "d \<noteq> n" for d
  proof -
    have "d < length (constraintsPB s)" using that by (simp add: S n_def)
    then show ?thesis
      using that(1,2) len by (simp add: load_inv_def slacks_nonneg_def S nth_append)
  qed
  note P = propagateInitial_facts [OF A(1) co1 n s2_def]
  have d2: "same_db s1 s2" and x2: "prop_ext s1 s2" using P prop_ext_db by blast+
  have w: "wf_model (solver_model s1)" "wf_model (solver_model s2)"
    using A(1) P by (auto simp: solver_inv_def core_inv_def)
  define s3 where "s3 = s2\<lparr>solver_stats := (solver_stats s2)\<lparr>numOfIntsInPbsAndClauses :=
      numOfIntsInPbsAndClauses (solver_stats s2) + (7 + 2 * int (length (lhs c')))\<rparr>\<rparr>"
  show ?thesis
  proof
    show "addAndPropagatePBConstraint c init act lbd False s = Some s3"
      by (simp add: addAndPropagatePBConstraint_def c'(1) Let_def s3_def s2_def s1_def n_def)
    show "solver_inv s3" "conflict_ok s3" using P by (auto simp: s3_def)
    show "load_inv s3" if "load_inv s" using P others [OF that] by (auto simp: load_inv_def s3_def)
    show "same_db (addPBConstraintCounter (pb_of_wconstraint (the (simplify c)) init act lbd) s) s3"
      using d2 by (simp add: s3_def c'(1) s1_def)
    show "db_sat \<sigma> s3 \<longleftrightarrow> db_sat \<sigma> s \<and> sat \<sigma> c" for \<sigma>
    proof -
      have "same_db s1 s3" using d2 by (simp add: s3_def)
      then have "db_sat \<sigma> s3 = db_sat \<sigma> s1" by (rule same_db_sat)
      also have "\<dots> \<longleftrightarrow> db_sat \<sigma> s \<and> sat \<sigma> c'"
        using A(2) by (simp add: pb_sat_def pb_of_wconstraint_def sat_def)
      finally show ?thesis using c'(2) by simp
    qed
    show "numVars s3 = numVars s" "length (clauses s3) = length (clauses s)" "binClauses s3 = binClauses s"
      using d2 same_db_length [OF d2] by (auto simp: s3_def same_db_def S)
    show "e \<in> set (modelStack (solver_model s3))" if "e \<in> set (modelStack (solver_model s))" for e
      using that x2 by (auto simp: prop_ext_def S s3_def)
    show "decisions (solver_model s3) = decisions (solver_model s)"
      using prop_ext_decisions(1) [OF x2 w] by (simp add: s3_def S)
  qed
qed


lemma normalize_loadable:
  assumes "pos_coeffs (lhs c)" "nonzero_lits (lhs c)" "\<forall>m \<in> set (lhs c). \<bar>snd m\<bar> \<le> n"
    and "0 < rhs (normalize c)" "lhs (normalize c) \<noteq> []"
  shows "loadable n (normalize c)"
proof -
  have le: "v \<le> n" if "v \<in> set (mvars (lhs c))" for v using that assms(3) by (auto simp: set_mvars)
  have "\<forall>m \<in> set (lhs (normalize c)). \<bar>snd m\<bar> \<le> n"
  proof
    fix m assume "m \<in> set (lhs (normalize c))"
    then have "\<bar>snd m\<bar> \<in> set (mvars (lhs (normalize c)))" by (simp add: set_mvars)
    with normalize_vars [OF assms(1,2)] show "\<bar>snd m\<bar> \<le> n" by (intro le) (rule subsetD)
  qed
  then show ?thesis
    unfolding loadable_def
    using assms(4,5) normalize_pos [OF assms(1,2)] normalize_nonzero [OF assms(1,2)] normalize_ordered [OF assms(1,2)]
    by blast
qed

text \<open>A load: the state after it and what it did to the solutions.\<close>

definition loaded :: "('a::linorder) solver \<Rightarrow> (assignment \<Rightarrow> bool) \<Rightarrow> 'a solver \<Rightarrow> bool" where
  "loaded s P s' \<longleftrightarrow> load_inv s' \<and> (\<forall>\<sigma>. db_sat \<sigma> s' \<longleftrightarrow> db_sat \<sigma> s \<and> P \<sigma>) \<and> numVars s' = numVars s
     \<and> length (clauses s') = length (clauses s) \<and> binClauses s' = binClauses s
     \<and> decisions (solver_model s') = decisions (solver_model s)"

lemma loaded_trans: "loaded s P t \<Longrightarrow> loaded t Q u \<Longrightarrow> (\<And>\<sigma>. R \<sigma> \<longleftrightarrow> P \<sigma> \<and> Q \<sigma>) \<Longrightarrow> loaded s R u"
  by (simp add: loaded_def)

lemma addAndPropagate_loaded:
  assumes "load_inv s" "loadable (numVars s) c"
  shows "\<exists>s'. addAndPropagatePBConstraint c init act lbd False s = Some s' \<and> loaded s (\<lambda>\<sigma>. sat \<sigma> c) s'"
proof -
  have i: "solver_inv s" "conflict_ok s" using assms(1) by (auto simp: load_inv_def)
  show ?thesis
  proof (rule addAndPropagate_facts [OF i assms(2), of init act lbd])
    fix s'
    assume a: "addAndPropagatePBConstraint c init act lbd False s = Some s'" "load_inv s \<Longrightarrow> load_inv s'"
      "\<And>\<sigma>. db_sat \<sigma> s' \<longleftrightarrow> db_sat \<sigma> s \<and> sat \<sigma> c" "numVars s' = numVars s"
      "length (clauses s') = length (clauses s)" "binClauses s' = binClauses s"
      "decisions (solver_model s') = decisions (solver_model s)"
    show ?thesis unfolding loaded_def using a(1,3-) a(2) [OF assms(1)] by (intro exI [of _ s'] conjI allI)
  qed
qed

definition good_input :: "int \<Rightarrow> wconstraint \<Rightarrow> bool" where
  "good_input n c \<longleftrightarrow> pos_coeffs (lhs c) \<and> nonzero_lits (lhs c) \<and> (\<forall>m \<in> set (lhs c). \<bar>snd m\<bar> \<le> n)
     \<and> 0 < rhs (normalize c) \<and> lhs (normalize c) \<noteq> []"

lemma Native_addConstraint_loaded:
  assumes "load_inv s" "good_input (numVars s) c"
  shows "\<exists>s'. Native_addConstraint c isInitial s = Some s' \<and> loaded s (\<lambda>\<sigma>. sat \<sigma> c) s'"
proof -
  have "loadable (numVars s) (normalize c)" using assms(2) unfolding good_input_def by (intro normalize_loadable) auto
  moreover have "sat \<sigma> (normalize c) = sat \<sigma> c" for \<sigma> using assms(2) normalize_sat by (simp add: good_input_def)
  ultimately show ?thesis
    using addAndPropagate_loaded [OF assms(1)] unfolding Native_addConstraint_def normalize_def [symmetric] by fastforce
qed

lemma addLearned_loaded:
  "load_inv s \<Longrightarrow> (\<forall>c \<in> set cs. good_input (numVars s) c) \<Longrightarrow>
   \<exists>s'. Native_addLearnedConstraints cs s = Some s' \<and> loaded s (\<lambda>\<sigma>. \<forall>c \<in> set cs. sat \<sigma> c) s'"
proof (induction cs arbitrary: s)
  case Nil
  then show ?case by (simp add: loaded_def)
next
  case (Cons c cs)
  then have "good_input (numVars s) c" by simp
  from Native_addConstraint_loaded [OF Cons.prems(1) this, of True]
  obtain t where t: "Native_addConstraint c True s = Some t" "loaded s (\<lambda>\<sigma>. sat \<sigma> c) t" by blast
  have "load_inv t" "\<forall>c \<in> set cs. good_input (numVars t) c" using t(2) Cons.prems by (auto simp: loaded_def)
  from Cons.IH [OF this] obtain u where
    "Native_addLearnedConstraints cs t = Some u" "loaded t (\<lambda>\<sigma>. \<forall>c \<in> set cs. sat \<sigma> c) u" by blast
  with t loaded_trans [OF t(2)] show ?case by auto
qed

lemma unit_good_input: "l \<noteq> 0 \<Longrightarrow> \<bar>l\<bar> \<le> n \<Longrightarrow> good_input n (WConstraint_vec [1] [l] 1)"
proof -
  assume l: "l \<noteq> 0" "\<bar>l\<bar> \<le> n"
  let ?c = "WConstraint_vec [1] [l] 1"
  have p: "pos_coeffs (lhs ?c)" "nonzero_lits (lhs ?c)" using l by (simp_all add: WConstraint_vec_def)
  have s: "sortByIncreasingVariable ?c = ?c"
    by (simp add: sortByIncreasingVariable_def WConstraint_vec_def)
  have r: "removeDuplicates ?c = ?c"
    using l by (cases "0 < l") (auto simp: removeDuplicates_def WConstraint_vec_def Let_def)
  have "0 < rhs (normalize ?c) \<and> lhs (normalize ?c) \<noteq> []"
    unfolding normalize_def s r by (simp add: sortByDecreasingCoefficient_def WConstraint_vec_def)
  then show ?thesis using p l by (auto simp: good_input_def WConstraint_vec_def)
qed

lemma sat_unit: "sat \<sigma> (WConstraint_vec [1] [l] 1) \<longleftrightarrow> lit_true \<sigma> l"
  by (simp add: sat_def WConstraint_vec_def)

text \<open>
  Fixing a cube. Adding the literals of a cube to the native backend as unit constraints
  succeeds, keeps the invariant of the solver and leaves exactly the solutions in which every
  literal of the cube is true.
\<close>

theorem Native_addCube_restricts:
  assumes "load_inv s" "\<forall>l \<in> set cube. l \<noteq> 0 \<and> \<bar>l\<bar> \<le> numVars s"
  shows "\<exists>s'. Native_addCube cube s = Some s' \<and> loaded s (\<lambda>\<sigma>. \<forall>l \<in> set cube. lit_true \<sigma> l) s'"
  using assms
proof (induction cube arbitrary: s)
  case Nil
  then show ?case by (simp add: loaded_def)
next
  case (Cons l ls)
  then have "good_input (numVars s) (WConstraint_vec [1] [l] 1)" by (intro unit_good_input) auto
  from Native_addConstraint_loaded [OF Cons.prems(1) this, of True]
  obtain t where t: "Native_addConstraint (WConstraint_vec [1] [l] 1) True s = Some t" "loaded s (\<lambda>\<sigma>. lit_true \<sigma> l) t"
    unfolding sat_unit by blast
  have "load_inv t" "\<forall>l \<in> set ls. l \<noteq> 0 \<and> \<bar>l\<bar> \<le> numVars t" using t(2) Cons.prems by (auto simp: loaded_def)
  from Cons.IH [OF this] obtain u where "Native_addCube ls t = Some u" "loaded t (\<lambda>\<sigma>. \<forall>l \<in> set ls. lit_true \<sigma> l) u" by blast
  with t loaded_trans [OF t(2)] show ?case by auto
qed

lemma new_load_inv: "load_inv (new_solver one n)"
  using new_solver_inv [of one n] by (simp add: load_inv_def conflict_ok_def) (simp add: new_solver_def)

theorem Native_addCube_restricts_witness:
  "\<exists>s'. Native_addCube [1, -2] (new_solver (1::nat) 2) = Some s' \<and> load_inv s'
     \<and> (\<forall>\<sigma>. db_sat \<sigma> s' \<longrightarrow> \<sigma> 1 \<and> \<not> \<sigma> 2)"
proof -
  have "\<forall>l \<in> set [1, -2]. l \<noteq> 0 \<and> \<bar>l\<bar> \<le> numVars (new_solver (1::nat) 2)" by (simp add: new_solver_def)
  from Native_addCube_restricts [OF new_load_inv this] show ?thesis by (auto simp: loaded_def)
qed

text \<open>
  Loading learned constraints. Constraints with positive coefficients whose normal form is
  neither empty nor trivially true are all accepted by the native backend, and its solutions become
  those that satisfy every one of them.
\<close>

theorem Native_addLearned_restricts:
  assumes "load_inv s" "\<forall>c \<in> set cs. good_input (numVars s) c"
  shows "\<exists>s'. Native_addLearnedConstraints cs s = Some s' \<and> loaded s (\<lambda>\<sigma>. \<forall>c \<in> set cs. sat \<sigma> c) s'"
  using addLearned_loaded [OF assms] .

theorem Native_addLearned_restricts_witness:
  "\<exists>s'. Native_addLearnedConstraints [\<lparr>lhs = [(1, 1), (2, -2)], rhs = 2\<rparr>] (new_solver (1::nat) 2) = Some s' \<and> load_inv s'"
proof -
  have "good_input 2 \<lparr>lhs = [(1, 1), (2, -2)], rhs = 2\<rparr>"
    by (simp add: good_input_def normalize_def sortByIncreasingVariable_def sortByDecreasingCoefficient_def
        removeDuplicates_def Let_def)
  then have "\<forall>c \<in> set [\<lparr>lhs = [(1, 1), (2, -2)], rhs = 2\<rparr>]. good_input (numVars (new_solver (1::nat) 2)) c"
    by (simp add: new_solver_def)
  from Native_addLearned_restricts [OF new_load_inv this] show ?thesis by (auto simp: loaded_def)
qed


section \<open>Taking back an assumption\<close>

text \<open>
  \<open>api_ready\<close>: everything propagated and no conflict, the state between two calls.
  \<open>api_pending\<close>: the literals below the last decision are propagated, the state after an
  assumption that may have been refused.
\<close>

definition api_ready :: "('a::linorder) solver \<Rightarrow> bool" where
  "api_ready s \<longleftrightarrow> solver_inv s \<and> slacks_nonneg s \<and> \<not> conflict s \<and> areAllLitsPropagated (solver_model s)"

definition api_pending :: "('a::linorder) solver \<Rightarrow> bool" where
  "api_pending s \<longleftrightarrow> solver_inv s \<and> slacks_nonneg s \<and>
     int (length (stack_upto (decisionLevel (solver_model s) - 1) (modelStack (solver_model s)))) - 1
       \<le> lastPropagated (solver_model s)"

lemma stack_upto_length_mono: "d \<le> d' \<Longrightarrow> length (stack_upto d st) \<le> length (stack_upto d' st)"
  unfolding stack_upto_def by (induction st) auto

lemma stack_upto_length_le: "length (stack_upto d st) \<le> length st"
  unfolding stack_upto_def by (rule length_takeWhile_le)

lemma pop_to_dl_lastPropagated:
  assumes "solver_inv s" "0 \<le> dl"
  shows "lastPropagated (solver_model (pop_to_dl dl s)) =
     min (lastPropagated (solver_model s)) (int (length (stack_upto dl (modelStack (solver_model s)))) - 1)"
  using assms
proof (induction dl s rule: pop_to_dl.induct)
  case (1 dl s)
  let ?m = "solver_model s" and ?s = "snd (popAndUnassign s)"
  have w: "wf_model ?m" using "1.prems" by (auto simp: solver_inv_def core_inv_def)
  show ?case
  proof (cases "currentDecisionLevel ?m > dl \<and> modelStack ?m \<noteq> []")
    case True
    then have ne: "modelStack ?m \<noteq> []" by blast
    note p = popAndUnassign_inv [OF "1.prems"(1) ne]
    have "dl < se_dl (last (modelStack ?m))" using True by (auto simp: currentDecisionLevel_def)
    then have up: "stack_upto dl (modelStack ?m) = stack_upto dl (butlast (modelStack ?m))"
      using ne stack_upto_snoc by (metis append_butlast_last_id)
    have lp: "lastPropagated (solver_model ?s) = min (lastPropagated ?m) (int (length (butlast (modelStack ?m))) - 1)"
      by (simp add: Model_popAndUnassign_def Let_def)
    have "pop_to_dl dl s = pop_to_dl dl ?s" using True by (subst pop_to_dl.simps) simp
    then show ?thesis
      using "1.IH" [OF True p(1) "1.prems"(2)] stack_upto_length_le [of dl "butlast (modelStack ?m)"]
      unfolding p(2) up lp by (simp add: min_def del: length_butlast)
  next
    case False
    have "currentDecisionLevel ?m = end_dl 0 (modelStack ?m)"
      using w by (simp add: currentDecisionLevel_def end_dl_def)
    then have "end_dl 0 (modelStack ?m) \<le> dl" using False "1.prems"(2) by fastforce
    then have "stack_upto dl (modelStack ?m) = modelStack ?m"
      using w stack_upto_low [of 0 "modelStack ?m" dl] by (simp add: wf_model_def)
    moreover have "pop_to_dl dl s = s" using False by (subst pop_to_dl.simps) auto
    ultimately show ?thesis using w by (simp add: wf_model_def)
  qed
qed

lemma dec_lits_upto: "dl_chain d st \<Longrightarrow> d \<le> dl \<Longrightarrow> dec_lits d (stack_upto dl st) = take (nat (dl - d)) (dec_lits d st)"
proof (induction st arbitrary: d)
  case (Cons e st)
  show ?case
  proof (cases "se_dl e \<le> dl")
    case True
    then have IH: "dec_lits (se_dl e) (stack_upto dl st) = take (nat (dl - se_dl e)) (dec_lits (se_dl e) st)"
      using Cons by simp
    show ?thesis
    proof (cases "d < se_dl e")
      case t: True
      then have "se_dl e = d + 1" using Cons.prems(1) by simp
      moreover from this have "nat (dl - d) = Suc (nat (dl - se_dl e))" using True by simp
      ultimately show ?thesis using IH True t by (simp add: stack_upto_def)
    next
      case f: False
      then have "se_dl e = d" using Cons.prems(1) by simp
      then show ?thesis using IH True f by (simp add: stack_upto_def)
    qed
  next
    case False
    then have "dl = d" "se_dl e = d + 1" using Cons.prems by auto
    then show ?thesis using False by (simp add: stack_upto_def)
  qed
qed (simp add: stack_upto_def)

lemma conflict_update_inv [simp]:
  "solver_inv (s\<lparr>conflict := x\<rparr>) = solver_inv s" "slacks_nonneg (s\<lparr>conflict := x\<rparr>) = slacks_nonneg s"
  "same_db s' (s\<lparr>conflict := x\<rparr>) = same_db s' s"
proof -
  let ?s = "s\<lparr>conflict := x\<rparr>"
  have d: "same_db s ?s" by (simp add: same_db_def)
  have "lists_ok ?s = lists_ok s" "watches_ok ?s = watches_ok s"
    by (rule same_fields_lists_ok; simp) (rule same_fields_watches_ok; simp)
  then have "core_inv ?s = core_inv s"
    using same_db_stack_ok [OF d] by (simp add: core_inv_def db_ok_def trail_ok_stack trail_range_def)
  then show "solver_inv ?s = solver_inv s" by (simp add: solver_inv_def counters_ok_def)
  show "slacks_nonneg ?s = slacks_nonneg s" by (simp add: slacks_nonneg_def)
  show "same_db s' ?s = same_db s' s" by (simp add: same_db_def)
qed

lemma backtrack_facts:
  assumes p: "api_pending s" and n: "1 \<le> n" "n \<le> int (length (decisions (solver_model s)))"
  defines "t \<equiv> backtrack n s"
  shows "api_ready t" "same_db s t"
    "modelStack (solver_model t) = stack_upto (decisionLevel (solver_model s) - n) (modelStack (solver_model s))"
    "decisions (solver_model t) = take (length (decisions (solver_model s)) - nat n) (decisions (solver_model s))"
proof -
  let ?m = "solver_model s"
  have inv: "solver_inv s" and w: "wf_model ?m" using p by (auto simp: api_pending_def solver_inv_def core_inv_def)
  have cur: "currentDecisionLevel ?m = decisionLevel ?m"
    using w by (simp add: wf_model_def currentDecisionLevel_def end_dl_def)
  define g where "g = decisionLevel ?m - n"
  have g: "0 \<le> g" using n(2) length_decisions [OF w] by (simp add: g_def)
  have t: "t = (backjumpToDL g s)\<lparr>conflict := False\<rparr>" using n(1) by (simp add: t_def backtrack_def Let_def cur g_def)
  note B = backjumpToDL_inv [OF inv g]
  let ?s0 = "s\<lparr>solver_stats := (solver_stats s)\<lparr>numOfBackjump := numOfBackjump (solver_stats s) + 1\<rparr>\<rparr>"
  have "solver_inv ?s0" using inv by simp
  from pop_to_dl_lastPropagated [OF this g]
  have lp: "lastPropagated (solver_model t) =
     min (lastPropagated ?m) (int (length (stack_upto g (modelStack ?m))) - 1)"
    by (simp add: t backjumpToDL_def)
  have "length (stack_upto g (modelStack ?m)) \<le> length (stack_upto (decisionLevel ?m - 1) (modelStack ?m))"
    using n(1) by (intro stack_upto_length_mono) (simp add: g_def)
  then have "areAllLitsPropagated (solver_model t)"
    using p lp B(4) by (simp add: api_pending_def areAllLitsPropagated_def trailSize_def t)
  then show "api_ready t" using B p by (simp add: api_ready_def api_pending_def t)
  show "same_db s t" using B(2) by (simp add: t)
  show st: "modelStack (solver_model t) = stack_upto (decisionLevel ?m - n) (modelStack ?m)" using B(4) by (simp add: t g_def)
  have "nat (g - 0) = length (decisions ?m) - nat n" using length_decisions [OF w] n by (simp add: g_def)
  then show "decisions (solver_model t) = take (length (decisions ?m) - nat n) (decisions ?m)"
    using dec_lits_upto [of 0 "modelStack ?m" g] w g st by (simp add: decisions_def wf_model_def g_def)
qed

lemma assume_facts:
  assumes r: "api_ready s" and l: "l \<noteq> 0" "\<bar>l\<bar> \<le> numVars s" "isUndefLit (solver_model s) l"
  obtains b s' where "assumeAndPropagate l s = Some (b, s')" "api_pending s'" "same_db s s'" "b \<longrightarrow> api_ready s'"
    "decisions (solver_model s') = decisions (solver_model s) @ [l]"
    "stack_upto (decisionLevel (solver_model s)) (modelStack (solver_model s')) = modelStack (solver_model s)"
    "decisionLevel (solver_model s') = decisionLevel (solver_model s) + 1" "b \<longleftrightarrow> \<not> conflict s'"
    "length (modelStack (solver_model s)) < length (modelStack (solver_model s'))"
    "\<not> b \<longrightarrow> (\<forall>\<sigma>. db_sat \<sigma> s \<longrightarrow> (\<exists>d \<in> set (decisions (solver_model s) @ [l]). \<not> lit_true \<sigma> d))"
proof -
  let ?m = "solver_model s"
  define s1 where "s1 = setTrueDueToDecision l s"
  have inv: "solver_inv s" and nc: "\<not> conflict s" and w: "wf_model ?m"
    using r by (auto simp: api_ready_def solver_inv_def core_inv_def)
  have i1: "solver_inv s1" unfolding s1_def by (rule push_decision_inv [OF inv l])
  have nc1: "\<not> conflict s1" using nc by (simp add: s1_def)
  have d1: "same_db s s1" unfolding s1_def by (rule same_fields_same_db) simp_all
  have sl1: "slacks_nonneg s1" using r by (simp add: api_ready_def s1_def slacks_nonneg_def)
  have w1: "wf_model (solver_model s1)" using i1 by (simp add: solver_inv_def core_inv_def)
  have st1: "modelStack (solver_model s1) = modelStack ?m @ [\<lparr>se_lit = l, se_dl = decisionLevel ?m + 1, se_reason = NoReason\<rparr>]"
    by (simp add: s1_def)
  have e: "end_dl 0 (modelStack ?m) = decisionLevel ?m" "dl_chain 0 (modelStack ?m)" using w by (simp_all add: wf_model_def)
  have dec1: "decisions (solver_model s1) = decisions ?m @ [l]"
    unfolding decisions_def st1 using e by (subst dec_lits_append) simp_all
  have dl1: "decisionLevel (solver_model s1) = decisionLevel ?m + 1" using w1 st1 by (simp add: wf_model_def)
  obtain s' where p: "propagate s1 = Some s'" and R: "prop_result s1 s'" using propagate_total [OF i1 nc1] by blast
  obtain new where new: "modelStack (solver_model s') = modelStack (solver_model s1) @ new" "\<forall>x \<in> set new. se_reason x \<noteq> NoReason"
    using R by (auto simp: prop_result_def)
  have dec': "decisions (solver_model s') = decisions ?m @ [l]" using R dec1 by (simp add: prop_result_def)
  have w': "wf_model (solver_model s')" using R by (simp add: prop_result_def solver_inv_def core_inv_def)
  have dl': "decisionLevel (solver_model s') = decisionLevel ?m + 1"
    using length_decisions [OF w'] length_decisions [OF w] dec' by simp
  have "stack_upto (decisionLevel ?m) (modelStack ?m) = modelStack ?m" using e by (intro stack_upto_low [of 0]) simp_all
  moreover have "stack_upto d (xs @ y # ys) = stack_upto d xs" if "d < se_dl y" for d xs y ys
    using that by (induction xs) (auto simp: stack_upto_def)
  ultimately have up: "stack_upto (decisionLevel ?m) (modelStack (solver_model s')) = modelStack ?m"
    by (simp add: new(1) st1)
  have lp: "lastPropagated ?m = int (length (modelStack ?m)) - 1"
    using r by (simp add: api_ready_def areAllLitsPropagated_def trailSize_def)
  have "lastPropagated ?m \<le> lastPropagated (solver_model s')" using R by (simp add: prop_result_def s1_def)
  then have pend: "api_pending s'" using R sl1 up lp by (simp add: api_pending_def prop_result_def dl')
  have db: "same_db s s'" using R d1 same_db_trans by (auto simp: prop_result_def)
  show thesis
  proof
    show "assumeAndPropagate l s = Some (\<not> conflict s', s')" using p by (simp add: assumeAndPropagate_def s1_def)
    show "\<not> conflict s' \<longrightarrow> api_ready s'" using R sl1 by (simp add: prop_result_def api_ready_def)
    show "\<not> \<not> conflict s' \<longrightarrow> (\<forall>\<sigma>. db_sat \<sigma> s \<longrightarrow> (\<exists>d \<in> set (decisions ?m @ [l]). \<not> lit_true \<sigma> d))"
      using prop_result_conflict [OF R] same_db_sat [OF d1] dec1 by auto
    show "length (modelStack ?m) < length (modelStack (solver_model s'))" by (simp add: new(1) st1)
  qed (use pend db dec' up dl' in auto)
qed

text \<open>
  C17: Taking back an assumption restores the solver. After \<open>assumeAndPropagate\<close> on an unassigned
  literal, whatever its answer, \<open>backtrack 1\<close> gives back the trail, the slack counters and the
  decisions of the state before, with no conflict and nothing left to propagate.
\<close>

theorem assume_backtrack_restores:
  assumes "api_ready s" "l \<noteq> 0" "\<bar>l\<bar> \<le> numVars s" "isUndefLit (solver_model s) l"
    and "assumeAndPropagate l s = Some (b, s')"
  shows "api_ready (backtrack 1 s') \<and> same_db s (backtrack 1 s')
    \<and> modelStack (solver_model (backtrack 1 s')) = modelStack (solver_model s)
    \<and> truthValueOfVar (solver_model (backtrack 1 s')) = truthValueOfVar (solver_model s)
    \<and> sumOfWatches (backtrack 1 s') = sumOfWatches s"
proof (rule assume_facts [OF assms(1-4)])
  fix b0 s0
  assume A: "assumeAndPropagate l s = Some (b0, s0)" "api_pending s0" "same_db s s0"
    "decisions (solver_model s0) = decisions (solver_model s) @ [l]"
    "stack_upto (decisionLevel (solver_model s)) (modelStack (solver_model s0)) = modelStack (solver_model s)"
    "decisionLevel (solver_model s0) = decisionLevel (solver_model s) + 1"
  then have e: "s0 = s'" using assms(5) by simp
  let ?t = "backtrack 1 s'"
  have le: "1 \<le> int (length (decisions (solver_model s0)))" using A(4) by simp
  note B = backtrack_facts [OF A(2) order.refl le, unfolded e]
  have st: "modelStack (solver_model ?t) = modelStack (solver_model s)" using B(3) A(5,6) by (simp add: e)
  have db: "same_db s ?t" using A(3) B(2) same_db_trans unfolding e by blast
  have i: "solver_inv s" "solver_inv ?t" using assms(1) B(1) by (auto simp: api_ready_def)
  then have w: "wf_model (solver_model s)" "wf_model (solver_model ?t)" by (auto simp: solver_inv_def core_inv_def)
  have tl: "tlits (solver_model ?t) = tlits (solver_model s)" using st by (simp add: tlits_def)
  have tv: "truthValueOfVar (solver_model ?t) = truthValueOfVar (solver_model s)"
    using w tl by (auto simp: wf_model_def fun_eq_iff)
  have "lastPropagated (solver_model ?t) = lastPropagated (solver_model s)"
    using assms(1) B(1) st by (simp add: api_ready_def areAllLitsPropagated_def trailSize_def)
  then have pl: "plits (solver_model ?t) = plits (solver_model s)" using tl by (simp add: plits_def)
  have len: "length (sumOfWatches ?t) = length (sumOfWatches s)"
    using i same_db_length [OF db] by (simp add: solver_inv_def core_inv_def db_ok_def)
  have "sumOfWatches ?t = sumOfWatches s"
  proof (rule nth_equalityI [OF len])
    fix c assume "c < length (sumOfWatches ?t)"
    then have c: "c < length (constraintsPB s)" using i len by (simp add: solver_inv_def core_inv_def db_ok_def)
    then show "sumOfWatches ?t ! c = sumOfWatches s ! c"
      using i pl same_db_length [OF db] same_db_pb [OF db c] by (simp add: solver_inv_def counters_ok_def counter_value_def)
  qed
  with B(1) db st tv show ?thesis by blast
qed

definition sample_base :: "nat solver" where
  "sample_base = addPBConstraintCounter sample_constraint (new_solver 1 2)"

lemma sample_base_ready: "api_ready sample_base" "numVars sample_base = 2"
    "isUndefLit (solver_model sample_base) (- 1)"
  using sample_base_inv sample_base_slack
  by (simp_all add: api_ready_def sample_base_def addPBConstraintCounter_simps new_solver_def new_model_def
      areAllLitsPropagated_def trailSize_def isUndefLit_def isUndefVar_def)

theorem assume_backtrack_restores_witness:
  "\<exists>b s'. assumeAndPropagate (- 1) sample_base = Some (b, s') \<and> api_ready (backtrack 1 s')
     \<and> sumOfWatches (backtrack 1 s') = sumOfWatches sample_base"
proof -
  have l: "(- 1::int) \<noteq> 0" "\<bar>- 1\<bar> \<le> numVars sample_base" using sample_base_ready by simp_all
  obtain b s' where a: "assumeAndPropagate (- 1) sample_base = Some (b, s')"
    by (rule assume_facts [OF sample_base_ready(1) l sample_base_ready(3)])
  from assume_backtrack_restores [OF sample_base_ready(1) l sample_base_ready(3) this] a show ?thesis by blast
qed

text \<open>
  A refused assumption is a contradiction. When \<open>assumeAndPropagate\<close> answers false, every
  solution of the database falsifies the assumed literal or one of the decisions already made.
\<close>

theorem assume_refused_sound:
  assumes "api_ready s" "l \<noteq> 0" "\<bar>l\<bar> \<le> numVars s" "isUndefLit (solver_model s) l"
    and "assumeAndPropagate l s = Some (False, s')" "db_sat \<sigma> s" "lit_true \<sigma> l"
  shows "\<exists>d \<in> set (decisions (solver_model s)). \<not> lit_true \<sigma> d"
proof (rule assume_facts [OF assms(1-4)])
  fix b0 s0
  assume "assumeAndPropagate l s = Some (b0, s0)"
    "\<not> b0 \<longrightarrow> (\<forall>\<sigma>. db_sat \<sigma> s \<longrightarrow> (\<exists>d \<in> set (decisions (solver_model s) @ [l]). \<not> lit_true \<sigma> d))"
  with assms(5-7) show ?thesis by auto
qed

theorem assume_refused_sound_witness:
  "\<exists>s'. assumeAndPropagate (- 1) sample_base = Some (False, s') \<and>
     (lit_true (\<lambda>_. False) (- 1) \<and> db_sat (\<lambda>_. False) sample_base \<longrightarrow>
        (\<exists>d \<in> set (decisions (solver_model sample_base)). \<not> lit_true (\<lambda>_. False) d))"
proof -
  have l: "(- 1::int) \<noteq> 0" "\<bar>- 1\<bar> \<le> numVars sample_base" using sample_base_ready by simp_all
  have "case assumeAndPropagate (- 1) sample_base of None \<Rightarrow> False | Some (b, _) \<Rightarrow> \<not> b" by code_simp
  then obtain s' where a: "assumeAndPropagate (- 1) sample_base = Some (False, s')"
    by (cases "assumeAndPropagate (- 1) sample_base") auto
  from assume_refused_sound [OF sample_base_ready(1) l sample_base_ready(3) a] a show ?thesis by blast
qed

section \<open>Size of the reduced formula\<close>

lemma count_bin_ge: "tot \<le> count_bin m v ls tot"
  by (induction m v ls tot rule: count_bin.induct) (auto split: if_splits)

lemma count_bin_zero: "count_bin m v ls tot = tot \<Longrightarrow> l \<in> set ls \<Longrightarrow> isTrueLit m l \<or> \<bar>l\<bar> < v"
proof (induction m v ls tot rule: count_bin.induct)
  case (2 m v k ls tot)
  then show ?case using count_bin_ge [of "tot + 1" m v ls] by (auto split: if_splits)
qed simp

lemma count_bins_ge: "tot \<le> count_bins s vs tot"
proof (induction s vs tot rule: count_bins.induct)
  case (2 s v vs tot)
  show ?case
    using 2 [OF refl refl refl] count_bin_ge [of tot "solver_model s" v "binClauses s v"]
      count_bin_ge [of _ "solver_model s" v "binClauses s (- v)"]
    by (auto simp: Let_def split: if_splits intro: order_trans)
qed simp

lemma count_bins_zero:
  "count_bins s vs tot = tot \<Longrightarrow> v \<in> set vs \<Longrightarrow>
     (\<not> isTrueVar (solver_model s) v \<longrightarrow> (\<forall>l \<in> set (binClauses s v). isTrueLit (solver_model s) l \<or> \<bar>l\<bar> < v)) \<and>
     (\<not> isFalseVar (solver_model s) v \<longrightarrow> (\<forall>l \<in> set (binClauses s (- v)). isTrueLit (solver_model s) l \<or> \<bar>l\<bar> < v))"
proof (induction s vs tot rule: count_bins.induct)
  case (2 s u vs tot)
  let ?m = "solver_model s"
  define t1 where "t1 = (if \<not> isTrueVar ?m u then count_bin ?m u (binClauses s u) tot else tot)"
  define t2 where "t2 = (if \<not> isFalseVar ?m u then count_bin ?m u (binClauses s (- u)) t1 else t1)"
  have e: "count_bins s vs t2 = tot" using "2.prems"(1) by (simp only: t1_def t2_def Let_def count_bins.simps)
  have "tot \<le> t1" using count_bin_ge by (simp add: t1_def)
  moreover have "t1 \<le> t2" using count_bin_ge by (simp add: t2_def)
  moreover have "t2 \<le> tot" using count_bins_ge [of t2 s vs] e by simp
  ultimately have t: "t1 = tot" "t2 = tot" by simp_all
  show ?case
  proof (cases "v = u")
    case True
    then show ?thesis using t count_bin_zero unfolding t1_def t2_def by (metis (full_types))
  next
    case False
    then have "v \<in> set vs" using "2.prems"(2) by simp
    from "2.IH" [OF refl t1_def t2_def _ this] e t(2) show ?thesis by simp
  qed
qed simp

lemma count_clauses_ge: "tot \<le> count_clauses m cs tot"
  by (induction m cs tot rule: count_clauses.induct) (auto split: if_splits)

lemma count_clauses_zero: "count_clauses m cs tot = tot \<Longrightarrow> c \<in> set cs \<Longrightarrow> clauseIsTrue m c"
proof (induction m cs tot rule: count_clauses.induct)
  case (2 m c' cs tot)
  then show ?case using count_clauses_ge [of "tot + 1" m cs] by (auto split: if_splits)
qed simp

lemma count_pbs_ge: "tot \<le> count_pbs m cs tot"
  by (induction m cs tot rule: count_pbs.induct) (auto split: if_splits)

lemma count_pbs_zero:
  "count_pbs m cs tot = tot \<Longrightarrow> c \<in> set cs \<Longrightarrow> constraintIsTrue m \<lparr>lhs = pb_lhs c, rhs = pb_rhs c\<rparr>"
proof (induction m cs tot rule: count_pbs.induct)
  case (2 m c' cs tot)
  then show ?case using count_pbs_ge [of "tot + 1" m cs] by (auto split: if_splits)
qed simp

lemma min_sum_loop_le: "pos_coeffs ms \<Longrightarrow> min_sum_loop m ms acc \<le> acc + msum (isTrueLit m) ms"
proof (induction m ms acc rule: min_sum_loop.induct)
  case (2 m k l ms acc)
  then show ?case using msum_nonneg [of ms "isTrueLit m"] by (auto split: if_splits)
qed simp

text \<open>
  When \<open>reducedFormulaSize\<close> is zero the database is satisfied: every assignment that agrees
  with the trail is a solution, provided each binary clause is in the lists of both its literals.
\<close>

theorem reduced_size_zero_satisfied:
  assumes "core_inv s" "reducedFormulaSize s = 0" "\<forall>l l'. l' \<in> set (binClauses s l) \<longrightarrow> l \<in> set (binClauses s l')"
    and agree: "\<forall>l \<in> set (tlits (solver_model s)). lit_true \<sigma> l"
  shows "db_sat \<sigma> s"
proof -
  let ?m = "solver_model s"
  have w: "wf_model ?m" and db: "db_ok s" using assms(1) by (auto simp: core_inv_def)
  define t1 where "t1 = count_bins s [1..numVars s] 0"
  define t2 where "t2 = count_clauses ?m (clauses s) t1"
  have t: "count_pbs ?m (constraintsPB s) t2 = 0" using assms(2) by (simp add: reducedFormulaSize_def t1_def t2_def Let_def)
  have "0 \<le> t1" "t1 \<le> t2" "t2 \<le> 0"
    using count_bins_ge [of 0 s "[1..numVars s]"] count_clauses_ge [of t1 ?m "clauses s"]
      count_pbs_ge [of t2 ?m "constraintsPB s"] t unfolding t1_def [symmetric] t2_def [symmetric] by simp_all
  then have z: "t1 = 0" "t2 = 0" by simp_all
  have tr: "lit_true \<sigma> l" if "isTrueLit ?m l" for l using that agree wf_true [OF w] by blast
  have pb: "pb_sat \<sigma> c" if c: "c \<in> set (constraintsPB s)" for c
  proof -
    have pos: "pos_coeffs (pb_lhs c)" using db c by (auto simp: db_ok_def pb_ok_def)
    have "constraintIsTrue ?m \<lparr>lhs = pb_lhs c, rhs = pb_rhs c\<rparr>" using count_pbs_zero t z(2) c by metis
    then have "pb_rhs c \<le> msum (isTrueLit ?m) (pb_lhs c)"
      using min_sum_loop_le [OF pos, of ?m "- pb_rhs c"] by (simp add: constraintIsTrue_def)
    also have "\<dots> \<le> lhs_value \<sigma> (pb_lhs c)" by (rule msum_mono [OF pos]) (rule tr)
    finally show ?thesis by (simp add: pb_sat_def)
  qed
  have cl: "clause_sat \<sigma> (cl_lits c)" if "c \<in> set (clauses s)" for c
    using count_clauses_zero [of ?m "clauses s" t1 c] that z t2_def tr by (auto simp: clauseIsTrue_def clause_sat_def)
  have bv: "lit_true \<sigma> l \<or> lit_true \<sigma> l'" if "l' \<in> set (binClauses s l)" "\<bar>l\<bar> \<le> \<bar>l'\<bar>" for l l'
  proof -
    have "l \<noteq> 0" "\<bar>l'\<bar> \<le> numVars s" using db that(1) by (auto simp: db_ok_def)
    then have "\<bar>l\<bar> \<in> set [1..numVars s]" using that(2) by auto
    from count_bins_zero [OF _ this, of s 0] z(1)
    have "isTrueVar ?m \<bar>l\<bar> \<or> (\<forall>x \<in> set (binClauses s \<bar>l\<bar>). isTrueLit ?m x \<or> \<bar>x\<bar> < \<bar>l\<bar>)"
      "isFalseVar ?m \<bar>l\<bar> \<or> (\<forall>x \<in> set (binClauses s (- \<bar>l\<bar>)). isTrueLit ?m x \<or> \<bar>x\<bar> < \<bar>l\<bar>)" by (auto simp: t1_def)
    then have "isTrueLit ?m l \<or> isTrueLit ?m l'"
      using that \<open>l \<noteq> 0\<close> by (cases "0 < l") (force simp: isTrueLit_def isTrueVar_def isFalseVar_def)+
    then show ?thesis using tr by blast
  qed
  have "lit_true \<sigma> l \<or> lit_true \<sigma> l'" if "l' \<in> set (binClauses s l)" for l l'
    using bv [of l' l] bv [of l l'] that assms(3) by (cases "\<bar>l\<bar> \<le> \<bar>l'\<bar>") auto
  then show ?thesis using pb cl by (simp add: db_sat_def)
qed

theorem reduced_size_zero_satisfied_witness:
  "reducedFormulaSize (setTrueDueToDecision 1 sample_base) = 0 \<and> db_sat (\<lambda>v. v = 1) (setTrueDueToDecision 1 sample_base)"
proof -
  let ?s = "setTrueDueToDecision 1 sample_base"
  have "isUndefLit (solver_model sample_base) 1" using sample_base_ready(3) by (simp add: isUndefLit_def)
  then have "solver_inv ?s"
    using sample_base_ready by (intro push_decision_inv) (simp_all add: api_ready_def)
  then have 1: "core_inv ?s" by (simp add: solver_inv_def)
  have 2: "reducedFormulaSize ?s = 0" by code_simp
  have 3: "\<forall>l l'. l' \<in> set (binClauses ?s l) \<longrightarrow> l \<in> set (binClauses ?s l')"
    by (simp add: sample_base_def addPBConstraintCounter_simps new_solver_def)
  have 4: "\<forall>l \<in> set (tlits (solver_model ?s)). lit_true (\<lambda>v. v = 1) l"
    by (simp add: sample_base_def addPBConstraintCounter_simps new_solver_def new_model_def tlits_def)
  show ?thesis using reduced_size_zero_satisfied [OF 1 2 3 4] 2 by blast
qed

end
