(* ===== verification/Cubes.thy ===== *)
theory Cubes
  imports CubeAPI "HOL-Library.Monad_Syntax"
begin

text \<open>
  Cube generation (\<open>generate_cubes_rec\<close> and \<open>generate_cubes\<close> of \<open>src/src/cubePB.cpp\<close>): a lookahead
  search that splits the problem into cubes, distributed over the workers by the branch each of
  them follows. The code is a template over the solver type; here it is parametrised by a record
  of the four operations it calls. The locale \<open>lookahead_backend\<close> states what it relies on, and
  the native solver is shown to provide it. The result is that the cubes of all workers together
  cover every solution, and that the recursion returns.
\<close>

section \<open>Parameters\<close>

text \<open>The operations of \<open>SolverT\<close>; \<open>None\<close> is a call that does not return.\<close>

record 's backend =
  op_assignedVars :: "'s \<Rightarrow> int"
  op_isUndefLit :: "lit \<Rightarrow> 's \<Rightarrow> bool"
  op_assumeAndPropagate :: "lit \<Rightarrow> 's \<Rightarrow> (bool \<times> 's) option"
  op_backtrack :: "int \<Rightarrow> 's \<Rightarrow> 's"

text \<open>
  The floating-point expressions: the threshold arithmetic and the integer bonus
  \<open>(long long)((eval_pos + eval_neg) * 20.0 * weight / total)\<close>.
\<close>

record 'd double_ops =
  theta_start :: 'd
  times_105 :: "'d \<Rightarrow> 'd"
  times_07 :: "'d \<Rightarrow> 'd"
  above_threshold :: "int \<Rightarrow> 'd \<Rightarrow> int \<Rightarrow> bool"
  objective_bonus :: "int \<Rightarrow> int \<Rightarrow> int \<Rightarrow> int"

record objective_priority =
  use_objective_priority :: bool
  is_objective_var :: "var \<Rightarrow> bool"
  objective_weight :: "var \<Rightarrow> int"
  total_objective_weight :: int

record 'd gen_globals =
  theta :: 'd
  cube_sat_found :: bool

record gen_params =
  gp_vars :: "var list"
  gp_nVars :: int
  gp_distributed :: bool
  gp_optimizing :: bool

definition MAX_CUBE_GENERATION_DEPTH :: int where "MAX_CUBE_GENERATION_DEPTH = 11"
definition OBJECTIVE_PRIORITY_DEPTH :: int where "OBJECTIVE_PRIORITY_DEPTH = 8"

section \<open>Lookahead\<close>

record best_var =
  bestVar :: var
  bestScore :: int
  bestTie :: int
  bestEvalPos :: int
  bestEvalNeg :: int

definition no_best :: best_var where
  "no_best = \<lparr>bestVar = 0, bestScore = -1, bestTie = -1, bestEvalPos = 0, bestEvalNeg = 0\<rparr>"

datatype 's scan_result = ScanDone best_var 's | ScanRefuted 's | ScanFailedLit 's

text \<open>The ranking of one variable.\<close>

definition rank_var ::
    "'d double_ops \<Rightarrow> objective_priority \<Rightarrow> int \<Rightarrow> var \<Rightarrow> int \<Rightarrow> int \<Rightarrow> best_var \<Rightarrow> best_var" where
  "rank_var D P numDec v eval_pos eval_neg b =
     (let score0 = eval_pos * eval_neg;
          score = (if use_objective_priority P \<and> numDec < OBJECTIVE_PRIORITY_DEPTH \<and> is_objective_var P v
                      \<and> total_objective_weight P > 0
                   then score0 + objective_bonus D (eval_pos + eval_neg) (objective_weight P v) (total_objective_weight P)
                   else score0);
          tie = eval_pos + eval_neg
      in if score > bestScore b \<or> (score = bestScore b \<and> tie > bestTie b)
         then \<lparr>bestVar = v, bestScore = score, bestTie = tie, bestEvalPos = eval_pos, bestEvalNeg = eval_neg\<rparr>
         else b)"

text \<open>The \<open>for\<close> loop over the variables.\<close>

fun scan_vars ::
    "'s backend \<Rightarrow> 'd double_ops \<Rightarrow> objective_priority \<Rightarrow> int \<Rightarrow> int \<Rightarrow> int \<Rightarrow> var list \<Rightarrow> best_var \<Rightarrow> 's
       \<Rightarrow> 's scan_result option" where
  "scan_vars B D P nVars numDec baseAssigned [] b s = Some (ScanDone b s)"
| "scan_vars B D P nVars numDec baseAssigned (v # vs) b s =
     (if \<not> op_isUndefLit B v s then scan_vars B D P nVars numDec baseAssigned vs b s
      else do {
        (okPos, s1) \<leftarrow> op_assumeAndPropagate B v s;
        let eval_pos = (if \<not> okPos then nVars + 10 else op_assignedVars B s1 - baseAssigned);
        let s2 = op_backtrack B 1 s1;
        (okNeg, s3) \<leftarrow> op_assumeAndPropagate B (- v) s2;
        let eval_neg = (if \<not> okNeg then nVars + 10 else op_assignedVars B s3 - baseAssigned);
        let s4 = op_backtrack B 1 s3;
        if \<not> okPos \<and> \<not> okNeg then Some (ScanRefuted s4)
        else if \<not> okPos \<or> \<not> okNeg
        then do {
          (_, s5) \<leftarrow> op_assumeAndPropagate B (if okPos then v else - v) s4;
          Some (ScanFailedLit s5) }
        else scan_vars B D P nVars numDec baseAssigned vs (rank_var D P numDec v eval_pos eval_neg b) s4 })"

text \<open>
  The \<open>while (failedLitFound)\<close> loop. The first component of the result is \<open>None\<close> when the node is
  refuted, the second the number of failed literals still assumed.
\<close>

partial_function (option) lookahead_loop ::
    "'s backend \<Rightarrow> 'd double_ops \<Rightarrow> objective_priority \<Rightarrow> int \<Rightarrow> int \<Rightarrow> var list \<Rightarrow> int \<Rightarrow> 's
       \<Rightarrow> (best_var option \<times> int \<times> 's) option" where
  "lookahead_loop B D P nVars numDec vars failedLits s =
     (case scan_vars B D P nVars numDec (op_assignedVars B s) vars no_best s of
        None \<Rightarrow> None
      | Some (ScanRefuted s') \<Rightarrow> Some (None, failedLits, s')
      | Some (ScanFailedLit s') \<Rightarrow> lookahead_loop B D P nVars numDec vars (failedLits + 1) s'
      | Some (ScanDone b s') \<Rightarrow> Some (Some b, failedLits, s'))"

section \<open>Recursive generation\<close>

definition set_theta :: "('d \<Rightarrow> 'd) \<Rightarrow> 'd gen_globals \<Rightarrow> 'd gen_globals" where
  "set_theta f g = g\<lparr>theta := f (theta g)\<rparr>"

definition undo_failed :: "'s backend \<Rightarrow> int \<Rightarrow> 's \<Rightarrow> 's" where
  "undo_failed B failedLits s = (if failedLits > 0 then op_backtrack B failedLits s else s)"

partial_function (option) generate_cubes_rec ::
    "'s backend \<Rightarrow> 'd double_ops \<Rightarrow> objective_priority \<Rightarrow> gen_params \<Rightarrow> lit list \<Rightarrow> int \<Rightarrow> int
       \<Rightarrow> lit list list \<Rightarrow> 'd gen_globals \<Rightarrow> 's \<Rightarrow> (lit list list \<times> 'd gen_globals \<times> 's) option" where
  "generate_cubes_rec B D P gp current worker_id num_workers cubes g s =
     (if cube_sat_found g \<and> \<not> gp_optimizing gp then Some (cubes, g, s)
      else let g1 = set_theta (times_105 D) g;
               assigned = op_assignedVars B s;
               numDec = int (length current)
      in if numDec \<ge> MAX_CUBE_GENERATION_DEPTH
         then Some (if \<not> gp_distributed gp \<or> num_workers = 1 \<or> worker_id = 0 then cubes @ [current] else cubes, g1, s)
         else let g2 = (if numDec > 20 then set_theta (times_07 D) g1 else g1)
         in if above_threshold D (numDec * assigned) (theta g2) (gp_nVars gp)
            then Some (cubes @ [current], g2, s)
            else case lookahead_loop B D P (gp_nVars gp) numDec (gp_vars gp) 0 s of
                None \<Rightarrow> None
              | Some (None, failedLits, s1) \<Rightarrow> Some (cubes, g2, op_backtrack B failedLits s1)
              | Some (Some b, failedLits, s1) \<Rightarrow>
                  if bestVar b = 0
                  then Some (if \<not> gp_optimizing gp then cubes else cubes @ [current],
                             if \<not> gp_optimizing gp then g2\<lparr>cube_sat_found := True\<rparr> else g2,
                             undo_failed B failedLits s1)
                  else let (firstLit, secondLit) =
                             (if bestEvalPos b < bestEvalNeg b then (bestVar b, - bestVar b) else (- bestVar b, bestVar b))
                  in if gp_distributed gp \<and> num_workers > 1
                     then let left_workers = num_workers div 2;
                              right_workers = num_workers - left_workers
                     in if worker_id < left_workers
                        then do {
                          (ok, s2) \<leftarrow> op_assumeAndPropagate B firstLit s1;
                          (cubes', g3, s3) \<leftarrow>
                            (if ok then generate_cubes_rec B D P gp (current @ [firstLit]) worker_id left_workers cubes g2 s2
                             else Some (cubes, set_theta (times_07 D) g2, s2));
                          Some (cubes', g3, undo_failed B failedLits (op_backtrack B 1 s3)) }
                        else do {
                          (ok, s2) \<leftarrow> op_assumeAndPropagate B secondLit s1;
                          (cubes', g3, s3) \<leftarrow>
                            (if ok then generate_cubes_rec B D P gp (current @ [secondLit]) (worker_id - left_workers)
                                          right_workers cubes g2 s2
                             else Some (cubes, set_theta (times_07 D) g2, s2));
                          Some (cubes', g3, undo_failed B failedLits (op_backtrack B 1 s3)) }
                     else do {
                       (ok, s2) \<leftarrow> op_assumeAndPropagate B firstLit s1;
                       (cubes', g3, s3) \<leftarrow>
                         (if ok then generate_cubes_rec B D P gp (current @ [firstLit]) worker_id num_workers cubes g2 s2
                          else Some (cubes, set_theta (times_07 D) g2, s2));
                       let s4 = op_backtrack B 1 s3;
                       if cube_sat_found g3 \<and> \<not> gp_optimizing gp
                       then Some (cubes', g3, undo_failed B failedLits s4)
                       else do {
                         (ok', s5) \<leftarrow> op_assumeAndPropagate B secondLit s4;
                         (cubes'', g4, s6) \<leftarrow>
                           (if ok' then generate_cubes_rec B D P gp (current @ [secondLit]) worker_id num_workers cubes' g3 s5
                            else Some (cubes', set_theta (times_07 D) g3, s5));
                         Some (cubes'', g4, undo_failed B failedLits (op_backtrack B 1 s6)) }})"

definition generate_cubes ::
    "'s backend \<Rightarrow> 'd double_ops \<Rightarrow> objective_priority \<Rightarrow> gen_params \<Rightarrow> int \<Rightarrow> int \<Rightarrow> 's
       \<Rightarrow> (lit list list \<times> 'd gen_globals \<times> 's) option" where
  "generate_cubes B D P gp worker_id num_workers s =
     generate_cubes_rec B D P gp [] worker_id num_workers []
       \<lparr>theta = theta_start D, cube_sat_found = False\<rparr> s"


section \<open>What the generator relies on\<close>

text \<open>
  \<open>ready\<close>: a state in which a literal can be assumed. \<open>pending\<close>: a state from which levels can be
  taken back, in particular after a refused assumption. \<open>decs\<close> are the assumed literals,
  \<open>trail_upto k\<close> the literals assigned up to decision level \<open>k\<close>, \<open>base\<close> the solutions of the
  constraints, over the variables \<open>1..n\<close>.
\<close>

locale lookahead_backend =
  fixes B :: "'s backend"
    and ready :: "'s \<Rightarrow> bool" and pending :: "'s \<Rightarrow> bool"
    and decs :: "'s \<Rightarrow> lit list" and trail_upto :: "nat \<Rightarrow> 's \<Rightarrow> lit list"
    and base :: "assignment \<Rightarrow> bool" and n :: int
  assumes undef_iff: "ready s \<Longrightarrow> l \<noteq> 0 \<Longrightarrow> op_isUndefLit B l s \<longleftrightarrow>
      l \<notin> set (trail_upto (length (decs s)) s) \<and> - l \<notin> set (trail_upto (length (decs s)) s)"
    and assigned_count: "ready s \<Longrightarrow> op_assignedVars B s = int (length (trail_upto (length (decs s)) s))"
    and assigned_bound: "ready s \<Longrightarrow> length (trail_upto (length (decs s)) s) \<le> nat n"
    and assume_law: "ready s \<Longrightarrow> l \<noteq> 0 \<Longrightarrow> \<bar>l\<bar> \<le> n \<Longrightarrow> op_isUndefLit B l s \<Longrightarrow>
      \<exists>b s'. op_assumeAndPropagate B l s = Some (b, s') \<and> pending s' \<and> (b \<longrightarrow> ready s') \<and> decs s' = decs s @ [l]
        \<and> (\<forall>k \<le> length (decs s). trail_upto k s' = trail_upto k s)
        \<and> length (trail_upto (length (decs s)) s) < length (trail_upto (Suc (length (decs s))) s')
        \<and> (\<not> b \<longrightarrow> (\<forall>\<sigma>. base \<sigma> \<longrightarrow> (\<exists>d \<in> set (decs s'). \<not> lit_true \<sigma> d)))"
    and assume_again: "ready s \<Longrightarrow> ready t \<Longrightarrow> l \<noteq> 0 \<Longrightarrow> \<bar>l\<bar> \<le> n \<Longrightarrow> op_isUndefLit B l s \<Longrightarrow> decs t = decs s \<Longrightarrow>
      trail_upto (length (decs s)) t = trail_upto (length (decs s)) s \<Longrightarrow>
      op_assumeAndPropagate B l s = Some (True, s') \<Longrightarrow> op_assumeAndPropagate B l t = Some (b, t') \<Longrightarrow> b"
    and back_law: "pending s \<Longrightarrow> 1 \<le> k \<Longrightarrow> k \<le> int (length (decs s)) \<Longrightarrow>
      ready (op_backtrack B k s) \<and> decs (op_backtrack B k s) = take (length (decs s) - nat k) (decs s)
      \<and> (\<forall>j \<le> length (decs s) - nat k. trail_upto j (op_backtrack B k s) = trail_upto j s)"
    and back_zero: "op_backtrack B 0 s = s"
    and ready_pending: "ready s \<Longrightarrow> pending s"
    and complete: "ready s \<Longrightarrow> (\<And>v. 0 < v \<Longrightarrow> v \<le> n \<Longrightarrow> \<not> op_isUndefLit B v s) \<Longrightarrow>
      \<exists>\<sigma>. base \<sigma> \<and> (\<forall>d \<in> set (decs s). lit_true \<sigma> d)"
begin

text \<open>Two states the generator cannot tell apart.\<close>

definition view_eq :: "'s \<Rightarrow> 's \<Rightarrow> bool" where
  "view_eq s t \<longleftrightarrow> decs t = decs s \<and> (\<forall>k \<le> length (decs s). trail_upto k t = trail_upto k s)"

lemma view_eq_refl: "view_eq s s" by (simp add: view_eq_def)

lemma view_eq_trans: "view_eq s t \<Longrightarrow> view_eq t u \<Longrightarrow> view_eq s u" by (simp add: view_eq_def)

lemma view_eq_undef: "view_eq s t \<Longrightarrow> ready s \<Longrightarrow> ready t \<Longrightarrow> l \<noteq> 0 \<Longrightarrow> op_isUndefLit B l t = op_isUndefLit B l s"
  by (simp add: undef_iff view_eq_def)

lemma view_eq_assigned: "view_eq s t \<Longrightarrow> ready s \<Longrightarrow> ready t \<Longrightarrow> op_assignedVars B t = op_assignedVars B s"
  by (simp add: assigned_count view_eq_def)

text \<open>A state above \<open>s\<close>: some literals assumed on top of those of \<open>s\<close>.\<close>

definition above :: "'s \<Rightarrow> lit list \<Rightarrow> 's \<Rightarrow> bool" where
  "above s ls t \<longleftrightarrow> decs t = decs s @ ls \<and> (\<forall>k \<le> length (decs s). trail_upto k t = trail_upto k s)"

lemma above_back:
  assumes "above s ls t" "pending t" "ready t \<or> ls \<noteq> []"
  shows "ready (op_backtrack B (int (length ls)) t)" "view_eq s (op_backtrack B (int (length ls)) t)"
proof -
  have "ready (op_backtrack B (int (length ls)) t) \<and> view_eq s (op_backtrack B (int (length ls)) t)"
  proof (cases "ls = []")
    case True
    then show ?thesis using assms by (simp add: back_zero view_eq_def above_def)
  next
    case False
    then have "1 \<le> int (length ls)" by (cases ls) auto
    moreover have "int (length ls) \<le> int (length (decs t))" using assms(1) by (simp add: above_def)
    ultimately show ?thesis using back_law [OF assms(2), of "int (length ls)"] assms(1) by (auto simp: above_def view_eq_def)
  qed
  then show "ready (op_backtrack B (int (length ls)) t)" "view_eq s (op_backtrack B (int (length ls)) t)" by auto
qed

lemma undo_failed_above:
  assumes "above s ls t" "ready t"
  shows "ready (undo_failed B (int (length ls)) t)" "view_eq s (undo_failed B (int (length ls)) t)"
  using above_back [OF assms(1) ready_pending [OF assms(2)] disjI1 [OF assms(2)]] assms
  by (auto simp: undo_failed_def view_eq_def above_def)

lemma assume_cases:
  assumes "ready s" "l \<noteq> 0" "\<bar>l\<bar> \<le> n" "op_isUndefLit B l s"
  obtains b s' where "op_assumeAndPropagate B l s = Some (b, s')" "pending s'" "b \<longrightarrow> ready s'" "above s [l] s'"
    "\<And>t. pending t \<Longrightarrow> view_eq s' t \<Longrightarrow> ready (op_backtrack B 1 t) \<and> view_eq s (op_backtrack B 1 t)"
    "op_assignedVars B s' > op_assignedVars B s \<or> \<not> b"
    "\<not> b \<longrightarrow> (\<forall>\<sigma>. base \<sigma> \<and> (\<forall>d \<in> set (decs s). lit_true \<sigma> d) \<longrightarrow> \<not> lit_true \<sigma> l)"
proof -
  obtain b s' where a: "op_assumeAndPropagate B l s = Some (b, s')" "pending s'" "b \<longrightarrow> ready s'" "decs s' = decs s @ [l]"
    "\<forall>k \<le> length (decs s). trail_upto k s' = trail_upto k s"
    "length (trail_upto (length (decs s)) s) < length (trail_upto (Suc (length (decs s))) s')"
    "\<not> b \<longrightarrow> (\<forall>\<sigma>. base \<sigma> \<longrightarrow> (\<exists>d \<in> set (decs s'). \<not> lit_true \<sigma> d))"
    using assume_law [OF assms] by blast
  have ab: "above s [l] s'" using a by (simp add: above_def)
  show thesis
  proof
    show "ready (op_backtrack B 1 t) \<and> view_eq s (op_backtrack B 1 t)" if "pending t" "view_eq s' t" for t
    proof -
      have "above s [l] t" using ab that(2) by (simp add: above_def view_eq_def)
      from above_back [OF this that(1)] show ?thesis by simp
    qed
    show "op_assignedVars B s' > op_assignedVars B s \<or> \<not> b"
      using a(3,4,6) assms(1) by (cases b) (simp_all add: assigned_count)
    show "\<not> b \<longrightarrow> (\<forall>\<sigma>. base \<sigma> \<and> (\<forall>d \<in> set (decs s). lit_true \<sigma> d) \<longrightarrow> \<not> lit_true \<sigma> l)"
      using a(4,7) by auto
  qed (use a ab in auto)
qed

section \<open>The scan\<close>

text \<open>The best variable so far is none, or one of the variables still open.\<close>

definition best_ok :: "'s \<Rightarrow> best_var \<Rightarrow> bool" where
  "best_ok s b \<longleftrightarrow> (bestVar b = 0 \<longrightarrow> bestScore b = -1) \<and>
     (bestVar b \<noteq> 0 \<longrightarrow> 0 < bestVar b \<and> bestVar b \<le> n \<and> op_isUndefLit B (bestVar b) s)"

lemma rank_var_ok:
  assumes "best_ok s b" "0 < v" "v \<le> n" "op_isUndefLit B v s" "0 \<le> p" "0 \<le> q" "\<forall>a b c. 0 \<le> objective_bonus D a b c"
  shows "best_ok s (rank_var D P numDec v p q b)" "bestVar (rank_var D P numDec v p q b) \<noteq> 0"
proof -
  have "0 \<le> p * q" using assms(5,6) by simp
  then have s: "-1 < p * q" "-1 < p * q + objective_bonus D a b c" for a b c
    using assms(7) by (simp_all add: add_nonneg_nonneg less_le_trans [of "-1" 0])
  show "best_ok s (rank_var D P numDec v p q b)" "bestVar (rank_var D P numDec v p q b) \<noteq> 0"
    using assms(1-4) s by (auto simp: rank_var_def Let_def best_ok_def)
qed

definition scan_ok :: "'s \<Rightarrow> var list \<Rightarrow> best_var \<Rightarrow> 's scan_result \<Rightarrow> bool" where
  "scan_ok s vs b r = (case r of
      ScanDone b' s' \<Rightarrow> ready s' \<and> view_eq s s' \<and> best_ok s' b'
        \<and> (bestVar b' = 0 \<longrightarrow> bestVar b = 0 \<and> (\<forall>v \<in> set vs. \<not> op_isUndefLit B v s'))
    | ScanRefuted s' \<Rightarrow> ready s' \<and> view_eq s s' \<and> (\<forall>\<sigma>. base \<sigma> \<longrightarrow> (\<exists>d \<in> set (decs s). \<not> lit_true \<sigma> d))
    | ScanFailedLit s' \<Rightarrow> ready s' \<and> (\<exists>l. above s [l] s' \<and>
        (\<forall>\<sigma>. base \<sigma> \<and> (\<forall>d \<in> set (decs s). lit_true \<sigma> d) \<longrightarrow> lit_true \<sigma> l))
        \<and> op_assignedVars B s < op_assignedVars B s')"

lemma scan_ok_view:
  assumes "view_eq s t" "ready s" "ready t" "scan_ok t vs b r"
  shows "scan_ok s vs b r"
  using assms view_eq_assigned [OF assms(1-3)]
  by (cases r) (auto simp: scan_ok_def view_eq_def above_def)

lemma scan_vars_facts:
  assumes D: "\<forall>a b c. 0 \<le> objective_bonus D a b c"
    and "ready s" "\<forall>v \<in> set vs. 0 < v \<and> v \<le> n" "best_ok s b" "base0 = op_assignedVars B s" "nV = n"
  shows "\<exists>r. scan_vars B D P nV numDec base0 vs b s = Some r \<and> scan_ok s vs b r"
  using assms(2-)
proof (induction vs arbitrary: b s)
  case Nil
  then show ?case by (simp add: scan_ok_def view_eq_refl)
next
  case (Cons v vs)
  have v: "0 < v" "v \<le> n" "v \<noteq> 0" "\<bar>v\<bar> \<le> n" "- v \<noteq> 0" "\<bar>- v\<bar> \<le> n" using Cons.prems(2) by auto
  have n0: "0 \<le> nV + 10" using v Cons.prems(5) by simp
  show ?case
  proof (cases "op_isUndefLit B v s")
    case False
    then obtain r where r: "scan_vars B D P nV numDec base0 (v # vs) b s = Some r" "scan_ok s vs b r"
      using Cons.IH [OF Cons.prems(1) _ Cons.prems(3-5)] Cons.prems(2) by auto
    have "\<not> op_isUndefLit B v t" if "ready t" "view_eq s t" for t
      using False view_eq_undef [OF that(2) Cons.prems(1) that(1) v(3)] by simp
    then have "scan_ok s (v # vs) b r" using r(2) by (auto simp: scan_ok_def split: scan_result.splits)
    then show ?thesis using r by blast
  next
    case True
    obtain okP s1 where A: "op_assumeAndPropagate B v s = Some (okP, s1)" "pending s1" "okP \<longrightarrow> ready s1" "above s [v] s1"
      "\<And>t. pending t \<Longrightarrow> view_eq s1 t \<Longrightarrow> ready (op_backtrack B 1 t) \<and> view_eq s (op_backtrack B 1 t)"
      "op_assignedVars B s1 > op_assignedVars B s \<or> \<not> okP"
      "\<not> okP \<longrightarrow> (\<forall>\<sigma>. base \<sigma> \<and> (\<forall>d \<in> set (decs s). lit_true \<sigma> d) \<longrightarrow> \<not> lit_true \<sigma> v)"
      using assume_cases [OF Cons.prems(1) v(3,4) True] by metis
    define s2 where "s2 = op_backtrack B 1 s1"
    have s2: "ready s2" "view_eq s s2" using A(5) [OF A(2) view_eq_refl] by (auto simp: s2_def)
    have u2: "op_isUndefLit B (- v) s2"
      using True view_eq_undef [OF s2(2) Cons.prems(1) s2(1) v(5)] undef_iff [OF Cons.prems(1)] v by simp
    obtain okN s3 where N: "op_assumeAndPropagate B (- v) s2 = Some (okN, s3)" "pending s3" "okN \<longrightarrow> ready s3" "above s2 [- v] s3"
      "\<And>t. pending t \<Longrightarrow> view_eq s3 t \<Longrightarrow> ready (op_backtrack B 1 t) \<and> view_eq s2 (op_backtrack B 1 t)"
      "op_assignedVars B s3 > op_assignedVars B s2 \<or> \<not> okN"
      "\<not> okN \<longrightarrow> (\<forall>\<sigma>. base \<sigma> \<and> (\<forall>d \<in> set (decs s2). lit_true \<sigma> d) \<longrightarrow> \<not> lit_true \<sigma> (- v))"
      using assume_cases [OF s2(1) v(5,6) u2] by metis
    define s4 where "s4 = op_backtrack B 1 s3"
    have s4: "ready s4" "view_eq s2 s4" "view_eq s s4"
      using N(5) [OF N(2) view_eq_refl] view_eq_trans [OF s2(2)] by (auto simp: s4_def)
    have d2: "decs s2 = decs s" "decs s4 = decs s" using s2(2) s4(3) by (auto simp: view_eq_def)
    have lt: "lit_true \<sigma> (- v) \<longleftrightarrow> \<not> lit_true \<sigma> v" for \<sigma> using v(3) by (rule lit_true_neg)
    consider (both) "\<not> okP" "\<not> okN" | (failed) "okP \<noteq> okN" | (none) "okP" "okN" by blast
    then show ?thesis
    proof cases
      case both
      have "scan_vars B D P nV numDec base0 (v # vs) b s = Some (ScanRefuted s4)"
        using True both by (simp add: A(1) N(1) s2_def [symmetric] s4_def [symmetric])
      moreover have "scan_ok s (v # vs) b (ScanRefuted s4)"
        using s4 both A(7) N(7) d2 lt by (auto simp: scan_ok_def)
      ultimately show ?thesis by blast
    next
      case failed
      define l where "l = (if okP then v else - v)"
      have l: "l \<noteq> 0" "\<bar>l\<bar> \<le> n" using v by (auto simp: l_def)
      have u4: "op_isUndefLit B l s4"
        using True view_eq_undef [OF s4(3) Cons.prems(1) s4(1) l(1)] undef_iff [OF Cons.prems(1)] v by (auto simp: l_def)
      obtain b5 s5 where F: "op_assumeAndPropagate B l s4 = Some (b5, s5)" "b5 \<longrightarrow> ready s5" "above s4 [l] s5"
        "op_assignedVars B s5 > op_assignedVars B s4 \<or> \<not> b5"
        using assume_cases [OF s4(1) l u4] by metis
      have "b5"
      proof (cases okP)
        case okP: True
        have "op_assumeAndPropagate B v s = Some (True, s1)" "op_assumeAndPropagate B v s4 = Some (b5, s5)"
          using A(1) F(1) okP by (simp_all add: l_def)
        from assume_again [OF Cons.prems(1) s4(1) v(3,4) True _ _ this] s4(3) show ?thesis by (simp add: view_eq_def)
      next
        case False
        have "op_assumeAndPropagate B (- v) s2 = Some (True, s3)" "op_assumeAndPropagate B (- v) s4 = Some (b5, s5)"
          using N(1) F(1) False failed by (simp_all add: l_def)
        from assume_again [OF s2(1) s4(1) v(5,6) u2 _ _ this] s4(2) show ?thesis by (simp add: view_eq_def)
      qed
      have "scan_vars B D P nV numDec base0 (v # vs) b s = Some (ScanFailedLit s5)"
        using True failed F(1) by (auto simp: A(1) N(1) s2_def [symmetric] s4_def [symmetric] l_def)
      moreover have "above s [l] s5" using F(3) s4(3) by (simp add: above_def view_eq_def)
      moreover have "\<forall>\<sigma>. base \<sigma> \<and> (\<forall>d \<in> set (decs s). lit_true \<sigma> d) \<longrightarrow> lit_true \<sigma> l"
        using failed A(7) N(7) d2 lt by (auto simp: l_def)
      moreover have "op_assignedVars B s < op_assignedVars B s5"
        using F(4) \<open>b5\<close> view_eq_assigned [OF s4(3) Cons.prems(1) s4(1)] by simp
      ultimately show ?thesis using F(2) \<open>b5\<close> by (auto simp: scan_ok_def)
    next
      case none
      have e: "0 \<le> op_assignedVars B s1 - base0" "0 \<le> op_assignedVars B s3 - base0"
        using A(6) N(6) none Cons.prems(4) view_eq_assigned [OF s2(2) Cons.prems(1) s2(1)] by simp_all
      define b' where "b' = rank_var D P numDec v (op_assignedVars B s1 - base0) (op_assignedVars B s3 - base0) b"
      have "best_ok s b'" and nz: "bestVar b' \<noteq> 0"
        unfolding b'_def using rank_var_ok [OF Cons.prems(3) v(1,2) True e D] by auto
      then have ok4: "best_ok s4 b'"
        using view_eq_undef [OF s4(3) Cons.prems(1) s4(1)] by (simp add: best_ok_def)
      have "base0 = op_assignedVars B s4" using view_eq_assigned [OF s4(3) Cons.prems(1) s4(1)] Cons.prems(4) by simp
      from Cons.IH [OF s4(1) _ ok4 this Cons.prems(5)] Cons.prems(2)
      obtain r where r: "scan_vars B D P nV numDec base0 vs b' s4 = Some r" "scan_ok s4 vs b' r" by auto
      have "scan_vars B D P nV numDec base0 (v # vs) b s = Some r"
        using True none r(1) by (simp add: A(1) N(1) s2_def [symmetric] s4_def [symmetric] b'_def)
      moreover have "scan_ok s4 (v # vs) b r" using r(2) nz by (auto simp: scan_ok_def split: scan_result.splits)
      ultimately show ?thesis using scan_ok_view [OF s4(3) Cons.prems(1) s4(1)] by blast
    qed
  qed
qed

lemma above_trans: "above s [l] t \<Longrightarrow> above t ls u \<Longrightarrow> above s (l # ls) u"
  by (simp add: above_def)

definition loop_ok :: "'s \<Rightarrow> var list \<Rightarrow> int \<Rightarrow> best_var option \<times> int \<times> 's \<Rightarrow> bool" where
  "loop_ok s vs f0 r = (case r of (bo, f, s') \<Rightarrow>
     ready s' \<and> (\<exists>ls. f = f0 + int (length ls) \<and> above s ls s' \<and>
        (\<forall>\<sigma>. base \<sigma> \<and> (\<forall>d \<in> set (decs s). lit_true \<sigma> d) \<longrightarrow> (\<forall>l \<in> set ls. lit_true \<sigma> l)))
     \<and> (case bo of None \<Rightarrow> \<forall>\<sigma>. base \<sigma> \<longrightarrow> (\<exists>d \<in> set (decs s). \<not> lit_true \<sigma> d)
        | Some b \<Rightarrow> best_ok s' b \<and> (bestVar b = 0 \<longrightarrow> (\<forall>v \<in> set vs. \<not> op_isUndefLit B v s'))))"

lemma lookahead_loop_facts:
  assumes D: "\<forall>a b c. 0 \<le> objective_bonus D a b c" and vs: "\<forall>v \<in> set vs. 0 < v \<and> v \<le> n" and nV: "nV = n"
    and "ready s"
  shows "\<exists>r. lookahead_loop B D P nV numDec vs f s = Some r \<and> loop_ok s vs f r"
  using assms(4)
proof (induction "nat n - nat (op_assignedVars B s)" arbitrary: f s rule: less_induct)
  case less
  have "best_ok s no_best" by (simp add: best_ok_def no_best_def)
  from scan_vars_facts [OF D less.prems vs this refl nV]
  obtain r where r: "scan_vars B D P nV numDec (op_assignedVars B s) vs no_best s = Some r" "scan_ok s vs no_best r" by blast
  note U = lookahead_loop.simps [of B D P nV numDec vs f s]
  show ?case
  proof (cases r)
    case (ScanDone b s')
    then have "lookahead_loop B D P nV numDec vs f s = Some (Some b, f, s')" by (subst U) (simp add: r)
    moreover have "above s [] s'" using r(2) ScanDone by (simp add: scan_ok_def above_def view_eq_def)
    moreover have "\<exists>ls. f = f + int (length ls) \<and> above s ls s' \<and>
        (\<forall>\<sigma>. base \<sigma> \<and> (\<forall>d \<in> set (decs s). lit_true \<sigma> d) \<longrightarrow> (\<forall>l \<in> set ls. lit_true \<sigma> l))"
      using calculation(2) by (intro exI [of _ "[]"]) simp
    ultimately show ?thesis using r(2) ScanDone by (simp add: scan_ok_def loop_ok_def)
  next
    case (ScanRefuted s')
    then have "lookahead_loop B D P nV numDec vs f s = Some (None, f, s')" by (subst U) (simp add: r)
    moreover have "above s [] s'" using r(2) ScanRefuted by (simp add: scan_ok_def above_def view_eq_def)
    moreover have "\<exists>ls. f = f + int (length ls) \<and> above s ls s' \<and>
        (\<forall>\<sigma>. base \<sigma> \<and> (\<forall>d \<in> set (decs s). lit_true \<sigma> d) \<longrightarrow> (\<forall>l \<in> set ls. lit_true \<sigma> l))"
      using calculation(2) by (intro exI [of _ "[]"]) simp
    ultimately show ?thesis using r(2) ScanRefuted by (simp add: scan_ok_def loop_ok_def)
  next
    case (ScanFailedLit s')
    then obtain l where l: "ready s'" "above s [l] s'" "op_assignedVars B s < op_assignedVars B s'"
      "\<forall>\<sigma>. base \<sigma> \<and> (\<forall>d \<in> set (decs s). lit_true \<sigma> d) \<longrightarrow> lit_true \<sigma> l"
      using r(2) by (auto simp: scan_ok_def)
    have "nat n - nat (op_assignedVars B s') < nat n - nat (op_assignedVars B s)"
      using l(3) assigned_bound [OF l(1)] assigned_count [OF l(1)] assigned_count [OF less.prems] by linarith
    from less.hyps [OF this l(1), of "f + 1"]
    obtain r' where r': "lookahead_loop B D P nV numDec vs (f + 1) s' = Some r'" "loop_ok s' vs (f + 1) r'" by blast
    obtain bo f' t where "r' = (bo, f', t)" by (cases r') auto
    with r' have t: "lookahead_loop B D P nV numDec vs (f + 1) s' = Some (bo, f', t)" "loop_ok s' vs (f + 1) (bo, f', t)" by auto
    then obtain ls where ls: "f' = f + 1 + int (length ls)" "above s' ls t" "ready t"
      "\<forall>\<sigma>. base \<sigma> \<and> (\<forall>d \<in> set (decs s'). lit_true \<sigma> d) \<longrightarrow> (\<forall>l \<in> set ls. lit_true \<sigma> l)"
      by (auto simp: loop_ok_def)
    have ds: "decs s' = decs s @ [l]" using l(2) by (simp add: above_def)
    have "lookahead_loop B D P nV numDec vs f s = Some (bo, f', t)" by (subst U) (simp add: r ScanFailedLit t)
    moreover have "\<exists>ls. f' = f + int (length ls) \<and> above s ls t \<and>
        (\<forall>\<sigma>. base \<sigma> \<and> (\<forall>d \<in> set (decs s). lit_true \<sigma> d) \<longrightarrow> (\<forall>l \<in> set ls. lit_true \<sigma> l))"
    proof (intro exI [of _ "l # ls"] conjI allI impI)
      show "f' = f + int (length (l # ls))" using ls(1) by simp
      show "above s (l # ls) t" by (rule above_trans [OF l(2) ls(2)])
      fix \<sigma> assume \<sigma>: "base \<sigma> \<and> (\<forall>d \<in> set (decs s). lit_true \<sigma> d)"
      then have "lit_true \<sigma> l" using l(4) by blast
      moreover from this \<sigma> have "\<forall>l \<in> set ls. lit_true \<sigma> l" using ls(4) ds by (metis Un_iff empty_iff list.set set_append singletonD insert_iff)
      ultimately show "\<forall>l \<in> set (l # ls). lit_true \<sigma> l" by simp
    qed
    moreover have "(\<forall>\<sigma>. base \<sigma> \<longrightarrow> (\<exists>d \<in> set (decs s). \<not> lit_true \<sigma> d))" if bo: "bo = None"
    proof (intro allI impI)
      fix \<sigma> assume "base \<sigma>"
      then obtain d where "d \<in> set (decs s')" "\<not> lit_true \<sigma> d" using t(2) unfolding loop_ok_def bo by auto
      then show "\<exists>d \<in> set (decs s). \<not> lit_true \<sigma> d" using ds l(4) \<open>base \<sigma>\<close> by auto
    qed
    ultimately show ?thesis using t(2) ls(3) by (simp add: loop_ok_def split: option.splits)
  qed
qed

section \<open>Coverage\<close>

definition covers :: "bool \<Rightarrow> assignment \<Rightarrow> lit list list \<times> 'd gen_globals \<times> 's \<Rightarrow> bool" where
  "covers opt \<sigma> r = (case r of (cubes, g, s) \<Rightarrow>
     (\<exists>c \<in> set cubes. \<forall>l \<in> set c. lit_true \<sigma> l) \<or> \<not> opt \<and> cube_sat_found g)"

definition run_ok :: "'s \<Rightarrow> lit list list \<Rightarrow> 'd gen_globals \<Rightarrow> lit list list \<times> 'd gen_globals \<times> 's \<Rightarrow> bool" where
  "run_ok s cubes g r = (case r of (cubes', g', s') \<Rightarrow> ready s' \<and> view_eq s s' \<and> set cubes \<subseteq> set cubes'
     \<and> (cube_sat_found g \<longrightarrow> cube_sat_found g') \<and> (cube_sat_found g' \<longrightarrow> cube_sat_found g \<or> (\<exists>\<sigma>. base \<sigma>)))"

definition solves :: "'s \<Rightarrow> lit list \<Rightarrow> assignment \<Rightarrow> bool" where
  "solves s cur \<sigma> \<longleftrightarrow> base \<sigma> \<and> (\<forall>d \<in> set (decs s). lit_true \<sigma> d) \<and> (\<forall>l \<in> set cur. lit_true \<sigma> l)"

text \<open>Assuming a branching literal, running the recursion under it and taking it back.\<close>

lemma branch_facts:
  assumes s: "ready s" and l: "l \<noteq> 0" "\<bar>l\<bar> \<le> n" "op_isUndefLit B l s"
    and IH: "\<And>t. ready t \<Longrightarrow> \<exists>r. run t = Some r \<and> run_ok t cubes g r"
  obtains ok s2 cubes' g3 s3 where "op_assumeAndPropagate B l s = Some (ok, s2)"
    "(if ok then run s2 else Some (cubes, set_theta f g, s2)) = Some (cubes', g3, s3)"
    "run_ok s cubes g (cubes', g3, op_backtrack B 1 s3)"
    "ok \<Longrightarrow> ready s2" "ok \<Longrightarrow> run s2 = Some (cubes', g3, s3)"
    "\<And>\<sigma>. solves s cur \<sigma> \<Longrightarrow> lit_true \<sigma> l \<Longrightarrow> ok \<and> solves s2 (cur @ [l]) \<sigma>"
proof -
  obtain ok s2 where A: "op_assumeAndPropagate B l s = Some (ok, s2)" "pending s2" "ok \<longrightarrow> ready s2" "above s [l] s2"
      "\<And>t. pending t \<Longrightarrow> view_eq s2 t \<Longrightarrow> ready (op_backtrack B 1 t) \<and> view_eq s (op_backtrack B 1 t)"
      "\<not> ok \<longrightarrow> (\<forall>\<sigma>. base \<sigma> \<and> (\<forall>d \<in> set (decs s). lit_true \<sigma> d) \<longrightarrow> \<not> lit_true \<sigma> l)"
    using assume_cases [OF s l] by metis
  have sol: "ok \<and> solves s2 (cur @ [l]) \<sigma>" if "solves s cur \<sigma>" "lit_true \<sigma> l" for \<sigma>
    using that A(4,6) by (auto simp: solves_def above_def)
  show thesis
  proof (cases ok)
    case True
    then obtain r0 where r0: "run s2 = Some r0" "run_ok s2 cubes g r0" using IH [of s2] A(3) by blast
    obtain cubes' g3 s3 where "r0 = (cubes', g3, s3)" by (cases r0) auto
    with r0 have r: "run s2 = Some (cubes', g3, s3)" "run_ok s2 cubes g (cubes', g3, s3)" by auto
    have "ready (op_backtrack B 1 s3) \<and> view_eq s (op_backtrack B 1 s3)"
      using r(2) by (intro A(5) ready_pending) (simp_all add: run_ok_def)
    then have "run_ok s cubes g (cubes', g3, op_backtrack B 1 s3)" using r(2) by (simp add: run_ok_def)
    with A(1,3) r(1) True sol show ?thesis by (intro that [of ok s2 cubes' g3 s3]) simp_all
  next
    case False
    have "ready (op_backtrack B 1 s2) \<and> view_eq s (op_backtrack B 1 s2)" by (rule A(5) [OF A(2) view_eq_refl])
    then have "run_ok s cubes g (cubes, set_theta f g, op_backtrack B 1 s2)" by (simp add: run_ok_def set_theta_def)
    with A(1) False sol show ?thesis by (intro that [of ok s2 cubes "set_theta f g" s2]) simp_all
  qed
qed

lemma run_ok_undo:
  assumes "above s ls s1" "run_ok s1 cubes g (c', g', t)"
  shows "run_ok s cubes g (c', g', undo_failed B (int (length ls)) t)"
proof -
  have "above s ls t" "ready t" using assms by (auto simp: run_ok_def above_def view_eq_def)
  from undo_failed_above [OF this] assms(2) show ?thesis by (simp add: run_ok_def)
qed

lemma run_ok_trans:
  "run_ok s c0 g0 (c1, g1, t) \<Longrightarrow> run_ok t c1 g1 (c2, g2, u) \<Longrightarrow> run_ok s c0 g0 (c2, g2, u)"
  by (auto simp: run_ok_def intro: view_eq_trans)

lemma covers_mono:
  "covers opt \<sigma> (c, g, s) \<Longrightarrow> run_ok t c g (c', g', s') \<Longrightarrow> covers opt \<sigma> (c', g', s'')"
  by (auto simp: covers_def run_ok_def)

text \<open>
  A node that branches, after its lookahead: the state \<open>s1\<close>, the failed literals \<open>ls\<close> assumed on the
  way, the two branching literals.
\<close>

definition branching :: "'s \<Rightarrow> lit list \<Rightarrow> lit list \<Rightarrow> 's \<Rightarrow> lit \<Rightarrow> lit \<Rightarrow> bool" where
  "branching s cur ls s1 fl sl \<longleftrightarrow> ready s1 \<and> above s ls s1 \<and> sl = - fl \<and> fl \<noteq> 0 \<and> \<bar>fl\<bar> \<le> n \<and> op_isUndefLit B fl s1
     \<and> op_isUndefLit B sl s1 \<and> (\<forall>\<sigma>. solves s cur \<sigma> \<longrightarrow> solves s1 cur \<sigma>)"

text \<open>What the code does at a node, once the three early returns and the lookahead are decided.\<close>

lemma node_cases:
  fixes g :: "'d gen_globals"
  assumes D: "\<forall>a b c. 0 \<le> objective_bonus D a b c" and vars: "set (gp_vars gp) = {1..n}" and nV: "gp_nVars gp = n"
    and s: "ready s"
  obtains (finished) r where "\<And>w. generate_cubes_rec B D P gp cur w m cubes g s = Some (r w)"
      "\<And>w. run_ok s cubes g (r w)"
      "\<And>w \<sigma>. \<not> gp_distributed gp \<or> m = 1 \<or> w = 0 \<Longrightarrow> solves s cur \<sigma> \<Longrightarrow> covers (gp_optimizing gp) \<sigma> (r w)"
  | (split) g2 ls s1 fl sl where "length cur < 11" "branching s cur ls s1 fl sl" "run_ok s cubes g (cubes, g2, s)"
      "gp_distributed gp" "m > 1"
      "\<And>w. generate_cubes_rec B D P gp cur w m cubes g s =
         (if w < m div 2
          then do {
            (ok, s2) \<leftarrow> op_assumeAndPropagate B fl s1;
            (cubes', g3, s3) \<leftarrow>
              (if ok then generate_cubes_rec B D P gp (cur @ [fl]) w (m div 2) cubes g2 s2
               else Some (cubes, set_theta (times_07 D) g2, s2));
            Some (cubes', g3, undo_failed B (int (length ls)) (op_backtrack B 1 s3)) }
          else do {
            (ok, s2) \<leftarrow> op_assumeAndPropagate B sl s1;
            (cubes', g3, s3) \<leftarrow>
              (if ok then generate_cubes_rec B D P gp (cur @ [sl]) (w - m div 2) (m - m div 2) cubes g2 s2
               else Some (cubes, set_theta (times_07 D) g2, s2));
            Some (cubes', g3, undo_failed B (int (length ls)) (op_backtrack B 1 s3)) })"
  | (both) g2 ls s1 fl sl where "length cur < 11" "branching s cur ls s1 fl sl" "run_ok s cubes g (cubes, g2, s)"
      "\<not> (gp_distributed gp \<and> m > 1)"
      "\<And>w. generate_cubes_rec B D P gp cur w m cubes g s =
         do {
           (ok, s2) \<leftarrow> op_assumeAndPropagate B fl s1;
           (cubes', g3, s3) \<leftarrow>
             (if ok then generate_cubes_rec B D P gp (cur @ [fl]) w m cubes g2 s2
              else Some (cubes, set_theta (times_07 D) g2, s2));
           let s4 = op_backtrack B 1 s3;
           if cube_sat_found g3 \<and> \<not> gp_optimizing gp
           then Some (cubes', g3, undo_failed B (int (length ls)) s4)
           else do {
             (ok', s5) \<leftarrow> op_assumeAndPropagate B sl s4;
             (cubes'', g4, s6) \<leftarrow>
               (if ok' then generate_cubes_rec B D P gp (cur @ [sl]) w m cubes' g3 s5
                else Some (cubes', set_theta (times_07 D) g3, s5));
             Some (cubes'', g4, undo_failed B (int (length ls)) (op_backtrack B 1 s6)) }}"
proof -
  note U = generate_cubes_rec.simps [of B D P gp cur _ m cubes g s]
  define g1 where "g1 = set_theta (times_105 D) g"
  define nd where "nd = int (length cur)"
  define g2 where "g2 = (if nd > 20 then set_theta (times_07 D) g1 else g1)"
  have sat2: "cube_sat_found g2 = cube_sat_found g" "cube_sat_found g1 = cube_sat_found g"
    by (simp_all add: g2_def g1_def set_theta_def)
  have base_ok: "run_ok s cubes g (cubes, g2, s)" using s by (simp add: run_ok_def view_eq_refl sat2)
  have vs: "\<forall>v \<in> set (gp_vars gp). 0 < v \<and> v \<le> n" unfolding vars by auto
  consider (sat) "cube_sat_found g \<and> \<not> gp_optimizing gp"
    | (deep) "\<not> (cube_sat_found g \<and> \<not> gp_optimizing gp)" "nd \<ge> 11"
    | (cut) "\<not> (cube_sat_found g \<and> \<not> gp_optimizing gp)" "\<not> nd \<ge> 11"
        "above_threshold D (nd * op_assignedVars B s) (theta g2) (gp_nVars gp)"
    | (look) "\<not> (cube_sat_found g \<and> \<not> gp_optimizing gp)" "\<not> nd \<ge> 11"
        "\<not> above_threshold D (nd * op_assignedVars B s) (theta g2) (gp_nVars gp)" by blast
  then show thesis
  proof cases
    case sat
    have "run_ok s cubes g (cubes, g, s)" using s by (simp add: run_ok_def view_eq_refl)
    with sat show thesis
      by (intro finished [of "\<lambda>_. (cubes, g, s)"]) (simp_all add: U covers_def)
  next
    case deep
    let ?r = "\<lambda>w. (if \<not> gp_distributed gp \<or> m = 1 \<or> w = 0 then cubes @ [cur] else cubes, g1, s)"
    have "generate_cubes_rec B D P gp cur w m cubes g s = Some (?r w)" for w
      using deep by (subst U) (auto simp: MAX_CUBE_GENERATION_DEPTH_def nd_def g1_def)
    moreover have "run_ok s cubes g (?r w)" for w using s by (auto simp: run_ok_def view_eq_refl sat2)
    ultimately show thesis by (rule finished) (auto simp: covers_def solves_def)
  next
    case cut
    have "generate_cubes_rec B D P gp cur w m cubes g s = Some (cubes @ [cur], g2, s)" for w
      using cut by (subst U) (auto simp: MAX_CUBE_GENERATION_DEPTH_def nd_def g1_def g2_def)
    moreover have "run_ok s cubes g (cubes @ [cur], g2, s)" using s by (auto simp: run_ok_def view_eq_refl sat2)
    ultimately show thesis by (intro finished [of "\<lambda>_. (cubes @ [cur], g2, s)"]) (auto simp: covers_def solves_def)
  next
    case look
    from lookahead_loop_facts [OF D vs nV s, of P nd 0]
    obtain bo f s1 where L: "lookahead_loop B D P (gp_nVars gp) nd (gp_vars gp) 0 s = Some (bo, f, s1)"
      and lo: "loop_ok s (gp_vars gp) 0 (bo, f, s1)" by (metis prod_cases3)
    from lo obtain ls where ls: "ready s1" "f = int (length ls)" "above s ls s1"
      "\<forall>\<sigma>. base \<sigma> \<and> (\<forall>d \<in> set (decs s). lit_true \<sigma> d) \<longrightarrow> (\<forall>l \<in> set ls. lit_true \<sigma> l)"
      by (auto simp: loop_ok_def)
    have sol: "solves s cur \<sigma> \<longrightarrow> solves s1 cur \<sigma>" for \<sigma> using ls(3,4) by (auto simp: solves_def above_def)
    have nd: "\<not> MAX_CUBE_GENERATION_DEPTH \<le> int (length cur)" "length cur < 11"
      using look(2) by (simp_all add: MAX_CUBE_GENERATION_DEPTH_def nd_def)
    note simps = g1_def [symmetric] nd_def [symmetric] g2_def [symmetric]
    show thesis
    proof (cases bo)
      case None
      have "above s ls s1" by (rule ls(3))
      from above_back [OF this ready_pending [OF ls(1)] disjI1 [OF ls(1)]]
      have "run_ok s cubes g (cubes, g2, op_backtrack B f s1)" by (simp add: run_ok_def sat2 ls(2))
      moreover have "generate_cubes_rec B D P gp cur w m cubes g s = Some (cubes, g2, op_backtrack B f s1)" for w
        using look nd by (subst U) (simp only: Let_def simps L None option.case prod.case if_False simp_thms)
      moreover have "\<not> solves s cur \<sigma>" for \<sigma> using lo None by (auto simp: loop_ok_def solves_def)
      ultimately show thesis by (intro finished [of "\<lambda>_. (cubes, g2, op_backtrack B f s1)"]) simp_all
    next
      case (Some b)
      have b: "best_ok s1 b" "bestVar b = 0 \<longrightarrow> (\<forall>v \<in> set (gp_vars gp). \<not> op_isUndefLit B v s1)"
        using lo Some by (auto simp: loop_ok_def)
      show thesis
      proof (cases "bestVar b = 0")
        case True
        let ?r = "(if \<not> gp_optimizing gp then cubes else cubes @ [cur],
                   if \<not> gp_optimizing gp then g2\<lparr>cube_sat_found := True\<rparr> else g2, undo_failed B f s1)"
        have "\<exists>\<sigma>. base \<sigma>" using complete [OF ls(1)] b(2) True unfolding vars by force
        then have "run_ok s cubes g ?r"
          using undo_failed_above [OF ls(3,1)] by (auto simp: run_ok_def sat2 ls(2))
        moreover have "generate_cubes_rec B D P gp cur w m cubes g s = Some ?r" for w
          using look nd True by (subst U) (simp only: Let_def simps L Some option.case prod.case if_False if_True simp_thms)
        moreover have "covers (gp_optimizing gp) \<sigma> ?r" if "solves s cur \<sigma>" for \<sigma>
          using that by (auto simp: covers_def solves_def)
        ultimately show thesis by (intro finished [of "\<lambda>_. ?r"]) simp_all
      next
        case False
        define fl where "fl = (if bestEvalPos b < bestEvalNeg b then bestVar b else - bestVar b)"
        define sl where "sl = (if bestEvalPos b < bestEvalNeg b then - bestVar b else bestVar b)"
        have e: "(if bestEvalPos b < bestEvalNeg b then (bestVar b, - bestVar b) else (- bestVar b, bestVar b)) = (fl, sl)"
          by (simp add: fl_def sl_def)
        have v: "0 < bestVar b" "bestVar b \<le> n" "op_isUndefLit B (bestVar b) s1" using b(1) False by (auto simp: best_ok_def)
        then have u: "op_isUndefLit B (- bestVar b) s1" using undef_iff [OF ls(1)] by simp
        have br: "branching s cur ls s1 fl sl"
          using v u ls sol by (simp add: branching_def fl_def sl_def)
        show thesis
        proof (cases "gp_distributed gp \<and> m > 1")
          case True
          show thesis
            by (rule split [OF nd(2) br base_ok], use True in blast, use True in blast, subst U)
               (use look nd False True in \<open>simp only: Let_def simps L Some option.case prod.case if_False if_True simp_thms e ls(2)\<close>)
        next
          case nd': False
          show thesis
            by (rule both [OF nd(2) br base_ok nd'], subst U)
               (use look nd False nd' in \<open>simp only: Let_def simps L Some option.case prod.case if_False if_True simp_thms e ls(2)\<close>)
        qed
      qed
    qed
  qed
qed

text \<open>The recursion returns, restores the solver, and alone in its subtree covers every solution.\<close>

lemma gen_total:
  fixes g :: "'d gen_globals"
  assumes D: "\<forall>a b c. 0 \<le> objective_bonus D a b c" and vars: "set (gp_vars gp) = {1..n}" and nV: "gp_nVars gp = n"
    and s: "ready s"
  shows "\<exists>r. generate_cubes_rec B D P gp cur w m cubes g s = Some r \<and> run_ok s cubes g r
    \<and> (\<not> gp_distributed gp \<or> m = 1 \<longrightarrow> (\<forall>\<sigma>. solves s cur \<sigma> \<longrightarrow> covers (gp_optimizing gp) \<sigma> r))"
  using s
proof (induction "11 - length cur" arbitrary: cur s cubes g w m rule: less_induct)
  case less
  show ?case
  proof (cases rule: node_cases [OF D vars nV less.prems, of P cur m cubes g, case_names finished split both])
    case (finished r)
    then show ?thesis by (intro exI [of _ "r w"]) simp
  next
    case (split g2 ls s1 fl sl)
    have dec: "11 - length (cur @ [l]) < 11 - length cur" for l using split(1) by simp
    have br: "ready s1" "above s ls s1" "sl \<noteq> 0" "\<bar>sl\<bar> \<le> n" "fl \<noteq> 0" "\<bar>fl\<bar> \<le> n" "op_isUndefLit B fl s1" "op_isUndefLit B sl s1"
      using split(2) by (auto simp: branching_def)
    have IH: "\<exists>r. generate_cubes_rec B D P gp (cur @ [l]) w m cubes g2 t = Some r \<and> run_ok t cubes g2 r"
      if "ready t" for l w m t using less.hyps [OF dec that] by blast
    have fin: "\<exists>r. Some (cubes', g3, undo_failed B (int (length ls)) t) = Some r \<and> run_ok s cubes g r"
      if "run_ok s1 cubes g2 (cubes', g3, t)" for cubes' g3 t
      using run_ok_undo [OF br(2) that] split(3) by (auto simp: run_ok_def)
    have "\<exists>r. generate_cubes_rec B D P gp cur w m cubes g s = Some r \<and> run_ok s cubes g r"
    proof (cases "w < m div 2")
      case True
      show ?thesis
        by (rule branch_facts [OF br(1,5,6,7) IH [of _ fl w "m div 2"], where f = "times_07 D" and cur = cur])
           (use split(6) [of w] True fin in auto)
    next
      case False
      show ?thesis
        by (rule branch_facts [OF br(1,3,4,8) IH [of _ sl "w - m div 2" "m - m div 2"], where f = "times_07 D" and cur = cur])
           (use split(6) [of w] False fin in auto)
    qed
    then show ?thesis using split(4,5) by auto
  next
    case (both g2 ls s1 fl sl)
    have dec: "11 - length (cur @ [l]) < 11 - length cur" for l using both(1) by simp
    have br: "ready s1" "above s ls s1" "sl = - fl" "sl \<noteq> 0" "\<bar>sl\<bar> \<le> n" "fl \<noteq> 0" "\<bar>fl\<bar> \<le> n" "op_isUndefLit B fl s1"
      "op_isUndefLit B sl s1" "\<And>\<sigma>. solves s cur \<sigma> \<Longrightarrow> solves s1 cur \<sigma>"
      using both(2) by (auto simp: branching_def)
    have IH: "\<exists>r. generate_cubes_rec B D P gp (cur @ [l]) w m cs gg t = Some r \<and> run_ok t cs gg r"
      if "ready t" for l t cs gg using less.hyps [OF dec that] by blast
    have IHc: "covers (gp_optimizing gp) \<sigma> r"
      if "ready t" "generate_cubes_rec B D P gp (cur @ [l]) w m cs gg t = Some r" "solves t (cur @ [l]) \<sigma>"
        "\<not> gp_distributed gp \<or> m = 1" for l t cs gg \<sigma> r
      using less.hyps [OF dec that(1), of l w m cs gg] that(2-4) by auto
    show ?thesis
    proof (rule branch_facts [OF br(1,6,7,8) IH [of _ fl cubes g2], where f = "times_07 D" and cur = cur])
      fix ok s2 cubes' g3 s3
      assume A: "op_assumeAndPropagate B fl s1 = Some (ok, s2)"
        "(if ok then generate_cubes_rec B D P gp (cur @ [fl]) w m cubes g2 s2 else Some (cubes, set_theta (times_07 D) g2, s2))
           = Some (cubes', g3, s3)"
        "run_ok s1 cubes g2 (cubes', g3, op_backtrack B 1 s3)" "ok \<Longrightarrow> ready s2"
        "ok \<Longrightarrow> generate_cubes_rec B D P gp (cur @ [fl]) w m cubes g2 s2 = Some (cubes', g3, s3)"
        "\<And>\<sigma>. solves s1 cur \<sigma> \<Longrightarrow> lit_true \<sigma> fl \<Longrightarrow> ok \<and> solves s2 (cur @ [fl]) \<sigma>"
      define s4 where "s4 = op_backtrack B 1 s3"
      have s4: "ready s4" "view_eq s1 s4" using A(3) by (auto simp: run_ok_def s4_def)
      have ab4: "above s ls s4" using br(2) s4(2) by (simp add: above_def view_eq_def)
      have first: "covers (gp_optimizing gp) \<sigma> (cubes', g3, t)"
        if "solves s cur \<sigma>" "lit_true \<sigma> fl" "\<not> gp_distributed gp \<or> m = 1" for \<sigma> t
        using IHc [OF A(4) A(5), of \<sigma>] A(6) [OF br(10) [OF that(1)] that(2)] that(3) by (auto simp: covers_def)
      show ?thesis
      proof (cases "cube_sat_found g3 \<and> \<not> gp_optimizing gp")
        case True
        let ?r = "(cubes', g3, undo_failed B (int (length ls)) s4)"
        have "generate_cubes_rec B D P gp cur w m cubes g s = Some ?r"
          unfolding both(5) A(1) using A(2) True by (simp add: s4_def Let_def)
        moreover have "run_ok s cubes g ?r"
          using run_ok_undo [OF br(2) A(3) [folded s4_def]] both(3) by (auto simp: run_ok_def)
        moreover have "covers (gp_optimizing gp) \<sigma> ?r" for \<sigma> using True by (simp add: covers_def)
        ultimately show ?thesis by blast
      next
        case False
        have u4: "op_isUndefLit B sl s4" using view_eq_undef [OF s4(2) br(1) s4(1) br(4)] br(9) by simp
        show ?thesis
        proof (rule branch_facts [OF s4(1) br(4,5) u4 IH [of _ sl cubes' g3], where f = "times_07 D" and cur = cur])
          fix ok' s5 cubes'' g4 s6
          assume E: "op_assumeAndPropagate B sl s4 = Some (ok', s5)"
            "(if ok' then generate_cubes_rec B D P gp (cur @ [sl]) w m cubes' g3 s5 else Some (cubes', set_theta (times_07 D) g3, s5))
               = Some (cubes'', g4, s6)"
            "run_ok s4 cubes' g3 (cubes'', g4, op_backtrack B 1 s6)" "ok' \<Longrightarrow> ready s5"
            "ok' \<Longrightarrow> generate_cubes_rec B D P gp (cur @ [sl]) w m cubes' g3 s5 = Some (cubes'', g4, s6)"
            "\<And>\<sigma>. solves s4 cur \<sigma> \<Longrightarrow> lit_true \<sigma> sl \<Longrightarrow> ok' \<and> solves s5 (cur @ [sl]) \<sigma>"
          let ?r = "(cubes'', g4, undo_failed B (int (length ls)) (op_backtrack B 1 s6))"
          have "generate_cubes_rec B D P gp cur w m cubes g s = Some ?r"
            unfolding both(5) A(1) using A(2) E(1,2) False by (auto simp: s4_def Let_def)
          moreover have "run_ok s cubes g ?r"
          proof -
            have "run_ok s1 cubes g2 (cubes'', g4, op_backtrack B 1 s6)" by (rule run_ok_trans [OF A(3) [folded s4_def] E(3)])
            from run_ok_undo [OF br(2) this] both(3) show ?thesis by (auto simp: run_ok_def)
          qed
          moreover have "covers (gp_optimizing gp) \<sigma> ?r"
            if \<sigma>: "solves s cur \<sigma>" and d: "\<not> gp_distributed gp \<or> m = 1" for \<sigma>
          proof (cases "lit_true \<sigma> fl")
            case True
            from covers_mono [OF first [OF \<sigma> True d] E(3)] show ?thesis .
          next
            case f: False
            have "lit_true \<sigma> sl" using f br(3,6) lit_true_neg by simp
            moreover have "solves s4 cur \<sigma>" using br(10) [OF \<sigma>] s4(2) by (simp add: solves_def view_eq_def)
            ultimately have "ok'" "solves s5 (cur @ [sl]) \<sigma>" using E(6) by auto
            from IHc [OF E(4) [OF this(1)] E(5) [OF this(1)] this(2) d] show ?thesis by (auto simp: covers_def)
          qed
          ultimately show ?thesis by blast
        qed
      qed
    qed
  qed
qed

text \<open>Together the workers of a group cover every solution.\<close>

lemma gen_covers:
  fixes g :: "'d gen_globals"
  assumes D: "\<forall>a b c. 0 \<le> objective_bonus D a b c" and vars: "set (gp_vars gp) = {1..n}" and nV: "gp_nVars gp = n"
    and s: "ready s" and m: "1 \<le> m" and \<sigma>: "solves s cur \<sigma>"
  shows "\<exists>w r. 0 \<le> w \<and> w < m \<and> generate_cubes_rec B D P gp cur w m cubes g s = Some r \<and> covers (gp_optimizing gp) \<sigma> r"
  using s m \<sigma>
proof (induction "11 - length cur" arbitrary: cur s cubes g m rule: less_induct)
  case less
  show ?case
  proof (cases rule: node_cases [OF D vars nV less.prems(1), of P cur m cubes g, case_names finished split both])
    case (finished r)
    then show ?thesis using less.prems(2,3) by (intro exI [of _ 0] exI [of _ "r 0"]) auto
  next
    case both
    then have "\<not> gp_distributed gp \<or> m = 1" using less.prems(2) by auto
    with gen_total [OF D vars nV less.prems(1), of P cur 0 m cubes g] less.prems(2,3) show ?thesis
      by (intro exI [of _ 0]) auto
  next
    case (split g2 ls s1 fl sl)
    have dec: "11 - length (cur @ [l]) < 11 - length cur" for l using split(1) by simp
    have br: "ready s1" "above s ls s1" "sl = - fl" "sl \<noteq> 0" "\<bar>sl\<bar> \<le> n" "fl \<noteq> 0" "\<bar>fl\<bar> \<le> n" "op_isUndefLit B fl s1"
      "op_isUndefLit B sl s1" "solves s1 cur \<sigma>"
      using split(2) less.prems(3) by (auto simp: branching_def)
    have IH0: "\<exists>r. generate_cubes_rec B D P gp (cur @ [l]) w m cubes g2 t = Some r \<and> run_ok t cubes g2 r"
      if "ready t" for l w m t using gen_total [OF D vars nV that] by blast
    have cov: "covers opt \<sigma> (c, gg, t')" if "covers opt \<sigma> (c, gg, t)" for opt c gg t t'
      using that by (simp add: covers_def)
    show ?thesis
    proof (cases "lit_true \<sigma> fl")
      case True
      have m2: "1 \<le> m div 2" using split(5) by simp
      show ?thesis
      proof (rule branch_facts [OF br(1,6,7,8) IH0 [of _ fl 0 "m div 2"], where f = "times_07 D" and cur = cur])
        fix ok s2
        assume A: "op_assumeAndPropagate B fl s1 = Some (ok, s2)" "ok \<Longrightarrow> ready s2"
          "\<And>\<sigma>. solves s1 cur \<sigma> \<Longrightarrow> lit_true \<sigma> fl \<Longrightarrow> ok \<and> solves s2 (cur @ [fl]) \<sigma>"
        have ok: "ok" "solves s2 (cur @ [fl]) \<sigma>" using A(3) [OF br(10) True] by auto
        from less.hyps [OF dec A(2) [OF ok(1)] m2 ok(2)]
        obtain w r where w: "0 \<le> w" "w < m div 2" "generate_cubes_rec B D P gp (cur @ [fl]) w (m div 2) cubes g2 s2 = Some r"
          "covers (gp_optimizing gp) \<sigma> r" by blast
        obtain c gg t where r: "r = (c, gg, t)" by (cases r) auto
        have "generate_cubes_rec B D P gp cur w m cubes g s =
            Some (c, gg, undo_failed B (int (length ls)) (op_backtrack B 1 t))"
          unfolding split(6) A(1) using w(2,3) ok(1) r by simp
        moreover have "w < m" using w(1,2) by linarith
        ultimately show ?thesis using w(1,4) cov unfolding r by blast
      qed
    next
      case False
      then have sl: "lit_true \<sigma> sl" using br(3,6) lit_true_neg by simp
      have m2: "1 \<le> m - m div 2" using split(5) by linarith
      show ?thesis
      proof (rule branch_facts [OF br(1,4,5,9) IH0 [of _ sl 0 "m - m div 2"], where f = "times_07 D" and cur = cur])
        fix ok s2
        assume A: "op_assumeAndPropagate B sl s1 = Some (ok, s2)" "ok \<Longrightarrow> ready s2"
          "\<And>\<sigma>. solves s1 cur \<sigma> \<Longrightarrow> lit_true \<sigma> sl \<Longrightarrow> ok \<and> solves s2 (cur @ [sl]) \<sigma>"
        have ok: "ok" "solves s2 (cur @ [sl]) \<sigma>" using A(3) [OF br(10) sl] by auto
        from less.hyps [OF dec A(2) [OF ok(1)] m2 ok(2)]
        obtain w r where w: "0 \<le> w" "w < m - m div 2"
          "generate_cubes_rec B D P gp (cur @ [sl]) w (m - m div 2) cubes g2 s2 = Some r"
          "covers (gp_optimizing gp) \<sigma> r" by blast
        obtain c gg t where r: "r = (c, gg, t)" by (cases r) auto
        have "generate_cubes_rec B D P gp cur (w + m div 2) m cubes g s =
            Some (c, gg, undo_failed B (int (length ls)) (op_backtrack B 1 t))"
          unfolding split(6) A(1) using w(1,3) ok(1) r by simp
        moreover have "w + m div 2 < m" "0 \<le> w + m div 2" using w(1,2) less.prems(2) by linarith+
        ultimately show ?thesis using w(4) cov unfolding r by blast
      qed
    qed
  qed
qed

end

end
