(* ===== verification/PropagateFix.thy ===== *)
theory PropagateFix
  imports PropagateInv
begin

text \<open>
  Propagation is complete for the counter constraints: when \<open>propagate\<close> ends without a conflict no
  constraint of the database forces an unassigned literal. This needs the invariant of the cached
  index \<open>maxWIdx\<close>, under which \<open>propagatePBCtrCounter\<close> skips the monomials it has already assigned
  since the last backjump.
\<close>

section \<open>Assigned literals and closed trails\<close>

definition assigned_in :: "lit list \<Rightarrow> lit \<Rightarrow> bool" where
  "assigned_in T l \<longleftrightarrow> l \<in> set T \<or> - l \<in> set T"

text \<open>No constraint forces a literal the list leaves open.\<close>

definition closed_lits :: "pbconstraint list \<Rightarrow> lit list \<Rightarrow> bool" where
  "closed_lits cs T \<longleftrightarrow> (\<forall>c \<in> set cs. \<forall>(k, l) \<in> set (pb_lhs c).
     msum (\<lambda>x. - x \<notin> set T) (pb_lhs c) - pb_rhs c < k \<longrightarrow> assigned_in T l)"

definition closed_counters :: "('a::linorder) solver \<Rightarrow> bool" where
  "closed_counters s \<longleftrightarrow> (\<forall>c < length (constraintsPB s). \<forall>(k, l) \<in> set (pb_lhs (constraintsPB s ! c)).
     sumOfWatches s ! c + fst (pb_lhs (constraintsPB s ! c) ! 0) < k \<longrightarrow> assigned_in (tlits (solver_model s)) l)"

definition cache_ok :: "int \<Rightarrow> lit list \<Rightarrow> pbconstraint \<Rightarrow> bool" where
  "cache_ok n T c \<longleftrightarrow> isOrderedByDecreasingCoefficient (pb_lhs c) \<and> 0 \<le> pb_maxWIdx c \<and> pb_numBackjump c \<le> n
     \<and> (pb_numBackjump c = n \<longrightarrow> (\<forall>i < length (pb_lhs c). int i < pb_maxWIdx c \<longrightarrow> assigned_in T (snd (pb_lhs c ! i))))"

definition caches_ok :: "('a::linorder) solver \<Rightarrow> bool" where
  "caches_ok s \<longleftrightarrow> (\<forall>c \<in> set (constraintsPB s).
     cache_ok (numOfBackjump (solver_stats s)) (tlits (solver_model s)) c)"

lemma assigned_mono: "set T \<subseteq> set U \<Longrightarrow> assigned_in T l \<Longrightarrow> assigned_in U l"
  by (auto simp: assigned_in_def)

lemma assigned_undef: "wf_model m \<Longrightarrow> isUndefLit m l \<longleftrightarrow> \<not> assigned_in (tlits m) l" if "l \<noteq> 0"
  using wf_undef [of m l] that by (auto simp: assigned_in_def)

lemma cache_mono: "set T \<subseteq> set U \<Longrightarrow> cache_ok n T c \<Longrightarrow> cache_ok n U c"
  using assigned_mono [of T U] by (auto simp: cache_ok_def)

lemma decreasing_nth:
  "isOrderedByDecreasingCoefficient ms \<Longrightarrow> i \<le> j \<Longrightarrow> j < length ms \<Longrightarrow> fst (ms ! j) \<le> fst (ms ! i)"
proof (induction ms arbitrary: i j rule: isOrderedByDecreasingCoefficient.induct)
  case (1 x y ms)
  then have o: "isOrderedByDecreasingCoefficient (y # ms)" "fst y \<le> fst x" by (auto split: if_splits)
  show ?case
  proof (cases i)
    case 0
    show ?thesis
    proof (cases j)
      case (Suc j')
      have "\<not> fst x < fst y" using o(2) by simp
      from "1.IH" [OF this o(1), of 0 j'] 1(4) Suc have "fst ((y # ms) ! j') \<le> fst y" by simp
      then show ?thesis using 0 Suc o(2) by simp
    qed (simp add: 0)
  next
    case (Suc i')
    then obtain j' where j: "j = Suc j'" using 1(3) by (cases j) auto
    have "\<not> fst x < fst y" using o(2) by simp
    from "1.IH" [OF this o(1), of i' j'] 1(3,4) Suc j show ?thesis by simp
  qed
qed auto

section \<open>The propagation loops\<close>

lemma pb_prop_loop_assigns:
  assumes "core_inv s" "n < length (constraintsPB s)" "set ms \<subseteq> set (pb_lhs (constraintsPB s ! n))"
    and "msum (\<lambda>l. - l \<notin> set (tlits (solver_model s))) (pb_lhs (constraintsPB s ! n)) - pb_rhs (constraintsPB s ! n) \<le> w"
    and "pb_prop_loop n w ms i s = (i', s')"
  shows "i \<le> i' \<and> i' \<le> i + int (length ms)
    \<and> (\<forall>j < length ms. int j < i' - i \<longrightarrow> assigned_in (tlits (solver_model s')) (snd (ms ! j)))
    \<and> (i' - i < int (length ms) \<longrightarrow> fst (ms ! nat (i' - i)) \<le> w)"
  using assms
proof (induction n w ms i s arbitrary: i' s' rule: pb_prop_loop.induct)
  case (2 n w k l ms i s)
  show ?case
  proof (cases "k > w")
    case False
    then show ?thesis using "2.prems"(5) by auto
  next
    case True
    define s1 where "s1 = (if isUndefLit (solver_model s) l
              then setTrueDueToReason l (PBReason n) (reportPropagationInPBCounter s) else s)"
    have r: "pb_prop_loop n w ms (i + 1) s1 = (i', s')" using "2.prems"(5) True by (simp add: s1_def)
    have one: "pb_prop_loop n w [(k, l)] i s = (i + 1, s1)" using True by (simp add: s1_def)
    have sub: "set [(k, l)] \<subseteq> set (pb_lhs (constraintsPB s ! n))" "set ms \<subseteq> set (pb_lhs (constraintsPB s ! n))"
      using "2.prems"(3) by auto
    note F = pb_prop_loop_facts [OF "2.prems"(1,2) sub(1) "2.prems"(4) one]
    have up: "set (tlits (solver_model s)) \<subseteq> set (tlits (solver_model s1))" using F prop_ext_tlits by blast
    have ok: "pb_ok (numVars s) (constraintsPB s ! n)" using "2.prems"(1,2) by (auto simp: core_inv_def db_ok_def)
    have l: "l \<noteq> 0" using ok sub(1) by (auto simp: pb_ok_def nonzero_lits_def)
    have as: "assigned_in (tlits (solver_model s1)) l"
    proof (cases "isUndefLit (solver_model s) l")
      case True
      then show ?thesis by (simp add: s1_def assigned_in_def tlits_def)
    next
      case False
      then have "assigned_in (tlits (solver_model s)) l"
        using assigned_undef [OF l, of "solver_model s"] "2.prems"(1) by (simp add: core_inv_def)
      then show ?thesis using up assigned_mono by blast
    qed
    have c1: "constraintsPB s1 = constraintsPB s" using F by simp
    have below: "msum (\<lambda>x. - x \<notin> set (tlits (solver_model s1))) (pb_lhs (constraintsPB s1 ! n)) - pb_rhs (constraintsPB s1 ! n) \<le> w"
    proof -
      have "msum (\<lambda>x. - x \<notin> set (tlits (solver_model s1))) (pb_lhs (constraintsPB s ! n))
          \<le> msum (\<lambda>x. - x \<notin> set (tlits (solver_model s))) (pb_lhs (constraintsPB s ! n))"
        using ok up by (intro msum_mono) (auto simp: pb_ok_def)
      then show ?thesis using "2.prems"(4) c1 by simp
    qed
    have n1: "n < length (constraintsPB s1)" "set ms \<subseteq> set (pb_lhs (constraintsPB s1 ! n))" using "2.prems"(2) sub(2) c1 by simp_all
    have c: "core_inv s1" using F by simp
    note IH = "2.IH" [OF True, folded s1_def, OF c n1 below r]
    have up': "set (tlits (solver_model s1)) \<subseteq> set (tlits (solver_model s'))"
      using pb_prop_loop_facts [OF c n1 below r] prop_ext_tlits by blast
    have all: "assigned_in (tlits (solver_model s')) (snd (((k, l) # ms) ! j))"
      if "j < length ((k, l) # ms)" "int j < i' - i" for j
      using that IH assigned_mono [OF up' as] by (cases j) auto
    have "nat (i' - i) = Suc (nat (i' - (i + 1)))" using IH by linarith
    then show ?thesis using IH all by auto
  qed
qed auto

text \<open>What propagating one constraint does to the cached index and to the constraint.\<close>

lemma set_pb_caches:
  "caches_ok s \<Longrightarrow> n < length (constraintsPB s) \<Longrightarrow>
     cache_ok (numOfBackjump (solver_stats s)) (tlits (solver_model s)) (f (constraintsPB s ! n)) \<Longrightarrow> caches_ok (set_pb n f s)"
  unfolding caches_ok_def set_pb_def by (auto dest!: subsetD [OF set_update_subset_insert])

lemma propagatePBCtrCounter_closes:
  assumes inv: "core_inv s" and n: "n < length (constraintsPB s)" and ca: "caches_ok s"
    and slk: "msum (\<lambda>l. - l \<notin> set (tlits (solver_model s))) (pb_lhs (constraintsPB s ! n)) - pb_rhs (constraintsPB s ! n) \<le> w"
  defines "t \<equiv> propagatePBCtrCounter n w s"
  shows "caches_ok t" "\<And>k l. (k, l) \<in> set (pb_lhs (constraintsPB s ! n)) \<Longrightarrow> w < k \<Longrightarrow> assigned_in (tlits (solver_model t)) l"
proof -
  let ?c = "constraintsPB s ! n" and ?nb = "numOfBackjump (solver_stats s)"
  have cn: "cache_ok ?nb (tlits (solver_model s)) ?c" using ca n by (auto simp: caches_ok_def)
  define s1 where "s1 = (if pb_numBackjump ?c < ?nb then set_pb n (\<lambda>c. c\<lparr>pb_numBackjump := ?nb\<rparr>) s else s)"
  define i0 where "i0 = (if pb_numBackjump ?c < ?nb then 0 else pb_maxWIdx ?c)"
  obtain i s2 where l: "pb_prop_loop n w (drop (nat i0) (pb_lhs ?c)) i0 s1 = (i, s2)" by fastforce
  have p: "t = set_pb n (\<lambda>c. c\<lparr>pb_maxWIdx := i\<rparr>) s2"
    using l by (simp add: t_def propagatePBCtrCounter_def s1_def i0_def Let_def split: prod.splits if_splits)
  have len1: "length (constraintsPB s1) = length (constraintsPB s)" by (simp add: s1_def set_pb_def)
  have s1: "core_inv s1" "solver_model s1 = solver_model s" "pb_lhs (constraintsPB s1 ! n) = pb_lhs ?c"
    "pb_rhs (constraintsPB s1 ! n) = pb_rhs ?c" "numOfBackjump (solver_stats s1) = ?nb"
    using inv n by (auto simp: s1_def set_pb_facts) (simp add: set_pb_def)
  have n1: "n < length (constraintsPB s1)" using n len1 by simp
  have i0: "0 \<le> i0" using cn by (simp add: i0_def cache_ok_def)
  have below: "msum (\<lambda>l. - l \<notin> set (tlits (solver_model s1))) (pb_lhs (constraintsPB s1 ! n)) - pb_rhs (constraintsPB s1 ! n) \<le> w"
    using slk s1 by simp
  have sub: "set (drop (nat i0) (pb_lhs ?c)) \<subseteq> set (pb_lhs (constraintsPB s1 ! n))" unfolding s1(3) by (rule set_drop_subset)
  note L = pb_prop_loop_facts [OF s1(1) n1 sub below l]
  note A = pb_prop_loop_assigns [OF s1(1) n1 sub below l]
  have up: "set (tlits (solver_model s)) \<subseteq> set (tlits (solver_model s2))" using L prop_ext_tlits s1(2) by metis
  have nb2: "numOfBackjump (solver_stats s2) = ?nb" using L s1(5) by (simp add: prop_ext_def)
  have cs2: "constraintsPB s2 = constraintsPB s1" using L by simp
  have old: "cache_ok ?nb (tlits (solver_model s2)) c" if "c \<in> set (constraintsPB s)" for c
    using that ca cache_mono [OF up] by (simp add: caches_ok_def)
  have done0: "assigned_in (tlits (solver_model s2)) (snd (pb_lhs ?c ! j))" if "j < length (pb_lhs ?c)" "int j < i0" for j
    using that old [of ?c] n by (auto simp: i0_def cache_ok_def split: if_splits)
  have fin: "assigned_in (tlits (solver_model s2)) (snd (pb_lhs ?c ! j))" if "j < length (pb_lhs ?c)" "int j < i" for j
  proof (cases "int j < i0")
    case True
    then show ?thesis using done0 that(1) by blast
  next
    case False
    then have "j - nat i0 < length (drop (nat i0) (pb_lhs ?c))" "int (j - nat i0) < i - i0" using that i0 by auto
    then have "assigned_in (tlits (solver_model s2)) (snd (drop (nat i0) (pb_lhs ?c) ! (j - nat i0)))" using A by blast
    moreover have "nat i0 \<le> j" using False i0 by simp
    ultimately show ?thesis using that(1) by simp
  qed
  have c1: "constraintsPB s2 ! n = (if pb_numBackjump ?c < ?nb then ?c\<lparr>pb_numBackjump := ?nb\<rparr> else ?c)"
    using n by (simp add: cs2 s1_def set_pb_def)
  have tm: "tlits (solver_model t) = tlits (solver_model s2)" "numOfBackjump (solver_stats t) = ?nb"
    using nb2 by (simp_all add: p set_pb_def)
  have tn: "constraintsPB t ! m = (if m = n then (constraintsPB s2 ! n)\<lparr>pb_maxWIdx := i\<rparr> else constraintsPB s ! m)"
    if "m < length (constraintsPB s)" for m
    using that n by (simp add: p set_pb_def cs2 s1_def)
  show "caches_ok t"
    unfolding caches_ok_def tm
  proof
    fix c assume "c \<in> set (constraintsPB t)"
    then obtain m where m: "m < length (constraintsPB s)" "c = constraintsPB t ! m"
      by (auto simp: in_set_conv_nth p set_pb_def cs2 len1)
    show "cache_ok ?nb (tlits (solver_model s2)) c"
    proof (cases "m = n")
      case True
      have "0 \<le> i" using A i0 by linarith
      have le: "pb_numBackjump ?c \<le> ?nb" and o: "isOrderedByDecreasingCoefficient (pb_lhs ?c)"
        using cn unfolding cache_ok_def by blast+
      have e: "c = (if pb_numBackjump ?c < ?nb then ?c\<lparr>pb_numBackjump := ?nb\<rparr> else ?c)\<lparr>pb_maxWIdx := i\<rparr>"
        using m(2) True tn [OF n] unfolding c1 by simp
      have f: "pb_lhs c = pb_lhs ?c" "pb_maxWIdx c = i" "pb_numBackjump c \<le> ?nb"
        using le unfolding e by simp_all
      show ?thesis
        unfolding cache_ok_def f(1,2) using o f(3) fin \<open>0 \<le> i\<close> by blast
    next
      case False
      then show ?thesis using old m by (simp add: tn)
    qed
  qed
  show "assigned_in (tlits (solver_model t)) x" if kx: "(k, x) \<in> set (pb_lhs ?c)" "w < k" for k x
  proof -
    obtain j where j: "j < length (pb_lhs ?c)" "pb_lhs ?c ! j = (k, x)" using kx(1) by (metis in_set_conv_nth)
    have "int j < i"
    proof (rule ccontr)
      assume "\<not> int j < i"
      then have ge: "nat i \<le> j" and lt: "i - i0 < int (length (drop (nat i0) (pb_lhs ?c)))" using A i0 j(1) by auto
      have "nat i0 + nat (i - i0) = nat i" using A i0 by linarith
      moreover have "fst (drop (nat i0) (pb_lhs ?c) ! nat (i - i0)) \<le> w" using A lt by blast
      moreover have "nat i0 \<le> length (pb_lhs ?c)" using lt A by auto
      ultimately have "fst (pb_lhs ?c ! nat i) \<le> w" by simp
      moreover have "fst (pb_lhs ?c ! j) \<le> fst (pb_lhs ?c ! nat i)"
        using decreasing_nth [of "pb_lhs ?c" "nat i" j] cn ge j(1) by (simp add: cache_ok_def)
      ultimately show False using j(2) kx(2) by simp
    qed
    then show ?thesis using fin [OF j(1)] j(2) by (simp add: p set_pb_def)
  qed
qed


lemma closed_counters_ext:
  assumes "closed_counters s" "prop_ext s t" "sumOfWatches t = sumOfWatches s"
  shows "closed_counters t"
proof -
  have d: "same_db s t" using assms(2) by (rule prop_ext_db)
  show ?thesis
    unfolding closed_counters_def
  proof (intro allI impI ballI)
    fix c and m
    assume c: "c < length (constraintsPB t)" "m \<in> set (pb_lhs (constraintsPB t ! c))"
    have c': "c < length (constraintsPB s)" using c(1) same_db_length [OF d] by simp
    have e: "pb_lhs (constraintsPB t ! c) = pb_lhs (constraintsPB s ! c)" using same_db_pb [OF d c'] by simp
    show "case m of (k, l) \<Rightarrow> sumOfWatches t ! c + fst (pb_lhs (constraintsPB t ! c) ! 0) < k
        \<longrightarrow> assigned_in (tlits (solver_model t)) l"
      using assms(1) c(2) c' assigned_mono [OF prop_ext_tlits [OF assms(2)]]
      by (auto simp: closed_counters_def assms(3) e split: prod.splits)
  qed
qed

lemma caches_ok_ext:
  assumes "caches_ok s" "prop_ext s t" "constraintsPB t = constraintsPB s"
  shows "caches_ok t"
  using assms cache_mono [OF prop_ext_tlits [OF assms(2)]] by (simp add: caches_ok_def prop_ext_def)

text \<open>The visits of binary and of watched clauses leave the counter constraints alone.\<close>

lemma visit_bin_loop_pbs: "constraintsPB (visit_bin_loop lit es s) = constraintsPB s"
  by (induction lit es s rule: visit_bin_loop.induct)
     (auto simp: setTrueDueToReason_def reportPropagationInBinClause_def)

lemma visit_clause_loop_pbs: "constraintsPB (visit_clause_loop lit kept es s) = constraintsPB s"
proof (induction lit kept es s rule: visit_clause_loop.induct)
  case (2 lit kept cid cached rest s)
  show ?case
    using 2
    by (simp only: visit_clause_loop.simps Let_def split: if_splits prod.splits)
       (auto simp: setTrueDueToReason_def reportPropagationInClause_def set_clause_def push_watch_def)
qed simp

text \<open>One counter entry: the counter goes down, the rest of the list stays to be visited.\<close>

lemma counter_step:
  assumes "core_inv s" "\<not> conflict s" "entries_ok s (COUNTERPB k c # es)" "counters_above s (COUNTERPB k c # es)"
  defines "s1 \<equiv> s\<lparr>sumOfWatches := (sumOfWatches s)[c := sumOfWatches s ! c - k]\<rparr>"
  shows "core_inv s1" "\<not> conflict s1" "entries_ok s1 es" "counters_above s1 es" "c < length (constraintsPB s1)"
    "msum (\<lambda>l. - l \<notin> set (tlits (solver_model s1))) (pb_lhs (constraintsPB s1 ! c)) - pb_rhs (constraintsPB s1 ! c)
       \<le> sumOfWatches s1 ! c + fst (pb_lhs (constraintsPB s1 ! c) ! 0)"
proof -
  have ec: "c < length (constraintsPB s)" "0 < k" using assms(3) by (auto simp: entries_ok_def)
  have slen: "length (sumOfWatches s) = length (constraintsPB s)" using assms(1) by (simp add: core_inv_def db_ok_def)
  show "core_inv s1" "\<not> conflict s1" "c < length (constraintsPB s1)" using assms(1,2) ec by (simp_all add: s1_def)
  show e1: "entries_ok s1 es" using assms(3) by (simp add: entries_ok_def s1_def)
  have sums1: "sumOfWatches s1 ! d = sumOfWatches s ! d - (if d = c then k else 0)" if "d < length (constraintsPB s)" for d
    using that slen by (simp add: s1_def nth_list_update)
  show above: "counters_above s1 es"
    unfolding counters_above_def
  proof (intro allI impI)
    fix d assume "d < length (constraintsPB s1)"
    then have d: "d < length (constraintsPB s)" by (simp add: s1_def)
    then have "counter_value (tlits (solver_model s)) (constraintsPB s ! d) \<le> sumOfWatches s ! d - gen_sum d (COUNTERPB k c # es)"
      using assms(4) by (simp only: counters_above_def)
    then show "counter_value (tlits (solver_model s1)) (constraintsPB s1 ! d) \<le> sumOfWatches s1 ! d - gen_sum d es"
      unfolding sums1 [OF d] by (auto simp: s1_def split: if_splits)
  qed
  have g: "0 \<le> gen_sum c es" using e1 by (intro gen_sum_nonneg) (auto simp: entries_ok_def)
  have "counter_value (tlits (solver_model s1)) (constraintsPB s1 ! c) \<le> sumOfWatches s1 ! c"
    using above ec g unfolding counters_above_def by (fastforce simp: s1_def)
  then show "msum (\<lambda>l. - l \<notin> set (tlits (solver_model s1))) (pb_lhs (constraintsPB s1 ! c)) - pb_rhs (constraintsPB s1 ! c)
       \<le> sumOfWatches s1 ! c + fst (pb_lhs (constraintsPB s1 ! c) ! 0)"
    by (simp add: counter_value_def)
qed

text \<open>Closed but for the constraint the counter of which has just gone down.\<close>

lemma closed_counters_step:
  assumes cl: "closed_counters s" and c: "c < length (constraintsPB s)" "length (sumOfWatches s) = length (constraintsPB s)"
    and x: "prop_ext (s\<lparr>sumOfWatches := (sumOfWatches s)[c := w]\<rparr>) t" "sumOfWatches t = (sumOfWatches s)[c := w]"
    and new: "\<And>k l. (k, l) \<in> set (pb_lhs (constraintsPB s ! c)) \<Longrightarrow> w + fst (pb_lhs (constraintsPB s ! c) ! 0) < k \<Longrightarrow>
       assigned_in (tlits (solver_model t)) l"
  shows "closed_counters t"
  unfolding closed_counters_def
proof (intro allI impI ballI)
  fix d and m
  let ?s = "s\<lparr>sumOfWatches := (sumOfWatches s)[c := w]\<rparr>"
  have db: "same_db ?s t" using x(1) by (rule prop_ext_db)
  assume d: "d < length (constraintsPB t)" "m \<in> set (pb_lhs (constraintsPB t ! d))"
  have d': "d < length (constraintsPB s)" using d(1) same_db_length [OF db] by simp
  have e: "pb_lhs (constraintsPB t ! d) = pb_lhs (constraintsPB s ! d)" using same_db_pb [OF db] d' by simp
  have up: "set (tlits (solver_model s)) \<subseteq> set (tlits (solver_model t))" using prop_ext_tlits [OF x(1)] by simp
  show "case m of (k, l) \<Rightarrow> sumOfWatches t ! d + fst (pb_lhs (constraintsPB t ! d) ! 0) < k
      \<longrightarrow> assigned_in (tlits (solver_model t)) l"
  proof (cases "d = c")
    case True
    then show ?thesis using new d(2) c unfolding e x(2) by (auto split: prod.splits)
  next
    case False
    then show ?thesis using cl d(2) d' assigned_mono [OF up] unfolding e x(2)
      by (auto simp: closed_counters_def split: prod.splits)
  qed
qed

lemma visit_pb_loop_closes:
  assumes "core_inv s" "\<not> conflict s" "entries_ok s es" "counters_above s es" "caches_ok s" "closed_counters s"
    and "visit_pb_loop es n s = (n', s')"
  shows "caches_ok s' \<and> (\<not> conflict s' \<longrightarrow> closed_counters s')"
  using assms
proof (induction es n s arbitrary: n' s' rule: visit_pb_loop.induct)
  case (2 k c es n s)
  define s1 where "s1 = s\<lparr>sumOfWatches := (sumOfWatches s)[c := sumOfWatches s ! c - k]\<rparr>"
  define SNF where "SNF = sumOfWatches s1 ! c"
  define mx where "mx = fst (pb_lhs (constraintsPB s1 ! c) ! 0)"
  note C = counter_step [OF "2.prems"(1-4), folded s1_def]
  have cs: "c < length (constraintsPB s)" using C(5) by (simp add: s1_def)
  have slen: "length (sumOfWatches s) = length (constraintsPB s)" using "2.prems"(1) by (simp add: core_inv_def db_ok_def)
  have SNF: "SNF = sumOfWatches s ! c - k" using cs slen by (simp add: SNF_def s1_def)
  have ca1: "caches_ok s1" using "2.prems"(5) by (simp add: caches_ok_def s1_def)
  have step: "visit_pb_loop (COUNTERPB k c # es) n s =
      (if SNF < 0 then if SNF + mx < 0
           then (n + 1, s1\<lparr>conflict := True, typeConflict := CONFLICT_PB, constraintConflictNum := c\<rparr>)
           else visit_pb_loop es (n + 1) (propagatePBCtrCounter c (SNF + mx) s1)
       else visit_pb_loop es (n + 1) s1)"
    by (simp add: s1_def [symmetric] SNF_def mx_def Let_def)
  show ?case
  proof (cases "SNF < 0")
    case False
    have "closed_counters s1"
    proof (rule closed_counters_step [OF "2.prems"(6) cs slen])
      show "prop_ext (s\<lparr>sumOfWatches := (sumOfWatches s)[c := sumOfWatches s ! c - k]\<rparr>) s1" by (simp add: s1_def)
      show "sumOfWatches s1 = (sumOfWatches s)[c := sumOfWatches s ! c - k]" by (simp add: s1_def)
      fix k' l' assume m: "(k', l') \<in> set (pb_lhs (constraintsPB s ! c))"
        "sumOfWatches s ! c - k + fst (pb_lhs (constraintsPB s ! c) ! 0) < k'"
      have "constraintsPB s ! c \<in> set (constraintsPB s)" using cs by simp
      then have "pb_ok (numVars s) (constraintsPB s ! c)" using "2.prems"(1) by (auto simp: core_inv_def db_ok_def)
      then have "k' \<le> fst (pb_lhs (constraintsPB s ! c) ! 0)" using m(1) by (auto simp: pb_ok_def)
      then show "assigned_in (tlits (solver_model s1)) l'" using m(2) False SNF by simp
    qed
    then show ?thesis
      using "2.IH"(2) [OF s1_def SNF_def False C(1-4) ca1] "2.prems"(7) False unfolding step by simp
  next
    case neg: True
    show ?thesis
    proof (cases "SNF + mx < 0")
      case True
      then have "s' = s1\<lparr>conflict := True, typeConflict := CONFLICT_PB, constraintConflictNum := c\<rparr>"
        using "2.prems"(7) neg unfolding step by auto
      then show ?thesis using ca1 by (simp add: caches_ok_def)
    next
      case False
      define t where "t = propagatePBCtrCounter c (SNF + mx) s1"
      have slk: "msum (\<lambda>l. - l \<notin> set (tlits (solver_model s1))) (pb_lhs (constraintsPB s1 ! c)) - pb_rhs (constraintsPB s1 ! c) \<le> SNF + mx"
        using C(6) by (simp add: SNF_def mx_def)
      note P = propagatePBCtrCounter_facts [OF C(1,5) slk, folded t_def]
      note Q = propagatePBCtrCounter_closes [OF C(1,5) ca1 slk, folded t_def]
      have "closed_counters t"
      proof (rule closed_counters_step [OF "2.prems"(6) cs slen, of "sumOfWatches s ! c - k"])
        show "prop_ext (s\<lparr>sumOfWatches := (sumOfWatches s)[c := sumOfWatches s ! c - k]\<rparr>) t" using P(2) by (simp add: s1_def)
        show "sumOfWatches t = (sumOfWatches s)[c := sumOfWatches s ! c - k]" using P(3) by (simp add: s1_def)
        fix k' l' assume "(k', l') \<in> set (pb_lhs (constraintsPB s ! c))"
          "sumOfWatches s ! c - k + fst (pb_lhs (constraintsPB s ! c) ! 0) < k'"
        then show "assigned_in (tlits (solver_model t)) l'" by (intro Q(2)) (simp_all add: s1_def mx_def SNF [unfolded s1_def])
      qed
      moreover have "entries_ok t es" "\<not> conflict t"
        using C(2,3) P(4) same_db_length [OF prop_ext_db [OF P(2)]] by (auto simp: entries_ok_def)
      moreover have "counters_above t es" by (rule counters_above_ext [OF C(4) P(2,3) C(1)])
      moreover have "visit_pb_loop es (n + 1) t = (n', s')" using "2.prems"(7) neg False unfolding step t_def by simp
      moreover have "SNF + fst (pb_lhs (constraintsPB s1 ! c) ! 0) = SNF + mx" by (simp add: mx_def)
      ultimately show ?thesis
        using "2.IH"(1) [OF s1_def SNF_def neg, of "SNF + mx" n' s'] False P(1) Q(1) unfolding t_def by simp
    qed
  qed
qed (simp_all add: entries_ok_def counters_above_def)


lemma visit_literal_closes:
  assumes inv: "core_inv s" "\<not> conflict s"
    and co: "\<And>c. c < length (constraintsPB s) \<Longrightarrow> sumOfWatches s ! c = counter_value ps (constraintsPB s ! c)"
    and ps: "set (ps @ [l]) \<subseteq> set (tlits (solver_model s))" "\<bar>l\<bar> \<notin> abs ` set ps" "l \<noteq> 0"
    and ca: "caches_ok s" "closed_counters s"
    and s': "s' = visit_literal l s"
  shows "caches_ok s' \<and> (\<not> conflict s' \<longrightarrow> closed_counters s')"
proof -
  have l: "- (- l) \<in> set (tlits (solver_model s))" using ps(1) by simp
  define s1 where "s1 = visitBinClause (- l) s"
  note F1 = visitBinClause_facts [OF inv l s1_def]
  have c1: "constraintsPB s1 = constraintsPB s" by (simp add: s1_def visitBinClause_def visit_bin_loop_pbs)
  have ca1: "caches_ok s1" "closed_counters s1"
    using caches_ok_ext [OF ca(1) F1(2) c1] closed_counters_ext [OF ca(2) F1(2,4)] by auto
  show ?thesis
  proof (cases "conflict s1")
    case True
    then have "s' = s1" by (simp add: s' visit_literal_def s1_def Let_def)
    then show ?thesis using ca1 by simp
  next
    case nc1: False
    define s2 where "s2 = visitClauseWatchList (- l) s1"
    have l1: "- (- l) \<in> set (tlits (solver_model s1))" using prop_ext_tlits [OF F1(2)] l by blast
    note F2 = visitClauseWatchList_facts [OF F1(1) nc1 l1 s2_def]
    have c2: "constraintsPB s2 = constraintsPB s1" by (simp add: s2_def visitClauseWatchList_def visit_clause_loop_pbs)
    have ca2: "caches_ok s2" "closed_counters s2"
      using caches_ok_ext [OF ca1(1) F2(2) c2] closed_counters_ext [OF ca1(2) F2(2,4)] by auto
    show ?thesis
    proof (cases "conflict s2")
      case True
      then have "s' = s2" using nc1 by (simp add: s' visit_literal_def s1_def s2_def Let_def)
      then show ?thesis using ca2 by simp
    next
      case nc2: False
      then have s3: "s' = visitPBCounterLists (- l) s2"
        using nc1 by (simp add: s' visit_literal_def s1_def s2_def Let_def)
      have co2: "sumOfWatches s2 ! c = counter_value ps (constraintsPB s2 ! c)" if "c < length (constraintsPB s2)" for c
        using co [of c] that F1(4) F2(4) by (simp add: c1 c2)
      have ps2: "set (ps @ [l]) \<subseteq> set (tlits (solver_model s2))"
        using ps(1) prop_ext_tlits [OF F1(2)] prop_ext_tlits [OF F2(2)] by blast
      note E = visit_entries [OF F2(1) co2 ps2 ps(2,3)]
      obtain n t where v: "visit_pb_loop (genWatchList s2 (- l)) 0 s2 = (n, t)" by fastforce
      from visit_pb_loop_closes [OF F2(1) nc2 E(1,2) ca2 v]
      show ?thesis by (auto simp: s3 visitPBCounterLists_def v caches_ok_def)
    qed
  qed
qed

lemma propagate_closes:
  assumes "solver_inv s" "\<not> conflict s" "caches_ok s" "closed_counters s" "propagate s = Some s'"
  shows "caches_ok s' \<and> (\<not> conflict s' \<longrightarrow> closed_counters s')"
  using assms
proof (induction "nat (numVars s - lastPropagated (solver_model s))" arbitrary: s rule: less_induct)
  case (less s)
  let ?m = "solver_model s"
  have w: "wf_model ?m" and si: "core_inv s" "counters_ok s" using less.prems(1) by (auto simp: solver_inv_def core_inv_def)
  show ?case
  proof (cases "areAllLitsPropagated ?m")
    case True
    then have "propagate s = Some s" by (subst propagate.simps) simp
    then show ?thesis using less.prems by simp
  next
    case False
    show ?thesis
    proof (rule propagate_step [OF less.prems(1,2) False])
      fix l m s3
      let ?s0 = "s\<lparr>solver_model := m\<rparr>"
      assume n: "getNextLitToPropagatePB ?m = (l, m)" and s3: "s3 = visit_literal l ?s0" "core_inv ?s0" "prop_ext ?s0 s3" "core_inv s3"
        and m: "modelStack m = modelStack ?m" "lastPropagated m = lastPropagated ?m + 1" and l: "l \<in> set (tlits ?m)"
        and si3: "\<not> conflict s3 \<Longrightarrow> solver_inv s3"
        and step: "propagate s = (if conflict s3 then Some (decrease_lastPropagated s3) else propagate s3)"
      have tl: "tlits m = tlits ?m" using m(1) by (simp add: tlits_def)
      note N = getNextLit_facts [OF w n]
      have l0: "l \<noteq> 0" using l wf_model_zero [OF w] by auto
      have pm: "plits m = plits ?m @ [l]" using N(6) [OF l0] by auto
      have "wf_stack (plits m)" using N(1) by (auto simp: wf_model_def wf_stack_def plits_def take_map [symmetric] dest: in_set_takeD)
      then have fresh: "\<bar>l\<bar> \<notin> abs ` set (plits ?m)" by (simp add: pm wf_stack_snoc)
      have sub: "set (plits ?m @ [l]) \<subseteq> set (tlits (solver_model ?s0))"
        unfolding pm [symmetric] by (auto simp: plits_def dest: in_set_takeD)
      have co0: "sumOfWatches ?s0 ! c = counter_value (plits ?m) (constraintsPB ?s0 ! c)" if "c < length (constraintsPB ?s0)" for c
        using si(2) that by (simp add: counters_ok_def)
      have ca: "caches_ok ?s0" "closed_counters ?s0" using less.prems(3,4) tl by (simp_all add: caches_ok_def closed_counters_def)
      have nc0: "\<not> conflict ?s0" using less.prems(2) by simp
      note V = visit_literal_closes [OF s3(2) nc0 co0 sub fresh l0 ca s3(1)]
      show ?thesis
      proof (cases "conflict s3")
        case True
        then have "s' = decrease_lastPropagated s3" using step less.prems(5) by simp
        then show ?thesis using V True by (simp add: caches_ok_def decrease_lastPropagated_def)
      next
        case nc: False
        have "lastPropagated (solver_model s3) < int (length (modelStack (solver_model s3)))"
          using s3(4) by (simp add: core_inv_def wf_model_def)
        moreover have lp3: "lastPropagated (solver_model s3) = lastPropagated ?m + 1" using s3(3) m(2) by (simp add: prop_ext_def)
        moreover have "-1 \<le> lastPropagated ?m" using w by (simp add: wf_model_def)
        moreover have "numVars s3 = numVars s" using prop_ext_db [OF s3(3)] by (simp add: same_db_def)
        ultimately have "nat (numVars s3 - lastPropagated (solver_model s3)) < nat (numVars s - lastPropagated ?m)"
          using trail_length [OF s3(4)] by linarith
        from less.hyps [OF this si3 [OF nc] nc] V nc less.prems(5) step show ?thesis by simp
      qed
    qed
  qed
qed


section \<open>Fixpoints\<close>

lemma plits_all: "wf_model m \<Longrightarrow> areAllLitsPropagated m \<Longrightarrow> plits m = tlits m"
  by (simp add: areAllLitsPropagated_def plits_def trailSize_def)

lemma counter_all_propagated:
  assumes "solver_inv s" "areAllLitsPropagated (solver_model s)" "c < length (constraintsPB s)"
  shows "sumOfWatches s ! c + fst (pb_lhs (constraintsPB s ! c) ! 0) =
    msum (\<lambda>x. - x \<notin> set (tlits (solver_model s))) (pb_lhs (constraintsPB s ! c)) - pb_rhs (constraintsPB s ! c)"
  using assms plits_all [of "solver_model s"]
  by (simp add: solver_inv_def core_inv_def counters_ok_def counter_value_def)

lemma closed_counters_iff:
  assumes "solver_inv s" "areAllLitsPropagated (solver_model s)"
  shows "closed_counters s \<longleftrightarrow> closed_lits (constraintsPB s) (tlits (solver_model s))"
  unfolding closed_counters_def closed_lits_def all_set_conv_all_nth [of "constraintsPB s"]
  using counter_all_propagated [OF assms] by simp

lemma closed_lits_same_db:
  "same_db s t \<Longrightarrow> closed_lits (constraintsPB t) T = closed_lits (constraintsPB s) T"
  unfolding closed_lits_def all_set_conv_all_nth [of "constraintsPB s"] all_set_conv_all_nth [of "constraintsPB t"]
  using same_db_length [of s t] same_db_pb [of s t] by simp

lemma new_solver_closed: "caches_ok (new_solver one n)" "closed_counters (new_solver one n)"
  by (simp_all add: caches_ok_def closed_counters_def new_solver_def)

text \<open>
  C9: Unit propagation is complete. When \<open>propagate\<close> returns without a conflict, no pseudo-Boolean
  constraint of the database has a coefficient above its slack on a literal that is still
  unassigned: nothing is left to propagate, although the code resumes each constraint from a cached
  index.
\<close>

theorem propagate_complete:
  assumes "solver_inv s" "\<not> conflict s" "caches_ok s" "closed_counters s"
    and "propagate s = Some s'" "\<not> conflict s'"
  shows "closed_lits (constraintsPB s') (tlits (solver_model s'))"
proof -
  have "prop_result s s'" by (rule propagate_result [OF assms(1,2,5)])
  then show ?thesis
    using closed_counters_iff [of s'] propagate_closes [OF assms(1-5)] assms(6) by (simp add: prop_result_def)
qed

definition sample_two :: pbconstraint where
  "sample_two = pb_of_wconstraint \<lparr>lhs = [(1, 1), (1, 2)], rhs = 1\<rparr> True 0 0"

definition sample_open :: "nat solver" where
  "sample_open = setTrueDueToDecision (- 1) (addPBConstraintCounter sample_two (new_solver 1 2))"

theorem propagate_complete_witness:
  "\<exists>s'. propagate sample_open = Some s' \<and> closed_lits (constraintsPB s') (tlits (solver_model s'))"
proof -
  let ?b = "addPBConstraintCounter sample_two (new_solver (1::nat) 2)"
  have "solver_inv ?b"
    by (rule addPBConstraintCounter_inv(1))
       (simp_all add: new_solver_inv del: One_nat_def, simp add: sample_two_def pb_of_wconstraint_def pb_ok_def new_solver_def)
  then have i: "solver_inv sample_open"
    unfolding sample_open_def
    by (rule push_decision_inv)
       (simp_all add: addPBConstraintCounter_simps new_solver_def isUndefLit_def new_model_def isUndefVar_def)
  have n: "\<not> conflict sample_open" by (simp add: sample_open_def addPBConstraintCounter_simps new_solver_def)
  have c: "caches_ok sample_open" "closed_counters sample_open"
    by (simp_all add: sample_open_def addPBConstraintCounter_def sample_two_def pb_of_wconstraint_def new_solver_def
        caches_ok_def closed_counters_def cache_ok_def push_gen_def push_occ_def setTrueDueToDecision_def
        isFalseLit_def new_model_def Let_def)
  have "case propagate sample_open of None \<Rightarrow> False | Some s' \<Rightarrow> \<not> conflict s'" by code_simp
  then obtain s' where "propagate sample_open = Some s'" "\<not> conflict s'" by (cases "propagate sample_open") auto
  with propagate_complete [OF i n c] show ?thesis by blast
qed

end
