(* ===== verification/Protocol.thy ===== *)
theory Protocol
  imports Problem "HOL-Library.Product_Lexorder" "HOL-Library.Monad_Syntax"
begin

text \<open>
  What travels between the master and the workers (\<open>src/src/cubePB.cpp\<close>): the textual key that
  identifies a learned constraint and the set without repetitions built on it, and the functions
  that send and receive constraints and solutions. A message is a tag and its integers; a queue
  holds what one process has sent to another and was not received yet, in the order of sending.
  \<open>MPI_Recv\<close> with a tag takes the first message of that tag and leaves the others in place.
\<close>

section \<open>Decimal numbers and keys of constraints\<close>

definition digit_char :: "nat \<Rightarrow> char" where
  "digit_char d = char_of (48 + d)"

fun nat_to_string :: "nat \<Rightarrow> string" where
  "nat_to_string n = (if n < 10 then [digit_char n] else nat_to_string (n div 10) @ [digit_char (n mod 10)])"

declare nat_to_string.simps [simp del]

definition to_string :: "int \<Rightarrow> string" where
  "to_string i = (if i < 0 then CHR ''-'' # nat_to_string (nat (- i)) else nat_to_string (nat i))"

definition key_term :: "monomial \<Rightarrow> string" where
  "key_term m = to_string (fst m) @ '':'' @ to_string (snd m) @ '',''"

definition constraint_key :: "wconstraint \<Rightarrow> string" where
  "constraint_key c =
     (let terms = sort (map (\<lambda>i. (getIthCoefficient c i, getIthLiteral c i)) [0..<nat (getSize c)])
      in concat (map key_term terms) @ ''='' @ to_string (rhs c))"

text \<open>Reading the digits back.\<close>

definition digits_value :: "string \<Rightarrow> nat" where
  "digits_value = foldl (\<lambda>n c. 10 * n + (of_char c - 48)) 0"

lemma of_char_digit: "d < 10 \<Longrightarrow> (of_char (digit_char d) :: nat) = 48 + d"
  by (simp add: digit_char_def)

lemma digits_value_nat: "digits_value (nat_to_string n) = n"
proof (induction n rule: nat_to_string.induct)
  case (1 n)
  show ?case
  proof (cases "n < 10")
    case True
    then show ?thesis by (simp add: nat_to_string.simps [of n] digits_value_def of_char_digit)
  next
    case False
    with 1 show ?thesis by (simp add: nat_to_string.simps [of n] digits_value_def of_char_digit)
  qed
qed

lemma nat_to_string_chars: "set (nat_to_string n) \<subseteq> digit_char ` {..<10}"
proof (induction n rule: nat_to_string.induct)
  case (1 n)
  then show ?case by (subst nat_to_string.simps) auto
qed

lemma nat_to_string_nonempty: "nat_to_string n \<noteq> []"
  by (subst nat_to_string.simps) simp

lemma digit_char_range: "c \<in> digit_char ` {..<10} \<Longrightarrow> 48 \<le> (of_char c :: nat) \<and> of_char c < (58 :: nat)"
  using of_char_digit by auto

lemma digit_char_distinct: "c \<in> digit_char ` {..<10} \<Longrightarrow> c \<noteq> CHR '':'' \<and> c \<noteq> CHR '','' \<and> c \<noteq> CHR ''='' \<and> c \<noteq> CHR ''-''"
  by (drule digit_char_range) auto

lemma nat_to_string_separators:
  "CHR '':'' \<notin> set (nat_to_string n)" "CHR '','' \<notin> set (nat_to_string n)"
  "CHR ''='' \<notin> set (nat_to_string n)" "CHR ''-'' \<notin> set (nat_to_string n)"
  using nat_to_string_chars [of n] digit_char_distinct by blast+

lemma to_string_separators:
  "CHR '':'' \<notin> set (to_string i)" "CHR '','' \<notin> set (to_string i)" "CHR ''='' \<notin> set (to_string i)"
  by (simp_all add: to_string_def nat_to_string_separators)

lemma to_string_nonempty: "to_string i \<noteq> []"
  by (simp add: to_string_def nat_to_string_nonempty)

lemma to_string_inj: "to_string i = to_string j \<longleftrightarrow> i = j"
proof
  assume eq: "to_string i = to_string j"
  have nat_inj: "m = n" if "nat_to_string m = nat_to_string n" for m n
    using arg_cong [OF that, of digits_value] by (simp add: digits_value_nat)
  have sign: "CHR ''-'' # xs \<noteq> nat_to_string n" "nat_to_string n \<noteq> CHR ''-'' # xs" for xs n
    using nat_to_string_separators(4) [of n] by (metis list.set_intros(1))+
  show "i = j"
    using eq nat_inj sign by (auto simp: to_string_def split: if_splits dest!: nat_inj)
qed simp

lemma append_sep_inj:
  "x \<notin> set as \<Longrightarrow> x \<notin> set bs \<Longrightarrow> as @ x # cs = bs @ x # ds \<longleftrightarrow> as = bs \<and> cs = ds"
proof (induction as arbitrary: bs)
  case Nil
  then show ?case by (cases bs) auto
next
  case (Cons a as)
  then show ?case by (cases bs) auto
qed

lemma key_terms_inj:
  "concat (map key_term ms) @ ''='' @ xs = concat (map key_term ns) @ ''='' @ ys \<longleftrightarrow> ms = ns \<and> xs = ys"
proof (induction ms arbitrary: ns)
  case Nil
  have "CHR ''='' # xs \<noteq> to_string i @ zs" for i zs
    using to_string_separators(3) [of i] to_string_nonempty [of i] by (cases "to_string i") auto
  then show ?case by (cases ns) (auto simp: key_term_def)
next
  case (Cons m ms)
  show ?case
  proof (cases ns)
    case Nil
    have "to_string i @ zs \<noteq> CHR ''='' # ys" for i zs
      using to_string_separators(3) [of i] to_string_nonempty [of i] by (cases "to_string i") auto
    then show ?thesis by (simp add: Nil key_term_def)
  next
    case (Cons n ns')
    have "concat (map key_term (m # ms)) @ ''='' @ xs = concat (map key_term (n # ns')) @ ''='' @ ys \<longleftrightarrow>
      fst m = fst n \<and> snd m = snd n \<and> concat (map key_term ms) @ ''='' @ xs = concat (map key_term ns') @ ''='' @ ys"
      by (simp add: key_term_def append_sep_inj to_string_separators to_string_inj)
    with Cons.IH [of ns'] show ?thesis by (auto simp: Cons prod_eq_iff)
  qed
qed

lemma constraint_key_alt: "constraint_key c = concat (map key_term (sort (lhs c))) @ ''='' @ to_string (rhs c)"
proof -
  have "map (\<lambda>i. (getIthCoefficient c i, getIthLiteral c i)) [0..<nat (getSize c)] = lhs c"
    by (rule nth_equalityI) (simp_all add: getSize_def getIthCoefficient_def getIthLiteral_def)
  then show ?thesis by (simp add: constraint_key_def Let_def)
qed

lemma sort_eq_iff_mset: "sort xs = sort ys \<longleftrightarrow> mset xs = mset ys"
  by (metis mset_sort properties_for_sort sorted_sort)

text \<open>
  The key of a constraint identifies it up to the order of its monomials: two constraints have
  the same key exactly when they have the same monomials with the same multiplicity and the same
  right-hand side.
\<close>

theorem constraint_key_identifies:
  "constraint_key c = constraint_key d \<longleftrightarrow> mset (lhs c) = mset (lhs d) \<and> rhs c = rhs d"
  unfolding constraint_key_alt
  by (simp only: key_terms_inj to_string_inj sort_eq_iff_mset)

lemma constraint_key_sat: "constraint_key c = constraint_key d \<Longrightarrow> sat \<sigma> c = sat \<sigma> d"
proof -
  assume "constraint_key c = constraint_key d"
  then have "mset (lhs c) = mset (lhs d)" "rhs c = rhs d"
    unfolding constraint_key_alt by (simp_all only: key_terms_inj to_string_inj sort_eq_iff_mset)
  then show ?thesis using msum_mset by (metis sat_def)
qed

section \<open>Sets of constraints\<close>

record constraint_set =
  cs_constraints :: "wconstraint list"
  cs_keys :: "string set"

definition empty_constraint_set :: constraint_set where
  "empty_constraint_set = \<lparr>cs_constraints = [], cs_keys = {}\<rparr>"

fun insert_all :: "wconstraint list \<Rightarrow> constraint_set \<Rightarrow> constraint_set" where
  "insert_all [] S = S"
| "insert_all (c # src) S =
     (let k = constraint_key c
      in insert_all src
           (if k \<notin> cs_keys S
            then S\<lparr>cs_keys := insert k (cs_keys S), cs_constraints := cs_constraints S @ [c]\<rparr>
            else S))"

definition wf_constraint_set :: "constraint_set \<Rightarrow> bool" where
  "wf_constraint_set S \<longleftrightarrow> cs_keys S = set (map constraint_key (cs_constraints S))
     \<and> distinct (map constraint_key (cs_constraints S))"

lemma wf_empty_set [simp]: "wf_constraint_set empty_constraint_set"
  by (simp add: wf_constraint_set_def empty_constraint_set_def)

lemma insert_all_wf: "wf_constraint_set S \<Longrightarrow> wf_constraint_set (insert_all cs S)"
  by (induction cs S rule: insert_all.induct) (auto simp: wf_constraint_set_def Let_def)

lemma insert_all_sat:
  "wf_constraint_set S \<Longrightarrow>
    (\<forall>c \<in> set (cs_constraints (insert_all cs S)). sat \<sigma> c) \<longleftrightarrow>
    (\<forall>c \<in> set (cs_constraints S). sat \<sigma> c) \<and> (\<forall>c \<in> set cs. sat \<sigma> c)"
proof (induction cs S rule: insert_all.induct)
  case (2 c cs S)
  show ?case
  proof (cases "constraint_key c \<in> cs_keys S")
    case True
    then obtain d where "d \<in> set (cs_constraints S)" "constraint_key d = constraint_key c"
      using "2.prems" by (auto simp: wf_constraint_set_def)
    then have "sat \<sigma> d = sat \<sigma> c" by (rule_tac constraint_key_sat)
    with True 2 \<open>d \<in> set (cs_constraints S)\<close> show ?thesis by (auto simp: Let_def)
  next
    case False
    let ?S = "S\<lparr>cs_keys := insert (constraint_key c) (cs_keys S), cs_constraints := cs_constraints S @ [c]\<rparr>"
    have "wf_constraint_set ?S" using "2.prems" False by (auto simp: wf_constraint_set_def)
    with "2.IH" [OF refl, unfolded if_P [OF False]] False show ?thesis by (auto simp: Let_def)
  qed
qed simp

lemma insert_all_src: "set (cs_constraints (insert_all cs S)) \<subseteq> set (cs_constraints S) \<union> set cs"
  by (induction cs S rule: insert_all.induct) (auto simp: Let_def split: if_splits)

text \<open>
  C22: Merging learned constraints into a set keeps one constraint per key and loses none: the
  resulting constraints are satisfied by exactly the assignments that satisfy the old ones and all
  the new ones.
\<close>

theorem insert_all_merges:
  assumes "wf_constraint_set S"
  shows "wf_constraint_set (insert_all src S) \<and>
    (\<forall>\<sigma>. (\<forall>c \<in> set (cs_constraints (insert_all src S)). sat \<sigma> c) \<longleftrightarrow>
        (\<forall>c \<in> set (cs_constraints S). sat \<sigma> c) \<and> (\<forall>c \<in> set src. sat \<sigma> c))"
  using insert_all_wf [OF assms] insert_all_sat [OF assms] by blast

theorem insert_all_merges_witness:
  "wf_constraint_set (insert_all [\<lparr>lhs = [(2, 1), (3, -2)], rhs = 3\<rparr>, \<lparr>lhs = [(3, -2), (2, 1)], rhs = 3\<rparr>]
      empty_constraint_set)"
  using insert_all_merges [OF wf_empty_set] by blast

section \<open>Message queues\<close>

type_synonym message = "int \<times> int list"
type_synonym queue = "message list"

definition TAG_STOP :: int where "TAG_STOP = 1"
definition TAG_WORK :: int where "TAG_WORK = 2"
definition TAG_RESULT :: int where "TAG_RESULT = 3"
definition TAG_SPLIT :: int where "TAG_SPLIT = 4"
definition TAG_INIT_RESULT :: int where "TAG_INIT_RESULT = 5"
definition TAG_INIT_CUBE :: int where "TAG_INIT_CUBE = 6"
definition TAG_BEST_REQUEST :: int where "TAG_BEST_REQUEST = 7"
definition TAG_BEST_REPLY :: int where "TAG_BEST_REPLY = 8"
definition TAG_LEARNED_UPDATE :: int where "TAG_LEARNED_UPDATE = 9"
definition TAG_BOUNDS :: int where "TAG_BOUNDS = 10"
definition TAG_SOLUTION :: int where "TAG_SOLUTION = 11"

lemmas tag_defs = TAG_STOP_def TAG_WORK_def TAG_RESULT_def TAG_SPLIT_def TAG_INIT_RESULT_def
  TAG_INIT_CUBE_def TAG_BEST_REQUEST_def TAG_BEST_REPLY_def TAG_LEARNED_UPDATE_def TAG_BOUNDS_def
  TAG_SOLUTION_def

text \<open>
  \<open>MPI_Recv\<close> of \<open>n\<close> integers with a tag. \<open>None\<close>: no message of the tag is there (the call blocks) or
  its length is not \<open>n\<close>, in which case the call aborts or leaves the buffer partly undefined.
\<close>

fun mpi_recv :: "int \<Rightarrow> nat \<Rightarrow> queue \<Rightarrow> (int list \<times> queue) option" where
  "mpi_recv tag n [] = None"
| "mpi_recv tag n ((t, d) # q) =
     (if t = tag then (if length d = n then Some (d, q) else None)
      else map_option (\<lambda>(x, q'). (x, (t, d) # q')) (mpi_recv tag n q))"

text \<open>\<open>of_tag tag q\<close> and \<open>not_tag tag q\<close>: the messages of one tag and the others, in order.\<close>

definition of_tag :: "int \<Rightarrow> queue \<Rightarrow> queue" where
  "of_tag tag = filter (\<lambda>m. fst m = tag)"

definition not_tag :: "int \<Rightarrow> queue \<Rightarrow> queue" where
  "not_tag tag = filter (\<lambda>m. fst m \<noteq> tag)"

lemma of_tag_simps [simp]:
  "of_tag tag [] = []" "of_tag tag (m # q) = (if fst m = tag then m # of_tag tag q else of_tag tag q)"
  "of_tag tag (q @ q') = of_tag tag q @ of_tag tag q'"
  by (simp_all add: of_tag_def)

lemma not_tag_simps [simp]:
  "not_tag tag [] = []" "not_tag tag (m # q) = (if fst m \<noteq> tag then m # not_tag tag q else not_tag tag q)"
  "not_tag tag (q @ q') = not_tag tag q @ not_tag tag q'"
  by (simp_all add: not_tag_def)

lemma mpi_recv_first:
  assumes "of_tag tag q = (tag, d) # r" "length d = n"
  shows "\<exists>q'. mpi_recv tag n q = Some (d, q') \<and> of_tag tag q' = r \<and> not_tag tag q' = not_tag tag q"
  using assms
proof (induction q)
  case (Cons m q)
  obtain t e where m: "m = (t, e)" by (cases m)
  show ?case
  proof (cases "t = tag")
    case True
    then show ?thesis using Cons.prems by (simp add: m)
  next
    case False
    with Cons.prems Cons.IH obtain q' where "mpi_recv tag n q = Some (d, q')" "of_tag tag q' = r" "not_tag tag q' = not_tag tag q"
      by (auto simp: m)
    then show ?thesis using False by (simp add: m)
  qed
qed simp

text \<open>
  Receiving with any tag (\<open>MPI_ANY_TAG\<close>) takes the oldest message; so does \<open>MPI_Probe\<close>. A message
  shorter than the buffer is allowed where the code only looks at its tag.
\<close>

fun mpi_recv_any :: "nat \<Rightarrow> queue \<Rightarrow> (int \<times> int list \<times> queue) option" where
  "mpi_recv_any n [] = None"
| "mpi_recv_any n ((t, d) # q) = (if length d \<le> n then Some (t, d, q) else None)"

section \<open>Constraints\<close>

definition constraint_terms :: "wconstraint \<Rightarrow> int list" where
  "constraint_terms c =
     concat (map (\<lambda>i. [getIthCoefficient c i, getIthLiteral c i]) [0..<nat (getSize c)])"

fun send_constraint_loop :: "int \<Rightarrow> wconstraint list \<Rightarrow> queue" where
  "send_constraint_loop tag [] = []"
| "send_constraint_loop tag (c # cs) =
     (tag, [getSize c, rhs c])
     # (if constraint_terms c \<noteq> [] then [(tag, constraint_terms c)] else [])
     @ send_constraint_loop tag cs"

definition send_constraints :: "int \<Rightarrow> wconstraint list \<Rightarrow> queue" where
  "send_constraints tag cs = (tag, [int (length cs)]) # send_constraint_loop tag cs"

fun read_terms :: "int list \<Rightarrow> int list \<times> lit list" where
  "read_terms (a # l # ts) = (case read_terms ts of (as, ls) \<Rightarrow> (a # as, l # ls))"
| "read_terms _ = ([], [])"

definition recv_constraint :: "int \<Rightarrow> queue \<Rightarrow> (wconstraint \<times> queue) option" where
  "recv_constraint tag q = do {
     (header, q) \<leftarrow> mpi_recv tag 2 q;
     let sz = header ! 0;
     let k = header ! 1;
     if sz < 0 then None
     else if sz > 0
     then do {
       (terms, q) \<leftarrow> mpi_recv tag (nat (2 * sz)) q;
       let (coeffs, lits) = read_terms terms;
       Some (WConstraint_vec coeffs lits k, q) }
     else Some (WConstraint_vec [] [] k, q) }"

fun recv_constraint_loop :: "int \<Rightarrow> nat \<Rightarrow> queue \<Rightarrow> (wconstraint list \<times> queue) option" where
  "recv_constraint_loop tag 0 q = Some ([], q)"
| "recv_constraint_loop tag (Suc n) q = do {
     (c, q) \<leftarrow> recv_constraint tag q;
     (cs, q) \<leftarrow> recv_constraint_loop tag n q;
     Some (c # cs, q) }"

definition recv_constraints :: "int \<Rightarrow> queue \<Rightarrow> (wconstraint list \<times> queue) option" where
  "recv_constraints tag q = do {
     (d, q) \<leftarrow> mpi_recv tag 1 q;
     recv_constraint_loop tag (nat (d ! 0)) q }"

lemma constraint_terms_alt: "constraint_terms c = concat (map (\<lambda>m. [fst m, snd m]) (lhs c))"
proof -
  have "map (\<lambda>i. [getIthCoefficient c i, getIthLiteral c i]) [0..<nat (getSize c)] = map (\<lambda>m. [fst m, snd m]) (lhs c)"
    by (rule nth_equalityI) (simp_all add: getSize_def getIthCoefficient_def getIthLiteral_def)
  then show ?thesis by (simp add: constraint_terms_def)
qed

lemma length_constraint_terms: "length (constraint_terms c) = 2 * length (lhs c)"
  by (simp add: constraint_terms_alt length_concat sum_list_triv comp_def)

lemma read_terms_concat: "read_terms (concat (map (\<lambda>m. [fst m, snd m]) ms)) = (map fst ms, map snd ms)"
  by (induction ms) auto

lemma WConstraint_vec_back: "WConstraint_vec (map fst (lhs c)) (map snd (lhs c)) (rhs c) = c"
  by (simp add: WConstraint_vec_def zip_map_fst_snd)

lemma recv_constraint_sent:
  assumes "of_tag tag q = send_constraint_loop tag [c] @ r"
  shows "\<exists>q'. recv_constraint tag q = Some (c, q') \<and> of_tag tag q' = r \<and> not_tag tag q' = not_tag tag q"
proof -
  obtain q1 where 1: "mpi_recv tag 2 q = Some ([getSize c, rhs c], q1)" "not_tag tag q1 = not_tag tag q"
    "of_tag tag q1 = (if constraint_terms c \<noteq> [] then [(tag, constraint_terms c)] else []) @ r"
    using mpi_recv_first [of tag q "[getSize c, rhs c]" _ 2] assms by force
  show ?thesis
  proof (cases "lhs c = []")
    case True
    then have "constraint_terms c = []" by (simp add: constraint_terms_alt)
    with 1 True WConstraint_vec_back [of c] show ?thesis
      by (simp add: recv_constraint_def getSize_def)
  next
    case False
    then have ne: "constraint_terms c \<noteq> []" "0 < getSize c"
      using length_constraint_terms [of c] by (auto simp: getSize_def)
    have len: "length (constraint_terms c) = nat (2 * getSize c)"
      by (simp add: length_constraint_terms getSize_def)
    obtain q2 where "mpi_recv tag (nat (2 * getSize c)) q1 = Some (constraint_terms c, q2)" "of_tag tag q2 = r"
      "not_tag tag q2 = not_tag tag q1"
      using mpi_recv_first [OF _ len, of tag q1 r] 1(3) ne(1) by auto
    then show ?thesis using 1 ne WConstraint_vec_back [of c]
      by (simp add: recv_constraint_def constraint_terms_alt [of c] read_terms_concat)
  qed
qed

lemma recv_constraint_loop_sent:
  assumes "of_tag tag q = send_constraint_loop tag cs @ r"
  shows "\<exists>q'. recv_constraint_loop tag (length cs) q = Some (cs, q') \<and> of_tag tag q' = r \<and> not_tag tag q' = not_tag tag q"
  using assms
proof (induction cs arbitrary: q)
  case (Cons c cs)
  then have "of_tag tag q = send_constraint_loop tag [c] @ (send_constraint_loop tag cs @ r)" by simp
  from recv_constraint_sent [OF this] obtain q1 where
    1: "recv_constraint tag q = Some (c, q1)" "of_tag tag q1 = send_constraint_loop tag cs @ r" "not_tag tag q1 = not_tag tag q"
    by blast
  from Cons.IH [OF 1(2)] 1 show ?case by auto
qed simp

lemma recv_constraints_sent:
  assumes "of_tag tag q = send_constraints tag cs @ r"
  shows "\<exists>q'. recv_constraints tag q = Some (cs, q') \<and> of_tag tag q' = r \<and> not_tag tag q' = not_tag tag q"
proof -
  obtain q1 where 1: "mpi_recv tag 1 q = Some ([int (length cs)], q1)" "of_tag tag q1 = send_constraint_loop tag cs @ r"
    "not_tag tag q1 = not_tag tag q"
    using mpi_recv_first [of tag q "[int (length cs)]" "send_constraint_loop tag cs @ r" 1] assms
    by (auto simp: send_constraints_def)
  from recv_constraint_loop_sent [OF 1(2)] 1 show ?thesis by (auto simp: recv_constraints_def)
qed

section \<open>Cubes\<close>

fun send_cubes :: "int \<Rightarrow> lit list list \<Rightarrow> queue" where
  "send_cubes tag [] = []"
| "send_cubes tag (cube # cs) =
     (tag, [int (length cube)]) # (if length cube > 0 then [(tag, cube)] else []) @ send_cubes tag cs"

fun recv_cubes :: "int \<Rightarrow> nat \<Rightarrow> queue \<Rightarrow> (lit list list \<times> queue) option" where
  "recv_cubes tag 0 q = Some ([], q)"
| "recv_cubes tag (Suc n) q = do {
     (d, q) \<leftarrow> mpi_recv tag 1 q;
     let len = d ! 0;
     (cube, q) \<leftarrow> (if len < 0 then None else if len > 0 then mpi_recv tag (nat len) q else Some ([], q));
     (cs, q) \<leftarrow> recv_cubes tag n q;
     Some (cube # cs, q) }"

lemma recv_cubes_sent:
  assumes "of_tag tag q = send_cubes tag cs @ r"
  shows "\<exists>q'. recv_cubes tag (length cs) q = Some (cs, q') \<and> of_tag tag q' = r \<and> not_tag tag q' = not_tag tag q"
  using assms
proof (induction cs arbitrary: q)
  case (Cons c cs)
  obtain q1 where 1: "mpi_recv tag 1 q = Some ([int (length c)], q1)" "not_tag tag q1 = not_tag tag q"
    "of_tag tag q1 = (if length c > 0 then [(tag, c)] else []) @ send_cubes tag cs @ r"
    using mpi_recv_first [of tag q "[int (length c)]" _ 1] Cons.prems by force
  obtain q2 where 2: "(if int (length c) > 0 then mpi_recv tag (length c) q1 else Some ([], q1)) = Some (c, q2)"
    "of_tag tag q2 = send_cubes tag cs @ r" "not_tag tag q2 = not_tag tag q1"
    using mpi_recv_first [of tag q1 c "send_cubes tag cs @ r" "length c"] 1(3) by (cases "c = []") auto
  from Cons.IH [OF 2(2)] 1 2 show ?case by (auto split: if_splits)
qed simp

section \<open>Solutions\<close>

definition send_solution :: "int list \<Rightarrow> queue" where
  "send_solution sol =
     (TAG_SOLUTION, [int (length sol)]) # (if length sol > 0 then [(TAG_SOLUTION, sol)] else [])"

definition recv_solution :: "queue \<Rightarrow> (int list \<times> queue) option" where
  "recv_solution q = do {
     (d, q) \<leftarrow> mpi_recv TAG_SOLUTION 1 q;
     let sz = d ! 0;
     if sz < 0 then None
     else if sz > 0 then mpi_recv TAG_SOLUTION (nat sz) q
     else Some ([], q) }"

lemma recv_solution_sent:
  assumes "of_tag TAG_SOLUTION q = send_solution sol @ r"
  shows "\<exists>q'. recv_solution q = Some (sol, q') \<and> of_tag TAG_SOLUTION q' = r
    \<and> not_tag TAG_SOLUTION q' = not_tag TAG_SOLUTION q"
proof -
  obtain q1 where 1: "mpi_recv TAG_SOLUTION 1 q = Some ([int (length sol)], q1)"
    "of_tag TAG_SOLUTION q1 = (if length sol > 0 then [(TAG_SOLUTION, sol)] else []) @ r"
    "not_tag TAG_SOLUTION q1 = not_tag TAG_SOLUTION q"
    using mpi_recv_first [of TAG_SOLUTION q "[int (length sol)]" _ 1] assms by (auto simp: send_solution_def)
  show ?thesis
  proof (cases "sol = []")
    case True
    with 1 show ?thesis by (simp add: recv_solution_def)
  next
    case False
    then obtain q2 where "mpi_recv TAG_SOLUTION (length sol) q1 = Some (sol, q2)" "of_tag TAG_SOLUTION q2 = r"
      "not_tag TAG_SOLUTION q2 = not_tag TAG_SOLUTION q1"
      using mpi_recv_first [of TAG_SOLUTION q1 sol r "length sol"] 1(2) by auto
    with 1 False show ?thesis by (simp add: recv_solution_def)
  qed
qed

end
