(* ===== verification/Master.thy ===== *)
theory Master
  imports Protocol
begin

text \<open>
  The master process (\<open>run_master\<close> of \<open>src/src/cubePB.cpp\<close> and the functions it calls): it collects
  the initial cubes, hands one cube to every free worker, keeps the incumbent and the bounds, puts
  the parts of a split cube back into the queue, and prints the global result. The state record
  holds the globals and locals of the code; \<open>inbox p\<close> is the queue of messages from process \<open>p\<close>,
  \<open>outbox\<close> lists what the master has sent. Clocks and progress output are left out. The ranks are
  \<open>nat\<close>; rank 1 solves the original problem, the ranks from 2 on solve cubes.
\<close>

section \<open>State\<close>

record cube_task =
  ct_lits :: "lit list"
  ct_split_depth :: int
  ct_learned :: constraint_set
  ct_lower_bound :: int

record master =
  inbox :: "nat \<Rightarrow> queue"
  outbox :: "(nat \<times> message) list"
  cubes :: "cube_task list"
  cube_queue :: "nat list"
  cube_of_worker :: "int list"
  cube_depth_of_worker :: "int list"
  lb_of_worker :: "int list"
  ub_of_worker :: "int list"
  active_workers :: int
  pending_init_workers :: int
  sat_found :: bool
  unknown_seen :: bool
  original_worker_active :: bool
  original_proved_unsat :: bool
  original_proved_optimum :: bool
  sat_found_during_generation :: bool
  feasible_seen :: bool
  stop_sent :: bool
  global_best_cost :: int
  global_has_best_cost :: bool
  global_lower_bound :: int
  global_learned_from_original :: "wconstraint list"
  global_best_solution :: "int list"
  global_cubes_processed :: int
  global_queue_size :: int
  total_number_cubes :: int

definition original_worker :: nat where "original_worker = 1"
definition first_cube_worker :: nat where "first_cube_worker = 2"
definition RES_SPLIT :: int where "RES_SPLIT = 30"
definition ORIGINAL_WORKER_CUBE_MARKER :: int where "ORIGINAL_WORKER_CUBE_MARKER = -2"

text \<open>The state at the start of \<open>run_master\<close>; the incumbent cost is set in \<open>main\<close>.\<close>

definition new_master :: "nat \<Rightarrow> int \<Rightarrow> bool \<Rightarrow> master" where
  "new_master sz num_cube_workers mini =
     \<lparr>inbox = (\<lambda>_. []), outbox = [], cubes = [], cube_queue = [],
      cube_of_worker = [], cube_depth_of_worker = [],
      lb_of_worker = replicate sz INT_MIN, ub_of_worker = replicate sz INT_MAX,
      active_workers = 0, pending_init_workers = num_cube_workers,
      sat_found = False, unknown_seen = False, original_worker_active = True,
      original_proved_unsat = False, original_proved_optimum = False,
      sat_found_during_generation = False, feasible_seen = False, stop_sent = False,
      global_best_cost = (if mini then INT_MAX else INT_MIN), global_has_best_cost = False,
      global_lower_bound = INT_MIN, global_learned_from_original = [], global_best_solution = [],
      global_cubes_processed = 0, global_queue_size = 0, total_number_cubes = 0\<rparr>"

section \<open>Sending and receiving\<close>

definition mpi_send :: "nat \<Rightarrow> queue \<Rightarrow> master \<Rightarrow> master" where
  "mpi_send p ms s = s\<lparr>outbox := outbox s @ map (\<lambda>m. (p, m)) ms\<rparr>"

definition recv_from :: "nat \<Rightarrow> (queue \<Rightarrow> ('a \<times> queue) option) \<Rightarrow> master \<Rightarrow> ('a \<times> master) option" where
  "recv_from p f s = map_option (\<lambda>(x, q). (x, s\<lparr>inbox := (inbox s)(p := q)\<rparr>)) (f (inbox s p))"

definition send_stop :: "nat list \<Rightarrow> master \<Rightarrow> master" where
  "send_stop ps s = fold (\<lambda>p. mpi_send p [(TAG_STOP, [1, 0])]) ps s"

text \<open>The messages of \<open>send_work_to_worker\<close> and its effect on the state.\<close>

definition work_messages :: "bool \<Rightarrow> cube_task \<Rightarrow> master \<Rightarrow> queue" where
  "work_messages optimizing task s =
     (let all_learned = insert_all (global_learned_from_original s) (ct_learned task);
          learned = cs_constraints all_learned;
          len = int (length (ct_lits task));
          cube_lb = max (ct_lower_bound task) (global_lower_bound s)
      in (TAG_WORK, [len, ct_split_depth task, int (length learned)])
         # (if len > 0 then [(TAG_WORK, ct_lits task)] else [])
         @ send_constraints TAG_WORK learned
         @ (if optimizing
            then (TAG_WORK, [if global_has_best_cost s then 1 else 0])
                 # (if global_has_best_cost s then [(TAG_WORK, [global_best_cost s])] else [])
                 @ [(TAG_WORK, [cube_lb])]
            else []))"

definition send_work_to_worker :: "nat \<Rightarrow> cube_task \<Rightarrow> bool \<Rightarrow> master \<Rightarrow> master" where
  "send_work_to_worker worker task optimizing s =
     (let s1 = mpi_send worker (work_messages optimizing task s) s
      in if optimizing
         then s1\<lparr>lb_of_worker := (lb_of_worker s)[worker := max (ct_lower_bound task) (global_lower_bound s)],
                 ub_of_worker := (ub_of_worker s)[worker := if global_has_best_cost s then global_best_cost s else INT_MAX]\<rparr>
         else s1)"

section \<open>Incumbent and bounds\<close>

definition bestSolution :: "bool \<Rightarrow> int \<Rightarrow> master \<Rightarrow> bool \<times> master" where
  "bestSolution mini bestCost s =
     (let better = (if mini then bestCost < global_best_cost s else bestCost > global_best_cost s)
      in (better, if better then s\<lparr>global_best_cost := bestCost\<rparr> else s))"

definition record_bounds :: "nat \<Rightarrow> int \<Rightarrow> int \<Rightarrow> master \<Rightarrow> master" where
  "record_bounds src LB UB s =
     (let s = (if src < length (lb_of_worker s)
              then s\<lparr>lb_of_worker := if LB \<noteq> INT_MIN then (lb_of_worker s)[src := LB] else lb_of_worker s,
                     ub_of_worker := if UB \<noteq> INT_MAX then (ub_of_worker s)[src := UB] else ub_of_worker s\<rparr>
              else s)
      in if src = original_worker \<and> LB \<noteq> INT_MIN \<and> LB > global_lower_bound s
         then s\<lparr>global_lower_bound := LB\<rparr> else s)"

definition handle_bounds_report :: "bool \<Rightarrow> nat \<Rightarrow> master \<Rightarrow> master option" where
  "handle_bounds_report mini src s = do {
     (bounds, s) \<leftarrow> recv_from src (mpi_recv TAG_BOUNDS 2) s;
     let LB = bounds ! 0;
     let UB = bounds ! 1;
     let s = record_bounds src LB UB s;
     Some (if UB < INT_MAX
           then let s = s\<lparr>feasible_seen := True\<rparr>
                in if \<not> global_has_best_cost s
                   then s\<lparr>global_best_cost := UB, global_has_best_cost := True\<rparr>
                   else snd (bestSolution mini UB s)
           else s) }"

text \<open>A cost without a solution (result 26), and a cost with the solution that follows it.\<close>

definition announce_cost :: "bool \<Rightarrow> int \<Rightarrow> master \<Rightarrow> master" where
  "announce_cost mini extra s =
     (snd (bestSolution mini extra (s\<lparr>feasible_seen := True\<rparr>)))\<lparr>global_has_best_cost := True\<rparr>"

definition take_incumbent :: "bool \<Rightarrow> nat \<Rightarrow> int \<Rightarrow> master \<Rightarrow> master option" where
  "take_incumbent mini worker extra s =
     (let (improved, s1) = bestSolution mini extra (s\<lparr>feasible_seen := True\<rparr>);
          s2 = s1\<lparr>global_has_best_cost := True\<rparr>
      in do {
        (sol, s3) \<leftarrow> recv_from worker recv_solution s2;
        Some (if improved \<or> global_best_solution s3 = [] then s3\<lparr>global_best_solution := sol\<rparr> else s3) })"

definition handle_best_request :: "nat \<Rightarrow> master \<Rightarrow> master option" where
  "handle_best_request p s = do {
     (dummy, s) \<leftarrow> recv_from p (mpi_recv TAG_BEST_REQUEST 1) s;
     let reply = (if global_has_best_cost s then global_best_cost s else INT_MAX);
     Some (mpi_send p [(TAG_BEST_REPLY, [reply])] s) }"

definition handle_learned_update :: "nat \<Rightarrow> master \<Rightarrow> master option" where
  "handle_learned_update p s = do {
     (new_clauses, s) \<leftarrow> recv_from p (recv_constraints TAG_LEARNED_UPDATE) s;
     Some (s\<lparr>global_learned_from_original := global_learned_from_original s @ new_clauses\<rparr>) }"

section \<open>Results of the original worker\<close>

definition handle_original_result :: "bool \<Rightarrow> bool \<Rightarrow> int \<Rightarrow> nat \<Rightarrow> int \<Rightarrow> master \<Rightarrow> master option" where
  "handle_original_result optimizing mini result worker extra s =
     (if result = 26 then Some (announce_cost mini extra s)
      else let s = s\<lparr>original_worker_active := False\<rparr>
      in if \<not> optimizing
         then if result = 10
              then do {
                (sol, s) \<leftarrow> recv_from worker recv_solution (s\<lparr>sat_found := True\<rparr>);
                Some (s\<lparr>global_best_solution := sol\<rparr>) }
              else if result = 20 then Some (s\<lparr>original_proved_unsat := True\<rparr>)
              else Some (s\<lparr>unknown_seen := True\<rparr>)
         else if result = 10
              then map_option (\<lambda>s. s\<lparr>original_proved_optimum := True\<rparr>) (take_incumbent mini worker extra s)
              else if result = 15 then take_incumbent mini worker extra s
              else if result = 20
              then Some (if feasible_seen s then s\<lparr>original_proved_optimum := True\<rparr>
                         else s\<lparr>original_proved_unsat := True\<rparr>)
              else Some (s\<lparr>unknown_seen := True\<rparr>))"

section \<open>Collecting the initial cubes\<close>

definition initial_task :: "lit list \<Rightarrow> cube_task" where
  "initial_task cube =
     \<lparr>ct_lits = cube, ct_split_depth = 0, ct_learned = empty_constraint_set, ct_lower_bound = INT_MIN\<rparr>"

definition handle_init_result :: "nat \<Rightarrow> master \<Rightarrow> master option" where
  "handle_init_result p s = do {
     (header, s) \<leftarrow> recv_from p (mpi_recv TAG_INIT_RESULT 2) s;
     let s = s\<lparr>pending_init_workers := pending_init_workers s - 1\<rparr>;
     let status = header ! 0;
     let numCubes = header ! 1;
     let s = (if status = 10 then s\<lparr>sat_found_during_generation := True\<rparr> else s);
     (cs, s) \<leftarrow> recv_from p (recv_cubes TAG_INIT_CUBE (nat numCubes)) s;
     Some (s\<lparr>cubes := cubes s @ map initial_task cs\<rparr>) }"

text \<open>One iteration of the first loop, after \<open>MPI_Probe\<close> chose a message of process \<open>p\<close>.\<close>

definition init_step :: "bool \<Rightarrow> bool \<Rightarrow> nat \<Rightarrow> master \<Rightarrow> master option" where
  "init_step optimizing mini p s =
     (case inbox s p of
        [] \<Rightarrow> None
      | (tag, _) # _ \<Rightarrow>
          if tag = TAG_BEST_REQUEST then handle_best_request p s
          else if tag = TAG_BOUNDS then handle_bounds_report mini p s
          else if tag = TAG_LEARNED_UPDATE then handle_learned_update p s
          else if tag = TAG_RESULT
          then do {
            (msg, s) \<leftarrow> recv_from p (mpi_recv TAG_RESULT 3) s;
            let result = msg ! 0;
            let worker = msg ! 1;
            let extra = msg ! 2;
            if worker = int original_worker
            then handle_original_result optimizing mini result (nat worker) extra s
            else Some s }
          else handle_init_result p s)"

section \<open>The queue of cubes\<close>

text \<open>
  \<open>std::priority_queue\<close> promises that \<open>top\<close> is an element none is above, and leaves open which;
  \<open>pick\<close> is that choice, with the law \<open>pick_max\<close>. \<open>first_max\<close> is one that obeys it.
\<close>

definition pick_max :: "(cube_task list \<Rightarrow> nat list \<Rightarrow> nat) \<Rightarrow> bool" where
  "pick_max pick \<longleftrightarrow> (\<forall>cs q. q \<noteq> [] \<longrightarrow> pick cs q \<in> set q
     \<and> (\<forall>i \<in> set q. \<not> ct_lower_bound (cs ! pick cs q) < ct_lower_bound (cs ! i)))"

fun first_max :: "cube_task list \<Rightarrow> nat list \<Rightarrow> nat" where
  "first_max cs [] = 0"
| "first_max cs [i] = i"
| "first_max cs (i # j # q) =
     (let k = first_max cs (j # q)
      in if ct_lower_bound (cs ! i) < ct_lower_bound (cs ! k) then k else i)"

lemma first_max_pick: "pick_max first_max"
  unfolding pick_max_def
proof (intro allI impI)
  fix cs :: "cube_task list" and q :: "nat list"
  show "q \<noteq> [] \<Longrightarrow> first_max cs q \<in> set q
     \<and> (\<forall>i \<in> set q. \<not> ct_lower_bound (cs ! first_max cs q) < ct_lower_bound (cs ! i))"
    by (induction cs q rule: first_max.induct) (auto simp: Let_def)
qed

text \<open>Pop a cube and send it to worker \<open>p\<close>.\<close>

definition assign_cube :: "(cube_task list \<Rightarrow> nat list \<Rightarrow> nat) \<Rightarrow> bool \<Rightarrow> nat \<Rightarrow> master \<Rightarrow> master" where
  "assign_cube pick optimizing p s =
     (let idx = pick (cubes s) (cube_queue s);
          s1 = s\<lparr>cube_queue := remove1 idx (cube_queue s),
                 global_queue_size := global_queue_size s - 1,
                 cube_of_worker := (cube_of_worker s)[p := int idx],
                 cube_depth_of_worker := (cube_depth_of_worker s)[p := ct_split_depth (cubes s ! idx)]\<rparr>
      in send_work_to_worker p (cubes s ! idx) optimizing s1)"

definition release_worker :: "nat \<Rightarrow> master \<Rightarrow> master" where
  "release_worker p s =
     s\<lparr>cube_of_worker := (cube_of_worker s)[p := -1], cube_depth_of_worker := (cube_depth_of_worker s)[p := -1]\<rparr>"

definition add_active :: "int \<Rightarrow> master \<Rightarrow> master" where
  "add_active k s = s\<lparr>active_workers := active_workers s + k\<rparr>"

text \<open>The first distribution, and the one after a split.\<close>

fun dispatch_initial :: "(cube_task list \<Rightarrow> nat list \<Rightarrow> nat) \<Rightarrow> bool \<Rightarrow> nat list \<Rightarrow> master \<Rightarrow> master" where
  "dispatch_initial pick optimizing [] s = s"
| "dispatch_initial pick optimizing (p # ps) s =
     dispatch_initial pick optimizing ps
       (if cube_queue s \<noteq> [] then add_active 1 (assign_cube pick optimizing p s) else release_worker p s)"

fun dispatch_idle :: "(cube_task list \<Rightarrow> nat list \<Rightarrow> nat) \<Rightarrow> bool \<Rightarrow> nat list \<Rightarrow> master \<Rightarrow> master" where
  "dispatch_idle pick optimizing [] s = s"
| "dispatch_idle pick optimizing (p # ps) s =
     (if cube_queue s = [] then s
      else if cube_of_worker s ! p \<noteq> -1 then dispatch_idle pick optimizing ps s
      else dispatch_idle pick optimizing ps (add_active 1 (assign_cube pick optimizing p s)))"

section \<open>After the initial cubes\<close>

datatype global_result =
  Result_SAT | Result_UNSAT | Result_UNKNOWN | Result_OPTIMUM int | Result_BEST_KNOWN int

text \<open>\<open>Inl\<close>: the result is printed and the master returns; \<open>Inr\<close>: it goes on with the main loop.\<close>

definition after_init ::
    "(cube_task list \<Rightarrow> nat list \<Rightarrow> nat) \<Rightarrow> bool \<Rightarrow> nat \<Rightarrow> int \<Rightarrow> master \<Rightarrow> global_result \<times> master + master" where
  "after_init pick optimizing sz num_cube_workers s0 =
     (let n = length (cubes s0);
          s = s0\<lparr>total_number_cubes := int n, global_queue_size := int n\<rparr>
      in if sat_found s \<or> original_proved_unsat s \<or> original_proved_optimum s
         then Inl (if \<not> optimizing then (if sat_found s then Result_SAT else Result_UNSAT)
                   else if original_proved_optimum s then Result_OPTIMUM (global_best_cost s)
                   else Result_UNSAT,
                   send_stop [1..<sz] s)
         else if sat_found_during_generation s \<and> \<not> optimizing
         then Inl (Result_SAT, send_stop [1..<sz] s)
         else if n = 0 \<and> num_cube_workers > 0
         then Inl (Result_UNSAT, send_stop [1..<sz] s)
         else let s1 = s\<lparr>cube_queue := [0..<n], active_workers := 0,
                         cube_of_worker := (replicate sz (-1))[original_worker := ORIGINAL_WORKER_CUBE_MARKER],
                         cube_depth_of_worker := replicate sz (-1)\<rparr>
         in Inr (dispatch_initial pick optimizing [first_cube_worker..<sz] s1))"

section \<open>The main loop\<close>

definition subcube_task :: "int \<Rightarrow> int \<Rightarrow> constraint_set \<Rightarrow> lit list \<Rightarrow> cube_task" where
  "subcube_task depth lb learned subcube =
     \<lparr>ct_lits = subcube, ct_split_depth = depth, ct_learned = learned, ct_lower_bound = lb\<rparr>"

definition push_cube :: "cube_task \<Rightarrow> master \<Rightarrow> master" where
  "push_cube t s = s\<lparr>cubes := cubes s @ [t], cube_queue := cube_queue s @ [length (cubes s)],
                     global_queue_size := global_queue_size s + 1\<rparr>"

definition handle_split ::
    "(cube_task list \<Rightarrow> nat list \<Rightarrow> nat) \<Rightarrow> bool \<Rightarrow> nat \<Rightarrow> nat \<Rightarrow> int \<Rightarrow> master \<Rightarrow> master option" where
  "handle_split pick optimizing sz worker extra s =
     (let parent_cube = cube_of_worker s ! worker;
          child_depth = cube_depth_of_worker s ! worker + 1;
          child_lb = max (lb_of_worker s ! worker) (global_lower_bound s)
      in if parent_cube < 0 \<or> int (length (cubes s)) \<le> parent_cube then None
         else do {
           (new_constraints, s) \<leftarrow> recv_from worker (recv_constraints TAG_SPLIT) s;
           let child_constraints = insert_all new_constraints (ct_learned (cubes s ! nat parent_cube));
           let s = add_active (-1) (release_worker worker s);
           (subs, s) \<leftarrow> recv_from worker (recv_cubes TAG_SPLIT (nat extra)) s;
           let s = fold (\<lambda>sub. push_cube (subcube_task child_depth child_lb child_constraints sub)) subs s;
           let s = s\<lparr>total_number_cubes := int (length (cubes s))\<rparr>;
           Some (dispatch_idle pick optimizing [first_cube_worker..<sz] s) })"

text \<open>A cube is done: the worker gets another one. The flag tells whether the loop is left.\<close>

definition next_cube ::
    "(cube_task list \<Rightarrow> nat list \<Rightarrow> nat) \<Rightarrow> bool \<Rightarrow> nat \<Rightarrow> nat \<Rightarrow> master \<Rightarrow> bool \<times> master" where
  "next_cube pick optimizing sz worker s0 =
     (let s = s0\<lparr>global_cubes_processed := global_cubes_processed s0 + 1\<rparr>
      in if cube_queue s \<noteq> [] then (False, assign_cube pick optimizing worker s)
         else let s = add_active (-1) (release_worker worker s)
         in if active_workers s = 0 then (True, (send_stop [1..<sz] s)\<lparr>stop_sent := True\<rparr>) else (False, s))"

definition handle_cube_result ::
    "(cube_task list \<Rightarrow> nat list \<Rightarrow> nat) \<Rightarrow> bool \<Rightarrow> bool \<Rightarrow> nat \<Rightarrow> int \<Rightarrow> nat \<Rightarrow> int \<Rightarrow> master \<Rightarrow> (bool \<times> master) option" where
  "handle_cube_result pick optimizing mini sz result worker extra s =
     (if result = 25
      then map_option (\<lambda>s. (False, mpi_send worker [(TAG_RESULT, [global_best_cost s])] s))
             (take_incumbent mini worker extra s)
      else if result = 26 then Some (False, announce_cost mini extra s)
      else if result = RES_SPLIT
      then map_option (Pair False) (handle_split pick optimizing sz worker extra s)
      else if result = 10 \<and> \<not> optimizing
      then do {
        (sol, s) \<leftarrow> recv_from worker recv_solution (s\<lparr>sat_found := True\<rparr>);
        Some (False, send_stop (filter (\<lambda>p. p \<noteq> worker) [1..<sz]) (s\<lparr>global_best_solution := sol\<rparr>)) }
      else do {
        s \<leftarrow> (if result = 0 then Some (s\<lparr>unknown_seen := True\<rparr>)
              else if result = 10 \<or> result = 15 then take_incumbent mini worker extra s
              else Some s);
        Some (next_cube pick optimizing sz worker s) })"

definition loop_condition :: "master \<Rightarrow> bool" where
  "loop_condition s \<longleftrightarrow> \<not> sat_found s \<and> \<not> original_proved_unsat s \<and> \<not> original_proved_optimum s
     \<and> (active_workers s > 0 \<or> original_worker_active s)"

definition main_step ::
    "(cube_task list \<Rightarrow> nat list \<Rightarrow> nat) \<Rightarrow> bool \<Rightarrow> bool \<Rightarrow> nat \<Rightarrow> nat \<Rightarrow> master \<Rightarrow> (bool \<times> master) option" where
  "main_step pick optimizing mini sz p s =
     (case inbox s p of
        [] \<Rightarrow> None
      | (tag, _) # _ \<Rightarrow>
          if tag = TAG_BEST_REQUEST then map_option (Pair False) (handle_best_request p s)
          else if tag = TAG_BOUNDS then map_option (Pair False) (handle_bounds_report mini p s)
          else if tag = TAG_LEARNED_UPDATE then map_option (Pair False) (handle_learned_update p s)
          else if tag = TAG_RESULT
          then do {
            (msg, s) \<leftarrow> recv_from p (mpi_recv TAG_RESULT 3) s;
            let result = msg ! 0;
            let worker = nat (msg ! 1);
            let extra = msg ! 2;
            if worker = original_worker
            then map_option (Pair False) (handle_original_result optimizing mini result worker extra s)
            else handle_cube_result pick optimizing mini sz result worker extra s }
          else Some (False, s))"

section \<open>The result\<close>

definition final_result :: "bool \<Rightarrow> master \<Rightarrow> global_result option" where
  "final_result optimizing s =
     (if \<not> optimizing
      then if \<not> sat_found s then Some (if unknown_seen s then Result_UNKNOWN else Result_UNSAT) else None
      else if \<not> feasible_seen s
      then Some (if unknown_seen s then Result_UNKNOWN else Result_UNSAT)
      else Some (if unknown_seen s then Result_BEST_KNOWN (global_best_cost s)
                 else Result_OPTIMUM (global_best_cost s)))"

definition after_loop :: "bool \<Rightarrow> nat \<Rightarrow> master \<Rightarrow> global_result option \<times> master" where
  "after_loop optimizing sz s =
     (final_result optimizing s, if \<not> stop_sent s then send_stop [1..<sz] s else s)"

text \<open>
  The whole of \<open>run_master\<close> along a sequence of events: a message of a process arrives, or
  \<open>MPI_Probe\<close> returns the oldest message of some process. \<open>None\<close>: the events end before the
  master does, or a receive blocks.
\<close>

datatype master_event = Deliver nat message | Probe nat

definition deliver :: "nat \<Rightarrow> message \<Rightarrow> master \<Rightarrow> master" where
  "deliver p m s = s\<lparr>inbox := (inbox s)(p := inbox s p @ [m])\<rparr>"

fun main_loop ::
    "(cube_task list \<Rightarrow> nat list \<Rightarrow> nat) \<Rightarrow> bool \<Rightarrow> bool \<Rightarrow> nat \<Rightarrow> master_event list \<Rightarrow> master \<Rightarrow> master option" where
  "main_loop pick optimizing mini sz es s =
     (if \<not> loop_condition s then Some s
      else case es of
          [] \<Rightarrow> None
        | Deliver p m # es' \<Rightarrow> main_loop pick optimizing mini sz es' (deliver p m s)
        | Probe p # es' \<Rightarrow>
            (case main_step pick optimizing mini sz p s of
               None \<Rightarrow> None
             | Some (stop, s') \<Rightarrow> if stop then Some s' else main_loop pick optimizing mini sz es' s'))"

fun init_loop :: "bool \<Rightarrow> bool \<Rightarrow> master_event list \<Rightarrow> master \<Rightarrow> (master_event list \<times> master) option" where
  "init_loop optimizing mini es s =
     (if \<not> pending_init_workers s > 0 then Some (es, s)
      else case es of
          [] \<Rightarrow> None
        | Deliver p m # es' \<Rightarrow> init_loop optimizing mini es' (deliver p m s)
        | Probe p # es' \<Rightarrow>
            (case init_step optimizing mini p s of
               None \<Rightarrow> None
             | Some s' \<Rightarrow> init_loop optimizing mini es' s'))"

definition run_master ::
    "(cube_task list \<Rightarrow> nat list \<Rightarrow> nat) \<Rightarrow> bool \<Rightarrow> bool \<Rightarrow> nat \<Rightarrow> master_event list \<Rightarrow> (global_result option \<times> master) option" where
  "run_master pick optimizing mini sz es =
     (let num_cube_workers = max 0 (int sz - int first_cube_worker)
      in case init_loop optimizing mini es (new_master sz num_cube_workers mini) of
           None \<Rightarrow> None
         | Some (es', s) \<Rightarrow>
             (case after_init pick optimizing sz num_cube_workers s of
                Inl (r, s') \<Rightarrow> Some (Some r, s')
              | Inr s' \<Rightarrow> map_option (after_loop optimizing sz) (main_loop pick optimizing mini sz es' s')))"

declare main_loop.simps [simp del] init_loop.simps [simp del]

end
