(* ===== verification/Worker.thy ===== *)
theory Worker
  imports Cubes Master Schedule
begin

text \<open>
  The worker processes (\<open>run_original_worker\<close>, \<open>run_cube_worker\<close> and the functions they call in
  \<open>src/src/cubePB.cpp\<close>) over the interface \<open>ISolverBackend\<close>. The state record holds the globals and
  the static locals of a worker process, the queue of messages from the master that were not
  received yet and the list of messages sent to the master. The messages that arrive while a call
  waits, and the clock, are arguments. \<open>None\<close> is a call that throws or never returns.
\<close>

section \<open>The solver interface\<close>

datatype status_solver = INFEASIBLE | NO_SOLUTION_FOUND | SOME_SOLUTION_FOUND | OPTIMUM_FOUND

record cube_solve_result =
  res_status :: status_solver
  hasSolution :: bool
  bestCost :: int
  learned_constraints :: "wconstraint list"
  solution :: "int list"

record 'd worker =
  w_rank :: nat
  w_inbox :: queue
  w_outbox :: queue
  global_stop_flag :: bool
  split_requested_flag :: bool
  current_split_time_limit :: int
  w_best_cost :: int
  w_has_best_cost :: bool
  w_gen :: "'d gen_globals"
  reported_best :: int
  last_sent_lb :: int
  last_sent_ub :: int
  last_imported_best :: int
  sent_learned_count :: nat

text \<open>
  The virtual functions. \<open>op_addBaseProblem\<close> gets the problem by reference and may reorder its
  constraints; \<open>op_solve\<close> calls back into the process, hence the worker state.
\<close>

record ('s, 'd) solver_backend = "'s backend" +
  op_create :: 's
  op_addBaseProblem :: "pbproblem \<Rightarrow> 's \<Rightarrow> (pbproblem \<times> 's) option"
  op_addLearnedConstraints :: "wconstraint list \<Rightarrow> 's \<Rightarrow> 's option"
  op_addCube :: "lit list \<Rightarrow> 's \<Rightarrow> 's option"
  op_addObjective :: "pbproblem \<Rightarrow> 's \<Rightarrow> 's option"
  op_addObjectiveBound :: "pbproblem \<Rightarrow> int \<Rightarrow> 's \<Rightarrow> 's option"
  op_addObjectiveLowerBound :: "pbproblem \<Rightarrow> int \<Rightarrow> 's \<Rightarrow> 's option"
  op_goodClauses :: "'s \<Rightarrow> wconstraint list"
  op_getSolution :: "int \<Rightarrow> 's \<Rightarrow> int list"
  op_solve :: "bool \<Rightarrow> int \<Rightarrow> 's \<Rightarrow> 'd worker \<Rightarrow> (cube_solve_result \<times> 's \<times> 'd worker) option"

definition w_send :: "queue \<Rightarrow> 'd worker \<Rightarrow> 'd worker" where
  "w_send ms w = w\<lparr>w_outbox := w_outbox w @ ms\<rparr>"

definition w_arrive :: "queue \<Rightarrow> 'd worker \<Rightarrow> 'd worker" where
  "w_arrive ms w = w\<lparr>w_inbox := w_inbox w @ ms\<rparr>"

definition w_recv :: "(queue \<Rightarrow> ('b \<times> queue) option) \<Rightarrow> 'd worker \<Rightarrow> ('b \<times> 'd worker) option" where
  "w_recv f w = map_option (\<lambda>(x, q). (x, w\<lparr>w_inbox := q\<rparr>)) (f (w_inbox w))"

lemma w_send_simps [simp]:
  "w_rank (w_send ms w) = w_rank w" "w_inbox (w_send ms w) = w_inbox w" "w_outbox (w_send ms w) = w_outbox w @ ms"
  "global_stop_flag (w_send ms w) = global_stop_flag w" "split_requested_flag (w_send ms w) = split_requested_flag w"
  "w_send ns (w_send ms w) = w_send (ms @ ns) w" "reported_best (w_send ms w) = reported_best w"
  "current_split_time_limit (w_send ms w) = current_split_time_limit w" "w_gen (w_send ms w) = w_gen w"
  "w_best_cost (w_send ms w) = w_best_cost w" "w_has_best_cost (w_send ms w) = w_has_best_cost w"
  by (simp_all add: w_send_def)

section \<open>Callbacks of the solvers\<close>

text \<open>
  The common end of the callbacks: a stop message ends the search, and so does the time limit.
  \<open>overdue limit\<close> tells whether the clock has reached the limit.
\<close>

definition probe_stop :: "(int \<Rightarrow> bool) \<Rightarrow> 'd worker \<Rightarrow> (bool \<times> 'd worker) option" where
  "probe_stop overdue w =
     (if of_tag TAG_STOP (w_inbox w) \<noteq> []
      then do {
        (stopmsg, w) \<leftarrow> w_recv (mpi_recv TAG_STOP 2) w;
        Some (True, w\<lparr>global_stop_flag := True\<rparr>) }
      else if overdue (current_split_time_limit w) then Some (True, w\<lparr>split_requested_flag := True\<rparr>)
      else Some (False, w))"

definition terminate_cb :: "(int \<Rightarrow> bool) \<Rightarrow> int \<Rightarrow> 'd worker \<Rightarrow> (bool \<times> 'd worker) option" where
  "terminate_cb overdue x w =
     (if global_stop_flag w then Some (True, w)
      else probe_stop overdue
             (if x < reported_best w
              then w_send [(TAG_RESULT, [26, int (w_rank w), x])] (w\<lparr>reported_best := x\<rparr>)
              else w))"

definition terminate_decision_cb :: "(int \<Rightarrow> bool) \<Rightarrow> int \<Rightarrow> int \<Rightarrow> 'd worker \<Rightarrow> (bool \<times> 'd worker) option" where
  "terminate_decision_cb overdue LB UB w =
     (let has_info = (LB \<noteq> INT_MIN \<or> UB \<noteq> INT_MAX);
          changed = (LB \<noteq> last_sent_lb w \<or> UB \<noteq> last_sent_ub w);
          w = (if has_info \<and> changed
               then w_send [(TAG_BOUNDS, [LB, UB])] (w\<lparr>last_sent_lb := LB, last_sent_ub := UB\<rparr>) else w)
      in if global_stop_flag w then Some (True, w) else probe_stop overdue w)"

text \<open>
  \<open>report_external_UB\<close>: its static variable is never assigned, so it keeps the value \<open>INT_MAX\<close>.
  The call to \<open>MPI_Probe\<close> has no effect but to wait for some message.
\<close>

definition report_external_UB :: "queue \<Rightarrow> 'd worker \<Rightarrow> (int \<times> 'd worker) option" where
  "report_external_UB arrivals w =
     (let w = w_arrive arrivals (w_send [(TAG_BEST_REQUEST, [0])] w)
      in do {
        (reply, w) \<leftarrow> w_recv (mpi_recv TAG_BEST_REPLY 1) w;
        let best_from_master = reply ! 0;
        Some (if best_from_master \<noteq> INT_MAX \<and> best_from_master < INT_MAX then best_from_master else INT_MAX, w) })"

section \<open>Solving and splitting a cube\<close>

text \<open>A fresh solver with the problem, the learned constraints, the cube and the bounds.\<close>

definition prepare_solver ::
    "('s, 'd) solver_backend \<Rightarrow> pbproblem \<Rightarrow> lit list \<Rightarrow> wconstraint list \<Rightarrow> int \<Rightarrow> bool \<Rightarrow> int \<Rightarrow> bool
       \<Rightarrow> (pbproblem \<times> 's) option" where
  "prepare_solver B problem cube learned best has_best lowerBound optimizing = do {
     (problem, s) \<leftarrow> op_addBaseProblem B problem (op_create B);
     s \<leftarrow> op_addLearnedConstraints B learned s;
     s \<leftarrow> op_addCube B cube s;
     s \<leftarrow> (if optimizing
          then do {
            s \<leftarrow> op_addObjective B problem s;
            s \<leftarrow> (if has_best then op_addObjectiveBound B problem best s else Some s);
            if lowerBound \<noteq> INT_MIN then op_addObjectiveLowerBound B problem lowerBound s else Some s }
          else Some s);
     Some (problem, s) }"

definition solve_cube ::
    "('s, 'd) solver_backend \<Rightarrow> int \<Rightarrow> pbproblem \<Rightarrow> lit list \<Rightarrow> wconstraint list \<Rightarrow> int \<Rightarrow> bool \<Rightarrow> int \<Rightarrow> bool
       \<Rightarrow> 'd worker \<Rightarrow> (cube_solve_result \<times> pbproblem \<times> 'd worker) option" where
  "solve_cube B nVars problem cube learned best has_best lowerBound optimizing w = do {
     (problem, s) \<leftarrow> prepare_solver B problem cube learned best has_best lowerBound optimizing;
     (res, s, w) \<leftarrow> op_solve B optimizing 0 s w;
     let res = (if split_requested_flag w then res\<lparr>learned_constraints := op_goodClauses B s\<rparr> else res);
     let res = (if hasSolution res then res\<lparr>solution := op_getSolution B nVars s\<rparr> else res);
     Some (res, problem, w) }"

definition all_vars :: "int \<Rightarrow> var list" where
  "all_vars nVars = map (\<lambda>i. int i + 1) [0..<nat nVars]"

definition split_cube ::
    "('s, 'd) solver_backend \<Rightarrow> 'd double_ops \<Rightarrow> objective_priority \<Rightarrow> int \<Rightarrow> pbproblem \<Rightarrow> lit list \<Rightarrow> wconstraint list
       \<Rightarrow> int \<Rightarrow> bool \<Rightarrow> int \<Rightarrow> bool \<Rightarrow> 'd worker \<Rightarrow> (lit list list \<times> pbproblem \<times> 'd worker) option" where
  "split_cube B D P nVars problem cube learned best has_best lowerBound optimizing w = do {
     (problem, s) \<leftarrow> prepare_solver B problem cube learned best has_best lowerBound optimizing;
     (locals, g, s) \<leftarrow> generate_cubes (backend.truncate B) D P
        \<lparr>gp_vars = all_vars nVars, gp_nVars = nVars, gp_distributed = False, gp_optimizing = optimizing\<rparr> 0 1 s;
     Some (map (\<lambda>sub. cube @ sub) locals, problem, w\<lparr>w_gen := g\<rparr>) }"

section \<open>The worker of the original problem\<close>

definition original_report :: "bool \<Rightarrow> nat \<Rightarrow> cube_solve_result \<Rightarrow> queue" where
  "original_report optimizing rank res =
     (let code = (if \<not> optimizing
                  then (if res_status res = SOME_SOLUTION_FOUND \<or> res_status res = OPTIMUM_FOUND then 10
                        else if res_status res = INFEASIBLE then 20 else 0)
                  else (if res_status res = OPTIMUM_FOUND then 10
                        else if res_status res = SOME_SOLUTION_FOUND then 15
                        else if res_status res = INFEASIBLE then 20 else 0));
          extra = (if optimizing \<and> res_status res \<in> {OPTIMUM_FOUND, SOME_SOLUTION_FOUND} then bestCost res else 0)
      in (TAG_RESULT, [code, int rank, extra])
         # (if hasSolution res then send_solution (solution res) else []))"

definition run_original_worker ::
    "('s, 'd) solver_backend \<Rightarrow> int \<Rightarrow> pbproblem \<Rightarrow> bool \<Rightarrow> 'd worker \<Rightarrow> 'd worker option" where
  "run_original_worker B nVars problem optimizing w =
     (let w = w\<lparr>global_stop_flag := False, split_requested_flag := False, current_split_time_limit := INT_MAX\<rparr>
      in do {
        (res, problem, w) \<leftarrow> solve_cube B nVars problem [] [] (w_best_cost w) (w_has_best_cost w) INT_MIN optimizing w;
        Some (if \<not> global_stop_flag w then w_send (original_report optimizing (w_rank w) res) w else w) })"

section \<open>The workers of the cubes\<close>

definition base_split_time_limit :: int where "base_split_time_limit = 60"

text \<open>The initial generation and its report.\<close>

definition initial_report :: "bool \<Rightarrow> lit list list \<Rightarrow> queue" where
  "initial_report sat_found_here cs =
     (TAG_INIT_RESULT, [if sat_found_here then 10 else 20, int (length cs)]) # send_cubes TAG_INIT_CUBE cs"

definition initial_generation ::
    "('s, 'd) solver_backend \<Rightarrow> 'd double_ops \<Rightarrow> objective_priority \<Rightarrow> int \<Rightarrow> int \<Rightarrow> bool \<Rightarrow> pbproblem \<Rightarrow> 'd worker
       \<Rightarrow> (pbproblem \<times> 'd worker) option" where
  "initial_generation B D P nVars num_cube_workers optimizing problem w = do {
     (problem, s) \<leftarrow> op_addBaseProblem B problem (op_create B);
     s \<leftarrow> (if optimizing then op_addObjective B problem s else Some s);
     (cs, g, s) \<leftarrow> generate_cubes (backend.truncate B) D P
        \<lparr>gp_vars = all_vars nVars, gp_nVars = nVars, gp_distributed = True, gp_optimizing = optimizing\<rparr>
        (int (w_rank w) - int first_cube_worker) num_cube_workers s;
     let w = w\<lparr>w_gen := g\<rparr>;
     Some (problem, w_send (initial_report (cube_sat_found (w_gen w)) cs) w) }"

text \<open>What the master sent: the end, or a cube with its depth, constraints and lower bound.\<close>

datatype work = Stop | Work "lit list" int constraint_set int

definition recv_header :: "queue \<Rightarrow> ((int \<times> int list) \<times> queue) option" where
  "recv_header q = map_option (\<lambda>(tag, d, q'). ((tag, d), q')) (mpi_recv_any 3 q)"

definition recv_bounds :: "bool \<Rightarrow> 'd worker \<Rightarrow> (int \<times> 'd worker) option" where
  "recv_bounds optimizing w =
     (if optimizing
      then do {
        (has_best_cost_msg, w) \<leftarrow> w_recv (mpi_recv TAG_WORK 1) w;
        w \<leftarrow> (if has_best_cost_msg ! 0 \<noteq> 0
             then do {
               (best, w) \<leftarrow> w_recv (mpi_recv TAG_WORK 1) w;
               Some (w\<lparr>w_best_cost := best ! 0, w_has_best_cost := True\<rparr>) }
             else Some w);
        (lb, w) \<leftarrow> w_recv (mpi_recv TAG_WORK 1) w;
        Some (lb ! 0, w) }
      else Some (INT_MIN, w))"

definition receive_work :: "bool \<Rightarrow> 'd worker \<Rightarrow> (work \<times> 'd worker) option" where
  "receive_work optimizing w = do {
     ((tag, header), w) \<leftarrow> w_recv recv_header w;
     if tag = TAG_STOP then Some (Stop, w)
     else if length header \<noteq> 3 \<or> header ! 0 < 0 then None
     else do {
       let len = header ! 0;
       let split_depth = header ! 1;
       (cube, w) \<leftarrow> (if len > 0 then w_recv (mpi_recv TAG_WORK (nat len)) w else Some ([], w));
       (cs, w) \<leftarrow> w_recv (recv_constraints TAG_WORK) w;
       (cube_lower_bound, w) \<leftarrow> recv_bounds optimizing w;
       Some (Work cube split_depth (insert_all cs empty_constraint_set) cube_lower_bound, w) } }"

text \<open>The report of a cube that was not split, and whether the worker then leaves the loop.\<close>

definition cube_report :: "bool \<Rightarrow> nat \<Rightarrow> cube_solve_result \<Rightarrow> queue \<times> bool" where
  "cube_report optimizing rank res =
     (let msg = (\<lambda>code extra. (TAG_RESULT, [code, int rank, extra]))
      in if \<not> optimizing
         then if res_status res = SOME_SOLUTION_FOUND \<or> res_status res = OPTIMUM_FOUND
              then (msg 10 0 # send_solution (solution res), True)
              else if res_status res = INFEASIBLE then ([msg 20 0], False)
              else ([msg 0 0], False)
         else if res_status res = OPTIMUM_FOUND then (msg 10 (bestCost res) # send_solution (solution res), False)
         else if res_status res = SOME_SOLUTION_FOUND then (msg 15 (bestCost res) # send_solution (solution res), False)
         else if res_status res = INFEASIBLE then ([msg 20 0], False)
         else ([msg 0 0], False))"

text \<open>The reply to a solution found while a split was requested; \<open>arrivals\<close> come while it is awaited.\<close>

definition announce_before_split :: "queue \<Rightarrow> bool \<Rightarrow> cube_solve_result \<Rightarrow> 'd worker \<Rightarrow> (int \<times> bool \<times> 'd worker) option" where
  "announce_before_split arrivals optimizing res w =
     (if optimizing \<and> hasSolution res
      then do {
        let w = w_arrive arrivals
                  (w_send ((TAG_RESULT, [25, int (w_rank w), bestCost res]) # send_solution (solution res)) w);
        (reply, w) \<leftarrow> w_recv (mpi_recv TAG_RESULT 1) w;
        Some (reply ! 0, True, w) }
      else Some (w_best_cost w, w_has_best_cost w, w))"

definition split_messages :: "nat \<Rightarrow> wconstraint list \<Rightarrow> lit list list \<Rightarrow> queue" where
  "split_messages rank learned subcubes =
     (TAG_RESULT, [RES_SPLIT, int rank, int (length subcubes)])
     # send_constraints TAG_SPLIT learned @ send_cubes TAG_SPLIT subcubes"

definition split_report ::
    "('s, 'd) solver_backend \<Rightarrow> 'd double_ops \<Rightarrow> objective_priority \<Rightarrow> int \<Rightarrow> queue \<Rightarrow> bool \<Rightarrow> lit list \<Rightarrow> constraint_set
       \<Rightarrow> int \<Rightarrow> cube_solve_result \<Rightarrow> pbproblem \<Rightarrow> 'd worker \<Rightarrow> (bool \<times> pbproblem \<times> 'd worker) option" where
  "split_report B D P nVars arrivals optimizing cube learned lb res problem w = do {
     (incumbent, has_incumbent, w) \<leftarrow> announce_before_split arrivals optimizing res w;
     let split_constraint_set = insert_all (learned_constraints res) learned;
     (subcubes, problem, w) \<leftarrow> split_cube B D P nVars problem cube (cs_constraints split_constraint_set)
        incumbent has_incumbent lb optimizing w;
     if cube_sat_found (w_gen w) \<and> \<not> optimizing
     then Some (False, problem, w_send [(TAG_RESULT, [10, int (w_rank w), 0])] w)
     else Some (True, problem, w_send (split_messages (w_rank w) (learned_constraints res) subcubes) w) }"

text \<open>
  One iteration of the loop; the flag tells whether the loop goes on. \<open>arrivals\<close> are the messages
  that arrive before the cube has been read, \<open>arrivals'\<close> those that arrive while the worker waits
  for the incumbent.
\<close>

definition worker_iteration ::
    "('s, 'd) solver_backend \<Rightarrow> 'd double_ops \<Rightarrow> objective_priority \<Rightarrow> int \<Rightarrow> bool \<Rightarrow> queue \<times> queue \<Rightarrow> pbproblem
       \<Rightarrow> 'd worker \<Rightarrow> (bool \<times> pbproblem \<times> 'd worker) option" where
  "worker_iteration B D P nVars optimizing arr problem w = do {
     (job, w) \<leftarrow> receive_work optimizing (w_arrive (fst arr) w);
     case job of
       Stop \<Rightarrow> Some (False, problem, w)
     | Work cube split_depth learned lb \<Rightarrow> do {
         let w = w\<lparr>global_stop_flag := False, split_requested_flag := False,
                   current_split_time_limit := compute_split_time_limit base_split_time_limit split_depth\<rparr>;
         (res, problem, w) \<leftarrow> solve_cube B nVars problem cube (cs_constraints learned)
            (w_best_cost w) (w_has_best_cost w) lb optimizing w;
         if global_stop_flag w then Some (False, problem, w)
         else if split_requested_flag w
         then split_report B D P nVars (snd arr) optimizing cube learned lb res problem w
         else let (ms, leave) = cube_report optimizing (w_rank w) res
              in Some (\<not> leave, problem, w_send ms w) } }"

fun worker_loop ::
    "('s, 'd) solver_backend \<Rightarrow> 'd double_ops \<Rightarrow> objective_priority \<Rightarrow> int \<Rightarrow> bool \<Rightarrow> (queue \<times> queue) list
       \<Rightarrow> pbproblem \<Rightarrow> 'd worker \<Rightarrow> 'd worker option" where
  "worker_loop B D P nVars optimizing [] problem w = None"
| "worker_loop B D P nVars optimizing (arr # arrs) problem w =
     (case worker_iteration B D P nVars optimizing arr problem w of
        None \<Rightarrow> None
      | Some (goes_on, problem, w) \<Rightarrow>
          if goes_on then worker_loop B D P nVars optimizing arrs problem w else Some w)"

definition run_cube_worker ::
    "('s, 'd) solver_backend \<Rightarrow> 'd double_ops \<Rightarrow> objective_priority \<Rightarrow> int \<Rightarrow> int \<Rightarrow> bool \<Rightarrow> (queue \<times> queue) list
       \<Rightarrow> pbproblem \<Rightarrow> 'd worker \<Rightarrow> 'd worker option" where
  "run_cube_worker B D P nVars num_cube_workers optimizing arrs problem w = do {
     (problem, w) \<leftarrow> initial_generation B D P nVars num_cube_workers optimizing problem w;
     worker_loop B D P nVars optimizing arrs problem w }"

text \<open>A worker of rank \<open>p\<close>, as it is when it starts.\<close>

definition new_worker :: "nat \<Rightarrow> 'd gen_globals \<Rightarrow> 'd worker" where
  "new_worker p g =
     \<lparr>w_rank = p, w_inbox = [], w_outbox = [], global_stop_flag = False, split_requested_flag = False,
      current_split_time_limit = base_split_time_limit, w_best_cost = INT_MAX, w_has_best_cost = False, w_gen = g,
      reported_best = INT_MAX, last_sent_lb = INT_MIN, last_sent_ub = INT_MAX, last_imported_best = INT_MAX,
      sent_learned_count = 0\<rparr>"

section \<open>What is sent is what is received\<close>

lemma mpi_recv_head [simp]: "length d = n \<Longrightarrow> mpi_recv tag n ((tag, d) # q) = Some (d, q)"
  by simp

lemma recv_constraint_prefix: "recv_constraint tag (send_constraint_loop tag [c] @ q) = Some (c, q)"
proof (cases "lhs c = []")
  case True
  then have "constraint_terms c = []" "getSize c = 0" by (simp_all add: constraint_terms_alt getSize_def)
  then show ?thesis using True WConstraint_vec_back [of c] by (simp add: recv_constraint_def)
next
  case False
  then have ne: "constraint_terms c \<noteq> []" "0 < getSize c"
    using length_constraint_terms [of c] by (auto simp: getSize_def)
  have len: "length (constraint_terms c) = nat (2 * getSize c)"
    by (simp add: length_constraint_terms getSize_def)
  with ne show ?thesis using WConstraint_vec_back [of c] read_terms_concat [of "lhs c"]
    by (simp add: recv_constraint_def constraint_terms_alt [symmetric])
qed

lemma recv_constraint_loop_prefix:
  "recv_constraint_loop tag (length cs) (send_constraint_loop tag cs @ q) = Some (cs, q)"
proof (induction cs)
  case (Cons c cs)
  have "send_constraint_loop tag (c # cs) @ q = send_constraint_loop tag [c] @ send_constraint_loop tag cs @ q" by simp
  with Cons recv_constraint_prefix [of tag c "send_constraint_loop tag cs @ q"] show ?case by simp
qed simp

lemma recv_constraints_prefix: "recv_constraints tag (send_constraints tag cs @ q) = Some (cs, q)"
  by (simp add: recv_constraints_def send_constraints_def recv_constraint_loop_prefix)

lemma insert_all_fresh:
  "distinct (map constraint_key cs) \<Longrightarrow> cs_keys S \<inter> set (map constraint_key cs) = {} \<Longrightarrow>
    insert_all cs S = S\<lparr>cs_constraints := cs_constraints S @ cs, cs_keys := cs_keys S \<union> set (map constraint_key cs)\<rparr>"
proof (induction cs arbitrary: S)
  case (Cons c cs)
  let ?S = "S\<lparr>cs_keys := insert (constraint_key c) (cs_keys S), cs_constraints := cs_constraints S @ [c]\<rparr>"
  have "insert_all cs ?S = ?S\<lparr>cs_constraints := cs_constraints ?S @ cs, cs_keys := cs_keys ?S \<union> set (map constraint_key cs)\<rparr>"
    using Cons.prems by (intro Cons.IH) auto
  then show ?case using Cons.prems by (simp add: Let_def insert_commute Un_commute)
qed simp

lemma insert_all_rebuild: "wf_constraint_set S \<Longrightarrow> insert_all (cs_constraints S) empty_constraint_set = S"
  by (simp add: insert_all_fresh wf_constraint_set_def empty_constraint_set_def)

lemma recv_bounds_sent:
  assumes "w_inbox w =
      (TAG_WORK, [if has then 1 else 0]) # (if has then [(TAG_WORK, [best])] else []) @ [(TAG_WORK, [lb])] @ q"
  shows "recv_bounds True w = Some (lb, (if has then w\<lparr>w_best_cost := best, w_has_best_cost := True\<rparr> else w)\<lparr>w_inbox := q\<rparr>)"
  using assms by (cases has) (simp_all add: recv_bounds_def w_recv_def)

text \<open>
  C20: A worker that reads the messages of \<open>send_work_to_worker\<close> gets what the master had: the
  literals and the depth of the cube, its learned constraints together with those of the original
  worker, the lower bound and the incumbent; nothing after these messages is consumed.
\<close>

theorem work_roundtrip:
  fixes task :: cube_task and m :: master
  defines "L \<equiv> insert_all (global_learned_from_original m) (ct_learned task)"
  assumes wf: "wf_constraint_set (ct_learned task)"
    and inbox: "w_inbox w = work_messages optimizing task m @ q"
  shows "receive_work optimizing w =
    Some (Work (ct_lits task) (ct_split_depth task) L
            (if optimizing then max (ct_lower_bound task) (global_lower_bound m) else INT_MIN),
          (if optimizing \<and> global_has_best_cost m
           then w\<lparr>w_best_cost := global_best_cost m, w_has_best_cost := True\<rparr> else w)\<lparr>w_inbox := q\<rparr>)"
proof -
  have L: "insert_all (cs_constraints L) empty_constraint_set = L"
    unfolding L_def by (rule insert_all_rebuild [OF insert_all_wf [OF wf]])
  define b where "b = (if optimizing
      then (TAG_WORK, [if global_has_best_cost m then 1 else 0])
           # (if global_has_best_cost m then [(TAG_WORK, [global_best_cost m])] else [])
           @ [(TAG_WORK, [max (ct_lower_bound task) (global_lower_bound m)])]
      else [])"
  have ms: "work_messages optimizing task m =
      (TAG_WORK, [int (length (ct_lits task)), ct_split_depth task, int (length (cs_constraints L))])
      # (if ct_lits task \<noteq> [] then [(TAG_WORK, ct_lits task)] else [])
      @ send_constraints TAG_WORK (cs_constraints L) @ b"
    by (simp add: work_messages_def Let_def L_def b_def)
  let ?w = "w\<lparr>w_inbox := b @ q\<rparr>"
  have "recv_bounds optimizing ?w =
      Some (if optimizing then max (ct_lower_bound task) (global_lower_bound m) else INT_MIN,
        (if optimizing \<and> global_has_best_cost m
         then w\<lparr>w_best_cost := global_best_cost m, w_has_best_cost := True\<rparr> else w)\<lparr>w_inbox := q\<rparr>)"
  proof (cases optimizing)
    case True
    then show ?thesis
      using recv_bounds_sent [of ?w "global_has_best_cost m" "global_best_cost m" "max (ct_lower_bound task) (global_lower_bound m)" q]
      by (simp add: b_def)
  next
    case False
    then show ?thesis by (simp add: recv_bounds_def b_def)
  qed
  then show ?thesis
    using recv_constraints_prefix [of TAG_WORK "cs_constraints L" "b @ q"] L
    by (simp add: receive_work_def inbox ms w_recv_def recv_header_def tag_defs)
qed

theorem work_roundtrip_witness:
  "receive_work True ((new_worker 2 \<lparr>theta = (), cube_sat_found = False\<rparr>)
      \<lparr>w_inbox := work_messages True (initial_task [1, -2]) ((new_master 3 1 True)\<lparr>global_lower_bound := 4\<rparr>)\<rparr>)
   = Some (Work [1, -2] 0 empty_constraint_set 4, new_worker 2 \<lparr>theta = (), cube_sat_found = False\<rparr>)"
  using work_roundtrip [of "initial_task [1, -2]"
      "(new_worker 2 \<lparr>theta = (), cube_sat_found = False\<rparr>)
        \<lparr>w_inbox := work_messages True (initial_task [1, -2]) ((new_master 3 1 True)\<lparr>global_lower_bound := 4\<rparr>)\<rparr>"
      True "(new_master 3 1 True)\<lparr>global_lower_bound := 4\<rparr>" "[]"]
  by (simp add: initial_task_def new_master_def new_worker_def)

end
