(* ===== verification/Levels.thy ===== *)
theory Levels
  imports PropagateInv
begin

text \<open>
  The level to which conflict analysis jumps back (\<open>src/src/ConflictAnalysis.cpp\<close>):
  \<open>lowestDLAtWhichConstraintPropagatesOrConflicting\<close> and its case for clauses. The level found is
  the lowest one at which the constraint still propagates or conflicts.
\<close>

section \<open>Definitions\<close>

text \<open>The loop over a clause: largest level, second largest, how many literals have the largest.\<close>

fun clause_levels :: "model \<Rightarrow> lit list \<Rightarrow> int \<Rightarrow> int \<Rightarrow> nat \<Rightarrow> int \<times> int \<times> nat" where
  "clause_levels m [] maxDL secondMaxDL nMax = (maxDL, secondMaxDL, nMax)"
| "clause_levels m (l # ls) maxDL secondMaxDL nMax =
     (let dl = getDLOfLit m l in
      if dl > maxDL then clause_levels m ls dl maxDL 1
      else if dl = maxDL then clause_levels m ls maxDL secondMaxDL (nMax + 1)
      else if dl > secondMaxDL then clause_levels m ls maxDL dl nMax
      else clause_levels m ls maxDL secondMaxDL nMax)"

definition lowestDLAtWhichClausePropagatesOrConflicting :: "model \<Rightarrow> wconstraint \<Rightarrow> int" where
  "lowestDLAtWhichClausePropagatesOrConflicting m c =
     (let (maxDL, secondMaxDL, nMax) = clause_levels m (map snd (lhs c)) (-1) (-1) 0 in
      if nMax = 1 then (if secondMaxDL = -1 then 0 else secondMaxDL)
      else if maxDL \<noteq> currentDecisionLevel m then maxDL
      else -1)"

text \<open>\<open>Triple\<close>: coefficient, literal and decision level of an assigned literal.\<close>

type_synonym triple = "int \<times> lit \<times> int"

fun level_collect :: "model \<Rightarrow> monomial list \<Rightarrow> int \<Rightarrow> int \<Rightarrow> triple list \<Rightarrow> int \<times> int \<times> triple list" where
  "level_collect m [] sl mx acc = (sl, mx, acc)"
| "level_collect m ((coeff, l) # ms) sl mx acc =
     (let sl' = (if \<not> isFalseLit m l then sl + coeff else sl) in
      if isUndefLit m l then level_collect m ms sl' (max mx coeff) acc
      else level_collect m ms sl' mx (acc @ [(coeff, l, getDLOfLit m l)]))"

text \<open>The loop over the sorted triples, which ends at the sentinel.\<close>

fun level_loop :: "model \<Rightarrow> triple list \<Rightarrow> int \<Rightarrow> int \<Rightarrow> int \<Rightarrow> int" where
  "level_loop m ((coeff, l, dl) # (coeff', l', dl') # ts) sl mx best =
     (let sl' = (if isFalseLit m l then sl + coeff else sl); mx' = max mx coeff
      in level_loop m ((coeff', l', dl') # ts) sl' mx' (if dl \<noteq> dl' \<and> sl' - mx' < 0 then dl' else best))"
| "level_loop m _ sl mx best = best"

definition lowestDLAtWhichConstraintPropagatesOrConflicting :: "model \<Rightarrow> wconstraint \<Rightarrow> int" where
  "lowestDLAtWhichConstraintPropagatesOrConflicting m c =
     (if isClause c then lowestDLAtWhichClausePropagatesOrConflicting m c
      else let (sl, mx, ts) = level_collect m (lhs c) (- rhs c) 0 [];
               sorted = sort_key (\<lambda>(_, _, dl). - dl) ts @ [(0, 0, 0)];
               bestSoFar = level_loop m sorted sl mx (snd (snd (hd sorted)))
           in if bestSoFar = decisionLevel m then -1 else bestSoFar)"

section \<open>What a level means\<close>

text \<open>The model after a jump to level \<open>d\<close>: which literals are false, and which are unassigned.\<close>

definition false_at :: "model \<Rightarrow> int \<Rightarrow> lit \<Rightarrow> bool" where
  "false_at m d l \<longleftrightarrow> isFalseLit m l \<and> getDLOfLit m l \<le> d"

definition undef_at :: "model \<Rightarrow> int \<Rightarrow> lit \<Rightarrow> bool" where
  "undef_at m d l \<longleftrightarrow> isUndefLit m l \<or> d < getDLOfLit m l"

definition max_coeff :: "(lit \<Rightarrow> bool) \<Rightarrow> monomial list \<Rightarrow> int \<Rightarrow> int" where
  "max_coeff P ms x = foldr (\<lambda>(a, l) y. if P l then max a y else y) ms x"

lemma max_coeff_simps [simp]:
  "max_coeff P [] x = x" "max_coeff P ((a, l) # ms) x = (if P l then max a (max_coeff P ms x) else max_coeff P ms x)"
  by (simp_all add: max_coeff_def)

text \<open>Conflicting or propagating at level \<open>d\<close>.\<close>

definition active_at :: "model \<Rightarrow> int \<Rightarrow> wconstraint \<Rightarrow> bool" where
  "active_at m d c \<longleftrightarrow> msum (\<lambda>l. \<not> false_at m d l) (lhs c) - rhs c - max_coeff (undef_at m d) (lhs c) 0 < 0"

lemma max_undef_eq: "0 \<le> acc \<Longrightarrow> max_undef m ms acc = max acc (max_coeff (isUndefLit m) ms 0)"
  by (induction m ms acc rule: max_undef.induct) auto

lemma max_coeff_nonneg: "0 \<le> x \<Longrightarrow> 0 \<le> max_coeff P ms x"
  by (induction ms) auto

lemma max_coeff_cong: "(\<And>m. m \<in> set ms \<Longrightarrow> P (snd m) = Q (snd m)) \<Longrightarrow> max_coeff P ms x = max_coeff Q ms x"
proof (induction ms)
  case (Cons p ms)
  then have "P (snd p) = Q (snd p)" "max_coeff P ms x = max_coeff Q ms x" by auto
  then show ?case by (cases p) simp
qed simp

lemma constraint_active:
  "constraintIsConflictingOrPropagating m c \<longleftrightarrow>
     msum (\<lambda>l. \<not> isFalseLit m l) (lhs c) - rhs c - max_coeff (isUndefLit m) (lhs c) 0 < 0"
  by (simp add: constraintIsConflictingOrPropagating_def slack_def max_undef_eq max_coeff_nonneg)

lemma stack_upto_split:
  assumes "dl_chain e st" "x \<in> set st"
  shows "x \<in> set (stack_upto d st) \<longleftrightarrow> se_dl x \<le> d"
proof
  show "x \<in> set (stack_upto d st) \<Longrightarrow> se_dl x \<le> d" by (auto simp: stack_upto_def dest: set_takeWhileD)
  show "se_dl x \<le> d \<Longrightarrow> x \<in> set (stack_upto d st)"
    using assms
  proof (induction st arbitrary: e)
    case (Cons y st)
    have "se_dl y \<le> d"
    proof (cases "x = y")
      case False
      then have "se_dl y \<le> se_dl x" using Cons.prems dl_chain_member [of "se_dl y" st x] by auto
      then show ?thesis using Cons.prems by simp
    qed (use Cons.prems in simp)
    then show ?case using Cons by (auto simp: stack_upto_def)
  qed simp
qed

lemma dl_of_trail_lit:
  assumes "wf_model m" "x \<in> set (modelStack m)"
  shows "getDLOfLit m (se_lit x) = se_dl x" "getDLOfLit m (- se_lit x) = se_dl x"
    "getReasonOfLit m (se_lit x) = se_reason x" "getReasonOfLit m (- se_lit x) = se_reason x"
proof -
  obtain i where i: "i < length (modelStack m)" "modelStack m ! i = x" using assms(2) by (auto simp: in_set_conv_nth)
  show "getDLOfLit m (se_lit x) = se_dl x" using wf_getDLOfLit [OF assms(1) i(1)] i(2) by simp
  then show "getDLOfLit m (- se_lit x) = se_dl x" by (simp add: getDLOfLit_def)
  show "getReasonOfLit m (se_lit x) = se_reason x" using wf_getReasonOfLit [OF assms(1) i(1)] i(2) by simp
  then show "getReasonOfLit m (- se_lit x) = se_reason x" by (simp add: getReasonOfLit_def)
qed

text \<open>After a backjump the model shows exactly what its level says.\<close>

lemma backjump_view:
  assumes "solver_inv s" "0 \<le> d"
  defines "m \<equiv> solver_model s" and "m' \<equiv> solver_model (backjumpToDL d s)"
  shows "isFalseLit m' l \<longleftrightarrow> false_at m d l" "l \<noteq> 0 \<Longrightarrow> isUndefLit m' l \<longleftrightarrow> undef_at m d l"
proof -
  have w: "wf_model m" "wf_model m'" "dl_chain 0 (modelStack m)" and st: "modelStack m' = stack_upto d (modelStack m)"
    using assms(1) backjumpToDL_inv [OF assms(1,2)] by (auto simp: solver_inv_def core_inv_def m_def m'_def wf_model_def)
  have mem: "x \<in> set (tlits m') \<longleftrightarrow> x \<in> set (tlits m) \<and> getDLOfLit m x \<le> d" for x
  proof
    assume "x \<in> set (tlits m')"
    then obtain e where e: "e \<in> set (stack_upto d (modelStack m))" "x = se_lit e" by (auto simp: tlits_def st)
    then have "e \<in> set (modelStack m)" by (auto simp: stack_upto_def dest: set_takeWhileD)
    then show "x \<in> set (tlits m) \<and> getDLOfLit m x \<le> d"
      using e stack_upto_split [OF w(3), of e d] dl_of_trail_lit(1) [OF w(1), of e] by (auto simp: tlits_def)
  next
    assume "x \<in> set (tlits m) \<and> getDLOfLit m x \<le> d"
    then obtain e where e: "e \<in> set (modelStack m)" "x = se_lit e" "getDLOfLit m x \<le> d" by (auto simp: tlits_def)
    then have "e \<in> set (stack_upto d (modelStack m))"
      using stack_upto_split [OF w(3) e(1), of d] dl_of_trail_lit(1) [OF w(1) e(1)] by auto
    then show "x \<in> set (tlits m')" using e by (auto simp: tlits_def st)
  qed
  have neg: "getDLOfLit m (- l) = getDLOfLit m l" by (simp add: getDLOfLit_def)
  show "isFalseLit m' l \<longleftrightarrow> false_at m d l"
    using mem [of "- l"] neg by (simp add: wf_false [OF w(1)] wf_false [OF w(2)] false_at_def)
  show "isUndefLit m' l \<longleftrightarrow> undef_at m d l" if "l \<noteq> 0"
    using mem [of "- l"] mem [of l] neg by (auto simp: wf_undef [OF w(1)] wf_undef [OF w(2)] undef_at_def)
qed

lemma backjump_active:
  assumes "solver_inv s" "0 \<le> d" "nonzero_lits (lhs c)"
  shows "constraintIsConflictingOrPropagating (solver_model (backjumpToDL d s)) c \<longleftrightarrow> active_at (solver_model s) d c"
proof -
  note v = backjump_view [OF assms(1,2)]
  have "msum (\<lambda>l. \<not> isFalseLit (solver_model (backjumpToDL d s)) l) (lhs c) = msum (\<lambda>l. \<not> false_at (solver_model s) d l) (lhs c)"
    by (rule msum_cong) (simp add: v(1))
  moreover have "max_coeff (isUndefLit (solver_model (backjumpToDL d s))) (lhs c) 0 = max_coeff (undef_at (solver_model s) d) (lhs c) 0"
    by (rule max_coeff_cong) (use v(2) assms(3) in \<open>auto simp: nonzero_lits_def\<close>)
  ultimately show ?thesis by (simp add: constraint_active active_at_def)
qed

section \<open>The loop over the levels\<close>

text \<open>The same test on the triples, from a slack and a maximum to start with.\<close>

definition act :: "model \<Rightarrow> int \<Rightarrow> int \<Rightarrow> triple list \<Rightarrow> int \<Rightarrow> bool" where
  "act m sl mx ts d \<longleftrightarrow>
     sl + sum_list (map (\<lambda>t. if isFalseLit m (fst (snd t)) \<and> d < snd (snd t) then fst t else 0) ts)
       - foldr (\<lambda>t y. if d < snd (snd t) then max (fst t) y else y) ts mx < 0"

lemma foldr_max: "foldr (\<lambda>t y. if d < snd (snd t) then max (fst t) y else y) ts (max mx a)
    = max (a::int) (foldr (\<lambda>t y. if d < snd (snd t) then max (fst t) y else y) ts mx)"
  by (induction ts) auto

lemma act_Cons:
  "act m sl mx ((a, l, dl) # ts) d \<longleftrightarrow>
     (if d < dl then act m (if isFalseLit m l then sl + a else sl) (max mx a) ts d else act m sl mx ts d)"
  by (auto simp: act_def foldr_max)

lemma act_low: "(\<And>t. t \<in> set ts \<Longrightarrow> snd (snd t) \<le> d) \<Longrightarrow> act m sl mx ts d \<longleftrightarrow> sl - mx < 0"
proof (induction ts)
  case (Cons t ts)
  then show ?case by (cases t) (force simp: act_Cons)
qed (simp add: act_def)

lemma level_loop_spec:
  assumes "sorted_wrt (\<ge>) (map (snd \<circ> snd) ts)" "\<And>t. t \<in> set ts \<Longrightarrow> 0 \<le> snd (snd t)"
    and "hi = snd (snd (hd (ts @ [(0, 0, 0)])))" "b = level_loop m (ts @ [(0, 0, 0)]) sl mx best"
  shows "(b = best \<or> 0 \<le> b \<and> b < hi \<and> act m sl mx ts b)
    \<and> (\<forall>d. 0 \<le> d \<and> d < hi \<and> (b \<noteq> best \<longrightarrow> d < b) \<and> (best \<ge> hi \<or> b \<noteq> best) \<longrightarrow> \<not> act m sl mx ts d)"
  using assms(1,2) unfolding assms(3,4)
proof (induction ts arbitrary: sl mx best)
  case Nil
  then show ?case by auto
next
  case (Cons t ts)
  obtain a l dl where t: "t = (a, l, dl)" by (cases t)
  define sl' where "sl' = (if isFalseLit m l then sl + a else sl)"
  define mx' where "mx' = max mx a"
  define n where "n = snd (snd (hd (ts @ [(0::int, 0::int, 0::int)])))"
  define best' where "best' = (if dl \<noteq> n \<and> sl' - mx' < 0 then n else best)"
  have srt: "sorted_wrt (\<ge>) (map (snd \<circ> snd) ts)" "\<And>u. u \<in> set ts \<Longrightarrow> 0 \<le> snd (snd u)" "0 \<le> dl"
    "\<And>u. u \<in> set ts \<Longrightarrow> snd (snd u) \<le> dl"
    using Cons.prems(1) Cons.prems(2) [of t] Cons.prems(2) by (auto simp: t comp_def)
  have n: "0 \<le> n" "n \<le> dl" and below: "\<And>u. u \<in> set ts \<Longrightarrow> snd (snd u) \<le> n"
    using srt by (cases ts; fastforce simp: n_def)+
  have unf: "level_loop m ((t # ts) @ [(0, 0, 0)]) sl mx best = level_loop m (ts @ [(0, 0, 0)]) sl' mx' best'"
    by (cases ts) (auto simp: t sl'_def mx'_def best'_def n_def Let_def)
  have ac: "act m sl mx (t # ts) d \<longleftrightarrow> act m sl' mx' ts d" if "d < dl" for d
    using that by (simp add: t act_Cons sl'_def mx'_def)
  have mid: "act m sl mx (t # ts) d \<longleftrightarrow> sl' - mx' < 0" if "n \<le> d" "d < dl" for d
    using that ac [OF that(2)] act_low [of ts d] below by force
  let ?b = "level_loop m (ts @ [(0, 0, 0)]) sl' mx' best'"
  note IH = Cons.IH [OF srt(1,2), of sl' mx' best', folded n_def]
  have hi: "snd (snd (hd ((t # ts) @ [(0, 0, 0)]))) = dl" by (simp add: t)
  show ?case
    unfolding unf hi
  proof (intro conjI allI impI)
    show "?b = best \<or> 0 \<le> ?b \<and> ?b < dl \<and> act m sl mx (t # ts) ?b"
    proof (cases "?b = best'")
      case True
      then show ?thesis using mid [of n] n by (auto simp: best'_def)
    next
      case False
      then have "0 \<le> ?b" "?b < n" "act m sl' mx' ts ?b" using IH by auto
      then show ?thesis using ac n by auto
    qed
    fix d assume d: "0 \<le> d \<and> d < dl \<and> (?b \<noteq> best \<longrightarrow> d < ?b) \<and> (dl \<le> best \<or> ?b \<noteq> best)"
    show "\<not> act m sl mx (t # ts) d"
    proof (cases "d < n")
      case True
      have "(?b \<noteq> best' \<longrightarrow> d < ?b) \<and> (best' \<ge> n \<or> ?b \<noteq> best')"
        using d n by (auto simp: best'_def split: if_splits)
      then have "\<not> act m sl' mx' ts d" using IH True d by auto
      then show ?thesis using ac d by auto
    next
      case False
      have "\<not> sl' - mx' < 0"
      proof
        assume neg: "sl' - mx' < 0"
        show False
        proof (cases "dl = n")
          case True
          then show False using False d by simp
        next
          case ne: False
          then have b': "best' = n" using neg by (simp add: best'_def)
          have "?b \<le> n" using IH b' by auto
          then have "?b = best" using d False by linarith
          then show False using d \<open>?b \<le> n\<close> n ne by linarith
        qed
      qed
      then show ?thesis using mid False d by auto
    qed
  qed
qed


section \<open>The level found\<close>

lemma level_collect_eq:
  "level_collect m ms sl mx acc =
     (sl + msum (\<lambda>l. \<not> isFalseLit m l) ms, max_coeff (isUndefLit m) (rev ms) mx,
      acc @ map (\<lambda>(a, l). (a, l, getDLOfLit m l)) (filter (\<lambda>p. \<not> isUndefLit m (snd p)) ms))"
  by (induction m ms sl mx acc rule: level_collect.induct) (auto simp: Let_def max_coeff_def max.commute)

lemma Max_insert2: "finite A \<Longrightarrow> Max (insert x (insert y A)) = max (y :: int) (Max (insert x A))"
  by (metis Max_insert finite.insertI insert_commute insert_not_empty)

lemma max_coeff_alt: "max_coeff P ms x = Max (insert x (fst ` {p \<in> set ms. P (snd p)}))"
proof (induction ms)
  case (Cons p ms)
  have e: "{q \<in> set (p # ms). P (snd q)} = (if P (snd p) then insert p {q \<in> set ms. P (snd q)} else {q \<in> set ms. P (snd q)})" by auto
  show ?case
  proof (cases "P (snd p)")
    case True
    show ?thesis using Cons True unfolding e by (cases p) (simp add: Max_insert2 del: Max_insert)
  next
    case False
    then show ?thesis using Cons unfolding e by (cases p) simp
  qed
qed simp

lemma max_coeff_set: "set ms = set ns \<Longrightarrow> max_coeff P ms x = max_coeff P ns x"
  by (simp add: max_coeff_alt)

lemma undef_not_false: "isUndefLit m l \<Longrightarrow> \<not> isFalseLit m l"
  by (simp add: isUndefLit_def isFalseLit_def)

lemma act_mset:
  assumes "mset ts = mset us"
  shows "act m sl mx ts d = act m sl mx us d"
proof -
  have s: "sum_list (map f ts) = sum_list (map f us)" for f :: "triple \<Rightarrow> int"
    using assms by (metis mset_map sum_mset_sum_list)
  have f: "foldr (\<lambda>t y. if d < snd (snd t) then max (fst t) y else y) vs mx = Max (insert mx (fst ` {t \<in> set vs. d < snd (snd t)}))"
    for vs :: "triple list"
  proof (induction vs)
    case (Cons t vs)
    have e: "{u \<in> set (t # vs). d < snd (snd u)} = (if d < snd (snd t) then insert t {u \<in> set vs. d < snd (snd u)} else {u \<in> set vs. d < snd (snd u)})" by auto
    show ?case unfolding e using Cons by (simp add: Max_insert2 del: Max_insert)
  qed simp
  show ?thesis unfolding act_def s f using mset_eq_setD [OF assms] by simp
qed

lemma act_active:
  assumes "level_collect m (lhs c) (- rhs c) 0 [] = (sl, mx, ts)"
  shows "act m sl mx ts d \<longleftrightarrow> active_at m d c"
proof -
  let ?as = "filter (\<lambda>p. \<not> isUndefLit m (snd p)) (lhs c)"
  have e: "sl = msum (\<lambda>l. \<not> isFalseLit m l) (lhs c) - rhs c" "mx = max_coeff (isUndefLit m) (lhs c) 0"
    "ts = map (\<lambda>(a, l). (a, l, getDLOfLit m l)) ?as"
    using assms max_coeff_set [of "rev (lhs c)" "lhs c"] by (simp_all add: level_collect_eq)
  have "sum_list (map (\<lambda>t. if isFalseLit m (fst (snd t)) \<and> d < snd (snd t) then fst t else 0)
        (map (\<lambda>(a, l). (a, l, getDLOfLit m l)) (filter (\<lambda>p. \<not> isUndefLit m (snd p)) ms)))
      = msum (\<lambda>l. isFalseLit m l \<and> d < getDLOfLit m l) ms" for ms
    by (induction ms) (auto simp: undef_not_false)
  moreover have "msum (\<lambda>l. \<not> isFalseLit m l) ms + msum (\<lambda>l. isFalseLit m l \<and> d < getDLOfLit m l) ms = msum (\<lambda>l. \<not> false_at m d l) ms" for ms
    by (induction ms) (auto simp: false_at_def)
  moreover have "foldr (\<lambda>t y. if d < snd (snd t) then max (fst t) y else y)
        (map (\<lambda>(a, l). (a, l, getDLOfLit m l)) (filter (\<lambda>p. \<not> isUndefLit m (snd p)) ms)) (max_coeff (isUndefLit m) ms x)
      = max_coeff (undef_at m d) ms x" for ms x
  proof (induction ms)
    case (Cons p ms)
    obtain a l where p: "p = (a, l)" by (cases p)
    show ?case
    proof (cases "isUndefLit m l")
      case True
      then show ?thesis using Cons by (simp add: p undef_at_def foldr_max max.commute [of a])
    next
      case False
      then show ?thesis using Cons by (simp add: p undef_at_def)
    qed
  qed simp
  ultimately show ?thesis unfolding act_def active_at_def e by (metis (no_types, lifting) add.commute add_diff_eq diff_add_eq)
qed

text \<open>A trail literal has a level between zero and the current one.\<close>

lemma dl_bounds:
  assumes "wf_model m" "\<not> isUndefLit m l" "l \<noteq> 0"
  shows "0 \<le> getDLOfLit m l" "getDLOfLit m l \<le> decisionLevel m"
proof -
  have w: "dl_chain 0 (modelStack m)" "decisionLevel m = end_dl 0 (modelStack m)" using assms(1) by (auto simp: wf_model_def)
  have "l \<in> set (tlits m) \<or> - l \<in> set (tlits m)" using assms by (auto simp: wf_undef)
  then obtain e where e: "e \<in> set (modelStack m)" "l = se_lit e \<or> l = - se_lit e"
    by (auto simp: tlits_def image_iff minus_equation_iff [of l])
  then have "getDLOfLit m l = se_dl e" using dl_of_trail_lit [OF assms(1) e(1)] by auto
  then show "0 \<le> getDLOfLit m l" "getDLOfLit m l \<le> decisionLevel m" using dl_chain_member [OF w(1) e(1)] w(2) by auto
qed

lemma constraint_level:
  assumes w: "wf_model m" and nz: "nonzero_lits (lhs c)" and nc: "\<not> isClause c" and f: "slack m c < 0"
    and b: "b = lowestDLAtWhichConstraintPropagatesOrConflicting m c"
  shows "(b = -1 \<or> 0 \<le> b \<and> b < decisionLevel m \<and> active_at m b c) \<and> (\<forall>d. 0 \<le> d \<and> d < decisionLevel m \<and> (b = -1 \<or> d < b) \<longrightarrow> \<not> active_at m d c)"
proof -
  obtain sl mx ts where col: "level_collect m (lhs c) (- rhs c) 0 [] = (sl, mx, ts)" by (metis prod_cases3)
  define us where "us = sort_key (\<lambda>(_, _, dl). - dl) ts"
  define hi where "hi = snd (snd (hd (us @ [(0, 0, 0)])))"
  define b0 where "b0 = level_loop m (us @ [(0, 0, 0)]) sl mx hi"
  have bb: "b = (if b0 = decisionLevel m then -1 else b0)"
    unfolding b lowestDLAtWhichConstraintPropagatesOrConflicting_def using nc col
    by (simp add: Let_def us_def [symmetric] hi_def [symmetric] b0_def [symmetric])
  have ts: "ts = map (\<lambda>(a, l). (a, l, getDLOfLit m l)) (filter (\<lambda>p. \<not> isUndefLit m (snd p)) (lhs c))"
    and slmx: "sl = slack m c" "0 \<le> mx"
    using col by (auto simp: level_collect_eq slack_def max_coeff_nonneg)
  have mem: "t \<in> set us \<Longrightarrow> 0 \<le> snd (snd t) \<and> snd (snd t) \<le> decisionLevel m" for t
    using dl_bounds [OF w] nz by (auto simp: us_def ts nonzero_lits_def)
  have eq: "act m sl mx us d \<longleftrightarrow> active_at m d c" for d
    using act_active [OF col] act_mset [of us ts] by (simp add: us_def)
  have "sorted (map (\<lambda>(_, _, dl). - dl) us)" unfolding us_def by simp
  then have srt: "sorted_wrt (\<ge>) (map (snd \<circ> snd) us)"
    by (simp add: sorted_wrt_map case_prod_unfold)
  note L = level_loop_spec [OF srt _ hi_def b0_def]
  have "us @ [(0, 0, 0)] \<noteq> []" by simp
  have hib: "0 \<le> hi" "hi \<le> decisionLevel m"
    using mem wf_decisionLevel_nonneg [OF w] by (cases us; auto simp: hi_def)+
  have above: "active_at m d c" if "hi \<le> d" for d
  proof -
    have "snd (snd t) \<le> d" if "t \<in> set us" for t
      using that srt \<open>hi \<le> d\<close> by (cases us) (auto simp: hi_def)
    then have "act m sl mx us d \<longleftrightarrow> sl - mx < 0" by (rule act_low)
    then show ?thesis using slmx f eq by simp
  qed
  have A: "b0 = hi \<or> 0 \<le> b0 \<and> b0 < hi \<and> active_at m b0 c"
    and B: "\<And>d. 0 \<le> d \<Longrightarrow> d < hi \<Longrightarrow> b0 \<noteq> hi \<longrightarrow> d < b0 \<Longrightarrow> \<not> active_at m d c"
    using L mem eq by auto
  show ?thesis
  proof (cases "b0 = hi")
    case True
    then show ?thesis using bb above B hib by (cases "hi = decisionLevel m") (auto simp: not_less)
  next
    case False
    then have "b0 < hi" "0 \<le> b0" "active_at m b0 c" using A by auto
    then show ?thesis using bb B False hib by auto
  qed
qed


text \<open>The levels of a clause: the largest one, how often it occurs, and the largest of the others.\<close>

definition levels_of :: "int list \<Rightarrow> int \<Rightarrow> int \<Rightarrow> nat \<Rightarrow> bool" where
  "levels_of ds mx sec n \<longleftrightarrow> (\<forall>x \<in> set ds. 0 \<le> x \<and> x \<le> mx \<and> (x \<noteq> mx \<longrightarrow> x \<le> sec)) \<and> n = length (filter (\<lambda>x. x = mx) ds)
     \<and> (sec = -1 \<or> sec \<in> set ds) \<and> (if ds = [] then mx = -1 \<and> sec = -1 else sec < mx \<and> mx \<in> set ds)"

lemma levels_of_snoc:
  assumes "levels_of ds mx sec n" "0 \<le> d"
  shows "d > mx \<Longrightarrow> levels_of (ds @ [d]) d mx 1" "d = mx \<Longrightarrow> levels_of (ds @ [d]) mx sec (n + 1)"
    "d < mx \<Longrightarrow> d > sec \<Longrightarrow> levels_of (ds @ [d]) mx d n" "d < mx \<Longrightarrow> d \<le> sec \<Longrightarrow> levels_of (ds @ [d]) mx sec n"
proof -
  show "levels_of (ds @ [d]) d mx 1" if "d > mx"
  proof -
    have "filter (\<lambda>x. x = d) ds = []" using assms that by (auto simp: levels_of_def filter_empty_conv)
    then show ?thesis using assms that by (auto simp: levels_of_def split: if_splits)
  qed
  show "levels_of (ds @ [d]) mx sec (n + 1)" if "d = mx" using assms that by (auto simp: levels_of_def split: if_splits)
  show "levels_of (ds @ [d]) mx d n" if "d < mx" "d > sec" using assms that by (fastforce simp: levels_of_def split: if_splits)
  show "levels_of (ds @ [d]) mx sec n" if "d < mx" "d \<le> sec" using assms that by (auto simp: levels_of_def split: if_splits)
qed

lemma clause_levels_spec:
  assumes "levels_of ds mx sec n" "\<And>l. l \<in> set ls \<Longrightarrow> 0 \<le> getDLOfLit m l" "clause_levels m ls mx sec n = (mx', sec', n')"
  shows "levels_of (ds @ map (getDLOfLit m) ls) mx' sec' n'"
  using assms
proof (induction ls arbitrary: ds mx sec n)
  case (Cons l ls)
  define d where "d = getDLOfLit m l"
  have d: "0 \<le> d" using Cons.prems(2) by (simp add: d_def)
  note sn = levels_of_snoc [OF Cons.prems(1) d]
  have ls: "\<And>x. x \<in> set ls \<Longrightarrow> 0 \<le> getDLOfLit m x" using Cons.prems(2) by simp
  have e: "ds @ map (getDLOfLit m) (l # ls) = (ds @ [d]) @ map (getDLOfLit m) ls" by (simp add: d_def)
  consider "d > mx" | "d = mx" | "d < mx" "d > sec" | "d < mx" "d \<le> sec" by linarith
  then show ?case
  proof cases
    case 1
    then show ?thesis unfolding e using Cons.IH [OF sn(1) ls] Cons.prems(3) by (simp add: d_def [symmetric])
  next
    case 2
    then show ?thesis unfolding e using Cons.IH [OF sn(2) ls] Cons.prems(3) by (simp add: d_def [symmetric])
  next
    case 3
    then show ?thesis unfolding e using Cons.IH [OF sn(3) ls] Cons.prems(3) by (simp add: d_def [symmetric])
  next
    case 4
    then show ?thesis unfolding e using Cons.IH [OF sn(4) ls] Cons.prems(3) by (simp add: d_def [symmetric])
  qed
qed simp

lemma two_in_filter:
  "x \<in> set ds \<Longrightarrow> y \<in> set ds \<Longrightarrow> x \<noteq> y \<Longrightarrow> P x \<Longrightarrow> P y \<Longrightarrow> 2 \<le> length (filter P ds)"
proof -
  assume a: "x \<in> set ds" "y \<in> set ds" "x \<noteq> y" "P x" "P y"
  then have "card {x, y} \<le> card (set (filter P ds))" by (intro card_mono) auto
  then show ?thesis using a(3) card_length [of "filter P ds"] by simp
qed

lemma length_filter_imp: "(\<And>x. P x \<Longrightarrow> Q x) \<Longrightarrow> length (filter P ds) \<le> length (filter Q ds)"
  by (induction ds) auto

definition lit_levels :: "model \<Rightarrow> monomial list \<Rightarrow> int list" where
  "lit_levels m ms = map (getDLOfLit m) (map snd ms)"

lemma lit_levels_simps [simp]:
  "lit_levels m [] = []" "lit_levels m (p # ms) = getDLOfLit m (snd p) # lit_levels m ms"
  by (simp_all add: lit_levels_def)

lemma in_lit_levels: "x \<in> set (lit_levels m ms) \<Longrightarrow> \<exists>p \<in> set ms. x = getDLOfLit m (snd p)"
  by (induction ms) auto

text \<open>A falsified clause is active at a level when at most one of its literals is above it.\<close>

lemma clause_active:
  assumes "isClause c" "\<forall>l \<in> snd ` set (lhs c). isFalseLit m l"
  shows "active_at m d c \<longleftrightarrow> length (filter (\<lambda>x. d < x) (lit_levels m (lhs c))) \<le> 1"
proof -
  have one: "\<forall>p \<in> set (lhs c). fst p = 1" "rhs c = 1" using assms(1) by (auto simp: isClause_def all_ones_iff split: if_splits)
  have u: "\<not> isUndefLit m l" if "isFalseLit m l" for l using that undef_not_false by blast
  have "msum (\<lambda>l. \<not> false_at m d l) ms = int (length (filter (\<lambda>x. d < x) (lit_levels m ms)))
      \<and> max_coeff (undef_at m d) ms 0 = (if filter (\<lambda>x. d < x) (lit_levels m ms) = [] then 0 else 1)"
    if "\<forall>p \<in> set ms. fst p = 1 \<and> isFalseLit m (snd p)" for ms
    using that
  proof (induction ms)
    case (Cons p ms)
    then show ?case by (cases p) (auto simp: false_at_def undef_at_def u)
  qed simp
  from this [of "lhs c"] show ?thesis unfolding active_at_def
    using one assms(2) by (cases "filter (\<lambda>x. d < x) (lit_levels m (lhs c))") auto
qed

lemma false_clause:
  assumes "isClause c" "slack m c < 0" "l \<in> snd ` set (lhs c)"
  shows "isFalseLit m l"
proof (rule ccontr)
  assume n: "\<not> isFalseLit m l"
  have pos: "pos_coeffs (lhs c)" "rhs c = 1" using assms(1) by (auto simp: isClause_def all_ones_pos split: if_splits)
  then have "0 < msum (\<lambda>l. \<not> isFalseLit m l) (lhs c)" using msum_pos_iff [OF pos(1)] n assms(3) by auto
  then show False using assms(2) pos(2) by (simp add: slack_def)
qed

lemma clause_level:
  assumes w: "wf_model m" "0 < decisionLevel m" and nz: "nonzero_lits (lhs c)" "lhs c \<noteq> []" and cl: "isClause c" and f: "slack m c < 0"
    and b: "b = lowestDLAtWhichConstraintPropagatesOrConflicting m c"
  shows "(b = -1 \<or> 0 \<le> b \<and> b < decisionLevel m \<and> active_at m b c) \<and> (\<forall>d. 0 \<le> d \<and> d < decisionLevel m \<and> (b = -1 \<or> d < b) \<longrightarrow> \<not> active_at m d c)"
proof -
  define ds where "ds = lit_levels m (lhs c)"
  obtain mx sec n where cv: "clause_levels m (map snd (lhs c)) (-1) (-1) 0 = (mx, sec, n)" by (metis prod_cases3)
  have fl: "\<forall>l \<in> snd ` set (lhs c). isFalseLit m l" using false_clause [OF cl f] by blast
  have bnd: "0 \<le> x \<and> x \<le> decisionLevel m" if x: "x \<in> set ds" for x
  proof -
    obtain p where p: "p \<in> set (lhs c)" "x = getDLOfLit m (snd p)" using in_lit_levels [OF x [unfolded ds_def]] by blast
    then have "\<not> isUndefLit m (snd p)" "snd p \<noteq> 0" using fl nz(1) undef_not_false by (auto simp: nonzero_lits_def)
    then show ?thesis using dl_bounds [OF w(1)] p(2) by blast
  qed
  have lv: "levels_of ds mx sec n"
    using clause_levels_spec [of "[]" "-1" "-1" 0 "map snd (lhs c)" m mx sec n] cv bnd
    by (auto simp: levels_of_def [of "[]"] ds_def lit_levels_def)
  have ne: "ds \<noteq> []" using nz(2) by (simp add: ds_def lit_levels_def)
  then have mx: "mx \<in> set ds" "sec < mx" using lv by (auto simp: levels_of_def)
  have act: "active_at m d c \<longleftrightarrow> length (filter (\<lambda>x. d < x) ds) \<le> 1" for d
    unfolding ds_def by (rule clause_active [OF cl fl])
  have top: "\<not> active_at m d c" if "d < mx" "n \<noteq> 1" for d
  proof -
    have "0 < length (filter (\<lambda>x. x = mx) ds)" using mx(1) by (auto simp: filter_empty_conv)
    moreover have "length (filter (\<lambda>x. x = mx) ds) \<noteq> 1" using lv that(2) by (simp add: levels_of_def)
    ultimately have "2 \<le> length (filter (\<lambda>x. x = mx) ds)" by linarith
    also have "\<dots> \<le> length (filter (\<lambda>x. d < x) ds)" by (rule length_filter_imp) (use that in simp)
    finally show ?thesis by (simp add: act)
  qed
  have low: "\<not> active_at m d c" if "d < sec" "sec \<noteq> -1" for d
    using two_in_filter [of mx ds sec "\<lambda>x. d < x"] mx lv that by (auto simp: levels_of_def act)
  have one: "active_at m d c" if "n = 1" "sec \<le> d" for d
  proof -
    have "length (filter (\<lambda>x. d < x) ds) \<le> length (filter (\<lambda>x. x = mx) ds)"
    proof -
      have "filter (\<lambda>x. d < x) ds = filter (\<lambda>x. d < x) (filter (\<lambda>x. x = mx) ds)"
      proof -
        have "d < x \<longrightarrow> x = mx" if "x \<in> set ds" for x using lv that \<open>sec \<le> d\<close> by (fastforce simp: levels_of_def)
        then show ?thesis by (auto simp: filter_filter intro!: filter_cong)
      qed
      then show ?thesis by (metis length_filter_le)
    qed
    then show ?thesis using lv that(1) by (simp add: act levels_of_def)
  qed
  have all: "active_at m mx c"
  proof -
    have "filter (\<lambda>x. mx < x) ds = []" using lv by (auto simp: filter_empty_conv levels_of_def)
    then show ?thesis by (simp add: act)
  qed
  have bb: "b = (if n = 1 then (if sec = -1 then 0 else sec) else if mx \<noteq> currentDecisionLevel m then mx else -1)"
    unfolding b lowestDLAtWhichConstraintPropagatesOrConflicting_def lowestDLAtWhichClausePropagatesOrConflicting_def
    using cl cv by simp
  have mxb: "0 \<le> mx" "mx \<le> decisionLevel m" using bnd mx by auto
  have secb: "sec = -1 \<or> 0 \<le> sec" using lv bnd by (auto simp: levels_of_def)
  show ?thesis
  proof (cases "n = 1")
    case True
    then show ?thesis using bb one [OF True] low mxb mx(2) secb w(2) by (cases "sec = -1") auto
  next
    case False
    then show ?thesis using bb all top mxb wf_currentDecisionLevel [OF w(1)] by (cases "mx = decisionLevel m") auto
  qed
qed

text \<open>
  C15: For a falsified constraint the level found is the lowest one at which the constraint, once the
  trail is cut back to that level, propagates or is still falsified; -1 means that there is none
  below the current level.
\<close>

theorem backjump_level_lowest:
  assumes "solver_inv s" "0 < decisionLevel (solver_model s)" "nonzero_lits (lhs c)" "lhs c \<noteq> []" "slack (solver_model s) c < 0"
    and "b = lowestDLAtWhichConstraintPropagatesOrConflicting (solver_model s) c"
  shows "(b = -1 \<or> 0 \<le> b \<and> b < decisionLevel (solver_model s) \<and> constraintIsConflictingOrPropagating (solver_model (backjumpToDL b s)) c)
    \<and> (\<forall>d. 0 \<le> d \<and> d < decisionLevel (solver_model s) \<and> (b = -1 \<or> d < b)
         \<longrightarrow> \<not> constraintIsConflictingOrPropagating (solver_model (backjumpToDL d s)) c)"
proof -
  have w: "wf_model (solver_model s)" using assms(1) by (auto simp: solver_inv_def core_inv_def)
  have "(b = -1 \<or> 0 \<le> b \<and> b < decisionLevel (solver_model s) \<and> active_at (solver_model s) b c)
      \<and> (\<forall>d. 0 \<le> d \<and> d < decisionLevel (solver_model s) \<and> (b = -1 \<or> d < b) \<longrightarrow> \<not> active_at (solver_model s) d c)"
    using clause_level [OF w assms(2-4) _ assms(5,6)] constraint_level [OF w assms(3) _ assms(5,6)] by blast
  then show ?thesis using backjump_active [OF assms(1) _ assms(3)] by auto
qed

lemma sample_level: "lowestDLAtWhichConstraintPropagatesOrConflicting (solver_model sample_solver) \<lparr>lhs = [(2, 1), (1, 2)], rhs = 3\<rparr> = 0"
  by code_simp

theorem backjump_level_lowest_witness:
  "constraintIsConflictingOrPropagating (solver_model (backjumpToDL 0 sample_solver)) \<lparr>lhs = [(2, 1), (1, 2)], rhs = 3\<rparr>"
proof -
  have "0 < decisionLevel (solver_model sample_solver)" "slack (solver_model sample_solver) \<lparr>lhs = [(2, 1), (1, 2)], rhs = 3\<rparr> < 0" by code_simp+
  then show ?thesis
    using backjump_level_lowest [OF sample_solver_inv(1) _ _ _ _ sample_level [symmetric]] by simp
qed

end
