(* ===== verification/Shorten.thy ===== *)
theory Shorten
  imports Levels
begin

text \<open>
  \<open>Solver::lemmaShortening\<close> (\<open>src/src/ConflictAnalysis.cpp\<close>): the learned clause loses the literals
  whose falsity follows from the falsity of the others through the implication graph. The vector
  \<open>isMarked\<close> is a list indexed by variables; the literals that the test appends behind the lemma are
  a list of their own. The shortened clause is proved to follow from the database and the lemma.
\<close>

section \<open>Definitions\<close>

text \<open>A variable outside the vector is not touched; no literal of the database is such a variable.\<close>

definition lemmaShorteningAuxFunction :: "model \<Rightarrow> bool \<Rightarrow> lit \<Rightarrow> bool list \<times> lit list \<Rightarrow> bool list \<times> lit list" where
  "lemmaShorteningAuxFunction m filterOutDLZero l x =
     (let (isMarked, extra) = x; v = nat \<bar>l\<bar> in
      if length isMarked \<le> v \<or> isMarked ! v then (isMarked, extra)
      else if filterOutDLZero \<and> getDLOfLit m \<bar>l\<bar> = 0 then (isMarked, extra)
      else (isMarked[v := True], extra @ [l]))"

text \<open>The literals of a reason that the test visits, in the order of the code.\<close>

definition antecedents :: "('a::linorder) solver \<Rightarrow> lit \<Rightarrow> lit list" where
  "antecedents s l = (case getReasonOfLit (solver_model s) l of
     NoReason \<Rightarrow> []
   | BinReason l' \<Rightarrow> [l']
   | ClauseReason n \<Rightarrow> cl_lits (clauses s ! n)
   | PBReason n \<Rightarrow> map snd (filter (\<lambda>p. isFalseLit (solver_model s) (snd p) \<or> \<bar>snd p\<bar> = \<bar>l\<bar>) (pb_lhs (constraintsPB s ! n))))"

definition mark_all :: "('a::linorder) solver \<Rightarrow> lit list \<Rightarrow> bool list \<times> lit list \<Rightarrow> bool list \<times> lit list" where
  "mark_all s ls x = fold (lemmaShorteningAuxFunction (solver_model s) True) ls x"

lemma aux_measure:
  "length (snd (lemmaShorteningAuxFunction m b l x)) + length (filter Not (fst (lemmaShorteningAuxFunction m b l x)))
     = length (snd x) + length (filter Not (fst x))"
proof -
  have upd: "length (filter Not (xs[v := True])) + 1 = length (filter Not xs)" if "v < length xs" "\<not> xs ! v" for xs v
    using that
  proof (induction xs arbitrary: v)
    case (Cons a xs)
    then show ?case by (cases v) auto
  qed simp
  show ?thesis using upd [of "nat \<bar>l\<bar>" "fst x"]
    by (cases x) (auto simp: lemmaShorteningAuxFunction_def Let_def not_le)
qed

lemma mark_all_measure:
  "length (snd (mark_all s ls x)) + length (filter Not (fst (mark_all s ls x))) = length (snd x) + length (filter Not (fst x))"
  unfolding mark_all_def by (induction ls arbitrary: x) (simp_all add: aux_measure)

text \<open>The \<open>while\<close> loop over the appended literals: whether every one passed the test.\<close>

function test_loop :: "('a::linorder) solver \<Rightarrow> int \<Rightarrow> nat \<Rightarrow> bool list \<times> lit list \<Rightarrow> bool \<times> bool list \<times> lit list" where
  "test_loop s lowestDL testingIndex x =
     (if testingIndex < length (snd x)
      then let testingLit = snd x ! testingIndex in
           if getDLOfLit (solver_model s) testingLit < lowestDL \<or> getReasonOfLit (solver_model s) testingLit = NoReason
           then (False, x)
           else test_loop s lowestDL (testingIndex + 1) (mark_all s (antecedents s testingLit) x)
      else (True, x))"
  by pat_completeness auto
termination
proof (relation "measure (\<lambda>(s, d, i, x). length (snd x) + length (filter Not (fst x)) - i)", goal_cases)
  case (2 s d i x l)
  then show ?case using mark_all_measure [of s "antecedents s l" x] by simp
qed simp

declare test_loop.simps [simp del]

definition unmark :: "lit list \<Rightarrow> bool list \<Rightarrow> bool list" where
  "unmark ls isMarked = fold (\<lambda>l mk. mk[nat \<bar>l\<bar> := False]) ls isMarked"

fun shorten_lits :: "('a::linorder) solver \<Rightarrow> int \<Rightarrow> bool \<Rightarrow> lit list \<Rightarrow> bool list \<Rightarrow> lit list \<Rightarrow> bool list \<times> lit list" where
  "shorten_lits s lowestDL first [] isMarked lemmaToLearn = (isMarked, lemmaToLearn)"
| "shorten_lits s lowestDL first (l # ls) isMarked lemmaToLearn =
     (let m = solver_model s in
      if first \<or> isUndefLit m l \<or> getReasonOfLit m l = NoReason
      then shorten_lits s lowestDL False ls isMarked (lemmaToLearn @ [l])
      else if getDLOfLit m l \<noteq> 0
      then let (litIsRedundant, isMarked', extra) = test_loop s lowestDL 0 (mark_all s (antecedents s l) (isMarked, []));
               isMarked'' = unmark (rev extra) isMarked'
           in if litIsRedundant then shorten_lits s lowestDL False ls (unmark [l] isMarked'') lemmaToLearn
              else shorten_lits s lowestDL False ls isMarked'' (lemmaToLearn @ [l])
      else shorten_lits s lowestDL False ls (unmark [l] isMarked) lemmaToLearn)"

text \<open>\<open>isMarked\<close> is all false on entry: every call clears what it has marked.\<close>

definition lemmaShortening :: "('a::linorder) solver \<Rightarrow> lit list \<Rightarrow> lit list" where
  "lemmaShortening s ls =
     (if length ls \<le> 1 then ls
      else if currentDecisionLevel (solver_model s) = 0 then ls
      else let isMarked = fold (\<lambda>l mk. mk[nat \<bar>l\<bar> := True]) ls (replicate (nat (numVars s + 1)) False);
               sorted = hd ls # sort_key (\<lambda>l. - getDLOfLit (solver_model s) l) (tl ls);
               lowestDL = getDLOfLit (solver_model s) (last sorted)
           in snd (shorten_lits s lowestDL True sorted isMarked []))"

section \<open>What is marked\<close>

definition marked :: "bool list \<Rightarrow> var set" where
  "marked mk = {v. 0 \<le> v \<and> nat v < length mk \<and> mk ! nat v}"

lemma marked_set: "0 \<le> v \<Longrightarrow> nat v < length mk \<Longrightarrow> marked (mk[nat v := True]) = insert v (marked mk)"
  by (auto simp: marked_def nth_list_update split: if_splits)

lemma marked_clear: "marked (mk[nat \<bar>l\<bar> := False]) = marked mk - {\<bar>l\<bar>}"
proof -
  have "mk[nat \<bar>l\<bar> := False] ! nat v \<longleftrightarrow> mk ! nat v \<and> v \<noteq> \<bar>l\<bar>" if "0 \<le> v" "nat v < length mk" for v
    using that by (cases "v = \<bar>l\<bar>") (auto simp: nth_list_update nat_eq_iff)
  then show ?thesis by (auto simp: marked_def)
qed

lemma marked_none [simp]: "marked (replicate n False) = {}"
  by (auto simp: marked_def)

lemma unmark_marked: "marked (unmark ls mk) = marked mk - abs ` set ls" "length (unmark ls mk) = length mk"
proof -
  show "marked (unmark ls mk) = marked mk - abs ` set ls"
    unfolding unmark_def by (induction ls arbitrary: mk) (auto simp: marked_clear)
  show "length (unmark ls mk) = length mk"
    unfolding unmark_def by (induction ls arbitrary: mk) auto
qed

text \<open>\<open>M\<close> was marked before the test; the marks are \<open>M\<close> and, disjoint from it, the appended literals.\<close>

definition mark_inv :: "var set \<Rightarrow> nat \<Rightarrow> bool list \<times> lit list \<Rightarrow> bool" where
  "mark_inv M n x \<longleftrightarrow> marked (fst x) = M \<union> abs ` set (snd x) \<and> M \<inter> abs ` set (snd x) = {} \<and> length (fst x) = n"

lemma mark_inv_aux:
  assumes "mark_inv M n x" "nat \<bar>l\<bar> < n" and y_def: "y = lemmaShorteningAuxFunction m True l x"
  shows "mark_inv M n y" "\<exists>new. snd y = snd x @ new \<and> set new \<subseteq> {l}" "\<bar>l\<bar> \<in> marked (fst y) \<or> getDLOfLit m l = 0"
proof -
  obtain mk ex where x: "x = (mk, ex)" by (cases x)
  have dl: "getDLOfLit m \<bar>l\<bar> = getDLOfLit m l" by (simp add: getDLOfLit_def)
  consider "mk ! nat \<bar>l\<bar>" | "\<not> mk ! nat \<bar>l\<bar>" "getDLOfLit m l = 0" | "\<not> mk ! nat \<bar>l\<bar>" "getDLOfLit m l \<noteq> 0" by blast
  then have "mark_inv M n y \<and> (\<exists>new. snd y = snd x @ new \<and> set new \<subseteq> {l}) \<and> (\<bar>l\<bar> \<in> marked (fst y) \<or> getDLOfLit m l = 0)"
  proof cases
    case 1
    then have "y = x" unfolding y_def using assms(1,2) by (simp add: x lemmaShorteningAuxFunction_def)
    moreover have "\<bar>l\<bar> \<in> marked mk" using 1 assms(1,2) by (simp add: marked_def x mark_inv_def)
    ultimately show ?thesis using assms(1) by (simp add: x)
  next
    case 2
    then have "y = x" unfolding y_def using dl by (simp add: x lemmaShorteningAuxFunction_def Let_def)
    then show ?thesis using assms(1) 2 by (simp add: x)
  next
    case 3
    then have y: "y = (mk[nat \<bar>l\<bar> := True], ex @ [l])" unfolding y_def
      using dl assms(1,2) by (simp add: x lemmaShorteningAuxFunction_def mark_inv_def)
    have "marked (mk[nat \<bar>l\<bar> := True]) = insert \<bar>l\<bar> (marked mk)"
      by (rule marked_set) (use assms(1,2) in \<open>auto simp: x mark_inv_def\<close>)
    moreover have "\<bar>l\<bar> \<notin> marked mk" using 3 by (simp add: marked_def)
    ultimately show ?thesis using assms(1) unfolding y by (auto simp: x mark_inv_def)
  qed
  then show "mark_inv M n y" "\<exists>new. snd y = snd x @ new \<and> set new \<subseteq> {l}" "\<bar>l\<bar> \<in> marked (fst y) \<or> getDLOfLit m l = 0" by auto
qed

lemma mark_inv_mono: "mark_inv M n x \<Longrightarrow> mark_inv M n y \<Longrightarrow> snd y = snd x @ new \<Longrightarrow> marked (fst x) \<subseteq> marked (fst y)"
  by (auto simp: mark_inv_def)

lemma mark_all_spec:
  assumes "mark_inv M n x" "\<forall>l \<in> set ls. nat \<bar>l\<bar> < n"
  shows "mark_inv M n (mark_all s ls x) \<and> (\<exists>new. snd (mark_all s ls x) = snd x @ new \<and> set new \<subseteq> set ls)
    \<and> (\<forall>l \<in> set ls. \<bar>l\<bar> \<in> marked (fst (mark_all s ls x)) \<or> getDLOfLit (solver_model s) l = 0)"
  using assms
proof (induction ls arbitrary: x)
  case Nil
  then show ?case by (simp add: mark_all_def)
next
  case (Cons l ls)
  let ?y = "lemmaShorteningAuxFunction (solver_model s) True l x"
  note A = mark_inv_aux [OF Cons.prems(1) _ refl, of l "solver_model s"]
  have l: "nat \<bar>l\<bar> < n" using Cons.prems by simp
  have e: "mark_all s (l # ls) x = mark_all s ls ?y" by (simp add: mark_all_def)
  obtain new where new: "snd ?y = snd x @ new" "set new \<subseteq> {l}" using A(2) [OF l] by blast
  note IH = Cons.IH [OF A(1) [OF l]]
  then obtain new' where new': "snd (mark_all s ls ?y) = snd ?y @ new'" "set new' \<subseteq> set ls" using Cons.prems by auto
  have "mark_inv M n (mark_all s ls ?y)" using IH Cons.prems by auto
  moreover from mark_inv_mono [OF A(1) [OF l] this new'(1)]
  have "\<bar>l\<bar> \<in> marked (fst (mark_all s ls ?y)) \<or> getDLOfLit (solver_model s) l = 0" using A(3) [OF l] by blast
  ultimately show ?case unfolding e using IH Cons.prems new new' by auto
qed

text \<open>A variable is supported: it has a reason all of whose literals are marked or fixed at level zero.\<close>

definition supported :: "('a::linorder) solver \<Rightarrow> var set \<Rightarrow> var \<Rightarrow> bool" where
  "supported s M v \<longleftrightarrow> getReasonOfLit (solver_model s) v \<noteq> NoReason
     \<and> (\<forall>a \<in> set (antecedents s v). \<bar>a\<bar> \<in> M \<or> getDLOfLit (solver_model s) a = 0)"

lemma supported_mono: "supported s M v \<Longrightarrow> M \<subseteq> M' \<Longrightarrow> supported s M' v"
  by (auto simp: supported_def)

lemma var_of_lit: "getReasonOfLit m \<bar>l\<bar> = getReasonOfLit m l" "antecedents s \<bar>l\<bar> = antecedents s l"
proof -
  show r: "getReasonOfLit m \<bar>l\<bar> = getReasonOfLit m l" for m by (simp add: getReasonOfLit_def)
  show "antecedents s \<bar>l\<bar> = antecedents s l" unfolding antecedents_def r abs_idempotent by (rule refl)
qed

lemma test_loop_spec:
  assumes "mark_inv M n x" "\<forall>l. \<forall>a \<in> set (antecedents s l). nat \<bar>a\<bar> < n"
    and "\<forall>y \<in> set (take i (snd x)). supported s (marked (fst x)) \<bar>y\<bar>"
    and "test_loop s lowestDL i x = (ok, x')"
  shows "mark_inv M n x' \<and> (\<exists>new. snd x' = snd x @ new) \<and> (ok \<longrightarrow> (\<forall>y \<in> set (snd x'). supported s (marked (fst x')) \<bar>y\<bar>))"
  using assms
proof (induction s lowestDL i x rule: test_loop.induct)
  case (1 s lowestDL i x)
  show ?case
  proof (cases "i < length (snd x)")
    case False
    then show ?thesis using "1.prems" by (subst (asm) test_loop.simps) auto
  next
    case True
    define l where "l = snd x ! i"
    show ?thesis
    proof (cases "getDLOfLit (solver_model s) l < lowestDL \<or> getReasonOfLit (solver_model s) l = NoReason")
      case fail: True
      then show ?thesis using "1.prems" True by (subst (asm) test_loop.simps) (auto simp: l_def)
    next
      case pass: False
      let ?y = "mark_all s (antecedents s l) x"
      have step: "test_loop s lowestDL (i + 1) ?y = (ok, x')"
        using "1.prems"(4) True pass by (subst (asm) test_loop.simps) (auto simp: l_def Let_def)
      have Y: "mark_inv M n ?y" "\<exists>new. snd ?y = snd x @ new"
        "\<forall>a \<in> set (antecedents s l). \<bar>a\<bar> \<in> marked (fst ?y) \<or> getDLOfLit (solver_model s) a = 0"
        using mark_all_spec [OF "1.prems"(1), of "antecedents s l" s] "1.prems"(2) by blast+
      then obtain new where new: "snd ?y = snd x @ new" by blast
      have sl: "supported s (marked (fst ?y)) \<bar>l\<bar>" using Y(3) pass by (simp add: supported_def var_of_lit)
      have t: "take (i + 1) (snd ?y) = take i (snd x) @ [l]" unfolding new using True by (simp add: l_def take_Suc_conv_app_nth)
      have "\<forall>y \<in> set (take (i + 1) (snd ?y)). supported s (marked (fst ?y)) \<bar>y\<bar>"
        unfolding t using "1.prems"(3) supported_mono [OF _ mark_inv_mono [OF "1.prems"(1) Y(1) new]] sl by auto
      then show ?thesis using "1.IH" [OF True l_def pass Y(1) "1.prems"(2) _ step] new by auto
    qed
  qed
qed


section \<open>What is removed\<close>

text \<open>A removed literal is fixed at level zero or supported by lemma literals and a set of its own.\<close>

definition removable :: "('a::linorder) solver \<Rightarrow> var set \<Rightarrow> var \<Rightarrow> bool" where
  "removable s M v \<longleftrightarrow> getDLOfLit (solver_model s) v = 0
     \<or> (\<exists>V. \<forall>y \<in> insert v V. supported s (M \<union> V) y)"

lemma shorten_lits_spec:
  assumes "shorten_lits s lowestDL first ls mk acc = (mk', res)"
    and "length mk = n" "marked mk = abs ` set (acc @ ls)" "distinct (map abs (acc @ ls))"
    and "abs ` set (acc @ ls) \<subseteq> M" "\<forall>l. \<forall>a \<in> set (antecedents s l). nat \<bar>a\<bar> < n"
  shows "\<exists>kept. res = acc @ kept \<and> set kept \<subseteq> set ls \<and> (first \<and> ls \<noteq> [] \<longrightarrow> kept \<noteq> [] \<and> hd kept = hd ls)
    \<and> marked mk' = abs ` set res \<and> (\<forall>l \<in> set ls - set kept. removable s M \<bar>l\<bar>)"
  using assms(1-5)
proof (induction ls arbitrary: first mk acc)
  case (Cons l ls)
  let ?m = "solver_model s"
  have d: "\<bar>l\<bar> \<notin> abs ` set acc" "\<bar>l\<bar> \<notin> abs ` set ls" using Cons.prems(4) by auto
  note step = Cons.prems(1)
  have keep: ?case if "shorten_lits s lowestDL False ls mk1 (acc @ [l]) = (mk', res)" "length mk1 = n" "marked mk1 = marked mk" for mk1
  proof -
    have "\<exists>kept. res = (acc @ [l]) @ kept \<and> set kept \<subseteq> set ls \<and> (False \<and> ls \<noteq> [] \<longrightarrow> kept \<noteq> [] \<and> hd kept = hd ls)
        \<and> marked mk' = abs ` set res \<and> (\<forall>x \<in> set ls - set kept. removable s M \<bar>x\<bar>)"
      by (rule Cons.IH [OF that(1,2)]) (use Cons.prems that(3) in auto)
    then obtain kept where "res = acc @ (l # kept)" "set kept \<subseteq> set ls" "marked mk' = abs ` set res"
      "\<forall>x \<in> set ls - set kept. removable s M \<bar>x\<bar>" by auto
    then show ?thesis by (intro exI [of _ "l # kept"]) auto
  qed
  have drop: ?case if "shorten_lits s lowestDL False ls (unmark [l] mk1) acc = (mk', res)" "length mk1 = n" "marked mk1 = marked mk"
    "removable s M \<bar>l\<bar>" "\<not> first" for mk1
  proof -
    have "marked (unmark [l] mk1) = insert \<bar>l\<bar> (abs ` set (acc @ ls)) - {\<bar>l\<bar>}" using that(3) Cons.prems(3) by (simp add: unmark_marked)
    also have "\<dots> = abs ` set (acc @ ls)" using d by (simp add: image_Un)
    finally have "marked (unmark [l] mk1) = abs ` set (acc @ ls)" .
    then have "\<exists>kept. res = acc @ kept \<and> set kept \<subseteq> set ls \<and> (False \<and> ls \<noteq> [] \<longrightarrow> kept \<noteq> [] \<and> hd kept = hd ls)
        \<and> marked mk' = abs ` set res \<and> (\<forall>x \<in> set ls - set kept. removable s M \<bar>x\<bar>)"
      by (intro Cons.IH [OF that(1)]) (use Cons.prems that(2) in \<open>auto simp: unmark_marked\<close>)
    then obtain kept where "res = acc @ kept" "set kept \<subseteq> set ls" "marked mk' = abs ` set res"
      "\<forall>x \<in> set ls - set kept. removable s M \<bar>x\<bar>" by auto
    then show ?thesis using that(4,5) by (intro exI [of _ kept]) auto
  qed
  show ?case
  proof (cases "first \<or> isUndefLit ?m l \<or> getReasonOfLit ?m l = NoReason")
    case True
    then show ?thesis using step keep [of mk] Cons.prems(2) by simp
  next
    case False
    show ?thesis
    proof (cases "getDLOfLit ?m l = 0")
      case True
      then have "removable s M \<bar>l\<bar>" by (simp add: removable_def getDLOfLit_def)
      then show ?thesis using step False True drop [of mk] Cons.prems(2) by simp
    next
      case dl: False
      let ?x = "mark_all s (antecedents s l) (mk, [])"
      obtain ok mk1 ex where t: "test_loop s lowestDL 0 ?x = (ok, mk1, ex)" by (metis prod_cases3)
      have i0: "mark_inv (marked mk) n (mk, [])" using Cons.prems(2) by (simp add: mark_inv_def)
      note A = mark_all_spec [OF i0, of "antecedents s l" s]
      have X: "mark_inv (marked mk) n ?x" "\<forall>a \<in> set (antecedents s l). \<bar>a\<bar> \<in> marked (fst ?x) \<or> getDLOfLit ?m a = 0"
        using A assms(6) by blast+
      have T: "mark_inv (marked mk) n (mk1, ex) \<and> (\<exists>new. snd (mk1, ex) = snd ?x @ new)
          \<and> (ok \<longrightarrow> (\<forall>y \<in> set (snd (mk1, ex)). supported s (marked (fst (mk1, ex))) \<bar>y\<bar>))"
        by (rule test_loop_spec [OF X(1) assms(6) _ t]) simp
      then obtain new where new: "snd (mk1, ex) = snd ?x @ new" by blast
      have inv1: "marked mk1 = marked mk \<union> abs ` set ex" "marked mk \<inter> abs ` set ex = {}" "length mk1 = n"
        using T by (auto simp: mark_inv_def)
      have clean: "marked (unmark (rev ex) mk1) = marked mk" "length (unmark (rev ex) mk1) = n"
        using inv1 by (auto simp: unmark_marked)
      have sup: "removable s M \<bar>l\<bar>" if ok
      proof -
        have sub: "marked mk1 \<subseteq> M \<union> abs ` set ex" using inv1(1) Cons.prems(3,5) by blast
        have "supported s (marked mk1) \<bar>l\<bar>"
          using False X(2) mark_inv_mono [OF X(1) T [THEN conjunct1] new] by (auto simp: supported_def var_of_lit)
        then have "\<forall>y \<in> insert \<bar>l\<bar> (abs ` set ex). supported s (M \<union> abs ` set ex) y"
          using T \<open>ok\<close> supported_mono [OF _ sub] by auto
        then show ?thesis unfolding removable_def by blast
      qed
      show ?thesis
      proof (cases ok)
        case True
        then show ?thesis using step False dl t drop [OF _ clean(2,1) sup] by (simp add: Let_def)
      next
        case f: False
        then show ?thesis using step False dl t keep [OF _ clean(2,1)] by (simp add: Let_def)
      qed
    qed
  qed
qed simp

section \<open>The shortened clause is implied\<close>

lemma trail_var_unique:
  assumes "wf_model m" "e \<in> set (modelStack m)" "isFalseLit m l" "\<bar>l\<bar> = \<bar>se_lit e\<bar>"
  shows "se_lit e = - l"
proof -
  have "- l \<in> set (tlits m)" using assms(1,3) by (simp add: wf_false)
  moreover have "se_lit e \<in> set (tlits m)" using assms(2) by (simp add: tlits_def)
  ultimately show ?thesis using assms(4) wf_model_consistent [OF assms(1), of "se_lit e"] by (auto simp: abs_eq_iff)
qed

lemma level_zero_true:
  assumes "core_inv s" "db_sat \<sigma> s" "i < length (modelStack (solver_model s))" "se_dl (modelStack (solver_model s) ! i) = 0"
  shows "lit_true \<sigma> (se_lit (modelStack (solver_model s) ! i))"
proof -
  let ?st = "modelStack (solver_model s)"
  have w: "wf_stack (map se_lit ?st)" "dl_chain 0 ?st" "stack_ok s ?st" "db_ok s"
    using assms(1) by (auto simp: core_inv_def wf_model_def tlits_def trail_ok_stack)
  have sp: "?st = take (Suc i) ?st @ drop (Suc i) ?st" by simp
  have "stack_ok s (take (Suc i) ?st)" by (rule stack_ok_prefix [of s _ "drop (Suc i) ?st"]) (simp add: w(3))
  moreover have "wf_stack (map se_lit (take (Suc i) ?st))"
    using w(1) by (auto simp: wf_stack_def take_map [symmetric] dest: in_set_takeD)
  moreover have ch: "dl_chain 0 (take (Suc i) ?st)" using w(2) by (metis sp dl_chain_append)
  moreover have "end_dl 0 (take (Suc i) ?st) = 0" using assms(3,4) by (simp add: end_dl_def take_Suc_conv_app_nth)
  then have "dec_lits 0 (take (Suc i) ?st) = []" using length_dec_lits [OF ch] by simp
  ultimately have "\<forall>l \<in> set (map se_lit (take (Suc i) ?st)). lit_true \<sigma> l"
    using stack_sound [of s "take (Suc i) ?st" \<sigma>] w(4) assms(2) by simp
  then show ?thesis using assms(3) by (simp add: take_Suc_conv_app_nth)
qed

text \<open>
  With the kept literals false, every trail literal over a variable that is kept, fixed at level
  zero or supported within the set is true.
\<close>

lemma supported_true:
  assumes inv: "core_inv s" and sat: "db_sat \<sigma> s"
    and kept: "\<forall>l \<in> set kept. isFalseLit (solver_model s) l \<and> \<not> lit_true \<sigma> l"
    and C: "\<forall>v \<in> C. v \<in> abs ` set kept \<or> getDLOfLit (solver_model s) v = 0 \<or> supported s C v"
    and i: "i < length (modelStack (solver_model s))" "\<bar>se_lit (modelStack (solver_model s) ! i)\<bar> \<in> C"
  shows "lit_true \<sigma> (se_lit (modelStack (solver_model s) ! i))"
  using i
proof (induction i rule: less_induct)
  case (less i)
  let ?m = "solver_model s" let ?st = "modelStack ?m"
  define e where "e = ?st ! i"
  have w: "wf_model ?m" and db: "db_ok s" and ok: "stack_ok s ?st" using inv by (auto simp: core_inv_def trail_ok_stack)
  have e: "e \<in> set ?st" using less.prems(1) by (simp add: e_def)
  have eo: "elem_ok s (take i ?st) e" using ok less.prems(1) by (simp add: stack_ok_def e_def)
  have nz: "0 \<notin> set (tlits ?m)" by (rule wf_model_zero [OF w])
  have dl: "getDLOfLit ?m \<bar>se_lit e\<bar> = se_dl e" using dl_of_trail_lit(1) [OF w e] by (simp add: getDLOfLit_def)
  have rs: "getReasonOfLit ?m \<bar>se_lit e\<bar> = se_reason e" using dl_of_trail_lit(3) [OF w e] by (simp add: getReasonOfLit_def)
  have below: "lit_true \<sigma> z" if z: "z \<in> set (map se_lit (take i ?st))" "\<bar>z\<bar> \<in> C \<or> getDLOfLit ?m z = 0" for z
  proof -
    obtain j where j: "j < i" "z = se_lit (?st ! j)" "j < length ?st" using z(1) less.prems(1) by (auto simp: in_set_conv_nth)
    have "getDLOfLit ?m z = se_dl (?st ! j)" using wf_getDLOfLit [OF w j(3)] j(2) by simp
    then show ?thesis using z(2) less.IH [OF j(1,3)] level_zero_true [OF inv sat j(3)] j(2) by auto
  qed
  have "\<bar>se_lit e\<bar> \<in> C" using less.prems(2) by (simp add: e_def)
  then consider "\<bar>se_lit e\<bar> \<in> abs ` set kept" | "se_dl e = 0" | "supported s C \<bar>se_lit e\<bar>" using C dl by auto
  then have "lit_true \<sigma> (se_lit e)"
  proof cases
    case 1
    then obtain l where l: "l \<in> set kept" "\<bar>l\<bar> = \<bar>se_lit e\<bar>" by auto
    then have "se_lit e = - l" using trail_var_unique [OF w e] kept by auto
    moreover have "l \<noteq> 0" using l nz e by (auto simp: tlits_def)
    ultimately show ?thesis using kept l by (simp add: lit_true_neg)
  next
    case 2
    then show ?thesis using level_zero_true [OF inv sat less.prems(1)] by (simp add: e_def)
  next
    case 3
    then have r: "se_reason e \<noteq> NoReason" and a: "\<And>a. a \<in> set (antecedents s (se_lit e)) \<Longrightarrow> \<bar>a\<bar> \<in> C \<or> getDLOfLit ?m a = 0"
      using rs by (auto simp: supported_def var_of_lit)
    have rl: "getReasonOfLit ?m (se_lit e) = se_reason e" by (rule dl_of_trail_lit(3) [OF w e])
    have neg: "lit_true \<sigma> (- x)" if "x \<in> set (antecedents s (se_lit e))" "- x \<in> set (map se_lit (take i ?st))" for x
      using below [OF that(2)] a [OF that(1)] by (simp add: getDLOfLit_def)
    have sub: "set (map se_lit (take i ?st)) \<subseteq> set (tlits ?m)" by (auto simp: tlits_def dest: in_set_takeD)
    show ?thesis
    proof (cases "se_reason e")
      case (BinReason l)
      then have b: "se_lit e \<in> set (binClauses s l)" "- l \<in> set (map se_lit (take i ?st))" using eo by (auto simp: elem_ok_def)
      have "l \<in> set (antecedents s (se_lit e))" by (simp add: antecedents_def rl BinReason)
      then have "lit_true \<sigma> (- l)" "l \<noteq> 0" using neg b(2) sub nz by auto
      then show ?thesis using sat b(1) by (auto simp: db_sat_def lit_true_neg)
    next
      case (ClauseReason n)
      let ?c = "cl_lits (clauses s ! n)"
      have c: "n < length (clauses s)" "\<forall>l \<in> set ?c. l \<noteq> se_lit e \<longrightarrow> - l \<in> set (map se_lit (take i ?st))"
        using eo ClauseReason by (auto simp: elem_ok_def)
      then have "clause_sat \<sigma> ?c" using sat by (auto simp: db_sat_def)
      then obtain x where x: "x \<in> set ?c" "lit_true \<sigma> x" by (auto simp: clause_sat_def)
      have "x \<in> set (antecedents s (se_lit e))" using x(1) by (simp add: antecedents_def rl ClauseReason)
      moreover have "x \<noteq> 0" using db c(1) x(1) by (auto simp: db_ok_def cl_ok_def)
      ultimately have "x = se_lit e" using neg c(2) x lit_true_neg by blast
      then show ?thesis using x(2) by simp
    next
      case (PBReason n)
      let ?c = "constraintsPB s ! n"
      obtain k where c: "n < length (constraintsPB s)" "(k, se_lit e) \<in> set (pb_lhs ?c)"
        "msum (\<lambda>l. - l \<notin> set (map se_lit (take i ?st))) (pb_lhs ?c) - pb_rhs ?c < k"
        using eo PBReason by (auto simp: elem_ok_def Let_def)
      then have pb: "pb_ok (numVars s) ?c" "pb_sat \<sigma> ?c" using db sat by (auto simp: db_ok_def db_sat_def)
      define ts where "ts = filter (\<lambda>z. - z \<in> snd ` set (pb_lhs ?c)) (map se_lit (take i ?st))"
      have t: "\<forall>z \<in> set ts. lit_true \<sigma> z"
      proof
        fix z assume "z \<in> set ts"
        then have z: "- z \<in> snd ` set (pb_lhs ?c)" "z \<in> set (map se_lit (take i ?st))" by (auto simp: ts_def)
        then have "isFalseLit ?m (- z)" using sub w by (auto simp: wf_false)
        then have "- z \<in> set (antecedents s (se_lit e))" using z(1) by (force simp: antecedents_def rl PBReason)
        then show "lit_true \<sigma> z" using neg [of "- z"] z(2) by simp
      qed
      have fresh: "- se_lit e \<notin> set ts"
        using sub wf_model_consistent [OF w, of "se_lit e"] e by (auto simp: ts_def tlits_def)
      have "msum (\<lambda>l. - l \<notin> set ts) (pb_lhs ?c) = msum (\<lambda>l. - l \<notin> set (map se_lit (take i ?st))) (pb_lhs ?c)"
        by (rule msum_cong) (auto simp: ts_def)
      then have low: "msum (\<lambda>l. - l \<notin> set ts) (pb_lhs ?c) - pb_rhs ?c < k" using c(3) by simp
      have z0: "0 \<notin> set ts" using sub nz by (auto simp: ts_def)
      show ?thesis
        by (rule pb_reason_forces [OF pb(2) _ _ t z0 c(2) fresh low]) (use pb(1) in \<open>auto simp: pb_ok_def\<close>)
    qed (use r in simp)
  qed
  then show ?case by (simp add: e_def)
qed


lemma antecedents_range:
  assumes "core_inv s" "modelStack (solver_model s) \<noteq> []" "a \<in> set (antecedents s l)"
  shows "nat \<bar>a\<bar> < nat (numVars s + 1)"
proof -
  let ?m = "solver_model s" let ?st = "modelStack ?m"
  have inv: "wf_model ?m" "db_ok s" "stack_ok s ?st" "trail_range s" using assms(1) by (auto simp: core_inv_def trail_ok_stack)
  define i where "i = nat (getHeightOfVar ?m \<bar>l\<bar>)"
  have i: "i < length ?st"
  proof (cases "\<bar>l\<bar> \<in> abs ` set (tlits ?m)")
    case True
    then obtain e where e: "e \<in> set ?st" "\<bar>l\<bar> = \<bar>se_lit e\<bar>" by (auto simp: tlits_def)
    then obtain j where "j < length ?st" "?st ! j = e" by (auto simp: in_set_conv_nth)
    then show ?thesis using wf_model_height [OF inv(1)] e(2) by (auto simp: i_def getHeightOfVar_def)
  next
    case False
    then show ?thesis using inv(1) assms(2) by (simp add: i_def getHeightOfVar_def wf_model_def)
  qed
  have r: "getReasonOfLit ?m l = se_reason (?st ! i)" by (simp add: getReasonOfLit_def i_def)
  have eo: "elem_ok s (take i ?st) (?st ! i)" using inv(3) i by (simp add: stack_ok_def)
  have "\<bar>a\<bar> \<le> numVars s"
  proof (cases "se_reason (?st ! i)")
    case NoReason
    then show ?thesis using assms(3) by (simp add: antecedents_def r)
  next
    case (PBReason n)
    then have "constraintsPB s ! n \<in> set (constraintsPB s)" using eo by (simp add: elem_ok_def)
    then show ?thesis using inv(2) assms(3) PBReason by (auto simp: antecedents_def r db_ok_def pb_ok_def)
  next
    case (ClauseReason n)
    then have "clauses s ! n \<in> set (clauses s)" using eo by (simp add: elem_ok_def)
    then show ?thesis using inv(2) assms(3) ClauseReason by (auto simp: antecedents_def r db_ok_def cl_ok_def)
  next
    case (BinReason x)
    then have "- x \<in> set (tlits ?m)" using eo by (auto simp: elem_ok_def tlits_def dest: in_set_takeD)
    then show ?thesis using inv(4) assms(3) BinReason by (force simp: antecedents_def r trail_range_def)
  qed
  then show ?thesis by simp
qed

lemma lemmaShortening_facts:
  assumes inv: "core_inv s" and fl: "\<forall>l \<in> set ls. isFalseLit (solver_model s) l" and d: "distinct (map abs ls)" and ne: "ls \<noteq> []"
  defines "res \<equiv> lemmaShortening s ls"
  shows "set res \<subseteq> set ls" "res \<noteq> []" "hd res = hd ls"
    "db_sat \<sigma> s \<Longrightarrow> clause_sat \<sigma> ls \<Longrightarrow> clause_sat \<sigma> res"
proof -
  let ?m = "solver_model s" let ?st = "modelStack ?m"
  have w: "wf_model ?m" "trail_range s" using inv by (auto simp: core_inv_def)
  have "set res \<subseteq> set ls \<and> res \<noteq> [] \<and> hd res = hd ls \<and> (db_sat \<sigma> s \<longrightarrow> clause_sat \<sigma> ls \<longrightarrow> clause_sat \<sigma> res)"
  proof (cases "length ls \<le> 1 \<or> currentDecisionLevel ?m = 0")
    case True
    then show ?thesis using ne by (auto simp: res_def lemmaShortening_def)
  next
    case False
    define mk where "mk = fold (\<lambda>l mk. mk[nat \<bar>l\<bar> := True]) ls (replicate (nat (numVars s + 1)) False)"
    define sorted where "sorted = hd ls # sort_key (\<lambda>l. - getDLOfLit ?m l) (tl ls)"
    have st: "?st \<noteq> []" using False by (auto simp: currentDecisionLevel_def)
    have sl: "set sorted = set ls" "mset sorted = mset ls" using ne by (cases ls; simp add: sorted_def)+
    have "mset (map abs sorted) = mset (map abs ls)" using sl(2) by (simp add: mset_map)
    then have ds: "distinct (map abs sorted)" using d by (metis mset_eq_imp_distinct_iff)
    have rng: "nat \<bar>l\<bar> < nat (numVars s + 1)" if "l \<in> set ls" for l
    proof -
      have "- l \<in> set (tlits ?m)" using fl that w(1) by (simp add: wf_false)
      then have "\<bar>l\<bar> \<le> numVars s" using w(2) by (force simp: trail_range_def)
      then show ?thesis by simp
    qed
    have fm: "marked (fold (\<lambda>l mk. mk[nat \<bar>l\<bar> := True]) xs k) = marked k \<union> abs ` set xs
        \<and> length (fold (\<lambda>l mk. mk[nat \<bar>l\<bar> := True]) xs k) = length k"
      if "\<forall>l \<in> set xs. nat \<bar>l\<bar> < length k" for xs :: "lit list" and k
      using that
    proof (induction xs arbitrary: k)
      case (Cons x xs)
      then show ?case by (auto simp: marked_set)
    qed simp
    have mk: "marked mk = abs ` set ([] @ sorted)" "length mk = nat (numVars s + 1)"
      using fm [of ls "replicate (nat (numVars s + 1)) False"] rng by (auto simp: mk_def sl)
    obtain mk' where run: "shorten_lits s (getDLOfLit ?m (last sorted)) True sorted mk [] = (mk', res)"
      using False by (auto simp: res_def lemmaShortening_def mk_def sorted_def Let_def prod_eq_iff)
    have "\<exists>kept. res = [] @ kept \<and> set kept \<subseteq> set sorted \<and> (True \<and> sorted \<noteq> [] \<longrightarrow> kept \<noteq> [] \<and> hd kept = hd sorted)
        \<and> marked mk' = abs ` set res \<and> (\<forall>l \<in> set sorted - set kept. removable s (abs ` set ls) \<bar>l\<bar>)"
      by (rule shorten_lits_spec [OF run mk(2,1)]) (use ds sl antecedents_range [OF inv st] in auto)
    then have R: "set res \<subseteq> set ls" "res \<noteq> []" "hd res = hd ls" "\<forall>l \<in> set ls - set res. removable s (abs ` set ls) \<bar>l\<bar>"
      using sl by (auto simp: sorted_def)
    have "clause_sat \<sigma> res" if \<sigma>: "db_sat \<sigma> s" "clause_sat \<sigma> ls"
    proof (rule ccontr)
      assume n: "\<not> clause_sat \<sigma> res"
      define C where "C = abs ` set ls \<union> \<Union> {V. \<exists>l \<in> set ls. \<forall>y \<in> insert \<bar>l\<bar> V. supported s (abs ` set ls \<union> V) y}"
      have sup: "supported s C y" if "\<forall>y \<in> insert \<bar>l\<bar> V. supported s (abs ` set ls \<union> V) y" "l \<in> set ls" "y \<in> insert \<bar>l\<bar> V" for l V y
      proof -
        have "abs ` set ls \<union> V \<subseteq> C" unfolding C_def using that by blast
        then show ?thesis using that(1,3) supported_mono by blast
      qed
      have C: "\<forall>v \<in> C. v \<in> abs ` set res \<or> getDLOfLit ?m v = 0 \<or> supported s C v"
      proof
        fix v assume "v \<in> C"
        then consider l where "l \<in> set ls" "v = \<bar>l\<bar>"
          | l V where "l \<in> set ls" "\<forall>y \<in> insert \<bar>l\<bar> V. supported s (abs ` set ls \<union> V) y" "v \<in> V"
          unfolding C_def by blast
        then show "v \<in> abs ` set res \<or> getDLOfLit ?m v = 0 \<or> supported s C v"
        proof cases
          case (1 l)
          show ?thesis
          proof (cases "l \<in> set res")
            case False
            then have "removable s (abs ` set ls) \<bar>l\<bar>" using R(4) 1 by blast
            then show ?thesis using sup 1 unfolding removable_def by blast
          qed (use 1 in auto)
        next
          case (2 l V)
          then show ?thesis using sup [OF 2(2,1)] by blast
        qed
      qed
      have kept: "\<forall>l \<in> set res. isFalseLit ?m l \<and> \<not> lit_true \<sigma> l" using n R(1) fl by (auto simp: clause_sat_def)
      obtain x where x: "x \<in> set ls" "lit_true \<sigma> x" using \<sigma>(2) by (auto simp: clause_sat_def)
      have "- x \<in> set (tlits ?m)" using fl x(1) w(1) by (simp add: wf_false)
      then obtain i where i: "i < length ?st" "se_lit (?st ! i) = - x" by (auto simp: tlits_def in_set_conv_nth)
      have "\<bar>se_lit (?st ! i)\<bar> \<in> C" using i(2) x(1) by (auto simp: C_def)
      then have "lit_true \<sigma> (- x)" using supported_true [OF inv \<sigma>(1) kept C i(1)] i(2) by simp
      moreover have "x \<noteq> 0" using \<open>- x \<in> set (tlits ?m)\<close> wf_model_zero [OF w(1)] by auto
      ultimately show False using x(2) lit_true_neg by blast
    qed
    then show ?thesis using R by blast
  qed
  then show "set res \<subseteq> set ls" "res \<noteq> []" "hd res = hd ls" "db_sat \<sigma> s \<Longrightarrow> clause_sat \<sigma> ls \<Longrightarrow> clause_sat \<sigma> res" by auto
qed

text \<open>
  C16: Shortening keeps the first literal and only drops others, and every solution of the database
  that satisfies the learned clause satisfies the shortened one.
\<close>

theorem lemma_shortening_sound:
  assumes "solver_inv s" "\<forall>l \<in> set ls. isFalseLit (solver_model s) l" "distinct (map abs ls)" "ls \<noteq> []"
  shows "set (lemmaShortening s ls) \<subseteq> set ls \<and> hd (lemmaShortening s ls) = hd ls
    \<and> (\<forall>\<sigma>. db_sat \<sigma> s \<and> clause_sat \<sigma> ls \<longrightarrow> clause_sat \<sigma> (lemmaShortening s ls))"
  using lemmaShortening_facts [OF _ assms(2-4)] assms(1) by (auto simp: solver_inv_def)


text \<open>\<open>x1\<close> decided, \<open>x2\<close> propagated by a binary clause, \<open>x3\<close> decided: \<open>-2\<close> is dropped.\<close>

definition sample_chain :: "nat solver" where
  "sample_chain = setTrueDueToDecision 3 (setTrueDueToReason 2 (BinReason (-1)) (setTrueDueToDecision 1 (addBinaryClause (-1) 2 (new_solver 1 3))))"

lemma sample_chain_inv: "solver_inv sample_chain"
proof -
  let ?a = "addBinaryClause (-1) 2 (new_solver (1::nat) 3)"
  have a: "solver_inv ?a" by (rule addBinaryClause_inv(1)) (simp_all add: new_solver_inv, simp_all add: new_solver_def)
  let ?b = "setTrueDueToDecision 1 ?a"
  have b: "solver_inv ?b"
    by (rule push_decision_inv [OF a]) (simp_all add: new_solver_def isUndefLit_def new_model_def)
  let ?c = "setTrueDueToReason 2 (BinReason (-1)) ?b"
  have c: "solver_inv ?c"
    by (rule push_reason_inv [OF b])
       (simp_all add: new_solver_def isUndefLit_def new_model_def elem_ok_def Model_setTrueDueToDecision_def push_lit_def addBinaryClause_lists
          setTrueDueToDecision_def)
  show ?thesis unfolding sample_chain_def
    by (rule push_decision_inv [OF c])
       (simp_all add: new_solver_def isUndefLit_def new_model_def Model_setTrueDueToDecision_def Model_setTrueDueToReason_def push_lit_def
          setTrueDueToDecision_def setTrueDueToReason_def)
qed

lemma sample_chain_run: "lemmaShortening sample_chain [-3, -2, -1] = [-3, -1]"
  by code_simp

theorem lemma_shortening_sound_witness:
  "set (lemmaShortening sample_chain [-3, -2, -1]) \<subseteq> {-3, -2, -1} \<and> hd (lemmaShortening sample_chain [-3, -2, -1]) = -3
    \<and> lemmaShortening sample_chain [-3, -2, -1] = [-3, -1]"
proof -
  have "\<forall>l \<in> set [-3, -2, -1]. isFalseLit (solver_model sample_chain) l" by code_simp
  then show ?thesis
    using lemma_shortening_sound [OF sample_chain_inv, of "[-3, -2, -1]"] sample_chain_run by simp
qed

end
