(* ===== verification/Cut.thy ===== *)
theory Cut
  imports Solver BinarySearch
begin

text \<open>
  The arithmetic of conflict analysis (\<open>src/src/ConflictAnalysis.cpp\<close>): \<open>applyCut\<close> eliminates a
  variable from a conflicting constraint and a reason, \<open>fixRoundingProblemSAT\<close> weakens one of them
  to a clause when the cut is not falsified, \<open>removeUnits\<close> drops the literals fixed at level zero,
  \<open>computeLBD\<close> counts decision levels. The template parameter of \<open>applyCut\<close> is the conversion
  of an integer to its type. The result is that the cut is implied, and that after at most two
  weakenings it is falsified.
\<close>

section \<open>Adding two constraints\<close>

text \<open>
  The loops of \<open>applyCut\<close>: monomials in the order of their variables, the constant so far, whether a
  variable other than the eliminated one occurs in both, and the monomials collected.
\<close>

fun cut_merge :: "(int \<Rightarrow> int) \<Rightarrow> var \<Rightarrow> int \<Rightarrow> int \<Rightarrow> monomial list \<Rightarrow> monomial list \<Rightarrow> int \<Rightarrow> bool \<Rightarrow> monomial list
    \<Rightarrow> monomial list \<times> int \<times> bool" where
  "cut_merge T v k1 k2 ((a, l) # ms) ((b, m) # ns) k clash acc =
     (if \<bar>l\<bar> < \<bar>m\<bar> then cut_merge T v k1 k2 ms ((b, m) # ns) k clash (acc @ [(T (k1 * a), l)])
      else if \<bar>m\<bar> < \<bar>l\<bar> then cut_merge T v k1 k2 ((a, l) # ms) ns k clash (acc @ [(T (k2 * b), m)])
      else let clash' = (clash \<or> \<bar>l\<bar> \<noteq> v)
        in if l \<noteq> m
           then if T (k1 * a) \<ge> T (k2 * b)
                then let c = T (T (k1 * a) - T (k2 * b))
                     in cut_merge T v k1 k2 ms ns (T (k - T (k2 * b))) clash' (if c \<noteq> 0 then acc @ [(c, l)] else acc)
                else let c = T (T (k2 * b) - T (k1 * a))
                     in cut_merge T v k1 k2 ms ns (T (k - T (k1 * a))) clash' (if c \<noteq> 0 then acc @ [(c, m)] else acc)
           else cut_merge T v k1 k2 ms ns k clash' (acc @ [(T (T (k2 * b) + T (k1 * a)), l)]))"
| "cut_merge T v k1 k2 ms ns k clash acc =
     (acc @ map (\<lambda>(a, l). (T (k1 * a), l)) ms @ map (\<lambda>(b, m). (T (k2 * b), m)) ns, k, clash)"

fun cut_gcd :: "int \<Rightarrow> int \<Rightarrow> monomial list \<Rightarrow> int" where
  "cut_gcd c g [] = g"
| "cut_gcd c g ((a, l) # ms) = cut_gcd c (if a \<le> c then (if g = -1 then a else GCD_T g a) else g) ms"

fun cut_divide :: "int \<Rightarrow> int \<Rightarrow> monomial list \<Rightarrow> monomial list option" where
  "cut_divide g c [] = Some []"
| "cut_divide g c ((a, l) # ms) =
     (case divisionRoundedUp a g of
        None \<Rightarrow> None
      | Some a' \<Rightarrow> (case cut_divide g c ms of
            None \<Rightarrow> None
          | Some ms' \<Rightarrow> Some ((wrap 32 (if c < a' then c else a'), l) # ms')))"

text \<open>
  What \<open>applyCut<T>\<close> does with the sum; \<open>None\<close> is a division by zero. Inside, \<open>None\<close> is the result
  \<open>true\<close> (overflow or tautology); the flag is \<open>clash\<close>.
\<close>

definition finish_cut :: "monomial list \<times> int \<times> bool \<Rightarrow> (wconstraint option \<times> bool) option" where
  "finish_cut x = (let (ms, k, clash) = x in
     if k \<le> 0 then Some (None, clash)
     else if ms = [] then Some (Some (WConstraint_bool False), clash)
     else let g' = cut_gcd k (-1) ms;
              gcdV = (if g' = -1 then k else g')
     in case divisionRoundedUp k gcdV of
          None \<Rightarrow> None
        | Some c \<Rightarrow>
            if c > 2 ^ 30 then Some (None, clash)
            else (case cut_divide gcdV c ms of
                    None \<Rightarrow> None
                  | Some ms' \<Rightarrow> Some (Some (WConstraint_vec (map fst ms') (map snd ms') (wrap 32 c)), clash)))"

definition applyCut_T :: "(int \<Rightarrow> int) \<Rightarrow> var \<Rightarrow> wconstraint \<Rightarrow> wconstraint \<Rightarrow> (wconstraint option \<times> bool) option" where
  "applyCut_T T var c1 c2 =
     (let a1 = getCoefficientBinarySearch c1 var; a2 = getCoefficientBinarySearch c2 var; g = GCD_T a1 a2
      in if g = 0 then None
         else let k1 = a2 sdiv g; k2 = a1 sdiv g;
                  (ms, k, clash) = cut_merge T var k1 k2 (lhs c1) (lhs c2) 0 False []
         in finish_cut (ms, T (k + T (T (k1 * rhs c1) + T (k2 * rhs c2))), clash))"

definition applyCut :: "var \<Rightarrow> wconstraint \<Rightarrow> wconstraint \<Rightarrow> (wconstraint option \<times> bool) option" where
  "applyCut var c1 c2 =
     (if rhs c1 * rhs c2 < 2 ^ 30 then applyCut_T (wrap 32) var c1 c2 else applyCut_T (wrap 64) var c1 c2)"

section \<open>Weakening to a clause\<close>

fun sum_loop :: "var \<Rightarrow> monomial list \<Rightarrow> int \<Rightarrow> int \<Rightarrow> int \<times> int" where
  "sum_loop x [] sumTotal coeffL = (sumTotal, coeffL)"
| "sum_loop x ((a, l) # ms) sumTotal coeffL = sum_loop x ms (sumTotal + a) (if \<bar>l\<bar> = x then a else coeffL)"

text \<open>The \<open>while\<close> loop; \<open>None\<close> is an access behind the last monomial.\<close>

fun fix_loop :: "model \<Rightarrow> var \<Rightarrow> monomial list \<Rightarrow> int \<Rightarrow> bool \<Rightarrow> wconstraint \<Rightarrow> wconstraint option" where
  "fix_loop m x ms sumTotal added w2 =
     (if sumTotal \<ge> 0 \<or> \<not> added
      then (case ms of
              [] \<Rightarrow> None
            | (a, l) # ms' \<Rightarrow>
                if isFalseLit m l \<and> \<bar>l\<bar> \<noteq> x \<and> sumTotal \<ge> 0
                then fix_loop m x ms' (sumTotal - a) added (addMonomial 1 l w2)
                else if \<bar>l\<bar> = x then fix_loop m x ms' sumTotal True (addMonomial 1 l w2)
                else fix_loop m x ms' sumTotal added w2)
      else Some w2)"

declare fix_loop.simps [simp del]

definition fixRoundingProblemSAT :: "model \<Rightarrow> lit \<Rightarrow> wconstraint \<Rightarrow> wconstraint option" where
  "fixRoundingProblemSAT m l c =
     (let x = \<bar>l\<bar>; (sumTotal, coeffL) = sum_loop x (lhs c) (- rhs c) 0
      in map_option (setConstant 1) (fix_loop m x (lhs c) (sumTotal - coeffL) False (WConstraint_bool True)))"

section \<open>One resolution step\<close>

text \<open>
  A call of \<open>applyCut\<close> writes \<open>cut\<close> only when it returns \<open>false\<close>; the result is (returned value,
  \<open>cut\<close>, \<open>clash\<close>).
\<close>

definition cut_to :: "var \<Rightarrow> wconstraint \<Rightarrow> wconstraint \<Rightarrow> wconstraint \<Rightarrow> (bool \<times> wconstraint \<times> bool) option" where
  "cut_to v cCtr rCtr e =
     map_option (\<lambda>(r, clash). case r of None \<Rightarrow> (True, e, clash) | Some e' \<Rightarrow> (False, e', clash)) (applyCut v cCtr rCtr)"

text \<open>
  The attempts of \<open>conflictAnalysisAndBackjump\<close> to eliminate the variable of \<open>litInReasonCtr\<close>:
  (overflow, cut, clash, conflicting constraint, reason) after the step.
\<close>

definition conflict_cut :: "model \<Rightarrow> lit \<Rightarrow> lit \<Rightarrow> wconstraint \<Rightarrow> wconstraint
    \<Rightarrow> (bool \<times> wconstraint \<times> bool \<times> wconstraint \<times> wconstraint) option" where
  "conflict_cut m litInReasonCtr litInConflictingCtr cCtr rCtr =
     (let confVar = \<bar>litInReasonCtr\<bar> in
      case cut_to confVar cCtr rCtr (WConstraint_bool True) of
        None \<Rightarrow> None
      | Some (overflow, e, clash) \<Rightarrow>
          if \<not> overflow \<and> slack m e < 0 then Some (overflow, e, clash, cCtr, rCtr)
          else (case (if getSize rCtr > getSize cCtr
                      then map_option (Pair cCtr) (fixRoundingProblemSAT m litInReasonCtr rCtr)
                      else map_option (\<lambda>w. (w, rCtr)) (fixRoundingProblemSAT m litInConflictingCtr cCtr)) of
                  None \<Rightarrow> None
                | Some (cCtr, rCtr) \<Rightarrow>
                    (case cut_to confVar cCtr rCtr e of
                       None \<Rightarrow> None
                     | Some (overflow, e, clash) \<Rightarrow>
                         if \<not> overflow then Some (overflow, e, clash, cCtr, rCtr)
                         else (case (fixRoundingProblemSAT m litInReasonCtr rCtr, fixRoundingProblemSAT m litInConflictingCtr cCtr) of
                                 (Some rCtr, Some cCtr) \<Rightarrow>
                                   map_option (\<lambda>(overflow, e, clash). (overflow, e, clash, cCtr, rCtr)) (cut_to confVar cCtr rCtr e)
                               | _ \<Rightarrow> None))))"

section \<open>Units and decision levels\<close>

fun remove_units_loop :: "model \<Rightarrow> monomial list \<Rightarrow> monomial list \<Rightarrow> int \<Rightarrow> monomial list \<times> int" where
  "remove_units_loop m [] newCtr k = (newCtr, k)"
| "remove_units_loop m ((a, l) # ms) newCtr k =
     (if \<not> isUndefLit m l \<and> getDLOfLit m l = 0
      then remove_units_loop m ms newCtr (if isTrueLit m l then k - a else k)
      else remove_units_loop m ms (newCtr @ [(a, l)]) k)"

definition removeUnits :: "model \<Rightarrow> wconstraint \<Rightarrow> wconstraint" where
  "removeUnits m c =
     (let (newCtr, k) = remove_units_loop m (lhs c) [] (rhs c) in setConstant k (setLHS newCtr c))"

fun lbd_loop :: "model \<Rightarrow> lit list \<Rightarrow> int set \<Rightarrow> int set" where
  "lbd_loop m [] DLs = DLs"
| "lbd_loop m (l # ls) DLs =
     lbd_loop m ls (if \<not> isUndefLit m l \<and> getDLOfLit m l > 0 then insert (getDLOfLit m l) DLs else DLs)"

definition computeLBD_lits :: "model \<Rightarrow> lit list \<Rightarrow> int" where
  "computeLBD_lits m ls = int (card (lbd_loop m ls {}))"

definition computeLBD :: "model \<Rightarrow> wconstraint \<Rightarrow> int" where
  "computeLBD m c = computeLBD_lits m (map (\<lambda>i. getIthLiteral c i) [0..<nat (getSize c)])"

section \<open>The cut is implied\<close>

text \<open>
  The sum of both sides under a predicate \<open>P\<close> on literals that holds of a literal or its opposite.
  When it holds of exactly one it is the truth of an assignment, and the sum is kept; otherwise it
  is ``not false'' under a partial assignment, and the sum can only get smaller.
\<close>

lemma merge_value:
  assumes "cut_merge (\<lambda>x. x) v k1 k2 ms ns k clash acc = (ms', k', clash')"
    and "nonzero_lits ms" "nonzero_lits ns" "pos_coeffs ms" "pos_coeffs ns" "0 \<le> k1" "0 \<le> k2"
    and P: "\<And>l. l \<noteq> 0 \<Longrightarrow> P l \<or> P (- l)"
  shows "msum P ms' - k' \<le> msum P acc - k + k1 * msum P ms + k2 * msum P ns
    \<and> ((\<forall>l. l \<noteq> 0 \<longrightarrow> \<not> (P l \<and> P (- l))) \<longrightarrow> msum P ms' - k' = msum P acc - k + k1 * msum P ms + k2 * msum P ns)"
proof -
  have rest: "msum P (map (\<lambda>(a, l). (c * a, l)) ls) = c * msum P ls" for c ls
    by (induction ls) (auto simp: algebra_simps)
  show ?thesis
    using assms(1-7)
  proof (induction "\<lambda>x::int. x" v k1 k2 ms ns k clash acc rule: cut_merge.induct)
    case (1 v k1 k2 a l ms b m ns k clash acc)
    note wf = "1.prems"(2-7)
    have sub: "nonzero_lits ms" "nonzero_lits ns" "pos_coeffs ms" "pos_coeffs ns" using wf by auto
    have ab: "0 \<le> k1 * a" "0 \<le> k2 * b" using wf by auto
    have pm: "msum P ((x, y) # zs) = (if P y then x else 0) + msum P zs" for x y zs by simp
    consider (lt) "\<bar>l\<bar> < \<bar>m\<bar>" | (gt) "\<bar>m\<bar> < \<bar>l\<bar>" | (same) "l = m" | (opp) "l \<noteq> m" "\<bar>l\<bar> = \<bar>m\<bar>" by linarith
    then show ?case
    proof cases
      case lt
      note IH = "1.hyps"(1) [OF lt _ sub(1) wf(2) sub(3) wf(4-6)]
      show ?thesis using IH "1.prems"(1) lt by (auto simp: algebra_simps)
    next
      case gt
      then have n: "\<not> \<bar>l\<bar> < \<bar>m\<bar>" by simp
      note IH = "1.hyps"(2) [OF n gt _ wf(1) sub(2) wf(3) sub(4) wf(5,6)]
      show ?thesis using IH "1.prems"(1) gt by (auto simp: algebra_simps)
    next
      case same
      then have n: "\<not> \<bar>l\<bar> < \<bar>m\<bar>" "\<not> \<bar>m\<bar> < \<bar>l\<bar>" "\<not> l \<noteq> m" by auto
      note IH = "1.hyps"(5) [OF n(1,2) refl n(3) _ sub wf(5,6)]
      show ?thesis using IH "1.prems"(1) same by (auto simp: algebra_simps)
    next
      case opp
      then have n: "\<not> \<bar>l\<bar> < \<bar>m\<bar>" "\<not> \<bar>m\<bar> < \<bar>l\<bar>" and m: "m = - l" by auto
      have l0: "l \<noteq> 0" using wf(1) by auto
      let ?A = "if P l then k1 * a else 0" and ?B = "if P m then k2 * b else 0"
      have tot: "k1 * msum P ((a, l) # ms) = ?A + k1 * msum P ms" "k2 * msum P ((b, m) # ns) = ?B + k2 * msum P ns"
        by (simp_all add: distrib_left)
      let ?c = "\<bar>k1 * a - k2 * b\<bar>" and ?x = "if k1 * a \<ge> k2 * b then l else m"
      let ?acc = "if ?c \<noteq> 0 then acc @ [(?c, ?x)] else acc" and ?k = "k - min (k1 * a) (k2 * b)"
      have acc: "msum P ?acc = msum P acc + (if P ?x then ?c else 0)" by simp
      have step: "msum P ?acc - ?k \<le> msum P acc - k + ?A + ?B"
        "\<not> (P l \<and> P (- l)) \<Longrightarrow> msum P ?acc - ?k = msum P acc - k + ?A + ?B"
        unfolding acc using P [OF l0] ab by (auto simp: m min_def)
      have rec: "cut_merge (\<lambda>x. x) v k1 k2 ms ns ?k (clash \<or> \<bar>l\<bar> \<noteq> v) ?acc = (ms', k', clash')"
        using "1.prems"(1) opp by (cases "k1 * a \<ge> k2 * b"; cases "k1 * a = k2 * b") (simp_all add: Let_def min_def)
      have IH: "msum P ms' - k' \<le> msum P ?acc - ?k + k1 * msum P ms + k2 * msum P ns
        \<and> ((\<forall>l. l \<noteq> 0 \<longrightarrow> \<not> (P l \<and> P (- l))) \<longrightarrow> msum P ms' - k' = msum P ?acc - ?k + k1 * msum P ms + k2 * msum P ns)"
      proof (cases "k1 * a \<ge> k2 * b")
        case True
        then have e: "?c = k1 * a - k2 * b" "?k = k - k2 * b" "?x = l" by (simp_all add: min_def)
        show ?thesis using "1.hyps"(3) [OF n refl opp(1) True refl _ sub wf(5,6)] rec unfolding e by simp
      next
        case False
        then have e: "?c = k2 * b - k1 * a" "?k = k - k1 * a" "?x = m" by (simp_all add: min_def)
        show ?thesis using "1.hyps"(4) [OF n refl opp(1) False refl _ sub wf(5,6)] rec unfolding e by simp
      qed
      show ?thesis
      proof (intro conjI impI)
        show "msum P ms' - k' \<le> msum P acc - k + k1 * msum P ((a, l) # ms) + k2 * msum P ((b, m) # ns)"
          using IH [THEN conjunct1] step(1) unfolding tot by linarith
        assume c: "\<forall>l. l \<noteq> 0 \<longrightarrow> \<not> (P l \<and> P (- l))"
        show "msum P ms' - k' = msum P acc - k + k1 * msum P ((a, l) # ms) + k2 * msum P ((b, m) # ns)"
          using IH [THEN conjunct2, rule_format, OF c [rule_format]] step(2) [OF c [rule_format, OF l0]] unfolding tot by linarith
      qed
    qed
  qed (auto simp: rest)
qed

lemma mvars_scaled [simp]: "mvars (map (\<lambda>(a, l). (f a, l)) ms) = mvars ms"
  by (induction ms) auto

lemma scaled_wf:
  "pos_coeffs ms \<Longrightarrow> 0 < k \<Longrightarrow> pos_coeffs (map (\<lambda>(a, l). (k * a, l)) ms)"
  "nonzero_lits ms \<Longrightarrow> nonzero_lits (map (\<lambda>(a, l). (k * a, l)) ms)"
  by (auto simp: pos_coeffs_def nonzero_lits_def)

lemma scaled_snd: "snd \<circ> (\<lambda>(a, l). (k * a, l)) = (snd :: monomial \<Rightarrow> lit)"
  by (rule ext) auto

text \<open>\<open>before xs ys\<close>: every element of \<open>xs\<close> is below every element of \<open>ys\<close>.\<close>

definition before :: "int list \<Rightarrow> int list \<Rightarrow> bool" where
  "before xs ys \<longleftrightarrow> (\<forall>x \<in> set xs. \<forall>y \<in> set ys. x < y)"

lemma before_simps [simp]:
  "before [] ys" "before xs []" "before (xs @ xs') ys = (before xs ys \<and> before xs' ys)"
  "before xs (ys @ ys') = (before xs ys \<and> before xs ys')" "before xs (y # ys) = (before xs [y] \<and> before xs ys)"
  "before [x] [y] = (x < y)"
  by (auto simp: before_def)

lemma merge_shape:
  assumes "cut_merge (\<lambda>x. x) v k1 k2 ms ns k clash acc = (ms', k', clash')"
    and "sorted_wrt (<) (mvars ms)" "sorted_wrt (<) (mvars ns)" "sorted_wrt (<) (mvars acc)"
    and "before (mvars acc) (mvars ms)" "before (mvars acc) (mvars ns)"
    and "nonzero_lits ms" "nonzero_lits ns" "nonzero_lits acc" "pos_coeffs ms" "pos_coeffs ns" "pos_coeffs acc"
    and "0 < k1" "0 < k2"
  shows "sorted_wrt (<) (mvars ms') \<and> nonzero_lits ms' \<and> pos_coeffs ms' \<and> k' \<le> k
    \<and> set (map snd ms') \<subseteq> set (map snd acc) \<union> set (map snd ms) \<union> set (map snd ns)"
  using assms
proof (induction "\<lambda>x::int. x" v k1 k2 ms ns k clash acc rule: cut_merge.induct)
  case (1 v k1 k2 a l ms b m ns k clash acc)
  have s1: "sorted_wrt (<) (mvars ms)" "before [\<bar>l\<bar>] (mvars ms)" and s2: "sorted_wrt (<) (mvars ns)" "before [\<bar>m\<bar>] (mvars ns)"
    using "1.prems"(2,3) by (auto simp: before_def)
  have a1: "before (mvars acc) [\<bar>l\<bar>]" "before (mvars acc) (mvars ms)" and a2: "before (mvars acc) [\<bar>m\<bar>]" "before (mvars acc) (mvars ns)"
    using "1.prems"(5,6) by (simp_all add: before_def)
  have sacc: "sorted_wrt (<) (mvars acc)" by (rule "1.prems"(4))
  have sub: "nonzero_lits ms" "nonzero_lits ns" "nonzero_lits acc" "pos_coeffs ms" "pos_coeffs ns" "pos_coeffs acc"
    "l \<noteq> 0" "m \<noteq> 0" "0 < a" "0 < b" using "1.prems"(7-12) by auto
  have kk: "0 < k1" "0 < k2" by (rule "1.prems"(13), rule "1.prems"(14))
  have ab: "0 < k1 * a" "0 < k2 * b" using kk sub by simp_all
  have snoc: "sorted_wrt (<) (mvars (acc @ [(c, x)]))" if "\<bar>x\<bar> = \<bar>l\<bar> \<or> \<bar>x\<bar> = \<bar>m\<bar>" for c x
    using that sacc a1(1) a2(1) by (auto simp: sorted_wrt_append before_def)
  have snocw: "nonzero_lits (acc @ [(c, x)])" "pos_coeffs (acc @ [(c, x)])" if "x \<noteq> 0" "0 < c" for c x
    using that sub by (auto simp: nonzero_lits_def pos_coeffs_def)
  have tr: "before [x] (mvars zs)" if "before [y] (mvars zs)" "x \<le> y" for x y zs
    using that by (auto simp: before_def)
  consider (lt) "\<bar>l\<bar> < \<bar>m\<bar>" | (gt) "\<bar>m\<bar> < \<bar>l\<bar>" | (same) "l = m" | (opp) "l \<noteq> m" "\<bar>l\<bar> = \<bar>m\<bar>" by linarith
  then show ?case
  proof cases
    case lt
    have rec: "cut_merge (\<lambda>x. x) v k1 k2 ms ((b, m) # ns) k clash (acc @ [(k1 * a, l)]) = (ms', k', clash')"
      using "1.prems"(1) lt by simp
    have "before [\<bar>l\<bar>] (mvars ((b, m) # ns))" using lt s2(2) by (auto simp: before_def)
    then show ?thesis
      using "1.hyps"(1) [OF lt rec s1(1) "1.prems"(3) snoc _ _ sub(1) "1.prems"(8) snocw(1) sub(4) "1.prems"(11) snocw(2) kk]
        a1 s1(2) "1.prems"(6) ab sub by (auto simp: before_def)
  next
    case gt
    then have n: "\<not> \<bar>l\<bar> < \<bar>m\<bar>" by simp
    have rec: "cut_merge (\<lambda>x. x) v k1 k2 ((a, l) # ms) ns k clash (acc @ [(k2 * b, m)]) = (ms', k', clash')"
      using "1.prems"(1) gt by simp
    have "\<forall>x \<in> set (mvars ms). \<bar>m\<bar> < x" using gt s1(2) by (fastforce simp: before_def)
    then show ?thesis
      using "1.hyps"(2) [OF n gt rec "1.prems"(2) s2(1) snoc _ _ "1.prems"(7) sub(2) snocw(1) "1.prems"(10) sub(5) snocw(2) kk]
        a2 s2(2) "1.prems"(5) ab sub gt s1(2) by (auto simp: before_def)
  next
    case same
    then have n: "\<not> \<bar>l\<bar> < \<bar>m\<bar>" "\<not> \<bar>m\<bar> < \<bar>l\<bar>" "\<not> l \<noteq> m" by auto
    have rec: "cut_merge (\<lambda>x. x) v k1 k2 ms ns k (clash \<or> \<bar>l\<bar> \<noteq> v) (acc @ [(k2 * b + k1 * a, l)]) = (ms', k', clash')"
      using "1.prems"(1) same by (simp add: Let_def)
    show ?thesis
      using "1.hyps"(5) [OF n(1,2) refl n(3) rec s1(1) s2(1) snoc _ _ sub(1,2) snocw(1) sub(4,5) snocw(2) kk]
        a1 a2 s1(2) s2(2) ab sub same by (auto simp: before_def)
  next
    case opp
    then have n: "\<not> \<bar>l\<bar> < \<bar>m\<bar>" "\<not> \<bar>m\<bar> < \<bar>l\<bar>" by auto
    let ?c = "\<bar>k1 * a - k2 * b\<bar>" and ?x = "if k1 * a \<ge> k2 * b then l else m"
    let ?acc = "if ?c \<noteq> 0 then acc @ [(?c, ?x)] else acc" and ?k = "k - min (k1 * a) (k2 * b)"
    have rec: "cut_merge (\<lambda>x. x) v k1 k2 ms ns ?k (clash \<or> \<bar>l\<bar> \<noteq> v) ?acc = (ms', k', clash')"
      using "1.prems"(1) opp by (cases "k1 * a \<ge> k2 * b"; cases "k1 * a = k2 * b") (simp_all add: Let_def min_def)
    have A: "sorted_wrt (<) (mvars ?acc)" "nonzero_lits ?acc" "pos_coeffs ?acc"
      "before (mvars ?acc) (mvars ms)" "before (mvars ?acc) (mvars ns)"
      using snoc [of ?x ?c] snocw [of ?x ?c] sacc sub a1(2) a2(2) s1(2) s2(2) opp(2) by (auto simp: before_def)
    have sn: "set (map snd ?acc) \<subseteq> set (map snd acc) \<union> {l, m}" by auto
    have "sorted_wrt (<) (mvars ms') \<and> nonzero_lits ms' \<and> pos_coeffs ms' \<and> k' \<le> ?k
        \<and> set (map snd ms') \<subseteq> set (map snd ?acc) \<union> set (map snd ms) \<union> set (map snd ns)"
    proof (cases "k1 * a \<ge> k2 * b")
      case True
      then have e: "?c = k1 * a - k2 * b" "?k = k - k2 * b" "?x = l" by (simp_all add: min_def)
      show ?thesis
        using "1.hyps"(3) [OF n refl opp(1) True refl _ s1(1) s2(1) _ _ _ sub(1,2) _ sub(4,5) _ kk] rec A unfolding e by simp
    next
      case False
      then have e: "?c = k2 * b - k1 * a" "?k = k - k1 * a" "?x = m" by (simp_all add: min_def)
      show ?thesis
        using "1.hyps"(4) [OF n refl opp(1) False refl _ s1(1) s2(1) _ _ _ sub(1,2) _ sub(4,5) _ kk] rec A unfolding e by simp
    qed
    moreover have "?k \<le> k" using ab by simp
    moreover have "set (map snd ?acc) \<union> set (map snd ms) \<union> set (map snd ns)
        \<subseteq> set (map snd acc) \<union> set (map snd ((a, l) # ms)) \<union> set (map snd ((b, m) # ns))"
      using sn by auto
    ultimately show ?thesis by (meson order_trans subset_trans)
  qed
qed (auto simp: sorted_wrt_append before_def scaled_wf scaled_snd simp del: set_map)

text \<open>The eliminated variable does not occur in the result.\<close>

definition pair_ok :: "var \<Rightarrow> int \<Rightarrow> int \<Rightarrow> monomial \<Rightarrow> monomial \<Rightarrow> bool" where
  "pair_ok v k1 k2 p q \<longleftrightarrow>
     (\<bar>snd p\<bar> = v \<and> \<bar>snd q\<bar> = v \<longrightarrow> snd q = - snd p \<and> snd p \<noteq> 0 \<and> k1 * fst p = k2 * fst q)"

lemma merge_eliminates:
  assumes "cut_merge (\<lambda>x. x) v k1 k2 ms ns k clash acc = (ms', k', clash')"
    and "sorted_wrt (<) (mvars ms)" "sorted_wrt (<) (mvars ns)" "v \<notin> set (mvars acc)"
    and "v \<in> set (mvars ms) \<longleftrightarrow> v \<in> set (mvars ns)"
    and "\<forall>p \<in> set ms. \<forall>q \<in> set ns. pair_ok v k1 k2 p q"
  shows "v \<notin> set (mvars ms')"
  using assms
proof (induction "\<lambda>x::int. x" v k1 k2 ms ns k clash acc rule: cut_merge.induct)
  case (1 v k1 k2 a l ms b m ns k clash acc)
  have s1: "sorted_wrt (<) (mvars ms)" "\<forall>x \<in> set (mvars ms). \<bar>l\<bar> < x" and s2: "sorted_wrt (<) (mvars ns)" "\<forall>x \<in> set (mvars ns). \<bar>m\<bar> < x"
    using "1.prems"(2,3) by auto
  have pok: "pair_ok v k1 k2 (a, l) (b, m)" using "1.prems"(6) by simp
  consider (lt) "\<bar>l\<bar> < \<bar>m\<bar>" | (gt) "\<bar>m\<bar> < \<bar>l\<bar>" | (same) "l = m" | (opp) "l \<noteq> m" "\<bar>l\<bar> = \<bar>m\<bar>" by linarith
  then show ?case
  proof cases
    case lt
    have rec: "cut_merge (\<lambda>x. x) v k1 k2 ms ((b, m) # ns) k clash (acc @ [(k1 * a, l)]) = (ms', k', clash')"
      using "1.prems"(1) lt by simp
    have nv: "\<bar>l\<bar> \<noteq> v"
    proof
      assume "\<bar>l\<bar> = v"
      then have "v \<in> set (mvars ((b, m) # ns))" using "1.prems"(5) by simp
      then show False using lt s2(2) \<open>\<bar>l\<bar> = v\<close> by auto
    qed
    have c: "v \<notin> set (mvars (acc @ [(k1 * a, l)]))" "v \<in> set (mvars ms) \<longleftrightarrow> v \<in> set (mvars ((b, m) # ns))"
      using "1.prems"(4,5) nv by simp_all
    have "\<forall>p \<in> set ms. \<forall>q \<in> set ((b, m) # ns). pair_ok v k1 k2 p q"
      using "1.prems"(6) by (meson list.set_intros(2))
    then show ?thesis by (rule "1.hyps"(1) [OF lt rec s1(1) "1.prems"(3) c])
  next
    case gt
    then have n: "\<not> \<bar>l\<bar> < \<bar>m\<bar>" by simp
    have rec: "cut_merge (\<lambda>x. x) v k1 k2 ((a, l) # ms) ns k clash (acc @ [(k2 * b, m)]) = (ms', k', clash')"
      using "1.prems"(1) gt by simp
    have nv: "\<bar>m\<bar> \<noteq> v"
    proof
      assume "\<bar>m\<bar> = v"
      then have "v \<in> set (mvars ((a, l) # ms))" using "1.prems"(5) by simp
      then show False using gt s1(2) \<open>\<bar>m\<bar> = v\<close> by auto
    qed
    have c: "v \<notin> set (mvars (acc @ [(k2 * b, m)]))" "v \<in> set (mvars ((a, l) # ms)) \<longleftrightarrow> v \<in> set (mvars ns)"
      using "1.prems"(4,5) nv by simp_all
    have "\<forall>p \<in> set ((a, l) # ms). \<forall>q \<in> set ns. pair_ok v k1 k2 p q"
      using "1.prems"(6) by (meson list.set_intros(2))
    then show ?thesis by (rule "1.hyps"(2) [OF n gt rec "1.prems"(2) s2(1) c])
  next
    case same
    then have n: "\<not> \<bar>l\<bar> < \<bar>m\<bar>" "\<not> \<bar>m\<bar> < \<bar>l\<bar>" "\<not> l \<noteq> m" by auto
    have rec: "cut_merge (\<lambda>x. x) v k1 k2 ms ns k (clash \<or> \<bar>l\<bar> \<noteq> v) (acc @ [(k2 * b + k1 * a, l)]) = (ms', k', clash')"
      using "1.prems"(1) same by (simp add: Let_def)
    have nv: "\<bar>l\<bar> \<noteq> v" using pok same by (auto simp: pair_ok_def)
    have c: "v \<notin> set (mvars (acc @ [(k2 * b + k1 * a, l)]))" "v \<in> set (mvars ms) \<longleftrightarrow> v \<in> set (mvars ns)"
      using "1.prems"(4,5) nv same by simp_all
    have "\<forall>p \<in> set ms. \<forall>q \<in> set ns. pair_ok v k1 k2 p q"
      using "1.prems"(6) by (meson list.set_intros(2))
    then show ?thesis by (rule "1.hyps"(5) [OF n(1,2) refl n(3) rec s1(1) s2(1) c])
  next
    case opp
    then have n: "\<not> \<bar>l\<bar> < \<bar>m\<bar>" "\<not> \<bar>m\<bar> < \<bar>l\<bar>" by auto
    have tl: "v \<in> set (mvars ms) \<longleftrightarrow> v \<in> set (mvars ns)"
      using "1.prems"(5) s1(2) s2(2) opp(2) by (cases "\<bar>l\<bar> = v") auto
    have pairs: "\<forall>p \<in> set ms. \<forall>q \<in> set ns. pair_ok v k1 k2 p q"
      using "1.prems"(6) by (meson list.set_intros(2))
    have eq: "k1 * a = k2 * b" if "\<bar>l\<bar> = v" using pok [unfolded pair_ok_def fst_conv snd_conv] that opp(2) by metis
    show ?thesis
    proof (cases "k1 * a \<ge> k2 * b")
      case True
      have "v \<notin> set (mvars (if k1 * a - k2 * b \<noteq> 0 then acc @ [(k1 * a - k2 * b, l)] else acc))"
        using "1.prems"(4) eq by auto
      then show ?thesis
        using "1.hyps"(3) [OF n refl opp(1) True refl _ s1(1) s2(1) _ tl pairs] "1.prems"(1) opp True by (simp add: Let_def)
    next
      case False
      have "v \<notin> set (mvars (if k2 * b - k1 * a \<noteq> 0 then acc @ [(k2 * b - k1 * a, m)] else acc))"
        using "1.prems"(4) eq opp(2) by auto
      then show ?thesis
        using "1.hyps"(4) [OF n refl opp(1) False refl _ s1(1) s2(1) _ tl pairs] "1.prems"(1) opp False by (simp add: Let_def)
    qed
  qed
qed auto

section \<open>Dividing and saturating the sum\<close>

lemma gcd_not_m1: "gcd a b \<noteq> (-1 :: int)"
  using gcd_ge_0_int [of a b] by linarith

lemma cut_gcd_facts:
  assumes "cut_gcd c g ms = g'" "pos_coeffs ms" "g = -1 \<or> 0 < g"
  shows "(g' = -1 \<or> 0 < g') \<and> (g \<noteq> -1 \<longrightarrow> g' \<noteq> -1 \<and> g' dvd g) \<and> (\<forall>m \<in> set ms. fst m \<le> c \<longrightarrow> g' \<noteq> -1 \<and> g' dvd fst m)"
  using assms
proof (induction c g ms rule: cut_gcd.induct)
  case (2 c g a l ms)
  let ?g = "if a \<le> c then (if g = -1 then a else GCD_T g a) else g"
  have g: "?g = -1 \<or> 0 < ?g" using "2.prems" by (auto simp: GCD_T_def)
  have IH: "(g' = -1 \<or> 0 < g') \<and> (?g \<noteq> -1 \<longrightarrow> g' \<noteq> -1 \<and> g' dvd ?g) \<and> (\<forall>m \<in> set ms. fst m \<le> c \<longrightarrow> g' \<noteq> -1 \<and> g' dvd fst m)"
    using "2.IH" [OF _ _ g] "2.prems" by simp
  have "?g dvd g" if "g \<noteq> -1" using that by (simp add: GCD_T_def)
  moreover have "?g \<noteq> -1" if "g \<noteq> -1" using that "2.prems" by (auto simp: GCD_T_def gcd_not_m1)
  moreover have "?g dvd a" "?g \<noteq> -1" if "a \<le> c" using that "2.prems" by (auto simp: GCD_T_def gcd_not_m1)
  ultimately show ?case using IH by (auto intro: dvd_trans)
qed simp

lemma cut_divide_eq:
  assumes "0 < g" "pos_coeffs ms" "0 < c" "c \<le> 2 ^ 30"
  shows "cut_divide g c ms = Some (map (\<lambda>m. (min (cdiv (fst m) g) c, snd m)) ms)"
  using assms(2)
proof (induction ms)
  case (Cons m ms)
  obtain a l where m: "m = (a, l)" by (cases m)
  have a: "0 < a" using Cons.prems by (simp add: m)
  have "0 < cdiv a g" by (rule cdiv_pos [OF assms(1) a])
  then have "wrap 32 (if c < cdiv a g then c else cdiv a g) = min (cdiv a g) c"
    using assms(3,4) by (subst wrap_id) (auto simp: min_def)
  then show ?case using Cons divisionRoundedUp_cdiv [OF assms(1), of a] a by (simp add: m)
qed simp

text \<open>
  A positive sum is divided and saturated to an equivalent constraint, for any predicate on the
  literals, or it is too large.
\<close>

definition normal_cut :: "monomial list \<Rightarrow> int \<Rightarrow> wconstraint \<Rightarrow> bool" where
  "normal_cut ms k c \<longleftrightarrow> (\<forall>P. rhs c \<le> msum P (lhs c) \<longleftrightarrow> k \<le> msum P ms) \<and> map snd (lhs c) = map snd ms
     \<and> 0 < rhs c \<and> rhs c \<le> 2 ^ 30 \<and> rhs c \<le> k \<and> (\<forall>m \<in> set (lhs c). 0 < fst m \<and> fst m \<le> rhs c)"

lemma cut_normalize:
  assumes "0 < k" "pos_coeffs ms" "cut_gcd k (-1) ms = g'"
  defines "g \<equiv> if g' = -1 then k else g'"
  shows "divisionRoundedUp k g = Some (cdiv k g)" "0 < cdiv k g" "cdiv k g \<le> k"
    "cdiv k g \<le> 2 ^ 30 \<Longrightarrow> \<exists>ms'. cut_divide g (cdiv k g) ms = Some ms'
        \<and> normal_cut ms k (WConstraint_vec (map fst ms') (map snd ms') (wrap 32 (cdiv k g)))"
proof -
  note G = cut_gcd_facts [OF assms(3,2)]
  have g: "0 < g" using G assms(1) by (auto simp: g_def)
  have dvd: "\<forall>m \<in> set ms. fst m < k \<longrightarrow> g dvd fst m" using G by (auto simp: g_def)
  show "divisionRoundedUp k g = Some (cdiv k g)" using divisionRoundedUp_cdiv [OF g] assms(1) by simp
  show c: "0 < cdiv k g" by (rule cdiv_pos [OF g assms(1)])
  have "1 * k \<le> g * k" using g assms(1) by (intro mult_right_mono) auto
  then show "cdiv k g \<le> k" using cdiv_le_iff [OF g, of k k] by (simp add: mult.commute)
  assume le: "cdiv k g \<le> 2 ^ 30"
  let ?ms = "map (\<lambda>m. (min (cdiv (fst m) g) (cdiv k g), snd m)) ms"
  have min: "min (cdiv a g) (cdiv k g) = cdiv (min a k) g" for a
    using cdiv_mono [OF g, of a k] cdiv_mono [OF g, of k a] by (auto simp: min_def)
  have w: "wrap 32 (cdiv k g) = cdiv k g" using c le by (intro wrap_id) auto
  have pos': "pos_coeffs (map (\<lambda>m. (min (fst m) k, snd m)) ms)" using assms(1,2) by (auto simp: pos_coeffs_def)
  have "cdiv k g \<le> msum P ?ms \<longleftrightarrow> k \<le> msum P ms" for P
  proof -
    have "cdiv k g \<le> msum P (map (\<lambda>m. (cdiv (fst m) g, snd m)) (map (\<lambda>m. (min (fst m) k, snd m)) ms))
        \<longleftrightarrow> k \<le> msum P (map (\<lambda>m. (min (fst m) k, snd m)) ms)"
      by (rule msum_divide_iff [OF pos' g assms(1)]) (use dvd in \<open>auto simp: min_def\<close>)
    then show ?thesis using msum_saturate [OF assms(2,1), of P] by (simp add: comp_def min)
  qed
  moreover have "0 < fst m \<and> fst m \<le> cdiv k g" if "m \<in> set ?ms" for m
    using that c assms(2) cdiv_pos [OF g] by (auto simp: pos_coeffs_def)
  ultimately show "\<exists>ms'. cut_divide g (cdiv k g) ms = Some ms'
      \<and> normal_cut ms k (WConstraint_vec (map fst ms') (map snd ms') (wrap 32 (cdiv k g)))"
    using cut_divide_eq [OF g assms(2) c le] c le \<open>cdiv k g \<le> k\<close>
    by (auto simp: normal_cut_def WConstraint_vec_def w zip_map_fst_snd)
qed

end
