(* ===== verification/CutSound.thy ===== *)
theory CutSound
  imports Cut "HOL-Library.Sublist"
begin

text \<open>
  What conflict analysis gets from \<open>applyCut\<close> and \<open>fixRoundingProblemSAT\<close>
  (\<open>src/src/ConflictAnalysis.cpp\<close>): the machine arithmetic is exact in the situation of a
  conflict, the cut is implied and has no trace of the eliminated variable, it is falsified as soon
  as one of the two constraints has no positive slack, and weakening gives such a constraint.
\<close>

section \<open>Machine arithmetic\<close>

lemma wrap_cong: "wrap w x = wrap w y \<longleftrightarrow> x mod 2 ^ w = y mod 2 ^ w"
proof -
  have "(x + c) mod m = (y + c) mod m \<longleftrightarrow> x mod m = y mod m" for c m :: int
    by (metis add_diff_cancel_right' mod_add_left_eq mod_diff_left_eq)
  then show ?thesis by (simp add: wrap_def)
qed

lemma wrap_mod: "wrap w x mod 2 ^ w = x mod 2 ^ w"
  by (simp add: wrap_def mod_diff_left_eq)

lemma wrap_add: "wrap w (wrap w x + y) = wrap w (x + y)" "wrap w (y + wrap w x) = wrap w (y + x)"
  unfolding wrap_cong using wrap_mod [of w x] by (metis mod_add_left_eq) (metis mod_add_right_eq wrap_mod)

lemma wrap_diff: "wrap w (wrap w x - y) = wrap w (x - y)"
  unfolding wrap_cong using wrap_mod [of w x] by (metis mod_diff_left_eq)

text \<open>
  With every product below \<open>2\<^sup>n\<close> and machine integers of \<open>n + 2\<close> bits the monomials collected are
  the exact ones and the constant is exact modulo \<open>2 ^ (n + 2)\<close>, even where it leaves the range on
  the way.
\<close>

definition scaled_below :: "nat \<Rightarrow> int \<Rightarrow> monomial list \<Rightarrow> bool" where
  "scaled_below n k ms \<longleftrightarrow> (\<forall>m \<in> set ms. 0 \<le> k * fst m \<and> k * fst m < 2 ^ n)"

lemma scaled_below_simps [simp]:
  "scaled_below n k []" "scaled_below n k (m # ms) \<longleftrightarrow> 0 \<le> k * fst m \<and> k * fst m < 2 ^ n \<and> scaled_below n k ms"
  by (auto simp: scaled_below_def)

lemma wrap_small: "0 \<le> x \<Longrightarrow> x < 2 ^ Suc n \<Longrightarrow> wrap (Suc (Suc n)) x = x"
  by (rule wrap_id) (auto intro: order_trans [of _ 0])

lemma wrap_scaled: "scaled_below n k ms \<Longrightarrow> map (\<lambda>(a, l). (wrap (Suc (Suc n)) (k * a), l)) ms = map (\<lambda>(a, l). (k * a, l)) ms"
  by (induction ms) (auto intro!: wrap_small)

lemma merge_wrap:
  assumes "cut_merge (wrap (Suc (Suc n))) v k1 k2 ms ns k clash acc = (ms', kw, clash')"
    and "scaled_below n k1 ms" "scaled_below n k2 ns" "wrap (Suc (Suc n)) k = wrap (Suc (Suc n)) j"
  shows "\<exists>k'. cut_merge (\<lambda>x. x) v k1 k2 ms ns j clash acc = (ms', k', clash') \<and> wrap (Suc (Suc n)) kw = wrap (Suc (Suc n)) k'"
  using assms
proof (induction "wrap (Suc (Suc n))" v k1 k2 ms ns k clash acc arbitrary: j rule: cut_merge.induct)
  case (1 v k1 k2 a l ms b m ns k clash acc)
  have ab: "0 \<le> k1 * a" "k1 * a < 2 ^ n" "0 \<le> k2 * b" "k2 * b < 2 ^ n" and sub: "scaled_below n k1 ms" "scaled_below n k2 ns"
    using "1.prems"(2,3) by auto
  have w0: "wrap (Suc (Suc n)) 0 = 0" by (rule wrap_small) auto
  have w: "wrap (Suc (Suc n)) (k1 * a) = k1 * a" "wrap (Suc (Suc n)) (k2 * b) = k2 * b" "wrap (Suc (Suc n)) (k2 * b + k1 * a) = k2 * b + k1 * a"
    "k1 * a \<ge> k2 * b \<Longrightarrow> wrap (Suc (Suc n)) (k1 * a - k2 * b) = k1 * a - k2 * b"
    "\<not> k1 * a \<ge> k2 * b \<Longrightarrow> wrap (Suc (Suc n)) (k2 * b - k1 * a) = k2 * b - k1 * a"
    using ab by (auto intro!: wrap_small)
  have wk: "wrap (Suc (Suc n)) (wrap (Suc (Suc n)) (k - x)) = wrap (Suc (Suc n)) (j - x)" for x
    using "1.prems"(4) by (metis wrap_add(1) wrap_diff add_0_right)
  have wk2: "wrap (Suc (Suc n)) (wrap (Suc (Suc n)) (k - wrap (Suc (Suc n)) (k2 * b))) = wrap (Suc (Suc n)) (j - k2 * b)"
    and wk1: "wrap (Suc (Suc n)) (wrap (Suc (Suc n)) (k - wrap (Suc (Suc n)) (k1 * a))) = wrap (Suc (Suc n)) (j - k1 * a)"
    using wk by (simp_all only: w)
  consider (lt) "\<bar>l\<bar> < \<bar>m\<bar>" | (gt) "\<bar>m\<bar> < \<bar>l\<bar>" | (same) "l = m" | (opp) "l \<noteq> m" "\<bar>l\<bar> = \<bar>m\<bar>" by linarith
  then show ?case
  proof cases
    case lt
    then show ?thesis using "1.hyps"(1) [OF lt _ sub(1) "1.prems"(3,4)] "1.prems"(1) by (simp add: w)
  next
    case gt
    then have n: "\<not> \<bar>l\<bar> < \<bar>m\<bar>" by simp
    show ?thesis using "1.hyps"(2) [OF n gt _ "1.prems"(2) sub(2) "1.prems"(4)] "1.prems"(1) gt by (simp add: w)
  next
    case same
    then have n: "\<not> \<bar>l\<bar> < \<bar>m\<bar>" "\<not> \<bar>m\<bar> < \<bar>l\<bar>" "\<not> l \<noteq> m" by auto
    show ?thesis using "1.hyps"(5) [OF n(1,2) refl n(3) _ sub "1.prems"(4)] "1.prems"(1) same by (simp add: w Let_def)
  next
    case opp
    then have n: "\<not> \<bar>l\<bar> < \<bar>m\<bar>" "\<not> \<bar>m\<bar> < \<bar>l\<bar>" by auto
    show ?thesis
    proof (cases "k1 * a \<ge> k2 * b")
      case True
      show ?thesis
        using "1.hyps"(3) [OF n refl opp(1) _ refl _ sub wk2] "1.prems"(1) opp True by (cases "k1 * a = k2 * b") (simp_all add: w w0 Let_def)
    next
      case False
      show ?thesis
        using "1.hyps"(4) [OF n refl opp(1) _ refl _ sub wk1] "1.prems"(1) opp False by (cases "k1 * a = k2 * b") (simp_all add: w w0 Let_def)
    qed
  qed
qed (auto simp: wrap_scaled)

section \<open>Constraints that take part in a cut\<close>

text \<open>
  Ordered by variable, with positive saturated coefficients; \<open>clashing m l c d\<close>: \<open>c\<close> contains the
  opposite of \<open>l\<close> and \<open>d\<close> contains \<open>l\<close>, which the model leaves unassigned, and each would propagate it.
\<close>

definition cut_ready :: "wconstraint \<Rightarrow> bool" where
  "cut_ready c \<longleftrightarrow> sorted_wrt (<) (mvars (lhs c)) \<and> nonzero_lits (lhs c) \<and> pos_coeffs (lhs c)
     \<and> (\<forall>m \<in> set (lhs c). fst m \<le> rhs c) \<and> 0 < rhs c \<and> rhs c < 2 ^ 31"

definition clashing :: "model \<Rightarrow> lit \<Rightarrow> int \<Rightarrow> int \<Rightarrow> wconstraint \<Rightarrow> wconstraint \<Rightarrow> bool" where
  "clashing m l a1 a2 c d \<longleftrightarrow> cut_ready c \<and> cut_ready d \<and> (a1, - l) \<in> set (lhs c) \<and> (a2, l) \<in> set (lhs d)
     \<and> isUndefLit m l \<and> slack m c < a1 \<and> slack m d < a2"

lemma search_finds:
  assumes "cut_ready c" "(a, x) \<in> set (lhs c)"
  shows "getCoefficientBinarySearch c \<bar>x\<bar> = a"
proof -
  have "sorted_wrt (<) (mvars (lhs c))" using assms(1) by (simp add: cut_ready_def)
  then have "getCoefficientLiteralBinarySearch c \<bar>x\<bar> = find_var \<bar>x\<bar> (lhs c)" "distinct (mvars (lhs c))"
    using bsearch_loop_correct [of "lhs c" 0 "int (length (lhs c)) - 1" "\<bar>x\<bar>"]
    by (auto simp: getCoefficientLiteralBinarySearch_def getSize_def sorted_wrt_map_lt_distinct)
  then show ?thesis using find_var_member [OF _ assms(2)] by (simp add: getCoefficientBinarySearch_def)
qed

lemma cut_ready_unique:
  "cut_ready c \<Longrightarrow> p \<in> set (lhs c) \<Longrightarrow> q \<in> set (lhs c) \<Longrightarrow> \<bar>snd p\<bar> = \<bar>snd q\<bar> \<Longrightarrow> p = q"
  by (metis cut_ready_def find_var_member sorted_wrt_map_lt_distinct)

lemma multipliers:
  assumes "0 < a" "0 < (b :: int)"
  shows "0 < gcd a b" "0 < a sdiv gcd a b" "0 < b sdiv gcd a b" "b sdiv gcd a b * a = a sdiv gcd a b * b"
    "a sdiv gcd a b \<le> a" "b sdiv gcd a b \<le> b"
proof -
  show g: "0 < gcd a b" using assms by simp
  have e: "a sdiv gcd a b = a div gcd a b" "b sdiv gcd a b = b div gcd a b" using assms g by (simp_all add: signed_divide_int_def sgn_mult)
  show "0 < a sdiv gcd a b" "0 < b sdiv gcd a b" unfolding e using assms g by (simp_all add: pos_imp_zdiv_pos_iff zdvd_imp_le)
  show "b sdiv gcd a b * a = a sdiv gcd a b * b" unfolding e by (metis dvd_div_mult gcd_dvd1 gcd_dvd2 mult.commute)
  have "x div gcd a b \<le> x" if "0 < x" for x using int_div_less_self [of x "gcd a b"] g that
    by (cases "gcd a b = 1") auto
  then show "a sdiv gcd a b \<le> a" "b sdiv gcd a b \<le> b" unfolding e using assms by auto
qed

text \<open>The value of the sum under ``not false'' when the variable is eliminated.\<close>

lemma slack_of_sum:
  assumes "clashing m l a1 a2 c d" "cut_merge (\<lambda>x. x) \<bar>l\<bar> k1 k2 (lhs c) (lhs d) 0 False [] = (ms, k, clash)"
    and "0 < k1" "0 < k2" "k1 * a1 = k2 * a2"
  shows "msum (\<lambda>x. \<not> isFalseLit m x) ms - (k + k1 * rhs c + k2 * rhs d) \<le> k1 * slack m c + k2 * slack m d - k1 * a1"
    and "\<bar>l\<bar> \<notin> set (mvars ms)"
proof -
  let ?P = "\<lambda>x. \<not> isFalseLit m x" and ?v = "\<bar>l\<bar>"
  let ?Q = "\<lambda>x. if \<bar>x\<bar> = ?v then x = l else ?P x"
  have c: "cut_ready c" "cut_ready d" "(a1, - l) \<in> set (lhs c)" "(a2, l) \<in> set (lhs d)" "isUndefLit m l"
    using assms(1) by (auto simp: clashing_def)
  have l0: "l \<noteq> 0" using c(2,4) by (force simp: cut_ready_def nonzero_lits_def)
  have undef: "\<not> isFalseLit m x" if "\<bar>x\<bar> = ?v" for x
    using that c(5) by (auto simp: isUndefLit_def isFalseLit_def isTrueLit_def abs_eq_iff split: if_splits)
  have Q: "?Q x \<or> ?Q (- x)" if "x \<noteq> 0" for x
    using that by (auto simp: isFalseLit_def isUndefLit_def isTrueLit_def abs_eq_iff)
  note w = c(1,2) [unfolded cut_ready_def]
  have v: "?v \<notin> set (mvars ms)"
  proof (rule merge_eliminates [OF assms(2)])
    show "\<forall>p \<in> set (lhs c). \<forall>q \<in> set (lhs d). pair_ok ?v k1 k2 p q"
      unfolding pair_ok_def
      using cut_ready_unique [OF c(1) _ c(3)] cut_ready_unique [OF c(2) _ c(4)] l0 assms(5) by fastforce
    show "?v \<in> set (mvars (lhs c)) \<longleftrightarrow> ?v \<in> set (mvars (lhs d))"
      using c(3,4) by (force simp: set_mvars)
  qed (use w in auto)
  show "?v \<notin> set (mvars ms)" by (rule v)
  have "msum ?P ms = msum ?Q ms"
  proof (rule msum_cong)
    fix x assume "x \<in> set ms"
    then have "\<bar>snd x\<bar> \<noteq> ?v" using v by (force simp: set_mvars)
    then show "?P (snd x) = ?Q (snd x)" by simp
  qed
  also have "\<dots> \<le> k + k1 * msum ?Q (lhs c) + k2 * msum ?Q (lhs d)"
    using merge_value [OF assms(2), of ?Q] w Q assms(3,4) by auto
  also have "msum ?Q (lhs d) = msum ?P (lhs d)"
  proof (rule msum_cong)
    fix x assume x: "x \<in> set (lhs d)"
    show "?Q (snd x) = ?P (snd x)"
    proof (cases "\<bar>snd x\<bar> = ?v")
      case True
      then have "x = (a2, l)" using cut_ready_unique [OF c(2) x c(4)] by simp
      then show ?thesis using undef by simp
    qed simp
  qed
  also have "msum ?Q (lhs c) = msum ?P (lhs c) - a1"
  proof -
    have "msum ?P (lhs c) = msum (\<lambda>x. ?P x \<and> ?Q x) (lhs c) + msum (\<lambda>x. ?P x \<and> \<not> ?Q x) (lhs c)" by (rule msum_split)
    moreover have "msum (\<lambda>x. ?P x \<and> ?Q x) (lhs c) = msum ?Q (lhs c)"
      by (rule msum_cong) (use undef in auto)
    moreover have "msum (\<lambda>x. ?P x \<and> \<not> ?Q x) (lhs c) = msum (\<lambda>x. x = - l) (lhs c)"
    proof (rule msum_cong)
      fix x assume x: "x \<in> set (lhs c)"
      show "(?P (snd x) \<and> \<not> ?Q (snd x)) = (snd x = - l)"
      proof (cases "\<bar>snd x\<bar> = ?v")
        case True
        then have "x = (a1, - l)" using cut_ready_unique [OF c(1) x c(3)] by simp
        then show ?thesis using undef l0 by simp
      qed auto
    qed
    moreover have "msum (\<lambda>x. x = - l) (lhs c) = a1"
      using msum_single_var [OF _ c(3)] w by (simp add: sorted_wrt_map_lt_distinct)
    ultimately show ?thesis by linarith
  qed
  finally show "msum ?P ms - (k + k1 * rhs c + k2 * rhs d) \<le> k1 * slack m c + k2 * slack m d - k1 * a1"
    by (simp add: slack_def algebra_simps)
qed


text \<open>The sum of two clashing constraints, with exact arithmetic.\<close>

definition raw_cut :: "var \<Rightarrow> wconstraint \<Rightarrow> wconstraint \<Rightarrow> monomial list \<times> int \<times> bool" where
  "raw_cut v c d =
     (let a1 = getCoefficientBinarySearch c v; a2 = getCoefficientBinarySearch d v; g = gcd a1 a2;
          (ms, k, clash) = cut_merge (\<lambda>x. x) v (a2 sdiv g) (a1 sdiv g) (lhs c) (lhs d) 0 False []
      in (ms, k + (a2 sdiv g) * rhs c + (a1 sdiv g) * rhs d, clash))"

lemma raw_cut_facts:
  assumes cl: "clashing m l a1 a2 c d" and raw: "raw_cut \<bar>l\<bar> c d = (ms, k, clash)"
  shows "sat \<sigma> c \<Longrightarrow> sat \<sigma> d \<Longrightarrow> k \<le> lhs_value \<sigma> ms"
    and "sorted_wrt (<) (mvars ms)" "nonzero_lits ms" "pos_coeffs ms" "\<bar>l\<bar> \<notin> set (mvars ms)"
    and "set (map snd ms) \<subseteq> set (map snd (lhs c)) \<union> set (map snd (lhs d))"
    and "slack m c \<le> 0 \<or> slack m d \<le> 0 \<Longrightarrow> msum (\<lambda>x. \<not> isFalseLit m x) ms < k"
    and "- a1 * a2 < k" "k \<le> a2 * rhs c + a1 * rhs d"
proof -
  have c: "cut_ready c" "cut_ready d" "(a1, - l) \<in> set (lhs c)" "(a2, l) \<in> set (lhs d)"
    "slack m c < a1" "slack m d < a2"
    using cl by (auto simp: clashing_def)
  note w = c(1,2) [unfolded cut_ready_def]
  have a: "0 < a1" "0 < a2" using w c(3,4) by (force simp: pos_coeffs_def)+
  define k1 where "k1 = a2 sdiv gcd a1 a2"
  define k2 where "k2 = a1 sdiv gcd a1 a2"
  have s: "getCoefficientBinarySearch c \<bar>l\<bar> = a1" "getCoefficientBinarySearch d \<bar>l\<bar> = a2"
    using search_finds [OF c(1,3)] search_finds [OF c(2,4)] by simp_all
  note M = multipliers [OF a, folded k1_def k2_def]
  have kp: "0 < k1" "0 < k2" "k1 * a1 = k2 * a2" "k1 \<le> a2" "k2 \<le> a1" using M by simp_all
  obtain k0 where mg: "cut_merge (\<lambda>x. x) \<bar>l\<bar> k1 k2 (lhs c) (lhs d) 0 False [] = (ms, k0, clash)"
    and k: "k = k0 + k1 * rhs c + k2 * rhs d"
    using raw by (auto simp: raw_cut_def s Let_def k1_def k2_def split: prod.splits)
  have sh: "sorted_wrt (<) (mvars ms) \<and> nonzero_lits ms \<and> pos_coeffs ms \<and> k0 \<le> 0
      \<and> set (map snd ms) \<subseteq> set (map snd ([] :: monomial list)) \<union> set (map snd (lhs c)) \<union> set (map snd (lhs d))"
    by (rule merge_shape [OF mg]) (use w kp in auto)
  then show "sorted_wrt (<) (mvars ms)" "nonzero_lits ms" "pos_coeffs ms"
    "set (map snd ms) \<subseteq> set (map snd (lhs c)) \<union> set (map snd (lhs d))" by auto
  note sl = slack_of_sum [OF cl mg kp(1-3)]
  show "\<bar>l\<bar> \<notin> set (mvars ms)" by (rule sl(2))
  have sl1: "msum (\<lambda>x. \<not> isFalseLit m x) ms - k \<le> k1 * slack m c + k2 * slack m d - k1 * a1"
    using sl(1) by (simp add: k)
  have b: "k1 * slack m c \<le> k1 * (a1 - 1)" "k2 * slack m d \<le> k2 * (a2 - 1)"
    using kp c(5,6) by (simp_all add: mult_left_mono)
  then have b': "k1 * slack m c \<le> k1 * a1 - k1" "k2 * slack m d \<le> k2 * a2 - k2" by (simp_all add: algebra_simps)
  show "msum (\<lambda>x. \<not> isFalseLit m x) ms < k" if "slack m c \<le> 0 \<or> slack m d \<le> 0"
    using that
  proof
    assume "slack m c \<le> 0"
    then have "k1 * slack m c \<le> 0" using kp by (simp add: mult_nonneg_nonpos)
    then show ?thesis using sl1 b'(2) kp by linarith
  next
    assume "slack m d \<le> 0"
    then have "k2 * slack m d \<le> 0" using kp by (simp add: mult_nonneg_nonpos)
    then show ?thesis using sl1 b'(1) kp by linarith
  qed
  have "0 \<le> msum (\<lambda>x. \<not> isFalseLit m x) ms" using sh by (simp add: msum_nonneg)
  then have "- (k1 * a1) < k" using sl1 b' kp by linarith
  moreover have "k1 * a1 \<le> a1 * a2" using kp a by (metis mult.commute mult_left_mono less_imp_le)
  ultimately show "- a1 * a2 < k" by simp
  have "k1 * rhs c \<le> a2 * rhs c" "k2 * rhs d \<le> a1 * rhs d" using kp w by (auto intro: mult_right_mono)
  then show "k \<le> a2 * rhs c + a1 * rhs d" using k sh by linarith
  show "k \<le> lhs_value \<sigma> ms" if "sat \<sigma> c" "sat \<sigma> d"
  proof -
    have "lhs_value \<sigma> ms - k0 = lhs_value \<sigma> [] - 0 + k1 * lhs_value \<sigma> (lhs c) + k2 * lhs_value \<sigma> (lhs d)"
      using merge_value [OF mg, of "lit_true \<sigma>"] w kp by (auto simp: lit_true_def)
    moreover have "k1 * rhs c \<le> k1 * lhs_value \<sigma> (lhs c)" "k2 * rhs d \<le> k2 * lhs_value \<sigma> (lhs d)"
      using that kp by (auto simp: sat_def intro: mult_left_mono)
    ultimately show ?thesis using k by simp
  qed
qed

lemma applyCut_T_exact:
  assumes cl: "clashing m l a1 a2 c d" and small: "rhs c * rhs d < 2 ^ n"
  shows "applyCut_T (wrap (Suc (Suc n))) \<bar>l\<bar> c d = finish_cut (raw_cut \<bar>l\<bar> c d)"
proof -
  let ?w = "wrap (Suc (Suc n))"
  have c: "cut_ready c" "cut_ready d" "(a1, - l) \<in> set (lhs c)" "(a2, l) \<in> set (lhs d)"
    using cl by (auto simp: clashing_def)
  note w = c(1,2) [unfolded cut_ready_def]
  have a: "0 < a1" "0 < a2" using w c(3,4) by (force simp: pos_coeffs_def)+
  have ar: "a1 \<le> rhs c" "a2 \<le> rhs d" using w c(3,4) by force+
  have s: "getCoefficientBinarySearch c \<bar>l\<bar> = a1" "getCoefficientBinarySearch d \<bar>l\<bar> = a2"
    using search_finds [OF c(1,3)] search_finds [OF c(2,4)] by simp_all
  define k1 where "k1 = a2 sdiv gcd a1 a2"
  define k2 where "k2 = a1 sdiv gcd a1 a2"
  note M = multipliers [OF a, folded k1_def k2_def]
  have kp: "0 < k1" "0 < k2" "k1 \<le> rhs d" "k2 \<le> rhs c" using M ar by auto
  have prod: "x * y < 2 ^ n" "0 \<le> x * y" if "0 \<le> x" "0 \<le> y" "x \<le> rhs d" "y \<le> rhs c" for x y
  proof -
    have "x * y \<le> rhs d * rhs c" using that by (intro mult_mono) auto
    then show "x * y < 2 ^ n" using small by (simp add: mult.commute)
  qed (use that in auto)
  have b1: "scaled_below n k1 (lhs c)" unfolding scaled_below_def
    using prod(1) [of k1] kp w by (force simp: pos_coeffs_def)
  have b2: "scaled_below n k2 (lhs d)" unfolding scaled_below_def
    using prod(1) [of _ k2] kp w by (force simp: pos_coeffs_def mult.commute)
  obtain ms kw clash where mw: "cut_merge ?w \<bar>l\<bar> k1 k2 (lhs c) (lhs d) 0 False [] = (ms, kw, clash)"
    by (metis prod_cases3)
  obtain k where mg: "cut_merge (\<lambda>x. x) \<bar>l\<bar> k1 k2 (lhs c) (lhs d) 0 False [] = (ms, k, clash)"
    and kk: "?w kw = ?w k"
    using merge_wrap [OF mw b1 b2 refl] by blast
  have raw: "raw_cut \<bar>l\<bar> c d = (ms, k + k1 * rhs c + k2 * rhs d, clash)"
    using mg by (simp add: raw_cut_def s Let_def k1_def k2_def)
  note R = raw_cut_facts [OF cl raw]
  have up: "a2 * rhs c < 2 ^ n" "a1 * rhs d < 2 ^ n" "a1 * a2 < 2 ^ n"
    using prod(1) [of a2 "rhs c"] prod(1) [of "rhs d" a1] prod(1) [of a2 a1] a ar w by (auto simp: mult.commute)
  have "?w (kw + ?w (?w (k1 * rhs c) + ?w (k2 * rhs d))) = ?w (k + k1 * rhs c + k2 * rhs d)"
    by (metis kk wrap_add add.assoc)
  also have "\<dots> = k + k1 * rhs c + k2 * rhs d"
    by (rule wrap_id) (use R(8,9) up in auto)
  finally have new: "?w (kw + ?w (?w (k1 * rhs c) + ?w (k2 * rhs d))) = k + k1 * rhs c + k2 * rhs d" .
  have g: "GCD_T a1 a2 = gcd a1 a2" "gcd a1 a2 \<noteq> 0" using a by (auto simp: GCD_T_def)
  show ?thesis
    unfolding applyCut_T_def s g(1) k1_def [symmetric] k2_def [symmetric] Let_def raw
    using g(2) mw by (auto simp: new)
qed

lemma applyCut_exact:
  assumes "clashing m l a1 a2 c d"
  shows "applyCut \<bar>l\<bar> c d = finish_cut (raw_cut \<bar>l\<bar> c d)"
proof (cases "rhs c * rhs d < 2 ^ 30")
  case True
  then show ?thesis using applyCut_T_exact [OF assms, of 30] by (simp add: applyCut_def numeral_2_eq_2 [symmetric])
next
  case False
  have "rhs c < 2 ^ 31" "rhs d < 2 ^ 31" "0 < rhs c" "0 < rhs d" using assms by (auto simp: clashing_def cut_ready_def)
  then have "rhs c * rhs d < 2 ^ 31 * 2 ^ 31" by (intro mult_strict_mono) auto
  then have "rhs c * rhs d < 2 ^ 62" by simp
  then show ?thesis using applyCut_T_exact [OF assms, of 62] False by (simp add: applyCut_def)
qed


section \<open>The result of a cut\<close>

lemma finish_cut_result:
  assumes "pos_coeffs ms"
  shows "\<exists>r. finish_cut (ms, k, cl) = Some (r, cl) \<and> (r = None \<longrightarrow> k \<le> 0 \<or> 2 ^ 30 < k)
    \<and> (\<forall>cut. r = Some cut \<longrightarrow> (\<forall>P. rhs cut \<le> msum P (lhs cut) \<longleftrightarrow> k \<le> msum P ms)
         \<and> (cut = WConstraint_bool False \<or> ms \<noteq> [] \<and> normal_cut ms k cut))"
proof -
  consider "k \<le> 0" | (e) "0 < k" "ms = []" | (c) "0 < k" "ms \<noteq> []" by linarith
  then show ?thesis
  proof cases
    case c
    define g where "g = (if cut_gcd k (-1) ms = -1 then k else cut_gcd k (-1) ms)"
    note N = cut_normalize [OF c(1) assms refl, folded g_def]
    show ?thesis
    proof (cases "cdiv k g \<le> 2 ^ 30")
      case True
      then obtain ms' where "cut_divide g (cdiv k g) ms = Some ms'"
        "normal_cut ms k (WConstraint_vec (map fst ms') (map snd ms') (wrap 32 (cdiv k g)))"
        using N(4) by blast
      then show ?thesis using c N(1) True by (simp add: finish_cut_def Let_def g_def [symmetric] normal_cut_def)
    next
      case False
      then show ?thesis using c N(1,3) by (simp add: finish_cut_def Let_def g_def [symmetric])
    qed
  qed (auto simp: finish_cut_def WConstraint_bool_def)
qed

lemma mvars_snd: "map snd ms = map snd ns \<Longrightarrow> mvars ms = mvars ns"
proof -
  assume "map snd ms = map snd ns"
  then have "map abs (map snd ms) = map abs (map snd ns)" by (rule arg_cong)
  then show ?thesis by (simp add: mvars_def comp_def)
qed

lemma nonzero_snd: "map snd ms = map snd ns \<Longrightarrow> nonzero_lits ms = nonzero_lits ns"
proof -
  assume "map snd ms = map snd ns"
  then have "set (map snd ms) = set (map snd ns)" by (rule arg_cong)
  moreover have "nonzero_lits xs \<longleftrightarrow> 0 \<notin> set (map snd xs)" for xs by (auto simp: nonzero_lits_def image_iff)
  ultimately show ?thesis by simp
qed

text \<open>What the cut promises: implied, ready for the next cut, without the eliminated variable.\<close>

definition good_cut :: "lit \<Rightarrow> wconstraint \<Rightarrow> wconstraint \<Rightarrow> wconstraint \<Rightarrow> bool" where
  "good_cut l c d e \<longleftrightarrow> (\<forall>\<sigma>. sat \<sigma> c \<and> sat \<sigma> d \<longrightarrow> sat \<sigma> e)
     \<and> (e = WConstraint_bool False \<or> cut_ready e \<and> lhs e \<noteq> []) \<and> \<bar>l\<bar> \<notin> set (mvars (lhs e))
     \<and> set (map snd (lhs e)) \<subseteq> set (map snd (lhs c)) \<union> set (map snd (lhs d))"

lemma applyCut_result:
  assumes cl: "clashing m l a1 a2 c d"
  shows "\<exists>r clash. applyCut \<bar>l\<bar> c d = Some (r, clash)
    \<and> (r = None \<longrightarrow> (slack m c \<le> 0 \<or> slack m d \<le> 0) \<longrightarrow> 2 ^ 30 < a2 * rhs c + a1 * rhs d)
    \<and> (\<forall>cut. r = Some cut \<longrightarrow> good_cut l c d cut \<and> (slack m c \<le> 0 \<or> slack m d \<le> 0 \<longrightarrow> slack m cut < 0))"
proof -
  obtain ms k clash where raw: "raw_cut \<bar>l\<bar> c d = (ms, k, clash)" by (metis prod_cases3)
  note R = raw_cut_facts [OF cl raw]
  obtain r where r: "finish_cut (ms, k, clash) = Some (r, clash)" "r = None \<longrightarrow> k \<le> 0 \<or> 2 ^ 30 < k"
    and F: "\<And>cut. r = Some cut \<Longrightarrow> (\<forall>P. rhs cut \<le> msum P (lhs cut) \<longleftrightarrow> k \<le> msum P ms)
         \<and> (cut = WConstraint_bool False \<or> ms \<noteq> [] \<and> normal_cut ms k cut)"
    using finish_cut_result [OF R(4), of k clash] by blast
  have pos: "0 < k" if "slack m c \<le> 0 \<or> slack m d \<le> 0"
    using R(7) [OF that] msum_nonneg [OF R(4), of "\<lambda>x. \<not> isFalseLit m x"] by linarith
  have none: "r = None \<longrightarrow> (slack m c \<le> 0 \<or> slack m d \<le> 0) \<longrightarrow> 2 ^ 30 < a2 * rhs c + a1 * rhs d"
    using r(2) pos R(9) by fastforce
  have "good_cut l c d cut \<and> (slack m c \<le> 0 \<or> slack m d \<le> 0 \<longrightarrow> slack m cut < 0)" if cut: "r = Some cut" for cut
  proof -
    note v = F [OF cut, THEN conjunct1, rule_format] and s = F [OF cut, THEN conjunct2]
    have nc: "map snd (lhs cut) = map snd ms \<and> cut_ready cut \<and> lhs cut \<noteq> []" if "ms \<noteq> []" "normal_cut ms k cut"
    proof -
      have e: "map snd (lhs cut) = map snd ms" and b: "0 < rhs cut" "rhs cut \<le> 2 ^ 30"
        "\<forall>m \<in> set (lhs cut). 0 < fst m \<and> fst m \<le> rhs cut" using that(2) by (auto simp: normal_cut_def)
      have "mvars (lhs cut) = mvars ms" by (rule mvars_snd [OF e])
      moreover have "nonzero_lits (lhs cut)" using R(3) nonzero_snd [OF e] by simp
      ultimately show ?thesis using e b R(2) that(1) by (auto simp: cut_ready_def pos_coeffs_def)
    qed
    have "lit_set": "set (map snd (lhs cut)) \<subseteq> set (map snd (lhs c)) \<union> set (map snd (lhs d))"
      using s
    proof
      assume "ms \<noteq> [] \<and> normal_cut ms k cut"
      then show ?thesis using nc R(6) by metis
    qed (simp add: WConstraint_bool_def)
    have elim: "\<bar>l\<bar> \<notin> set (mvars (lhs cut))"
      using s
    proof
      assume "ms \<noteq> [] \<and> normal_cut ms k cut"
      then have "map snd (lhs cut) = map snd ms" using nc by blast
      then have "mvars (lhs cut) = mvars ms" by (rule mvars_snd)
      then show ?thesis using R(5) by simp
    qed (simp add: WConstraint_bool_def)
    have "sat \<sigma> cut" if "sat \<sigma> c" "sat \<sigma> d" for \<sigma>
      using R(1) [OF that] v [of "lit_true \<sigma>"] by (simp add: sat_def)
    moreover have "slack m cut < 0" if "slack m c \<le> 0 \<or> slack m d \<le> 0"
      using R(7) [OF that] v [of "\<lambda>x. \<not> isFalseLit m x"] by (simp add: slack_def)
    ultimately show ?thesis using s nc elim lit_set unfolding good_cut_def by blast
  qed
  then show ?thesis using r(1) none applyCut_exact [OF cl] raw by auto
qed

section \<open>Weakening\<close>

lemma subseq_wf:
  assumes "subseq kept ms"
  shows "set kept \<subseteq> set ms \<and> (sorted_wrt (<) (mvars ms) \<longrightarrow> sorted_wrt (<) (mvars kept))
    \<and> (pos_coeffs ms \<longrightarrow> (\<forall>P. (\<forall>m \<in> set kept. \<not> P (snd m)) \<longrightarrow> msum P ms \<le> msum (\<lambda>_. True) ms - msum (\<lambda>_. True) kept))"
  using assms
proof (induction kept ms rule: list_emb.induct)
  case (list_emb_Nil ys)
  then show ?case by (auto intro: msum_le_total)
next
  case (list_emb_Cons xs ys y)
  show ?case
  proof (intro conjI impI allI)
    show "set xs \<subseteq> set (y # ys)" using list_emb_Cons.IH by auto
    show "sorted_wrt (<) (mvars xs)" if "sorted_wrt (<) (mvars (y # ys))" using that list_emb_Cons.IH by simp
    fix P assume "pos_coeffs (y # ys)" "\<forall>m \<in> set xs. \<not> P (snd m)"
    then have "0 < fst y" "msum P ys \<le> msum (\<lambda>_. True) ys - msum (\<lambda>_. True) xs" using list_emb_Cons.IH by auto
    then show "msum P (y # ys) \<le> msum (\<lambda>_. True) (y # ys) - msum (\<lambda>_. True) xs" by simp
  qed
next
  case (list_emb_Cons2 x y xs ys)
  have sub: "set (mvars xs) \<subseteq> set (mvars ys)" using list_emb_Cons2.IH by (auto simp: set_mvars)
  show ?case
  proof (intro conjI impI allI)
    show "set (x # xs) \<subseteq> set (y # ys)" using list_emb_Cons2 by auto
    show "sorted_wrt (<) (mvars (x # xs))" if "sorted_wrt (<) (mvars (y # ys))" using that list_emb_Cons2 sub by auto
    fix P assume "pos_coeffs (y # ys)" "\<forall>m \<in> set (x # xs). \<not> P (snd m)"
    then have "msum P ys \<le> msum (\<lambda>_. True) ys - msum (\<lambda>_. True) xs" "\<not> P (snd y)" using list_emb_Cons2 by auto
    then show "msum P (y # ys) \<le> msum (\<lambda>_. True) (y # ys) - msum (\<lambda>_. True) (x # xs)" using list_emb_Cons2.hyps by simp
  qed
qed

lemma fix_loop_spec:
  assumes "pos_coeffs ms" "s < msum (\<lambda>y. isFalseLit m y \<and> \<bar>y\<bar> \<noteq> x) ms" "added \<or> x \<in> set (mvars ms)"
  shows "\<exists>kept. fix_loop m x ms s added w = Some (w\<lparr>lhs := lhs w @ map (\<lambda>m. (1, snd m)) kept\<rparr>) \<and> subseq kept ms
    \<and> s < msum (\<lambda>y. \<bar>y\<bar> \<noteq> x) kept \<and> (\<forall>k \<in> set kept. \<bar>snd k\<bar> = x \<or> isFalseLit m (snd k)) \<and> (added \<or> x \<in> set (mvars kept))"
  using assms
proof (induction ms arbitrary: s added w)
  case Nil
  then show ?case by (intro exI [of _ "[]"]) (simp add: fix_loop.simps)
next
  case (Cons p ms)
  obtain a l where p: "p = (a, l)" by (cases p)
  let ?F = "\<lambda>y. isFalseLit m y \<and> \<bar>y\<bar> \<noteq> x"
  have pm: "0 < a" "pos_coeffs ms" and n: "0 \<le> msum ?F ms" using Cons.prems(1) by (auto simp: p msum_nonneg)
  consider (stop) "s < 0" "added" | (keep) "s \<ge> 0" "?F l" | (x) "s \<ge> 0 \<or> \<not> added" "\<bar>l\<bar> = x"
    | (skip) "s \<ge> 0 \<or> \<not> added" "\<not> (?F l \<and> s \<ge> 0)" "\<bar>l\<bar> \<noteq> x" by linarith
  then show ?case
  proof cases
    case stop
    then show ?thesis by (intro exI [of _ "[]"]) (simp add: fix_loop.simps)
  next
    case keep
    have "s - a < msum ?F ms" "added \<or> x \<in> set (mvars ms)" using Cons.prems keep by (auto simp: p)
    from Cons.IH [OF pm(2) this, of "addMonomial 1 l w"] obtain kept where
      k: "fix_loop m x ms (s - a) added (addMonomial 1 l w) = Some (w\<lparr>lhs := lhs w @ map (\<lambda>m. (1, snd m)) (p # kept)\<rparr>)"
      "subseq kept ms" "s - a < msum (\<lambda>y. \<bar>y\<bar> \<noteq> x) kept"
      "\<forall>k \<in> set kept. \<bar>snd k\<bar> = x \<or> isFalseLit m (snd k)" "added \<or> x \<in> set (mvars kept)"
      by (auto simp: addMonomial_def p)
    show ?thesis by (rule exI [of _ "p # kept"]) (use k keep in \<open>auto simp: fix_loop.simps [of m x "(a, l) # ms"] p\<close>)
  next
    case x
    have "s < msum ?F ms" "True \<or> x \<in> set (mvars ms)" using Cons.prems x by (auto simp: p)
    from Cons.IH [OF pm(2) this, of "addMonomial 1 l w"] obtain kept where
      k: "fix_loop m x ms s True (addMonomial 1 l w) = Some (w\<lparr>lhs := lhs w @ map (\<lambda>m. (1, snd m)) (p # kept)\<rparr>)"
      "subseq kept ms" "s < msum (\<lambda>y. \<bar>y\<bar> \<noteq> x) kept" "\<forall>k \<in> set kept. \<bar>snd k\<bar> = x \<or> isFalseLit m (snd k)"
      by (auto simp: addMonomial_def p)
    show ?thesis by (rule exI [of _ "p # kept"]) (use k x in \<open>auto simp: fix_loop.simps [of m x "(a, l) # ms"] p\<close>)
  next
    case skip
    have "s < msum ?F ms" "added \<or> x \<in> set (mvars ms)" using Cons.prems skip n by (auto simp: p split: if_splits)
    from Cons.IH [OF pm(2) this, of w] obtain kept where
      k: "fix_loop m x ms s added w = Some (w\<lparr>lhs := lhs w @ map (\<lambda>m. (1, snd m)) kept\<rparr>)"
      "subseq kept ms" "s < msum (\<lambda>y. \<bar>y\<bar> \<noteq> x) kept" "\<forall>k \<in> set kept. \<bar>snd k\<bar> = x \<or> isFalseLit m (snd k)"
      "added \<or> x \<in> set (mvars kept)"
      by auto
    show ?thesis by (rule exI [of _ kept]) (use k skip in \<open>auto simp: fix_loop.simps [of m x "(a, l) # ms"] p\<close>)
  qed
qed

lemma sum_loop_eq: "sum_loop x ms t c = (t + msum (\<lambda>_. True) ms, foldl (\<lambda>c (a, l). if \<bar>l\<bar> = x then a else c) c ms)"
  by (induction ms arbitrary: t c) auto

lemma sum_loop_coeff:
  assumes "(a, l) \<in> set ms" "distinct (mvars ms)"
  shows "foldl (\<lambda>c (a, l). if \<bar>l\<bar> = \<bar>l0\<bar> then a else c) c ms = (if \<bar>l\<bar> = \<bar>l0\<bar> then a else foldl (\<lambda>c (a, l). if \<bar>l\<bar> = \<bar>l0\<bar> then a else c) c ms)"
proof -
  have other: "foldl (\<lambda>c (a, l). if \<bar>l\<bar> = v then a else c) c ms = c" if "v \<notin> set (mvars ms)" for v c and ms :: "monomial list"
    using that by (induction ms arbitrary: c) auto
  show ?thesis using assms by (induction ms arbitrary: c) (auto simp: other set_mvars image_iff)
qed

text \<open>A weakened constraint is a clause with one non-false literal, which the constraint implies.\<close>

lemma weaken_result:
  assumes c: "cut_ready c" "(a, x) \<in> set (lhs c)" "\<bar>x\<bar> = \<bar>l\<bar>" "isUndefLit m x" "slack m c < a"
  shows "\<exists>w. fixRoundingProblemSAT m l c = Some w \<and> cut_ready w \<and> rhs w = 1 \<and> (1, x) \<in> set (lhs w) \<and> slack m w = 0
    \<and> (\<forall>\<sigma>. sat \<sigma> c \<longrightarrow> sat \<sigma> w) \<and> set (map snd (lhs w)) \<subseteq> set (map snd (lhs c))"
proof -
  note w = c(1) [unfolded cut_ready_def]
  have d: "distinct (mvars (lhs c))" using w by (simp add: sorted_wrt_map_lt_distinct)
  let ?t = "- rhs c + msum (\<lambda>_. True) (lhs c)"
  have sl: "sum_loop \<bar>l\<bar> (lhs c) (- rhs c) 0 = (?t, a)"
    using sum_loop_coeff [OF c(2) d, of l 0] c(3) by (simp add: sum_loop_eq)
  have und: "\<not> isFalseLit m y" if "\<bar>y\<bar> = \<bar>l\<bar>" for y
    using that c(3,4) by (auto simp: isUndefLit_def isFalseLit_def abs_eq_iff split: if_splits)
  have "msum (\<lambda>y. isFalseLit m y \<and> \<bar>y\<bar> \<noteq> \<bar>l\<bar>) (lhs c) = msum (\<lambda>y. \<not> \<not> isFalseLit m y) (lhs c)"
    by (rule msum_cong) (use und in auto)
  then have "?t - a < msum (\<lambda>y. isFalseLit m y \<and> \<bar>y\<bar> \<noteq> \<bar>l\<bar>) (lhs c)"
    using msum_compl [of "\<lambda>y. \<not> isFalseLit m y" "lhs c"] c(5) by (simp add: slack_def)
  moreover have "False \<or> \<bar>l\<bar> \<in> set (mvars (lhs c))" using c(2,3) by (force simp: set_mvars)
  ultimately obtain kept where k: "fix_loop m \<bar>l\<bar> (lhs c) (?t - a) False (WConstraint_bool True)
        = Some (WConstraint_bool True\<lparr>lhs := lhs (WConstraint_bool True) @ map (\<lambda>m. (1, snd m)) kept\<rparr>)"
    and sub: "subseq kept (lhs c)" and low: "?t - a < msum (\<lambda>y. \<bar>y\<bar> \<noteq> \<bar>l\<bar>) kept"
    and fls: "\<forall>k \<in> set kept. \<bar>snd k\<bar> = \<bar>l\<bar> \<or> isFalseLit m (snd k)" and has: "\<bar>l\<bar> \<in> set (mvars kept)"
    using fix_loop_spec [of "lhs c" "?t - a" m "\<bar>l\<bar>" False "WConstraint_bool True"] w by auto
  note S = subseq_wf [OF sub]
  let ?w = "\<lparr>lhs = map (\<lambda>m. (1, snd m)) kept, rhs = 1\<rparr>"
  have fx: "fixRoundingProblemSAT m l c = Some ?w"
    using k by (simp add: fixRoundingProblemSAT_def sl setConstant_def WConstraint_bool_def)
  obtain p where p: "p \<in> set kept" "\<bar>snd p\<bar> = \<bar>l\<bar>" using has by (auto simp: set_mvars)
  have ux: "r = (a, x)" if "r \<in> set kept" "\<bar>snd r\<bar> = \<bar>l\<bar>" for r
  proof (rule cut_ready_unique [OF c(1) _ c(2)])
    show "r \<in> set (lhs c)" using that(1) S by blast
    show "\<bar>snd r\<bar> = \<bar>snd (a, x)\<bar>" using that(2) c(3) by simp
  qed
  have pe: "p = (a, x)" by (rule ux [OF p])
  have mv: "mvars (map (\<lambda>m. (1, snd m)) kept) = mvars kept" by (simp add: mvars_def)
  have ready: "cut_ready ?w" unfolding cut_ready_def using S w mv by (auto simp: nonzero_lits_def pos_coeffs_def)
  have dk: "distinct (mvars kept)" using S w by (simp add: sorted_wrt_map_lt_distinct)
  have x_only: "msum (\<lambda>y. \<not> isFalseLit m y) (lhs ?w) = msum (\<lambda>y. y = x) (lhs ?w)"
  proof (rule msum_cong)
    fix q assume "q \<in> set (lhs ?w)"
    then obtain r where r: "r \<in> set kept" "snd q = snd r" by auto
    show "(\<not> isFalseLit m (snd q)) = (snd q = x)"
    proof (cases "\<bar>snd r\<bar> = \<bar>l\<bar>")
      case True
      then have "r = (a, x)" by (rule ux [OF r(1)])
      then show ?thesis using r und c(3) by simp
    next
      case False
      then show ?thesis using r fls c(3) by auto
    qed
  qed
  have "(1, x) \<in> set (lhs ?w)" using p(1) unfolding pe by force
  moreover have "slack m ?w = 0"
    unfolding slack_def x_only using msum_single_var [of "lhs ?w" "(1, x)"] \<open>(1, x) \<in> set (lhs ?w)\<close> dk mv by simp
  moreover have "sat \<sigma> ?w" if "sat \<sigma> c" for \<sigma>
  proof (rule ccontr)
    assume "\<not> sat \<sigma> ?w"
    then have "\<not> 0 < lhs_value \<sigma> (lhs ?w)" by (simp add: sat_def)
    then have "\<forall>q \<in> set (lhs ?w). \<not> lit_true \<sigma> (snd q)" using msum_pos_iff [of "lhs ?w"] ready by (simp add: cut_ready_def)
    then have "\<forall>k \<in> set kept. \<not> lit_true \<sigma> (snd k)" by simp
    then have le: "lhs_value \<sigma> (lhs c) \<le> msum (\<lambda>_. True) (lhs c) - msum (\<lambda>_. True) kept" using S w by blast
    have "msum (\<lambda>_. True) kept = msum (\<lambda>y. \<bar>y\<bar> \<noteq> \<bar>l\<bar>) kept + msum (\<lambda>y. \<not> \<bar>y\<bar> \<noteq> \<bar>l\<bar>) kept"
      by (rule msum_compl [symmetric])
    moreover have "a \<le> msum (\<lambda>y. \<not> \<bar>y\<bar> \<noteq> \<bar>l\<bar>) kept"
    proof -
      have "pos_coeffs kept" using S w unfolding pos_coeffs_def by blast
      then show ?thesis using msum_ge_member [of kept p "\<lambda>y. \<not> \<bar>y\<bar> \<noteq> \<bar>l\<bar>"] p by (simp add: pe)
    qed
    ultimately have "msum (\<lambda>_. True) kept > ?t" using low by linarith
    then show False using le that by (simp add: sat_def)
  qed
  moreover have "set (map snd (lhs ?w)) \<subseteq> set (map snd (lhs c))" using S by auto
  ultimately show ?thesis using fx ready by (intro exI [of _ ?w]) simp
qed

lemma weaken_clashing:
  assumes "clashing m l a1 a2 c d"
  shows "\<exists>w. fixRoundingProblemSAT m (- l) c = Some w \<and> clashing m l 1 a2 w d \<and> rhs w = 1 \<and> slack m w = 0
      \<and> (\<forall>\<sigma>. sat \<sigma> c \<longrightarrow> sat \<sigma> w) \<and> set (map snd (lhs w)) \<subseteq> set (map snd (lhs c))"
    and "\<exists>w. fixRoundingProblemSAT m l d = Some w \<and> clashing m l a1 1 c w \<and> rhs w = 1 \<and> slack m w = 0
      \<and> (\<forall>\<sigma>. sat \<sigma> d \<longrightarrow> sat \<sigma> w) \<and> set (map snd (lhs w)) \<subseteq> set (map snd (lhs d))"
proof -
  have c: "cut_ready c" "cut_ready d" "(a1, - l) \<in> set (lhs c)" "(a2, l) \<in> set (lhs d)" "isUndefLit m l"
    "slack m c < a1" "slack m d < a2"
    using assms by (auto simp: clashing_def)
  have u: "isUndefLit m (- l)" using c(5) by (simp add: isUndefLit_def)
  from weaken_result [OF c(1,3) refl u c(6)]
  show "\<exists>w. fixRoundingProblemSAT m (- l) c = Some w \<and> clashing m l 1 a2 w d \<and> rhs w = 1 \<and> slack m w = 0
      \<and> (\<forall>\<sigma>. sat \<sigma> c \<longrightarrow> sat \<sigma> w) \<and> set (map snd (lhs w)) \<subseteq> set (map snd (lhs c))"
    using c unfolding clashing_def by auto
  from weaken_result [OF c(2,4) refl c(5,7)]
  show "\<exists>w. fixRoundingProblemSAT m l d = Some w \<and> clashing m l a1 1 c w \<and> rhs w = 1 \<and> slack m w = 0
      \<and> (\<forall>\<sigma>. sat \<sigma> d \<longrightarrow> sat \<sigma> w) \<and> set (map snd (lhs w)) \<subseteq> set (map snd (lhs d))"
    using c unfolding clashing_def by auto
qed

section \<open>The resolution step of a conflict\<close>

lemma good_cut_weaker:
  assumes "good_cut l c' d' e" "\<And>\<sigma>. sat \<sigma> c \<Longrightarrow> sat \<sigma> c'" "\<And>\<sigma>. sat \<sigma> d \<Longrightarrow> sat \<sigma> d'"
    and "set (map snd (lhs c')) \<subseteq> set (map snd (lhs c))" "set (map snd (lhs d')) \<subseteq> set (map snd (lhs d))"
  shows "good_cut l c d e"
  using assms unfolding good_cut_def by blast

lemma cut_to_falsified:
  assumes cl: "clashing m l a1 a2 c d" and z: "slack m c \<le> 0 \<or> slack m d \<le> 0"
  shows "\<exists>e' clash ov. cut_to \<bar>l\<bar> c d e = Some (ov, e', clash) \<and> (ov \<longrightarrow> 2 ^ 30 < a2 * rhs c + a1 * rhs d \<and> e' = e)
    \<and> (\<not> ov \<longrightarrow> good_cut l c d e' \<and> slack m e' < 0)"
proof -
  obtain r clash where r: "applyCut \<bar>l\<bar> c d = Some (r, clash)" "r = None \<longrightarrow> 2 ^ 30 < a2 * rhs c + a1 * rhs d"
    "\<forall>cut. r = Some cut \<longrightarrow> good_cut l c d cut \<and> slack m cut < 0"
    using applyCut_result [OF cl] z by blast
  then show ?thesis by (cases r) (auto simp: cut_to_def)
qed

lemma conflict_cut_facts:
  assumes cl: "clashing m l a1 a2 c d"
  shows "\<exists>e clash c' d'. conflict_cut m l (- l) c d = Some (False, e, clash, c', d') \<and> good_cut l c d e \<and> slack m e < 0"
proof -
  obtain r clash where r: "applyCut \<bar>l\<bar> c d = Some (r, clash)" "\<And>e. r = Some e \<Longrightarrow> good_cut l c d e"
    using applyCut_result [OF cl] by blast
  obtain ov e where first: "cut_to \<bar>l\<bar> c d (WConstraint_bool True) = Some (ov, e, clash)"
    and ov: "\<not> ov \<longrightarrow> good_cut l c d e"
    using r by (cases r) (auto simp: cut_to_def)
  show ?thesis
  proof (cases "\<not> ov \<and> slack m e < 0")
    case True
    then show ?thesis using first ov by (simp add: conflict_cut_def)
  next
    case False
    obtain wc wd where wc: "fixRoundingProblemSAT m (- l) c = Some wc" "clashing m l 1 a2 wc d" "rhs wc = 1" "slack m wc = 0"
        "\<And>\<sigma>. sat \<sigma> c \<Longrightarrow> sat \<sigma> wc" "set (map snd (lhs wc)) \<subseteq> set (map snd (lhs c))"
      and wd: "fixRoundingProblemSAT m l d = Some wd" "clashing m l a1 1 c wd" "rhs wd = 1" "slack m wd = 0"
        "\<And>\<sigma>. sat \<sigma> d \<Longrightarrow> sat \<sigma> wd" "set (map snd (lhs wd)) \<subseteq> set (map snd (lhs d))"
      using weaken_clashing [OF cl] by blast
    define c1 where "c1 = (if getSize d > getSize c then c else wc)"
    define d1 where "d1 = (if getSize d > getSize c then wd else d)"
    define b1 where "b1 = (if getSize d > getSize c then a1 else 1)"
    define b2 where "b2 = (if getSize d > getSize c then 1 else a2)"
    have weak: "(if getSize d > getSize c then map_option (Pair c) (fixRoundingProblemSAT m l d)
        else map_option (\<lambda>w. (w, d)) (fixRoundingProblemSAT m (- l) c)) = Some (c1, d1)"
      using wc(1) wd(1) by (simp add: c1_def d1_def)
    have cl1: "clashing m l b1 b2 c1 d1" and z1: "slack m c1 \<le> 0 \<or> slack m d1 \<le> 0"
      using wc(2,4) wd(2,4) by (auto simp: c1_def d1_def b1_def b2_def)
    have imp1: "\<And>\<sigma>. sat \<sigma> c \<Longrightarrow> sat \<sigma> c1" "\<And>\<sigma>. sat \<sigma> d \<Longrightarrow> sat \<sigma> d1"
      "set (map snd (lhs c1)) \<subseteq> set (map snd (lhs c))" "set (map snd (lhs d1)) \<subseteq> set (map snd (lhs d))"
      using wc(5,6) wd(5,6) by (auto simp: c1_def d1_def)
    obtain e1 clash1 ov1 where second: "cut_to \<bar>l\<bar> c1 d1 e = Some (ov1, e1, clash1)"
      "\<not> ov1 \<longrightarrow> good_cut l c1 d1 e1 \<and> slack m e1 < 0"
      using cut_to_falsified [OF cl1 z1] by blast
    show ?thesis
    proof (cases ov1)
      case False
      then have "good_cut l c d e1" using second(2) good_cut_weaker [OF _ imp1] by blast
      then show ?thesis
        using first \<open>\<not> (\<not> ov \<and> slack m e < 0)\<close> weak second False
        by (auto simp: conflict_cut_def Let_def)
    next
      case True
      obtain wd1 where wd1: "fixRoundingProblemSAT m l d1 = Some wd1" "clashing m l b1 1 c1 wd1" "rhs wd1 = 1"
        "\<And>\<sigma>. sat \<sigma> d1 \<Longrightarrow> sat \<sigma> wd1" "set (map snd (lhs wd1)) \<subseteq> set (map snd (lhs d1))"
        using weaken_clashing(2) [OF cl1] by blast
      obtain wc1 where wc1: "fixRoundingProblemSAT m (- l) c1 = Some wc1" "clashing m l 1 1 wc1 wd1" "rhs wc1 = 1" "slack m wc1 = 0"
        "\<And>\<sigma>. sat \<sigma> c1 \<Longrightarrow> sat \<sigma> wc1" "set (map snd (lhs wc1)) \<subseteq> set (map snd (lhs c1))"
        using weaken_clashing(1) [OF wd1(2)] by blast
      obtain e2 clash2 ov2 where third: "cut_to \<bar>l\<bar> wc1 wd1 e1 = Some (ov2, e2, clash2)" "ov2 \<longrightarrow> 2 ^ 30 < 1 * rhs wc1 + 1 * rhs wd1"
        "\<not> ov2 \<longrightarrow> good_cut l wc1 wd1 e2 \<and> slack m e2 < 0"
        using cut_to_falsified [OF wc1(2), of e1] wc1(4) by auto
      have nov: "\<not> ov2" using third(2) wc1(3) wd1(3) by auto
      have imp2: "\<And>\<sigma>. sat \<sigma> c \<Longrightarrow> sat \<sigma> wc1" "\<And>\<sigma>. sat \<sigma> d \<Longrightarrow> sat \<sigma> wd1"
        "set (map snd (lhs wc1)) \<subseteq> set (map snd (lhs c))" "set (map snd (lhs wd1)) \<subseteq> set (map snd (lhs d))"
        using imp1 wc1(5,6) wd1(4,5) by auto
      have "good_cut l c d e2" using third(3) nov good_cut_weaker [OF _ imp2] by blast
      then show ?thesis
        using first \<open>\<not> (\<not> ov \<and> slack m e < 0)\<close> weak second(1) True wd1(1) wc1(1) third nov
        by (auto simp: conflict_cut_def Let_def)
    qed
  qed
qed

text \<open>
  C14: In a conflict the cut between the conflicting constraint and the reason, with at most three
  attempts and the weakenings between them, ends without overflow in a constraint that both imply,
  that has no trace of the variable and that the trail falsifies.
\<close>

theorem conflict_cut_sound:
  assumes cl: "clashing m l a1 a2 c d"
  shows "\<exists>e clash c' d'. conflict_cut m l (- l) c d = Some (False, e, clash, c', d') \<and> good_cut l c d e \<and> slack m e < 0"
  using assms by (rule conflict_cut_facts)

text \<open>The trail in which variables 2 and 3 were decided false.\<close>

definition two_false :: model where
  "two_false = Model_setTrueDueToDecision (-3) (Model_setTrueDueToDecision (-2) new_model)"

lemma two_false_lits: "isFalseLit two_false l \<longleftrightarrow> l = 2 \<or> l = 3" "isUndefLit two_false l \<longleftrightarrow> \<bar>l\<bar> \<noteq> 2 \<and> \<bar>l\<bar> \<noteq> 3"
  by (auto simp: two_false_def Model_setTrueDueToDecision_def push_lit_def new_model_def isFalseLit_def isUndefLit_def
      abs_if mult_less_0_iff zero_less_mult_iff split: if_splits)

theorem conflict_cut_sound_witness:
  "\<exists>e clash c' d'. conflict_cut two_false 1 (- 1) \<lparr>lhs = [(3, -1), (2, 2), (2, 4)], rhs = 3\<rparr> \<lparr>lhs = [(3, 1), (2, 2), (2, 5)], rhs = 3\<rparr>
      = Some (False, e, clash, c', d')
    \<and> good_cut 1 \<lparr>lhs = [(3, -1), (2, 2), (2, 4)], rhs = 3\<rparr> \<lparr>lhs = [(3, 1), (2, 2), (2, 5)], rhs = 3\<rparr> e \<and> slack two_false e < 0"
  by (rule conflict_cut_sound [of two_false 1 3 3])
     (simp add: clashing_def cut_ready_def nonzero_lits_def pos_coeffs_def slack_def two_false_lits)

text \<open>
  The size check of \<open>applyCut\<close> looks at the right-hand sides only. \<open>removeUnits\<close> lowers a right-hand
  side without saturating the coefficients, so a constraint that is still conflicting after the
  backjump can enter \<open>applyCut\<close> with large coefficients and a small right-hand side: the products
  leave the range of \<open>int\<close>, and with wrap-around the cut is not implied.
\<close>

lemma unit_removal_unsaturated:
  "removeUnits (Model_setTrueDueToReason 9 NoReason new_model) \<lparr>lhs = [(2 ^ 20 - 1, -1), (2 ^ 20, 2), (2 ^ 20 - 256, 9)], rhs = 2 ^ 20\<rparr>
     = \<lparr>lhs = [(2 ^ 20 - 1, -1), (2 ^ 20, 2)], rhs = 256\<rparr>"
  by code_simp

lemma overflow_cut_unsound:
  defines "c \<equiv> \<lparr>lhs = [(2 ^ 20 - 1, -1), (2 ^ 20, 2)], rhs = 256\<rparr>"
    and "d \<equiv> \<lparr>lhs = [(4096, 1), (1, 3), (2048, 4), (2048, 5)], rhs = 4096\<rparr>"
    and "\<sigma> \<equiv> \<lambda>v. v = 1 \<or> v = 2"
  shows "\<exists>e. applyCut 1 c d = Some (Some e, False) \<and> sat \<sigma> c \<and> sat \<sigma> d \<and> \<not> sat \<sigma> e"
proof -
  have "applyCut 1 c d = Some (Some \<lparr>lhs = [(0, 2), (1, 3), (2, 4), (2, 5)], rhs = 2\<rparr>, False)"
    unfolding c_def d_def by code_simp
  then show ?thesis by (simp add: c_def d_def \<sigma>_def sat_def)
qed

end
