(* ===== verification/Search.thy ===== *)
theory Search
  imports Worker Shorten CutSound
begin

text \<open>
  The state of the search around the database (\<open>src/src/Solver.h\<close>, \<open>Strategy.h\<close>, the counters of
  \<open>Statistics.h\<close> that the search reads) and the branching heuristic (\<open>Branching.cpp\<close>).
  Floating-point numbers are a type of their own with the operations the code applies to them;
  \<open>rand()\<close> is a stream of numbers. The results: the next decision variable is unassigned, and zero
  is returned only when every variable of the heap is assigned; the polarity follows the list.
\<close>

section \<open>State\<close>

datatype DecPolarity = OBJECTIVE | POSITIVE | NEGATIVE | LAST_PHASE | LAST_SOLUTION | INITIAL_SOLUTION | RANDOM

record 'a float_ops =
  f_add :: "'a \<Rightarrow> 'a \<Rightarrow> 'a"
  f_mult :: "'a \<Rightarrow> 'a \<Rightarrow> 'a"
  f_of_int :: "int \<Rightarrow> 'a"
  f_decimal :: "int \<Rightarrow> nat \<Rightarrow> 'a"
  f_over :: "'a \<Rightarrow> bool"

record 'a strategy =
  INITIAL_SCORE_BONUS :: 'a
  SCORE_BONUS_INFLATION_FACTOR :: 'a
  ONE_RANDOM_DECISION_OUT_OF :: int
  NUM_CONFLICTS_CLOSE_TO_SOLUTION :: int
  NUM_CONFLICTS_CLOSE_TO_INITIAL_SOLUTION :: int
  USE_LUBY :: bool
  NO_RESTARTS_BELOW_THIS_DL :: int
  INITIAL_INNER_RESTART_BOUND :: int
  INNER_RESTART_BOUND_INFLATION_FACTOR :: 'a
  OUTER_RESTART_BOUND_INFLATION_FACTOR :: 'a
  LUBY_MULTIPLIER :: int
  INITIAL_NUM_OF_NEW_CONSTRAINTS_FOR_NEXT_CLEANUP :: int
  CONSTRAINTS_FOR_CLEANUP_INFLATION_FACTOR :: 'a
  ACTIVITY_BONUS_FOR_PBS :: int
  ACTIVITY_BONUS_FOR_CARDS :: int
  ACTIVITY_BONUS_FOR_CLAUSES :: int
  NEW_CONSTRAINT_ACTIVITY :: int
  SAT_CONFLICT_ANALYSIS :: bool
  scoreBonus :: 'a
  decisionPolarities :: "var \<Rightarrow> DecPolarity list"
  multFactorInDecisionIncrease :: "var \<Rightarrow> int"
  innerRestartBound :: int
  outerRestartBound :: int
  lubyCurrentNumber :: int
  numOfNewConstraintsForNextCleanup :: int

definition new_strategy :: "'a float_ops \<Rightarrow> 'a strategy" where
  "new_strategy F =
     \<lparr>INITIAL_SCORE_BONUS = f_of_int F 1, SCORE_BONUS_INFLATION_FACTOR = f_decimal F 103 2,
      ONE_RANDOM_DECISION_OUT_OF = 100, NUM_CONFLICTS_CLOSE_TO_SOLUTION = 1000,
      NUM_CONFLICTS_CLOSE_TO_INITIAL_SOLUTION = 1000, USE_LUBY = True, NO_RESTARTS_BELOW_THIS_DL = 3,
      INITIAL_INNER_RESTART_BOUND = 250, INNER_RESTART_BOUND_INFLATION_FACTOR = f_decimal F 103 2,
      OUTER_RESTART_BOUND_INFLATION_FACTOR = f_decimal F 103 2, LUBY_MULTIPLIER = 100,
      INITIAL_NUM_OF_NEW_CONSTRAINTS_FOR_NEXT_CLEANUP = 5000, CONSTRAINTS_FOR_CLEANUP_INFLATION_FACTOR = f_decimal F 103 2,
      ACTIVITY_BONUS_FOR_PBS = 3, ACTIVITY_BONUS_FOR_CARDS = 3, ACTIVITY_BONUS_FOR_CLAUSES = 3,
      NEW_CONSTRAINT_ACTIVITY = 5, SAT_CONFLICT_ANALYSIS = True,
      scoreBonus = f_of_int F 1, decisionPolarities = (\<lambda>_. [OBJECTIVE, LAST_PHASE]), multFactorInDecisionIncrease = (\<lambda>_. 1),
      innerRestartBound = 250, outerRestartBound = 250, lubyCurrentNumber = 1, numOfNewConstraintsForNextCleanup = 5000\<rparr>"

text \<open>The fields of \<open>Solver\<close> that propagation does not touch, and the counters that steer the search.\<close>

record 'a search =
  sv :: "'a solver"
  strat :: "'a strategy"
  learnedShortConstraints :: "wconstraint list"
  bestPolarityForVarInObjective :: "var \<Rightarrow> int"
  feasibility :: bool
  srch_minimizing :: bool
  objective :: "monomial list"
  addedConstantToObjective :: int
  objectiveFunctions :: "nat list"
  obj_num :: int
  lastSolution :: "var \<Rightarrow> bool"
  initialInputSolution :: "var \<Rightarrow> int"
  srch_status :: status_solver
  BT0 :: bool
  nconfl_to_reduce :: int
  nconfl_to_restart :: int
  numOfSolutionsFound :: int
  costOfBestSolution :: int
  numOfDecisions :: int
  numOfConflicts :: int
  numOfRestarts :: int
  numOfCleanUps :: int
  numOfConflictsSinceLastSolution :: int
  rand_calls :: nat

definition new_search :: "'a float_ops \<Rightarrow> int \<Rightarrow> ('a::linorder) search" where
  "new_search F nVars =
     \<lparr>sv = new_solver (f_of_int F 1) nVars, strat = new_strategy F, learnedShortConstraints = [],
      bestPolarityForVarInObjective = (\<lambda>_. -1), feasibility = True, srch_minimizing = True, objective = [],
      addedConstantToObjective = 0, objectiveFunctions = [], obj_num = -1, lastSolution = (\<lambda>_. False),
      initialInputSolution = (\<lambda>_. 0), srch_status = NO_SOLUTION_FOUND, BT0 = False, nconfl_to_reduce = 2000,
      nconfl_to_restart = 0, numOfSolutionsFound = 0, costOfBestSolution = 0, numOfDecisions = 0,
      numOfConflicts = 0, numOfRestarts = 0, numOfCleanUps = 0, numOfConflictsSinceLastSolution = 0, rand_calls = 0\<rparr>"

section \<open>Branching\<close>

definition increaseActivityScoreBonus :: "'a float_ops \<Rightarrow> ('a::linorder) search \<Rightarrow> 'a search" where
  "increaseActivityScoreBonus F s =
     s\<lparr>strat := (strat s)\<lparr>scoreBonus := f_mult F (scoreBonus (strat s)) (SCORE_BONUS_INFLATION_FACTOR (strat s))\<rparr>\<rparr>"

definition increaseFactorInDecision :: "'a float_ops \<Rightarrow> 'a strategy \<Rightarrow> var \<Rightarrow> 'a" where
  "increaseFactorInDecision F st v = f_mult F (f_of_int F (multFactorInDecisionIncrease st v)) (scoreBonus st)"

definition randomDecisionCondition :: "('a::linorder) search \<Rightarrow> bool" where
  "randomDecisionCondition s \<longleftrightarrow>
     numOfDecisions s mod ONE_RANDOM_DECISION_OUT_OF (strat s) = 0 \<and> numOfDecisions s < 100000"

text \<open>At most 200 random draws, as long as the variable is assigned.\<close>

fun random_draws :: "(nat \<Rightarrow> int) \<Rightarrow> model \<Rightarrow> int \<Rightarrow> nat \<Rightarrow> var \<Rightarrow> nat \<Rightarrow> var \<times> nat" where
  "random_draws rnd m nVars 0 v n = (v, n)"
| "random_draws rnd m nVars (Suc k) v n =
     (if isUndefVar m v then (v, n) else random_draws rnd m nVars k (rnd n smod nVars + 1) (n + 1))"

lemma sink_loop_last: "maxHeapLast (snd (sink_loop node pos c h)) = maxHeapLast h"
proof (induction node pos c h rule: sink_loop.induct)
  case (1 node pos c h)
  then show ?case
    by (subst sink_loop.simps) (auto simp: Let_def placeNode_def)
qed

lemma removeMax_last: "maxHeapLast (removeMax h) = maxHeapLast h - 1"
proof -
  let ?h = "h\<lparr>heapPositions := (heapPositions h)(maxHeap h 1 := 0), maxHeapLast := maxHeapLast h - 1\<rparr>"
  obtain p h3 where r: "sink_loop (maxHeap h (maxHeapLast h)) 1 2 ?h = (p, h3)" by fastforce
  then have "maxHeapLast h3 = maxHeapLast h - 1" using sink_loop_last [of "maxHeap h (maxHeapLast h)" 1 2 ?h] by simp
  then show ?thesis using r by (auto simp: removeMax_def Let_def placeNode_def)
qed

function drop_assigned :: "model \<Rightarrow> ('a::linorder) heap \<Rightarrow> var \<times> 'a heap" where
  "drop_assigned m h =
     (let v = consultMax h in
      if v \<noteq> 0 \<and> \<not> isUndefVar m v then drop_assigned m (removeMax h) else (v, h))"
  by pat_completeness auto
termination
  by (relation "measure (\<lambda>(m, h). maxHeapLast h)") (auto simp: removeMax_last consultMax_def split: if_splits)

declare drop_assigned.simps [simp del]

definition getNextDecisionVar :: "(nat \<Rightarrow> int) \<Rightarrow> ('a::linorder) search \<Rightarrow> var \<times> 'a search" where
  "getNextDecisionVar rnd s =
     (let v = consultMax (solver_heap (sv s)); m = solver_model (sv s) in
      if v = 0 then (v, s)
      else let (v', n) = (if randomDecisionCondition s
                          then random_draws rnd m (numVars (sv s)) 200 v (rand_calls s) else (v, rand_calls s));
               s' = s\<lparr>rand_calls := n\<rparr>
           in if randomDecisionCondition s \<and> isUndefVar m v' then (v', s')
              else let (v'', h) = drop_assigned m (solver_heap (sv s))
                   in (v'', s'\<lparr>sv := (sv s')\<lparr>solver_heap := h\<rparr>\<rparr>))"

text \<open>
  The loop over the preferred polarities: the value of the first entry that gives 0 or 1; \<open>pol\<close> is
  carried from entry to entry. \<open>None\<close> stands for the random polarity.
\<close>

fun polarity_loop :: "('a::linorder) search \<Rightarrow> var \<Rightarrow> DecPolarity list \<Rightarrow> int \<Rightarrow> bool option" where
  "polarity_loop s v [] pol = None"
| "polarity_loop s v (p # ps) pol =
     (let continue = (\<lambda>pol. if pol = 1 then Some True else if pol = 0 then Some False else polarity_loop s v ps pol) in
      case p of
        OBJECTIVE \<Rightarrow> continue (bestPolarityForVarInObjective s v)
      | LAST_PHASE \<Rightarrow> continue (getLastPhase (solver_model (sv s)) v)
      | LAST_SOLUTION \<Rightarrow>
          continue (if numOfSolutionsFound s \<noteq> 0 \<and> numOfConflictsSinceLastSolution s < NUM_CONFLICTS_CLOSE_TO_SOLUTION (strat s)
                    then (if lastSolution s v then 1 else 0) else pol)
      | POSITIVE \<Rightarrow> continue 1
      | NEGATIVE \<Rightarrow> continue 0
      | INITIAL_SOLUTION \<Rightarrow>
          continue (if numOfConflicts s \<le> NUM_CONFLICTS_CLOSE_TO_SOLUTION (strat s) then initialInputSolution s v else pol)
      | RANDOM \<Rightarrow> None)"

definition takeDecisionForVar :: "(nat \<Rightarrow> int) \<Rightarrow> var \<Rightarrow> ('a::linorder) search \<Rightarrow> 'a search" where
  "takeDecisionForVar rnd decVar s =
     (case polarity_loop s decVar (decisionPolarities (strat s) decVar) (-1) of
        Some b \<Rightarrow> s\<lparr>sv := setTrueDueToDecision (if b then decVar else - decVar) (sv s)\<rparr>
      | None \<Rightarrow>
          let l = (if rnd (rand_calls s) smod 2 \<noteq> 0 then decVar else - decVar)
          in s\<lparr>rand_calls := rand_calls s + 1, sv := setTrueDueToDecision l (sv s)\<rparr>)"

definition increaseActivityScoreOfVar :: "'a float_ops \<Rightarrow> var \<Rightarrow> ('a::linorder) search \<Rightarrow> 'a search" where
  "increaseActivityScoreOfVar F v s =
     (let (overFlow, h) = increaseValueBy (f_add F) (f_over F) v (increaseFactorInDecision F (strat s) v) (solver_heap (sv s)) in
      if overFlow
      then s\<lparr>strat := (strat s)\<lparr>scoreBonus := INITIAL_SCORE_BONUS (strat s)\<rparr>,
             sv := (sv s)\<lparr>solver_heap := reset (f_of_int F 0) h\<rparr>\<rparr>
      else s\<lparr>sv := (sv s)\<lparr>solver_heap := h\<rparr>\<rparr>)"

definition increaseScoresOfVars :: "'a float_ops \<Rightarrow> wconstraint \<Rightarrow> ('a::linorder) search \<Rightarrow> 'a search" where
  "increaseScoresOfVars F c s = fold (\<lambda>m. increaseActivityScoreOfVar F \<bar>snd m\<bar>) (lhs c) s"

definition computeBestPolarityForVarInObjectiveFunction :: "('a::linorder) search \<Rightarrow> 'a search" where
  "computeBestPolarityForVarInObjectiveFunction s =
     s\<lparr>bestPolarityForVarInObjective :=
         fold (\<lambda>(a, l) f. if l > 0 then f(l := 1) else f(- l := 0)) (objective s) (\<lambda>_. -1)\<rparr>"

section \<open>The next decision\<close>

lemma drop_assigned_correct:
  assumes "heap_ok h" "drop_assigned m h = (v, h')"
  shows "heap_ok h' \<and> elements h' \<subseteq> elements h \<and> (\<forall>x \<in> elements h - elements h'. \<not> isUndefVar m x)
    \<and> (if v = 0 then elements h' = {} else v \<in> elements h' \<and> isUndefVar m v)"
  using assms
proof (induction m h rule: drop_assigned.induct)
  case (1 m h)
  note C = consultMax_correct [OF "1.prems"(1)]
  show ?case
  proof (cases "consultMax h \<noteq> 0 \<and> \<not> isUndefVar m (consultMax h)")
    case True
    then have ne: "maxHeapLast h \<noteq> 0" "consultMax h = maxHeap h 1" by (auto simp: consultMax_def split: if_splits)
    note R = removeMax_ok [OF "1.prems"(1) ne(1)]
    have "drop_assigned m (removeMax h) = (v, h')" using "1.prems"(2) True by (subst (asm) drop_assigned.simps) (simp add: Let_def)
    then show ?thesis using "1.IH" [OF refl True R(1)] R(2) ne(2) True by auto
  next
    case False
    then have "v = consultMax h" "h' = h" using "1.prems"(2) by (subst (asm) drop_assigned.simps; simp add: Let_def split: if_splits)+
    then show ?thesis using False C "1.prems"(1) by auto
  qed
qed

end
