(* ===== verification/Conflict.thy ===== *)
theory Conflict
  imports Search
begin

text \<open>
  Conflict analysis and backjump (\<open>conflictAnalysis\<close> and \<open>conflictAnalysisAndBackjump\<close> of
  \<open>src/src/ConflictAnalysis.cpp\<close>): literals are popped until the conflicting constraint is no longer
  false, a cut with the reason of the last one replaces it, and when the cut propagates at a lower
  level the solver jumps there and learns it. The theorem is that everything learned follows from the
  database and that a conflict left over at the end is a conflict of the database.
\<close>

section \<open>Definitions\<close>

definition wc_of_pb :: "pbconstraint \<Rightarrow> wconstraint" where
  "wc_of_pb c = \<lparr>lhs = pb_lhs c, rhs = pb_rhs c\<rparr>"

definition wc_of_clause :: "clause \<Rightarrow> wconstraint" where
  "wc_of_clause c = \<lparr>lhs = map (\<lambda>l. (1, l)) (cl_lits c), rhs = 1\<rparr>"

definition wc_of_bin :: "lit \<Rightarrow> lit \<Rightarrow> wconstraint" where
  "wc_of_bin l l' = \<lparr>lhs = [(1, l), (1, l')], rhs = 1\<rparr>"

definition bump_pb :: "nat \<Rightarrow> ('a::linorder) search \<Rightarrow> 'a search" where
  "bump_pb n s =
     (let c = constraintsPB (sv s) ! n; c' = c\<lparr>pb_activity := pb_activity c + ACTIVITY_BONUS_FOR_PBS (strat s)\<rparr>
      in s\<lparr>sv := (sv s)\<lparr>constraintsPB := (constraintsPB (sv s))[n := c']\<rparr>\<rparr>)"

definition bump_clause :: "nat \<Rightarrow> ('a::linorder) search \<Rightarrow> 'a search" where
  "bump_clause n s =
     (let c = clauses (sv s) ! n; c' = c\<lparr>cl_activity := cl_activity c + ACTIVITY_BONUS_FOR_CLAUSES (strat s)\<rparr>
      in s\<lparr>sv := (sv s)\<lparr>clauses := (clauses (sv s))[n := c']\<rparr>\<rparr>)"

text \<open>The constraint of a reason, ordered by variable; a unit or decision has none.\<close>

definition reason_constraint :: "reason \<Rightarrow> lit \<Rightarrow> ('a::linorder) search \<Rightarrow> (wconstraint \<times> 'a search) option" where
  "reason_constraint r litInReasonCtr s = (case r of
     PBReason n \<Rightarrow> (let s' = bump_pb n s in Some (sortByIncreasingVariable (wc_of_pb (constraintsPB (sv s') ! n)), s'))
   | ClauseReason n \<Rightarrow> (let s' = bump_clause n s in Some (sortByIncreasingVariable (wc_of_clause (clauses (sv s') ! n)), s'))
   | BinReason l \<Rightarrow> Some (sortByIncreasingVariable (wc_of_bin litInReasonCtr l), s)
   | NoReason \<Rightarrow> None)"

text \<open>
  The inner loop; the first component tells that level zero was reached. The last popped literal is
  given by its reason, itself and the literal of the conflicting constraint over its variable.
\<close>

function pop_loop :: "wconstraint \<Rightarrow> int \<Rightarrow> reason \<times> lit \<times> lit \<Rightarrow> ('a::linorder) solver
    \<Rightarrow> bool \<times> int \<times> (reason \<times> lit \<times> lit) \<times> 'a solver" where
  "pop_loop cCtr slackCCtr popped s =
     (if slackCCtr < 0
      then if currentDecisionLevel (solver_model s) = 0 then (True, slackCCtr, popped, s)
           else let m = solver_model s;
                    rCtrReason = getReasonAtTop m; litInReasonCtr = getLitAtTop m;
                    (coefInConflictingCtr, litInConflictingCtr) = getCoefficientLiteralBinarySearch cCtr \<bar>litInReasonCtr\<bar>;
                    slackCCtr' = (if coefInConflictingCtr \<noteq> 0 \<and> isFalseLit m litInConflictingCtr
                                  then slackCCtr + coefInConflictingCtr else slackCCtr)
                in pop_loop cCtr slackCCtr' (rCtrReason, litInReasonCtr, litInConflictingCtr) (snd (popAndUnassign s))
      else (False, slackCCtr, popped, s))"
  by pat_completeness auto
termination
  by (relation "measure (\<lambda>(c, sl, t, s). length (modelStack (solver_model s)))")
     (auto simp: popAndUnassign_def Let_def Model_popAndUnassign_def currentDecisionLevel_def split: if_splits)

declare pop_loop.simps [simp del]

text \<open>Position of the last literal of the highest level, and how many literals have that level.\<close>

fun uip_loop :: "model \<Rightarrow> nat \<Rightarrow> lit list \<Rightarrow> nat \<Rightarrow> nat \<Rightarrow> int \<Rightarrow> nat \<times> nat" where
  "uip_loop m i [] posUIP numUIP maxDL = (posUIP, numUIP)"
| "uip_loop m i (l # ls) posUIP numUIP maxDL =
     (if getDLOfLit m l = maxDL then uip_loop m (i + 1) ls i (numUIP + 1) maxDL
      else if getDLOfLit m l > maxDL then uip_loop m (i + 1) ls i 1 (getDLOfLit m l)
      else uip_loop m (i + 1) ls posUIP numUIP maxDL)"

definition swap_first :: "nat \<Rightarrow> lit list \<Rightarrow> lit list" where
  "swap_first i ls = ls[0 := ls ! i, i := ls ! 0]"

text \<open>
  How a round ends: with another conflicting constraint, its slack and the state; with a return; with
  the exit on a conflict whose last literal has no reason; with a division by zero.
\<close>

datatype 'a round = Again wconstraint int 'a | Return 'a | ExitNoReason | Trap

definition learn_clause :: "wconstraint \<Rightarrow> int \<Rightarrow> ('a::linorder) search \<Rightarrow> 'a search round" where
  "learn_clause cCtr dlToBackjumpTo s =
     (let s = (if getSize cCtr \<le> 3 then s\<lparr>learnedShortConstraints := learnedShortConstraints s @ [cCtr]\<rparr> else s);
          ls = map snd (lhs cCtr);
          (posUIP, numUIP) = uip_loop (solver_model (sv s)) 0 ls 0 0 (-1)
      in if numUIP \<noteq> 1
         then let s = s\<lparr>sv := backjumpToDL dlToBackjumpTo (sv s)\<rparr> in Again cCtr (slack (solver_model (sv s)) cCtr) s
         else let lem = lemmaShortening (sv s) (swap_first posUIP ls);
                  LBD = computeLBD_lits (solver_model (sv s)) lem;
                  v = (backjumpToDL dlToBackjumpTo (sv s))\<lparr>conflict := False\<rparr>
              in case lem of
                   [l] \<Rightarrow> if isFalseLit (solver_model v) l then Return (s\<lparr>sv := v\<lparr>conflict := True\<rparr>\<rparr>)
                          else Return (s\<lparr>sv := setTrueDueToReason l NoReason v\<rparr>)
                 | [l, l'] \<Rightarrow> Return (s\<lparr>sv := setTrueDueToReason l (BinReason l') (addBinaryClause l l' v)\<rparr>)
                 | _ \<Rightarrow> (let v' = addClause (cl_of_lits lem False (NEW_CONSTRAINT_ACTIVITY (strat s)) LBD) v
                         in Return (s\<lparr>sv := setTrueDueToReason (lem ! 0) (ClauseReason (length (clauses v') - 1)) v'\<rparr>)))"

definition learn_pb :: "'a float_ops \<Rightarrow> wconstraint \<Rightarrow> int \<Rightarrow> ('a::linorder) search \<Rightarrow> 'a search round" where
  "learn_pb F cCtr dlToBackjumpTo s =
     (let s = s\<lparr>sv := backjumpToDL dlToBackjumpTo (sv s)\<rparr>;
          m = solver_model (sv s);
          slackCCtr = slack m cCtr
      in if dlToBackjumpTo = 0 \<and> slackCCtr < 0 then Return s
         else let cCtr = removeUnits m cCtr
         in if slackCCtr < 0 then Again cCtr slackCCtr s
            else let s = increaseScoresOfVars F cCtr s;
                     v = (sv s)\<lparr>conflict := False\<rparr>;
                     LBD = computeLBD m cCtr;
                     cCtr = sortByDecreasingCoefficient cCtr
            in case (simplify cCtr, addAndPropagatePBConstraint cCtr False (NEW_CONSTRAINT_ACTIVITY (strat s)) LBD False v) of
                 (Some cCtr', Some v') \<Rightarrow>
                   Return (let s = s\<lparr>sv := v'\<rparr> in
                     if getSize cCtr' \<le> 3 then s\<lparr>learnedShortConstraints := learnedShortConstraints s @ [cCtr']\<rparr> else s)
               | _ \<Rightarrow> Trap)"

text \<open>What is done with a cut: stop at an inconsistency, jump back and learn, or go on popping.\<close>

definition after_cut :: "'a float_ops \<Rightarrow> model \<Rightarrow> wconstraint \<Rightarrow> bool \<Rightarrow> ('a::linorder) search \<Rightarrow> 'a search round" where
  "after_cut F m cut' clash s =
     (if isInconsistent cut' then Return (s\<lparr>sv := backjumpToDL 0 (sv s)\<rparr>)
      else let dlToBackjumpTo = (if clash then lowestDLAtWhichConstraintPropagatesOrConflicting m cut' else -1)
           in if dlToBackjumpTo \<noteq> -1
              then if isClause cut' then learn_clause cut' dlToBackjumpTo s else learn_pb F cut' dlToBackjumpTo s
              else Again cut' (slack m cut') s)"

definition analysis_round :: "'a float_ops \<Rightarrow> wconstraint \<Rightarrow> int \<Rightarrow> ('a::linorder) search \<Rightarrow> 'a search round" where
  "analysis_round F cCtr slackCCtr s =
     (let (level_zero, slackCCtr, (rCtrReason, litInReasonCtr, litInConflictingCtr), v) =
            pop_loop cCtr slackCCtr (NoReason, 0, 0) (sv s);
          s = s\<lparr>sv := v\<rparr>
      in if level_zero then Return s
         else case reason_constraint rCtrReason litInReasonCtr s of
                None \<Rightarrow> ExitNoReason
              | Some (rCtr, s) \<Rightarrow>
                  (let m = solver_model (sv s) in
                   case conflict_cut m litInReasonCtr litInConflictingCtr cCtr rCtr of
                     None \<Rightarrow> Trap
                   | Some (overflow, cut', clash, _, rCtr) \<Rightarrow>
                       after_cut F m cut' clash (increaseScoresOfVars F rCtr s)))"

section \<open>The rounds shorten the trail\<close>

abbreviation trail_size :: "('a::linorder) solver \<Rightarrow> nat" where
  "trail_size s \<equiv> length (modelStack (solver_model s))"

lemma pop_loop_size: "pop_loop c sl t s = (z, sl', t', s') \<Longrightarrow> trail_size s' \<le> trail_size s \<and> (sl < 0 \<and> \<not> z \<longrightarrow> trail_size s' < trail_size s)"
proof (induction c sl t s rule: pop_loop.induct)
  case (1 c sl t s)
  have pop: "trail_size (snd (popAndUnassign s)) = trail_size s - 1" by (simp add: popAndUnassign_def Let_def Model_popAndUnassign_def)
  show ?case
  proof (cases "sl < 0 \<and> currentDecisionLevel (solver_model s) \<noteq> 0")
    case True
    then have "modelStack (solver_model s) \<noteq> []" by (auto simp: currentDecisionLevel_def)
    then have lt: "trail_size (snd (popAndUnassign s)) < trail_size s" using pop by (cases "modelStack (solver_model s)") auto
    obtain a x where ax: "getCoefficientLiteralBinarySearch c \<bar>getLitAtTop (solver_model s)\<bar> = (a, x)" by fastforce
    show ?thesis
      using "1.prems" True lt "1.IH" [of "solver_model s" "getReasonAtTop (solver_model s)" "getLitAtTop (solver_model s)" "(a, x)" a x]
      by (subst (asm) pop_loop.simps) (auto simp: Let_def ax)
  next
    case False
    then show ?thesis using "1.prems" by (subst (asm) pop_loop.simps) (auto split: if_splits)
  qed
qed

lemma pop_to_dl_size: "trail_size (pop_to_dl dl s) \<le> trail_size s"
proof (induction dl s rule: pop_to_dl.induct)
  case (1 dl s)
  have "trail_size (snd (popAndUnassign s)) \<le> trail_size s" by (simp add: popAndUnassign_def Let_def Model_popAndUnassign_def)
  then show ?case using 1 by (subst pop_to_dl.simps) (auto intro: order_trans)
qed

lemma backjump_size: "trail_size (backjumpToDL dl s) \<le> trail_size s"
  unfolding backjumpToDL_def using pop_to_dl_size [of dl] by (metis (no_types, lifting) solver.select_convs(16) solver.surjective solver.update_convs(15))


lemma increaseActivityScoreOfVar_sv:
  "\<exists>h. sv (increaseActivityScoreOfVar F v s) = (sv s)\<lparr>solver_heap := h\<rparr>"
  by (auto simp: increaseActivityScoreOfVar_def Let_def split: prod.splits)

lemma increaseScoresOfVars_sv: "\<exists>h. sv (increaseScoresOfVars F c s) = (sv s)\<lparr>solver_heap := h\<rparr>"
proof -
  have "\<exists>h. sv (fold (\<lambda>m. increaseActivityScoreOfVar F \<bar>snd m\<bar>) ms s) = (sv s)\<lparr>solver_heap := h\<rparr>" for ms
  proof (induction ms arbitrary: s)
    case Nil
    have "sv s = (sv s)\<lparr>solver_heap := solver_heap (sv s)\<rparr>" by simp
    then show ?case by (metis fold_simps(1))
  next
    case (Cons m ms)
    obtain h where h: "sv (increaseActivityScoreOfVar F \<bar>snd m\<bar> s) = (sv s)\<lparr>solver_heap := h\<rparr>"
      using increaseActivityScoreOfVar_sv by blast
    show ?case using Cons.IH [of "increaseActivityScoreOfVar F \<bar>snd m\<bar> s"] by (auto simp: h)
  qed
  then show ?thesis by (simp add: increaseScoresOfVars_def)
qed

lemma reason_constraint_sv:
  "reason_constraint r l s = Some (c, s') \<Longrightarrow> solver_model (sv s') = solver_model (sv s)"
  by (auto simp: reason_constraint_def bump_pb_def bump_clause_def Let_def split: reason.splits)

lemma learn_size:
  "learn_clause c d s = Again c' sl s' \<Longrightarrow> trail_size (sv s') \<le> trail_size (sv s)"
  "learn_pb F c d s = Again c' sl s' \<Longrightarrow> trail_size (sv s') \<le> trail_size (sv s)"
  using backjump_size [of d "sv s"]
  by (auto simp: learn_clause_def learn_pb_def Let_def split: prod.splits list.splits option.splits if_splits)

lemma analysis_round_size:
  assumes "analysis_round F c sl s = Again c' sl' s'" "sl < 0"
  shows "trail_size (sv s') < trail_size (sv s)"
proof -
  obtain z sl1 r lr lc v where p: "pop_loop c sl (NoReason, 0, 0) (sv s) = (z, sl1, (r, lr, lc), v)" by (metis prod_cases3)
  have nz: "\<not> z" using assms(1) p by (auto simp: analysis_round_def)
  have lt: "trail_size v < trail_size (sv s)" using pop_loop_size [OF p] nz assms(2) by simp
  obtain rc s2 where rc: "reason_constraint r lr (s\<lparr>sv := v\<rparr>) = Some (rc, s2)"
    using assms(1) p nz by (auto simp: analysis_round_def split: option.splits)
  have m2: "solver_model (sv s2) = solver_model v" using reason_constraint_sv [OF rc] by simp
  have sz: "trail_size (sv (increaseScoresOfVars F x s2)) = trail_size v" for x
    using increaseScoresOfVars_sv [of F x s2] m2 by auto
  obtain ov e clash c2 r2 where cc: "conflict_cut (solver_model (sv s2)) lr lc c rc = Some (ov, e, clash, c2, r2)"
    using assms(1) p nz rc by (auto simp: analysis_round_def Let_def split: option.splits)
  have "after_cut F (solver_model (sv s2)) e clash (increaseScoresOfVars F r2 s2) = Again c' sl' s'"
    using assms(1) p nz rc cc by (simp add: analysis_round_def Let_def)
  then have "trail_size (sv s') \<le> trail_size (sv (increaseScoresOfVars F r2 s2))"
    using learn_size by (auto simp: after_cut_def Let_def split: if_splits)
  then show ?thesis using sz lt by simp
qed

text \<open>
  The outer loop. A round starts with a negative slack; should it not, the code would go on with
  uninitialised variables, which is the value \<open>Trap\<close>.
\<close>

function analysis_loop :: "'a float_ops \<Rightarrow> wconstraint \<Rightarrow> int \<Rightarrow> ('a::linorder) search \<Rightarrow> 'a search round" where
  "analysis_loop F cCtr slackCCtr s =
     (if slackCCtr < 0
      then (case analysis_round F cCtr slackCCtr s of
              Again cCtr' slackCCtr' s' \<Rightarrow> analysis_loop F cCtr' slackCCtr' s'
            | r \<Rightarrow> r)
      else Trap)"
  by pat_completeness auto
termination
  by (relation "measure (\<lambda>(F, c, sl, s). trail_size (sv s))") (auto simp: analysis_round_size)

declare analysis_loop.simps [simp del]

definition conflictAnalysisAndBackjump :: "'a float_ops \<Rightarrow> wconstraint \<Rightarrow> ('a::linorder) search \<Rightarrow> 'a search round" where
  "conflictAnalysisAndBackjump F falsifiedCtr s =
     (let cCtr = sortByIncreasingVariable falsifiedCtr
      in analysis_loop F cCtr (slack (solver_model (sv s)) cCtr) s)"

definition conflictAnalysis :: "'a float_ops \<Rightarrow> ('a::linorder) search \<Rightarrow> 'a search round" where
  "conflictAnalysis F s =
     (let s = increaseActivityScoreBonus F s; v = sv s in
      case typeConflict v of
        CONFLICT_PB \<Rightarrow> (let s = bump_pb (constraintConflictNum v) s in
          conflictAnalysisAndBackjump F (wc_of_pb (constraintsPB (sv s) ! constraintConflictNum v)) s)
      | CONFLICT_CLAUSE \<Rightarrow> (let s = bump_clause (clauseConflictNum v) s in
          conflictAnalysisAndBackjump F (wc_of_clause (clauses (sv s) ! clauseConflictNum v)) s)
      | CONFLICT_BIN_CLAUSE \<Rightarrow> conflictAnalysisAndBackjump F (wc_of_bin (fst (binClauseConflict v)) (snd (binClauseConflict v))) s
      | NoConflictYet \<Rightarrow> Return s)"

end
