(* ===== verification/ConflictPop.thy ===== *)
theory ConflictPop
  imports Conflict
begin

text \<open>
  The steps of conflict analysis (\<open>src/src/ConflictAnalysis.cpp\<close>) that leave the meaning of the
  database alone: bumping activities and scores, and popping literals until the conflicting constraint
  is no longer false. The literal popped last is one whose opposite the constraint needs.
\<close>

section \<open>Databases ready for cuts\<close>

text \<open>
  What the input pipeline establishes: a variable occurs once in a constraint, and the coefficients of
  a linear constraint do not exceed its constant. The bound of the objective is the only constraint
  that the code adds without saturating it.
\<close>

definition pb_ready :: "monomial list \<times> int \<Rightarrow> bool" where
  "pb_ready p \<longleftrightarrow> distinct (mvars (fst p)) \<and> (\<forall>m \<in> set (fst p). fst m \<le> snd p) \<and> 0 < snd p \<and> snd p < 2 ^ 31"

definition db_ready :: "('a::linorder) solver \<Rightarrow> bool" where
  "db_ready v \<longleftrightarrow> (\<forall>c \<in> set (constraintsPB v). pb_ready (pb_lhs c, pb_rhs c))
     \<and> (\<forall>c \<in> set (clauses v). inj_on abs (set (cl_lits c))) \<and> (\<forall>l. \<forall>l' \<in> set (binClauses v l). \<bar>l'\<bar> \<noteq> \<bar>l\<bar>)"

lemma db_ready_same_db: "same_db v v' \<Longrightarrow> db_ready v' = db_ready v"
proof -
  assume d: "same_db v v'"
  have "db_ready u \<longleftrightarrow> (\<forall>p \<in> set (map (\<lambda>c. (pb_lhs c, pb_rhs c)) (constraintsPB u)). pb_ready p)
     \<and> (\<forall>ls \<in> set (map (\<lambda>c. set (cl_lits c)) (clauses u)). inj_on abs ls) \<and> (\<forall>l. \<forall>l' \<in> set (binClauses u l). \<bar>l'\<bar> \<noteq> \<bar>l\<bar>)" for u :: "'a solver"
    by (simp add: db_ready_def)
  then show ?thesis using d by (simp only: same_db_def)
qed

lemma heap_update_inv [simp]:
  "solver_inv (v\<lparr>solver_heap := h\<rparr>) = solver_inv v" "same_db v (v\<lparr>solver_heap := h\<rparr>)"
proof -
  show d: "same_db v (v\<lparr>solver_heap := h\<rparr>)" by (simp add: same_db_def)
  have "lists_ok (v\<lparr>solver_heap := h\<rparr>) = lists_ok v" by (rule same_fields_lists_ok) simp_all
  then show "solver_inv (v\<lparr>solver_heap := h\<rparr>) = solver_inv v"
    using same_db_stack_ok [OF d]
    by (simp add: solver_inv_def core_inv_def db_ok_def watches_ok_def counters_ok_def trail_range_def trail_ok_stack)
qed

text \<open>Steps that change neither the meaning of the database nor the trail.\<close>

definition keeps :: "('a::linorder) solver \<Rightarrow> 'a solver \<Rightarrow> bool" where
  "keeps v v' \<longleftrightarrow> same_db v v' \<and> solver_model v' = solver_model v \<and> (solver_inv v \<longrightarrow> solver_inv v') \<and> conflict v' = conflict v"

lemma keeps_refl [simp]: "keeps v v" by (simp add: keeps_def)

lemma keeps_trans: "keeps u v \<Longrightarrow> keeps v w \<Longrightarrow> keeps u w"
  unfolding keeps_def using same_db_trans by auto

lemma keeps_scores: "keeps (sv s) (sv (increaseScoresOfVars F c s))"
proof -
  obtain h where "sv (increaseScoresOfVars F c s) = (sv s)\<lparr>solver_heap := h\<rparr>" using increaseScoresOfVars_sv by blast
  then show ?thesis by (simp add: keeps_def)
qed

lemma sv_bump_pb: "sv (bump_pb n s) = set_pb n (\<lambda>c. c\<lparr>pb_activity := pb_activity c + ACTIVITY_BONUS_FOR_PBS (strat s)\<rparr>) (sv s)"
  by (simp add: bump_pb_def Let_def set_pb_def)

lemma sv_bump_clause: "sv (bump_clause n s) = set_clause n (let c = clauses (sv s) ! n in c\<lparr>cl_activity := cl_activity c + ACTIVITY_BONUS_FOR_CLAUSES (strat s)\<rparr>) (sv s)"
  by (simp add: bump_clause_def Let_def set_clause_def)

lemma keeps_bump_pb:
  assumes "solver_inv (sv s)" "n < length (constraintsPB (sv s))"
  shows "keeps (sv s) (sv (bump_pb n s))" "pb_lhs (constraintsPB (sv (bump_pb n s)) ! n) = pb_lhs (constraintsPB (sv s) ! n)"
    "pb_rhs (constraintsPB (sv (bump_pb n s)) ! n) = pb_rhs (constraintsPB (sv s) ! n)"
proof -
  have core: "core_inv (sv s)" using assms(1) by (simp add: solver_inv_def)
  define f :: "pbconstraint \<Rightarrow> pbconstraint" where "f = (\<lambda>c. c\<lparr>pb_activity := pb_activity c + ACTIVITY_BONUS_FOR_PBS (strat s)\<rparr>)"
  note F = set_pb_facts [OF core _ _ assms(2), of f]
  have e: "sv (bump_pb n s) = set_pb n f (sv s)" by (simp add: sv_bump_pb f_def)
  have "counters_ok (set_pb n f (sv s))"
    using assms(1) F(3,5-8) by (simp add: solver_inv_def counters_ok_def counter_value_def f_def)
  moreover have "same_db (sv s) (set_pb n f (sv s))" using F(2) by (simp add: f_def prop_ext_db)
  ultimately show "keeps (sv s) (sv (bump_pb n s))"
    using F(1,4,5) by (simp add: keeps_def e solver_inv_def f_def)
  show "pb_lhs (constraintsPB (sv (bump_pb n s)) ! n) = pb_lhs (constraintsPB (sv s) ! n)"
    "pb_rhs (constraintsPB (sv (bump_pb n s)) ! n) = pb_rhs (constraintsPB (sv s) ! n)"
    unfolding e using F(7,8) by (simp_all add: f_def)
qed

lemma keeps_bump_clause:
  assumes "solver_inv (sv s)" "n < length (clauses (sv s))"
  shows "keeps (sv s) (sv (bump_clause n s))" "cl_lits (clauses (sv (bump_clause n s)) ! n) = cl_lits (clauses (sv s) ! n)"
proof -
  define c' where c': "c' = (let c = clauses (sv s) ! n in c\<lparr>cl_activity := cl_activity c + ACTIVITY_BONUS_FOR_CLAUSES (strat s)\<rparr>)"
  have core: "core_inv (sv s)" using assms(1) by (simp add: solver_inv_def)
  then have fr: "frame_inv (sv s)" "watches_ok (sv s)" by (auto simp: core_inv_frame)
  have "clauses (sv s) ! n \<in> set (clauses (sv s))" using assms(2) by simp
  then have "cl_ok (numVars (sv s)) (clauses (sv s) ! n)" using core by (auto simp: core_inv_def db_ok_def)
  then have ok: "cl_ok (numVars (sv s)) c'" by (simp add: cl_ok_def Let_def c')
  have lits: "cl_lits c' = cl_lits (clauses (sv s) ! n)" by (simp add: Let_def c')
  note F = set_clause_facts [OF fr(1) assms(2) ok arg_cong [OF lits, of set]]
  have k: "cl_lits ((clauses (sv s))[n := c'] ! k) = cl_lits (clauses (sv s) ! k)" for k
    using lits assms(2) by (cases "k = n") simp_all
  then have "watches_ok (set_clause n c' (sv s))"
    using fr(2) by (simp add: watches_ok_def k)
  moreover have "counters_ok (set_clause n c' (sv s))"
    using assms(1) by (simp add: solver_inv_def counters_ok_def set_clause_def)
  ultimately show "keeps (sv s) (sv (bump_clause n s))"
    using F by (simp add: keeps_def sv_bump_clause c' [symmetric] solver_inv_def core_inv_frame prop_ext_db)
  show "cl_lits (clauses (sv (bump_clause n s)) ! n) = cl_lits (clauses (sv s) ! n)"
    using assms(2) lits by (simp add: sv_bump_clause c' [symmetric])
qed

section \<open>Popping\<close>

lemma search_find_var:
  assumes "cut_ready c"
  shows "getCoefficientLiteralBinarySearch c v = find_var v (lhs c)"
  using bsearch_loop_correct [of "lhs c" 0 "int (length (lhs c)) - 1" v] assms
  by (auto simp: getCoefficientLiteralBinarySearch_def getSize_def cut_ready_def)

lemma find_var_cases:
  "find_var v ms = (0, 0) \<and> v \<notin> set (mvars ms) \<or> find_var v ms \<in> set ms \<and> \<bar>snd (find_var v ms)\<bar> = v"
  by (induction ms) auto

lemma slack_pop:
  assumes w: "wf_model m" "wf_model m'" and st: "tlits m = tlits m' @ [l]" and c: "cut_ready c"
  shows "slack m' c = slack m c + (if fst (find_var \<bar>l\<bar> (lhs c)) \<noteq> 0 \<and> isFalseLit m (snd (find_var \<bar>l\<bar> (lhs c)))
      then fst (find_var \<bar>l\<bar> (lhs c)) else 0)"
    and "fst (find_var \<bar>l\<bar> (lhs c)) \<noteq> 0 \<and> isFalseLit m (snd (find_var \<bar>l\<bar> (lhs c))) \<Longrightarrow> snd (find_var \<bar>l\<bar> (lhs c)) = - l
      \<and> find_var \<bar>l\<bar> (lhs c) \<in> set (lhs c)"
proof -
  have l: "- l \<notin> set (tlits m)" "l \<noteq> 0" using wf_model_consistent [OF w(1), of l] wf_model_zero [OF w(1)] st by auto
  have wst: "wf_stack (tlits m' @ [l])" using w(1) st by (simp add: wf_model_def)
  then have fresh: "\<bar>l\<bar> \<notin> abs ` set (tlits m')" by (simp add: wf_stack_snoc)
  note r = c [unfolded cut_ready_def]
  have split: "msum (\<lambda>x. \<not> isFalseLit m' x) (lhs c) = msum (\<lambda>x. \<not> isFalseLit m x) (lhs c) + msum (\<lambda>x. x = - l) (lhs c)"
  proof -
    have f: "isFalseLit m x \<longleftrightarrow> isFalseLit m' x \<or> x = - l" for x
      using st by (auto simp: wf_false [OF w(1)] wf_false [OF w(2)] minus_equation_iff)
    have g: "\<not> isFalseLit m' (- l)" using fresh by (auto simp: wf_false [OF w(2)])
    have "msum (\<lambda>x. \<not> isFalseLit m' x) ms = msum (\<lambda>x. \<not> isFalseLit m x) ms + msum (\<lambda>x. x = - l) ms" for ms
      by (induction ms) (use f g in auto)
    then show ?thesis .
  qed
  have "msum (\<lambda>x. x = - l) (lhs c) = (if fst (find_var \<bar>l\<bar> (lhs c)) \<noteq> 0 \<and> isFalseLit m (snd (find_var \<bar>l\<bar> (lhs c)))
      then fst (find_var \<bar>l\<bar> (lhs c)) else 0)
    \<and> (fst (find_var \<bar>l\<bar> (lhs c)) \<noteq> 0 \<and> isFalseLit m (snd (find_var \<bar>l\<bar> (lhs c))) \<longrightarrow> snd (find_var \<bar>l\<bar> (lhs c)) = - l
      \<and> find_var \<bar>l\<bar> (lhs c) \<in> set (lhs c))"
  proof (cases "\<bar>l\<bar> \<in> set (mvars (lhs c))")
    case False
    then have "msum (\<lambda>x. x = - l) (lhs c) = 0" by (intro msum_absent) (auto simp: set_mvars image_iff)
    then show ?thesis using False find_var_absent [OF False] by simp
  next
    case True
    define p where "p = find_var \<bar>l\<bar> (lhs c)"
    have p: "p \<in> set (lhs c)" "\<bar>snd p\<bar> = \<bar>l\<bar>" using find_var_cases [of "\<bar>l\<bar>" "lhs c"] True by (auto simp: p_def)
    have p0: "fst p \<noteq> 0" using p(1) r by (auto simp: pos_coeffs_def)
    consider "snd p = - l" | "snd p = l" using p(2) by (auto simp: abs_eq_iff)
    then show ?thesis
    proof cases
      case 1
      have "msum (\<lambda>x. x = snd p) (lhs c) = fst p"
        by (rule msum_single_var [OF _ p(1)]) (use r in \<open>simp add: sorted_wrt_map_lt_distinct\<close>)
      moreover have "isFalseLit m (- l)" using st by (simp add: wf_false [OF w(1)])
      ultimately show ?thesis using 1 p p0 by (simp add: p_def [symmetric])
    next
      case 2
      have "\<not> isFalseLit m l" using l(1) by (simp add: wf_false [OF w(1)])
      moreover have "msum (\<lambda>x. x = - l) (lhs c) = 0"
      proof (rule msum_absent)
        fix q assume q: "q \<in> set (lhs c)"
        show "snd q \<noteq> - l" using cut_ready_unique [OF c q p(1)] 2 l(2) by auto
      qed
      ultimately show ?thesis using 2 by (simp add: p_def [symmetric])
    qed
  qed
  then show "slack m' c = slack m c + (if fst (find_var \<bar>l\<bar> (lhs c)) \<noteq> 0 \<and> isFalseLit m (snd (find_var \<bar>l\<bar> (lhs c)))
      then fst (find_var \<bar>l\<bar> (lhs c)) else 0)"
    "fst (find_var \<bar>l\<bar> (lhs c)) \<noteq> 0 \<and> isFalseLit m (snd (find_var \<bar>l\<bar> (lhs c))) \<Longrightarrow> snd (find_var \<bar>l\<bar> (lhs c)) = - l
      \<and> find_var \<bar>l\<bar> (lhs c) \<in> set (lhs c)"
    using split by (auto simp: slack_def)
qed

text \<open>What is known of the literal popped last.\<close>

definition popped_ok :: "wconstraint \<Rightarrow> int \<Rightarrow> reason \<times> lit \<times> lit \<Rightarrow> ('a::linorder) solver \<Rightarrow> bool" where
  "popped_ok c sl t v \<longleftrightarrow> (\<exists>e a. t = (se_reason e, se_lit e, - se_lit e) \<and> (a, - se_lit e) \<in> set (lhs c) \<and> 0 \<le> sl \<and> sl < a
     \<and> elem_ok v (modelStack (solver_model v)) e \<and> isUndefLit (solver_model v) (se_lit e) \<and> \<bar>se_lit e\<bar> \<le> numVars v
     \<and> (se_reason e \<noteq> NoReason \<longrightarrow> 0 < decisionLevel (solver_model v)))"

lemma pop_facts:
  assumes inv: "solver_inv v" and c: "cut_ready c" and nz: "currentDecisionLevel (solver_model v) \<noteq> 0"
  defines "m \<equiv> solver_model v" and "v' \<equiv> snd (popAndUnassign v)"
  defines "p \<equiv> getCoefficientLiteralBinarySearch c \<bar>getLitAtTop m\<bar>"
  defines "sl' \<equiv> (if fst p \<noteq> 0 \<and> isFalseLit m (snd p) then slack m c + fst p else slack m c)"
  shows "solver_inv v' \<and> same_db v v' \<and> sl' = slack (solver_model v') c
    \<and> (slack m c < 0 \<and> 0 \<le> sl' \<longrightarrow> popped_ok c sl' (getReasonAtTop m, getLitAtTop m, snd p) v')"
proof -
  have ne: "modelStack m \<noteq> []" using nz by (auto simp: currentDecisionLevel_def m_def)
  note P = popAndUnassign_inv [OF inv, folded m_def v'_def, OF ne]
  define e where "e = last (modelStack m)"
  define st where "st = modelStack (solver_model v')"
  have stk: "modelStack m = st @ [e]" using P(2) ne by (simp add: st_def e_def)
  have w: "wf_model m" "wf_model (solver_model v')" "core_inv v'" using inv P(1) by (auto simp: solver_inv_def core_inv_def m_def)
  have tl: "tlits m = tlits (solver_model v') @ [se_lit e]" by (simp add: tlits_def stk st_def [symmetric])
  have top: "getLitAtTop m = se_lit e" "getReasonAtTop m = se_reason e" by (simp_all add: getLitAtTop_def getReasonAtTop_def stk)
  have pf: "p = find_var \<bar>se_lit e\<bar> (lhs c)" by (simp add: p_def search_find_var [OF c] top)
  note S = slack_pop [OF w(1,2) tl c, folded pf]
  have sl: "sl' = slack (solver_model v') c" using S(1) by (simp add: sl'_def)
  have "popped_ok c sl' (getReasonAtTop m, getLitAtTop m, snd p) v'" if "slack m c < 0" "0 \<le> sl'"
  proof -
    have f: "fst p \<noteq> 0 \<and> isFalseLit m (snd p)" using that by (auto simp: sl'_def split: if_splits)
    have p: "snd p = - se_lit e" "p \<in> set (lhs c)" using S(2) [OF f] by auto
    have "stack_ok v (st @ [e])" using inv stk by (simp add: solver_inv_def core_inv_def trail_ok_stack m_def)
    then have "elem_ok v' st e" using same_db_elem_ok [OF P(4)] by simp
    moreover have wst: "wf_stack (tlits (solver_model v') @ [se_lit e])" using w(1) tl by (simp add: wf_model_def)
    then have "isUndefLit (solver_model v') (se_lit e)"
      by (auto simp: wf_undef [OF w(2)] wf_stack_snoc image_iff)
    moreover have "trail_range v" using inv by (simp add: solver_inv_def core_inv_def)
    then have "\<bar>se_lit e\<bar> \<le> numVars v" using tl by (simp add: trail_range_def m_def)
    then have "\<bar>se_lit e\<bar> \<le> numVars v'" by (simp add: v'_def)
    moreover have "0 < decisionLevel (solver_model v')" if "se_reason e \<noteq> NoReason"
    proof -
      have ch: "dl_chain 0 (st @ [e])" "decisionLevel (solver_model v') = end_dl 0 st"
        using w(1,2) by (auto simp: wf_model_def stk st_def)
      then have "se_dl e = end_dl 0 st" using that by (auto simp: not_le)
      moreover have "0 \<le> end_dl 0 st" using ch(1) dl_chain_le_end by auto
      moreover have "se_dl e \<noteq> 0" using nz by (simp add: currentDecisionLevel_def m_def [symmetric] stk)
      ultimately show ?thesis using ch(2) by simp
    qed
    moreover have "(fst p, - se_lit e) \<in> set (lhs c)" using p by (metis prod.collapse)
    moreover have "sl' < fst p" using f that by (simp add: sl'_def)
    ultimately show ?thesis unfolding popped_ok_def top p(1) st_def [symmetric] using that(2) by blast
  qed
  then show ?thesis using P(1,4) sl by blast
qed

lemma pop_loop_spec:
  assumes "pop_loop c sl t v = (z, sl', t', v')" "solver_inv v" "cut_ready c" "sl = slack (solver_model v) c" "sl < 0"
  shows "solver_inv v' \<and> same_db v v' \<and> conflict v' = conflict v \<and> sl' = slack (solver_model v') c
    \<and> (z \<longrightarrow> sl' < 0 \<and> currentDecisionLevel (solver_model v') = 0) \<and> (\<not> z \<longrightarrow> popped_ok c sl' t' v')"
  using assms
proof (induction c sl t v rule: pop_loop.induct)
  case (1 c sl t v)
  let ?m = "solver_model v"
  show ?case
  proof (cases "currentDecisionLevel ?m = 0")
    case True
    then show ?thesis using "1.prems" by (subst (asm) pop_loop.simps) auto
  next
    case False
    define p where "p = getCoefficientLiteralBinarySearch c \<bar>getLitAtTop ?m\<bar>"
    define sl1 where "sl1 = (if fst p \<noteq> 0 \<and> isFalseLit ?m (snd p) then sl + fst p else sl)"
    define t1 where "t1 = (getReasonAtTop ?m, getLitAtTop ?m, snd p)"
    let ?v = "snd (popAndUnassign v)"
    have step: "pop_loop c sl1 t1 ?v = (z, sl', t', v')"
      using "1.prems"(1,5) False by (subst (asm) pop_loop.simps) (auto simp: Let_def p_def sl1_def t1_def split: prod.splits)
    have F: "solver_inv ?v \<and> same_db v ?v \<and> sl1 = slack (solver_model ?v) c \<and> (0 \<le> sl1 \<longrightarrow> popped_ok c sl1 t1 ?v)"
      using pop_facts [OF "1.prems"(2,3) False] "1.prems"(4,5) unfolding sl1_def t1_def p_def by auto
    show ?thesis
    proof (cases "sl1 < 0")
      case True
      have IH: "solver_inv v' \<and> same_db ?v v' \<and> conflict v' = conflict ?v \<and> sl' = slack (solver_model v') c
        \<and> (z \<longrightarrow> sl' < 0 \<and> currentDecisionLevel (solver_model v') = 0) \<and> (\<not> z \<longrightarrow> popped_ok c sl' t' v')"
      proof (rule "1.IH" [OF "1.prems"(5) False refl refl refl refl, of "fst p" "snd p" sl1])
        show "(fst p, snd p) = getCoefficientLiteralBinarySearch c \<bar>getLitAtTop ?m\<bar>" by (simp add: p_def)
        show "sl1 = (if fst p \<noteq> 0 \<and> isFalseLit ?m (snd p) then sl + fst p else sl)" by (simp add: sl1_def)
      qed (use F "1.prems"(3) True step in \<open>simp_all only: t1_def\<close>)
      then show ?thesis using F same_db_trans by auto
    next
      case f: False
      then have "z = False" "sl' = sl1" "t' = t1" "v' = ?v" using step by (subst (asm) pop_loop.simps; simp)+
      then show ?thesis using F f by auto
    qed
  qed
qed

end
