(* ===== verification/ConflictDerive.thy ===== *)
theory ConflictDerive
  imports ConflictPop
begin

text \<open>
  What conflict analysis (\<open>src/src/ConflictAnalysis.cpp\<close>) works with: the constraint of a conflict and
  of a reason follow from the database and have the form the cuts need, \<open>removeUnits\<close> keeps slack and
  meaning, a constraint falsified at level zero refutes the database. \<open>round_ok\<close> states what one round
  of the analysis establishes.
\<close>

section \<open>Literals that level zero makes true\<close>

definition unit_true :: "('a::linorder) solver \<Rightarrow> lit \<Rightarrow> bool" where
  "unit_true v l \<longleftrightarrow> isTrueLit (solver_model v) l \<and> getDLOfLit (solver_model v) l = 0"

definition unit_free :: "('a::linorder) solver \<Rightarrow> wconstraint \<Rightarrow> bool" where
  "unit_free v c \<longleftrightarrow> (\<forall>m \<in> set (lhs c). \<not> unit_true v (snd m))"

text \<open>
  No linear constraint of the database has such a literal. A cleanup removes them from every linear
  constraint but the newest bound of the objective.
\<close>

definition pbs_unit_free :: "('a::linorder) solver \<Rightarrow> bool" where
  "pbs_unit_free v \<longleftrightarrow> (\<forall>c \<in> set (constraintsPB v). \<forall>m \<in> set (pb_lhs c). \<not> unit_true v (snd m))"

lemma unit_true_stack:
  assumes "wf_model (solver_model v)"
  shows "unit_true v l \<longleftrightarrow> (\<exists>e \<in> set (modelStack (solver_model v)). se_lit e = l \<and> se_dl e = 0)"
proof -
  have "isTrueLit (solver_model v) l \<longleftrightarrow> l \<in> se_lit ` set (modelStack (solver_model v))"
    using wf_true [OF assms] by (simp add: tlits_def)
  then show ?thesis using dl_of_trail_lit(1) [OF assms] unfolding unit_true_def by force
qed

lemma unit_true_mono:
  assumes "solver_inv v" "solver_inv v'" "set (modelStack (solver_model v')) \<subseteq> set (modelStack (solver_model v))" "unit_true v' l"
  shows "unit_true v l"
proof -
  have "wf_model (solver_model v)" "wf_model (solver_model v')" using assms(1,2) by (simp_all add: solver_inv_def core_inv_def)
  then show ?thesis using assms(3,4) by (auto simp: unit_true_stack)
qed

lemma pop_loop_stack:
  "pop_loop c sl t s = (z, sl', t', s') \<Longrightarrow> set (modelStack (solver_model s')) \<subseteq> set (modelStack (solver_model s))"
proof (induction c sl t s rule: pop_loop.induct)
  case (1 c sl t s)
  let ?p = "getCoefficientLiteralBinarySearch c \<bar>getLitAtTop (solver_model s)\<bar>"
  have pop: "set (modelStack (solver_model (snd (popAndUnassign s)))) \<subseteq> set (modelStack (solver_model s))"
    by (auto simp: popAndUnassign_def Let_def Model_popAndUnassign_def dest: in_set_butlastD)
  show ?case
  proof (cases "sl < 0 \<and> currentDecisionLevel (solver_model s) \<noteq> 0")
    case True
    show ?thesis
      using "1.prems" True pop "1.IH" [of "solver_model s" "getReasonAtTop (solver_model s)" "getLitAtTop (solver_model s)" ?p "fst ?p" "snd ?p"]
      by (subst (asm) pop_loop.simps) (auto simp: Let_def split_beta)
  next
    case False
    then show ?thesis using "1.prems" by (subst (asm) pop_loop.simps) (auto split: if_splits)
  qed
qed

lemma backjump_units:
  assumes "solver_inv v" "0 \<le> b" "unit_true (backjumpToDL b v) l"
  shows "unit_true v l"
proof (rule unit_true_mono [OF assms(1) _ _ assms(3)])
  show "set (modelStack (solver_model (backjumpToDL b v))) \<subseteq> set (modelStack (solver_model v))"
    using backjumpToDL_inv(4) [OF assms(1,2)] by (auto simp: stack_upto_def dest: set_takeWhileD set_dropWhileD)
qed (rule backjumpToDL_inv(1) [OF assms(1,2)])

lemma false_not_true: "isFalseLit m l \<Longrightarrow> \<not> isTrueLit m l" "isUndefLit m l \<Longrightarrow> \<not> isTrueLit m l"
  by (simp_all add: isFalseLit_def isTrueLit_def isUndefLit_def split: if_splits)

section \<open>The constraint of a reason\<close>

lemma sorted_vars:
  "lhs (sortByIncreasingVariable c) = sort_key (\<lambda>m. \<bar>snd m\<bar>) (lhs c)" "rhs (sortByIncreasingVariable c) = rhs c"
  "set (lhs (sortByIncreasingVariable c)) = set (lhs c)" "slack m (sortByIncreasingVariable c) = slack m c"
proof -
  show l: "lhs (sortByIncreasingVariable c) = sort_key (\<lambda>m. \<bar>snd m\<bar>) (lhs c)" "rhs (sortByIncreasingVariable c) = rhs c"
    by (simp_all add: sortByIncreasingVariable_def)
  show "set (lhs (sortByIncreasingVariable c)) = set (lhs c)" by (simp add: l)
  have "msum P (sort_key (\<lambda>m. \<bar>snd m\<bar>) (lhs c)) = msum P (lhs c)" for P by (rule msum_mset) simp
  then show "slack m (sortByIncreasingVariable c) = slack m c" by (simp add: slack_def l)
qed

lemma sorted_cut_ready:
  assumes "distinct (mvars (lhs c))" "nonzero_lits (lhs c)" "pos_coeffs (lhs c)" "\<forall>m \<in> set (lhs c). fst m \<le> rhs c" "0 < rhs c" "rhs c < 2 ^ 31"
  shows "cut_ready (sortByIncreasingVariable c)"
proof -
  have mv: "mvars ms = map (\<lambda>m. \<bar>snd m\<bar>) ms" for ms by (simp add: mvars_def)
  have "sorted (mvars (sort_key (\<lambda>m. \<bar>snd m\<bar>) (lhs c)))" by (simp add: mv)
  moreover have "mset (mvars (sort_key (\<lambda>m. \<bar>snd m\<bar>) (lhs c))) = mset (mvars (lhs c))" by (simp add: mv)
  then have "distinct (mvars (sort_key (\<lambda>m. \<bar>snd m\<bar>) (lhs c)))" using assms(1) mset_eq_imp_distinct_iff by blast
  ultimately have "sorted_wrt (<) (mvars (sort_key (\<lambda>m. \<bar>snd m\<bar>) (lhs c)))" by (simp add: strict_sorted_iff)
  then show ?thesis using assms by (simp add: cut_ready_def sorted_vars nonzero_lits_def pos_coeffs_def)
qed

lemma sat_clause: "sat \<sigma> (wc_of_clause c) \<longleftrightarrow> clause_sat \<sigma> (cl_lits c)"
proof -
  have "1 \<le> lhs_value \<sigma> (map (\<lambda>l. (1, l)) ls) \<longleftrightarrow> (\<exists>l \<in> set ls. lit_true \<sigma> l)" for ls
  proof -
    have "pos_coeffs (map (\<lambda>l. (1, l)) ls)" by (simp add: pos_coeffs_def)
    then have "0 < msum (lit_true \<sigma>) (map (\<lambda>l. (1, l)) ls) \<longleftrightarrow> (\<exists>l \<in> set ls. lit_true \<sigma> l)" by (subst msum_pos_iff) auto
    then show ?thesis by linarith
  qed
  then show ?thesis by (simp add: sat_def wc_of_clause_def clause_sat_def)
qed

lemma sat_bin: "sat \<sigma> (wc_of_bin l l') \<longleftrightarrow> lit_true \<sigma> l \<or> lit_true \<sigma> l'"
  by (simp add: sat_def wc_of_bin_def)

lemma sat_pb: "sat \<sigma> (wc_of_pb c) \<longleftrightarrow> pb_sat \<sigma> c"
  by (simp add: sat_def wc_of_pb_def pb_sat_def)

text \<open>A constraint that the database implies, over its variables, in the form the cuts need.\<close>

definition usable :: "('a::linorder) solver \<Rightarrow> wconstraint \<Rightarrow> bool" where
  "usable v c \<longleftrightarrow> cut_ready c \<and> (\<forall>m \<in> set (lhs c). \<bar>snd m\<bar> \<le> numVars v) \<and> (\<forall>\<sigma>. db_sat \<sigma> v \<longrightarrow> sat \<sigma> c)"

lemma usable_same_db: "same_db v v' \<Longrightarrow> usable v' c = usable v c"
proof -
  assume d: "same_db v v'"
  have "numVars v' = numVars v" using d unfolding same_db_def by blast
  then show ?thesis by (simp add: usable_def same_db_sat [OF d])
qed

lemma usable_pb:
  assumes "db_ready v" "db_ok v" "n < length (constraintsPB v)"
  shows "usable v (sortByIncreasingVariable (wc_of_pb (constraintsPB v ! n)))"
proof -
  let ?c = "constraintsPB v ! n"
  have "?c \<in> set (constraintsPB v)" using assms(3) by simp
  then have p: "pb_ready (pb_lhs ?c, pb_rhs ?c)" "pb_ok (numVars v) ?c" using assms by (auto simp: db_ready_def db_ok_def)
  have "cut_ready (sortByIncreasingVariable (wc_of_pb ?c))"
    by (rule sorted_cut_ready) (use p in \<open>auto simp: wc_of_pb_def pb_ready_def pb_ok_def\<close>)
  moreover have "sat \<sigma> (sortByIncreasingVariable (wc_of_pb ?c))" if "db_sat \<sigma> v" for \<sigma>
    using that assms(3) by (auto simp: db_sat_def sat_pb)
  ultimately show ?thesis using p(2) by (auto simp: usable_def sorted_vars wc_of_pb_def pb_ok_def)
qed

lemma usable_clause:
  assumes "db_ready v" "db_ok v" "n < length (clauses v)"
  shows "usable v (sortByIncreasingVariable (wc_of_clause (clauses v ! n)))"
proof -
  let ?c = "clauses v ! n"
  have "?c \<in> set (clauses v)" using assms(3) by simp
  then have p: "inj_on abs (set (cl_lits ?c))" "cl_ok (numVars v) ?c" using assms by (auto simp: db_ready_def db_ok_def)
  then have "distinct (map abs (cl_lits ?c))" by (simp add: distinct_map cl_ok_def)
  then have "cut_ready (sortByIncreasingVariable (wc_of_clause ?c))"
    by (intro sorted_cut_ready) (use p in \<open>auto simp: wc_of_clause_def cl_ok_def mvars_def o_def nonzero_lits_def pos_coeffs_def\<close>)
  moreover have "sat \<sigma> (sortByIncreasingVariable (wc_of_clause ?c))" if "db_sat \<sigma> v" for \<sigma>
    using that assms(3) by (auto simp: db_sat_def sat_clause)
  ultimately show ?thesis using p(2) by (auto simp: usable_def sorted_vars wc_of_clause_def cl_ok_def)
qed

lemma usable_bin:
  assumes "db_ready v" "db_ok v" "l \<in> set (binClauses v l')" "\<bar>l'\<bar> \<le> numVars v"
  shows "usable v (sortByIncreasingVariable (wc_of_bin l l'))" "usable v (sortByIncreasingVariable (wc_of_bin l' l))"
proof -
  have d: "\<bar>l\<bar> \<noteq> \<bar>l'\<bar>" "l \<noteq> 0" "l' \<noteq> 0" "\<bar>l\<bar> \<le> numVars v" using assms by (auto simp: db_ready_def db_ok_def)
  have "cut_ready (sortByIncreasingVariable (wc_of_bin a b))" if "{a, b} = {l, l'}" for a b
    by (rule sorted_cut_ready) (use d that in \<open>auto simp: wc_of_bin_def mvars_def nonzero_lits_def pos_coeffs_def doubleton_eq_iff\<close>)
  moreover have "sat \<sigma> (sortByIncreasingVariable (wc_of_bin l l'))" "sat \<sigma> (sortByIncreasingVariable (wc_of_bin l' l))"
    if "db_sat \<sigma> v" for \<sigma>
    using that assms(3) by (auto simp: db_sat_def sat_bin)
  ultimately show "usable v (sortByIncreasingVariable (wc_of_bin l l'))" "usable v (sortByIncreasingVariable (wc_of_bin l' l))"
    using d assms(4) by (auto simp: usable_def sorted_vars wc_of_bin_def insert_commute)
qed

lemma reason_facts:
  assumes inv: "solver_inv (sv s)" and rd: "db_ready (sv s)" and p: "popped_ok c sl (r, l, x) (sv s)" and r: "r \<noteq> NoReason"
  obtains d s' a where "reason_constraint r l s = Some (d, s')" "usable (sv s) d" "(a, l) \<in> set (lhs d)"
    "slack (solver_model (sv s)) d < a" "keeps (sv s) (sv s')" "pbs_unit_free (sv s) \<Longrightarrow> unit_free (sv s) d"
proof -
  let ?v = "sv s" let ?m = "solver_model ?v"
  have w: "wf_model ?m" "db_ok ?v" "trail_range ?v" using inv by (auto simp: solver_inv_def core_inv_def)
  obtain e where e: "r = se_reason e" "l = se_lit e" "elem_ok ?v (modelStack ?m) e" "isUndefLit ?m l" using p by (auto simp: popped_ok_def)
  have f: "isFalseLit ?m y \<longleftrightarrow> - y \<in> set (map se_lit (modelStack ?m))" for y using wf_false [OF w(1)] by (simp add: tlits_def)
  have nf: "\<not> isFalseLit ?m l" using e(4) by (auto simp: isUndefLit_def isFalseLit_def split: if_splits)
  show ?thesis
  proof (cases r)
    case (PBReason n)
    let ?c = "constraintsPB ?v ! n"
    obtain k where n: "n < length (constraintsPB ?v)" and k: "(k, l) \<in> set (pb_lhs ?c)" "msum (\<lambda>y. \<not> isFalseLit ?m y) (pb_lhs ?c) - pb_rhs ?c < k"
      using e(2,3) trans [OF e(1) [symmetric] PBReason] by (auto simp: elem_ok_def Let_def f)
    note B = keeps_bump_pb [OF inv n]
    have "wc_of_pb (constraintsPB (sv (bump_pb n s)) ! n) = wc_of_pb ?c" using B(2,3) by (simp add: wc_of_pb_def)
    then have "reason_constraint r l s = Some (sortByIncreasingVariable (wc_of_pb ?c), bump_pb n s)"
      by (simp add: reason_constraint_def PBReason Let_def)
    moreover have "(k, l) \<in> set (lhs (sortByIncreasingVariable (wc_of_pb ?c)))" using k(1) by (simp add: sorted_vars wc_of_pb_def)
    moreover have "slack ?m (sortByIncreasingVariable (wc_of_pb ?c)) < k"
      unfolding sorted_vars(4) using k(2) by (simp add: slack_def wc_of_pb_def)
    moreover have "unit_free ?v (sortByIncreasingVariable (wc_of_pb ?c))" if "pbs_unit_free ?v"
      using that nth_mem [OF n] by (auto simp: unit_free_def pbs_unit_free_def sorted_vars wc_of_pb_def)
    ultimately show ?thesis using that usable_pb [OF rd w(2) n] B(1) by blast
  next
    case (ClauseReason n)
    let ?c = "clauses ?v ! n"
    have n: "n < length (clauses ?v)" and k: "l \<in> set (cl_lits ?c)" "\<And>y. y \<in> set (cl_lits ?c) \<Longrightarrow> isFalseLit ?m y = (y \<noteq> l)"
      using e(2,3) trans [OF e(1) [symmetric] ClauseReason] nf by (auto simp: elem_ok_def f)
    note B = keeps_bump_clause [OF inv n]
    have "wc_of_clause (clauses (sv (bump_clause n s)) ! n) = wc_of_clause ?c" using B(2) by (simp add: wc_of_clause_def)
    then have "reason_constraint r l s = Some (sortByIncreasingVariable (wc_of_clause ?c), bump_clause n s)"
      by (simp add: reason_constraint_def ClauseReason Let_def)
    moreover have m: "(1, l) \<in> set (lhs (wc_of_clause ?c))" using k(1) by (simp add: wc_of_clause_def)
    then have "(1, l) \<in> set (lhs (sortByIncreasingVariable (wc_of_clause ?c)))" by (simp add: sorted_vars)
    moreover have "slack ?m (sortByIncreasingVariable (wc_of_clause ?c)) < 1"
    proof -
      have "inj_on abs (set (cl_lits ?c))" "distinct (cl_lits ?c)" using rd w(2) n by (auto simp: db_ready_def db_ok_def cl_ok_def)
      then have d: "distinct (mvars (lhs (wc_of_clause ?c)))" by (simp add: wc_of_clause_def mvars_def o_def distinct_map)
      have "msum (\<lambda>y. \<not> isFalseLit ?m y) (lhs (wc_of_clause ?c)) = msum (\<lambda>y. y = l) (lhs (wc_of_clause ?c))"
        by (rule msum_cong) (use k(2) in \<open>auto simp: wc_of_clause_def\<close>)
      also have "\<dots> = 1" using msum_single_var [OF d m] by simp
      finally show ?thesis unfolding sorted_vars(4) by (simp add: slack_def wc_of_clause_def)
    qed
    moreover have "\<not> isTrueLit ?m y" if "y \<in> set (cl_lits ?c)" for y using k(2) [OF that] false_not_true e(4) by blast
    then have "unit_free ?v (sortByIncreasingVariable (wc_of_clause ?c))"
      by (auto simp: unit_free_def unit_true_def sorted_vars wc_of_clause_def)
    ultimately show ?thesis using that usable_clause [OF rd w(2) n] B(1) by blast
  next
    case (BinReason l')
    have k: "l \<in> set (binClauses ?v l')" "- l' \<in> set (tlits ?m)" using e(2,3) trans [OF e(1) [symmetric] BinReason] by (auto simp: elem_ok_def tlits_def)
    then have rng: "\<bar>l'\<bar> \<le> numVars ?v" using w(3) by (force simp: trail_range_def)
    have fl: "isFalseLit ?m l'" using k(2) wf_false [OF w(1)] by simp
    show ?thesis
    proof (rule that)
      show "reason_constraint r l s = Some (sortByIncreasingVariable (wc_of_bin l l'), s)" by (simp add: reason_constraint_def BinReason)
      show "slack ?m (sortByIncreasingVariable (wc_of_bin l l')) < 1"
        using fl nf by (simp add: sorted_vars(4)) (simp add: slack_def wc_of_bin_def)
      show "pbs_unit_free ?v \<Longrightarrow> unit_free ?v (sortByIncreasingVariable (wc_of_bin l l'))"
        using fl e(4) by (auto simp: unit_free_def unit_true_def sorted_vars wc_of_bin_def dest: false_not_true)
    qed (use usable_bin(1) [OF rd w(2) k(1) rng] in \<open>simp_all add: sorted_vars wc_of_bin_def\<close>)
  qed (use r in simp)
qed

text \<open>The constraint with which the analysis starts, and the state after its activity was raised.\<close>

definition analysis_start :: "'a float_ops \<Rightarrow> ('a::linorder) search \<Rightarrow> wconstraint \<times> 'a search" where
  "analysis_start F s =
     (let s = increaseActivityScoreBonus F s; v = sv s in
      case typeConflict v of
        CONFLICT_PB \<Rightarrow> (let s = bump_pb (constraintConflictNum v) s in (wc_of_pb (constraintsPB (sv s) ! constraintConflictNum v), s))
      | CONFLICT_CLAUSE \<Rightarrow> (let s = bump_clause (clauseConflictNum v) s in (wc_of_clause (clauses (sv s) ! clauseConflictNum v), s))
      | _ \<Rightarrow> (wc_of_bin (fst (binClauseConflict v)) (snd (binClauseConflict v)), s))"

lemma conflictAnalysis_start:
  "conflict_ok (sv s) \<Longrightarrow> conflict (sv s) \<Longrightarrow> analysis_start F s = (d, s') \<Longrightarrow> conflictAnalysis F s = conflictAnalysisAndBackjump F d s'"
  by (auto simp: conflictAnalysis_def analysis_start_def conflict_ok_def Let_def increaseActivityScoreBonus_def split: conflict_type.splits)

lemma slack_all_false:
  assumes "\<forall>l \<in> set ls. isFalseLit m l"
  shows "slack m \<lparr>lhs = map (\<lambda>l. (1, l)) ls, rhs = 1\<rparr> = -1"
proof -
  have "msum (\<lambda>l. \<not> isFalseLit m l) (map (\<lambda>l. (1, l)) ls) = 0" by (rule msum_absent) (use assms in auto)
  then show ?thesis by (simp add: slack_def)
qed

lemma start_facts:
  assumes inv: "solver_inv (sv s)" and rd: "db_ready (sv s)" and c: "conflict_ok (sv s)" "conflict (sv s)"
  obtains d s' where "analysis_start F s = (d, s')" "keeps (sv s) (sv s')"
    "usable (sv s) (sortByIncreasingVariable d)" "slack (solver_model (sv s)) d < 0"
    "pbs_unit_free (sv s) \<Longrightarrow> unit_free (sv s) (sortByIncreasingVariable d)"
proof -
  let ?v = "sv s" let ?m = "solver_model ?v"
  define s0 where "s0 = increaseActivityScoreBonus F s"
  have s0: "sv s0 = ?v" by (simp add: s0_def increaseActivityScoreBonus_def)
  have w: "wf_model ?m" "db_ok ?v" "trail_range ?v" using inv by (auto simp: solver_inv_def core_inv_def)
  have f: "isFalseLit ?m y \<longleftrightarrow> - y \<in> set (tlits ?m)" for y using wf_false [OF w(1)] by simp
  show ?thesis
  proof (cases "typeConflict ?v")
    case CONFLICT_PB
    let ?n = "constraintConflictNum ?v" let ?c = "constraintsPB ?v ! ?n"
    have n: "?n < length (constraintsPB (sv s0))" and k: "msum (\<lambda>y. \<not> isFalseLit ?m y) (pb_lhs ?c) < pb_rhs ?c"
      using c CONFLICT_PB by (auto simp: conflict_ok_def f s0 Let_def)
    note B = keeps_bump_pb [OF inv [folded s0] n]
    have e: "wc_of_pb (constraintsPB (sv (bump_pb ?n s0)) ! ?n) = wc_of_pb ?c" using B(2,3) by (simp add: wc_of_pb_def s0)
    show ?thesis
    proof (rule that)
      show "analysis_start F s = (wc_of_pb ?c, bump_pb ?n s0)"
        using e by (simp add: analysis_start_def s0_def [symmetric] Let_def s0 CONFLICT_PB)
      show "slack ?m (wc_of_pb ?c) < 0" using k by (simp add: slack_def wc_of_pb_def)
      show "pbs_unit_free ?v \<Longrightarrow> unit_free ?v (sortByIncreasingVariable (wc_of_pb ?c))"
        using nth_mem [OF n [unfolded s0]] by (auto simp: unit_free_def pbs_unit_free_def sorted_vars wc_of_pb_def)
    qed (use usable_pb [OF rd w(2) n [unfolded s0]] B(1) in \<open>simp_all add: s0\<close>)
  next
    case CONFLICT_CLAUSE
    let ?n = "clauseConflictNum ?v" let ?c = "clauses ?v ! ?n"
    have n: "?n < length (clauses (sv s0))" and k: "\<forall>l \<in> set (cl_lits ?c). isFalseLit ?m l"
      using c CONFLICT_CLAUSE by (auto simp: conflict_ok_def f s0 Let_def)
    note B = keeps_bump_clause [OF inv [folded s0] n]
    have e: "wc_of_clause (clauses (sv (bump_clause ?n s0)) ! ?n) = wc_of_clause ?c" using B(2) by (simp add: wc_of_clause_def s0)
    show ?thesis
    proof (rule that)
      show "analysis_start F s = (wc_of_clause ?c, bump_clause ?n s0)"
        using e by (simp add: analysis_start_def s0_def [symmetric] Let_def s0 CONFLICT_CLAUSE)
      show "slack ?m (wc_of_clause ?c) < 0" using slack_all_false [OF k] by (simp add: wc_of_clause_def)
      show "unit_free ?v (sortByIncreasingVariable (wc_of_clause ?c))"
        using k by (auto simp: unit_free_def unit_true_def sorted_vars wc_of_clause_def dest: false_not_true)
    qed (use usable_clause [OF rd w(2) n [unfolded s0]] B(1) in \<open>simp_all add: s0\<close>)
  next
    case CONFLICT_BIN_CLAUSE
    obtain l l' where b: "binClauseConflict ?v = (l, l')" by fastforce
    have k: "l' \<in> set (binClauses ?v l)" "isFalseLit ?m l" "isFalseLit ?m l'"
      using c CONFLICT_BIN_CLAUSE b by (auto simp: conflict_ok_def f Let_def)
    have "\<bar>l\<bar> \<le> numVars ?v" using k(2) w(3) f by (force simp: trail_range_def)
    note U = usable_bin(2) [OF rd w(2) k(1) this]
    show ?thesis
    proof (rule that)
      show "analysis_start F s = (wc_of_bin l l', s0)"
        by (simp add: analysis_start_def s0_def [symmetric] Let_def s0 CONFLICT_BIN_CLAUSE b)
      show "slack ?m (wc_of_bin l l') < 0" using k by (simp add: slack_def wc_of_bin_def)
      show "unit_free ?v (sortByIncreasingVariable (wc_of_bin l l'))"
        using k by (auto simp: unit_free_def unit_true_def sorted_vars wc_of_bin_def dest: false_not_true)
    qed (use U in \<open>simp_all add: s0\<close>)
  next
    case NoConflictYet
    then show ?thesis using c by (simp add: conflict_ok_def Let_def)
  qed
qed

section \<open>Level zero\<close>

lemma end_dl_current: "currentDecisionLevel m = end_dl 0 (modelStack m)"
  by (simp add: currentDecisionLevel_def end_dl_def)

lemma level_zero_lits:
  assumes "core_inv v" "db_sat \<sigma> v" "l \<in> set (tlits (solver_model v))" "getDLOfLit (solver_model v) l = 0"
  shows "lit_true \<sigma> l"
proof -
  have w: "wf_model (solver_model v)" using assms(1) by (simp add: core_inv_def)
  obtain i where i: "i < length (modelStack (solver_model v))" "l = se_lit (modelStack (solver_model v) ! i)"
    using assms(3) by (auto simp: tlits_def in_set_conv_nth)
  have "se_dl (modelStack (solver_model v) ! i) = 0" using wf_getDLOfLit [OF w i(1)] assms(4) i(2) by simp
  then show ?thesis using level_zero_true [OF assms(1,2) i(1)] i(2) by simp
qed

lemma level_zero_all:
  assumes "core_inv v" "currentDecisionLevel (solver_model v) = 0" "l \<in> set (tlits (solver_model v))"
  shows "getDLOfLit (solver_model v) l = 0"
proof -
  let ?m = "solver_model v"
  have w: "wf_model ?m" using assms(1) by (simp add: core_inv_def)
  then have ch: "dl_chain 0 (modelStack ?m)" by (simp add: wf_model_def)
  obtain e where e: "e \<in> set (modelStack ?m)" "l = se_lit e" using assms(3) by (auto simp: tlits_def)
  show ?thesis using dl_chain_member [OF ch e(1)] assms(2) dl_of_trail_lit(1) [OF w e(1)] e(2) by (simp add: end_dl_current)
qed

lemma false_zero_sum:
  assumes "core_inv v" "db_sat \<sigma> v" "pos_coeffs ms" and "\<And>p. p \<in> set ms \<Longrightarrow> isFalseLit (solver_model v) (snd p) \<Longrightarrow> getDLOfLit (solver_model v) (snd p) = 0"
  shows "lhs_value \<sigma> ms \<le> msum (\<lambda>l. \<not> isFalseLit (solver_model v) l) ms"
proof (rule msum_mono [OF assms(3)])
  fix p assume p: "p \<in> set ms" "lit_true \<sigma> (snd p)"
  have w: "wf_model (solver_model v)" using assms(1) by (simp add: core_inv_def)
  show "\<not> isFalseLit (solver_model v) (snd p)"
  proof
    assume f: "isFalseLit (solver_model v) (snd p)"
    then have t: "- snd p \<in> set (tlits (solver_model v))" using wf_false [OF w] by simp
    have "getDLOfLit (solver_model v) (- snd p) = 0" using assms(4) [OF p(1) f] by (simp add: getDLOfLit_def)
    then have "lit_true \<sigma> (- snd p)" using level_zero_lits [OF assms(1,2) t] by simp
    moreover have "snd p \<noteq> 0" using t wf_model_zero [OF w] by auto
    ultimately show False using p(2) lit_true_neg by blast
  qed
qed

text \<open>A constraint of the database that level zero falsifies leaves no solution.\<close>

lemma level_zero_refuted:
  assumes "core_inv v" "currentDecisionLevel (solver_model v) = 0" "slack (solver_model v) c < 0" "pos_coeffs (lhs c)"
    and "\<And>\<sigma>. db_sat \<sigma> v \<Longrightarrow> sat \<sigma> c"
  shows "\<not> db_sat \<sigma> v"
proof
  assume \<sigma>: "db_sat \<sigma> v"
  have w: "wf_model (solver_model v)" using assms(1) by (simp add: core_inv_def)
  have "lhs_value \<sigma> (lhs c) \<le> msum (\<lambda>l. \<not> isFalseLit (solver_model v) l) (lhs c)"
  proof (rule false_zero_sum [OF assms(1) \<sigma> assms(4)])
    fix p assume "isFalseLit (solver_model v) (snd p)"
    then have "- snd p \<in> set (tlits (solver_model v))" using wf_false [OF w] by simp
    then show "getDLOfLit (solver_model v) (snd p) = 0" using level_zero_all [OF assms(1,2)] by (force simp: getDLOfLit_def)
  qed
  then show False using assms(3) assms(5) [OF \<sigma>] by (simp add: slack_def sat_def)
qed

text \<open>\<open>removeUnits\<close> filters the literals of level zero and keeps slack and meaning.\<close>

definition at_zero :: "model \<Rightarrow> lit \<Rightarrow> bool" where
  "at_zero m l \<longleftrightarrow> \<not> isUndefLit m l \<and> getDLOfLit m l = 0"

lemma remove_units_eq:
  "remove_units_loop m ms acc k = (acc @ filter (\<lambda>p. \<not> at_zero m (snd p)) ms, k - msum (\<lambda>l. at_zero m l \<and> isTrueLit m l) ms)"
  by (induction m ms acc k rule: remove_units_loop.induct) (auto simp: at_zero_def)

lemma removeUnits_eq:
  "lhs (removeUnits m c) = filter (\<lambda>p. \<not> at_zero m (snd p)) (lhs c)"
  "rhs (removeUnits m c) = rhs c - msum (\<lambda>l. at_zero m l \<and> isTrueLit m l) (lhs c)"
  by (simp_all add: removeUnits_def remove_units_eq setConstant_def setLHS_def)

lemma msum_filter_split: "msum P ms = msum P (filter (\<lambda>p. \<not> Q (snd p)) ms) + msum (\<lambda>l. Q l \<and> P l) ms"
  by (induction ms) auto

lemma at_zero_cases: "at_zero m l \<Longrightarrow> l \<noteq> 0 \<Longrightarrow> isTrueLit m l \<longleftrightarrow> \<not> isFalseLit m l"
  by (auto simp: at_zero_def isUndefLit_def isTrueLit_def isFalseLit_def not_less order.strict_iff_order)

lemma removeUnits_slack: "nonzero_lits (lhs c) \<Longrightarrow> slack m (removeUnits m c) = slack m c"
proof -
  assume nz: "nonzero_lits (lhs c)"
  have "msum (\<lambda>l. at_zero m l \<and> isTrueLit m l) (lhs c) = msum (\<lambda>l. at_zero m l \<and> \<not> isFalseLit m l) (lhs c)"
    by (rule msum_cong) (use nz in \<open>auto simp: at_zero_cases nonzero_lits_def\<close>)
  then show ?thesis
    using msum_filter_split [of "\<lambda>l. \<not> isFalseLit m l" "lhs c" "at_zero m"] by (simp add: slack_def removeUnits_eq)
qed

lemma removeUnits_sat:
  assumes "core_inv v" "db_sat \<sigma> v" "pos_coeffs (lhs c)" "sat \<sigma> c" "nonzero_lits (lhs c)"
  shows "sat \<sigma> (removeUnits (solver_model v) c)"
proof -
  let ?m = "solver_model v" and ?Q = "\<lambda>l. at_zero (solver_model v) l"
  have w: "wf_model ?m" using assms(1) by (simp add: core_inv_def)
  have "msum (\<lambda>l. ?Q l \<and> lit_true \<sigma> l) (lhs c) \<le> msum (\<lambda>l. ?Q l \<and> isTrueLit ?m l) (lhs c)"
  proof (rule msum_mono [OF assms(3)])
    fix p assume m: "p \<in> set (lhs c)" and p: "?Q (snd p) \<and> lit_true \<sigma> (snd p)"
    have nz: "snd p \<noteq> 0" using m assms(5) by (simp add: nonzero_lits_def)
    have "isTrueLit ?m (snd p)"
    proof (rule ccontr)
      assume "\<not> isTrueLit ?m (snd p)"
      then have t: "- snd p \<in> set (tlits ?m)" using p at_zero_cases [of ?m "snd p"] nz wf_false [OF w] by auto
      then have "lit_true \<sigma> (- snd p)" using level_zero_lits [OF assms(1,2) t] p by (simp add: at_zero_def getDLOfLit_def)
      then show False using p nz lit_true_neg by blast
    qed
    then show "?Q (snd p) \<and> isTrueLit ?m (snd p)" using p by simp
  qed
  then show ?thesis using assms(4) msum_filter_split [of "lit_true \<sigma>" "lhs c" ?Q] by (simp add: sat_def removeUnits_eq)
qed

lemma removeUnits_shape:
  assumes "cut_ready c" and d_def: "d = removeUnits m c"
  shows "sorted_wrt (<) (mvars (lhs d))" "nonzero_lits (lhs d)" "pos_coeffs (lhs d)" "set (lhs d) \<subseteq> set (lhs c)" "rhs d \<le> rhs c"
proof -
  note r = assms(1) [unfolded cut_ready_def]
  show sub: "set (lhs d) \<subseteq> set (lhs c)" by (auto simp: d_def removeUnits_eq)
  show "nonzero_lits (lhs d)" "pos_coeffs (lhs d)" using r sub by (auto simp: nonzero_lits_def pos_coeffs_def)
  show "sorted_wrt (<) (mvars (lhs d))"
    using r by (simp add: d_def removeUnits_eq mvars_def sorted_wrt_map sorted_wrt_filter)
  show "rhs d \<le> rhs c" using r msum_nonneg [of "lhs c"] by (simp add: d_def removeUnits_eq)
qed

section \<open>What a round establishes\<close>

definition saturated :: "wconstraint \<Rightarrow> bool" where
  "saturated c \<longleftrightarrow> (\<forall>m \<in> set (lhs c). fst m \<le> rhs c)"

definition derived :: "('a::linorder) solver \<Rightarrow> wconstraint \<Rightarrow> bool" where
  "derived v c \<longleftrightarrow> sorted_wrt (<) (mvars (lhs c)) \<and> nonzero_lits (lhs c) \<and> pos_coeffs (lhs c) \<and> 0 < rhs c \<and> rhs c < 2 ^ 31
     \<and> (\<forall>m \<in> set (lhs c). \<bar>snd m\<bar> \<le> numVars v) \<and> (\<forall>\<sigma>. db_sat \<sigma> v \<longrightarrow> sat \<sigma> c)"

lemma usable_iff: "usable v c \<longleftrightarrow> derived v c \<and> saturated c"
  by (auto simp: usable_def derived_def saturated_def cut_ready_def)

definition learned :: "('a::linorder) solver \<Rightarrow> 'a solver \<Rightarrow> bool" where
  "learned v v' \<longleftrightarrow> solver_inv v' \<and> db_ready v' \<and> numVars v' = numVars v \<and> (\<forall>\<sigma>. db_sat \<sigma> v' = db_sat \<sigma> v)
     \<and> (conflict v' \<longrightarrow> conflict_ok v' \<or> currentDecisionLevel (solver_model v') = 0 \<and> (\<forall>\<sigma>. \<not> db_sat \<sigma> v))"

text \<open>
  \<open>G\<close>: the constraint a round starts with and the linear constraints of the database are free of
  literals that level zero makes true. Then the round goes on with a saturated constraint of that kind.
\<close>

definition round_ok :: "bool \<Rightarrow> ('a::linorder) solver \<Rightarrow> 'a search round \<Rightarrow> bool" where
  "round_ok G v r \<longleftrightarrow> (case r of
     Return s' \<Rightarrow> learned v (sv s')
   | Again c sl s' \<Rightarrow> solver_inv (sv s') \<and> same_db v (sv s') \<and> conflict (sv s') \<and> derived (sv s') c
       \<and> sl = slack (solver_model (sv s')) c \<and> sl < 0 \<and> (\<forall>l. unit_true (sv s') l \<longrightarrow> unit_true v l)
       \<and> (G \<longrightarrow> saturated c \<and> unit_free (sv s') c)
   | ExitNoReason \<Rightarrow> True
   | Trap \<Rightarrow> False)"

lemma max_coeff_le_msum: "pos_coeffs ms \<Longrightarrow> (\<And>l. P l \<Longrightarrow> Q l) \<Longrightarrow> max_coeff P ms 0 \<le> msum Q ms"
proof (induction ms)
  case (Cons p ms)
  have "0 \<le> msum Q ms" using Cons.prems(1) by (auto intro: msum_nonneg)
  then show ?case using Cons by (cases p) auto
qed simp

lemma max_coeff_filter: "(\<And>p. p \<in> set ms \<Longrightarrow> P (snd p) \<Longrightarrow> R p) \<Longrightarrow> max_coeff P (filter R ms) x = max_coeff P ms x"
  by (induction ms) auto

lemma undef_not_false': "isUndefLit m l \<Longrightarrow> \<not> isFalseLit m l"
  by (simp add: isUndefLit_def isFalseLit_def split: if_splits)

lemma removeUnits_active:
  assumes "nonzero_lits (lhs c)"
  shows "constraintIsConflictingOrPropagating m (removeUnits m c) = constraintIsConflictingOrPropagating m c"
proof -
  have "max_coeff (isUndefLit m) (lhs (removeUnits m c)) 0 = max_coeff (isUndefLit m) (lhs c) 0"
    unfolding removeUnits_eq by (rule max_coeff_filter) (simp add: at_zero_def)
  then show ?thesis using removeUnits_slack [OF assms, of m] by (simp add: constraint_active slack_def)
qed

lemma active_constraint:
  assumes "constraintIsConflictingOrPropagating m c" "pos_coeffs (lhs c)"
  shows "0 < rhs c" "0 \<le> slack m c \<Longrightarrow> lhs c \<noteq> []"
proof -
  have "max_coeff (isUndefLit m) (lhs c) 0 \<le> msum (\<lambda>l. \<not> isFalseLit m l) (lhs c)"
    by (rule max_coeff_le_msum [OF assms(2)]) (rule undef_not_false')
  then show "0 < rhs c" using assms(1) by (simp add: constraint_active)
  show "0 \<le> slack m c \<Longrightarrow> lhs c \<noteq> []" using assms(1) by (auto simp: constraint_active slack_def)
qed

lemma derived_removeUnits:
  assumes inv: "core_inv v" and u: "usable v c" and pos: "0 < rhs (removeUnits (solver_model v) c)"
  shows "derived v (removeUnits (solver_model v) c)"
proof -
  note c = u [unfolded usable_def]
  note r = conjunct1 [OF c]
  note R = removeUnits_shape [OF r refl, of "solver_model v"]
  have "sat \<sigma> (removeUnits (solver_model v) c)" if "db_sat \<sigma> v" for \<sigma>
    using removeUnits_sat [OF inv that] c that by (simp add: cut_ready_def)
  then show ?thesis using R pos c by (auto simp: derived_def cut_ready_def)
qed

lemma backjump_zero_level:
  assumes "solver_inv v"
  shows "currentDecisionLevel (solver_model (backjumpToDL 0 v)) = 0"
proof -
  note B = backjumpToDL_inv [OF assms, of 0]
  let ?m = "solver_model (backjumpToDL 0 v)"
  have ch: "dl_chain 0 (modelStack ?m)" using B(1) by (simp add: solver_inv_def core_inv_def wf_model_def)
  have "se_dl e = 0" if "e \<in> set (modelStack ?m)" for e
    using that dl_chain_member [OF ch that] B(4) by (auto simp: stack_upto_def dest: set_takeWhileD)
  then show ?thesis by (simp add: currentDecisionLevel_def)
qed

lemma learned_refuted:
  assumes "solver_inv v'" "same_db v v'" "db_ready v" "currentDecisionLevel (solver_model v') = 0" "\<And>\<sigma>. \<not> db_sat \<sigma> v"
  shows "learned v v'"
  using assms db_ready_same_db [OF assms(2)] same_db_sat [OF assms(2)]
  unfolding learned_def same_db_def by blast

end
