(* ===== verification/NativeLookahead.thy ===== *)
theory NativeLookahead
  imports Cubes PropagateFix ConflictDerive
begin

text \<open>
  The native solver (\<open>src/src/NativeBackend.cpp\<close>, \<open>CubeConquerAPI.cpp\<close>) as the backend of the cube
  generator: it satisfies the contract \<open>lookahead_backend\<close> on a pseudo-Boolean database whose root
  has been propagated. Hence the cubes generated with it cover every solution. The code does not
  propagate the root before it generates cubes; the last section shows what this costs.
\<close>

definition native_ops :: "('a::linorder) solver backend" where
  "native_ops = \<lparr>op_assignedVars = assignedVars, op_isUndefLit = Solver_isUndefLit,
     op_assumeAndPropagate = assumeAndPropagate, op_backtrack = backtrack\<rparr>"

lemma native_ops_simps [simp]:
  "op_assignedVars native_ops = assignedVars" "op_isUndefLit native_ops = Solver_isUndefLit"
  "op_assumeAndPropagate native_ops = assumeAndPropagate" "op_backtrack native_ops = backtrack"
  by (simp_all add: native_ops_def)

section \<open>Levels\<close>

definition lits_upto :: "int \<Rightarrow> ('a::linorder) solver \<Rightarrow> lit list" where
  "lits_upto d s = map se_lit (stack_upto d (modelStack (solver_model s)))"

definition levels_closed :: "int \<Rightarrow> ('a::linorder) solver \<Rightarrow> bool" where
  "levels_closed d s \<longleftrightarrow> (\<forall>e. 0 \<le> e \<and> e \<le> d \<longrightarrow> closed_lits (constraintsPB s) (lits_upto e s))"

definition pb_only :: "('a::linorder) solver \<Rightarrow> bool" where
  "pb_only s \<longleftrightarrow> clauses s = [] \<and> binClauses s = (\<lambda>_. [])"

definition la_ready :: "('a::linorder) solver \<Rightarrow> 'a solver \<Rightarrow> bool" where
  "la_ready s0 s \<longleftrightarrow> api_ready s \<and> caches_ok s \<and> levels_closed (decisionLevel (solver_model s)) s \<and> same_db s0 s \<and> pb_only s0"

definition la_pending :: "('a::linorder) solver \<Rightarrow> 'a solver \<Rightarrow> bool" where
  "la_pending s0 s \<longleftrightarrow> api_pending s \<and> caches_ok s \<and> levels_closed (decisionLevel (solver_model s) - 1) s \<and> same_db s0 s \<and> pb_only s0"

lemma stack_upto_twice: "d \<le> e \<Longrightarrow> stack_upto d (stack_upto e st) = stack_upto d st"
  unfolding stack_upto_def by (induction st) auto

lemma stack_upto_level:
  "wf_model m \<Longrightarrow> stack_upto (decisionLevel m) (modelStack m) = modelStack m"
  using stack_upto_low [of 0 "modelStack m" "decisionLevel m"] by (simp add: wf_model_def)

lemma api_ready_wf: "api_ready s \<Longrightarrow> wf_model (solver_model s)"
  by (simp add: api_ready_def solver_inv_def core_inv_def)

lemma api_pending_wf: "api_pending s \<Longrightarrow> wf_model (solver_model s)"
  by (simp add: api_pending_def solver_inv_def core_inv_def)

lemma lits_upto_level: "wf_model (solver_model s) \<Longrightarrow> lits_upto (decisionLevel (solver_model s)) s = tlits (solver_model s)"
  by (simp add: lits_upto_def stack_upto_level tlits_def)

lemma ready_closed_counters:
  assumes "la_ready s0 s" shows "closed_counters s"
proof -
  have r: "api_ready s" and w: "wf_model (solver_model s)" using assms api_ready_wf by (auto simp: la_ready_def)
  have "closed_lits (constraintsPB s) (lits_upto (decisionLevel (solver_model s)) s)"
    using assms wf_decisionLevel_nonneg [OF w] by (simp add: la_ready_def levels_closed_def)
  then show ?thesis
    using r closed_counters_iff [of s] by (simp add: lits_upto_level [OF w] api_ready_def)
qed

lemma ready_pending_native: "la_ready s0 s \<Longrightarrow> la_pending s0 s"
proof -
  assume r: "la_ready s0 s"
  then have w: "wf_model (solver_model s)" using api_ready_wf by (auto simp: la_ready_def)
  have "length (stack_upto (decisionLevel (solver_model s) - 1) (modelStack (solver_model s))) \<le> length (modelStack (solver_model s))"
    by (rule stack_upto_length_le)
  then have "api_pending s"
    using r by (auto simp: la_ready_def api_ready_def api_pending_def areAllLitsPropagated_def trailSize_def)
  then show ?thesis using r by (auto simp: la_ready_def la_pending_def levels_closed_def)
qed

section \<open>Taking levels back\<close>

lemma pop_to_dl_pbs: "constraintsPB (pop_to_dl dl s) = constraintsPB s \<and> solver_stats (pop_to_dl dl s) = solver_stats s"
proof (induction dl s rule: pop_to_dl.induct)
  case (1 dl s)
  then show ?case by (subst (1 2) pop_to_dl.simps) auto
qed

lemma native_back:
  assumes p: "la_pending s0 s" and k: "1 \<le> k" "k \<le> int (length (decisions (solver_model s)))"
  shows "la_ready s0 (backtrack k s)"
    and "decisions (solver_model (backtrack k s)) = take (length (decisions (solver_model s)) - nat k) (decisions (solver_model s))"
    and "j \<le> length (decisions (solver_model s)) - nat k \<Longrightarrow> lits_upto (int j) (backtrack k s) = lits_upto (int j) s"
proof -
  let ?t = "backtrack k s" and ?m = "solver_model s"
  have ap: "api_pending s" using p by (simp add: la_pending_def)
  note w = api_pending_wf [OF ap]
  note B = backtrack_facts [OF ap k]
  show "decisions (solver_model ?t) = take (length (decisions ?m) - nat k) (decisions ?m)" by (rule B(4))
  have len: "int (length (decisions ?m)) = decisionLevel ?m" by (rule length_decisions [OF w])
  have up: "lits_upto e ?t = lits_upto e s" if "e \<le> decisionLevel ?m - k" for e
    using stack_upto_twice [OF that] by (simp add: lits_upto_def B(3))
  then show "j \<le> length (decisions ?m) - nat k \<Longrightarrow> lits_upto (int j) ?t = lits_upto (int j) s" using len k by simp
  have wt: "wf_model (solver_model ?t)" by (rule api_ready_wf [OF B(1)])
  have "int (length (decisions (solver_model ?t))) = decisionLevel ?m - k" using B(4) len k by simp
  then have dl: "decisionLevel (solver_model ?t) = decisionLevel ?m - k" using length_decisions [OF wt] by simp
  have cs: "constraintsPB ?t = constraintsPB s" "numOfBackjump (solver_stats ?t) = numOfBackjump (solver_stats s) + 1"
    using k(1) by (simp_all add: backtrack_def Let_def backjumpToDL_def pop_to_dl_pbs)
  have "levels_closed (decisionLevel (solver_model ?t)) ?t"
    using p up k(1) unfolding levels_closed_def la_pending_def dl cs(1) by simp
  moreover have "caches_ok ?t"
    unfolding caches_ok_def cs
  proof
    fix c assume "c \<in> set (constraintsPB s)"
    then have "cache_ok (numOfBackjump (solver_stats s)) (tlits ?m) c" using p by (simp add: la_pending_def caches_ok_def)
    then show "cache_ok (numOfBackjump (solver_stats s) + 1) (tlits (solver_model ?t)) c" by (auto simp: cache_ok_def)
  qed
  moreover have "same_db s0 ?t" using p B(2) same_db_trans by (auto simp: la_pending_def)
  ultimately show "la_ready s0 ?t" using B(1) p by (simp add: la_ready_def la_pending_def)
qed

section \<open>Assuming a literal\<close>

lemma native_assume:
  assumes r: "la_ready s0 s" and l: "l \<noteq> 0" "\<bar>l\<bar> \<le> numVars s0" "Solver_isUndefLit l s"
  obtains b s' where "assumeAndPropagate l s = Some (b, s')" "la_pending s0 s'" "b \<Longrightarrow> la_ready s0 s'"
    "decisions (solver_model s') = decisions (solver_model s) @ [l]"
    "\<And>d. d \<le> decisionLevel (solver_model s) \<Longrightarrow> lits_upto d s' = lits_upto d s"
    "length (modelStack (solver_model s)) < length (modelStack (solver_model s'))" "b \<longleftrightarrow> \<not> conflict s'"
    "decisionLevel (solver_model s') = decisionLevel (solver_model s) + 1"
    "\<not> b \<Longrightarrow> db_sat \<sigma> s0 \<Longrightarrow> \<exists>d \<in> set (decisions (solver_model s) @ [l]). \<not> lit_true \<sigma> d"
    "prop_result (setTrueDueToDecision l s) s'" "conflict_ok s'"
proof -
  let ?m = "solver_model s"
  have ar: "api_ready s" and db0: "same_db s0 s" using r by (auto simp: la_ready_def)
  note w = api_ready_wf [OF ar]
  have nv: "\<bar>l\<bar> \<le> numVars s" using l(2) db0 by (simp add: same_db_def)
  have u: "isUndefLit ?m l" using l(3) by (simp add: Solver_isUndefLit_def)
  define s1 where "s1 = setTrueDueToDecision l s"
  have inv: "solver_inv s" "\<not> conflict s" using ar by (auto simp: api_ready_def)
  have i1: "solver_inv s1" unfolding s1_def by (rule push_decision_inv [OF inv(1) l(1) nv u])
  have nc1: "\<not> conflict s1" using inv(2) by (simp add: s1_def)
  have up1: "set (tlits ?m) \<subseteq> set (tlits (solver_model s1))" by (auto simp: s1_def tlits_def)
  have f1: "constraintsPB s1 = constraintsPB s" "sumOfWatches s1 = sumOfWatches s" "solver_stats s1 = solver_stats s"
    by (simp_all add: s1_def) (simp add: setTrueDueToDecision_def)
  have ca1: "caches_ok s1" using r cache_mono [OF up1] by (simp add: la_ready_def caches_ok_def f1)
  have cl1: "closed_counters s1"
    using ready_closed_counters [OF r] assigned_mono [OF up1] unfolding closed_counters_def f1 by fast
  show thesis
  proof (rule assume_facts [OF ar l(1) nv u])
    fix b s'
    assume A: "assumeAndPropagate l s = Some (b, s')" "api_pending s'" "same_db s s'" "b \<longrightarrow> api_ready s'"
      "decisions (solver_model s') = decisions ?m @ [l]"
      "stack_upto (decisionLevel ?m) (modelStack (solver_model s')) = modelStack ?m"
      "decisionLevel (solver_model s') = decisionLevel ?m + 1" "b \<longleftrightarrow> \<not> conflict s'"
      "length (modelStack ?m) < length (modelStack (solver_model s'))"
      "\<not> b \<longrightarrow> (\<forall>\<sigma>. db_sat \<sigma> s \<longrightarrow> (\<exists>d \<in> set (decisions ?m @ [l]). \<not> lit_true \<sigma> d))"
    have p: "propagate s1 = Some s'" using A(1) by (auto simp: assumeAndPropagate_def s1_def split: option.splits)
    have R: "prop_result s1 s'" by (rule propagate_result [OF i1 nc1 p])
    have C: "caches_ok s'" "\<not> conflict s' \<Longrightarrow> closed_counters s'" using propagate_closes [OF i1 nc1 ca1 cl1 p] by auto
    have db: "same_db s0 s'" using db0 A(3) same_db_trans by blast
    have up: "lits_upto d s' = lits_upto d s" if "d \<le> decisionLevel ?m" for d
      using stack_upto_twice [OF that, of "modelStack (solver_model s')"] A(6) by (simp add: lits_upto_def)
    have cl: "closed_lits (constraintsPB s') T = closed_lits (constraintsPB s) T" for T
      by (rule closed_lits_same_db [OF A(3)])
    have low: "levels_closed (decisionLevel (solver_model s') - 1) s'"
      using r up by (simp add: levels_closed_def la_ready_def A(7) cl)
    have rd: "la_ready s0 s'" if b
    proof -
      have s': "api_ready s'" "closed_counters s'" using that A(4,8) C(2) by auto
      have w': "wf_model (solver_model s')" by (rule api_ready_wf [OF s'(1)])
      have "closed_lits (constraintsPB s') (lits_upto (decisionLevel (solver_model s')) s')"
        using closed_counters_iff [of s'] s' by (simp add: lits_upto_level [OF w'] api_ready_def)
      moreover have "e \<le> decisionLevel (solver_model s') - 1 \<or> e = decisionLevel (solver_model s')"
        if "e \<le> decisionLevel (solver_model s')" for e using that by linarith
      ultimately have "levels_closed (decisionLevel (solver_model s')) s'"
        using low unfolding levels_closed_def by blast
      then show ?thesis using s'(1) C(1) db r by (simp add: la_ready_def)
    qed
    show thesis
    proof (rule that [of b s'])
      show "la_pending s0 s'" using A(2) C(1) low db r by (simp add: la_pending_def la_ready_def)
      show "\<not> b \<Longrightarrow> db_sat \<sigma> s0 \<Longrightarrow> \<exists>d \<in> set (decisions ?m @ [l]). \<not> lit_true \<sigma> d"
        using A(10) same_db_sat [OF db0] by blast
      show "prop_result (setTrueDueToDecision l s) s'" "conflict_ok s'" using R by (simp_all add: s1_def prop_result_def)
    qed (use A rd up in auto)
  qed
qed


text \<open>
  Repeating an assumption that went well goes well again: what the second run assigns, the first
  run had assigned, since its trail is closed and satisfies every slack.
\<close>

lemma native_assume_again:
  assumes r: "la_ready s0 s" "la_ready s0 t" and l: "l \<noteq> 0" "\<bar>l\<bar> \<le> numVars s0" "Solver_isUndefLit l s"
    and same: "tlits (solver_model t) = tlits (solver_model s)"
    and a: "assumeAndPropagate l s = Some (True, s')" "assumeAndPropagate l t = Some (b, t')"
  shows "b"
proof (rule ccontr)
  assume nb: "\<not> b"
  have wfs: "wf_model (solver_model s)" "wf_model (solver_model t)"
    using r api_ready_wf by (auto simp: la_ready_def)
  have ut: "Solver_isUndefLit l t"
    using l(3) wf_undef [OF wfs(1)] wf_undef [OF wfs(2)] same l(1) by (simp add: Solver_isUndefLit_def)
  define T where "T = tlits (solver_model s')"
  have s': "la_ready s0 s'" "set (tlits (solver_model s)) \<union> {l} \<subseteq> set T"
  proof -
    show "la_ready s0 s'" by (rule native_assume [OF r(1) l]) (use a(1) in auto)
    show "set (tlits (solver_model s)) \<union> {l} \<subseteq> set T"
    proof (rule native_assume [OF r(1) l])
      fix b0 s1 assume "assumeAndPropagate l s = Some (b0, s1)" "prop_result (setTrueDueToDecision l s) s1"
      then show ?thesis using a(1) by (auto simp: prop_result_def T_def tlits_def)
    qed
  qed
  have db: "same_db s0 s'" "pb_only s0" using s'(1) by (auto simp: la_ready_def)
  have rs': "api_ready s'" using s'(1) by (simp add: la_ready_def)
  have wT: "wf_model (solver_model s')" by (rule api_ready_wf [OF rs'])
  have closed: "closed_lits (constraintsPB s0) T"
    using ready_closed_counters [OF s'(1)] closed_counters_iff [of s'] rs' closed_lits_same_db [OF db(1)]
    by (simp add: T_def api_ready_def)
  have slack: "0 \<le> msum (\<lambda>x. - x \<notin> set T) (pb_lhs (constraintsPB s0 ! c)) - pb_rhs (constraintsPB s0 ! c)"
    if "c < length (constraintsPB s0)" for c
    using rs' counter_all_propagated [of s' c] that same_db_length [OF db(1)] same_db_pb [OF db(1) that]
    by (auto simp: T_def api_ready_def slacks_nonneg_def)
  show False
  proof (rule native_assume [OF r(2) l(1,2) ut])
    fix b0 t0
    assume t0: "assumeAndPropagate l t = Some (b0, t0)" "la_pending s0 t0" "b0 \<longleftrightarrow> \<not> conflict t0"
      "prop_result (setTrueDueToDecision l t) t0" "conflict_ok t0"
    then have c: "conflict t0" using a(2) nb by simp
    have dbt: "same_db s0 t0" using t0(2) by (simp add: la_pending_def)
    have core: "core_inv t0" using t0(4) by (simp add: prop_result_def solver_inv_def)
    have pos: "pos_coeffs (pb_lhs (constraintsPB s0 ! n))" if "n < length (constraintsPB s0)" for n
      using core that same_db_length [OF dbt] same_db_pb [OF dbt that]
      by (metis core_inv_def db_ok_def nth_mem pb_ok_def)
    have noc: "clauses t0 = []" "binClauses t0 = (\<lambda>_. [])"
      using db(2) dbt same_db_length [OF dbt] by (auto simp: pb_only_def same_db_def)
    let ?st = "modelStack (solver_model t0)"
    obtain new where new: "?st = modelStack (solver_model t) @ [\<lparr>se_lit = l, se_dl = decisionLevel (solver_model t) + 1, se_reason = NoReason\<rparr>] @ new"
      "\<forall>e \<in> set new. se_reason e \<noteq> NoReason"
      using t0(4) by (auto simp: prop_result_def)
    have inT: "se_lit (?st ! i) \<in> set T" if "i < length ?st" for i
      using that
    proof (induction i rule: less_induct)
      case (less i)
      show ?case
      proof (cases "i \<le> length (modelStack (solver_model t))")
        case True
        then have "se_lit (?st ! i) \<in> set (tlits (solver_model t)) \<union> {l}"
          by (cases "i = length (modelStack (solver_model t))") (auto simp: new(1) nth_append tlits_def)
        then show ?thesis using s'(2) same by auto
      next
        case False
        then have "?st ! i \<in> set new" using less.prems by (auto simp: new(1) nth_append)
        then have nr: "se_reason (?st ! i) \<noteq> NoReason" using new(2) by blast
        have below: "set (map se_lit (take i ?st)) \<subseteq> set T"
          using less.IH less.prems by (auto simp: in_set_conv_nth)
        have "elem_ok t0 (take i ?st) (?st ! i)" using core less.prems by (auto simp: core_inv_def trail_ok_def Let_def)
        then obtain n k where n: "n < length (constraintsPB t0)" "(k, se_lit (?st ! i)) \<in> set (pb_lhs (constraintsPB t0 ! n))"
          "msum (\<lambda>x. - x \<notin> set (map se_lit (take i ?st))) (pb_lhs (constraintsPB t0 ! n)) - pb_rhs (constraintsPB t0 ! n) < k"
          using nr by (cases "se_reason (?st ! i)") (auto simp: elem_ok_def noc Let_def)
        let ?x = "se_lit (?st ! i)" and ?c = "constraintsPB s0 ! n"
        have n0: "n < length (constraintsPB s0)" using n(1) same_db_length [OF dbt] by simp
        note e = same_db_pb [OF dbt n0]
        have "msum (\<lambda>x. - x \<notin> set T) (pb_lhs ?c) \<le> msum (\<lambda>x. - x \<notin> set (map se_lit (take i ?st))) (pb_lhs ?c)"
          using below by (intro msum_mono [OF pos [OF n0]]) auto
        then have lt: "msum (\<lambda>x. - x \<notin> set T) (pb_lhs ?c) - pb_rhs ?c < k" using n(3) e by simp
        have kx: "(k, ?x) \<in> set (pb_lhs ?c)" using n(2) e by simp
        have "assigned_in T ?x" using closed lt kx n0 unfolding closed_lits_def by fastforce
        moreover have "- ?x \<notin> set T"
        proof
          assume f: "- ?x \<in> set T"
          have "wf_stack (map se_lit ?st)" using core by (simp add: core_inv_def wf_model_def tlits_def)
          then have "- ?x \<notin> set (map se_lit (take i ?st))"
            using wf_stack_consistent [of "map se_lit ?st" ?x] less.prems
            by (metis (no_types, lifting) in_set_takeD nth_mem nth_map length_map take_map)
          then have "msum (\<lambda>x. - x \<notin> set T) (pb_lhs ?c) + k \<le> msum (\<lambda>x. - x \<notin> set (map se_lit (take i ?st))) (pb_lhs ?c)"
            using f kx below pos [OF n0]
          proof -
            assume nin: "- ?x \<notin> set (map se_lit (take i ?st))"
            have sp: "msum (\<lambda>x. - x \<notin> set (map se_lit (take i ?st))) (pb_lhs ?c)
              = msum (\<lambda>x. - x \<notin> set (map se_lit (take i ?st)) \<and> - x \<notin> set T) (pb_lhs ?c)
              + msum (\<lambda>x. - x \<notin> set (map se_lit (take i ?st)) \<and> \<not> - x \<notin> set T) (pb_lhs ?c)"
              by (rule msum_split)
            have "msum (\<lambda>x. - x \<notin> set T) (pb_lhs ?c)
               \<le> msum (\<lambda>x. - x \<notin> set (map se_lit (take i ?st)) \<and> - x \<notin> set T) (pb_lhs ?c)"
              using below by (intro msum_mono [OF pos [OF n0]]) auto
            moreover have "k \<le> msum (\<lambda>x. - x \<notin> set (map se_lit (take i ?st)) \<and> \<not> - x \<notin> set T) (pb_lhs ?c)"
              using msum_ge_member [OF pos [OF n0] kx, of "\<lambda>x. - x \<notin> set (map se_lit (take i ?st)) \<and> \<not> - x \<notin> set T"] nin f by simp
            ultimately show ?thesis using sp by linarith
          qed
          then show False using slack [OF n0] n(3) e by simp
        qed
        ultimately show ?thesis by (simp add: assigned_in_def)
      qed
    qed
    then have sub: "set (tlits (solver_model t0)) \<subseteq> set T" by (auto simp: tlits_def in_set_conv_nth)
    obtain n where n: "n < length (constraintsPB t0)"
      "msum (\<lambda>x. - x \<notin> set (tlits (solver_model t0))) (pb_lhs (constraintsPB t0 ! n)) < pb_rhs (constraintsPB t0 ! n)"
      using t0(5) c by (auto simp: conflict_ok_def Let_def noc split: conflict_type.splits)
    have n0: "n < length (constraintsPB s0)" using n(1) same_db_length [OF dbt] by simp
    have "msum (\<lambda>x. - x \<notin> set T) (pb_lhs (constraintsPB s0 ! n))
       \<le> msum (\<lambda>x. - x \<notin> set (tlits (solver_model t0))) (pb_lhs (constraintsPB s0 ! n))"
      using sub by (intro msum_mono [OF pos [OF n0]]) auto
    then show False using slack [OF n0] n(2) same_db_pb [OF dbt n0] by simp
  qed
qed

section \<open>The contract\<close>

interpretation native: lookahead_backend
  "native_ops :: ('a::linorder) solver backend" "la_ready s0" "la_pending s0" "\<lambda>s. decisions (solver_model s)"
  "\<lambda>k. lits_upto (int k)" "\<lambda>\<sigma>. db_sat \<sigma> s0" "numVars s0"
  for s0
proof
  fix s t s' t' :: "'a solver" and l :: lit and b k
  have top: "lits_upto (int (length (decisions (solver_model s)))) s = tlits (solver_model s)" if "la_ready s0 s" for s :: "'a solver"
    using that api_ready_wf [of s] length_decisions [of "solver_model s"] lits_upto_level [of s] by (simp add: la_ready_def)
  have w: "wf_model (solver_model s)" if "la_ready s0 s" for s :: "'a solver" using that api_ready_wf by (auto simp: la_ready_def)
  show "op_isUndefLit native_ops l s \<longleftrightarrow> l \<notin> set (lits_upto (int (length (decisions (solver_model s)))) s)
      \<and> - l \<notin> set (lits_upto (int (length (decisions (solver_model s)))) s)" if "la_ready s0 s" "l \<noteq> 0"
    using wf_undef [OF w [OF that(1)], of l] that(2) by (simp add: top [OF that(1)] Solver_isUndefLit_def)
  show "op_assignedVars native_ops s = int (length (lits_upto (int (length (decisions (solver_model s)))) s))" if "la_ready s0 s"
    by (simp add: top [OF that] assignedVars_def trailSize_def)
  show "length (lits_upto (int (length (decisions (solver_model s)))) s) \<le> nat (numVars s0)" if r: "la_ready s0 s"
  proof -
    have "core_inv s" "numVars s = numVars s0" using r by (auto simp: la_ready_def api_ready_def solver_inv_def same_db_def)
    then show ?thesis using trail_length [of s] by (simp add: top [OF r])
  qed
  show "\<exists>b s'. op_assumeAndPropagate native_ops l s = Some (b, s') \<and> la_pending s0 s' \<and> (b \<longrightarrow> la_ready s0 s')
        \<and> decisions (solver_model s') = decisions (solver_model s) @ [l]
        \<and> (\<forall>k \<le> length (decisions (solver_model s)). lits_upto (int k) s' = lits_upto (int k) s)
        \<and> length (lits_upto (int (length (decisions (solver_model s)))) s) < length (lits_upto (int (Suc (length (decisions (solver_model s))))) s')
        \<and> (\<not> b \<longrightarrow> (\<forall>\<sigma>. db_sat \<sigma> s0 \<longrightarrow> (\<exists>d \<in> set (decisions (solver_model s')). \<not> lit_true \<sigma> d)))"
    if a: "la_ready s0 s" "l \<noteq> 0" "\<bar>l\<bar> \<le> numVars s0" "op_isUndefLit native_ops l s"
  proof -
    note len = length_decisions [OF w [OF a(1)]]
    have l: "Solver_isUndefLit l s" using a(4) by simp
    show ?thesis
    proof (rule native_assume [OF a(1-3) l])
      fix b s'
      assume A: "assumeAndPropagate l s = Some (b, s')" "la_pending s0 s'" "b \<Longrightarrow> la_ready s0 s'"
        "decisions (solver_model s') = decisions (solver_model s) @ [l]"
        "\<And>d. d \<le> decisionLevel (solver_model s) \<Longrightarrow> lits_upto d s' = lits_upto d s"
        "length (modelStack (solver_model s)) < length (modelStack (solver_model s'))"
        "decisionLevel (solver_model s') = decisionLevel (solver_model s) + 1"
      have bad: "\<exists>d \<in> set (decisions (solver_model s')). \<not> lit_true \<sigma> d" if "\<not> b" "db_sat \<sigma> s0" for \<sigma>
        unfolding A(4) by (rule native_assume [OF a(1-3) l, of \<sigma>]) (use A(1) that in auto)
      have w': "wf_model (solver_model s')" using A(2) api_pending_wf by (auto simp: la_pending_def)
      have "lits_upto (int (Suc (length (decisions (solver_model s))))) s' = tlits (solver_model s')"
        using lits_upto_level [OF w'] A(7) len by (simp add: add.commute)
      then show ?thesis
        using A(1-7) bad len lits_upto_level [OF w [OF a(1)]]
        by (intro exI [of _ b] exI [of _ s']) auto
    qed
  qed
  show "b" if "la_ready s0 s" "la_ready s0 t" "l \<noteq> 0" "\<bar>l\<bar> \<le> numVars s0" "op_isUndefLit native_ops l s"
    "decisions (solver_model t) = decisions (solver_model s)"
    "lits_upto (int (length (decisions (solver_model s)))) t = lits_upto (int (length (decisions (solver_model s)))) s"
    "op_assumeAndPropagate native_ops l s = Some (True, s')" "op_assumeAndPropagate native_ops l t = Some (b, t')"
    using native_assume_again [of s0 s t l s' b t'] that top [OF that(1)] top [OF that(2)] by simp
  show "la_ready s0 (op_backtrack native_ops k s)
      \<and> decisions (solver_model (op_backtrack native_ops k s)) = take (length (decisions (solver_model s)) - nat k) (decisions (solver_model s))
      \<and> (\<forall>j \<le> length (decisions (solver_model s)) - nat k. lits_upto (int j) (op_backtrack native_ops k s) = lits_upto (int j) s)"
    if "la_pending s0 s" "1 \<le> k" "k \<le> int (length (decisions (solver_model s)))"
    using native_back [OF that] by simp
  show "op_backtrack native_ops 0 s = s" by (simp add: backtrack_def)
  show "la_pending s0 s" if "la_ready s0 s" by (rule ready_pending_native [OF that])
  show "\<exists>\<sigma>. db_sat \<sigma> s0 \<and> (\<forall>d \<in> set (decisions (solver_model s)). lit_true \<sigma> d)"
    if "la_ready s0 s" "\<And>v. 0 < v \<Longrightarrow> v \<le> numVars s0 \<Longrightarrow> \<not> op_isUndefLit native_ops v s"
  proof -
    let ?\<sigma> = "\<lambda>v. isTrueVar (solver_model s) v"
    have r: "api_ready s" "same_db s0 s" "pb_only s0" using that(1) by (auto simp: la_ready_def)
    have "\<not> isUndefVar (solver_model s) v" if "0 < v \<and> v \<le> numVars s" for v
      using \<open>\<And>v. 0 < v \<Longrightarrow> v \<le> numVars s0 \<Longrightarrow> \<not> op_isUndefLit native_ops v s\<close> [of v] that r(2)
      by (auto simp: Solver_isUndefLit_def isUndefLit_def isUndefVar_def same_db_def)
    then have "\<forall>c \<in> set (constraintsPB s). pb_sat ?\<sigma> c"
      using r(1) full_trail_satisfies [of s] by (auto simp: api_ready_def)
    moreover have "length (clauses s) = 0" "binClauses s = (\<lambda>_. [])"
      using same_db_length [OF r(2)] r(2,3) by (auto simp: pb_only_def same_db_def)
    ultimately have "db_sat ?\<sigma> s" by (simp add: db_sat_def)
    then have "db_sat ?\<sigma> s0" using same_db_sat [OF r(2)] by simp
    moreover have "lit_true ?\<sigma> d" if "d \<in> set (decisions (solver_model s))" for d
    proof -
      have d: "d \<in> set (tlits (solver_model s))"
        using that dec_lits_subset [of 0 "modelStack (solver_model s)"] by (auto simp: decisions_def tlits_def)
      then have "d \<noteq> 0" using wf_model_zero [OF w] \<open>la_ready s0 s\<close> by blast
      then show ?thesis
        using wf_model_value [OF w [OF \<open>la_ready s0 s\<close>], of d] wf_model_consistent [OF w [OF \<open>la_ready s0 s\<close>] d] d
        by (auto simp: lit_true_def isTrueVar_def split: if_splits)
    qed
    ultimately show ?thesis by blast
  qed
qed


section \<open>Cubes of the native backend\<close>

text \<open>A problem of two variables, used to instantiate the properties.\<close>

definition sample_root :: "nat solver" where
  "sample_root = addPBConstraintCounter sample_two (new_solver 1 2)"

definition sample_doubles :: "unit double_ops" where
  "sample_doubles = \<lparr>theta_start = (), times_105 = id, times_07 = id, above_threshold = (\<lambda>_ _ _. False),
     objective_bonus = (\<lambda>_ _ _. 0)\<rparr>"

definition no_priority :: objective_priority where
  "no_priority = \<lparr>use_objective_priority = False, is_objective_var = (\<lambda>_. False), objective_weight = (\<lambda>_. 0),
     total_objective_weight = 0\<rparr>"

lemma sample_root_ready: "la_ready sample_root sample_root" "decisions (solver_model sample_root) = []"
  "numVars sample_root = 2"
proof -
  have m: "solver_model sample_root = new_model" "constraintsPB sample_root = [sample_two]" "clauses sample_root = []"
    "binClauses sample_root = (\<lambda>_. [])" "numVars sample_root = 2" "\<not> conflict sample_root" "sumOfWatches sample_root = [0]"
    by (simp_all add: sample_root_def addPBConstraintCounter_simps new_solver_def)
       (simp add: sample_two_def pb_of_wconstraint_def new_model_def isFalseLit_def)
  show "decisions (solver_model sample_root) = []" by (simp add: m decisions_def new_model_def)
  show "numVars sample_root = 2" by (rule m)
  have nb: "numOfBackjump (solver_stats sample_root) = 0"
    by (simp add: sample_root_def addPBConstraintCounter_def sample_two_def pb_of_wconstraint_def new_solver_def
        push_gen_def push_occ_def Let_def)
  have "solver_inv sample_root"
    unfolding sample_root_def
    by (rule addPBConstraintCounter_inv(1))
       (simp_all add: new_solver_inv del: One_nat_def, simp add: sample_two_def pb_of_wconstraint_def pb_ok_def new_solver_def)
  moreover have "slacks_nonneg sample_root" by (simp add: slacks_nonneg_def m sample_two_def pb_of_wconstraint_def)
  moreover have "levels_closed 0 sample_root"
    by (auto simp: levels_closed_def closed_lits_def m lits_upto_def stack_upto_def new_model_def sample_two_def pb_of_wconstraint_def)
  moreover have "caches_ok sample_root"
    by (simp add: caches_ok_def m nb cache_ok_def sample_two_def pb_of_wconstraint_def)
  ultimately show "la_ready sample_root sample_root"
    by (simp add: la_ready_def api_ready_def m pb_only_def areAllLitsPropagated_def trailSize_def new_model_def)
qed

text \<open>
  C3: No solution is lost by splitting. On a propagated pseudo-Boolean database, for every solution
  of the database some worker of the group generates a cube all of whose literals the solution
  makes true, unless the problem is not an optimisation problem and that worker has already found
  it satisfiable. Cutoffs, failed literals, refuted branches and the distribution of the tree over
  the workers are all included.
\<close>

theorem cubes_cover_solutions:
  fixes s0 :: "('a::linorder) solver"
  assumes "la_ready s0 s0" "decisions (solver_model s0) = []" "1 \<le> num_workers"
    and "gp_vars gp = [1..numVars s0]" "gp_nVars gp = numVars s0" "\<forall>a b c. 0 \<le> objective_bonus D a b c"
    and "db_sat \<sigma> s0"
  shows "\<exists>worker_id cubes g s. 0 \<le> worker_id \<and> worker_id < num_workers \<and>
    generate_cubes native_ops D P gp worker_id num_workers s0 = Some (cubes, g, s) \<and>
    ((\<exists>c \<in> set cubes. \<forall>l \<in> set c. lit_true \<sigma> l) \<or> (\<not> gp_optimizing gp \<and> cube_sat_found g))"
proof -
  have v: "set (gp_vars gp) = {1..numVars s0}" using assms(4) by auto
  have "native.solves s0 s0 [] \<sigma>" using assms(2,7) by (simp add: native.solves_def)
  from native.gen_covers [OF assms(6) v assms(5) assms(1) assms(3) this,
      of P "[]" "\<lparr>theta = theta_start D, cube_sat_found = False\<rparr>"]
  show ?thesis unfolding generate_cubes_def native.covers_def by fast
qed

theorem cubes_cover_solutions_witness:
  "\<exists>worker_id cubes g s. 0 \<le> worker_id \<and> worker_id < (2::int) \<and>
    generate_cubes native_ops sample_doubles no_priority
      \<lparr>gp_vars = [1..2], gp_nVars = 2, gp_distributed = True, gp_optimizing = True\<rparr> worker_id 2 sample_root = Some (cubes, g, s) \<and>
    (\<exists>c \<in> set cubes. \<forall>l \<in> set c. lit_true (\<lambda>v. v = 1) l)"
proof -
  have "db_sat (\<lambda>v. v = 1) sample_root"
    by (simp add: sample_root_def db_sat_def addPBConstraintCounter_simps new_solver_def pb_sat_def sample_two_def pb_of_wconstraint_def)
  from cubes_cover_solutions [OF sample_root_ready(1,2) _ _ _ _ this, of 2
      "\<lparr>gp_vars = [1..2], gp_nVars = 2, gp_distributed = True, gp_optimizing = True\<rparr>" sample_doubles no_priority]
  show ?thesis by (simp add: sample_root_ready(3) sample_doubles_def)
qed

text \<open>
  C21: Cube generation returns and restores the solver. Whatever the worker, \<open>generate_cubes\<close>
  terminates, the solver it leaves has the trail of the root and is again free of conflicts, and
  when it reports satisfiability the database has a solution.
\<close>

theorem generate_cubes_returns:
  fixes s0 :: "('a::linorder) solver"
  assumes "la_ready s0 s0" "gp_vars gp = [1..numVars s0]" "gp_nVars gp = numVars s0"
    "\<forall>a b c. 0 \<le> objective_bonus D a b c"
  shows "\<exists>cubes g s. generate_cubes native_ops D P gp worker_id num_workers s0 = Some (cubes, g, s) \<and>
    la_ready s0 s \<and> tlits (solver_model s) = tlits (solver_model s0) \<and> (cube_sat_found g \<longrightarrow> (\<exists>\<sigma>. db_sat \<sigma> s0))"
proof -
  have v: "set (gp_vars gp) = {1..numVars s0}" using assms(2) by auto
  from native.gen_total [OF assms(4) v assms(3) assms(1),
      of P "[]" worker_id num_workers "[]" "\<lparr>theta = theta_start D, cube_sat_found = False\<rparr>"]
  obtain cubes g s where r: "generate_cubes native_ops D P gp worker_id num_workers s0 = Some (cubes, g, s)"
    "la_ready s0 s" "native.view_eq s0 s" "cube_sat_found g \<longrightarrow> (\<exists>\<sigma>. db_sat \<sigma> s0)"
    by (auto simp: generate_cubes_def native.run_ok_def)
  have w: "wf_model (solver_model s0)" "wf_model (solver_model s)"
    using assms(1) r(2) api_ready_wf by (auto simp: la_ready_def)
  have d: "decisions (solver_model s) = decisions (solver_model s0)"
    "lits_upto (int (length (decisions (solver_model s0)))) s = lits_upto (int (length (decisions (solver_model s0)))) s0"
    using r(3) by (auto simp: native.view_eq_def)
  then have "tlits (solver_model s) = tlits (solver_model s0)"
    using length_decisions [OF w(1)] length_decisions [OF w(2)] lits_upto_level [OF w(1)] lits_upto_level [OF w(2)] by simp
  with r show ?thesis by blast
qed

theorem generate_cubes_returns_witness:
  "\<exists>cubes g s. generate_cubes native_ops sample_doubles no_priority
      \<lparr>gp_vars = [1..2], gp_nVars = 2, gp_distributed = False, gp_optimizing = False\<rparr> 0 1 sample_root = Some (cubes, g, s)
     \<and> la_ready sample_root s"
  using generate_cubes_returns [OF sample_root_ready(1), of
      "\<lparr>gp_vars = [1..2], gp_nVars = 2, gp_distributed = False, gp_optimizing = False\<rparr>" sample_doubles no_priority 0 1]
  by (auto simp: sample_root_ready(3) sample_doubles_def)

section \<open>Without propagating the root\<close>

declare generate_cubes_rec.simps [code] lookahead_loop.simps [code]

text \<open>
  The root of a cube worker: the constraints are loaded, each propagating only itself, and the
  generator starts. With no open variable the scan of the lookahead ends at once.
\<close>

lemma scan_assigned:
  "\<forall>v \<in> set vs. \<not> op_isUndefLit B v s \<Longrightarrow> scan_vars B D P nVars numDec base vs b s = Some (ScanDone b s)"
  by (induction vs) auto

lemma generate_assigned:
  assumes "\<forall>v \<in> set (gp_vars gp). \<not> op_isUndefLit B v s" "\<not> gp_optimizing gp"
    and "\<not> above_threshold D 0 (times_105 D (theta_start D)) (gp_nVars gp)"
  shows "\<exists>g. generate_cubes B D P gp wid nw s = Some ([], g, s) \<and> cube_sat_found g"
proof -
  have "lookahead_loop B D P (gp_nVars gp) 0 (gp_vars gp) 0 s = Some (Some no_best, 0, s)"
    by (subst lookahead_loop.simps) (simp add: scan_assigned [OF assms(1)])
  then show ?thesis using assms(2,3) unfolding generate_cubes_def
    by (subst generate_cubes_rec.simps) (simp add: set_theta_def MAX_CUBE_GENERATION_DEPTH_def no_best_def undo_failed_def Let_def)
qed

text \<open>A unit constraint on an assigned literal that waits for its propagation changes neither the trail nor the conflict.\<close>

lemma unit_on_waiting_literal:
  assumes "solver_inv s" "\<not> isUndefLit (solver_model s) l" "\<not> isLitPropagated (solver_model s) l" "l \<noteq> 0"
    and "Native_addLearnedConstraints [\<lparr>lhs = [(1, l)], rhs = 1\<rparr>] s = Some s'"
  shows "solver_model s' = solver_model s" "conflict s' = conflict s"
proof -
  let ?pc = "pb_of_wconstraint \<lparr>lhs = [(1, l)], rhs = 1\<rparr> True 0 0"
  define s1 where "s1 = addPBConstraintCounter ?pc s"
  note f = addPBConstraintCounter_simps [of ?pc s, folded s1_def]
  have len: "length (sumOfWatches s) = length (constraintsPB s)" using assms(1) by (simp add: solver_inv_def core_inv_def db_ok_def)
  have n: "sortByDecreasingCoefficient (removeDuplicates (sortByIncreasingVariable \<lparr>lhs = [(1, l)], rhs = 1\<rparr>)) = \<lparr>lhs = [(1, l)], rhs = 1\<rparr>"
    using assms(4) by (cases "0 < l") (auto simp: sortByIncreasingVariable_def sortByDecreasingCoefficient_def removeDuplicates_def)
  have sm: "simplify \<lparr>lhs = [(1, l)], rhs = 1\<rparr> = Some \<lparr>lhs = [(1, l)], rhs = 1\<rparr>" by code_simp
  have w: "sumOfWatches s1 ! length (constraintsPB s) = -1" "constraintsPB s1 ! length (constraintsPB s) = ?pc" "length (constraintsPB s1) - 1 = length (constraintsPB s)"
    "pb_lhs ?pc = [(1, l)]"
    using assms(3) len by (simp_all add: f nth_append pb_of_wconstraint_def)
  have "\<not> isUndefLit (solver_model s1) l" using assms(2) by (simp add: f)
  then have "solver_model (propagateInitialConstraintCounter (length (constraintsPB s)) s1) = solver_model s1
      \<and> conflict (propagateInitialConstraintCounter (length (constraintsPB s)) s1) = conflict s1"
    by (simp add: propagateInitialConstraintCounter_def Let_def w set_pb_def)
  then show "solver_model s' = solver_model s" "conflict s' = conflict s"
    using assms(5) by (auto simp: Native_addConstraint_def n addAndPropagatePBConstraint_def sm Let_def s1_def [symmetric] w(3) f)
qed

text \<open>
  Cube generation can report satisfiability for a contradictory problem. Take any root on which a
  literal is assigned at level zero and waits for its propagation, with no variable of the generator
  open. Loading the opposite unit constraint leaves no solution and raises no conflict, and
  \<open>generate_cubes\<close>, with any threshold it does not stop on at depth zero, makes no cube and sets
  \<open>cube_sat_found\<close>: the root is neither propagated nor checked before the generator runs.
\<close>

theorem contradicted_root_reports_sat:
  assumes "load_inv s" "l \<in> set (tlits (solver_model s))" "getDLOfLit (solver_model s) l = 0"
    and "\<not> isLitPropagated (solver_model s) l" "\<not> conflict s"
    and "\<forall>v \<in> set (gp_vars gp). \<not> Solver_isUndefLit v s" "\<not> gp_optimizing gp"
    and "\<not> above_threshold D 0 (times_105 D (theta_start D)) (gp_nVars gp)"
  shows "\<exists>s' g. Native_addLearnedConstraints [\<lparr>lhs = [(1, - l)], rhs = 1\<rparr>] s = Some s' \<and> (\<forall>\<sigma>. \<not> db_sat \<sigma> s') \<and> \<not> conflict s'
    \<and> generate_cubes native_ops D P gp worker_id num_workers s' = Some ([], g, s') \<and> cube_sat_found g"
proof -
  have inv: "solver_inv s" "core_inv s" and w: "wf_model (solver_model s)" using assms(1) by (auto simp: load_inv_def solver_inv_def core_inv_def)
  have nz: "l \<noteq> 0" using assms(2) wf_model_zero [OF w] by auto
  have "\<bar>l\<bar> \<le> numVars s" using inv(2) assms(2) by (auto simp: core_inv_def trail_range_def)
  then have "good_input (numVars s) \<lparr>lhs = [(1, - l)], rhs = 1\<rparr>"
    using nz by (cases "0 < l") (auto simp: good_input_def normalize_def sortByIncreasingVariable_def sortByDecreasingCoefficient_def
        removeDuplicates_def Let_def pos_coeffs_def nonzero_lits_def)
  then obtain s' where s': "Native_addLearnedConstraints [\<lparr>lhs = [(1, - l)], rhs = 1\<rparr>] s = Some s'"
    "loaded s (\<lambda>\<sigma>. \<forall>c \<in> set [\<lparr>lhs = [(1, - l)], rhs = 1\<rparr>]. sat \<sigma> c) s'"
    using addLearned_loaded [OF assms(1), of "[\<lparr>lhs = [(1, - l)], rhs = 1\<rparr>]"] by auto
  have "\<not> db_sat \<sigma> s'" for \<sigma>
    using level_zero_lits [OF inv(2) _ assms(2,3), of \<sigma>] s'(2) nz by (auto simp: loaded_def sat_def lit_true_neg)
  moreover have "\<not> isUndefLit (solver_model s) (- l)" using assms(2) w by (simp add: wf_undef)
  then have m: "solver_model s' = solver_model s" "conflict s' = conflict s"
    using unit_on_waiting_literal [OF inv(1) _ _ _ s'(1)] assms(4) nz by (auto simp: isLitPropagated_def)
  moreover have "\<exists>g. generate_cubes native_ops D P gp worker_id num_workers s' = Some ([], g, s') \<and> cube_sat_found g"
    by (rule generate_assigned) (use assms(6-8) m in \<open>auto simp: Solver_isUndefLit_def\<close>)
  ultimately show ?thesis using s'(1) assms(5) by auto
qed

text \<open>The smallest such root: \<open>x1 >= 1\<close> loaded, \<open>-x1 >= 1\<close> to come.\<close>

definition unit_root :: "nat solver" where
  "unit_root = the (Native_addLearnedConstraints [\<lparr>lhs = [(1, 1)], rhs = 1\<rparr>] (new_solver 1 1))"

theorem contradicted_root_reports_sat_witness:
  "\<exists>s' g. Native_addLearnedConstraints [\<lparr>lhs = [(1, - 1)], rhs = 1\<rparr>] unit_root = Some s' \<and> (\<forall>\<sigma>. \<not> db_sat \<sigma> s')
     \<and> generate_cubes native_ops sample_doubles no_priority
         \<lparr>gp_vars = [1], gp_nVars = 1, gp_distributed = True, gp_optimizing = False\<rparr> 0 1 s' = Some ([], g, s') \<and> cube_sat_found g"
proof -
  have n: "numVars (new_solver (1::nat) 1) = 1" by (simp add: new_solver_def)
  have "\<forall>c \<in> set [\<lparr>lhs = [(1, 1)], rhs = 1\<rparr>]. good_input (numVars (new_solver (1::nat) 1)) c"
    unfolding n by (simp add: good_input_def normalize_def sortByIncreasingVariable_def sortByDecreasingCoefficient_def removeDuplicates_def Let_def)
  from addLearned_loaded [OF new_load_inv this] have "load_inv unit_root" by (auto simp: unit_root_def loaded_def)
  moreover have "1 \<in> set (tlits (solver_model unit_root))" "getDLOfLit (solver_model unit_root) 1 = 0"
    "\<not> isLitPropagated (solver_model unit_root) 1" "\<not> conflict unit_root" "\<not> Solver_isUndefLit 1 unit_root" by code_simp+
  ultimately show ?thesis
    using contradicted_root_reports_sat [where s = unit_root and l = 1 and D = sample_doubles and P = no_priority and worker_id = 0
        and num_workers = 1 and gp = "\<lparr>gp_vars = [1], gp_nVars = 1, gp_distributed = True, gp_optimizing = False\<rparr>"]
    by (simp add: sample_doubles_def del: Native_addLearnedConstraints.simps) blast
qed

end
