(* ===== verification/MasterInv.thy ===== *)
theory MasterInv
  imports Master
begin

text \<open>
  Why the result the master prints is right (\<open>run_master\<close> of \<open>src/src/cubePB.cpp\<close>). The invariant
  says that every solution better than the incumbent lies in a cube that is queued or being
  solved, that the incumbent cost is the cost of a solution, and that the lower bounds handed out
  are valid. \<open>honest\<close> says what a message has to mean: it is the contract of the workers.
\<close>

section \<open>The contract of the workers\<close>

abbreviation in_cube :: "assignment \<Rightarrow> lit list \<Rightarrow> bool" where
  "in_cube \<sigma> ls \<equiv> \<forall>l \<in> set ls. lit_true \<sigma> l"

text \<open>An instance: its solutions, their costs, whether it is optimised, and the number of processes.\<close>

record instance_data =
  base_sol :: "assignment \<Rightarrow> bool"
  sol_cost :: "assignment \<Rightarrow> int"
  is_opt :: bool
  num_procs :: nat

definition open_sol :: "instance_data \<Rightarrow> master \<Rightarrow> assignment \<Rightarrow> bool" where
  "open_sol I s \<sigma> \<longleftrightarrow> base_sol I \<sigma> \<and> (is_opt I \<and> global_has_best_cost s \<longrightarrow> sol_cost I \<sigma> < global_best_cost s)"

definition attained :: "instance_data \<Rightarrow> int \<Rightarrow> bool" where
  "attained I x \<longleftrightarrow> (\<exists>\<sigma>. base_sol I \<sigma> \<and> sol_cost I \<sigma> = x)"

text \<open>The assignment a solution vector stands for, as \<open>print_solution\<close> reads it.\<close>

definition solution_assignment :: "int list \<Rightarrow> assignment" where
  "solution_assignment sol v = (if 0 \<le> v \<and> v < int (length sol) then sol ! nat v \<noteq> 0 else False)"

definition busy :: "master \<Rightarrow> nat set" where
  "busy s = {p. p < length (cube_of_worker s) \<and> 0 \<le> cube_of_worker s ! p}"

abbreviation cube_at :: "master \<Rightarrow> nat \<Rightarrow> lit list" where
  "cube_at s i \<equiv> ct_lits (cubes s ! i)"

abbreviation worker_cube :: "master \<Rightarrow> nat \<Rightarrow> lit list" where
  "worker_cube s p \<equiv> cube_at s (nat (cube_of_worker s ! p))"

definition honest_bounds :: "instance_data \<Rightarrow> nat \<Rightarrow> int \<Rightarrow> int \<Rightarrow> master \<Rightarrow> bool" where
  "honest_bounds I p LB UB s \<longleftrightarrow> (UB < INT_MAX \<longrightarrow> is_opt I \<longrightarrow> attained I UB)
     \<and> (LB \<noteq> INT_MIN \<longrightarrow> is_opt I \<longrightarrow> (\<forall>\<sigma>. open_sol I s \<sigma> \<longrightarrow>
          (p = original_worker \<or> p \<in> busy s \<and> in_cube \<sigma> (worker_cube s p)) \<longrightarrow> LB \<le> sol_cost I \<sigma>))"

definition solution_follows :: "instance_data \<Rightarrow> queue \<Rightarrow> bool" where
  "solution_follows I q \<longleftrightarrow>
     (\<exists>sol r. of_tag TAG_SOLUTION q = send_solution sol @ r \<and> base_sol I (solution_assignment sol))"

definition honest_cost :: "instance_data \<Rightarrow> int \<Rightarrow> bool" where
  "honest_cost I x \<longleftrightarrow> (is_opt I \<longrightarrow> attained I x \<and> x \<le> INT_MAX)"

definition honest_original :: "instance_data \<Rightarrow> int \<Rightarrow> int \<Rightarrow> queue \<Rightarrow> master \<Rightarrow> bool" where
  "honest_original I result extra q s \<longleftrightarrow>
     (result = 10 \<and> \<not> is_opt I \<longrightarrow> solution_follows I q)
     \<and> (result = 10 \<and> is_opt I \<longrightarrow> (\<forall>\<sigma>. open_sol I s \<sigma> \<longrightarrow> extra \<le> sol_cost I \<sigma>))
     \<and> (result \<in> {10, 15, 26} \<longrightarrow> honest_cost I extra)
     \<and> (result = 20 \<longrightarrow> (\<forall>\<sigma>. \<not> open_sol I s \<sigma>))"

text \<open>
  A cube worker: result 15, a solution that is not known to be the best of the cube, is not among
  the results allowed, because the master counts the cube as done (see \<open>result_15_drops_cube\<close>).
\<close>

definition honest_cube :: "instance_data \<Rightarrow> nat \<Rightarrow> int \<Rightarrow> int \<Rightarrow> queue \<Rightarrow> master \<Rightarrow> bool" where
  "honest_cube I p result extra q s \<longleftrightarrow>
     p < num_procs I \<and> p \<in> busy s \<and> result \<in> {0, 10, 20, 25, 26, RES_SPLIT}
     \<and> (result = 10 \<and> \<not> is_opt I \<longrightarrow> solution_follows I q)
     \<and> (result = 10 \<and> is_opt I \<longrightarrow> (\<forall>\<sigma>. open_sol I s \<sigma> \<and> in_cube \<sigma> (worker_cube s p) \<longrightarrow> extra \<le> sol_cost I \<sigma>))
     \<and> (result \<in> {10, 25, 26} \<longrightarrow> honest_cost I extra)
     \<and> (result = 20 \<longrightarrow> (\<forall>\<sigma>. open_sol I s \<sigma> \<longrightarrow> \<not> in_cube \<sigma> (worker_cube s p)))
     \<and> (result = RES_SPLIT \<longrightarrow> (\<exists>cs subs r.
          of_tag TAG_SPLIT q = send_constraints TAG_SPLIT cs @ send_cubes TAG_SPLIT subs @ r
          \<and> extra = int (length subs) \<and> (\<forall>sub \<in> set subs. set (worker_cube s p) \<subseteq> set sub)
          \<and> (\<forall>\<sigma>. open_sol I s \<sigma> \<and> in_cube \<sigma> (worker_cube s p) \<longrightarrow> (\<exists>sub \<in> set subs. in_cube \<sigma> sub))))"

text \<open>The oldest message of \<open>p\<close>, when it reports bounds or a result, is truthful.\<close>

definition honest :: "instance_data \<Rightarrow> nat \<Rightarrow> master \<Rightarrow> bool" where
  "honest I p s \<longleftrightarrow> (case inbox s p of
      [] \<Rightarrow> True
    | (tag, d) # q \<Rightarrow>
        (tag = TAG_BOUNDS \<longrightarrow> honest_bounds I p (d ! 0) (d ! 1) s)
        \<and> (tag = TAG_RESULT \<longrightarrow> d ! 1 = int p
            \<and> (if p = original_worker then honest_original I (d ! 0) (d ! 2) q s
               else honest_cube I p (d ! 0) (d ! 2) q s)))"

section \<open>The invariant\<close>

definition cost_facts :: "instance_data \<Rightarrow> master \<Rightarrow> bool" where
  "cost_facts I s \<longleftrightarrow> global_has_best_cost s = feasible_seen s
     \<and> (if global_has_best_cost s then attained I (global_best_cost s) else global_best_cost s = INT_MAX)
     \<and> (\<forall>\<sigma>. open_sol I s \<sigma> \<longrightarrow> global_lower_bound s \<le> sol_cost I \<sigma>)"

definition facts_inv :: "instance_data \<Rightarrow> master \<Rightarrow> bool" where
  "facts_inv I s \<longleftrightarrow>
     (is_opt I \<longrightarrow> cost_facts I s)
     \<and> (original_proved_unsat s \<longrightarrow> (\<forall>\<sigma>. \<not> base_sol I \<sigma>))
     \<and> (original_proved_optimum s \<longrightarrow> is_opt I \<and> global_has_best_cost s \<and> (\<forall>\<sigma>. \<not> open_sol I s \<sigma>))
     \<and> (sat_found s \<longrightarrow> \<not> is_opt I \<and> base_sol I (solution_assignment (global_best_solution s)))"

text \<open>The cube \<open>i\<close> is waiting or being solved.\<close>

definition live :: "master \<Rightarrow> nat \<Rightarrow> bool" where
  "live s i \<longleftrightarrow> i \<in> set (cube_queue s) \<or> (\<exists>p \<in> busy s. cube_of_worker s ! p = int i)"

definition covered :: "instance_data \<Rightarrow> master \<Rightarrow> bool" where
  "covered I s \<longleftrightarrow> unknown_seen s \<or> sat_found s
     \<or> (\<forall>\<sigma>. open_sol I s \<sigma> \<longrightarrow> (\<exists>i. live s i \<and> in_cube \<sigma> (cube_at s i)))"

definition pool_wf :: "instance_data \<Rightarrow> master \<Rightarrow> bool" where
  "pool_wf I s \<longleftrightarrow> 2 < num_procs I \<and> length (cube_of_worker s) = num_procs I \<and> length (lb_of_worker s) = num_procs I
     \<and> cube_of_worker s ! 0 = -1 \<and> cube_of_worker s ! 1 = -2 \<and> (\<forall>p \<in> {2..<num_procs I}. -1 \<le> cube_of_worker s ! p)
     \<and> (\<forall>p \<in> busy s. nat (cube_of_worker s ! p) < length (cubes s))
     \<and> set (cube_queue s) \<subseteq> {..<length (cubes s)}
     \<and> active_workers s = int (card (busy s))"

definition bounds_ok :: "instance_data \<Rightarrow> master \<Rightarrow> bool" where
  "bounds_ok I s \<longleftrightarrow> (is_opt I \<longrightarrow>
     (\<forall>i < length (cubes s). \<forall>\<sigma>. open_sol I s \<sigma> \<and> in_cube \<sigma> (cube_at s i) \<longrightarrow> ct_lower_bound (cubes s ! i) \<le> sol_cost I \<sigma>)
     \<and> (\<forall>p \<in> busy s. \<forall>\<sigma>. open_sol I s \<sigma> \<and> in_cube \<sigma> (worker_cube s p) \<longrightarrow> lb_of_worker s ! p \<le> sol_cost I \<sigma>))"

definition pool_inv :: "instance_data \<Rightarrow> master \<Rightarrow> bool" where
  "pool_inv I s \<longleftrightarrow> facts_inv I s \<and> pool_wf I s \<and> covered I s \<and> bounds_ok I s"

definition main_inv :: "instance_data \<Rightarrow> master \<Rightarrow> bool" where
  "main_inv I s \<longleftrightarrow> pool_inv I s \<and> (cube_queue s \<noteq> [] \<longrightarrow> {2..<num_procs I} \<subseteq> busy s)"

lemmas inv_defs = facts_inv_def cost_facts_def covered_def pool_wf_def bounds_ok_def open_sol_def live_def busy_def

text \<open>Fields the invariant does not look at.\<close>

lemma open_sol_update [simp]:
  "open_sol I (s\<lparr>inbox := x1\<rparr>) = open_sol I s" "open_sol I (s\<lparr>outbox := x2\<rparr>) = open_sol I s"
  "open_sol I (s\<lparr>cubes := x3\<rparr>) = open_sol I s" "open_sol I (s\<lparr>cube_queue := x4\<rparr>) = open_sol I s"
  "open_sol I (s\<lparr>cube_of_worker := x5\<rparr>) = open_sol I s" "open_sol I (s\<lparr>cube_depth_of_worker := x6\<rparr>) = open_sol I s"
  "open_sol I (s\<lparr>lb_of_worker := x7\<rparr>) = open_sol I s" "open_sol I (s\<lparr>ub_of_worker := x8\<rparr>) = open_sol I s"
  "open_sol I (s\<lparr>active_workers := x9\<rparr>) = open_sol I s" "open_sol I (s\<lparr>sat_found := x10\<rparr>) = open_sol I s"
  "open_sol I (s\<lparr>unknown_seen := x11\<rparr>) = open_sol I s" "open_sol I (s\<lparr>original_worker_active := x12\<rparr>) = open_sol I s"
  "open_sol I (s\<lparr>original_proved_unsat := x12\<rparr>) = open_sol I s" "open_sol I (s\<lparr>original_proved_optimum := x12\<rparr>) = open_sol I s"
  "open_sol I (s\<lparr>feasible_seen := x13\<rparr>) = open_sol I s" "open_sol I (s\<lparr>stop_sent := x13\<rparr>) = open_sol I s"
  "open_sol I (s\<lparr>global_lower_bound := x14\<rparr>) = open_sol I s" "open_sol I (s\<lparr>global_best_solution := x15\<rparr>) = open_sol I s"
  "open_sol I (s\<lparr>global_cubes_processed := x14\<rparr>) = open_sol I s" "open_sol I (s\<lparr>global_queue_size := x14\<rparr>) = open_sol I s"
  "open_sol I (s\<lparr>total_number_cubes := x14\<rparr>) = open_sol I s" "open_sol I (s\<lparr>global_learned_from_original := x16\<rparr>) = open_sol I s"
  "open_sol I (s\<lparr>pending_init_workers := x9\<rparr>) = open_sol I s" "open_sol I (s\<lparr>sat_found_during_generation := x10\<rparr>) = open_sol I s"
  by (simp_all add: open_sol_def fun_eq_iff)

lemma busy_update [simp]:
  "busy (s\<lparr>inbox := x1\<rparr>) = busy s" "busy (s\<lparr>outbox := x2\<rparr>) = busy s" "busy (s\<lparr>cubes := x3\<rparr>) = busy s"
  "busy (s\<lparr>cube_queue := x4\<rparr>) = busy s" "busy (s\<lparr>cube_depth_of_worker := x6\<rparr>) = busy s"
  "busy (s\<lparr>lb_of_worker := x7\<rparr>) = busy s" "busy (s\<lparr>ub_of_worker := x8\<rparr>) = busy s"
  "busy (s\<lparr>active_workers := x9\<rparr>) = busy s" "busy (s\<lparr>sat_found := x10\<rparr>) = busy s"
  "busy (s\<lparr>unknown_seen := x11\<rparr>) = busy s" "busy (s\<lparr>original_worker_active := x12\<rparr>) = busy s"
  "busy (s\<lparr>original_proved_unsat := x12\<rparr>) = busy s" "busy (s\<lparr>original_proved_optimum := x12\<rparr>) = busy s"
  "busy (s\<lparr>feasible_seen := x13\<rparr>) = busy s" "busy (s\<lparr>stop_sent := x13\<rparr>) = busy s"
  "busy (s\<lparr>global_lower_bound := x14\<rparr>) = busy s" "busy (s\<lparr>global_best_solution := x15\<rparr>) = busy s"
  "busy (s\<lparr>global_cubes_processed := x14\<rparr>) = busy s" "busy (s\<lparr>global_queue_size := x14\<rparr>) = busy s"
  "busy (s\<lparr>total_number_cubes := x14\<rparr>) = busy s" "busy (s\<lparr>global_learned_from_original := x16\<rparr>) = busy s"
  "busy (s\<lparr>global_best_cost := x14\<rparr>) = busy s" "busy (s\<lparr>global_has_best_cost := x13\<rparr>) = busy s"
  by (simp_all add: busy_def)

text \<open>The part of the state the invariant reads, and states that agree on it.\<close>

definition same_view :: "master \<Rightarrow> master \<Rightarrow> bool" where
  "same_view s t \<longleftrightarrow> cubes t = cubes s \<and> cube_queue t = cube_queue s \<and> cube_of_worker t = cube_of_worker s
     \<and> lb_of_worker t = lb_of_worker s \<and> active_workers t = active_workers s \<and> sat_found t = sat_found s
     \<and> unknown_seen t = unknown_seen s \<and> original_proved_unsat t = original_proved_unsat s
     \<and> original_proved_optimum t = original_proved_optimum s \<and> feasible_seen t = feasible_seen s
     \<and> global_best_cost t = global_best_cost s \<and> global_has_best_cost t = global_has_best_cost s
     \<and> global_lower_bound t = global_lower_bound s
     \<and> (sat_found s \<longrightarrow> global_best_solution t = global_best_solution s)"

lemma same_view_open: "same_view s t \<Longrightarrow> open_sol I t = open_sol I s"
  by (simp add: same_view_def open_sol_def fun_eq_iff)

lemma same_view_busy: "same_view s t \<Longrightarrow> busy t = busy s"
  by (simp add: same_view_def busy_def)

lemma same_view_facts:
  assumes "same_view s t" shows "facts_inv I t = facts_inv I s"
  unfolding facts_inv_def cost_facts_def same_view_open [OF assms] using assms unfolding same_view_def by auto

lemma same_view_pool:
  assumes "same_view s t" shows "pool_inv I t = pool_inv I s" "main_inv I t = main_inv I s"
proof -
  have "pool_wf I t = pool_wf I s" "covered I t = covered I s" "bounds_ok I t = bounds_ok I s"
    using assms unfolding pool_wf_def covered_def bounds_ok_def live_def same_view_open [OF assms] same_view_busy [OF assms]
    by (simp_all add: same_view_def)
  then show "pool_inv I t = pool_inv I s" "main_inv I t = main_inv I s"
    using same_view_facts [OF assms] same_view_busy [OF assms] assms by (auto simp: pool_inv_def main_inv_def same_view_def)
qed

lemma same_view_refl [simp]: "same_view s s" by (simp add: same_view_def)

lemma same_view_trans: "same_view s t \<Longrightarrow> same_view t u \<Longrightarrow> same_view s u"
  by (auto simp: same_view_def)

lemma recv_from_same: "recv_from p f s = Some (x, s') \<Longrightarrow> same_view s s' \<and> (\<exists>q. f (inbox s p) = Some (x, q) \<and> s' = s\<lparr>inbox := (inbox s)(p := q)\<rparr>)"
  by (auto simp: recv_from_def same_view_def)

lemma mpi_send_same [simp]: "same_view s (mpi_send p ms s)"
  by (simp add: mpi_send_def same_view_def)

lemma send_stop_same: "same_view s (send_stop ps s)"
proof (induction ps arbitrary: s)
  case (Cons p ps)
  have "send_stop (p # ps) s = send_stop ps (mpi_send p [(TAG_STOP, [1, 0])] s)" by (simp add: send_stop_def)
  with same_view_trans [OF mpi_send_same Cons.IH] show ?case by metis
qed (simp add: send_stop_def)

section \<open>A better incumbent\<close>

definition improve :: "int \<Rightarrow> master \<Rightarrow> master" where
  "improve b s = s\<lparr>feasible_seen := True, global_best_cost := b, global_has_best_cost := True\<rparr>"

lemma improve_simps [simp]:
  "cubes (improve b s) = cubes s" "cube_queue (improve b s) = cube_queue s" "cube_of_worker (improve b s) = cube_of_worker s"
  "lb_of_worker (improve b s) = lb_of_worker s" "active_workers (improve b s) = active_workers s"
  "sat_found (improve b s) = sat_found s" "unknown_seen (improve b s) = unknown_seen s"
  "original_proved_unsat (improve b s) = original_proved_unsat s"
  "original_proved_optimum (improve b s) = original_proved_optimum s" "feasible_seen (improve b s)"
  "global_best_cost (improve b s) = b" "global_has_best_cost (improve b s)"
  "global_lower_bound (improve b s) = global_lower_bound s" "global_best_solution (improve b s) = global_best_solution s"
  "busy (improve b s) = busy s" "inbox (improve b s) = inbox s" "global_cubes_processed (improve b s) = global_cubes_processed s"
  "original_worker_active (improve b s) = original_worker_active s"
  "pending_init_workers (improve b s) = pending_init_workers s"
  "sat_found_during_generation (improve b s) = sat_found_during_generation s"
  by (simp_all add: improve_def)

definition improves :: "instance_data \<Rightarrow> int \<Rightarrow> master \<Rightarrow> bool" where
  "improves I b s \<longleftrightarrow> (is_opt I \<longrightarrow> attained I b \<and> (global_has_best_cost s \<longrightarrow> b \<le> global_best_cost s))"

lemma improve_open: "improves I b s \<Longrightarrow> open_sol I (improve b s) \<sigma> \<Longrightarrow> open_sol I s \<sigma>"
  by (auto simp: improves_def open_sol_def)

lemma improve_facts:
  assumes "facts_inv I s" "improves I b s" shows "facts_inv I (improve b s)"
  using assms(1) improve_open [OF assms(2)] assms(2) unfolding facts_inv_def cost_facts_def improves_def by auto

lemma improve_pool:
  assumes "pool_inv I s" "improves I b s" shows "pool_inv I (improve b s)"
proof -
  note o = improve_open [OF assms(2)]
  have "covered I (improve b s)"
    using assms(1) o by (auto simp: pool_inv_def covered_def live_def)
  moreover have "bounds_ok I (improve b s)"
    using assms(1) o by (auto simp: pool_inv_def bounds_ok_def)
  ultimately show ?thesis
    using assms improve_facts by (simp add: pool_inv_def pool_wf_def)
qed

lemma improve_main: "main_inv I s \<Longrightarrow> improves I b s \<Longrightarrow> main_inv I (improve b s)"
  by (simp add: main_inv_def improve_pool)

text \<open>The incumbent after a cost is announced.\<close>

definition new_best :: "bool \<Rightarrow> int \<Rightarrow> master \<Rightarrow> int" where
  "new_best mini x s =
     (if (if mini then x < global_best_cost s else x > global_best_cost s) then x else global_best_cost s)"

lemma bestSolution_best: "snd (bestSolution mini x s) = s\<lparr>global_best_cost := new_best mini x s\<rparr>"
  by (simp add: bestSolution_def new_best_def Let_def)

lemma announce_cost_improve: "announce_cost mini x s = improve (new_best mini x s) s"
  by (simp add: announce_cost_def bestSolution_best improve_def new_best_def)

lemma new_best_improves:
  assumes "facts_inv I s" "honest_cost I x" "is_opt I \<Longrightarrow> mini"
  shows "improves I (new_best mini x s) s" "is_opt I \<Longrightarrow> new_best mini x s \<le> x"
  using assms by (auto simp: improves_def new_best_def facts_inv_def cost_facts_def honest_cost_def split: if_splits)

lemma take_incumbent_improve:
  assumes "take_incumbent mini w x s = Some s'" "\<not> sat_found s"
  shows "same_view (improve (new_best mini x s) s) s'"
proof -
  obtain s2 sol where s2: "same_view (improve (new_best mini x s) s) s2"
    and s': "s' = s2 \<or> s' = s2\<lparr>global_best_solution := sol\<rparr>"
  proof -
    let ?s1 = "improve (new_best mini x s) s"
    have "take_incumbent mini w x s = do {
        (sol, s3) \<leftarrow> recv_from w recv_solution ?s1;
        Some (if fst (bestSolution mini x (s\<lparr>feasible_seen := True\<rparr>)) \<or> global_best_solution s3 = []
              then s3\<lparr>global_best_solution := sol\<rparr> else s3) }"
      by (simp add: take_incumbent_def improve_def new_best_def bestSolution_def Let_def)
    with assms(1) obtain sol s3 where "recv_from w recv_solution ?s1 = Some (sol, s3)"
      "s' = s3 \<or> s' = s3\<lparr>global_best_solution := sol\<rparr>"
      by (auto simp: bind_eq_Some_conv split: if_splits)
    moreover from recv_from_same [OF this(1)] have "same_view ?s1 s3" by (rule conjunct1)
    ultimately show thesis using that [of s3 sol] by simp
  qed
  have "\<not> sat_found s2" using s2 assms(2) by (simp add: same_view_def)
  with s' have "same_view s2 s'" by (elim disjE) (simp_all add: same_view_def)
  with s2 show ?thesis by (rule same_view_trans)
qed

section \<open>Messages that are not results\<close>

lemma handle_best_request_same: "handle_best_request p s = Some s' \<Longrightarrow> same_view s s'"
  unfolding handle_best_request_def
  by (auto simp: bind_eq_Some_conv Let_def dest!: recv_from_same) (simp_all add: same_view_def mpi_send_def)

lemma handle_learned_update_same: "handle_learned_update p s = Some s' \<Longrightarrow> same_view s s'"
  unfolding handle_learned_update_def
  by (auto simp: bind_eq_Some_conv dest!: recv_from_same) (simp add: same_view_def)

lemma handle_bounds_report_cases:
  assumes "handle_bounds_report mini p s = Some s'"
  obtains LB UB q where "mpi_recv TAG_BOUNDS 2 (inbox s p) = Some ([LB, UB], q)"
    "s' = (let t = record_bounds p LB UB (s\<lparr>inbox := (inbox s)(p := q)\<rparr>)
           in if UB < INT_MAX then improve (if global_has_best_cost t then new_best mini UB t else UB) t else t)"
proof -
  obtain bounds s1 where r: "recv_from p (mpi_recv TAG_BOUNDS 2) s = Some (bounds, s1)"
    using assms by (auto simp: handle_bounds_report_def bind_eq_Some_conv)
  from conjunct2 [OF recv_from_same [OF r]] obtain q where
    q: "mpi_recv TAG_BOUNDS 2 (inbox s p) = Some (bounds, q)" "s1 = s\<lparr>inbox := (inbox s)(p := q)\<rparr>" by (elim exE conjE)
  have "length bounds = 2" if "mpi_recv t 2 qq = Some (bounds, rr)" for t qq rr
    using that by (induction t "2::nat" qq arbitrary: rr rule: mpi_recv.induct) (auto split: if_splits)
  with q(1) have "length bounds = 2" by blast
  then obtain LB UB where b: "bounds = [LB, UB]" by (cases bounds; cases "tl bounds") auto
  show thesis
  proof (rule that)
    show "mpi_recv TAG_BOUNDS 2 (inbox s p) = Some ([LB, UB], q)" using q b by simp
    define t where "t = record_bounds p LB UB (s\<lparr>inbox := (inbox s)(p := q)\<rparr>)"
    have "Some s' = Some (if UB < INT_MAX
           then let t = t\<lparr>feasible_seen := True\<rparr>
                in if \<not> global_has_best_cost t
                   then t\<lparr>global_best_cost := UB, global_has_best_cost := True\<rparr>
                   else snd (bestSolution mini UB t)
           else t)"
      using assms r unfolding handle_bounds_report_def
      by (cases "UB < INT_MAX"; cases "global_has_best_cost t") (simp_all add: q(2) b t_def Let_def)
    then show "s' = (let t = record_bounds p LB UB (s\<lparr>inbox := (inbox s)(p := q)\<rparr>)
           in if UB < INT_MAX then improve (if global_has_best_cost t then new_best mini UB t else UB) t else t)"
      unfolding t_def [symmetric] by (simp add: Let_def bestSolution_best improve_def new_best_def)
  qed
qed

lemma record_bounds_simps [simp]:
  "cubes (record_bounds p l u s) = cubes s" "cube_queue (record_bounds p l u s) = cube_queue s"
  "cube_of_worker (record_bounds p l u s) = cube_of_worker s" "active_workers (record_bounds p l u s) = active_workers s"
  "sat_found (record_bounds p l u s) = sat_found s" "unknown_seen (record_bounds p l u s) = unknown_seen s"
  "original_proved_unsat (record_bounds p l u s) = original_proved_unsat s"
  "original_proved_optimum (record_bounds p l u s) = original_proved_optimum s"
  "feasible_seen (record_bounds p l u s) = feasible_seen s"
  "global_best_cost (record_bounds p l u s) = global_best_cost s"
  "global_has_best_cost (record_bounds p l u s) = global_has_best_cost s"
  "global_best_solution (record_bounds p l u s) = global_best_solution s"
  "busy (record_bounds p l u s) = busy s" "length (lb_of_worker (record_bounds p l u s)) = length (lb_of_worker s)"
  "pending_init_workers (record_bounds p l u s) = pending_init_workers s"
  "sat_found_during_generation (record_bounds p l u s) = sat_found_during_generation s"
  "open_sol I (record_bounds p l u s) = open_sol I s" "new_best mini x (record_bounds p l u s) = new_best mini x s"
  by (simp_all add: record_bounds_def Let_def new_best_def)

lemma record_bounds_inv:
  assumes "honest_bounds I p LB UB s"
  shows "facts_inv I s \<Longrightarrow> facts_inv I (record_bounds p LB UB s)"
    "pool_inv I s \<Longrightarrow> pool_inv I (record_bounds p LB UB s)"
proof -
  let ?t = "record_bounds p LB UB s"
  have g: "global_lower_bound ?t = (if p = original_worker \<and> LB \<noteq> INT_MIN \<and> LB > global_lower_bound s then LB else global_lower_bound s)"
    by (simp add: record_bounds_def Let_def)
  show facts: "facts_inv I ?t" if "facts_inv I s"
    using that assms unfolding facts_inv_def cost_facts_def honest_bounds_def by (auto simp: g)
  assume inv: "pool_inv I s"
  have lb: "lb_of_worker ?t = (if p < length (lb_of_worker s) \<and> LB \<noteq> INT_MIN then (lb_of_worker s)[p := LB] else lb_of_worker s)"
    by (simp add: record_bounds_def Let_def)
  have "bounds_ok I ?t"
    unfolding bounds_ok_def
  proof (intro impI conjI ballI allI)
    fix k \<sigma> assume "is_opt I" "k \<in> busy ?t" and o: "open_sol I ?t \<sigma> \<and> in_cube \<sigma> (worker_cube ?t k)"
    then have k: "k \<in> busy s" "lb_of_worker s ! k \<le> sol_cost I \<sigma>" using inv by (auto simp: pool_inv_def bounds_ok_def)
    show "lb_of_worker ?t ! k \<le> sol_cost I \<sigma>"
      using k o \<open>is_opt I\<close> assms unfolding lb honest_bounds_def by (cases "p = k") auto
  qed (use inv in \<open>auto simp: pool_inv_def bounds_ok_def\<close>)
  with inv facts show "pool_inv I ?t"
    by (auto simp: pool_inv_def covered_def live_def pool_wf_def)
qed

lemma honest_bounds_inbox [simp]: "honest_bounds I p LB UB (s\<lparr>inbox := x\<rparr>) = honest_bounds I p LB UB s"
  by (simp add: honest_bounds_def)

lemma handle_bounds_report_inv:
  assumes h: "handle_bounds_report mini p s = Some s'" and i: "inbox s p = (TAG_BOUNDS, d) # q"
    and ok: "honest_bounds I p (d ! 0) (d ! 1) s" and mini: "is_opt I \<Longrightarrow> mini"
  shows "facts_inv I s \<Longrightarrow> facts_inv I s'" "pool_inv I s \<Longrightarrow> pool_inv I s'" "main_inv I s \<Longrightarrow> main_inv I s'"
    "sat_found s' = sat_found s" "pending_init_workers s' = pending_init_workers s" "cubes s' = cubes s"
    "sat_found_during_generation s' = sat_found_during_generation s"
proof -
  obtain LB UB q1 where r: "mpi_recv TAG_BOUNDS 2 (inbox s p) = Some ([LB, UB], q1)"
    and s': "s' = (let t = record_bounds p LB UB (s\<lparr>inbox := (inbox s)(p := q1)\<rparr>)
           in if UB < INT_MAX then improve (if global_has_best_cost t then new_best mini UB t else UB) t else t)"
    using handle_bounds_report_cases [OF h] by blast
  have d: "d = [LB, UB]" using r unfolding i by (auto split: if_splits)
  let ?s1 = "s\<lparr>inbox := (inbox s)(p := q1)\<rparr>"
  let ?t = "record_bounds p LB UB ?s1"
  have v: "same_view s ?s1" by (simp add: same_view_def)
  have ok1: "honest_bounds I p LB UB ?s1" using ok d by simp
  have imp: "improves I (if global_has_best_cost ?t then new_best mini UB ?t else UB) ?t"
    if f: "facts_inv I ?t" and u: "UB < INT_MAX"
  proof -
    have "honest_cost I UB" using ok1 u by (simp add: honest_bounds_def honest_cost_def)
    with new_best_improves(1) [OF f _ mini, of UB] show ?thesis by (auto simp: improves_def honest_cost_def)
  qed
  show F: "facts_inv I s'" if "facts_inv I s"
  proof -
    have "facts_inv I ?t" using that same_view_facts [OF v] record_bounds_inv(1) [OF ok1] by simp
    with improve_facts [OF this imp [OF this]] show ?thesis by (simp add: s' Let_def)
  qed
  show P: "pool_inv I s'" if "pool_inv I s"
  proof -
    have t: "pool_inv I ?t" using that same_view_pool [OF v] record_bounds_inv(2) [OF ok1] by simp
    then have "facts_inv I ?t" by (simp add: pool_inv_def)
    with improve_pool [OF t imp [OF this]] t show ?thesis by (simp add: s' Let_def)
  qed
  have s'': "s' = ?t \<or> (\<exists>b. s' = improve b ?t)" unfolding s' Let_def by auto
  then show "main_inv I s'" if "main_inv I s" using that P by (auto simp: main_inv_def)
  show "sat_found s' = sat_found s" "cubes s' = cubes s" using s'' by auto
  show "pending_init_workers s' = pending_init_workers s"
    "sat_found_during_generation s' = sat_found_during_generation s"
    using s'' by auto
qed

section \<open>Results of the original worker\<close>

definition carries :: "instance_data \<Rightarrow> master \<Rightarrow> master \<Rightarrow> bool" where
  "carries I s t \<longleftrightarrow> (facts_inv I s \<longrightarrow> facts_inv I t) \<and> (pool_inv I s \<longrightarrow> pool_inv I t) \<and> (main_inv I s \<longrightarrow> main_inv I t)"

lemma carries_trans: "carries I s t \<Longrightarrow> carries I t u \<Longrightarrow> carries I s u"
  by (simp add: carries_def)

lemma carries_view: "same_view s t \<Longrightarrow> carries I s t"
  by (simp add: carries_def same_view_facts same_view_pool)

lemma pool_facts: "pool_inv I s \<Longrightarrow> facts_inv I s" "main_inv I s \<Longrightarrow> facts_inv I s" "main_inv I s \<Longrightarrow> pool_inv I s"
  by (simp_all add: pool_inv_def main_inv_def)

lemma carries_improve: "(facts_inv I s \<Longrightarrow> improves I b s) \<Longrightarrow> carries I s (improve b s)"
  unfolding carries_def using improve_facts improve_pool improve_main pool_facts by blast

text \<open>A state with the same cubes, workers and costs and more flags set.\<close>

lemma carriesI:
  assumes "facts_inv I s \<Longrightarrow> facts_inv I t" "open_sol I t = open_sol I s" "busy t = busy s"
    "cubes t = cubes s" "cube_queue t = cube_queue s" "cube_of_worker t = cube_of_worker s"
    "lb_of_worker t = lb_of_worker s" "active_workers t = active_workers s"
    "unknown_seen s \<Longrightarrow> unknown_seen t" "sat_found s \<Longrightarrow> sat_found t"
  shows "carries I s t"
proof -
  have "pool_inv I s \<Longrightarrow> pool_inv I t"
    unfolding pool_inv_def covered_def live_def pool_wf_def bounds_ok_def using assms by simp blast
  then show ?thesis using assms(1,3,5) by (auto simp: carries_def main_inv_def)
qed

lemma cost_facts_flag [simp]:
  "cost_facts I (s\<lparr>unknown_seen := x\<rparr>) = cost_facts I s"
  "cost_facts I (s\<lparr>original_proved_unsat := x\<rparr>) = cost_facts I s"
  "cost_facts I (s\<lparr>original_proved_optimum := x\<rparr>) = cost_facts I s"
  by (simp_all add: cost_facts_def)

lemma carries_unknown: "carries I s (s\<lparr>unknown_seen := True\<rparr>)"
  by (rule carriesI) (auto simp: facts_inv_def)

lemma carries_unsat:
  assumes "facts_inv I s \<Longrightarrow> \<forall>\<sigma>. \<not> base_sol I \<sigma>"
  shows "carries I s (s\<lparr>original_proved_unsat := True\<rparr>)"
proof (rule carriesI)
  assume "facts_inv I s"
  with assms [OF this] show "facts_inv I (s\<lparr>original_proved_unsat := True\<rparr>)" by (simp add: facts_inv_def)
qed simp_all

lemma carries_optimum:
  assumes "facts_inv I s \<Longrightarrow> is_opt I \<and> global_has_best_cost s \<and> (\<forall>\<sigma>. \<not> open_sol I s \<sigma>)"
  shows "carries I s (s\<lparr>original_proved_optimum := True\<rparr>)"
proof (rule carriesI)
  assume "facts_inv I s"
  with assms [OF this] show "facts_inv I (s\<lparr>original_proved_optimum := True\<rparr>)" by (simp add: facts_inv_def)
qed simp_all

lemma carries_sat:
  "\<not> is_opt I \<Longrightarrow> base_sol I (solution_assignment sol) \<Longrightarrow>
     carries I s (s\<lparr>sat_found := True, global_best_solution := sol\<rparr>)"
  by (rule carriesI) (simp_all add: facts_inv_def)

lemma carries_announce:
  assumes "honest_cost I x" "is_opt I \<Longrightarrow> mini"
  shows "carries I s (announce_cost mini x s)"
  unfolding announce_cost_improve by (intro carries_improve new_best_improves(1)) (use assms in auto)

lemma carries_take:
  assumes "take_incumbent mini w x s = Some s'" "\<not> sat_found s" "honest_cost I x" "is_opt I \<Longrightarrow> mini"
  shows "carries I s s'"
  by (rule carries_trans [OF carries_improve carries_view [OF take_incumbent_improve [OF assms(1,2)]]])
    (intro new_best_improves(1), use assms in auto)

lemma recv_solution_follows:
  assumes "solution_follows I (inbox s w)"
  shows "\<exists>sol q. recv_from w recv_solution s = Some (sol, s\<lparr>inbox := (inbox s)(w := q)\<rparr>) \<and> base_sol I (solution_assignment sol)"
proof -
  obtain sol r where r: "of_tag TAG_SOLUTION (inbox s w) = send_solution sol @ r" "base_sol I (solution_assignment sol)"
    using assms by (auto simp: solution_follows_def)
  obtain q where "recv_solution (inbox s w) = Some (sol, q)" using recv_solution_sent [OF r(1)] by blast
  with r(2) show ?thesis by (auto simp: recv_from_def)
qed

lemma take_incumbent_best:
  assumes "take_incumbent mini w x s = Some s'" "\<not> sat_found s" "facts_inv I s" "honest_cost I x" "is_opt I" "mini"
  shows "global_has_best_cost s'" "global_best_cost s' \<le> x" "open_sol I s' \<sigma> \<Longrightarrow> open_sol I s \<sigma>"
proof -
  note v = take_incumbent_improve [OF assms(1,2)]
  show "global_has_best_cost s'" "global_best_cost s' \<le> x"
    using v new_best_improves(2) [OF assms(3,4)] assms(5,6) by (simp_all add: same_view_def)
  show "open_sol I s' \<sigma> \<Longrightarrow> open_sol I s \<sigma>"
    using improve_open [OF new_best_improves(1) [OF assms(3,4)]] assms(6) by (simp add: same_view_open [OF v])
qed

lemma if_chain:
  "(if a then A else if b then B else if c then C else D) = x \<Longrightarrow>
    (a \<and> A = x) \<or> (b \<and> B = x) \<or> (c \<and> C = x) \<or> D = x"
  by (auto split: if_splits)

lemma handle_original_result_carries:
  assumes h: "handle_original_result (is_opt I) mini result w x s = Some s'"
    and ok: "honest_original I result x (inbox s w) s" and mini: "is_opt I \<Longrightarrow> mini"
  shows "carries I s s'"
proof (cases "facts_inv I s")
  case False
  then show ?thesis by (auto simp: carries_def pool_facts)
next
  case F: True
  let ?s = "s\<lparr>original_worker_active := False\<rparr>"
  have v: "same_view s ?s" by (simp add: same_view_def)
  then have F1: "facts_inv I ?s" using F by (simp add: same_view_facts)
  have goal: "carries I s s'" if "carries I ?s s'" by (rule carries_trans [OF carries_view [OF v] that])
  consider (announce) "result = 26" | (dec) "result \<noteq> 26" "\<not> is_opt I" | (opt) "result \<noteq> 26" "is_opt I" by blast
  then show ?thesis
  proof cases
    case announce
    then show ?thesis using h ok carries_announce [OF _ mini, of I x s]
      by (simp add: handle_original_result_def honest_original_def)
  next
    case dec
    show ?thesis
    proof (cases "result = 10")
      case True
      then have "solution_follows I (inbox (?s\<lparr>sat_found := True\<rparr>) w)" using ok dec by (simp add: honest_original_def)
      from recv_solution_follows [OF this] obtain sol q where
        r: "recv_from w recv_solution (?s\<lparr>sat_found := True\<rparr>) = Some (sol, (?s\<lparr>sat_found := True\<rparr>)\<lparr>inbox := (inbox s)(w := q)\<rparr>)"
        "base_sol I (solution_assignment sol)" by auto
      let ?u = "?s\<lparr>sat_found := True, global_best_solution := sol\<rparr>"
      have "Some s' = Some (?u\<lparr>inbox := (inbox s)(w := q)\<rparr>)"
        unfolding h [symmetric] using dec True r by (simp add: handle_original_result_def)
      then have "s' = ?u\<lparr>inbox := (inbox s)(w := q)\<rparr>" by simp
      moreover have "same_view ?u (?u\<lparr>inbox := (inbox s)(w := q)\<rparr>)" by (simp add: same_view_def)
      ultimately show ?thesis
        using carries_trans [OF carries_sat [OF dec(2) r(2)] carries_view] goal by metis
    next
      case False
      then show ?thesis
        using h dec ok carries_unknown [of I ?s] carries_unsat [of I ?s] goal
        by (auto simp: handle_original_result_def honest_original_def open_sol_def Let_def split: if_splits)
    qed
  next
    case opt
    have ns: "\<not> sat_found ?s" using F opt by (auto simp: facts_inv_def cost_facts_def)
    have body: "(if result = 10 then map_option (\<lambda>s. s\<lparr>original_proved_optimum := True\<rparr>) (take_incumbent mini w x ?s)
        else if result = 15 then take_incumbent mini w x ?s
        else if result = 20
        then Some (if feasible_seen s then ?s\<lparr>original_proved_optimum := True\<rparr> else ?s\<lparr>original_proved_unsat := True\<rparr>)
        else Some (?s\<lparr>unknown_seen := True\<rparr>)) = Some s'"
      unfolding h [symmetric] using opt by (simp add: handle_original_result_def)
    consider (best) t where "result = 10" "take_incumbent mini w x ?s = Some t" "s' = t\<lparr>original_proved_optimum := True\<rparr>"
      | (some) "result = 15" "take_incumbent mini w x ?s = Some s'"
      | (unsat) "result = 20" "s' = (if feasible_seen s then ?s\<lparr>original_proved_optimum := True\<rparr> else ?s\<lparr>original_proved_unsat := True\<rparr>)"
      | (unknown) "s' = ?s\<lparr>unknown_seen := True\<rparr>"
      using if_chain [OF body] by (auto simp only: map_option_eq_Some option.inject)
    then show ?thesis
    proof cases
      case best
      have c: "honest_cost I x" "\<forall>\<sigma>. open_sol I ?s \<sigma> \<longrightarrow> x \<le> sol_cost I \<sigma>"
        using ok opt best(1) by (simp_all add: honest_original_def)
      note B = take_incumbent_best [OF best(2) ns F1 c(1) opt(2) mini [OF opt(2)]]
      have "\<not> open_sol I t \<sigma>" for \<sigma>
      proof
        assume o: "open_sol I t \<sigma>"
        then have "sol_cost I \<sigma> < global_best_cost t" using B(1) opt by (simp add: open_sol_def)
        moreover have "x \<le> sol_cost I \<sigma>" using c(2) B(3) [OF o] by blast
        ultimately show False using B(2) by linarith
      qed
      then have "carries I t s'" unfolding best(3) using B(1) opt by (intro carries_optimum) simp
      then show ?thesis using carries_trans [OF carries_take [OF best(2) ns c(1)]] mini goal by blast
    next
      case some
      then show ?thesis using carries_take [OF some(2) ns _ mini] ok goal by (simp add: honest_original_def)
    next
      case unsat
      have n: "\<forall>\<sigma>. \<not> open_sol I ?s \<sigma>" using ok unsat by (simp add: honest_original_def)
      have b: "global_has_best_cost ?s = feasible_seen s" using F opt by (simp add: facts_inv_def cost_facts_def)
      show ?thesis
      proof (cases "feasible_seen s")
        case True
        then show ?thesis using goal carries_optimum [of I ?s] n b opt unsat by simp
      next
        case False
        then have "\<forall>\<sigma>. \<not> base_sol I \<sigma>" using n b by (simp add: open_sol_def)
        then show ?thesis using goal carries_unsat [of I ?s] False unsat by simp
      qed
    next
      case unknown
      then show ?thesis using goal carries_unknown [of I ?s] by simp
    qed
  qed
qed

section \<open>Cubes changing hands\<close>

lemma busy_set: "busy (s\<lparr>cube_of_worker := (cube_of_worker s)[p := k]\<rparr>) =
    (if p < length (cube_of_worker s) then (if 0 \<le> k then insert p (busy s) else busy s - {p}) else busy s)"
  by (auto simp: busy_def nth_list_update)

lemma finite_busy [simp]: "finite (busy s)"
  by (simp add: busy_def)

lemma facts_workers [simp]:
  "facts_inv I (add_active k s) = facts_inv I s" "facts_inv I (release_worker p s) = facts_inv I s"
  by (simp_all add: facts_inv_def cost_facts_def add_active_def release_worker_def)

text \<open>A worker whose cube has no open solution becomes idle.\<close>

lemma release_pool:
  assumes inv: "pool_inv I s" and p: "p \<in> busy s"
    and done': "\<And>\<sigma>. \<not> unknown_seen s \<Longrightarrow> open_sol I s \<sigma> \<Longrightarrow> in_cube \<sigma> (worker_cube s p) \<Longrightarrow>
      \<exists>i \<in> set (cube_queue s). in_cube \<sigma> (cube_at s i)"
  shows "pool_inv I (add_active (-1) (release_worker p s))"
proof -
  let ?t = "add_active (-1) (release_worker p s)"
  have c: "cube_of_worker ?t = (cube_of_worker s)[p := -1]" by (simp add: add_active_def release_worker_def)
  have pl: "p < length (cube_of_worker s)" "0 \<le> cube_of_worker s ! p" using p by (simp_all add: busy_def)
  have b: "busy ?t = busy s - {p}"
    using busy_set [of s p "-1"] pl by (simp add: add_active_def release_worker_def busy_def)
  have wf: "pool_wf I s" using inv by (simp add: pool_inv_def)
  have p2: "p \<noteq> 0" using pl wf by (intro notI) (simp add: pool_wf_def)
  have p2': "p \<noteq> 1" using pl wf by (intro notI) (simp add: pool_wf_def)
  have fields: "cubes ?t = cubes s" "cube_queue ?t = cube_queue s" "lb_of_worker ?t = lb_of_worker s"
    "active_workers ?t = active_workers s - 1" "unknown_seen ?t = unknown_seen s" "sat_found ?t = sat_found s"
    "open_sol I ?t = open_sol I s"
    by (simp_all add: add_active_def release_worker_def)
  have "facts_inv I ?t" using pool_facts(1) [OF inv] by simp
  moreover have "pool_wf I ?t"
    using wf pl(1) p2 p2' card_Suc_Diff1 [OF finite_busy p] unfolding pool_wf_def fields b c
    by (auto simp: nth_list_update)
  moreover have "covered I ?t"
  proof (cases "unknown_seen s \<or> sat_found s")
    case True
    then show ?thesis by (auto simp: covered_def fields)
  next
    case False
    have "\<exists>i. live ?t i \<and> in_cube \<sigma> (cube_at ?t i)" if o: "open_sol I s \<sigma>" for \<sigma>
    proof -
      have cov: "covered I s" using inv by (simp add: pool_inv_def)
      then obtain i where i: "live s i" "in_cube \<sigma> (cube_at s i)" using o False by (auto simp: covered_def)
      show ?thesis
      proof (cases "\<exists>i \<in> set (cube_queue s). in_cube \<sigma> (cube_at s i)")
        case True
        then show ?thesis by (auto simp: live_def fields)
      next
        case nq: False
        then have n: "\<not> in_cube \<sigma> (worker_cube s p)" using done' o False by blast
        from nq i have "i \<notin> set (cube_queue s)" by blast
        then obtain k where k: "k \<in> busy s" "cube_of_worker s ! k = int i" using i(1) by (auto simp: live_def)
        with i(2) n have "k \<noteq> p" by auto
        with k have "live ?t i" by (auto simp: live_def b c)
        with i(2) show ?thesis by (auto simp: fields)
      qed
    qed
    then show ?thesis by (simp add: covered_def fields)
  qed
  moreover have "bounds_ok I ?t"
  proof -
    have "cube_of_worker ?t ! k = cube_of_worker s ! k" if "k \<in> busy ?t" for k
      using that unfolding b c by simp
    then show ?thesis using inv unfolding pool_inv_def bounds_ok_def fields by (simp add: b)
  qed
  ultimately show ?thesis by (simp add: pool_inv_def)
qed

text \<open>An idle worker takes the top of the queue.\<close>

lemma assign_fields:
  "cubes (assign_cube pick opt p s) = cubes s"
  "cube_queue (assign_cube pick opt p s) = remove1 (pick (cubes s) (cube_queue s)) (cube_queue s)"
  "cube_of_worker (assign_cube pick opt p s) = (cube_of_worker s)[p := int (pick (cubes s) (cube_queue s))]"
  "lb_of_worker (assign_cube pick opt p s) = (if opt
     then (lb_of_worker s)[p := max (ct_lower_bound (cubes s ! pick (cubes s) (cube_queue s))) (global_lower_bound s)]
     else lb_of_worker s)"
  "active_workers (assign_cube pick opt p s) = active_workers s"
  "unknown_seen (assign_cube pick opt p s) = unknown_seen s" "sat_found (assign_cube pick opt p s) = sat_found s"
  "open_sol I (assign_cube pick opt p s) = open_sol I s"
  "facts_inv I (assign_cube pick opt p s) = facts_inv I s"
  by (simp_all add: assign_cube_def send_work_to_worker_def mpi_send_def Let_def facts_inv_def cost_facts_def)

lemma assign_pool:
  assumes inv: "pool_inv I s" and pk: "pick_max pick" and q: "cube_queue s \<noteq> []"
    and p: "p < num_procs I" "2 \<le> p" "p \<notin> busy s"
  shows "pool_inv I (add_active 1 (assign_cube pick (is_opt I) p s))"
    "busy (add_active 1 (assign_cube pick (is_opt I) p s)) = insert p (busy s)"
proof -
  let ?t = "add_active 1 (assign_cube pick (is_opt I) p s)"
  let ?i = "pick (cubes s) (cube_queue s)"
  have i: "?i \<in> set (cube_queue s)" using pk q by (simp add: pick_max_def)
  have wf: "pool_wf I s" using inv by (simp add: pool_inv_def)
  then have il: "?i < length (cubes s)" and pl: "p < length (cube_of_worker s)" using i p by (auto simp: pool_wf_def)
  have fields: "cubes ?t = cubes s" "cube_queue ?t = remove1 ?i (cube_queue s)"
    "cube_of_worker ?t = (cube_of_worker s)[p := int ?i]" "active_workers ?t = active_workers s + 1"
    "lb_of_worker ?t = (if is_opt I then (lb_of_worker s)[p := max (ct_lower_bound (cubes s ! ?i)) (global_lower_bound s)]
       else lb_of_worker s)"
    "unknown_seen ?t = unknown_seen s" "sat_found ?t = sat_found s" "open_sol I ?t = open_sol I s"
    by (simp_all add: add_active_def assign_fields)
  show b: "busy ?t = insert p (busy s)"
    using pl by (auto simp: busy_def fields nth_list_update)
  have "facts_inv I ?t" using pool_facts(1) [OF inv] by (simp add: assign_fields)
  moreover have "pool_wf I ?t"
    using wf p il set_remove1_subset [of ?i "cube_queue s"] unfolding pool_wf_def fields b
    by (auto simp: nth_list_update)
  moreover have "covered I ?t"
  proof -
    have "live ?t k" if "live s k" for k
    proof (cases "k = ?i")
      case True
      then show ?thesis using pl by (auto simp: live_def b fields)
    next
      case False
      have "k \<in> set (remove1 ?i (cube_queue s))" if "k \<in> set (cube_queue s)"
        using that False by (simp add: in_set_remove1)
      moreover have "cube_of_worker ?t ! j = int k" if "j \<in> busy s" "cube_of_worker s ! j = int k" for j
        using that p(3) unfolding fields by (cases "j = p") auto
      ultimately show ?thesis using that by (auto simp: live_def b fields)
    qed
    then show ?thesis using inv unfolding pool_inv_def covered_def fields by meson
  qed
  moreover have "bounds_ok I ?t"
    unfolding bounds_ok_def fields
  proof (intro impI conjI ballI allI)
    fix k \<sigma> assume o: "is_opt I" "k \<in> busy ?t" "open_sol I s \<sigma> \<and> in_cube \<sigma> (ct_lits (cubes s ! nat ((cube_of_worker s)[p := int ?i] ! k)))"
    have g: "global_lower_bound s \<le> sol_cost I \<sigma>"
      using pool_facts(1) [OF inv] o by (simp add: facts_inv_def cost_facts_def)
    show "(if is_opt I then (lb_of_worker s)[p := max (ct_lower_bound (cubes s ! ?i)) (global_lower_bound s)]
       else lb_of_worker s) ! k \<le> sol_cost I \<sigma>"
    proof (cases "k = p")
      case True
      then have "ct_lower_bound (cubes s ! ?i) \<le> sol_cost I \<sigma>"
        using inv o il pl by (simp add: pool_inv_def bounds_ok_def)
      with g True o(1) p(1) wf show ?thesis by (simp add: pool_wf_def)
    next
      case False
      then show ?thesis using inv o b by (simp add: pool_inv_def bounds_ok_def)
    qed
  qed (use inv in \<open>simp add: pool_inv_def bounds_ok_def\<close>)
  ultimately show "pool_inv I ?t" by (simp add: pool_inv_def)
qed

lemma busy_card: "pool_inv I s \<Longrightarrow> active_workers s \<le> 0 \<Longrightarrow> busy s = {}"
  by (simp add: pool_inv_def pool_wf_def)

lemma assign_released:
  "add_active 1 (assign_cube pick opt p (add_active (-1) (release_worker p s))) = assign_cube pick opt p s"
  by (simp add: assign_cube_def release_worker_def add_active_def send_work_to_worker_def mpi_send_def work_messages_def Let_def)

lemma next_cube_main:
  assumes inv: "main_inv I s" and pk: "pick_max pick" and p: "p \<in> busy s" "p < num_procs I"
    and dn: "\<And>\<sigma>. \<not> unknown_seen s \<Longrightarrow> open_sol I s \<sigma> \<Longrightarrow> \<not> in_cube \<sigma> (worker_cube s p)"
    and n: "next_cube pick (is_opt I) sz p s = (stop, t)"
  shows "main_inv I t" "stop \<Longrightarrow> cube_queue t = [] \<and> busy t = {}"
proof -
  let ?s = "s\<lparr>global_cubes_processed := global_cubes_processed s + 1\<rparr>"
  let ?r = "add_active (-1) (release_worker p ?s)"
  have v: "same_view s ?s" by (simp add: same_view_def)
  have m: "main_inv I ?s" using inv same_view_pool [OF v] by simp
  have r: "pool_inv I ?r"
    by (rule release_pool) (use m p dn in \<open>auto simp: pool_facts\<close>)
  have p2: "2 \<le> p"
  proof -
    have "p \<noteq> 0" "p \<noteq> 1" using p inv by (auto simp: busy_def main_inv_def pool_inv_def pool_wf_def intro!: gr0I)
    then show ?thesis by simp
  qed
  have pl: "p < length (cube_of_worker s)" using p by (simp add: busy_def)
  have br: "busy ?r = busy s - {p}"
    using busy_set [of s p "-1"] pl by (simp add: add_active_def release_worker_def busy_def)
  have "main_inv I t \<and> (stop \<longrightarrow> cube_queue t = [] \<and> busy t = {})"
  proof (cases "cube_queue s = []")
    case False
    then have t: "t = assign_cube pick (is_opt I) p ?s" "\<not> stop" using n by (simp_all add: next_cube_def Let_def)
    have q: "cube_queue ?r \<noteq> []" using False by (simp add: add_active_def release_worker_def)
    have "p \<notin> busy ?r" by (simp add: br)
    from assign_pool [OF r pk q p(2) p2 this] have "pool_inv I t" "busy t = insert p (busy s - {p})"
      unfolding t assign_released by (simp_all add: br)
    moreover have "{2..<num_procs I} \<subseteq> busy s" using inv False by (simp add: main_inv_def)
    ultimately show ?thesis using t(2) p(1) by (auto simp: main_inv_def)
  next
    case True
    then have nn: "(if active_workers ?r = 0 then (True, (send_stop [1..<sz] ?r)\<lparr>stop_sent := True\<rparr>) else (False, ?r)) = (stop, t)"
      using n by (simp add: next_cube_def Let_def)
    have ss: "same_view ?r ((send_stop [1..<sz] ?r)\<lparr>stop_sent := True\<rparr>)"
      by (rule same_view_trans [OF send_stop_same [of ?r "[1..<sz]"]]) (simp add: same_view_def)
    have t: "stop = (active_workers ?r = 0)" "same_view ?r t"
      using nn ss by (cases "active_workers ?r = 0"; force)+
    have q: "cube_queue ?r = []" using True by (simp add: add_active_def release_worker_def)
    have "pool_inv I t" using r same_view_pool(1) [OF t(2)] by simp
    moreover have "cube_queue t = []" using q t(2) by (simp add: same_view_def)
    moreover have "busy t = busy ?r" using same_view_busy [OF t(2)] .
    ultimately show ?thesis using busy_card [OF r] t(1) by (auto simp: main_inv_def)
  qed
  then show "main_inv I t" "stop \<Longrightarrow> cube_queue t = [] \<and> busy t = {}" by auto
qed

section \<open>Splitting\<close>

lemma push_fields [simp]:
  "cubes (push_cube t s) = cubes s @ [t]" "cube_queue (push_cube t s) = cube_queue s @ [length (cubes s)]"
  "cube_of_worker (push_cube t s) = cube_of_worker s" "lb_of_worker (push_cube t s) = lb_of_worker s"
  "active_workers (push_cube t s) = active_workers s" "unknown_seen (push_cube t s) = unknown_seen s"
  "sat_found (push_cube t s) = sat_found s" "open_sol I (push_cube t s) = open_sol I s"
  "busy (push_cube t s) = busy s" "facts_inv I (push_cube t s) = facts_inv I s"
  by (simp_all add: push_cube_def facts_inv_def cost_facts_def)

lemma push_pool:
  assumes inv: "pool_inv I s"
    and lb: "\<And>\<sigma>. is_opt I \<Longrightarrow> open_sol I s \<sigma> \<Longrightarrow> in_cube \<sigma> (ct_lits t) \<Longrightarrow> ct_lower_bound t \<le> sol_cost I \<sigma>"
  shows "pool_inv I (push_cube t s)"
proof -
  let ?t = "push_cube t s"
  note f = push_fields
  have wf: "pool_wf I s" using inv by (simp add: pool_inv_def)
  have at: "worker_cube ?t p = worker_cube s p" if "p \<in> busy s" for p
    using that wf by (simp add: f nth_append pool_wf_def)
  have "facts_inv I ?t" using pool_facts(1) [OF inv] by simp
  moreover have "pool_wf I ?t" using wf unfolding pool_wf_def f by auto
  moreover have "covered I ?t"
  proof -
    have "live ?t i \<and> cube_at ?t i = cube_at s i" if "live s i" for i
    proof -
      have "i < length (cubes s)"
        using that wf by (auto simp: live_def pool_wf_def)
      then show ?thesis using that by (auto simp: live_def f nth_append)
    qed
    then show ?thesis using inv unfolding pool_inv_def covered_def f by metis
  qed
  moreover have "bounds_ok I ?t"
    unfolding bounds_ok_def
  proof (intro impI conjI ballI allI)
    fix i \<sigma> assume "is_opt I" "i < length (cubes ?t)" "open_sol I ?t \<sigma> \<and> in_cube \<sigma> (cube_at ?t i)"
    then show "ct_lower_bound (cubes ?t ! i) \<le> sol_cost I \<sigma>"
      using inv lb by (cases "i < length (cubes s)") (auto simp: f nth_append pool_inv_def bounds_ok_def less_Suc_eq)
  next
    fix p \<sigma> assume "is_opt I" "p \<in> busy ?t" "open_sol I ?t \<sigma> \<and> in_cube \<sigma> (worker_cube ?t p)"
    then show "lb_of_worker ?t ! p \<le> sol_cost I \<sigma>"
      using inv at [of p] unfolding f pool_inv_def bounds_ok_def by simp
  qed
  ultimately show ?thesis by (simp add: pool_inv_def)
qed

lemma push_all_fields:
  "cubes (fold (\<lambda>b. push_cube (T b)) subs s) = cubes s @ map T subs"
  "cube_queue (fold (\<lambda>b. push_cube (T b)) subs s) = cube_queue s @ [length (cubes s)..<length (cubes s) + length subs]"
  "cube_of_worker (fold (\<lambda>b. push_cube (T b)) subs s) = cube_of_worker s"
  "unknown_seen (fold (\<lambda>b. push_cube (T b)) subs s) = unknown_seen s"
  "open_sol I (fold (\<lambda>b. push_cube (T b)) subs s) = open_sol I s"
  "busy (fold (\<lambda>b. push_cube (T b)) subs s) = busy s"
proof (induction subs arbitrary: s)
  case (Cons b subs)
  { case 1 then show ?case by (simp add: Cons.IH(1)) }
  { case 2
    have "[length (cubes s)..<Suc (length (cubes s) + length subs)]
      = length (cubes s) # [Suc (length (cubes s))..<Suc (length (cubes s) + length subs)]"
      by (simp add: upt_rec)
    then show ?case by (simp add: Cons.IH(2)) }
  { case 3 then show ?case by (simp add: Cons.IH(3)) }
  { case 4 then show ?case by (simp add: Cons.IH(4)) }
  { case 5 then show ?case by (simp add: Cons.IH(5)) }
  { case 6 then show ?case by (simp add: Cons.IH(6)) }
qed simp_all

lemma push_all_pool:
  assumes "pool_inv I s"
    "\<And>b \<sigma>. b \<in> set subs \<Longrightarrow> is_opt I \<Longrightarrow> open_sol I s \<sigma> \<Longrightarrow> in_cube \<sigma> (ct_lits (T b)) \<Longrightarrow> ct_lower_bound (T b) \<le> sol_cost I \<sigma>"
  shows "pool_inv I (fold (\<lambda>b. push_cube (T b)) subs s)"
  using assms
proof (induction subs arbitrary: s)
  case (Cons b subs)
  have "pool_inv I (push_cube (T b) s)" by (rule push_pool) (use Cons.prems in auto)
  then have "pool_inv I (fold (\<lambda>b. push_cube (T b)) subs (push_cube (T b) s))"
    by (rule Cons.IH) (use Cons.prems(2) in auto)
  then show ?case by simp
qed simp

lemma push_all_release:
  "fold (\<lambda>b. push_cube (T b)) subs (add_active k (release_worker p s))
   = add_active k (release_worker p (fold (\<lambda>b. push_cube (T b)) subs s))"
proof (induction subs arbitrary: s)
  case (Cons b subs)
  have "push_cube t (add_active k (release_worker p s)) = add_active k (release_worker p (push_cube t s))" for t
    by (simp add: push_cube_def add_active_def release_worker_def)
  with Cons.IH show ?case by simp
qed simp

lemma dispatch_idle_pool:
  assumes "pool_inv I s" "pick_max pick" "\<forall>p \<in> set ps. 2 \<le> p \<and> p < num_procs I"
  shows "pool_inv I (dispatch_idle pick (is_opt I) ps s)"
    "cube_queue (dispatch_idle pick (is_opt I) ps s) \<noteq> [] \<Longrightarrow>
       busy s \<union> set ps \<subseteq> busy (dispatch_idle pick (is_opt I) ps s)"
proof -
  have "pool_inv I (dispatch_idle pick (is_opt I) ps s) \<and> busy s \<subseteq> busy (dispatch_idle pick (is_opt I) ps s)
    \<and> (cube_queue (dispatch_idle pick (is_opt I) ps s) \<noteq> [] \<longrightarrow> set ps \<subseteq> busy (dispatch_idle pick (is_opt I) ps s))"
    using assms
  proof (induction ps arbitrary: s)
    case (Cons p ps)
    have p: "2 \<le> p" "p < num_procs I" using Cons.prems(3) by auto
    have c: "p < length (cube_of_worker s)" "-1 \<le> cube_of_worker s ! p"
      using p Cons.prems(1) by (simp_all add: pool_inv_def pool_wf_def)
    show ?case
    proof (cases "cube_queue s = []")
      case False
      show ?thesis
      proof (cases "cube_of_worker s ! p = -1")
        case True
        then have "p \<notin> busy s" by (simp add: busy_def)
        note A = assign_pool [OF Cons.prems(1,2) False p(2,1) this]
        from Cons.IH [OF A(1) Cons.prems(2)] A(2) Cons.prems(3) True False show ?thesis by auto
      next
        case nm: False
        then have "p \<in> busy s" using c by (simp add: busy_def)
        with Cons.IH [OF Cons.prems(1,2)] Cons.prems(3) nm False show ?thesis by auto
      qed
    qed (use Cons.prems in simp)
  qed simp
  then show "pool_inv I (dispatch_idle pick (is_opt I) ps s)"
    "cube_queue (dispatch_idle pick (is_opt I) ps s) \<noteq> [] \<Longrightarrow>
       busy s \<union> set ps \<subseteq> busy (dispatch_idle pick (is_opt I) ps s)" by auto
qed

lemma recv_from_workers:
  "recv_from p f (add_active k (release_worker w s)) =
     map_option (\<lambda>(x, t). (x, add_active k (release_worker w t))) (recv_from p f s)"
  by (cases "f (inbox s p)") (auto simp: recv_from_def add_active_def release_worker_def)

lemma handle_split_main:
  assumes inv: "main_inv I s" and pk: "pick_max pick" and ok: "honest_cube I p RES_SPLIT x (inbox s p) s"
    and h: "handle_split pick (is_opt I) (num_procs I) p x s = Some t"
  shows "main_inv I t"
proof -
  have p: "p \<in> busy s" "p < num_procs I" using ok by (simp_all add: honest_cube_def)
  obtain cs subs r where q: "of_tag TAG_SPLIT (inbox s p) = send_constraints TAG_SPLIT cs @ (send_cubes TAG_SPLIT subs @ r)"
    "x = int (length subs)" "\<forall>sub \<in> set subs. set (worker_cube s p) \<subseteq> set sub"
    "\<forall>\<sigma>. open_sol I s \<sigma> \<and> in_cube \<sigma> (worker_cube s p) \<longrightarrow> (\<exists>sub \<in> set subs. in_cube \<sigma> sub)"
    using ok by (auto simp: honest_cube_def)
  obtain q1 where q1: "recv_constraints TAG_SPLIT (inbox s p) = Some (cs, q1)" "of_tag TAG_SPLIT q1 = send_cubes TAG_SPLIT subs @ r"
    using recv_constraints_sent [OF q(1)] by auto
  obtain q2 where q2: "recv_cubes TAG_SPLIT (length subs) q1 = Some (subs, q2)"
    using recv_cubes_sent [OF q1(2)] by auto
  have pool: "pool_inv I s" using inv by (simp add: main_inv_def)
  have wf: "pool_wf I s" using pool by (simp add: pool_inv_def)
  have par: "0 \<le> cube_of_worker s ! p" "cube_of_worker s ! p < int (length (cubes s))"
    using p wf by (auto simp: busy_def pool_wf_def)
  let ?T = "subcube_task (cube_depth_of_worker s ! p + 1) (max (lb_of_worker s ! p) (global_lower_bound s))
      (insert_all cs (ct_learned (cubes s ! nat (cube_of_worker s ! p))))"
  let ?s2 = "s\<lparr>inbox := (inbox s)(p := q2)\<rparr>"
  let ?u = "fold (\<lambda>b. push_cube (?T b)) subs ?s2"
  let ?v = "add_active (-1) (release_worker p ?u)"
  let ?w = "?v\<lparr>total_number_cubes := int (length (cubes ?v))\<rparr>"
  have "handle_split pick (is_opt I) (num_procs I) p x s = Some (dispatch_idle pick (is_opt I) [first_cube_worker..<num_procs I]
      ((fold (\<lambda>b. push_cube (?T b)) subs (add_active (-1) (release_worker p ?s2)))
        \<lparr>total_number_cubes := int (length (cubes (fold (\<lambda>b. push_cube (?T b)) subs (add_active (-1) (release_worker p ?s2)))))\<rparr>))"
  proof -
    have r1: "recv_from p (recv_constraints TAG_SPLIT) s = Some (cs, s\<lparr>inbox := (inbox s)(p := q1)\<rparr>)"
      using q1 by (simp add: recv_from_def)
    have r2: "recv_from p (recv_cubes TAG_SPLIT (nat x)) (add_active (-1) (release_worker p (s\<lparr>inbox := (inbox s)(p := q1)\<rparr>)))
        = Some (subs, add_active (-1) (release_worker p ?s2))"
      using q2 q(2) by (simp add: recv_from_workers) (simp add: recv_from_def)
    show ?thesis using par by (simp add: handle_split_def r1 r2 Let_def)
  qed
  then have t: "t = dispatch_idle pick (is_opt I) [first_cube_worker..<num_procs I] ?w"
    using h unfolding push_all_release by simp
  have v2: "same_view s ?s2" by (simp add: same_view_def)
  have s2: "pool_inv I ?s2" using pool same_view_pool(1) [OF v2] by simp
  have u: "pool_inv I ?u"
  proof (rule push_all_pool [OF s2])
    fix b \<sigma> assume b: "b \<in> set subs" "is_opt I" "open_sol I ?s2 \<sigma>" "in_cube \<sigma> (ct_lits (?T b))"
    then have "in_cube \<sigma> (worker_cube s p)" using q(3) by (auto simp: subcube_task_def)
    then have "lb_of_worker s ! p \<le> sol_cost I \<sigma>" "global_lower_bound s \<le> sol_cost I \<sigma>"
      using pool b p by (simp_all add: pool_inv_def bounds_ok_def facts_inv_def cost_facts_def)
    then show "ct_lower_bound (?T b) \<le> sol_cost I \<sigma>" by (simp add: subcube_task_def)
  qed
  have "pool_inv I ?v"
  proof (rule release_pool [OF u])
    show "p \<in> busy ?u" using p by (simp add: push_all_fields)
    fix \<sigma> assume o: "open_sol I ?u \<sigma>" "in_cube \<sigma> (worker_cube ?u p)"
    have "worker_cube ?u p = worker_cube s p" using par by (simp add: push_all_fields nth_append nat_less_iff)
    with o q(4) obtain sub where sub: "sub \<in> set subs" "in_cube \<sigma> sub" by (auto simp: push_all_fields)
    then obtain j where j: "j < length subs" "subs ! j = sub" by (auto simp: in_set_conv_nth)
    have "length (cubes s) + j \<in> set (cube_queue ?u)" using j by (simp add: push_all_fields)
    moreover have "cube_at ?u (length (cubes s) + j) = sub" using j by (simp add: push_all_fields nth_append subcube_task_def)
    ultimately show "\<exists>i \<in> set (cube_queue ?u). in_cube \<sigma> (cube_at ?u i)" using sub(2) by metis
  qed
  moreover have "same_view ?v ?w" by (simp add: same_view_def)
  ultimately have w: "pool_inv I ?w" using same_view_pool(1) by blast
  have ps: "\<forall>p \<in> set [first_cube_worker..<num_procs I]. 2 \<le> p \<and> p < num_procs I" by (simp add: first_cube_worker_def)
  from dispatch_idle_pool [OF w pk ps] show ?thesis
    unfolding t main_inv_def by (auto simp: first_cube_worker_def)
qed

section \<open>Results of cubes\<close>

lemma handle_cube_result_main:
  assumes inv: "main_inv I s" and pk: "pick_max pick" and ok: "honest_cube I p result x (inbox s p) s"
    and mini: "is_opt I \<Longrightarrow> mini" and ns: "\<not> sat_found s"
    and h: "handle_cube_result pick (is_opt I) mini (num_procs I) result p x s = Some (stop, t)"
  shows "main_inv I t" "stop \<Longrightarrow> cube_queue t = [] \<and> busy t = {}"
proof -
  note carry = carries_def [of I s, THEN iffD1, THEN conjunct2, THEN conjunct2, rule_format]
  have p: "p \<in> busy s" "p < num_procs I" using ok by (simp_all add: honest_cube_def)
  have F: "facts_inv I s" using inv by (rule pool_facts)
  have "result \<in> {0, 10, 20, 25, 26, RES_SPLIT}" using ok by (simp add: honest_cube_def)
  then consider (split_first) "result = 25" | (announce) "result = 26" | (split) "result = RES_SPLIT"
    | (sat) "result = 10" "\<not> is_opt I" | (best) "result = 10" "is_opt I" | (unsat) "result = 20" | (unknown) "result = 0"
    by blast
  then have "main_inv I t \<and> (stop \<longrightarrow> cube_queue t = [] \<and> busy t = {})"
  proof cases
    case split_first
    then have "map_option (\<lambda>s. (False, mpi_send p [(TAG_RESULT, [global_best_cost s])] s)) (take_incumbent mini p x s) = Some (stop, t)"
      unfolding h [symmetric] by (simp add: handle_cube_result_def)
    then obtain u where u: "take_incumbent mini p x s = Some u" "\<not> stop"
      "t = mpi_send p [(TAG_RESULT, [global_best_cost u])] u"
      by (auto simp only: map_option_eq_Some prod.inject)
    have "honest_cost I x" using ok split_first by (simp add: honest_cube_def)
    then have "main_inv I u" by (intro carry [OF carries_take [OF u(1) ns _ mini] inv])
    then show ?thesis using u(2,3) same_view_pool(2) [OF mpi_send_same] by simp
  next
    case announce
    then have "stop = False" "t = announce_cost mini x s" using h by (simp_all add: handle_cube_result_def)
    moreover have "honest_cost I x" using ok announce by (simp add: honest_cube_def)
    ultimately show ?thesis using carry [OF carries_announce [OF _ mini] inv] by simp
  next
    case split
    then have "map_option (Pair False) (handle_split pick (is_opt I) (num_procs I) p x s) = Some (stop, t)"
      unfolding h [symmetric] by (simp add: handle_cube_result_def RES_SPLIT_def)
    then have "\<not> stop" "handle_split pick (is_opt I) (num_procs I) p x s = Some t"
      by (auto simp only: map_option_eq_Some prod.inject)
    then show ?thesis using handle_split_main [OF inv pk] ok split by simp
  next
    case sat
    have "solution_follows I (inbox (s\<lparr>sat_found := True\<rparr>) p)" using ok sat by (simp add: honest_cube_def)
    from recv_solution_follows [OF this] obtain sol q where
      r: "recv_from p recv_solution (s\<lparr>sat_found := True\<rparr>) = Some (sol, (s\<lparr>sat_found := True\<rparr>)\<lparr>inbox := (inbox s)(p := q)\<rparr>)"
      "base_sol I (solution_assignment sol)" by auto
    let ?u = "s\<lparr>sat_found := True, global_best_solution := sol\<rparr>"
    let ?x = "s\<lparr>sat_found := True, inbox := (inbox s)(p := q), global_best_solution := sol\<rparr>"
    have "Some (stop, t) = Some (False, send_stop (filter (\<lambda>k. k \<noteq> p) [1..<num_procs I]) ?x)"
      unfolding h [symmetric] using sat r by (simp add: handle_cube_result_def RES_SPLIT_def)
    then have t: "\<not> stop" "t = send_stop (filter (\<lambda>k. k \<noteq> p) [1..<num_procs I]) ?x" by auto
    have "main_inv I ?u" by (rule carry [OF carries_sat [OF sat(2) r(2)] inv])
    moreover have "same_view ?u ?x" by (simp add: same_view_def)
    then have "same_view ?u t" unfolding t(2) by (rule same_view_trans) (rule send_stop_same)
    ultimately show ?thesis using same_view_pool(2) t(1) by blast
  next
    case best
    then obtain u where u: "take_incumbent mini p x s = Some u" "next_cube pick (is_opt I) (num_procs I) p u = (stop, t)"
      using h by (auto simp: handle_cube_result_def RES_SPLIT_def bind_eq_Some_conv)
    have c: "honest_cost I x" "\<forall>\<sigma>. open_sol I s \<sigma> \<and> in_cube \<sigma> (worker_cube s p) \<longrightarrow> x \<le> sol_cost I \<sigma>"
      using ok best by (simp_all add: honest_cube_def)
    have u': "main_inv I u" by (rule carry [OF carries_take [OF u(1) ns c(1) mini] inv])
    note B = take_incumbent_best [OF u(1) ns F c(1) best(2) mini [OF best(2)]]
    have v: "same_view (improve (new_best mini x s) s) u" by (rule take_incumbent_improve [OF u(1) ns])
    then have cu: "worker_cube u p = worker_cube s p" "busy u = busy s"
      using same_view_busy [OF v] by (simp_all add: same_view_def)
    have dn: "\<not> in_cube \<sigma> (worker_cube u p)" if o: "open_sol I u \<sigma>" for \<sigma>
    proof
      assume "in_cube \<sigma> (worker_cube u p)"
      then have "x \<le> sol_cost I \<sigma>" using c(2) B(3) [OF o] cu(1) by simp
      moreover have "sol_cost I \<sigma> < global_best_cost u" using o B(1) best(2) by (simp add: open_sol_def)
      ultimately show False using B(2) by linarith
    qed
    show ?thesis using next_cube_main [OF u' pk _ p(2) dn u(2)] p(1) cu(2) by simp
  next
    case unsat
    then have n: "next_cube pick (is_opt I) (num_procs I) p s = (stop, t)"
      using h by (simp add: handle_cube_result_def RES_SPLIT_def)
    have "\<not> in_cube \<sigma> (worker_cube s p)" if "open_sol I s \<sigma>" for \<sigma>
      using ok unsat that by (simp add: honest_cube_def)
    then show ?thesis using next_cube_main [OF inv pk p _ n] by simp
  next
    case unknown
    then have n: "next_cube pick (is_opt I) (num_procs I) p (s\<lparr>unknown_seen := True\<rparr>) = (stop, t)"
      using h by (simp add: handle_cube_result_def RES_SPLIT_def)
    have "main_inv I (s\<lparr>unknown_seen := True\<rparr>)" by (rule carry [OF carries_unknown inv])
    from next_cube_main [OF this pk _ p(2) _ n] p(1) show ?thesis by simp
  qed
  then show "main_inv I t" "stop \<Longrightarrow> cube_queue t = [] \<and> busy t = {}" by auto
qed

lemma recv_head: "inbox s p = (tag, d) # q \<Longrightarrow> recv_from p (mpi_recv tag n) s =
    (if length d = n then Some (d, s\<lparr>inbox := (inbox s)(p := q)\<rparr>) else None)"
  by (simp add: recv_from_def)

lemma honest_inbox [simp]:
  "honest_original I r x q (s\<lparr>inbox := y\<rparr>) = honest_original I r x q s"
  "honest_cube I p r x q (s\<lparr>inbox := y\<rparr>) = honest_cube I p r x q s"
  by (simp_all add: honest_original_def honest_cube_def)

text \<open>One iteration of the main loop keeps the invariant.\<close>

lemma main_step_main:
  assumes inv: "main_inv I s" and pk: "pick_max pick" and ok: "honest I p s"
    and mini: "is_opt I \<Longrightarrow> mini" and lc: "loop_condition s"
    and h: "main_step pick (is_opt I) mini (num_procs I) p s = Some (stop, t)"
  shows "main_inv I t" "stop \<Longrightarrow> cube_queue t = [] \<and> busy t = {}"
proof -
  obtain tag d q where i: "inbox s p = (tag, d) # q"
    using h by (auto simp: main_step_def split: list.splits)
  have ns: "\<not> sat_found s" using lc by (simp add: loop_condition_def)
  have "main_inv I t \<and> (stop \<longrightarrow> cube_queue t = [] \<and> busy t = {})"
  proof (cases "tag = TAG_RESULT")
    case False
    then have body: "(if tag = TAG_BEST_REQUEST then map_option (Pair False) (handle_best_request p s)
        else if tag = TAG_BOUNDS then map_option (Pair False) (handle_bounds_report mini p s)
        else if tag = TAG_LEARNED_UPDATE then map_option (Pair False) (handle_learned_update p s)
        else Some (False, s)) = Some (stop, t)"
      unfolding h [symmetric] using i by (simp add: main_step_def)
    consider (req) "tag = TAG_BEST_REQUEST" "handle_best_request p s = Some t" "\<not> stop"
      | (bnd) "tag = TAG_BOUNDS" "handle_bounds_report mini p s = Some t" "\<not> stop"
      | (lrn) "tag = TAG_LEARNED_UPDATE" "handle_learned_update p s = Some t" "\<not> stop"
      | (oth) "t = s" "\<not> stop"
      using if_chain [OF body] by (auto simp only: map_option_eq_Some option.inject prod.inject)
    then show ?thesis
    proof cases
      case req
      then show ?thesis using inv same_view_pool(2) [OF handle_best_request_same [OF req(2)]] by simp
    next
      case bnd
      have "honest_bounds I p (d ! 0) (d ! 1) s" using ok i bnd(1) by (simp add: honest_def)
      then show ?thesis using handle_bounds_report_inv(3) [OF bnd(2) i [unfolded bnd(1)] _ mini inv] bnd(3) by simp
    next
      case lrn
      then show ?thesis using inv same_view_pool(2) [OF handle_learned_update_same [OF lrn(2)]] by simp
    next
      case oth
      then show ?thesis using inv by simp
    qed
  next
    case True
    let ?s = "s\<lparr>inbox := (inbox s)(p := q)\<rparr>"
    have d: "length d = 3" using h i True by (auto simp: main_step_def recv_head tag_defs split: if_splits)
    have w: "d ! 1 = int p" using ok i True by (simp add: honest_def)
    have v: "same_view s ?s" by (simp add: same_view_def)
    have inv': "main_inv I ?s" using inv same_view_pool(2) [OF v] by simp
    have h': "(if p = original_worker
       then map_option (Pair False) (handle_original_result (is_opt I) mini (d ! 0) p (d ! 2) ?s)
       else handle_cube_result pick (is_opt I) mini (num_procs I) (d ! 0) p (d ! 2) ?s) = Some (stop, t)"
      unfolding h [symmetric] using i True d w by (simp add: main_step_def recv_head tag_defs Let_def)
    show ?thesis
    proof (cases "p = original_worker")
      case po: True
      then have "\<not> stop" "handle_original_result (is_opt I) mini (d ! 0) p (d ! 2) ?s = Some t" using h' by auto
      moreover have "honest_original I (d ! 0) (d ! 2) (inbox ?s p) ?s" using ok i True po by (simp add: honest_def)
      ultimately show ?thesis using handle_original_result_carries [OF _ _ mini] inv' by (auto simp: carries_def)
    next
      case po: False
      have "honest_cube I p (d ! 0) (d ! 2) (inbox ?s p) ?s" using ok i True po by (simp add: honest_def)
      from handle_cube_result_main [OF inv' pk this mini] h' po ns show ?thesis by simp
    qed
  qed
  then show "main_inv I t" "stop \<Longrightarrow> cube_queue t = [] \<and> busy t = {}" by auto
qed

end
