(* ===== verification/MasterRun.thy ===== *)
theory MasterRun
  imports MasterInv
begin

text \<open>
  Runs of the master (\<open>run_master\<close> of \<open>src/src/cubePB.cpp\<close>): the phase that collects the initial
  cubes, the main loop as a state machine with its reachable states, and the soundness of the
  printed result. Messages arrive in any order between two steps; a step is taken on a truthful
  message.
\<close>

section \<open>Reachable states of the main loop\<close>

inductive main_reach ::
    "(cube_task list \<Rightarrow> nat list \<Rightarrow> nat) \<Rightarrow> bool \<Rightarrow> instance_data \<Rightarrow> master \<Rightarrow> bool \<Rightarrow> master \<Rightarrow> bool"
  for pick mini I s0 where
  start: "main_reach pick mini I s0 False s0"
| arrive: "main_reach pick mini I s0 False s \<Longrightarrow> main_reach pick mini I s0 False (deliver p m s)"
| handle: "main_reach pick mini I s0 False s \<Longrightarrow> loop_condition s \<Longrightarrow> honest I p s \<Longrightarrow>
    main_step pick (is_opt I) mini (num_procs I) p s = Some (stop, s') \<Longrightarrow> main_reach pick mini I s0 stop s'"

lemma deliver_same [simp]: "same_view s (deliver p m s)"
  by (simp add: deliver_def same_view_def)

lemma main_reach_inv:
  assumes "main_reach pick mini I s0 stop s" "main_inv I s0" "pick_max pick" "is_opt I \<Longrightarrow> mini"
  shows "main_inv I s \<and> (stop \<longrightarrow> cube_queue s = [] \<and> busy s = {})"
  using assms
proof (induction rule: main_reach.induct)
  case (arrive s p m)
  then show ?case using same_view_pool(2) [OF deliver_same] by simp
next
  case (handle s p stop s')
  then have "main_inv I s" by simp
  from main_step_main [OF this handle.prems(2) handle.hyps(3) handle.prems(3) handle.hyps(2) handle.hyps(4)]
  show ?case by simp
qed simp

text \<open>
  C2: In every state the main loop can reach, whatever the order of the messages, no better
  solution is lost: unless some cube was left undecided or a solution was found, every solution
  that beats the incumbent lies in a cube that waits in the queue or is being solved by a worker.
\<close>

theorem no_solution_lost:
  assumes "main_reach pick mini I s0 stop s" "main_inv I s0" "pick_max pick" "is_opt I \<Longrightarrow> mini"
    "\<not> unknown_seen s" "\<not> sat_found s" "open_sol I s \<sigma>"
  shows "\<exists>i < length (cubes s). in_cube \<sigma> (cube_at s i)
    \<and> (i \<in> set (cube_queue s) \<or> (\<exists>p \<in> {2..<num_procs I}. cube_of_worker s ! p = int i))"
proof -
  have inv: "main_inv I s" using main_reach_inv [OF assms(1-4)] by simp
  then obtain i where i: "live s i" "in_cube \<sigma> (cube_at s i)"
    using assms(5-7) by (auto simp: main_inv_def pool_inv_def covered_def)
  have wf: "pool_wf I s" using inv by (simp add: main_inv_def pool_inv_def)
  have "p \<in> {2..<num_procs I}" if "p \<in> busy s" for p
  proof -
    have "p \<noteq> 0" "p \<noteq> 1" using that wf by (auto simp: busy_def pool_wf_def intro!: gr0I)
    then show ?thesis using that wf by (simp add: busy_def pool_wf_def)
  qed
  moreover have "i < length (cubes s)" using i(1) wf by (auto simp: live_def pool_wf_def)
  ultimately show ?thesis using i by (auto simp: live_def)
qed

section \<open>The result after the main loop\<close>

definition result_sound :: "instance_data \<Rightarrow> global_result \<Rightarrow> bool" where
  "result_sound I r = (case r of
      Result_SAT \<Rightarrow> \<exists>\<sigma>. base_sol I \<sigma>
    | Result_UNSAT \<Rightarrow> \<forall>\<sigma>. \<not> base_sol I \<sigma>
    | Result_UNKNOWN \<Rightarrow> True
    | Result_OPTIMUM c \<Rightarrow> attained I c \<and> (\<forall>\<sigma>. base_sol I \<sigma> \<longrightarrow> c \<le> sol_cost I \<sigma>)
    | Result_BEST_KNOWN c \<Rightarrow> attained I c)"

lemma final_no_open:
  assumes inv: "main_inv I s" and ex: "stop \<longrightarrow> cube_queue s = [] \<and> busy s = {}" "stop \<or> \<not> loop_condition s"
    and u: "\<not> unknown_seen s" "\<not> sat_found s"
  shows "\<not> open_sol I s \<sigma>"
proof
  assume o: "open_sol I s \<sigma>"
  have F: "facts_inv I s" using inv by (rule pool_facts)
  have "cube_queue s = [] \<and> busy s = {}"
  proof (cases stop)
    case False
    then consider "original_proved_unsat s" | "original_proved_optimum s" | "active_workers s \<le> 0"
      using ex(2) u by (auto simp: loop_condition_def)
    then show ?thesis
    proof cases
      case 1
      then show ?thesis using F o by (simp add: facts_inv_def open_sol_def)
    next
      case 2
      then show ?thesis using F o by (simp add: facts_inv_def)
    next
      case 3
      then have b: "busy s = {}" using busy_card [of I s] inv by (simp add: main_inv_def)
      have "2 < num_procs I" using inv by (simp add: main_inv_def pool_inv_def pool_wf_def)
      then have "\<not> {2..<num_procs I} \<subseteq> busy s" unfolding b by auto
      then show ?thesis using inv b by (auto simp: main_inv_def)
    qed
  qed (use ex(1) in simp)
  then have "\<not> live s i" for i by (simp add: live_def)
  then show False using inv o u by (simp add: main_inv_def pool_inv_def covered_def)
qed

lemma final_result_sound:
  assumes inv: "main_inv I s" and ex: "stop \<longrightarrow> cube_queue s = [] \<and> busy s = {}" "stop \<or> \<not> loop_condition s"
    and r: "final_result (is_opt I) s = Some r"
  shows "result_sound I r"
proof -
  have F: "facts_inv I s" using inv by (rule pool_facts)
  note no = final_no_open [OF inv ex]
  show ?thesis
  proof (cases "is_opt I")
    case False
    then show ?thesis
      using r no by (auto simp: final_result_def result_sound_def open_sol_def split: if_splits)
  next
    case True
    then have ns: "\<not> sat_found s" and c: "cost_facts I s" using F by (auto simp: facts_inv_def)
    have "open_sol I s \<sigma> \<longleftrightarrow> base_sol I \<sigma> \<and> (global_has_best_cost s \<longrightarrow> sol_cost I \<sigma> < global_best_cost s)" for \<sigma>
      by (simp add: open_sol_def True)
    with no ns have "\<not> unknown_seen s \<Longrightarrow> base_sol I \<sigma> \<Longrightarrow> global_has_best_cost s \<and> global_best_cost s \<le> sol_cost I \<sigma>" for \<sigma>
      using linorder_not_less by blast
    then show ?thesis
      using r c True by (auto simp: final_result_def result_sound_def cost_facts_def split: if_splits)
  qed
qed

section \<open>Collecting the initial cubes\<close>

text \<open>What every cube worker reports at the start: its status and the cubes it generated.\<close>

record init_data =
  init_cubes :: "nat \<Rightarrow> lit list list"
  init_status :: "nat \<Rightarrow> int"

definition honest_init :: "instance_data \<Rightarrow> init_data \<Rightarrow> nat \<Rightarrow> master \<Rightarrow> bool" where
  "honest_init I G p s \<longleftrightarrow> (case inbox s p of
      [] \<Rightarrow> True
    | (tag, d) # q \<Rightarrow>
        (tag = TAG_BOUNDS \<longrightarrow> honest_bounds I p (d ! 0) (d ! 1) s)
        \<and> (tag = TAG_RESULT \<longrightarrow> p = original_worker \<and> d ! 1 = int p \<and> honest_original I (d ! 0) (d ! 2) q s)
        \<and> (tag \<in> {TAG_BOUNDS, TAG_RESULT, TAG_BEST_REQUEST, TAG_LEARNED_UPDATE}
           \<or> tag = TAG_INIT_RESULT \<and> 2 \<le> p \<and> p < num_procs I
             \<and> d = [init_status G p, int (length (init_cubes G p))]
             \<and> (\<exists>r. of_tag TAG_INIT_CUBE q = send_cubes TAG_INIT_CUBE (init_cubes G p) @ r)))"

text \<open>\<open>R\<close> is the set of workers that have reported; each reports once.\<close>

inductive init_reach :: "bool \<Rightarrow> instance_data \<Rightarrow> init_data \<Rightarrow> nat set \<Rightarrow> master \<Rightarrow> bool"
  for mini I G where
  start: "init_reach mini I G {} (new_master (num_procs I) (max 0 (int (num_procs I) - int first_cube_worker)) mini)"
| arrive: "init_reach mini I G R s \<Longrightarrow> init_reach mini I G R (deliver p m s)"
| report: "init_reach mini I G R s \<Longrightarrow> pending_init_workers s > 0 \<Longrightarrow> honest_init I G p s \<Longrightarrow>
    inbox s p = (TAG_INIT_RESULT, d) # q \<Longrightarrow> p \<notin> R \<Longrightarrow> init_step (is_opt I) mini p s = Some s' \<Longrightarrow>
    init_reach mini I G (insert p R) s'"
| other: "init_reach mini I G R s \<Longrightarrow> pending_init_workers s > 0 \<Longrightarrow> honest_init I G p s \<Longrightarrow>
    inbox s p = (tag, d) # q \<Longrightarrow> tag \<noteq> TAG_INIT_RESULT \<Longrightarrow> init_step (is_opt I) mini p s = Some s' \<Longrightarrow>
    init_reach mini I G R s'"

definition init_inv :: "instance_data \<Rightarrow> init_data \<Rightarrow> nat set \<Rightarrow> master \<Rightarrow> bool" where
  "init_inv I G R s \<longleftrightarrow> facts_inv I s \<and> R \<subseteq> {2..<num_procs I}
     \<and> pending_init_workers s = int (num_procs I - 2) - int (card R)
     \<and> ct_lits ` set (cubes s) = (\<Union>p \<in> R. set (init_cubes G p))
     \<and> (\<forall>t \<in> set (cubes s). ct_lower_bound t = INT_MIN)
     \<and> sat_found_during_generation s = (\<exists>p \<in> R. init_status G p = 10)
     \<and> length (lb_of_worker s) = num_procs I"

definition same_init :: "master \<Rightarrow> master \<Rightarrow> bool" where
  "same_init s t \<longleftrightarrow> pending_init_workers t = pending_init_workers s \<and> cubes t = cubes s
     \<and> sat_found_during_generation t = sat_found_during_generation s
     \<and> length (lb_of_worker t) = length (lb_of_worker s)"

lemma same_init_trans: "same_init s t \<Longrightarrow> same_init t u \<Longrightarrow> same_init s u"
  by (simp add: same_init_def)

lemma init_inv_same: "init_inv I G R s \<Longrightarrow> facts_inv I t \<Longrightarrow> same_init s t \<Longrightarrow> init_inv I G R t"
  by (simp add: init_inv_def same_init_def)

lemma recv_from_init: "recv_from p f s = Some (x, t) \<Longrightarrow> same_init s t"
  by (auto simp: recv_from_def same_init_def)

lemma announce_same_init: "same_init s (announce_cost mini x s)"
  by (simp add: announce_cost_improve same_init_def)

lemma bestSolution_same_init: "same_init s (snd (bestSolution mini x s))"
  by (simp add: bestSolution_best same_init_def)

lemma take_incumbent_same_init:
  assumes "take_incumbent mini w x s = Some t" shows "same_init s t"
proof -
  let ?s1 = "improve (new_best mini x s) s"
  have "take_incumbent mini w x s = do {
      (sol, s3) \<leftarrow> recv_from w recv_solution ?s1;
      Some (if fst (bestSolution mini x (s\<lparr>feasible_seen := True\<rparr>)) \<or> global_best_solution s3 = []
            then s3\<lparr>global_best_solution := sol\<rparr> else s3) }"
    by (simp add: take_incumbent_def improve_def new_best_def bestSolution_def Let_def)
  with assms obtain sol u where u: "recv_from w recv_solution ?s1 = Some (sol, u)"
    "t = u \<or> t = u\<lparr>global_best_solution := sol\<rparr>"
    by (auto simp: bind_eq_Some_conv split: if_splits)
  have "same_init s ?s1" by (simp add: same_init_def improve_def)
  moreover note recv_from_init [OF u(1)]
  moreover have "same_init u t" using u(2) by (elim disjE) (simp_all add: same_init_def)
  ultimately show ?thesis by (metis same_init_trans)
qed

lemma handle_original_result_same_init:
  assumes h: "handle_original_result opt mini r w x s = Some t"
  shows "same_init s t"
proof -
  let ?s = "s\<lparr>original_worker_active := False\<rparr>"
  consider "r = 26" | "r \<noteq> 26" "\<not> opt" | "r \<noteq> 26" "opt" by blast
  then show ?thesis
  proof cases
    case 1
    then have "t = announce_cost mini x s" using h by (simp add: handle_original_result_def)
    then show ?thesis by (simp only: announce_same_init)
  next
    case 2
    have "(if r = 10 then do { (sol, s) \<leftarrow> recv_from w recv_solution (?s\<lparr>sat_found := True\<rparr>); Some (s\<lparr>global_best_solution := sol\<rparr>) }
        else if r = 20 then Some (?s\<lparr>original_proved_unsat := True\<rparr>)
        else if False then None else Some (?s\<lparr>unknown_seen := True\<rparr>)) = Some t"
      unfolding h [symmetric] using 2 by (simp add: handle_original_result_def)
    from if_chain [OF this] consider
        sol u where "recv_from w recv_solution (?s\<lparr>sat_found := True\<rparr>) = Some (sol, u)" "t = u\<lparr>global_best_solution := sol\<rparr>"
      | "t = ?s\<lparr>original_proved_unsat := True\<rparr>" | "t = ?s\<lparr>unknown_seen := True\<rparr>"
      by (force simp: bind_eq_Some_conv)
    then show ?thesis
    proof cases
      case 1
      from recv_from_init [OF 1(1)] have "same_init s u" by (simp add: same_init_def)
      then show ?thesis by (simp add: 1(2) same_init_def)
    qed (simp_all add: same_init_def)
  next
    case 3
    have "(if r = 10 then map_option (\<lambda>s. s\<lparr>original_proved_optimum := True\<rparr>) (take_incumbent mini w x ?s)
        else if r = 15 then take_incumbent mini w x ?s
        else if r = 20
        then Some (if feasible_seen s then ?s\<lparr>original_proved_optimum := True\<rparr> else ?s\<lparr>original_proved_unsat := True\<rparr>)
        else Some (?s\<lparr>unknown_seen := True\<rparr>)) = Some t"
      unfolding h [symmetric] using 3 by (simp add: handle_original_result_def)
    from if_chain [OF this] consider
        u where "take_incumbent mini w x ?s = Some u" "t = u\<lparr>original_proved_optimum := True\<rparr>"
      | "take_incumbent mini w x ?s = Some t"
      | "t = (if feasible_seen s then ?s\<lparr>original_proved_optimum := True\<rparr> else ?s\<lparr>original_proved_unsat := True\<rparr>)"
      | "t = ?s\<lparr>unknown_seen := True\<rparr>"
      by (auto simp only: map_option_eq_Some option.inject)
    then show ?thesis
    proof cases
      case 1
      from take_incumbent_same_init [OF 1(1)] have "same_init s u" by (simp add: same_init_def)
      then show ?thesis by (simp add: 1(2) same_init_def)
    next
      case 2
      from take_incumbent_same_init [OF 2] show ?thesis by (simp add: same_init_def)
    qed (simp_all add: same_init_def)
  qed
qed

lemma handle_bounds_report_same_init:
  assumes "handle_bounds_report mini p s = Some t" shows "same_init s t"
proof -
  obtain LB UB q where "t = (let t = record_bounds p LB UB (s\<lparr>inbox := (inbox s)(p := q)\<rparr>)
           in if UB < INT_MAX then improve (if global_has_best_cost t then new_best mini UB t else UB) t else t)"
    using handle_bounds_report_cases [OF assms] by metis
  moreover have "same_init s (record_bounds p LB UB (s\<lparr>inbox := (inbox s)(p := q)\<rparr>))" by (simp add: same_init_def)
  moreover have "same_init v (improve b v)" for b v by (simp add: same_init_def improve_def)
  ultimately show ?thesis by (simp add: Let_def same_init_def split: if_splits)
qed

lemma handle_best_request_same_init: "handle_best_request p s = Some t \<Longrightarrow> same_init s t"
  unfolding handle_best_request_def
  by (auto simp: bind_eq_Some_conv Let_def dest!: recv_from_init) (simp_all add: same_init_def mpi_send_def)

lemma handle_learned_update_same_init: "handle_learned_update p s = Some t \<Longrightarrow> same_init s t"
  unfolding handle_learned_update_def
  by (auto simp: bind_eq_Some_conv dest!: recv_from_init) (simp add: same_init_def)

text \<open>Messages other than the report of a worker keep the invariant of the collecting phase.\<close>

lemma init_step_other:
  assumes inv: "init_inv I G R s" and ok: "honest_init I G p s" and i: "inbox s p = (tag, d) # q"
    and t: "tag \<noteq> TAG_INIT_RESULT" and mini: "is_opt I \<Longrightarrow> mini" and h: "init_step (is_opt I) mini p s = Some s'"
  shows "init_inv I G R s'"
proof -
  have F: "facts_inv I s" using inv by (simp add: init_inv_def)
  have "tag \<in> {TAG_BEST_REQUEST, TAG_BOUNDS, TAG_LEARNED_UPDATE, TAG_RESULT}" using ok i t by (auto simp: honest_init_def)
  then consider (req) "tag = TAG_BEST_REQUEST" | (bnd) "tag = TAG_BOUNDS" | (lrn) "tag = TAG_LEARNED_UPDATE" | (res) "tag = TAG_RESULT"
    by blast
  then have "facts_inv I s' \<and> same_init s s'"
  proof cases
    case req
    then have "handle_best_request p s = Some s'" using h i by (simp add: init_step_def)
    then show ?thesis using handle_best_request_same_init same_view_facts [OF handle_best_request_same] F by blast
  next
    case bnd
    then have "handle_bounds_report mini p s = Some s'" using h i by (simp add: init_step_def tag_defs)
    moreover have "honest_bounds I p (d ! 0) (d ! 1) s" using ok i bnd by (simp add: honest_init_def)
    ultimately show ?thesis
      using handle_bounds_report_same_init handle_bounds_report_inv(1) [OF _ i [unfolded bnd] _ mini F] by blast
  next
    case lrn
    then have "handle_learned_update p s = Some s'" using h i by (simp add: init_step_def tag_defs)
    then show ?thesis using handle_learned_update_same_init same_view_facts [OF handle_learned_update_same] F by blast
  next
    case res
    let ?s = "s\<lparr>inbox := (inbox s)(p := q)\<rparr>"
    have w: "p = original_worker" "d ! 1 = int p" "honest_original I (d ! 0) (d ! 2) q s"
      using ok i res by (simp_all add: honest_init_def tag_defs)
    have d: "length d = 3" using h i res by (auto simp: init_step_def recv_head tag_defs split: if_splits)
    have h': "handle_original_result (is_opt I) mini (d ! 0) p (d ! 2) ?s = Some s'"
      unfolding h [symmetric] using i res d w by (simp add: init_step_def recv_head tag_defs Let_def)
    have "honest_original I (d ! 0) (d ! 2) (inbox ?s p) ?s" using w by simp
    from handle_original_result_carries [OF h' this mini] have "facts_inv I s'"
      using F same_view_facts [of s ?s] by (simp add: carries_def same_view_def)
    moreover have "same_init s ?s" by (simp add: same_init_def)
    ultimately show ?thesis using same_init_trans handle_original_result_same_init [OF h'] by blast
  qed
  then show ?thesis using init_inv_same [OF inv] by blast
qed

lemma init_step_report:
  assumes inv: "init_inv I G R s" and ok: "honest_init I G p s" and i: "inbox s p = (TAG_INIT_RESULT, d) # q"
    and new: "p \<notin> R" and h: "init_step (is_opt I) mini p s = Some s'"
  shows "init_inv I G (insert p R) s'"
proof -
  have w: "2 \<le> p" "p < num_procs I" "d = [init_status G p, int (length (init_cubes G p))]"
    using ok i by (simp_all add: honest_init_def tag_defs)
  obtain r where r: "of_tag TAG_INIT_CUBE q = send_cubes TAG_INIT_CUBE (init_cubes G p) @ r"
    using ok i by (auto simp: honest_init_def tag_defs)
  obtain q1 where q1: "recv_cubes TAG_INIT_CUBE (length (init_cubes G p)) q = Some (init_cubes G p, q1)"
    using recv_cubes_sent [OF r] by auto
  have "handle_init_result p s = Some s'" using h i by (simp add: init_step_def tag_defs)
  then have s': "s' = (if init_status G p = 10
       then s\<lparr>pending_init_workers := pending_init_workers s - 1, sat_found_during_generation := True, inbox := (inbox s)(p := q1),
              cubes := cubes s @ map initial_task (init_cubes G p)\<rparr>
       else s\<lparr>pending_init_workers := pending_init_workers s - 1, inbox := (inbox s)(p := q1),
              cubes := cubes s @ map initial_task (init_cubes G p)\<rparr>)"
    using w(3) q1 by (cases "init_status G p = 10") (simp_all add: handle_init_result_def recv_head [OF i] Let_def, simp_all add: recv_from_def)
  have F: "facts_inv I s" using inv by (simp add: init_inv_def)
  have "same_view (s\<lparr>cubes := cubes s'\<rparr>) s'" unfolding s' by (simp add: same_view_def)
  moreover have "facts_inv I (s\<lparr>cubes := cubes s'\<rparr>) = facts_inv I s" by (simp add: facts_inv_def cost_facts_def)
  ultimately have "facts_inv I s'" using F by (simp add: same_view_facts)
  moreover have "finite R" using inv finite_subset by (auto simp: init_inv_def)
  moreover have "ct_lits ` set (map initial_task (init_cubes G p)) = set (init_cubes G p)"
    by (simp add: initial_task_def image_image)
  moreover have "\<forall>t \<in> set (map initial_task (init_cubes G p)). ct_lower_bound t = INT_MIN" by (auto simp: initial_task_def)
  ultimately show ?thesis
    using inv w(1,2) new by (auto simp: init_inv_def s' image_Un)
qed

lemma init_start:
  assumes "\<And>\<sigma>. is_opt I \<Longrightarrow> INT_MIN \<le> sol_cost I \<sigma>" "is_opt I \<Longrightarrow> mini" "2 \<le> num_procs I"
  shows "init_inv I G {} (new_master (num_procs I) (max 0 (int (num_procs I) - int first_cube_worker)) mini)"
  using assms by (auto simp: init_inv_def new_master_def facts_inv_def cost_facts_def first_cube_worker_def)

lemma init_reach_inv:
  assumes "init_reach mini I G R s"
    "\<And>\<sigma>. is_opt I \<Longrightarrow> INT_MIN \<le> sol_cost I \<sigma>" "is_opt I \<Longrightarrow> mini" "2 \<le> num_procs I"
  shows "init_inv I G R s"
  using assms
proof (induction rule: init_reach.induct)
  case start
  then show ?case by (intro init_start)
next
  case (arrive R s p m)
  then have "init_inv I G R s" by simp
  moreover have "same_init s (deliver p m s)" by (simp add: deliver_def same_init_def)
  ultimately show ?case using init_inv_same same_view_facts [OF deliver_same] by (metis init_inv_def)
next
  case (report R s p d q s')
  then show ?case using init_step_report by blast
next
  case (other R s p tag d q s')
  then show ?case using init_step_other by blast
qed

section \<open>The first distribution\<close>

lemma dispatch_initial_pool:
  assumes "pool_inv I s" "pick_max pick" "distinct ps" "\<forall>p \<in> set ps. 2 \<le> p \<and> p < num_procs I \<and> cube_of_worker s ! p = -1"
  shows "pool_inv I (dispatch_initial pick (is_opt I) ps s)
    \<and> (cube_queue (dispatch_initial pick (is_opt I) ps s) \<noteq> [] \<longrightarrow> busy s \<union> set ps \<subseteq> busy (dispatch_initial pick (is_opt I) ps s))
    \<and> (cube_queue s = [] \<longrightarrow> cube_queue (dispatch_initial pick (is_opt I) ps s) = [])"
  using assms
proof (induction ps arbitrary: s)
  case (Cons p ps)
  have p: "2 \<le> p" "p < num_procs I" "cube_of_worker s ! p = -1" using Cons.prems(4) by auto
  have pl: "p < length (cube_of_worker s)" using Cons.prems(1) p(2) by (simp add: pool_inv_def pool_wf_def)
  show ?case
  proof (cases "cube_queue s = []")
    case True
    have v: "same_view s (release_worker p s)"
      using list_update_id [of "cube_of_worker s" p] p(3) by (simp add: same_view_def release_worker_def)
    have r: "pool_inv I (release_worker p s)" using Cons.prems(1) same_view_pool(1) [OF v] by simp
    have q: "cube_queue (release_worker p s) = []" using True by (simp add: release_worker_def)
    have "cube_of_worker (release_worker p s) = cube_of_worker s" using v by (simp add: same_view_def)
    with Cons.IH [OF r Cons.prems(2)] Cons.prems(3,4) q True show ?thesis by simp
  next
    case False
    have "p \<notin> busy s" using p by (simp add: busy_def)
    note A = assign_pool [OF Cons.prems(1,2) False p(2,1) this]
    let ?t = "add_active 1 (assign_cube pick (is_opt I) p s)"
    have "\<forall>k \<in> set ps. cube_of_worker ?t ! k = -1"
      using Cons.prems(3,4) by (auto simp: add_active_def assign_fields) (metis nth_list_update_neq)
    with Cons.IH [OF A(1) Cons.prems(2)] Cons.prems(3,4) A(2) False show ?thesis by auto
  qed
qed simp

text \<open>The assumptions on an instance and on the cubes the workers generated for it.\<close>

definition good_instance :: "instance_data \<Rightarrow> init_data \<Rightarrow> bool \<Rightarrow> bool" where
  "good_instance I G mini \<longleftrightarrow> 2 < num_procs I \<and> (is_opt I \<longrightarrow> mini \<and> (\<forall>\<sigma>. INT_MIN \<le> sol_cost I \<sigma>))
     \<and> (\<forall>p. \<not> is_opt I \<and> init_status G p = 10 \<longrightarrow> (\<exists>\<sigma>. base_sol I \<sigma>))
     \<and> (\<forall>\<sigma>. base_sol I \<sigma> \<longrightarrow> (\<exists>p \<in> {2..<num_procs I}. \<exists>c \<in> set (init_cubes G p). in_cube \<sigma> c)
         \<or> (\<not> is_opt I \<and> (\<exists>p \<in> {2..<num_procs I}. init_status G p = 10)))"

lemma init_all_reported:
  assumes inv: "init_inv I G R s" and "pending_init_workers s \<le> 0" "2 < num_procs I"
  shows "R = {2..<num_procs I}"
proof (rule card_subset_eq)
  show "R \<subseteq> {2..<num_procs I}" using inv by (simp add: init_inv_def)
  then have "card R \<le> num_procs I - 2" using card_mono [of "{2..<num_procs I}" R] by simp
  then show "card R = card {2..<num_procs I}" using inv assms(2) by (simp add: init_inv_def)
qed simp

lemma after_init_sound:
  assumes inv: "init_inv I G R s" and pend: "pending_init_workers s \<le> 0" and good: "good_instance I G mini"
    and pk: "pick_max pick"
  shows "after_init pick (is_opt I) (num_procs I) k s = Inl (r, t) \<Longrightarrow> 0 < k \<Longrightarrow> result_sound I r"
    "after_init pick (is_opt I) (num_procs I) k s = Inr t \<Longrightarrow> main_inv I t"
proof -
  have g: "2 < num_procs I" using good by (simp add: good_instance_def)
  have R: "R = {2..<num_procs I}" by (rule init_all_reported [OF inv pend g])
  have F: "facts_inv I s" using inv by (simp add: init_inv_def)
  let ?n = "length (cubes s)"
  let ?s = "s\<lparr>total_number_cubes := int ?n, global_queue_size := int ?n\<rparr>"
  have cov: "base_sol I \<sigma> \<Longrightarrow> (\<exists>t \<in> set (cubes s). in_cube \<sigma> (ct_lits t)) \<or> (\<not> is_opt I \<and> sat_found_during_generation s)" for \<sigma>
  proof -
    assume "base_sol I \<sigma>"
    consider (cube) p c where "p \<in> R" "c \<in> set (init_cubes G p)" "in_cube \<sigma> c"
      | (sat) "\<not> is_opt I" "sat_found_during_generation s"
    proof -
      have "sat_found_during_generation s = (\<exists>p \<in> R. init_status G p = 10)" using inv by (simp add: init_inv_def)
      moreover have "(\<exists>p \<in> {2..<num_procs I}. \<exists>c \<in> set (init_cubes G p). in_cube \<sigma> c)
         \<or> (\<not> is_opt I \<and> (\<exists>p \<in> {2..<num_procs I}. init_status G p = 10))"
        using good \<open>base_sol I \<sigma>\<close> by (simp add: good_instance_def)
      ultimately show thesis using that unfolding R by blast
    qed
    then show ?thesis
    proof cases
      case cube
      then have "c \<in> ct_lits ` set (cubes s)" using inv by (auto simp: init_inv_def)
      then show ?thesis using cube(3) by auto
    qed simp
  qed
  show "result_sound I r" if a: "after_init pick (is_opt I) (num_procs I) k s = Inl (r, t)" and k: "0 < k"
  proof -
    consider (early) "sat_found s \<or> original_proved_unsat s \<or> original_proved_optimum s"
      "r = (if \<not> is_opt I then (if sat_found s then Result_SAT else Result_UNSAT)
            else if original_proved_optimum s then Result_OPTIMUM (global_best_cost s) else Result_UNSAT)"
      | (gen) "sat_found_during_generation s" "\<not> is_opt I" "r = Result_SAT"
      | (none) "\<not> (sat_found_during_generation s \<and> \<not> is_opt I)" "cubes s = []" "r = Result_UNSAT"
    proof (cases "sat_found s \<or> original_proved_unsat s \<or> original_proved_optimum s")
      case True
      with a have "r = (if \<not> is_opt I then (if sat_found s then Result_SAT else Result_UNSAT)
            else if original_proved_optimum s then Result_OPTIMUM (global_best_cost s) else Result_UNSAT)"
        by (cases "is_opt I"; cases "sat_found s"; cases "original_proved_optimum s") (simp_all add: after_init_def Let_def)
      with True show thesis by (rule that(1))
    next
      case nf: False
      show thesis
      proof (cases "sat_found_during_generation s \<and> \<not> is_opt I")
        case True
        with a nf have "r = Result_SAT" by (simp add: after_init_def Let_def)
        with True show thesis using that(2) by blast
      next
        case False
        with a nf k have "cubes s = [] \<and> r = Result_UNSAT" by (cases "cubes s = []") (auto simp: after_init_def Let_def)
        with False show thesis using that(3) by blast
      qed
    qed
    then show ?thesis
    proof cases
      case early
      show ?thesis
      proof (cases "is_opt I")
        case False
        then show ?thesis using early F by (auto simp: facts_inv_def result_sound_def)
      next
        case True
        then have c: "cost_facts I s" and ns: "\<not> sat_found s" using F by (auto simp: facts_inv_def)
        show ?thesis
        proof (cases "original_proved_optimum s")
          case po: True
          then have h: "global_has_best_cost s" "\<forall>\<sigma>. \<not> open_sol I s \<sigma>" using F by (simp_all add: facts_inv_def)
          then have "attained I (global_best_cost s)" using c by (simp add: cost_facts_def)
          moreover have "\<forall>\<sigma>. base_sol I \<sigma> \<longrightarrow> global_best_cost s \<le> sol_cost I \<sigma>"
            using h True by (auto simp: open_sol_def not_less)
          ultimately show ?thesis using early po True by (simp add: result_sound_def)
        next
          case False
          then show ?thesis using early F ns True by (simp add: facts_inv_def result_sound_def)
        qed
      qed
    next
      case gen
      then obtain p where "init_status G p = 10" using inv by (auto simp: init_inv_def)
      then show ?thesis using good gen by (auto simp: good_instance_def result_sound_def)
    next
      case none
      then show ?thesis using cov by (auto simp: result_sound_def)
    qed
  qed
  show "main_inv I t" if a: "after_init pick (is_opt I) (num_procs I) k s = Inr t"
  proof -
    let ?u = "?s\<lparr>cube_queue := [0..<?n], active_workers := 0,
                 cube_of_worker := (replicate (num_procs I) (-1))[original_worker := ORIGINAL_WORKER_CUBE_MARKER],
                 cube_depth_of_worker := replicate (num_procs I) (-1)\<rparr>"
    have n1: "\<not> (sat_found s \<or> original_proved_unsat s \<or> original_proved_optimum s)"
      using a by (intro notI) (simp add: after_init_def Let_def)
    have n2: "\<not> (sat_found_during_generation s \<and> \<not> is_opt I)"
      using a n1 by (intro notI) (simp add: after_init_def Let_def)
    have n3: "\<not> (?n = 0 \<and> k > 0)"
      using a n1 n2 by (intro notI) (auto simp: after_init_def Let_def)
    have nf: "\<not> sat_found s" "\<not> (sat_found_during_generation s \<and> \<not> is_opt I)" using n1 n2 by auto
    have t: "t = dispatch_initial pick (is_opt I) [first_cube_worker..<num_procs I] ?u"
      using a n1 n2 n3 unfolding after_init_def Let_def by auto
    have b: "busy ?u = {}"
      using g by (auto simp: busy_def nth_list_update ORIGINAL_WORKER_CUBE_MARKER_def original_worker_def split: if_splits)
    have "facts_inv I ?u = facts_inv I s" by (simp add: facts_inv_def cost_facts_def)
    then have "facts_inv I ?u" using F by simp
    moreover have "pool_wf I ?u"
      using g inv b by (auto simp: pool_wf_def init_inv_def nth_list_update ORIGINAL_WORKER_CUBE_MARKER_def original_worker_def)
    moreover have "covered I ?u"
    proof -
      have "\<exists>i. live ?u i \<and> in_cube \<sigma> (cube_at ?u i)" if "open_sol I ?u \<sigma>" for \<sigma>
      proof -
        have "base_sol I \<sigma>" using that by (simp add: open_sol_def)
        then obtain c where "c \<in> set (cubes s)" "in_cube \<sigma> (ct_lits c)" using cov nf(2) by blast
        then show ?thesis by (auto simp: live_def in_set_conv_nth)
      qed
      then show ?thesis by (simp add: covered_def)
    qed
    moreover have "bounds_ok I ?u"
    proof -
      have lbs: "ct_lower_bound (cubes s ! i) = INT_MIN" if "i < length (cubes s)" for i
        using inv that by (simp add: init_inv_def)
      have "\<forall>\<sigma>. INT_MIN \<le> sol_cost I \<sigma>" if "is_opt I" using good that by (simp add: good_instance_def)
      then show ?thesis unfolding bounds_ok_def b by (simp add: lbs)
    qed
    ultimately have "pool_inv I ?u" by (simp add: pool_inv_def)
    moreover have "\<forall>p \<in> set [first_cube_worker..<num_procs I]. 2 \<le> p \<and> p < num_procs I \<and> cube_of_worker ?u ! p = -1"
      using g by (auto simp: first_cube_worker_def nth_list_update original_worker_def)
    ultimately have "pool_inv I t \<and> (cube_queue t \<noteq> [] \<longrightarrow> {2..<num_procs I} \<subseteq> busy t)"
      using dispatch_initial_pool [of I ?u pick "[first_cube_worker..<num_procs I]"] pk
      unfolding t by (simp add: first_cube_worker_def)
    then show ?thesis by (simp add: main_inv_def)
  qed
qed

section \<open>Whole runs\<close>

text \<open>Every message a run takes is truthful when it is taken.\<close>

fun honest_main :: "(cube_task list \<Rightarrow> nat list \<Rightarrow> nat) \<Rightarrow> bool \<Rightarrow> instance_data \<Rightarrow> master_event list \<Rightarrow> master \<Rightarrow> bool" where
  "honest_main pick mini I [] s = True"
| "honest_main pick mini I (Deliver p m # es) s = (loop_condition s \<longrightarrow> honest_main pick mini I es (deliver p m s))"
| "honest_main pick mini I (Probe p # es) s = (loop_condition s \<longrightarrow> honest I p s
     \<and> (case main_step pick (is_opt I) mini (num_procs I) p s of
          None \<Rightarrow> True
        | Some (stop, s') \<Rightarrow> \<not> stop \<longrightarrow> honest_main pick mini I es s'))"

fun honest_collect :: "bool \<Rightarrow> instance_data \<Rightarrow> init_data \<Rightarrow> nat set \<Rightarrow> master_event list \<Rightarrow> master \<Rightarrow> bool" where
  "honest_collect mini I G R [] s = True"
| "honest_collect mini I G R (Deliver p m # es) s =
     (pending_init_workers s > 0 \<longrightarrow> honest_collect mini I G R es (deliver p m s))"
| "honest_collect mini I G R (Probe p # es) s = (pending_init_workers s > 0 \<longrightarrow> honest_init I G p s
     \<and> (case inbox s p of
          [] \<Rightarrow> True
        | (tag, _) # _ \<Rightarrow> (tag = TAG_INIT_RESULT \<longrightarrow> p \<notin> R)
            \<and> (case init_step (is_opt I) mini p s of
                 None \<Rightarrow> True
               | Some s' \<Rightarrow> honest_collect mini I G (if tag = TAG_INIT_RESULT then insert p R else R) es s')))"

definition honest_run ::
    "(cube_task list \<Rightarrow> nat list \<Rightarrow> nat) \<Rightarrow> bool \<Rightarrow> instance_data \<Rightarrow> init_data \<Rightarrow> master_event list \<Rightarrow> bool" where
  "honest_run pick mini I G es =
     (let k = max 0 (int (num_procs I) - int first_cube_worker);
          s0 = new_master (num_procs I) k mini
      in honest_collect mini I G {} es s0
         \<and> (case init_loop (is_opt I) mini es s0 of
              None \<Rightarrow> True
            | Some (es', s) \<Rightarrow>
                (case after_init pick (is_opt I) (num_procs I) k s of
                   Inl _ \<Rightarrow> True
                 | Inr s' \<Rightarrow> honest_main pick mini I es' s')))"

lemma main_loop_simps [simp]:
  "main_loop pick opt mini sz [] s = (if \<not> loop_condition s then Some s else None)"
  "main_loop pick opt mini sz (Deliver p m # es) s =
     (if \<not> loop_condition s then Some s else main_loop pick opt mini sz es (deliver p m s))"
  "main_loop pick opt mini sz (Probe p # es) s =
     (if \<not> loop_condition s then Some s
      else case main_step pick opt mini sz p s of
             None \<Rightarrow> None
           | Some (stop, s') \<Rightarrow> if stop then Some s' else main_loop pick opt mini sz es s')"
  by (simp_all add: main_loop.simps split: option.splits)

lemma init_loop_simps [simp]:
  "init_loop opt mini [] s = (if \<not> pending_init_workers s > 0 then Some ([], s) else None)"
  "init_loop opt mini (Deliver p m # es) s =
     (if \<not> pending_init_workers s > 0 then Some (Deliver p m # es, s) else init_loop opt mini es (deliver p m s))"
  "init_loop opt mini (Probe p # es) s =
     (if \<not> pending_init_workers s > 0 then Some (Probe p # es, s)
      else case init_step opt mini p s of None \<Rightarrow> None | Some s' \<Rightarrow> init_loop opt mini es s')"
  by (subst init_loop.simps, simp)+

lemma main_loop_reach:
  assumes "main_reach pick mini I s0 False s" "honest_main pick mini I es s"
    "main_loop pick (is_opt I) mini (num_procs I) es s = Some t"
  shows "\<exists>stop. main_reach pick mini I s0 stop t \<and> (stop \<or> \<not> loop_condition t)"
  using assms
proof (induction es arbitrary: s)
  case Nil
  then show ?case by (auto split: if_splits)
next
  case (Cons e es)
  show ?case
  proof (cases "loop_condition s")
    case False
    then show ?thesis using Cons.prems by (cases e) auto
  next
    case lc: True
    show ?thesis
    proof (cases e)
      case (Deliver p m)
      have "honest_main pick mini I es (deliver p m s)" using Cons.prems(2) lc by (simp add: Deliver)
      moreover have "main_loop pick (is_opt I) mini (num_procs I) es (deliver p m s) = Some t"
        using Cons.prems(3) lc by (simp add: Deliver)
      ultimately show ?thesis using Cons.IH [OF main_reach.arrive [OF Cons.prems(1)]] by blast
    next
      case (Probe p)
      then obtain stop s' where st: "main_step pick (is_opt I) mini (num_procs I) p s = Some (stop, s')"
        using Cons.prems(3) lc by (auto simp: Probe split: option.splits)
      have "honest I p s" using Cons.prems(2) lc by (simp add: Probe)
      from main_reach.handle [OF Cons.prems(1) lc this st] have r: "main_reach pick mini I s0 stop s'" .
      show ?thesis
      proof (cases stop)
        case True
        then show ?thesis using r Cons.prems(3) lc st by (auto simp: Probe)
      next
        case False
        have "main_loop pick (is_opt I) mini (num_procs I) es s' = Some t" "honest_main pick mini I es s'"
          using Cons.prems(2,3) lc st False by (auto simp: Probe)
        then show ?thesis using Cons.IH r False by simp
      qed
    qed
  qed
qed

lemma init_loop_reach:
  assumes "init_reach mini I G R s" "honest_collect mini I G R es s"
    "init_loop (is_opt I) mini es s = Some (es', t)"
  shows "(\<exists>R'. init_reach mini I G R' t) \<and> pending_init_workers t \<le> 0"
  using assms
proof (induction es arbitrary: R s)
  case Nil
  then show ?case by (auto split: if_splits)
next
  case (Cons e es)
  show ?case
  proof (cases "pending_init_workers s > 0")
    case False
    then show ?thesis using Cons.prems by (cases e) auto
  next
    case pd: True
    show ?thesis
    proof (cases e)
      case (Deliver p m)
      have "honest_collect mini I G R es (deliver p m s)" using Cons.prems(2) pd by (simp add: Deliver)
      moreover have "init_loop (is_opt I) mini es (deliver p m s) = Some (es', t)"
        using Cons.prems(3) pd by (simp add: Deliver)
      ultimately show ?thesis using Cons.IH [OF init_reach.arrive [OF Cons.prems(1)]] by blast
    next
      case (Probe p)
      then obtain s' where st: "init_step (is_opt I) mini p s = Some s'"
        and rest: "init_loop (is_opt I) mini es s' = Some (es', t)"
        using Cons.prems(3) pd by (auto simp: Probe split: option.splits)
      then obtain tag d q where i: "inbox s p = (tag, d) # q" by (auto simp: init_step_def split: list.splits)
      have h: "honest_init I G p s" "tag = TAG_INIT_RESULT \<longrightarrow> p \<notin> R"
        "honest_collect mini I G (if tag = TAG_INIT_RESULT then insert p R else R) es s'"
        using Cons.prems(2) pd i st by (simp_all add: Probe)
      have "init_reach mini I G (if tag = TAG_INIT_RESULT then insert p R else R) s'"
        using init_reach.report [OF Cons.prems(1) pd h(1) _ _ st] init_reach.other [OF Cons.prems(1) pd h(1) i _ st] i h(2)
        by auto
      from Cons.IH [OF this h(3) rest] show ?thesis .
    qed
  qed
qed

text \<open>Sample runs: the events of a worker that reports its cubes, and of one that reports a result.\<close>

definition cube_events :: "nat \<Rightarrow> lit list list \<Rightarrow> master_event list" where
  "cube_events p cs = Deliver p (TAG_INIT_RESULT, [20, int (length cs)])
     # map (Deliver p) (send_cubes TAG_INIT_CUBE cs) @ [Probe p]"

definition result_events :: "nat \<Rightarrow> int \<Rightarrow> int \<Rightarrow> int list \<Rightarrow> master_event list" where
  "result_events p r x sol = Deliver p (TAG_RESULT, [r, int p, x])
     # map (Deliver p) (if sol = [] then [] else send_solution sol) @ [Probe p]"

lemmas run_simps = cube_events_def result_events_def send_solution_def tag_defs run_master_def new_master_def
  deliver_def init_step_def handle_init_result_def recv_from_def after_init_def Let_def first_cube_worker_def
  original_worker_def ORIGINAL_WORKER_CUBE_MARKER_def assign_cube_def send_work_to_worker_def mpi_send_def
  add_active_def release_worker_def loop_condition_def initial_task_def main_step_def
  handle_cube_result_def RES_SPLIT_def take_incumbent_def bestSolution_def recv_solution_def next_cube_def
  send_stop_def after_loop_def final_result_def

definition sample_instance :: instance_data where
  "sample_instance = \<lparr>base_sol = (\<lambda>\<sigma>. \<sigma> 1), sol_cost = (\<lambda>\<sigma>. if \<sigma> 2 then 3 else 5), is_opt = True, num_procs = 3\<rparr>"

definition sample_init :: init_data where
  "sample_init = \<lparr>init_cubes = (\<lambda>p. [[1]]), init_status = (\<lambda>p. 20)\<rparr>"

definition sample_events :: "master_event list" where
  "sample_events = cube_events 2 [[1]] @ result_events 2 10 3 [0, 1, 1]"

lemma sample_good: "good_instance sample_instance sample_init True"
  by (auto simp: good_instance_def sample_instance_def sample_init_def)

lemma sample_attained: "attained sample_instance 3"
  unfolding attained_def sample_instance_def by (rule exI [of _ "\<lambda>_. True"]) simp

lemma sample_honest: "honest_run first_max True sample_instance sample_init sample_events"
  using sample_attained
  by (simp add: honest_run_def sample_events_def run_simps sample_instance_def sample_init_def honest_init_def
    honest_def honest_cube_def honest_cost_def busy_def)

text \<open>
  C1: The result the master prints is right, for every interleaving of the messages: if the cubes
  generated at the start cover the solutions and every report of a worker is truthful when it is
  taken, then "SAT" means that there is a solution, "UNSAT" that there is none, "OPTIMUM" that
  the printed cost is the least cost of a solution, and "BEST KNOWN" that it is the cost of one.
\<close>

theorem master_result_sound:
  assumes good: "good_instance I G mini" and pk: "pick_max pick" and hon: "honest_run pick mini I G es"
    and run: "run_master pick (is_opt I) mini (num_procs I) es = Some (Some r, s)"
  shows "result_sound I r"
proof -
  let ?k = "max 0 (int (num_procs I) - int first_cube_worker)"
  let ?s0 = "new_master (num_procs I) ?k mini"
  obtain es' u where u: "init_loop (is_opt I) mini es ?s0 = Some (es', u)"
    using run by (auto simp: run_master_def Let_def split: option.splits)
  have "honest_collect mini I G {} es ?s0" using hon by (simp add: honest_run_def Let_def)
  from init_loop_reach [OF init_reach.start this u] obtain R where
    R: "init_reach mini I G R u" "pending_init_workers u \<le> 0" by blast
  have g: "2 < num_procs I" "is_opt I \<Longrightarrow> mini" "\<And>\<sigma>. is_opt I \<Longrightarrow> INT_MIN \<le> sol_cost I \<sigma>"
    using good by (simp_all add: good_instance_def)
  have inv: "init_inv I G R u" using init_reach_inv [OF R(1) g(3,2)] g(1) by simp
  have k: "0 < ?k" using g(1) by (simp add: first_cube_worker_def)
  show ?thesis
  proof (cases "after_init pick (is_opt I) (num_procs I) ?k u")
    case (Inl x)
    then have "x = (r, s)" using run u by (cases x) (simp add: run_master_def Let_def)
    with Inl after_init_sound(1) [OF inv R(2) good pk _ k] show ?thesis by simp
  next
    case (Inr v)
    have m: "main_inv I v" by (rule after_init_sound(2) [OF inv R(2) good pk Inr])
    obtain t where t: "main_loop pick (is_opt I) mini (num_procs I) es' v = Some t"
      "final_result (is_opt I) t = Some r"
      using run u Inr by (auto simp: run_master_def Let_def after_loop_def)
    have "honest_main pick mini I es' v" using hon u Inr by (simp add: honest_run_def Let_def)
    from main_loop_reach [OF main_reach.start this t(1)] obtain stop where
      st: "main_reach pick mini I v stop t" "stop \<or> \<not> loop_condition t" by blast
    from main_reach_inv [OF st(1) m pk g(2)] final_result_sound [OF _ _ st(2) t(2)] show ?thesis by simp
  qed
qed

theorem master_result_sound_witness:
  "map_option fst (run_master first_max True True 3 sample_events) = Some (Some (Result_OPTIMUM 3))
   \<and> result_sound sample_instance (Result_OPTIMUM 3)"
proof -
  have r: "map_option fst (run_master first_max True True 3 sample_events) = Some (Some (Result_OPTIMUM 3))"
    by code_simp
  then obtain s where "run_master first_max True True 3 sample_events = Some (Some (Result_OPTIMUM 3), s)" by auto
  then have "run_master first_max (is_opt sample_instance) True (num_procs sample_instance) sample_events
      = Some (Some (Result_OPTIMUM 3), s)" by (simp add: sample_instance_def)
  from master_result_sound [OF sample_good first_max_pick sample_honest this] r show ?thesis by blast
qed

definition sample_master :: master where
  "sample_master = (new_master 3 0 True)\<lparr>cubes := [initial_task [1]], cube_of_worker := [-1, -2, 0],
     cube_depth_of_worker := [-1, -1, 0], active_workers := 1\<rparr>"

theorem no_solution_lost_witness:
  "\<exists>i < length (cubes sample_master). in_cube (\<lambda>v. v = 1) (cube_at sample_master i)
    \<and> (i \<in> set (cube_queue sample_master) \<or> (\<exists>p \<in> {2..<num_procs sample_instance}. cube_of_worker sample_master ! p = int i))"
proof -
  have b: "busy sample_master = {2}"
    by (auto simp: busy_def sample_master_def new_master_def less_Suc_eq numeral_3_eq_3)
  have "main_inv sample_instance sample_master"
    unfolding main_inv_def pool_inv_def pool_wf_def bounds_ok_def covered_def live_def b
    by (auto simp: sample_master_def sample_instance_def new_master_def facts_inv_def cost_facts_def open_sol_def
        initial_task_def nth_Cons')
  from no_solution_lost [OF main_reach.start [of first_max True] this first_max_pick, of "\<lambda>v. v = 1"]
  show ?thesis by (simp add: sample_master_def sample_instance_def new_master_def open_sol_def)
qed

section \<open>Runs that show where the code falls short\<close>

text \<open>What the next order to a worker leaves alone: the best cost and the solution stored for it.\<close>

lemma next_cube_incumbent:
  "next_cube pick optimizing sz p s = (stop, t) \<Longrightarrow>
     global_best_cost t = global_best_cost s \<and> global_best_solution t = global_best_solution s"
proof -
  have st: "global_best_cost (send_stop ps u) = global_best_cost u \<and> global_best_solution (send_stop ps u) = global_best_solution u" for ps u
    by (induction ps arbitrary: u) (auto simp: send_stop_def mpi_send_def)
  show "next_cube pick optimizing sz p s = (stop, t) \<Longrightarrow> ?thesis"
    using st by (auto simp: next_cube_def Let_def assign_cube_def send_work_to_worker_def mpi_send_def add_active_def release_worker_def split: if_splits)
qed

lemma take_incumbent_not_better:
  assumes "take_incumbent mini p y s = Some t" "\<not> fst (bestSolution mini y s)" "global_best_solution s \<noteq> []"
  shows "global_best_cost t = global_best_cost s \<and> global_best_solution t = global_best_solution s"
proof -
  let ?s = "s\<lparr>feasible_seen := True, global_has_best_cost := True\<rparr>"
  have "bestSolution mini y (s\<lparr>feasible_seen := True\<rparr>) = (False, s\<lparr>feasible_seen := True\<rparr>)"
    using assms(2) by (cases mini) (simp_all add: bestSolution_def Let_def)
  then obtain sol u where u: "recv_from p recv_solution ?s = Some (sol, u)"
    "t = (if global_best_solution u = [] then u\<lparr>global_best_solution := sol\<rparr> else u)"
    using assms(1) by (auto simp: take_incumbent_def bind_eq_Some_conv)
  obtain q where "u = ?s\<lparr>inbox := q\<rparr>" using u(1) by (auto simp: recv_from_def)
  then show ?thesis using u(2) assms(3) by simp
qed

lemma announce_better:
  assumes "fst (bestSolution mini x s)"
  shows "global_best_cost (announce_cost mini x s) = x" "global_best_solution (announce_cost mini x s) = global_best_solution s"
  using assms by (cases mini; simp add: announce_cost_def bestSolution_def Let_def)+

text \<open>
  C36: A better incumbent can be recorded without its solution. Once some worker has announced a cost
  that improves on the best one (result 26), the report with a solution of that cost, or of any cost
  that is no better (25, and 10 or 15 in an optimisation), looks like no improvement: whichever workers
  are involved and whatever came in between, if it brought nothing better, the master keeps the
  announced cost and the solution it had before, which is older and worse.
\<close>

theorem announced_cost_hides_solution:
  assumes "global_best_solution s \<noteq> []" "fst (bestSolution mini x s)"
    and "handle_cube_result pick optimizing mini sz 26 p x s = Some (stop1, s1)"
    and "global_best_cost s2 = global_best_cost s1" "global_best_solution s2 = global_best_solution s1"
    and "handle_cube_result pick optimizing mini sz r q y s2 = Some (stop2, t)"
    and "r = 25 \<or> optimizing \<and> (r = 10 \<or> r = 15)" "if mini then x \<le> y else y \<le> x"
  shows "global_best_cost t = x \<and> global_best_solution t = global_best_solution s"
proof -
  have "s1 = announce_cost mini x s" using assms(3) by (simp add: handle_cube_result_def)
  then have s1: "global_best_cost s1 = x" "global_best_solution s1 = global_best_solution s"
    using announce_better [OF assms(2)] by simp_all
  have nb: "\<not> fst (bestSolution mini y s2)" "global_best_solution s2 \<noteq> []"
    using assms(1,4,5,8) s1 by (auto simp: bestSolution_def Let_def split: if_splits)
  obtain u where u: "take_incumbent mini q y s2 = Some u"
    "t = mpi_send q [(TAG_RESULT, [global_best_cost u])] u \<or> next_cube pick optimizing sz q u = (stop2, t)"
    using assms(6,7) by (auto simp: handle_cube_result_def RES_SPLIT_def bind_eq_Some_conv split: if_splits)
  have "global_best_cost t = global_best_cost u \<and> global_best_solution t = global_best_solution u"
    using u(2) next_cube_incumbent by (auto simp: mpi_send_def)
  then show ?thesis using take_incumbent_not_better [OF u(1) nb] s1 assms(4,5) by simp
qed

text \<open>The master of a minimisation that holds the solution of cost 5; worker 2 announces 3 and sends its solution.\<close>

definition five_master :: master where
  "five_master = (new_master 3 0 True)\<lparr>global_best_cost := 5, global_has_best_cost := True, global_best_solution := [0, 1, 0],
     inbox := (\<lambda>_. send_solution [0, 1, 1])\<rparr>"

theorem announced_cost_hides_solution_witness:
  "\<exists>s1 t. handle_cube_result first_max True True 3 26 2 3 five_master = Some (False, s1)
     \<and> handle_cube_result first_max True True 3 25 2 3 s1 = Some (False, t)
     \<and> global_best_cost t = 3 \<and> global_best_solution t = [0, 1, 0]"
proof -
  have a: "handle_cube_result first_max True True 3 26 2 3 five_master = Some (False, announce_cost True 3 five_master)"
    by (simp add: handle_cube_result_def)
  have "handle_cube_result first_max True True 3 25 2 3 (announce_cost True 3 five_master) \<noteq> None"
    by (simp add: handle_cube_result_def take_incumbent_def announce_cost_def bestSolution_def recv_from_def five_master_def
        recv_solution_def send_solution_def new_master_def tag_defs Let_def)
  then obtain b t where t: "handle_cube_result first_max True True 3 25 2 3 (announce_cost True 3 five_master) = Some (b, t)" by auto
  then have "b = False" by (auto simp: handle_cube_result_def)
  moreover have "global_best_solution five_master = [0, 1, 0]" "fst (bestSolution True 3 five_master)"
    by (simp_all add: five_master_def bestSolution_def)
  ultimately show ?thesis using announced_cost_hides_solution [OF _ _ a refl refl t] a t by auto
qed

text \<open>In a whole run the master then prints the optimum 3 and holds the solution of cost 5.\<close>

lemma stale_solution_run:
  "map_option (\<lambda>(r, s). (r, global_best_solution s))
    (run_master first_max True True 3
      (cube_events 2 [[1, 2], [1, -2]] @ result_events 2 10 5 [0, 1, 0] @ result_events 2 26 3 []
       @ result_events 2 10 3 [0, 1, 1]))
  = Some (Some (Result_OPTIMUM 3), [0, 1, 0])"
  by code_simp

text \<open>A cube worker that stops with a solution but without a proof (result 15) ends its cube.\<close>

lemma result_15_drops_cube:
  "map_option fst (run_master first_max True True 3 (cube_events 2 [[1]] @ result_events 2 15 5 [0, 1, 0]))
   = Some (Some (Result_OPTIMUM 5))"
  by code_simp

text \<open>With no cube worker, a solution without a proof from the original worker is printed as the optimum.\<close>

lemma result_15_alone_is_optimum:
  "map_option fst (run_master first_max True True 2 (result_events 1 15 5 [0, 1, 0])) = Some (Some (Result_OPTIMUM 5))"
  by code_simp

text \<open>An undecided cube hides the proof of the original worker that comes later.\<close>

lemma proof_hidden_by_unknown:
  "map_option fst (run_master first_max True True 3
     (cube_events 2 [[1], [-1]] @ result_events 2 0 0 [] @ result_events 1 10 3 [0, 1, 1]))
   = Some (Some (Result_BEST_KNOWN 3))"
  by code_simp

end
