(* ===== verification/MasterOrders.thy ===== *)
theory MasterOrders
  imports MasterRun
begin

text \<open>
  What the master (\<open>run_master\<close> of \<open>src/src/cubePB.cpp\<close>) has told its workers: every cube is in one
  place, every worker it counts as busy was last sent exactly the cube it is counted for, and while the
  master waits for a message somebody is at work.
\<close>

section \<open>The invariant\<close>

definition work_sent :: "nat \<Rightarrow> master \<Rightarrow> queue" where
  "work_sent p s = of_tag TAG_WORK (map snd (filter (\<lambda>x. fst x = p) (outbox s)))"

definition has_orders :: "bool \<Rightarrow> master \<Rightarrow> nat \<Rightarrow> bool" where
  "has_orders opt s p \<longleftrightarrow> (\<exists>earlier t. work_sent p s = earlier @ work_messages opt (cubes s ! nat (cube_of_worker s ! p)) t)"

definition orders :: "bool \<Rightarrow> master \<Rightarrow> bool" where
  "orders opt s \<longleftrightarrow> distinct (cube_queue s) \<and> set (cube_queue s) \<subseteq> {..<length (cubes s)}
     \<and> inj_on (\<lambda>p. cube_of_worker s ! p) (busy s)
     \<and> (\<forall>p \<in> busy s. nat (cube_of_worker s ! p) < length (cubes s) \<and> nat (cube_of_worker s ! p) \<notin> set (cube_queue s) \<and> has_orders opt s p)"

definition same_orders :: "master \<Rightarrow> master \<Rightarrow> bool" where
  "same_orders s t \<longleftrightarrow> cube_queue t = cube_queue s \<and> cubes t = cubes s \<and> cube_of_worker t = cube_of_worker s
     \<and> (\<forall>p. work_sent p t = work_sent p s)"

lemma same_orders_keep: "same_orders s t \<Longrightarrow> orders opt s \<Longrightarrow> orders opt t"
  by (simp add: same_orders_def orders_def busy_def has_orders_def)

lemma same_orders_trans: "same_orders s t \<Longrightarrow> same_orders t u \<Longrightarrow> same_orders s u"
  by (simp add: same_orders_def)

lemma work_sent_send: "work_sent p (mpi_send k ms s) = work_sent p s @ (if k = p then of_tag TAG_WORK ms else [])"
  by (induction ms) (auto simp: work_sent_def mpi_send_def of_tag_def filter_map o_def)

lemma send_loop_tag: "m \<in> set (send_constraint_loop tag cs) \<Longrightarrow> fst m = tag"
  by (induction tag cs rule: send_constraint_loop.induct) (auto split: if_splits)

lemma work_messages_tag: "of_tag TAG_WORK (work_messages opt task s) = work_messages opt task s"
  by (auto simp: of_tag_def work_messages_def Let_def send_constraints_def filter_id_conv dest!: send_loop_tag)

lemma send_same_orders: "\<forall>m \<in> set ms. fst m \<noteq> TAG_WORK \<Longrightarrow> same_orders s (mpi_send k ms s)"
  by (simp add: same_orders_def work_sent_send of_tag_def filter_False) (simp add: mpi_send_def)

lemma send_stop_orders: "same_orders s (send_stop ps s)"
proof (induction ps arbitrary: s)
  case (Cons p ps)
  have "same_orders s (mpi_send p [(TAG_STOP, [1, 0])] s)" by (rule send_same_orders) (simp add: tag_defs)
  then show ?case using Cons same_orders_trans by (auto simp: send_stop_def)
qed (simp add: send_stop_def same_orders_def)

section \<open>Handing out, releasing and adding cubes\<close>

lemma assign_orders:
  assumes o: "orders opt s" and pk: "pick_max pick" and q: "cube_queue s \<noteq> []" and p: "p < length (cube_of_worker s)"
  shows "orders opt (assign_cube pick opt p s)"
proof -
  let ?t = "assign_cube pick opt p s" let ?i = "pick (cubes s) (cube_queue s)"
  have i: "?i \<in> set (cube_queue s)" "?i < length (cubes s)" using pk q o by (auto simp: pick_max_def orders_def)
  obtain u where w: "work_sent k ?t = work_sent k s @ (if k = p then work_messages opt (cubes s ! ?i) u else [])" for k
  proof (rule that)
    let ?u = "s\<lparr>cube_queue := remove1 ?i (cube_queue s), global_queue_size := global_queue_size s - 1,
        cube_of_worker := (cube_of_worker s)[p := int ?i], cube_depth_of_worker := (cube_depth_of_worker s)[p := ct_split_depth (cubes s ! ?i)]\<rparr>"
    have "work_sent k ?t = work_sent k (mpi_send p (work_messages opt (cubes s ! ?i) ?u) ?u)" for k
      by (simp add: assign_cube_def send_work_to_worker_def work_sent_def Let_def)
    moreover have "work_sent k ?u = work_sent k s" for k by (simp add: work_sent_def)
    ultimately show "work_sent k ?t = work_sent k s @ (if k = p then work_messages opt (cubes s ! ?i) ?u else [])" for k
      by (simp add: work_sent_send work_messages_tag)
  qed
  have f: "cubes ?t = cubes s" "cube_queue ?t = remove1 ?i (cube_queue s)" "cube_of_worker ?t = (cube_of_worker s)[p := int ?i]"
    by (simp_all add: assign_fields)
  have b: "busy ?t = insert p (busy s)" using p by (auto simp: busy_def f nth_list_update)
  have old: "nat (cube_of_worker s ! k) \<noteq> ?i" "cube_of_worker s ! k \<noteq> int ?i" if "k \<in> busy s" for k
    using o that i(1) by (auto simp: orders_def)
  show ?thesis unfolding orders_def
  proof (intro conjI ballI)
    show "distinct (cube_queue ?t)" "set (cube_queue ?t) \<subseteq> {..<length (cubes ?t)}" using o set_remove1_subset by (fastforce simp: orders_def f)+
    show "inj_on (\<lambda>k. cube_of_worker ?t ! k) (busy ?t)"
    proof (rule inj_onI)
      fix k j assume kj: "k \<in> busy ?t" "j \<in> busy ?t" "cube_of_worker ?t ! k = cube_of_worker ?t ! j"
      then show "k = j" using o old(2) [of k] old(2) [of j] p by (auto simp: orders_def b f inj_on_def nth_list_update split: if_splits)
    qed
    fix k assume k: "k \<in> busy ?t"
    then show "nat (cube_of_worker ?t ! k) < length (cubes ?t)" "nat (cube_of_worker ?t ! k) \<notin> set (cube_queue ?t)"
      using o i p by (auto simp: orders_def b f nth_list_update)
    show "has_orders opt ?t k"
    proof (cases "k = p")
      case True
      then show ?thesis using w [of p] p by (auto simp: has_orders_def f)
    next
      case False
      then have "has_orders opt s k" using o k by (simp add: orders_def b)
      then show ?thesis using w [of k] False by (simp add: has_orders_def f)
    qed
  qed
qed

lemma active_orders [simp]: "orders opt (add_active k s) = orders opt s"
  by (simp add: add_active_def orders_def has_orders_def work_sent_def busy_def)

lemma release_orders: "orders opt s \<Longrightarrow> orders opt (release_worker p s)"
proof -
  assume o: "orders opt s"
  let ?t = "release_worker p s"
  have b: "k \<in> busy s \<and> cube_of_worker ?t ! k = cube_of_worker s ! k" if "k \<in> busy ?t" for k
    using that by (cases "k = p") (auto simp: busy_def release_worker_def)
  then have "busy ?t \<subseteq> busy s" "\<forall>k \<in> busy ?t. cube_of_worker ?t ! k = cube_of_worker s ! k" by auto
  moreover have "cubes ?t = cubes s" "cube_queue ?t = cube_queue s" "work_sent k ?t = work_sent k s" for k
    by (simp_all add: release_worker_def work_sent_def)
  ultimately show ?thesis using o unfolding orders_def has_orders_def inj_on_def by (metis subsetD)
qed

lemma push_orders: "orders opt s \<Longrightarrow> orders opt (push_cube t s)"
proof -
  assume o: "orders opt s"
  have "work_sent k (push_cube t s) = work_sent k s" for k by (simp add: push_cube_def work_sent_def)
  then show ?thesis using o by (fastforce simp: orders_def has_orders_def nth_append)
qed

lemma push_all_orders: "orders opt s \<Longrightarrow> orders opt (fold (\<lambda>b. push_cube (T b)) subs s)"
  by (induction subs arbitrary: s) (simp_all add: push_orders)

lemma dispatch_length [simp]:
  "length (cube_of_worker (add_active k (assign_cube pick opt p s))) = length (cube_of_worker s)"
  "length (cube_of_worker (release_worker p s)) = length (cube_of_worker s)"
  by (simp_all add: add_active_def assign_fields release_worker_def)

lemma dispatch_idle_orders:
  "orders opt s \<Longrightarrow> pick_max pick \<Longrightarrow> \<forall>p \<in> set ps. p < length (cube_of_worker s) \<Longrightarrow> orders opt (dispatch_idle pick opt ps s)"
  by (induction pick opt ps s rule: dispatch_idle.induct) (simp_all add: assign_orders)

lemma dispatch_initial_orders:
  "orders opt s \<Longrightarrow> pick_max pick \<Longrightarrow> \<forall>p \<in> set ps. p < length (cube_of_worker s) \<Longrightarrow> orders opt (dispatch_initial pick opt ps s)"
  by (induction pick opt ps s rule: dispatch_initial.induct)
    (simp_all add: assign_orders release_orders)

section \<open>The steps of the main loop\<close>

lemma plain_orders:
  "same_orders s (s\<lparr>inbox := x\<rparr>)" "same_orders s (improve b s)" "same_orders s (record_bounds p LB UB s)"
  by (simp_all add: same_orders_def work_sent_def improve_def record_bounds_def Let_def)

lemma recv_orders: "recv_from p f s = Some (x, t) \<Longrightarrow> same_orders s t"
  using recv_from_same [of p f s x t] plain_orders(1) by auto

lemma take_orders: "take_incumbent mini p x s = Some t \<Longrightarrow> same_orders s t"
proof -
  assume h: "take_incumbent mini p x s = Some t"
  let ?s1 = "improve (new_best mini x s) s"
  have "take_incumbent mini p x s = do {
      (sol, s3) \<leftarrow> recv_from p recv_solution ?s1;
      Some (if fst (bestSolution mini x (s\<lparr>feasible_seen := True\<rparr>)) \<or> global_best_solution s3 = []
            then s3\<lparr>global_best_solution := sol\<rparr> else s3) }"
    by (simp add: take_incumbent_def improve_def new_best_def bestSolution_def Let_def)
  with h obtain sol u where u: "recv_from p recv_solution ?s1 = Some (sol, u)" "t = u \<or> t = u\<lparr>global_best_solution := sol\<rparr>"
    by (auto simp: bind_eq_Some_conv split: if_splits)
  have "same_orders u t" using u(2) by (auto simp: same_orders_def work_sent_def)
  then show ?thesis using same_orders_trans [OF same_orders_trans [OF plain_orders(2) recv_orders [OF u(1)]]] by blast
qed

lemma announce_orders: "same_orders s (announce_cost mini x s)"
  by (simp add: announce_cost_improve plain_orders)

lemma request_orders: "handle_best_request p s = Some t \<Longrightarrow> same_orders s t"
proof -
  assume "handle_best_request p s = Some t"
  then obtain d u r where u: "recv_from p (mpi_recv TAG_BEST_REQUEST 1) s = Some (d, u)" "t = mpi_send p [(TAG_BEST_REPLY, [r])] u"
    by (auto simp: handle_best_request_def bind_eq_Some_conv Let_def)
  have "same_orders u t" unfolding u(2) by (rule send_same_orders) (simp add: tag_defs)
  then show ?thesis by (rule same_orders_trans [OF recv_orders [OF u(1)]])
qed

lemma update_orders: "handle_learned_update p s = Some t \<Longrightarrow> same_orders s t"
  by (auto simp: handle_learned_update_def bind_eq_Some_conv dest!: recv_orders) (auto simp: same_orders_def work_sent_def)

lemma bounds_orders: "handle_bounds_report mini p s = Some t \<Longrightarrow> same_orders s t"
proof -
  assume "handle_bounds_report mini p s = Some t"
  then obtain d u where u: "recv_from p (mpi_recv TAG_BOUNDS 2) s = Some (d, u)"
    "t = (let s = record_bounds p (d ! 0) (d ! 1) u in if d ! 1 < INT_MAX
       then (let s = s\<lparr>feasible_seen := True\<rparr> in if \<not> global_has_best_cost s then s\<lparr>global_best_cost := d ! 1, global_has_best_cost := True\<rparr>
             else snd (bestSolution mini (d ! 1) s)) else s)"
    by (auto simp: handle_bounds_report_def bind_eq_Some_conv Let_def)
  have "same_orders (record_bounds p (d ! 0) (d ! 1) u) t"
    unfolding u(2) by (simp add: Let_def bestSolution_best same_orders_def work_sent_def)
  then show ?thesis by (intro same_orders_trans [OF same_orders_trans [OF recv_orders [OF u(1)] plain_orders(3)]])
qed

lemma original_orders: "handle_original_result opt mini r w x s = Some t \<Longrightarrow> same_orders s t"
proof -
  assume h: "handle_original_result opt mini r w x s = Some t"
  let ?s = "s\<lparr>original_worker_active := False\<rparr>"
  have o: "same_orders s (f ?s)" if "\<And>u. same_orders u (f u)" for f
    using same_orders_trans [OF _ that] by (simp add: same_orders_def work_sent_def)
  consider (ann) "t = announce_cost mini x s" | (take) u where "take_incumbent mini w x ?s = Some u" "t = u \<or> t = u\<lparr>original_proved_optimum := True\<rparr>"
    | (sol) sol u where "recv_from w recv_solution (?s\<lparr>sat_found := True\<rparr>) = Some (sol, u)" "t = u\<lparr>global_best_solution := sol\<rparr>"
    | (flag) "t \<in> {?s\<lparr>original_proved_unsat := True\<rparr>, ?s\<lparr>unknown_seen := True\<rparr>, ?s\<lparr>original_proved_optimum := True\<rparr>}"
    using h by (auto simp: handle_original_result_def Let_def bind_eq_Some_conv split: if_splits)
  then show ?thesis
  proof cases
    case ann
    then show ?thesis by (simp add: announce_orders)
  next
    case take
    then show ?thesis using take_orders [OF take(1)] by (auto simp: same_orders_def work_sent_def)
  next
    case sol
    then show ?thesis using recv_orders [OF sol(1)] by (auto simp: same_orders_def work_sent_def)
  next
    case flag
    then show ?thesis by (auto simp: same_orders_def work_sent_def)
  qed
qed

lemma next_cube_orders:
  assumes "orders opt s" "pick_max pick" "p < length (cube_of_worker s)" "next_cube pick opt sz p s = (stop, t)"
  shows "orders opt t"
proof -
  let ?s = "s\<lparr>global_cubes_processed := global_cubes_processed s + 1\<rparr>"
  let ?r = "add_active (-1) (release_worker p ?s)"
  have s: "orders opt ?s" by (rule same_orders_keep [OF _ assms(1)]) (simp add: same_orders_def work_sent_def)
  show ?thesis
  proof (cases "cube_queue s = []")
    case False
    then have "t = assign_cube pick opt p ?s" using assms(4) by (simp add: next_cube_def Let_def)
    then show ?thesis using assign_orders [OF s assms(2), of p] assms(3) False by simp
  next
    case True
    have r: "orders opt ?r" using release_orders [OF s] by simp
    have "same_orders ?r ((send_stop [1..<sz] ?r)\<lparr>stop_sent := True\<rparr>)"
      by (rule same_orders_trans [OF send_stop_orders [of ?r "[1..<sz]"]]) (simp add: same_orders_def work_sent_def)
    then have "same_orders ?r t" using assms(4) True
      by (auto simp: next_cube_def Let_def split: if_splits) (simp_all add: same_orders_def)
    then show ?thesis using r same_orders_keep by blast
  qed
qed

lemma split_orders:
  assumes o: "orders opt s" and pk: "pick_max pick" and sz: "length (cube_of_worker s) = sz"
    and h: "handle_split pick opt sz p x s = Some t"
  shows "orders opt t"
proof -
  obtain cs u subs v where u: "recv_from p (recv_constraints TAG_SPLIT) s = Some (cs, u)"
    "recv_from p (recv_cubes TAG_SPLIT (nat x)) (add_active (-1) (release_worker p u)) = Some (subs, v)"
    and "t = (let w = fold (\<lambda>b. push_cube (subcube_task (cube_depth_of_worker s ! p + 1) (max (lb_of_worker s ! p) (global_lower_bound s))
             (insert_all cs (ct_learned (cubes u ! nat (cube_of_worker s ! p)))) b)) subs v
           in dispatch_idle pick opt [first_cube_worker..<sz] (w\<lparr>total_number_cubes := int (length (cubes w))\<rparr>))"
    using h by (auto simp: handle_split_def Let_def bind_eq_Some_conv split: if_splits)
  then obtain T k where t: "t = dispatch_idle pick opt [first_cube_worker..<sz] ((fold (\<lambda>b. push_cube (T b)) subs v)\<lparr>total_number_cubes := k\<rparr>)" by (auto simp: Let_def)
  have "orders opt u" using same_orders_keep [OF recv_orders [OF u(1)] o] .
  then have "orders opt (add_active (-1) (release_worker p u))" by (simp add: release_orders)
  then have v: "orders opt v" using same_orders_keep [OF recv_orders [OF u(2)]] by blast
  have w: "orders opt ((fold (\<lambda>b. push_cube (T b)) subs v)\<lparr>total_number_cubes := k\<rparr>)"
    by (rule same_orders_keep [OF _ push_all_orders [OF v, of T subs]]) (simp add: same_orders_def work_sent_def)
  have "length (cube_of_worker v) = sz"
    using recv_orders [OF u(1)] recv_orders [OF u(2)] sz by (simp add: same_orders_def add_active_def release_worker_def)
  then show ?thesis unfolding t by (intro dispatch_idle_orders [OF w pk]) (simp add: push_all_fields)
qed

lemma cube_result_orders:
  assumes o: "orders opt s" and pk: "pick_max pick" and sz: "length (cube_of_worker s) = sz" "p < sz"
    and h: "handle_cube_result pick opt mini sz result p x s = Some (stop, t)"
  shows "orders opt t"
proof -
  consider (a) u where "take_incumbent mini p x s = Some u" "t = mpi_send p [(TAG_RESULT, [global_best_cost u])] u"
    | (b) "t = announce_cost mini x s" | (c) "handle_split pick opt sz p x s = Some t"
    | (d) sol u where "recv_from p recv_solution (s\<lparr>sat_found := True\<rparr>) = Some (sol, u)" "t = send_stop (filter (\<lambda>k. k \<noteq> p) [1..<sz]) (u\<lparr>global_best_solution := sol\<rparr>)"
    | (e) u where "u = s\<lparr>unknown_seen := True\<rparr> \<or> take_incumbent mini p x s = Some u \<or> u = s" "next_cube pick opt sz p u = (stop, t)"
  proof (cases "result \<in> {25, 26, RES_SPLIT} \<or> result = 10 \<and> \<not> opt")
    case True
    then consider "result = 25" | "result = 26" | "result = RES_SPLIT" | "result = 10" "\<not> opt" by blast
    then show ?thesis
    proof cases
      case 1
      then show ?thesis using h a by (simp add: handle_cube_result_def) blast
    next
      case 2
      then show ?thesis using h b by (simp add: handle_cube_result_def)
    next
      case 3
      then show ?thesis using h c by (simp add: handle_cube_result_def RES_SPLIT_def)
    next
      case 4
      then show ?thesis using h d by (simp add: handle_cube_result_def RES_SPLIT_def bind_eq_Some_conv) blast
    qed
  next
    case False
    then obtain u where "(if result = 0 then Some (s\<lparr>unknown_seen := True\<rparr>) else if result = 10 \<or> result = 15 then take_incumbent mini p x s else Some s) = Some u"
      "next_cube pick opt sz p u = (stop, t)"
    proof -
      have n: "result \<noteq> 25" "result \<noteq> 26" "result \<noteq> RES_SPLIT" "\<not> (result = 10 \<and> \<not> opt)" using False by auto
      have "((if result = 0 then Some (s\<lparr>unknown_seen := True\<rparr>) else if result = 10 \<or> result = 15 then take_incumbent mini p x s else Some s)
          \<bind> (\<lambda>s. Some (next_cube pick opt sz p s))) = Some (stop, t)"
        unfolding h [symmetric] by (simp only: handle_cube_result_def n if_False simp_thms Let_def)
      then show thesis using that unfolding bind_eq_Some_conv by auto
    qed
    then show ?thesis using e by (metis option.inject)
  qed
  then show ?thesis
  proof cases
    case a
    have "same_orders u t" unfolding a(2) by (rule send_same_orders) (simp add: tag_defs)
    then show ?thesis using same_orders_keep [OF same_orders_trans [OF take_orders [OF a(1)]] o] by blast
  next
    case b
    then show ?thesis using same_orders_keep [OF announce_orders o] by simp
  next
    case c
    then show ?thesis using split_orders [OF o pk sz(1)] by blast
  next
    case d
    have "same_orders s (u\<lparr>global_best_solution := sol\<rparr>)" using recv_orders [OF d(1)] by (simp add: same_orders_def work_sent_def)
    then show ?thesis unfolding d(2) using same_orders_keep [OF same_orders_trans [OF _ send_stop_orders] o] by blast
  next
    case e
    have "same_orders s u" using e(1) take_orders [of mini p x s u] by (auto simp: same_orders_def work_sent_def)
    then show ?thesis using next_cube_orders [OF _ pk _ e(2)] same_orders_keep [OF _ o] sz by (auto simp: same_orders_def)
  qed
qed

lemma main_step_orders:
  assumes o: "orders (is_opt I) s" and inv: "main_inv I s" and pk: "pick_max pick" and ok: "honest I p s"
    and h: "main_step pick (is_opt I) mini (num_procs I) p s = Some (stop, t)"
  shows "orders (is_opt I) t"
proof -
  obtain tag d q where i: "inbox s p = (tag, d) # q" using h by (auto simp: main_step_def split: list.splits)
  show ?thesis
  proof (cases "tag = TAG_RESULT")
    case False
    then have "same_orders s t" using h i request_orders bounds_orders update_orders
      by (auto simp: main_step_def split: if_splits) (simp_all add: same_orders_def)
    then show ?thesis using same_orders_keep o by blast
  next
    case True
    let ?s = "s\<lparr>inbox := (inbox s)(p := q)\<rparr>"
    have d: "length d = 3" using h i True by (auto simp: main_step_def recv_head tag_defs split: if_splits)
    have w: "d ! 1 = int p" using ok i True by (simp add: honest_def)
    have o': "orders (is_opt I) ?s" using same_orders_keep [OF plain_orders(1) o] .
    have h': "(if p = original_worker
       then map_option (Pair False) (handle_original_result (is_opt I) mini (d ! 0) p (d ! 2) ?s)
       else handle_cube_result pick (is_opt I) mini (num_procs I) (d ! 0) p (d ! 2) ?s) = Some (stop, t)"
      unfolding h [symmetric] using i True d w by (simp add: main_step_def recv_head tag_defs Let_def)
    have len: "length (cube_of_worker ?s) = num_procs I" using inv by (simp add: main_inv_def pool_inv_def pool_wf_def)
    show ?thesis
    proof (cases "p = original_worker")
      case True
      then have "handle_original_result (is_opt I) mini (d ! 0) p (d ! 2) ?s = Some t" using h' by auto
      from same_orders_keep [OF original_orders [OF this] o'] show ?thesis .
    next
      case False
      have "p < num_procs I" using ok i \<open>tag = TAG_RESULT\<close> False by (simp add: honest_def honest_cube_def)
      then show ?thesis using cube_result_orders [OF o' pk len] h' False by simp
    qed
  qed
qed

lemma main_reach_orders:
  assumes "main_reach pick mini I s0 stop s" "main_inv I s0" "orders (is_opt I) s0" "pick_max pick" "is_opt I \<Longrightarrow> mini"
  shows "orders (is_opt I) s"
  using assms
proof (induction rule: main_reach.induct)
  case (arrive s p m)
  have "same_orders s (deliver p m s)" by (simp add: deliver_def plain_orders)
  then show ?case using arrive same_orders_keep by blast
next
  case (handle s p stop t)
  have "main_inv I s" using main_reach_inv [OF handle.hyps(1) handle.prems(1,3,4)] by simp
  then show ?case using main_step_orders [OF _ _ handle.prems(3) handle.hyps(3,4)] handle by blast
qed simp

lemma after_init_orders:
  assumes "after_init pick opt sz k s = Inr t" "pick_max pick" "2 \<le> sz"
  shows "orders opt t"
proof -
  let ?n = "length (cubes s)"
  define s1 where "s1 = s\<lparr>total_number_cubes := int ?n, global_queue_size := int ?n, cube_queue := [0..<?n], active_workers := 0,
      cube_of_worker := (replicate sz (-1))[original_worker := ORIGINAL_WORKER_CUBE_MARKER], cube_depth_of_worker := replicate sz (-1)\<rparr>"
  have t: "t = dispatch_initial pick opt [first_cube_worker..<sz] s1"
    using assms(1) by (auto simp: after_init_def Let_def s1_def split: if_splits)
  have "\<not> 0 \<le> cube_of_worker s1 ! p" if "p < sz" for p
    using that by (cases "p = original_worker") (simp_all add: s1_def ORIGINAL_WORKER_CUBE_MARKER_def)
  then have "busy s1 = {}" by (auto simp: busy_def s1_def)
  then have "orders opt s1" by (simp add: orders_def s1_def lessThan_atLeast0)
  then show ?thesis unfolding t by (rule dispatch_initial_orders [OF _ assms(2)]) (simp add: s1_def)
qed

text \<open>
  C7: While the master waits, somebody works. In every state its main loop can reach from the end of the
  collection of cubes in which it goes on, the worker on the original problem is active or a cube worker is
  busy; cubes wait only while all cube workers are busy; no two workers have the same cube and none has one
  that waits; and the last work sent to a busy worker is exactly the cube the master counts it for.
\<close>

theorem waiting_master_has_workers:
  assumes "init_reach mini I G R s0" "pending_init_workers s0 \<le> 0" "good_instance I G mini" "pick_max pick"
    "after_init pick (is_opt I) (num_procs I) k s0 = Inr t" "main_reach pick mini I t False s" "loop_condition s"
  shows "(original_worker_active s \<or> busy s \<noteq> {}) \<and> (cube_queue s \<noteq> [] \<longrightarrow> {2..<num_procs I} \<subseteq> busy s)
    \<and> distinct (cube_queue s) \<and> inj_on (\<lambda>p. cube_of_worker s ! p) (busy s)
    \<and> (\<forall>p \<in> busy s. nat (cube_of_worker s ! p) \<notin> set (cube_queue s) \<and> has_orders (is_opt I) s p)"
proof -
  have g: "2 < num_procs I" "is_opt I \<Longrightarrow> mini" "\<And>\<sigma>. is_opt I \<Longrightarrow> INT_MIN \<le> sol_cost I \<sigma>" using assms(3) by (auto simp: good_instance_def)
  have "init_inv I G R s0" by (rule init_reach_inv [OF assms(1) g(3,2)]) (use g(1) in auto)
  then have inv: "main_inv I t" using after_init_sound(2) [OF _ assms(2-4,5)] by blast
  have "orders (is_opt I) t" using after_init_orders [OF assms(5,4)] g(1) by simp
  then have o: "orders (is_opt I) s" using main_reach_orders [OF assms(6) inv _ assms(4) g(2)] by blast
  have m: "main_inv I s" using main_reach_inv [OF assms(6) inv assms(4) g(2)] by simp
  then have "active_workers s = int (card (busy s))" by (simp add: main_inv_def pool_inv_def pool_wf_def)
  then have "original_worker_active s \<or> busy s \<noteq> {}" using assms(7) by (auto simp: loop_condition_def)
  then show ?thesis using o m by (auto simp: orders_def main_inv_def)
qed

definition collected_sample :: master where
  "collected_sample = snd (the (init_loop True True (cube_events 2 [[1]]) (new_master 3 1 True)))"

definition started_sample :: master where
  "started_sample = (case after_init first_max True 3 1 collected_sample of Inr t \<Rightarrow> t | Inl (r, t) \<Rightarrow> t)"

theorem waiting_master_has_workers_witness:
  "cube_of_worker started_sample ! 2 = 0 \<and> has_orders True started_sample 2"
proof -
  let ?I = sample_instance and ?G = sample_init
  let ?s0 = "new_master (num_procs ?I) (max 0 (int (num_procs ?I) - int first_cube_worker)) True"
  have s0: "?s0 = new_master 3 1 True" by (simp add: sample_instance_def first_cube_worker_def)
  have "map_option fst (init_loop True True (cube_events 2 [[1]]) (new_master 3 1 True)) = Some []" by code_simp
  then have run: "init_loop (is_opt ?I) True (cube_events 2 [[1]]) ?s0 = Some ([], collected_sample)"
    unfolding s0 by (auto simp: collected_sample_def sample_instance_def)
  have hon: "honest_collect True ?I ?G {} (cube_events 2 [[1]]) ?s0"
    by (simp add: run_simps sample_instance_def sample_init_def honest_init_def)
  obtain R where R: "init_reach True ?I ?G R collected_sample" "pending_init_workers collected_sample \<le> 0"
    using init_loop_reach [OF init_reach.start hon run] by blast
  have "case after_init first_max True 3 1 collected_sample of Inr t \<Rightarrow> loop_condition t \<and> cube_of_worker t ! 2 = 0 \<and> length (cube_of_worker t) = 3 | Inl _ \<Rightarrow> False"
    by code_simp
  then have t: "after_init first_max (is_opt ?I) (num_procs ?I) 1 collected_sample = Inr started_sample"
    "loop_condition started_sample" "cube_of_worker started_sample ! 2 = 0" "2 \<in> busy started_sample"
    by (auto simp: started_sample_def sample_instance_def busy_def split: sum.splits)
  show ?thesis
    using waiting_master_has_workers [OF R sample_good first_max_pick t(1) main_reach.start t(2)] t(3,4) by (auto simp: sample_instance_def)
qed

end
