(* ===== verification/Cleanup.thy ===== *)
theory Cleanup
  imports Conflict
begin

text \<open>
  Cleaning the database (\<open>src/src/Cleanup.cpp\<close>): \<open>doCleanup\<close> drops satisfied constraints, superseded
  bounds of the objective and half of the learned constraints, removes the literals fixed at level
  zero from the others, and builds the database and its lists anew. The shuffle before the unstable
  sort, which decides between equally bad constraints, is a parameter.
\<close>

section \<open>Definitions\<close>

record constraint_cleanup =
  cc_wc :: wconstraint
  cc_isInit :: bool
  cc_activity :: int
  cc_LBD :: int

text \<open>What the three passes over the old database collect; the pairs are binary clauses.\<close>

record collected =
  col_pbs :: "constraint_cleanup list"
  col_cls :: "constraint_cleanup list"
  col_bins :: "(lit \<times> lit) list"

fun keep_undef :: "model \<Rightarrow> monomial list \<Rightarrow> monomial list \<Rightarrow> int \<Rightarrow> monomial list \<times> int" where
  "keep_undef m [] acc constant = (acc, constant)"
| "keep_undef m ((a, l) # ms) acc constant =
     (if isUndefLit m l then keep_undef m ms (acc @ [(\<bar>a\<bar>, l)]) constant
      else if isTrueLit m l then keep_undef m ms acc (constant - \<bar>a\<bar>)
      else keep_undef m ms acc constant)"

definition ordered_pair :: "lit \<Rightarrow> lit \<Rightarrow> lit \<times> lit" where
  "ordered_pair lit1 lit2 = (if \<bar>lit1\<bar> > \<bar>lit2\<bar> then (lit2, lit1) else (lit1, lit2))"

definition cleanup_pb :: "model \<Rightarrow> pbconstraint \<Rightarrow> collected \<Rightarrow> collected option" where
  "cleanup_pb m c A =
     (let (ms, constant) = keep_undef m (pb_lhs c) [] (pb_rhs c) in
      case simplify \<lparr>lhs = ms, rhs = constant\<rparr> of
        None \<Rightarrow> None
      | Some wc \<Rightarrow> Some (
          if rhs wc = 1
          then if getSize wc > 2
               then A\<lparr>col_cls := col_cls A @ [\<lparr>cc_wc = wc, cc_isInit = pb_isInit c, cc_activity = pb_activity c sdiv 2, cc_LBD = pb_LBD c\<rparr>]\<rparr>
               else A\<lparr>col_bins := col_bins A @ [ordered_pair (getIthLiteral wc 0) (getIthLiteral wc 1)]\<rparr>
          else A\<lparr>col_pbs := col_pbs A @ [\<lparr>cc_wc = wc, cc_isInit = pb_isInit c, cc_activity = pb_activity c sdiv 2, cc_LBD = pb_LBD c\<rparr>]\<rparr>))"

text \<open>
  The loop over the linear constraints with their numbers. The newest bound of the objective is kept
  as it is; the branch that tests for it again after the simplification is never taken.
\<close>

fun cleanupPBConstraints :: "int \<Rightarrow> bool list \<Rightarrow> nat \<Rightarrow> pbconstraint list \<Rightarrow> collected \<Rightarrow> ('a::linorder) search
    \<Rightarrow> (collected \<times> 'a search) option" where
  "cleanupPBConstraints newest ctrIsRemoved k [] A s = Some (A, s)"
| "cleanupPBConstraints newest ctrIsRemoved k (c # cs) A s =
     (if int k = newest
      then let n = length (col_pbs A);
               A = A\<lparr>col_pbs := col_pbs A @ [\<lparr>cc_wc = wc_of_pb c, cc_isInit = pb_isInit c, cc_activity = pb_activity c sdiv 2, cc_LBD = pb_LBD c\<rparr>]\<rparr>
           in cleanupPBConstraints newest ctrIsRemoved (k + 1) cs A (s\<lparr>obj_num := int n, objectiveFunctions := objectiveFunctions s @ [n]\<rparr>)
      else if \<not> ctrIsRemoved ! k
      then (case cleanup_pb (solver_model (sv s)) c A of
              None \<Rightarrow> None | Some A \<Rightarrow> cleanupPBConstraints newest ctrIsRemoved (k + 1) cs A s)
      else cleanupPBConstraints newest ctrIsRemoved (k + 1) cs A s)"

definition cleanup_clause :: "model \<Rightarrow> clause \<Rightarrow> collected \<Rightarrow> collected" where
  "cleanup_clause m c A =
     (let wc = \<lparr>lhs = map (\<lambda>l. (1, l)) (filter (isUndefLit m) (cl_lits c)), rhs = 1\<rparr> in
      if getSize wc = 2 then A\<lparr>col_bins := col_bins A @ [ordered_pair (getIthLiteral wc 0) (getIthLiteral wc 1)]\<rparr>
      else A\<lparr>col_cls := col_cls A @ [\<lparr>cc_wc = wc, cc_isInit = cl_isInit c, cc_activity = cl_activity c sdiv 2, cc_LBD = cl_LBD c\<rparr>]\<rparr>)"

fun cleanupClauses :: "model \<Rightarrow> bool list \<Rightarrow> nat \<Rightarrow> clause list \<Rightarrow> collected \<Rightarrow> collected" where
  "cleanupClauses m ctrIsRemoved numCtr [] A = A"
| "cleanupClauses m ctrIsRemoved numCtr (c # cs) A =
     cleanupClauses m ctrIsRemoved (numCtr + 1) cs (if \<not> ctrIsRemoved ! numCtr then cleanup_clause m c A else A)"

text \<open>
  Each clause is found from its smaller variable. The second loop ends one variable early; the last
  variable is never the smaller one.
\<close>

definition cleanupBinaryClauses :: "('a::linorder) solver \<Rightarrow> collected \<Rightarrow> collected" where
  "cleanupBinaryClauses v A =
     (let m = solver_model v;
          from = (\<lambda>l. if isUndefLit m \<bar>l\<bar> then map (Pair l) (filter (\<lambda>lit2. isUndefLit m lit2 \<and> \<bar>l\<bar> < \<bar>lit2\<bar>) (binClauses v l)) else [])
      in A\<lparr>col_bins := col_bins A @ concat (map from [1..numVars v]) @ concat (map (\<lambda>x. from (- x)) [1..numVars v - 1])\<rparr>)"

section \<open>Which constraints go\<close>

text \<open>The loop that adds up the coefficients of the true literals, and stops when the constant is reached.\<close>

fun true_sum :: "model \<Rightarrow> monomial list \<Rightarrow> int \<Rightarrow> int" where
  "true_sum m [] counter = counter"
| "true_sum m ((a, l) # ms) counter =
     (if counter < 0 then true_sum m ms (if isTrueLit m l then counter + \<bar>a\<bar> else counter) else counter)"

text \<open>LBD, activity and number of a learned constraint.\<close>

type_synonym lbd_act = "int \<times> int \<times> nat"

record marking =
  mk_removed :: "bool list"
  mk_LBDAct :: "lbd_act list"
  mk_promising :: nat
  mk_total :: nat

definition mark_learned :: "bool \<Rightarrow> bool \<Rightarrow> int \<Rightarrow> int \<Rightarrow> nat \<Rightarrow> marking \<Rightarrow> marking" where
  "mark_learned listed promising LBD activ i K =
     K\<lparr>mk_LBDAct := (if listed then mk_LBDAct K @ [(LBD, activ, i)] else mk_LBDAct K),
       mk_promising := (if promising then mk_promising K + 1 else mk_promising K), mk_total := mk_total K + 1\<rparr>"

fun mark_pbs :: "model \<Rightarrow> int \<Rightarrow> nat \<Rightarrow> pbconstraint list \<Rightarrow> marking \<Rightarrow> marking" where
  "mark_pbs m obj i [] K = K"
| "mark_pbs m obj i (c # cs) K =
     (let size = length (pb_lhs c); LBD = pb_LBD c in
      mark_pbs m obj (i + 1) cs
        (if int i = obj \<or> mk_removed K ! i then K
         else if true_sum m (pb_lhs c) (- pb_rhs c) \<ge> 0 then K\<lparr>mk_removed := (mk_removed K)[i := True]\<rparr>
         else if \<not> pb_isInit c then mark_learned (size > 2 \<and> LBD > 2) (size \<le> 2 \<or> LBD \<le> 3) LBD (pb_activity c) i K
         else K))"

fun mark_clauses :: "model \<Rightarrow> nat \<Rightarrow> clause list \<Rightarrow> marking \<Rightarrow> marking" where
  "mark_clauses m numCtr [] K = K"
| "mark_clauses m numCtr (c # cs) K =
     (let size = length (cl_lits c); LBD = cl_LBD c in
      mark_clauses m (numCtr + 1) cs
        (if \<exists>l \<in> set (cl_lits c). isTrueLit m l then K\<lparr>mk_removed := (mk_removed K)[numCtr := True]\<rparr>
         else if \<not> cl_isInit c then mark_learned (LBD > 2) (size \<le> 2 \<or> LBD \<le> 3) LBD (cl_activity c) numCtr K
         else K))"

definition remove_worst :: "(int \<Rightarrow> lbd_act list \<Rightarrow> lbd_act list) \<Rightarrow> int \<Rightarrow> marking \<Rightarrow> bool list" where
  "remove_worst shuffle seed K =
     (let sorted = sort_key (\<lambda>(LBD, activ, i). (- LBD, activ)) (shuffle seed (mk_LBDAct K));
          numDelete = min (mk_total K div 2) (length sorted)
      in fold (\<lambda>(LBD, activ, i) rem. rem[i := True]) (take numDelete sorted) (mk_removed K))"

section \<open>Building the new database\<close>

definition buildBinaryClauses :: "(lit \<times> lit) list \<Rightarrow> ('a::linorder) solver \<Rightarrow> 'a solver" where
  "buildBinaryClauses bins v = fold (\<lambda>(lit1, lit2). addBinaryClause lit1 lit2) bins v"

definition clause_of_cleanup :: "constraint_cleanup \<Rightarrow> clause" where
  "clause_of_cleanup c = cl_of_lits (map snd (lhs (cc_wc c))) (cc_isInit c) (cc_activity c) (cc_LBD c)"

fun build_watch_loop :: "nat \<Rightarrow> clause list \<Rightarrow> ('a::linorder) solver \<Rightarrow> 'a solver" where
  "build_watch_loop i [] v = v"
| "build_watch_loop i (c # cs) v =
     (let firstWatched = cl_lits c ! 0; secondWatched = cl_lits c ! 1; cached = cl_lits c ! (length (cl_lits c) - 1)
      in build_watch_loop (i + 1) cs
           (push_gen secondWatched (CLAUSE cached i) (push_gen firstWatched (CLAUSE cached i)
             (push_watch secondWatched (i, cached) (push_watch firstWatched (i, cached) v)))))"

definition buildWatchLists :: "('a::linorder) solver \<Rightarrow> 'a solver" where
  "buildWatchLists v = build_watch_loop 0 (clauses v) v"

fun build_occur_loop :: "nat \<Rightarrow> pbconstraint list \<Rightarrow> ('a::linorder) solver \<Rightarrow> 'a solver" where
  "build_occur_loop i [] v = v"
| "build_occur_loop i (c # cs) v =
     build_occur_loop (i + 1) cs (fold (\<lambda>(k, l) v. push_gen l (COUNTERPB k i) (push_occ l (i, k) v)) (pb_lhs c) v)"

definition buildOccurListsAndPBWatches :: "('a::linorder) solver \<Rightarrow> 'a solver" where
  "buildOccurListsAndPBWatches v = build_occur_loop 0 (constraintsPB v) v"

definition push_cleaned_pb :: "constraint_cleanup \<Rightarrow> ('a::linorder) solver \<Rightarrow> 'a solver" where
  "push_cleaned_pb c v =
     (let pc = pb_of_wconstraint (cc_wc c) (cc_isInit c) (cc_activity c) (cc_LBD c);
          maxCoef = fst (pb_lhs pc ! 0);
          wslk = slack (solver_model v) (cc_wc c) - maxCoef
      in v\<lparr>useCounter := useCounter v @ [True], sumOfWatches := sumOfWatches v @ [wslk], constraintsPB := constraintsPB v @ [pc],
           solver_stats := (solver_stats v)\<lparr>numOfCounterCtr := numOfCounterCtr (solver_stats v) + 1,
             numOfIntsInPbsAndClauses := numOfIntsInPbsAndClauses (solver_stats v) + (7 + 2 * int (length (pb_lhs pc)))\<rparr>\<rparr>)"

definition empty_database :: "('a::linorder) solver \<Rightarrow> 'a solver" where
  "empty_database v =
     v\<lparr>occurLists := (\<lambda>_. []), watchLists := (\<lambda>_. []), binClauses := (\<lambda>_. []), genWatchList := (\<lambda>_. []),
       sumOfWatches := [], constraintsPB := [], clauses := [], useCounter := [],
       solver_stats := (solver_stats v)\<lparr>numOfIntsInPbsAndClauses := 0, numOfBackjump := 0\<rparr>\<rparr>"

definition push_cleaned_clause :: "constraint_cleanup \<Rightarrow> ('a::linorder) solver \<Rightarrow> 'a solver" where
  "push_cleaned_clause c v =
     v\<lparr>clauses := clauses v @ [clause_of_cleanup c],
       solver_stats := (solver_stats v)\<lparr>numOfIntsInPbsAndClauses :=
         numOfIntsInPbsAndClauses (solver_stats v) + (int (length (lhs (cc_wc c))) + 5)\<rparr>\<rparr>"

definition rebuild :: "collected \<Rightarrow> ('a::linorder) solver \<Rightarrow> 'a solver" where
  "rebuild A v =
     (let v = buildBinaryClauses (col_bins A) (empty_database v);
          v = buildWatchLists (fold push_cleaned_clause (col_cls A) v)
      in buildOccurListsAndPBWatches (fold push_cleaned_pb (col_pbs A) v))"

definition marked_constraints :: "(int \<Rightarrow> lbd_act list \<Rightarrow> lbd_act list) \<Rightarrow> ('a::linorder) search \<Rightarrow> marking \<times> bool list" where
  "marked_constraints shuffle s =
     (let v = sv s; m = solver_model v; n = length (constraintsPB v);
          old = fold (\<lambda>i rem. rem[i := True]) (butlast (objectiveFunctions s)) (replicate (n + length (clauses v)) False);
          K = mark_clauses m n (clauses v) (mark_pbs m (obj_num s) 0 (constraintsPB v)
                \<lparr>mk_removed = old, mk_LBDAct = [], mk_promising = 0, mk_total = 0\<rparr>)
      in (K, remove_worst shuffle (numOfCleanUps s) K))"

definition doCleanup :: "(int \<Rightarrow> lbd_act list \<Rightarrow> lbd_act list) \<Rightarrow> ('a::linorder) search \<Rightarrow> 'a search option" where
  "doCleanup shuffle s =
     (let v = sv s; m = solver_model v;
          newestObjectiveFunction = (if objectiveFunctions s \<noteq> [] then int (last (objectiveFunctions s)) else -1);
          (K, ctrIsRemoved) = marked_constraints shuffle s;
          s = s\<lparr>objectiveFunctions := [], nconfl_to_reduce := nconfl_to_reduce s + (if mk_promising K > mk_total K div 2 then 1000 else 100)\<rparr>
      in case cleanupPBConstraints newestObjectiveFunction ctrIsRemoved 0 (constraintsPB v) \<lparr>col_pbs = [], col_cls = [], col_bins = []\<rparr> s of
           None \<Rightarrow> None
         | Some (A, s) \<Rightarrow>
             (let A = cleanupBinaryClauses v (cleanupClauses m ctrIsRemoved (length (constraintsPB v)) (clauses v) A)
              in Some (s\<lparr>sv := rebuild A (sv s)\<rparr>)))"

end
