(* ===== verification/ConflictSound.thy ===== *)
theory ConflictSound
  imports ConflictDerive
begin

text \<open>
  Soundness of conflict analysis (\<open>src/src/ConflictAnalysis.cpp\<close>): learning a clause and learning a
  linear constraint, one round, the loop. A round must not go on with a constraint whose coefficients exceed
  its constant (\<open>analysis_saturated\<close>): there the size check of \<open>applyCut\<close> is not enough
  (\<open>overflow_cut_unsound\<close> in CutSound). The code does not ensure it, because \<open>removeUnits\<close> lowers the constant of
  a lemma without saturating it. It holds when no linear constraint of the database
  contains a literal that level zero makes true (\<open>pbs_unit_free\<close>), which is the condition of the theorem.
\<close>

section \<open>Learning a linear constraint\<close>

lemma simplified_ready:
  assumes "0 < rhs c" "pos_coeffs (lhs c)" "distinct (mvars (lhs c))" "rhs c < 2 ^ 31"
  shows "pb_ready (lhs (the (simplify c)), rhs (the (simplify c)))"
proof -
  obtain g where g: "0 < g" and eq: "simplify c = Some (c\<lparr>lhs := map (\<lambda>m. (cdiv (min (fst m) (rhs c)) g, snd m)) (lhs c), rhs := cdiv (rhs c) g\<rparr>)"
    by (rule simplify_eq [OF assms(1,2)])
  obtain c' where c': "simplify c = Some c'" "0 < rhs c'" "map snd (lhs c') = map snd (lhs c)" "\<forall>m \<in> set (lhs c'). 0 < fst m \<and> fst m \<le> rhs c'"
    by (rule simplify_correct [OF assms(1,2)])
  have "rhs c' = cdiv (rhs c) g" using c'(1) eq by auto
  also have "\<dots> \<le> rhs c" using g assms(1) by (simp add: cdiv_le_iff)
  finally have "rhs c' < 2 ^ 31" using assms(4) by simp
  moreover have mv: "mvars ms = map abs (map snd ms)" for ms by (simp add: mvars_def)
  have "mvars (lhs c') = mvars (lhs c)" unfolding mv c'(3) ..
  ultimately show ?thesis using c' assms(3) by (auto simp: pb_ready_def)
qed

lemma loadable_sorted:
  assumes "derived v c" "lhs c \<noteq> []"
  shows "loadable (numVars v) (sortByDecreasingCoefficient c)"
    "pb_ready (lhs (the (simplify (sortByDecreasingCoefficient c))), rhs (the (simplify (sortByDecreasingCoefficient c))))"
proof -
  let ?d = "sortByDecreasingCoefficient c"
  note D = assms(1) [unfolded derived_def]
  have l: "lhs ?d = sort_key (\<lambda>m. - fst m) (lhs c)" "rhs ?d = rhs c" by (simp_all add: sortByDecreasingCoefficient_def)
  have ms: "mset (lhs ?d) = mset (lhs c)" "set (lhs ?d) = set (lhs c)" by (simp_all add: l)
  then have p: "pos_coeffs (lhs ?d)" "nonzero_lits (lhs ?d)" using D pos_coeffs_mset nonzero_lits_mset by blast+
  have ord: "isOrderedByDecreasingCoefficient (lhs ?d)" by (rule sortByDecreasingCoefficient_ordered)
  have ne: "lhs ?d \<noteq> []" using ms(1) assms(2) by auto
  show "loadable (numVars v) ?d" unfolding loadable_def ms(2) l(2) using D p ord ne by blast
  have "mset (mvars (lhs ?d)) = mset (mvars (lhs c))" by (simp add: mvars_def l)
  then have "distinct (mvars (lhs ?d))" using D sorted_wrt_map_lt_distinct [of "mvars (lhs c)"] mset_eq_imp_distinct_iff by blast
  then show "pb_ready (lhs (the (simplify ?d)), rhs (the (simplify ?d)))"
    using simplified_ready D p l(2) by simp
qed

lemma learn_pb_ok:
  assumes inv: "solver_inv (sv s)" and rd: "db_ready (sv s)" and u: "usable (sv s) c" and cf: "conflict (sv s)" and b: "0 \<le> b"
    and act: "constraintIsConflictingOrPropagating (solver_model (backjumpToDL b (sv s))) c"
  shows "round_ok (unit_free (sv s) c) (sv s) (learn_pb F c b s)"
proof -
  define v where "v = backjumpToDL b (sv s)"
  define s1 where "s1 = s\<lparr>sv := v\<rparr>"
  let ?m = "solver_model v"
  define d where "d = removeUnits ?m c"
  note B = backjumpToDL_inv [OF inv b, folded v_def]
  have core: "core_inv v" using B(1) by (simp add: solver_inv_def)
  have rdv: "db_ready v" using rd db_ready_same_db [OF B(2)] by simp
  have uv: "usable v c" using u usable_same_db [OF B(2)] by simp
  then have r: "cut_ready c" and imp: "\<And>\<sigma>. db_sat \<sigma> v \<Longrightarrow> sat \<sigma> c" by (auto simp: usable_def)
  have nz: "nonzero_lits (lhs c)" "pos_coeffs (lhs c)" using r by (auto simp: cut_ready_def)
  have e: "learn_pb F c b s = (if b = 0 \<and> slack ?m c < 0 then Return s1
      else if slack ?m c < 0 then Again d (slack ?m c) s1
      else let s = increaseScoresOfVars F d s1; w = (sv s)\<lparr>conflict := False\<rparr>; LBD = computeLBD ?m d; d' = sortByDecreasingCoefficient d
        in case (simplify d', addAndPropagatePBConstraint d' False (NEW_CONSTRAINT_ACTIVITY (strat s)) LBD False w) of
             (Some c', Some v') \<Rightarrow> Return (let s = s\<lparr>sv := v'\<rparr> in
               if getSize c' \<le> 3 then s\<lparr>learnedShortConstraints := learnedShortConstraints s @ [c']\<rparr> else s)
           | _ \<Rightarrow> Trap)"
    by (simp add: learn_pb_def Let_def s1_def v_def [symmetric] d_def)
  have sl: "slack ?m d = slack ?m c" using removeUnits_slack [OF nz(1)] by (simp add: d_def)
  have actd: "constraintIsConflictingOrPropagating ?m d" using act removeUnits_active [OF nz(1)] by (simp add: d_def v_def)
  have posd: "pos_coeffs (lhs d)" using removeUnits_shape(3) [OF r d_def] .
  note A = active_constraint [OF actd posd]
  have der: "derived v d" using derived_removeUnits [OF core uv] A(1) by (simp add: d_def)
  consider "b = 0" "slack ?m c < 0" | "b \<noteq> 0" "slack ?m c < 0" | "0 \<le> slack ?m c" by linarith
  then show ?thesis
  proof cases
    case 1
    have z: "currentDecisionLevel ?m = 0" using backjump_zero_level [OF inv] 1 by (simp add: v_def)
    have "\<not> db_sat \<sigma> (sv s)" for \<sigma>
      using level_zero_refuted [OF core z 1(2) nz(2) imp] same_db_sat [OF B(2)] by simp
    then have "learned (sv s) v" using learned_refuted [OF B(1,2) rd z] by blast
    then show ?thesis unfolding e using 1 by (simp add: round_ok_def s1_def)
  next
    case 2
    have "saturated d \<and> unit_free v d" if uf: "unit_free (sv s) c"
    proof -
      have ufv: "\<not> unit_true v (snd p)" if "p \<in> set (lhs c)" for p
        using uf that backjump_units [OF inv b, folded v_def] by (auto simp: unit_free_def)
      then have "msum (\<lambda>l. at_zero ?m l \<and> isTrueLit ?m l) (lhs c) = 0"
        by (intro msum_absent) (auto simp: at_zero_def unit_true_def)
      then have "rhs d = rhs c" by (simp add: d_def removeUnits_eq)
      moreover have sub: "set (lhs d) \<subseteq> set (lhs c)" by (auto simp: d_def removeUnits_eq)
      ultimately show ?thesis using r ufv unfolding saturated_def unit_free_def cut_ready_def by (metis subsetD)
    qed
    then show ?thesis unfolding e using 2 B(1,2,5) cf der sl backjump_units [OF inv b] by (simp add: round_ok_def s1_def v_def)
  next
    case 3
    define s2 where "s2 = increaseScoresOfVars F d s1"
    define w where "w = (sv s2)\<lparr>conflict := False\<rparr>"
    have k: "keeps v (sv s2)" using keeps_scores [of s1] by (simp add: s2_def s1_def)
    then have sw: "same_db v w" and iw: "solver_inv w" using B(1) by (auto simp: keeps_def w_def)
    have cw: "conflict_ok w" by (simp add: w_def conflict_ok_def)
    have nv: "numVars w = numVars v" using sw by (simp add: same_db_def)
    note L = loadable_sorted [OF der A(2)]
    have ne: "0 \<le> slack ?m d" using 3 sl by simp
    define d' where "d' = sortByDecreasingCoefficient d"
    note L = loadable_sorted [OF der A(2) [OF ne], folded d'_def nv]
    define lbd where "lbd = computeLBD ?m d"
    define act where "act = NEW_CONSTRAINT_ACTIVITY (strat s2)"
    obtain v' where v': "addAndPropagatePBConstraint d' False act lbd False w = Some v'" "solver_inv v'" "conflict_ok v'"
      "same_db (addPBConstraintCounter (pb_of_wconstraint (the (simplify d')) False act lbd) w) v'"
      "\<And>\<sigma>. db_sat \<sigma> v' \<longleftrightarrow> db_sat \<sigma> w \<and> sat \<sigma> d'" "numVars v' = numVars w"
      by (rule addAndPropagate_facts [OF iw cw L(1), of False act lbd]) blast
    obtain c' where c': "simplify d' = Some c'" using simplify_correct [of d'] L(1) by (metis loadable_def)
    have rdw: "db_ready w" using rdv db_ready_same_db [OF sw] by simp
    have "db_ready (addPBConstraintCounter (pb_of_wconstraint (the (simplify d')) False act lbd) w)"
      using rdw L(2) by (simp add: db_ready_def addPBConstraintCounter_simps pb_of_wconstraint_def)
    then have rd': "db_ready v'" using db_ready_same_db [OF v'(4)] by simp
    have "db_sat \<sigma> v' = db_sat \<sigma> (sv s)" for \<sigma>
      using v'(5) [of \<sigma>] same_db_sat [OF sw] same_db_sat [OF B(2)] der by (auto simp: derived_def d'_def)
    moreover have "numVars v' = numVars (sv s)" using v'(6) nv B(2) by (simp add: same_db_def)
    ultimately have "learned (sv s) v'" using v'(2,3) rd' by (simp add: learned_def)
    then show ?thesis unfolding e using 3 v'(1) c'
      by (simp add: round_ok_def Let_def s2_def [symmetric] w_def [symmetric] d'_def [symmetric] lbd_def [symmetric] act_def [symmetric])
  qed
qed

section \<open>Learning a clause\<close>

lemma uip_loop_spec:
  assumes "uip_loop m i ls p n mx = (p', n')" "length ps = i" "\<And>l. l \<in> set (ps @ ls) \<Longrightarrow> 0 \<le> getDLOfLit m l"
    and "n = length (filter (\<lambda>l. getDLOfLit m l = mx) ps)" "\<forall>l \<in> set ps. getDLOfLit m l \<le> mx"
    and "if ps = [] then mx = -1 else p < i \<and> getDLOfLit m (ps ! p) = mx" "ps @ ls \<noteq> []"
  shows "\<exists>mx'. n' = length (filter (\<lambda>l. getDLOfLit m l = mx') (ps @ ls)) \<and> (\<forall>l \<in> set (ps @ ls). getDLOfLit m l \<le> mx')
    \<and> p' < length (ps @ ls) \<and> getDLOfLit m ((ps @ ls) ! p') = mx'"
  using assms
proof (induction ls arbitrary: i ps p n mx)
  case Nil
  then show ?case by (intro exI [of _ mx]) auto
next
  case (Cons l ls)
  let ?d = "getDLOfLit m l"
  have a: "(ps @ [l]) ! p = ps ! p" if "ps \<noteq> []" using Cons.prems(2,6) that by (simp add: nth_append)
  have e: "(ps @ [l]) ! i = l" "length (ps @ [l]) = i + 1" using Cons.prems(2) by auto
  have c: "?d = mx \<Longrightarrow> ps \<noteq> []" using Cons.prems(3,6) by force
  have rest: "(ps @ [l]) @ ls = ps @ l # ls" by simp
  consider "?d = mx" | "?d > mx" | "?d < mx" by linarith
  then show ?case
  proof cases
    case 1
    have "uip_loop m (i + 1) ls i (n + 1) mx = (p', n')" using Cons.prems(1) 1 by simp
    from Cons.IH [OF this e(2)] show ?thesis using Cons.prems(3-5) 1 e by (simp add: nth_append)
  next
    case 2
    have u: "uip_loop m (i + 1) ls i 1 ?d = (p', n')" using Cons.prems(1) 2 by simp
    have f: "filter (\<lambda>x. getDLOfLit m x = ?d) ps = []" using Cons.prems(5) 2 by (force simp: filter_empty_conv)
    have "\<forall>x \<in> set (ps @ [l]). getDLOfLit m x \<le> ?d" using Cons.prems(5) 2 by force
    with Cons.IH [OF u e(2)] show ?thesis using Cons.prems(3) f e(1) by simp
  next
    case 3
    have u: "uip_loop m (i + 1) ls p n mx = (p', n')" using Cons.prems(1) 3 by simp
    have "ps \<noteq> []" using 3 Cons.prems(3,6) by force
    with Cons.IH [OF u e(2)] show ?thesis using Cons.prems(3-6) 3 e a by (simp add: less_SucI)
  qed
qed

text \<open>A falsified clause is active at a level where at most one of its literals is not false.\<close>

lemma false_clause_active:
  assumes nz: "0 \<notin> set ls" and fl: "\<forall>l \<in> set ls. isFalseLit m l"
  shows "active_at m d \<lparr>lhs = map (\<lambda>l. (1, l)) ls, rhs = 1\<rparr> \<longleftrightarrow> length (filter (\<lambda>l. d < getDLOfLit m l) ls) \<le> 1"
proof -
  define n where "n = length (filter (\<lambda>l. d < getDLOfLit m l) ls)"
  have "msum (\<lambda>l. \<not> false_at m d l) (map (\<lambda>l. (1, l)) ls) = int n \<and> max_coeff (undef_at m d) (map (\<lambda>l. (1, l)) ls) 0 = (if n = 0 then 0 else 1)"
    using fl unfolding n_def
  proof (induction ls)
    case (Cons l ls)
    then have "isFalseLit m l" "\<not> isUndefLit m l" using undef_not_false' by auto
    then have "false_at m d l \<longleftrightarrow> \<not> d < getDLOfLit m l" "undef_at m d l \<longleftrightarrow> d < getDLOfLit m l" by (auto simp: false_at_def undef_at_def)
    then show ?case using Cons by auto
  qed simp
  then show ?thesis by (auto simp: active_at_def n_def [symmetric])
qed

lemma swap_first_facts:
  assumes "i < length ls"
  shows "mset (swap_first i ls) = mset ls" "hd (swap_first i ls) = ls ! i" "swap_first i ls \<noteq> []" "length (swap_first i ls) = length ls"
proof -
  have z: "0 < length ls" using assms by linarith
  have e: "swap_first i ls = ls[0 := ls ! i, i := ls ! 0]" by (simp add: swap_first_def)
  show "mset (swap_first i ls) = mset ls" unfolding e using assms z by (simp add: mset_swap)
  show "length (swap_first i ls) = length ls" "swap_first i ls \<noteq> []" using z by (auto simp: e)
  then show "hd (swap_first i ls) = ls ! i" using z assms by (simp add: hd_conv_nth e nth_list_update)
qed

lemma shorten_distinct:
  "distinct (map abs (acc @ ls)) \<Longrightarrow> distinct (map abs (snd (shorten_lits s d f ls mk acc)))"
proof (induction s d f ls mk acc rule: shorten_lits.induct)
  case (2 s d f l ls mk acc)
  have keep: "distinct (map abs ((acc @ [l]) @ ls))" and drop: "distinct (map abs (acc @ ls))" using "2.prems" by auto
  obtain r mk' ex where t: "test_loop s d 0 (mark_all s (antecedents s l) (mk, [])) = (r, mk', ex)" by (metis prod_cases3)
  show ?case
    using "2.IH" keep drop by (auto simp: Let_def t)
qed simp

lemma lemmaShortening_distinct:
  assumes "distinct (map abs ls)"
  shows "distinct (map abs (lemmaShortening s ls))"
proof (cases "length ls \<le> 1 \<or> currentDecisionLevel (solver_model s) = 0")
  case True
  then show ?thesis using assms by (auto simp: lemmaShortening_def)
next
  case False
  then have ne: "ls \<noteq> []" by auto
  define xs where "xs = hd ls # sort_key (\<lambda>l. - getDLOfLit (solver_model s) l) (tl ls)"
  have "mset xs = mset ls" using ne by (cases ls) (auto simp: xs_def)
  then have "mset (map abs xs) = mset (map abs ls)" by (simp only: mset_map)
  then have "distinct (map abs xs)" using assms by (metis mset_eq_imp_distinct_iff)
  then have "distinct (map abs ([] @ xs))" by (simp only: append_Nil)
  note D = shorten_distinct [OF this]
  show ?thesis using False D by (simp add: lemmaShortening_def Let_def xs_def [symmetric] del: shorten_lits.simps)
qed

lemma same_db_push: "same_db v (setTrueDueToReason l r v)"
  by (rule same_fields_same_db) simp_all

text \<open>The learned literal is put on the trail of a state without a conflict.\<close>

lemma learned_push:
  assumes "solver_inv w" "db_ready w" "numVars w = numVars v" "\<And>\<sigma>. db_sat \<sigma> w = db_sat \<sigma> v" "\<not> conflict w"
    and "u \<noteq> 0" "\<bar>u\<bar> \<le> numVars w" "isUndefLit (solver_model w) u"
    and "elem_ok w (modelStack (solver_model w)) \<lparr>se_lit = u, se_dl = decisionLevel (solver_model w), se_reason = r\<rparr>"
  shows "learned v (setTrueDueToReason u r w)"
proof -
  have "solver_inv (setTrueDueToReason u r w)" by (rule push_reason_inv) (use assms in auto)
  then show ?thesis using assms db_ready_same_db [OF same_db_push [of w]] same_db_sat [OF same_db_push [of w]]
    unfolding learned_def by simp
qed

lemma learned_lemma:
  assumes inv: "solver_inv w" and rd: "db_ready w" and w: "numVars w = numVars v" "\<And>\<sigma>. db_sat \<sigma> w = db_sat \<sigma> v" "\<not> conflict w"
    and L: "0 \<notin> set L" "\<forall>l \<in> set L. \<bar>l\<bar> \<le> numVars w" "distinct (map abs L)" "L \<noteq> []" "\<And>\<sigma>. db_sat \<sigma> w \<Longrightarrow> clause_sat \<sigma> L"
    and u: "isUndefLit (solver_model w) (hd L)" "\<forall>l \<in> set (tl L). isFalseLit (solver_model w) l"
  shows "tl L = [] \<Longrightarrow> learned v (setTrueDueToReason (hd L) NoReason w)"
    and "L = [l, l'] \<Longrightarrow> learned v (setTrueDueToReason l (BinReason l') (addBinaryClause l l' w))"
    and "2 \<le> length L \<Longrightarrow> learned v (setTrueDueToReason (L ! 0) (ClauseReason (length (clauses (addClause (cl_of_lits L i actv lbd) w)) - 1))
      (addClause (cl_of_lits L i actv lbd) w))"
proof -
  have wf: "wf_model (solver_model w)" using inv by (simp add: solver_inv_def core_inv_def)
  have f: "\<forall>l \<in> set (tl L). - l \<in> set (map se_lit (modelStack (solver_model w)))"
    using u(2) wf_false [OF wf] by (simp add: tlits_def)
  have hd: "hd L \<noteq> 0" "\<bar>hd L\<bar> \<le> numVars w" using L(1,2,4) hd_in_set [OF L(4)] by metis+
  show "learned v (setTrueDueToReason (hd L) NoReason w)" if t: "tl L = []"
  proof (rule learned_push [OF inv rd w hd u(1)])
    have "L = [hd L]" using L(4) t by (cases L) auto
    then have "lit_true \<sigma> (hd L)" if "db_sat \<sigma> w" for \<sigma> using L(5) [OF that] by (metis clause_sat_def empty_set list.simps(15) singletonD)
    then show "elem_ok w (modelStack (solver_model w)) \<lparr>se_lit = hd L, se_dl = decisionLevel (solver_model w), se_reason = NoReason\<rparr>"
      by (simp add: elem_ok_def entails_def)
  qed
  show "learned v (setTrueDueToReason l (BinReason l') (addBinaryClause l l' w))" if t: "L = [l, l']"
  proof -
    have l: "l \<noteq> 0" "l' \<noteq> 0" "\<bar>l\<bar> \<le> numVars w" "\<bar>l'\<bar> \<le> numVars w" "\<bar>l\<bar> \<noteq> \<bar>l'\<bar>" using L(1-3) t by auto
    note A = addBinaryClause_inv [OF inv l(1,3,2,4)]
    have rdb: "db_ready (addBinaryClause l l' w)"
      using rd l(5) unfolding db_ready_def by (auto simp: addBinaryClause_lists(1))
    show ?thesis
    proof (rule learned_push [OF A(1) rdb])
      show "db_sat \<sigma> (addBinaryClause l l' w) = db_sat \<sigma> v" for \<sigma> using A(2) [of \<sigma>] w(2) [of \<sigma>] L(5) [of \<sigma>] t by (auto simp: clause_sat_def)
    qed (use w(1,3) l u(1) f t in \<open>auto simp: elem_ok_def addBinaryClause_lists\<close>)
  qed
  show "learned v (setTrueDueToReason (L ! 0) (ClauseReason (length (clauses (addClause (cl_of_lits L i actv lbd) w)) - 1))
      (addClause (cl_of_lits L i actv lbd) w))" if t: "2 \<le> length L"
  proof -
    let ?c = "cl_of_lits L i actv lbd"
    have z: "L ! 0 = hd L" using L(4) by (simp add: hd_conv_nth)
    have d: "distinct L" "inj_on abs (set L)" using L(3) by (auto simp: distinct_map)
    have ok: "cl_ok (numVars w) ?c" using t d L(1,2) by (simp add: cl_ok_def cl_of_lits_def)
    note A = addClause_inv [OF inv ok]
    have rdb: "db_ready (addClause ?c w)" using rd d(2) by (simp add: db_ready_def addClause_simps cl_of_lits_def)
    have tl: "x \<in> set (tl L)" if "x \<in> set L" "x \<noteq> hd L" for x using that by (cases L) auto
    show ?thesis unfolding z
    proof (rule learned_push [OF A(1) rdb])
      show "db_sat \<sigma> (addClause ?c w) = db_sat \<sigma> v" for \<sigma> using A(2) [of \<sigma>] w(2) [of \<sigma>] L(5) [of \<sigma>] by (auto simp: cl_of_lits_def)
      show "elem_ok (addClause ?c w) (modelStack (solver_model (addClause ?c w)))
          \<lparr>se_lit = hd L, se_dl = decisionLevel (solver_model (addClause ?c w)), se_reason = ClauseReason (length (clauses (addClause ?c w)) - 1)\<rparr>"
        using f tl L(4) by (auto simp: elem_ok_def addClause_simps cl_of_lits_def)
    qed (use w(1,3) hd u(1) in \<open>simp_all add: addClause_simps\<close>)
  qed
qed

text \<open>
  The level of a falsified clause: either the literal of the highest level is the only one that the
  jump leaves unassigned, or the clause is a unit falsified at level zero.
\<close>

lemma clause_after_jump:
  assumes inv: "solver_inv v" and dl: "0 < decisionLevel (solver_model v)" and c: "c = \<lparr>lhs = map (\<lambda>l. (1, l)) ls, rhs = 1\<rparr>"
    and nz: "0 \<notin> set ls" "ls \<noteq> []" and fl: "\<forall>l \<in> set ls. isFalseLit (solver_model v) l"
    and b: "b = lowestDLAtWhichConstraintPropagatesOrConflicting (solver_model v) c" "b \<noteq> -1"
    and uip: "uip_loop (solver_model v) 0 ls 0 0 (-1) = (p, n)"
  shows "0 \<le> b \<and> p < length ls
    \<and> (n \<noteq> 1 \<longrightarrow> (\<forall>l \<in> set ls. isFalseLit (solver_model (backjumpToDL b v)) l))
    \<and> (n = 1 \<longrightarrow> b = 0 \<and> ls = [ls ! p] \<and> isFalseLit (solver_model (backjumpToDL b v)) (ls ! p)
         \<or> isUndefLit (solver_model (backjumpToDL b v)) (ls ! p)
            \<and> (\<forall>l \<in> set ls. l \<noteq> ls ! p \<longrightarrow> isFalseLit (solver_model (backjumpToDL b v)) l))"
proof -
  let ?m = "solver_model v" and ?m' = "solver_model (backjumpToDL b v)"
  let ?dl = "getDLOfLit ?m"
  have w: "wf_model ?m" using inv by (simp add: solver_inv_def core_inv_def)
  have low: "0 \<le> ?dl l" if "l \<in> set ls" for l
  proof -
    have "\<not> isUndefLit ?m l" "l \<noteq> 0" using fl nz(1) that undef_not_false' by auto
    then show ?thesis using dl_bounds [OF w] by blast
  qed
  have "\<exists>mx. n = length (filter (\<lambda>l. ?dl l = mx) ([] @ ls)) \<and> (\<forall>l \<in> set ([] @ ls). ?dl l \<le> mx) \<and> p < length ([] @ ls) \<and> ?dl (([] @ ls) ! p) = mx"
    by (rule uip_loop_spec [OF uip]) (use low nz in auto)
  then obtain mx where mx: "n = length (filter (\<lambda>l. ?dl l = mx) ls)" "\<And>l. l \<in> set ls \<Longrightarrow> ?dl l \<le> mx" "p < length ls" "?dl (ls ! p) = mx"
    by auto
  have p: "ls ! p \<in> set ls" using mx(3) by simp
  have n0: "n \<noteq> 0" using mx(1,4) p by (auto simp: filter_empty_conv)
  have mx0: "0 \<le> mx" using low p mx(4) by metis
  define ct where "ct d = length (filter (\<lambda>l. d < ?dl l) ls)" for d
  note act = false_clause_active [OF nz(1) fl, folded c ct_def]
  have cl: "isClause c" "nonzero_lits (lhs c)" "lhs c \<noteq> []" "slack ?m c < 0"
    using nz slack_all_false [OF fl] by (auto simp: c isClause_def all_ones_iff nonzero_lits_def)
  have lv: "0 \<le> b" "b < decisionLevel ?m" "ct b \<le> 1" and lowest: "\<And>d. 0 \<le> d \<Longrightarrow> d < b \<Longrightarrow> 1 < ct d"
    using clause_level [OF w dl cl(2,3,1,4) b(1)] b(2) by (auto simp: act not_le)
  note V = backjump_view [OF inv lv(1)]
  have false_at_b: "isFalseLit ?m' l" if "l \<in> set ls" "?dl l \<le> b" for l using that fl V(1) by (simp add: false_at_def)
  have ct_mx: "ct (mx - 1) = n"
  proof -
    have "filter (\<lambda>l. mx - 1 < ?dl l) ls = filter (\<lambda>l. ?dl l = mx) ls" by (rule filter_cong) (use mx(2) in force)+
    then show ?thesis by (simp add: ct_def mx(1))
  qed
  show ?thesis
  proof (cases "mx \<le> b")
    case True
    have all: "\<forall>l \<in> set ls. isFalseLit ?m' l" using false_at_b mx(2) True by force
    have "b = 0 \<and> ls = [ls ! p]" if "n = 1"
    proof -
      have m0: "mx = 0" using lowest [of "mx - 1"] True ct_mx that mx0 by (cases "mx = 0") auto
      then have "filter (\<lambda>l. ?dl l = mx) ls = ls" using low mx(2) by (intro filter_True) force
      then have "length ls = 1" using mx(1) that by simp
      then have "ls = [ls ! p]" using mx(3) by (cases ls) auto
      moreover have "ct 0 = 0" using mx(2) m0 by (force simp: ct_def filter_empty_conv)
      then have "b = 0" using lowest [of 0] lv(1) by (cases "b = 0") auto
      ultimately show ?thesis by simp
    qed
    then show ?thesis using all lv(1) mx(3) p by blast
  next
    case False
    have n1: "n = 1"
    proof -
      have "filter (\<lambda>l. ?dl l = mx) ls = filter (\<lambda>l. ?dl l = mx) (filter (\<lambda>l. b < ?dl l) ls)"
        using False by (auto simp: filter_filter intro: filter_cong)
      then have "n \<le> ct b" unfolding mx(1) ct_def by (metis length_filter_le)
      then show ?thesis using lv(3) n0 by simp
    qed
    have "ls ! p \<noteq> 0" using p nz(1) by metis
    then have "isUndefLit ?m' (ls ! p)" using V(2) mx(4) False by (simp add: undef_at_def)
    moreover have "isFalseLit ?m' l" if l: "l \<in> set ls" "l \<noteq> ls ! p" for l
    proof (rule ccontr)
      assume "\<not> isFalseLit ?m' l"
      then have "b < ?dl l" using false_at_b l(1) by force
      then have "{l, ls ! p} \<subseteq> set (filter (\<lambda>l. b < ?dl l) ls)" using l(1) p mx(4) False by auto
      then have "card {l, ls ! p} \<le> card (set (filter (\<lambda>l. b < ?dl l) ls))" by (rule card_mono [OF finite_set])
      also have "\<dots> \<le> ct b" unfolding ct_def by (rule card_length)
      finally show False using lv(3) l(2) by simp
    qed
    ultimately show ?thesis using n1 lv(1) mx(3) by simp
  qed
qed

lemma ones_of_clause: "isClause c \<Longrightarrow> c = \<lparr>lhs = map (\<lambda>l. (1, l)) (map snd (lhs c)), rhs = 1\<rparr>"
proof -
  assume "isClause c"
  then have "rhs c = 1" "\<forall>m \<in> set (lhs c). fst m = 1" by (auto simp: isClause_def all_ones_iff split: if_splits)
  then have "map (\<lambda>l. (1, l)) (map snd (lhs c)) = lhs c" by (simp add: map_idI o_def prod_eq_iff)
  then show ?thesis using \<open>rhs c = 1\<close> by simp
qed

lemma learn_clause_ok:
  assumes inv: "solver_inv (sv s)" and rd: "db_ready (sv s)" and u: "usable (sv s) c" "lhs c \<noteq> []" and cl: "isClause c"
    and f: "slack (solver_model (sv s)) c < 0" and cf: "conflict (sv s)" and dl: "0 < decisionLevel (solver_model (sv s))"
    and b: "b = lowestDLAtWhichConstraintPropagatesOrConflicting (solver_model (sv s)) c" "b \<noteq> -1"
  shows "round_ok (unit_free (sv s) c) (sv s) (learn_clause c b s)"
proof -
  define v where "v = sv s"
  define ls where "ls = map snd (lhs c)"
  define s1 where "s1 = (if getSize c \<le> 3 then s\<lparr>learnedShortConstraints := learnedShortConstraints s @ [c]\<rparr> else s)"
  have sv1: "sv s1 = v" by (simp add: s1_def v_def)
  obtain p n where uip: "uip_loop (solver_model v) 0 ls 0 0 (-1) = (p, n)" by fastforce
  define v1 where "v1 = backjumpToDL b v"
  have inv': "solver_inv v" "core_inv v" using inv by (simp_all add: v_def solver_inv_def)
  have c: "c = \<lparr>lhs = map (\<lambda>l. (1, l)) ls, rhs = 1\<rparr>" unfolding ls_def by (rule ones_of_clause [OF cl])
  have r: "cut_ready c" "\<forall>m \<in> set (lhs c). \<bar>snd m\<bar> \<le> numVars v" "\<And>\<sigma>. db_sat \<sigma> v \<Longrightarrow> sat \<sigma> c"
    using u(1) by (auto simp: usable_def v_def)
  have nz: "0 \<notin> set ls" "ls \<noteq> []" using r(1) u(2) by (auto simp: ls_def cut_ready_def nonzero_lits_def)
  have rng: "\<forall>l \<in> set ls. \<bar>l\<bar> \<le> numVars v" using r(2) by (auto simp: ls_def)
  have fl: "\<forall>l \<in> set ls. isFalseLit (solver_model v) l" using false_clause [OF cl f] by (auto simp: ls_def v_def)
  have "map abs ls = mvars (lhs c)" by (simp add: mvars_def ls_def)
  then have "sorted_wrt (<) (map abs ls)" using r(1) by (simp only: cut_ready_def)
  then have ds: "distinct (map abs ls)" by (rule sorted_wrt_map_lt_distinct)
  note J = clause_after_jump [OF inv'(1) dl [folded v_def] c nz fl b(1) [folded v_def] b(2) uip, folded v1_def]
  have b0: "0 \<le> b" and pl: "p < length ls" using J by blast+
  note B = backjumpToDL_inv [OF inv'(1) b0, folded v1_def]
  have rd1: "db_ready v1" using rd db_ready_same_db [OF B(2)] by (simp add: v_def)
  show ?thesis
  proof (cases "n = 1")
    case False
    have "\<forall>l \<in> set ls. isFalseLit (solver_model v1) l" using J False by blast
    then have "slack (solver_model v1) c = -1" using slack_all_false unfolding c by simp
    moreover have "usable v1 c" using u(1) usable_same_db [OF B(2)] by (simp add: v_def)
    then have "derived v1 c" "saturated c" by (simp_all add: usable_iff)
    moreover note un = backjump_units [OF inv'(1) b0, folded v1_def]
    then have "unit_free v c \<longrightarrow> unit_free v1 c" unfolding unit_free_def by blast
    ultimately have "round_ok (unit_free v c) v (Again c (slack (solver_model v1) c) (s1\<lparr>sv := v1\<rparr>))"
      using B(1,2,5) cf un by (simp add: round_ok_def v_def)
    then show ?thesis using False uip
      by (simp add: learn_clause_def Let_def s1_def [symmetric] sv1 ls_def [symmetric] v1_def [symmetric] v_def [symmetric])
  next
    case True
    define L where "L = lemmaShortening v (swap_first p ls)"
    note S = swap_first_facts [OF pl]
    have sl: "set (swap_first p ls) = set ls" using S(1) by (metis set_mset_mset)
    have "mset (map abs (swap_first p ls)) = mset (map abs ls)" using S(1) by (simp add: mset_map)
    then have ds': "distinct (map abs (swap_first p ls))" using ds mset_eq_imp_distinct_iff by blast
    note F = lemmaShortening_facts [OF inv'(2) _ ds' S(3), folded L_def]
    have L: "set L \<subseteq> set ls" "L \<noteq> []" "hd L = ls ! p" using F(1-3) fl by (simp_all add: sl S(2))
    have Ld: "distinct (map abs L)" unfolding L_def by (rule lemmaShortening_distinct [OF ds'])
    have Li: "clause_sat \<sigma> L" if "db_sat \<sigma> v" for \<sigma>
    proof -
      have "clause_sat \<sigma> (swap_first p ls)" using r(3) [OF that] sat_clause [of \<sigma> "cl_of_lits ls False 0 0"] sl
        by (simp add: c wc_of_clause_def cl_of_lits_def clause_sat_def)
      then show ?thesis using F(4) fl sl that by simp
    qed
    define w where "w = v1\<lparr>conflict := False\<rparr>"
    have m: "solver_model w = solver_model v1" by (simp add: w_def)
    have e: "learn_clause c b s = (case L of
                   [l] \<Rightarrow> if isFalseLit (solver_model w) l then Return (s1\<lparr>sv := w\<lparr>conflict := True\<rparr>\<rparr>)
                          else Return (s1\<lparr>sv := setTrueDueToReason l NoReason w\<rparr>)
                 | [l, l'] \<Rightarrow> Return (s1\<lparr>sv := setTrueDueToReason l (BinReason l') (addBinaryClause l l' w)\<rparr>)
                 | _ \<Rightarrow> (let w' = addClause (cl_of_lits L False (NEW_CONSTRAINT_ACTIVITY (strat s1)) (computeLBD_lits (solver_model v) L)) w
                         in Return (s1\<lparr>sv := setTrueDueToReason (L ! 0) (ClauseReason (length (clauses w') - 1)) w'\<rparr>)))"
      using uip True
      by (simp add: learn_clause_def Let_def s1_def [symmetric] sv1 ls_def [symmetric] v1_def [symmetric] v_def [symmetric] L_def [symmetric] w_def [symmetric])
    show ?thesis
    proof (cases "isUndefLit (solver_model v1) (ls ! p)")
      case False
      then have z: "b = 0" "ls = [ls ! p]" "isFalseLit (solver_model v1) (ls ! p)" using J True by blast+
      have "set L \<subseteq> {ls ! p}" using L(1) z(2) by (metis empty_set list.simps(15))
      moreover have "distinct L" using Ld by (simp add: distinct_map)
      ultimately have L1: "L = [ls ! p]" using L(2,3) by (cases L; cases "tl L") auto
      have lev: "currentDecisionLevel (solver_model v1) = 0" unfolding v1_def z(1) by (rule backjump_zero_level [OF inv'(1)])
      have "slack (solver_model v1) c < 0"
        unfolding c by (subst slack_all_false) (use z(2,3) in \<open>metis empty_set list.simps(15) singletonD\<close>, simp)
      then have "\<not> db_sat \<sigma> v" for \<sigma>
        using level_zero_refuted [of v1 c \<sigma>] B(1) lev r(1,3) same_db_sat [OF B(2)] by (simp add: solver_inv_def cut_ready_def)
      then have "learned v (w\<lparr>conflict := True\<rparr>)"
        using learned_refuted [of "w\<lparr>conflict := True\<rparr>" v] B(1,2) rd lev by (simp add: w_def v_def)
      then show ?thesis using z(3) by (simp add: e L1 m round_ok_def v_def)
    next
      case und: True
      have nf: "\<not> isFalseLit (solver_model w) (hd L)" using und undef_not_false' by (simp add: m L(3))
      have tlf: "\<forall>l \<in> set (tl L). isFalseLit (solver_model w) l"
      proof
        fix l assume l: "l \<in> set (tl L)"
        then have "l \<in> set L" by (rule list.set_sel(2) [OF L(2)])
        moreover have "l \<noteq> ls ! p" using l L(2,3) Ld by (cases L) auto
        ultimately have "isFalseLit (solver_model v1) l" using J True und L(1) undef_not_false' by blast
        then show "isFalseLit (solver_model w) l" by (simp add: m)
      qed
      have nv: "numVars w = numVars v" using B(2) by (simp add: w_def same_db_def)
      have ws: "db_sat \<sigma> w = db_sat \<sigma> v" for \<sigma> using same_db_sat [OF B(2)] by (simp add: w_def db_sat_def)
      have iw: "solver_inv w" "db_ready w" using B(1) rd1 by (simp_all add: w_def db_ready_def)
      have hu: "isUndefLit (solver_model w) (hd L)" using und by (simp add: m L(3))
      have Lz: "0 \<notin> set L" "\<forall>l \<in> set L. \<bar>l\<bar> \<le> numVars w" using L(1) nz(1) rng nv by auto
      note K = learned_lemma [OF iw nv ws _ Lz Ld L(2) _ hu tlf]
      have nc: "\<not> conflict w" by (simp add: w_def)
      have Lw: "clause_sat \<sigma> L" if "db_sat \<sigma> w" for \<sigma> using Li ws that by simp
      consider l where "L = [l]" | l l' where "L = [l, l']" | l l' l'' K where "L = l # l' # l'' # K"
        using L(2) by (metis neq_Nil_conv)
      then show ?thesis
      proof cases
        case 1
        then show ?thesis using K(1) [OF nc Lw] nf by (simp add: e round_ok_def v_def)
      next
        case 2
        then show ?thesis using K(2) [OF nc Lw 2] by (simp add: e round_ok_def v_def)
      next
        case 3
        then have "2 \<le> length L" by simp
        note R = K(3) [OF nc Lw this, of False "NEW_CONSTRAINT_ACTIVITY (strat s1)" "computeLBD_lits (solver_model v) L"]
        show ?thesis unfolding e Let_def using R by (simp add: 3 round_ok_def v_def)
      qed
    qed
  qed
qed

section \<open>A round and the loop\<close>

lemma learned_same_db: "same_db v v' \<Longrightarrow> learned v' w \<Longrightarrow> learned v w"
proof -
  assume d: "same_db v v'"
  have n: "numVars v' = numVars v" using d by (simp add: same_db_def)
  show "learned v' w \<Longrightarrow> learned v w" using same_db_sat [OF d] n by (simp add: learned_def)
qed

lemma round_ok_same_db:
  assumes "same_db v v'" "\<And>l. unit_true v' l \<Longrightarrow> unit_true v l" "G \<Longrightarrow> H" "round_ok H v' r"
  shows "round_ok G v r"
  using assms(2-4) learned_same_db [OF assms(1)] same_db_trans [OF assms(1)] unfolding round_ok_def by (auto split: round.splits)

lemma after_cut_ok:
  assumes inv: "solver_inv (sv s)" and rd: "db_ready (sv s)" and cf: "conflict (sv s)" and dl: "0 < decisionLevel (solver_model (sv s))"
    and e: "e = WConstraint_bool False \<or> usable (sv s) e \<and> lhs e \<noteq> []" "\<And>\<sigma>. db_sat \<sigma> (sv s) \<Longrightarrow> sat \<sigma> e"
    and f: "slack (solver_model (sv s)) e < 0"
  shows "round_ok (unit_free (sv s) e) (sv s) (after_cut F (solver_model (sv s)) e clash s)"
proof (cases "e = WConstraint_bool False")
  case True
  then have "\<not> sat \<sigma> e" for \<sigma> by (simp add: WConstraint_bool_def sat_def)
  then have no: "\<not> db_sat \<sigma> (sv s)" for \<sigma> using e(2) by blast
  have "learned (sv s) (backjumpToDL 0 (sv s))"
    using learned_refuted [OF _ _ rd backjump_zero_level [OF inv] no] backjumpToDL_inv(1,2) [OF inv, of 0] by simp
  then show ?thesis using True by (simp add: after_cut_def isInconsistent_def WConstraint_bool_def round_ok_def)
next
  case False
  let ?m = "solver_model (sv s)"
  define b where "b = (if clash then lowestDLAtWhichConstraintPropagatesOrConflicting ?m e else -1)"
  have u: "usable (sv s) e" "lhs e \<noteq> []" using e(1) False by auto
  have ni: "\<not> isInconsistent e" using u(2) by (simp add: isInconsistent_def)
  have ac: "after_cut F ?m e clash s = (if b \<noteq> -1 then if isClause e then learn_clause e b s else learn_pb F e b s else Again e (slack ?m e) s)"
    using ni by (simp add: after_cut_def Let_def b_def)
  show ?thesis
  proof (cases "b = -1")
    case True
    then show ?thesis unfolding ac using u(1) inv cf f by (simp add: round_ok_def usable_iff)
  next
    case nb: False
    then have b: "b = lowestDLAtWhichConstraintPropagatesOrConflicting ?m e" "b \<noteq> -1" by (auto simp: b_def split: if_splits)
    have w: "wf_model ?m" using inv by (simp add: solver_inv_def core_inv_def)
    have nz: "nonzero_lits (lhs e)" using u(1) by (simp add: usable_def cut_ready_def)
    show ?thesis
    proof (cases "isClause e")
      case True
      then show ?thesis unfolding ac using learn_clause_ok [OF inv rd u True f cf dl b] nb by simp
    next
      case False
      have "0 \<le> b" "active_at ?m b e" using constraint_level [OF w nz False f b(1)] b(2) by auto
      then have "constraintIsConflictingOrPropagating (solver_model (backjumpToDL b (sv s))) e"
        using backjump_active [OF inv _ nz] by blast
      then show ?thesis unfolding ac using learn_pb_ok [OF inv rd u(1) cf \<open>0 \<le> b\<close>] nb False by simp
    qed
  qed
qed

lemma pbs_unit_free_mono:
  assumes "same_db v v'" "\<And>l. unit_true v' l \<Longrightarrow> unit_true v l" "pbs_unit_free v"
  shows "pbs_unit_free v'"
proof -
  have "map pb_lhs (constraintsPB v') = map pb_lhs (constraintsPB v)"
    using arg_cong [of _ _ "map fst", OF conjunct1 [OF conjunct2 [OF assms(1) [unfolded same_db_def]]]] by (simp add: o_def)
  then have "pb_lhs ` set (constraintsPB v') = pb_lhs ` set (constraintsPB v)" by (metis set_map)
  then show ?thesis using assms(2,3) unfolding pbs_unit_free_def by (metis (no_types, lifting) imageE imageI)
qed

lemma analysis_round_ok:
  assumes inv: "solver_inv (sv s)" and rd: "db_ready (sv s)" and cf: "conflict (sv s)" and u: "usable (sv s) c"
    and sl: "sl = slack (solver_model (sv s)) c" "sl < 0"
  shows "round_ok (unit_free (sv s) c \<and> pbs_unit_free (sv s)) (sv s) (analysis_round F c sl s)"
proof -
  obtain z sl' r l x v where p: "pop_loop c sl (NoReason, 0, 0) (sv s) = (z, sl', (r, l, x), v)" by (metis prod_cases3)
  have cr: "cut_ready c" using u by (simp add: usable_def)
  have P: "solver_inv v" "same_db (sv s) v" "conflict v" "sl' = slack (solver_model v) c"
    "z \<longrightarrow> sl' < 0 \<and> currentDecisionLevel (solver_model v) = 0" "\<not> z \<longrightarrow> popped_ok c sl' (r, l, x) v"
    using pop_loop_spec [OF p inv cr sl] cf by auto
  let ?m = "solver_model v" and ?s1 = "s\<lparr>sv := v\<rparr>"
  have uv: "usable v c" using u usable_same_db [OF P(2)] by simp
  show ?thesis
  proof (cases z)
    case True
    have "\<not> db_sat \<sigma> (sv s)" for \<sigma>
      using level_zero_refuted [of v c \<sigma>] P(1,4,5) True uv same_db_sat [OF P(2)] by (simp add: solver_inv_def usable_def cut_ready_def)
    then have "learned (sv s) v" using learned_refuted [OF P(1,2) rd] P(5) True by blast
    then show ?thesis using p True by (simp add: analysis_round_def round_ok_def)
  next
    case False
    then have pop: "popped_ok c sl' (r, l, x) v" using P(6) by simp
    show ?thesis
    proof (cases "r = NoReason")
      case True
      then show ?thesis using p False by (simp add: analysis_round_def reason_constraint_def round_ok_def)
    next
      case hr: False
      obtain a where a: "x = - l" "(a, - l) \<in> set (lhs c)" "sl' < a" "isUndefLit ?m l" "0 < decisionLevel ?m"
        using pop hr by (auto simp: popped_ok_def)
      have rd1: "db_ready v" using rd db_ready_same_db [OF P(2)] by simp
      obtain d s2 a2 where d: "reason_constraint r l ?s1 = Some (d, s2)" "usable v d" "(a2, l) \<in> set (lhs d)" "slack ?m d < a2" "keeps v (sv s2)"
          "pbs_unit_free v \<Longrightarrow> unit_free v d"
        using reason_facts [of ?s1 c sl' r l x] P(1) rd1 pop hr by auto
      have m2: "solver_model (sv s2) = ?m" using d(5) by (simp add: keeps_def)
      have "clashing ?m l a a2 c d" using a d(2-4) uv P(4) by (simp add: clashing_def usable_def)
      then obtain e clash c' d' where e: "conflict_cut ?m l (- l) c d = Some (False, e, clash, c', d')" "good_cut l c d e" "slack ?m e < 0"
        using conflict_cut_facts by blast
      define s3 where "s3 = increaseScoresOfVars F d' s2"
      have k: "keeps v (sv s3)" using keeps_trans [OF d(5) keeps_scores] by (simp add: s3_def)
      have m3: "solver_model (sv s3) = ?m" and sd: "same_db v (sv s3)" and i3: "solver_inv (sv s3)" "conflict (sv s3)"
        using k P(1,3) by (auto simp: keeps_def)
      have imp: "sat \<sigma> e" if "db_sat \<sigma> (sv s3)" for \<sigma>
        using e(2) uv d(2) that same_db_sat [OF sd] by (simp add: good_cut_def usable_def)
      have nv: "numVars (sv s3) = numVars v" using sd unfolding same_db_def by blast
      have shape: "e = WConstraint_bool False \<or> usable (sv s3) e \<and> lhs e \<noteq> []"
      proof (cases "e = WConstraint_bool False")
        case False
        then have "cut_ready e" "lhs e \<noteq> []" "set (map snd (lhs e)) \<subseteq> set (map snd (lhs c)) \<union> set (map snd (lhs d))"
          using e(2) by (auto simp: good_cut_def)
        moreover have "\<forall>y \<in> set (map snd (lhs c)) \<union> set (map snd (lhs d)). \<bar>y\<bar> \<le> numVars (sv s3)"
          using uv d(2) by (auto simp: usable_def nv)
        ultimately have "cut_ready e" "\<forall>p \<in> set (lhs e). \<bar>snd p\<bar> \<le> numVars (sv s3)" by auto
        then have "usable (sv s3) e" using imp unfolding usable_def by blast
        then show ?thesis using \<open>lhs e \<noteq> []\<close> by blast
      qed simp
      have rd3: "db_ready (sv s3)" using rd1 db_ready_same_db [OF sd] by simp
      have R: "round_ok (unit_free (sv s3) e) (sv s3) (after_cut F ?m e clash s3)"
        using after_cut_ok [OF i3(1) rd3 i3(2) _ shape imp] a(5) e(3) m3 by simp
      have un: "unit_true (sv s3) y \<longleftrightarrow> unit_true v y" "unit_true v y \<Longrightarrow> unit_true (sv s) y" for y
        using unit_true_mono [OF inv P(1) pop_loop_stack [OF p]] m3 by (simp_all add: unit_true_def)
      have "unit_free (sv s3) e" if G: "unit_free (sv s) c \<and> pbs_unit_free (sv s)"
      proof -
        have "unit_free v c" using G un(2) unfolding unit_free_def by blast
        moreover have "unit_free v d" using d(6) pbs_unit_free_mono [OF P(2) un(2)] G by blast
        moreover have "set (map snd (lhs e)) \<subseteq> set (map snd (lhs c)) \<union> set (map snd (lhs d))"
          using e(2) by (auto simp: good_cut_def WConstraint_bool_def)
        ultimately show ?thesis unfolding unit_free_def un(1) by (force simp: image_iff)
      qed
      note uf = this
      have "unit_true (sv s3) y \<Longrightarrow> unit_true (sv s) y" for y using un by simp
      from round_ok_same_db [OF same_db_trans [OF P(2) sd] this uf R]
      have "round_ok (unit_free (sv s) c \<and> pbs_unit_free (sv s)) (sv s) (after_cut F ?m e clash s3)" by simp
      moreover have "analysis_round F c sl s = after_cut F ?m e clash s3"
        using p False d(1) m2 e(1) by (simp add: analysis_round_def Let_def a(1) s3_def)
      ultimately show ?thesis by simp
    qed
  qed
qed

text \<open>No round of the analysis goes on with a constraint whose coefficients exceed its constant.\<close>

function rounds_saturated :: "'a float_ops \<Rightarrow> wconstraint \<Rightarrow> int \<Rightarrow> ('a::linorder) search \<Rightarrow> bool" where
  "rounds_saturated F c sl s =
     (if sl < 0
      then (case analysis_round F c sl s of Again c' sl' s' \<Rightarrow> saturated c' \<and> rounds_saturated F c' sl' s' | _ \<Rightarrow> True)
      else True)"
  by pat_completeness auto
termination
  by (relation "measure (\<lambda>(F, c, sl, s). trail_size (sv s))") (auto simp: analysis_round_size)

declare rounds_saturated.simps [simp del]

definition analysis_saturated :: "'a float_ops \<Rightarrow> ('a::linorder) search \<Rightarrow> bool" where
  "analysis_saturated F s =
     (let (d, s') = analysis_start F s; c = sortByIncreasingVariable d
      in rounds_saturated F c (slack (solver_model (sv s')) c) s')"

lemma analysis_loop_ok:
  assumes "solver_inv (sv s)" "db_ready (sv s)" "conflict (sv s)" "usable (sv s) c" "sl = slack (solver_model (sv s)) c" "sl < 0"
    and "rounds_saturated F c sl s"
  shows "(\<exists>s'. analysis_loop F c sl s = Return s' \<and> learned (sv s) (sv s')) \<or> analysis_loop F c sl s = ExitNoReason"
  using assms
proof (induction F c sl s rule: analysis_loop.induct)
  case (1 F c sl s)
  note R = analysis_round_ok [OF "1.prems"(1-6), of F]
  show ?case
  proof (cases "analysis_round F c sl s")
    case (Again c' sl' s')
    have A: "solver_inv (sv s')" "same_db (sv s) (sv s')" "conflict (sv s')" "derived (sv s') c'" "sl' = slack (solver_model (sv s')) c'" "sl' < 0"
      using R by (auto simp: Again round_ok_def)
    have sat: "saturated c'" "rounds_saturated F c' sl' s'"
      using "1.prems"(6,7) by (subst (asm) rounds_saturated.simps; simp add: Again)+
    have "(\<exists>t. analysis_loop F c' sl' s' = Return t \<and> learned (sv s') (sv t)) \<or> analysis_loop F c' sl' s' = ExitNoReason"
      using "1.IH" [OF "1.prems"(6) Again A(1) _ A(3) _ A(5,6) sat(2)] "1.prems"(2) db_ready_same_db [OF A(2)] A(4) sat(1)
      by (simp add: usable_iff)
    moreover have "learned (sv s') w \<Longrightarrow> learned (sv s) w" for w
      by (rule learned_same_db [OF A(2)])
    moreover have "analysis_loop F c sl s = analysis_loop F c' sl' s'"
      using "1.prems"(6) by (subst analysis_loop.simps) (simp add: Again)
    ultimately show ?thesis by auto
  qed (use R "1.prems"(6) in \<open>subst analysis_loop.simps; simp add: round_ok_def\<close>)+
qed

lemma unit_free_saturated:
  assumes "solver_inv (sv s)" "db_ready (sv s)" "conflict (sv s)" "usable (sv s) c" "sl = slack (solver_model (sv s)) c" "sl < 0"
    and "unit_free (sv s) c" "pbs_unit_free (sv s)"
  shows "rounds_saturated F c sl s"
  using assms
proof (induction F c sl s rule: rounds_saturated.induct)
  case (1 F c sl s)
  note R = analysis_round_ok [OF "1.prems"(1-6), of F]
  show ?case
  proof (cases "analysis_round F c sl s")
    case (Again c' sl' s')
    have A: "solver_inv (sv s')" "same_db (sv s) (sv s')" "conflict (sv s')" "derived (sv s') c'" "sl' = slack (solver_model (sv s')) c'" "sl' < 0"
      "\<And>l. unit_true (sv s') l \<Longrightarrow> unit_true (sv s) l" "saturated c'" "unit_free (sv s') c'"
      using R "1.prems"(7,8) by (auto simp: Again round_ok_def)
    have "rounds_saturated F c' sl' s'"
      using "1.IH" [OF "1.prems"(6) Again A(1) _ A(3) _ A(5,6,9)] "1.prems"(2,8) db_ready_same_db [OF A(2)] A(4,8)
        pbs_unit_free_mono [OF A(2) A(7)] by (simp add: usable_iff)
    then show ?thesis using A(8) by (subst rounds_saturated.simps) (simp add: Again)
  qed (subst rounds_saturated.simps; simp)+
qed

text \<open>The analysis on a run all of whose rounds are saturated.\<close>

lemma saturated_analysis_sound:
  assumes "solver_inv (sv s)" "db_ready (sv s)" "conflict_ok (sv s)" "conflict (sv s)" "pbs_unit_free (sv s) \<or> analysis_saturated F s"
  shows "(\<exists>s'. conflictAnalysis F s = Return s' \<and> learned (sv s) (sv s')) \<or> conflictAnalysis F s = ExitNoReason"
proof -
  obtain d s' where d: "analysis_start F s = (d, s')" "keeps (sv s) (sv s')" "usable (sv s) (sortByIncreasingVariable d)" "slack (solver_model (sv s)) d < 0"
    "pbs_unit_free (sv s) \<Longrightarrow> unit_free (sv s) (sortByIncreasingVariable d)"
    using start_facts [OF assms(1-4)] by metis
  let ?c = "sortByIncreasingVariable d"
  have k: "same_db (sv s) (sv s')" "solver_model (sv s') = solver_model (sv s)" "solver_inv (sv s')" "conflict (sv s')"
    using d(2) assms(1,4) by (auto simp: keeps_def)
  have u: "usable (sv s') ?c" using d(3) usable_same_db [OF k(1)] by simp
  have sl: "slack (solver_model (sv s')) ?c < 0" using d(4) by (simp add: k(2) sorted_vars(4))
  have rd: "db_ready (sv s')" using assms(2) db_ready_same_db [OF k(1)] by simp
  have un: "unit_true (sv s') l \<longleftrightarrow> unit_true (sv s) l" for l by (simp add: unit_true_def k(2))
  have "rounds_saturated F ?c (slack (solver_model (sv s')) ?c) s'"
    using assms(5)
  proof
    assume "pbs_unit_free (sv s)"
    then have "unit_free (sv s') ?c" "pbs_unit_free (sv s')"
      using d(5) pbs_unit_free_mono [OF k(1)] un by (auto simp: unit_free_def)
    then show ?thesis by (rule unit_free_saturated [OF k(3) rd k(4) u refl sl])
  qed (simp add: analysis_saturated_def d(1) Let_def)
  then have "(\<exists>t. conflictAnalysis F s = Return t \<and> learned (sv s') (sv t)) \<or> conflictAnalysis F s = ExitNoReason"
    using analysis_loop_ok [OF k(3) rd k(4) u refl sl, of F] conflictAnalysis_start [OF assms(3,4) d(1)] by (simp add: conflictAnalysisAndBackjump_def Let_def)
  then show ?thesis using learned_same_db [OF k(1)] by blast
qed

text \<open>
  C4: Conflict analysis on a falsified constraint, when no linear constraint of the database contains a
  literal that level zero makes true. It never divides by zero and never starts a round on a
  constraint that is not falsified. When it returns, the invariant holds, the database has the same
  solutions as before, and a conflict that is left is a falsified constraint or, at level zero, a
  proof that there is no solution. It can only fail to return where the code itself exits because
  the last literal popped has no reason. The condition matters: with true literals of level zero in a
  constraint, \<open>removeUnits\<close> can leave a lemma with coefficients above its constant, on which the
  machine arithmetic of a cut overflows and the cut is not implied (\<open>overflow_cut_unsound\<close>).
\<close>

theorem conflict_analysis_sound:
  assumes "solver_inv (sv s)" "db_ready (sv s)" "conflict_ok (sv s)" "conflict (sv s)" "pbs_unit_free (sv s)"
  shows "(\<exists>s'. conflictAnalysis F s = Return s' \<and> learned (sv s) (sv s')) \<or> conflictAnalysis F s = ExitNoReason"
  using saturated_analysis_sound [OF assms(1-4)] assms(5) by blast

text \<open>\<open>x1\<close> decided, \<open>x2\<close> propagated by one binary clause and refuted by another; \<open>-1\<close> is learned.\<close>

definition nat_floats :: "nat float_ops" where
  "nat_floats = \<lparr>f_add = (+), f_mult = (*), f_of_int = nat, f_decimal = (\<lambda>n _. nat n), f_over = (\<lambda>_. False)\<rparr>"

definition bin_trail :: "nat solver" where
  "bin_trail = setTrueDueToReason 2 (BinReason (-1)) (setTrueDueToDecision 1
     (addBinaryClause (-1) (-2) (addBinaryClause (-1) 2 (new_solver 1 2))))"

definition bin_conflict :: "nat search" where
  "bin_conflict = (new_search nat_floats 2)
     \<lparr>sv := bin_trail\<lparr>conflict := True, typeConflict := CONFLICT_BIN_CLAUSE, binClauseConflict := (-1, -2)\<rparr>\<rparr>"

lemma raised_conflict_inv:
  "solver_inv (v\<lparr>conflict := x, typeConflict := y, binClauseConflict := z\<rparr>) = solver_inv v"
proof -
  let ?v = "v\<lparr>conflict := x, typeConflict := y, binClauseConflict := z\<rparr>"
  have d: "same_db v ?v" by (simp add: same_db_def)
  have "lists_ok ?v = lists_ok v" by (rule same_fields_lists_ok) simp_all
  then show ?thesis
    using same_db_stack_ok [OF d]
    by (simp add: solver_inv_def core_inv_def db_ok_def watches_ok_def counters_ok_def trail_range_def trail_ok_stack)
qed

lemma bin_trail_inv: "solver_inv bin_trail"
proof -
  let ?a = "addBinaryClause (-1) 2 (new_solver (1::nat) 2)" and ?b = "addBinaryClause (-1) (-2) (addBinaryClause (-1) 2 (new_solver (1::nat) 2))"
  have a: "solver_inv ?a" by (rule addBinaryClause_inv(1)) (simp_all add: new_solver_inv, simp_all add: new_solver_def)
  have b: "solver_inv ?b" by (rule addBinaryClause_inv(1) [OF a]) (simp_all add: new_solver_def)
  have c: "solver_inv (setTrueDueToDecision 1 ?b)"
    by (rule push_decision_inv [OF b]) (simp_all add: new_solver_def isUndefLit_def new_model_def)
  show ?thesis unfolding bin_trail_def
    by (rule push_reason_inv [OF c])
       (simp_all add: new_solver_def isUndefLit_def new_model_def elem_ok_def Model_setTrueDueToDecision_def push_lit_def addBinaryClause_lists
          setTrueDueToDecision_def)
qed

lemma bin_conflict_run:
  "pbs_unit_free (sv bin_conflict)" "conflictAnalysis nat_floats bin_conflict \<noteq> ExitNoReason"
  "(case conflictAnalysis nat_floats bin_conflict of Return s' \<Rightarrow> tlits (solver_model (sv s')) | _ \<Rightarrow> []) = [-1]"
proof -
  show "pbs_unit_free (sv bin_conflict)"
    by (simp add: pbs_unit_free_def bin_conflict_def bin_trail_def new_solver_def addBinaryClause_lists)
  show "(case conflictAnalysis nat_floats bin_conflict of Return s' \<Rightarrow> tlits (solver_model (sv s')) | _ \<Rightarrow> []) = [-1]" by code_simp
  then show "conflictAnalysis nat_floats bin_conflict \<noteq> ExitNoReason" by (auto split: round.splits)
qed

theorem conflict_analysis_sound_witness:
  "\<exists>s'. conflictAnalysis nat_floats bin_conflict = Return s' \<and> learned (sv bin_conflict) (sv s') \<and> tlits (solver_model (sv s')) = [-1]"
proof -
  have "solver_inv (sv bin_conflict)" using bin_trail_inv by (simp add: bin_conflict_def raised_conflict_inv)
  moreover have "db_ready (sv bin_conflict)"
    by (auto simp: db_ready_def bin_conflict_def bin_trail_def new_solver_def addBinaryClause_lists split: if_splits)
  moreover have "conflict_ok (sv bin_conflict)" "conflict (sv bin_conflict)"
    by (simp_all add: conflict_ok_def bin_conflict_def bin_trail_def new_solver_def addBinaryClause_lists tlits_def
        Model_setTrueDueToDecision_def Model_setTrueDueToReason_def push_lit_def setTrueDueToDecision_def setTrueDueToReason_def new_model_def)
  ultimately show ?thesis
    using conflict_analysis_sound [OF _ _ _ _ bin_conflict_run(1), of nat_floats] bin_conflict_run(2,3) by auto
qed

end
