(* ===== verification/CleanupSound.thy ===== *)
theory CleanupSound
  imports Cleanup ConflictSound
begin

text \<open>
  Cleaning the database keeps what matters: under the literals fixed at level zero the new database
  follows from the old one, and every solution of the new one satisfies all initial constraints and
  all binary clauses of the old one. Only learned constraints and superseded bounds of the objective
  are lost.
\<close>

section \<open>Constraints without their assigned literals\<close>

lemma keep_undef_eq:
  "pos_coeffs ms \<Longrightarrow> keep_undef m ms acc k = (acc @ filter (\<lambda>p. isUndefLit m (snd p)) ms, k - msum (isTrueLit m) ms)"
proof (induction m ms acc k rule: keep_undef.induct)
  case (2 m a l ms acc k)
  have "isUndefLit m l \<Longrightarrow> \<not> isTrueLit m l" by (simp add: isUndefLit_def isTrueLit_def split: if_splits)
  then show ?case using 2 by auto
qed simp

lemma true_sum_neg: "pos_coeffs ms \<Longrightarrow> true_sum m ms k < 0 \<longleftrightarrow> k + msum (isTrueLit m) ms < 0"
proof (induction m ms k rule: true_sum.induct)
  case (2 m a l ms k)
  have "0 \<le> msum (isTrueLit m) ms" using 2(2) by (auto intro: msum_nonneg)
  then show ?case using 2 by auto
qed simp

definition agrees :: "assignment \<Rightarrow> model \<Rightarrow> bool" where
  "agrees \<sigma> m \<longleftrightarrow> (\<forall>l \<in> set (tlits m). lit_true \<sigma> l)"

lemma agrees_lits:
  assumes "wf_model m" "agrees \<sigma> m" "\<not> isUndefLit m l"
  shows "lit_true \<sigma> l \<longleftrightarrow> isTrueLit m l"
proof -
  have "l \<noteq> 0" using assms(1,3) wf_model_zero [OF assms(1)] by (auto simp: wf_undef)
  then show ?thesis using assms wf_lits [OF assms(1)] by (auto simp: agrees_def lit_true_neg)
qed

text \<open>The value of a left-hand side, once with the assigned literals and once without.\<close>

lemma value_split:
  assumes "wf_model m" "agrees \<sigma> m"
  shows "lhs_value \<sigma> ms = lhs_value \<sigma> (filter (\<lambda>p. isUndefLit m (snd p)) ms) + msum (isTrueLit m) ms"
proof (induction ms)
  case (Cons p ms)
  have "isUndefLit m (snd p) \<Longrightarrow> \<not> isTrueLit m (snd p)" by (simp add: isUndefLit_def isTrueLit_def split: if_splits)
  then show ?case using Cons agrees_lits [OF assms] by auto
qed simp

text \<open>What the collected constraints say.\<close>

definition col_sat :: "assignment \<Rightarrow> collected \<Rightarrow> bool" where
  "col_sat \<sigma> A \<longleftrightarrow> (\<forall>c \<in> set (col_pbs A). sat \<sigma> (cc_wc c)) \<and> (\<forall>c \<in> set (col_cls A). clause_sat \<sigma> (map snd (lhs (cc_wc c))))
     \<and> (\<forall>(a, b) \<in> set (col_bins A). lit_true \<sigma> a \<or> lit_true \<sigma> b)"

definition pb_undef :: "model \<Rightarrow> pbconstraint \<Rightarrow> monomial list" where
  "pb_undef m c = filter (\<lambda>p. isUndefLit m (snd p)) (pb_lhs c)"

lemma clause_two: "clause_sat \<sigma> (map snd ms) \<Longrightarrow> length ms = 2 \<Longrightarrow> lit_true \<sigma> (snd (ms ! 0)) \<or> lit_true \<sigma> (snd (ms ! 1))"
  by (auto simp: clause_sat_def numeral_2_eq_2 length_Suc_conv)

lemma two_clause: "length ms = 2 \<Longrightarrow> clause_sat \<sigma> (map snd ms) \<longleftrightarrow> lit_true \<sigma> (snd (ms ! 0)) \<or> lit_true \<sigma> (snd (ms ! 1))"
  by (auto simp: clause_sat_def numeral_2_eq_2 length_Suc_conv)

lemma ordered_pair_sat: "ordered_pair a b = (x, y) \<Longrightarrow> lit_true \<sigma> x \<or> lit_true \<sigma> y \<longleftrightarrow> lit_true \<sigma> a \<or> lit_true \<sigma> b"
  by (auto simp: ordered_pair_def split: if_splits)

lemma cleanup_pb_correct:
  assumes pos: "pos_coeffs (pb_lhs c)" and k: "msum (isTrueLit m) (pb_lhs c) < pb_rhs c" and sz: "2 \<le> length (pb_undef m c)"
  obtains A' where "cleanup_pb m c A = Some A'"
    "\<And>\<sigma>. wf_model m \<Longrightarrow> agrees \<sigma> m \<Longrightarrow> col_sat \<sigma> A' \<longleftrightarrow> col_sat \<sigma> A \<and> pb_sat \<sigma> c"
proof -
  define w where "w = \<lparr>lhs = pb_undef m c, rhs = pb_rhs c - msum (isTrueLit m) (pb_lhs c)\<rparr>"
  have ku: "keep_undef m (pb_lhs c) [] (pb_rhs c) = (lhs w, rhs w)" by (simp add: keep_undef_eq [OF pos] w_def pb_undef_def)
  have sw: "simplify \<lparr>lhs = lhs w, rhs = rhs w\<rparr> = simplify w" by (simp add: w_def)
  have w0: "0 < rhs w" "pos_coeffs (lhs w)" using pos k by (auto simp: w_def pb_undef_def pos_coeffs_def)
  obtain wc where wc: "simplify w = Some wc" "\<And>\<sigma>. sat \<sigma> wc = sat \<sigma> w" "0 < rhs wc" "map snd (lhs wc) = map snd (lhs w)"
    "\<forall>p \<in> set (lhs wc). 0 < fst p \<and> fst p \<le> rhs wc"
    by (rule simplify_correct [OF w0]) blast
  have len: "2 \<le> length (lhs wc)" using sz wc(4) map_eq_imp_length_eq [of snd "lhs wc" snd "lhs w"] by (simp add: w_def)
  have eq: "sat \<sigma> wc \<longleftrightarrow> pb_sat \<sigma> c" if "wf_model m" "agrees \<sigma> m" for \<sigma>
    using value_split [OF that, of "pb_lhs c"] unfolding wc(2) by (simp add: sat_def w_def pb_undef_def pb_sat_def) linarith
  have cl: "sat \<sigma> wc \<longleftrightarrow> clause_sat \<sigma> (map snd (lhs wc))" if "rhs wc = 1" for \<sigma>
  proof -
    have "pos_coeffs (lhs wc)" using wc(5) by (auto simp: pos_coeffs_def)
    then have "0 < lhs_value \<sigma> (lhs wc) \<longleftrightarrow> (\<exists>p \<in> set (lhs wc). lit_true \<sigma> (snd p))" by (rule msum_pos_iff)
    then show ?thesis using that by (auto simp: sat_def clause_sat_def)
  qed
  define A' where "A' = the (cleanup_pb m c A)"
  have run: "cleanup_pb m c A = Some A'"
    by (simp add: cleanup_pb_def ku sw wc(1) A'_def)
  have "col_sat \<sigma> A' \<longleftrightarrow> col_sat \<sigma> A \<and> sat \<sigma> wc" for \<sigma>
  proof -
    consider "rhs wc = 1" "length (lhs wc) = 2" | "rhs wc = 1" "length (lhs wc) > 2" | "rhs wc \<noteq> 1" using len by linarith
    then show ?thesis
    proof cases
      case 1
      obtain x y where xy: "ordered_pair (snd (lhs wc ! 0)) (snd (lhs wc ! 1)) = (x, y)" by fastforce
      have "A' = A\<lparr>col_bins := col_bins A @ [(x, y)]\<rparr>"
        using 1 xy by (simp add: A'_def cleanup_pb_def ku sw wc(1) getSize_def getIthLiteral_def)
      then show ?thesis using cl [OF 1(1)] two_clause [OF 1(2)] ordered_pair_sat [OF xy] by (auto simp: col_sat_def)
    next
      case 2
      then show ?thesis using cl [OF 2(1)] by (auto simp: A'_def cleanup_pb_def ku sw wc(1) getSize_def col_sat_def)
    next
      case 3
      then show ?thesis by (auto simp: A'_def cleanup_pb_def ku sw wc(1) col_sat_def)
    qed
  qed
  then show ?thesis using that run eq by simp
qed

lemma cleanup_clause_correct:
  assumes sz: "2 \<le> length (filter (isUndefLit m) (cl_lits c))" and nt: "\<forall>l \<in> set (cl_lits c). \<not> isTrueLit m l"
    and w: "wf_model m" "agrees \<sigma> m"
  shows "col_sat \<sigma> (cleanup_clause m c A) \<longleftrightarrow> col_sat \<sigma> A \<and> clause_sat \<sigma> (cl_lits c)"
proof -
  let ?ls = "filter (isUndefLit m) (cl_lits c)"
  have eq: "clause_sat \<sigma> (cl_lits c) \<longleftrightarrow> clause_sat \<sigma> ?ls" using nt agrees_lits [OF w] by (auto simp: clause_sat_def)
  show ?thesis
  proof (cases "length ?ls = 2")
    case True
    obtain x y where xy: "ordered_pair (?ls ! 0) (?ls ! 1) = (x, y)" by fastforce
    have "cleanup_clause m c A = A\<lparr>col_bins := col_bins A @ [(x, y)]\<rparr>"
      using True xy by (simp add: cleanup_clause_def getSize_def getIthLiteral_def)
    moreover have "clause_sat \<sigma> ?ls \<longleftrightarrow> lit_true \<sigma> (?ls ! 0) \<or> lit_true \<sigma> (?ls ! 1)"
      using True two_clause [of "map (Pair (1::int)) ?ls" \<sigma>] by (simp add: o_def)
    ultimately show ?thesis using eq ordered_pair_sat [OF xy, of \<sigma>] by (auto simp: col_sat_def)
  next
    case False
    then show ?thesis using eq by (auto simp: cleanup_clause_def getSize_def col_sat_def o_def)
  qed
qed

section \<open>The passes\<close>

definition pb_cleanable :: "model \<Rightarrow> pbconstraint \<Rightarrow> bool" where
  "pb_cleanable m c \<longleftrightarrow> pos_coeffs (pb_lhs c) \<and> msum (isTrueLit m) (pb_lhs c) < pb_rhs c \<and> 2 \<le> length (pb_undef m c)"

lemma cleanupPBConstraints_correct:
  assumes "\<And>i. i < length cs \<Longrightarrow> int (k + i) \<noteq> newest \<Longrightarrow> \<not> rem ! (k + i) \<Longrightarrow> pb_cleanable (solver_model (sv s)) (cs ! i)"
  shows "\<exists>A' s'. cleanupPBConstraints newest rem k cs A s = Some (A', s') \<and> sv s' = sv s
    \<and> (\<forall>\<sigma>. wf_model (solver_model (sv s)) \<longrightarrow> agrees \<sigma> (solver_model (sv s)) \<longrightarrow>
        col_sat \<sigma> A' = (col_sat \<sigma> A \<and> (\<forall>i < length cs. int (k + i) = newest \<or> \<not> rem ! (k + i) \<longrightarrow> pb_sat \<sigma> (cs ! i))))"
  using assms
proof (induction newest rem k cs A s rule: cleanupPBConstraints.induct)
  case (2 newest rem k c cs A s)
  let ?m = "solver_model (sv s)"
  have step: "(\<forall>i < length (c # cs). int (k + i) = newest \<or> \<not> rem ! (k + i) \<longrightarrow> pb_sat \<sigma> ((c # cs) ! i)) \<longleftrightarrow>
      (int k = newest \<or> \<not> rem ! k \<longrightarrow> pb_sat \<sigma> c) \<and> (\<forall>i < length cs. int (k + 1 + i) = newest \<or> \<not> rem ! (k + 1 + i) \<longrightarrow> pb_sat \<sigma> (cs ! i))" for \<sigma>
    by (simp add: All_less_Suc2 ac_simps)
  have rest: "pb_cleanable ?m (cs ! i)" if "i < length cs" "int (k + 1 + i) \<noteq> newest" "\<not> rem ! (k + 1 + i)" for i
    using "2.prems" [of "Suc i"] that by simp
  consider "int k = newest" | "int k \<noteq> newest" "\<not> rem ! k" | "int k \<noteq> newest" "rem ! k" by blast
  then show ?case
  proof cases
    case 1
    let ?n = "length (col_pbs A)" let ?x = "\<lparr>cc_wc = wc_of_pb c, cc_isInit = pb_isInit c, cc_activity = pb_activity c sdiv 2, cc_LBD = pb_LBD c\<rparr>"
    let ?A = "A\<lparr>col_pbs := col_pbs A @ [?x]\<rparr>"
    let ?s = "s\<lparr>obj_num := int ?n, objectiveFunctions := objectiveFunctions s @ [?n]\<rparr>"
    have e: "cleanupPBConstraints newest rem k (c # cs) A s = cleanupPBConstraints newest rem (k + 1) cs ?A ?s" using 1 by (simp add: Let_def)
    have A: "col_sat \<sigma> ?A \<longleftrightarrow> col_sat \<sigma> A \<and> pb_sat \<sigma> c" for \<sigma> by (auto simp: col_sat_def sat_def wc_of_pb_def pb_sat_def)
    from "2.IH"(1) [OF 1 refl refl] rest obtain A' s' where "cleanupPBConstraints newest rem (k + 1) cs ?A ?s = Some (A', s')" "sv s' = sv s"
      "\<And>\<sigma>. wf_model ?m \<Longrightarrow> agrees \<sigma> ?m \<Longrightarrow> col_sat \<sigma> A' = (col_sat \<sigma> ?A \<and> (\<forall>i < length cs. int (k + 1 + i) = newest \<or> \<not> rem ! (k + 1 + i) \<longrightarrow> pb_sat \<sigma> (cs ! i)))"
      by auto
    then show ?thesis unfolding e step using A 1 by auto
  next
    case 2
    have "pb_cleanable ?m c" using "2.prems" [of 0] 2 by simp
    then obtain A1 where A1: "cleanup_pb ?m c A = Some A1" "\<And>\<sigma>. wf_model ?m \<Longrightarrow> agrees \<sigma> ?m \<Longrightarrow> col_sat \<sigma> A1 \<longleftrightarrow> col_sat \<sigma> A \<and> pb_sat \<sigma> c"
      unfolding pb_cleanable_def using cleanup_pb_correct by metis
    have e: "cleanupPBConstraints newest rem k (c # cs) A s = cleanupPBConstraints newest rem (k + 1) cs A1 s" using 2 A1(1) by simp
    from "2.IH"(2) [OF 2 A1(1)] rest obtain A' s' where "cleanupPBConstraints newest rem (k + 1) cs A1 s = Some (A', s')" "sv s' = sv s"
      "\<And>\<sigma>. wf_model ?m \<Longrightarrow> agrees \<sigma> ?m \<Longrightarrow> col_sat \<sigma> A' = (col_sat \<sigma> A1 \<and> (\<forall>i < length cs. int (k + 1 + i) = newest \<or> \<not> rem ! (k + 1 + i) \<longrightarrow> pb_sat \<sigma> (cs ! i)))"
      by auto
    then show ?thesis unfolding e step using A1(2) 2 by auto
  next
    case 3
    have e: "cleanupPBConstraints newest rem k (c # cs) A s = cleanupPBConstraints newest rem (k + 1) cs A s" using 3 by simp
    show ?thesis unfolding e step using "2.IH"(3) [OF 3(1)] 3 rest by auto
  qed
qed auto

lemma cleanupClauses_correct:
  assumes "wf_model m" "agrees \<sigma> m"
    and "\<And>i. i < length cs \<Longrightarrow> \<not> rem ! (k + i) \<Longrightarrow> 2 \<le> length (filter (isUndefLit m) (cl_lits (cs ! i))) \<and> (\<forall>l \<in> set (cl_lits (cs ! i)). \<not> isTrueLit m l)"
  shows "col_sat \<sigma> (cleanupClauses m rem k cs A) \<longleftrightarrow> col_sat \<sigma> A \<and> (\<forall>i < length cs. \<not> rem ! (k + i) \<longrightarrow> clause_sat \<sigma> (cl_lits (cs ! i)))"
  using assms(3)
proof (induction cs arbitrary: k A)
  case (Cons c cs)
  have step: "(\<forall>i < length (c # cs). \<not> rem ! (k + i) \<longrightarrow> clause_sat \<sigma> (cl_lits ((c # cs) ! i))) \<longleftrightarrow>
      (\<not> rem ! k \<longrightarrow> clause_sat \<sigma> (cl_lits c)) \<and> (\<forall>i < length cs. \<not> rem ! (k + 1 + i) \<longrightarrow> clause_sat \<sigma> (cl_lits (cs ! i)))"
    by (simp add: All_less_Suc2)
  have rest: "2 \<le> length (filter (isUndefLit m) (cl_lits (cs ! i))) \<and> (\<forall>l \<in> set (cl_lits (cs ! i)). \<not> isTrueLit m l)"
    if "i < length cs" "\<not> rem ! (k + 1 + i)" for i
    using Cons.prems [of "Suc i"] that by simp
  have hd: "\<not> rem ! k \<Longrightarrow> col_sat \<sigma> (cleanup_clause m c A) \<longleftrightarrow> col_sat \<sigma> A \<and> clause_sat \<sigma> (cl_lits c)"
    using Cons.prems [of 0] by (intro cleanup_clause_correct [OF _ _ assms(1,2)]) auto
  note IH = Cons.IH [of "k + 1", OF rest]
  show ?case unfolding step using hd IH by auto
qed simp

text \<open>Binary clauses are stored under both literals, over different variables.\<close>

definition bins_ok :: "('a::linorder) solver \<Rightarrow> bool" where
  "bins_ok v \<longleftrightarrow> (\<forall>l. \<forall>l' \<in> set (binClauses v l). l \<in> set (binClauses v l') \<and> \<bar>l'\<bar> \<noteq> \<bar>l\<bar> \<and> l' \<noteq> 0 \<and> \<bar>l'\<bar> \<le> numVars v)"

definition bins_quiet :: "('a::linorder) solver \<Rightarrow> bool" where
  "bins_quiet v \<longleftrightarrow> (let m = solver_model v in \<forall>l. \<forall>l' \<in> set (binClauses v l). isTrueLit m l \<or> isTrueLit m l' \<or> isUndefLit m l \<and> isUndefLit m l')"

definition bins_sat :: "assignment \<Rightarrow> ('a::linorder) solver \<Rightarrow> bool" where
  "bins_sat \<sigma> v \<longleftrightarrow> (\<forall>l. \<forall>l' \<in> set (binClauses v l). lit_true \<sigma> l \<or> lit_true \<sigma> l')"

lemma cleanupBinaryClauses_correct:
  assumes ok: "bins_ok v" and q: "bins_quiet v" and w: "wf_model (solver_model v)" "agrees \<sigma> (solver_model v)"
  shows "col_sat \<sigma> (cleanupBinaryClauses v A) \<longleftrightarrow> col_sat \<sigma> A \<and> bins_sat \<sigma> v"
proof -
  let ?m = "solver_model v"
  define pairs where "pairs l = (if isUndefLit ?m \<bar>l\<bar> then map (Pair l) (filter (\<lambda>lit2. isUndefLit ?m lit2 \<and> \<bar>l\<bar> < \<bar>lit2\<bar>) (binClauses v l)) else [])" for l
  define new where "new = concat (map pairs [1..numVars v]) @ concat (map (\<lambda>x. pairs (- x)) [1..numVars v - 1])"
  have abs_undef: "isUndefLit ?m \<bar>l\<bar> = isUndefLit ?m l" for l by (simp add: isUndefLit_def)
  have mem: "p \<in> set (pairs l) \<longleftrightarrow> isUndefLit ?m l \<and> (\<exists>l' \<in> set (binClauses v l). p = (l, l') \<and> isUndefLit ?m l' \<and> \<bar>l\<bar> < \<bar>l'\<bar>)" for p l
    by (auto simp: pairs_def abs_undef)
  have up: "bins_sat \<sigma> v" if n: "\<And>a b. (a, b) \<in> set new \<Longrightarrow> lit_true \<sigma> a \<or> lit_true \<sigma> b"
    unfolding bins_sat_def
  proof (intro allI ballI)
    have small: "lit_true \<sigma> l \<or> lit_true \<sigma> l'" if h: "l' \<in> set (binClauses v l)" "\<bar>l\<bar> < \<bar>l'\<bar>" for l l'
    proof (cases "isUndefLit ?m l \<and> isUndefLit ?m l'")
      case True
      have "l \<noteq> 0" "\<bar>l'\<bar> \<le> numVars v" using ok h unfolding bins_ok_def by blast+
      moreover have "(l, l') \<in> set (pairs l)" using True h mem by blast
      moreover have "l \<in> set [1..numVars v] \<or> - l \<in> set [1..numVars v - 1]" if "l \<noteq> 0" "\<bar>l'\<bar> \<le> numVars v" using that h(2) by auto
      moreover have "l \<in> set [1..numVars v] \<Longrightarrow> set (pairs l) \<subseteq> set new" by (auto simp: new_def)
      moreover have "- l \<in> set [1..numVars v - 1] \<Longrightarrow> set (pairs (- (- l))) \<subseteq> set new" unfolding new_def set_append set_concat set_map by blast
      ultimately have "(l, l') \<in> set new" by auto
      then show ?thesis by (rule n)
    next
      case False
      then have "isTrueLit ?m l \<or> isTrueLit ?m l'" using q h(1) unfolding bins_quiet_def Let_def by blast
      then show ?thesis using w(2) by (auto simp: wf_true [OF w(1)] agrees_def)
    qed
    fix l l' assume l: "l' \<in> set (binClauses v l)"
    then have "l \<in> set (binClauses v l')" "\<bar>l'\<bar> \<noteq> \<bar>l\<bar>" using ok unfolding bins_ok_def by blast+
    then show "lit_true \<sigma> l \<or> lit_true \<sigma> l'" using small [OF l] small [of l l'] by linarith
  qed
  have down: "lit_true \<sigma> a \<or> lit_true \<sigma> b" if "bins_sat \<sigma> v" "(a, b) \<in> set new" for a b
    using that mem unfolding new_def bins_sat_def by auto
  have "cleanupBinaryClauses v A = A\<lparr>col_bins := col_bins A @ new\<rparr>"
    by (simp add: cleanupBinaryClauses_def Let_def new_def pairs_def [abs_def])
  then have "col_sat \<sigma> (cleanupBinaryClauses v A) \<longleftrightarrow> col_sat \<sigma> A \<and> (\<forall>(a, b) \<in> set new. lit_true \<sigma> a \<or> lit_true \<sigma> b)"
    by (auto simp: col_sat_def)
  moreover have "(\<forall>(a, b) \<in> set new. lit_true \<sigma> a \<or> lit_true \<sigma> b) \<longleftrightarrow> bins_sat \<sigma> v" using up down by blast
  ultimately show ?thesis by simp
qed

section \<open>The new database\<close>

lemma push_simps_db [simp]:
  "constraintsPB (build_watch_loop i cs v) = constraintsPB v" "clauses (build_watch_loop i cs v) = clauses v"
  "binClauses (build_watch_loop i cs v) = binClauses v" "solver_model (build_watch_loop i cs v) = solver_model v"
  "numVars (build_watch_loop i cs v) = numVars v"
  by (induction i cs v rule: build_watch_loop.induct) (simp_all add: Let_def)

lemma occ_fold_simps [simp]:
  defines "f \<equiv> \<lambda>i ms v. fold (\<lambda>(k, l) v. push_gen l (COUNTERPB k i) (push_occ l (i, k) v)) ms v"
  shows "constraintsPB (f i ms v) = constraintsPB v" "clauses (f i ms v) = clauses v" "binClauses (f i ms v) = binClauses v"
    "solver_model (f i ms v) = solver_model v" "numVars (f i ms v) = numVars v"
  unfolding f_def by (induction ms arbitrary: v; auto simp: push_occ_def)+

lemma occur_loop_simps [simp]:
  "constraintsPB (build_occur_loop i cs v) = constraintsPB v" "clauses (build_occur_loop i cs v) = clauses v"
  "binClauses (build_occur_loop i cs v) = binClauses v" "solver_model (build_occur_loop i cs v) = solver_model v"
  "numVars (build_occur_loop i cs v) = numVars v"
  by (induction i cs v rule: build_occur_loop.induct) simp_all

lemma cleaned_clauses_simps [simp]:
  "clauses (fold push_cleaned_clause cs v) = clauses v @ map clause_of_cleanup cs"
  "constraintsPB (fold push_cleaned_clause cs v) = constraintsPB v" "binClauses (fold push_cleaned_clause cs v) = binClauses v"
  "solver_model (fold push_cleaned_clause cs v) = solver_model v" "numVars (fold push_cleaned_clause cs v) = numVars v"
  by (induction cs arbitrary: v; simp add: push_cleaned_clause_def)+

lemma cleaned_pbs_simps [simp]:
  "constraintsPB (fold push_cleaned_pb cs v) = constraintsPB v @ map (\<lambda>c. pb_of_wconstraint (cc_wc c) (cc_isInit c) (cc_activity c) (cc_LBD c)) cs"
  "clauses (fold push_cleaned_pb cs v) = clauses v" "binClauses (fold push_cleaned_pb cs v) = binClauses v"
  "solver_model (fold push_cleaned_pb cs v) = solver_model v" "numVars (fold push_cleaned_pb cs v) = numVars v"
  by (induction cs arbitrary: v; simp add: push_cleaned_pb_def Let_def)+

lemma build_bins_simps [simp]:
  "constraintsPB (buildBinaryClauses bs v) = constraintsPB v" "clauses (buildBinaryClauses bs v) = clauses v"
  "solver_model (buildBinaryClauses bs v) = solver_model v" "numVars (buildBinaryClauses bs v) = numVars v"
  unfolding buildBinaryClauses_def by (induction bs arbitrary: v; auto simp: addBinaryClause_def push_bin_def)+

lemma build_bins_sat: "bins_sat \<sigma> (buildBinaryClauses bs v) \<longleftrightarrow> bins_sat \<sigma> v \<and> (\<forall>(a, b) \<in> set bs. lit_true \<sigma> a \<or> lit_true \<sigma> b)"
  unfolding buildBinaryClauses_def
proof (induction bs arbitrary: v)
  case (Cons p bs)
  obtain a b where p: "p = (a, b)" by fastforce
  have "bins_sat \<sigma> (addBinaryClause a b v) \<longleftrightarrow> bins_sat \<sigma> v \<and> (lit_true \<sigma> a \<or> lit_true \<sigma> b)"
  proof -
    have m: "l' \<in> set (binClauses (addBinaryClause a b v) l) \<longleftrightarrow> l' \<in> set (binClauses v l) \<or> l = a \<and> l' = b \<or> l = b \<and> l' = a" for l l'
      by (simp add: addBinaryClause_lists(1))
    show ?thesis unfolding bins_sat_def Ball_def m by blast
  qed
  then show ?case using Cons.IH [of "addBinaryClause a b v"] by (simp add: p)
qed simp

lemma rebuild_model [simp]: "solver_model (rebuild A v) = solver_model v" "numVars (rebuild A v) = numVars v"
  by (simp_all add: rebuild_def Let_def buildOccurListsAndPBWatches_def buildWatchLists_def empty_database_def)

lemma rebuild_lists:
  "clauses (rebuild A v) = map clause_of_cleanup (col_cls A)"
  "constraintsPB (rebuild A v) = map (\<lambda>c. pb_of_wconstraint (cc_wc c) (cc_isInit c) (cc_activity c) (cc_LBD c)) (col_pbs A)"
  by (simp_all add: rebuild_def Let_def buildOccurListsAndPBWatches_def buildWatchLists_def empty_database_def)

lemma rebuild_sat: "db_sat \<sigma> (rebuild A v) \<longleftrightarrow> col_sat \<sigma> A"
proof -
  have b: "bins_sat \<sigma> (rebuild A v) \<longleftrightarrow> (\<forall>(a, b) \<in> set (col_bins A). lit_true \<sigma> a \<or> lit_true \<sigma> b)"
  proof -
    have "binClauses (rebuild A v) = binClauses (buildBinaryClauses (col_bins A) (empty_database v))"
      by (simp add: rebuild_def Let_def buildOccurListsAndPBWatches_def buildWatchLists_def)
    then have "bins_sat \<sigma> (rebuild A v) = bins_sat \<sigma> (buildBinaryClauses (col_bins A) (empty_database v))" by (simp only: bins_sat_def)
    moreover have "bins_sat \<sigma> (empty_database v)" by (simp add: bins_sat_def empty_database_def)
    ultimately show ?thesis using build_bins_sat by blast
  qed
  have p: "(\<forall>c \<in> set (constraintsPB (rebuild A v)). pb_sat \<sigma> c) \<longleftrightarrow> (\<forall>c \<in> set (col_pbs A). sat \<sigma> (cc_wc c))"
    by (simp add: rebuild_lists pb_sat_def pb_of_wconstraint_def sat_def)
  have q: "(\<forall>c \<in> set (clauses (rebuild A v)). clause_sat \<sigma> (cl_lits c)) \<longleftrightarrow> (\<forall>c \<in> set (col_cls A). clause_sat \<sigma> (map snd (lhs (cc_wc c))))"
    by (simp add: rebuild_lists clause_of_cleanup_def cl_of_lits_def)
  show ?thesis unfolding db_sat_def col_sat_def p q using b unfolding bins_sat_def by blast
qed

section \<open>What is marked\<close>

lemma mark_learned_simps [simp]:
  "mk_removed (mark_learned a b L t i K) = mk_removed K"
  "set (mk_LBDAct (mark_learned a b L t i K)) = set (mk_LBDAct K) \<union> (if a then {(L, t, i)} else {})"
  by (auto simp: mark_learned_def)

definition ids :: "lbd_act list \<Rightarrow> nat set" where "ids xs = (\<lambda>(L, t, i). i) ` set xs"

lemma ids_mark [simp]: "ids (mk_LBDAct (mark_learned a b L t i K)) = ids (mk_LBDAct K) \<union> (if a then {i} else {})"
  by (auto simp: ids_def)

text \<open>After a pass from number \<open>i\<close> on: what \<open>gone\<close> holds of is marked, and nothing else but learned constraints is listed.\<close>

definition pass_ok :: "nat \<Rightarrow> nat \<Rightarrow> (nat \<Rightarrow> bool) \<Rightarrow> (nat \<Rightarrow> bool) \<Rightarrow> (nat \<Rightarrow> bool) \<Rightarrow> marking \<Rightarrow> marking \<Rightarrow> bool" where
  "pass_ok i n skip gone lrn K K' \<longleftrightarrow> length (mk_removed K') = length (mk_removed K)
     \<and> (\<forall>j. mk_removed K' ! j \<longleftrightarrow> mk_removed K ! j \<or> i \<le> j \<and> j < i + n \<and> \<not> skip j \<and> gone (j - i))
     \<and> ids (mk_LBDAct K') \<subseteq> ids (mk_LBDAct K) \<union> {j. i \<le> j \<and> j < i + n \<and> lrn (j - i)}"

lemma mark_pbs_pass:
  "i + length cs \<le> length (mk_removed K) \<Longrightarrow>
   pass_ok i (length cs) (\<lambda>j. int j = obj \<or> mk_removed K ! j) (\<lambda>t. true_sum m (pb_lhs (cs ! t)) (- pb_rhs (cs ! t)) \<ge> 0)
     (\<lambda>t. \<not> pb_isInit (cs ! t)) K (mark_pbs m obj i cs K)"
proof (induction cs arbitrary: i K)
  case Nil
  then show ?case by (auto simp: pass_ok_def)
next
  case (Cons c cs)
  define K1 where "K1 = (if int i = obj \<or> mk_removed K ! i then K
         else if true_sum m (pb_lhs c) (- pb_rhs c) \<ge> 0 then K\<lparr>mk_removed := (mk_removed K)[i := True]\<rparr>
         else if \<not> pb_isInit c then mark_learned (length (pb_lhs c) > 2 \<and> pb_LBD c > 2) (length (pb_lhs c) \<le> 2 \<or> pb_LBD c \<le> 3) (pb_LBD c) (pb_activity c) i K
         else K)"
  have e: "mark_pbs m obj i (c # cs) K = mark_pbs m obj (i + 1) cs K1" by (simp add: Let_def K1_def)
  have rm: "length (mk_removed K1) = length (mk_removed K)"
    "mk_removed K1 ! j \<longleftrightarrow> mk_removed K ! j \<or> j = i \<and> int i \<noteq> obj \<and> true_sum m (pb_lhs c) (- pb_rhs c) \<ge> 0" for j
    using Cons.prems by (auto simp: K1_def nth_list_update)
  have id: "ids (mk_LBDAct K1) \<subseteq> ids (mk_LBDAct K) \<union> (if pb_isInit c then {} else {i})" by (auto simp: K1_def)
  have IH: "pass_ok (i + 1) (length cs) (\<lambda>j. int j = obj \<or> mk_removed K1 ! j) (\<lambda>t. true_sum m (pb_lhs (cs ! t)) (- pb_rhs (cs ! t)) \<ge> 0)
     (\<lambda>t. \<not> pb_isInit (cs ! t)) K1 (mark_pbs m obj (i + 1) cs K1)"
    using Cons.IH [of "i + 1" K1] Cons.prems rm(1) by simp
  have nth: "(c # cs) ! (j - i) = (if j = i then c else cs ! (j - (i + 1)))" if "i \<le> j" for j using that by (simp add: nth_Cons')
  show ?case unfolding e pass_ok_def
  proof (intro conjI allI)
    show "length (mk_removed (mark_pbs m obj (i + 1) cs K1)) = length (mk_removed K)" using IH rm(1) by (simp add: pass_ok_def)
    show "mk_removed (mark_pbs m obj (i + 1) cs K1) ! j \<longleftrightarrow> mk_removed K ! j \<or> i \<le> j \<and> j < i + length (c # cs)
        \<and> \<not> (int j = obj \<or> mk_removed K ! j) \<and> 0 \<le> true_sum m (pb_lhs ((c # cs) ! (j - i))) (- pb_rhs ((c # cs) ! (j - i)))" for j
      using IH rm(2) nth [of j] unfolding pass_ok_def by (cases "i < j") (auto simp: Suc_le_eq)
    show "ids (mk_LBDAct (mark_pbs m obj (i + 1) cs K1)) \<subseteq> ids (mk_LBDAct K) \<union> {j. i \<le> j \<and> j < i + length (c # cs) \<and> \<not> pb_isInit ((c # cs) ! (j - i))}"
    proof
      fix j assume "j \<in> ids (mk_LBDAct (mark_pbs m obj (i + 1) cs K1))"
      then have "j \<in> ids (mk_LBDAct K1) \<or> i + 1 \<le> j \<and> j < i + 1 + length cs \<and> \<not> pb_isInit (cs ! (j - (i + 1)))" using IH unfolding pass_ok_def by blast
      then show "j \<in> ids (mk_LBDAct K) \<union> {j. i \<le> j \<and> j < i + length (c # cs) \<and> \<not> pb_isInit ((c # cs) ! (j - i))}"
        using id nth [of j] by (auto split: if_splits)
    qed
  qed
qed

lemma mark_clauses_pass:
  "i + length cs \<le> length (mk_removed K) \<Longrightarrow>
   pass_ok i (length cs) (\<lambda>j. False) (\<lambda>t. \<exists>l \<in> set (cl_lits (cs ! t)). isTrueLit m l) (\<lambda>t. \<not> cl_isInit (cs ! t)) K (mark_clauses m i cs K)"
proof (induction cs arbitrary: i K)
  case Nil
  then show ?case by (auto simp: pass_ok_def)
next
  case (Cons c cs)
  define K1 where "K1 = (if \<exists>l \<in> set (cl_lits c). isTrueLit m l then K\<lparr>mk_removed := (mk_removed K)[i := True]\<rparr>
         else if \<not> cl_isInit c then mark_learned (cl_LBD c > 2) (length (cl_lits c) \<le> 2 \<or> cl_LBD c \<le> 3) (cl_LBD c) (cl_activity c) i K
         else K)"
  have e: "mark_clauses m i (c # cs) K = mark_clauses m (i + 1) cs K1" by (simp add: Let_def K1_def)
  have rm: "length (mk_removed K1) = length (mk_removed K)"
    "mk_removed K1 ! j \<longleftrightarrow> mk_removed K ! j \<or> j = i \<and> (\<exists>l \<in> set (cl_lits c). isTrueLit m l)" for j
    using Cons.prems by (auto simp: K1_def nth_list_update)
  have id: "ids (mk_LBDAct K1) \<subseteq> ids (mk_LBDAct K) \<union> (if cl_isInit c then {} else {i})" by (auto simp: K1_def)
  have IH: "pass_ok (i + 1) (length cs) (\<lambda>j. False) (\<lambda>t. \<exists>l \<in> set (cl_lits (cs ! t)). isTrueLit m l)
     (\<lambda>t. \<not> cl_isInit (cs ! t)) K1 (mark_clauses m (i + 1) cs K1)"
    using Cons.IH [of "i + 1" K1] Cons.prems rm(1) by simp
  have nth: "(c # cs) ! (j - i) = (if j = i then c else cs ! (j - (i + 1)))" if "i \<le> j" for j using that by (simp add: nth_Cons')
  show ?case unfolding e pass_ok_def
  proof (intro conjI allI)
    show "length (mk_removed (mark_clauses m (i + 1) cs K1)) = length (mk_removed K)" using IH rm(1) by (simp add: pass_ok_def)
    show "mk_removed (mark_clauses m (i + 1) cs K1) ! j \<longleftrightarrow> mk_removed K ! j \<or> i \<le> j \<and> j < i + length (c # cs)
        \<and> \<not> False \<and> (\<exists>l \<in> set (cl_lits ((c # cs) ! (j - i))). isTrueLit m l)" for j
      using IH rm(2) nth [of j] unfolding pass_ok_def by (cases "i < j") (auto simp: Suc_le_eq)
    show "ids (mk_LBDAct (mark_clauses m (i + 1) cs K1)) \<subseteq> ids (mk_LBDAct K) \<union> {j. i \<le> j \<and> j < i + length (c # cs) \<and> \<not> cl_isInit ((c # cs) ! (j - i))}"
    proof
      fix j assume "j \<in> ids (mk_LBDAct (mark_clauses m (i + 1) cs K1))"
      then have "j \<in> ids (mk_LBDAct K1) \<or> i + 1 \<le> j \<and> j < i + 1 + length cs \<and> \<not> cl_isInit (cs ! (j - (i + 1)))" using IH unfolding pass_ok_def by blast
      then show "j \<in> ids (mk_LBDAct K) \<union> {j. i \<le> j \<and> j < i + length (c # cs) \<and> \<not> cl_isInit ((c # cs) ! (j - i))}"
        using id nth [of j] by (auto split: if_splits)
    qed
  qed
qed

lemma fold_mark:
  "\<forall>j \<in> set js. j < length rem \<Longrightarrow> length (fold (\<lambda>i rem. rem[i := True]) js rem) = length rem
     \<and> (\<forall>j. fold (\<lambda>i rem. rem[i := True]) js rem ! j \<longleftrightarrow> rem ! j \<or> j \<in> set js)"
proof (induction js arbitrary: rem)
  case (Cons j js)
  then show ?case by (auto simp: nth_list_update)
qed simp

lemma remove_worst_marks:
  assumes "\<forall>j \<in> ids (mk_LBDAct K). j < length (mk_removed K)" "\<And>n xs. set (shuffle n xs) \<subseteq> set xs"
  shows "mk_removed K ! j \<Longrightarrow> remove_worst shuffle seed K ! j" "remove_worst shuffle seed K ! j \<Longrightarrow> mk_removed K ! j \<or> j \<in> ids (mk_LBDAct K)"
proof -
  define xs where "xs = take (min (mk_total K div 2) (length (sort_key (\<lambda>(LBD, activ, i). (- LBD, activ)) (shuffle seed (mk_LBDAct K)))))
    (sort_key (\<lambda>(LBD, activ, i). (- LBD, activ)) (shuffle seed (mk_LBDAct K)))"
  have "set xs \<subseteq> set (shuffle seed (mk_LBDAct K))" unfolding xs_def by (rule subset_trans [OF set_take_subset]) simp
  then have "set xs \<subseteq> set (mk_LBDAct K)" using assms(2) by blast
  then have sub: "set (map (\<lambda>(L, t, i). i) xs) \<subseteq> ids (mk_LBDAct K)" by (force simp: ids_def)
  have "remove_worst shuffle seed K = fold (\<lambda>(LBD, activ, i) rem. rem[i := True]) xs (mk_removed K)"
    by (simp add: remove_worst_def Let_def xs_def)
  also have "\<dots> = fold (\<lambda>i rem. rem[i := True]) (map (\<lambda>(L, t, i). i) xs) (mk_removed K)"
    by (simp add: fold_map o_def split_def)
  finally have e: "remove_worst shuffle seed K = \<dots>" .
  have b: "\<forall>j \<in> set (map (\<lambda>(L, t, i). i) xs). j < length (mk_removed K)" using sub assms(1) by blast
  show "mk_removed K ! j \<Longrightarrow> remove_worst shuffle seed K ! j" "remove_worst shuffle seed K ! j \<Longrightarrow> mk_removed K ! j \<or> j \<in> ids (mk_LBDAct K)"
    using fold_mark [OF b] sub unfolding e by blast+
qed

section \<open>The whole cleanup\<close>

text \<open>
  Where the search calls it: propagation at level zero has ended without a conflict, so what the
  trail does not satisfy has two unassigned literals; the newest bound of the objective is the one
  whose number the solver keeps.
\<close>

definition cleanup_ready :: "('a::linorder) search \<Rightarrow> bool" where
  "cleanup_ready s \<longleftrightarrow> (let v = sv s; m = solver_model v in
     (\<forall>c \<in> set (constraintsPB v). pos_coeffs (pb_lhs c) \<and> (msum (isTrueLit m) (pb_lhs c) \<ge> pb_rhs c \<or> 2 \<le> length (pb_undef m c)))
   \<and> (\<forall>c \<in> set (clauses v). (\<exists>l \<in> set (cl_lits c). isTrueLit m l) \<or> 2 \<le> length (filter (isUndefLit m) (cl_lits c)))
   \<and> bins_ok v \<and> bins_quiet v \<and> wf_model m
   \<and> (\<forall>i \<in> set (objectiveFunctions s). i < length (constraintsPB v))
   \<and> obj_num s = (if objectiveFunctions s \<noteq> [] then int (last (objectiveFunctions s)) else -1))"

text \<open>What a solution of the new database has to satisfy of the old one.\<close>

definition kept_sat :: "assignment \<Rightarrow> ('a::linorder) search \<Rightarrow> bool" where
  "kept_sat \<sigma> s \<longleftrightarrow>
     (\<forall>i < length (constraintsPB (sv s)). int i = obj_num s \<or> pb_isInit (constraintsPB (sv s) ! i) \<and> i \<notin> set (butlast (objectiveFunctions s))
        \<longrightarrow> pb_sat \<sigma> (constraintsPB (sv s) ! i))
   \<and> (\<forall>c \<in> set (clauses (sv s)). cl_isInit c \<longrightarrow> clause_sat \<sigma> (cl_lits c)) \<and> bins_sat \<sigma> (sv s)"

lemma marked_facts:
  assumes obj: "\<forall>i \<in> set (objectiveFunctions s). i < length (constraintsPB (sv s))"
    and sh: "\<And>n xs. set (shuffle n xs) \<subseteq> set xs"
  defines "rem \<equiv> snd (marked_constraints shuffle s)" and "n \<equiv> length (constraintsPB (sv s))" and "m \<equiv> solver_model (sv s)"
  shows "i < n \<Longrightarrow> int i \<noteq> obj_num s \<Longrightarrow> \<not> rem ! i \<Longrightarrow> true_sum m (pb_lhs (constraintsPB (sv s) ! i)) (- pb_rhs (constraintsPB (sv s) ! i)) < 0"
    "i < n \<Longrightarrow> rem ! i \<Longrightarrow> i \<in> set (butlast (objectiveFunctions s)) \<or> \<not> pb_isInit (constraintsPB (sv s) ! i)
        \<or> true_sum m (pb_lhs (constraintsPB (sv s) ! i)) (- pb_rhs (constraintsPB (sv s) ! i)) \<ge> 0"
    "j < length (clauses (sv s)) \<Longrightarrow> \<not> rem ! (n + j) \<Longrightarrow> \<forall>l \<in> set (cl_lits (clauses (sv s) ! j)). \<not> isTrueLit m l"
    "j < length (clauses (sv s)) \<Longrightarrow> rem ! (n + j) \<Longrightarrow> \<not> cl_isInit (clauses (sv s) ! j) \<or> (\<exists>l \<in> set (cl_lits (clauses (sv s) ! j)). isTrueLit m l)"
proof -
  let ?nc = "length (clauses (sv s))"
  define old where "old = fold (\<lambda>i rem. rem[i := True]) (butlast (objectiveFunctions s)) (replicate (n + ?nc) False)"
  define K0 where "K0 = \<lparr>mk_removed = old, mk_LBDAct = [], mk_promising = 0, mk_total = 0\<rparr>"
  define K1 where "K1 = mark_pbs m (obj_num s) 0 (constraintsPB (sv s)) K0"
  define K2 where "K2 = mark_clauses m n (clauses (sv s)) K1"
  have bl: "j < n" if "j \<in> set (butlast (objectiveFunctions s))" for j using obj in_set_butlastD [OF that] by (simp add: n_def)
  have "\<forall>j \<in> set (butlast (objectiveFunctions s)). j < length (replicate (n + ?nc) False)"
    using bl by fastforce
  from fold_mark [OF this] have old: "length old = n + ?nc" "\<And>j. j < n + ?nc \<Longrightarrow> old ! j \<longleftrightarrow> j \<in> set (butlast (objectiveFunctions s))"
    by (simp_all add: old_def)
  have p1: "pass_ok 0 n (\<lambda>j. int j = obj_num s \<or> mk_removed K0 ! j) (\<lambda>t. true_sum m (pb_lhs (constraintsPB (sv s) ! t)) (- pb_rhs (constraintsPB (sv s) ! t)) \<ge> 0)
     (\<lambda>t. \<not> pb_isInit (constraintsPB (sv s) ! t)) K0 K1"
    unfolding K1_def n_def by (rule mark_pbs_pass) (simp add: K0_def old(1) n_def)
  have l1: "length (mk_removed K1) = n + ?nc" using p1 by (simp add: pass_ok_def K0_def old(1))
  have p2: "pass_ok n ?nc (\<lambda>j. False) (\<lambda>t. \<exists>l \<in> set (cl_lits (clauses (sv s) ! t)). isTrueLit m l) (\<lambda>t. \<not> cl_isInit (clauses (sv s) ! t)) K1 K2"
    unfolding K2_def by (rule mark_clauses_pass) (simp add: l1)
  have l2: "length (mk_removed K2) = n + ?nc" using p2 l1 by (simp add: pass_ok_def)
  have i1: "ids (mk_LBDAct K1) \<subseteq> {j. j < n \<and> \<not> pb_isInit (constraintsPB (sv s) ! j)}" using p1 by (simp add: pass_ok_def K0_def ids_def)
  have i2: "j \<in> ids (mk_LBDAct K2) \<Longrightarrow> j < n \<and> \<not> pb_isInit (constraintsPB (sv s) ! j) \<or> n \<le> j \<and> j < n + ?nc \<and> \<not> cl_isInit (clauses (sv s) ! (j - n))" for j
    using p2 i1 unfolding pass_ok_def by blast
  have r1: "mk_removed K1 ! j \<longleftrightarrow> mk_removed K0 ! j \<or> j < n \<and> \<not> (int j = obj_num s \<or> mk_removed K0 ! j)
      \<and> true_sum m (pb_lhs (constraintsPB (sv s) ! j)) (- pb_rhs (constraintsPB (sv s) ! j)) \<ge> 0" for j using p1 by (simp add: pass_ok_def)
  have r2: "mk_removed K2 ! j \<longleftrightarrow> mk_removed K1 ! j \<or> n \<le> j \<and> j < n + ?nc \<and> (\<exists>l \<in> set (cl_lits (clauses (sv s) ! (j - n))). isTrueLit m l)" for j
    using p2 by (simp add: pass_ok_def)
  have k0: "mk_removed K0 = old" by (simp add: K0_def)
  have rem: "rem = remove_worst shuffle (numOfCleanUps s) K2"
    by (simp add: rem_def marked_constraints_def Let_def n_def m_def K2_def K1_def K0_def old_def)
  have b: "\<forall>j \<in> ids (mk_LBDAct K2). j < length (mk_removed K2)" using i2 l2 by fastforce
  note rw = remove_worst_marks [where shuffle = shuffle and seed = "numOfCleanUps s", OF b sh, folded rem]
  show "i < n \<Longrightarrow> int i \<noteq> obj_num s \<Longrightarrow> \<not> rem ! i \<Longrightarrow> true_sum m (pb_lhs (constraintsPB (sv s) ! i)) (- pb_rhs (constraintsPB (sv s) ! i)) < 0"
    using rw(1) [of i] r2 [of i] r1 [of i] by fastforce
  show "i < n \<Longrightarrow> rem ! i \<Longrightarrow> i \<in> set (butlast (objectiveFunctions s)) \<or> \<not> pb_isInit (constraintsPB (sv s) ! i)
        \<or> true_sum m (pb_lhs (constraintsPB (sv s) ! i)) (- pb_rhs (constraintsPB (sv s) ! i)) \<ge> 0"
    using rw(2) [of i] i2 [of i] r2 [of i] r1 [of i] old(2) [of i] unfolding k0 by auto
  show "j < ?nc \<Longrightarrow> \<not> rem ! (n + j) \<Longrightarrow> \<forall>l \<in> set (cl_lits (clauses (sv s) ! j)). \<not> isTrueLit m l"
    using rw(1) [of "n + j"] r2 [of "n + j"] by auto
  show "j < ?nc \<Longrightarrow> rem ! (n + j) \<Longrightarrow> \<not> cl_isInit (clauses (sv s) ! j) \<or> (\<exists>l \<in> set (cl_lits (clauses (sv s) ! j)). isTrueLit m l)"
    using rw(2) [of "n + j"] i2 [of "n + j"] r2 [of "n + j"] r1 [of "n + j"] old(2) [of "n + j"] bl [of "n + j"] unfolding k0 by auto
qed

text \<open>A constraint the trail satisfies holds of every assignment that agrees with the trail.\<close>

lemma true_pb_sat:
  assumes "wf_model m" "agrees \<sigma> m" "pos_coeffs (pb_lhs c)" "msum (isTrueLit m) (pb_lhs c) \<ge> pb_rhs c"
  shows "pb_sat \<sigma> c"
proof -
  have "0 \<le> lhs_value \<sigma> (filter (\<lambda>p. isUndefLit m (snd p)) (pb_lhs c))"
    using assms(3) by (intro msum_nonneg) (auto simp: pos_coeffs_def)
  then show ?thesis using value_split [OF assms(1,2), of "pb_lhs c"] assms(4) by (simp add: pb_sat_def)
qed

lemma true_clause_sat:
  assumes "wf_model m" "agrees \<sigma> m" "\<exists>l \<in> set ls. isTrueLit m l"
  shows "clause_sat \<sigma> ls"
  using assms(2,3) by (auto simp: clause_sat_def wf_true [OF assms(1)] agrees_def)

lemma cleanup_result:
  assumes ready: "cleanup_ready s" and sh: "\<And>n xs. set (shuffle n xs) \<subseteq> set xs"
  obtains s' where "doCleanup shuffle s = Some s'" "solver_model (sv s') = solver_model (sv s)"
    "\<And>\<sigma>. agrees \<sigma> (solver_model (sv s)) \<Longrightarrow> db_sat \<sigma> (sv s') \<longleftrightarrow>
       (\<forall>i < length (constraintsPB (sv s)). int i = obj_num s \<or> \<not> snd (marked_constraints shuffle s) ! i \<longrightarrow> pb_sat \<sigma> (constraintsPB (sv s) ! i))
     \<and> (\<forall>j < length (clauses (sv s)). \<not> snd (marked_constraints shuffle s) ! (length (constraintsPB (sv s)) + j) \<longrightarrow> clause_sat \<sigma> (cl_lits (clauses (sv s) ! j)))
     \<and> bins_sat \<sigma> (sv s)"
proof -
  let ?v = "sv s" let ?m = "solver_model (sv s)" let ?n = "length (constraintsPB (sv s))"
  define rem where "rem = snd (marked_constraints shuffle s)"
  obtain K where K: "marked_constraints shuffle s = (K, rem)" unfolding rem_def by (cases "marked_constraints shuffle s") simp
  from ready have r: "\<And>c. c \<in> set (constraintsPB ?v) \<Longrightarrow> pos_coeffs (pb_lhs c) \<and> (msum (isTrueLit ?m) (pb_lhs c) \<ge> pb_rhs c \<or> 2 \<le> length (pb_undef ?m c))"
    "\<And>c. c \<in> set (clauses ?v) \<Longrightarrow> (\<exists>l \<in> set (cl_lits c). isTrueLit ?m l) \<or> 2 \<le> length (filter (isUndefLit ?m) (cl_lits c))"
    "bins_ok ?v" "bins_quiet ?v" "wf_model ?m" "\<forall>i \<in> set (objectiveFunctions s). i < ?n"
    "obj_num s = (if objectiveFunctions s \<noteq> [] then int (last (objectiveFunctions s)) else -1)"
    unfolding cleanup_ready_def Let_def by blast+
  note mf = marked_facts [where shuffle = shuffle, OF r(6) sh, folded rem_def]
  define s1 where "s1 = s\<lparr>objectiveFunctions := [], nconfl_to_reduce := nconfl_to_reduce s + (if mk_promising K > mk_total K div 2 then 1000 else 100)\<rparr>"
  define A0 where "A0 = \<lparr>col_pbs = [], col_cls = [], col_bins = [] :: (lit \<times> lit) list\<rparr>"
  have s1: "sv s1 = ?v" by (simp add: s1_def)
  have pre: "pb_cleanable ?m (constraintsPB ?v ! i)" if "i < ?n" "int (0 + i) \<noteq> obj_num s" "\<not> rem ! (0 + i)" for i
  proof -
    have "pos_coeffs (pb_lhs (constraintsPB ?v ! i))" using r(1) [OF nth_mem [OF that(1)]] by blast
    moreover from true_sum_neg [OF this] have "msum (isTrueLit ?m) (pb_lhs (constraintsPB ?v ! i)) < pb_rhs (constraintsPB ?v ! i)"
      using mf(1) [of i] that by fastforce
    ultimately show ?thesis using r(1) [OF nth_mem [OF that(1)]] by (auto simp: pb_cleanable_def)
  qed
  obtain A1 s2 where A1: "cleanupPBConstraints (obj_num s) rem 0 (constraintsPB ?v) A0 s1 = Some (A1, s2)" "sv s2 = ?v"
    "\<And>\<sigma>. agrees \<sigma> ?m \<Longrightarrow> col_sat \<sigma> A1 = (col_sat \<sigma> A0 \<and> (\<forall>i < ?n. int i = obj_num s \<or> \<not> rem ! i \<longrightarrow> pb_sat \<sigma> (constraintsPB ?v ! i)))"
    using cleanupPBConstraints_correct [of "constraintsPB ?v" 0 "obj_num s" rem s1 A0] pre r(5) unfolding s1 by auto
  define A2 where "A2 = cleanupBinaryClauses ?v (cleanupClauses ?m rem ?n (clauses ?v) A1)"
  have e: "doCleanup shuffle s = Some (s2\<lparr>sv := rebuild A2 ?v\<rparr>)"
    unfolding doCleanup_def Let_def K prod.case r(7) [symmetric] s1_def [symmetric] A0_def [symmetric] A1(1) option.case A1(2) A2_def ..
  have "db_sat \<sigma> (rebuild A2 ?v) \<longleftrightarrow>
       (\<forall>i < ?n. int i = obj_num s \<or> \<not> rem ! i \<longrightarrow> pb_sat \<sigma> (constraintsPB ?v ! i))
     \<and> (\<forall>j < length (clauses ?v). \<not> rem ! (?n + j) \<longrightarrow> clause_sat \<sigma> (cl_lits (clauses ?v ! j))) \<and> bins_sat \<sigma> ?v" if a: "agrees \<sigma> ?m" for \<sigma>
  proof -
    have "2 \<le> length (filter (isUndefLit ?m) (cl_lits (clauses ?v ! j))) \<and> (\<forall>l \<in> set (cl_lits (clauses ?v ! j)). \<not> isTrueLit ?m l)"
      if "j < length (clauses ?v)" "\<not> rem ! (?n + j)" for j
      using mf(3) [OF that] r(2) [OF nth_mem [OF that(1)]] by blast
    from cleanupClauses_correct [OF r(5) a this] cleanupBinaryClauses_correct [OF r(3,4,5) a] A1(3) [OF a]
    show ?thesis by (auto simp: rebuild_sat A2_def A0_def col_sat_def [of _ "\<lparr>col_pbs = [], col_cls = [], col_bins = []\<rparr>"])
  qed
  then show ?thesis using that [of "s2\<lparr>sv := rebuild A2 ?v\<rparr>"] e by (simp add: rem_def)
qed

text \<open>
  C8: Cleaning the database, called where propagation at level zero has ended quietly, ends, keeps the
  trail, and loses only what may be lost: under the literals of the trail the new database follows
  from the old one, and each solution of the new database satisfies every initial constraint and
  clause, every binary clause and the newest bound of the objective of the old one.
\<close>

theorem cleanup_keeps_solutions:
  assumes "cleanup_ready s" "\<And>n xs. set (shuffle n xs) \<subseteq> set xs"
  shows "\<exists>s'. doCleanup shuffle s = Some s' \<and> solver_model (sv s') = solver_model (sv s)
    \<and> (\<forall>\<sigma>. agrees \<sigma> (solver_model (sv s)) \<longrightarrow> (db_sat \<sigma> (sv s) \<longrightarrow> db_sat \<sigma> (sv s')) \<and> (db_sat \<sigma> (sv s') \<longrightarrow> kept_sat \<sigma> s))"
proof -
  let ?v = "sv s" let ?m = "solver_model (sv s)" let ?n = "length (constraintsPB (sv s))" let ?rem = "snd (marked_constraints shuffle s)"
  obtain s' where s': "doCleanup shuffle s = Some s'" "solver_model (sv s') = ?m"
    "\<And>\<sigma>. agrees \<sigma> ?m \<Longrightarrow> db_sat \<sigma> (sv s') \<longleftrightarrow>
       (\<forall>i < ?n. int i = obj_num s \<or> \<not> ?rem ! i \<longrightarrow> pb_sat \<sigma> (constraintsPB ?v ! i))
     \<and> (\<forall>j < length (clauses ?v). \<not> ?rem ! (?n + j) \<longrightarrow> clause_sat \<sigma> (cl_lits (clauses ?v ! j))) \<and> bins_sat \<sigma> ?v"
    by (rule cleanup_result [where shuffle = shuffle, OF assms]) blast
  have w: "wf_model ?m" and pos: "\<And>c. c \<in> set (constraintsPB ?v) \<Longrightarrow> pos_coeffs (pb_lhs c)" and ob: "\<forall>i \<in> set (objectiveFunctions s). i < ?n"
    using assms(1) unfolding cleanup_ready_def Let_def by blast+
  note mf = marked_facts [where shuffle = shuffle, OF ob assms(2)]
  have "kept_sat \<sigma> s" if a: "agrees \<sigma> ?m" and d: "db_sat \<sigma> (sv s')" for \<sigma>
    unfolding kept_sat_def
  proof (intro conjI allI impI ballI)
    note d' = d [unfolded s'(3) [OF a]]
    fix i assume i: "i < ?n" "int i = obj_num s \<or> pb_isInit (constraintsPB ?v ! i) \<and> i \<notin> set (butlast (objectiveFunctions s))"
    show "pb_sat \<sigma> (constraintsPB ?v ! i)"
    proof (cases "int i = obj_num s \<or> \<not> ?rem ! i")
      case False
      then have "\<not> true_sum ?m (pb_lhs (constraintsPB ?v ! i)) (- pb_rhs (constraintsPB ?v ! i)) < 0" using mf(2) [OF i(1)] i(2) by auto
      then show ?thesis using true_sum_neg [OF pos [OF nth_mem [OF i(1)]]] by (intro true_pb_sat [OF w a pos [OF nth_mem [OF i(1)]]]) simp
    qed (use d' i(1) in blast)
  next
    note d' = d [unfolded s'(3) [OF a]]
    fix c assume c: "c \<in> set (clauses ?v)" "cl_isInit c"
    then obtain j where j: "j < length (clauses ?v)" "c = clauses ?v ! j" by (auto simp: in_set_conv_nth)
    show "clause_sat \<sigma> (cl_lits c)"
    proof (cases "?rem ! (?n + j)")
      case True
      then show ?thesis using mf(4) [OF j(1) True] c(2) j(2) by (intro true_clause_sat [OF w a]) simp
    qed (use d' j in blast)
  qed (use d [unfolded s'(3) [OF a]] in blast)
  moreover have "db_sat \<sigma> (sv s')" if a: "agrees \<sigma> ?m" and d: "db_sat \<sigma> ?v" for \<sigma>
    unfolding s'(3) [OF a] using d unfolding db_sat_def bins_sat_def by (meson nth_mem)
  ultimately show ?thesis using s'(1,2) by blast
qed

text \<open>
  \<open>x1\<close> is fixed: its term leaves the constraint, and of the two learned clauses the one with the
  larger LBD goes.
\<close>

definition dirty_model :: model where "dirty_model = Model_setTrueDueToReason 1 NoReason new_model"

definition dirty_search :: "nat search" where
  "dirty_search = (new_search nat_floats 4)\<lparr>sv := (new_solver 1 4)
     \<lparr>solver_model := dirty_model,
       constraintsPB := [pb_of_wconstraint \<lparr>lhs = [(3, 1), (2, 2), (2, 3), (2, 4)], rhs = 7\<rparr> True 0 0],
       clauses := [cl_of_lits [2, 3, 4] False 0 5, cl_of_lits [2, 3, -4] False 0 6],
       binClauses := (\<lambda>l. if l = 2 then [3] else if l = 3 then [2] else [])\<rparr>\<rparr>"

lemma dirty_search_ready: "cleanup_ready dirty_search"
proof -
  have m: "solver_model (sv dirty_search) = dirty_model" "binClauses (sv dirty_search) = (\<lambda>l. if l = 2 then [3] else if l = 3 then [2] else [])"
    "constraintsPB (sv dirty_search) = [pb_of_wconstraint \<lparr>lhs = [(3, 1), (2, 2), (2, 3), (2, 4)], rhs = 7\<rparr> True 0 0]"
    "clauses (sv dirty_search) = [cl_of_lits [2, 3, 4] False 0 5, cl_of_lits [2, 3, -4] False 0 6]" "numVars (sv dirty_search) = 4"
    by (simp_all add: dirty_search_def new_solver_def)
  have "wf_model dirty_model" unfolding dirty_model_def
    by (rule wf_setTrueDueToReason) (simp_all add: wf_new_model, simp add: isUndefLit_def new_model_def)
  moreover have "bins_ok (sv dirty_search)" by (auto simp: bins_ok_def m split: if_splits)
  moreover have "isUndefLit dirty_model 2" "isUndefLit dirty_model 3" by code_simp+
  then have "bins_quiet (sv dirty_search)" by (auto simp: bins_quiet_def m split: if_splits)
  moreover have "length (pb_undef dirty_model (pb_of_wconstraint \<lparr>lhs = [(3, 1), (2, 2), (2, 3), (2, 4)], rhs = 7\<rparr> True 0 0)) = 3"
    "list_all (\<lambda>ls. length (filter (isUndefLit dirty_model) ls) = 3) [[2, 3, 4], [2, 3, -4]]"
    "pos_coeffs (pb_lhs (pb_of_wconstraint \<lparr>lhs = [(3, 1), (2, 2), (2, 3), (2, 4)], rhs = 7\<rparr> True 0 0))" by code_simp+
  moreover have "objectiveFunctions dirty_search = []" "obj_num dirty_search = -1" by (simp_all add: dirty_search_def new_search_def)
  ultimately show ?thesis by (simp add: cleanup_ready_def m cl_of_lits_def)
qed

lemma dirty_search_run:
  obtains s' where "doCleanup (\<lambda>_ xs. xs) dirty_search = Some s'" "map pb_lhs (constraintsPB (sv s')) = [[(1, 2), (1, 3), (1, 4)]]"
    "map cl_lits (clauses (sv s')) = [[2, 3, 4]]"
proof -
  let ?c = "pb_of_wconstraint \<lparr>lhs = [(3, 1), (2, 2), (2, 3), (2, 4)], rhs = 7\<rparr> True 0 0"
  define c0 where "c0 = ?c"
  define A0 where "A0 = \<lparr>col_pbs = [], col_cls = [], col_bins = [] :: (lit \<times> lit) list\<rparr>"
  define A1 where "A1 = the (cleanup_pb dirty_model ?c A0)"
  define A where "A = cleanupBinaryClauses (sv dirty_search) (cleanupClauses dirty_model [False, False, True] 1 (clauses (sv dirty_search)) A1)"
  have A: "map (\<lambda>c. lhs (cc_wc c)) (col_pbs A) = [[(1, 2), (1, 3), (1, 4)]]" "map (\<lambda>c. map snd (lhs (cc_wc c))) (col_cls A) = [[2, 3, 4]]"
    unfolding A_def A1_def A0_def by code_simp+
  have c: "cleanup_pb dirty_model c0 A0 = Some A1" unfolding c0_def A1_def A0_def by code_simp
  obtain K where K: "marked_constraints (\<lambda>_ xs. xs) dirty_search = (K, [False, False, True])"
  proof -
    have "snd (marked_constraints (\<lambda>_ xs. xs) dirty_search) = [False, False, True]" by code_simp
    then show ?thesis using that by (cases "marked_constraints (\<lambda>_ xs. xs) dirty_search") simp
  qed
  have d: "constraintsPB (sv dirty_search) = [c0]" "objectiveFunctions dirty_search = []" "solver_model (sv dirty_search) = dirty_model"
    by (simp_all add: dirty_search_def new_search_def c0_def)
  have "\<exists>s'. doCleanup (\<lambda>_ xs. xs) dirty_search = Some s' \<and> sv s' = rebuild A (sv dirty_search)"
    by (simp add: doCleanup_def Let_def K d A0_def [symmetric] c A_def)
  then show ?thesis
    using that A by (auto simp: rebuild_lists clause_of_cleanup_def cl_of_lits_def pb_of_wconstraint_def o_def)
qed

theorem cleanup_keeps_solutions_witness:
  "\<exists>s'. doCleanup (\<lambda>_ xs. xs) dirty_search = Some s' \<and> map pb_lhs (constraintsPB (sv s')) = [[(1, 2), (1, 3), (1, 4)]]
     \<and> map cl_lits (clauses (sv s')) = [[2, 3, 4]] \<and> (\<forall>\<sigma>. lit_true \<sigma> 1 \<and> db_sat \<sigma> (sv s') \<longrightarrow> kept_sat \<sigma> dirty_search)"
proof -
  have "lit_true \<sigma> 1 \<Longrightarrow> agrees \<sigma> (solver_model (sv dirty_search))" for \<sigma>
    by (simp add: agrees_def dirty_search_def dirty_model_def Model_setTrueDueToReason_def push_lit_def tlits_def new_model_def)
  then show ?thesis using cleanup_keeps_solutions [OF dirty_search_ready, of "\<lambda>_ xs. xs"] by (auto intro: dirty_search_run)
qed

end
