(* ===== verification/WorkerHonest.thy ===== *)
theory WorkerHonest
  imports Worker MasterInv
begin

text \<open>
  What a solver behind \<open>ISolverBackend\<close> has to guarantee, and that a worker (\<open>run_cube_worker\<close>,
  \<open>run_original_worker\<close> in \<open>src/src/cubePB.cpp\<close>) on top of such a solver keeps the contract
  \<open>honest\<close> under which the master is right.
\<close>

section \<open>The contract of a solver\<close>

definition lits_within :: "int \<Rightarrow> lit list \<Rightarrow> bool" where
  "lits_within n ls \<longleftrightarrow> (\<forall>l \<in> set ls. l \<noteq> 0 \<and> \<bar>l\<bar> \<le> n)"

definition constraint_within :: "int \<Rightarrow> wconstraint \<Rightarrow> bool" where
  "constraint_within n c \<longleftrightarrow> pos_coeffs (lhs c) \<and> lits_within n (map snd (lhs c))"

definition problem_within :: "int \<Rightarrow> pbproblem \<Rightarrow> bool" where
  "problem_within n p \<longleftrightarrow> (\<forall>c \<in> set (constraints p). constraint_within n c) \<and> (\<forall>v \<in> set (objVars p). 0 < v \<and> v \<le> n)"

definition same_problem :: "pbproblem \<Rightarrow> pbproblem \<Rightarrow> bool" where
  "same_problem p p' \<longleftrightarrow> objCoeffs p' = objCoeffs p \<and> objVars p' = objVars p \<and> minimizing p' = minimizing p
     \<and> (\<forall>\<sigma>. sat_problem \<sigma> p' = sat_problem \<sigma> p)"

text \<open>
  \<open>base\<close> are the solutions of the input, \<open>models s\<close> those of what was added to \<open>s\<close>. \<open>ext w\<close> is the best cost the solver was
  told by the master while it searched: it may ignore what is not better. Of the two bounds only
  one direction is asked: no solution within the bound is lost. All but one solver ignore the lower bound, and
  a bound whose right-hand side leaves \<open>int\<close> is dropped.
\<close>

definition adds_soundly :: "('s, 'd) solver_backend \<Rightarrow> pbproblem \<Rightarrow> (assignment \<Rightarrow> bool) \<Rightarrow> int \<Rightarrow> ('s \<Rightarrow> assignment \<Rightarrow> bool) \<Rightarrow> bool" where
  "adds_soundly B problem base n models \<longleftrightarrow>
     (\<forall>p s. op_addBaseProblem B problem (op_create B) = Some (p, s) \<longrightarrow>
        same_problem problem p \<and> (\<forall>\<sigma>. models s \<sigma> = base \<sigma>))
     \<and> (\<forall>cs s s'. (\<forall>c \<in> set cs. constraint_within n c) \<longrightarrow> op_addLearnedConstraints B cs s = Some s' \<longrightarrow>
        (\<forall>\<sigma>. (models s \<sigma> \<and> (\<forall>c \<in> set cs. sat \<sigma> c) \<longrightarrow> models s' \<sigma>) \<and> (models s' \<sigma> \<longrightarrow> models s \<sigma>)))
     \<and> (\<forall>cube s s'. lits_within n cube \<longrightarrow> op_addCube B cube s = Some s' \<longrightarrow>
        (\<forall>\<sigma>. models s' \<sigma> = (models s \<sigma> \<and> in_cube \<sigma> cube)))
     \<and> (\<forall>p s s'. same_problem problem p \<longrightarrow> op_addObjective B p s = Some s' \<longrightarrow> models s' = models s)
     \<and> (\<forall>p b s s'. same_problem problem p \<longrightarrow> objCoeffs p \<noteq> [] \<longrightarrow> op_addObjectiveBound B p b s = Some s' \<longrightarrow>
        (\<forall>\<sigma>. (models s \<sigma> \<and> in_int b \<and> objective_value \<sigma> problem < b \<longrightarrow> models s' \<sigma>) \<and> (models s' \<sigma> \<longrightarrow> models s \<sigma>)))
     \<and> (\<forall>p b s s'. same_problem problem p \<longrightarrow> objCoeffs p \<noteq> [] \<longrightarrow> op_addObjectiveLowerBound B p b s = Some s' \<longrightarrow>
        (\<forall>\<sigma>. (models s \<sigma> \<and> in_int b \<and> b \<le> objective_value \<sigma> problem \<longrightarrow> models s' \<sigma>) \<and> (models s' \<sigma> \<longrightarrow> models s \<sigma>)))"

definition found :: "status_solver \<Rightarrow> bool" where
  "found st \<longleftrightarrow> st = SOME_SOLUTION_FOUND \<or> st = OPTIMUM_FOUND"

definition better_than :: "pbproblem \<Rightarrow> int option \<Rightarrow> assignment \<Rightarrow> bool" where
  "better_than p e \<sigma> \<longleftrightarrow> (case e of None \<Rightarrow> True | Some b \<Rightarrow> objective_value \<sigma> p < b)"

text \<open>
  The cost that comes with a solution is the cost of that solution or, when the solver was told a better
  one while it searched, the cost it was told.
\<close>

definition solves_soundly ::
    "('s, 'd) solver_backend \<Rightarrow> pbproblem \<Rightarrow> int \<Rightarrow> bool \<Rightarrow> ('s \<Rightarrow> assignment \<Rightarrow> bool) \<Rightarrow> ('d worker \<Rightarrow> int option) \<Rightarrow> bool" where
  "solves_soundly B problem n optimizing models ext \<longleftrightarrow>
     (\<forall>cube learned best has lb p s t w res s' w'.
        lits_within n cube \<longrightarrow> (\<forall>c \<in> set learned. constraint_within n c) \<longrightarrow>
        prepare_solver B problem cube learned best has lb optimizing = Some (p, s) \<longrightarrow>
        op_solve B optimizing t s w = Some (res, s', w') \<longrightarrow>
        w_rank w' = w_rank w
        \<and> (hasSolution res \<longleftrightarrow> found (res_status res))
        \<and> (found (res_status res) \<longrightarrow> models s (solution_assignment (op_getSolution B n s'))
             \<and> (optimizing \<longrightarrow> bestCost res \<le> INT_MAX
                   \<and> (bestCost res = objective_value (solution_assignment (op_getSolution B n s')) problem \<or> ext w' = Some (bestCost res))))
        \<and> (res_status res = INFEASIBLE \<longrightarrow>
             (\<forall>\<sigma>. models s \<sigma> \<longrightarrow> \<not> (optimizing \<longrightarrow> better_than problem (ext w') \<sigma>)))
        \<and> (res_status res = OPTIMUM_FOUND \<and> optimizing \<longrightarrow>
             (\<forall>\<sigma>. models s \<sigma> \<and> better_than problem (ext w') \<sigma> \<longrightarrow> bestCost res \<le> objective_value \<sigma> problem)))"

definition backend_sound ::
    "('s, 'd) solver_backend \<Rightarrow> pbproblem \<Rightarrow> (assignment \<Rightarrow> bool) \<Rightarrow> int \<Rightarrow> bool \<Rightarrow> ('s \<Rightarrow> assignment \<Rightarrow> bool) \<Rightarrow> ('d worker \<Rightarrow> int option) \<Rightarrow> bool" where
  "backend_sound B problem base n optimizing models ext \<longleftrightarrow>
     (optimizing \<longrightarrow> objCoeffs problem \<noteq> []) \<and> adds_soundly B problem base n models \<and> solves_soundly B problem n optimizing models ext"

lemma adds_soundlyD:
  assumes b: "adds_soundly B problem base n models"
  shows "op_addBaseProblem B problem (op_create B) = Some (p, s) \<Longrightarrow> same_problem problem p \<and> models s \<sigma> = base \<sigma>"
    "\<forall>c \<in> set cs. constraint_within n c \<Longrightarrow> op_addLearnedConstraints B cs s = Some s' \<Longrightarrow>
       (models s \<sigma> \<and> (\<forall>c \<in> set cs. sat \<sigma> c) \<longrightarrow> models s' \<sigma>) \<and> (models s' \<sigma> \<longrightarrow> models s \<sigma>)"
    "lits_within n cube \<Longrightarrow> op_addCube B cube s = Some s' \<Longrightarrow> models s' \<sigma> = (models s \<sigma> \<and> in_cube \<sigma> cube)"
    "same_problem problem p \<Longrightarrow> op_addObjective B p s = Some s' \<Longrightarrow> models s' \<sigma> = models s \<sigma>"
    "same_problem problem p \<Longrightarrow> objCoeffs p \<noteq> [] \<Longrightarrow> op_addObjectiveBound B p k s = Some s' \<Longrightarrow>
       (models s \<sigma> \<and> in_int k \<and> objective_value \<sigma> problem < k \<longrightarrow> models s' \<sigma>) \<and> (models s' \<sigma> \<longrightarrow> models s \<sigma>)"
    "same_problem problem p \<Longrightarrow> objCoeffs p \<noteq> [] \<Longrightarrow> op_addObjectiveLowerBound B p k s = Some s' \<Longrightarrow>
       (models s \<sigma> \<and> in_int k \<and> k \<le> objective_value \<sigma> problem \<longrightarrow> models s' \<sigma>) \<and> (models s' \<sigma> \<longrightarrow> models s \<sigma>)"
  subgoal using b [unfolded adds_soundly_def, THEN conjunct1] by blast
  subgoal using b [unfolded adds_soundly_def, THEN conjunct2, THEN conjunct1] by blast
  subgoal using b [unfolded adds_soundly_def, THEN conjunct2, THEN conjunct2, THEN conjunct1] by blast
  subgoal using b [unfolded adds_soundly_def, THEN conjunct2, THEN conjunct2, THEN conjunct2, THEN conjunct1] by metis
  subgoal using b [unfolded adds_soundly_def, THEN conjunct2, THEN conjunct2, THEN conjunct2, THEN conjunct2, THEN conjunct1] by blast
  subgoal using b [unfolded adds_soundly_def, THEN conjunct2, THEN conjunct2, THEN conjunct2, THEN conjunct2, THEN conjunct2] by blast
  done

text \<open>What a prepared solver has: every solution that can matter, and only solutions of the cube.\<close>

lemma prepare_models:
  assumes b: "adds_soundly B problem base n models" and oc: "optimizing \<longrightarrow> objCoeffs problem \<noteq> []"
    and p: "prepare_solver B problem cube learned best has lb optimizing = Some (p', s)"
    and wi: "lits_within n cube" "\<forall>c \<in> set learned. constraint_within n c"
  shows "models s \<sigma> \<Longrightarrow> base \<sigma> \<and> in_cube \<sigma> cube"
    and "base \<sigma> \<Longrightarrow> in_cube \<sigma> cube \<Longrightarrow> \<forall>c \<in> set learned. sat \<sigma> c \<Longrightarrow>
      (optimizing \<longrightarrow> (has \<longrightarrow> in_int best \<and> objective_value \<sigma> problem < best) \<and> in_int lb \<and> lb \<le> objective_value \<sigma> problem) \<Longrightarrow> models s \<sigma>"
    and "same_problem problem p'"
proof -
  from p obtain s0 where 0: "op_addBaseProblem B problem (op_create B) = Some (p', s0)"
    by (auto simp: prepare_solver_def bind_eq_Some_conv)
  from p 0 obtain s1 s2 where 1: "op_addLearnedConstraints B learned s0 = Some s1" "op_addCube B cube s1 = Some s2"
    by (auto simp: prepare_solver_def bind_eq_Some_conv)
  note D = adds_soundlyD [OF b]
  have like: "same_problem problem p'" and m0: "models s0 \<sigma> = base \<sigma>" for \<sigma>
    using D(1) [OF 0] by simp_all
  have m1: "models s0 \<sigma> \<and> (\<forall>c \<in> set learned. sat \<sigma> c) \<longrightarrow> models s1 \<sigma>" "models s1 \<sigma> \<longrightarrow> models s0 \<sigma>" for \<sigma>
    using D(2) [OF wi(2) 1(1)] by simp_all
  have m2: "models s2 \<sigma> = (models s1 \<sigma> \<and> in_cube \<sigma> cube)" for \<sigma>
    by (rule D(3) [OF wi(1) 1(2)])
  have m3: "(models s \<sigma> \<longrightarrow> models s2 \<sigma>) \<and>
      (models s2 \<sigma> \<and> (optimizing \<longrightarrow> (has \<longrightarrow> in_int best \<and> objective_value \<sigma> problem < best) \<and> in_int lb \<and> lb \<le> objective_value \<sigma> problem) \<longrightarrow> models s \<sigma>)" for \<sigma>
  proof (cases optimizing)
    case False
    then show ?thesis using p 0 1 by (simp add: prepare_solver_def)
  next
    case True
    from p 0 1 True obtain s3 s4 where 3: "op_addObjective B p' s2 = Some s3"
      "(if has then op_addObjectiveBound B p' best s3 else Some s3) = Some s4"
      "(if lb \<noteq> INT_MIN then op_addObjectiveLowerBound B p' lb s4 else Some s4) = Some s"
      by (auto simp: prepare_solver_def bind_eq_Some_conv)
    have nb: "objCoeffs p' \<noteq> []" using oc like True by (simp add: same_problem_def)
    have "models s3 \<sigma> = models s2 \<sigma>" by (rule D(4) [OF like 3(1)])
    moreover have "(models s3 \<sigma> \<and> (has \<longrightarrow> in_int best \<and> objective_value \<sigma> problem < best) \<longrightarrow> models s4 \<sigma>) \<and> (models s4 \<sigma> \<longrightarrow> models s3 \<sigma>)"
    proof (cases has)
      case True
      then have "op_addObjectiveBound B p' best s3 = Some s4" using 3(2) by simp
      then have "(models s3 \<sigma> \<and> in_int best \<and> objective_value \<sigma> problem < best \<longrightarrow> models s4 \<sigma>) \<and> (models s4 \<sigma> \<longrightarrow> models s3 \<sigma>)"
        by (rule D(5) [OF like nb])
      then show ?thesis using True by simp
    qed (use 3(2) in simp)
    moreover have "(models s4 \<sigma> \<and> in_int lb \<and> lb \<le> objective_value \<sigma> problem \<longrightarrow> models s \<sigma>) \<and> (models s \<sigma> \<longrightarrow> models s4 \<sigma>)"
    proof (cases "lb = INT_MIN")
      case False
      then have "op_addObjectiveLowerBound B p' lb s4 = Some s" using 3(3) by simp
      then show ?thesis by (rule D(6) [OF like nb])
    qed (use 3(3) in simp)
    ultimately show ?thesis using True by argo
  qed
  show "same_problem problem p'" by (rule like)
  show "models s \<sigma> \<Longrightarrow> base \<sigma> \<and> in_cube \<sigma> cube" using m0 m1(2) m2 m3 by blast
  show "base \<sigma> \<Longrightarrow> in_cube \<sigma> cube \<Longrightarrow> \<forall>c \<in> set learned. sat \<sigma> c \<Longrightarrow>
      (optimizing \<longrightarrow> (has \<longrightarrow> in_int best \<and> objective_value \<sigma> problem < best) \<and> in_int lb \<and> lb \<le> objective_value \<sigma> problem) \<Longrightarrow> models s \<sigma>"
    using m0 m1(1) m2 m3 by blast
qed

text \<open>The result of \<open>solve_cube\<close> in terms of the problem.\<close>

lemma solve_cube_facts:
  assumes b: "backend_sound B problem base n optimizing models ext"
    and sc: "solve_cube B n problem cube learned best has lb optimizing w = Some (res, p', w')"
    and wi: "lits_within n cube" "\<forall>c \<in> set learned. constraint_within n c"
  defines "rel \<equiv> \<lambda>\<sigma>. base \<sigma> \<and> in_cube \<sigma> cube \<and> (\<forall>c \<in> set learned. sat \<sigma> c)
      \<and> (optimizing \<longrightarrow> (has \<longrightarrow> in_int best \<and> objective_value \<sigma> problem < best) \<and> in_int lb \<and> lb \<le> objective_value \<sigma> problem
            \<and> better_than problem (ext w') \<sigma>)"
  shows "w_rank w' = w_rank w" "same_problem problem p'" "hasSolution res \<longleftrightarrow> found (res_status res)"
    "found (res_status res) \<Longrightarrow> base (solution_assignment (solution res))
        \<and> in_cube (solution_assignment (solution res)) cube
        \<and> (optimizing \<longrightarrow> bestCost res \<le> INT_MAX
            \<and> (bestCost res = objective_value (solution_assignment (solution res)) problem \<or> ext w' = Some (bestCost res)))"
    "res_status res = INFEASIBLE \<Longrightarrow> \<not> rel \<sigma>"
    "res_status res = OPTIMUM_FOUND \<Longrightarrow> optimizing \<Longrightarrow> rel \<sigma> \<Longrightarrow> bestCost res \<le> objective_value \<sigma> problem"
proof -
  have ad: "adds_soundly B problem base n models" and oc: "optimizing \<longrightarrow> objCoeffs problem \<noteq> []" and so: "solves_soundly B problem n optimizing models ext"
    using b by (auto simp: backend_sound_def)
  from sc obtain s r s' where 1: "prepare_solver B problem cube learned best has lb optimizing = Some (p', s)"
    "op_solve B optimizing 0 s w = Some (r, s', w')"
    by (auto simp: solve_cube_def bind_eq_Some_conv Let_def)
  have res: "res_status res = res_status r" "hasSolution res = hasSolution r" "bestCost res = bestCost r"
    "hasSolution r \<Longrightarrow> solution res = op_getSolution B n s'"
    using sc 1 by (auto simp: solve_cube_def Let_def split: if_splits)
  note P = prepare_models [OF ad oc 1(1) wi]
  note S = so [unfolded solves_soundly_def, rule_format, OF wi(1) bspec [OF wi(2)] 1]
  show "same_problem problem p'" by (rule P(3))
  show "w_rank w' = w_rank w" "hasSolution res \<longleftrightarrow> found (res_status res)" using S by (simp_all add: res)
  show "found (res_status res) \<Longrightarrow> base (solution_assignment (solution res))
        \<and> in_cube (solution_assignment (solution res)) cube
        \<and> (optimizing \<longrightarrow> bestCost res \<le> INT_MAX
            \<and> (bestCost res = objective_value (solution_assignment (solution res)) problem \<or> ext w' = Some (bestCost res)))"
    using S P(1) by (auto simp: res)
  have "rel \<sigma> \<Longrightarrow> models s \<sigma> \<and> (optimizing \<longrightarrow> better_than problem (ext w') \<sigma>)" for \<sigma>
    using P(2) [of \<sigma>] unfolding rel_def by blast
  then show "res_status res = INFEASIBLE \<Longrightarrow> \<not> rel \<sigma>"
    and "res_status res = OPTIMUM_FOUND \<Longrightarrow> optimizing \<Longrightarrow> rel \<sigma> \<Longrightarrow> bestCost res \<le> objective_value \<sigma> problem"
    using S by (auto simp: res)
qed

section \<open>The reports\<close>

definition instance_of :: "(assignment \<Rightarrow> bool) \<Rightarrow> pbproblem \<Rightarrow> bool \<Rightarrow> nat \<Rightarrow> instance_data" where
  "instance_of base problem optimizing procs =
     \<lparr>base_sol = base, sol_cost = (\<lambda>\<sigma>. objective_value \<sigma> problem),
      is_opt = optimizing, num_procs = procs\<rparr>"

lemma instance_of_simps [simp]:
  "base_sol (instance_of base problem optimizing procs) = base"
  "sol_cost (instance_of base problem optimizing procs) = (\<lambda>\<sigma>. objective_value \<sigma> problem)"
  "is_opt (instance_of base problem optimizing procs) = optimizing"
  "num_procs (instance_of base problem optimizing procs) = procs"
  by (simp_all add: instance_of_def)

text \<open>
  What a worker was given, seen from a later state \<open>m\<close> of the master: constraints and bounds that
  hold of every solution still wanted, and costs the master still knows, each the cost of some solution.
  Bounds and costs travel as \<open>int\<close>.
\<close>

definition fair_job ::
    "instance_data \<Rightarrow> master \<Rightarrow> lit list \<Rightarrow> wconstraint list \<Rightarrow> int \<Rightarrow> bool \<Rightarrow> int \<Rightarrow> int option \<Rightarrow> bool" where
  "fair_job I m cube learned best has lb e \<longleftrightarrow>
     (\<forall>\<sigma>. open_sol I m \<sigma> \<and> in_cube \<sigma> cube \<longrightarrow> (\<forall>c \<in> set learned. sat \<sigma> c) \<and> (is_opt I \<longrightarrow> lb \<le> sol_cost I \<sigma>))
     \<and> (is_opt I \<longrightarrow> in_int lb \<and> (has \<longrightarrow> in_int best \<and> global_has_best_cost m \<and> global_best_cost m \<le> best)
          \<and> (case e of None \<Rightarrow> True | Some b \<Rightarrow> attained I b \<and> global_has_best_cost m \<and> global_best_cost m \<le> b))"

lemma of_tag_solution: "of_tag TAG_SOLUTION (send_solution sol @ r) = send_solution sol @ of_tag TAG_SOLUTION r"
  by (simp add: send_solution_def)

lemma fair_relevant:
  assumes "fair_job (instance_of base problem optimizing procs) m cube learned best has lb e"
    and "open_sol (instance_of base problem optimizing procs) m \<sigma>" "in_cube \<sigma> cube"
  shows "base \<sigma> \<and> in_cube \<sigma> cube \<and> (\<forall>c \<in> set learned. sat \<sigma> c)
      \<and> (optimizing \<longrightarrow> (has \<longrightarrow> in_int best \<and> objective_value \<sigma> problem < best) \<and> in_int lb \<and> lb \<le> objective_value \<sigma> problem
            \<and> better_than problem e \<sigma>)"
  using assms unfolding fair_job_def open_sol_def better_than_def by (cases e) auto

lemma honest_result:
  assumes "inbox m p = (TAG_RESULT, [code, int p, extra]) # q" "p \<noteq> original_worker"
  shows "honest I p m \<longleftrightarrow> honest_cube I p code extra q m"
  using assms by (simp add: honest_def tag_defs)

text \<open>The contents of the messages about a cube, one by one.\<close>

lemma cube_messages_honest:
  assumes b: "backend_sound B problem base n optimizing models ext"
    and sc: "solve_cube B n problem cube learned best has lb optimizing w = Some (res, p', w')"
    and wi: "lits_within n cube" "\<forall>c \<in> set learned. constraint_within n c"
    and fair: "fair_job (instance_of base problem optimizing procs) m cube learned best has lb (ext w')"
    and at: "p < procs" "p \<in> busy m" "worker_cube m p = cube"
  defines "I \<equiv> instance_of base problem optimizing procs"
  shows "honest_cube I p 0 0 r m" "\<not> honest_cube I p 15 x r m"
    "res_status res = INFEASIBLE \<Longrightarrow> honest_cube I p 20 0 r m"
    "found (res_status res) \<Longrightarrow> \<not> optimizing \<Longrightarrow> honest_cube I p 10 0 (send_solution (solution res) @ r) m"
    "res_status res = OPTIMUM_FOUND \<Longrightarrow> optimizing \<Longrightarrow> honest_cube I p 10 (bestCost res) (send_solution (solution res) @ r) m"
    "found (res_status res) \<Longrightarrow> optimizing \<Longrightarrow> honest_cube I p 25 (bestCost res) (send_solution (solution res) @ r) m"
proof -
  note F = solve_cube_facts [OF b sc wi]
  have rel: "base \<sigma> \<and> in_cube \<sigma> cube \<and> (\<forall>c \<in> set learned. sat \<sigma> c)
      \<and> (optimizing \<longrightarrow> (has \<longrightarrow> in_int best \<and> objective_value \<sigma> problem < best) \<and> in_int lb \<and> lb \<le> objective_value \<sigma> problem
            \<and> better_than problem (ext w') \<sigma>)" if "open_sol I m \<sigma>" "in_cube \<sigma> cube" for \<sigma>
    using fair_relevant [OF fair] that unfolding I_def by blast
  have follows: "solution_follows I (send_solution (solution res) @ r)" if "found (res_status res)"
    unfolding solution_follows_def of_tag_solution I_def using F(4) [OF that] by (intro exI conjI) auto
  have cost: "honest_cost I (bestCost res)" if "found (res_status res)" optimizing
    using F(4) [OF that(1)] that(2) fair unfolding honest_cost_def attained_def fair_job_def I_def by auto
  have least: "bestCost res \<le> sol_cost I \<sigma>" if "res_status res = OPTIMUM_FOUND" optimizing "open_sol I m \<sigma>" "in_cube \<sigma> cube" for \<sigma>
    using F(6) [OF that(1,2)] rel [OF that(3,4)] by (simp add: I_def)
  have I: "is_opt I = optimizing" "num_procs I = procs" by (simp_all add: I_def)
  note defs = honest_cube_def RES_SPLIT_def I at
  show "honest_cube I p 0 0 r m" "\<not> honest_cube I p 15 x r m" by (simp_all add: defs)
  show "res_status res = INFEASIBLE \<Longrightarrow> honest_cube I p 20 0 r m" using F(5) rel by (simp add: defs) blast
  show "found (res_status res) \<Longrightarrow> \<not> optimizing \<Longrightarrow> honest_cube I p 10 0 (send_solution (solution res) @ r) m"
    using follows by (simp add: defs honest_cost_def)
  show "res_status res = OPTIMUM_FOUND \<Longrightarrow> optimizing \<Longrightarrow> honest_cube I p 10 (bestCost res) (send_solution (solution res) @ r) m"
    using cost least by (simp add: defs found_def)
  show "found (res_status res) \<Longrightarrow> optimizing \<Longrightarrow> honest_cube I p 25 (bestCost res) (send_solution (solution res) @ r) m"
    using cost by (simp add: defs)
qed

text \<open>
  C12: The reports of a cube worker whose solver is sound. When the worker was neither stopped nor told
  to split, its report of the cube satisfies the contract \<open>honest\<close> of the master exactly when the run is not
  an optimisation in which the solver gave up with some solution: that outcome is reported as
  result 15, which the contract excludes because the master then counts the cube as done. The solution a
  worker announces (result 25) before it splits its cube always satisfies the contract.
\<close>

theorem cube_report_honest:
  assumes b: "backend_sound B problem base n optimizing models ext"
    and sc: "solve_cube B n problem cube learned best has lb optimizing w = Some (res, p', w')"
    and wi: "lits_within n cube" "\<forall>c \<in> set learned. constraint_within n c"
    and fair: "fair_job (instance_of base problem optimizing procs) m cube learned best has lb (ext w')"
    and at: "w_rank w < procs" "w_rank w \<noteq> original_worker" "w_rank w \<in> busy m" "worker_cube m (w_rank w) = cube"
  shows "(inbox m (w_rank w) = fst (cube_report optimizing (w_rank w') res) @ r \<longrightarrow>
      (honest (instance_of base problem optimizing procs) (w_rank w) m \<longleftrightarrow>
        \<not> (optimizing \<and> res_status res = SOME_SOLUTION_FOUND)))
    \<and> (\<forall>arrivals incumbent has_incumbent w'' ms.
        announce_before_split arrivals optimizing res w' = Some (incumbent, has_incumbent, w'') \<and>
        w_outbox w'' = w_outbox w' @ ms \<and> ms \<noteq> [] \<and> inbox m (w_rank w) = ms @ r \<longrightarrow>
        honest (instance_of base problem optimizing procs) (w_rank w) m)"
proof -
  let ?I = "instance_of base problem optimizing procs"
  note F = solve_cube_facts [OF b sc wi] and M = cube_messages_honest [OF b sc wi fair at(1,3,4)]
  note msg = honest_result [OF _ at(2), of m _ _ _ ?I]
  have "honest ?I (w_rank w) m \<longleftrightarrow> \<not> (optimizing \<and> res_status res = SOME_SOLUTION_FOUND)"
    if "inbox m (w_rank w) = fst (cube_report optimizing (w_rank w') res) @ r"
    by (cases "res_status res"; cases optimizing; subst msg)
      (use that M in \<open>simp_all add: cube_report_def F(1) found_def\<close>)
  moreover have "honest ?I (w_rank w) m"
    if a: "announce_before_split arrivals optimizing res w' = Some (incumbent, has_incumbent, w'')"
      "w_outbox w'' = w_outbox w' @ ms" "ms \<noteq> []" "inbox m (w_rank w) = ms @ r"
    for arrivals incumbent has_incumbent w'' ms
  proof -
    have o: "optimizing" "hasSolution res" "ms = (TAG_RESULT, [25, int (w_rank w), bestCost res]) # send_solution (solution res)"
      using a(1-3) F(1) by (auto simp: announce_before_split_def Let_def w_arrive_def w_recv_def w_send_def bind_eq_Some_conv split: if_splits)
    then show ?thesis using a(4) M(6) F(3) by (subst msg) simp_all
  qed
  ultimately show ?thesis by blast
qed

text \<open>
  C13: The worker of the original problem whose solver is sound reports honestly, and the solution it
  announces is the one that follows.
\<close>

theorem original_report_honest:
  assumes b: "backend_sound B problem base n optimizing models ext"
    and run: "solve_cube B n problem [] [] best has INT_MIN optimizing w = Some (res, p', w')"
    and fair: "fair_job (instance_of base problem optimizing procs) m [] [] best has INT_MIN (ext w')"
    and at: "w_rank w = original_worker"
    and inbox: "inbox m original_worker = original_report optimizing (w_rank w') res @ r"
  shows "honest (instance_of base problem optimizing procs) original_worker m"
proof -
  let ?I = "instance_of base problem optimizing procs"
  have wi: "lits_within n []" "\<forall>c \<in> set []. constraint_within n c" by (simp_all add: lits_within_def)
  note F = solve_cube_facts [OF b run wi]
  have rk: "w_rank w' = original_worker" using F(1) at by simp
  note rel = fair_relevant [OF fair]
  have follows: "solution_follows ?I (send_solution (solution res) @ r)" if "found (res_status res)"
    unfolding solution_follows_def of_tag_solution using F(4) [OF that] by (intro exI conjI) auto
  have cost: "honest_cost ?I (bestCost res)" if "found (res_status res)" optimizing
    using F(4) [OF that(1)] that(2) fair unfolding honest_cost_def attained_def fair_job_def by auto
  have opt: "bestCost res \<le> objective_value \<sigma> problem"
    if "res_status res = OPTIMUM_FOUND" optimizing "open_sol ?I m \<sigma>" for \<sigma>
    using F(6) [OF that(1,2)] rel [OF that(3)] by simp
  have none: "\<not> open_sol ?I m \<sigma>" if "res_status res = INFEASIBLE" for \<sigma>
    using F(5) [OF that, of \<sigma>] rel [of \<sigma>] by auto
  obtain code extra q where i: "inbox m original_worker = (TAG_RESULT, [code, int original_worker, extra]) # q"
    and h: "honest_original ?I code extra q m"
  proof (cases "res_status res")
    case INFEASIBLE
    show thesis
      by (rule that [of 20 0 r]) (use inbox INFEASIBLE F(3) none in \<open>auto simp: original_report_def rk found_def honest_original_def\<close>)
  next
    case NO_SOLUTION_FOUND
    show thesis
      by (rule that [of 0 0 r]) (use inbox NO_SOLUTION_FOUND F(3) in \<open>auto simp: original_report_def rk found_def honest_original_def\<close>)
  next
    case SOME_SOLUTION_FOUND
    then have f: "found (res_status res)" by (simp add: found_def)
    show thesis
      by (rule that [of "if optimizing then 15 else 10" "if optimizing then bestCost res else 0" "send_solution (solution res) @ r"])
        (use inbox SOME_SOLUTION_FOUND F(3) f follows [OF f] cost [OF f] in
          \<open>auto simp: original_report_def rk honest_original_def honest_cost_def\<close>)
  next
    case OPTIMUM_FOUND
    then have f: "found (res_status res)" by (simp add: found_def)
    show thesis
      by (rule that [of 10 "if optimizing then bestCost res else 0" "send_solution (solution res) @ r"])
        (use inbox OPTIMUM_FOUND F(3) f follows [OF f] cost [OF f] opt in
          \<open>auto simp: original_report_def rk honest_original_def honest_cost_def\<close>)
  qed
  show ?thesis using h by (simp add: honest_def i tag_defs)
qed

section \<open>Splitting\<close>





end
