(* ===== verification/Backends.thy ===== *)
theory Backends
  imports WorkerHonest CubeAPI
begin

text \<open>
  The backends of \<open>ISolverBackend\<close>: \<open>src/src/CadicalBackend.cpp\<close>, \<open>RoundingSatBackend.cpp\<close> and
  the loading functions of \<open>NativeBackend.cpp\<close>. CaDiCaL and RoundingSat are libraries: each is a
  record of the functions the backend calls, and what is relied on is a named hypothesis. Under its
  hypothesis the RoundingSat backend keeps the contract \<open>backend_sound\<close> of a worker's solver. Of the CaDiCaL
  backend the answers are shown right; its solution is only as good as what \<open>Solver::value\<close> returns,
  of which nothing is assumed.
\<close>

section \<open>CaDiCaL\<close>

record ('c, 'd) cadical =
  cad_resize :: "int \<Rightarrow> 'c"
  cad_clause :: "lit list \<Rightarrow> 'c \<Rightarrow> 'c"
  cad_propagateX :: "'c \<Rightarrow> bool \<times> 'c"
  cad_assignedVars :: "'c \<Rightarrow> int"
  cad_value :: "lit \<Rightarrow> 'c \<Rightarrow> int"
  cad_assume_decision :: "lit \<Rightarrow> 'c \<Rightarrow> 'c"
  cad_backtrackX :: "int \<Rightarrow> 'c \<Rightarrow> 'c"
  cad_solve :: "'c \<Rightarrow> 'd worker \<Rightarrow> (int \<times> 'c \<times> 'd worker) option"

record 'c cadical_backend =
  cad_solver :: 'c
  cad_nVars :: int
  root_conflict :: bool

definition CadicalTerminator_terminate :: "(int \<Rightarrow> bool) \<Rightarrow> 'd worker \<Rightarrow> (bool \<times> 'd worker) option" where
  "CadicalTerminator_terminate overdue w =
     (if of_tag TAG_STOP (w_inbox w) \<noteq> []
      then do {
        (stopmsg, w) \<leftarrow> w_recv (mpi_recv TAG_STOP 2) w;
        Some (True, w\<lparr>global_stop_flag := True\<rparr>) }
      else if overdue (current_split_time_limit w) then Some (True, w\<lparr>split_requested_flag := True\<rparr>)
      else Some (False, w))"

definition Cadical_new :: "('c, 'd) cadical \<Rightarrow> int \<Rightarrow> 'c cadical_backend" where
  "Cadical_new C nVars = \<lparr>cad_solver = cad_resize C nVars, cad_nVars = nVars, root_conflict = False\<rparr>"

definition Cadical_addClauseFromConstraint :: "('c, 'd) cadical \<Rightarrow> wconstraint \<Rightarrow> 'c cadical_backend \<Rightarrow> 'c cadical_backend" where
  "Cadical_addClauseFromConstraint C c s =
     (let c = sortByDecreasingCoefficient (removeDuplicates (sortByIncreasingVariable c));
          clause = map (\<lambda>i. getIthLiteral c i) [0..<nat (getSize c)]
      in s\<lparr>cad_solver := cad_clause C clause (cad_solver s)\<rparr>)"

definition Cadical_initialPropagate :: "('c, 'd) cadical \<Rightarrow> 'c cadical_backend \<Rightarrow> 'c cadical_backend" where
  "Cadical_initialPropagate C s =
     (if root_conflict s then s
      else let (ok, c) = cad_propagateX C (cad_solver s)
           in s\<lparr>cad_solver := c, root_conflict := \<not> ok\<rparr>)"

definition Cadical_goodClauses :: "'c cadical_backend \<Rightarrow> wconstraint list" where
  "Cadical_goodClauses s = []"

definition Cadical_addBaseProblem :: "('c, 'd) cadical \<Rightarrow> lit list list \<Rightarrow> 'c cadical_backend \<Rightarrow> 'c cadical_backend" where
  "Cadical_addBaseProblem C global_cnf_clauses s =
     Cadical_initialPropagate C (s\<lparr>cad_solver := fold (cad_clause C) global_cnf_clauses (cad_solver s)\<rparr>)"

definition Cadical_addLearnedConstraints :: "wconstraint list \<Rightarrow> 'c cadical_backend \<Rightarrow> 'c cadical_backend" where
  "Cadical_addLearnedConstraints cs s = s"

definition Cadical_addCube :: "('c, 'd) cadical \<Rightarrow> lit list \<Rightarrow> 'c cadical_backend \<Rightarrow> 'c cadical_backend" where
  "Cadical_addCube C cube s =
     Cadical_initialPropagate C (s\<lparr>cad_solver := fold (\<lambda>l. cad_clause C [l]) cube (cad_solver s)\<rparr>)"

definition Cadical_addObjective :: "pbproblem \<Rightarrow> 'c cadical_backend \<Rightarrow> 'c cadical_backend option" where
  "Cadical_addObjective problem s = (if objCoeffs problem \<noteq> [] then None else Some s)"

definition Cadical_addObjectiveBound :: "pbproblem \<Rightarrow> int \<Rightarrow> 'c cadical_backend \<Rightarrow> 'c cadical_backend option" where
  "Cadical_addObjectiveBound problem best s = None"

definition Cadical_addObjectiveLowerBound :: "pbproblem \<Rightarrow> int \<Rightarrow> 'c cadical_backend \<Rightarrow> 'c cadical_backend option" where
  "Cadical_addObjectiveLowerBound problem lb s = Some s"

definition Cadical_assignedVars :: "('c, 'd) cadical \<Rightarrow> 'c cadical_backend \<Rightarrow> int" where
  "Cadical_assignedVars C s = (if root_conflict s then cad_nVars s else cad_assignedVars C (cad_solver s))"

definition Cadical_isTrueLit :: "('c, 'd) cadical \<Rightarrow> lit \<Rightarrow> 'c cadical_backend \<Rightarrow> bool" where
  "Cadical_isTrueLit C l s \<longleftrightarrow> cad_value C l (cad_solver s) = 1"

definition Cadical_isFalseLit :: "('c, 'd) cadical \<Rightarrow> lit \<Rightarrow> 'c cadical_backend \<Rightarrow> bool" where
  "Cadical_isFalseLit C l s \<longleftrightarrow> cad_value C l (cad_solver s) = 0"

definition Cadical_isUndefLit :: "('c, 'd) cadical \<Rightarrow> lit \<Rightarrow> 'c cadical_backend \<Rightarrow> bool" where
  "Cadical_isUndefLit C l s \<longleftrightarrow> cad_value C l (cad_solver s) = -1"

definition Cadical_assumeAndPropagate ::
    "('c, 'd) cadical \<Rightarrow> lit \<Rightarrow> 'c cadical_backend \<Rightarrow> (bool \<times> 'c cadical_backend) option" where
  "Cadical_assumeAndPropagate C l s =
     (if root_conflict s then Some (False, s)
      else let (ok, c) = cad_propagateX C (cad_assume_decision C l (cad_solver s))
           in Some (ok, s\<lparr>cad_solver := c\<rparr>))"

definition Cadical_backtrack :: "('c, 'd) cadical \<Rightarrow> int \<Rightarrow> 'c cadical_backend \<Rightarrow> 'c cadical_backend" where
  "Cadical_backtrack C levels s =
     (if root_conflict s then s else s\<lparr>cad_solver := cad_backtrackX C levels (cad_solver s)\<rparr>)"

definition result_of :: "status_solver \<Rightarrow> bool \<Rightarrow> int \<Rightarrow> cube_solve_result" where
  "result_of st has c = \<lparr>res_status = st, hasSolution = has, bestCost = c, learned_constraints = [], solution = []\<rparr>"

lemma result_of_simps [simp]:
  "res_status (result_of st has c) = st" "hasSolution (result_of st has c) = has" "bestCost (result_of st has c) = c"
  by (simp_all add: result_of_def)

definition Cadical_solve ::
    "('c, 'd) cadical \<Rightarrow> bool \<Rightarrow> int \<Rightarrow> 'c cadical_backend \<Rightarrow> 'd worker
       \<Rightarrow> (cube_solve_result \<times> 'c cadical_backend \<times> 'd worker) option" where
  "Cadical_solve C optimizing tlimit s w =
     (if optimizing then None
      else if root_conflict s then Some (result_of INFEASIBLE False 0, s, w)
      else do {
        (ans, c, w) \<leftarrow> cad_solve C (cad_solver s) w;
        Some (if ans = 10 then result_of SOME_SOLUTION_FOUND True 0
              else if ans = 20 then result_of INFEASIBLE False 0
              else result_of NO_SOLUTION_FOUND False 0, s\<lparr>cad_solver := c\<rparr>, w) })"

definition Cadical_nonSatisfiedConstraints :: "'c cadical_backend \<Rightarrow> int" where
  "Cadical_nonSatisfiedConstraints s = 0"

definition Cadical_getSolution :: "('c, 'd) cadical \<Rightarrow> int \<Rightarrow> 'c cadical_backend \<Rightarrow> int list" where
  "Cadical_getSolution C nVars s = 0 # map (\<lambda>v. if Cadical_isTrueLit C v s then 1 else 0) (all_vars nVars)"

definition cadical_ops :: "('c, 'd) cadical \<Rightarrow> lit list list \<Rightarrow> int \<Rightarrow> ('c cadical_backend, 'd) solver_backend" where
  "cadical_ops C cnf nVars =
     \<lparr>op_assignedVars = Cadical_assignedVars C, op_isUndefLit = Cadical_isUndefLit C,
      op_assumeAndPropagate = Cadical_assumeAndPropagate C, op_backtrack = Cadical_backtrack C,
      op_create = Cadical_new C nVars, op_addBaseProblem = (\<lambda>p s. Some (p, Cadical_addBaseProblem C cnf s)),
      op_addLearnedConstraints = (\<lambda>cs s. Some (Cadical_addLearnedConstraints cs s)),
      op_addCube = (\<lambda>cube s. Some (Cadical_addCube C cube s)), op_addObjective = Cadical_addObjective,
      op_addObjectiveBound = Cadical_addObjectiveBound, op_addObjectiveLowerBound = Cadical_addObjectiveLowerBound,
      op_goodClauses = Cadical_goodClauses, op_getSolution = Cadical_getSolution C, op_solve = Cadical_solve C\<rparr>"

section \<open>RoundingSat\<close>

text \<open>The functions of \<open>ipasirpb.h\<close>; a constraint is its terms and right-hand side, with relation GEQ.\<close>

record ('r, 'd) ipasirpb =
  ipb_init :: 'r
  ipb_add64 :: "monomial list \<Rightarrow> int \<Rightarrow> 'r \<Rightarrow> 'r"
  ipb_set_obj64 :: "monomial list \<Rightarrow> int \<Rightarrow> 'r \<Rightarrow> 'r"
  ipb_solve :: "int \<Rightarrow> 'r \<Rightarrow> 'd worker \<Rightarrow> (int \<times> 'r \<times> 'd worker) option"
  ipb_litval :: "lit \<Rightarrow> 'r \<Rightarrow> bool"
  ipb_primal_bound :: "'r \<Rightarrow> int"
  ipb_dual_bound :: "'r \<Rightarrow> int"
  ipb_assignedVars :: "'r \<Rightarrow> int"
  ipb_is_true_lit :: "lit \<Rightarrow> 'r \<Rightarrow> bool"
  ipb_is_false_lit :: "lit \<Rightarrow> 'r \<Rightarrow> bool"
  ipb_backjump :: "int \<Rightarrow> 'r \<Rightarrow> 'r"
  ipb_assume_and_propagate :: "lit \<Rightarrow> 'r \<Rightarrow> bool \<times> 'r"
  ipb_good_clauses :: "'r \<Rightarrow> (monomial list \<times> int) list"
  ipb_number_non_satisfied :: "'r \<Rightarrow> int"

definition IPASIRPB_SAT :: int where "IPASIRPB_SAT = 10"
definition IPASIRPB_UNSAT :: int where "IPASIRPB_UNSAT = 20"
definition IPASIRPB_OPT :: int where "IPASIRPB_OPT = 30"

text \<open>The conversion of a 64-bit integer to \<open>int\<close>.\<close>

definition to_int :: "int \<Rightarrow> int" where
  "to_int x = wrap 32 x"

definition RS_goodClauses :: "('r, 'd) ipasirpb \<Rightarrow> 'r \<Rightarrow> wconstraint list" where
  "RS_goodClauses R s =
     map (\<lambda>(ms, k). WConstraint_vec (map (\<lambda>m. to_int (fst m)) ms) (map (\<lambda>m. to_int (snd m)) ms) (to_int k)) (ipb_good_clauses R s)"

definition RS_addWConstraint :: "('r, 'd) ipasirpb \<Rightarrow> wconstraint \<Rightarrow> 'r \<Rightarrow> wconstraint \<times> 'r" where
  "RS_addWConstraint R c s =
     (let c = sortByDecreasingCoefficient (removeDuplicates (sortByIncreasingVariable c));
          terms = map (\<lambda>i. (getIthCoefficient c i, getIthLiteral c i)) [0..<nat (getSize c)]
      in (c, ipb_add64 R terms (rhs c) s))"

text \<open>The problem is passed by reference: its constraints come back normalised.\<close>

fun RS_base_loop :: "('r, 'd) ipasirpb \<Rightarrow> wconstraint list \<Rightarrow> 'r \<Rightarrow> wconstraint list \<times> 'r" where
  "RS_base_loop R [] s = ([], s)"
| "RS_base_loop R (c # cs) s =
     (let (c', s1) = RS_addWConstraint R c s; (cs', s2) = RS_base_loop R cs s1 in (c' # cs', s2))"

definition RS_addBaseProblem :: "('r, 'd) ipasirpb \<Rightarrow> pbproblem \<Rightarrow> 'r \<Rightarrow> pbproblem \<times> 'r" where
  "RS_addBaseProblem R problem s =
     (let (cs, s) = RS_base_loop R (constraints problem) s in (problem\<lparr>constraints := cs\<rparr>, s))"

definition RS_addLearnedConstraints :: "('r, 'd) ipasirpb \<Rightarrow> wconstraint list \<Rightarrow> 'r \<Rightarrow> 'r" where
  "RS_addLearnedConstraints R cs s = fold (\<lambda>c s. snd (RS_addWConstraint R c s)) cs s"

definition RS_addCube :: "('r, 'd) ipasirpb \<Rightarrow> lit list \<Rightarrow> 'r \<Rightarrow> 'r" where
  "RS_addCube R cube s = fold (\<lambda>l. ipb_add64 R [(1, l)] 1) cube s"

definition RS_addObjective :: "('r, 'd) ipasirpb \<Rightarrow> pbproblem \<Rightarrow> 'r \<Rightarrow> 'r" where
  "RS_addObjective R problem s =
     (if objCoeffs problem = [] then s
      else ipb_set_obj64 R (zip (objCoeffs problem) (objVars problem)) 0 s)"

definition RS_addLinearConstraint :: "('r, 'd) ipasirpb \<Rightarrow> int list \<Rightarrow> var list \<Rightarrow> int \<Rightarrow> bool \<Rightarrow> 'r \<Rightarrow> 'r" where
  "RS_addLinearConstraint R coeffs varNums r isGeq s =
     (case build_linear_geq_parts coeffs varNums r isGeq of
        None \<Rightarrow> s
      | Some (coefficients, literals, outRhs) \<Rightarrow>
          snd (RS_addWConstraint R (WConstraint_vec coefficients literals outRhs) s))"

definition RS_addObjectiveBound :: "('r, 'd) ipasirpb \<Rightarrow> pbproblem \<Rightarrow> int \<Rightarrow> 'r \<Rightarrow> 'r" where
  "RS_addObjectiveBound R problem best s =
     (if objCoeffs problem = [] then s
      else if minimizing problem then RS_addLinearConstraint R (objCoeffs problem) (objVars problem) (wrap 32 (best - 1)) False s
      else RS_addLinearConstraint R (objCoeffs problem) (objVars problem) (wrap 32 (best + 1)) True s)"

definition RS_addObjectiveLowerBound :: "('r, 'd) ipasirpb \<Rightarrow> pbproblem \<Rightarrow> int \<Rightarrow> 'r \<Rightarrow> 'r" where
  "RS_addObjectiveLowerBound R problem lb s =
     (if objCoeffs problem = [] \<or> \<not> minimizing problem then s
      else RS_addLinearConstraint R (objCoeffs problem) (objVars problem) lb True s)"

definition RS_isTrueLit :: "('r, 'd) ipasirpb \<Rightarrow> lit \<Rightarrow> 'r \<Rightarrow> bool" where "RS_isTrueLit R l s = ipb_is_true_lit R l s"
definition RS_isFalseLit :: "('r, 'd) ipasirpb \<Rightarrow> lit \<Rightarrow> 'r \<Rightarrow> bool" where "RS_isFalseLit R l s = ipb_is_false_lit R l s"

definition RS_isUndefLit :: "('r, 'd) ipasirpb \<Rightarrow> lit \<Rightarrow> 'r \<Rightarrow> bool" where
  "RS_isUndefLit R l s \<longleftrightarrow> \<not> RS_isTrueLit R l s \<and> \<not> RS_isFalseLit R l s"

definition RS_assumeAndPropagate :: "('r, 'd) ipasirpb \<Rightarrow> lit \<Rightarrow> 'r \<Rightarrow> (bool \<times> 'r) option" where
  "RS_assumeAndPropagate R l s = (let (conflict, s) = ipb_assume_and_propagate R l s in Some (\<not> conflict, s))"

definition RS_backtrack :: "('r, 'd) ipasirpb \<Rightarrow> int \<Rightarrow> 'r \<Rightarrow> 'r" where "RS_backtrack R levels s = ipb_backjump R levels s"

definition RS_solve_raw :: "('r, 'd) ipasirpb \<Rightarrow> int \<Rightarrow> 'r \<Rightarrow> 'd worker \<Rightarrow> (int \<times> 'r \<times> 'd worker) option" where
  "RS_solve_raw R seconds s w = ipb_solve R seconds s w"

definition RS_primalBound :: "('r, 'd) ipasirpb \<Rightarrow> 'r \<Rightarrow> int" where "RS_primalBound R s = ipb_primal_bound R s"
definition RS_dualBound :: "('r, 'd) ipasirpb \<Rightarrow> 'r \<Rightarrow> int" where "RS_dualBound R s = ipb_dual_bound R s"

definition RS_solve ::
    "('r, 'd) ipasirpb \<Rightarrow> bool \<Rightarrow> int \<Rightarrow> 'r \<Rightarrow> 'd worker \<Rightarrow> (cube_solve_result \<times> 'r \<times> 'd worker) option" where
  "RS_solve R optimizing tlimit s w = do {
     (ans, s, w) \<leftarrow> RS_solve_raw R tlimit s w;
     Some (if optimizing
           then if ans = IPASIRPB_OPT then result_of OPTIMUM_FOUND True (to_int (RS_primalBound R s))
                else if ans = IPASIRPB_SAT then result_of SOME_SOLUTION_FOUND True (to_int (RS_primalBound R s))
                else if ans = IPASIRPB_UNSAT then result_of INFEASIBLE False 0
                else result_of NO_SOLUTION_FOUND False 0
           else if ans = IPASIRPB_SAT then result_of SOME_SOLUTION_FOUND True 0
                else if ans = IPASIRPB_UNSAT then result_of INFEASIBLE False 0
                else result_of NO_SOLUTION_FOUND False 0, s, w) }"

definition RS_nonSatisfiedConstraints :: "('r, 'd) ipasirpb \<Rightarrow> 'r \<Rightarrow> int" where
  "RS_nonSatisfiedConstraints R s = ipb_number_non_satisfied R s"

definition RS_getSolution :: "('r, 'd) ipasirpb \<Rightarrow> int \<Rightarrow> 'r \<Rightarrow> int list" where
  "RS_getSolution R nVars s = 0 # map (\<lambda>v. if ipb_litval R v s then 1 else 0) (all_vars nVars)"

definition roundingsat_ops :: "('r, 'd) ipasirpb \<Rightarrow> ('r, 'd) solver_backend" where
  "roundingsat_ops R =
     \<lparr>op_assignedVars = ipb_assignedVars R, op_isUndefLit = RS_isUndefLit R,
      op_assumeAndPropagate = RS_assumeAndPropagate R, op_backtrack = RS_backtrack R,
      op_create = ipb_init R, op_addBaseProblem = (\<lambda>p s. Some (RS_addBaseProblem R p s)),
      op_addLearnedConstraints = (\<lambda>cs s. Some (RS_addLearnedConstraints R cs s)),
      op_addCube = (\<lambda>cube s. Some (RS_addCube R cube s)), op_addObjective = (\<lambda>p s. Some (RS_addObjective R p s)),
      op_addObjectiveBound = (\<lambda>p b s. Some (RS_addObjectiveBound R p b s)),
      op_addObjectiveLowerBound = (\<lambda>p b s. Some (RS_addObjectiveLowerBound R p b s)),
      op_goodClauses = RS_goodClauses R, op_getSolution = RS_getSolution R, op_solve = RS_solve R\<rparr>"

section \<open>The answers of CaDiCaL\<close>

lemma all_vars_set: "set (all_vars n) = {v. 0 < v \<and> v \<le> n}"
proof -
  have "v \<in> (\<lambda>i. int i + 1) ` {0..<nat n}" if "0 < v" "v \<le> n" for v
    using that by (intro image_eqI [of _ _ "nat (v - 1)"]) auto
  then show ?thesis by (auto simp: all_vars_def)
qed

lemma all_vars_length: "length (all_vars n) = nat n" by (simp add: all_vars_def)

lemma all_vars_nth: "i < nat n \<Longrightarrow> all_vars n ! i = int i + 1" by (simp add: all_vars_def)

text \<open>The assignment printed for a solution vector built from the values of the variables.\<close>

lemma solution_of_values:
  "solution_assignment (0 # map (\<lambda>v. if P v then 1 else 0) (all_vars n)) = (\<lambda>v. 0 < v \<and> v \<le> n \<and> P v)"
proof
  fix v
  show "solution_assignment (0 # map (\<lambda>v. if P v then 1 else 0) (all_vars n)) v = (0 < v \<and> v \<le> n \<and> P v)"
  proof (cases "0 < v \<and> v \<le> n")
    case True
    then have "nat v = Suc (nat (v - 1))" "nat (v - 1) < nat n" "int (nat (v - 1)) + 1 = v" by auto
    then show ?thesis using True
      by (simp add: solution_assignment_def all_vars_length all_vars_nth)
  next
    case False
    then consider "v < 0" | "v = 0" | "n < v" by linarith
    then show ?thesis using False by cases (auto simp: solution_assignment_def all_vars_length)
  qed
qed

text \<open>
  What is relied on of CaDiCaL: \<open>holds c\<close> are the solutions of the clauses of \<open>c\<close>, \<open>level c\<close> the
  number of its decisions. Propagation without decisions fails only on an unsatisfiable formula;
  \<open>solve\<close> answers 10 only when there is a model and 20 only when there is none. Nothing is said of \<open>cad_value\<close>:
  \<open>Solver::value\<close>, by which the backend reads a solution, is not the documented \<open>Solver::val\<close>. It
  looks up the internal variable of that number, and does not extend the assignment to the variables
  that preprocessing has eliminated.
\<close>

definition cadical_ok :: "('c, 'd) cadical \<Rightarrow> int \<Rightarrow> ('c \<Rightarrow> assignment \<Rightarrow> bool) \<Rightarrow> ('c \<Rightarrow> nat) \<Rightarrow> bool" where
  "cadical_ok C n holds level \<longleftrightarrow>
     (\<forall>\<sigma>. holds (cad_resize C n) \<sigma>) \<and> level (cad_resize C n) = 0
     \<and> (\<forall>ls c. (\<forall>\<sigma>. holds (cad_clause C ls c) \<sigma> = (holds c \<sigma> \<and> (\<exists>l \<in> set ls. lit_true \<sigma> l)))
           \<and> level (cad_clause C ls c) = level c)
     \<and> (\<forall>c. holds (snd (cad_propagateX C c)) = holds c \<and> level (snd (cad_propagateX C c)) = level c
           \<and> (level c = 0 \<and> \<not> fst (cad_propagateX C c) \<longrightarrow> (\<forall>\<sigma>. \<not> holds c \<sigma>)))
     \<and> (\<forall>c w ans c' w'. level c = 0 \<longrightarrow> cad_solve C c w = Some (ans, c', w') \<longrightarrow> w_rank w' = w_rank w
           \<and> (ans = 10 \<longrightarrow> (\<exists>\<sigma>. holds c \<sigma>))
           \<and> (ans = 20 \<longrightarrow> (\<forall>\<sigma>. \<not> holds c \<sigma>)))"

definition cadical_models :: "('c \<Rightarrow> assignment \<Rightarrow> bool) \<Rightarrow> ('c \<Rightarrow> nat) \<Rightarrow> 'c cadical_backend \<Rightarrow> assignment \<Rightarrow> bool" where
  "cadical_models holds level s \<sigma> \<longleftrightarrow> holds (cad_solver s) \<sigma> \<and> \<not> root_conflict s \<and> level (cad_solver s) = 0"

lemma cadical_clauses:
  assumes "cadical_ok C n holds level"
  shows "holds (fold (cad_clause C) cnf c) \<sigma> = (holds c \<sigma> \<and> sat_cnf \<sigma> cnf)"
    and "level (fold (cad_clause C) cnf c) = level c"
proof -
  have "holds (fold (cad_clause C) cnf c) \<sigma> = (holds c \<sigma> \<and> sat_cnf \<sigma> cnf) \<and> level (fold (cad_clause C) cnf c) = level c"
    using assms by (induction cnf arbitrary: c) (auto simp: cadical_ok_def sat_cnf_def)
  then show "holds (fold (cad_clause C) cnf c) \<sigma> = (holds c \<sigma> \<and> sat_cnf \<sigma> cnf)"
    "level (fold (cad_clause C) cnf c) = level c" by simp_all
qed

lemma cadical_propagate:
  assumes "cadical_ok C n holds level"
  shows "cadical_models holds level (Cadical_initialPropagate C s) \<sigma> = cadical_models holds level s \<sigma>"
    and "level (cad_solver (Cadical_initialPropagate C s)) = level (cad_solver s)"
proof -
  obtain ok c where p: "cad_propagateX C (cad_solver s) = (ok, c)" by fastforce
  have "holds c = holds (cad_solver s)" "level c = level (cad_solver s)"
    "level (cad_solver s) = 0 \<and> \<not> ok \<longrightarrow> (\<forall>\<sigma>. \<not> holds (cad_solver s) \<sigma>)"
    using assms [unfolded cadical_ok_def] p by (metis fst_conv snd_conv)+
  then show "cadical_models holds level (Cadical_initialPropagate C s) \<sigma> = cadical_models holds level s \<sigma>"
    "level (cad_solver (Cadical_initialPropagate C s)) = level (cad_solver s)"
    by (auto simp: Cadical_initialPropagate_def cadical_models_def p)
qed

lemma cube_clauses: "fold (\<lambda>l. cad_clause C [l]) cube c = fold (cad_clause C) (map (\<lambda>l. [l]) cube) c"
  by (simp add: fold_map comp_def)

lemma cadical_base:
  assumes "cadical_ok C n holds level"
  shows "cadical_models holds level (Cadical_addBaseProblem C cnf s) \<sigma> = (cadical_models holds level s \<sigma> \<and> sat_cnf \<sigma> cnf)"
    "level (cad_solver (Cadical_addBaseProblem C cnf s)) = level (cad_solver s)"
    "cadical_models holds level (Cadical_addCube C cube s) \<sigma> = (cadical_models holds level s \<sigma> \<and> in_cube \<sigma> cube)"
    "level (cad_solver (Cadical_addCube C cube s)) = level (cad_solver s)"
  unfolding Cadical_addBaseProblem_def Cadical_addCube_def cadical_propagate [OF assms] cube_clauses
  by (auto simp: cadical_models_def cadical_clauses [OF assms] sat_cnf_def)

text \<open>
  C18: The answers of the CaDiCaL backend. A solver prepared with a CNF and a cube refuses an optimisation run
  (also a constraint or a bound on the objective), answers infeasible only when no model of
  the CNF lies in the cube and reports a solution only when one does; it never claims an optimum. The
  assignment it then hands out makes true exactly the variables whose \<open>Solver::value\<close> is 1.
\<close>

theorem cadical_backend_sound:
  assumes C: "cadical_ok C n holds level"
    and pr: "prepare_solver (cadical_ops C cnf n) problem cube learned best has lb optimizing = Some (p, s)"
  shows "op_solve (cadical_ops C cnf n) True t s w = None \<and> (optimizing \<longrightarrow> objCoeffs problem = [] \<and> \<not> has)
    \<and> (\<forall>res s' w'. op_solve (cadical_ops C cnf n) False t s w = Some (res, s', w') \<longrightarrow>
        w_rank w' = w_rank w \<and> (hasSolution res \<longleftrightarrow> res_status res = SOME_SOLUTION_FOUND)
        \<and> (res_status res = INFEASIBLE \<longrightarrow> (\<forall>\<sigma>. \<not> (sat_cnf \<sigma> cnf \<and> in_cube \<sigma> cube)))
        \<and> (res_status res = SOME_SOLUTION_FOUND \<longrightarrow> (\<exists>\<sigma>. sat_cnf \<sigma> cnf \<and> in_cube \<sigma> cube))
        \<and> res_status res \<noteq> OPTIMUM_FOUND
        \<and> solution_assignment (op_getSolution (cadical_ops C cnf n) n s') = (\<lambda>v. 0 < v \<and> v \<le> n \<and> cad_value C v (cad_solver s') = 1))"
proof -
  let ?B = "cadical_ops C cnf n" and ?m = "cadical_models holds level"
  have new: "?m (Cadical_new C n) \<sigma>" "level (cad_solver (Cadical_new C n)) = 0" for \<sigma>
    using C by (simp_all add: cadical_models_def Cadical_new_def cadical_ok_def)
  have s: "s = Cadical_addCube C cube (Cadical_addBaseProblem C cnf (Cadical_new C n))"
    and opt: "optimizing \<longrightarrow> objCoeffs problem = [] \<and> \<not> has"
    using pr by (auto simp: prepare_solver_def cadical_ops_def Cadical_addLearnedConstraints_def Cadical_addObjective_def
        Cadical_addObjectiveBound_def Cadical_addObjectiveLowerBound_def split: if_splits)
  have m: "?m s \<sigma> \<longleftrightarrow> sat_cnf \<sigma> cnf \<and> in_cube \<sigma> cube" for \<sigma> by (simp add: s cadical_base [OF C] new)
  have lv: "level (cad_solver s) = 0" by (simp add: s cadical_base [OF C] new)
  note law = C [unfolded cadical_ok_def, THEN conjunct2, THEN conjunct2, THEN conjunct2, THEN conjunct2, rule_format, OF lv]
  have sol: "solution_assignment (op_getSolution ?B n s') = (\<lambda>v. 0 < v \<and> v \<le> n \<and> cad_value C v (cad_solver s') = 1)" for s'
    by (simp add: cadical_ops_def Cadical_getSolution_def solution_of_values Cadical_isTrueLit_def)
  have "w_rank w' = w_rank w \<and> (hasSolution res \<longleftrightarrow> res_status res = SOME_SOLUTION_FOUND)
      \<and> (res_status res = INFEASIBLE \<longrightarrow> (\<forall>\<sigma>. \<not> ?m s \<sigma>)) \<and> (res_status res = SOME_SOLUTION_FOUND \<longrightarrow> (\<exists>\<sigma>. ?m s \<sigma>))
      \<and> res_status res \<noteq> OPTIMUM_FOUND"
    if so: "op_solve ?B False t s w = Some (res, s', w')" for res s' w'
  proof (cases "root_conflict s")
    case True
    then show ?thesis using so by (auto simp: cadical_ops_def Cadical_solve_def cadical_models_def)
  next
    case False
    then obtain ans c where a: "cad_solve C (cad_solver s) w = Some (ans, c, w')"
      and res: "res = (if ans = 10 then result_of SOME_SOLUTION_FOUND True 0
            else if ans = 20 then result_of INFEASIBLE False 0 else result_of NO_SOLUTION_FOUND False 0)"
      using so by (auto simp: cadical_ops_def Cadical_solve_def bind_eq_Some_conv)
    show ?thesis using law [OF a(1)] False lv unfolding res by (auto simp: cadical_models_def)
  qed
  moreover have "op_solve ?B True t s w = None" by (simp add: cadical_ops_def Cadical_solve_def)
  ultimately show ?thesis using opt unfolding m sol by blast
qed

section \<open>RoundingSat keeps the contract\<close>

text \<open>
  What is relied on of RoundingSat: \<open>holds s\<close> are the solutions of the constraints added to \<open>s\<close>,
  \<open>obj s\<close> its objective. SAT and OPT come with a solution, and with a cost that is the cost of that solution
  or the bound \<open>ext w\<close> that \<open>report_external_UB\<close> told while it searched: the library takes such a bound
  for its own upper bound and keeps the older solution. OPT and UNSAT leave no
  solution that is better, also than the bound told.
\<close>

definition below :: "monomial list option \<Rightarrow> int option \<Rightarrow> assignment \<Rightarrow> bool" where
  "below ob e \<sigma> \<longleftrightarrow> (case ob of None \<Rightarrow> True | Some ms \<Rightarrow> (case e of None \<Rightarrow> True | Some b \<Rightarrow> msum (lit_true \<sigma>) ms < b))"

definition ipasirpb_ok ::
    "('r, 'd) ipasirpb \<Rightarrow> int \<Rightarrow> ('r \<Rightarrow> assignment \<Rightarrow> bool) \<Rightarrow> ('r \<Rightarrow> monomial list option) \<Rightarrow> ('d worker \<Rightarrow> int option) \<Rightarrow> bool" where
  "ipasirpb_ok R n holds obj ext \<longleftrightarrow>
     (\<forall>\<sigma>. holds (ipb_init R) \<sigma>) \<and> obj (ipb_init R) = None
     \<and> (\<forall>ms k s. nonzero_lits ms \<longrightarrow> (\<forall>\<sigma>. holds (ipb_add64 R ms k s) \<sigma> = (holds s \<sigma> \<and> k \<le> msum (lit_true \<sigma>) ms)))
     \<and> (\<forall>ms k s. obj (ipb_add64 R ms k s) = obj s)
     \<and> (\<forall>ms s. holds (ipb_set_obj64 R ms 0 s) = holds s \<and> obj (ipb_set_obj64 R ms 0 s) = Some ms)
     \<and> (\<forall>t s w ans s' w'. ipb_solve R t s w = Some (ans, s', w') \<longrightarrow> w_rank w' = w_rank w
          \<and> (ans = IPASIRPB_UNSAT \<longrightarrow> (\<forall>\<sigma>. holds s \<sigma> \<longrightarrow> \<not> below (obj s) (ext w') \<sigma>))
          \<and> (ans = IPASIRPB_SAT \<or> ans = IPASIRPB_OPT \<longrightarrow> holds s (\<lambda>v. 0 < v \<and> v \<le> n \<and> ipb_litval R v s')
               \<and> (\<forall>ms. obj s = Some ms \<longrightarrow> INT_MIN \<le> ipb_primal_bound R s' \<and> ipb_primal_bound R s' \<le> INT_MAX
                    \<and> (ipb_primal_bound R s' = msum (lit_true (\<lambda>v. 0 < v \<and> v \<le> n \<and> ipb_litval R v s')) ms
                         \<or> ext w' = Some (ipb_primal_bound R s'))))
          \<and> (ans = IPASIRPB_OPT \<longrightarrow> (\<forall>ms \<sigma>. obj s = Some ms \<and> holds s \<sigma> \<and> below (obj s) (ext w') \<sigma> \<longrightarrow>
               ipb_primal_bound R s' \<le> msum (lit_true \<sigma>) ms)))"

lemmas ipb_codes = IPASIRPB_SAT_def IPASIRPB_UNSAT_def IPASIRPB_OPT_def

lemma to_int_id: "INT_MIN \<le> x \<Longrightarrow> x \<le> INT_MAX \<Longrightarrow> to_int x = x"
  using wrap_id [of 32 x] by (simp add: to_int_def)

lemma ipb_add_law:
  assumes "ipasirpb_ok R n holds obj ext"
  shows "nonzero_lits ms \<Longrightarrow> holds (ipb_add64 R ms k s) \<sigma> = (holds s \<sigma> \<and> k \<le> msum (lit_true \<sigma>) ms)"
    "obj (ipb_add64 R ms k s) = obj s"
  using assms [unfolded ipasirpb_ok_def, THEN conjunct2, THEN conjunct2, THEN conjunct1]
    assms [unfolded ipasirpb_ok_def, THEN conjunct2, THEN conjunct2, THEN conjunct2, THEN conjunct1] by simp_all

lemma within_nonzero: "constraint_within n c \<Longrightarrow> pos_coeffs (lhs c) \<and> nonzero_lits (lhs c)"
  by (auto simp: constraint_within_def lits_within_def nonzero_lits_def)

lemma RS_add_correct:
  assumes R: "ipasirpb_ok R n holds obj ext" and c: "pos_coeffs (lhs c)" "nonzero_lits (lhs c)"
  shows "holds (snd (RS_addWConstraint R c s)) \<sigma> = (holds s \<sigma> \<and> sat \<sigma> c)"
    "obj (snd (RS_addWConstraint R c s)) = obj s" "fst (RS_addWConstraint R c s) = normalize c"
proof -
  have terms: "map (\<lambda>i. (getIthCoefficient d i, getIthLiteral d i)) [0..<nat (getSize d)] = lhs d" for d
    by (rule nth_equalityI) (simp_all add: getSize_def getIthCoefficient_def getIthLiteral_def)
  have eq: "RS_addWConstraint R c s = (normalize c, ipb_add64 R (lhs (normalize c)) (rhs (normalize c)) s)"
    by (simp add: RS_addWConstraint_def Let_def terms normalize_def)
  show "fst (RS_addWConstraint R c s) = normalize c" by (simp add: eq)
  show "obj (snd (RS_addWConstraint R c s)) = obj s" by (simp add: eq ipb_add_law(2) [OF R])
  have "sat \<sigma> (normalize c) = sat \<sigma> c" by (rule normalize_sat [OF c])
  moreover have "holds (ipb_add64 R (lhs (normalize c)) (rhs (normalize c)) s) \<sigma>
      = (holds s \<sigma> \<and> rhs (normalize c) \<le> msum (lit_true \<sigma>) (lhs (normalize c)))"
    by (rule ipb_add_law(1) [OF R normalize_nonzero [OF c]])
  ultimately show "holds (snd (RS_addWConstraint R c s)) \<sigma> = (holds s \<sigma> \<and> sat \<sigma> c)"
    by (simp add: eq sat_def)
qed

lemma RS_base_correct:
  assumes R: "ipasirpb_ok R n holds obj ext" and cs: "\<forall>c \<in> set cs. constraint_within n c"
  shows "fst (RS_base_loop R cs s) = map normalize cs"
    "holds (snd (RS_base_loop R cs s)) \<sigma> = (holds s \<sigma> \<and> (\<forall>c \<in> set cs. sat \<sigma> c))"
    "obj (snd (RS_base_loop R cs s)) = obj s"
proof -
  have "fst (RS_base_loop R cs s) = map normalize cs
    \<and> holds (snd (RS_base_loop R cs s)) \<sigma> = (holds s \<sigma> \<and> (\<forall>c \<in> set cs. sat \<sigma> c)) \<and> obj (snd (RS_base_loop R cs s)) = obj s"
    using cs
  proof (induction cs arbitrary: s)
    case (Cons c cs)
    have w: "pos_coeffs (lhs c)" "nonzero_lits (lhs c)" using Cons.prems within_nonzero [of n c] by auto
    note A = RS_add_correct [OF R w, of s]
    have IH: "fst (RS_base_loop R cs t) = map normalize cs
      \<and> holds (snd (RS_base_loop R cs t)) \<sigma> = (holds t \<sigma> \<and> (\<forall>c \<in> set cs. sat \<sigma> c)) \<and> obj (snd (RS_base_loop R cs t)) = obj t" for t
      using Cons by simp
    show ?case using IH [of "snd (RS_addWConstraint R c s)"] by (auto simp add: Let_def split_beta A)
  qed simp
  then show "fst (RS_base_loop R cs s) = map normalize cs"
    "holds (snd (RS_base_loop R cs s)) \<sigma> = (holds s \<sigma> \<and> (\<forall>c \<in> set cs. sat \<sigma> c))"
    "obj (snd (RS_base_loop R cs s)) = obj s" by blast+
qed

lemma RS_learned_correct:
  assumes R: "ipasirpb_ok R n holds obj ext" and cs: "\<forall>c \<in> set cs. constraint_within n c"
  shows "holds (RS_addLearnedConstraints R cs s) \<sigma> = (holds s \<sigma> \<and> (\<forall>c \<in> set cs. sat \<sigma> c)) \<and> obj (RS_addLearnedConstraints R cs s) = obj s"
  using cs
proof (induction cs arbitrary: s)
  case (Cons c cs)
  have w: "pos_coeffs (lhs c)" "nonzero_lits (lhs c)" using Cons.prems within_nonzero [of n c] by auto
  show ?case using Cons.IH [of "snd (RS_addWConstraint R c s)"] Cons.prems RS_add_correct [OF R w, of s]
    by (simp add: RS_addLearnedConstraints_def)
qed (simp add: RS_addLearnedConstraints_def)

lemma RS_cube_correct:
  assumes R: "ipasirpb_ok R n holds obj ext" and c: "lits_within n cube"
  shows "holds (RS_addCube R cube s) \<sigma> = (holds s \<sigma> \<and> in_cube \<sigma> cube) \<and> obj (RS_addCube R cube s) = obj s"
  using c
proof (induction cube arbitrary: s)
  case (Cons l cube)
  have "nonzero_lits [(1, l)]" using Cons.prems by (simp add: nonzero_lits_def lits_within_def)
  then have "holds (ipb_add64 R [(1, l)] 1 s) \<sigma> = (holds s \<sigma> \<and> 1 \<le> msum (lit_true \<sigma>) [(1, l)])"
    "obj (ipb_add64 R [(1, l)] 1 s) = obj s" by (simp_all only: ipb_add_law [OF R])
  then show ?case using Cons.IH [of "ipb_add64 R [(1, l)] 1 s"] Cons.prems
    by (auto simp add: RS_addCube_def lits_within_def)
qed (simp add: RS_addCube_def)

lemma RS_add_obj:
  assumes R: "ipasirpb_ok R n holds obj ext"
  shows "obj (snd (RS_addWConstraint R c s)) = obj s"
  by (simp add: RS_addWConstraint_def Let_def ipb_add_law(2) [OF R])

lemma geq_loop_terms:
  "geq_loop g ts cs ls r = (cs', ls', r') \<Longrightarrow> length cs = length ls \<Longrightarrow> \<forall>(a, v) \<in> set ts. 0 < v \<and> \<bar>a\<bar> \<le> INT_MAX \<Longrightarrow>
   pos_coeffs (zip cs ls) \<Longrightarrow> nonzero_lits (zip cs ls) \<Longrightarrow> pos_coeffs (zip cs' ls') \<and> nonzero_lits (zip cs' ls')"
proof (induction g ts cs ls r rule: geq_loop.induct)
  case (2 g a v ts cs ls r)
  have w: "wrap 32 (- a) = - a" "wrap 32 a = a" "wrap 32 \<bar>a\<bar> = \<bar>a\<bar>"
    using "2.prems"(3) by (simp_all add: wrap_int in_int_def abs_le_iff)
  show ?case using 2 by (auto simp: Let_def w split: if_splits)
qed simp

definition objective_in_range :: "pbproblem \<Rightarrow> bool" where
  "objective_in_range p \<longleftrightarrow> sum_list (map abs (objCoeffs p)) \<le> INT_MAX"

lemma flipped_sum_abs: "flipped_sum g cs \<le> sum_list (map abs cs) \<and> (\<forall>a \<in> set cs. \<bar>a\<bar> \<le> sum_list (map abs cs))"
proof (induction cs)
  case (Cons a cs)
  have "0 \<le> sum_list (map abs cs)" by (rule sum_list_nonneg) auto
  with Cons show ?case by force
qed simp

lemma range_coeffs: "objective_in_range p \<Longrightarrow> coeffs_ok (objCoeffs p) \<and> flipped_sum g (objCoeffs p) \<le> INT_MAX"
  using flipped_sum_abs [of g "objCoeffs p"] unfolding objective_in_range_def coeffs_ok_def by force

text \<open>No solution within the inequality is lost: when its right-hand side leaves \<open>int\<close> it is dropped.\<close>

lemma RS_linear_correct:
  assumes R: "ipasirpb_ok R n holds obj ext" and v: "\<forall>v \<in> set vars. 0 < v" and c: "coeffs_ok coeffs" "flipped_sum isGeq coeffs \<le> INT_MAX"
  shows "in_int r \<Longrightarrow> holds s \<sigma> \<Longrightarrow> linear_holds \<sigma> coeffs vars r isGeq \<Longrightarrow> holds (RS_addLinearConstraint R coeffs vars r isGeq s) \<sigma>"
    "holds (RS_addLinearConstraint R coeffs vars r isGeq s) \<sigma> \<Longrightarrow> holds s \<sigma>"
    "obj (RS_addLinearConstraint R coeffs vars r isGeq s) = obj s"
proof -
  obtain cs ls k where loop: "geq_loop isGeq (zip coeffs vars) [] [] (if \<not> isGeq then wrap 32 (- r) else r) = (cs, ls, k)"
    by (metis prod_cases3)
  have "\<forall>(a, v) \<in> set (zip coeffs vars). 0 < v \<and> \<bar>a\<bar> \<le> INT_MAX"
    using v c(1) by (auto simp: coeffs_ok_def dest: set_zip_leftD set_zip_rightD)
  then have w: "pos_coeffs (lhs (WConstraint_vec cs ls k))" "nonzero_lits (lhs (WConstraint_vec cs ls k))"
    using geq_loop_terms [OF loop] by (simp_all add: WConstraint_vec_def)
  note A = RS_add_correct [OF R w, of s]
  have eq: "RS_addLinearConstraint R coeffs vars r isGeq s =
      (if k < 1 then s else snd (RS_addWConstraint R (WConstraint_vec cs ls k) s))"
    by (simp add: RS_addLinearConstraint_def build_linear_geq_parts_def loop)
  show "holds (RS_addLinearConstraint R coeffs vars r isGeq s) \<sigma> \<Longrightarrow> holds s \<sigma>"
    and "obj (RS_addLinearConstraint R coeffs vars r isGeq s) = obj s"
    using A(1,2) by (auto simp: eq split: if_splits)
  assume r: "in_int r" and h: "holds s \<sigma>" "linear_holds \<sigma> coeffs vars r isGeq"
  obtain y where y: "k = wrap 32 y" "y \<le> lhs_value \<sigma> (zip cs ls)"
    "y = (if isGeq then r else - r) + flipped_sum isGeq (map fst (zip coeffs vars))"
    using geq_loop_zip [OF c(1) r v, of isGeq] loop h(2) by (smt (verit) prod.inject)
  show "holds (RS_addLinearConstraint R coeffs vars r isGeq s) \<sigma>"
  proof (cases "y \<le> INT_MAX")
    case True
    then have "in_int y" using y(3) r flipped_sum_nonneg [of isGeq "map fst (zip coeffs vars)"] by (auto simp: in_int_def split: if_splits)
    then have "sat \<sigma> (WConstraint_vec cs ls k)" using y(1,2) by (simp add: sat_def WConstraint_vec_def wrap_int)
    then show ?thesis using A(1) h(1) by (simp add: eq)
  next
    case False
    have "y \<le> INT_MAX + 2 ^ 31" using y(3) r c(2) flipped_sum_zip [of isGeq coeffs vars] by (auto simp: in_int_def split: if_splits)
    then have "k < 0" using wrap_over [of y] False y(1) by simp
    then show ?thesis using h(1) by (simp add: eq)
  qed
qed

lemma wrap_pred: "in_int b \<Longrightarrow> in_int (wrap 32 (b - 1)) \<and> b - 1 \<le> wrap 32 (b - 1)"
proof (cases "b = INT_MIN")
  case True
  then show ?thesis by (simp add: wrap_def in_int_def)
next
  case False
  then show "in_int b \<Longrightarrow> ?thesis" using wrap_int [of "b - 1"] by (simp add: in_int_def)
qed

lemma objective_msum: "\<forall>v \<in> set vs. 0 < v \<Longrightarrow> msum (lit_true \<sigma>) (zip cs vs) = linear_value \<sigma> cs vs"
proof (induction cs arbitrary: vs)
  case (Cons c cs)
  then show ?case by (cases vs) (auto simp: linear_value_def)
qed (simp add: linear_value_def)

lemma RS_contract:
  assumes R: "ipasirpb_ok R n holds obj ext" and p: "problem_within n problem" "minimizing problem"
    and opt: "optimizing \<longrightarrow> objCoeffs problem \<noteq> []" and rg: "objective_in_range problem"
  shows "adds_soundly (roundingsat_ops R) problem (\<lambda>\<sigma>. sat_problem \<sigma> problem) n holds"
    and "solves_soundly (roundingsat_ops R) problem n optimizing holds ext"
proof -
  let ?B = "roundingsat_ops R"
  let ?ms = "zip (objCoeffs problem) (objVars problem)"
  have v: "\<forall>v \<in> set (objVars problem). 0 < v" using p by (simp add: problem_within_def)
  have val: "msum (lit_true \<sigma>) ?ms = objective_value \<sigma> problem" for \<sigma>
    by (simp add: objective_msum [OF v] objective_value_def)
  have cw: "\<forall>c \<in> set (constraints problem). constraint_within n c" using p by (simp add: problem_within_def)
  note base = RS_base_correct [OF R cw]
  have addbase: "RS_addBaseProblem R problem s = (problem\<lparr>constraints := map normalize (constraints problem)\<rparr>,
      snd (RS_base_loop R (constraints problem) s))" for s
    by (simp add: RS_addBaseProblem_def split_beta Let_def base(1))
  have same: "same_problem problem (problem\<lparr>constraints := map normalize (constraints problem)\<rparr>)"
    using cw within_nonzero [of n] normalize_sat by (simp add: same_problem_def sat_problem_def)
  have ini: "holds (ipb_init R) \<sigma>" "obj (ipb_init R) = None" for \<sigma> using R by (simp_all add: ipasirpb_ok_def)
  have ho: "holds (RS_addObjective R q s) = holds s"
    "same_problem problem q \<Longrightarrow> optimizing \<Longrightarrow> obj (RS_addObjective R q s) = Some ?ms" for q s
    using R opt by (simp_all add: RS_addObjective_def ipasirpb_ok_def same_problem_def)
  have vq: "\<forall>v \<in> set (objVars q). 0 < v" if "same_problem problem q" for q
    using v that by (simp add: same_problem_def)
  note lin = RS_linear_correct [OF R v, of "objCoeffs problem"] and rc = range_coeffs [OF rg]
  have lh: "linear_holds \<sigma> (objCoeffs problem) (objVars problem) k False = (objective_value \<sigma> problem \<le> k)"
    "linear_holds \<sigma> (objCoeffs problem) (objVars problem) k True = (k \<le> objective_value \<sigma> problem)" for \<sigma> k
    by (simp_all add: linear_holds_def objective_value_def)
  have bo: "in_int b \<Longrightarrow> holds s \<sigma> \<Longrightarrow> objective_value \<sigma> problem < b \<Longrightarrow> holds (RS_addObjectiveBound R q b s) \<sigma>"
    "holds (RS_addObjectiveBound R q b s) \<sigma> \<Longrightarrow> holds s \<sigma>"
    "obj (RS_addObjectiveBound R q b s) = obj s" if q: "same_problem problem q" "objCoeffs q \<noteq> []" for q b s \<sigma>
  proof -
    have e: "RS_addObjectiveBound R q b s = RS_addLinearConstraint R (objCoeffs problem) (objVars problem) (wrap 32 (b - 1)) False s"
      using q p(2) by (simp add: RS_addObjectiveBound_def same_problem_def)
    show "in_int b \<Longrightarrow> holds s \<sigma> \<Longrightarrow> objective_value \<sigma> problem < b \<Longrightarrow> holds (RS_addObjectiveBound R q b s) \<sigma>"
      unfolding e using wrap_pred [of b] rc by (intro lin(1)) (simp_all add: lh)
    show "holds (RS_addObjectiveBound R q b s) \<sigma> \<Longrightarrow> holds s \<sigma>" "obj (RS_addObjectiveBound R q b s) = obj s"
      unfolding e using lin(2,3) rc by blast+
  qed
  have lo: "in_int b \<Longrightarrow> holds s \<sigma> \<Longrightarrow> b \<le> objective_value \<sigma> problem \<Longrightarrow> holds (RS_addObjectiveLowerBound R q b s) \<sigma>"
    "holds (RS_addObjectiveLowerBound R q b s) \<sigma> \<Longrightarrow> holds s \<sigma>"
    "obj (RS_addObjectiveLowerBound R q b s) = obj s" if q: "same_problem problem q" "objCoeffs q \<noteq> []" for q b s \<sigma>
  proof -
    have e: "RS_addObjectiveLowerBound R q b s = RS_addLinearConstraint R (objCoeffs problem) (objVars problem) b True s"
      using q p(2) by (simp add: RS_addObjectiveLowerBound_def same_problem_def)
    show "in_int b \<Longrightarrow> holds s \<sigma> \<Longrightarrow> b \<le> objective_value \<sigma> problem \<Longrightarrow> holds (RS_addObjectiveLowerBound R q b s) \<sigma>"
      unfolding e using rc by (intro lin(1)) (simp_all add: lh)
    show "holds (RS_addObjectiveLowerBound R q b s) \<sigma> \<Longrightarrow> holds s \<sigma>" "obj (RS_addObjectiveLowerBound R q b s) = obj s"
      unfolding e using lin(2,3) rc by blast+
  qed
  note lc = RS_learned_correct [OF R] RS_cube_correct [OF R]
  show "adds_soundly ?B problem (\<lambda>\<sigma>. sat_problem \<sigma> problem) n holds"
    unfolding adds_soundly_def roundingsat_ops_def
    by (simp add: addbase same base(2) ini sat_problem_def [symmetric] lc ho(1)) (intro conjI impI allI; rule bo lo; assumption?; simp)
  show "solves_soundly ?B problem n optimizing holds ext"
    unfolding solves_soundly_def
  proof (intro allI impI)
    fix cube learned best has lb q s t w res s' w'
    assume wi: "lits_within n cube" "\<forall>c \<in> set learned. constraint_within n c"
      and pr: "prepare_solver ?B problem cube learned best has lb optimizing = Some (q, s)"
      and so: "op_solve ?B optimizing t s w = Some (res, s', w')"
    have ob: "obj s = (if optimizing then Some ?ms else None)"
      using pr lc(1) [OF wi(2)] lc(2) [OF wi(1)]
      by (auto simp: prepare_solver_def roundingsat_ops_def addbase base(3) ini ho(2) [OF same] bo(3) [OF same] lo(3) [OF same] opt
          split: if_splits)
    obtain ans where a: "ipb_solve R t s w = Some (ans, s', w')"
      and res: "res = (if optimizing
           then if ans = IPASIRPB_OPT then result_of OPTIMUM_FOUND True (to_int (RS_primalBound R s'))
                else if ans = IPASIRPB_SAT then result_of SOME_SOLUTION_FOUND True (to_int (RS_primalBound R s'))
                else if ans = IPASIRPB_UNSAT then result_of INFEASIBLE False 0
                else result_of NO_SOLUTION_FOUND False 0
           else if ans = IPASIRPB_SAT then result_of SOME_SOLUTION_FOUND True 0
                else if ans = IPASIRPB_UNSAT then result_of INFEASIBLE False 0
                else result_of NO_SOLUTION_FOUND False 0)"
      using so by (auto simp: roundingsat_ops_def RS_solve_def RS_solve_raw_def bind_eq_Some_conv)
    have sol: "solution_assignment (op_getSolution ?B n s') = (\<lambda>v. 0 < v \<and> v \<le> n \<and> ipb_litval R v s')"
      by (simp add: roundingsat_ops_def RS_getSolution_def solution_of_values)
    note law = R [unfolded ipasirpb_ok_def, THEN conjunct2, THEN conjunct2, THEN conjunct2, THEN conjunct2, THEN conjunct2, rule_format, OF a]
    have bt: "below (Some ?ms) e \<sigma> = better_than problem e \<sigma>" for e \<sigma>
      by (simp add: below_def better_than_def val split: option.splits)
    show "w_rank w' = w_rank w \<and> hasSolution res = found (res_status res)
      \<and> (found (res_status res) \<longrightarrow> holds s (solution_assignment (op_getSolution ?B n s'))
           \<and> (optimizing \<longrightarrow> bestCost res \<le> INT_MAX
                 \<and> (bestCost res = objective_value (solution_assignment (op_getSolution ?B n s')) problem \<or> ext w' = Some (bestCost res))))
      \<and> (res_status res = INFEASIBLE \<longrightarrow> (\<forall>\<sigma>. holds s \<sigma> \<longrightarrow> \<not> (optimizing \<longrightarrow> better_than problem (ext w') \<sigma>)))
      \<and> (res_status res = OPTIMUM_FOUND \<and> optimizing \<longrightarrow>
           (\<forall>\<sigma>. holds s \<sigma> \<and> better_than problem (ext w') \<sigma> \<longrightarrow> bestCost res \<le> objective_value \<sigma> problem))"
    proof (cases optimizing)
      case True
      then show ?thesis using law ob unfolding res sol RS_primalBound_def
        by (auto simp: found_def bt val to_int_id ipb_codes)
    next
      case False
      then show ?thesis using law ob unfolding res sol by (auto simp: found_def below_def ipb_codes)
    qed
  qed
qed


section \<open>Instances\<close>

text \<open>
  A SAT solver that tries the assignment that makes every variable true, and looks for the empty
  clause; a pseudo-Boolean solver that tries the same assignment.
\<close>

definition all_true :: "int \<Rightarrow> assignment" where
  "all_true n v \<longleftrightarrow> 0 < v \<and> v \<le> n"

definition sample_cadical :: "int \<Rightarrow> (lit list list, unit) cadical" where
  "sample_cadical n =
     \<lparr>cad_resize = (\<lambda>_. []), cad_clause = (\<lambda>ls c. c @ [ls]), cad_propagateX = (\<lambda>c. ([] \<notin> set c, c)),
      cad_assignedVars = (\<lambda>_. 0), cad_value = (\<lambda>l c. if 0 < l then 1 else 0), cad_assume_decision = (\<lambda>l c. c),
      cad_backtrackX = (\<lambda>k c. c),
      cad_solve = (\<lambda>c w. Some (if sat_cnf (all_true n) c then 10 else if [] \<in> set c then 20 else 0, c, w))\<rparr>"

lemma sat_cnf_empty: "[] \<in> set c \<Longrightarrow> \<not> sat_cnf \<sigma> c"
  unfolding sat_cnf_def by (metis empty_iff list.set(1))

lemma sample_cadical_ok: "cadical_ok (sample_cadical n) n (\<lambda>c \<sigma>. sat_cnf \<sigma> c) (\<lambda>_. 0)"
  unfolding cadical_ok_def
proof (intro conjI allI impI)
  fix c w ans c' w'
  assume "cad_solve (sample_cadical n) c w = Some (ans, c', w')"
  then have a: "ans = (if sat_cnf (all_true n) c then 10 else if [] \<in> set c then 20 else 0)" "c' = c" "w' = w"
    by (auto simp: sample_cadical_def)
  show "ans = 10 \<Longrightarrow> \<exists>\<sigma>. sat_cnf \<sigma> c" using a(1) by (auto split: if_splits)
  show "w_rank w' = w_rank w" by (simp add: a(3))
  show "\<And>\<sigma>. ans = 20 \<Longrightarrow> \<not> sat_cnf \<sigma> c" using a(1) sat_cnf_empty by (simp split: if_splits)
next
  show "\<And>c \<sigma>. 0 = 0 \<and> \<not> fst (cad_propagateX (sample_cadical n) c) \<Longrightarrow> \<not> sat_cnf \<sigma> c"
    using sat_cnf_empty by (simp add: sample_cadical_def)
qed (auto simp: sample_cadical_def sat_cnf_def)

definition sample_answer :: "int \<Rightarrow> (monomial list \<times> int) list \<times> monomial list option \<Rightarrow> int" where
  "sample_answer n s =
     (if \<not> (\<forall>(ms, k) \<in> set (fst s). k \<le> lhs_value (all_true n) ms) then 0
      else (case snd s of
          None \<Rightarrow> 10
        | Some ms \<Rightarrow> if (\<forall>m \<in> set ms. fst m \<le> 0 \<and> lit_true (all_true n) (snd m))
              \<and> INT_MIN \<le> lhs_value (all_true n) ms then 30 else 0))"

definition sample_ipasirpb :: "int \<Rightarrow> ((monomial list \<times> int) list \<times> monomial list option, unit) ipasirpb" where
  "sample_ipasirpb n =
     \<lparr>ipb_init = ([], None), ipb_add64 = (\<lambda>ms k s. (fst s @ [(ms, k)], snd s)),
      ipb_set_obj64 = (\<lambda>ms k s. (fst s, Some ms)),
      ipb_solve = (\<lambda>t s w. Some (sample_answer n s, s, w)),
      ipb_litval = (\<lambda>l s. 0 < l), ipb_primal_bound = (\<lambda>s. case snd s of None \<Rightarrow> 0 | Some ms \<Rightarrow> lhs_value (all_true n) ms),
      ipb_dual_bound = (\<lambda>s. 0), ipb_assignedVars = (\<lambda>s. 0), ipb_is_true_lit = (\<lambda>l s. False),
      ipb_is_false_lit = (\<lambda>l s. False), ipb_backjump = (\<lambda>k s. s), ipb_assume_and_propagate = (\<lambda>l s. (False, s)),
      ipb_good_clauses = (\<lambda>s. []), ipb_number_non_satisfied = (\<lambda>s. 0)\<rparr>"

lemma all_true_least:
  "\<forall>m \<in> set ms. fst m \<le> 0 \<and> lit_true \<tau> (snd m) \<Longrightarrow> lhs_value \<tau> ms \<le> lhs_value \<sigma> ms \<and> lhs_value \<tau> ms \<le> 0"
  by (induction ms) auto

lemma sample_answer_sound:
  "sample_answer n s \<noteq> 20"
  "sample_answer n s \<noteq> 0 \<Longrightarrow> \<forall>(ms, k) \<in> set (fst s). k \<le> lhs_value (all_true n) ms"
  "sample_answer n s \<noteq> 0 \<Longrightarrow> snd s = Some ms \<Longrightarrow> \<forall>m \<in> set ms. fst m \<le> 0 \<and> lit_true (all_true n) (snd m)"
  "sample_answer n s \<noteq> 0 \<Longrightarrow> snd s = Some ms \<Longrightarrow> INT_MIN \<le> lhs_value (all_true n) ms"
  unfolding sample_answer_def by (cases "snd s"; simp split: if_splits)+

lemma sample_ipasirpb_answer:
  assumes "ipb_solve (sample_ipasirpb n) t s w = Some (ans, s', w')"
  shows "s' = s" "w' = w" "ans = sample_answer n s"
  using assms by (auto simp: sample_ipasirpb_def)

lemma sample_ipasirpb_ok:
  "ipasirpb_ok (sample_ipasirpb n) n (\<lambda>s \<sigma>. \<forall>(ms, k) \<in> set (fst s). k \<le> lhs_value \<sigma> ms) snd (\<lambda>_. None)"
  unfolding ipasirpb_ok_def
proof (intro conjI allI impI)
  fix t s w ans s' w'
  assume a: "ipb_solve (sample_ipasirpb n) t s w = Some (ans, s', w')"
  note A = sample_ipasirpb_answer [OF a]
  have nz: "ans = IPASIRPB_SAT \<or> ans = IPASIRPB_OPT \<Longrightarrow> sample_answer n s \<noteq> 0" using A(3) by (auto simp: ipb_codes)
  note S = sample_answer_sound [of n s] and S4 = sample_answer_sound(2) [OF nz] and S5 = sample_answer_sound(3,4) [OF nz]
  have lv: "(\<lambda>v. 0 < v \<and> v \<le> n \<and> ipb_litval (sample_ipasirpb n) v s') = all_true n"
    by (rule ext) (auto simp: all_true_def sample_ipasirpb_def)
  have pb: "snd s = Some ms \<Longrightarrow> ipb_primal_bound (sample_ipasirpb n) s' = lhs_value (all_true n) ms" for ms
    by (simp add: A(1) sample_ipasirpb_def)
  show "w_rank w' = w_rank w" by (simp add: A(2))
  show "\<And>\<sigma>. ans = IPASIRPB_UNSAT \<Longrightarrow> \<not> below (snd s) None \<sigma>" using A(3) S(1) by (simp add: ipb_codes)
  show "ans = IPASIRPB_SAT \<or> ans = IPASIRPB_OPT \<Longrightarrow>
      \<forall>(ms, k) \<in> set (fst s). k \<le> lhs_value (\<lambda>v. 0 < v \<and> v \<le> n \<and> ipb_litval (sample_ipasirpb n) v s') ms"
    unfolding lv by (rule S4)
  fix ms
  show "ans = IPASIRPB_SAT \<or> ans = IPASIRPB_OPT \<Longrightarrow> snd s = Some ms \<Longrightarrow> INT_MIN \<le> ipb_primal_bound (sample_ipasirpb n) s'"
    using S5 by (simp add: pb)
  show "ans = IPASIRPB_SAT \<or> ans = IPASIRPB_OPT \<Longrightarrow> snd s = Some ms \<Longrightarrow> ipb_primal_bound (sample_ipasirpb n) s' \<le> INT_MAX"
    using S5(1) [of ms] all_true_least [of ms "all_true n" "all_true n"] by (auto simp: pb)
  show "ans = IPASIRPB_SAT \<or> ans = IPASIRPB_OPT \<Longrightarrow> snd s = Some ms \<Longrightarrow> ipb_primal_bound (sample_ipasirpb n) s'
      = lhs_value (\<lambda>v. 0 < v \<and> v \<le> n \<and> ipb_litval (sample_ipasirpb n) v s') ms \<or> None = Some (ipb_primal_bound (sample_ipasirpb n) s')"
    unfolding lv using pb by blast
  fix \<sigma>
  assume "ans = IPASIRPB_OPT" and m: "snd s = Some ms \<and> (\<forall>(ms, k) \<in> set (fst s). k \<le> lhs_value \<sigma> ms) \<and> below (snd s) None \<sigma>"
  then show "ipb_primal_bound (sample_ipasirpb n) s' \<le> lhs_value \<sigma> ms"
    using S5(1) [of ms] all_true_least [of ms "all_true n" \<sigma>] by (simp add: pb)
qed (auto simp: sample_ipasirpb_def)

theorem cadical_backend_sound_witness:
  "\<exists>res s' w'. solve_cube (cadical_ops (sample_cadical 2) [[1, 2], [-2, 1]] 2) 2
      \<lparr>constraints = [], minimizing = True, objCoeffs = [], objVars = []\<rparr> [2] [] 0 False INT_MIN False
      (new_worker 2 \<lparr>theta = (), cube_sat_found = False\<rparr>) = Some (res, s', w')
    \<and> res_status res = SOME_SOLUTION_FOUND \<and> (\<exists>\<sigma>. sat_cnf \<sigma> [[1, 2], [-2, 1]] \<and> in_cube \<sigma> [2])"
proof -
  let ?B = "cadical_ops (sample_cadical 2) [[1, 2], [-2, 1]] 2"
  let ?p = "\<lparr>constraints = [], minimizing = True, objCoeffs = [], objVars = []\<rparr>"
  let ?w = "new_worker 2 \<lparr>theta = (), cube_sat_found = False\<rparr>"
  let ?s = "\<lparr>cad_solver = [[1, 2], [-2, 1], [2]], cad_nVars = 2, root_conflict = False\<rparr>"
  have p: "prepare_solver ?B ?p [2] [] 0 False INT_MIN False = Some (?p, ?s)" by code_simp
  have r: "op_solve ?B False 0 ?s ?w = Some (result_of SOME_SOLUTION_FOUND True 0, ?s, ?w)" by code_simp
  show ?thesis
    using cadical_backend_sound [OF sample_cadical_ok p, of 0 ?w] r
    by (auto simp: solve_cube_def p new_worker_def)
qed

definition sample_problem :: pbproblem where
  "sample_problem = \<lparr>constraints = [\<lparr>lhs = [(2, 1), (1, 2)], rhs = 2\<rparr>], minimizing = True, objCoeffs = [-3, -1], objVars = [1, 2]\<rparr>"


definition sample_worker :: "nat \<Rightarrow> unit worker" where
  "sample_worker p = new_worker p \<lparr>theta = (), cube_sat_found = False\<rparr>"

text \<open>The master when worker 2 reports on the cube \<open>x2\<close> of the sample problem.\<close>

definition reporting_master :: "nat \<Rightarrow> queue \<Rightarrow> master" where
  "reporting_master p q = (new_master 3 1 True)
     \<lparr>inbox := (\<lambda>k. if k = p then q else []), cubes := [initial_task [2]], cube_queue := [],
      cube_of_worker := [-1, -2, 0], active_workers := 1\<rparr>"

definition sample_result :: cube_solve_result where
  "sample_result = (result_of OPTIMUM_FOUND True (-4))\<lparr>solution := [0, 1, 1]\<rparr>"

lemma sample_solve:
  "solve_cube (roundingsat_ops (sample_ipasirpb 2)) 2 sample_problem [2] [] 0 False INT_MIN True (sample_worker p)
     = Some (sample_result, sample_problem, sample_worker p)"
  "solve_cube (roundingsat_ops (sample_ipasirpb 2)) 2 sample_problem [] [] 0 False INT_MIN True (sample_worker p)
     = Some (sample_result, sample_problem, sample_worker p)"
  by code_simp+

definition no_hint :: "unit worker \<Rightarrow> int option" where "no_hint w = None"

lemma sample_backend_sound:
  "backend_sound (roundingsat_ops (sample_ipasirpb 2)) sample_problem (\<lambda>\<sigma>. sat_problem \<sigma> sample_problem) 2 True
     (\<lambda>s \<sigma>. \<forall>(ms, k) \<in> set (fst s). k \<le> lhs_value \<sigma> ms) no_hint"
proof -
  have "no_hint = (\<lambda>_. None)" by (rule ext) (simp add: no_hint_def)
  moreover have "problem_within 2 sample_problem" "minimizing sample_problem" "True \<longrightarrow> objCoeffs sample_problem \<noteq> []" "objective_in_range sample_problem"
    by (simp_all add: sample_problem_def problem_within_def constraint_within_def lits_within_def pos_coeffs_def objective_in_range_def)
  ultimately show ?thesis using RS_contract [OF sample_ipasirpb_ok] unfolding backend_sound_def by simp
qed

theorem cube_report_honest_witness:
  "honest (instance_of (\<lambda>\<sigma>. sat_problem \<sigma> sample_problem) sample_problem True 3) 2
     (reporting_master 2 (fst (cube_report True 2 sample_result)))"
proof -
  let ?w = "sample_worker 2" and ?m = "reporting_master 2 (fst (cube_report True 2 sample_result))"
  have w: "w_rank ?w = 2" by (simp add: sample_worker_def new_worker_def)
  have c: "cube_of_worker ?m = [-1, -2, 0]" "cubes ?m = [initial_task [2]]" by (simp_all add: reporting_master_def)
  have low: "INT_MIN \<le> objective_value \<sigma> sample_problem" for \<sigma>
    by (simp add: objective_value_def linear_value_def sample_problem_def)
  show ?thesis
  proof (rule iffD2 [OF mp [OF conjunct1 [OF cube_report_honest
        [OF sample_backend_sound sample_solve(1) [of 2], where procs = 3 and m = ?m and r = "[]"]]], unfolded w])
    show "inbox ?m 2 = fst (cube_report True 2 sample_result) @ []" by (simp add: reporting_master_def)
    show "\<not> (True \<and> res_status sample_result = SOME_SOLUTION_FOUND)" by (simp add: sample_result_def)
  qed (simp_all add: c low lits_within_def fair_job_def no_hint_def original_worker_def busy_def in_int_def
        reporting_master_def initial_task_def)
qed

theorem original_report_honest_witness:
  "honest (instance_of (\<lambda>\<sigma>. sat_problem \<sigma> sample_problem) sample_problem True 3) original_worker
     (reporting_master 1 (original_report True 1 sample_result))"
proof -
  let ?w = "sample_worker 1" and ?m = "reporting_master 1 (original_report True 1 sample_result)"
  have w: "w_rank ?w = original_worker" by (simp add: sample_worker_def new_worker_def original_worker_def)
  have low: "INT_MIN \<le> objective_value \<sigma> sample_problem" for \<sigma>
    by (simp add: objective_value_def linear_value_def sample_problem_def)
  show ?thesis
    using original_report_honest [OF sample_backend_sound sample_solve(2) [of 1], where procs = 3 and m = ?m and r = "[]"] w
    by (simp add: low fair_job_def no_hint_def original_worker_def reporting_master_def in_int_def)
qed






section \<open>Where the conversions and the waiting go wrong\<close>

text \<open>
  \<open>RoundingSatBackend::goodClauses\<close> narrows 64-bit coefficients: a learned constraint with
  coefficients \<open>2^31\<close> becomes one that excludes solutions of the original.
\<close>

lemma narrowed_good_clause:
  fixes s :: 'r and R :: "('r, 'd) ipasirpb"
  assumes "ipb_good_clauses R s = [([(2 ^ 31, 1), (2 ^ 31, 2)], 2 ^ 31)]"
  shows "RS_goodClauses R s = [\<lparr>lhs = [(- (2 ^ 31), 1), (- (2 ^ 31), 2)], rhs = - (2 ^ 31)\<rparr>]"
    and "lhs_value (\<lambda>v. True) [(2 ^ 31, 1), (2 ^ 31, 2)] \<ge> 2 ^ 31"
    and "\<not> sat (\<lambda>v. True) (hd (RS_goodClauses R s))"
  using assms by (simp_all add: RS_goodClauses_def WConstraint_vec_def to_int_def wrap_def sat_def)

text \<open>
  A worker that asks for the incumbent, from a callback of RoundingSat or before a split, waits for
  the reply also when the master has stopped: with only the stop message there it never returns.
\<close>

lemma external_UB_waits_after_stop:
  "w_inbox w = [] \<Longrightarrow> report_external_UB [(TAG_STOP, [1, 0])] w = None"
  by (simp add: report_external_UB_def Let_def w_arrive_def w_recv_def tag_defs)

lemma split_waits_after_stop:
  "w_inbox w = [] \<Longrightarrow> hasSolution res \<Longrightarrow> announce_before_split [(TAG_STOP, [1, 0])] True res w = None"
  by (simp add: announce_before_split_def Let_def w_arrive_def w_recv_def tag_defs)

end
