(* ===== verification/NativeSolve.thy ===== *)
theory NativeSolve
  imports CleanupSound CubeAPI Backends
begin

text \<open>
  The search of the native solver (\<open>solve\<close>, \<open>addObjectiveFunction\<close> and
  \<open>updateStatusConflictAtDLZero\<close> of \<open>src/src/Solver.cpp\<close>), the callbacks a process gives it
  (\<open>import_external_constraints\<close> of \<open>cubePB.cpp\<close>) and the backend around it
  (\<open>src/src/NativeBackend.cpp\<close>). The clock, \<open>rand()\<close>, the shuffle of the cleanup and the floating-point
  operations are parameters; what is only printed is left out.
\<close>

section \<open>The objective\<close>

definition objective_terms :: "bool \<Rightarrow> int list \<Rightarrow> var list \<Rightarrow> monomial list" where
  "objective_terms minimize coeffs vars = map (\<lambda>(a, v). if minimize then (- a, v) else (a, v)) (filter (\<lambda>(a, v). a \<noteq> 0) (zip coeffs vars))"

text \<open>\<open>None\<close> is \<open>exit\<close>, on a constant that does not fit into an \<open>int\<close>.\<close>

definition flip_negative :: "monomial \<Rightarrow> monomial" where
  "flip_negative p = (if fst p < 0 then (- fst p, - snd p) else p)"

definition addObjectiveFunction :: "bool \<Rightarrow> int list \<Rightarrow> var list \<Rightarrow> ('a::linorder) search \<Rightarrow> 'a search option" where
  "addObjectiveFunction minimize coeffs vars s =
     (if coeffs = [] then Some s
      else let m = solver_model (sv s);
               terms = objective s @ objective_terms minimize coeffs vars;
               added = addedConstantToObjective s + sum_list (map fst (filter (\<lambda>p. fst p < 0) terms));
               wc = sortByDecreasingCoefficient (removeDuplicates (sortByIncreasingVariable \<lparr>lhs = map flip_negative terms, rhs = - added\<rparr>));
               units = sum_list (map fst (filter (\<lambda>p. isTrueLit m (snd p)) (lhs wc)))
           in if \<bar>added\<bar> \<ge> INT_MAX \<or> \<bar>- rhs wc + units\<bar> > INT_MAX then None
              else Some (computeBestPolarityForVarInObjectiveFunction
                     (s\<lparr>feasibility := False, srch_minimizing := minimize, objective := filter (\<lambda>p. isUndefLit m (snd p)) (lhs wc),
                        addedConstantToObjective := - rhs wc + units\<rparr>)))"

section \<open>Counters\<close>

definition reportSolutionFound :: "int \<Rightarrow> ('a::linorder) search \<Rightarrow> 'a search" where
  "reportSolutionFound value s =
     s\<lparr>numOfSolutionsFound := numOfSolutionsFound s + 1, costOfBestSolution := value, numOfConflictsSinceLastSolution := 0\<rparr>"

definition reportRestart :: "('a::linorder) search \<Rightarrow> 'a search" where
  "reportRestart s = s\<lparr>numOfRestarts := numOfRestarts s + 1\<rparr>"

definition reportCleanup :: "('a::linorder) search \<Rightarrow> 'a search" where
  "reportCleanup s = s\<lparr>numOfCleanUps := numOfCleanUps s + 1\<rparr>"

definition reportConflict :: "('a::linorder) search \<Rightarrow> 'a search" where
  "reportConflict s = s\<lparr>numOfConflicts := numOfConflicts s + 1, numOfConflictsSinceLastSolution := numOfConflictsSinceLastSolution s + 1\<rparr>"

definition reportDecision :: "('a::linorder) search \<Rightarrow> 'a search" where
  "reportDecision s = s\<lparr>numOfDecisions := numOfDecisions s + 1\<rparr>"

definition updateStatusConflictAtDLZero :: "('a::linorder) search \<Rightarrow> 'a search" where
  "updateStatusConflictAtDLZero s = s\<lparr>srch_status := (if numOfSolutionsFound s = 0 then INFEASIBLE else OPTIMUM_FOUND)\<rparr>"

section \<open>The steps of the search\<close>

text \<open>
  How a part of the loop body ends: it goes on, \<open>solve\<close> returns, the code calls \<open>exit\<close>, or it does what
  it must never do (a division by zero, a round of conflict analysis on a constraint that is not false).
  A part that does not end is \<open>None\<close>.
\<close>

datatype 'r control = Continue 'r | Finish 'r | Exit | Fault

fun and_then :: "'r control option \<Rightarrow> ('r \<Rightarrow> 'r control option) \<Rightarrow> 'r control option" where
  "and_then (Some (Continue r)) f = f r"
| "and_then x f = x"

text \<open>The functions the process gives to the solver; the clock counts full seconds of process time.\<close>

record ('a, 'e) callbacks =
  process_time :: "'e \<Rightarrow> int \<times> 'e"
  periodic_function :: "int \<Rightarrow> 'e \<Rightarrow> (bool \<times> 'e) option"
  cb_import :: "'a search \<Rightarrow> 'e \<Rightarrow> ('a search \<times> 'e) option"

definition propagate_search :: "('a::linorder) search \<Rightarrow> 'a search option" where
  "propagate_search s = map_option (\<lambda>v. s\<lparr>sv := v\<rparr>) (propagate (sv s))"

definition backjump_search :: "int \<Rightarrow> ('a::linorder) search \<Rightarrow> 'a search" where
  "backjump_search dl s = s\<lparr>sv := backjumpToDL dl (sv s)\<rparr>"

definition propagate_quiet :: "('a::linorder) search \<Rightarrow> 'a search option" where
  "propagate_quiet s = (if conflict (sv s) then Some s else propagate_search s)"

partial_function (option) resolve_conflicts :: "'a float_ops \<Rightarrow> ('a::linorder) search \<Rightarrow> 'a search control option" where
  "resolve_conflicts F s =
     (if \<not> conflict (sv s) then Some (Continue s)
      else let s = reportConflict (s\<lparr>nconfl_to_restart := nconfl_to_restart s - 1\<rparr>) in
           if currentDecisionLevel (solver_model (sv s)) = 0 then Some (Finish (updateStatusConflictAtDLZero s))
           else case conflictAnalysis F s of
                  Return s \<Rightarrow> (case propagate_quiet s of None \<Rightarrow> None | Some s \<Rightarrow> resolve_conflicts F s)
                | ExitNoReason \<Rightarrow> Some Exit
                | _ \<Rightarrow> Some Fault)"

definition restart_step :: "'a float_ops \<Rightarrow> ('a::linorder) search \<Rightarrow> 'a search" where
  "restart_step F s =
     (if nconfl_to_restart s \<le> 0
      then let s = reportRestart (backjump_search 0 s)
           in s\<lparr>nconfl_to_restart := luby 2 (numOfRestarts s) * 100, sv := (sv s)\<lparr>solver_heap := reset (f_of_int F 0) (solver_heap (sv s))\<rparr>\<rparr>
      else s)"

partial_function (option) raise_reduce :: "('a::linorder) search \<Rightarrow> 'a search option" where
  "raise_reduce s =
     (if numOfConflicts s \<ge> numOfCleanUps s * nconfl_to_reduce s
      then raise_reduce (s\<lparr>nconfl_to_reduce := nconfl_to_reduce s + 100\<rparr>) else Some s)"

definition cleanup_step :: "(int \<Rightarrow> lbd_act list \<Rightarrow> lbd_act list) \<Rightarrow> ('a::linorder) search \<Rightarrow> 'a search control option" where
  "cleanup_step shuffle s =
     (if numOfConflicts s \<ge> (numOfCleanUps s + 1) * nconfl_to_reduce s
      then case doCleanup shuffle (reportCleanup (backjump_search 0 s)) of
             None \<Rightarrow> Some Fault
           | Some s \<Rightarrow> map_option Continue (raise_reduce s)
      else Some (Continue s))"

definition timeout :: "('a, 'e) callbacks \<Rightarrow> int \<Rightarrow> 'e \<Rightarrow> bool \<times> 'e" where
  "timeout C timeLimit e =
     (if timeLimit = 0 then (False, e) else let (t, e) = process_time C e in (t \<ge> timeLimit, e))"

text \<open>The time limit, then the periodic function; \<open>Finish\<close> leaves the search without a new status.\<close>

definition interrupt_step :: "('a, 'e) callbacks \<Rightarrow> int \<Rightarrow> ('a::linorder) search \<times> 'e \<Rightarrow> ('a search \<times> 'e) control option" where
  "interrupt_step C timeLimit = (\<lambda>(s, e).
     let (late, e) = timeout C timeLimit e in
     if late then Some (Finish (s, e))
     else case periodic_function C (if numOfSolutionsFound s \<ge> 1 then costOfBestSolution s else INT_MAX) e of
            None \<Rightarrow> None
          | Some (halt, e) \<Rightarrow> Some (if halt then Finish (s, e) else Continue (s, e)))"

definition import_step :: "('a, 'e) callbacks \<Rightarrow> ('a::linorder) search \<times> 'e \<Rightarrow> ('a search \<times> 'e) control option" where
  "import_step C = (\<lambda>(s, e).
     if currentDecisionLevel (solver_model (sv s)) = 0
     then case cb_import C s e of
            None \<Rightarrow> None
          | Some (s, e) \<Rightarrow> (case propagate_search s of
              None \<Rightarrow> None
            | Some s \<Rightarrow> Some (if conflict (sv s) then Finish (updateStatusConflictAtDLZero s, e) else Continue (s, e)))
     else Some (Continue (s, e)))"

section \<open>A new solution\<close>

definition solution_value :: "('a::linorder) search \<Rightarrow> int" where
  "solution_value s = addedConstantToObjective s + sum_list (map (\<lambda>p. fst p * getValueLit (solver_model (sv s)) (snd p)) (objective s))"

definition store_solution :: "('a::linorder) search \<Rightarrow> 'a search" where
  "store_solution s =
     (let s = reportSolutionFound (if srch_minimizing s then - solution_value s else solution_value s) s
      in s\<lparr>srch_status := SOME_SOLUTION_FOUND,
           lastSolution := (\<lambda>i. if 1 \<le> i \<and> i \<le> numVars (sv s) then getValue (solver_model (sv s)) i \<noteq> 0 else lastSolution s i)\<rparr>)"

text \<open>Later solutions change the right-hand side of the stored bound, and its counter with it.\<close>

definition raise_bound :: "nat \<Rightarrow> int \<Rightarrow> ('a::linorder) solver \<Rightarrow> 'a solver" where
  "raise_bound i r v =
     v\<lparr>sumOfWatches := (sumOfWatches v)[i := sumOfWatches v ! i + (pb_rhs (constraintsPB v ! i) - r)],
       constraintsPB := (constraintsPB v)[i := (constraintsPB v ! i)\<lparr>pb_rhs := r\<rparr>]\<rparr>"

definition improve_step :: "('a::linorder) search \<Rightarrow> int \<Rightarrow> 'a search control" where
  "improve_step s r =
     (let ctr = \<lparr>lhs = objective s, rhs = r\<rparr> in
      if constraintIsContradiction (solver_model (sv s)) ctr
      then Finish (updateStatusConflictAtDLZero (s\<lparr>sv := (backjumpToDL 0 (sv s))\<lparr>conflict := True\<rparr>\<rparr>))
      else let v = (if BT0 s then backjumpToDL 0 (sv s) else sv s);
               v = (if numOfSolutionsFound s > 1 then raise_bound (nat (obj_num s)) r v else v);
               dl = lowestDLAtWhichConstraintPropagatesOrConflicting (solver_model v) ctr;
               v = (if currentDecisionLevel (solver_model v) \<noteq> 0 \<and> dl \<noteq> -1 then backjumpToDL dl v else v)
           in if numOfSolutionsFound s = 1
              then (case addAndPropagatePBConstraint ctr True 0 0 True v of
                      None \<Rightarrow> Fault
                    | Some v' \<Rightarrow> Continue (s\<lparr>sv := v', objectiveFunctions := objectiveFunctions s @ [length (constraintsPB v)],
                                            obj_num := int (length (constraintsPB v))\<rparr>))
              else Continue (s\<lparr>sv := checkObjectiveIsConflictingOrPropagating (nat (obj_num s)) v\<rparr>))"

definition solution_step :: "bool \<Rightarrow> ('a::linorder) search \<Rightarrow> 'a search control" where
  "solution_step feasibilityProblem s =
     (if feasibilityProblem then Finish (s\<lparr>srch_status := OPTIMUM_FOUND\<rparr>)
      else let r = (solution_value s - addedConstantToObjective s) + 1 in
           if r < 0 \<or> \<bar>r\<bar> > INT_MAX then Exit else improve_step (store_solution s) r)"

section \<open>The loop\<close>

fun lift_control :: "'e \<Rightarrow> 's control \<Rightarrow> ('s \<times> 'e) control" where
  "lift_control e (Continue s) = Continue (s, e)"
| "lift_control e (Finish s) = Finish (s, e)"
| "lift_control e Exit = Exit"
| "lift_control e Fault = Fault"

definition decide_step :: "(nat \<Rightarrow> int) \<Rightarrow> bool \<Rightarrow> ('a::linorder) search \<Rightarrow> 'a search control" where
  "decide_step rnd feasibilityProblem s =
     (let (decVar, s) = getNextDecisionVar rnd s in
      if decVar = 0 then solution_step feasibilityProblem s
      else Continue (takeDecisionForVar rnd decVar (reportDecision s)))"

definition conflict_step :: "'a float_ops \<Rightarrow> ('a::linorder) search \<Rightarrow> 'a search control option" where
  "conflict_step F s = (case propagate_quiet s of None \<Rightarrow> None | Some s \<Rightarrow> resolve_conflicts F s)"

definition solve_iteration :: "'a float_ops \<Rightarrow> ('a, 'e) callbacks \<Rightarrow> (nat \<Rightarrow> int) \<Rightarrow> (int \<Rightarrow> lbd_act list \<Rightarrow> lbd_act list) \<Rightarrow> bool \<Rightarrow> int
    \<Rightarrow> ('a::linorder) search \<times> 'e \<Rightarrow> ('a search \<times> 'e) control option" where
  "solve_iteration F C rnd shuffle feasibilityProblem timeLimit = (\<lambda>(s, e).
     and_then (map_option (lift_control e) (and_then (conflict_step F s) (\<lambda>s. cleanup_step shuffle (restart_step F s)))) (\<lambda>r.
     and_then (interrupt_step C timeLimit r) (\<lambda>r.
     and_then (import_step C r) (\<lambda>(s, e). Some (lift_control e (decide_step rnd feasibilityProblem s))))))"

partial_function (option) solve_loop :: "'a float_ops \<Rightarrow> ('a, 'e) callbacks \<Rightarrow> (nat \<Rightarrow> int) \<Rightarrow> (int \<Rightarrow> lbd_act list \<Rightarrow> lbd_act list) \<Rightarrow> bool \<Rightarrow> int
    \<Rightarrow> ('a::linorder) search \<times> 'e \<Rightarrow> ('a search \<times> 'e) control option" where
  "solve_loop F C rnd shuffle feasibilityProblem timeLimit r =
     (case solve_iteration F C rnd shuffle feasibilityProblem timeLimit r of
        None \<Rightarrow> None
      | Some x \<Rightarrow> (case x of Continue r \<Rightarrow> solve_loop F C rnd shuffle feasibilityProblem timeLimit r | _ \<Rightarrow> Some x))"

definition solve :: "'a float_ops \<Rightarrow> ('a, 'e) callbacks \<Rightarrow> (nat \<Rightarrow> int) \<Rightarrow> (int \<Rightarrow> lbd_act list \<Rightarrow> lbd_act list) \<Rightarrow> int
    \<Rightarrow> ('a::linorder) search \<Rightarrow> 'e \<Rightarrow> ('a search \<times> 'e) control option" where
  "solve F C rnd shuffle timeLimit s e =
     (if conflict (sv s) then Some (Finish (updateStatusConflictAtDLZero s, e))
      else case propagate_search s of
        None \<Rightarrow> None
      | Some s1 \<Rightarrow>
          if conflict (sv s1) then Some (Finish (updateStatusConflictAtDLZero s1, e))
          else (case doCleanup shuffle s1 of
                  None \<Rightarrow> Some Fault
                | Some s2 \<Rightarrow> solve_loop F C rnd shuffle (feasibility s) timeLimit (s2, e)))"

section \<open>The callbacks of a process\<close>

text \<open>
  At level zero the solver asks the master for the best known cost. \<open>arrivals\<close> is what has come in when
  \<open>MPI_Probe\<close> returns; it looks at the message that came first.
\<close>

definition import_external_constraints :: "pbproblem \<Rightarrow> ('d worker \<Rightarrow> queue) \<Rightarrow> ('a::linorder) search \<Rightarrow> 'd worker \<Rightarrow> ('a search \<times> 'd worker) option" where
  "import_external_constraints problem arrivals s w =
     (let w = w_arrive (arrivals w) (w_send [(TAG_BEST_REQUEST, [0])] w) in
      if w_inbox w = [] then None
      else if fst (hd (w_inbox w)) = TAG_STOP
      then do { (stopmsg, w) \<leftarrow> w_recv (mpi_recv TAG_STOP 2) w; Some (s, w\<lparr>global_stop_flag := True\<rparr>) }
      else do {
        (reply, w) \<leftarrow> w_recv (mpi_recv TAG_BEST_REPLY 1) w;
        let best_from_master = reply ! 0;
        (v, w) \<leftarrow> (if best_from_master \<noteq> INT_MAX \<and> best_from_master < last_imported_best w
                   then map_option (\<lambda>v. (v, w\<lparr>last_imported_best := best_from_master\<rparr>)) (add_objective_bound_constraint problem best_from_master (sv s))
                   else Some (sv s, w));
        let learnt = learnedShortConstraints s;
        Some (s\<lparr>sv := v\<rparr>,
          if w_rank w = original_worker \<and> length learnt > sent_learned_count w
          then w_send (send_constraints TAG_LEARNED_UPDATE (drop (sent_learned_count w) learnt)) (w\<lparr>sent_learned_count := length learnt\<rparr>)
          else w) })"

section \<open>The backend\<close>

definition NativeBackend_new :: "'a float_ops \<Rightarrow> int \<Rightarrow> ('a::linorder) search" where
  "NativeBackend_new F nVars = (new_search F nVars)\<lparr>BT0 := True\<rparr>"

definition on_solver :: "(('a::linorder) solver \<Rightarrow> 'a solver option) \<Rightarrow> 'a search \<Rightarrow> 'a search option" where
  "on_solver f s = map_option (\<lambda>v. s\<lparr>sv := v\<rparr>) (f (sv s))"

text \<open>The loop of \<open>addBaseProblem\<close> is that of \<open>addLearnedConstraints\<close>.\<close>

definition Native_addBaseProblem :: "pbproblem \<Rightarrow> ('a::linorder) search \<Rightarrow> 'a search option" where
  "Native_addBaseProblem problem s =
     (case on_solver (Native_addLearnedConstraints (constraints problem)) s of
        None \<Rightarrow> None
      | Some s \<Rightarrow> addObjectiveFunction (minimizing problem) (objCoeffs problem) (objVars problem) s)"

definition Native_addObjective :: "pbproblem \<Rightarrow> ('a::linorder) search \<Rightarrow> 'a search" where
  "Native_addObjective problem s = s"

definition Native_addObjectiveLowerBound :: "pbproblem \<Rightarrow> int \<Rightarrow> ('a::linorder) search \<Rightarrow> 'a search" where
  "Native_addObjectiveLowerBound problem lb s = s"

definition Native_assumeAndPropagate :: "lit \<Rightarrow> ('a::linorder) search \<Rightarrow> (bool \<times> 'a search) option" where
  "Native_assumeAndPropagate l s = map_option (\<lambda>(ok, v). (ok, s\<lparr>sv := v\<rparr>)) (assumeAndPropagate l (sv s))"

definition Native_solve :: "'a float_ops \<Rightarrow> ('a, 'd worker) callbacks \<Rightarrow> (nat \<Rightarrow> int) \<Rightarrow> (int \<Rightarrow> lbd_act list \<Rightarrow> lbd_act list) \<Rightarrow> bool \<Rightarrow> int
    \<Rightarrow> ('a::linorder) search \<Rightarrow> 'd worker \<Rightarrow> (cube_solve_result \<times> 'a search \<times> 'd worker) option" where
  "Native_solve F C rnd shuffle optimizing timeLimitSeconds s w =
     (case solve F C rnd shuffle timeLimitSeconds s w of
        Some (Finish (s, w)) \<Rightarrow>
          (let has = (srch_status s = SOME_SOLUTION_FOUND \<or> srch_status s = OPTIMUM_FOUND)
           in Some (result_of (srch_status s) has (if has then costOfBestSolution s else 0), s, w))
      | _ \<Rightarrow> None)"

definition Native_getSolution :: "int \<Rightarrow> ('a::linorder) search \<Rightarrow> int list" where
  "Native_getSolution nVars s = 0 # map (\<lambda>v. if v \<le> numVars (sv s) \<and> lastSolution s v then 1 else 0) (all_vars nVars)"

definition native_callbacks :: "(int \<Rightarrow> bool) \<Rightarrow> ('d worker \<Rightarrow> int \<times> 'd worker) \<Rightarrow> pbproblem \<Rightarrow> ('d worker \<Rightarrow> queue) \<Rightarrow> ('a::linorder, 'd worker) callbacks" where
  "native_callbacks overdue clock problem arrivals =
     \<lparr>process_time = clock, periodic_function = terminate_cb overdue, cb_import = import_external_constraints problem arrivals\<rparr>"

definition native_backend_ops :: "'a float_ops \<Rightarrow> ('a, 'd worker) callbacks \<Rightarrow> (nat \<Rightarrow> int) \<Rightarrow> (int \<Rightarrow> lbd_act list \<Rightarrow> lbd_act list) \<Rightarrow> int
    \<Rightarrow> ('a::linorder search, 'd) solver_backend" where
  "native_backend_ops F C rnd shuffle nVars =
     \<lparr>op_assignedVars = (\<lambda>s. assignedVars (sv s)), op_isUndefLit = (\<lambda>l s. Solver_isUndefLit l (sv s)),
      op_assumeAndPropagate = Native_assumeAndPropagate, op_backtrack = (\<lambda>k s. s\<lparr>sv := backtrack k (sv s)\<rparr>),
      op_create = NativeBackend_new F nVars, op_addBaseProblem = (\<lambda>p s. map_option (Pair p) (Native_addBaseProblem p s)),
      op_addLearnedConstraints = (\<lambda>cs. on_solver (Native_addLearnedConstraints cs)),
      op_addCube = (\<lambda>cube. on_solver (Native_addCube cube)), op_addObjective = (\<lambda>p s. Some (Native_addObjective p s)),
      op_addObjectiveBound = (\<lambda>p b. on_solver (add_objective_bound_constraint p b)),
      op_addObjectiveLowerBound = (\<lambda>p b s. Some (Native_addObjectiveLowerBound p b s)),
      op_goodClauses = learnedShortConstraints, op_getSolution = Native_getSolution, op_solve = Native_solve F C rnd shuffle\<rparr>"

end
