(* ===== verification/NativeReport.thy ===== *)
theory NativeReport
  imports NativeSolve
begin

text \<open>
  What the search of the native solver (\<open>solve\<close> and \<open>addObjectiveFunction\<close> of \<open>src/src/Solver.cpp\<close>,
  \<open>src/src/NativeBackend.cpp\<close>) reports: the objective it works with is the one of the problem, a new
  solution is recorded with its cost and followed by the right bound, and the solution of a decision
  problem is lost.
\<close>

section \<open>The objective is the one of the problem\<close>

definition objective_cost :: "assignment \<Rightarrow> ('a::linorder) search \<Rightarrow> int" where
  "objective_cost \<sigma> s =
     (let value = addedConstantToObjective s + lhs_value \<sigma> (objective s) in if srch_minimizing s then - value else value)"

lemma flip_negative_value:
  assumes "\<forall>p \<in> set ms. snd p \<noteq> 0 \<and> fst p \<noteq> 0"
  shows "sum_list (map fst (filter (\<lambda>p. fst p < 0) ms)) + lhs_value \<sigma> (map flip_negative ms) = lhs_value \<sigma> ms"
    "pos_coeffs (map flip_negative ms)" "nonzero_lits (map flip_negative ms)"
  using assms by (induction ms) (auto simp: flip_negative_def pos_coeffs_def nonzero_lits_def lit_true_neg)

lemma terms_value:
  assumes "\<forall>v \<in> set vars. 0 < v"
  shows "lhs_value \<sigma> (objective_terms minimize coeffs vars)
    = (if minimize then - linear_value \<sigma> coeffs vars else linear_value \<sigma> coeffs vars)"
  using assms
proof (induction coeffs vars rule: list_induct2')
  case (4 a coeffs v vars)
  then have "lit_true \<sigma> v = \<sigma> v" by (simp add: lit_true_def)
  then show ?case using 4 by (auto simp: linear_value_def objective_terms_def)
qed (simp_all add: linear_value_def objective_terms_def)

lemma msum_filter_sum: "sum_list (map fst (filter (\<lambda>p. P (snd p)) ms)) = msum P ms"
  by (induction ms) auto

lemma abs_sum_nonneg: "0 \<le> sum_list (map abs (xs :: int list))"
  by (induction xs) auto

lemma linear_value_bound: "\<bar>linear_value \<sigma> coeffs vars\<bar> \<le> sum_list (map abs coeffs)"
proof (induction coeffs vars rule: list_induct2')
  case (4 a coeffs v vars)
  then show ?case by (simp add: linear_value_def) linarith
qed (simp_all add: linear_value_def add_nonneg_nonneg abs_sum_nonneg)

lemma negative_bound: "\<bar>sum_list (map fst (filter (\<lambda>p. fst p < 0) (objective_terms minimize coeffs vars)))\<bar> \<le> sum_list (map abs coeffs)"
proof (induction coeffs vars rule: list_induct2')
  case (4 a coeffs v vars)
  let ?S = "\<lambda>c v. sum_list (map fst (filter (\<lambda>p. fst p < 0) (objective_terms minimize c v)))"
  have "?S (a # coeffs) (v # vars) = (let b = if minimize then - a else a in if b < 0 then b else 0) + ?S coeffs vars"
    by (cases "a = 0"; cases minimize) (simp_all add: objective_terms_def)
  then have "\<bar>?S (a # coeffs) (v # vars)\<bar> \<le> \<bar>a\<bar> + \<bar>?S coeffs vars\<bar>" by (simp add: Let_def split: if_splits)
  then show ?case using 4 by (simp add: Let_def)
qed (simp_all add: objective_terms_def add_nonneg_nonneg abs_sum_nonneg)

text \<open>There is an assignment that agrees with the trail and makes no literal of the objective true.\<close>

lemma zero_assignment:
  assumes w: "wf_model m" and u: "\<forall>p \<in> set ms. isUndefLit m (snd p)" and d: "distinct (mvars ms)" and nz: "nonzero_lits ms"
  obtains \<sigma> where "agrees \<sigma> m" "lhs_value \<sigma> ms = 0"
proof -
  define \<sigma> where "\<sigma> v \<longleftrightarrow> v \<in> set (tlits m) \<or> - v \<in> snd ` set ms" for v :: int
  have "lit_true \<sigma> l" if "l \<in> set (tlits m)" for l
  proof -
    have "l \<noteq> 0" "- l \<notin> set (tlits m)" "l \<notin> snd ` set ms" using that w u wf_model_zero wf_model_consistent by (auto simp: wf_undef)
    then show ?thesis using that by (auto simp: lit_true_def \<sigma>_def)
  qed
  moreover have "\<not> lit_true \<sigma> (snd p)" if p: "p \<in> set ms" for p
  proof -
    have t: "snd p \<notin> set (tlits m)" "- snd p \<notin> set (tlits m)" "snd p \<noteq> 0" using p u w nz by (auto simp: wf_undef nonzero_lits_def)
    have "inj_on (\<lambda>p. \<bar>snd p\<bar>) (set ms)" using d by (simp add: mvars_def distinct_map)
    then have "q = p" if "q \<in> set ms" "snd q = - snd p" for q using p that by (intro inj_onD [of "\<lambda>p. \<bar>snd p\<bar>" "set ms"]) auto
    then have "- snd p \<notin> snd ` set ms" using t(3) by force
    then show ?thesis using t p by (auto simp: lit_true_def \<sigma>_def)
  qed
  then have "msum (lit_true \<sigma>) ms = 0" by (induction ms) auto
  ultimately show ?thesis using that by (auto simp: agrees_def)
qed

lemma addObjectiveFunction_declares:
  assumes "coeffs \<noteq> []" "\<forall>v \<in> set vars. 0 < v" "sum_list (map abs coeffs) < INT_MAX"
    and "wf_model (solver_model (sv s))" "objective s = []" "addedConstantToObjective s = 0"
  shows "\<exists>s'. addObjectiveFunction minimize coeffs vars s = Some s' \<and> sv s' = sv s \<and> \<not> feasibility s'
    \<and> (\<forall>\<sigma>. agrees \<sigma> (solver_model (sv s)) \<longrightarrow> objective_cost \<sigma> s' = linear_value \<sigma> coeffs vars)"
proof -
  let ?m = "solver_model (sv s)"
  define ts where "ts = objective_terms minimize coeffs vars"
  define added where "added = sum_list (map fst (filter (\<lambda>p. fst p < 0) ts))"
  define w0 where "w0 = \<lparr>lhs = map flip_negative ts, rhs = - added\<rparr>"
  define w where "w = normalize w0"
  define units where "units = sum_list (map fst (filter (\<lambda>p. isTrueLit ?m (snd p)) (lhs w)))"
  define fr where "fr = filter (\<lambda>p. isUndefLit ?m (snd p)) (lhs w)"
  have ts: "\<forall>p \<in> set ts. snd p \<noteq> 0 \<and> fst p \<noteq> 0" using assms(2) by (auto simp: ts_def objective_terms_def dest!: set_zip_rightD split: if_splits)
  note fl = flip_negative_value [OF ts]
  have w0: "pos_coeffs (lhs w0)" "nonzero_lits (lhs w0)" using fl(2,3) by (simp_all add: w0_def)
  have val: "lhs_value \<sigma> (lhs w) - rhs w = (if minimize then - linear_value \<sigma> coeffs vars else linear_value \<sigma> coeffs vars)" for \<sigma>
  proof -
    let ?i = "sortByIncreasingVariable w0" let ?r = "removeDuplicates ?i"
    have i: "lhs_value \<sigma> (lhs ?i) = lhs_value \<sigma> (lhs w0)" by (rule msum_mset) (simp add: sortByIncreasingVariable_def)
    have i2: "rhs ?i = rhs w0" "nonzero_lits (lhs ?i)" using w0(2) by (simp_all add: sortByIncreasingVariable_def nonzero_lits_def)
    have "lhs_value \<sigma> (lhs w) = lhs_value \<sigma> (lhs ?r)"
      by (rule msum_mset) (simp add: w_def normalize_def sortByDecreasingCoefficient_def)
    then have "lhs_value \<sigma> (lhs w) - rhs w = lhs_value \<sigma> (lhs ?r) - rhs ?r"
      by (simp add: w_def normalize_def sortByDecreasingCoefficient_def)
    also have "\<dots> = lhs_value \<sigma> (lhs w0) - rhs w0" using removeDuplicates_value [OF i2(2), of \<sigma>] i i2(1) by simp
    also have "\<dots> = lhs_value \<sigma> ts" using fl(1) [of \<sigma>] by (simp add: w0_def added_def)
    also have "\<dots> = (if minimize then - linear_value \<sigma> coeffs vars else linear_value \<sigma> coeffs vars)" unfolding ts_def by (rule terms_value [OF assms(2)])
    finally show ?thesis .
  qed
  have un: "units = msum (isTrueLit ?m) (lhs w)" unfolding units_def by (rule msum_filter_sum)
  have split: "lhs_value \<sigma> (lhs w) = lhs_value \<sigma> fr + units" if "agrees \<sigma> ?m" for \<sigma>
    using value_split [OF assms(4) that, of "lhs w"] by (simp add: fr_def un)
  have "distinct (mvars fr)" using normalize_distinct [OF w0] by (simp add: fr_def w_def mvars_def distinct_map_filter)
  moreover have "nonzero_lits fr" using normalize_nonzero [OF w0] by (simp add: fr_def w_def nonzero_lits_def)
  ultimately obtain \<sigma>0 where s0: "agrees \<sigma>0 ?m" "lhs_value \<sigma>0 fr = 0" using zero_assignment [OF assms(4), of fr] by (auto simp: fr_def)
  have "\<bar>- rhs w + units\<bar> \<le> sum_list (map abs coeffs)"
    using split [OF s0(1)] s0(2) val [of \<sigma>0] linear_value_bound [of \<sigma>0 coeffs vars] by (auto split: if_splits)
  moreover have "\<bar>added\<bar> \<le> sum_list (map abs coeffs)" unfolding added_def ts_def by (rule negative_bound)
  ultimately have ok: "\<not> (\<bar>added\<bar> \<ge> INT_MAX \<or> \<bar>- rhs w + units\<bar> > INT_MAX)" using assms(3) by linarith
  define s' where "s' = computeBestPolarityForVarInObjectiveFunction
     (s\<lparr>feasibility := False, srch_minimizing := minimize, objective := fr, addedConstantToObjective := - rhs w + units\<rparr>)"
  have "addObjectiveFunction minimize coeffs vars s = Some s'"
    using assms(1,5,6) ok
    by (simp add: addObjectiveFunction_def Let_def ts_def [symmetric] added_def [symmetric] w0_def [symmetric] normalize_def [symmetric]
        w_def [symmetric] units_def [symmetric] fr_def [symmetric] s'_def)
  moreover have "objective_cost \<sigma> s' = linear_value \<sigma> coeffs vars" if "agrees \<sigma> ?m" for \<sigma>
    using split [OF that] val [of \<sigma>] by (cases minimize) (simp_all add: objective_cost_def s'_def computeBestPolarityForVarInObjectiveFunction_def)
  ultimately show ?thesis by (auto simp: s'_def computeBestPolarityForVarInObjectiveFunction_def)
qed

text \<open>
  C29: Declaring the objective. When the coefficients add up to less than the largest \<open>int\<close>, the
  declaration succeeds, and under every assignment that agrees with the trail the solver's objective,
  rewritten with positive coefficients over unassigned literals, has the value of the objective of
  the problem.
\<close>

theorem addObjectiveFunction_correct:
  assumes "coeffs \<noteq> []" "\<forall>v \<in> set vars. 0 < v" "sum_list (map abs coeffs) < INT_MAX"
    and "wf_model (solver_model (sv s))" "objective s = []" "addedConstantToObjective s = 0"
  shows "\<exists>s'. addObjectiveFunction minimize coeffs vars s = Some s' \<and> sv s' = sv s \<and> \<not> feasibility s'
    \<and> (\<forall>\<sigma>. agrees \<sigma> (solver_model (sv s)) \<longrightarrow> objective_cost \<sigma> s' = linear_value \<sigma> coeffs vars)"
  using addObjectiveFunction_declares [OF assms] .

theorem addObjectiveFunction_correct_witness:
  "\<exists>s'. addObjectiveFunction True [3, -2] [1, 2] (new_search nat_floats 2) = Some s' \<and> objective_cost (\<lambda>v. v = 2) s' = -2"
proof -
  have "wf_model (solver_model (sv (new_search nat_floats 2)))" by (simp add: new_search_def new_solver_def wf_new_model del: new_model_def)
  then show ?thesis
    using addObjectiveFunction_correct [of "[3, -2]" "[1, 2]" "new_search nat_floats 2" True]
    by (auto simp: new_search_def new_solver_def agrees_def new_model_def tlits_def linear_value_def)
qed

section \<open>A solution and the bound behind it\<close>



















section \<open>What a decision problem reports\<close>

text \<open>The fields that only a new solution changes.\<close>

definition memo :: "('a::linorder) search \<Rightarrow> (var \<Rightarrow> bool) \<times> int \<times> bool \<times> monomial list" where
  "memo s = (lastSolution s, numOfSolutionsFound s, feasibility s, objective s)"

definition in_round :: "('s \<Rightarrow> bool) \<Rightarrow> 's round \<Rightarrow> bool" where
  "in_round P r = (case r of Again c k s \<Rightarrow> P s | Return s \<Rightarrow> P s | _ \<Rightarrow> True)"

definition in_control :: "('s \<Rightarrow> bool) \<Rightarrow> 's control \<Rightarrow> bool" where
  "in_control P r = (case r of Continue s \<Rightarrow> P s | Finish s \<Rightarrow> P s | _ \<Rightarrow> True)"

lemma in_simps [simp]:
  "in_round P (Again c k s) = P s" "in_round P (Return s) = P s" "in_round P ExitNoReason" "in_round P Trap"
  "in_control P (Continue s) = P s" "in_control P (Finish s) = P s" "in_control P Exit" "in_control P Fault"
  by (simp_all add: in_round_def in_control_def)

lemma memo_update [simp]:
  "memo (s\<lparr>sv := v\<rparr>) = memo s" "memo (s\<lparr>strat := st\<rparr>) = memo s" "memo (s\<lparr>learnedShortConstraints := x\<rparr>) = memo s"
  "memo (s\<lparr>rand_calls := n\<rparr>) = memo s" "memo (s\<lparr>nconfl_to_restart := x1\<rparr>) = memo s" "memo (s\<lparr>nconfl_to_reduce := x1\<rparr>) = memo s"
  "memo (s\<lparr>numOfRestarts := x1\<rparr>) = memo s" "memo (s\<lparr>numOfCleanUps := x1\<rparr>) = memo s" "memo (s\<lparr>numOfConflicts := x1\<rparr>) = memo s"
  "memo (s\<lparr>numOfConflictsSinceLastSolution := x1\<rparr>) = memo s" "memo (s\<lparr>numOfDecisions := x1\<rparr>) = memo s"
  "memo (s\<lparr>srch_status := st'\<rparr>) = memo s" "memo (s\<lparr>objectiveFunctions := fs\<rparr>) = memo s" "memo (s\<lparr>obj_num := x1\<rparr>) = memo s"
  by (simp_all add: memo_def)

lemma memo_scores [simp]: "memo (increaseScoresOfVars F c s) = memo s"
proof -
  have "memo (fold (\<lambda>m. increaseActivityScoreOfVar F \<bar>snd m\<bar>) ms s) = memo s" for ms
    by (induction ms arbitrary: s) (simp_all add: increaseActivityScoreOfVar_def Let_def split: prod.splits)
  then show ?thesis by (simp add: increaseScoresOfVars_def)
qed

lemma memo_bump [simp]: "memo (bump_pb n s) = memo s" "memo (bump_clause n s) = memo s"
  by (simp_all add: bump_pb_def bump_clause_def Let_def)

lemma memo_reason: "reason_constraint r l s = Some (c, s') \<Longrightarrow> memo s' = memo s"
  by (auto simp: reason_constraint_def Let_def split: reason.splits)

lemma memo_learn: "in_round (\<lambda>t. memo t = memo s) (learn_clause c d s)" "in_round (\<lambda>t. memo t = memo s) (learn_pb F c d s)"
  by (auto simp: learn_clause_def learn_pb_def Let_def split: prod.splits list.splits option.splits)

lemma memo_after_cut: "in_round (\<lambda>t. memo t = memo s) (after_cut F m c clash s)"
  using memo_learn [of s] by (simp add: after_cut_def Let_def)

lemma memo_round: "in_round (\<lambda>t. memo t = memo s) (analysis_round F c k s)"
proof -
  have "in_round (\<lambda>t. memo t = memo s) (after_cut F m c' clash (increaseScoresOfVars F r s'))" if "memo s' = memo s" for m c' clash r s'
    using memo_after_cut [of "increaseScoresOfVars F r s'" F m c' clash] that by simp
  then show ?thesis by (auto simp: analysis_round_def Let_def dest: memo_reason split: prod.splits option.splits)
qed

lemma memo_analysis_loop: "in_round (\<lambda>t. memo t = memo s) (analysis_loop F c k s)"
proof (induction F c k s rule: analysis_loop.induct)
  case (1 F c k s)
  show ?case
    using memo_round [of s F c k] 1 by (subst analysis_loop.simps) (auto split: round.splits simp: in_round_def)
qed

lemma memo_conflictAnalysis: "in_round (\<lambda>t. memo t = memo s) (conflictAnalysis F s)"
proof -
  have "in_round (\<lambda>t. memo t = memo s) (conflictAnalysisAndBackjump F c s')" if "memo s' = memo s" for c s'
    using memo_analysis_loop [of s'] that by (simp add: conflictAnalysisAndBackjump_def Let_def)
  then show ?thesis by (simp add: conflictAnalysis_def Let_def increaseActivityScoreBonus_def split: conflict_type.splits)
qed

lemma memo_propagate: "propagate_search s = Some s' \<Longrightarrow> memo s' = memo s" "propagate_quiet s = Some s' \<Longrightarrow> memo s' = memo s"
  by (auto simp: propagate_search_def propagate_quiet_def split: if_splits)

lemma memo_resolve: "resolve_conflicts F s = Some r \<Longrightarrow> in_control (\<lambda>t. memo t = memo s) r"
proof (rule resolve_conflicts.raw_induct [where P = "\<lambda>F s r. in_control (\<lambda>t. memo t = memo s) r"])
  fix f :: "'a float_ops \<Rightarrow> 'a search \<Rightarrow> 'a search control option" and F and s :: "'a search" and r
  assume IH: "\<And>F s r. f F s = Some r \<Longrightarrow> in_control (\<lambda>t. memo t = memo s) r"
  let ?s = "reportConflict (s\<lparr>nconfl_to_restart := nconfl_to_restart s - 1\<rparr>)"
  assume body: "(if \<not> conflict (sv s) then Some (Continue s)
      else let s = ?s in
           if currentDecisionLevel (solver_model (sv s)) = 0 then Some (Finish (updateStatusConflictAtDLZero s))
           else case conflictAnalysis F s of
                  Return s \<Rightarrow> (case propagate_quiet s of None \<Rightarrow> None | Some s \<Rightarrow> f F s)
                | ExitNoReason \<Rightarrow> Some Exit
                | _ \<Rightarrow> Some Fault) = Some r"
  have m: "memo ?s = memo s" by (simp add: reportConflict_def)
  consider "\<not> conflict (sv s)" | "conflict (sv s)" "currentDecisionLevel (solver_model (sv ?s)) = 0"
    | "conflict (sv s)" "currentDecisionLevel (solver_model (sv ?s)) \<noteq> 0" by blast
  then show "in_control (\<lambda>t. memo t = memo s) r"
  proof cases
    case 3
    show ?thesis
    proof (cases "conflictAnalysis F ?s")
      case (Return t)
      then have t: "memo t = memo s" using memo_conflictAnalysis [of ?s F] m by simp
      obtain u where u: "propagate_quiet t = Some u" "f F u = Some r" using body 3 Return by (auto simp: Let_def split: option.splits)
      then show ?thesis using IH [OF u(2)] memo_propagate(2) [OF u(1)] t by simp
    qed (use body 3 in \<open>auto simp: Let_def\<close>)
  qed (use body m in \<open>auto simp: Let_def updateStatusConflictAtDLZero_def\<close>)
qed

lemma memo_reduce: "raise_reduce s = Some t \<Longrightarrow> memo t = memo s"
proof (rule raise_reduce.raw_induct [where P = "\<lambda>s t. memo t = memo s"])
  fix f :: "'a search \<Rightarrow> 'a search option" and s t :: "'a search"
  assume IH: "\<And>s t. f s = Some t \<Longrightarrow> memo t = memo s"
    and body: "(if numOfConflicts s \<ge> numOfCleanUps s * nconfl_to_reduce s
      then f (s\<lparr>nconfl_to_reduce := nconfl_to_reduce s + 100\<rparr>) else Some s) = Some t"
  then show "memo t = memo s" using IH [of "s\<lparr>nconfl_to_reduce := nconfl_to_reduce s + 100\<rparr>" t] by (auto split: if_splits)
qed

lemma memo_cleanup: "doCleanup shuffle s = Some t \<Longrightarrow> memo t = memo s"
proof -
  have loop: "cleanupPBConstraints n rem k cs A s = Some (A', t) \<Longrightarrow> memo t = memo s" for n rem k cs A A' and s t :: "'a search"
    by (induction n rem k cs A s rule: cleanupPBConstraints.induct) (auto simp: Let_def split: if_splits option.splits)
  then show "doCleanup shuffle s = Some t \<Longrightarrow> memo t = memo s"
    by (fastforce simp: doCleanup_def Let_def split: prod.splits option.splits)
qed

lemma memo_cleanup_step: "cleanup_step shuffle s = Some r \<Longrightarrow> in_control (\<lambda>t. memo t = memo s) r"
proof -
  assume r: "cleanup_step shuffle s = Some r"
  have "memo (reportCleanup (backjump_search 0 s)) = memo s" by (simp add: reportCleanup_def backjump_search_def)
  then show ?thesis using r memo_cleanup [of shuffle "reportCleanup (backjump_search 0 s)"] memo_reduce
    by (fastforce simp: cleanup_step_def split: if_splits option.splits)
qed

lemma memo_restart: "memo (restart_step F s) = memo s"
  by (simp add: restart_step_def Let_def reportRestart_def backjump_search_def)

lemma memo_next: "getNextDecisionVar rnd s = (v, t) \<Longrightarrow> memo t = memo s"
  by (auto simp: getNextDecisionVar_def Let_def split: prod.splits if_splits)

lemma memo_decide: "in_control (\<lambda>t. memo t = memo s) (decide_step rnd True s)"
proof -
  obtain v t where t: "getNextDecisionVar rnd s = (v, t)" by fastforce
  have "memo (takeDecisionForVar rnd v u) = memo u" for u :: "'a search"
    by (simp add: takeDecisionForVar_def Let_def split: option.splits)
  moreover have "memo (reportDecision t) = memo t" by (simp add: reportDecision_def)
  ultimately show ?thesis using memo_next [OF t] by (simp add: decide_step_def t solution_step_def)
qed

definition imports_quietly :: "('a::linorder, 'e) callbacks \<Rightarrow> bool" where
  "imports_quietly C \<longleftrightarrow> (\<forall>s e t e'. cb_import C s e = Some (t, e') \<longrightarrow> memo t = memo s)"

lemma in_lift [simp]: "in_control (\<lambda>(t, e). P t) (lift_control e r) = in_control P r"
  by (cases r) simp_all

lemma in_and_then:
  assumes "and_then x f = Some r" "\<And>y. x = Some y \<Longrightarrow> in_control P y" "\<And>y. P y \<Longrightarrow> f y = Some r \<Longrightarrow> in_control P r"
  shows "in_control P r"
proof (cases x)
  case (Some y)
  then show ?thesis using assms by (cases y) auto
qed (use assms(1) in simp)

lemma memo_iteration:
  fixes C :: "('a::linorder, 'e) callbacks"
  assumes "imports_quietly C" "solve_iteration F C rnd shuffle True timeLimit (s, e) = Some r"
  shows "in_control (\<lambda>(t, e). memo t = memo s) r"
proof -
  let ?Q = "\<lambda>t :: 'a search. memo t = memo s" and ?P = "\<lambda>(t :: 'a search, e :: 'e). memo t = memo s"
  let ?c = "and_then (conflict_step F s) (\<lambda>s. cleanup_step shuffle (restart_step F s))"
  have c: "in_control ?Q y" if y: "?c = Some y" for y
  proof (rule in_and_then [OF y])
    fix z assume "conflict_step F s = Some z"
    then show "in_control ?Q z"
      using memo_propagate(2) [of s] memo_resolve by (auto simp: conflict_step_def split: option.splits) fastforce+
  next
    fix z assume "memo z = memo s" "cleanup_step shuffle (restart_step F z) = Some y"
    then show "in_control ?Q y" using memo_cleanup_step [of shuffle "restart_step F z" y] memo_restart [of F z] by simp
  qed
  have i: "in_control ?P y" if p: "?P p" and y: "interrupt_step C timeLimit p = Some y" for p y
    using p y by (auto simp: interrupt_step_def Let_def split: prod.splits option.splits if_splits)
  have m: "in_control ?P y" if p: "?P p" and y: "import_step C p = Some y" for p y
    using p y assms(1) memo_propagate(1)
    by (fastforce simp: import_step_def imports_quietly_def updateStatusConflictAtDLZero_def split: prod.splits option.splits if_splits)
  show ?thesis
    using assms(2) unfolding solve_iteration_def prod.case
  proof (rule in_and_then)
    fix y assume "map_option (lift_control e) ?c = Some y"
    then show "in_control ?P y" using c by auto
  next
    fix p :: "'a search \<times> 'e" assume p: "?P p"
    assume "and_then (interrupt_step C timeLimit p) (\<lambda>r. and_then (import_step C r) (\<lambda>(s, e). Some (lift_control e (decide_step rnd True s)))) = Some r"
    then show "in_control ?P r"
    proof (rule in_and_then)
      show "in_control ?P y" if "interrupt_step C timeLimit p = Some y" for y by (rule i [OF p that])
    next
      fix q :: "'a search \<times> 'e" assume q: "?P q" "and_then (import_step C q) (\<lambda>(s, e). Some (lift_control e (decide_step rnd True s))) = Some r"
      show "in_control ?P r"
      proof (rule in_and_then [OF q(2)])
        show "in_control ?P y" if "import_step C q = Some y" for y by (rule m [OF q(1) that])
      next
        fix u :: "'a search \<times> 'e" assume "?P u" "(case u of (s, e) \<Rightarrow> Some (lift_control e (decide_step rnd True s))) = Some r"
        then show "in_control ?P r" using memo_decide [of "fst u" rnd] by (auto split: prod.splits)
      qed
    qed
  qed
qed

lemma memo_solve_loop:
  fixes C :: "('a::linorder, 'b) callbacks"
  assumes "imports_quietly C" "solve_loop F C rnd shuffle True timeLimit p = Some r"
  shows "in_control (\<lambda>(t, e). memo t = memo (fst p)) r"
proof (rule solve_loop.raw_induct [where P = "\<lambda>F' C' rnd' sh fz tl p r. imports_quietly C' \<longrightarrow> fz \<longrightarrow> in_control (\<lambda>(t, e). memo t = memo (fst p)) r", rule_format])
  show "solve_loop F C rnd shuffle True timeLimit p = Some r" by (rule assms(2))
  show "imports_quietly C" True by (simp_all add: assms(1))
next
  fix f and F' :: "'a float_ops" and C' :: "('a, 'b) callbacks" and rnd' sh fz tl and p :: "'a search \<times> 'b" and r
  assume IH: "\<And>F C rnd sh fz tl p r. f F C rnd sh fz tl p = Some r \<Longrightarrow> imports_quietly C \<Longrightarrow> fz \<Longrightarrow> in_control (\<lambda>(t, e). memo t = memo (fst p)) r"
    and body: "(case solve_iteration F' C' rnd' sh fz tl p of None \<Rightarrow> None
      | Some x \<Rightarrow> (case x of Continue r \<Rightarrow> f F' C' rnd' sh fz tl r | _ \<Rightarrow> Some x)) = Some r" and q: "imports_quietly C'" and fz: fz
  obtain s e where p: "p = (s, e)" by fastforce
  obtain x where x: "solve_iteration F' C' rnd' sh True tl (s, e) = Some x" using body fz p by (cases "solve_iteration F' C' rnd' sh fz tl p") auto
  note it = memo_iteration [OF q x]
  show "in_control (\<lambda>(t, e). memo t = memo (fst p)) r"
  proof (cases x)
    case (Continue u)
    then have "f F' C' rnd' sh fz tl u = Some r" using body x p fz by simp
    from IH [OF this q fz] show ?thesis using it Continue p by (auto split: prod.splits)
  qed (use body x p fz it in auto)
qed

lemma native_imports_quietly: "imports_quietly (native_callbacks overdue clock problem arrivals :: ('a::linorder, 'd worker) callbacks)"
  unfolding imports_quietly_def
proof (intro allI impI)
  fix s t :: "'a search" and w w' :: "'d worker"
  assume "cb_import (native_callbacks overdue clock problem arrivals) s w = Some (t, w')"
  then have "import_external_constraints problem arrivals s w = Some (t, w')" by (simp add: native_callbacks_def)
  then have "t = s \<or> (\<exists>v. t = s\<lparr>sv := v\<rparr>)"
    by (auto simp: import_external_constraints_def Let_def split: if_splits bind_splits)
  then show "memo t = memo s" by auto
qed

text \<open>
  C37: In a decision problem the native backend loses its solution. The search ends with the status
  of a solved problem and leaves the stored solution alone, so what \<open>getSolution\<close> gives to the
  caller is all zeros, whatever the constraints are.
\<close>

theorem decision_solution_lost:
  assumes "feasibility s" "lastSolution s = (\<lambda>_. False)"
    and "Native_solve F (native_callbacks overdue clock problem arrivals) rnd shuffle optimizing timeLimit s w = Some (res, s', w')"
  shows "\<forall>x \<in> set (Native_getSolution n s'). x = 0"
proof -
  let ?C = "native_callbacks overdue clock problem arrivals"
  have q: "imports_quietly ?C" by (rule native_imports_quietly)
  obtain x where x: "solve F ?C rnd shuffle timeLimit s w = Some (Finish (s', x))"
    using assms(3) by (auto simp: Native_solve_def Let_def split: option.splits control.splits)
  have "memo s' = memo s"
    using x memo_propagate(1) [of s] memo_cleanup memo_solve_loop [OF q] assms(1)
    by (fastforce simp: solve_def updateStatusConflictAtDLZero_def split: if_splits option.splits)
  then show ?thesis using assms(2) by (auto simp: memo_def Native_getSolution_def)
qed

definition sat_problem_one :: pbproblem where
  "sat_problem_one = \<lparr>constraints = [\<lparr>lhs = [(1, 1)], rhs = 1\<rparr>], minimizing = True, objCoeffs = [], objVars = []\<rparr>"

definition idle_callbacks :: "(nat, unit worker) callbacks" where
  "idle_callbacks = native_callbacks (\<lambda>_. False) (\<lambda>w. (0, w)) sat_problem_one (\<lambda>_. [(TAG_BEST_REPLY, [INT_MAX])])"

definition loaded_one :: "nat search" where
  "loaded_one = the (Native_addBaseProblem sat_problem_one (NativeBackend_new nat_floats 1))"

declare solve_loop.simps [code] resolve_conflicts.simps [code] raise_reduce.simps [code]

lemma one_run: "(case Native_solve nat_floats idle_callbacks (\<lambda>_. 0) (\<lambda>_ xs. xs) False 0 loaded_one (sample_worker 2) of
    Some (res, s', w') \<Rightarrow> res_status res = OPTIMUM_FOUND \<and> hasSolution res | None \<Rightarrow> False)"
  by code_simp

theorem decision_solution_lost_witness:
  "\<exists>res s' w'. Native_solve nat_floats idle_callbacks (\<lambda>_. 0) (\<lambda>_ xs. xs) False 0 loaded_one (sample_worker 2) = Some (res, s', w')
     \<and> res_status res = OPTIMUM_FOUND \<and> hasSolution res \<and> (\<forall>x \<in> set (Native_getSolution 1 s'). x = 0) \<and> \<not> sat_problem (\<lambda>_. False) sat_problem_one"
proof -
  obtain res s' w' where r: "Native_solve nat_floats idle_callbacks (\<lambda>_. 0) (\<lambda>_ xs. xs) False 0 loaded_one (sample_worker 2) = Some (res, s', w')"
    "res_status res = OPTIMUM_FOUND" "hasSolution res"
    using one_run by (auto split: option.splits)
  have "case Native_addBaseProblem sat_problem_one (NativeBackend_new nat_floats 1) of None \<Rightarrow> False | Some _ \<Rightarrow> True" by code_simp
  then have "memo loaded_one = memo (NativeBackend_new nat_floats 1)"
    by (auto simp: loaded_one_def Native_addBaseProblem_def on_solver_def addObjectiveFunction_def sat_problem_one_def split: option.splits)
  then have "feasibility loaded_one" "lastSolution loaded_one = (\<lambda>_. False)" by (auto simp: memo_def NativeBackend_new_def new_search_def)
  then show ?thesis using decision_solution_lost [OF _ _ r(1) [unfolded idle_callbacks_def]] r
    by (auto simp: sat_problem_def sat_problem_one_def sat_def idle_callbacks_def lit_true_def)
qed

end
