(* ===== verification/Input.thy ===== *)
theory Input
  imports Protocol
begin

text \<open>
  Reading the input (\<open>Parser::readOPB\<close> and \<open>readLP\<close> of \<open>src/src/Parser.cpp\<close>, \<open>read_cnf_file\<close> of
  \<open>cubePB.cpp\<close>) and the converter \<open>CnfToOpb.cc\<close>. A file is the list of its lines, as \<open>getline\<close> gives
  them. \<open>None\<close> is the end of the program: \<open>exit\<close>, an exception of \<open>stoi\<close>, a read past the end of
  \<open>words\<close>, or an indeterminate number. The program is compiled with \<open>NDEBUG\<close>, so assertions do nothing.
\<close>

section \<open>Words and numbers\<close>

definition isspace :: "char \<Rightarrow> bool" where
  "isspace c \<longleftrightarrow> (let n = of_char c :: nat in n = 32 \<or> 9 \<le> n \<and> n \<le> 13)"

definition isdigit :: "char \<Rightarrow> bool" where
  "isdigit c \<longleftrightarrow> (let n = of_char c :: nat in 48 \<le> n \<and> n \<le> 57)"

text \<open>What \<open>>>\<close> extracts into a string, and the rest of the stream.\<close>

definition next_word :: "string \<Rightarrow> string \<times> string" where
  "next_word s = (let s = dropWhile isspace s in (takeWhile (\<lambda>c. \<not> isspace c) s, dropWhile (\<lambda>c. \<not> isspace c) s))"

lemma next_word_length: "next_word s = (w, r) \<Longrightarrow> w \<noteq> [] \<Longrightarrow> length r < length s"
proof -
  assume a: "next_word s = (w, r)" "w \<noteq> []"
  let ?t = "dropWhile isspace s"
  have "?t = w @ r" using a(1) by (auto simp: next_word_def Let_def)
  then show ?thesis using a(2) length_dropWhile_le [of isspace s] by (cases w) auto
qed

function split_words :: "string \<Rightarrow> string list" where
  "split_words s = (let (w, r) = next_word s in if w = [] then [] else w # split_words r)"
  by pat_completeness auto
termination by (relation "measure length") (auto intro: next_word_length [OF sym])

declare split_words.simps [simp del]

text \<open>The longest prefix that reads as a decimal integer, after blanks; \<open>None\<close> when there is none.\<close>

definition scan_int :: "string \<Rightarrow> (int \<times> string) option" where
  "scan_int s =
     (let s = dropWhile isspace s;
          negative = (s \<noteq> [] \<and> hd s = CHR ''-'');
          s = (if s \<noteq> [] \<and> (hd s = CHR ''-'' \<or> hd s = CHR ''+'') then tl s else s);
          ds = takeWhile isdigit s; n = int (digits_value ds)
      in if ds = [] then None else Some (if negative then - n else n, dropWhile isdigit s))"

definition stoi :: "string \<Rightarrow> int option" where
  "stoi s = (case scan_int s of Some (n, r) \<Rightarrow> if INT_MIN \<le> n \<and> n \<le> INT_MAX then Some n else None | None \<Rightarrow> None)"

definition stoll :: "string \<Rightarrow> int option" where
  "stoll s = (case scan_int s of Some (n, r) \<Rightarrow> if - (2 ^ 63) \<le> n \<and> n < 2 ^ 63 then Some n else None | None \<Rightarrow> None)"

text \<open>Reading integers from a stream until one cannot be read.\<close>

lemma scan_int_length: "scan_int s = Some (n, r) \<Longrightarrow> length r < length s"
proof -
  assume a: "scan_int s = Some (n, r)"
  let ?t = "dropWhile isspace s"
  let ?u = "if ?t \<noteq> [] \<and> (hd ?t = CHR ''-'' \<or> hd ?t = CHR ''+'') then tl ?t else ?t"
  have "takeWhile isdigit ?u \<noteq> []" "r = dropWhile isdigit ?u" using a by (auto simp: scan_int_def Let_def split: if_splits)
  moreover have "length (takeWhile isdigit ?u) + length (dropWhile isdigit ?u) = length ?u"
    unfolding length_append [symmetric] takeWhile_dropWhile_id ..
  ultimately have "length r < length ?u" by (cases "takeWhile isdigit ?u") auto
  moreover have "length ?u \<le> length ?t" by (cases ?t) auto
  moreover have "length ?t \<le> length s" by (rule length_dropWhile_le)
  ultimately show ?thesis by linarith
qed

function read_ints :: "string \<Rightarrow> int list" where
  "read_ints s = (case scan_int s of
     None \<Rightarrow> []
   | Some (n, r) \<Rightarrow> if INT_MIN \<le> n \<and> n \<le> INT_MAX then n # read_ints r else [])"
  by pat_completeness auto
termination by (relation "measure length") (auto simp: scan_int_length)

declare read_ints.simps [simp del]

section \<open>Variables\<close>

record parser =
  variables :: "string \<Rightarrow> int"
  varNames :: "string list"
  p_coeffs :: "int list"
  p_varNums :: "var list"

definition new_parser :: parser where
  "new_parser = \<lparr>variables = (\<lambda>_. 0), varNames = [[]], p_coeffs = [], p_varNums = []\<rparr>"

definition Parser_numVars :: "parser \<Rightarrow> int" where "Parser_numVars ps = int (length (varNames ps)) - 1"

definition string2Var :: "string \<Rightarrow> parser \<Rightarrow> int" where "string2Var s ps = variables ps s"

definition var2string :: "int \<Rightarrow> parser \<Rightarrow> string" where "var2string v ps = varNames ps ! nat v"

definition getVarNum :: "string \<Rightarrow> parser \<Rightarrow> var \<times> parser" where
  "getVarNum s ps =
     (if variables ps s = 0
      then (let n = int (length (varNames ps)) in (n, ps\<lparr>variables := (variables ps)(s := n), varNames := varNames ps @ [s]\<rparr>))
      else (variables ps s, ps))"

section \<open>OPB\<close>

text \<open>The words from \<open>wordsIndex\<close> on; the result is the coefficient, the name and the words behind.\<close>

definition getMonomialOPB :: "string list \<Rightarrow> (int \<times> string \<times> string list) option" where
  "getMonomialOPB ws = (case ws of
     s # v # rest \<Rightarrow> (case (stoll (tl s), stoi (tl s)) of
         (Some c, Some k) \<Rightarrow> if \<bar>c\<bar> \<ge> INT_MAX then None else Some (if take 1 s = ''-'' then - k else k, v, rest)
       | _ \<Rightarrow> None)
   | _ \<Rightarrow> None)"

fun objective_opb :: "string list \<Rightarrow> parser \<times> pbproblem \<Rightarrow> (parser \<times> pbproblem) option" where
  "objective_opb [] X = Some X"
| "objective_opb [s] X = None"
| "objective_opb (s # v # ws) (ps, p) =
     (case getMonomialOPB [s, v] of
        None \<Rightarrow> None
      | Some (coef, name, _) \<Rightarrow>
          (let (n, ps) = getVarNum name ps; p = p\<lparr>objCoeffs := objCoeffs p @ [coef], objVars := objVars p @ [n]\<rparr>
           in if ws = [] then None else if hd ws = '';'' then Some (ps, p) else objective_opb ws (ps, p)))"

text \<open>A relation with the constant behind it; what follows the constant is skipped unread.\<close>

definition finish_opb :: "string \<Rightarrow> int \<Rightarrow> parser \<times> pbproblem \<Rightarrow> parser \<times> pbproblem" where
  "finish_opb rel r = (\<lambda>(ps, p).
     (ps\<lparr>p_coeffs := [], p_varNums := []\<rparr>,
      if rel = ''>='' then addConstraint (p_coeffs ps) (p_varNums ps) r True p
      else if rel = ''<='' then addConstraint (p_coeffs ps) (p_varNums ps) r False p
      else addConstraint (p_coeffs ps) (p_varNums ps) r False (addConstraint (p_coeffs ps) (p_varNums ps) r True p)))"

fun constraint_opb :: "string list \<Rightarrow> parser \<times> pbproblem \<Rightarrow> (parser \<times> pbproblem) option" where
  "constraint_opb [] X = Some X"
| "constraint_opb [s] X = None"
| "constraint_opb (s # v # ws) (ps, p) =
     (if s = ''<'' \<or> s = ''>'' then None
      else if s \<in> {''>='', ''<='', ''=''}
      then (case stoi v of None \<Rightarrow> None | Some r \<Rightarrow> constraint_opb (drop 1 ws) (finish_opb s r (ps, p)))
      else (case getMonomialOPB [s, v] of
              None \<Rightarrow> None
            | Some (coef, name, _) \<Rightarrow>
                (let (n, ps) = getVarNum name ps
                 in if coef = 0 then None
                    else constraint_opb ws (ps\<lparr>p_coeffs := p_coeffs ps @ [coef], p_varNums := p_varNums ps @ [n]\<rparr>, p))))"

definition line_opb :: "string \<Rightarrow> parser \<times> pbproblem \<Rightarrow> (parser \<times> pbproblem) option" where
  "line_opb tmp = (\<lambda>(ps, p).
     if tmp = [] \<or> hd tmp = CHR ''*'' \<or> hd tmp = CHR 0x5C then Some (ps, p)
     else case split_words tmp of
            [] \<Rightarrow> None
          | w # ws \<Rightarrow> if w = ''min:'' then objective_opb ws (ps, p\<lparr>minimizing := True\<rparr>)
                     else if w = ''max:'' then None
                     else constraint_opb (w # ws) (ps, p))"

fun read_lines :: "(string \<Rightarrow> 'x \<Rightarrow> 'x option) \<Rightarrow> string list \<Rightarrow> 'x \<Rightarrow> 'x option" where
  "read_lines f [] X = Some X"
| "read_lines f (l # ls) X = (case f l X of None \<Rightarrow> None | Some Y \<Rightarrow> read_lines f ls Y)"

text \<open>\<open>minimizing\<close> of a new \<open>PBProblem\<close> is indeterminate.\<close>

definition new_problem :: "bool \<Rightarrow> pbproblem" where
  "new_problem m = \<lparr>constraints = [], minimizing = m, objCoeffs = [], objVars = []\<rparr>"

definition readOPB :: "bool \<Rightarrow> string list \<Rightarrow> parser \<Rightarrow> (parser \<times> pbproblem) option" where
  "readOPB m lines ps = read_lines line_opb lines (ps, new_problem m)"

section \<open>LP\<close>

definition getMonomialLP :: "string list \<Rightarrow> (int \<times> string \<times> string list) option" where
  "getMonomialLP ws =
     (let (sign, ws) = (if ws \<noteq> [] \<and> hd ws = ''-'' then (-1, tl ws) else if ws \<noteq> [] \<and> hd ws = ''+'' then (1, tl ws) else (1, ws)) in
      case ws of
        [] \<Rightarrow> None
      | [v] \<Rightarrow> Some (sign, v, [])
      | v # n # rest \<Rightarrow>
          if n \<in> {''='', ''<='', ''>='', ''<'', ''>'', ''+'', ''-''} then Some (sign, v, n # rest)
          else (case stoi v of None \<Rightarrow> None | Some k \<Rightarrow> Some (k * sign, n, rest)))"

lemma getMonomialLP_length: "getMonomialLP ws = Some (k, v, rest) \<Longrightarrow> length rest < length ws"
  by (cases ws) (auto simp: getMonomialLP_def Let_def split: if_splits list.splits option.splits)

function objective_lp :: "string list \<Rightarrow> parser \<times> pbproblem \<Rightarrow> (parser \<times> pbproblem) option" where
  "objective_lp ws X =
     (if ws = [] then Some X
      else case getMonomialLP ws of
             None \<Rightarrow> None
           | Some (coef, name, rest) \<Rightarrow>
               (let (ps, p) = X; (n, ps) = getVarNum name ps
                in objective_lp rest (ps, p\<lparr>objCoeffs := objCoeffs p @ [coef], objVars := objVars p @ [n]\<rparr>)))"
  by pat_completeness auto
termination by (relation "measure (length \<circ> fst)") (auto simp: getMonomialLP_length)

definition is_label :: "string \<Rightarrow> bool" where "is_label w \<longleftrightarrow> w \<noteq> [] \<and> last w = CHR '':''"

text \<open>
  The message about a strict inequality does not stop the loop, nor does the one about a coefficient
  zero; both leave the words as they are.
\<close>

function constraint_lp :: "string list \<Rightarrow> parser \<times> pbproblem \<Rightarrow> (parser \<times> pbproblem) option" where
  "constraint_lp ws X =
     (if ws = [] then Some X
      else let ws = (if is_label (hd ws) then tl ws else ws) in
           if ws = [] then None
           else if hd ws \<in> {''>='', ''<='', ''=''}
           then (if tl ws = [] then None
                 else case stoi (hd (tl ws)) of
                        None \<Rightarrow> None
                      | Some r \<Rightarrow> constraint_lp (drop 2 ws) (finish_opb (hd ws) r X))
           else (case getMonomialLP ws of
                   None \<Rightarrow> None
                 | Some (coef, name, rest) \<Rightarrow>
                     (let (ps, p) = X; (n, ps) = getVarNum name ps
                      in constraint_lp rest (ps\<lparr>p_coeffs := p_coeffs ps @ [coef], p_varNums := p_varNums ps @ [n]\<rparr>, p))))"
  by pat_completeness auto
termination
  by (relation "measure (length \<circ> fst)") (auto dest!: getMonomialLP_length split: if_splits simp: less_Suc_eq_le)

datatype Modes = OBJECTIVE_MODE | CONSTRAINTS_MODE | BOUNDS_MODE | GENERALS_MODE | BINARIES_MODE | END_MODE

definition mode_of_line :: "string \<Rightarrow> Modes option" where
  "mode_of_line tmp =
     (if tmp = ''Minimize'' \<or> tmp = ''Maximize'' then Some OBJECTIVE_MODE else if tmp = ''Subject To'' then Some CONSTRAINTS_MODE
      else if tmp = ''Bounds'' then Some BOUNDS_MODE else if tmp = ''Binaries'' then Some BINARIES_MODE
      else if tmp = ''Generals'' then Some GENERALS_MODE else if tmp = ''End'' then Some END_MODE else None)"

fun read_lp :: "Modes \<Rightarrow> string list \<Rightarrow> parser \<times> pbproblem \<Rightarrow> (parser \<times> pbproblem) option" where
  "read_lp mode [] X = Some X"
| "read_lp mode (tmp # lines) X =
     (if tmp = [] \<or> hd tmp = CHR ''*'' \<or> hd tmp = CHR 0x5C then read_lp mode lines X
      else case mode_of_line tmp of
             Some mode' \<Rightarrow> read_lp mode' lines
               (if mode' = OBJECTIVE_MODE then (fst X, (snd X)\<lparr>minimizing := (tmp = ''Minimize'')\<rparr>) else X)
           | None \<Rightarrow>
               (let ws = split_words tmp in
                if mode = OBJECTIVE_MODE
                then (case objective_lp (if ws \<noteq> [] \<and> is_label (hd ws) then tl ws else ws) X of
                        None \<Rightarrow> None | Some Y \<Rightarrow> read_lp mode lines Y)
                else if mode = CONSTRAINTS_MODE
                then (case constraint_lp ws X of None \<Rightarrow> None | Some Y \<Rightarrow> read_lp mode lines Y)
                else Some X))"

definition readLP :: "bool \<Rightarrow> string list \<Rightarrow> parser \<Rightarrow> (parser \<times> pbproblem) option" where
  "readLP m lines ps = read_lp END_MODE lines (ps, new_problem m)"

section \<open>CNF\<close>

text \<open>What \<open>>>\<close> stores into an \<open>int\<close>.\<close>

definition stream_int :: "string \<Rightarrow> int" where
  "stream_int s = (case scan_int s of None \<Rightarrow> 0 | Some (n, _) \<Rightarrow> max INT_MIN (min INT_MAX n))"

text \<open>The line of the header with the lines behind it, or the result \<open>-1\<close>.\<close>

fun cnf_header :: "string list \<Rightarrow> (int \<times> string list) option" where
  "cnf_header [] = None"
| "cnf_header (line # lines) =
     (if line = [] \<or> hd line \<noteq> CHR ''p'' then cnf_header lines
      else let (p, r1) = next_word line; (format, r2) = next_word r1 in
           if format \<noteq> ''cnf'' then None
           else Some (stream_int r2, lines))"

fun clause_loop :: "int list \<Rightarrow> lit list \<Rightarrow> lit list list" where
  "clause_loop [] clause = []"
| "clause_loop (l # ls) clause = (if l = 0 then clause # clause_loop ls [] else clause_loop ls (clause @ [l]))"

text \<open>The number of variables and the clauses; a number of clauses that does not fit is only reported.\<close>

definition read_cnf_file :: "string list \<Rightarrow> (int \<times> lit list list) option" where
  "read_cnf_file lines = (case cnf_header lines of
     None \<Rightarrow> None
   | Some (nVars, rest) \<Rightarrow>
       if nVars \<le> 0 then None
       else Some (nVars, clause_loop (read_ints (concat (map (\<lambda>l. l @ [CHR 0x0A]) rest))) []))"

section \<open>The converter\<close>

text \<open>
  \<open>read_formula\<close>: the first line that is not a comment is the header; the clauses behind it end with
  zero, each with the end of the input at the latest. \<open>None\<close> is an indeterminate number of clauses.
\<close>

fun formula_header :: "string list \<Rightarrow> string \<times> string list" where
  "formula_header [] = ([], [])"
| "formula_header (line # lines) = (if line \<noteq> [] \<and> hd line = CHR ''c'' then formula_header lines else (line, lines))"

fun formula_clauses :: "nat \<Rightarrow> int list \<Rightarrow> lit list list" where
  "formula_clauses 0 ls = []"
| "formula_clauses (Suc n) ls = takeWhile (\<lambda>l. l \<noteq> 0) ls # formula_clauses n (drop 1 (dropWhile (\<lambda>l. l \<noteq> 0) ls))"

definition read_formula :: "string list \<Rightarrow> (int \<times> lit list list) option" where
  "read_formula lines =
     (let (line, rest) = formula_header lines; (w1, r1) = next_word line; (w2, r2) = next_word r1 in
      case scan_int r2 of
        None \<Rightarrow> None
      | Some (nVars, r3) \<Rightarrow>
          if nVars < INT_MIN \<or> INT_MAX < nVars then None
          else Some (nVars, formula_clauses (nat (stream_int r3)) (read_ints (concat (map (\<lambda>l. l @ [CHR 0x0A]) rest)))))"

definition literal_text :: "lit \<Rightarrow> string" where
  "literal_text l = (if l > 0 then ''+1 x'' @ to_string l @ '' '' else ''-1 x'' @ to_string \<bar>l\<bar> @ '' '')"

definition clause_text :: "lit list \<Rightarrow> string" where
  "clause_text ls = concat (map literal_text ls) @ ''>= '' @ to_string (1 - int (length (filter (\<lambda>l. \<not> l > 0) ls))) @ '' ;''"

definition writePB :: "lit list list \<Rightarrow> string list" where
  "writePB clauses = map clause_text clauses"

end
