(* ===== verification/InputSound.thy ===== *)
theory InputSound
  imports Input
begin

text \<open>
  Reading back what was written (\<open>src/src/Parser.cpp\<close>, \<open>cubePB.cpp\<close>, \<open>CnfToOpb.cc\<close>): the OPB reader
  turns the text of a problem into that problem, with one variable per name, and the converter's text
  of a CNF into a problem with the solutions of the CNF.
\<close>

section \<open>Words\<close>

definition plain :: "string \<Rightarrow> bool" where "plain w \<longleftrightarrow> w \<noteq> [] \<and> (\<forall>c \<in> set w. \<not> isspace c)"

lemma split_word_rest: "plain w \<Longrightarrow> split_words (w @ CHR '' '' # r) = w # split_words r"
proof -
  assume w: "plain w"
  have b: "isspace CHR '' ''" by (simp add: isspace_def)
  have "dropWhile isspace (w @ CHR '' '' # r) = w @ CHR '' '' # r" using w by (cases w) (auto simp: plain_def)
  moreover have "takeWhile (\<lambda>c. \<not> isspace c) (w @ CHR '' '' # r) = w" "dropWhile (\<lambda>c. \<not> isspace c) (w @ CHR '' '' # r) = CHR '' '' # r"
    using w b by (auto simp: plain_def takeWhile_tail)
  ultimately have n: "next_word (w @ CHR '' '' # r) = (w, CHR '' '' # r)" by (simp add: next_word_def)
  have "split_words (CHR '' '' # r) = split_words r"
    by (subst (1 2) split_words.simps) (simp add: next_word_def b)
  then show ?thesis using w n by (subst split_words.simps) (simp add: plain_def)
qed

lemma split_last_word: "plain w \<Longrightarrow> split_words w = [w]"
proof -
  assume w: "plain w"
  have "dropWhile isspace w = w" using w by (cases w) (auto simp: plain_def)
  moreover have "takeWhile (\<lambda>c. \<not> isspace c) w = w" "dropWhile (\<lambda>c. \<not> isspace c) w = []" using w by (auto simp: plain_def)
  ultimately have "next_word w = (w, [])" by (simp add: next_word_def)
  moreover have "split_words [] = []" by (subst split_words.simps) (simp add: next_word_def)
  ultimately show ?thesis using w by (subst split_words.simps) (simp add: plain_def)
qed

lemma digit_is: "c \<in> digit_char ` {..<10} \<Longrightarrow> isdigit c \<and> \<not> isspace c"
  using digit_char_range [of c] by (auto simp: isdigit_def isspace_def)

lemma nat_to_string_plain: "plain (nat_to_string n)" "\<forall>c \<in> set (nat_to_string n). isdigit c"
  using nat_to_string_chars [of n] digit_is nat_to_string_nonempty [of n] by (auto simp: plain_def)

lemma sign_chars: "\<not> isspace CHR ''-''" "\<not> isspace CHR ''+''" "\<not> isdigit CHR ''-''" "\<not> isdigit CHR ''+''"
  by (simp_all add: isspace_def isdigit_def)

lemma to_string_plain: "plain (to_string i)"
  using nat_to_string_plain(1) sign_chars(1) by (auto simp: to_string_def plain_def)

lemma scan_to_string: "scan_int (to_string i) = Some (i, [])"
proof -
  have d: "takeWhile isdigit (nat_to_string n) = nat_to_string n" "dropWhile isdigit (nat_to_string n) = []" for n
    using nat_to_string_plain(2) by auto
  have h: "nat_to_string n \<noteq> []" "hd (nat_to_string n) \<noteq> CHR ''-''" "hd (nat_to_string n) \<noteq> CHR ''+''" "dropWhile isspace (nat_to_string n) = nat_to_string n" for n
  proof -
    show ne: "nat_to_string n \<noteq> []" by (rule nat_to_string_nonempty)
    then have "isdigit (hd (nat_to_string n)) \<and> \<not> isspace (hd (nat_to_string n))" using nat_to_string_plain [of n] by (auto simp: plain_def)
    then show "hd (nat_to_string n) \<noteq> CHR ''-''" "hd (nat_to_string n) \<noteq> CHR ''+''" "dropWhile isspace (nat_to_string n) = nat_to_string n"
      using sign_chars ne by (auto, cases "nat_to_string n") auto
  qed
  show ?thesis
    by (cases "i < 0") (simp_all add: scan_int_def to_string_def Let_def sign_chars d h digits_value_nat)
qed

lemma stoi_to_string: "INT_MIN \<le> i \<Longrightarrow> i \<le> INT_MAX \<Longrightarrow> stoi (to_string i) = Some i"
  by (simp add: stoi_def scan_to_string)

lemma stoll_to_string: "\<bar>i\<bar> < INT_MAX \<Longrightarrow> stoll (to_string i) = Some i"
  by (auto simp: stoll_def scan_to_string)

section \<open>The text of a problem\<close>

type_synonym named_term = "int \<times> string"

definition coef_text :: "int \<Rightarrow> string" where
  "coef_text a = (if a < 0 then CHR ''-'' else CHR ''+'') # to_string \<bar>a\<bar>"

definition term_text :: "named_term \<Rightarrow> string" where
  "term_text t = coef_text (fst t) @ '' '' @ snd t @ '' ''"

definition constraint_text :: "named_term list \<times> string \<times> int \<Rightarrow> string" where
  "constraint_text c = (case c of (ts, rel, r) \<Rightarrow> concat (map term_text ts) @ rel @ '' '' @ to_string r @ '' ;'')"

definition objective_text :: "named_term list \<Rightarrow> string" where
  "objective_text ts = ''min: '' @ concat (map term_text ts) @ '';''"

definition terms_words :: "named_term list \<Rightarrow> string list" where
  "terms_words ts = concat (map (\<lambda>t. [coef_text (fst t), snd t]) ts)"

definition term_ok :: "named_term \<Rightarrow> bool" where
  "term_ok t \<longleftrightarrow> fst t \<noteq> 0 \<and> \<bar>fst t\<bar> < INT_MAX \<and> plain (snd t)"

lemma coef_text_plain: "plain (coef_text a)"
  using to_string_plain [of "\<bar>a\<bar>"] sign_chars by (auto simp: coef_text_def plain_def)

lemma split_terms: "\<forall>t \<in> set ts. term_ok t \<Longrightarrow> split_words (concat (map term_text ts) @ r) = terms_words ts @ split_words r"
proof (induction ts)
  case (Cons t ts)
  have "split_words (concat (map term_text (t # ts)) @ r)
      = split_words (coef_text (fst t) @ CHR '' '' # (snd t @ CHR '' '' # (concat (map term_text ts) @ r)))"
    by (simp add: term_text_def)
  also have "\<dots> = coef_text (fst t) # snd t # split_words (concat (map term_text ts) @ r)"
    using Cons.prems by (simp add: split_word_rest coef_text_plain term_ok_def)
  finally show ?case using Cons by (simp add: terms_words_def)
qed (simp add: terms_words_def)

lemma plain_symbols: "plain ''>=''" "plain ''<=''" "plain ''=''" "plain '';''" "plain ''min:''"
  by (simp_all add: plain_def isspace_def)

lemma split_constraint:
  assumes "\<forall>t \<in> set ts. term_ok t" "rel \<in> {''>='', ''<='', ''=''}"
  shows "split_words (constraint_text (ts, rel, r)) = terms_words ts @ [rel, to_string r, '';'']"
proof -
  have "plain rel" using assms(2) plain_symbols by auto
  then have "split_words (rel @ CHR '' '' # (to_string r @ CHR '' '' # '';'')) = [rel, to_string r, '';'']"
    by (simp add: split_word_rest to_string_plain split_last_word plain_symbols)
  then show ?thesis using split_terms [OF assms(1)] by (simp add: constraint_text_def)
qed

lemma split_objective:
  assumes "\<forall>t \<in> set ts. term_ok t"
  shows "split_words (objective_text ts) = ''min:'' # terms_words ts @ ['';'']"
proof -
  have "split_words (''min:'' @ CHR '' '' # (concat (map term_text ts) @ '';'')) = ''min:'' # terms_words ts @ ['';'']"
    by (simp add: split_word_rest plain_symbols split_terms [OF assms] split_last_word del: append_Cons append_Nil)
  then show ?thesis by (simp add: objective_text_def)
qed

lemma read_coef: "term_ok t \<Longrightarrow> getMonomialOPB [coef_text (fst t), snd t] = Some (fst t, snd t, [])"
  by (auto simp: getMonomialOPB_def coef_text_def term_ok_def stoll_to_string stoi_to_string)

lemma coef_no_relation: "coef_text a \<notin> {''>='', ''<='', ''='', ''<'', ''>'', '';''}"
  by (simp add: coef_text_def)

section \<open>One variable per name\<close>

text \<open>The numbers of the names are positions in \<open>varNames\<close>; a known name keeps its number.\<close>

definition names_ok :: "parser \<Rightarrow> bool" where
  "names_ok ps \<longleftrightarrow> varNames ps \<noteq> [] \<and> (\<forall>s. variables ps s \<noteq> 0 \<longrightarrow>
     0 < variables ps s \<and> variables ps s < int (length (varNames ps)) \<and> varNames ps ! nat (variables ps s) = s)"

definition extends :: "parser \<Rightarrow> parser \<Rightarrow> bool" where
  "extends ps qs \<longleftrightarrow> (\<forall>s. variables ps s \<noteq> 0 \<longrightarrow> variables qs s = variables ps s)"

lemma extends_refl [simp]: "extends ps ps" by (simp add: extends_def)

lemma extends_trans: "extends ps qs \<Longrightarrow> extends qs rs \<Longrightarrow> extends ps rs"
  by (simp add: extends_def)

lemma extends_update [simp]:
  "extends (ps\<lparr>p_coeffs := x, p_varNums := y\<rparr>) qs = extends ps qs" "extends ps (qs\<lparr>p_coeffs := x, p_varNums := y\<rparr>) = extends ps qs"
  "names_ok (ps\<lparr>p_coeffs := x, p_varNums := y\<rparr>) = names_ok ps"
  by (simp_all add: extends_def names_ok_def)

lemma getVarNum_ok:
  assumes "names_ok ps" "getVarNum s ps = (n, qs)"
  shows "names_ok qs" "extends ps qs" "n = variables qs s" "0 < n" "p_coeffs qs = p_coeffs ps" "p_varNums qs = p_varNums ps"
proof -
  have lt: "variables ps t < 1 + int (length (varNames ps))" if "variables ps t \<noteq> 0" for t
    using assms(1) that by (simp add: names_ok_def less_trans [OF _ less_add_one [unfolded add.commute [of _ 1]]])
  show "names_ok qs" "extends ps qs" "n = variables qs s" "0 < n" "p_coeffs qs = p_coeffs ps" "p_varNums qs = p_varNums ps"
    using assms lt by (auto simp: getVarNum_def names_ok_def extends_def Let_def nth_append split: if_splits)
qed

lemma new_parser_ok: "names_ok new_parser"
  by (simp add: names_ok_def new_parser_def)

text \<open>All the names of some terms have numbers.\<close>

definition known :: "parser \<Rightarrow> named_term list \<Rightarrow> bool" where
  "known ps ts \<longleftrightarrow> (\<forall>t \<in> set ts. variables ps (snd t) \<noteq> 0)"

lemma known_extends: "known ps ts \<Longrightarrow> extends ps qs \<Longrightarrow> known qs ts \<and> map (\<lambda>t. variables qs (snd t)) ts = map (\<lambda>t. variables ps (snd t)) ts"
  by (auto simp: known_def extends_def)

section \<open>Reading terms and constraints\<close>

lemma read_terms_opb:
  assumes "names_ok ps" "\<forall>t \<in> set ts. term_ok t"
  obtains qs where "constraint_opb (terms_words ts @ rel # ws) (ps, p) = constraint_opb (rel # ws) (qs, p)"
    "names_ok qs" "extends ps qs" "known qs ts" "p_coeffs qs = p_coeffs ps @ map fst ts"
    "p_varNums qs = p_varNums ps @ map (\<lambda>t. variables qs (snd t)) ts"
  using assms
proof (induction ts arbitrary: ps thesis)
  case Nil
  then show ?case by (auto simp: terms_words_def known_def)
next
  case (Cons t ts)
  obtain n ps1 where n: "getVarNum (snd t) ps = (n, ps1)" by fastforce
  note g = getVarNum_ok [OF Cons.prems(2) n]
  let ?ps = "ps1\<lparr>p_coeffs := p_coeffs ps1 @ [fst t], p_varNums := p_varNums ps1 @ [n]\<rparr>"
  have t: "term_ok t" using Cons.prems(3) by simp
  have e: "constraint_opb (terms_words (t # ts) @ rel # ws) (ps, p) = constraint_opb (terms_words ts @ rel # ws) (?ps, p)"
    using t read_coef [OF t] coef_no_relation [of "fst t"] n by (simp add: terms_words_def term_ok_def Let_def)
  obtain qs where qs: "constraint_opb (terms_words ts @ rel # ws) (?ps, p) = constraint_opb (rel # ws) (qs, p)"
    "names_ok qs" "extends ?ps qs" "known qs ts" "p_coeffs qs = p_coeffs ?ps @ map fst ts"
    "p_varNums qs = p_varNums ?ps @ map (\<lambda>t. variables qs (snd t)) ts"
    using Cons.IH [of ?ps] Cons.prems(3) g(1) by auto
  have v: "variables qs (snd t) = n" using qs(3) g(3,4) by (auto simp: extends_def)
  show ?case
  proof (rule Cons.prems(1))
    show "extends ps qs" using extends_trans [OF g(2)] qs(3) by simp
    show "known qs (t # ts)" using qs(4) v g(4) by (simp add: known_def)
    show "p_coeffs qs = p_coeffs ps @ map fst (t # ts)" "p_varNums qs = p_varNums ps @ map (\<lambda>t. variables qs (snd t)) (t # ts)"
      using qs(5,6) g(5,6) v by simp_all
  qed (use e qs(1,2) in auto)
qed

text \<open>What a constraint of the text says of an assignment of the names.\<close>

definition named_value :: "(string \<Rightarrow> bool) \<Rightarrow> named_term list \<Rightarrow> int" where
  "named_value \<tau> ts = sum_list (map (\<lambda>t. if \<tau> (snd t) then fst t else 0) ts)"

definition named_holds :: "(string \<Rightarrow> bool) \<Rightarrow> named_term list \<times> string \<times> int \<Rightarrow> bool" where
  "named_holds \<tau> c = (case c of (ts, rel, r) \<Rightarrow>
     if rel = ''>='' then named_value \<tau> ts \<ge> r else if rel = ''<='' then named_value \<tau> ts \<le> r else named_value \<tau> ts = r)"

definition named_ok :: "named_term list \<times> string \<times> int \<Rightarrow> bool" where
  "named_ok c = (case c of (ts, rel, r) \<Rightarrow>
     (\<forall>t \<in> set ts. term_ok t) \<and> rel \<in> {''>='', ''<='', ''=''} \<and> INT_MIN \<le> r \<and> r \<le> INT_MAX
     \<and> (rel \<noteq> ''<='' \<longrightarrow> geq_fits (map fst ts) r True) \<and> (rel \<noteq> ''>='' \<longrightarrow> geq_fits (map fst ts) r False))"

lemma linear_named: "linear_value \<sigma> (map fst ts) (map (\<lambda>t. variables ps (snd t)) ts) = named_value (\<lambda>s. \<sigma> (variables ps s)) ts"
  by (induction ts) (simp_all add: linear_value_def named_value_def)

lemma geq_loop_vars:
  "geq_loop g ts cs ls r = (cs', ls', r') \<Longrightarrow> length cs = length ls \<Longrightarrow> \<forall>(a, v) \<in> set ts. 0 < v \<and> a \<noteq> 0 \<and> \<bar>a\<bar> \<le> INT_MAX \<Longrightarrow>
   mvars (zip cs' ls') = mvars (zip cs ls) @ map snd ts"
proof (induction g ts cs ls r rule: geq_loop.induct)
  case (2 g a v ts cs ls r)
  have "wrap 32 (- a) = - a" using "2.prems" by (simp add: wrap_int in_int_def abs_le_iff)
  with 2 show ?case by (auto simp: Let_def split: if_splits)
qed simp

lemma addConstraint_vars:
  assumes "\<forall>v \<in> set vs. 0 < v" "length coeffs = length vs" "0 \<notin> set coeffs" "coeffs_ok coeffs" "c \<in> set (constraints (addConstraint coeffs vs r g p))"
  shows "c \<in> set (constraints p) \<or> mvars (lhs c) = vs"
proof -
  obtain cs ls r' where loop: "geq_loop g (zip coeffs vs) [] [] (if \<not> g then wrap 32 (- r) else r) = (cs, ls, r')" by (metis prod_cases3)
  have "\<forall>(a, v) \<in> set (zip coeffs vs). 0 < v \<and> a \<noteq> 0 \<and> \<bar>a\<bar> \<le> INT_MAX"
    using assms(1,3,4) by (auto simp: coeffs_ok_def dest: set_zip_leftD set_zip_rightD)
  then have "mvars (zip cs ls) = vs" using geq_loop_vars [OF loop] assms(2) by (simp add: map_snd_zip)
  then show ?thesis using assms(5) by (auto simp: addConstraint_def loop WConstraint_vec_def split: if_splits)
qed

lemma line_constraint:
  assumes "names_ok ps" "wf_problem p" "p_coeffs ps = []" "p_varNums ps = []" "named_ok (ts, rel, r)"
  obtains qs q where "line_opb (constraint_text (ts, rel, r)) (ps, p) = Some (qs, q)" "names_ok qs" "extends ps qs" "known qs ts"
    "p_coeffs qs = []" "p_varNums qs = []" "wf_problem q" "minimizing q = minimizing p" "objCoeffs q = objCoeffs p" "objVars q = objVars p"
    "\<And>\<sigma>. sat_problem \<sigma> q \<longleftrightarrow> sat_problem \<sigma> p \<and> named_holds (\<lambda>s. \<sigma> (variables qs s)) (ts, rel, r)"
    "\<And>c. c \<in> set (constraints q) \<Longrightarrow> c \<in> set (constraints p) \<or> mvars (lhs c) = map (\<lambda>t. variables qs (snd t)) ts"
proof -
  have ok: "\<forall>t \<in> set ts. term_ok t" and rel: "rel \<in> {''>='', ''<='', ''=''}" and r: "INT_MIN \<le> r" "r \<le> INT_MAX"
    and fits: "rel \<noteq> ''<='' \<Longrightarrow> geq_fits (map fst ts) r True" "rel \<noteq> ''>='' \<Longrightarrow> geq_fits (map fst ts) r False"
    using assms(5) by (auto simp: named_ok_def)
  obtain q1 where q1: "constraint_opb (terms_words ts @ rel # [to_string r, '';'']) (ps, p) = constraint_opb (rel # [to_string r, '';'']) (q1, p)"
    "names_ok q1" "extends ps q1" "known q1 ts" "p_coeffs q1 = map fst ts" "p_varNums q1 = map (\<lambda>t. variables q1 (snd t)) ts"
    using read_terms_opb [OF assms(1) ok, where rel = rel and ws = "[to_string r, '';'']" and p = p] assms(3,4) by auto
  define Q where "Q = finish_opb rel r (q1, p)"
  obtain qs q where Q: "Q = (qs, q)" by fastforce
  have run: "constraint_opb (rel # [to_string r, '';'']) (q1, p) = Some (qs, q)"
    using rel r by (auto simp: stoi_to_string Q_def [symmetric] Q)
  have words: "split_words (constraint_text (ts, rel, r)) = terms_words ts @ [rel, to_string r, '';'']" by (rule split_constraint [OF ok rel])
  have first: "\<exists>w ws. terms_words ts @ [rel, to_string r, '';''] = w # ws \<and> w \<noteq> ''min:'' \<and> w \<noteq> ''max:''"
    using rel by (cases ts) (auto simp: terms_words_def coef_text_def)
  have hd: "constraint_text (ts, rel, r) \<noteq> []" "hd (constraint_text (ts, rel, r)) \<noteq> CHR ''*''" "hd (constraint_text (ts, rel, r)) \<noteq> CHR 0x5C"
    using rel by (cases ts; auto simp: constraint_text_def term_text_def coef_text_def)+
  have line: "line_opb (constraint_text (ts, rel, r)) (ps, p) = Some (qs, q)"
    using hd first run q1(1) by (auto simp: line_opb_def words)
  have pos: "\<forall>v \<in> set (p_varNums q1). 0 < v" using q1(2,4,6) by (auto simp: names_ok_def known_def)
  note add = addConstraint_correct [OF pos]
  have m: "minimizing (addConstraint a b c d e) = minimizing e" "objCoeffs (addConstraint a b c d e) = objCoeffs e" "objVars (addConstraint a b c d e) = objVars e" for a b c d e
    by (auto simp: addConstraint_def Let_def split: prod.splits)
  have qs: "qs = q1\<lparr>p_coeffs := [], p_varNums := []\<rparr>" using Q by (simp add: Q_def finish_opb_def)
  have lh: "linear_value \<sigma> (p_coeffs q1) (p_varNums q1) = named_value (\<lambda>s. \<sigma> (variables qs s)) ts" for \<sigma>
    unfolding q1(5,6) linear_named by (simp add: qs)
  have vars1: "c \<in> set (constraints p') \<or> mvars (lhs c) = p_varNums q1"
    if "c \<in> set (constraints (addConstraint (p_coeffs q1) (p_varNums q1) k g p'))" for c k g p'
  proof -
    have "0 \<notin> set (p_coeffs q1)" using ok by (force simp: q1(5) term_ok_def)
    moreover have "coeffs_ok (p_coeffs q1)" using fits by (cases "rel = ''<=''") (auto simp: q1(5) geq_fits_def)
    ultimately show ?thesis using addConstraint_vars [OF pos _ _ _ that] by (simp add: q1(5,6))
  qed
  then have vars: "c \<in> set (constraints q) \<Longrightarrow> c \<in> set (constraints p) \<or> mvars (lhs c) = p_varNums q1" for c
    using rel Q vars1 by (fastforce simp: Q_def finish_opb_def)
  have sat: "sat_problem \<sigma> q \<longleftrightarrow> sat_problem \<sigma> p \<and> named_holds (\<lambda>s. \<sigma> (variables qs s)) (ts, rel, r)" and wf: "wf_problem q"
    and keep: "minimizing q = minimizing p" "objCoeffs q = objCoeffs p" "objVars q = objVars p" for \<sigma>
  proof -
    consider "rel = ''>=''" "q = addConstraint (p_coeffs q1) (p_varNums q1) r True p"
      | "rel = ''<=''" "q = addConstraint (p_coeffs q1) (p_varNums q1) r False p"
      | "rel = ''=''" "q = addConstraint (p_coeffs q1) (p_varNums q1) r False (addConstraint (p_coeffs q1) (p_varNums q1) r True p)"
      using rel Q by (auto simp: Q_def finish_opb_def)
    then have "(sat_problem \<sigma> q \<longleftrightarrow> sat_problem \<sigma> p \<and> named_holds (\<lambda>s. \<sigma> (variables qs s)) (ts, rel, r)) \<and> wf_problem q"
    proof cases
      case 1
      then show ?thesis using add [OF assms(2) fits(1)] by (simp add: q1(5) [symmetric] named_holds_def linear_holds_def lh)
    next
      case 2
      then show ?thesis using add [OF assms(2) fits(2)] by (simp add: q1(5) [symmetric] named_holds_def linear_holds_def lh)
    next
      case 3
      have g: "geq_fits (p_coeffs q1) r True" "geq_fits (p_coeffs q1) r False" using fits 3(1) by (simp_all add: q1(5))
      note a1 = add [OF assms(2) g(1)]
      show ?thesis using a1 add [OF conjunct2 [OF a1] g(2)] 3 by (auto simp: named_holds_def linear_holds_def lh)
    qed
    moreover have "minimizing q = minimizing p \<and> objCoeffs q = objCoeffs p \<and> objVars q = objVars p"
      using rel Q by (auto simp: Q_def finish_opb_def m)
    ultimately
    show "sat_problem \<sigma> q \<longleftrightarrow> sat_problem \<sigma> p \<and> named_holds (\<lambda>s. \<sigma> (variables qs s)) (ts, rel, r)" "wf_problem q"
      "minimizing q = minimizing p" "objCoeffs q = objCoeffs p" "objVars q = objVars p" by blast+
  qed
  show ?thesis
    by (rule that [OF line]) (use q1(2-4,6) sat wf keep vars in \<open>auto simp: qs known_def\<close>)
qed

lemma holds_extends:
  "known qs (fst c) \<Longrightarrow> extends qs rs \<Longrightarrow> named_holds (\<lambda>s. \<sigma> (variables rs s)) c = named_holds (\<lambda>s. \<sigma> (variables qs s)) c"
proof -
  assume k: "known qs (fst c)" "extends qs rs"
  have "named_value (\<lambda>s. \<sigma> (variables rs s)) (fst c) = named_value (\<lambda>s. \<sigma> (variables qs s)) (fst c)"
    unfolding linear_named [symmetric] conjunct2 [OF known_extends [OF k]] ..
  then show ?thesis by (cases c) (simp add: named_holds_def)
qed

definition reads :: "parser \<Rightarrow> pbproblem \<Rightarrow> (named_term list \<times> string \<times> int) list \<Rightarrow> parser \<Rightarrow> pbproblem \<Rightarrow> bool" where
  "reads ps p cs qs q \<longleftrightarrow> names_ok qs \<and> extends ps qs \<and> (\<forall>c \<in> set cs. known qs (fst c)) \<and> wf_problem q
     \<and> minimizing q = minimizing p \<and> objCoeffs q = objCoeffs p \<and> objVars q = objVars p
     \<and> (\<forall>c \<in> set (constraints q). c \<in> set (constraints p) \<or> (\<exists>d \<in> set cs. mvars (lhs c) = map (\<lambda>t. variables qs (snd t)) (fst d)))
     \<and> (\<forall>\<sigma>. sat_problem \<sigma> q \<longleftrightarrow> sat_problem \<sigma> p \<and> (\<forall>c \<in> set cs. named_holds (\<lambda>s. \<sigma> (variables qs s)) c))"

lemma read_constraints:
  assumes "names_ok ps" "wf_problem p" "p_coeffs ps = []" "p_varNums ps = []" "\<forall>c \<in> set cs. named_ok c"
  shows "\<exists>qs q. read_lines line_opb (map constraint_text cs) (ps, p) = Some (qs, q) \<and> reads ps p cs qs q"
  using assms
proof (induction cs arbitrary: ps p)
  case Nil
  then show ?case by (simp add: reads_def)
next
  case (Cons c cs)
  obtain ts rel r where c: "c = (ts, rel, r)" by (cases c)
  have "named_ok (ts, rel, r)" using Cons.prems(5) c by simp
  from line_constraint [OF Cons.prems(1-4) this] obtain q1 p1 where q1: "line_opb (constraint_text c) (ps, p) = Some (q1, p1)" "names_ok q1" "extends ps q1" "known q1 ts"
    "p_coeffs q1 = []" "p_varNums q1 = []" "wf_problem p1" "minimizing p1 = minimizing p" "objCoeffs p1 = objCoeffs p" "objVars p1 = objVars p"
    "\<And>\<sigma>. sat_problem \<sigma> p1 \<longleftrightarrow> sat_problem \<sigma> p \<and> named_holds (\<lambda>s. \<sigma> (variables q1 s)) c"
    "\<And>d. d \<in> set (constraints p1) \<Longrightarrow> d \<in> set (constraints p) \<or> mvars (lhs d) = map (\<lambda>t. variables q1 (snd t)) ts"
    unfolding c by metis
  obtain qs q where q: "read_lines line_opb (map constraint_text cs) (q1, p1) = Some (qs, q)" "reads q1 p1 cs qs q"
    using Cons.IH [OF q1(2,7,5,6)] Cons.prems(5) by auto
  have e: "extends q1 qs" using q(2) by (simp add: reads_def)
  have k: "known q1 (fst c)" using q1(4) c by simp
  have "d \<in> set (constraints p) \<or> (\<exists>d' \<in> set (c # cs). mvars (lhs d) = map (\<lambda>t. variables qs (snd t)) (fst d'))" if "d \<in> set (constraints q)" for d
  proof -
    have "d \<in> set (constraints p1) \<or> (\<exists>d' \<in> set cs. mvars (lhs d) = map (\<lambda>t. variables qs (snd t)) (fst d'))"
      using q(2) that by (auto simp: reads_def)
    moreover have "map (\<lambda>t. variables q1 (snd t)) ts = map (\<lambda>t. variables qs (snd t)) (fst c)"
      using known_extends [OF q1(4) e] by (simp add: c)
    ultimately show ?thesis using q1(12) [of d] by auto
  qed
  then have "\<forall>d \<in> set (constraints q). d \<in> set (constraints p) \<or> (\<exists>d' \<in> set (c # cs). mvars (lhs d) = map (\<lambda>t. variables qs (snd t)) (fst d'))" by blast
  then have "reads ps p (c # cs) qs q"
    using q(2) q1(3,8-11) holds_extends [OF k e] known_extends [OF k e] extends_trans [OF q1(3) e] by (auto simp: reads_def)
  then show ?case using q1(1) q(1) by simp
qed

lemma read_objective:
  assumes "names_ok ps" "\<forall>t \<in> set ts. term_ok t" "ts \<noteq> []"
  obtains qs where "objective_opb (terms_words ts @ ['';'']) (ps, p) =
      Some (qs, p\<lparr>objCoeffs := objCoeffs p @ map fst ts, objVars := objVars p @ map (\<lambda>t. variables qs (snd t)) ts\<rparr>)"
    "names_ok qs" "extends ps qs" "known qs ts" "p_coeffs qs = p_coeffs ps" "p_varNums qs = p_varNums ps"
  using assms
proof (induction ts arbitrary: ps p thesis)
  case (Cons t ts)
  obtain n ps1 where n: "getVarNum (snd t) ps = (n, ps1)" by fastforce
  note g = getVarNum_ok [OF Cons.prems(2) n]
  have t: "term_ok t" using Cons.prems(3) by simp
  let ?p = "p\<lparr>objCoeffs := objCoeffs p @ [fst t], objVars := objVars p @ [n]\<rparr>"
  have e: "objective_opb (terms_words (t # ts) @ ['';'']) (ps, p) =
      (if ts = [] then Some (ps1, ?p) else objective_opb (terms_words ts @ ['';'']) (ps1, ?p))"
    using read_coef [OF t] n coef_no_relation by (cases ts) (simp_all add: terms_words_def Let_def)
  show ?case
  proof (cases "ts = []")
    case True
    then show ?thesis using Cons.prems(1) [of ps1] e g by (simp add: known_def)
  next
    case False
    obtain qs where qs: "objective_opb (terms_words ts @ ['';'']) (ps1, ?p) =
        Some (qs, ?p\<lparr>objCoeffs := objCoeffs ?p @ map fst ts, objVars := objVars ?p @ map (\<lambda>t. variables qs (snd t)) ts\<rparr>)"
      "names_ok qs" "extends ps1 qs" "known qs ts" "p_coeffs qs = p_coeffs ps1" "p_varNums qs = p_varNums ps1"
      using Cons.IH [of ps1 ?p] Cons.prems(3) g(1) False by auto
    have v: "variables qs (snd t) = n" using qs(3) g(3,4) by (auto simp: extends_def)
    show ?thesis
    proof (rule Cons.prems(1))
      show "extends ps qs" using extends_trans [OF g(2) qs(3)] .
      show "known qs (t # ts)" using qs(4) v g(4) by (simp add: known_def)
    qed (use e qs g v False in auto)
  qed
qed simp

lemma line_objective:
  assumes "\<forall>t \<in> set ts. term_ok t"
  shows "line_opb (objective_text ts) (ps, p) = objective_opb (terms_words ts @ ['';'']) (ps, p\<lparr>minimizing := True\<rparr>)"
  using split_objective [OF assms] by (simp add: line_opb_def objective_text_def)

lemma readOPB_reads:
  assumes "obj \<noteq> []" "\<forall>t \<in> set obj. term_ok t" "\<forall>c \<in> set cs. named_ok c"
  obtains ps p q1 p1 where "readOPB m (objective_text obj # map constraint_text cs) new_parser = Some (ps, p)" "reads q1 p1 cs ps p"
    "minimizing p" "objCoeffs p = map fst obj" "objVars p = map (\<lambda>t. variables ps (snd t)) obj" "known ps obj"
    "constraints p1 = []"
proof -
  let ?p0 = "(new_problem m)\<lparr>minimizing := True\<rparr>"
  obtain q1 where q1: "objective_opb (terms_words obj @ ['';'']) (new_parser, ?p0) =
      Some (q1, ?p0\<lparr>objCoeffs := objCoeffs ?p0 @ map fst obj, objVars := objVars ?p0 @ map (\<lambda>t. variables q1 (snd t)) obj\<rparr>)"
    "names_ok q1" "known q1 obj" "p_coeffs q1 = []" "p_varNums q1 = []"
    by (rule read_objective [OF new_parser_ok assms(2,1), where p = ?p0]) (auto simp: new_parser_def)
  define p1 where "p1 = ?p0\<lparr>objCoeffs := objCoeffs ?p0 @ map fst obj, objVars := objVars ?p0 @ map (\<lambda>t. variables q1 (snd t)) obj\<rparr>"
  have p1: "wf_problem p1" "minimizing p1" "objCoeffs p1 = map fst obj" "objVars p1 = map (\<lambda>t. variables q1 (snd t)) obj" "constraints p1 = []"
    by (simp_all add: p1_def new_problem_def wf_problem_def)
  obtain ps p where r: "read_lines line_opb (map constraint_text cs) (q1, p1) = Some (ps, p)" "reads q1 p1 cs ps p"
    using read_constraints [OF q1(2) p1(1) q1(4,5) assms(3)] by blast
  have e: "extends q1 ps" "names_ok ps" using r(2) by (simp_all add: reads_def)
  have "readOPB m (objective_text obj # map constraint_text cs) new_parser = Some (ps, p)"
    using r(1) q1(1) by (simp add: readOPB_def line_objective [OF assms(2)] p1_def)
  then show ?thesis
    by (rule that) (use r(2) p1 known_extends [OF q1(3) e(1)] in \<open>auto simp: reads_def\<close>)
qed

text \<open>
  C25: Reading an OPB file. The text of a problem, an objective to minimise over at least one term and
  constraints with the three relations, is read without an error; every name gets a variable of its
  own, the objective is the one written, and the assignments that satisfy the problem read are exactly
  those that satisfy every constraint written.
\<close>

theorem readOPB_correct:
  assumes "obj \<noteq> []" "\<forall>t \<in> set obj. term_ok t" "\<forall>c \<in> set cs. named_ok c"
  shows "\<exists>ps p. readOPB m (objective_text obj # map constraint_text cs) new_parser = Some (ps, p)
    \<and> (\<forall>s s'. variables ps s = variables ps s' \<and> variables ps s \<noteq> 0 \<longrightarrow> s = s')
    \<and> minimizing p \<and> objCoeffs p = map fst obj \<and> objVars p = map (\<lambda>t. string2Var (snd t) ps) obj
    \<and> (\<forall>\<sigma>. sat_problem \<sigma> p \<longleftrightarrow> (\<forall>c \<in> set cs. named_holds (\<lambda>s. \<sigma> (string2Var s ps)) c))"
proof -
  obtain ps p q1 p1 where r: "readOPB m (objective_text obj # map constraint_text cs) new_parser = Some (ps, p)" "reads q1 p1 cs ps p"
    "minimizing p" "objCoeffs p = map fst obj" "objVars p = map (\<lambda>t. variables ps (snd t)) obj" "constraints p1 = []"
    using readOPB_reads [OF assms, of m] by metis
  have "s = s'" if "variables ps s = variables ps s'" "variables ps s \<noteq> 0" for s s'
    using r(2) that unfolding reads_def names_ok_def by metis
  moreover have "sat_problem \<sigma> p1" for \<sigma> by (simp add: sat_problem_def r(6))
  ultimately show ?thesis using r by (auto simp: reads_def string2Var_def)
qed

theorem readOPB_correct_witness:
  "\<exists>ps p. readOPB False [''min: +3 x1 -2 b ;'', ''+1 b -4 x1 >= -3 ;''] new_parser = Some (ps, p) \<and> objCoeffs p = [3, -2]
     \<and> (\<forall>\<sigma>. sat_problem \<sigma> p \<longleftrightarrow> named_holds (\<lambda>s. \<sigma> (string2Var s ps)) ([(1, ''b''), (-4, ''x1'')], ''>='', -3))"
proof -
  have t: "objective_text [(3, ''x1''), (-2, ''b'')] = ''min: +3 x1 -2 b ;''" "constraint_text ([(1, ''b''), (-4, ''x1'')], ''>='', -3) = ''+1 b -4 x1 >= -3 ;''"
    by code_simp+
  have "plain ''x1''" "plain ''b''" by code_simp+
  then show ?thesis
    using readOPB_correct [of "[(3, ''x1''), (-2, ''b'')]" "[([(1, ''b''), (-4, ''x1'')], ''>='', -3)]" False]
    by (simp add: t term_ok_def named_ok_def geq_fits_def coeffs_ok_def in_int_def) blast
qed

section \<open>The converter\<close>

definition clause_constraint :: "lit list \<Rightarrow> named_term list \<times> string \<times> int" where
  "clause_constraint ls =
     (map (\<lambda>l. (if l > 0 then 1 else -1, ''x'' @ to_string \<bar>l\<bar>)) ls, ''>='', 1 - int (length (filter (\<lambda>l. \<not> l > 0) ls)))"

lemma clause_text_constraint: "clause_text ls = constraint_text (clause_constraint ls)"
proof -
  have one: "to_string 1 = ''1''" by code_simp
  have "concat (map literal_text ls) = concat (map term_text (fst (clause_constraint ls)))"
    by (induction ls) (simp_all add: clause_constraint_def literal_text_def term_text_def coef_text_def one)
  then show ?thesis by (simp add: clause_text_def constraint_text_def clause_constraint_def)
qed

lemma clause_constraint_ok: "length ls < 2 ^ 31 \<Longrightarrow> named_ok (clause_constraint ls)"
proof -
  assume "length ls < 2 ^ 31"
  then have "length ls < 2147483648" by simp
  then have "length (filter (\<lambda>l. \<not> l > 0) ls) \<le> 2147483647" using length_filter_le [of "\<lambda>l. \<not> l > 0" ls] by linarith
  moreover have "flipped_sum True (map (\<lambda>l. if l > 0 then 1 else -1) ls) = int (length (filter (\<lambda>l. \<not> l > 0) ls))"
    by (induction ls) auto
  moreover have "\<not> isspace CHR ''x''" by (simp add: isspace_def)
  then have "plain (''x'' @ to_string i)" for i using to_string_plain [of i] by (simp add: plain_def)
  ultimately show ?thesis by (auto simp: named_ok_def clause_constraint_def term_ok_def geq_fits_def coeffs_ok_def in_int_def o_def)
qed

lemma clause_constraint_holds:
  assumes "0 \<notin> set ls"
  shows "named_holds (\<lambda>s. \<sigma> (variables ps s)) (clause_constraint ls) \<longleftrightarrow>
    (\<exists>l \<in> set ls. lit_true (\<lambda>v. \<sigma> (variables ps (''x'' @ to_string v))) l)"
proof -
  let ?\<tau> = "\<lambda>s. \<sigma> (variables ps s)" and ?t = "lit_true (\<lambda>v. \<sigma> (variables ps (''x'' @ to_string v)))"
  have "named_value ?\<tau> (fst (clause_constraint ls)) + int (length (filter (\<lambda>l. \<not> l > 0) ls)) = int (length (filter ?t ls))"
    using assms
  proof (induction ls)
    case (Cons l ls)
    then show ?case by (cases "l > 0") (auto simp: clause_constraint_def named_value_def lit_true_def)
  qed (simp add: clause_constraint_def named_value_def)
  moreover have "named_holds ?\<tau> (clause_constraint ls) \<longleftrightarrow> 1 - int (length (filter (\<lambda>l. \<not> l > 0) ls)) \<le> named_value ?\<tau> (fst (clause_constraint ls))"
    by (simp add: named_holds_def clause_constraint_def)
  moreover have "1 - b \<le> a \<longleftrightarrow> 0 < c" if "a + b = c" for a b c :: int using that by linarith
  ultimately have "named_holds ?\<tau> (clause_constraint ls) \<longleftrightarrow> 0 < int (length (filter ?t ls))" by metis
  then show ?thesis by (auto simp: filter_empty_conv)
qed

text \<open>
  C26: The converter. The OPB text it writes for a list of clauses is read without an error, as a
  decision problem over the names \<open>x1\<close>, \<open>x2\<close> and so on, each with a variable of its own, and an
  assignment satisfies it exactly when the assignment of the names satisfies the clauses.
\<close>

theorem converter_correct:
  assumes "\<forall>ls \<in> set clauses. 0 \<notin> set ls \<and> length ls < 2 ^ 31"
  shows "\<exists>ps p. readOPB m (writePB clauses) new_parser = Some (ps, p) \<and> objCoeffs p = []
    \<and> (\<forall>s s'. variables ps s = variables ps s' \<and> variables ps s \<noteq> 0 \<longrightarrow> s = s')
    \<and> (\<forall>\<sigma>. sat_problem \<sigma> p \<longleftrightarrow> sat_cnf (\<lambda>v. \<sigma> (string2Var (''x'' @ to_string v) ps)) clauses)"
proof -
  let ?cs = "map clause_constraint clauses"
  have ok: "\<forall>c \<in> set ?cs. named_ok c" using assms clause_constraint_ok by auto
  obtain ps p where r: "read_lines line_opb (map constraint_text ?cs) (new_parser, new_problem m) = Some (ps, p)" "reads new_parser (new_problem m) ?cs ps p"
    using read_constraints [OF new_parser_ok _ _ _ ok, of "new_problem m"] by (auto simp: wf_problem_def new_problem_def new_parser_def)
  have "readOPB m (writePB clauses) new_parser = Some (ps, p)"
    using r(1) by (simp add: readOPB_def writePB_def clause_text_constraint [abs_def] o_def)
  moreover have "s = s'" if "variables ps s = variables ps s'" "variables ps s \<noteq> 0" for s s'
    using r(2) that unfolding reads_def names_ok_def by metis
  moreover have "sat_problem \<sigma> p \<longleftrightarrow> sat_cnf (\<lambda>v. \<sigma> (string2Var (''x'' @ to_string v) ps)) clauses" for \<sigma>
    using r(2) clause_constraint_holds [of _ \<sigma> ps] assms
    by (simp add: reads_def sat_cnf_def string2Var_def) (simp add: sat_problem_def new_problem_def)
  ultimately show ?thesis using r(2) by (auto simp: reads_def new_problem_def)
qed

theorem converter_correct_witness:
  "\<exists>ps p. readOPB False [''+1 x1 -1 x3 >= 0 ;'', ''-1 x1 >= 0 ;''] new_parser = Some (ps, p)
     \<and> (\<forall>\<sigma>. sat_problem \<sigma> p \<longleftrightarrow> sat_cnf (\<lambda>v. \<sigma> (string2Var (''x'' @ to_string v) ps)) [[1, -3], [-1]])"
proof -
  have "writePB [[1, -3], [-1]] = [''+1 x1 -1 x3 >= 0 ;'', ''-1 x1 >= 0 ;'']" by code_simp
  then show ?thesis using converter_correct [of "[[1, -3], [-1]]" False] by auto
qed

section \<open>CNF files\<close>

definition clause_line :: "lit list \<Rightarrow> string" where
  "clause_line ls = concat (map (\<lambda>l. to_string l @ '' '') ls) @ ''0''"

definition cnf_text :: "string list \<Rightarrow> int \<Rightarrow> lit list list \<Rightarrow> string list" where
  "cnf_text comments nVars clauses =
     map (\<lambda>s. CHR ''c'' # s) comments @ (''p cnf '' @ to_string nVars @ '' '' @ to_string (int (length clauses))) # map clause_line clauses"

lemma scan_to_string_rest:
  assumes "r = [] \<or> \<not> isdigit (hd r)"
  shows "scan_int (to_string i @ r) = Some (i, r)"
proof -
  have d: "takeWhile isdigit (nat_to_string n @ r) = nat_to_string n" "dropWhile isdigit (nat_to_string n @ r) = r" for n
    using nat_to_string_plain(2) [of n] assms by (cases r; auto simp: takeWhile_tail dropWhile_append)+
  have h: "nat_to_string n \<noteq> []" "hd (nat_to_string n) \<noteq> CHR ''-''" "hd (nat_to_string n) \<noteq> CHR ''+''" "dropWhile isspace (nat_to_string n @ r) = nat_to_string n @ r" for n
  proof -
    show ne: "nat_to_string n \<noteq> []" by (rule nat_to_string_nonempty)
    then have "isdigit (hd (nat_to_string n)) \<and> \<not> isspace (hd (nat_to_string n))" using nat_to_string_plain [of n] by (auto simp: plain_def)
    then show "hd (nat_to_string n) \<noteq> CHR ''-''" "hd (nat_to_string n) \<noteq> CHR ''+''" "dropWhile isspace (nat_to_string n @ r) = nat_to_string n @ r"
      using sign_chars ne by (auto, cases "nat_to_string n") auto
  qed
  show ?thesis
    by (cases "i < 0") (simp_all add: scan_int_def to_string_def Let_def sign_chars d h digits_value_nat)
qed

lemma blank_chars: "isspace CHR '' ''" "isspace CHR 0x0A" "\<not> isdigit CHR '' ''" "\<not> isdigit CHR 0x0A"
  by (simp_all add: isspace_def isdigit_def)

lemma scan_blank: "isspace c \<Longrightarrow> scan_int (c # s) = scan_int s"
  by (simp add: scan_int_def)

lemma read_int_rest:
  assumes "INT_MIN \<le> i" "i \<le> INT_MAX" "isspace c" "\<not> isdigit c"
  shows "read_ints (to_string i @ c # r) = i # read_ints r"
proof -
  have "read_ints (c # r) = read_ints r" using scan_blank [OF assms(3)] by (subst (1 2) read_ints.simps) simp
  then show ?thesis using scan_to_string_rest [of "c # r" i] assms(1,2,4) by (subst read_ints.simps) simp
qed

definition lit_ok :: "lit \<Rightarrow> bool" where "lit_ok l \<longleftrightarrow> l \<noteq> 0 \<and> INT_MIN \<le> l \<and> l \<le> INT_MAX"

lemma read_clause_lines:
  assumes "\<forall>ls \<in> set clauses. \<forall>l \<in> set ls. lit_ok l"
  shows "read_ints (concat (map (\<lambda>l. l @ [CHR 0x0A]) (map clause_line clauses))) = concat (map (\<lambda>ls. ls @ [0]) clauses)"
  using assms
proof (induction clauses)
  case Nil
  show ?case by (subst read_ints.simps) (simp add: scan_int_def)
next
  case (Cons ls clauses)
  have z: "''0'' = to_string 0" by code_simp
  have "read_ints (concat (map (\<lambda>l. to_string l @ '' '') ls) @ ''0'' @ CHR 0x0A # r) = ls @ 0 # read_ints r" if "\<forall>l \<in> set ls. lit_ok l" for ls r
    using that
  proof (induction ls)
    case Nil
    then show ?case using read_int_rest [of 0 "CHR 0x0A" r] blank_chars by (simp add: z)
  next
    case (Cons l ls)
    then show ?case using read_int_rest [of l "CHR '' ''"] blank_chars by (simp add: lit_ok_def)
  qed
  then show ?case using Cons by (simp add: clause_line_def)
qed

lemma clause_loop_lines: "\<forall>ls \<in> set clauses. 0 \<notin> set ls \<Longrightarrow> clause_loop (concat (map (\<lambda>ls. ls @ [0]) clauses)) [] = clauses"
proof (induction clauses)
  case (Cons ls clauses)
  have "0 \<notin> set ls \<Longrightarrow> clause_loop (ls @ 0 # r) acc = (acc @ ls) # clause_loop r []" for acc r
    by (induction ls arbitrary: acc) auto
  then show ?case using Cons by simp
qed simp

lemma formula_clauses_lines: "\<forall>ls \<in> set clauses. 0 \<notin> set ls \<Longrightarrow> formula_clauses (length clauses) (concat (map (\<lambda>ls. ls @ [0]) clauses)) = clauses"
proof (induction clauses)
  case (Cons ls clauses)
  have "takeWhile (\<lambda>l. l \<noteq> 0) (ls @ 0 # r) = ls" "dropWhile (\<lambda>l. l \<noteq> 0) (ls @ 0 # r) = 0 # r" for r :: "int list"
    using Cons.prems by (auto simp: takeWhile_tail dropWhile_append)
  then show ?case using Cons by simp
qed simp

lemma header_words:
  "next_word (''p cnf '' @ r) = (''p'', '' cnf '' @ r)" "next_word ('' cnf '' @ r) = (''cnf'', CHR '' '' # r)"
  by (simp_all add: next_word_def isspace_def Let_def)

lemma read_cnf_text:
  assumes "0 < nVars" "nVars \<le> INT_MAX" "int (length clauses) \<le> INT_MAX" "\<forall>ls \<in> set clauses. \<forall>l \<in> set ls. lit_ok l"
  shows "read_cnf_file (cnf_text comments nVars clauses) = Some (nVars, clauses)
    \<and> read_formula (cnf_text comments nVars clauses) = Some (nVars, clauses)"
proof -
  let ?h = "''p cnf '' @ to_string nVars @ '' '' @ to_string (int (length clauses))"
  have nz: "\<forall>ls \<in> set clauses. 0 \<notin> set ls" using assms(4) by (auto simp: lit_ok_def)
  have s1: "scan_int (CHR '' '' # to_string nVars @ '' '' @ to_string (int (length clauses))) = Some (nVars, '' '' @ to_string (int (length clauses)))"
    using scan_to_string_rest [of "'' '' @ to_string (int (length clauses))" nVars] blank_chars by (simp add: scan_blank)
  have s2: "scan_int ('' '' @ to_string (int (length clauses))) = Some (int (length clauses), [])"
    using scan_to_string by (simp add: scan_blank blank_chars)
  have "cnf_header (map (\<lambda>s. CHR ''c'' # s) comments @ ?h # map clause_line clauses) = Some (nVars, map clause_line clauses)"
    using header_words s1 assms(1,2) by (induction comments) (simp_all add: stream_int_def)
  moreover have "formula_header (map (\<lambda>s. CHR ''c'' # s) comments @ ?h # map clause_line clauses) = (?h, map clause_line clauses)"
    by (induction comments) simp_all
  ultimately show ?thesis
    using assms(1-3) header_words s1 s2 read_clause_lines [OF assms(4)] clause_loop_lines [OF nz] formula_clauses_lines [OF nz]
    by (simp add: read_cnf_file_def read_formula_def cnf_text_def stream_int_def)
qed

text \<open>
  CNF files. A file with comments in front, a header and one clause to a line is read by the
  driver and by the converter as exactly its number of variables and its clauses.
\<close>

theorem cnf_roundtrip:
  assumes "0 < nVars" "nVars \<le> INT_MAX" "int (length clauses) \<le> INT_MAX" "\<forall>ls \<in> set clauses. \<forall>l \<in> set ls. lit_ok l"
  shows "read_cnf_file (cnf_text comments nVars clauses) = Some (nVars, clauses)
    \<and> read_formula (cnf_text comments nVars clauses) = Some (nVars, clauses)"
  using read_cnf_text [OF assms] .

theorem cnf_roundtrip_witness:
  "read_cnf_file [''c a comment'', ''p cnf 3 2'', ''1 -3 0'', ''-1 0''] = Some (3, [[1, -3], [-1]])"
proof -
  have "cnf_text ['' a comment''] 3 [[1, -3], [-1]] = [''c a comment'', ''p cnf 3 2'', ''1 -3 0'', ''-1 0'']" by code_simp
  then show ?thesis using cnf_roundtrip [of 3 "[[1, -3], [-1]]" "['' a comment'']"] by (simp add: lit_ok_def)
qed

end
