(* ===== verification/Driver.thy ===== *)
theory Driver
  imports NativeReport InputSound
begin

text \<open>
  The main programs: \<open>main\<close> of \<open>src/src/cubePB.cpp\<close> up to the point where a process becomes the master
  or a worker, with its options, the choice of the solver and what it prints at the end; \<open>main.cpp\<close>, the
  sequential program; and the readers of strategy and decision files (\<open>src/src/Strategy.h\<close>). Files are
  a partial function from names to lines. A \<open>double\<close> is read by a parameter.
\<close>

section \<open>The distributed program\<close>

datatype solver_kind = Native | RoundingSAT | CaDiCaL

text \<open>\<open>None\<close> is the result \<open>false\<close>.\<close>

fun parse_args :: "string list \<Rightarrow> solver_kind \<Rightarrow> solver_kind option" where
  "parse_args [] kind = Some kind"
| "parse_args (arg # args) kind =
     (if arg = ''--solver=roundingsat'' then parse_args args RoundingSAT
      else if arg = ''--solver=native'' then parse_args args Native
      else if arg = ''--solver=cadical'' then parse_args args CaDiCaL
      else None)"

definition has_suffix :: "string \<Rightarrow> string \<Rightarrow> bool" where
  "has_suffix suf s \<longleftrightarrow> length suf \<le> length s \<and> drop (length s - length suf) s = suf"

record loaded_input =
  ld_problem :: pbproblem
  ld_parser :: parser
  ld_sat :: bool
  ld_optimizing :: bool
  ld_cnf_nVars :: int
  ld_clauses :: "lit list list"

text \<open>How a start of the program ends: it goes on, returns 1 with a message, or dies on the way.\<close>

datatype 'r start = Started 'r | Refused | Died

definition load_problem :: "solver_kind \<Rightarrow> (string \<Rightarrow> string list option) \<Rightarrow> bool \<Rightarrow> string \<Rightarrow> loaded_input start" where
  "load_problem kind files m filename =
     (let with_pb = (\<lambda>reader. case files filename of
            None \<Rightarrow> Died
          | Some lines \<Rightarrow> (case reader m lines new_parser of
              None \<Rightarrow> Died
            | Some (ps, p) \<Rightarrow> Started \<lparr>ld_problem = p, ld_parser = ps, ld_sat = False, ld_optimizing = True, ld_cnf_nVars = 0, ld_clauses = []\<rparr>)) in
      if has_suffix ''.opb'' filename then with_pb readOPB
      else if has_suffix ''.lp'' filename then with_pb readLP
      else if has_suffix ''.cnf'' filename
      then (case Option.bind (files filename) read_cnf_file of
              None \<Rightarrow> Refused
            | Some (n, cls) \<Rightarrow> Started
                \<lparr>ld_problem = (if kind \<noteq> CaDiCaL then cnf_to_pb_problem cls else new_problem m), ld_parser = new_parser,
                 ld_sat = True, ld_optimizing = False, ld_cnf_nVars = n, ld_clauses = cls\<rparr>)
      else Refused)"

definition validate_config :: "solver_kind \<Rightarrow> bool \<Rightarrow> bool \<Rightarrow> pbproblem \<Rightarrow> bool" where
  "validate_config kind is_sat optimizing problem \<longleftrightarrow>
     \<not> (kind = CaDiCaL \<and> \<not> is_sat) \<and> \<not> (optimizing \<and> \<not> minimizing problem)"

text \<open>
  The weights of the objective variables. \<open>low_ratio k n\<close> is the comparison of the quotient of the two
  numbers, a \<open>double\<close>, with 0.3.
\<close>

fun objective_weights :: "int \<Rightarrow> (var \<times> int) list \<Rightarrow> objective_priority \<times> int \<Rightarrow> objective_priority \<times> int" where
  "objective_weights nVars [] X = X"
| "objective_weights nVars ((v, a) # ts) (P, numUniqueObjVars) =
     (if 1 \<le> v \<and> v \<le> nVars
      then objective_weights nVars ts
             (P\<lparr>is_objective_var := (is_objective_var P)(v := True),
                objective_weight := (objective_weight P)(v := objective_weight P v + \<bar>a\<bar>),
                total_objective_weight := total_objective_weight P + \<bar>a\<bar>\<rparr>,
              if is_objective_var P v then numUniqueObjVars else numUniqueObjVars + 1)
      else objective_weights nVars ts (P, numUniqueObjVars))"

definition no_priority :: objective_priority where
  "no_priority = \<lparr>use_objective_priority = False, is_objective_var = (\<lambda>_. False), objective_weight = (\<lambda>_. 0), total_objective_weight = 0\<rparr>"

definition init_objective_priority :: "(int \<Rightarrow> int \<Rightarrow> bool) \<Rightarrow> bool \<Rightarrow> int \<Rightarrow> pbproblem \<Rightarrow> objective_priority" where
  "init_objective_priority low_ratio optimizing nVars problem =
     (let (P, numUniqueObjVars) = objective_weights nVars (zip (objVars problem) (objCoeffs problem)) (no_priority, 0)
      in P\<lparr>use_objective_priority := optimizing \<and> numUniqueObjVars \<le> 1000 \<and> (nVars > 0 \<longrightarrow> low_ratio numUniqueObjVars nVars)\<rparr>)"

record configuration =
  cf_kind :: solver_kind
  cf_input :: loaded_input
  cf_optimizing :: bool
  cf_nVars :: int
  cf_num_cube_workers :: int
  cf_best_cost :: int
  cf_priority :: objective_priority

definition configure :: "(int \<Rightarrow> int \<Rightarrow> bool) \<Rightarrow> (string \<Rightarrow> string list option) \<Rightarrow> bool \<Rightarrow> string list \<Rightarrow> nat \<Rightarrow> configuration start" where
  "configure low_ratio files m argv num_processes =
     (if length argv < 2 \<or> num_processes < 2 then Refused
      else case parse_args (drop 2 argv) Native of
             None \<Rightarrow> Refused
           | Some kind \<Rightarrow> (case load_problem kind files m (argv ! 1) of
               Refused \<Rightarrow> Refused
             | Died \<Rightarrow> Died
             | Started ld \<Rightarrow>
                 (let problem = ld_problem ld;
                      optimizing = (if \<not> ld_sat ld then objCoeffs problem \<noteq> [] else ld_optimizing ld);
                      nVars = (if ld_sat ld then ld_cnf_nVars ld else Parser_numVars (ld_parser ld))
                  in if \<not> validate_config kind (ld_sat ld) optimizing problem then Refused
                     else Started \<lparr>cf_kind = kind, cf_input = ld, cf_optimizing = optimizing, cf_nVars = nVars,
                        cf_num_cube_workers = max 0 (int num_processes - int first_cube_worker),
                        cf_best_cost = (if minimizing problem then INT_MAX else INT_MIN),
                        cf_priority = (if optimizing then init_objective_priority low_ratio optimizing nVars problem else no_priority)\<rparr>)))"

text \<open>\<open>create_solver\<close>: which backend; \<open>None\<close> is the exception.\<close>

definition create_solver :: "solver_kind \<Rightarrow> bool \<Rightarrow> solver_kind option" where
  "create_solver kind is_sat = (if kind = CaDiCaL \<and> \<not> is_sat then None else Some kind)"

definition get_var_name :: "parser \<Rightarrow> int \<Rightarrow> bool \<Rightarrow> string" where
  "get_var_name ps varNum is_sat = (if is_sat then ''x'' @ to_string varNum else var2string varNum ps)"

section \<open>What the master prints\<close>

definition bound_str :: "int \<Rightarrow> bool \<Rightarrow> string" where
  "bound_str v is_lower =
     (if is_lower then if v = INT_MIN then ''-inf'' else to_string v else if v = INT_MAX then ''+inf'' else to_string v)"

definition worker_interval :: "nat \<Rightarrow> master \<Rightarrow> string" where
  "worker_interval w s =
     (let lb = max (lb_of_worker s ! w) (global_lower_bound s); ub = ub_of_worker s ! w;
          ub = (if global_has_best_cost s then min ub (global_best_cost s) else ub)
      in ''['' @ bound_str lb True @ '', '' @ bound_str ub False @ '']'')"

definition value_text :: "int list \<Rightarrow> parser \<Rightarrow> bool \<Rightarrow> int \<Rightarrow> string" where
  "value_text sol ps is_sat v =
     (let val = (if nat v < length sol then sol ! nat v else 0) in
      if is_sat then '' '' @ to_string (if val \<noteq> 0 then v else - v)
      else let name = var2string v ps in '' '' @ (if name = [] then ''x'' @ to_string v else name) @ ''='' @ to_string val)"

definition print_solution :: "int list \<Rightarrow> int \<Rightarrow> parser \<Rightarrow> bool \<Rightarrow> bool \<Rightarrow> int \<Rightarrow> string list" where
  "print_solution sol nVars ps is_sat optimizing best =
     (if sol = [] \<or> nVars \<le> 0 then []
      else [replicate 56 (CHR ''-'')] @ (if optimizing then [''o '' @ to_string best] else [])
         @ [''v'' @ concat (map (value_text sol ps is_sat) [1..nVars]) @ (if is_sat then '' 0'' else [])] @ [replicate 56 (CHR ''-'')])"

section \<open>Strategy and decision files\<close>

text \<open>
  \<open>read\<close>: pairs of a name and a value. \<open>None\<close> is \<open>exit\<close>; a value that is not a number is not modelled
  beyond what the readers return, nor one that is followed by something else in the same word. The fields set from the parameters by the constructor keep their values.
\<close>

fun read_strategy :: "(string \<Rightarrow> 'a) \<Rightarrow> string list \<Rightarrow> 'a strategy \<Rightarrow> 'a strategy option" where
  "read_strategy dbl [] st = Some st"
| "read_strategy dbl [token] st = None"
| "read_strategy dbl (token # x # ws) st =
     (let n = stream_int x in
      case (if token = ''INITIAL_SCORE_BONUS'' then Some (st\<lparr>INITIAL_SCORE_BONUS := dbl x\<rparr>)
            else if token = ''SCORE_BONUS_INFLATION_FACTOR'' then Some (st\<lparr>SCORE_BONUS_INFLATION_FACTOR := dbl x\<rparr>)
            else if token = ''ONE_RANDOM_DECISION_OUT_OF'' then Some (st\<lparr>ONE_RANDOM_DECISION_OUT_OF := n\<rparr>)
            else if token = ''NUM_CONFLICTS_CLOSE_TO_SOLUTION'' then Some (st\<lparr>NUM_CONFLICTS_CLOSE_TO_SOLUTION := n\<rparr>)
            else if token = ''NUM_CONFLICTS_CLOSE_TO_INITIAL_SOLUTION'' then Some (st\<lparr>NUM_CONFLICTS_CLOSE_TO_INITIAL_SOLUTION := n\<rparr>)
            else if token = ''USE_LUBY'' then Some (st\<lparr>USE_LUBY := (n \<noteq> 0)\<rparr>)
            else if token = ''NO_RESTARTS_BELOW_THIS_DL'' then Some (st\<lparr>NO_RESTARTS_BELOW_THIS_DL := n\<rparr>)
            else if token = ''INITIAL_INNER_RESTART_BOUND'' then Some (st\<lparr>INITIAL_INNER_RESTART_BOUND := n\<rparr>)
            else if token = ''INNER_RESTART_BOUND_INFLATION_FACTOR'' then Some (st\<lparr>INNER_RESTART_BOUND_INFLATION_FACTOR := dbl x\<rparr>)
            else if token = ''OUTER_RESTART_BOUND_INFLATION_FACTOR'' then Some (st\<lparr>OUTER_RESTART_BOUND_INFLATION_FACTOR := dbl x\<rparr>)
            else if token = ''LUBY_MULTIPLIER'' then Some (st\<lparr>LUBY_MULTIPLIER := n\<rparr>)
            else if token = ''INITIAL_NUM_OF_NEW_CONSTRAINTS_FOR_NEXT_CLEANUP'' then Some (st\<lparr>INITIAL_NUM_OF_NEW_CONSTRAINTS_FOR_NEXT_CLEANUP := n\<rparr>)
            else if token = ''CONSTRAINTS_FOR_CLEANUP_INFLATION_FACTOR'' then Some (st\<lparr>CONSTRAINTS_FOR_CLEANUP_INFLATION_FACTOR := dbl x\<rparr>)
            else if token = ''ACTIVITY_BONUS_FOR_PBS'' then Some (st\<lparr>ACTIVITY_BONUS_FOR_PBS := n\<rparr>)
            else if token = ''ACTIVITY_BONUS_FOR_CARDS'' then Some (st\<lparr>ACTIVITY_BONUS_FOR_CARDS := n\<rparr>)
            else if token = ''ACTIVITY_BONUS_FOR_CLAUSES'' then Some (st\<lparr>ACTIVITY_BONUS_FOR_CLAUSES := n\<rparr>)
            else if token = ''NEW_CONSTRAINT_ACTIVITY'' then Some (st\<lparr>NEW_CONSTRAINT_ACTIVITY := n\<rparr>)
            else if token = ''SAT_CONFLICT_ANALYSIS'' then Some (st\<lparr>SAT_CONFLICT_ANALYSIS := (n \<noteq> 0)\<rparr>)
            else None) of
        None \<Rightarrow> None
      | Some st \<Rightarrow> read_strategy dbl ws st)"

definition polarity_of_word :: "string \<Rightarrow> DecPolarity option" where
  "polarity_of_word w =
     (if w = ''obj'' then Some OBJECTIVE else if w = ''pos'' then Some POSITIVE else if w = ''neg'' then Some NEGATIVE
      else if w = ''lastSol'' then Some LAST_SOLUTION else if w = ''lastPha'' then Some LAST_PHASE
      else if w = ''initialSol'' then Some INITIAL_SOLUTION else if w = ''rand'' then Some RANDOM else None)"

text \<open>
  \<open>in >> fact\<close>: the number at the front of the next word; what is left of the word is the next one. A
  stream whose read fails gives nothing more, which is the stream without words.
\<close>

fun read_factor :: "string list \<Rightarrow> int \<Rightarrow> int \<times> string list" where
  "read_factor [] fac = (fac, [])"
| "read_factor (w # ws) fac =
     (case scan_int w of
        None \<Rightarrow> (0, [])
      | Some (n, r) \<Rightarrow>
          if INT_MIN \<le> n \<and> n \<le> INT_MAX then (n, if r = [] then ws else r # ws) else (stream_int w, []))"

text \<open>
  The body of \<open>readPolarityAndFactor\<close>, with what its three variables hold at the end: the polarities up
  to \<open>#\<close>, the factor behind it, and the stream.
\<close>

fun polarity_and_factor :: "string list \<Rightarrow> DecPolarity list \<Rightarrow> int \<Rightarrow> (DecPolarity list \<times> int \<times> string list) option" where
  "polarity_and_factor [] pols fac = (let (fac, ws) = read_factor [] fac in Some (pols, fac, ws))"
| "polarity_and_factor (w # ws) pols fac =
     (if w = ''#'' then let (fac, ws) = read_factor ws fac in Some (pols, fac, ws)
      else case polarity_of_word w of None \<Rightarrow> None | Some p \<Rightarrow> polarity_and_factor ws (pols @ [p]) fac)"

text \<open>
  The call: the stream and the polarities are passed by reference, the factor is passed by value. The
  body reads into its own copy, and the variable of the caller is what it was.
\<close>

definition readPolarityAndFactor :: "string list \<Rightarrow> DecPolarity list \<Rightarrow> int \<Rightarrow> (DecPolarity list \<times> int \<times> string list) option" where
  "readPolarityAndFactor ws polarity multFactor =
     (case polarity_and_factor ws polarity multFactor of
        None \<Rightarrow> None
      | Some (pols, fac, ws') \<Rightarrow> Some (pols, multFactor, ws'))"

lemma read_factor_length: "read_factor ws k = (k', ws') \<Longrightarrow> length ws' \<le> length ws"
  by (cases ws) (auto split: option.splits if_splits)

lemma polarity_and_factor_length: "polarity_and_factor ws pols k = Some (pols', k', ws') \<Longrightarrow> length ws' \<le> length ws"
  by (induction ws pols k rule: polarity_and_factor.induct)
     (auto split: if_splits option.splits prod.splits dest: read_factor_length)

lemma readPolarity_length: "readPolarityAndFactor ws pols k = Some (pols', k', ws') \<Longrightarrow> length ws' \<le> length ws"
  by (auto simp: readPolarityAndFactor_def split: option.splits dest: polarity_and_factor_length)

function decision_loop :: "(string \<Rightarrow> var option) \<Rightarrow> string list \<Rightarrow> DecPolarity list \<Rightarrow> int \<Rightarrow> 'a strategy \<Rightarrow> 'a strategy option" where
  "decision_loop var_of [] polarity multFactor st = Some st"
| "decision_loop var_of (nVar # ws) polarity multFactor st =
     (case var_of nVar of
        None \<Rightarrow> (case readPolarityAndFactor ws polarity multFactor of
           None \<Rightarrow> None | Some (polarity, multFactor, ws) \<Rightarrow> decision_loop var_of ws polarity multFactor st)
      | Some numVar \<Rightarrow> (case readPolarityAndFactor ws [] multFactor of
           None \<Rightarrow> None
         | Some (polarity, multFactor, ws) \<Rightarrow> decision_loop var_of ws polarity multFactor
             (st\<lparr>decisionPolarities := (decisionPolarities st)(numVar := polarity),
                 multFactorInDecisionIncrease := (multFactorInDecisionIncrease st)(numVar := multFactor)\<rparr>)))"
  by pat_completeness auto
termination by (relation "measure (\<lambda>(v, ws, p, k, st). length ws)") (auto dest: readPolarity_length)

definition readDecisionStrategy :: "(string \<Rightarrow> var option) \<Rightarrow> string list \<Rightarrow> 'a strategy \<Rightarrow> 'a strategy option" where
  "readDecisionStrategy var_of words st =
     (case readPolarityAndFactor (drop 1 words) [] 1 of
        None \<Rightarrow> None
      | Some (polarity, multFactor, ws) \<Rightarrow> decision_loop var_of ws polarity multFactor
          (st\<lparr>decisionPolarities := (\<lambda>_. polarity), multFactorInDecisionIncrease := (\<lambda>_. multFactor)\<rparr>))"

text \<open>\<open>readInitialSolution\<close>: variable, a word, value, a word; an unknown name goes to variable 0.
  A value is a whole word.\<close>

fun readInitialSolution :: "(string \<Rightarrow> var) \<Rightarrow> string list \<Rightarrow> (var \<Rightarrow> int) \<Rightarrow> var \<Rightarrow> int" where
  "readInitialSolution var_of (name # w1 # v # w2 # ws) sol =
     (case scan_int v of None \<Rightarrow> sol | Some _ \<Rightarrow> readInitialSolution var_of ws (sol(var_of name := stream_int v)))"
| "readInitialSolution var_of _ sol = sol"

section \<open>The sequential program\<close>

text \<open>\<open>inputReadCommandLineArg\<close>: the word behind \<open>-name\<close> or \<open>--name\<close>.\<close>

fun inputReadCommandLineArg :: "string list \<Rightarrow> string \<Rightarrow> string option" where
  "inputReadCommandLineArg [] name = None"
| "inputReadCommandLineArg (a # args) name =
     (if take 1 a \<noteq> ''-'' then inputReadCommandLineArg args name
      else let argName = (if take 2 a = ''--'' then drop 2 a else drop 1 a) in
           if argName = name
           then (if name = ''help'' then Some argName else if args = [] then None else Some (hd args))
           else inputReadCommandLineArg (drop 1 args) name)"

definition sequential_problem :: "(string \<Rightarrow> string list option) \<Rightarrow> bool \<Rightarrow> string \<Rightarrow> (parser \<times> pbproblem) option" where
  "sequential_problem files m filename =
     (if has_suffix ''.lp'' filename then Option.bind (files filename) (\<lambda>ls. readLP m ls new_parser)
      else if has_suffix ''.opb'' filename then Option.bind (files filename) (\<lambda>ls. readOPB m ls new_parser)
      else None)"

text \<open>
  \<open>main\<close> of \<open>main.cpp\<close> up to \<open>solve\<close>, and the call with the callbacks the program leaves in place.
  It never sets \<open>import_external_constraints\<close>; what that pointer does is part of the callbacks.
\<close>

definition sequential_main :: "'a float_ops \<Rightarrow> ('a, 'e) callbacks \<Rightarrow> (nat \<Rightarrow> int) \<Rightarrow> (int \<Rightarrow> lbd_act list \<Rightarrow> lbd_act list)
    \<Rightarrow> (string \<Rightarrow> string list option) \<Rightarrow> bool \<Rightarrow> string list \<Rightarrow> 'e \<Rightarrow> (('a::linorder) search \<times> 'e) control option" where
  "sequential_main F C rnd shuffle files m args e =
     (case (if args = [] then None else sequential_problem files m (last args)) of
        None \<Rightarrow> Some Exit
      | Some (ps, problem) \<Rightarrow>
          (let tlimit = (case inputReadCommandLineArg args ''tlimit'' of None \<Rightarrow> 0 | Some a \<Rightarrow> stream_int a) in
           case Native_addBaseProblem problem (new_search F (Parser_numVars ps)) of
             None \<Rightarrow> Some Exit
           | Some s \<Rightarrow> solve F C rnd shuffle tlimit s e))"

section \<open>Looking ahead with the size of the formula\<close>

text \<open>\<open>pickBestLit\<close> and \<open>cube_conquer\<close> of \<open>main.cpp\<close>; the call to the latter is commented out.\<close>

definition try_lit :: "lit \<Rightarrow> int \<times> lit \<Rightarrow> ('a::linorder) solver \<Rightarrow> ((int \<times> lit) \<times> 'a solver) option" where
  "try_lit l best v = (case assumeAndPropagate l v of
     None \<Rightarrow> None
   | Some (ok, v) \<Rightarrow>
       (let s = reducedFormulaSize v in
        Some (if ok \<and> s < fst best then (s, l) else best, backtrack 1 v)))"

fun pick_loop :: "var list \<Rightarrow> int \<times> lit \<Rightarrow> ('a::linorder) solver \<Rightarrow> ((int \<times> lit) \<times> 'a solver) option" where
  "pick_loop [] best v = Some (best, v)"
| "pick_loop (x # xs) best v =
     (if Solver_isUndefLit x v
      then case try_lit x best v of
             None \<Rightarrow> None
           | Some (best, v) \<Rightarrow> (case try_lit (- x) best v of None \<Rightarrow> None | Some (best, v) \<Rightarrow> pick_loop xs best v)
      else pick_loop xs best v)"

definition pickBestLit :: "('a::linorder) solver \<Rightarrow> (lit \<times> 'a solver) option" where
  "pickBestLit v = map_option (\<lambda>(best, v). (snd best, v)) (pick_loop [1..numVars v] (reducedFormulaSize v, 0) v)"

partial_function (option) cube_conquer_loop :: "lit \<Rightarrow> ('a::linorder) solver \<Rightarrow> 'a solver option" where
  "cube_conquer_loop l v =
     (if l = 0 then Some v
      else case assumeAndPropagate l v of
             None \<Rightarrow> None
           | Some (ok, v) \<Rightarrow> (case pickBestLit v of None \<Rightarrow> None | Some (l, v) \<Rightarrow> cube_conquer_loop l v))"

definition cube_conquer :: "('a::linorder) solver \<Rightarrow> 'a solver option" where
  "cube_conquer v = (case pickBestLit v of None \<Rightarrow> None | Some (l, v) \<Rightarrow> cube_conquer_loop l v)"

section \<open>What the driver guarantees\<close>

text \<open>
  C38: The configurations that start are those the rest can handle: the backend is constructed without an
  exception, and an optimisation is a minimisation with an objective. There is a master with at least one
  worker, the incumbent starts at the value no solution has, and a CNF file gives the native and the
  RoundingSat backends the constraints of its clauses.
\<close>

theorem configure_supported:
  assumes "configure low_ratio files m argv num_processes = Started c"
  shows "create_solver (cf_kind c) (ld_sat (cf_input c)) = Some (cf_kind c) \<and> 2 \<le> num_processes
    \<and> (cf_optimizing c \<longrightarrow> minimizing (ld_problem (cf_input c)) \<and> objCoeffs (ld_problem (cf_input c)) \<noteq> [] \<and> cf_best_cost c = INT_MAX)
    \<and> (ld_sat (cf_input c) \<longrightarrow> 0 < cf_nVars c \<and> \<not> cf_optimizing c
         \<and> (cf_kind c \<noteq> CaDiCaL \<longrightarrow> ld_problem (cf_input c) = cnf_to_pb_problem (ld_clauses (cf_input c))))"
proof -
  obtain kind ld where n: "2 \<le> num_processes" and ld: "load_problem kind files m (argv ! 1) = Started ld"
    and valid: "validate_config kind (ld_sat ld) (cf_optimizing c) (ld_problem ld)"
    and c: "cf_kind c = kind" "cf_input c = ld" "cf_optimizing c = (if \<not> ld_sat ld then objCoeffs (ld_problem ld) \<noteq> [] else ld_optimizing ld)"
      "cf_nVars c = (if ld_sat ld then ld_cnf_nVars ld else Parser_numVars (ld_parser ld))"
      "cf_best_cost c = (if minimizing (ld_problem ld) then INT_MAX else INT_MIN)"
    using assms by (auto simp: configure_def Let_def split: if_splits option.splits start.splits)
  have cnf: "\<not> ld_optimizing ld \<and> 0 < ld_cnf_nVars ld \<and> (kind \<noteq> CaDiCaL \<longrightarrow> ld_problem ld = cnf_to_pb_problem (ld_clauses ld))" if "ld_sat ld"
    using ld that by (auto simp: load_problem_def Let_def read_cnf_file_def split: if_splits option.splits bind_splits)
  show ?thesis using n valid c cnf by (auto simp: validate_config_def create_solver_def)
qed

theorem configure_supported_witness:
  "\<exists>c. configure (\<lambda>a b. True) [''a.opb'' \<mapsto> [''min: +3 x1 -2 b ;'', ''+1 b -4 x1 >= -3 ;'']] False [''cubePB'', ''a.opb'', ''--solver=roundingsat''] 4 = Started c
     \<and> cf_kind c = RoundingSAT \<and> minimizing (ld_problem (cf_input c))"
proof -
  let ?start = "configure (\<lambda>a b. True) [''a.opb'' \<mapsto> [''min: +3 x1 -2 b ;'', ''+1 b -4 x1 >= -3 ;'']] False [''cubePB'', ''a.opb'', ''--solver=roundingsat''] 4"
  have "case ?start of Started c \<Rightarrow> cf_kind c = RoundingSAT \<and> cf_optimizing c | _ \<Rightarrow> False" by code_simp
  then obtain c where "?start = Started c" "cf_kind c = RoundingSAT" "cf_optimizing c" by (auto split: start.splits)
  then show ?thesis using configure_supported [of _ _ _ _ _ c] by blast
qed

lemma read_values:
  assumes "\<forall>i \<in> set is. INT_MIN \<le> i \<and> i \<le> INT_MAX"
  shows "read_ints (concat (map (\<lambda>i. '' '' @ to_string i) is) @ '' 0'') = is @ [0]"
  using assms
proof (induction "is")
  case Nil
  have "read_ints '' 0'' = [0]" by code_simp
  then show ?case by simp
next
  case (Cons i "is")
  obtain r where r: "concat (map (\<lambda>i. '' '' @ to_string i) is) @ '' 0'' = CHR '' '' # r" by (cases "is") auto
  have "read_ints (CHR '' '' # to_string i @ CHR '' '' # r) = i # read_ints r"
    using read_int_rest [of i "CHR '' ''" r] Cons.prems blank_chars scan_blank by (subst read_ints.simps) (simp add: read_ints.simps [of "to_string i @ CHR '' '' # r"])
  moreover have "read_ints r = is @ [0]"
    using Cons r scan_blank [of "CHR '' ''" r] blank_chars read_ints.simps [of "CHR '' '' # r"] read_ints.simps [of r] by simp
  ultimately show ?case using r by simp
qed

text \<open>
  C39: The answer for a CNF file. The \<open>v\<close> line the master prints, read back as numbers, is one literal per
  variable in their order, the one the solution makes true, and a final zero.
\<close>

theorem printed_answer_reads_back:
  assumes "sol \<noteq> []" "0 < nVars" "nVars \<le> INT_MAX"
  shows "\<exists>t. CHR ''v'' # t \<in> set (print_solution sol nVars ps True False best)
    \<and> read_ints t = map (\<lambda>v. if nat v < length sol \<and> sol ! nat v \<noteq> 0 then v else - v) [1..nVars] @ [0]"
proof -
  let ?ls = "map (\<lambda>v. if nat v < length sol \<and> sol ! nat v \<noteq> 0 then v else - v) [1..nVars]"
  have e: "map (value_text sol ps True) [1..nVars] = map (\<lambda>i. '' '' @ to_string i) ?ls" by (simp add: value_text_def)
  have "\<forall>i \<in> set ?ls. INT_MIN \<le> i \<and> i \<le> INT_MAX" using assms(3) by auto
  then have r: "read_ints (concat (map (value_text sol ps True) [1..nVars]) @ '' 0'') = ?ls @ [0]"
    unfolding e by (rule read_values)
  show ?thesis
    by (rule exI [of _ "concat (map (value_text sol ps True) [1..nVars]) @ '' 0''"]) (use assms(1,2) r in \<open>simp add: print_solution_def\<close>)
qed

theorem printed_answer_reads_back_witness:
  "\<exists>t. CHR ''v'' # t \<in> set (print_solution [0, 1, 0, 1] 3 new_parser True False 0) \<and> read_ints t = [1, -2, 3, 0]"
  using printed_answer_reads_back [of "[0, 1, 0, 1]" 3 new_parser 0] by (simp add: upto.simps)

section \<open>What a decision file sets\<close>

text \<open>The words of a decision file: names, polarities and factors.\<close>

definition polarity_words :: "(DecPolarity \<times> string) list" where
  "polarity_words = [(OBJECTIVE, ''obj''), (POSITIVE, ''pos''), (NEGATIVE, ''neg''), (LAST_SOLUTION, ''lastSol''),
     (LAST_PHASE, ''lastPha''), (INITIAL_SOLUTION, ''initialSol''), (RANDOM, ''rand'')]"

type_synonym decision_entry = "string \<times> DecPolarity list \<times> int"

definition entry_words :: "decision_entry \<Rightarrow> string list" where
  "entry_words = (\<lambda>(name, pols, k). name # map (\<lambda>p. the (map_of polarity_words p)) pols @ [''#'', to_string k])"

definition entry_ok :: "decision_entry \<Rightarrow> bool" where
  "entry_ok = (\<lambda>(name, pols, k). INT_MIN \<le> k \<and> k \<le> INT_MAX \<and> set pols \<subseteq> fst ` set polarity_words)"

lemma readPolarity_entry:
  assumes "entry_ok (name, pols, k)"
  shows "readPolarityAndFactor (tl (entry_words (name, pols, k)) @ ws) acc m = Some (acc @ pols, m, ws)"
proof -
  have "set pols \<subseteq> fst ` set polarity_words" "INT_MIN \<le> k" "k \<le> INT_MAX" using assms by (auto simp: entry_ok_def)
  then have "polarity_and_factor (map (\<lambda>p. the (map_of polarity_words p)) pols @ ''#'' # to_string k # ws) acc m = Some (acc @ pols, k, ws)"
    by (induction pols arbitrary: acc) (auto simp: polarity_words_def polarity_of_word_def scan_to_string)
  then show ?thesis by (simp add: readPolarityAndFactor_def entry_words_def)
qed

lemma decision_loop_entries:
  assumes "\<forall>e \<in> set es. entry_ok e"
  shows "decision_loop var_of (concat (map entry_words es)) pols m (st :: 'a strategy) = Some
    (st\<lparr>decisionPolarities := fold (\<lambda>(name, ps, k) f. case var_of name of None \<Rightarrow> f | Some v \<Rightarrow> f(v := ps)) es (decisionPolarities st),
        multFactorInDecisionIncrease := fold (\<lambda>(name, ps, k) f. case var_of name of None \<Rightarrow> f | Some v \<Rightarrow> f(v := m)) es (multFactorInDecisionIncrease st)\<rparr>)"
  using assms
proof (induction es arbitrary: pols st)
  case (Cons e es)
  obtain name ps k where e: "e = (name, ps, k)" by (metis prod_cases3)
  have r: "readPolarityAndFactor (tl (entry_words e) @ concat (map entry_words es)) acc m = Some (acc @ ps, m, concat (map entry_words es))" for acc
    using readPolarity_entry [of name ps k] Cons.prems e by simp
  have w: "concat (map entry_words (e # es)) = name # (tl (entry_words e) @ concat (map entry_words es))" by (simp add: e entry_words_def)
  show ?case unfolding w using Cons r by (simp add: e split: option.splits)
qed simp

lemma fold_same_value: "f = (\<lambda>_. m) \<Longrightarrow> fold (\<lambda>(name, ps, k) f. case var_of name of None \<Rightarrow> f | Some v \<Rightarrow> f(v := m)) es f = (\<lambda>_. m)"
  by (induction es arbitrary: f) (auto simp: fun_upd_idem split: option.splits)

text \<open>
  C40: Reading a decision file. A file of entries, the first of them the default, gives each declared
  variable the polarities of its last entry and every other variable those of the default; entries
  of unknown names are skipped. The factors of the file are lost: since \<open>readPolarityAndFactor\<close>
  gets the factor by value, every variable has the factor 1, whatever the entries say.
\<close>

theorem decision_file_read:
  assumes "entry_ok (''default'', pols, k)" "\<forall>e \<in> set es. entry_ok e"
  shows "readDecisionStrategy var_of (concat (map entry_words ((''default'', pols, k) # es))) (st :: 'a strategy) = Some
    (st\<lparr>decisionPolarities := fold (\<lambda>(name, ps, k) f. case var_of name of None \<Rightarrow> f | Some v \<Rightarrow> f(v := ps)) es (\<lambda>_. pols),
        multFactorInDecisionIncrease := (\<lambda>_. 1)\<rparr>)"
proof -
  have "drop 1 (concat (map entry_words ((''default'', pols, k) # es))) = tl (entry_words (''default'', pols, k)) @ concat (map entry_words es)"
    by (simp add: entry_words_def)
  then show ?thesis
    using readPolarity_entry [OF assms(1), of "concat (map entry_words es)" "[]" 1] decision_loop_entries [OF assms(2), of var_of pols 1 "st\<lparr>decisionPolarities := (\<lambda>_. pols), multFactorInDecisionIncrease := (\<lambda>_. 1)\<rparr>"]
    by (simp add: readDecisionStrategy_def fold_same_value [OF refl])
qed

theorem decision_file_read_witness:
  "\<exists>st'. readDecisionStrategy [''x1'' \<mapsto> 1] [''default'', ''obj'', ''#'', ''1'', ''x1'', ''neg'', ''#'', ''5''] (new_strategy nat_floats) = Some st'
     \<and> decisionPolarities st' 1 = [NEGATIVE] \<and> decisionPolarities st' 2 = [OBJECTIVE] \<and> multFactorInDecisionIncrease st' 1 = 1"
proof -
  have "entry_ok (''default'', [OBJECTIVE], 1)" "\<forall>e \<in> set [(''x1'', [NEGATIVE], 5)]. entry_ok e"
    by (simp_all add: entry_ok_def polarity_words_def)
  note r = decision_file_read [OF this, of "[''x1'' \<mapsto> 1]" "new_strategy nat_floats"]
  have "concat (map entry_words [(''default'', [OBJECTIVE], 1), (''x1'', [NEGATIVE], 5)]) = [''default'', ''obj'', ''#'', ''1'', ''x1'', ''neg'', ''#'', ''5'']"
    by code_simp
  with r show ?thesis by simp
qed

end
