(* ===== verification/Loading.thy ===== *)
theory Loading
  imports Driver
begin

text \<open>
  From the text of a problem to the database of the native solver: \<open>readOPB\<close> (\<open>src/src/Parser.cpp\<close>)
  composed with \<open>NativeBackend::addBaseProblem\<close> (\<open>src/src/NativeBackend.cpp\<close>). A constraint in which no
  name is written twice is only permuted by the normalisation, so that neither of the two ways in which
  it can go wrong on repeated variables is met.
\<close>

section \<open>Normalising constraints without repeated variables\<close>

lemma dup_loop_distinct:
  "sorted_wrt (<) (mvars ms) \<Longrightarrow> pos_coeffs ms \<Longrightarrow> nonzero_lits ms \<Longrightarrow> dup_loop ms L r = (L @ ms, r)"
proof (induction ms arbitrary: L)
  case (Cons m ms)
  obtain a l where m: "m = (a, l)" by fastforce
  have "dup_block \<bar>l\<bar> p n ms = (p, n, ms)" for p n
    using Cons.prems(1) by (cases ms; cases "hd ms") (auto simp: m)
  then show ?case using Cons by (auto simp: m pos_coeffs_def nonzero_lits_def Let_def)
qed simp

lemma normalize_distinct_vars:
  assumes "distinct (mvars (lhs c))" "pos_coeffs (lhs c)" "nonzero_lits (lhs c)"
  shows "rhs (normalize c) = rhs c" "mset (lhs (normalize c)) = mset (lhs c)"
proof -
  let ?s = "sortByIncreasingVariable c"
  have m: "mset (lhs ?s) = mset (lhs c)" by (simp add: sortByIncreasingVariable_def inc_var.permutes)
  have "sorted (mvars (lhs ?s))" using inc_var.ordered [of "lhs c"] by (simp add: sortByIncreasingVariable_def mvars_def)
  moreover have "distinct (mvars (lhs ?s))" using assms(1) by (simp add: sortByIncreasingVariable_def inc_var.mvars_srt)
  ultimately have "sorted_wrt (<) (mvars (lhs ?s))" by (simp add: strict_sorted_iff)
  moreover have "pos_coeffs (lhs ?s)" "nonzero_lits (lhs ?s)" using assms(2,3) by (simp_all add: sortByIncreasingVariable_def inc_var.pos_coeffs_srt inc_var.nonzero_lits_srt)
  ultimately have "removeDuplicates ?s = ?s" by (simp add: removeDuplicates_def dup_loop_distinct)
  then show "rhs (normalize c) = rhs c" "mset (lhs (normalize c)) = mset (lhs c)"
    using m by (simp_all add: normalize_def sortByDecreasingCoefficient_def dec_coef.permutes) (simp add: sortByIncreasingVariable_def)
qed

lemma distinct_good_input:
  assumes "distinct (mvars (lhs c))" "pos_coeffs (lhs c)" "nonzero_lits (lhs c)" "lhs c \<noteq> []" "1 \<le> rhs c" "\<forall>v \<in> set (mvars (lhs c)). v \<le> n"
  shows "good_input n c"
proof -
  note n = normalize_distinct_vars [OF assms(1-3)]
  have "lhs (normalize c) \<noteq> []" using n(2) assms(4) by auto
  then show ?thesis using assms n(1) by (auto simp: good_input_def set_mvars)
qed

section \<open>From text to database\<close>






lemma clause_constraint_good:
  assumes "ls \<noteq> []" "distinct (map abs ls)" "\<forall>l \<in> set ls. l \<noteq> 0 \<and> \<bar>l\<bar> \<le> n"
  shows "good_input n (cnf_clause_constraint ls)"
proof -
  let ?c = "WConstraint_vec (map (\<lambda>_. 1) ls) ls 1"
  have c: "lhs ?c = map (Pair 1) ls" "rhs ?c = 1" by (rule unit_coeffs)+
  have w: "distinct (mvars (lhs ?c))" "pos_coeffs (lhs ?c)" "nonzero_lits (lhs ?c)"
    using assms(2,3) by (auto simp: c mvars_def pos_coeffs_def nonzero_lits_def o_def)
  note n = normalize_distinct_vars [OF w]
  have s: "set (lhs (normalize ?c)) = set (lhs ?c)" using n(2) by (rule mset_eq_setD)
  show ?thesis unfolding cnf_clause_constraint_def
  proof (rule distinct_good_input)
    show "distinct (mvars (lhs (normalize ?c)))" "pos_coeffs (lhs (normalize ?c))" "nonzero_lits (lhs (normalize ?c))"
      using normalize_facts [OF w(2,3)] by blast+
    show "lhs (normalize ?c) \<noteq> []" using n(2) assms(1) by (auto simp: c)
    show "\<forall>v \<in> set (mvars (lhs (normalize ?c))). v \<le> n" using assms(3) by (auto simp: set_mvars s c)
  qed (simp add: n(1) c)
qed

lemma cnf_loop_fields:
  "objCoeffs (cnf_loop cls p) = objCoeffs p" "minimizing (cnf_loop cls p) = minimizing p" "objVars (cnf_loop cls p) = objVars p"
  by (induction cls p rule: cnf_loop.induct) auto

text \<open>
  C6: From the text of a CNF to the database. A CNF file in which no clause is empty or has a variable
  twice and all the literals are in range is read, turned into constraints and loaded into a new native
  backend without an error, as a decision problem; the database has exactly the models of the CNF.
\<close>

theorem cnf_text_loaded:
  assumes "0 < nVars" "nVars \<le> INT_MAX" "int (length cnf) \<le> INT_MAX"
    "\<forall>ls \<in> set cnf. ls \<noteq> [] \<and> distinct (map abs ls) \<and> (\<forall>l \<in> set ls. l \<noteq> 0 \<and> \<bar>l\<bar> \<le> nVars)"
  shows "\<exists>n cls s. read_cnf_file (cnf_text comments nVars cnf) = Some (n, cls)
    \<and> Native_addBaseProblem (cnf_to_pb_problem cls) (NativeBackend_new F n) = Some s
    \<and> solver_inv (sv s) \<and> numVars (sv s) = nVars \<and> feasibility s \<and> (\<forall>\<sigma>. db_sat \<sigma> (sv s) \<longleftrightarrow> sat_cnf \<sigma> cnf)"
proof -
  have "\<forall>ls \<in> set cnf. \<forall>l \<in> set ls. lit_ok l" using assms(2,4) by (force simp: lit_ok_def abs_le_iff)
  then have r: "read_cnf_file (cnf_text comments nVars cnf) = Some (nVars, cnf)" using read_cnf_text [OF assms(1-3)] by simp
  let ?p = "cnf_to_pb_problem cnf"
  define s0 where "s0 = NativeBackend_new F nVars"
  have s0: "sv s0 = new_solver (f_of_int F 1) nVars" "feasibility s0" by (simp_all add: s0_def NativeBackend_new_def new_search_def)
  have p: "constraints ?p = map cnf_clause_constraint cnf" "objCoeffs ?p = []" "minimizing ?p" "objVars ?p = []"
    by (simp_all add: cnf_to_pb_problem_def cnf_loop_constraints cnf_loop_fields)
  have "\<forall>c \<in> set (constraints ?p). good_input (numVars (sv s0)) c"
    using clause_constraint_good assms(4) by (auto simp: p s0 new_solver_def)
  from addLearned_loaded [OF _ this] obtain v where v: "Native_addLearnedConstraints (constraints ?p) (sv s0) = Some v"
    "loaded (sv s0) (\<lambda>\<sigma>. \<forall>c \<in> set (constraints ?p). sat \<sigma> c) v"
    using new_load_inv [of "f_of_int F 1" nVars] unfolding s0(1) by blast
  have inv: "solver_inv v" "numVars v = nVars" using v(2) by (auto simp: loaded_def load_inv_def s0 new_solver_def)
  have "\<forall>ls \<in> set cnf. 0 \<notin> set ls" using assms(4) by auto
  then have sat: "db_sat \<sigma> v \<longleftrightarrow> sat_cnf \<sigma> cnf" for \<sigma>
    using v(2) cnf_clause_constraint_sat by (auto simp: loaded_def s0 new_solver_sat p sat_cnf_def)
  have "Native_addBaseProblem ?p s0 = Some (s0\<lparr>sv := v\<rparr>)" using v(1) by (simp add: Native_addBaseProblem_def on_solver_def addObjectiveFunction_def p(2))
  then show ?thesis using r inv sat s0 by (auto simp: s0_def)
qed

theorem cnf_text_loaded_witness:
  "\<exists>n cls s. read_cnf_file [''c a comment'', ''p cnf 3 2'', ''1 -3 0'', ''-1 0''] = Some (n, cls)
    \<and> Native_addBaseProblem (cnf_to_pb_problem cls) (NativeBackend_new nat_floats n) = Some s
    \<and> (\<forall>\<sigma>. db_sat \<sigma> (sv s) \<longleftrightarrow> sat_cnf \<sigma> [[1, -3], [-1]])"
proof -
  have "cnf_text ['' a comment''] 3 [[1, -3], [-1]] = [''c a comment'', ''p cnf 3 2'', ''1 -3 0'', ''-1 0'']" by code_simp
  then show ?thesis using cnf_text_loaded [of 3 "[[1, -3], [-1]]" "['' a comment'']" nat_floats] by simp blast
qed

end
