(* ===== verification/Spec2Isabelle.thy ===== *)
theory Spec2Isabelle
  imports BinarySearch Schedule NativeLookahead MasterOrders Loading
begin

text \<open>
  CubeConquerPB is a distributed solver for pseudo-Boolean problems (linear inequalities over 0/1
  variables, with or without a linear objective) and for CNF. One MPI process, the master, reads
  the problem, collects cubes (lists of assumed literals) from the others and hands them out; one
  process works on the original problem, the rest on cubes. Behind the interface
  \<open>ISolverBackend\<close> a process uses CaDiCaL, RoundingSat, or the solver of this repository, a
  conflict-driven solver with counter propagation and cutting planes. This development covers the
  program in \<open>src/src\<close>.

  Which theory models which part.

  \<^item> \<open>Prelude\<close>: literals, assignments, weighted sums (\<open>msum\<close>) and the list facts used everywhere.
  \<^item> \<open>WConstraint\<close> (\<open>WConstraint.h\<close>, \<open>Functions.h\<close>), \<open>Simplify\<close> (\<open>Constraint.h\<close>: saturation, gcd
    division, merging of repeated variables), \<open>BinarySearch\<close> (the two searches of \<open>WConstraint.h\<close>),
    \<open>Problem\<close> (\<open>PBProblem\<close> of \<open>Parser.h\<close>, and how \<open>cubePB.cpp\<close> builds constraints, objective bounds
    and the problem of a CNF): working constraints and the input pipeline. Its results are
    equivalences, with the exact condition under which normalising and simplifying keep the meaning
    (\<open>input_pipeline_exact\<close>), and the inequalities that the \<open>int\<close> arithmetic of the reader loses
    (\<open>overflowing_inequality_dropped\<close>).
  \<^item> \<open>PBConstraint\<close> (\<open>PBConstraint.h\<close>, \<open>Clause.h\<close>): the flat blocks of memory and their refinement to
    the records the solver theories use. \<open>Reason\<close> (\<open>Reason.h\<close>): the packed reason word.
    \<open>Model\<close> (\<open>Model.h\<close>, \<open>Model.cpp\<close>): the trail. \<open>MaxHeap\<close> (\<open>MaxHeap.h\<close>, \<open>.cpp\<close>): the heap of scores.
    \<open>Schedule\<close>: \<open>luby\<close> of \<open>Solver.cpp\<close> and \<open>compute_split_time_limit\<close> of \<open>cubePB.cpp\<close>.
  \<^item> \<open>Solver\<close> (\<open>Solver.h\<close>, \<open>DBAddition.cpp\<close>, \<open>ConstraintValue.cpp\<close> and the trail operations of
    \<open>Solver.cpp\<close>): the record \<open>solver\<close> has the fields of the class that propagation touches.
    \<open>SolverInv\<close>: the invariant \<open>solver_inv\<close> (well-formed trail and database, complete watch and
    occurrence lists, exact counters, every literal of the trail justified) under these operations.
  \<^item> \<open>Propagate\<close> (\<open>Propagate.cpp\<close>), \<open>PropagateInv\<close>, \<open>PropagateFix\<close>: unit propagation terminates,
    keeps the invariant, derives only consequences, reports only real conflicts, and without a
    conflict leaves nothing to propagate.
  \<^item> \<open>Cut\<close>, \<open>Levels\<close>, \<open>Shorten\<close>, \<open>Conflict\<close> (\<open>ConflictAnalysis.cpp\<close>): cuts at the width of the machine
    integers, weakening, the level to jump to, clause shortening, the loop of conflict analysis.
    \<open>CutSound\<close>, \<open>ConflictPop\<close> and \<open>ConflictDerive\<close> prepare \<open>ConflictSound\<close>: everything learned follows from
    the database, and a conflict that is left is real, when no linear constraint of the database contains a
    literal that level zero makes true (\<open>pbs_unit_free\<close>). Without the condition \<open>removeUnits\<close> can leave a
    constraint unsaturated, and \<open>overflow_cut_unsound\<close> is a cut of such constraints that overflows.
    \<open>Cleanup\<close> (\<open>Cleanup.cpp\<close>) and \<open>CleanupSound\<close>: the pass that simplifies the database by the trail of level
    zero and throws lemmas away keeps the solutions among the assignments that agree with the trail.
    \<open>Search\<close> (\<open>Branching.cpp\<close>, \<open>Strategy.h\<close> and the rest of the fields of \<open>Solver.h\<close>): the record
    \<open>search\<close> around \<open>solver\<close>, and the choice of decisions.
  \<^item> \<open>CubeAPI\<close> (\<open>CubeConquerAPI.cpp\<close>, \<open>NativeBackend.cpp\<close>): loading constraints, assuming and taking
    back literals. \<open>Cubes\<close> (\<open>generate_cubes\<close> of \<open>cubePB.cpp\<close>): lookahead over an abstract solver, the
    locale \<open>lookahead_backend\<close>. \<open>NativeLookahead\<close> interprets that locale on the solver of \<open>CubeAPI\<close>:
    the cubes of all workers together cover every solution. \<open>NativeSolve\<close> (\<open>solve\<close> and the objective in
    \<open>Solver.cpp\<close>, the callbacks and the rest of \<open>NativeBackend.cpp\<close>) is the search loop, \<open>NativeReport\<close>
    what it reports: the rewritten objective, the step at a new solution with the bound it adds to the
    database or raises there, and the solution that a decision problem loses.
  \<^item> \<open>Protocol\<close>, \<open>Master\<close>, \<open>Worker\<close> (\<open>cubePB.cpp\<close>): messages, the master, both kinds of worker.
    \<open>MasterInv\<close> states the contract \<open>honest\<close> of the workers and the invariant of the master;
    \<open>MasterRun\<close> has the runs as inductive reachability over arbitrary arrivals, the invariant that no
    solution is lost, and the correctness of the printed result; \<open>MasterOrders\<close> that workers have the cubes they are counted for and that
    the master never waits for nobody. \<open>WorkerHonest\<close> shows of a worker
    over a sound solver which of its messages keep \<open>honest\<close>: the report of the original problem always, that
    of a cube except for result 15, the messages of a split except for a satisfiable decision problem.
    \<open>Backends\<close> (\<open>CadicalBackend.cpp\<close>, \<open>RoundingSatBackend.cpp\<close>): RoundingSat's backend is a sound solver, and
    the answers of CaDiCaL's are right, for libraries that behave as the hypotheses say.
  \<^item> \<open>Input\<close> (\<open>Parser.cpp\<close>, \<open>read_cnf_file\<close> of \<open>cubePB.cpp\<close>, \<open>CnfToOpb.cc\<close>): the readers of OPB, LP and CNF
    text and the converter, as functions of the lines of a file. \<open>InputSound\<close>: what is read is what was
    written. \<open>Driver\<close> (the rest of \<open>main\<close> and of the printing of \<open>cubePB.cpp\<close>, \<open>main.cpp\<close>, the readers of
    \<open>Strategy.h\<close>): options, configuration, choice of the backend, the printed answer. \<open>Loading\<close>: from the text of a problem
    to the database of the native backend, which has exactly the solutions and the objective of the text.

  How the code is rendered.

  \<^item> An object is a record, a call that mutates it returns the new record. A \<open>vector\<close> is a list, a
    pair of vectors for positive and negative literals is one function of the literal. A parameter passed by
    value is a copy: the variable of the caller is what it was.
  \<^item> Integers are unbounded except where the width decides the result: the linear inequalities of the reader
    and of the objective bounds (\<open>wrap 32\<close> at every operation; \<open>geq_fits\<close> is the range in which they are
    exact), the packed reasons, the cuts (\<open>wrap 32\<close> and \<open>wrap 64\<close>), the Luby and time schedules, the narrowing
    of RoundingSat's coefficients, and \<open>INT_MAX\<close> as a cap. The statements about the rest, the sums of
    \<open>removeDuplicates\<close> among them, hold as long as no sum leaves the range of its C++ type. An overflow
    that C++ leaves undefined is modelled as wrapping around.
  \<^item> A division by zero, an index out of range that the code relies on never to happen, \<open>exit\<close>, and a
    message that does not fit are \<open>None\<close> or a constructor of their own. Loops whose end needs an
    argument are \<open>function\<close>s with a measure; propagation and cube generation are
    \<open>partial_function (option)\<close>, and that they return is a theorem, so no fuel is used.
  \<^item> \<open>std::sort\<close> is the stable \<open>sort_key\<close>; what \<open>std::priority_queue\<close> and the heap choose among
    equals, \<open>rand()\<close>, the clock, floating-point arithmetic and the arrival of MPI messages are
    parameters over which the theorems quantify.
  \<^item> CaDiCaL and RoundingSat are records of functions with named hypotheses about them, each of
    which a witness instantiates. Of CaDiCaL only the result codes are relied on: nothing is assumed about
    \<open>Solver::value\<close>, an undocumented accessor that the backend reads its solution from. RoundingSat's bound may be the
    cost of the solution it holds or the external bound its callback was told.
  \<^item> Counters that are only printed, and printing itself, are left out. The debugging code behind
    \<open>assert\<close> is left out; where an assertion matters the invariant implies it.

  Not modelled: the measurement of memory and time, signal handling, the printing of statistics and of
  progress, and the names of variables the solver keeps for debugging. The results of
  \<open>minNumWatchesCleanup\<close>, which nobody reads, are left out. Not proved: the end-to-end soundness of the
  native search loop. Its steps are proved one by one, but after a cleanup the reasons of the literals of
  level zero point into the old database, so \<open>solver_inv\<close> is not claimed across it. The vendored solvers
  \<open>cadical-api\<close> and \<open>roundingsat-dev-ipasir\<close> are third-party code.
\<close>

end
